(* ===== verification/Prelude.thy ===== *)
theory Prelude
  imports Main "HOL-Library.Word"
begin

text \<open>
  Shared vocabulary of the zstdx development.

  \<^item> Types: bytes and machine words (\<open>u8\<close> to \<open>u64\<close>); Rust's \<open>usize\<close> counters
    and indices are \<open>nat\<close> (address-space overflow is not modelled, buffers are lists).
  \<^item> \<open>res\<close>: the outcome of a Rust operation.  \<open>Ok\<close> and \<open>Err\<close> are the two arms
    of \<open>Result\<close>; \<open>Panic\<close> is a failed \<open>assert!\<close>, an out-of-range slice index
    or an underflowing \<open>usize\<close> subtraction.
  \<^item> Bit strings: a byte buffer read as the list of its bits, least significant bit of the
    first byte first.  This is the abstract domain all readers and writers refine to.
\<close>

unbundle bit_operations_syntax

type_synonym u8 = "8 word"
type_synonym u16 = "16 word"
type_synonym u32 = "32 word"
type_synonym u64 = "64 word"
type_synonym bytes = "u8 list"
type_synonym bits = "bool list"

named_theorems res_simps \<open>evaluation of the outcome combinators\<close>

section \<open>Outcomes\<close>

datatype ('e, 'a) res = Ok 'a | Err 'e | Panic

primrec rbind :: "('e, 'a) res \<Rightarrow> ('a \<Rightarrow> ('e, 'b) res) \<Rightarrow> ('e, 'b) res" where
  "rbind (Ok x) f = f x"
| "rbind (Err e) f = Err e"
| "rbind Panic f = Panic"

primrec rmap_err :: "('e \<Rightarrow> 'f) \<Rightarrow> ('e, 'a) res \<Rightarrow> ('f, 'a) res" where
  "rmap_err g (Ok x) = Ok x"
| "rmap_err g (Err e) = Err (g e)"
| "rmap_err g Panic = Panic"

definition rassert :: "bool \<Rightarrow> ('e, unit) res" where
  "rassert b = (if b then Ok () else Panic)"

definition rindex :: "'a list \<Rightarrow> nat \<Rightarrow> ('e, 'a) res" where
  "rindex xs i = (if i < length xs then Ok (xs ! i) else Panic)"

definition ok_or :: "'e \<Rightarrow> 'a option \<Rightarrow> ('e, 'a) res" where
  "ok_or e x = (case x of None \<Rightarrow> Err e | Some v \<Rightarrow> Ok v)"

text \<open>A call that cannot return an error, in a context with another error type.\<close>

primrec infallible :: "(unit, 'a) res \<Rightarrow> ('e, 'a) res" where
  "infallible (Ok x) = Ok x"
| "infallible (Err u) = Panic"
| "infallible Panic = Panic"

definition is_ok :: "('e, 'a) res \<Rightarrow> bool" where
  "is_ok r = (case r of Ok _ \<Rightarrow> True | _ \<Rightarrow> False)"

lemma rbind_eq_Ok: "rbind m f = Ok y \<longleftrightarrow> (\<exists>x. m = Ok x \<and> f x = Ok y)"
  by (cases m) auto

lemma rbind_eq_Panic: "rbind m f = Panic \<longleftrightarrow> m = Panic \<or> (\<exists>x. m = Ok x \<and> f x = Panic)"
  by (cases m) auto

lemma rbind_assoc: "rbind (rbind m f) g = rbind m (\<lambda>x. rbind (f x) g)"
  by (cases m) auto

lemma rassert_simps [simp]: "rassert True = Ok ()" "rassert False = Panic"
  by (simp_all add: rassert_def)

lemma rassert_eq_Ok [simp]: "rassert b = Ok u \<longleftrightarrow> b"
  by (simp add: rassert_def)

lemma rassert_not_Err [simp]: "rassert b \<noteq> Err e"
  by (simp add: rassert_def)

lemma rbind_rassert: "rbind (rassert b) f = (if b then f () else Panic)"
  by (simp add: rassert_def)

lemma rindex_ok [simp]: "i < length xs \<Longrightarrow> rindex xs i = Ok (xs ! i)"
  by (simp add: rindex_def)

lemma rindex_panic [simp]: "length xs \<le> i \<Longrightarrow> rindex xs i = Panic"
  by (simp add: rindex_def)

lemma rindex_eq_Ok: "rindex xs i = Ok x \<longleftrightarrow> i < length xs \<and> x = xs ! i"
  by (auto simp: rindex_def)

lemma rindex_not_Err [simp]: "rindex xs i \<noteq> Err e"
  by (simp add: rindex_def)

declare rbind_rassert [res_simps] rbind_assoc [res_simps] rbind_eq_Ok [res_simps]

section \<open>Bytes as bit strings\<close>

definition byte_bits :: "u8 \<Rightarrow> bits" where
  "byte_bits b = map (bit b) [0..<8]"

definition bytes_bits :: "bytes \<Rightarrow> bits" where
  "bytes_bits bs = concat (map byte_bits bs)"

text \<open>The low \<open>n\<close> bits of a value, least significant first, and the value of a bit string.\<close>

definition val_bits :: "nat \<Rightarrow> nat \<Rightarrow> bits" where
  "val_bits n v = map (bit v) [0..<n]"

definition word_bits :: "nat \<Rightarrow> u64 \<Rightarrow> bits" where
  "word_bits n w = map (bit w) [0..<n]"

definition bits_val :: "bits \<Rightarrow> nat" where
  "bits_val bs = horner_sum of_bool 2 bs"

definition bits_word :: "bits \<Rightarrow> u64" where
  "bits_word bs = horner_sum of_bool 2 bs"

lemma length_byte_bits [simp]: "length (byte_bits b) = 8"
  by (simp add: byte_bits_def)

lemma length_bytes_bits [simp]: "length (bytes_bits bs) = 8 * length bs"
  by (induction bs) (simp_all add: bytes_bits_def)

lemma bytes_bits_simps [simp]:
  "bytes_bits [] = []" "bytes_bits (b # bs) = byte_bits b @ bytes_bits bs"
  "bytes_bits (xs @ ys) = bytes_bits xs @ bytes_bits ys"
  by (simp_all add: bytes_bits_def)

lemma nth_byte_bits [simp]: "i < 8 \<Longrightarrow> byte_bits b ! i = bit b i"
  by (simp add: byte_bits_def)

lemma nth_byte_bits_iff: "i < 8 \<and> byte_bits b ! i \<longleftrightarrow> bit b i"
proof (cases "i < 8")
  case False
  then show ?thesis by (auto dest: bit_imp_le_length)
qed (simp add: byte_bits_def)

lemma nth_byte_bits_bit: "bit b i \<Longrightarrow> byte_bits b ! i"
  using nth_byte_bits_iff by blast

lemma bit_low_mask [simp]: "bit (2 ^ n - 1 :: 'a::len word) i \<longleftrightarrow> i < n \<and> i < LENGTH('a)"
  by (auto simp: bit_mask_iff simp flip: mask_eq_exp_minus_1)

lemma nth_bytes_bits:
  "i < 8 * length bs \<Longrightarrow> bytes_bits bs ! i = bit (bs ! (i div 8)) (i mod 8)"
proof (induction bs arbitrary: i)
  case Nil
  then show ?case by simp
next
  case (Cons b bs)
  show ?case
  proof (cases "i < 8")
    case True
    then show ?thesis by (simp add: nth_append)
  next
    case False
    then have "i div 8 = Suc ((i - 8) div 8)" "i mod 8 = (i - 8) mod 8"
      by (simp_all add: le_div_geq le_mod_geq)
    with False Cons show ?thesis by (simp add: nth_append)
  qed
qed

lemma length_val_bits [simp]: "length (val_bits n v) = n"
  by (simp add: val_bits_def)

lemma length_word_bits [simp]: "length (word_bits n w) = n"
  by (simp add: word_bits_def)

lemma nth_val_bits [simp]: "i < n \<Longrightarrow> val_bits n v ! i = bit v i"
  by (simp add: val_bits_def)

lemma nth_word_bits [simp]: "i < n \<Longrightarrow> word_bits n w ! i = bit w i"
  by (simp add: word_bits_def)

lemma val_bits_0 [simp]: "val_bits 0 v = []"
  by (simp add: val_bits_def)

lemma word_bits_0 [simp]: "word_bits 0 w = []"
  by (simp add: word_bits_def)

lemma bit_bits_val: "bit (bits_val bs) i \<longleftrightarrow> i < length bs \<and> bs ! i"
  by (simp add: bits_val_def bit_horner_sum_bit_iff)

lemma bit_bits_word: "bit (bits_word bs) i \<longleftrightarrow> i < 64 \<and> i < length bs \<and> bs ! i"
  by (auto simp: bits_word_def bit_horner_sum_bit_iff)

lemma bits_val_Nil [simp]: "bits_val [] = 0"
  by (simp add: bits_val_def)

lemma bits_val_Cons: "bits_val (b # bs) = of_bool b + 2 * bits_val bs"
  by (simp add: bits_val_def)

lemma bits_val_append: "bits_val (xs @ ys) = bits_val xs + 2 ^ length xs * bits_val ys"
  by (simp add: bits_val_def horner_sum_append)

lemma bits_val_val_bits: "bits_val (val_bits n v) = take_bit n v"
  by (rule bit_eqI) (auto simp: bit_bits_val bit_take_bit_iff)

lemma val_bits_bits_val [simp]: "val_bits (length bs) (bits_val bs) = bs"
  by (rule nth_equalityI) (simp_all add: bit_bits_val)

lemma bits_val_less: "bits_val bs < 2 ^ length bs"
proof -
  have "take_bit (length bs) (bits_val bs) = bits_val bs"
    by (rule bit_eqI) (auto simp: bit_take_bit_iff bit_bits_val)
  then show ?thesis by (metis take_bit_nat_less_exp)
qed

lemma val_bits_eq_iff: "v < 2 ^ n \<Longrightarrow> w < 2 ^ n \<Longrightarrow> val_bits n v = val_bits n w \<longleftrightarrow> v = w"
  by (metis bits_val_val_bits take_bit_nat_eq_self_iff)

lemma unat_bits_word: "length bs \<le> 64 \<Longrightarrow> unat (bits_word bs) = bits_val bs"
  by (rule bit_eqI) (auto simp: bit_unsigned_iff bit_bits_word bit_bits_val)

lemma unat_less_take_bit: "unat (w :: u64) < 2 ^ n \<Longrightarrow> take_bit n w = w"
proof -
  assume "unat w < 2 ^ n"
  then have "unat (take_bit n w) = unat w"
    by (simp add: unsigned_take_bit_eq take_bit_nat_eq_self)
  then show "take_bit n w = w" by (simp only: word_unat_eq_iff)
qed

lemma unat_pow2: "n < 64 \<Longrightarrow> unat (2 ^ n :: u64) = 2 ^ n"
proof -
  assume "n < 64"
  then have "(2 :: nat) ^ n < 2 ^ 64" by (intro power_strict_increasing) simp_all
  then have "unat (of_nat (2 ^ n) :: u64) = 2 ^ n" by (simp only: unat_of_nat) simp
  then show ?thesis by simp
qed

lemma bits_word_word_bits: "n \<le> 64 \<Longrightarrow> bits_word (word_bits n w) = take_bit n w"
  by (rule bit_word_eqI) (auto simp: bit_bits_word bit_take_bit_iff)

lemma word_bits_unat: "word_bits n w = val_bits n (unat w)" if "n \<le> 64"
  using that by (intro nth_equalityI) (auto simp: bit_unsigned_iff)

text \<open>Splitting a field: the low part first, the shifted rest after it.\<close>

lemma word_bits_add: "word_bits (m + n) w = word_bits m w @ word_bits n (drop_bit m w)"
  by (rule nth_equalityI) (auto simp: nth_append bit_drop_bit_eq)

lemma val_bits_add: "val_bits (m + n) v = val_bits m v @ val_bits n (drop_bit m v)"
  by (rule nth_equalityI) (auto simp: nth_append bit_drop_bit_eq)

lemma byte_bits_ucast: "byte_bits (ucast (w :: u64)) = word_bits 8 w"
  by (rule nth_equalityI) (auto simp: bit_ucast_iff)

section \<open>Little-endian integers\<close>

text \<open>\<open>to_le_bytes\<close> and \<open>from_le_bytes\<close> of Rust's integers.\<close>

definition u64_to_le_bytes :: "u64 \<Rightarrow> bytes" where
  "u64_to_le_bytes w = map (\<lambda>i. ucast (drop_bit (8 * i) w)) [0..<8]"

definition u64_from_le_bytes :: "bytes \<Rightarrow> u64" where
  "u64_from_le_bytes bs = bits_word (bytes_bits bs)"

lemma length_u64_to_le_bytes [simp]: "length (u64_to_le_bytes w) = 8"
  by (simp add: u64_to_le_bytes_def)

lemma bytes_bits_u64_to_le_bytes: "bytes_bits (u64_to_le_bytes w) = word_bits 64 w"
  by (rule nth_equalityI)
    (auto simp: nth_bytes_bits u64_to_le_bytes_def bit_ucast_iff bit_drop_bit_eq
      simp del: upt_conv_Cons simp flip: mult.commute)

lemma take_bytes_bits: "take (8 * k) (bytes_bits bs) = bytes_bits (take k bs)"
  by (rule nth_equalityI) (auto simp: nth_bytes_bits)

lemma drop_bytes_bits: "drop (8 * k) (bytes_bits bs) = bytes_bits (drop k bs)"
  by (metis append_take_drop_id bytes_bits_simps(3) take_bytes_bits same_append_eq)

lemma bytes_bits_inject [simp]: "bytes_bits xs = bytes_bits ys \<longleftrightarrow> xs = ys"
proof
  assume eq: "bytes_bits xs = bytes_bits ys"
  then have len: "length xs = length ys"
    by (metis length_bytes_bits mult_cancel1 zero_neq_numeral)
  show "xs = ys"
  proof (rule nth_equalityI [OF len])
    fix i assume i: "i < length xs"
    show "xs ! i = ys ! i"
    proof (rule bit_word_eqI)
      fix n assume "n < LENGTH(8)"
      then have n: "n < 8" by simp
      have "bytes_bits xs ! (8 * i + n) = bytes_bits ys ! (8 * i + n)" using eq by simp
      then show "bit (xs ! i) n = bit (ys ! i) n"
        using i n len by (simp add: nth_bytes_bits)
    qed
  qed
qed simp

text \<open>The unaligned load of \<open>bit_io/mod.rs\<close>; a read past the end of the slice is a \<open>Panic\<close>.\<close>

definition load_le64 :: "bytes \<Rightarrow> nat \<Rightarrow> ('e, u64) res" where
  "load_le64 src p = rbind (rassert (p + 8 \<le> length src)) (\<lambda>_.
     Ok (u64_from_le_bytes (take 8 (drop p src))))"

lemma bytes_of_word [simp]: "length bs = 8 \<Longrightarrow> u64_to_le_bytes (u64_from_le_bytes bs) = bs"
proof -
  assume l: "length bs = 8"
  have "word_bits 64 (bits_word (bytes_bits bs)) = bytes_bits bs"
    using l by (intro nth_equalityI) (simp_all add: bit_bits_word)
  then show ?thesis
    by (simp add: u64_from_le_bytes_def bytes_bits_u64_to_le_bytes flip: bytes_bits_inject)
qed

section \<open>Binary logarithm\<close>

text \<open>Rust's \<open>ilog2\<close>, on \<open>nat\<close>; the argument 0, where Rust panics, is guarded at each use.\<close>

fun ilog2 :: "nat \<Rightarrow> nat" where
  "ilog2 n = (if n \<le> 1 then 0 else Suc (ilog2 (n div 2)))"

declare ilog2.simps [simp del]

lemma ilog2_less: "0 < n \<Longrightarrow> n < 2 ^ k \<Longrightarrow> ilog2 n < k"
proof (induction n arbitrary: k rule: ilog2.induct)
  case (1 n)
  show ?case
  proof (cases "n \<le> 1")
    case True
    with "1.prems" show ?thesis by (cases k) (simp_all add: ilog2.simps)
  next
    case False
    with "1.prems" obtain k' where k: "k = Suc k'" by (cases k) auto
    with "1.prems" False have "n div 2 < 2 ^ k'" "0 < n div 2" by auto
    with "1.IH" False have "ilog2 (n div 2) < k'" by simp
    then show ?thesis using False k by (simp add: ilog2.simps [of n])
  qed
qed

lemma ilog2_upper: "n < 2 ^ Suc (ilog2 n)"
proof (induction n rule: ilog2.induct)
  case (1 n)
  then show ?case by (cases "n \<le> 1") (auto simp: ilog2.simps [of n])
qed

lemma ilog2_lower: "0 < n \<Longrightarrow> 2 ^ ilog2 n \<le> n"
proof (induction n rule: ilog2.induct)
  case (1 n)
  show ?case
  proof (cases "n \<le> 1")
    case False
    then have "2 ^ ilog2 (n div 2) \<le> n div 2" using 1 by simp
    then show ?thesis using False by (simp add: ilog2.simps [of n])
  qed (use 1 in \<open>simp add: ilog2.simps\<close>)
qed

lemma ilog2_pow2 [simp]: "ilog2 (2 ^ k) = k"
proof (rule antisym)
  show "ilog2 (2 ^ k) \<le> k" using ilog2_less [of "2 ^ k" "Suc k"] by simp
  have "(2::nat) ^ k < 2 ^ Suc (ilog2 (2 ^ k))" by (rule ilog2_upper)
  then have "k < Suc (ilog2 (2 ^ k))" by (rule power_less_imp_less_exp [rotated]) simp
  then show "k \<le> ilog2 (2 ^ k)" by simp
qed

lemma ilog2_eqI: "2 ^ k \<le> n \<Longrightarrow> n < 2 ^ Suc k \<Longrightarrow> ilog2 n = k"
proof (rule antisym)
  assume n: "2 ^ k \<le> n" "n < 2 ^ Suc k"
  then have "0 < n" by (metis less_le_trans zero_less_numeral zero_less_power)
  with n show "ilog2 n \<le> k" using ilog2_less by (metis less_Suc_eq_le)
  have "(2::nat) ^ k < 2 ^ Suc (ilog2 n)" by (rule le_less_trans [OF n(1) ilog2_upper])
  then have "k < Suc (ilog2 n)" by (rule power_less_imp_less_exp [rotated]) simp
  then show "k \<le> ilog2 n" by simp
qed

end
