(* ===== verification/Bit_Reader.thy ===== *)
theory Bit_Reader
  imports Prelude
begin

text \<open>
  The forward bit reader of \<open>bit_io/bit_reader.rs\<close>: an index counting the bits already
  read over a byte slice.  \<open>br_bits\<close> abstracts a reader to the bits it has still to serve;
  \<open>get_bits\<close>, which assembles the value from a partial first byte, whole bytes and a partial
  last byte, is shown to serve exactly the next \<open>n\<close> bits of that string.
\<close>

unbundle bit_operations_syntax

section \<open>The reader\<close>

record BitReader =
  br_idx :: nat
  br_source :: bytes

datatype GetBitsError =
    TooManyBits nat nat
  | NotEnoughRemainingBits nat nat

definition br_new :: "bytes \<Rightarrow> BitReader" where
  "br_new source = \<lparr>br_idx = 0, br_source = source\<rparr>"

definition br_total :: "BitReader \<Rightarrow> nat" where
  "br_total r = length (br_source r) * 8"

text \<open>
  The subtraction of \<open>bits_left\<close> is checked: it panics for an index behind the source.  \<open>br_left\<close>
  is its value, used in statements only.
\<close>

definition br_left :: "BitReader \<Rightarrow> nat" where
  "br_left r = length (br_source r) * 8 - br_idx r"

definition br_bits_left :: "BitReader \<Rightarrow> ('e, nat) res" where
  "br_bits_left r = rbind (rassert (br_idx r \<le> length (br_source r) * 8)) (\<lambda>_. Ok (length (br_source r) * 8 - br_idx r))"

lemma br_bits_left_eq: "br_bits_left r = (if br_idx r \<le> length (br_source r) * 8 then Ok (br_left r) else Panic)"
  by (simp add: br_bits_left_def br_left_def)

definition br_bits_read :: "BitReader \<Rightarrow> nat" where
  "br_bits_read r = br_idx r"

definition br_return_bits :: "BitReader \<Rightarrow> nat \<Rightarrow> (GetBitsError, BitReader) res" where
  "br_return_bits r n = rbind (rassert (n \<le> br_idx r)) (\<lambda>_. Ok (r\<lparr>br_idx := br_idx r - n\<rparr>))"

text \<open>The loop that collects full bytes: count, shift, value and reader.\<close>

fun br_full_bytes ::
  "nat \<Rightarrow> nat \<Rightarrow> u64 \<Rightarrow> BitReader \<Rightarrow> (GetBitsError, u64 \<times> nat \<times> BitReader) res" where
  "br_full_bytes 0 bit_shift value r = Ok (value, bit_shift, r)"
| "br_full_bytes (Suc k) bit_shift value r =
     rbind (rindex (br_source r) (br_idx r div 8)) (\<lambda>b.
       br_full_bytes k (bit_shift + 8) (value OR push_bit bit_shift (ucast b))
         (r\<lparr>br_idx := br_idx r + 8\<rparr>))"

definition br_get_bits :: "BitReader \<Rightarrow> nat \<Rightarrow> (GetBitsError, u64 \<times> BitReader) res" where
  "br_get_bits r n =
     (if n > 64 then Err (TooManyBits n 64)
      else rbind (br_bits_left r) (\<lambda>left.
      if left < n then Err (NotEnoughRemainingBits n left)
      else let old_idx = br_idx r;
               bits_left_in_current_byte = 8 - br_idx r mod 8;
               bits_not_needed_in_current_byte = 8 - bits_left_in_current_byte
           in rbind (rindex (br_source r) (br_idx r div 8)) (\<lambda>b.
              let value = ucast (drop_bit bits_not_needed_in_current_byte b) :: u64 in
              rbind
                (if bits_left_in_current_byte \<ge> n then
                   Ok (value AND (push_bit n 1 - 1), r\<lparr>br_idx := br_idx r + n\<rparr>)
                 else
                   let r = r\<lparr>br_idx := br_idx r + bits_left_in_current_byte\<rparr>;
                       full_bytes_needed = (n - bits_left_in_current_byte) div 8;
                       bits_in_last_byte_needed =
                         n - bits_left_in_current_byte - full_bytes_needed * 8
                   in rbind (rassert (bits_left_in_current_byte + full_bytes_needed * 8
                               + bits_in_last_byte_needed = n)) (\<lambda>_.
                      rbind (rassert (br_idx r mod 8 = 0)) (\<lambda>_.
                      rbind (br_full_bytes full_bytes_needed bits_left_in_current_byte value r)
                        (\<lambda>(value, bit_shift, r).
                      rbind (rassert (n - bit_shift = bits_in_last_byte_needed)) (\<lambda>_.
                      if bits_in_last_byte_needed > 0 then
                        rbind (rindex (br_source r) (br_idx r div 8)) (\<lambda>b.
                          let val_las_byte =
                                ucast b AND (push_bit bits_in_last_byte_needed 1 - 1) :: u64
                          in Ok (value OR push_bit bit_shift val_las_byte,
                                 r\<lparr>br_idx := br_idx r + bits_in_last_byte_needed\<rparr>))
                      else Ok (value, r))))))
                (\<lambda>(value, r).
                  rbind (rassert (br_idx r = old_idx + n)) (\<lambda>_. Ok (value, r))))))"

text \<open>
  Reads \<open>n\<close> bits and serves up to \<open>slack\<close> bits past the end as zeros; the index then
  lies past the end.
\<close>

definition br_get_bits_zero_padded ::
  "BitReader \<Rightarrow> nat \<Rightarrow> nat \<Rightarrow> (GetBitsError, u64 \<times> BitReader) res" where
  "br_get_bits_zero_padded r n slack =
     (let total = length (br_source r) * 8 in
      if br_idx r \<ge> total then Err (NotEnoughRemainingBits n 0)
      else let remaining = total - br_idx r in
        if remaining \<ge> n then br_get_bits r n
        else if n - remaining > slack then Err (NotEnoughRemainingBits n remaining)
        else rbind (br_get_bits r remaining) (\<lambda>(value, r).
               Ok (value, r\<lparr>br_idx := br_idx r + (n - remaining)\<rparr>)))"

section \<open>Abstraction: the bits still to serve\<close>

definition br_bits :: "BitReader \<Rightarrow> bits" where
  "br_bits r = drop (br_idx r) (bytes_bits (br_source r))"

lemma length_br_bits [simp]: "length (br_bits r) = br_left r"
  by (simp add: br_bits_def br_left_def mult.commute)

lemma br_bits_new [simp]: "br_bits (br_new source) = bytes_bits source"
  by (simp add: br_bits_def br_new_def)

lemma nth_br_bits:
  "i < br_left r \<Longrightarrow>
     br_bits r ! i = bit (br_source r ! ((br_idx r + i) div 8)) ((br_idx r + i) mod 8)"
  by (auto simp: br_bits_def br_left_def nth_bytes_bits)

lemma bits_word_snoc_step:
  assumes "value = bits_word xs" "length xs = s" "s + length ys \<le> 64"
  shows "value OR push_bit s (bits_word ys) = bits_word (xs @ ys)"
  by (rule bit_word_eqI)
    (use assms in \<open>auto simp: bit_or_iff bit_push_bit_iff bit_bits_word nth_append\<close>)

lemma ucast_byte_bits_word: "ucast (b :: u8) = bits_word (byte_bits b)"
  by (rule bit_word_eqI) (auto simp: bit_ucast_iff bit_bits_word nth_byte_bits_bit dest: bit_imp_le_length)

lemma byte_take_mask:
  "n \<le> 8 \<Longrightarrow> ucast (b :: u8) AND (push_bit n 1 - 1 :: u64) = bits_word (take n (byte_bits b))"
  by (rule bit_word_eqI)
    (auto simp: bit_and_iff bit_ucast_iff bit_bits_word nth_byte_bits_bit dest: bit_imp_le_length)

text \<open>The byte at a byte-aligned position is the next eight bits.\<close>

lemma br_bits_byte:
  assumes "br_idx r mod 8 = 0" "br_idx r < br_total r"
  shows "br_bits r = byte_bits (br_source r ! (br_idx r div 8))
           @ br_bits (r\<lparr>br_idx := br_idx r + 8\<rparr>)"
proof -
  let ?k = "br_idx r div 8"
  have k: "8 * ?k = br_idx r" "?k < length (br_source r)"
    using assms by (auto simp: br_total_def)
  have "drop (8 * ?k) (bytes_bits (br_source r)) = bytes_bits (drop ?k (br_source r))"
    by (rule drop_bytes_bits)
  also have "drop ?k (br_source r) = br_source r ! ?k # drop (Suc ?k) (br_source r)"
    using k by (simp add: Cons_nth_drop_Suc)
  also have "bytes_bits \<dots> = byte_bits (br_source r ! ?k) @ bytes_bits (drop (Suc ?k) (br_source r))"
    by simp
  also have "bytes_bits (drop (Suc ?k) (br_source r)) = drop (8 * Suc ?k) (bytes_bits (br_source r))"
    by (rule drop_bytes_bits [symmetric])
  finally show ?thesis using k by (simp add: br_bits_def add.commute)
qed

lemma br_full_bytes_correct:
  assumes "br_idx r mod 8 = 0" "8 * k \<le> br_left r"
    and "v = bits_word xs" "length xs = s" "s + 8 * k \<le> 64"
  shows "br_full_bytes k s v r =
    Ok (bits_word (xs @ take (8 * k) (br_bits r)), s + 8 * k, r\<lparr>br_idx := br_idx r + 8 * k\<rparr>)"
  using assms
proof (induction k arbitrary: s v r xs)
  case 0
  then show ?case by simp
next
  case (Suc k)
  let ?b = "br_source r ! (br_idx r div 8)" and ?r = "r\<lparr>br_idx := br_idx r + 8\<rparr>"
  have lt: "br_idx r < br_total r" "br_idx r div 8 < length (br_source r)"
    using Suc.prems by (auto simp: br_total_def br_left_def)
  have split: "br_bits r = byte_bits ?b @ br_bits ?r"
    using Suc.prems lt by (intro br_bits_byte)
  have "v OR push_bit s (ucast ?b) = bits_word (xs @ byte_bits ?b)"
    unfolding ucast_byte_bits_word by (rule bits_word_snoc_step) (use Suc.prems in auto)
  moreover have "(br_idx r + 8) mod 8 = 0" using Suc.prems by simp
  ultimately show ?case
    using Suc.IH [of ?r "bits_word (xs @ byte_bits ?b)" "xs @ byte_bits ?b" "s + 8"] Suc.prems lt
    by (simp add: split br_left_def add.commute add.left_commute)
qed

text \<open>The partly read current byte: its unread high bits, then the byte-aligned rest.\<close>

lemma br_bits_current_byte:
  assumes "br_idx r < br_total r"
  shows "br_bits r = drop (br_idx r mod 8) (byte_bits (br_source r ! (br_idx r div 8)))
           @ br_bits (r\<lparr>br_idx := br_idx r + (8 - br_idx r mod 8)\<rparr>)"
proof -
  let ?p = "br_idx r mod 8" and ?r = "r\<lparr>br_idx := br_idx r - br_idx r mod 8\<rparr>"
  have "br_idx r - ?p = 8 * (br_idx r div 8)" by (simp add: minus_mod_eq_mult_div)
  then have al: "br_idx ?r mod 8 = 0" "br_idx ?r div 8 = br_idx r div 8" by simp_all
  have "br_idx ?r < br_total ?r" using assms by (simp add: br_total_def)
  from br_bits_byte [OF al(1) this]
  have "br_bits ?r = byte_bits (br_source r ! (br_idx r div 8))
      @ br_bits (r\<lparr>br_idx := br_idx r - ?p + 8\<rparr>)"
    using al(2) by simp
  moreover have "br_bits r = drop ?p (br_bits ?r)"
    by (simp add: br_bits_def)
  moreover have "br_idx r - ?p + 8 = br_idx r + (8 - ?p)"
    using mod_less_divisor [of 8 "br_idx r"] mod_less_eq_dividend [of "br_idx r" 8] by linarith
  ultimately show ?thesis by simp
qed

lemma ucast_drop_bit_byte:
  "ucast (drop_bit p (b :: u8)) = bits_word (drop p (byte_bits b))"
proof (rule bit_word_eqI)
  fix n assume "n < LENGTH(64)"
  show "bit (ucast (drop_bit p b) :: u64) n \<longleftrightarrow> bit (bits_word (drop p (byte_bits b))) n"
    using \<open>n < LENGTH(64)\<close> bit_imp_le_length [of b "p + n"]
    by (cases "p + n < 8") (auto simp: bit_ucast_iff bit_drop_bit_eq bit_bits_word add.commute)
qed

lemma mask_bits_word:
  "n \<le> 64 \<Longrightarrow> bits_word xs AND (push_bit n 1 - 1) = bits_word (take n xs)"
  by (rule bit_word_eqI) (auto simp: bit_and_iff bit_bits_word)

lemma split_bit_count:
  fixes k n :: nat
  assumes "k < n"
  shows "k + (n - k) div 8 * 8 + (n - k - (n - k) div 8 * 8) = n"
    and "n - k - (n - k) div 8 * 8 < 8"
    and "n - (k + 8 * ((n - k) div 8)) = n - k - (n - k) div 8 * 8"
proof -
  have "n - k = (n - k) div 8 * 8 + (n - k) mod 8" by simp
  moreover have "n - k - (n - k) div 8 * 8 = (n - k) mod 8" by (rule minus_div_mult_eq_mod)
  ultimately show "k + (n - k) div 8 * 8 + (n - k - (n - k) div 8 * 8) = n"
    and "n - k - (n - k) div 8 * 8 < 8"
    using assms by linarith+
  show "n - (k + 8 * ((n - k) div 8)) = n - k - (n - k) div 8 * 8"
    by (simp add: mult.commute)
qed

lemma br_get_bits_correct:
  assumes n: "n \<le> 64" "n \<le> br_left r" and idx: "br_idx r < br_total r"
  shows "br_get_bits r n = Ok (bits_word (take n (br_bits r)), r\<lparr>br_idx := br_idx r + n\<rparr>)"
proof -
  define p where "p = br_idx r mod 8"
  define k where "k = 8 - p"
  define b where "b = br_source r ! (br_idx r div 8)"
  define xs where "xs = drop p (byte_bits b)"
  define r1 where "r1 = r\<lparr>br_idx := br_idx r + k\<rparr>"
  have p: "p < 8" "8 - k = p" and k: "k \<le> 8" by (simp_all add: p_def k_def)
  have xs: "length xs = k" by (simp add: xs_def k_def)
  have in_range: "br_idx r div 8 < length (br_source r)"
    using idx by (auto simp: br_total_def)
  have split: "br_bits r = xs @ br_bits r1"
    unfolding xs_def r1_def k_def p_def b_def using idx by (rule br_bits_current_byte)
  have v0: "ucast (drop_bit (8 - k) b) = bits_word xs"
    unfolding p(2) xs_def by (rule ucast_drop_bit_byte)
  have range: "br_idx r \<le> length (br_source r) * 8" using idx by (simp add: br_total_def)
  note get = br_get_bits_def br_bits_left_eq Let_def p_def [symmetric] k_def [symmetric]
  show ?thesis
  proof (cases "n \<le> k")
    case True
    have "bits_word xs AND (push_bit n 1 - 1) = bits_word (take n (br_bits r))"
      using True n xs by (subst mask_bits_word) (simp_all add: split)
    then show ?thesis
      using True n in_range range v0 by (simp add: get flip: b_def)
  next
    case False
    then have kn: "k < n" by simp
    define f where "f = (n - k) div 8"
    define l where "l = n - k - f * 8"
    define r2 where "r2 = r1\<lparr>br_idx := br_idx r1 + 8 * f\<rparr>"
    have sum: "k + f * 8 + l = n" "l < 8" "n - (k + 8 * f) = l"
      unfolding l_def f_def by (rule split_bit_count [OF kn])+
    have al: "br_idx r1 mod 8 = 0" "br_idx r2 mod 8 = 0"
    proof -
      have "br_idx r = 8 * (br_idx r div 8) + p" by (simp add: p_def)
      then have "br_idx r1 = 8 * (br_idx r div 8) + 8" using p(1) by (simp add: r1_def k_def)
      then show "br_idx r1 mod 8 = 0" by simp
      then show "br_idx r2 mod 8 = 0" by (simp add: r2_def)
    qed
    have left: "br_left r1 = br_left r - k" by (simp add: br_left_def r1_def)
    have fits: "8 * f \<le> br_left r1" "k + 8 * f \<le> 64" using sum n left by linarith+
    have full: "br_full_bytes f k (bits_word xs) r1
        = Ok (bits_word (xs @ take (8 * f) (br_bits r1)), k + 8 * f, r2)"
      unfolding r2_def using al fits xs by (intro br_full_bytes_correct) simp_all
    have bits2: "drop (8 * f) (br_bits r1) = br_bits r2"
      by (simp add: br_bits_def r2_def add.commute)
    have taken: "take n (br_bits r) = xs @ take (8 * f) (br_bits r1) @ take l (br_bits r2)"
    proof -
      have "take n (br_bits r) = xs @ take (8 * f + l) (br_bits r1)"
      proof -
        have "n - k = 8 * f + l" using sum by linarith
        then show ?thesis using kn xs by (simp add: split)
      qed
      then show ?thesis by (simp only: take_add bits2)
    qed
    have idx_n: "br_idx r2 + l = br_idx r + n" using sum by (simp add: r2_def r1_def)
    have src: "br_source r2 = br_source r" by (simp add: r2_def r1_def)
    have body: "br_get_bits r n = rbind
        (rbind (br_full_bytes f k (bits_word xs) r1) (\<lambda>(value, bit_shift, r).
           rbind (rassert (n - bit_shift = l)) (\<lambda>_.
             if l > 0 then rbind (rindex (br_source r) (br_idx r div 8)) (\<lambda>b.
               Ok (value OR push_bit bit_shift (ucast b AND (push_bit l 1 - 1)),
                   r\<lparr>br_idx := br_idx r + l\<rparr>))
             else Ok (value, r))))
        (\<lambda>(value, r'). rbind (rassert (br_idx r' = br_idx r + n)) (\<lambda>_. Ok (value, r')))"
    proof -
      have l_eq: "n - (k + f * 8) = l" "n - k - f * 8 = l" by (simp_all add: l_def)
      have cur: "\<not> n \<le> k" "\<not> 64 < n" "\<not> br_left r < n" using kn n by simp_all
      show ?thesis
        unfolding get f_def [symmetric] l_eq
        using cur in_range range v0 al(1) sum by (simp add: r1_def l_eq flip: b_def)
    qed
    show ?thesis
    proof (cases "l = 0")
      case True
      have "r2 = r\<lparr>br_idx := br_idx r + n\<rparr>" using idx_n True by (simp add: r2_def r1_def)
      then show ?thesis
        unfolding body full using True sum idx_n taken by simp
    next
      case l: False
      define c where "c = br_source r ! (br_idx r2 div 8)"
      have lt2: "br_idx r2 < br_total r2" "br_idx r2 div 8 < length (br_source r)"
      proof -
        have "br_idx r2 < length (br_source r) * 8"
          using l idx_n n(2) idx unfolding br_total_def br_left_def by linarith
        then show "br_idx r2 < br_total r2" "br_idx r2 div 8 < length (br_source r)"
          by (simp_all add: br_total_def src less_mult_imp_div_less)
      qed
      have "take l (br_bits r2) = take l (byte_bits c)"
        using br_bits_byte [OF al(2) lt2(1)] sum(2) by (simp add: c_def src)
      moreover have "ucast c AND (push_bit l 1 - 1 :: u64) = bits_word (take l (byte_bits c))"
        using sum(2) by (intro byte_take_mask) simp
      ultimately have m: "ucast c AND (push_bit l 1 - 1 :: u64) = bits_word (take l (br_bits r2))"
        by simp
      have len: "length (xs @ take (8 * f) (br_bits r1)) = k + 8 * f" using fits xs by simp
      have "k + 8 * f + length (take l (br_bits r2)) \<le> 64" using sum n by simp
      then have val: "bits_word (xs @ take (8 * f) (br_bits r1))
          OR push_bit (k + 8 * f) (ucast c AND (push_bit l 1 - 1)) = bits_word (take n (br_bits r))"
        unfolding m taken append_assoc [symmetric]
        by (intro bits_word_snoc_step [OF refl len])
      have "r2\<lparr>br_idx := br_idx r2 + l\<rparr> = r\<lparr>br_idx := br_idx r + n\<rparr>"
        using idx_n by (simp add: r2_def r1_def)
      then show ?thesis
        unfolding body full using l sum idx_n val lt2 src by (simp flip: c_def)
    qed
  qed
qed

section \<open>Every branch of the reads\<close>

lemma br_get_bits_cases:
  "br_get_bits r n =
    (if n > 64 then Err (TooManyBits n 64)
     else if br_idx r > br_total r then Panic
     else if br_left r < n then Err (NotEnoughRemainingBits n (br_left r))
     else if br_idx r = br_total r then Panic
     else Ok (bits_word (take n (br_bits r)), r\<lparr>br_idx := br_idx r + n\<rparr>))"
proof (cases "n \<le> 64 \<and> n \<le> br_left r \<and> br_idx r < br_total r")
  case True
  then show ?thesis by (simp add: br_get_bits_correct)
next
  case False
  then show ?thesis
    by (auto simp: br_get_bits_def br_bits_left_eq br_total_def Let_def)
qed

lemma br_get_bits_OkD:
  assumes "br_get_bits r n = Ok (v, r')"
  shows "r' = r\<lparr>br_idx := br_idx r + n\<rparr>" "n \<le> br_left r" "n \<le> 64"
    "v = bits_word (take n (br_bits r))" "br_left r' = br_left r - n"
  using assms by (auto simp: br_get_bits_cases br_left_def split: if_splits)

text \<open>
  C9.  Every branch of \<open>get_bits\<close>: more than 64 bits and more bits than remain are the two
  errors, a reader whose index has been moved past the source or a read (necessarily of zero
  bits) at its very end panics, and otherwise the value is exactly the next \<open>n\<close> bits of the
  stream, first stream bit least significant, and the index moves by \<open>n\<close>.
\<close>

theorem br_get_bits_spec:
  "br_get_bits r n =
    (if n > 64 then Err (TooManyBits n 64)
     else if br_idx r > br_total r then Panic
     else if br_left r < n then Err (NotEnoughRemainingBits n (br_left r))
     else if br_idx r = br_total r then Panic
     else Ok (bits_word (take n (br_bits r)), r\<lparr>br_idx := br_idx r + n\<rparr>))"
  by (rule br_get_bits_cases)

lemma br_get_bits_zero_padded_eq:
  assumes "n \<le> 64" "br_idx r \<le> br_total r"
  shows "br_get_bits_zero_padded r n slack =
    (if br_idx r = br_total r then Err (NotEnoughRemainingBits n 0)
     else if n \<le> br_left r + slack
     then Ok (bits_word (take n (br_bits r)), r\<lparr>br_idx := br_idx r + n\<rparr>)
     else Err (NotEnoughRemainingBits n (br_left r)))"
  using assms
  by (auto simp: br_get_bits_zero_padded_def Let_def br_get_bits_correct br_total_def br_left_def)

lemma br_return_bits_undo:
  assumes "n \<le> br_idx r"
  shows "br_return_bits r n = Ok (r\<lparr>br_idx := br_idx r - n\<rparr>)"
  using assms by (simp add: br_return_bits_def)

end
