(* ===== verification/Bit_Reader_Reversed.thy ===== *)
theory Bit_Reader_Reversed
  imports Prelude
begin

text \<open>
  The back-to-front bit reader of \<open>bit_io/bit_reader_reverse.rs\<close>: a 64-bit container refilled
  in whole bytes from the end of the source, zero bits once the source is exhausted.  The
  abstract position is the (possibly negative) number of bits remaining; a read of \<open>n\<close> bits
  returns the \<open>n\<close> stream bits below the position, bits below the start of the stream being 0.
\<close>

unbundle bit_operations_syntax

section \<open>The reader\<close>

record BitReaderReversed =
  rr_index :: nat
  rr_bits_consumed :: nat
  rr_extra_bits :: nat
  rr_source :: bytes
  rr_bit_container :: u64

definition rr_bits_remaining :: "BitReaderReversed \<Rightarrow> int" where
  "rr_bits_remaining r =
     int (rr_index r) * 8 + (64 - int (rr_bits_consumed r)) - int (rr_extra_bits r)"

definition rr_new :: "bytes \<Rightarrow> BitReaderReversed" where
  "rr_new source = \<lparr>rr_index = length source, rr_bits_consumed = 64, rr_extra_bits = 0,
     rr_source = source, rr_bit_container = 0\<rparr>"

text \<open>
  \<open>refill\<close>, with its five exits: nothing consumed yet, a whole window below the index, the
  first bytes of the source, zeros after the source, zeros after an exhausted container.
\<close>

definition rr_refill :: "BitReaderReversed \<Rightarrow> (unit, BitReaderReversed) res" where
  "rr_refill r =
     (let bytes_consumed = rr_bits_consumed r div 8 in
      if bytes_consumed = 0 then Ok r
      else rbind
       (if rr_index r \<ge> bytes_consumed then
          let index = rr_index r - bytes_consumed in
          rbind (rassert (index + 8 \<le> length (rr_source r))) (\<lambda>_.
            Ok (r\<lparr>rr_index := index,
                  rr_bits_consumed := rr_bits_consumed r mod 8,
                  rr_bit_container := u64_from_le_bytes (take 8 (drop index (rr_source r)))\<rparr>))
        else if rr_index r > 0 then
          let container =
                (if length (rr_source r) \<ge> 8 then u64_from_le_bytes (take 8 (rr_source r))
                 else u64_from_le_bytes (rr_source r @ replicate (8 - length (rr_source r)) 0));
              bits_consumed = rr_bits_consumed r - 8 * rr_index r
          in Ok (r\<lparr>rr_index := 0, rr_bits_consumed := 0,
                   rr_extra_bits := rr_extra_bits r + bits_consumed,
                   rr_bit_container := push_bit bits_consumed container\<rparr>)
        else if rr_bits_consumed r < 64 then
          Ok (r\<lparr>rr_bit_container := push_bit (rr_bits_consumed r) (rr_bit_container r),
                rr_extra_bits := rr_extra_bits r + rr_bits_consumed r,
                rr_bits_consumed := 0\<rparr>)
        else
          Ok (r\<lparr>rr_extra_bits := rr_extra_bits r + rr_bits_consumed r,
                rr_bits_consumed := 0, rr_bit_container := 0\<rparr>))
       (\<lambda>r. rbind (rassert (rr_bits_consumed r < 8)) (\<lambda>_. Ok r)))"

definition rr_peek_bits :: "BitReaderReversed \<Rightarrow> nat \<Rightarrow> (unit, u64) res" where
  "rr_peek_bits r n =
     (if n = 0 then Ok 0
      else rbind (rassert (rr_bits_consumed r + n \<le> 64)) (\<lambda>_.
        let mask = push_bit n 1 - 1; shift_by = 64 - rr_bits_consumed r - n
        in Ok (drop_bit shift_by (rr_bit_container r) AND mask)))"

definition rr_consume :: "BitReaderReversed \<Rightarrow> nat \<Rightarrow> (unit, BitReaderReversed) res" where
  "rr_consume r n =
     (let r = r\<lparr>rr_bits_consumed := rr_bits_consumed r + n\<rparr> in
      rbind (rassert (rr_bits_consumed r \<le> 64)) (\<lambda>_. Ok r))"

definition rr_get_bits :: "BitReaderReversed \<Rightarrow> nat \<Rightarrow> (unit, u64 \<times> BitReaderReversed) res" where
  "rr_get_bits r n =
     rbind (if rr_bits_consumed r + n > 64 then rr_refill r else Ok r) (\<lambda>r.
     rbind (rr_peek_bits r n) (\<lambda>value.
     rbind (rr_consume r n) (\<lambda>r. Ok (value, r))))"

definition rr_peek_bits_refilled ::
  "BitReaderReversed \<Rightarrow> nat \<Rightarrow> (unit, u64 \<times> BitReaderReversed) res" where
  "rr_peek_bits_refilled r n =
     rbind (if rr_bits_consumed r + n > 64 then rr_refill r else Ok r) (\<lambda>r.
     rbind (rr_peek_bits r n) (\<lambda>value. Ok (value, r)))"

fun rr_skip_loop :: "nat \<Rightarrow> BitReaderReversed \<Rightarrow> (unit, bool \<times> BitReaderReversed) res" where
  "rr_skip_loop 0 r = Ok (False, r)"
| "rr_skip_loop (Suc k) r =
     rbind (rr_get_bits r 1) (\<lambda>(b, r). if b = 1 then Ok (True, r) else rr_skip_loop k r)"

definition rr_skip_padding_marker ::
  "BitReaderReversed \<Rightarrow> (unit, bool \<times> BitReaderReversed) res" where
  "rr_skip_padding_marker r = rr_skip_loop 8 r"

section \<open>Invariant and abstraction\<close>

text \<open>Stream bit at a signed position: outside the stream every bit is 0.\<close>

definition sbit :: "bits \<Rightarrow> int \<Rightarrow> bool" where
  "sbit bs i \<longleftrightarrow> 0 \<le> i \<and> i < int (length bs) \<and> bs ! nat i"

definition sbits :: "bits \<Rightarrow> int \<Rightarrow> nat \<Rightarrow> bits" where
  "sbits bs i n = map (\<lambda>k. sbit bs (i + int k)) [0..<n]"

definition rr_stream :: "BitReaderReversed \<Rightarrow> bits" where
  "rr_stream r = bytes_bits (rr_source r)"

text \<open>
  The unread part of the container mirrors the stream below the position, and the index is
  where the next refill may read.
\<close>

definition rr_inv :: "BitReaderReversed \<Rightarrow> bool" where
  "rr_inv r \<longleftrightarrow>
     rr_bits_consumed r \<le> 64 \<and>
     (rr_extra_bits r > 0 \<longrightarrow> rr_index r = 0) \<and>
     (rr_index r = 0 \<or> rr_index r + 8 \<le> length (rr_source r)
        \<or> rr_index r = length (rr_source r) \<and> rr_bits_consumed r = 64) \<and>
     (\<forall>k < 64 - rr_bits_consumed r. bit (rr_bit_container r) k =
        sbit (rr_stream r) (8 * int (rr_index r) - int (rr_extra_bits r) + int k))"

lemma length_sbits [simp]: "length (sbits bs i n) = n"
  by (simp add: sbits_def)

lemma nth_sbits [simp]: "k < n \<Longrightarrow> sbits bs i n ! k = sbit bs (i + int k)"
  by (simp add: sbits_def)

lemma rr_inv_new [simp]: "rr_inv (rr_new source)"
  by (auto simp: rr_inv_def rr_new_def)

lemma rr_bits_remaining_new [simp]: "rr_bits_remaining (rr_new source) = 8 * int (length source)"
  by (simp add: rr_bits_remaining_def rr_new_def)

lemma rr_stream_new [simp]: "rr_stream (rr_new source) = bytes_bits source"
  by (simp add: rr_stream_def rr_new_def)

lemma bit_u64_from_le_bytes:
  "bit (u64_from_le_bytes bs) k \<longleftrightarrow> k < 64 \<and> sbit (bytes_bits bs) (int k)"
  by (auto simp: u64_from_le_bytes_def bit_bits_word sbit_def)

lemma sbit_take_drop:
  "k < 64 \<Longrightarrow> sbit (bytes_bits (take 8 (drop i bs))) (int k) = sbit (bytes_bits bs) (8 * int i + int k)"
proof (cases "8 * i + k < 8 * length bs")
  case True
  then have "i < length bs" by simp
  assume "k < 64"
  then have "k div 8 < 8" by simp
  have "(8 * i + k) div 8 = i + k div 8" "(8 * i + k) mod 8 = k mod 8" by simp_all
  moreover have "nat (8 * int i + int k) = 8 * i + k" by simp
  moreover have "i + k div 8 < length bs" using True by linarith
  ultimately show ?thesis
    using True \<open>k < 64\<close> \<open>k div 8 < 8\<close> by (auto simp: sbit_def nth_bytes_bits)
next
  case False
  then show ?thesis by (auto simp: sbit_def)
qed

lemma sbit_padded:
  "sbit (bytes_bits bs @ bytes_bits (replicate n 0)) i = sbit (bytes_bits bs) i"
proof -
  have z: "bytes_bits (replicate n 0) ! k = False" if "k < 8 * n" for k
    using that by (simp add: nth_bytes_bits)
  show ?thesis
  proof (cases "8 * length bs \<le> nat i \<and> nat i < 8 * length bs + 8 * n")
    case True
    then have "nat i - 8 * length bs < 8 * n" by linarith
    with True show ?thesis using z [of "nat i - 8 * length bs"]
      by (auto simp: sbit_def nth_append)
  next
    case False
    then show ?thesis by (auto simp: sbit_def nth_append)
  qed
qed

lemma rr_refill_correct:
  assumes inv: "rr_inv r"
  shows "\<exists>r'. rr_refill r = Ok r' \<and> rr_inv r' \<and> rr_bits_remaining r' = rr_bits_remaining r
    \<and> rr_source r' = rr_source r \<and> rr_bits_consumed r' \<le> 7"
proof -
  let ?c = "rr_bits_consumed r" and ?i = "rr_index r" and ?e = "rr_extra_bits r"
  let ?bs = "bytes_bits (rr_source r)"
  from inv have c: "?c \<le> 64" and e: "?e > 0 \<Longrightarrow> ?i = 0"
    and i: "?i = 0 \<or> ?i + 8 \<le> length (rr_source r) \<or> ?i = length (rr_source r) \<and> ?c = 64"
    and w: "\<And>k. k < 64 - ?c \<Longrightarrow> bit (rr_bit_container r) k = sbit ?bs (8 * int ?i - int ?e + int k)"
    by (auto simp: rr_inv_def rr_stream_def)
  consider (none) "?c div 8 = 0" | (whole) "?c div 8 \<noteq> 0" "?c div 8 \<le> ?i"
    | (first) "?c div 8 \<noteq> 0" "?i < ?c div 8" "0 < ?i"
    | (zero) "?c div 8 \<noteq> 0" "?i = 0" "?c < 64" | (empty) "?i = 0" "?c = 64"
    using c by fastforce
  then show ?thesis
  proof cases
    case none
    then show ?thesis using inv by (auto simp: rr_refill_def)
  next
    case whole
    have "?c div 8 \<le> 8" using c by simp
    then have lim: "?i - ?c div 8 + 8 \<le> length (rr_source r)"
      using i whole by auto
    have "?e = 0" using e whole by (cases "?e = 0") auto
    have "int ?c = 8 * int (?c div 8) + int (?c mod 8)" by presburger
    then have "rr_bits_remaining (r\<lparr>rr_index := ?i - ?c div 8, rr_bits_consumed := ?c mod 8,
        rr_bit_container := x\<rparr>) = rr_bits_remaining r" for x
      using whole by (simp add: rr_bits_remaining_def of_nat_diff)
    moreover have "?c mod 8 < 8" by simp
    then have "?c mod 8 \<le> 7" by linarith
    ultimately show ?thesis
      using whole lim \<open>?e = 0\<close>
      by (auto simp: rr_refill_def Let_def rr_inv_def rr_stream_def bit_u64_from_le_bytes
          sbit_take_drop)
  next
    case first
    have "?e = 0" using e first by (cases "?e = 0") auto
    have le: "8 * ?i \<le> ?c" "?c - 8 * ?i < 64" using first c by linarith+
    have ld: "bit (if length (rr_source r) \<ge> 8 then u64_from_le_bytes (take 8 (rr_source r))
        else u64_from_le_bytes (rr_source r @ replicate (8 - length (rr_source r)) 0)) k
        = sbit ?bs (int k)" if "k < 64" for k
      using that sbit_take_drop [of k 0 "rr_source r"]
      by (auto simp: bit_u64_from_le_bytes sbit_padded)
    show ?thesis
      using first \<open>?e = 0\<close> le
      by (auto simp: rr_refill_def Let_def rr_inv_def rr_stream_def rr_bits_remaining_def
          bit_push_bit_iff ld of_nat_diff algebra_simps) (auto simp: sbit_def)
  next
    case zero
    show ?thesis
      using zero w
      by (auto simp: rr_refill_def Let_def rr_inv_def rr_stream_def rr_bits_remaining_def
          bit_push_bit_iff of_nat_diff algebra_simps) (auto simp: sbit_def diff_diff_eq)
  next
    case empty
    then show ?thesis
      by (auto simp: rr_refill_def Let_def rr_inv_def rr_stream_def rr_bits_remaining_def sbit_def)
  qed
qed

section \<open>Reads\<close>

definition rr_window :: "BitReaderReversed \<Rightarrow> nat \<Rightarrow> u64" where
  "rr_window r n = (if n = 0 then 0
     else drop_bit (64 - rr_bits_consumed r - n) (rr_bit_container r) AND (push_bit n 1 - 1))"

lemma rr_window_correct:
  assumes inv: "rr_inv r" and n: "rr_bits_consumed r + n \<le> 64"
  shows "rr_window r n = bits_word (sbits (rr_stream r) (rr_bits_remaining r - int n) n)"
proof (cases "n = 0")
  case True
  then show ?thesis by (simp add: rr_window_def sbits_def bits_word_def)
next
  case False
  show ?thesis
  proof (rule bit_word_eqI)
    fix k assume "k < LENGTH(64)"
    show "bit (rr_window r n) k
        \<longleftrightarrow> bit (bits_word (sbits (rr_stream r) (rr_bits_remaining r - int n) n)) k"
    proof (cases "k < n")
      case True
      define j where "j = 64 - rr_bits_consumed r - n + k"
      have "j < 64 - rr_bits_consumed r" using True n by (simp add: j_def)
      then have "bit (rr_bit_container r) j
          = sbit (rr_stream r) (8 * int (rr_index r) - int (rr_extra_bits r) + int j)"
        using inv by (simp add: rr_inv_def)
      moreover have "8 * int (rr_index r) - int (rr_extra_bits r) + int j
          = rr_bits_remaining r - int n + int k"
        using n by (simp add: rr_bits_remaining_def of_nat_diff j_def)
      ultimately have "bit (rr_bit_container r) j = sbit (rr_stream r) (rr_bits_remaining r - int n + int k)"
        by (simp only:)
      moreover have "bit (rr_window r n) k = bit (rr_bit_container r) j"
        using True \<open>n \<noteq> 0\<close> n
        by (simp add: rr_window_def bit_and_iff bit_drop_bit_eq j_def)
      ultimately show ?thesis
        using True n by (simp add: bit_bits_word)
    next
      case False
      then show ?thesis
        by (auto simp: rr_window_def bit_and_iff bit_bits_word)
    qed
  qed
qed

lemma rr_peek_bits_correct:
  assumes inv: "rr_inv r" and n: "rr_bits_consumed r + n \<le> 64"
  shows "rr_peek_bits r n = Ok (bits_word (sbits (rr_stream r) (rr_bits_remaining r - int n) n))"
  using n rr_window_correct [OF assms, symmetric]
  by (auto simp: rr_peek_bits_def rr_window_def Let_def rbind_rassert)

lemma rr_consume_correct:
  assumes "rr_inv r" "rr_bits_consumed r + n \<le> 64"
  shows "\<exists>r'. rr_consume r n = Ok r' \<and> rr_inv r' \<and> rr_bits_remaining r' = rr_bits_remaining r - int n
    \<and> rr_source r' = rr_source r"
  using assms by (auto simp: rr_inv_def rr_consume_def rr_bits_remaining_def rr_stream_def rbind_rassert)

lemma rr_get_bits_correct:
  assumes inv: "rr_inv r" and n: "n \<le> 57"
  shows "\<exists>r'. rr_get_bits r n
      = Ok (bits_word (sbits (rr_stream r) (rr_bits_remaining r - int n) n), r')
    \<and> rr_inv r' \<and> rr_source r' = rr_source r \<and> rr_bits_remaining r' = rr_bits_remaining r - int n"
proof (cases "rr_bits_consumed r + n > 64")
  case True
  obtain r1 where r1: "rr_refill r = Ok r1" "rr_inv r1" "rr_bits_remaining r1 = rr_bits_remaining r"
    "rr_source r1 = rr_source r" "rr_bits_consumed r1 \<le> 7"
    using rr_refill_correct [OF inv] by blast
  then have "rr_bits_consumed r1 + n \<le> 64" using n by linarith
  note peek = rr_peek_bits_correct [OF r1(2) this] and rest = rr_consume_correct [OF r1(2) this]
  show ?thesis
    using True r1 peek rest by (auto simp: rr_get_bits_def rr_stream_def)
next
  case False
  then have "rr_bits_consumed r + n \<le> 64" by simp
  note peek = rr_peek_bits_correct [OF inv this] and rest = rr_consume_correct [OF inv this]
  show ?thesis
    using False peek rest by (auto simp: rr_get_bits_def)
qed

lemma rr_get_bitsE:
  assumes "rr_inv r" "n \<le> 57"
  obtains r' where
    "rr_get_bits r n = Ok (bits_word (sbits (rr_stream r) (rr_bits_remaining r - int n) n), r')"
    "rr_inv r'" "rr_source r' = rr_source r" "rr_stream r' = rr_stream r"
    "rr_bits_remaining r' = rr_bits_remaining r - int n"
  using rr_get_bits_correct [OF assms] by (auto simp: rr_stream_def)

text \<open>A read that stays inside the stream returns a segment of it.\<close>

lemma sbits_inside:
  assumes "0 \<le> i" "i + int n \<le> int (length bs)"
  shows "sbits bs i n = take n (drop (nat i) bs)"
proof (rule nth_equalityI)
  fix k assume "k < length (sbits bs i n)"
  then have k: "k < n" "nat i + k < length bs" "nat (i + int k) = nat i + k"
    using assms by auto
  then show "sbits bs i n ! k = take n (drop (nat i) bs) ! k"
    using assms by (auto simp: sbit_def)
qed (use assms in auto)

lemma sbits_0 [simp]: "sbits bs i 0 = []"
  by (simp add: sbits_def)

lemma sbits_1: "sbits bs i (Suc 0) = [sbit bs i]"
  by (simp add: sbits_def)

lemma bits_word_single: "bits_word [b] = of_bool b"
  by (simp add: bits_word_def)

lemma rr_get_bit:
  assumes "rr_inv r"
  obtains r' where "rr_get_bits r 1 = Ok (of_bool (sbit (rr_stream r) (rr_bits_remaining r - 1)), r')"
    "rr_inv r'" "rr_source r' = rr_source r" "rr_stream r' = rr_stream r"
    "rr_bits_remaining r' = rr_bits_remaining r - 1"
proof -
  obtain r' where r': "rr_get_bits r 1
      = Ok (bits_word (sbits (rr_stream r) (rr_bits_remaining r - int 1) 1), r')"
    "rr_inv r'" "rr_source r' = rr_source r" "rr_stream r' = rr_stream r"
    "rr_bits_remaining r' = rr_bits_remaining r - int 1"
    by (rule rr_get_bitsE [OF assms, of 1]) simp_all
  then show thesis by (intro that) (simp_all add: sbits_1 bits_word_single)
qed

section \<open>The padding marker\<close>

text \<open>Number of leading (topmost) zero bits, at most \<open>k\<close>, and whether a 1 follows them.\<close>

fun leading_zeros :: "bits \<Rightarrow> int \<Rightarrow> nat \<Rightarrow> nat" where
  "leading_zeros bs p 0 = 0"
| "leading_zeros bs p (Suc k) = (if sbit bs (p - 1) then 0 else Suc (leading_zeros bs (p - 1) k))"

lemma leading_zeros_le: "leading_zeros bs p k \<le> k"
  by (induction bs p k rule: leading_zeros.induct) auto

lemma leading_zeros_zero: "j < leading_zeros bs p k \<Longrightarrow> \<not> sbit bs (p - 1 - int j)"
proof (induction bs p k arbitrary: j rule: leading_zeros.induct)
  case (2 bs p k)
  then show ?case by (cases j) (auto simp: algebra_simps split: if_splits)
qed simp

lemma leading_zeros_one: "leading_zeros bs p k < k \<Longrightarrow> sbit bs (p - 1 - int (leading_zeros bs p k))"
  by (induction bs p k rule: leading_zeros.induct) (auto simp: algebra_simps split: if_splits)

lemma rr_skip_loop_correct:
  assumes "rr_inv r"
  shows "\<exists>r'. rr_skip_loop k r
      = Ok (leading_zeros (rr_stream r) (rr_bits_remaining r) k < k, r')
    \<and> rr_inv r' \<and> rr_source r' = rr_source r
    \<and> rr_bits_remaining r' = rr_bits_remaining r
        - int (min k (Suc (leading_zeros (rr_stream r) (rr_bits_remaining r) k)))"
  using assms
proof (induction k arbitrary: r)
  case 0
  then show ?case by simp
next
  case (Suc k)
  obtain r1 where r1: "rr_get_bits r 1
      = Ok (of_bool (sbit (rr_stream r) (rr_bits_remaining r - 1)), r1)"
    "rr_inv r1" "rr_source r1 = rr_source r" "rr_stream r1 = rr_stream r"
    "rr_bits_remaining r1 = rr_bits_remaining r - 1"
    using rr_get_bit [OF Suc.prems] by metis
  from Suc.IH [OF r1(2)] r1 show ?case
    by (auto simp: min_def)
qed

section \<open>Reading back what was written\<close>

text \<open>
  The unread part of a reader, as the string in front of its position; reading back a field
  that was appended last drops it.
\<close>

definition rr_has :: "BitReaderReversed \<Rightarrow> bits \<Rightarrow> bool" where
  "rr_has r bs \<longleftrightarrow> rr_inv r \<and> rr_bits_remaining r = int (length bs) \<and> length bs \<le> length (rr_stream r)
     \<and> take (length bs) (rr_stream r) = bs"

lemma rr_has_new: "rr_has (rr_new source) (bytes_bits source)"
  by (simp add: rr_has_def)

lemma rr_has_get:
  assumes h: "rr_has r (bs @ word_bits n v)" and n: "n \<le> 57" "unat v < 2 ^ n"
  shows "\<exists>r'. rr_get_bits r n = Ok (v, r') \<and> rr_has r' bs"
proof -
  have inv: "rr_inv r" and rem: "rr_bits_remaining r = int (length bs + n)"
    and len: "length bs + n \<le> length (rr_stream r)"
    and tk: "take (length bs + n) (rr_stream r) = bs @ word_bits n v"
    using h by (simp_all add: rr_has_def)
  obtain r' where r': "rr_get_bits r n
      = Ok (bits_word (sbits (rr_stream r) (rr_bits_remaining r - int n) n), r')"
    "rr_inv r'" "rr_stream r' = rr_stream r" "rr_bits_remaining r' = rr_bits_remaining r - int n"
    using rr_get_bitsE [OF inv n(1)] by metis
  have "sbits (rr_stream r) (rr_bits_remaining r - int n) n = take n (drop (length bs) (rr_stream r))"
    using sbits_inside [of "int (length bs)" n "rr_stream r"] rem len by simp
  also have "\<dots> = word_bits n v"
    using tk by (metis append_eq_conv_conj drop_take length_word_bits add_diff_cancel_left' append_Nil2
        length_append take_all_iff order_refl)
  finally have "bits_word (sbits (rr_stream r) (rr_bits_remaining r - int n) n) = v"
    using n by (simp add: bits_word_word_bits unat_less_take_bit)
  moreover have "take (length bs) (rr_stream r) = bs"
    using tk by (metis append_eq_conv_conj min.absorb1 le_add1 take_take)
  ultimately show ?thesis using r' rem len by (auto simp: rr_has_def)
qed

lemma rr_has_skip:
  assumes h: "rr_has r (bs @ True # replicate z False)" and z: "z < 8"
  shows "\<exists>r'. rr_skip_padding_marker r = Ok (True, r') \<and> rr_has r' bs"
proof -
  let ?S = "rr_stream r" and ?p = "rr_bits_remaining r"
  have inv: "rr_inv r" and rem: "?p = int (length bs + Suc z)"
    and len: "length bs + Suc z \<le> length ?S"
    and tk: "take (length bs + Suc z) ?S = bs @ True # replicate z False"
    using h by (simp_all add: rr_has_def)
  have at: "sbit ?S (int k) = (bs @ True # replicate z False) ! k" if "k < length bs + Suc z" for k
    using that len tk by (metis (no_types, lifting) less_le_trans nat_int nth_take of_nat_0_le_iff of_nat_less_iff sbit_def)
  have lz: "leading_zeros ?S (int (length bs + Suc j)) k = j" if "j \<le> z" "j < k" for j k
    using that
  proof (induction j arbitrary: k)
    case 0
    then show ?case using at [of "length bs"] by (cases k) (simp_all add: nth_append)
  next
    case (Suc j)
    have "\<not> sbit ?S (int (length bs + Suc j))"
      using at [of "length bs + Suc j"] Suc.prems by (simp add: nth_append)
    then show ?case using Suc by (cases k) (simp_all add: algebra_simps)
  qed
  have "leading_zeros ?S ?p 8 = z" using lz [of z 8] z rem by simp
  then obtain r' where "rr_skip_loop 8 r = Ok (z < 8, r')" "rr_inv r'" "rr_source r' = rr_source r"
    "rr_bits_remaining r' = ?p - int (min 8 (Suc z))"
    using rr_skip_loop_correct [OF inv, of 8] by auto
  moreover have "take (length bs) ?S = bs"
    using tk by (metis append_eq_conv_conj min.absorb1 le_add1 take_take)
  ultimately show ?thesis
    using z rem len by (auto simp: rr_skip_padding_marker_def rr_has_def rr_stream_def min_def)
qed

text \<open>
  C11.  On a reader satisfying its invariant, a read of up to 57 bits never fails or panics,
  returns the \<open>n\<close> stream bits just below the current position (bits below the start of the
  stream read as zeros), moves the position down by exactly \<open>n\<close> and re-establishes the
  invariant, whichever of the five refill exits it takes.
\<close>

theorem rr_get_bits_spec:
  assumes "rr_inv r" and "n \<le> 57"
  shows "\<exists>r'. rr_get_bits r n
      = Ok (bits_word (sbits (rr_stream r) (rr_bits_remaining r - int n) n), r')
    \<and> rr_inv r' \<and> rr_source r' = rr_source r \<and> rr_bits_remaining r' = rr_bits_remaining r - int n"
  using assms by (rule rr_get_bits_correct)

theorem rr_get_bits_spec_witness:
  "\<exists>r'. rr_get_bits (rr_new [0xAA, 0x55]) 11
      = Ok (bits_word (sbits (bytes_bits [0xAA, 0x55]) 5 11), r') \<and> rr_bits_remaining r' = 5"
  using rr_get_bits_spec [of "rr_new [0xAA, 0x55]" 11] by auto

text \<open>
  \<open>skip_padding_marker\<close> looks at up to eight bits from the end: it succeeds exactly when
  one of them is set, and then leaves the position just below the topmost set bit; otherwise it
  has consumed eight zero bits.
\<close>

theorem rr_skip_padding_marker_spec:
  assumes "rr_inv r"
  shows "\<exists>z r'. rr_skip_padding_marker r = Ok (z < 8, r') \<and> z \<le> 8 \<and> rr_inv r'
    \<and> (\<forall>j<z. \<not> sbit (rr_stream r) (rr_bits_remaining r - 1 - int j))
    \<and> (z < 8 \<longrightarrow> sbit (rr_stream r) (rr_bits_remaining r - 1 - int z))
    \<and> rr_bits_remaining r' = rr_bits_remaining r - int (min 8 (z + 1))"
proof -
  let ?z = "leading_zeros (rr_stream r) (rr_bits_remaining r) 8"
  obtain r' where "rr_skip_loop 8 r = Ok (?z < 8, r')" "rr_inv r'"
    "rr_bits_remaining r' = rr_bits_remaining r - int (min 8 (Suc ?z))"
    using rr_skip_loop_correct [OF assms, of 8] by auto
  then show ?thesis
    using leading_zeros_le leading_zeros_zero leading_zeros_one
    by (intro exI [of _ ?z] exI [of _ r']) (auto simp: rr_skip_padding_marker_def)
qed

theorem rr_skip_padding_marker_spec_witness:
  "\<exists>z r'. rr_skip_padding_marker (rr_new [0xFF, 0x14]) = Ok (z < (8::nat), r') \<and> z \<le> 8 \<and> rr_inv r'"
  using rr_skip_padding_marker_spec [of "rr_new [0xFF, 0x14]", OF rr_inv_new] by blast

end
