(* ===== verification/Bit_Writer.thy ===== *)
theory Bit_Writer
  imports Prelude
begin

text \<open>
  The bit writer of \<open>bit_io/bit_writer.rs\<close>: a byte buffer plus a 64-bit \<open>partial\<close>
  accumulator.  \<open>bw_bits\<close> abstracts a writer to the bits written so far; every operation is
  shown to append to (or, for \<open>change_bits\<close>, to overwrite a segment of) that string.  The
  interface the entropy coders rely on is the locale \<open>bit_sink\<close>, interpreted here on
  \<open>bw_write_bits_64\<close>.
\<close>

unbundle bit_operations_syntax

section \<open>The writer\<close>

record BitWriter =
  bw_output :: bytes
  bw_partial :: u64
  bw_bits_in_partial :: nat
  bw_bit_idx :: nat

definition bw_new :: BitWriter where
  "bw_new = \<lparr>bw_output = [], bw_partial = 0, bw_bits_in_partial = 0, bw_bit_idx = 0\<rparr>"

definition bw_from :: "bytes \<Rightarrow> BitWriter" where
  "bw_from output = \<lparr>bw_output = output, bw_partial = 0, bw_bits_in_partial = 0,
     bw_bit_idx = length output * 8\<rparr>"

definition bw_index :: "BitWriter \<Rightarrow> nat" where
  "bw_index w = bw_bit_idx w + bw_bits_in_partial w"

definition bw_misaligned :: "BitWriter \<Rightarrow> nat" where
  "bw_misaligned w = (let idx = bw_index w in if idx mod 8 = 0 then 0 else 8 - idx mod 8)"

text \<open>\<open>Vec::resize\<close>: truncate or pad.\<close>

definition vec_resize :: "'a list \<Rightarrow> nat \<Rightarrow> 'a \<Rightarrow> 'a list" where
  "vec_resize xs n x = take n xs @ replicate (n - length xs) x"

definition bw_reset_to :: "BitWriter \<Rightarrow> nat \<Rightarrow> (unit, BitWriter) res" where
  "bw_reset_to w index = rbind (rassert (index mod 8 = 0)) (\<lambda>_.
     Ok (w\<lparr>bw_partial := 0, bw_bits_in_partial := 0, bw_bit_idx := index,
           bw_output := vec_resize (bw_output w) (index div 8) 0\<rparr>))"

definition bw_flush :: "BitWriter \<Rightarrow> (unit, BitWriter) res" where
  "bw_flush w = rbind (rassert (bw_bits_in_partial w mod 8 = 0)) (\<lambda>_.
     let full_bytes = bw_bits_in_partial w div 8 in
     Ok (w\<lparr>bw_output := bw_output w @ take full_bytes (u64_to_le_bytes (bw_partial w)),
           bw_partial := drop_bit (full_bytes * 8) (bw_partial w),
           bw_bits_in_partial := bw_bits_in_partial w - full_bytes * 8,
           bw_bit_idx := bw_bit_idx w + full_bytes * 8\<rparr>))"

definition bw_append_bytes :: "BitWriter \<Rightarrow> bytes \<Rightarrow> (unit, BitWriter) res" where
  "bw_append_bytes w dat = rbind (rassert (bw_misaligned w = 0)) (\<lambda>_.
     rbind (bw_flush w) (\<lambda>w.
       Ok (w\<lparr>bw_output := bw_output w @ dat, bw_bit_idx := bw_bit_idx w + length dat * 8\<rparr>)))"

text \<open>The loop of the cold path that pushes full bytes: bits, count, writer.\<close>

function bw_push_bytes :: "u64 \<Rightarrow> nat \<Rightarrow> BitWriter \<Rightarrow> u64 \<times> nat \<times> BitWriter" where
  "bw_push_bytes bits num_bits w =
     (if num_bits div 8 > 0 then
        bw_push_bytes (drop_bit 8 bits) (num_bits - 8)
          (w\<lparr>bw_output := bw_output w @ [ucast bits], bw_bit_idx := bw_bit_idx w + 8\<rparr>)
      else (bits, num_bits, w))"
  by pat_completeness auto
termination
  by (relation "measure (\<lambda>(bits, n, w). n)") auto

declare bw_push_bytes.simps [simp del]

text \<open>
  The cold path: fill the partial word to 64 bits and store it, push whole bytes, keep the
  rest.  The shift by the free bits is a 64-bit shift and overflows when all 64 are free.
\<close>

definition bw_write_bits_64_cold :: "BitWriter \<Rightarrow> u64 \<Rightarrow> nat \<Rightarrow> (unit, BitWriter) res" where
  "bw_write_bits_64_cold w bits num_bits =
     rbind (rassert (bw_bits_in_partial w + num_bits \<ge> 64)) (\<lambda>_.
       let bits_free_in_partial = 64 - bw_bits_in_partial w;
           part = push_bit (64 - bits_free_in_partial) bits;
           merged = bw_partial w OR part;
           w = w\<lparr>bw_output := bw_output w @ u64_to_le_bytes merged,
                 bw_bit_idx := bw_bit_idx w + 64, bw_partial := 0, bw_bits_in_partial := 0\<rparr>
       in rbind (rassert (bits_free_in_partial < 64)) (\<lambda>_.
          let (bits, num_bits, w) =
                bw_push_bytes (drop_bit bits_free_in_partial bits)
                  (num_bits - bits_free_in_partial) w
          in rbind (rassert (num_bits < 8)) (\<lambda>_.
             if num_bits > 0 then
               Ok (w\<lparr>bw_partial := bits AND (push_bit num_bits 1 - 1),
                     bw_bits_in_partial := num_bits\<rparr>)
             else Ok w)))"

definition bw_write_bits_64 :: "BitWriter \<Rightarrow> u64 \<Rightarrow> nat \<Rightarrow> (unit, BitWriter) res" where
  "bw_write_bits_64 w bits num_bits =
     (if num_bits = 0 then Ok w
      else rbind (rassert (bits > 0 \<longrightarrow> ilog2 (unat bits) \<le> num_bits)) (\<lambda>_.
        if num_bits + bw_bits_in_partial w < 64 then
          Ok (w\<lparr>bw_partial := bw_partial w OR push_bit (bw_bits_in_partial w) bits,
                bw_bits_in_partial := bw_bits_in_partial w + num_bits\<rparr>)
        else bw_write_bits_64_cold w bits num_bits))"

definition bw_write_bits :: "BitWriter \<Rightarrow> u64 \<Rightarrow> nat \<Rightarrow> (unit, BitWriter) res" where
  "bw_write_bits w bits num_bits = bw_write_bits_64 w bits num_bits"

text \<open>\<open>change_bits_64\<close>: the byte-aligned loop and the tail, then the whole routine.\<close>

function bw_change_bytes :: "bytes \<Rightarrow> nat \<Rightarrow> u64 \<Rightarrow> nat \<Rightarrow> (unit, bytes \<times> nat \<times> u64 \<times> nat) res" where
  "bw_change_bytes out i bits num_bits =
     (if num_bits \<ge> 8 then
        rbind (rindex out i) (\<lambda>_.
          bw_change_bytes (out[i := ucast bits]) (i + 1) (drop_bit 8 bits) (num_bits - 8))
      else Ok (out, i, bits, num_bits))"
  by pat_completeness auto
termination
  by (relation "measure (\<lambda>(out, i, bits, n). n)") auto

declare bw_change_bytes.simps [simp del]

definition bw_change_bits_64 ::
  "BitWriter \<Rightarrow> nat \<Rightarrow> u64 \<Rightarrow> nat \<Rightarrow> (unit, BitWriter) res" where
  "bw_change_bits_64 w idx bits num_bits =
     rbind (bw_flush w) (\<lambda>w.
     rbind (rassert (idx + num_bits < bw_index w)) (\<lambda>_.
     rbind (rassert (bw_index w - (idx + num_bits) > bw_bits_in_partial w)) (\<lambda>_.
     rbind
       (if idx mod 8 \<noteq> 0 then
          let bits_in_first_byte = 8 - idx mod 8 in
          rbind (rassert (bits_in_first_byte \<le> num_bits)) (\<lambda>_.
          rbind (rindex (bw_output w) (idx div 8)) (\<lambda>b.
            let b = b AND drop_bit bits_in_first_byte 0xff;
                new_bits = ucast (push_bit (8 - bits_in_first_byte) bits) :: u8
            in Ok ((bw_output w)[idx div 8 := b OR new_bits], idx + bits_in_first_byte,
                   drop_bit bits_in_first_byte bits, num_bits - bits_in_first_byte)))
        else Ok (bw_output w, idx, bits, num_bits))
       (\<lambda>(out, idx, bits, num_bits).
     rbind (rassert (idx mod 8 = 0)) (\<lambda>_.
     rbind (bw_change_bytes out (idx div 8) bits num_bits) (\<lambda>(out, i, bits, num_bits).
       if num_bits > 0 then
         rbind (rindex out i) (\<lambda>b.
           Ok (w\<lparr>bw_output := out[i := (b AND push_bit num_bits 0xff) OR ucast bits]\<rparr>))
       else Ok (w\<lparr>bw_output := out\<rparr>)))))))"

definition bw_dump :: "BitWriter \<Rightarrow> (unit, bytes) res" where
  "bw_dump w = rbind (rassert (bw_misaligned w = 0)) (\<lambda>_.
     rbind (bw_flush w) (\<lambda>w. rbind (rassert (bw_partial w = 0)) (\<lambda>_. Ok (bw_output w))))"

definition bw_hot_state :: "BitWriter \<Rightarrow> u64 \<times> nat \<times> nat" where
  "bw_hot_state w = (bw_partial w, bw_bits_in_partial w, bw_bit_idx w div 8)"

definition bw_set_hot_state :: "BitWriter \<Rightarrow> u64 \<Rightarrow> nat \<Rightarrow> nat \<Rightarrow> bytes \<Rightarrow> (unit, BitWriter) res" where
  "bw_set_hot_state w partial bits pos buf = rbind (rassert (pos \<le> length buf)) (\<lambda>_.
     Ok (w\<lparr>bw_output := take pos buf, bw_partial := partial, bw_bits_in_partial := bits,
           bw_bit_idx := pos * 8\<rparr>))"

text \<open>
  The overrun store of \<open>common/overrun.rs\<close>, on a buffer of reserved capacity \<open>cap\<close> whose
  initialized prefix is \<open>buf\<close>: eight bytes land at \<open>pos\<close>; what lay beyond is not read again.
\<close>

definition overrun_store_u64 :: "nat \<Rightarrow> bytes \<Rightarrow> nat \<Rightarrow> u64 \<Rightarrow> (unit, bytes) res" where
  "overrun_store_u64 cap buf pos v = rbind (rassert (pos + 8 \<le> cap \<and> pos \<le> length buf)) (\<lambda>_.
     Ok (take pos buf @ u64_to_le_bytes v))"

text \<open>Publishing a length checks the bytes behind it are initialized.\<close>

definition publish_len :: "nat \<Rightarrow> bytes \<Rightarrow> nat \<Rightarrow> (unit, bytes) res" where
  "publish_len cap buf end' = rbind (rassert (end' \<le> cap \<and> end' \<le> length buf)) (\<lambda>_. Ok (take end' buf))"

section \<open>Invariant and abstraction\<close>

definition bw_inv :: "BitWriter \<Rightarrow> bool" where
  "bw_inv w \<longleftrightarrow> bw_bit_idx w = 8 * length (bw_output w) \<and> bw_bits_in_partial w < 64
     \<and> take_bit (bw_bits_in_partial w) (bw_partial w) = bw_partial w"

definition bw_bits :: "BitWriter \<Rightarrow> bits" where
  "bw_bits w = bytes_bits (bw_output w) @ word_bits (bw_bits_in_partial w) (bw_partial w)"

lemma bw_inv_new [simp]: "bw_inv bw_new" "bw_bits bw_new = []"
  by (simp_all add: bw_inv_def bw_new_def bw_bits_def)

lemma bw_inv_from [simp]: "bw_inv (bw_from out)" "bw_bits (bw_from out) = bytes_bits out"
  by (simp_all add: bw_inv_def bw_from_def bw_bits_def)

lemma bw_index_length: "bw_inv w \<Longrightarrow> bw_index w = length (bw_bits w)"
  by (simp add: bw_inv_def bw_index_def bw_bits_def)


lemma word_bits_or_push:
  assumes "take_bit m p = p" "m + n \<le> 64"
  shows "word_bits (m + n) (p OR push_bit m b) = word_bits m p @ word_bits n b"
proof (rule nth_equalityI)
  fix i assume "i < length (word_bits (m + n) (p OR push_bit m b))"
  moreover have "\<not> bit p i" if "m \<le> i"
    using that assms(1) by (metis bit_take_bit_iff not_le)
  ultimately show "word_bits (m + n) (p OR push_bit m b) ! i = (word_bits m p @ word_bits n b) ! i"
    using assms(2) by (auto simp: bit_or_iff bit_push_bit_iff nth_append)
qed simp

lemma take_bit_word_eq_iff: "take_bit n (w :: u64) = w \<longleftrightarrow> (\<forall>i. bit w i \<longrightarrow> i < n)"
proof
  assume "take_bit n w = w"
  then show "\<forall>i. bit w i \<longrightarrow> i < n" by (metis bit_take_bit_iff)
next
  assume "\<forall>i. bit w i \<longrightarrow> i < n"
  then show "take_bit n w = w" by (intro bit_word_eqI) (auto simp: bit_take_bit_iff)
qed

lemma bw_push_bytes_correct:
  "\<exists>out. bw_push_bytes bits n w = (drop_bit (8 * (n div 8)) bits, n mod 8,
       w\<lparr>bw_output := bw_output w @ out, bw_bit_idx := bw_bit_idx w + 8 * (n div 8)\<rparr>)
     \<and> length out = n div 8 \<and> bytes_bits out = word_bits (8 * (n div 8)) bits"
proof (induction bits n w rule: bw_push_bytes.induct)
  case (1 bits n w)
  show ?case
  proof (cases "n div 8 > 0")
    case False
    then show ?thesis by (subst bw_push_bytes.simps) (auto intro: exI [of _ "[]"])
  next
    case True
    let ?k = "(n - 8) div 8"
    have k: "n div 8 = Suc ?k" "(n - 8) mod 8 = n mod 8"
      using True by (auto simp: le_div_geq le_mod_geq)
    obtain out where out: "bw_push_bytes (drop_bit 8 bits) (n - 8)
          (w\<lparr>bw_output := bw_output w @ [ucast bits], bw_bit_idx := bw_bit_idx w + 8\<rparr>)
        = (drop_bit (8 * ?k) (drop_bit 8 bits), (n - 8) mod 8,
           w\<lparr>bw_output := bw_output w @ [ucast bits] @ out,
             bw_bit_idx := bw_bit_idx w + 8 + 8 * ?k\<rparr>)"
      "length out = ?k" "bytes_bits out = word_bits (8 * ?k) (drop_bit 8 bits)"
      using "1.IH" [OF True] by auto
    have "bytes_bits (ucast bits # out) = word_bits (8 * Suc ?k) bits"
      using out(3) word_bits_add [of 8 "8 * ?k" bits] by (simp add: byte_bits_ucast)
    then show ?thesis
      using True out k
      by (subst bw_push_bytes.simps) (auto simp: add.commute intro!: exI [of _ "ucast bits # out"])
  qed
qed

section \<open>Writing\<close>

lemma bw_cold_correct:
  assumes inv: "bw_inv w" and n: "n \<le> 64" "64 \<le> bw_bits_in_partial w + n"
    and p: "0 < bw_bits_in_partial w" and v: "take_bit n v = v"
  shows "\<exists>w'. bw_write_bits_64_cold w v n = Ok w' \<and> bw_inv w'
    \<and> bw_bits w' = bw_bits w @ word_bits n v"
proof -
  define f where "f = 64 - bw_bits_in_partial w"
  define m where "m = n - f"
  define merged where "merged = bw_partial w OR push_bit (bw_bits_in_partial w) v"
  define w1 where "w1 = w\<lparr>bw_output := bw_output w @ u64_to_le_bytes merged,
    bw_bit_idx := bw_bit_idx w + 64, bw_partial := 0, bw_bits_in_partial := 0\<rparr>"
  have b64: "bw_bits_in_partial w < 64" and tb: "take_bit (bw_bits_in_partial w) (bw_partial w) = bw_partial w"
    using inv by (simp_all add: bw_inv_def)
  have f: "f < 64" "64 - f = bw_bits_in_partial w" "n = f + m"
    using p n b64 by (simp_all add: f_def m_def)
  obtain out where out: "bw_push_bytes (drop_bit f v) m w1
      = (drop_bit (8 * (m div 8)) (drop_bit f v), m mod 8,
         w1\<lparr>bw_output := bw_output w1 @ out, bw_bit_idx := bw_bit_idx w1 + 8 * (m div 8)\<rparr>)"
    "length out = m div 8" "bytes_bits out = word_bits (8 * (m div 8)) (drop_bit f v)"
    using bw_push_bytes_correct by blast
  define rest where "rest = drop_bit (8 * (m div 8)) (drop_bit f v)"
  have rest: "take_bit (m mod 8) rest = rest"
  proof -
    have "i < m mod 8" if "bit rest i" for i
    proof -
      have "bit v (f + (8 * (m div 8) + i))"
        using that by (simp add: rest_def bit_drop_bit_eq ac_simps)
      then have "f + (8 * (m div 8) + i) < n" using v by (metis take_bit_word_eq_iff)
      moreover have "m = 8 * (m div 8) + m mod 8" by simp
      ultimately show ?thesis using f(3) by linarith
    qed
    then show ?thesis by (simp add: take_bit_word_eq_iff)
  qed
  have mask: "rest AND (push_bit (m mod 8) 1 - 1) = rest"
    using rest by (simp add: take_bit_eq_mask mask_eq_exp_minus_1)
  let ?w' = "w1\<lparr>bw_output := bw_output w1 @ out, bw_bit_idx := bw_bit_idx w1 + 8 * (m div 8),
    bw_partial := (if m mod 8 > 0 then rest else 0), bw_bits_in_partial := m mod 8\<rparr>"
  have out1: "bw_push_bytes (drop_bit f v) m w1 = (rest, m mod 8,
      w1\<lparr>bw_output := bw_output w1 @ out, bw_bit_idx := bw_bit_idx w1 + 8 * (m div 8)\<rparr>)"
    unfolding rest_def by (rule out(1))
  have "bw_write_bits_64_cold w v n =
      (let (bits, num_bits, w) = bw_push_bytes (drop_bit f v) m w1
       in rbind (rassert (num_bits < 8)) (\<lambda>_.
         if num_bits > 0 then
           Ok (w\<lparr>bw_partial := bits AND (push_bit num_bits 1 - 1), bw_bits_in_partial := num_bits\<rparr>)
         else Ok w))"
    unfolding bw_write_bits_64_cold_def Let_def f_def [symmetric] m_def [symmetric] f(2)
      merged_def [symmetric] w1_def [symmetric]
    using n f by (simp add: rbind_rassert)
  then have run: "bw_write_bits_64_cold w v n = Ok ?w'"
    unfolding out1 by (simp add: rbind_rassert mask [simplified]) (simp add: w1_def)
  have "word_bits 64 merged = word_bits (bw_bits_in_partial w) (bw_partial w) @ word_bits f v"
    using word_bits_or_push [OF tb, of f v] f b64 by (simp add: merged_def f_def)
  moreover have "word_bits n v = word_bits f v @ word_bits (8 * (m div 8)) (drop_bit f v)
      @ word_bits (m mod 8) rest"
    using word_bits_add [of f m v] word_bits_add [of "8 * (m div 8)" "m mod 8" "drop_bit f v"] f
    by (simp add: rest_def)
  ultimately have "bw_bits ?w' = bw_bits w @ word_bits n v"
    by (simp add: bw_bits_def w1_def bytes_bits_u64_to_le_bytes out(3))
  moreover have "bw_inv ?w'"
    using inv out(2) rest less_trans [OF mod_less_divisor [of 8 m], of 64]
    by (simp add: bw_inv_def w1_def)
  ultimately show ?thesis using run by blast
qed

lemma bw_write_bits_64_correct:
  assumes inv: "bw_inv w" and n: "n < 64" and v: "unat v < 2 ^ n"
  shows "\<exists>w'. bw_write_bits_64 w v n = Ok w' \<and> bw_inv w'
    \<and> bw_bits w' = bw_bits w @ word_bits n v"
proof -
  have tb: "take_bit n v = v" using v by (rule unat_less_take_bit)
  have log: "v > 0 \<longrightarrow> ilog2 (unat v) \<le> n"
    using ilog2_less [OF _ v] by (simp add: word_gt_0 unat_gt_0 less_imp_le)
  show ?thesis
  proof (cases "n = 0 \<or> n + bw_bits_in_partial w < 64")
    case True
    moreover have "take_bit (bw_bits_in_partial w + n) (bw_partial w OR push_bit (bw_bits_in_partial w) v)
        = bw_partial w OR push_bit (bw_bits_in_partial w) v"
    proof -
      have "bit (bw_partial w) i \<longrightarrow> i < bw_bits_in_partial w" "bit v i \<longrightarrow> i < n" for i
        using inv tb by (simp_all add: bw_inv_def take_bit_word_eq_iff)
      then show ?thesis
        unfolding take_bit_word_eq_iff bit_or_iff bit_push_bit_iff
        by (metis add.commute less_diff_conv2 trans_less_add1)
    qed
    ultimately show ?thesis
      using inv log word_bits_or_push [of "bw_bits_in_partial w" "bw_partial w" n v]
      by (auto simp: bw_write_bits_64_def rbind_rassert bw_inv_def bw_bits_def add.commute)
  next
    case False
    with inv n have "64 \<le> bw_bits_in_partial w + n" "0 < bw_bits_in_partial w" by linarith+
    with bw_cold_correct [OF inv _ _ _ tb] n False log show ?thesis
      by (simp add: bw_write_bits_64_def rbind_rassert)
  qed
qed

section \<open>Flushing, appending, dumping\<close>

lemma bw_flush_correct:
  assumes inv: "bw_inv w" and al: "length (bw_bits w) mod 8 = 0"
  shows "\<exists>w'. bw_flush w = Ok w' \<and> bw_inv w' \<and> bw_bits w' = bw_bits w
    \<and> bw_bits_in_partial w' = 0 \<and> bw_partial w' = 0 \<and> bytes_bits (bw_output w') = bw_bits w"
proof -
  let ?n = "bw_bits_in_partial w"
  have n: "?n mod 8 = 0" "?n < 64" using inv al by (auto simp: bw_bits_def bw_inv_def)
  then have n8: "?n div 8 * 8 = ?n" by auto
  have z: "drop_bit ?n (bw_partial w) = 0"
    using inv by (metis bw_inv_def drop_bit_take_bit diff_self_eq_0 take_bit_0)
  have "bytes_bits (take (?n div 8) (u64_to_le_bytes (bw_partial w))) = word_bits ?n (bw_partial w)"
  proof -
    have "bytes_bits (take (?n div 8) (u64_to_le_bytes (bw_partial w)))
        = take ?n (word_bits 64 (bw_partial w))"
      using n8 by (simp add: take_bytes_bits [symmetric] bytes_bits_u64_to_le_bytes mult.commute)
    also have "\<dots> = word_bits ?n (bw_partial w)"
      using n by (simp add: word_bits_def take_map)
    finally show ?thesis .
  qed
  then show ?thesis
    using n n8 inv z by (auto simp: bw_flush_def Let_def rbind_rassert bw_inv_def bw_bits_def)
qed

lemma bw_flush_panics: "bw_inv w \<Longrightarrow> length (bw_bits w) mod 8 \<noteq> 0 \<Longrightarrow> bw_flush w = Panic"
proof -
  assume a: "bw_inv w" "length (bw_bits w) mod 8 \<noteq> 0"
  then have "bw_bits_in_partial w mod 8 \<noteq> 0" by (auto simp: bw_bits_def)
  then show "bw_flush w = Panic" by (simp add: bw_flush_def)
qed

lemma bw_misaligned_0: "bw_inv w \<Longrightarrow> bw_misaligned w = 0 \<longleftrightarrow> length (bw_bits w) mod 8 = 0"
  by (auto simp: bw_misaligned_def bw_index_length Let_def)

lemma bw_misaligned_fills: "bw_inv w \<Longrightarrow> (length (bw_bits w) + bw_misaligned w) mod 8 = 0"
proof -
  assume "bw_inv w"
  moreover have "(m + (8 - m mod 8)) mod 8 = 0" for m :: nat
  proof -
    have "m + (8 - m mod 8) = 8 * (m div 8) + 8"
      using div_mult_mod_eq [of m 8] mod_less_divisor [of 8 m] by linarith
    then show ?thesis by simp
  qed
  ultimately show ?thesis by (simp add: bw_misaligned_def bw_index_length Let_def)
qed

lemma bw_misaligned_less: "bw_misaligned w < 8"
  by (simp add: bw_misaligned_def Let_def)

lemma bw_append_bytes_correct:
  assumes "bw_inv w" "length (bw_bits w) mod 8 = 0"
  shows "\<exists>w'. bw_append_bytes w dat = Ok w' \<and> bw_inv w' \<and> bw_bits w' = bw_bits w @ bytes_bits dat"
proof -
  obtain w1 where "bw_flush w = Ok w1" "bw_inv w1" "bw_bits_in_partial w1 = 0" "bw_partial w1 = 0"
    "bytes_bits (bw_output w1) = bw_bits w"
    using bw_flush_correct [OF assms] by blast
  then show ?thesis
    using assms by (simp add: bw_append_bytes_def rbind_rassert bw_misaligned_0 bw_inv_def bw_bits_def)
qed

lemma bw_dump_correct:
  assumes "bw_inv w" "length (bw_bits w) mod 8 = 0"
  shows "\<exists>out. bw_dump w = Ok out \<and> bytes_bits out = bw_bits w"
proof -
  obtain w1 where "bw_flush w = Ok w1" "bw_partial w1 = 0" "bytes_bits (bw_output w1) = bw_bits w"
    using bw_flush_correct [OF assms] by blast
  then show ?thesis
    using assms by (simp add: bw_dump_def rbind_rassert bw_misaligned_0)
qed

lemma vec_resize_shrink: "n \<le> length xs \<Longrightarrow> vec_resize xs n x = take n xs"
  by (simp add: vec_resize_def)

lemma bw_reset_to_correct:
  assumes "bw_inv w" "i mod 8 = 0" "i \<le> 8 * length (bw_output w)"
  shows "\<exists>w'. bw_reset_to w i = Ok w' \<and> bw_inv w' \<and> bw_bits w' = take i (bw_bits w)"
proof -
  have "i = 8 * (i div 8)" "i div 8 \<le> length (bw_output w)" using assms by auto
  then have "take i (bytes_bits (bw_output w)) = bytes_bits (take (i div 8) (bw_output w))"
    by (metis take_bytes_bits)
  with assms \<open>i div 8 \<le> _\<close> \<open>i = 8 * _\<close> show ?thesis
    by (auto simp: bw_reset_to_def rbind_rassert vec_resize_shrink bw_inv_def bw_bits_def)
qed

section \<open>Changing bits in place\<close>

definition overwrite :: "bits \<Rightarrow> nat \<Rightarrow> bits \<Rightarrow> bits" where
  "overwrite xs i ys = take i xs @ ys @ drop (i + length ys) xs"

lemma length_overwrite [simp]: "i + length ys \<le> length xs \<Longrightarrow> length (overwrite xs i ys) = length xs"
  by (simp add: overwrite_def)

lemma nth_overwrite: "i + length ys \<le> length xs \<Longrightarrow> k < length xs \<Longrightarrow>
    overwrite xs i ys ! k = (if i \<le> k \<and> k < i + length ys then ys ! (k - i) else xs ! k)"
  by (auto simp: overwrite_def nth_append min_def)

lemma overwrite_append:
  "i + length (ys @ zs) \<le> length xs \<Longrightarrow>
     overwrite (overwrite xs i ys) (i + length ys) zs = overwrite xs i (ys @ zs)"
proof (rule nth_equalityI)
  assume le: "i + length (ys @ zs) \<le> length xs"
  then show "length (overwrite (overwrite xs i ys) (i + length ys) zs) = length (overwrite xs i (ys @ zs))"
    by simp
  fix k assume "k < length (overwrite (overwrite xs i ys) (i + length ys) zs)"
  then show "overwrite (overwrite xs i ys) (i + length ys) zs ! k = overwrite xs i (ys @ zs) ! k"
    using le by (auto simp: nth_overwrite nth_append)
qed

lemma overwrite_Nil [simp]: "overwrite xs i [] = xs"
  by (simp add: overwrite_def)

text \<open>Replacing part of one byte.\<close>

lemma bytes_bits_update:
  assumes "i < length out" "lo + n \<le> 8"
    and "\<And>k. k < 8 \<Longrightarrow> bit b k = (if lo \<le> k \<and> k < lo + n then bit v (k - lo) else bit (out ! i) k)"
  shows "bytes_bits (out[i := b]) = overwrite (bytes_bits out) (8 * i + lo) (word_bits n v)"
proof (rule nth_equalityI)
  show "length (bytes_bits (out[i := b])) = length (overwrite (bytes_bits out) (8 * i + lo) (word_bits n v))"
    using assms(1,2) by simp
next
  fix k assume k: "k < length (bytes_bits (out[i := b]))"
  have le: "8 * i + lo + length (word_bits n v) \<le> length (bytes_bits out)"
    using assms(1,2) by simp
  show "bytes_bits (out[i := b]) ! k = overwrite (bytes_bits out) (8 * i + lo) (word_bits n v) ! k"
  proof (cases "k div 8 = i")
    case True
    then have "k = 8 * i + k mod 8" "k mod 8 < 8" by auto
    then obtain m where m: "k = 8 * i + m" "m < 8" by blast
    show ?thesis using k assms le unfolding m(1)
      by (subst nth_overwrite [OF le]) (use m in \<open>auto simp: nth_bytes_bits\<close>)
  next
    case False
    then have "k < 8 * i \<or> 8 * i + 8 \<le> k" by linarith
    then have "\<not> (8 * i + lo \<le> k \<and> k < 8 * i + lo + n)" using assms(2) by linarith
    then show ?thesis using k False le by (subst nth_overwrite [OF le]) (auto simp: nth_bytes_bits)
  qed
qed

lemma bw_change_bytes_correct:
  assumes "i + n div 8 \<le> length out"
  shows "\<exists>out'. bw_change_bytes out i v n = Ok (out', i + n div 8, drop_bit (8 * (n div 8)) v, n mod 8)
    \<and> length out' = length out
    \<and> bytes_bits out' = overwrite (bytes_bits out) (8 * i) (word_bits (8 * (n div 8)) v)"
  using assms
proof (induction out i v n rule: bw_change_bytes.induct)
  case (1 out i v n)
  show ?case
  proof (cases "n \<ge> 8")
    case False
    then show ?thesis by (subst bw_change_bytes.simps) auto
  next
    case True
    let ?k = "(n - 8) div 8" and ?out = "out[i := ucast v]"
    have k: "n div 8 = Suc ?k" "(n - 8) mod 8 = n mod 8"
      using True by (auto simp: le_div_geq le_mod_geq)
    have i: "i < length out" "i + 1 + ?k \<le> length ?out" using "1.prems" k by auto
    then obtain out' where out': "bw_change_bytes ?out (i + 1) (drop_bit 8 v) (n - 8)
        = Ok (out', i + 1 + ?k, drop_bit (8 * ?k) (drop_bit 8 v), (n - 8) mod 8)"
      "length out' = length ?out"
      "bytes_bits out' = overwrite (bytes_bits ?out) (8 * (i + 1)) (word_bits (8 * ?k) (drop_bit 8 v))"
      using "1.IH" True by blast
    have "bytes_bits ?out = overwrite (bytes_bits out) (8 * i + 0) (word_bits 8 v)"
      using i by (intro bytes_bits_update) (auto simp: bit_ucast_iff)
    then have "bytes_bits out' = overwrite (bytes_bits out) (8 * i) (word_bits 8 v @ word_bits (8 * ?k) (drop_bit 8 v))"
      using out'(3) i overwrite_append [of "8 * i" "word_bits 8 v" "word_bits (8 * ?k) (drop_bit 8 v)"
          "bytes_bits out"] by (simp add: algebra_simps)
    then show ?thesis
      using True i out' k word_bits_add [of 8 "8 * ?k" v]
      by (subst bw_change_bytes.simps) (auto simp: add.commute)
  qed
qed

lemma bit_0xff: "bit (0xff :: u8) i \<longleftrightarrow> i < 8"
proof -
  have "(0xff :: u8) = mask 8" by (simp add: mask_eq_exp_minus_1)
  then show ?thesis unfolding bit_mask_iff by (simp only: bit_mask_iff) simp
qed

lemma low_byte_mask: "bit (drop_bit k 0xff :: u8) j \<longleftrightarrow> k + j < 8"
  by (simp only: bit_drop_bit_eq comp_def bit_0xff)

lemma high_byte_mask: "bit (push_bit k 0xff :: u8) j \<longleftrightarrow> k \<le> j \<and> j < 8"
  by (simp only: bit_push_bit_iff bit_0xff) auto

text \<open>The unaligned head of \<open>change_bits_64\<close>, up to the next byte boundary.\<close>

lemma change_head:
  assumes "i < length out" "lo < 8" "8 - lo \<le> n"
  shows "bytes_bits (out[i := (out ! i AND drop_bit (8 - lo) 0xff) OR ucast (push_bit lo (v :: u64))])
    = overwrite (bytes_bits out) (8 * i + lo) (word_bits (8 - lo) v)"
  using assms
  by (intro bytes_bits_update)
    (auto simp: bit_or_iff bit_and_iff low_byte_mask bit_ucast_iff bit_push_bit_iff)

text \<open>The tail that does not fill a byte.\<close>

lemma change_tail:
  assumes "i < length out" "n < 8" "take_bit n v = v"
  shows "bytes_bits (out[i := (out ! i AND push_bit n 0xff) OR ucast (v :: u64)])
    = overwrite (bytes_bits out) (8 * i) (word_bits n v)"
proof -
  have "bit v k \<longrightarrow> k < n" for k using assms(3) by (simp add: take_bit_word_eq_iff)
  then have "bytes_bits (out[i := (out ! i AND push_bit n 0xff) OR ucast v])
      = overwrite (bytes_bits out) (8 * i + 0) (word_bits n v)"
    using assms
    by (intro bytes_bits_update) (auto simp: bit_or_iff bit_and_iff high_byte_mask bit_ucast_iff)
  then show ?thesis by simp
qed

lemma bw_change_bits_64_correct:
  assumes inv: "bw_inv w" and al: "length (bw_bits w) mod 8 = 0"
    and room: "idx + n < length (bw_bits w)" and v: "unat v < 2 ^ n"
    and head: "idx mod 8 \<noteq> 0 \<Longrightarrow> 8 - idx mod 8 \<le> n"
  shows "\<exists>w'. bw_change_bits_64 w idx v n = Ok w' \<and> bw_inv w'
    \<and> bw_bits w' = overwrite (bw_bits w) idx (word_bits n v)"
proof -
  obtain w1 where w1: "bw_flush w = Ok w1" "bw_inv w1" "bw_bits w1 = bw_bits w"
    "bw_bits_in_partial w1 = 0" "bw_partial w1 = 0" "bytes_bits (bw_output w1) = bw_bits w"
    using bw_flush_correct [OF inv al] by blast
  have len: "idx + n < 8 * length (bw_output w1)"
    using room w1(6) by (metis length_bytes_bits)
  have tb: "take_bit n v = v" using v by (rule unat_less_take_bit)
  define h where "h = (if idx mod 8 = 0 then 0 else 8 - idx mod 8)"
  define out1 where "out1 = (if idx mod 8 = 0 then bw_output w1 else (bw_output w1)[idx div 8 :=
    (bw_output w1 ! (idx div 8) AND drop_bit h 0xff) OR ucast (push_bit (8 - h) v)])"
  define i1 where "i1 = (idx + h) div 8"
  define m where "m = n - h"
  have idx8: "idx = 8 * (idx div 8) + idx mod 8" by simp
  have h: "h \<le> n" "(idx + h) mod 8 = 0" "idx + h = 8 * i1"
  proof -
    show "h \<le> n" using head by (simp add: h_def)
    have "idx + h = 8 * (idx div 8) \<or> idx + h = 8 * (idx div 8) + 8"
    proof (cases "idx mod 8 = 0")
      case True
      then show ?thesis using idx8 by (simp add: h_def)
    next
      case False
      then have "h = 8 - idx mod 8" by (simp add: h_def)
      then show ?thesis using idx8 mod_less_divisor [of 8 idx] by linarith
    qed
    then show m: "(idx + h) mod 8 = 0" by auto
    then show "idx + h = 8 * i1" unfolding i1_def by auto
  qed
  have out1: "length out1 = length (bw_output w1)"
    "bytes_bits out1 = overwrite (bw_bits w) idx (word_bits h v)"
  proof -
    have i: "idx div 8 < length (bw_output w1)" using len by linarith
    show "length out1 = length (bw_output w1)" by (simp add: out1_def)
    show "bytes_bits out1 = overwrite (bw_bits w) idx (word_bits h v)"
    proof (cases "idx mod 8 = 0")
      case True
      then show ?thesis by (simp add: out1_def h_def w1(6))
    next
      case False
      then have "8 - h = idx mod 8" "h = 8 - idx mod 8" by (simp_all add: h_def)
      with change_head [OF i, of "idx mod 8" n v] head False idx8 show ?thesis
        by (simp add: out1_def w1(6))
    qed
  qed
  have room1: "i1 + m div 8 < length out1" using len h out1(1) unfolding m_def by linarith
  obtain out2 where out2: "bw_change_bytes out1 i1 (drop_bit h v) m
      = Ok (out2, i1 + m div 8, drop_bit (8 * (m div 8)) (drop_bit h v), m mod 8)"
    "length out2 = length out1"
    "bytes_bits out2 = overwrite (bytes_bits out1) (8 * i1) (word_bits (8 * (m div 8)) (drop_bit h v))"
    using bw_change_bytes_correct [of i1 m out1 "drop_bit h v"] room1 by auto
  define rest where "rest = drop_bit (8 * (m div 8)) (drop_bit h v)"
  define out3 where "out3 = (if m mod 8 > 0 then out2[i1 + m div 8 :=
    (out2 ! (i1 + m div 8) AND push_bit (m mod 8) 0xff) OR ucast rest] else out2)"
  have rest: "take_bit (m mod 8) rest = rest"
  proof -
    have "k < m mod 8" if "bit rest k" for k
    proof -
      have "bit v (h + (8 * (m div 8) + k))"
        using that by (simp add: rest_def bit_drop_bit_eq ac_simps)
      then have "h + (8 * (m div 8) + k) < n" using tb by (metis take_bit_word_eq_iff)
      moreover have "n = h + m" "m = 8 * (m div 8) + m mod 8" using h(1) by (simp_all add: m_def)
      ultimately show ?thesis by linarith
    qed
    then show ?thesis by (simp add: take_bit_word_eq_iff)
  qed
  have bits3: "bytes_bits out3 = overwrite (bytes_bits out2) (8 * (i1 + m div 8)) (word_bits (m mod 8) rest)"
    using room1 out2(2) rest by (auto simp: out3_def change_tail)
  define a b c where "a = word_bits h v" and "b = word_bits (8 * (m div 8)) (drop_bit h v)"
    and "c = word_bits (m mod 8) rest"
  have abc: "word_bits n v = (a @ b) @ c"
    using word_bits_add [of h m v] word_bits_add [of "8 * (m div 8)" "m mod 8" "drop_bit h v"] h(1)
    by (simp add: rest_def m_def a_def b_def c_def)
  then have fit: "idx + length ((a @ b) @ c) \<le> length (bw_bits w)"
    using room by (metis length_word_bits less_imp_le)
  have pos: "8 * i1 = idx + length a" "8 * (i1 + m div 8) = idx + length (a @ b)"
    using h(3) by (simp_all add: a_def b_def)
  have "bytes_bits out2 = overwrite (bw_bits w) idx (a @ b)"
    unfolding out2(3) out1(2) pos(1) a_def [symmetric] b_def [symmetric]
    by (rule overwrite_append) (use fit in simp)
  then have final: "bytes_bits out3 = overwrite (bw_bits w) idx (word_bits n v)"
    unfolding bits3 abc pos(2) c_def [symmetric] by (simp only: overwrite_append [OF fit])
  have run: "bw_change_bits_64 w idx v n = Ok (w1\<lparr>bw_output := out3\<rparr>)"
  proof -
    have checks: "idx + n < bw_index w1" "bw_index w1 - (idx + n) > bw_bits_in_partial w1"
      using w1 len by (simp_all add: bw_index_def bw_inv_def)
    have i: "idx div 8 < length (bw_output w1)" using len by linarith
    have "bw_change_bits_64 w idx v n =
      rbind (bw_change_bytes out1 i1 (drop_bit h v) m) (\<lambda>(out, i, bits, num_bits).
        if num_bits > 0 then rbind (rindex out i) (\<lambda>b.
           Ok (w1\<lparr>bw_output := out[i := (b AND push_bit num_bits 0xff) OR ucast bits]\<rparr>))
        else Ok (w1\<lparr>bw_output := out\<rparr>))"
      using checks i head h(2) w1(1)
      by (auto simp: bw_change_bits_64_def rbind_rassert Let_def out1_def h_def m_def i1_def)
    then show ?thesis
      using room1 out2(2) unfolding out2(1)
      by (auto simp: out3_def rest_def)
  qed
  have "bw_inv (w1\<lparr>bw_output := out3\<rparr>)" "bw_bits (w1\<lparr>bw_output := out3\<rparr>) = bytes_bits out3"
    using w1 out1(1) out2(2) by (auto simp: bw_inv_def bw_bits_def out3_def)
  then show ?thesis using run final by auto
qed

section \<open>The interface of a bit sink\<close>

text \<open>
  What the entropy coders and header writers rely on: writing a value of less than 64 bits
  appends its low bits.  The client facts are proved once, for a sequence of fields.
\<close>

type_synonym field = "u64 \<times> nat"

definition field_ok :: "field \<Rightarrow> bool" where
  "field_ok f \<longleftrightarrow> snd f < 64 \<and> unat (fst f) < 2 ^ snd f"

definition field_bits :: "field list \<Rightarrow> bits" where
  "field_bits fs = concat (map (\<lambda>f. word_bits (snd f) (fst f)) fs)"

fun put_all :: "('w \<Rightarrow> u64 \<Rightarrow> nat \<Rightarrow> (unit, 'w) res) \<Rightarrow> field list \<Rightarrow> 'w \<Rightarrow> (unit, 'w) res" where
  "put_all put [] w = Ok w"
| "put_all put (f # fs) w = rbind (put w (fst f) (snd f)) (put_all put fs)"

lemma field_bits_simps [simp]:
  "field_bits [] = []" "field_bits (f # fs) = word_bits (snd f) (fst f) @ field_bits fs"
  "field_bits (fs @ gs) = field_bits fs @ field_bits gs"
  by (simp_all add: field_bits_def)

lemma length_field_bits: "length (field_bits fs) = sum_list (map snd fs)"
  by (induction fs) simp_all

locale bit_sink =
  fixes put :: "'w \<Rightarrow> u64 \<Rightarrow> nat \<Rightarrow> (unit, 'w) res"
    and valid :: "'w \<Rightarrow> bool"
    and contents :: "'w \<Rightarrow> bits"
  assumes put_ok: "valid w \<Longrightarrow> n < 64 \<Longrightarrow> unat v < 2 ^ n \<Longrightarrow>
    \<exists>w'. put w v n = Ok w' \<and> valid w' \<and> contents w' = contents w @ word_bits n v"
begin

lemma put_step:
  assumes "valid w" "n < 64" "unat v < 2 ^ n"
  obtains w' where "put w v n = Ok w'" "valid w'" "contents w' = contents w @ word_bits n v"
  using put_ok [OF assms] by blast

lemma put_all_ok:
  "valid w \<Longrightarrow> list_all field_ok fs \<Longrightarrow>
    \<exists>w'. put_all put fs w = Ok w' \<and> valid w' \<and> contents w' = contents w @ field_bits fs"
proof (induction fs arbitrary: w)
  case Nil
  then show ?case by simp
next
  case (Cons f fs)
  then obtain w1 where "put w (fst f) (snd f) = Ok w1" "valid w1"
    "contents w1 = contents w @ word_bits (snd f) (fst f)"
    using put_step [of w "snd f" "fst f"] by (auto simp: field_ok_def)
  with Cons.IH [of w1] Cons.prems show ?case by auto
qed

end

interpretation bw: bit_sink bw_write_bits_64 bw_inv bw_bits
  by unfold_locales (rule bw_write_bits_64_correct)

section \<open>Properties\<close>

text \<open>
  C7.  Writing a value of at most 63 bits never panics, keeps the writer's invariant (the
  buffer length agrees with the bit index, the pending word is clean above its fill) and
  appends exactly the value's low bits, on the in-place path and on the cold path that spills
  the full accumulator, whole bytes and the remainder.
\<close>

theorem bw_write_bits_64_spec:
  assumes "bw_inv w" and "n < 64" and "unat v < 2 ^ n"
  shows "\<exists>w'. bw_write_bits_64 w v n = Ok w' \<and> bw_inv w' \<and> bw_bits w' = bw_bits w @ word_bits n v"
  using assms by (rule bw_write_bits_64_correct)

theorem bw_write_bits_64_spec_witness:
  "\<exists>w'. bw_write_bits_64 \<lparr>bw_output = [], bw_partial = 5, bw_bits_in_partial = 62, bw_bit_idx = 0\<rparr> 0x1234 13
     = Ok w' \<and> length (bw_bits w') = 75"
proof -
  let ?w = "\<lparr>bw_output = [], bw_partial = 5, bw_bits_in_partial = 62, bw_bit_idx = 0\<rparr>"
  have "bw_inv ?w" by (simp add: bw_inv_def)
  then obtain w' where "bw_write_bits_64 ?w 0x1234 13 = Ok w'" "bw_bits w' = bw_bits ?w @ word_bits 13 0x1234"
    using bw_write_bits_64_spec [of ?w 13 "0x1234"] by auto
  moreover have "length (bw_bits ?w) = 62" by (simp add: bw_bits_def)
  ultimately show ?thesis by auto
qed

text \<open>
  C8.  \<open>change_bits_64\<close> replaces exactly the \<open>n\<close> bits at the given bit index and leaves every
  other bit of the written string alone, for an unaligned head, whole bytes and a partial tail,
  whenever its documented conditions hold (writer byte-aligned, field inside the written bits,
  value within \<open>n\<close> bits, an unaligned field reaching at least the next byte border).
\<close>

theorem bw_change_bits_64_spec:
  assumes "bw_inv w" and "length (bw_bits w) mod 8 = 0" and "idx + n < length (bw_bits w)"
    and "unat v < 2 ^ n" and "idx mod 8 \<noteq> 0 \<Longrightarrow> 8 - idx mod 8 \<le> n"
  shows "\<exists>w'. bw_change_bits_64 w idx v n = Ok w' \<and> bw_inv w'
    \<and> bw_bits w' = overwrite (bw_bits w) idx (word_bits n v)"
  using assms by (rule bw_change_bits_64_correct)

theorem bw_change_bits_64_spec_witness:
  "\<exists>w'. bw_change_bits_64 (bw_from [1, 2, 3, 4]) 5 0x2A9 14 = Ok w'
     \<and> bw_bits w' = overwrite (bytes_bits [1, 2, 3, 4]) 5 (word_bits 14 0x2A9)"
  using bw_change_bits_64_spec [of "bw_from [1, 2, 3, 4]" 5 14 "0x2A9"] by auto

end
