(* ===== verification/Bit_Roundtrip.thy ===== *)
theory Bit_Roundtrip
  imports Bit_Reader Bit_Writer
begin

text \<open>
  The forward writer and the forward reader are inverse: fields written with
  \<open>write_bits_64\<close> and dumped are read back by \<open>get_bits\<close> with the same widths.
\<close>

fun br_read_all :: "nat list \<Rightarrow> BitReader \<Rightarrow> (GetBitsError, u64 list \<times> BitReader) res" where
  "br_read_all [] r = Ok ([], r)"
| "br_read_all (n # ns) r = rbind (br_get_bits r n) (\<lambda>(v, r).
     rbind (br_read_all ns r) (\<lambda>(vs, r). Ok (v # vs, r)))"

lemma br_read_all_fields:
  assumes "list_all field_ok fs" "list_all (\<lambda>f. 0 < snd f) fs" "br_bits r = field_bits fs @ rest"
  shows "br_read_all (map snd fs) r =
    Ok (map fst fs, r\<lparr>br_idx := br_idx r + length (field_bits fs)\<rparr>)"
  using assms
proof (induction fs arbitrary: r)
  case Nil
  then show ?case by simp
next
  case (Cons f fs)
  let ?n = "snd f"
  have f: "0 < ?n" "?n < 64" "unat (fst f) < 2 ^ ?n" using Cons.prems by (auto simp: field_ok_def)
  have left: "br_left r = ?n + length (field_bits fs @ rest)"
    using Cons.prems(3) length_br_bits [of r] by simp
  then have "br_idx r < br_total r" using f by (simp add: br_left_def br_total_def)
  moreover have "bits_word (take ?n (br_bits r)) = fst f"
    using f Cons.prems(3) by (simp add: bits_word_word_bits unat_less_take_bit)
  ultimately have get: "br_get_bits r ?n = Ok (fst f, r\<lparr>br_idx := br_idx r + ?n\<rparr>)"
    using f left by (simp add: br_get_bits_correct)
  have "br_bits (r\<lparr>br_idx := br_idx r + ?n\<rparr>) = drop ?n (br_bits r)"
    by (simp add: br_bits_def add.commute)
  then have "br_bits (r\<lparr>br_idx := br_idx r + ?n\<rparr>) = field_bits fs @ rest"
    using Cons.prems(3) by simp
  with Cons.IH [of "r\<lparr>br_idx := br_idx r + ?n\<rparr>"] Cons.prems get show ?case
    by (simp add: add.assoc)
qed

text \<open>
  C10.  Round trip: any sequence of fields of 1 to 63 bits whose total width is a whole number of
  bytes is written without a panic, dumps to a byte string of that width, and is read back field
  by field, the reader ending exactly at the end of the string.
\<close>

theorem write_read_roundtrip:
  assumes "list_all field_ok fs" and "list_all (\<lambda>f. 0 < snd f) fs"
    and "sum_list (map snd fs) mod 8 = 0"
  shows "\<exists>w out. put_all bw_write_bits_64 fs bw_new = Ok w \<and> bw_dump w = Ok out
    \<and> 8 * length out = sum_list (map snd fs)
    \<and> br_read_all (map snd fs) (br_new out)
        = Ok (map fst fs, \<lparr>br_idx = 8 * length out, br_source = out\<rparr>)"
proof -
  obtain w where w: "put_all bw_write_bits_64 fs bw_new = Ok w" "bw_inv w" "bw_bits w = field_bits fs"
    using bw.put_all_ok [of bw_new fs] assms(1) by auto
  obtain out where out: "bw_dump w = Ok out" "bytes_bits out = field_bits fs"
    using bw_dump_correct [OF w(2)] w(3) assms(3) by (auto simp: length_field_bits)
  have len: "8 * length out = length (field_bits fs)"
    using out(2) length_bytes_bits by metis
  then have "br_read_all (map snd fs) (br_new out)
      = Ok (map fst fs, (br_new out)\<lparr>br_idx := 8 * length out\<rparr>)"
    using br_read_all_fields [OF assms(1,2), of "br_new out" "[]"] out(2)
    by (simp only: br_bits_new append_Nil2 simp_thms) (simp add: br_new_def)
  then show ?thesis using w out len by (auto simp: br_new_def length_field_bits)
qed

theorem write_read_roundtrip_witness:
  "\<exists>w out. put_all bw_write_bits_64 [(5, 3), (0x1234, 60), (1, 1)] bw_new = Ok w \<and> bw_dump w = Ok out
    \<and> length out = 8"
  using write_read_roundtrip [of "[(5, 3), (0x1234, 60), (1, 1)]"] by (force simp: field_ok_def)

end
