(* ===== verification/Fse_Decoder.thy ===== *)
theory Fse_Decoder
  imports Bit_Reader Bit_Reader_Reversed Bit_Writer
begin

text \<open>
  The FSE (tANS) decoding side, \<open>fse/fse_decoder.rs\<close>: the spread constants of a symbol, the
  construction of the decoding table from a normalized distribution, the decoder state, and the
  parser of the serialized distribution.  Probabilities are \<open>int\<close> (\<open>i32\<close>), base lines and
  spread constants are \<open>u32\<close> words because \<open>base_s\<close> is stored wrapping-negated.
\<close>

unbundle bit_operations_syntax

section \<open>Data\<close>

record Entry =
  base_line :: u32
  num_bits :: nat
  symbol :: nat

record SymbolSpreadInfo =
  num_double :: u32
  base_d :: u32
  stride_d :: u32
  base_s :: u32
  stride_s :: u32
  nb_d :: nat
  nb_s :: nat

datatype FSETableError =
    AccLogIsZero
  | AccLogTooBig nat nat
  | FseGetBitsError GetBitsError
  | ProbabilityCounterMismatch nat nat "int list"
  | TooManySymbols nat

datatype FSEDecoderError = FSEGetBitsError GetBitsError | TableIsUninitialized

record FSETable =
  ft_max_symbol :: nat
  ft_decode :: "Entry list"
  ft_accuracy_log :: nat
  ft_symbol_probabilities :: "int list"
  ft_symbol_counter :: "nat list"
  ft_symbol_info :: "SymbolSpreadInfo list"

definition ACC_LOG_OFFSET :: nat where
  "ACC_LOG_OFFSET = 5"

definition dummy_entry :: Entry where
  "dummy_entry = \<lparr>base_line = 0, num_bits = 0, symbol = 0\<rparr>"

definition SymbolSpreadInfo_DEFAULT :: SymbolSpreadInfo where
  "SymbolSpreadInfo_DEFAULT = \<lparr>num_double = 0, base_d = 0, stride_d = 0, base_s = 0,
     stride_s = 0, nb_d = 0, nb_s = 0\<rparr>"

definition ft_new :: "nat \<Rightarrow> FSETable" where
  "ft_new max_symbol = \<lparr>ft_max_symbol = max_symbol, ft_decode = [], ft_accuracy_log = 0,
     ft_symbol_probabilities = [], ft_symbol_counter = [],
     ft_symbol_info = replicate 256 SymbolSpreadInfo_DEFAULT\<rparr>"

definition ft_reset :: "FSETable \<Rightarrow> FSETable" where
  "ft_reset t = t\<lparr>ft_symbol_counter := [], ft_symbol_probabilities := [], ft_decode := [],
     ft_accuracy_log := 0\<rparr>"

definition ft_reinit_from :: "FSETable \<Rightarrow> FSETable \<Rightarrow> FSETable" where
  "ft_reinit_from t other =
     (let t = ft_reset t in
      t\<lparr>ft_symbol_counter := ft_symbol_counter t @ ft_symbol_counter other,
        ft_symbol_probabilities := ft_symbol_probabilities t @ ft_symbol_probabilities other,
        ft_decode := ft_decode t @ ft_decode other,
        ft_accuracy_log := ft_accuracy_log other,
        ft_symbol_info := ft_symbol_info other\<rparr>)"

section \<open>Spread constants\<close>

definition highest_bit_set :: "nat \<Rightarrow> ('e, nat) res" where
  "highest_bit_set x = rbind (rassert (x > 0)) (\<lambda>_. Ok (Suc (ilog2 x)))"

fun trailing_zeros :: "nat \<Rightarrow> nat" where
  "trailing_zeros n = (if n = 0 then 32 else if odd n then 0 else Suc (trailing_zeros (n div 2)))"

declare trailing_zeros.simps [simp del]

definition next_position :: "nat \<Rightarrow> nat \<Rightarrow> nat" where
  "next_position p table_size =
     (p + (drop_bit 1 table_size + drop_bit 3 table_size + 3)) AND (table_size - 1)"

definition calc_symbol_spread_info :: "nat \<Rightarrow> nat \<Rightarrow> ('e, SymbolSpreadInfo) res" where
  "calc_symbol_spread_info num_states_total num_states_symbol =
     rbind (highest_bit_set num_states_symbol) (\<lambda>h.
     let num_state_slices = (if push_bit (h - 1) 1 = num_states_symbol then num_states_symbol
                             else push_bit h 1);
         num_double_width_state_slices = num_state_slices - num_states_symbol;
         num_single_width_state_slices = num_states_symbol - num_double_width_state_slices;
         slice_width = drop_bit (trailing_zeros num_state_slices) num_states_total
     in rbind (highest_bit_set slice_width) (\<lambda>hw.
        let nb_s = hw - 1 in
        Ok \<lparr>num_double = of_nat num_double_width_state_slices,
            base_d = of_nat (num_single_width_state_slices * slice_width),
            stride_d = of_nat (slice_width * 2),
            base_s = - of_nat (num_double_width_state_slices * slice_width),
            stride_s = of_nat slice_width,
            nb_d = nb_s + 1,
            nb_s = nb_s\<rparr>))"

section \<open>Building the decoding table\<close>

text \<open>First pass: the symbols of probability \<open>-1\<close>, from the top of the table downwards.\<close>

fun place_negative ::
  "nat \<Rightarrow> nat \<Rightarrow> int list \<Rightarrow> nat \<Rightarrow> Entry list \<Rightarrow> (FSETableError, nat \<times> Entry list) res" where
  "place_negative acc_log sy [] negative_idx dec = Ok (negative_idx, dec)"
| "place_negative acc_log sy (p # ps) negative_idx dec =
     (if p = -1 then
        rbind (rassert (0 < negative_idx)) (\<lambda>_.
        rbind (rindex dec (negative_idx - 1)) (\<lambda>_.
          place_negative acc_log (sy + 1) ps (negative_idx - 1)
            (dec[negative_idx - 1 := \<lparr>base_line = 0, num_bits = acc_log, symbol = sy\<rparr>])))
      else place_negative acc_log (sy + 1) ps negative_idx dec)"

text \<open>
  The walk past the occupied top of the table.  The positions form a cycle of at most
  \<open>table_size\<close> elements, so \<open>table_size\<close> steps of fuel decide whether the loop ends;
  a walk that does not end is \<open>None\<close>.
\<close>

fun skip_occupied :: "nat \<Rightarrow> nat \<Rightarrow> nat \<Rightarrow> nat \<Rightarrow> nat option" where
  "skip_occupied 0 negative_idx table_size position =
     (if position \<ge> negative_idx then None else Some position)"
| "skip_occupied (Suc fuel) negative_idx table_size position =
     (if position \<ge> negative_idx
      then skip_occupied fuel negative_idx table_size (next_position position table_size)
      else Some position)"

text \<open>One symbol gets its slots; then all positive symbols in order.\<close>

fun spread_symbol ::
  "nat \<Rightarrow> nat \<Rightarrow> nat \<Rightarrow> nat \<Rightarrow> nat \<Rightarrow> Entry list \<Rightarrow> (FSETableError, nat \<times> Entry list) res" where
  "spread_symbol sy negative_idx table_size 0 position dec = Ok (position, dec)"
| "spread_symbol sy negative_idx table_size (Suc k) position dec =
     rbind (rindex dec position) (\<lambda>e.
       case skip_occupied table_size negative_idx table_size (next_position position table_size) of
         None \<Rightarrow> Panic
       | Some p \<Rightarrow> spread_symbol sy negative_idx table_size k p (dec[position := e\<lparr>symbol := sy\<rparr>]))"

fun spread_symbols ::
  "nat \<Rightarrow> int list \<Rightarrow> nat \<Rightarrow> nat \<Rightarrow> nat \<Rightarrow> Entry list \<Rightarrow> (FSETableError, nat \<times> Entry list) res" where
  "spread_symbols sy [] negative_idx table_size position dec = Ok (position, dec)"
| "spread_symbols sy (p # ps) negative_idx table_size position dec =
     (if p \<le> 0 then spread_symbols (sy + 1) ps negative_idx table_size position dec
      else rbind (spread_symbol sy negative_idx table_size (nat p) position dec)
        (\<lambda>(position, dec). spread_symbols (sy + 1) ps negative_idx table_size position dec))"

text \<open>The per-symbol constants.\<close>

fun symbol_infos :: "nat \<Rightarrow> nat \<Rightarrow> int list \<Rightarrow> (FSETableError, SymbolSpreadInfo list) res" where
  "symbol_infos table_size acc_log [] = Ok []"
| "symbol_infos table_size acc_log (p # ps) =
     rbind (if p > 0 then
              rbind (calc_symbol_spread_info table_size (nat p)) (\<lambda>info.
              rbind (rassert (num_double info = 0 \<or> nb_d info \<le> acc_log)) (\<lambda>_.
              rbind (rassert (nb_s info \<le> acc_log)) (\<lambda>_. Ok info)))
            else Ok SymbolSpreadInfo_DEFAULT)
       (\<lambda>i. rbind (symbol_infos table_size acc_log ps) (\<lambda>is. Ok (i # is)))"

definition entry_of_count :: "SymbolSpreadInfo \<Rightarrow> nat \<Rightarrow> u32 \<times> nat" where
  "entry_of_count info count =
     (if of_nat count < num_double info
      then (base_d info + of_nat count * stride_d info, nb_d info)
      else (base_s info + of_nat count * stride_s info, nb_s info))"

text \<open>Last pass: base lines and bit counts of the first \<open>negative_idx\<close> entries, in order.\<close>

fun fill_entries ::
  "SymbolSpreadInfo list \<Rightarrow> nat \<Rightarrow> nat \<Rightarrow> nat list \<Rightarrow> Entry list
    \<Rightarrow> (FSETableError, nat list \<times> Entry list) res" where
  "fill_entries infos 0 idx counter dec = Ok (counter, dec)"
| "fill_entries infos (Suc k) idx counter dec =
     rbind (rindex dec idx) (\<lambda>e.
     rbind (rindex counter (symbol e)) (\<lambda>count.
     rbind (rindex infos (symbol e)) (\<lambda>info.
       let (bl, nb) = entry_of_count info count in
       fill_entries infos k (idx + 1) (counter[symbol e := count + 1])
         (dec[idx := e\<lparr>base_line := bl, num_bits := nb\<rparr>]))))"

text \<open>The whole build; it ends with the debug assertion that no entry leads out of the table.\<close>

definition build_decoding_table :: "FSETable \<Rightarrow> (FSETableError, FSETable) res" where
  "build_decoding_table t =
     (let probs = ft_symbol_probabilities t; acc_log = ft_accuracy_log t in
      if length probs > ft_max_symbol t + 1 then Err (TooManySymbols (length probs))
      else let table_size = push_bit acc_log 1; dec = replicate table_size dummy_entry in
        rbind (place_negative acc_log 0 probs table_size dec) (\<lambda>(negative_idx, dec).
        rbind (spread_symbols 0 probs negative_idx table_size 0 dec) (\<lambda>(_, dec).
        rbind (symbol_infos table_size acc_log probs) (\<lambda>infos.
        let infos = infos @ drop (length infos) (ft_symbol_info t) in
        rbind (fill_entries infos negative_idx 0 (replicate (length probs) 0) dec)
          (\<lambda>(counter, dec).
        rbind (rassert (list_all (\<lambda>e. unat (base_line e) + 2 ^ num_bits e \<le> table_size) dec)) (\<lambda>_.
        Ok (t\<lparr>ft_decode := dec, ft_symbol_counter := counter, ft_symbol_info := infos\<rparr>)))))))"

definition build_from_probabilities ::
  "FSETable \<Rightarrow> nat \<Rightarrow> int list \<Rightarrow> (FSETableError, FSETable) res" where
  "build_from_probabilities t acc_log probs =
     (if acc_log = 0 then Err AccLogIsZero
      else build_decoding_table
        (t\<lparr>ft_symbol_probabilities := probs, ft_accuracy_log := acc_log\<rparr>))"

section \<open>Parsing the serialized distribution\<close>

text \<open>The run of 2-bit zero markers after a zero probability.\<close>

lemma br_get_bits_progress:
  "br_get_bits r n = Ok (v, r') \<Longrightarrow> 0 < n \<Longrightarrow> br_left r' < br_left r"
  using br_get_bits_OkD [of r n v r'] by simp

function zero_run ::
  "BitReader \<Rightarrow> int list \<Rightarrow> (GetBitsError, BitReader \<times> int list) res" where
  "zero_run br probs =
     (case br_get_bits br 2 of
        Err e \<Rightarrow> Err e
      | Panic \<Rightarrow> Panic
      | Ok (v, br') \<Rightarrow>
          let skip_amount = unat v; probs' = probs @ replicate skip_amount 0 in
          if skip_amount \<noteq> 3 then Ok (br', probs')
          else zero_run br' probs')"
  by pat_completeness auto
termination
  by (relation "measure (\<lambda>(br, probs). br_left br)") (auto dest: br_get_bits_progress)

declare zero_run.simps [simp del]

text \<open>
  One value of the distribution: its width depends on the mass that remains; small values use
  one bit less, which is returned to the reader.
\<close>

definition read_value ::
  "nat \<Rightarrow> nat \<Rightarrow> BitReader \<Rightarrow> (FSETableError, nat \<times> BitReader) res" where
  "read_value probability_sum probability_counter br =
     (let max_remaining_value = probability_sum - probability_counter + 1 in
      rbind (highest_bit_set max_remaining_value) (\<lambda>bits_to_read.
      rbind (rmap_err FseGetBitsError (br_get_bits_zero_padded br bits_to_read 1))
        (\<lambda>(unchecked, br).
      let unchecked_value = unat unchecked;
          low_threshold = (push_bit bits_to_read 1 - 1) - max_remaining_value;
          mask = push_bit (bits_to_read - 1) 1 - 1;
          small_value = unchecked_value AND mask
      in rbind
           (if small_value < low_threshold then
              rbind (rmap_err FseGetBitsError (br_return_bits br 1)) (\<lambda>br. Ok (small_value, br))
            else if unchecked_value > mask then Ok (unchecked_value - low_threshold, br)
            else Ok (unchecked_value, br))
           (\<lambda>(value, br).
         if br_bits_read br > length (br_source br) * 8
         then Err (FseGetBitsError (NotEnoughRemainingBits bits_to_read (bits_to_read - 1)))
         else Ok (value, br)))))"

lemma read_value_progress:
  assumes "read_value psum pc br = Ok (v, br')" "pc < psum"
  shows "br_source br' = br_source br \<and> br_idx br < br_idx br' \<and> br_idx br' \<le> br_total br'"
proof -
  let ?b = "Suc (ilog2 (psum - pc + 1))"
  have b: "2 \<le> ?b" using assms(2) by (subst ilog2.simps) auto
  obtain u br1 where u: "br_get_bits_zero_padded br ?b 1 = Ok (u, br1)"
    using assms by (cases "br_get_bits_zero_padded br ?b 1")
      (auto simp: read_value_def highest_bit_set_def Let_def)
  have "br1 = br\<lparr>br_idx := br_idx br + ?b\<rparr>"
    using u by (auto simp: br_get_bits_zero_padded_def Let_def rbind_eq_Ok dest!: br_get_bits_OkD(1)
        split: if_splits)
  with u assms b show ?thesis
    by (auto simp: read_value_def highest_bit_set_def Let_def rbind_eq_Ok br_return_bits_def
        br_bits_read_def br_total_def split: if_splits)
qed

lemma zero_run_progress:
  "zero_run br probs = Ok (br', probs') \<Longrightarrow>
     br_source br' = br_source br \<and> br_idx br < br_idx br' \<and> br_idx br' \<le> br_total br'"
proof (induction br probs rule: zero_run.induct)
  case (1 br probs)
  then obtain v br1 where v: "br_get_bits br 2 = Ok (v, br1)"
    by (subst (asm) zero_run.simps) (auto split: res.splits)
  have r1: "br1 = br\<lparr>br_idx := br_idx br + 2\<rparr>" "2 \<le> br_left br"
    using br_get_bits_OkD [OF v] by auto
  then have lim: "br_idx br1 \<le> br_total br1" by (auto simp: br_total_def br_left_def)
  show ?case
  proof (cases "unat v = 3")
    case True
    then have "zero_run br1 (probs @ replicate 3 0) = Ok (br', probs')"
      using "1.prems" v by (subst (asm) zero_run.simps) auto
    then show ?thesis using "1.IH" [OF v refl refl refl] True r1 by auto
  next
    case False
    then show ?thesis using "1.prems" v r1 lim by (subst (asm) zero_run.simps) auto
  qed
qed

lemma read_value_shrinks:
  "read_value psum pc br = Ok (v, br') \<Longrightarrow> pc < psum \<Longrightarrow> br_left br' < br_left br"
  using read_value_progress [of psum pc br v br'] by (auto simp: br_left_def br_total_def)

lemma zero_run_shrinks:
  "rmap_err f (zero_run br probs) = Ok (br', probs') \<Longrightarrow> br_left br' < br_left br"
  using zero_run_progress [of br probs br' probs']
  by (cases "zero_run br probs") (auto simp: br_left_def br_total_def)

text \<open>The loop over the values, until the whole mass is distributed.\<close>

function read_loop ::
  "nat \<Rightarrow> nat \<Rightarrow> int list \<Rightarrow> BitReader \<Rightarrow> (FSETableError, nat \<times> int list \<times> BitReader) res" where
  "read_loop probability_sum probability_counter probs br =
     (if probability_counter < probability_sum then
        (case read_value probability_sum probability_counter br of
           Err e \<Rightarrow> Err e
         | Panic \<Rightarrow> Panic
         | Ok (value, br) \<Rightarrow>
             let prob = int value - 1; probs = probs @ [prob] in
             if prob \<noteq> 0 then
               read_loop probability_sum
                 (if prob > 0 then probability_counter + nat prob else probability_counter + 1) probs br
             else
               (case rmap_err FseGetBitsError (zero_run br probs) of
                  Err e \<Rightarrow> Err e
                | Panic \<Rightarrow> Panic
                | Ok (br, probs) \<Rightarrow> read_loop probability_sum probability_counter probs br))
      else Ok (probability_counter, probs, br))"
  by pat_completeness auto
termination
  by (relation "measure (\<lambda>(s, c, probs, br). br_left br)")
    (auto dest: read_value_shrinks zero_run_shrinks intro: less_trans)

declare read_loop.simps [simp del]

definition read_probabilities ::
  "FSETable \<Rightarrow> bytes \<Rightarrow> nat \<Rightarrow> (FSETableError, nat \<times> FSETable) res" where
  "read_probabilities t source max_log =
     rbind (rmap_err FseGetBitsError (br_get_bits (br_new source) 4)) (\<lambda>(v, br).
     let accuracy_log = ACC_LOG_OFFSET + unat v in
     if accuracy_log > max_log then Err (AccLogTooBig accuracy_log max_log)
     else if accuracy_log = 0 then Err AccLogIsZero
     else let probability_sum = push_bit accuracy_log 1 in
       rbind (read_loop probability_sum 0 [] br) (\<lambda>(probability_counter, probs, br).
       if probability_counter \<noteq> probability_sum
       then Err (ProbabilityCounterMismatch probability_counter probability_sum probs)
       else if length probs > ft_max_symbol t + 1 then Err (TooManySymbols (length probs))
       else let bytes_read = (if br_bits_read br mod 8 = 0 then br_bits_read br div 8
                              else br_bits_read br div 8 + 1)
         in Ok (bytes_read, t\<lparr>ft_accuracy_log := accuracy_log, ft_symbol_probabilities := probs\<rparr>)))"

definition build_decoder ::
  "FSETable \<Rightarrow> bytes \<Rightarrow> nat \<Rightarrow> (FSETableError, nat \<times> FSETable) res" where
  "build_decoder t source max_log =
     rbind (read_probabilities (t\<lparr>ft_accuracy_log := 0\<rparr>) source max_log) (\<lambda>(bytes_read, t).
     rbind (build_decoding_table t) (\<lambda>t. Ok (bytes_read, t)))"

section \<open>The decoder state\<close>

record FSEDecoder =
  fd_state :: Entry
  fd_table :: FSETable

definition fd_new :: "FSETable \<Rightarrow> FSEDecoder" where
  "fd_new table = \<lparr>fd_state = (case ft_decode table of [] \<Rightarrow> dummy_entry | e # _ \<Rightarrow> e),
     fd_table = table\<rparr>"

definition decode_symbol :: "FSEDecoder \<Rightarrow> nat" where
  "decode_symbol d = symbol (fd_state d)"

definition init_state ::
  "FSEDecoder \<Rightarrow> BitReaderReversed \<Rightarrow> (FSEDecoderError, FSEDecoder \<times> BitReaderReversed) res" where
  "init_state d r =
     (if ft_accuracy_log (fd_table d) = 0 then Err TableIsUninitialized
      else rbind (infallible (rr_get_bits r (ft_accuracy_log (fd_table d))))
        (\<lambda>(new_state, r).
      rbind (rindex (ft_decode (fd_table d)) (unat new_state)) (\<lambda>e.
        Ok (d\<lparr>fd_state := e\<rparr>, r))))"

definition update_state ::
  "FSEDecoder \<Rightarrow> BitReaderReversed \<Rightarrow> (unit, FSEDecoder \<times> BitReaderReversed) res" where
  "update_state d r =
     rbind (rr_get_bits r (num_bits (fd_state d))) (\<lambda>(add, r).
       let new_state = base_line (fd_state d) + ucast add in
       rbind (rindex (ft_decode (fd_table d)) (unat new_state)) (\<lambda>e.
         Ok (d\<lparr>fd_state := e\<rparr>, r)))"

end
