(* ===== verification/Fse_Table.thy ===== *)
theory Fse_Table
  imports Fse_Decoder "HOL-Library.Multiset"
begin

text \<open>
  Correctness of \<open>build_decoding_table\<close>: the spread walk visits every free position once, each
  symbol gets as many entries as its weight, and the transition intervals of the entries of one
  symbol tile the state space.  The layout computed here is shared with the encoder.
\<close>

section \<open>Valid distributions\<close>

definition dist_valid :: "nat \<Rightarrow> int list \<Rightarrow> bool" where
  "dist_valid acc ps \<longleftrightarrow> 5 \<le> acc \<and> acc \<le> 20 \<and> length ps \<le> 256 \<and> (\<forall>p \<in> set ps. -1 \<le> p)
     \<and> sum_list (map abs ps) = 2 ^ acc"

definition weight :: "int list \<Rightarrow> nat \<Rightarrow> nat" where
  "weight ps s = (if s < length ps then nat \<bar>ps ! s\<bar> else 0)"

section \<open>The walk over the positions\<close>

definition spread_step :: "nat \<Rightarrow> nat" where
  "spread_step k = 2 ^ k div 2 + 2 ^ k div 8 + 3"

definition orbit :: "nat \<Rightarrow> nat \<Rightarrow> nat" where
  "orbit k i = (i * spread_step k) mod 2 ^ k"

lemma odd_spread_step: "4 \<le> k \<Longrightarrow> odd (spread_step k)"
proof -
  assume "4 \<le> k"
  then obtain m where k: "k = m + 4" by (metis add.commute le_Suc_ex)
  have "(2::nat) ^ k div 2 = 2 * (2 ^ m * 4)" "(2::nat) ^ k div 8 = 2 * 2 ^ m"
    by (simp_all add: k power_add)
  then have "spread_step k = 2 * (2 ^ m * 4) + 2 * 2 ^ m + 3" by (simp only: spread_step_def)
  then show ?thesis by simp
qed

lemma next_position_mod: "next_position p (2 ^ k) = (p + spread_step k) mod 2 ^ k"
proof -
  have "next_position p (2 ^ k) = take_bit k (p + spread_step k)"
    by (simp add: next_position_def spread_step_def drop_bit_eq_div take_bit_eq_mask
        mask_eq_exp_minus_1 add.assoc)
  then show ?thesis by (simp add: take_bit_eq_mod)
qed

lemma next_position_orbit: "next_position (orbit k i) (2 ^ k) = orbit k (Suc i)"
  by (simp add: next_position_mod orbit_def mod_simps add.commute)

lemma orbit_simps [simp]: "orbit k 0 = 0" "orbit k (2 ^ k) = 0"
  by (simp_all add: orbit_def)

lemma orbit_less [simp]: "orbit k i < 2 ^ k"
  by (simp add: orbit_def)

lemma orbit_inj:
  assumes "4 \<le> k" shows "inj_on (orbit k) {..<2 ^ k}"
proof (rule linorder_inj_onI')
  fix i j :: nat assume ij: "i \<in> {..<2 ^ k}" "j \<in> {..<2 ^ k}" "i < j"
  show "orbit k i \<noteq> orbit k j"
  proof
    assume "orbit k i = orbit k j"
    then have "(j * spread_step k) mod 2 ^ k = (i * spread_step k) mod 2 ^ k"
      by (simp add: orbit_def)
    then have "2 ^ k dvd j * spread_step k - i * spread_step k"
      using ij by (subst (asm) mod_eq_dvd_iff_nat) auto
    then have "2 ^ k dvd (j - i) * spread_step k" by (simp add: diff_mult_distrib)
    moreover have "coprime (2 ^ k) (spread_step k)"
      using odd_spread_step [OF assms] by simp
    ultimately have "2 ^ k dvd j - i" by (simp add: coprime_dvd_mult_left_iff)
    then show False using ij by (auto dest: dvd_imp_le)
  qed
qed

text \<open>The free positions still to come, in walk order.\<close>

definition free_positions :: "nat \<Rightarrow> nat \<Rightarrow> nat \<Rightarrow> nat list" where
  "free_positions neg k i = filter (\<lambda>p. p < neg) (map (orbit k) [i..<2 ^ k])"

lemma free_positions_step:
  "i < 2 ^ k \<Longrightarrow> free_positions neg k i =
     (if orbit k i < neg then orbit k i # free_positions neg k (Suc i) else free_positions neg k (Suc i))"
  by (simp add: free_positions_def upt_conv_Cons)

lemma free_positions_end [simp]: "free_positions neg k (2 ^ k) = []"
  by (simp add: free_positions_def)

lemma distinct_free_positions: "4 \<le> k \<Longrightarrow> distinct (free_positions neg k 0)"
  using orbit_inj [of k] by (simp add: free_positions_def distinct_map atLeast0LessThan)

lemma set_free_positions:
  assumes "4 \<le> k" "neg \<le> 2 ^ k" shows "set (free_positions neg k 0) = {..<neg}"
proof -
  have "orbit k ` {..<2 ^ k} = {..<2 ^ k}"
    by (rule endo_inj_surj [OF finite_lessThan _ orbit_inj [OF assms(1)]])
      (rule image_subsetI, simp only: lessThan_iff orbit_less)
  moreover have "set (free_positions neg k 0) = {p \<in> orbit k ` {..<2 ^ k}. p < neg}"
    by (simp add: free_positions_def atLeast0LessThan)
  ultimately have "set (free_positions neg k 0) = {p \<in> {..<2 ^ k}. p < neg}" by (simp only:)
  then show ?thesis using assms(2) by (simp add: set_eq_iff) (meson less_le_trans)
qed

lemma length_free_positions:
  assumes "4 \<le> k" "neg \<le> 2 ^ k" shows "length (free_positions neg k 0) = neg"
  using distinct_card [OF distinct_free_positions [OF assms(1)]] set_free_positions [OF assms]
  by (metis card_lessThan)

lemma skip_occupied_orbit:
  assumes "0 < neg" "i \<le> 2 ^ k" "2 ^ k - i \<le> fuel"
  shows "\<exists>j. i \<le> j \<and> j \<le> 2 ^ k \<and> skip_occupied fuel neg (2 ^ k) (orbit k i) = Some (orbit k j)
    \<and> orbit k j < neg \<and> free_positions neg k j = free_positions neg k i"
  using assms
proof (induction fuel arbitrary: i)
  case 0
  then have "i = 2 ^ k" by simp
  with 0 show ?case by (intro exI [of _ "2 ^ k"]) simp
next
  case (Suc fuel)
  show ?case
  proof (cases "orbit k i < neg")
    case True
    then show ?thesis using Suc.prems by (intro exI [of _ i]) simp
  next
    case False
    then have i: "i < 2 ^ k" using Suc.prems by (cases "i = 2 ^ k") auto
    then have "2 ^ k - Suc i \<le> fuel" "Suc i \<le> 2 ^ k" using Suc.prems by linarith+
    with Suc.IH [of "Suc i"] Suc.prems obtain j where j: "Suc i \<le> j" "j \<le> 2 ^ k"
      "skip_occupied fuel neg (2 ^ k) (orbit k (Suc i)) = Some (orbit k j)" "orbit k j < neg"
      "free_positions neg k j = free_positions neg k (Suc i)"
      by blast
    then show ?thesis
      using False i by (intro exI [of _ j]) (auto simp: next_position_orbit free_positions_step)
  qed
qed

section \<open>Writing symbols at positions\<close>

fun put_syms :: "nat list \<Rightarrow> nat list \<Rightarrow> Entry list \<Rightarrow> Entry list" where
  "put_syms (p # ps) (s # ss) dec = put_syms ps ss (dec[p := (dec ! p)\<lparr>symbol := s\<rparr>])"
| "put_syms _ _ dec = dec"

lemma put_syms_Nil [simp]: "put_syms [] ss dec = dec" "put_syms ps [] dec = dec"
  by (cases ss; simp) (cases ps; simp)

lemma length_put_syms [simp]: "length (put_syms ps ss dec) = length dec"
  by (induction ps ss dec rule: put_syms.induct) simp_all

lemma put_syms_append:
  "length ps = length ss \<Longrightarrow> put_syms (ps @ ps') (ss @ ss') dec = put_syms ps' ss' (put_syms ps ss dec)"
  by (induction ps ss dec rule: put_syms.induct) auto

lemma put_syms_other: "p \<notin> set ps \<Longrightarrow> put_syms ps ss dec ! p = dec ! p"
  by (induction ps ss dec rule: put_syms.induct) auto

lemma put_syms_at:
  assumes "distinct ps" "j < length ps" "j < length ss" "\<forall>p \<in> set ps. p < length dec"
  shows "put_syms ps ss dec ! (ps ! j) = (dec ! (ps ! j))\<lparr>symbol := ss ! j\<rparr>"
  using assms
proof (induction ps ss dec arbitrary: j rule: put_syms.induct)
  case (1 p ps s ss dec)
  show ?case
  proof (cases j)
    case 0
    then show ?thesis using 1 by (simp add: put_syms_other)
  next
    case (Suc j')
    with 1 have "p \<noteq> ps ! j'" by auto
    with 1 Suc show ?thesis by simp
  qed
qed auto

fun put_list :: "nat list \<Rightarrow> 'a list \<Rightarrow> 'a list \<Rightarrow> 'a list" where
  "put_list (p # ps) (v # vs) xs = put_list ps vs (xs[p := v])"
| "put_list _ _ xs = xs"

lemma put_list_Nil [simp]: "put_list [] vs xs = xs" "put_list ps [] xs = xs"
  by (cases vs; simp) (cases ps; simp)

lemma length_put_list [simp]: "length (put_list ps vs xs) = length xs"
  by (induction ps vs xs rule: put_list.induct) simp_all

lemma put_list_append:
  "length ps = length vs \<Longrightarrow> put_list (ps @ ps') (vs @ vs') xs = put_list ps' vs' (put_list ps vs xs)"
  by (induction ps vs xs rule: put_list.induct) auto

lemma put_list_other: "p \<notin> set ps \<Longrightarrow> put_list ps vs xs ! p = xs ! p"
  by (induction ps vs xs rule: put_list.induct) auto

lemma put_list_at:
  assumes "distinct ps" "j < length ps" "j < length vs" "\<forall>p \<in> set ps. p < length xs"
  shows "put_list ps vs xs ! (ps ! j) = vs ! j"
  using assms
proof (induction ps vs xs arbitrary: j rule: put_list.induct)
  case (1 p ps v vs xs)
  then show ?case by (cases j) (simp_all add: put_list_other)
qed auto

lemma map_symbol_put_syms:
  "map symbol (put_syms ps ss dec) = put_list ps ss (map symbol dec)"
  by (induction ps ss dec rule: put_syms.induct) (simp_all add: map_update)

text \<open>The symbols in the order the walk places them.\<close>

fun walk_syms :: "nat \<Rightarrow> int list \<Rightarrow> nat list" where
  "walk_syms sy [] = []"
| "walk_syms sy (p # ps) = replicate (nat p) sy @ walk_syms (sy + 1) ps"

lemma spread_symbol_correct:
  assumes "i \<le> 2 ^ k" "length dec = 2 ^ k" "neg \<le> 2 ^ k" "orbit k i < neg"
    and "m \<le> length (free_positions neg k i)"
  shows "\<exists>j \<le> 2 ^ k. orbit k j < neg
    \<and> spread_symbol sy neg (2 ^ k) m (orbit k i) dec
        = Ok (orbit k j, put_syms (take m (free_positions neg k i)) (replicate m sy) dec)
    \<and> free_positions neg k j = drop m (free_positions neg k i)"
  using assms
proof (induction m arbitrary: i dec)
  case 0
  then show ?case by auto
next
  case (Suc m)
  let ?p = "orbit k i" and ?f = "free_positions neg k"
  have i: "i < 2 ^ k" using Suc.prems by (cases "i = 2 ^ k") auto
  then have f: "?f i = ?p # ?f (Suc i)" using Suc.prems by (simp add: free_positions_step)
  obtain j where j: "j \<le> 2 ^ k" "orbit k j < neg" "?f j = ?f (Suc i)"
    "skip_occupied (2 ^ k) neg (2 ^ k) (orbit k (Suc i)) = Some (orbit k j)"
    using skip_occupied_orbit [of neg "Suc i" k "2 ^ k"] i Suc.prems by force
  let ?dec = "dec[?p := (dec ! ?p)\<lparr>symbol := sy\<rparr>]"
  obtain j' where "j' \<le> 2 ^ k" "orbit k j' < neg"
    "spread_symbol sy neg (2 ^ k) m (orbit k j) ?dec
      = Ok (orbit k j', put_syms (take m (?f j)) (replicate m sy) ?dec)"
    "?f j' = drop m (?f j)"
    using Suc.IH [of j ?dec] Suc.prems j f by auto
  then show ?case
    using f j Suc.prems by (intro exI [of _ j']) (simp add: next_position_orbit)
qed

lemma spread_symbols_correct:
  assumes "i \<le> 2 ^ k" "length dec = 2 ^ k" "neg \<le> 2 ^ k" "orbit k i < neg"
    and "length (walk_syms sy ps) \<le> length (free_positions neg k i)"
  shows "\<exists>q. spread_symbols sy ps neg (2 ^ k) (orbit k i) dec
    = Ok (q, put_syms (free_positions neg k i) (walk_syms sy ps) dec)"
  using assms
proof (induction ps arbitrary: sy i dec)
  case Nil
  then show ?case by simp
next
  case (Cons p ps)
  show ?case
  proof (cases "p \<le> 0")
    case True
    with Cons show ?thesis by simp
  next
    case False
    let ?f = "free_positions neg k" and ?m = "nat p"
    let ?dec = "put_syms (take ?m (?f i)) (replicate ?m sy) dec"
    obtain j where j: "j \<le> 2 ^ k" "orbit k j < neg" "?f j = drop ?m (?f i)"
      "spread_symbol sy neg (2 ^ k) ?m (orbit k i) dec = Ok (orbit k j, ?dec)"
      using spread_symbol_correct [of i k dec neg ?m sy] Cons.prems by auto
    have "length (walk_syms (sy + 1) ps) \<le> length (?f j)" "length ?dec = 2 ^ k"
      using Cons.prems j(3) by simp_all
    then obtain q where "spread_symbols (sy + 1) ps neg (2 ^ k) (orbit k j) ?dec
        = Ok (q, put_syms (?f j) (walk_syms (sy + 1) ps) ?dec)"
      using Cons.IH [of j ?dec "sy + 1"] Cons.prems(3) j(1,2) by blast
    moreover have "put_syms (?f j) (walk_syms (sy + 1) ps) ?dec
        = put_syms (?f i) (walk_syms sy (p # ps)) dec"
      using put_syms_append [of "take ?m (?f i)" "replicate ?m sy" "drop ?m (?f i)"
          "walk_syms (sy + 1) ps" dec] Cons.prems(5) j(3) by simp
    ultimately show ?thesis using False j by simp
  qed
qed

fun neg_syms :: "nat \<Rightarrow> int list \<Rightarrow> nat list" where
  "neg_syms sy [] = []"
| "neg_syms sy (p # ps) = (if p = -1 then sy # neg_syms (sy + 1) ps else neg_syms (sy + 1) ps)"

text \<open>The layout of a distribution: which symbol owns which position.\<close>

definition layout :: "nat \<Rightarrow> int list \<Rightarrow> nat list" where
  "layout acc ps =
     (let ns = neg_syms 0 ps; neg = 2 ^ acc - length ns
      in put_list (free_positions neg acc 0) (walk_syms 0 ps) (replicate neg 0 @ rev ns))"

definition neg_entry :: "nat \<Rightarrow> nat \<Rightarrow> Entry" where
  "neg_entry acc s = \<lparr>base_line = 0, num_bits = acc, symbol = s\<rparr>"

lemma place_negative_correct:
  assumes "length (neg_syms sy ps) \<le> n" "n \<le> length dec"
  shows "place_negative acc sy ps n dec = Ok (n - length (neg_syms sy ps),
    take (n - length (neg_syms sy ps)) dec @ rev (map (neg_entry acc) (neg_syms sy ps)) @ drop n dec)"
  using assms
proof (induction ps arbitrary: sy n dec)
  case Nil
  then show ?case by simp
next
  case (Cons p ps)
  show ?case
  proof (cases "p = -1")
    case False
    with Cons show ?thesis by simp
  next
    case True
    let ?dec = "dec[n - 1 := neg_entry acc sy]"
    have n: "0 < n" "n - 1 < length dec" using Cons.prems True by auto
    then have d: "drop (n - 1) ?dec = neg_entry acc sy # drop n dec"
      by (cases n) (simp_all add: drop_update_cancel Cons_nth_drop_Suc [symmetric])
    have t: "take (n - 1 - c) ?dec = take (n - Suc c) dec" for c by simp
    from Cons.IH [of "sy + 1" "n - 1" ?dec] Cons.prems True n
    show ?thesis unfolding d t by (simp add: neg_entry_def [symmetric])
  qed
qed

subsection \<open>Counting symbols\<close>

lemma count_walk_syms:
  "count_list (walk_syms sy ps) s = (if sy \<le> s \<and> s < sy + length ps then nat (ps ! (s - sy)) else 0)"
proof (induction ps arbitrary: sy)
  case (Cons p ps)
  have "count_list (replicate n sy) s = (if s = sy then n else 0)" for n
    by (induction n) auto
  moreover have "s - sy = Suc (s - Suc sy)" if "sy < s" using that by simp
  ultimately show ?case using Cons by (cases s sy rule: linorder_cases) auto
qed simp

lemma count_neg_syms:
  "count_list (neg_syms sy ps) s
     = (if sy \<le> s \<and> s < sy + length ps then of_bool (ps ! (s - sy) = -1) else 0)"
proof (induction ps arbitrary: sy)
  case (Cons p ps)
  moreover have "s - sy = Suc (s - Suc sy)" if "sy < s" using that by simp
  ultimately show ?case by (cases s sy rule: linorder_cases) auto
qed simp

lemma length_syms:
  "\<forall>p \<in> set ps. -1 \<le> p \<Longrightarrow>
     int (length (walk_syms sy ps) + length (neg_syms sy ps)) = sum_list (map abs ps)"
proof (induction ps arbitrary: sy)
  case (Cons p ps)
  have "-1 \<le> p" using Cons.prems by simp
  then have "int (nat p) + (if p = -1 then 1 else 0) = \<bar>p\<bar>" by (auto simp: abs_if)
  with Cons show ?case by (auto split: if_splits)
qed simp

lemma count_list_mset: "count_list xs x = count (mset xs) x"
  by (induction xs) auto

text \<open>Writing a list of symbols over all positions below \<open>n\<close>, in any order, keeps the counts.\<close>

lemma count_put_syms:
  assumes "distinct ps" "set ps = {..<n}" "length ss = length ps" "n \<le> length dec"
  shows "count_list (take n (map symbol (put_syms ps ss dec))) s = count_list ss s"
proof -
  let ?D = "put_syms ps ss dec"
  have ps: "mset ps = mset [0..<n]"
    by (metis assms(1,2) mset_set_set atLeast0LessThan set_upt distinct_upt)
  have "ss = map (\<lambda>p. symbol (?D ! p)) ps"
    by (rule nth_equalityI) (use assms in \<open>auto simp: put_syms_at\<close>)
  then have "mset ss = image_mset (\<lambda>p. symbol (?D ! p)) (mset [0..<n])"
    by (metis mset_map ps)
  also have "\<dots> = mset (map (\<lambda>p. symbol (?D ! p)) [0..<n])" by simp
  also have "map (\<lambda>p. symbol (?D ! p)) [0..<n] = take n (map symbol ?D)"
    by (rule nth_equalityI) (use assms(4) in auto)
  finally show ?thesis by (simp add: count_list_mset)
qed

section \<open>The spread constants of a weight\<close>

definition clog2 :: "nat \<Rightarrow> nat" where
  "clog2 p = (if 2 ^ ilog2 p = p then ilog2 p else Suc (ilog2 p))"

lemma clog2_bounds:
  assumes "0 < p"
  shows "p \<le> 2 ^ clog2 p" "2 ^ clog2 p < 2 * p"
  using ilog2_lower [OF assms] ilog2_upper [of p] by (auto simp: clog2_def)

lemma clog2_le: "0 < p \<Longrightarrow> p \<le> 2 ^ acc \<Longrightarrow> clog2 p \<le> acc"
proof -
  assume "0 < p" "p \<le> 2 ^ acc"
  then have "(2::nat) ^ clog2 p < 2 ^ Suc acc" using clog2_bounds(2) [of p] by simp
  then have "clog2 p < Suc acc" by (rule power_less_imp_less_exp [rotated]) simp
  then show ?thesis by simp
qed

lemma trailing_zeros_pow2: "trailing_zeros (2 ^ q) = q"
  by (induction q) (simp_all add: trailing_zeros.simps)

lemma calc_symbol_spread_info_pow2:
  assumes "0 < p" "p \<le> 2 ^ acc"
  shows "calc_symbol_spread_info (2 ^ acc) p = Ok
    \<lparr>num_double = of_nat (2 ^ clog2 p - p),
     base_d = of_nat ((p - (2 ^ clog2 p - p)) * 2 ^ (acc - clog2 p)),
     stride_d = of_nat (2 ^ (acc - clog2 p) * 2),
     base_s = - of_nat ((2 ^ clog2 p - p) * 2 ^ (acc - clog2 p)),
     stride_s = of_nat (2 ^ (acc - clog2 p)),
     nb_d = acc - clog2 p + 1, nb_s = acc - clog2 p\<rparr>"
proof -
  have slices: "(if push_bit (Suc (ilog2 p) - 1) 1 = p then p else push_bit (Suc (ilog2 p)) 1) = (2::nat) ^ clog2 p"
    by (auto simp: clog2_def)
  have width: "drop_bit (trailing_zeros (2 ^ clog2 p)) (2 ^ acc :: nat) = 2 ^ (acc - clog2 p)"
    using clog2_le [OF assms] by (simp add: trailing_zeros_pow2 drop_bit_eq_div power_diff)
  have h: "highest_bit_set p = Ok (Suc (ilog2 p))" using assms by (simp add: highest_bit_set_def)
  have hw: "highest_bit_set (2 ^ n) = Ok (Suc n)" for n by (simp add: highest_bit_set_def)
  show ?thesis
    unfolding calc_symbol_spread_info_def h rbind.simps Let_def slices width hw by simp
qed

section \<open>The entry of the \<open>c\<close>-th state of a symbol\<close>

definition entry_nb :: "nat \<Rightarrow> nat \<Rightarrow> nat \<Rightarrow> nat" where
  "entry_nb acc p c = (if c < 2 ^ clog2 p - p then acc - clog2 p + 1 else acc - clog2 p)"

definition entry_base :: "nat \<Rightarrow> nat \<Rightarrow> nat \<Rightarrow> nat" where
  "entry_base acc p c =
     (if c < 2 ^ clog2 p - p
      then (p - (2 ^ clog2 p - p)) * 2 ^ (acc - clog2 p) + c * (2 ^ (acc - clog2 p) * 2)
      else (c - (2 ^ clog2 p - p)) * 2 ^ (acc - clog2 p))"

text \<open>The state \<open>X\<close> of the encoder (biased by the table size) picks a bit count and an index.\<close>

definition enc_nb :: "nat \<Rightarrow> nat \<Rightarrow> nat \<Rightarrow> nat" where
  "enc_nb acc p X = (if p * 2 ^ (acc - clog2 p + 1) \<le> X then acc - clog2 p + 1 else acc - clog2 p)"

definition enc_idx :: "nat \<Rightarrow> nat \<Rightarrow> nat \<Rightarrow> nat" where
  "enc_idx acc p X = X div 2 ^ enc_nb acc p X - p"

text \<open>Decomposition of a weight: \<open>2 ^ clog2 p = p + d\<close>, \<open>p = d + e\<close>.\<close>

lemma weight_split:
  assumes "0 < p" "p \<le> 2 ^ acc"
  obtains d e n where "2 ^ clog2 p = p + d" "p = d + e" "0 < e" "acc = clog2 p + n" "acc - clog2 p = n"
    "2 ^ acc = (p + d) * 2 ^ n"
proof -
  have q: "p \<le> 2 ^ clog2 p" "2 ^ clog2 p < 2 * p" "clog2 p \<le> acc"
    using clog2_bounds [OF assms(1)] clog2_le [OF assms] by auto
  define d where "d = 2 ^ clog2 p - p"
  define n where "n = acc - clog2 p"
  have "2 ^ clog2 p = p + d" "p = d + (p - d)" "0 < p - d" "acc = clog2 p + n" "acc - clog2 p = n"
    using q by (auto simp: d_def n_def)
  moreover from this have "2 ^ acc = (p + d) * 2 ^ n" by (metis power_add)
  ultimately show thesis using that by blast
qed

lemma enc_state_correct:
  assumes p: "0 < p" "p \<le> 2 ^ acc" and X: "2 ^ acc \<le> X" "X < 2 * 2 ^ acc"
  shows "enc_idx acc p X < p" (is ?lt)
    and "entry_nb acc p (enc_idx acc p X) = enc_nb acc p X" (is ?nb)
    and "entry_base acc p (enc_idx acc p X) + X mod 2 ^ enc_nb acc p X = X - 2 ^ acc" (is ?base)
    and "X div 2 ^ enc_nb acc p X = p + enc_idx acc p X" (is ?div)
proof -
  obtain d e n where s: "2 ^ clog2 p = p + d" "p = d + e" "0 < e" "acc - clog2 p = n"
    "2 ^ acc = (p + d) * 2 ^ n"
    by (rule weight_split [OF p])
  have d: "2 ^ clog2 p - p = d" "p - d = e" using s(1,2) by auto
  have "?lt \<and> ?nb \<and> ?base \<and> ?div"
  proof (cases "p * (2 ^ n * 2) \<le> X")
    case True
    then have nb: "enc_nb acc p X = n + 1" by (simp add: enc_nb_def s(4) mult.commute)
    define Y where "Y = X div (2 ^ n * 2)"
    have "p \<le> Y" using True by (simp add: Y_def less_eq_div_iff_mult_less_eq)
    moreover have "X < (p + d) * (2 ^ n * 2)" using X(2) s(5) by (simp add: algebra_simps)
    then have "Y < p + d" unfolding Y_def by (rule less_mult_imp_div_less)
    ultimately obtain c where c: "Y = p + c" "c < d" by (metis add_less_cancel_left le_Suc_ex)
    have idx: "enc_idx acc p X = c" unfolding enc_idx_def nb using c by (simp add: Y_def mult.commute)
    have "X = (2 ^ n * 2) * (p + c) + X mod (2 ^ n * 2)"
      using c(1) by (metis Y_def mult_div_mod_eq)
    then have "X - 2 ^ acc = e * 2 ^ n + c * (2 ^ n * 2) + X mod (2 ^ n * 2)"
      unfolding s(5) using s(2) by (simp add: algebra_simps)
    moreover have "c < p" using c(2) s(2,3) by simp
    ultimately show ?thesis
      using c by (simp add: idx nb entry_nb_def entry_base_def d s(4) Y_def mult.commute)
  next
    case False
    then have nb: "enc_nb acc p X = n" by (simp add: enc_nb_def s(4) mult.commute)
    define Y where "Y = X div 2 ^ n"
    have "p + d \<le> Y" using X(1) s(5) by (simp add: Y_def less_eq_div_iff_mult_less_eq)
    moreover have "X < (2 * p) * 2 ^ n" using False by (simp add: algebra_simps)
    then have "Y < 2 * p" unfolding Y_def by (rule less_mult_imp_div_less)
    moreover from \<open>p + d \<le> Y\<close> obtain f where "Y = p + d + f" unfolding le_iff_add by blast
    ultimately have f: "Y = p + (d + f)" "d + f < p" by simp_all
    have idx: "enc_idx acc p X = d + f" unfolding enc_idx_def nb using f by (simp add: Y_def)
    have "X = 2 ^ n * (p + (d + f)) + X mod 2 ^ n"
      using f(1) by (metis Y_def mult_div_mod_eq)
    then have "X - 2 ^ acc = f * 2 ^ n + X mod 2 ^ n"
      unfolding s(5) by (simp add: algebra_simps)
    then show ?thesis
      using f by (simp add: idx nb entry_nb_def entry_base_def d s(4) Y_def)
  qed
  then show ?lt ?nb ?base ?div by blast+
qed

lemma enc_state_unique:
  assumes p: "0 < p" "p \<le> 2 ^ acc" and c: "c < p"
    and x: "entry_base acc p c \<le> x" "x < entry_base acc p c + 2 ^ entry_nb acc p c"
  shows "enc_idx acc p (2 ^ acc + x) = c" "x < 2 ^ acc"
proof -
  obtain d e n where s: "2 ^ clog2 p = p + d" "p = d + e" "0 < e" "acc - clog2 p = n"
    "2 ^ acc = (p + d) * 2 ^ n"
    by (rule weight_split [OF p])
  have d: "2 ^ clog2 p - p = d" "p - d = e" using s(1,2) by auto
  have "enc_idx acc p (2 ^ acc + x) = c \<and> x < 2 ^ acc"
  proof (cases "c < d")
    case True
    then obtain r where r: "x = e * 2 ^ n + c * (2 ^ n * 2) + r" "r < 2 ^ n * 2"
      using x by (auto simp: entry_base_def entry_nb_def d s(4) le_iff_add)
    have X: "2 ^ acc + x = r + (2 ^ n * 2) * (p + c)"
      unfolding s(5) r(1) using s(2) by (simp add: algebra_simps)
    have "p * (2 ^ n * 2) \<le> 2 ^ acc + x" unfolding X by (simp add: algebra_simps)
    then have nb: "enc_nb acc p (2 ^ acc + x) = n + 1" by (simp add: enc_nb_def s(4) mult.commute)
    have "(r + (2 ^ n * 2) * (p + c)) div (2 ^ n * 2) = p + c" using r(2) by simp
    then have "(2 ^ acc + x) div 2 ^ (n + 1) = p + c" unfolding X by (simp add: mult.commute)
    then have "enc_idx acc p (2 ^ acc + x) = c" unfolding enc_idx_def nb by simp
    moreover have "c + 1 \<le> d" using True by simp
    then have "(c + 1) * (2 ^ n * 2) \<le> d * (2 ^ n * 2)" by (rule mult_le_mono1)
    then have "x < 2 ^ acc" unfolding s(5) r(1) using r(2) s(2) by (simp add: algebra_simps)
    ultimately show ?thesis by simp
  next
    case False
    then obtain f where f: "c = d + f" by (metis le_Suc_ex not_less)
    then obtain r where r: "x = f * 2 ^ n + r" "r < 2 ^ n"
      using x False by (auto simp: entry_base_def entry_nb_def d s(4) le_iff_add)
    have X: "2 ^ acc + x = r + 2 ^ n * (p + c)"
      unfolding s(5) r(1) f by (simp add: algebra_simps)
    have "p + c + 1 \<le> 2 * p" using c by simp
    then have "(p + c + 1) * 2 ^ n \<le> 2 * p * 2 ^ n" by (rule mult_le_mono1)
    then have "2 ^ acc + x < p * (2 ^ n * 2)" unfolding X using r(2) by (simp add: algebra_simps)
    then have nb: "enc_nb acc p (2 ^ acc + x) = n" by (simp add: enc_nb_def s(4) mult.commute)
    have "(r + 2 ^ n * (p + c)) div 2 ^ n = p + c" using r(2) by simp
    then have "(2 ^ acc + x) div 2 ^ n = p + c" unfolding X by simp
    then have "enc_idx acc p (2 ^ acc + x) = c" unfolding enc_idx_def nb by simp
    moreover have "x < 2 ^ acc"
    proof -
      have "f + 1 \<le> p + d" using c f by simp
      then have "(f + 1) * 2 ^ n \<le> (p + d) * 2 ^ n" by (rule mult_le_mono1)
      then show ?thesis unfolding s(5) r(1) using r(2) by (simp add: algebra_simps)
    qed
    ultimately show ?thesis by simp
  qed
  then show "enc_idx acc p (2 ^ acc + x) = c" "x < 2 ^ acc" by blast+
qed

text \<open>The \<open>u32\<close> arithmetic of the code computes these numbers without wrapping.\<close>

definition info_of :: "nat \<Rightarrow> nat \<Rightarrow> SymbolSpreadInfo" where
  "info_of acc p =
    \<lparr>num_double = of_nat (2 ^ clog2 p - p),
     base_d = of_nat ((p - (2 ^ clog2 p - p)) * 2 ^ (acc - clog2 p)),
     stride_d = of_nat (2 ^ (acc - clog2 p) * 2),
     base_s = - of_nat ((2 ^ clog2 p - p) * 2 ^ (acc - clog2 p)),
     stride_s = of_nat (2 ^ (acc - clog2 p)),
     nb_d = acc - clog2 p + 1, nb_s = acc - clog2 p\<rparr>"

lemma of_nat_less_u32: "a < 2 ^ 32 \<Longrightarrow> b < 2 ^ 32 \<Longrightarrow> (of_nat a :: u32) < of_nat b \<longleftrightarrow> a < b"
  by (simp add: word_less_nat_alt unat_of_nat)

lemma negated_base: "- of_nat (D * N) + of_nat (D + f) * of_nat N = (of_nat (f * N) :: 'a :: comm_ring_1)"
  by (simp only: of_nat_mult of_nat_add distrib_right) simp

lemma entry_of_count_correct:
  assumes p: "0 < p" "p \<le> 2 ^ acc" "acc \<le> 20" and c: "c < p"
  shows "entry_of_count (info_of acc p) c = (of_nat (entry_base acc p c), entry_nb acc p c)"
proof -
  have "(2::nat) ^ clog2 p \<le> 2 ^ 20" "(2::nat) ^ acc \<le> 2 ^ 20"
    using clog2_le [OF p(1,2)] p(3) by (intro power_increasing; simp)+
  with p(2) have "2 ^ clog2 p \<le> (1048576 :: nat)" "p \<le> 1048576" by simp_all
  moreover have "(1048576 :: nat) < 2 ^ 32" by simp
  ultimately have small: "2 ^ clog2 p - p < 2 ^ 32" "c < 2 ^ 32" using c by linarith+
  have lt: "(of_nat c :: u32) < of_nat (2 ^ clog2 p - p) \<longleftrightarrow> c < 2 ^ clog2 p - p"
    by (rule of_nat_less_u32 [OF small(2,1)])
  have "- of_nat (D * N) + of_nat c * of_nat N = (of_nat ((c - D) * N) :: u32)"
    if "D \<le> c" for D N :: nat
    using negated_base [of D N "c - D"] by (simp only: le_add_diff_inverse that)
  note wrapped = this
  define D N e where "D = 2 ^ clog2 p - p" and "N = (2::nat) ^ (acc - clog2 p)" and "e = p - D"
  have info: "info_of acc p = \<lparr>num_double = of_nat D, base_d = of_nat (e * N), stride_d = of_nat (N * 2),
    base_s = - of_nat (D * N), stride_s = of_nat N, nb_d = acc - clog2 p + 1, nb_s = acc - clog2 p\<rparr>"
    by (simp only: info_of_def D_def N_def e_def)
  have base: "entry_base acc p c = (if c < D then e * N + c * (N * 2) else (c - D) * N)"
    "entry_nb acc p c = (if c < D then acc - clog2 p + 1 else acc - clog2 p)"
    by (simp_all add: entry_base_def entry_nb_def D_def N_def e_def)
  have lt': "(of_nat c :: u32) < of_nat D \<longleftrightarrow> c < D" using lt unfolding D_def .
  show ?thesis
  proof (cases "c < D")
    case True
    then show ?thesis
      unfolding entry_of_count_def info base SymbolSpreadInfo.simps lt' if_P [OF True]
      by (simp only: of_nat_add of_nat_mult)
  next
    case False
    then show ?thesis
      unfolding entry_of_count_def info base SymbolSpreadInfo.simps lt' if_not_P [OF False]
      using False by (simp only: wrapped not_less)
  qed
qed

lemma symbol_infos_correct:
  assumes "\<forall>p \<in> set ps. p \<le> 2 ^ acc"
  shows "\<exists>infos. symbol_infos (2 ^ acc) acc ps = Ok infos \<and> length infos = length ps
    \<and> (\<forall>s < length ps. 0 < ps ! s \<longrightarrow> infos ! s = info_of acc (nat (ps ! s)))"
  using assms
proof (induction ps)
  case Nil
  then show ?case by simp
next
  case (Cons p ps)
  then obtain infos where IH: "symbol_infos (2 ^ acc) acc ps = Ok infos" "length infos = length ps"
    "\<forall>s < length ps. 0 < ps ! s \<longrightarrow> infos ! s = info_of acc (nat (ps ! s))"
    by auto
  show ?case
  proof (cases "p > 0")
    case False
    then show ?thesis using IH by (auto simp: nth_Cons')
  next
    case True
    have "nat p \<le> 2 ^ acc" using Cons.prems by (simp add: nat_le_iff)
    then have calc: "calc_symbol_spread_info (2 ^ acc) (nat p)
        = (Ok (info_of acc (nat p)) :: (FSETableError, SymbolSpreadInfo) res)"
      unfolding info_of_def using True by (intro calc_symbol_spread_info_pow2) auto
    have "num_double (info_of acc (nat p)) = 0 \<or> nb_d (info_of acc (nat p)) \<le> acc"
    proof (cases "clog2 (nat p)")
      case 0
      then have "nat p = 1" using clog2_bounds [of "nat p"] True by auto
      then show ?thesis using 0 by (simp add: info_of_def)
    next
      case (Suc q)
      then have "acc - clog2 (nat p) + 1 \<le> acc"
        using clog2_le [of "nat p" acc] True \<open>nat p \<le> 2 ^ acc\<close> by simp
      then show ?thesis by (simp add: info_of_def)
    qed
    moreover have "nb_s (info_of acc (nat p)) \<le> acc" by (simp add: info_of_def)
    ultimately show ?thesis
      using True IH calc by (auto simp: rbind_rassert nth_Cons')
  qed
qed

text \<open>
  The last pass: entry \<open>i\<close> gets the constants of its symbol at the number of earlier entries
  with the same symbol.
\<close>

lemma count_list_take_Suc:
  "i < length xs \<Longrightarrow> count_list (take (Suc i) xs) s = count_list (take i xs) s + of_bool (xs ! i = s)"
  by (simp add: take_Suc_conv_app_nth)

lemma fill_entries_correct:
  assumes "idx + m \<le> length dec" "n \<le> length infos"
    and "\<forall>i < idx + m. symbol (dec ! i) < n"
    and "counter = map (\<lambda>s. count_list (take idx (map symbol dec)) s) [0..<n]"
  shows "\<exists>dec'. fill_entries infos m idx counter dec
      = Ok (map (\<lambda>s. count_list (take (idx + m) (map symbol dec)) s) [0..<n], dec')
    \<and> length dec' = length dec
    \<and> (\<forall>i. i < length dec \<longrightarrow> dec' ! i = (if idx \<le> i \<and> i < idx + m
        then let (bl, nb) = entry_of_count (infos ! symbol (dec ! i))
                   (count_list (take i (map symbol dec)) (symbol (dec ! i)))
             in (dec ! i)\<lparr>base_line := bl, num_bits := nb\<rparr>
        else dec ! i))"
  using assms
proof (induction m arbitrary: idx counter dec)
  case 0
  then show ?case by (auto intro!: exI [of _ dec])
next
  case (Suc m)
  let ?e = "dec ! idx" and ?S = "map symbol dec"
  let ?count = "count_list (take idx ?S) (symbol ?e)"
  obtain bl nb where bn: "entry_of_count (infos ! symbol ?e) ?count = (bl, nb)"
    by (cases "entry_of_count (infos ! symbol ?e) ?count")
  let ?dec = "dec[idx := ?e\<lparr>base_line := bl, num_bits := nb\<rparr>]"
  let ?counter = "counter[symbol ?e := ?count + 1]"
  have i: "idx < length dec" "symbol ?e < n"
    using Suc.prems(1,3) by auto
  then have il: "symbol ?e < length infos" using Suc.prems(2) by linarith
  have S: "map symbol ?dec = ?S"
    using i by (simp add: map_update list_update_same_conv)
  have sym: "symbol (?dec ! j) = symbol (dec ! j)" if "j < length dec" for j
    using that by (cases "j = idx") simp_all
  have cnt: "?counter = map (\<lambda>s. count_list (take (idx + 1) (map symbol ?dec)) s) [0..<n]"
    unfolding S
    by (rule nth_equalityI) (use Suc.prems i in \<open>auto simp: nth_list_update count_list_take_Suc\<close>)
  obtain dec' where dec': "fill_entries infos m (idx + 1) ?counter ?dec
      = Ok (map (\<lambda>s. count_list (take (idx + 1 + m) (map symbol ?dec)) s) [0..<n], dec')"
    "length dec' = length ?dec"
    "\<forall>i. i < length ?dec \<longrightarrow> dec' ! i = (if idx + 1 \<le> i \<and> i < idx + 1 + m
        then let (bl, nb) = entry_of_count (infos ! symbol (?dec ! i))
                   (count_list (take i (map symbol ?dec)) (symbol (?dec ! i)))
             in (?dec ! i)\<lparr>base_line := bl, num_bits := nb\<rparr>
        else ?dec ! i)"
    using Suc.IH [of "idx + 1" ?dec ?counter] Suc.prems cnt sym by force
  have run: "fill_entries infos (Suc m) idx counter dec = fill_entries infos m (idx + 1) ?counter ?dec"
    using i il Suc.prems(4) bn by simp
  have "dec' ! j = (if idx \<le> j \<and> j < idx + Suc m
        then let (bl, nb) = entry_of_count (infos ! symbol (dec ! j))
                   (count_list (take j ?S) (symbol (dec ! j)))
             in (dec ! j)\<lparr>base_line := bl, num_bits := nb\<rparr>
        else dec ! j)" if j: "j < length dec" for j
  proof (cases "j = idx")
    case True
    then show ?thesis using dec'(3) j bn by simp
  next
    case False
    then show ?thesis using dec'(3) j by (auto simp: S)
  qed
  with dec' show ?case unfolding run by (auto simp: S)
qed

section \<open>The whole table\<close>

text \<open>
  What a decoding table must be for the distribution \<open>ps\<close>: entry \<open>i\<close> belongs to the symbol
  stored in it, each symbol has its weight in entries, and the entry is the \<open>c\<close>-th state of its
  symbol, where \<open>c\<close> counts the earlier entries of that symbol.
\<close>

definition entry_rank :: "Entry list \<Rightarrow> nat \<Rightarrow> nat" where
  "entry_rank dec i = count_list (take i (map symbol dec)) (symbol (dec ! i))"

definition table_for :: "nat \<Rightarrow> int list \<Rightarrow> Entry list \<Rightarrow> bool" where
  "table_for acc ps dec \<longleftrightarrow> length dec = 2 ^ acc \<and> map symbol dec = layout acc ps
     \<and> (\<forall>s. count_list (map symbol dec) s = weight ps s)
     \<and> (\<forall>i < 2 ^ acc. unat (base_line (dec ! i)) = entry_base acc (weight ps (symbol (dec ! i))) (entry_rank dec i)
          \<and> num_bits (dec ! i) = entry_nb acc (weight ps (symbol (dec ! i))) (entry_rank dec i))"

lemma spread_symbols_none:
  "walk_syms sy ps = [] \<Longrightarrow> spread_symbols sy ps neg n pos dec = Ok (pos, dec)"
  by (induction ps arbitrary: sy) auto

lemma count_list_take_less:
  "i < n \<Longrightarrow> i < length xs \<Longrightarrow> count_list (take i xs) (xs ! i) < count_list (take n xs) (xs ! i)"
proof -
  assume i: "i < n" "i < length xs"
  have "take n xs = take (Suc i) xs @ drop (Suc i) (take n xs)"
    using i by (metis Suc_leI append_take_drop_id min.absorb1 take_take)
  then have "count_list (take n xs) (xs ! i)
      = count_list (take (Suc i) xs) (xs ! i) + count_list (drop (Suc i) (take n xs)) (xs ! i)"
    by (metis count_list_append)
  then show ?thesis using i by (simp add: count_list_take_Suc)
qed

lemma entry_base_less:
  assumes "0 < p" "p \<le> 2 ^ acc" "c < p" shows "entry_base acc p c < 2 ^ acc"
  by (rule enc_state_unique(2) [OF assms order_refl]) simp

lemma entry_base_bound:
  assumes "0 < p" "p \<le> 2 ^ acc" "c < p"
  shows "entry_base acc p c + 2 ^ entry_nb acc p c \<le> 2 ^ acc"
proof -
  have pos: "(0::nat) < 2 ^ entry_nb acc p c" by simp
  have "entry_base acc p c + (2 ^ entry_nb acc p c - 1) < 2 ^ acc"
    by (rule enc_state_unique(2) [OF assms le_add1]) (use pos in linarith)
  then show ?thesis using pos by linarith
qed

lemma weight_le:
  assumes "dist_valid acc ps" shows "weight ps s \<le> 2 ^ acc"
proof (cases "s < length ps")
  case True
  then have "\<bar>ps ! s\<bar> \<in> set (map abs ps)" by simp
  then have "\<bar>ps ! s\<bar> \<le> sum_list (map abs ps)"
    by (intro member_le_sum_list) auto
  with assms True show ?thesis by (simp add: dist_valid_def weight_def nat_le_iff)
qed (simp add: weight_def)

text \<open>The symbols after the two placing passes.\<close>

lemma placed_symbols:
  assumes "dist_valid acc ps"
  defines "ns \<equiv> neg_syms 0 ps"
  defines "neg \<equiv> 2 ^ acc - length ns"
  shows "\<exists>q dec1. place_negative acc 0 ps (2 ^ acc) (replicate (2 ^ acc) dummy_entry) = Ok (neg, dec1)
    \<and> (\<exists>dec2. spread_symbols 0 ps neg (2 ^ acc) 0 dec1 = Ok (q, dec2) \<and> length dec2 = 2 ^ acc
      \<and> map symbol dec2 = layout acc ps \<and> drop neg dec2 = rev (map (neg_entry acc) ns)
      \<and> (\<forall>s. count_list (take neg (map symbol dec2)) s = count_list (walk_syms 0 ps) s))"
proof -
  let ?dec1 = "replicate neg dummy_entry @ rev (map (neg_entry acc) ns)"
  let ?ws = "walk_syms 0 ps" and ?f = "free_positions neg acc 0"
  have "int (length ?ws + length ns) = int (2 ^ acc)"
    using assms(1) length_syms [of ps 0] unfolding ns_def dist_valid_def by simp
  then have total: "length ?ws + length ns = 2 ^ acc" by (simp only: of_nat_eq_iff)
  have acc: "4 \<le> acc" using assms(1) by (simp add: dist_valid_def)
  have len: "length ?dec1 = 2 ^ acc" "neg \<le> 2 ^ acc" "length ?ws = neg"
    using total by (simp_all add: neg_def)
  have one: "place_negative acc 0 ps (2 ^ acc) (replicate (2 ^ acc) dummy_entry) = Ok (neg, ?dec1)"
    using place_negative_correct [of 0 ps "2 ^ acc" "replicate (2 ^ acc) dummy_entry" acc] total
    by (simp add: neg_def ns_def)
  note free = length_free_positions [OF acc len(2)] set_free_positions [OF acc len(2)]
    distinct_free_positions [OF acc, of neg]
  let ?dec2 = "put_syms ?f ?ws ?dec1"
  have two: "\<exists>q. spread_symbols 0 ps neg (2 ^ acc) 0 ?dec1 = Ok (q, ?dec2)"
  proof (cases "neg = 0")
    case True
    then have "?ws = []" using len(3) by simp
    then show ?thesis using spread_symbols_none by simp
  next
    case False
    then show ?thesis
      using spread_symbols_correct [of 0 acc ?dec1 neg 0 ps] len free(1) by simp
  qed
  have top: "drop neg ?dec2 = rev (map (neg_entry acc) ns)"
  proof (rule nth_equalityI)
    fix i assume "i < length (drop neg ?dec2)"
    then have "?dec2 ! (neg + i) = ?dec1 ! (neg + i)"
      using free(2) by (intro put_syms_other) auto
    then show "drop neg ?dec2 ! i = rev (map (neg_entry acc) ns) ! i"
      using len by (simp add: nth_append)
  qed (use total in \<open>simp add: neg_def\<close>)
  have "count_list (take neg (map symbol ?dec2)) s = count_list ?ws s" for s
    by (rule count_put_syms) (use free len in auto)
  moreover have "map symbol ?dec2 = layout acc ps"
    by (simp add: layout_def map_symbol_put_syms ns_def [symmetric] neg_def [symmetric] rev_map [symmetric]
        dummy_entry_def neg_entry_def comp_def)
  ultimately show ?thesis using one two top len by auto
qed

lemma entry_rank_less:
  assumes "table_for acc ps dec" "i < 2 ^ acc"
  shows "entry_rank dec i < weight ps (symbol (dec ! i))"
proof -
  have "length dec = 2 ^ acc" "count_list (map symbol dec) (symbol (dec ! i)) = weight ps (symbol (dec ! i))"
    using assms(1) unfolding table_for_def by blast+
  then show ?thesis
    using count_list_take_less [of i "2 ^ acc" "map symbol dec"] assms(2) by (simp add: entry_rank_def)
qed

lemma take_count_list_0: "count_list xs s = 0 \<Longrightarrow> count_list (take n xs) s = 0"
  by (metis count_notin in_set_takeD count_list_0_iff)

lemma build_table_exists:
  assumes valid: "dist_valid (ft_accuracy_log t) (ft_symbol_probabilities t)"
    and "length (ft_symbol_probabilities t) \<le> ft_max_symbol t + 1"
  shows "\<exists>t'. build_decoding_table t = Ok t'
    \<and> table_for (ft_accuracy_log t) (ft_symbol_probabilities t) (ft_decode t')
    \<and> ft_accuracy_log t' = ft_accuracy_log t
    \<and> ft_symbol_probabilities t' = ft_symbol_probabilities t"
proof -
  define acc ps where "acc = ft_accuracy_log t" and "ps = ft_symbol_probabilities t"
  define ns neg where "ns = neg_syms 0 ps" and "neg = 2 ^ acc - length ns"
  have v: "dist_valid acc ps" using valid by (simp add: acc_def ps_def)
  then have small: "acc \<le> 20" by (simp add: dist_valid_def)
  obtain q dec1 dec2 where place: "place_negative acc 0 ps (2 ^ acc) (replicate (2 ^ acc) dummy_entry) = Ok (neg, dec1)"
    and spread: "spread_symbols 0 ps neg (2 ^ acc) 0 dec1 = Ok (q, dec2)"
    and lay: "map symbol dec2 = layout acc ps"
    and dec2: "length dec2 = 2 ^ acc" "drop neg dec2 = rev (map (neg_entry acc) ns)"
    and cnt: "\<And>s. count_list (take neg (map symbol dec2)) s = count_list (walk_syms 0 ps) s"
    using placed_symbols [OF v] unfolding ns_def neg_def by blast
  have neg: "neg \<le> 2 ^ acc" by (simp add: neg_def)
  have le: "\<forall>p \<in> set ps. p \<le> 2 ^ acc"
  proof
    fix p assume "p \<in> set ps"
    then obtain s where "s < length ps" "p = ps ! s" by (auto simp: in_set_conv_nth)
    then show "p \<le> 2 ^ acc" using weight_le [OF v, of s] by (simp add: weight_def nat_le_iff)
  qed
  obtain infos where infos: "symbol_infos (2 ^ acc) acc ps = Ok infos" "length infos = length ps"
    "\<And>s. s < length ps \<Longrightarrow> 0 < ps ! s \<Longrightarrow> infos ! s = info_of acc (nat (ps ! s))"
    using symbol_infos_correct [OF le] by blast
  define infos' where "infos' = infos @ drop (length infos) (ft_symbol_info t)"
  have below: "symbol (dec2 ! i) < length ps \<and> 0 < ps ! symbol (dec2 ! i)
      \<and> entry_rank dec2 i < nat (ps ! symbol (dec2 ! i))" if i: "i < neg" for i
  proof -
    let ?s = "symbol (dec2 ! i)"
    have "entry_rank dec2 i < count_list (take neg (map symbol dec2)) ?s"
      using count_list_take_less [of i neg "map symbol dec2"] i neg dec2(1) by (simp add: entry_rank_def)
    also have "\<dots> = (if ?s < length ps then nat (ps ! ?s) else 0)"
      by (simp add: cnt count_walk_syms)
    finally show ?thesis by (auto split: if_splits)
  qed
  obtain dec3 counter where fill: "fill_entries infos' neg 0 (replicate (length ps) 0) dec2 = Ok (counter, dec3)"
    and len3: "length dec3 = length dec2"
    and dec3: "\<And>i. i < length dec2 \<Longrightarrow> dec3 ! i = (if i < neg
        then let (bl, nb) = entry_of_count (infos' ! symbol (dec2 ! i)) (entry_rank dec2 i)
             in (dec2 ! i)\<lparr>base_line := bl, num_bits := nb\<rparr> else dec2 ! i)"
    using fill_entries_correct [of 0 neg dec2 "length ps" infos' "replicate (length ps) 0"]
      below neg dec2(1) infos(2)
    by (auto simp: infos'_def entry_rank_def map_replicate_const)
  have sy: "symbol (dec3 ! i) = symbol (dec2 ! i)" if "i < length dec2" for i
    using that by (auto simp: dec3 split_beta Let_def)
  have syms: "map symbol dec3 = map symbol dec2"
    by (rule nth_equalityI) (simp_all add: len3 sy)
  have count: "count_list (map symbol dec3) s = weight ps s" for s
  proof -
    have "map symbol dec2 = take neg (map symbol dec2) @ rev ns"
      using arg_cong [OF dec2(2), of "map symbol"]
      by (metis append_take_drop_id drop_map rev_map map_map comp_def neg_entry_def Entry.select_convs(3) map_idI)
    then have "count_list (map symbol dec2) s = count_list (walk_syms 0 ps) s + count_list ns s"
      by (metis cnt count_list_append count_list_rev)
    moreover have "-1 \<le> ps ! s" if "s < length ps"
      using v that by (simp add: dist_valid_def)
    ultimately show ?thesis
      unfolding syms ns_def by (auto simp: count_walk_syms count_neg_syms weight_def)
  qed
  have entry: "unat (base_line (dec3 ! i)) = entry_base acc (weight ps (symbol (dec3 ! i))) (entry_rank dec3 i)
      \<and> num_bits (dec3 ! i) = entry_nb acc (weight ps (symbol (dec3 ! i))) (entry_rank dec3 i)"
    if i: "i < 2 ^ acc" for i
  proof -
    have rank: "entry_rank dec3 i = entry_rank dec2 i"
      using i dec2(1) by (simp add: entry_rank_def syms sy)
    show ?thesis
    proof (cases "i < neg")
      case True
      let ?s = "symbol (dec2 ! i)" let ?p = "nat (ps ! ?s)"
      note b = below [OF True]
      have w: "weight ps ?s = ?p" using b by (simp add: weight_def)
      have p: "0 < ?p" "?p \<le> 2 ^ acc" using b weight_le [OF v, of ?s] w by auto
      have "infos' ! ?s = info_of acc ?p"
        using b infos by (simp add: infos'_def nth_append)
      then have "entry_of_count (infos' ! ?s) (entry_rank dec2 i)
          = (of_nat (entry_base acc ?p (entry_rank dec2 i)), entry_nb acc ?p (entry_rank dec2 i))"
        using entry_of_count_correct [OF p small] b by simp
      then have e: "dec3 ! i = (dec2 ! i)\<lparr>base_line := of_nat (entry_base acc ?p (entry_rank dec2 i)),
          num_bits := entry_nb acc ?p (entry_rank dec2 i)\<rparr>"
        using dec3 [of i] i dec2(1) True by simp
      have "(2::nat) ^ acc \<le> 2 ^ 20" using small by (intro power_increasing) auto
      moreover have "entry_base acc ?p (entry_rank dec2 i) < 2 ^ acc"
        by (rule entry_base_less [OF p]) (use b in blast)
      ultimately have "entry_base acc ?p (entry_rank dec2 i) < 2 ^ 32" by simp
      then show ?thesis unfolding rank e by (simp add: w unat_of_nat take_bit_nat_eq_self)
    next
      case False
      have "dec2 ! i = drop neg dec2 ! (i - neg)" using False i dec2(1) by simp
      also have "\<dots> \<in> set (drop neg dec2)"
        using False i dec2(1) by (intro nth_mem) simp
      finally obtain s where s: "dec2 ! i = neg_entry acc s" "s \<in> set ns"
        unfolding dec2(2) by auto
      then have e: "dec3 ! i = neg_entry acc s" using dec3 [of i] i dec2(1) False by simp
      have "count_list ns s \<noteq> 0" using s(2) by (simp add: count_list_0_iff)
      then have w: "weight ps s = 1"
        by (auto simp: ns_def count_neg_syms weight_def split: if_splits)
      have "entry_rank dec3 i < count_list (map symbol dec3) s"
        using count_list_take_less [of i "2 ^ acc" "map symbol dec3"] i dec2(1) len3 e
        by (simp add: entry_rank_def neg_entry_def)
      then have "entry_rank dec3 i = 0" by (simp add: count w)
      then show ?thesis
        by (simp add: e neg_entry_def w entry_base_def entry_nb_def clog2_def ilog2.simps)
    qed
  qed
  have tab: "table_for acc ps dec3"
    using entry count len3 dec2(1) lay syms by (simp add: table_for_def)
  have bound: "unat (base_line (dec3 ! i)) + 2 ^ num_bits (dec3 ! i) \<le> 2 ^ acc" if i: "i < 2 ^ acc" for i
  proof -
    let ?s = "symbol (dec3 ! i)"
    have rank: "entry_rank dec3 i < weight ps ?s" by (rule entry_rank_less [OF tab i])
    then show ?thesis
      using entry [OF i] entry_base_bound [OF _ weight_le [OF v, of ?s] rank] by simp
  qed
  have all: "list_all (\<lambda>e. unat (base_line e) + 2 ^ num_bits e \<le> 2 ^ acc) dec3"
    unfolding list_all_length by (intro allI impI bound) (simp add: len3 dec2(1))
  have "build_decoding_table t = Ok (t\<lparr>ft_decode := dec3, ft_symbol_counter := counter,
      ft_symbol_info := infos'\<rparr>)"
    using assms(2) place spread infos fill all
    by (simp add: build_decoding_table_def rbind_rassert acc_def [symmetric] ps_def [symmetric] infos'_def Let_def)
  then show ?thesis using tab by (simp add: acc_def ps_def)
qed

text \<open>
  C5.  For every valid normalized distribution, with no more symbols than the table allows,
  \<open>build_decoding_table\<close> succeeds and leaves exactly the table the distribution describes: every
  symbol owns as many entries as its weight (one for probability \<open>-1\<close>), and the entry that is the
  \<open>c\<close>-th of its symbol carries the base line and bit count of the \<open>c\<close>-th state of a symbol of
  that weight, computed without wrap-around by the \<open>u32\<close> arithmetic of the code.
\<close>

theorem build_decoding_table_spec:
  assumes valid: "dist_valid (ft_accuracy_log t) (ft_symbol_probabilities t)"
    and "length (ft_symbol_probabilities t) \<le> ft_max_symbol t + 1"
  shows "\<exists>t'. build_decoding_table t = Ok t'
    \<and> table_for (ft_accuracy_log t) (ft_symbol_probabilities t) (ft_decode t')
    \<and> ft_accuracy_log t' = ft_accuracy_log t
    \<and> ft_symbol_probabilities t' = ft_symbol_probabilities t"
  using build_table_exists [OF assms] .

definition LL_DEFAULT_DISTRIBUTION :: "int list" where
  "LL_DEFAULT_DISTRIBUTION =
     [4, 3, 2, 2, 2, 2, 2, 2, 2, 2, 2, 2, 2, 1, 1, 1, 2, 2, 2, 2, 2, 2, 2, 2, 2, 3, 2, 1, 1, 1, 1,
      1, -1, -1, -1, -1]"

lemma dist_valid_literals_length: "dist_valid 6 LL_DEFAULT_DISTRIBUTION"
  by (simp add: dist_valid_def LL_DEFAULT_DISTRIBUTION_def)

theorem build_decoding_table_spec_witness:
  "\<exists>t'. build_decoding_table ((ft_new 35)\<lparr>ft_accuracy_log := 6,
      ft_symbol_probabilities := LL_DEFAULT_DISTRIBUTION\<rparr>) = Ok t'
    \<and> table_for 6 LL_DEFAULT_DISTRIBUTION (ft_decode t')"
proof -
  let ?t = "(ft_new 35)\<lparr>ft_accuracy_log := 6, ft_symbol_probabilities := LL_DEFAULT_DISTRIBUTION\<rparr>"
  have "length (ft_symbol_probabilities ?t) \<le> ft_max_symbol ?t + 1"
    by (simp add: ft_new_def LL_DEFAULT_DISTRIBUTION_def)
  then show ?thesis
    using build_decoding_table_spec [of ?t] dist_valid_literals_length by auto
qed

section \<open>The intervals of a symbol tile the state space\<close>

lemma count_list_position:
  "c < count_list xs s \<Longrightarrow> \<exists>i < length xs. xs ! i = s \<and> count_list (take i xs) s = c"
proof (induction xs rule: rev_induct)
  case (snoc x xs)
  show ?case
  proof (cases "c < count_list xs s")
    case True
    then obtain i where "i < length xs" "xs ! i = s" "count_list (take i xs) s = c"
      using snoc.IH by auto
    then show ?thesis by (intro exI [of _ i]) (simp add: nth_append)
  next
    case False
    with snoc.prems have "x = s" "c = count_list xs s" by (auto split: if_splits)
    then show ?thesis by (intro exI [of _ "length xs"]) simp
  qed
qed simp

lemma entry_rank_inj:
  assumes "table_for acc ps dec" "i < 2 ^ acc" "j < 2 ^ acc" "symbol (dec ! i) = symbol (dec ! j)"
    and "entry_rank dec i = entry_rank dec j"
  shows "i = j"
proof -
  have len: "length dec = 2 ^ acc" using assms(1) by (simp add: table_for_def)
  have "\<not> i < j" if "i < 2 ^ acc" "j < 2 ^ acc" "symbol (dec ! i) = symbol (dec ! j)"
      "entry_rank dec i = entry_rank dec j" for i j
    using count_list_take_less [of i j "map symbol dec"] that len by (auto simp: entry_rank_def)
  then show ?thesis using assms(2-5) by (metis linorder_neqE_nat)
qed

lemma entry_rank_surj:
  assumes "table_for acc ps dec" "c < weight ps s"
  shows "\<exists>i < 2 ^ acc. symbol (dec ! i) = s \<and> entry_rank dec i = c"
proof -
  have "length dec = 2 ^ acc" "count_list (map symbol dec) s = weight ps s"
    using assms(1) unfolding table_for_def by blast+
  then show ?thesis
    using count_list_position [of c "map symbol dec" s] assms(2) by (auto simp: entry_rank_def)
qed

lemma table_for_tiles:
  assumes "dist_valid acc ps" and t: "table_for acc ps dec" and s: "0 < weight ps s" and x: "x < 2 ^ acc"
  shows "\<exists>!i. i < 2 ^ acc \<and> symbol (dec ! i) = s \<and> unat (base_line (dec ! i)) \<le> x
    \<and> x < unat (base_line (dec ! i)) + 2 ^ num_bits (dec ! i)"
proof -
  let ?p = "weight ps s" and ?X = "2 ^ acc + x"
  note p = s weight_le [OF assms(1), of s]
  have entry: "unat (base_line (dec ! i)) = entry_base acc ?p (entry_rank dec i)"
    "num_bits (dec ! i) = entry_nb acc ?p (entry_rank dec i)" "entry_rank dec i < ?p"
    if "i < 2 ^ acc" "symbol (dec ! i) = s" for i
    using t that entry_rank_less [OF t that(1)] by (simp_all add: table_for_def)
  note E = enc_state_correct [OF p, of ?X]
  obtain i where i: "i < 2 ^ acc" "symbol (dec ! i) = s" "entry_rank dec i = enc_idx acc ?p ?X"
    using entry_rank_surj [OF t E(1)] x by auto
  have idx: "enc_idx acc ?p ?X = c" if "entry_base acc ?p c \<le> x" "x < entry_base acc ?p c + 2 ^ entry_nb acc ?p c"
    "c < ?p" for c
    using enc_state_unique(1) [OF p that(3,1,2)] .
  define nb where "nb = enc_nb acc ?p ?X"
  have "?X mod 2 ^ nb < 2 ^ nb" "entry_base acc ?p (enc_idx acc ?p ?X) + ?X mod 2 ^ nb = x"
    using E(3) x by (simp_all add: nb_def)
  then have inside: "entry_base acc ?p (enc_idx acc ?p ?X) \<le> x"
    "x < entry_base acc ?p (enc_idx acc ?p ?X) + 2 ^ nb"
    by linarith+
  show ?thesis
  proof (intro ex1I [of _ i] conjI)
    show "unat (base_line (dec ! i)) \<le> x" "x < unat (base_line (dec ! i)) + 2 ^ num_bits (dec ! i)"
      using inside E(2) x by (simp_all add: entry i nb_def)
  next
    fix j assume j: "j < 2 ^ acc \<and> symbol (dec ! j) = s \<and> unat (base_line (dec ! j)) \<le> x
      \<and> x < unat (base_line (dec ! j)) + 2 ^ num_bits (dec ! j)"
    then have "enc_idx acc ?p ?X = entry_rank dec j"
      using entry [of j] by (intro idx) auto
    then show "j = i" using entry_rank_inj [OF t, of j i] i j by simp
  qed (use i in simp_all)
qed

text \<open>
  C6.  The table \<open>build_decoding_table\<close> builds from a valid distribution can be driven to any state
  by any symbol that occurs: for every offset \<open>x\<close> into the state space exactly one entry of the
  symbol has an interval \<open>[base_line, base_line + 2^num_bits)\<close> that contains \<open>x\<close>.
\<close>

theorem decoding_table_tiles:
  assumes "dist_valid (ft_accuracy_log t) (ft_symbol_probabilities t)"
    and "length (ft_symbol_probabilities t) \<le> ft_max_symbol t + 1"
  shows "\<exists>t'. build_decoding_table t = Ok t' \<and> length (ft_decode t') = 2 ^ ft_accuracy_log t
    \<and> (\<forall>s x. 0 < weight (ft_symbol_probabilities t) s \<and> x < 2 ^ ft_accuracy_log t \<longrightarrow>
        (\<exists>!i. i < 2 ^ ft_accuracy_log t \<and> symbol (ft_decode t' ! i) = s \<and> unat (base_line (ft_decode t' ! i)) \<le> x
          \<and> x < unat (base_line (ft_decode t' ! i)) + 2 ^ num_bits (ft_decode t' ! i)))"
proof -
  obtain t' where "build_decoding_table t = Ok t'"
    and t': "table_for (ft_accuracy_log t) (ft_symbol_probabilities t) (ft_decode t')"
    using build_table_exists [OF assms] by blast
  moreover have "length (ft_decode t') = 2 ^ ft_accuracy_log t" using t' by (simp add: table_for_def)
  ultimately show ?thesis using table_for_tiles [OF assms(1) t'] by blast
qed

theorem decoding_table_tiles_witness:
  "\<exists>t'. build_decoding_table ((ft_new 35)\<lparr>ft_accuracy_log := 6,
      ft_symbol_probabilities := LL_DEFAULT_DISTRIBUTION\<rparr>) = Ok t'
    \<and> (\<exists>!i. i < 2 ^ 6 \<and> symbol (ft_decode t' ! i) = 24 \<and> unat (base_line (ft_decode t' ! i)) \<le> 17
        \<and> 17 < unat (base_line (ft_decode t' ! i)) + 2 ^ num_bits (ft_decode t' ! i))"
proof -
  let ?t = "(ft_new 35)\<lparr>ft_accuracy_log := 6, ft_symbol_probabilities := LL_DEFAULT_DISTRIBUTION\<rparr>"
  have "length (ft_symbol_probabilities ?t) \<le> ft_max_symbol ?t + 1"
    by (simp add: ft_new_def LL_DEFAULT_DISTRIBUTION_def)
  from decoding_table_tiles [OF _ this] obtain t' where t': "build_decoding_table ?t = Ok t'"
    "\<And>s x. 0 < weight LL_DEFAULT_DISTRIBUTION s \<Longrightarrow> x < 2 ^ 6 \<Longrightarrow>
       (\<exists>!i. i < 2 ^ 6 \<and> symbol (ft_decode t' ! i) = s \<and> unat (base_line (ft_decode t' ! i)) \<le> x
          \<and> x < unat (base_line (ft_decode t' ! i)) + 2 ^ num_bits (ft_decode t' ! i))"
    using dist_valid_literals_length by auto
  have "0 < weight LL_DEFAULT_DISTRIBUTION 24" by (simp add: weight_def LL_DEFAULT_DISTRIBUTION_def)
  from t'(2) [OF this, of 17] t'(1) show ?thesis by auto
qed

end
