(* ===== verification/Fse_Encoder.thy ===== *)
theory Fse_Encoder
  imports Fse_Decoder
begin

text \<open>
  The FSE (tANS) encoding side, \<open>fse/fse_encoder.rs\<close>: the table with its packed transition
  entries, its construction from a normalized distribution (row starts, spread on the fast or
  the classic path, state table, transform entries), one encode step, the two encoders, and the
  normalization of a histogram.  The table buffer that the code reuses between builds is an
  argument of the build, with arbitrary contents; an out-of-range access through a raw pointer
  is a \<open>Panic\<close>, like every slice access out of range.
\<close>

unbundle bit_operations_syntax

section \<open>The table\<close>

record FseHead =
  fh_tt :: "u64 list"
  fh_probs :: "int list"
  fh_start :: "nat list"

record EncTable =
  et_table_size :: nat
  et_nsym :: nat
  et_head :: FseHead
  et_st :: "nat list"

definition enc_step :: "EncTable \<Rightarrow> nat \<Rightarrow> u32 \<Rightarrow> (unit, nat \<times> u32 \<times> u32) res" where
  "enc_step t code state =
     rbind (rindex (fh_tt (et_head t)) code) (\<lambda>e.
     let nb = unat (drop_bit 16 (state + ucast e)) in
     rbind (rassert (nb < 32)) (\<lambda>_.
     let emit = state AND (push_bit nb 1 - 1);
         idx = drop_bit nb state + ucast (drop_bit 32 e)
     in rbind (rindex (et_st t) (unat idx)) (\<lambda>next. Ok (nb, emit, of_nat next))))"

definition start_index :: "EncTable \<Rightarrow> nat \<Rightarrow> (unit, u32) res" where
  "start_index t sy = rbind (rindex (fh_start (et_head t)) sy) (\<lambda>s. Ok (of_nat s))"

definition et_acc_log :: "EncTable \<Rightarrow> nat" where
  "et_acc_log t = ilog2 (et_table_size t)"

definition et_max_symbol :: "EncTable \<Rightarrow> nat" where
  "et_max_symbol t = (et_nsym t - 1) mod 256"

definition max_nb_bits :: "EncTable \<Rightarrow> nat \<Rightarrow> (unit, nat) res" where
  "max_nb_bits t sy =
     rbind (rindex (fh_tt (et_head t)) sy) (\<lambda>e.
     rbind (rassert (unat (ucast e :: u32) + 0xffff < 2 ^ 32)) (\<lambda>_.
     Ok (unat (drop_bit 16 (ucast e + 0xffff :: u32)))))"

section \<open>Building the table\<close>

text \<open>\<open>prob as u32\<close>.\<close>

definition as_u32 :: "int \<Rightarrow> nat" where
  "as_u32 p = nat (p mod 2 ^ 32)"

text \<open>Row starts, and the symbols of probability \<open>-1\<close> from the top downwards.\<close>

fun row_starts ::
  "nat \<Rightarrow> int list \<Rightarrow> nat \<Rightarrow> int \<Rightarrow> nat list \<Rightarrow> bytes \<Rightarrow> (unit, nat \<times> int \<times> nat list \<times> bytes) res" where
  "row_starts s [] tot high_threshold start owner = Ok (tot, high_threshold, start, owner)"
| "row_starts s (p # ps) tot high_threshold start owner =
     (let start = (if p \<noteq> 0 then start[s := tot mod 2 ^ 16] else start) in
      if p = -1 then
        rbind (rassert (0 \<le> high_threshold \<and> high_threshold < int (length owner))) (\<lambda>_.
          row_starts (s + 1) ps (tot + 1) (high_threshold - 1) start
            (owner[nat high_threshold := of_nat s]))
      else
        rbind (rassert (tot + as_u32 p < 2 ^ 32)) (\<lambda>_.
          row_starts (s + 1) ps (tot + as_u32 p) high_threshold start owner))"

text \<open>
  The fast path: the symbol runs are laid down eight bytes per store, each store possibly
  overrunning its run, then scattered two at a time.
\<close>

definition store_u64 :: "bytes \<Rightarrow> nat \<Rightarrow> u64 \<Rightarrow> (unit, bytes) res" where
  "store_u64 xs pos v = rbind (rassert (pos + 8 \<le> length xs)) (\<lambda>_.
     Ok (take pos xs @ u64_to_le_bytes v @ drop (pos + 8) xs))"

function store_run :: "bytes \<Rightarrow> nat \<Rightarrow> nat \<Rightarrow> nat \<Rightarrow> u64 \<Rightarrow> (unit, bytes) res" where
  "store_run xs pos i n sv =
     (if i < n then rbind (store_u64 xs (pos + i) sv) (\<lambda>xs. store_run xs pos (i + 8) n sv)
      else Ok xs)"
  by pat_completeness auto
termination
  by (relation "measure (\<lambda>(xs, pos, i, n, sv). n - i)") auto

declare store_run.simps [simp del]

fun lay_runs :: "int list \<Rightarrow> u64 \<Rightarrow> nat \<Rightarrow> bytes \<Rightarrow> (unit, bytes) res" where
  "lay_runs [] sv pos spread = Ok spread"
| "lay_runs (p # ps) sv pos spread =
     (if p > 0 then
        rbind (store_u64 spread pos sv) (\<lambda>spread.
        rbind (store_run spread pos 8 (nat p) sv) (\<lambda>spread.
          lay_runs ps (sv + 0x0101010101010101) (pos + nat p) spread))
      else lay_runs ps (sv + 0x0101010101010101) pos spread)"

function scatter ::
  "nat \<Rightarrow> bytes \<Rightarrow> nat \<Rightarrow> nat \<Rightarrow> bytes \<Rightarrow> (unit, nat \<times> bytes) res" where
  "scatter table_size spread position k owner =
     (if k < table_size then
        let step = drop_bit 1 table_size + drop_bit 3 table_size + 3; mask = table_size - 1;
            position' = (position + step) AND mask
        in rbind (rindex spread k) (\<lambda>a.
           rbind (rindex owner position) (\<lambda>_.
           rbind (rindex spread (k + 1)) (\<lambda>b.
           rbind (rindex owner position') (\<lambda>_.
             scatter table_size spread ((position + 2 * step) AND mask) (k + 2)
               (owner[position := a, position' := b])))))
      else Ok (position, owner))"
  by pat_completeness auto
termination
  by (relation "measure (\<lambda>(table_size, spread, position, k, owner). table_size - k)") auto

declare scatter.simps [simp del]

text \<open>
  The classic path.  As in the decoder, \<open>table_size\<close> steps of fuel decide whether the walk past
  the occupied top ends.
\<close>

fun skip_high :: "nat \<Rightarrow> int \<Rightarrow> nat \<Rightarrow> nat \<Rightarrow> nat option" where
  "skip_high 0 high_threshold table_size idx =
     (if idx > nat (high_threshold mod 2 ^ 64) then None else Some idx)"
| "skip_high (Suc fuel) high_threshold table_size idx =
     (if idx > nat (high_threshold mod 2 ^ 64)
      then skip_high fuel high_threshold table_size (next_position idx table_size) else Some idx)"

fun own_symbol ::
  "nat \<Rightarrow> int \<Rightarrow> nat \<Rightarrow> nat \<Rightarrow> nat \<Rightarrow> bytes \<Rightarrow> (unit, nat \<times> bytes) res" where
  "own_symbol sy high_threshold table_size 0 idx owner = Ok (idx, owner)"
| "own_symbol sy high_threshold table_size (Suc k) idx owner =
     rbind (rindex owner idx) (\<lambda>_.
       case skip_high table_size high_threshold table_size (next_position idx table_size) of
         None \<Rightarrow> Panic
       | Some i \<Rightarrow> own_symbol sy high_threshold table_size k i (owner[idx := of_nat sy]))"

fun own_symbols ::
  "nat \<Rightarrow> int list \<Rightarrow> int \<Rightarrow> nat \<Rightarrow> nat \<Rightarrow> bytes \<Rightarrow> (unit, bytes) res" where
  "own_symbols sy [] high_threshold table_size idx owner = Ok owner"
| "own_symbols sy (p # ps) high_threshold table_size idx owner =
     (if p \<le> 0 then own_symbols (sy + 1) ps high_threshold table_size idx owner
      else rbind (own_symbol sy high_threshold table_size (nat p) idx owner) (\<lambda>(idx, owner).
        own_symbols (sy + 1) ps high_threshold table_size idx owner))"

text \<open>The state table: positions ascending, \<open>start\<close> as the cursor of each symbol's row.\<close>

fun state_walk ::
  "nat \<Rightarrow> nat \<Rightarrow> bytes \<Rightarrow> nat list \<Rightarrow> nat list \<Rightarrow> (unit, nat list \<times> nat list) res" where
  "state_walk table_size u [] start st = Ok (start, st)"
| "state_walk table_size u (sy # owner) start st =
     (let s = unat sy in
      rbind (rindex start s) (\<lambda>c.
      rbind (rindex st c) (\<lambda>_.
      rbind (rassert (c + 1 < 2 ^ 16)) (\<lambda>_.
        state_walk table_size (u + 1) owner (start[s := c + 1])
          (st[c := (table_size + u) mod 2 ^ 16])))))"

text \<open>The transform entry of one symbol, then of all of them with the biased start states.\<close>

definition transform_entry :: "nat \<Rightarrow> nat \<Rightarrow> int \<Rightarrow> nat \<Rightarrow> (unit, u64) res" where
  "transform_entry acc_log table_size p tot =
     rbind
       (if p = 0 then
          Ok (push_bit 16 (of_nat acc_log + 1 :: u32) - of_nat table_size, 0 :: u32)
        else if p = 1 \<or> p = -1 then
          Ok (push_bit 16 (of_nat acc_log) - of_nat table_size, of_nat tot - 1)
        else
          let p = as_u32 p; prob_log = (if 2 ^ ilog2 p = p then ilog2 p else ilog2 p + 1) in
          rbind (rassert (prob_log \<le> acc_log)) (\<lambda>_.
            let nb = acc_log - prob_log in
            Ok (push_bit 16 (of_nat (nb + 1)) - push_bit (nb + 1) (of_nat p),
                of_nat tot - of_nat p)))
       (\<lambda>(dnb, dfs). Ok (ucast dnb OR push_bit 32 (ucast dfs)))"

fun transform ::
  "nat \<Rightarrow> nat \<Rightarrow> nat \<Rightarrow> int list \<Rightarrow> nat \<Rightarrow> nat list \<Rightarrow> u64 list \<Rightarrow> nat list
    \<Rightarrow> (unit, u64 list \<times> nat list) res" where
  "transform acc_log table_size s [] tot st tt start = Ok (tt, start)"
| "transform acc_log table_size s (p # ps) tot st tt start =
     rbind (transform_entry acc_log table_size p tot) (\<lambda>e.
     rbind (if p \<noteq> 0 then rbind (rindex st tot) (\<lambda>x. Ok (start[s := x])) else Ok start) (\<lambda>start.
     let tot' = tot + (if p = -1 then 1 else as_u32 p) in
     rbind (rassert (tot' < 2 ^ 32)) (\<lambda>_.
       transform acc_log table_size (s + 1) ps tot' st (tt[s := e]) start)))"

definition build_table_body ::
  "int list \<Rightarrow> nat \<Rightarrow> bytes \<Rightarrow> bytes \<Rightarrow> FseHead \<Rightarrow> nat list \<Rightarrow> (unit, EncTable) res" where
  "build_table_body probs acc_log owner spread head st =
     rbind (rassert (acc_log \<le> 12)) (\<lambda>_.
     let table_size = push_bit acc_log 1 in
     rbind (rassert (table_size \<le> length owner \<and> table_size + 8 \<le> length spread)) (\<lambda>_.
     rbind (rassert (length probs \<le> 256)) (\<lambda>_.
     let owner = take table_size owner; spread = take (table_size + 8) spread;
         probs_full = probs @ drop (length probs) (fh_probs head)
     in rbind (row_starts 0 probs 0 (int table_size - 1) (fh_start head) owner)
          (\<lambda>(tot, high_threshold, start, owner).
        rbind (rassert (tot = table_size)) (\<lambda>_.
        rbind
          (if high_threshold = int table_size - 1 \<and> table_size > 1 then
             rbind (lay_runs probs 0 0 spread) (\<lambda>spread.
             rbind (scatter table_size spread 0 0 owner) (\<lambda>(position, owner).
             rbind (rassert (position = 0)) (\<lambda>_. Ok owner)))
           else own_symbols 0 probs high_threshold table_size 0 owner)
          (\<lambda>owner.
        rbind (state_walk table_size 0 owner start (take table_size st)) (\<lambda>(start, st).
        rbind (transform acc_log table_size 0 probs 0 st (fh_tt head) start) (\<lambda>(tt, start).
        Ok \<lparr>et_table_size = table_size, et_nsym = length probs,
            et_head = \<lparr>fh_tt = tt, fh_probs = probs_full, fh_start = start\<rparr>,
            et_st = st\<rparr>))))))))"

text \<open>The two callers: fresh zeroed buffers, and pooled buffers grown to size.\<close>

definition build_table_from_probabilities :: "int list \<Rightarrow> nat \<Rightarrow> (unit, EncTable) res" where
  "build_table_from_probabilities probs acc_log =
     (let table_size = push_bit acc_log 1 in
      build_table_body probs acc_log (replicate table_size 0) (replicate (table_size + 8) 0)
        \<lparr>fh_tt = replicate 256 0, fh_probs = replicate 256 0, fh_start = replicate 256 0\<rparr>
        (replicate table_size 0))"

definition grow :: "bytes \<Rightarrow> nat \<Rightarrow> bytes" where
  "grow xs n = (if length xs < n then xs @ replicate (n - length xs) 0 else xs)"

definition build_table_from_probabilities_into ::
  "int list \<Rightarrow> nat \<Rightarrow> bytes \<Rightarrow> bytes \<Rightarrow> FseHead \<Rightarrow> nat list \<Rightarrow> (unit, EncTable) res" where
  "build_table_from_probabilities_into probs acc_log owner spread head st =
     (let table_size = push_bit acc_log 1 in
      build_table_body probs acc_log (grow owner table_size) (grow spread (table_size + 8)) head st)"

definition rle_table ::
  "nat \<Rightarrow> bytes \<Rightarrow> bytes \<Rightarrow> FseHead \<Rightarrow> nat list \<Rightarrow> (unit, EncTable) res" where
  "rle_table code owner spread head st =
     build_table_from_probabilities_into (replicate code 0 @ [1]) 0 owner spread head st"

section \<open>Serializing the distribution\<close>

text \<open>The register accumulator: bits, their number, byte position and buffer.\<close>

type_synonym nc_state = "u64 \<times> nat \<times> nat \<times> bytes"

definition nc_flush :: "nat \<Rightarrow> nc_state \<Rightarrow> (unit, nc_state) res" where
  "nc_flush cap = (\<lambda>(acc, nb, pos, buf).
     if nb \<ge> 48 then
       rbind (overrun_store_u64 cap buf pos acc) (\<lambda>buf.
       rbind (rassert (drop_bit 3 nb * 8 < 64)) (\<lambda>_.
         Ok (drop_bit (drop_bit 3 nb * 8) acc, nb AND 7, pos + drop_bit 3 nb, buf)))
     else Ok (acc, nb, pos, buf))"

definition nc_add :: "nat \<Rightarrow> nat \<Rightarrow> nc_state \<Rightarrow> (unit, nc_state) res" where
  "nc_add value width = (\<lambda>(acc, nb, pos, buf).
     rbind (rassert (nb < 64)) (\<lambda>_. Ok (acc OR push_bit nb (of_nat value), nb + width, pos, buf)))"

function nc_shrink :: "nat \<Rightarrow> nat \<Rightarrow> nat \<Rightarrow> (unit, nat \<times> nat) res" where
  "nc_shrink remaining threshold nb_bits =
     (if remaining < threshold then
        rbind (rassert (0 < nb_bits)) (\<lambda>_. nc_shrink remaining (threshold div 2) (nb_bits - 1))
      else Ok (threshold, nb_bits))"
  by pat_completeness auto
termination
  by (relation "measure (\<lambda>(r, t, n). t)") auto

declare nc_shrink.simps [simp del]

text \<open>The markers of a run of zero probabilities: sixteen bits for 24, two bits for three.\<close>

function nc_run24 :: "nat \<Rightarrow> nat \<Rightarrow> nc_state \<Rightarrow> (unit, nat \<times> nc_state) res" where
  "nc_run24 cap run st =
     (if run \<ge> 24 then
        rbind (nc_add 0xffff 16 st) (\<lambda>st. rbind (nc_flush cap st) (\<lambda>st. nc_run24 cap (run - 24) st))
      else Ok (run, st))"
  by pat_completeness auto
termination
  by (relation "measure (\<lambda>(cap, run, st). run)") auto

declare nc_run24.simps [simp del]

function nc_run3 :: "nat \<Rightarrow> nc_state \<Rightarrow> (unit, nat \<times> nc_state) res" where
  "nc_run3 run st =
     (if run \<ge> 3 then rbind (nc_add 3 2 st) (\<lambda>st. nc_run3 (run - 3) st) else Ok (run, st))"
  by pat_completeness auto
termination
  by (relation "measure (\<lambda>(run, st). run)") auto

declare nc_run3.simps [simp del]

definition nc_value :: "int \<Rightarrow> nat \<Rightarrow> nat \<Rightarrow> nat" where
  "nc_value prob threshold mx =
     (let value = nat ((prob + 1) mod 2 ^ 64) in if value \<ge> threshold then value + mx else value)"

function nc_loop ::
  "nat \<Rightarrow> int list \<Rightarrow> nat \<Rightarrow> nat \<Rightarrow> nat \<Rightarrow> nc_state \<Rightarrow> (unit, nc_state) res" where
  "nc_loop cap probs remaining threshold nb_bits st =
     (case probs of
        [] \<Rightarrow> Ok st
      | prob # rest \<Rightarrow>
         if remaining \<le> 1 then Ok st
         else rbind (rassert (1 + remaining \<le> 2 * threshold)) (\<lambda>_.
           let mx = 2 * threshold - 1 - remaining; value = nc_value prob threshold mx in
           rbind (rassert (nat \<bar>prob\<bar> \<le> remaining)) (\<lambda>_.
           let remaining = remaining - nat \<bar>prob\<bar> in
           rbind (nc_add value (nb_bits - of_bool (value < mx)) st) (\<lambda>st.
           rbind (nc_shrink remaining threshold nb_bits) (\<lambda>(threshold, nb_bits).
           rbind (nc_flush cap st) (\<lambda>st.
             if prob = 0 then
               let run = length (takeWhile (\<lambda>p. p = 0) rest) in
               rbind (nc_run24 cap run st) (\<lambda>(r, st).
               rbind (nc_run3 r st) (\<lambda>(r, st).
               rbind (nc_add r 2 st) (\<lambda>st.
               rbind (nc_flush cap st) (\<lambda>st.
                 nc_loop cap (drop run rest) remaining threshold nb_bits st))))
             else rbind (nc_flush cap st) (\<lambda>st. nc_loop cap rest remaining threshold nb_bits st)))))))"
  by pat_completeness auto
termination
  by (relation "measure (\<lambda>(cap, probs, r, t, n, st). length probs)") (auto simp: less_Suc_eq_le)

declare nc_loop.simps [simp del]

definition write_ncount :: "int list \<Rightarrow> nat \<Rightarrow> BitWriter \<Rightarrow> (unit, BitWriter) res" where
  "write_ncount probs acc_log w =
     rbind (rassert (ACC_LOG_OFFSET \<le> acc_log \<and> acc_log \<le> 12)) (\<lambda>_.
     let table_size = push_bit acc_log 1; nsym = length probs;
         (acc, nb, pos) = bw_hot_state w;
         bound = (4 + 15 * nsym) div 8 + 16; cap = pos + bound
     in rbind (nc_flush cap (acc, nb, pos, bw_output w)) (\<lambda>st.
        rbind (nc_add (acc_log - ACC_LOG_OFFSET) 4 st) (\<lambda>st.
        rbind (nc_flush cap st) (\<lambda>st.
        rbind (nc_loop cap probs (table_size + 1) table_size (acc_log + 1) st) (\<lambda>(acc, nb, pos, buf).
        rbind (bw_set_hot_state w acc nb pos buf) (\<lambda>w.
          bw_write_bits w 0 (bw_misaligned w)))))))"

definition write_table :: "EncTable \<Rightarrow> BitWriter \<Rightarrow> (unit, BitWriter) res" where
  "write_table t w = write_ncount (take (et_nsym t) (fh_probs (et_head t))) (et_acc_log t) w"

section \<open>The encoders\<close>

fun encode_symbols :: "EncTable \<Rightarrow> nat list \<Rightarrow> u32 \<Rightarrow> BitWriter \<Rightarrow> (unit, u32 \<times> BitWriter) res" where
  "encode_symbols t [] state w = Ok (state, w)"
| "encode_symbols t (x # xs) state w =
     rbind (enc_step t x state) (\<lambda>(nb, emit, next).
     rbind (bw_write_bits w (ucast emit) nb) (\<lambda>w. encode_symbols t xs next w))"

definition write_end_marker :: "BitWriter \<Rightarrow> (unit, BitWriter) res" where
  "write_end_marker w =
     (let bits_to_fill = bw_misaligned w in
      if bits_to_fill = 0 then bw_write_bits w 1 8 else bw_write_bits w 1 bits_to_fill)"

text \<open>\<open>encode\<close> after the table description; \<open>write_state\<close> stores a final state without its bias.\<close>

definition write_state :: "EncTable \<Rightarrow> u32 \<Rightarrow> BitWriter \<Rightarrow> (unit, BitWriter) res" where
  "write_state t state w =
     bw_write_bits w (ucast (state AND (push_bit (et_acc_log t) 1 - 1))) (et_acc_log t)"

definition encode_payload :: "EncTable \<Rightarrow> nat list \<Rightarrow> BitWriter \<Rightarrow> (unit, BitWriter) res" where
  "encode_payload t dat w =
     (if dat = [] then Panic
      else rbind (start_index t (last dat)) (\<lambda>state.
        rbind (encode_symbols t (rev (butlast dat)) state w) (\<lambda>(state, w).
        rbind (write_state t state w) write_end_marker)))"

definition fse_encode :: "EncTable \<Rightarrow> nat list \<Rightarrow> BitWriter \<Rightarrow> (unit, BitWriter) res" where
  "fse_encode t dat w = rbind (write_table t w) (encode_payload t dat)"

text \<open>The two interleaved states of \<open>encode_interleaved\<close>.\<close>

function interleave ::
  "EncTable \<Rightarrow> nat list \<Rightarrow> nat \<Rightarrow> u32 \<Rightarrow> u32 \<Rightarrow> BitWriter \<Rightarrow> (unit, nat \<times> u32 \<times> u32 \<times> BitWriter) res" where
  "interleave t dat idx state_1 state_2 w =
     rbind (rindex dat (idx + 1)) (\<lambda>x1.
     rbind (enc_step t x1 state_1) (\<lambda>(nb, emit, state_1).
     rbind (bw_write_bits w (ucast emit) nb) (\<lambda>w.
     rbind (rindex dat idx) (\<lambda>x2.
     rbind (enc_step t x2 state_2) (\<lambda>(nb, emit, state_2).
     rbind (bw_write_bits w (ucast emit) nb) (\<lambda>w.
       if idx < 2 then Ok (idx, state_1, state_2, w)
       else interleave t dat (idx - 2) state_1 state_2 w))))))"
  by pat_completeness auto
termination
  by (relation "measure (\<lambda>(t, dat, idx, s1, s2, w). idx)") auto

declare interleave.simps [simp del]

definition encode_interleaved :: "EncTable \<Rightarrow> nat list \<Rightarrow> BitWriter \<Rightarrow> (unit, BitWriter) res" where
  "encode_interleaved t dat w =
     rbind (write_table t w) (\<lambda>w.
     rbind (rassert (length dat \<ge> 4)) (\<lambda>_.
     rbind (start_index t (dat ! (length dat - 1))) (\<lambda>state_1.
     rbind (start_index t (dat ! (length dat - 2))) (\<lambda>state_2.
     rbind (interleave t dat (length dat - 4) state_1 state_2 w) (\<lambda>(idx, state_1, state_2, w).
     rbind
       (if idx = 1 then
          rbind (enc_step t (dat ! 0) state_1) (\<lambda>(nb, emit, state_1).
          rbind (bw_write_bits w (ucast emit) nb) (\<lambda>w.
          rbind (write_state t state_2 w) (write_state t state_1)))
        else rbind (write_state t state_1 w) (write_state t state_2))
       write_end_marker)))))"

end
