(* ===== verification/Fse_Enc_Table.thy ===== *)
theory Fse_Enc_Table
  imports Fse_Encoder Fse_Table
begin

text \<open>
  Correctness of the encoder's table build.  Both spread paths produce the layout that the
  decoder's table has; the state table lists, row by row, the positions of each symbol; and one
  encode step computes the transition that the decoder's entry undoes.
\<close>

unbundle bit_operations_syntax

section \<open>Row starts\<close>

definition cum :: "int list \<Rightarrow> nat \<Rightarrow> nat" where
  "cum ps s = sum_list (map (weight ps) [0..<s])"

fun start_rows :: "nat \<Rightarrow> int list \<Rightarrow> nat \<Rightarrow> nat list \<Rightarrow> nat list" where
  "start_rows sy [] tot start = start"
| "start_rows sy (p # ps) tot start =
     start_rows (sy + 1) ps (tot + nat \<bar>p\<bar>) (if p \<noteq> 0 then start[sy := tot] else start)"

lemma as_u32_small: "0 \<le> p \<Longrightarrow> p < 2 ^ 32 \<Longrightarrow> as_u32 p = nat p"
  by (simp add: as_u32_def)

lemma row_starts_correct:
  assumes "\<forall>p \<in> set ps. -1 \<le> p" "int tot + sum_list (map abs ps) < 2 ^ 16"
    and "length (neg_syms sy ps) \<le> n" "n \<le> length owner"
  shows "row_starts sy ps tot (int n - 1) start owner
    = Ok (tot + nat (sum_list (map abs ps)), int (n - length (neg_syms sy ps)) - 1, start_rows sy ps tot start,
        take (n - length (neg_syms sy ps)) owner @ rev (map of_nat (neg_syms sy ps)) @ drop n owner)"
  using assms
proof (induction ps arbitrary: sy tot n start owner)
  case Nil
  then show ?case by simp
next
  case (Cons p ps)
  have nn: "0 \<le> sum_list (map abs ps)" by (induction ps) auto
  show ?case
  proof (cases "p = -1")
    case False
    then have p: "0 \<le> p" "p < 2 ^ 16" "tot < 2 ^ 16" using Cons.prems(1,2) nn by auto
    then have u: "as_u32 p = nat p" by (intro as_u32_small) auto
    have "tot mod 65536 = tot" "tot + nat p < 4294967296" using p Cons.prems(2) nn by auto
    moreover have "row_starts (sy + 1) ps (tot + nat p) (int n - 1) s owner
      = Ok (tot + nat p + nat (sum_list (map abs ps)), int (n - length (neg_syms (sy + 1) ps)) - 1,
        start_rows (sy + 1) ps (tot + nat p) s,
        take (n - length (neg_syms (sy + 1) ps)) owner @ rev (map of_nat (neg_syms (sy + 1) ps)) @ drop n owner)" for s
      by (rule Cons.IH) (use Cons.prems False p nn in auto)
    ultimately show ?thesis
      using False p nn u by (simp add: rbind_rassert nat_add_distrib)
  next
    case True
    then obtain k where n: "n = Suc k" "k < length owner"
      using Cons.prems by (cases n) auto
    let ?owner = "owner[k := of_nat sy]"
    have d: "drop k ?owner = of_nat sy # drop n owner"
      using n by (simp add: drop_update_cancel Cons_nth_drop_Suc [symmetric])
    have t: "take (k - c) ?owner = take (k - c) owner" for c by simp
    have m: "tot mod 2 ^ 16 = tot" using Cons.prems(2) nn by simp
    have IH: "row_starts (sy + 1) ps (tot + 1) (int k - 1) s ?owner
      = Ok (tot + 1 + nat (sum_list (map abs ps)), int (k - length (neg_syms (sy + 1) ps)) - 1,
        start_rows (sy + 1) ps (tot + 1) s,
        take (k - length (neg_syms (sy + 1) ps)) ?owner @ rev (map of_nat (neg_syms (sy + 1) ps))
          @ drop k ?owner)" for s
    proof (rule Cons.IH)
      show "\<forall>p \<in> set ps. -1 \<le> p" using Cons.prems(1) by simp
      show "int (tot + 1) + sum_list (map abs ps) < 2 ^ 16" using Cons.prems(2) True by simp
      show "length (neg_syms (sy + 1) ps) \<le> k" using Cons.prems(3) True n by simp
      show "k \<le> length ?owner" using n(2) by simp
    qed
    have "int n - 1 = int k" using n by simp
    then have run: "row_starts sy (p # ps) tot (int n - 1) start owner
        = row_starts (sy + 1) ps (tot + 1) (int k - 1) (start[sy := tot]) ?owner"
      using True n(2) by (simp only: row_starts.simps m Let_def) (simp add: rbind_rassert)
    have len: "k - length (neg_syms (sy + 1) ps) = n - length (neg_syms sy (p # ps))"
      using True n by simp
    have tot: "tot + 1 + nat (sum_list (map abs ps)) = tot + nat (sum_list (map abs (p # ps)))"
      using True nn by (simp add: nat_add_distrib)
    show ?thesis
      unfolding run IH d t len [symmetric] tot [symmetric] using True by simp
  qed
qed

lemma length_start_rows [simp]: "length (start_rows sy ps tot start) = length start"
  by (induction sy ps tot start rule: start_rows.induct) simp_all

lemma weight_Cons [simp]: "weight (p # ps) 0 = nat \<bar>p\<bar>" "weight (p # ps) (Suc s) = weight ps s"
  by (simp_all add: weight_def)

lemma cum_0 [simp]: "cum ps 0 = 0"
  by (simp add: cum_def)

lemma cum_Suc: "cum ps (Suc s) = cum ps s + weight ps s"
  by (simp add: cum_def)

lemma cum_Cons_Suc: "cum (p # ps) (Suc s) = nat \<bar>p\<bar> + cum ps s"
  by (induction s) (simp_all add: cum_Suc)

lemma start_rows_below: "i < sy \<Longrightarrow> start_rows sy ps tot start ! i = start ! i"
  by (induction sy ps tot start rule: start_rows.induct) auto

lemma start_rows_nth:
  "j < length ps \<Longrightarrow> ps ! j \<noteq> 0 \<Longrightarrow> sy + j < length start \<Longrightarrow>
     start_rows sy ps tot start ! (sy + j) = tot + cum ps j"
proof (induction sy ps tot start arbitrary: j rule: start_rows.induct)
  case (2 sy p ps tot start)
  show ?case
  proof (cases j)
    case 0
    with "2.prems" show ?thesis by (simp add: start_rows_below)
  next
    case (Suc i)
    have "start_rows (sy + 1) ps (tot + nat \<bar>p\<bar>) (if p \<noteq> 0 then start[sy := tot] else start) ! (sy + 1 + i)
        = tot + nat \<bar>p\<bar> + cum ps i"
      by (rule "2.IH") (use "2.prems" Suc in auto)
    then show ?thesis using Suc by (simp add: cum_Cons_Suc)
  qed
qed simp

lemma cum_total:
  assumes "\<forall>p \<in> set ps. -1 \<le> p"
  shows "int (cum ps (length ps)) = sum_list (map abs ps)"
  by (induction ps) (simp_all add: cum_Cons_Suc)

lemma cum_mono: "i \<le> j \<Longrightarrow> cum ps i \<le> cum ps j"
  by (induction j) (auto simp: cum_Suc le_Suc_eq)

section \<open>The fast spread\<close>

text \<open>The run word holds eight copies of its symbol.\<close>

lemma run_byte: "B < 256 \<Longrightarrow> i < 8 \<Longrightarrow> (B * 72340172838076673 div 2 ^ (8 * i)) mod 256 = (B :: nat)"
proof -
  assume B: "B < 256" and i: "i < 8"
  have S: "(B * 72340172838076673 div 2 ^ (8 * i)) mod 256 = B" if "72340172838076673 = (lo + m * (1 + 256 * hi))" "2 ^ (8 * i) = m" "B * lo < m" for lo hi m :: nat
  proof -
    have "B * 72340172838076673 = B * lo + m * (B + 256 * (B * hi))" unfolding that(1) by (simp only: algebra_simps)
    moreover have "(B * lo + m * (B + 256 * (B * hi))) div m = B + 256 * (B * hi)" using that(3) by simp
    ultimately show ?thesis unfolding that(2) using B by simp
  qed
  have "i = 0 \<or> i = 1 \<or> i = 2 \<or> i = 3 \<or> i = 4 \<or> i = 5 \<or> i = 6 \<or> i = 7" using i by linarith
  then show ?thesis
  proof (elim disjE)
    assume "i = 0" with B show ?thesis by (intro S [where lo = 0 and hi = 282578800148737 and m = "1"]) simp_all
  next
    assume "i = 1" with B show ?thesis by (intro S [where lo = 1 and hi = 1103823438081 and m = "2 ^ 8"]) simp_all
  next
    assume "i = 2" with B show ?thesis by (intro S [where lo = 257 and hi = 4311810305 and m = "2 ^ 16"]) simp_all
  next
    assume "i = 3" with B show ?thesis by (intro S [where lo = 65793 and hi = 16843009 and m = "2 ^ 24"]) simp_all
  next
    assume "i = 4" with B show ?thesis by (intro S [where lo = 16843009 and hi = 65793 and m = "2 ^ 32"]) simp_all
  next
    assume "i = 5" with B show ?thesis by (intro S [where lo = 4311810305 and hi = 257 and m = "2 ^ 40"]) simp_all
  next
    assume "i = 6" with B show ?thesis by (intro S [where lo = 1103823438081 and hi = 1 and m = "2 ^ 48"]) simp_all
  next
    assume "i = 7" with B show ?thesis by (intro S [where lo = 282578800148737 and hi = 0 and m = "2 ^ 56"]) simp_all
  qed
qed

lemma unat_to_u8: "unat (ucast (w :: u64) :: u8) = unat w mod 256"
  by (simp add: unsigned_ucast_eq take_bit_eq_mod)

lemma unat_drop_bit_div: "unat (drop_bit n w) = unat w div 2 ^ n" for w :: "'a::len word"
  by (metis unsigned_drop_bit_eq drop_bit_eq_div unat_drop_bit_eq)

lemma run_word: "u64_to_le_bytes (ucast (b :: u8) * 0x0101010101010101) = replicate 8 b"
proof -
  let ?w = "ucast b * 0x0101010101010101 :: u64"
  have b: "unat b < 256" by (rule less_le_trans [OF unsigned_less]) simp
  then have "unat b * 72340172838076673 < 2 ^ 64" by simp
  then have w: "unat ?w = unat b * 72340172838076673"
    by (simp add: unat_word_ariths unsigned_ucast_eq take_bit_nat_eq_self)
  have "ucast (drop_bit (8 * i) ?w) = b" if "i < 8" for i
  proof -
    have "unat (ucast (drop_bit (8 * i) ?w) :: u8) = (unat ?w div 2 ^ (8 * i)) mod 256"
      by (simp only: unat_to_u8 unat_drop_bit_div)
    also have "\<dots> = unat b" unfolding w by (rule run_byte [OF b that])
    finally show ?thesis by (simp only: word_unat_eq_iff)
  qed
  then have "map (\<lambda>i. ucast (drop_bit (8 * i) ?w)) [0..<8] = map (\<lambda>_. b) [0..<8]"
    by (intro map_cong refl) simp
  then show ?thesis by (simp only: u64_to_le_bytes_def map_replicate_const) simp
qed

lemma store_u64_Ok:
  "pos + 8 \<le> length xs \<Longrightarrow> store_u64 xs pos v = Ok (take pos xs @ u64_to_le_bytes v @ drop (pos + 8) xs)"
  by (simp add: store_u64_def rbind_rassert)

lemma store_run_correct:
  assumes "u64_to_le_bytes sv = replicate 8 b" "pos + n + 8 \<le> length xs"
  shows "\<exists>xs'. store_run xs pos i n sv = Ok xs' \<and> length xs' = length xs
    \<and> take (pos + n) xs' = take (pos + min i n) xs @ replicate (n - i) b"
  using assms
proof (induction xs pos i n sv rule: store_run.induct)
  case (1 xs pos i n sv)
  show ?case
  proof (cases "i < n")
    case False
    then show ?thesis by (subst store_run.simps) (simp add: min_def)
  next
    case True
    define xs1 where "xs1 = take (pos + i) xs @ replicate 8 b @ drop (pos + i + 8) xs"
    have st: "store_u64 xs (pos + i) sv = Ok xs1" and len: "length xs1 = length xs"
      using "1.prems" True by (simp_all add: store_u64_Ok xs1_def)
    obtain xs' where xs': "store_run xs1 pos (i + 8) n sv = Ok xs'" "length xs' = length xs1"
      "take (pos + n) xs' = take (pos + min (i + 8) n) xs1 @ replicate (n - (i + 8)) b"
      using "1.IH" [OF True, of xs1] "1.prems" len by auto
    have "take (pos + min (i + 8) n) xs1 = take (pos + i) xs @ replicate (min 8 (n - i)) b"
      using True "1.prems"(2) by (auto simp: xs1_def min_def)
    then have "take (pos + n) xs' = take (pos + min i n) xs @ replicate (n - i) b"
      unfolding xs'(3) using True by (simp add: replicate_add [symmetric] min_def)
    moreover have "store_run xs pos i n sv = Ok xs'"
      using True st xs'(1) by (subst store_run.simps) simp
    ultimately show ?thesis using xs'(2) len by auto
  qed
qed

lemma ucast_symbol: "s < 256 \<Longrightarrow> (ucast (of_nat s :: u8) :: u64) = of_nat s"
  by (simp add: word_unat_eq_iff unsigned_ucast_eq unat_of_nat take_bit_nat_eq_self)

lemma lay_runs_correct:
  assumes "sv = of_nat sy * 0x0101010101010101" "sy + length ps \<le> 256"
    and "pos + length (walk_syms sy ps) + 8 \<le> length spread"
  shows "\<exists>spread'. lay_runs ps sv pos spread = Ok spread'
    \<and> take (pos + length (walk_syms sy ps)) spread' = take pos spread @ map of_nat (walk_syms sy ps)"
  using assms
proof (induction ps arbitrary: sy sv pos spread)
  case Nil
  then show ?case by simp
next
  case (Cons p ps)
  have sv: "sv + 0x0101010101010101 = of_nat (sy + 1) * 0x0101010101010101"
    using Cons.prems(1) by (simp add: distrib_right)
  show ?case
  proof (cases "p > 0")
    case False
    then show ?thesis
      using Cons.IH [OF sv, of pos spread] Cons.prems by simp
  next
    case True
    define spread1 where "spread1 = take pos spread @ replicate 8 (of_nat sy) @ drop (pos + 8) spread"
    have le: "u64_to_le_bytes sv = replicate 8 (of_nat sy)"
      using run_word [of "of_nat sy"] Cons.prems(1,2) by (simp add: ucast_symbol)
    have st: "store_u64 spread pos sv = Ok spread1" and len: "length spread1 = length spread"
      using Cons.prems(3) le by (simp_all add: store_u64_Ok spread1_def)
    obtain spread2 where s2: "store_run spread1 pos 8 (nat p) sv = Ok spread2"
      "length spread2 = length spread1"
      "take (pos + nat p) spread2 = take (pos + min 8 (nat p)) spread1 @ replicate (nat p - 8) (of_nat sy)"
      using store_run_correct [OF le, of pos "nat p" spread1 8] Cons.prems(3) True len by auto
    have "take (pos + min 8 (nat p)) spread1 = take pos spread @ replicate (min 8 (nat p)) (of_nat sy)"
      using Cons.prems(3) by (auto simp: spread1_def min_def)
    then have run: "take (pos + nat p) spread2 = take pos spread @ replicate (nat p) (of_nat sy)"
      unfolding s2(3) by (simp add: replicate_add [symmetric] min_def)
    obtain spread' where "lay_runs ps (sv + 0x0101010101010101) (pos + nat p) spread2 = Ok spread'"
      "take (pos + nat p + length (walk_syms (sy + 1) ps)) spread'
        = take (pos + nat p) spread2 @ map of_nat (walk_syms (sy + 1) ps)"
      using Cons.IH [OF sv, of "pos + nat p" spread2] Cons.prems(2,3) s2(2) len by auto
    then show ?thesis using True st s2(1) run by (simp add: add.assoc)
  qed
qed

lemma scatter_correct:
  assumes "k \<le> 2 ^ acc" "even k" "0 < acc" "length owner = 2 ^ acc" "2 ^ acc \<le> length spread"
  shows "scatter (2 ^ acc) spread (orbit acc k) k owner
    = Ok (0, put_list (map (orbit acc) [k..<2 ^ acc]) (drop k (take (2 ^ acc) spread)) owner)"
  using assms
proof (induction "2 ^ acc - k" arbitrary: k owner rule: less_induct)
  case less
  show ?case
  proof (cases "k = 2 ^ acc")
    case True
    then show ?thesis by (subst scatter.simps) simp
  next
    case False
    have "even ((2::nat) ^ acc)" using less.prems(3) by simp
    then have k: "k + 1 < 2 ^ acc" using less.prems(1,2) False
      by (metis Suc_eq_plus1 Suc_leI even_Suc le_neq_implies_less)
    let ?o = "orbit acc" and ?n = "(2::nat) ^ acc"
    let ?owner = "owner[?o k := spread ! k, ?o (Suc k) := spread ! Suc k]"
    have pos: "(?o k + (drop_bit 1 ?n + drop_bit 3 ?n + 3)) AND (?n - 1) = ?o (Suc k)"
      using next_position_orbit [of acc k] by (simp only: next_position_def)
    have "(?o k + 2 * (drop_bit 1 ?n + drop_bit 3 ?n + 3)) AND (?n - 1)
        = take_bit acc (?o k + 2 * spread_step acc)"
      by (simp add: spread_step_def drop_bit_eq_div take_bit_eq_mask mask_eq_exp_minus_1 add.assoc)
    also have "\<dots> = ?o (Suc (Suc k))"
    proof -
      have "Suc (Suc k) * spread_step acc = k * spread_step acc + 2 * spread_step acc" by simp
      then show ?thesis unfolding orbit_def take_bit_eq_mod by (simp only: mod_add_left_eq)
    qed
    finally have pos2: "(?o k + 2 * (drop_bit 1 ?n + drop_bit 3 ?n + 3)) AND (?n - 1) = ?o (k + 2)" by simp
    have run: "scatter ?n spread (?o k) k owner = scatter ?n spread (?o (k + 2)) (k + 2) ?owner"
      using k less.prems(4,5) orbit_less [of acc k] orbit_less [of acc "Suc k"]
      by (subst scatter.simps) (simp only: Let_def pos pos2, simp)
    have "scatter ?n spread (?o (k + 2)) (k + 2) ?owner
      = Ok (0, put_list (map ?o [k + 2..<?n]) (drop (k + 2) (take ?n spread)) ?owner)"
      by (rule less.hyps) (use k less.prems in auto)
    moreover have "[k..<?n] = k # Suc k # [k + 2..<?n]"
      using k by (simp add: upt_conv_Cons)
    moreover have "drop k (take ?n spread) = spread ! k # spread ! Suc k # drop (k + 2) (take ?n spread)"
      using k less.prems(5) by (simp add: Cons_nth_drop_Suc [symmetric])
    ultimately show ?thesis unfolding run by simp
  qed
qed

section \<open>The classic spread\<close>

lemma skip_high_eq:
  assumes "0 < n" "n \<le> 2 ^ 32"
  shows "skip_high fuel (int n - 1) ts i = skip_occupied fuel n ts i"
proof -
  have "nat ((int n - 1) mod 2 ^ 64) = n - 1" using assms by simp
  then have "(i > nat ((int n - 1) mod 2 ^ 64)) = (i \<ge> n)" for i using assms by linarith
  then show ?thesis
    by (induction fuel arbitrary: i) (simp_all only: skip_high.simps skip_occupied.simps)
qed

lemma own_symbol_correct:
  assumes "i \<le> 2 ^ k" "length owner = 2 ^ k" "0 < neg" "neg \<le> 2 ^ k" "k \<le> 32" "orbit k i < neg"
    and "m \<le> length (free_positions neg k i)"
  shows "\<exists>j \<le> 2 ^ k. orbit k j < neg
    \<and> own_symbol sy (int neg - 1) (2 ^ k) m (orbit k i) owner
        = Ok (orbit k j, put_list (take m (free_positions neg k i)) (replicate m (of_nat sy)) owner)
    \<and> free_positions neg k j = drop m (free_positions neg k i)"
  using assms
proof (induction m arbitrary: i owner)
  case 0
  then show ?case by auto
next
  case (Suc m)
  let ?p = "orbit k i" and ?f = "free_positions neg k"
  have "(2::nat) ^ k \<le> 2 ^ 32" using Suc.prems(5) by (intro power_increasing) auto
  then have skip: "skip_high fuel (int neg - 1) ts i = skip_occupied fuel neg ts i" for fuel ts i
    using Suc.prems(3,4) by (intro skip_high_eq) auto
  have i: "i < 2 ^ k" using Suc.prems by (cases "i = 2 ^ k") auto
  then have f: "?f i = ?p # ?f (Suc i)" using Suc.prems by (simp add: free_positions_step)
  obtain j where j: "j \<le> 2 ^ k" "orbit k j < neg" "?f j = ?f (Suc i)"
    "skip_occupied (2 ^ k) neg (2 ^ k) (orbit k (Suc i)) = Some (orbit k j)"
    using skip_occupied_orbit [of neg "Suc i" k "2 ^ k"] i Suc.prems by force
  let ?owner = "owner[?p := of_nat sy]"
  obtain j' where "j' \<le> 2 ^ k" "orbit k j' < neg"
    "own_symbol sy (int neg - 1) (2 ^ k) m (orbit k j) ?owner
      = Ok (orbit k j', put_list (take m (?f j)) (replicate m (of_nat sy)) ?owner)"
    "?f j' = drop m (?f j)"
    using Suc.IH [of j ?owner] Suc.prems j f by auto
  then show ?case
    using f j Suc.prems by (intro exI [of _ j']) (simp add: next_position_orbit skip)
qed

lemma own_symbols_correct:
  assumes "i \<le> 2 ^ k" "length owner = 2 ^ k" "0 < neg" "neg \<le> 2 ^ k" "k \<le> 32" "orbit k i < neg"
    and "length (walk_syms sy ps) \<le> length (free_positions neg k i)"
  shows "own_symbols sy ps (int neg - 1) (2 ^ k) (orbit k i) owner
    = Ok (put_list (free_positions neg k i) (map of_nat (walk_syms sy ps)) owner)"
  using assms
proof (induction ps arbitrary: sy i owner)
  case Nil
  then show ?case by simp
next
  case (Cons p ps)
  show ?case
  proof (cases "p \<le> 0")
    case True
    with Cons show ?thesis by simp
  next
    case False
    let ?f = "free_positions neg k" and ?m = "nat p"
    let ?owner = "put_list (take ?m (?f i)) (replicate ?m (of_nat sy)) owner"
    obtain j where j: "j \<le> 2 ^ k" "orbit k j < neg" "?f j = drop ?m (?f i)"
      "own_symbol sy (int neg - 1) (2 ^ k) ?m (orbit k i) owner = Ok (orbit k j, ?owner)"
      using own_symbol_correct [of i k owner neg ?m sy] Cons.prems by auto
    have "length (walk_syms (sy + 1) ps) \<le> length (?f j)" "length ?owner = 2 ^ k"
      using Cons.prems j(3) by simp_all
    then have "own_symbols (sy + 1) ps (int neg - 1) (2 ^ k) (orbit k j) ?owner
        = Ok (put_list (?f j) (map of_nat (walk_syms (sy + 1) ps)) ?owner)"
      using Cons.IH [of j ?owner "sy + 1"] Cons.prems(3-5) j(1,2) by blast
    moreover have "put_list (?f j) (map of_nat (walk_syms (sy + 1) ps)) ?owner
        = put_list (?f i) (map of_nat (walk_syms sy (p # ps))) owner"
      using put_list_append [of "take ?m (?f i)" "replicate ?m (of_nat sy)" "drop ?m (?f i)"
          "map of_nat (walk_syms (sy + 1) ps)" owner] Cons.prems(7) j(3) by simp
    ultimately show ?thesis using False j by simp
  qed
qed

lemma own_symbols_none:
  "walk_syms sy ps = [] \<Longrightarrow> own_symbols sy ps high n pos owner = Ok owner"
  by (induction ps arbitrary: sy) auto

section \<open>Both paths give the layout\<close>

lemma map_put_list: "map f (put_list ps vs xs) = put_list ps (map f vs) (map f xs)"
  by (induction ps vs xs rule: put_list.induct) (simp_all add: map_update)

lemma put_list_cong:
  assumes "distinct ps" "set ps = {..<n}" "length vs = length ps" "length xs = length ys"
    and "drop n xs = drop n ys" "n \<le> length xs"
  shows "put_list ps vs xs = put_list ps vs ys"
proof (rule nth_equalityI)
  fix i assume "i < length (put_list ps vs xs)"
  then have i: "i < length xs" by simp
  show "put_list ps vs xs ! i = put_list ps vs ys ! i"
  proof (cases "i < n")
    case True
    then have "i \<in> set ps" using assms(2) by simp
    then obtain j where j: "j < length ps" "ps ! j = i" by (auto simp: in_set_conv_nth)
    have "put_list ps vs zs ! (ps ! j) = vs ! j" if "length zs = length xs" for zs
      by (rule put_list_at) (use assms that j in auto)
    then show ?thesis using j(2) assms(4) by metis
  next
    case False
    then have "i \<notin> set ps" using assms(2) by simp
    moreover have "xs ! i = ys ! i"
    proof -
      have "drop n xs ! (i - n) = drop n ys ! (i - n)" using assms(5) by simp
      then show ?thesis using False i assms(4,6) by simp
    qed
    ultimately show ?thesis by (simp add: put_list_other)
  qed
qed (use assms in simp)

lemma set_walk_syms: "set (walk_syms sy ps) \<subseteq> {sy..<sy + length ps}"
  by (induction ps arbitrary: sy) (auto, fastforce+)

lemma set_neg_syms: "set (neg_syms sy ps) \<subseteq> {sy..<sy + length ps}"
  by (induction ps arbitrary: sy) (auto, fastforce+)

lemma map_unat_of_nat:
  assumes "set xs \<subseteq> {..<256}"
  shows "map unat (map of_nat xs :: u8 list) = xs"
  using assms by (intro nth_equalityI) (auto simp: unat_of_nat take_bit_nat_eq_self subset_iff)

lemma owners_correct:
  assumes v: "dist_valid acc ps" and acc: "acc \<le> 12"
    and len: "length owner = 2 ^ acc" "length spread = 2 ^ acc + 8"
  defines "ns \<equiv> neg_syms 0 ps"
  defines "neg \<equiv> 2 ^ acc - length ns"
  shows "\<exists>ow. (if int neg - 1 = int (2 ^ acc) - 1 \<and> (2::nat) ^ acc > 1 then
        rbind (lay_runs ps 0 0 spread) (\<lambda>spread.
        rbind (scatter (2 ^ acc) spread 0 0 (take neg owner @ rev (map of_nat ns))) (\<lambda>(position, owner).
        rbind (rassert (position = 0)) (\<lambda>_. Ok owner)))
      else own_symbols 0 ps (int neg - 1) (2 ^ acc) 0 (take neg owner @ rev (map of_nat ns))) = Ok ow
    \<and> map unat ow = layout acc ps"
proof -
  let ?ws = "walk_syms 0 ps" and ?f = "free_positions neg acc 0"
  let ?ow = "take neg owner @ rev (map of_nat ns)"
  have l256: "length ps \<le> 256" and acc4: "4 \<le> acc" using v by (simp_all add: dist_valid_def)
  have "int (length ?ws + length ns) = int (2 ^ acc)"
    using v length_syms [of ps 0] unfolding ns_def dist_valid_def by simp
  then have tot: "length ?ws + length ns = 2 ^ acc" by (simp only: of_nat_eq_iff)
  have neg: "neg \<le> 2 ^ acc" "length ?ws = neg" "length ?ow = 2 ^ acc"
    using tot len(1) by (simp_all add: neg_def)
  note free = length_free_positions [OF acc4 neg(1)] set_free_positions [OF acc4 neg(1)]
    distinct_free_positions [OF acc4, of neg]
  have set256: "set ?ws \<subseteq> {..<256}" "set (rev ns) \<subseteq> {..<256}"
    using set_walk_syms [of 0 ps] set_neg_syms [of 0 ps] l256 by (auto simp: ns_def)
  let ?res = "put_list ?f (map of_nat ?ws) ?ow"
  have "map unat ?res = put_list ?f (map unat (map of_nat ?ws :: u8 list)) (map unat ?ow)"
    by (rule map_put_list)
  also have "\<dots> = put_list ?f ?ws (map unat (take neg owner) @ rev ns)"
    using map_unat_of_nat [OF set256(1)] map_unat_of_nat [OF set256(2)] by (simp add: rev_map)
  also have "\<dots> = put_list ?f ?ws (replicate neg 0 @ rev ns)"
    by (rule put_list_cong [of _ neg]) (use free neg len(1) in auto)
  also have "\<dots> = layout acc ps" by (simp add: layout_def ns_def neg_def Let_def)
  finally have res: "map unat ?res = layout acc ps" .
  show ?thesis
  proof (cases "int neg - 1 = int (2 ^ acc) - 1 \<and> (2::nat) ^ acc > 1")
    case True
    then have full: "neg = 2 ^ acc" by (simp flip: of_nat_power)
    then have none: "ns = []" using tot neg(2) by simp
    have f: "?f = map (orbit acc) [0..<2 ^ acc]"
      by (simp add: free_positions_def full)
    obtain spread' where lay: "lay_runs ps 0 0 spread = Ok spread'"
      "take (2 ^ acc) spread' = map of_nat ?ws"
      using lay_runs_correct [of 0 0 ps 0 spread] l256 len(2) neg(2) full by auto
    have "2 ^ acc \<le> length spread'"
      using arg_cong [OF lay(2), of length] neg(2) full by simp
    then have "scatter (2 ^ acc) spread' (orbit acc 0) 0 ?ow = Ok (0, ?res)"
      using scatter_correct [of 0 acc ?ow spread'] acc4 neg(3) lay(2) f by simp
    then have "rbind (lay_runs ps 0 0 spread) (\<lambda>spread.
        rbind (scatter (2 ^ acc) spread 0 0 ?ow) (\<lambda>(position, owner).
        rbind (rassert (position = 0)) (\<lambda>_. Ok owner))) = Ok ?res"
      using lay(1) by (simp add: rbind_rassert)
    then show ?thesis unfolding if_P [OF True] using res by blast
  next
    case False
    have "own_symbols 0 ps (int neg - 1) (2 ^ acc) 0 ?ow = Ok ?res"
    proof (cases "neg = 0")
      case True
      then show ?thesis using own_symbols_none [of 0 ps] neg(2) by simp
    next
      case False
      then show ?thesis
        using own_symbols_correct [of 0 acc ?ow neg 0 ps] neg free(1) acc by simp
    qed
    then show ?thesis unfolding if_not_P [OF False] using res by blast
  qed
qed

section \<open>The state table\<close>

lemma layout_facts:
  assumes "dist_valid acc ps"
  shows "length (layout acc ps) = 2 ^ acc" "count_list (layout acc ps) s = weight ps s"
proof -
  let ?t = "(ft_new 255)\<lparr>ft_accuracy_log := acc, ft_symbol_probabilities := ps\<rparr>"
  have "length (ft_symbol_probabilities ?t) \<le> ft_max_symbol ?t + 1"
    "dist_valid (ft_accuracy_log ?t) (ft_symbol_probabilities ?t)"
    using assms by (simp_all add: ft_new_def dist_valid_def)
  from build_table_exists [OF this(2,1)]
  obtain t' :: FSETable where "table_for (ft_accuracy_log ?t) (ft_symbol_probabilities ?t) (ft_decode t')" by blast
  then have "table_for acc ps (ft_decode t')" by simp
  then have "length (ft_decode t') = 2 ^ acc" "map symbol (ft_decode t') = layout acc ps"
    "count_list (map symbol (ft_decode t')) s = weight ps s"
    unfolding table_for_def by blast+
  then show "length (layout acc ps) = 2 ^ acc" "count_list (layout acc ps) s = weight ps s"
    by (metis length_map)+
qed

lemma cum_all:
  assumes "dist_valid acc ps" shows "cum ps (length ps) = 2 ^ acc"
proof -
  have "int (cum ps (length ps)) = int (2 ^ acc)"
    using assms cum_total [of ps] by (simp add: dist_valid_def)
  then show ?thesis by (simp only: of_nat_eq_iff)
qed

lemma cum_le: "dist_valid acc ps \<Longrightarrow> s \<le> length ps \<Longrightarrow> cum ps s \<le> 2 ^ acc"
  using cum_mono [of s "length ps" ps] cum_all [of acc ps] by simp

text \<open>The slot of position \<open>i\<close> in the state table.\<close>

definition slot :: "int list \<Rightarrow> nat list \<Rightarrow> nat \<Rightarrow> nat" where
  "slot ps lay i = cum ps (lay ! i) + count_list (take i lay) (lay ! i)"

lemma rank_less:
  assumes "\<And>s. count_list lay s = weight ps s" "i < length lay"
  shows "count_list (take i lay) (lay ! i) < weight ps (lay ! i)"
  using count_list_take_less [of i "length lay" lay] assms by simp

lemma slot_bounds:
  assumes "\<And>s. count_list lay s = weight ps s" "i < length lay"
  shows "cum ps (lay ! i) \<le> slot ps lay i" "slot ps lay i < cum ps (Suc (lay ! i))"
    "lay ! i < length ps" "slot ps lay i < cum ps (length ps)"
proof -
  note r = rank_less [OF assms]
  show "cum ps (lay ! i) \<le> slot ps lay i" by (simp add: slot_def)
  show less: "slot ps lay i < cum ps (Suc (lay ! i))" using r by (simp add: slot_def cum_Suc)
  show s: "lay ! i < length ps" using r by (cases "lay ! i < length ps") (auto simp: weight_def)
  then show "slot ps lay i < cum ps (length ps)"
    using less cum_mono [of "Suc (lay ! i)" "length ps" ps] by simp
qed

lemma slot_inj:
  assumes c: "\<And>s. count_list lay s = weight ps s" and ij: "i < length lay" "j < length lay"
    and eq: "slot ps lay i = slot ps lay j"
  shows "i = j"
proof -
  note bi = slot_bounds [of lay ps i, OF c ij(1)] and bj = slot_bounds [of lay ps j, OF c ij(2)]
  have s: "lay ! i = lay ! j"
  proof (rule ccontr)
    assume "lay ! i \<noteq> lay ! j"
    then have "Suc (lay ! i) \<le> lay ! j \<or> Suc (lay ! j) \<le> lay ! i" by linarith
    then show False using bi bj eq cum_mono [of "Suc (lay ! i)" "lay ! j" ps]
        cum_mono [of "Suc (lay ! j)" "lay ! i" ps] by linarith
  qed
  have "\<not> a < b" if "a < length lay" "b < length lay" "lay ! a = lay ! b"
      "count_list (take a lay) (lay ! a) = count_list (take b lay) (lay ! b)" for a b
    using count_list_take_less [of a b lay] that by auto
  then show ?thesis using ij s eq unfolding slot_def by (metis add_left_cancel linorder_neqE_nat)
qed

lemma state_walk_correct:
  assumes "\<And>s. count_list lay s = weight ps s" "lay = map unat ow"
    and "u \<le> length lay" "length lay \<le> length st" "cum ps (length ps) = length lay"
    and "ts + length lay \<le> 2 ^ 13" "length ps \<le> length start"
    and "\<And>s. 0 < weight ps s \<Longrightarrow> start ! s = cum ps s + count_list (take u lay) s"
  shows "\<exists>start' st'. state_walk ts u (drop u ow) start st = Ok (start', st') \<and> length st' = length st
    \<and> length start' = length start
    \<and> (\<forall>i. u \<le> i \<and> i < length lay \<longrightarrow> st' ! slot ps lay i = ts + i)
    \<and> (\<forall>j. j \<notin> slot ps lay ` {u..<length lay} \<longrightarrow> st' ! j = st ! j)"
  using assms(3-)
proof (induction "length lay - u" arbitrary: u start st)
  case 0
  then show ?case using assms(2) by auto
next
  case (Suc k)
  have u: "u < length lay" using Suc.hyps(2) by simp
  let ?s = "lay ! u"
  note b = slot_bounds [of lay ps u, OF assms(1) u]
  have w: "0 < weight ps ?s" using rank_less [of lay ps u, OF assms(1) u] by simp
  then have st_s: "start ! ?s = slot ps lay u" using Suc.prems(6) by (simp add: slot_def)
  have sl: "slot ps lay u < length st" "slot ps lay u + 1 < 65536" "slot ps lay u < length lay"
    using b(4) Suc.prems by auto
  have d: "drop u ow = ow ! u # drop (Suc u) ow" using u assms(2) by (simp add: Cons_nth_drop_Suc)
  have su: "unat (ow ! u) = ?s" using u assms(2) by simp
  let ?start = "start[?s := slot ps lay u + 1]" and ?st = "st[slot ps lay u := ts + u]"
  have "?s < length start" using b(3) Suc.prems(5) by simp
  then have run: "state_walk ts u (drop u ow) start st = state_walk ts (Suc u) (drop (Suc u) ow) ?start ?st"
    using d su st_s sl u Suc.prems(4) by (simp add: rbind_rassert)
  have "\<exists>start' st'. state_walk ts (Suc u) (drop (Suc u) ow) ?start ?st = Ok (start', st') \<and> length st' = length ?st
    \<and> length start' = length ?start
    \<and> (\<forall>i. Suc u \<le> i \<and> i < length lay \<longrightarrow> st' ! slot ps lay i = ts + i)
    \<and> (\<forall>j. j \<notin> slot ps lay ` {Suc u..<length lay} \<longrightarrow> st' ! j = ?st ! j)"
  proof (rule Suc.hyps(1))
    fix s assume s: "0 < weight ps s"
    then have "s < length start" using Suc.prems(5) by (auto simp: weight_def split: if_splits)
    then show "?start ! s = cum ps s + count_list (take (Suc u) lay) s"
      using Suc.prems(6) [OF s] u st_s by (cases "s = ?s") (auto simp: count_list_take_Suc)
  qed (use Suc u in auto)
  then obtain start' st' where IH: "state_walk ts (Suc u) (drop (Suc u) ow) ?start ?st = Ok (start', st')"
    "length st' = length st" "length start' = length start"
    "\<And>i. Suc u \<le> i \<Longrightarrow> i < length lay \<Longrightarrow> st' ! slot ps lay i = ts + i"
    "\<And>j. j \<notin> slot ps lay ` {Suc u..<length lay} \<Longrightarrow> st' ! j = ?st ! j"
    by auto
  have nin: "slot ps lay u \<notin> slot ps lay ` {Suc u..<length lay}"
    using slot_inj [of lay ps u, OF assms(1) u] by fastforce
  have "st' ! slot ps lay i = ts + i" if "u \<le> i" "i < length lay" for i
  proof (cases "i = u")
    case True
    then show ?thesis using IH(5) [OF nin] sl by simp
  next
    case False
    then show ?thesis using IH(4) that by simp
  qed
  moreover have "st' ! j = st ! j" if "j \<notin> slot ps lay ` {u..<length lay}" for j
  proof -
    have "j \<notin> slot ps lay ` {Suc u..<length lay}" "j \<noteq> slot ps lay u" using that u by auto
    then show ?thesis using IH(5) by simp
  qed
  ultimately show ?case unfolding run using IH(1-3) by auto
qed

section \<open>The transform entries\<close>

lemma weight_nth: "s < length ps \<Longrightarrow> weight ps s = nat \<bar>ps ! s\<bar>"
  by (simp add: weight_def)

lemma transform_entry_Ok:
  assumes "-1 \<le> p" "p \<le> 2 ^ acc" "acc \<le> 12"
  shows "\<exists>e. transform_entry acc ts p tot = Ok e"
proof (cases "p = 0 \<or> p = 1 \<or> p = -1")
  case True
  then show ?thesis by (auto simp: transform_entry_def)
next
  case False
  have "(2::int) ^ acc \<le> 2 ^ 12" using assms(3) by (intro power_increasing) auto
  then have u: "as_u32 p = nat p" using False assms(1,2) by (intro as_u32_small) auto
  have "clog2 (nat p) \<le> acc"
    using False assms(1,2) by (intro clog2_le) (auto simp: nat_le_iff)
  then have "(if 2 ^ ilog2 (nat p) = nat p then ilog2 (nat p) else ilog2 (nat p) + 1) \<le> acc"
    by (simp add: clog2_def split: if_splits)
  then show ?thesis using False by (simp add: transform_entry_def u rbind_rassert Let_def)
qed

lemma transform_correct:
  assumes "\<forall>p \<in> set ps. -1 \<le> p \<and> p \<le> 2 ^ acc" "acc \<le> 12"
    and "tot + cum ps (length ps) \<le> length st" "length st \<le> 2 ^ 13"
    and "sy + length ps \<le> length tt" "sy + length ps \<le> length start"
  shows "\<exists>tt' start'. transform acc ts sy ps tot st tt start = Ok (tt', start')
    \<and> length tt' = length tt \<and> length start' = length start
    \<and> (\<forall>i < sy. tt' ! i = tt ! i \<and> start' ! i = start ! i)
    \<and> (\<forall>s < length ps. transform_entry acc ts (ps ! s) (tot + cum ps s) = Ok (tt' ! (sy + s))
        \<and> (ps ! s \<noteq> 0 \<longrightarrow> start' ! (sy + s) = st ! (tot + cum ps s)))"
  using assms
proof (induction ps arbitrary: sy tot tt start)
  case Nil
  then show ?case by simp
next
  case (Cons p ps)
  have p: "-1 \<le> p" "p \<le> 2 ^ acc" using Cons.prems(1) by auto
  have c: "cum (p # ps) (length (p # ps)) = nat \<bar>p\<bar> + cum ps (length ps)" by (simp add: cum_Cons_Suc)
  have "(2::int) ^ acc \<le> 2 ^ 12" using Cons.prems(2) by (intro power_increasing) auto
  then have u: "(if p = -1 then 1 else as_u32 p) = nat \<bar>p\<bar>"
    using as_u32_small [of p] p by auto
  obtain e where e: "transform_entry acc ts p tot = Ok e"
    using transform_entry_Ok [OF p Cons.prems(2)] by blast
  define start1 where "start1 = (if p \<noteq> 0 then start[sy := st ! tot] else start)"
  have len1: "length start1 = length start" by (simp add: start1_def)
  have live: "tot < length st" if "p \<noteq> 0" using that Cons.prems(3) c by auto
  have "tot + nat \<bar>p\<bar> < 2 ^ 32" using Cons.prems(3,4) c by simp
  then have run: "transform acc ts sy (p # ps) tot st tt start
      = transform acc ts (sy + 1) ps (tot + nat \<bar>p\<bar>) st (tt[sy := e]) start1"
    using e live u by (simp add: rbind_rassert Let_def start1_def)
  obtain tt' start' where IH: "transform acc ts (sy + 1) ps (tot + nat \<bar>p\<bar>) st (tt[sy := e]) start1 = Ok (tt', start')"
    "length tt' = length tt" "length start' = length start"
    "\<And>i. i < sy + 1 \<Longrightarrow> tt' ! i = tt[sy := e] ! i \<and> start' ! i = start1 ! i"
    "\<And>s. s < length ps \<Longrightarrow> transform_entry acc ts (ps ! s) (tot + nat \<bar>p\<bar> + cum ps s) = Ok (tt' ! (sy + 1 + s))
        \<and> (ps ! s \<noteq> 0 \<longrightarrow> start' ! (sy + 1 + s) = st ! (tot + nat \<bar>p\<bar> + cum ps s))"
    using Cons.IH [of "tot + nat \<bar>p\<bar>" "sy + 1" "tt[sy := e]" start1] Cons.prems c len1 by auto
  have "transform_entry acc ts ((p # ps) ! s) (tot + cum (p # ps) s) = Ok (tt' ! (sy + s))
        \<and> ((p # ps) ! s \<noteq> 0 \<longrightarrow> start' ! (sy + s) = st ! (tot + cum (p # ps) s))"
    if s: "s < length (p # ps)" for s
  proof (cases s)
    case 0
    then show ?thesis using IH(4) [of sy] e Cons.prems(5,6) by (simp add: start1_def)
  next
    case (Suc i)
    then show ?thesis using IH(5) [of i] s by (simp add: cum_Cons_Suc add.assoc)
  qed
  moreover have "tt' ! i = tt ! i \<and> start' ! i = start ! i" if "i < sy" for i
    using IH(4) [of i] that by (auto simp: start1_def)
  ultimately show ?case unfolding run using IH(1-3) by auto
qed

section \<open>One step\<close>

lemma entry_halves:
  "(ucast (ucast (a :: u32) OR push_bit 32 (ucast (b :: u32)) :: u64) :: u32) = a"
  "(ucast (drop_bit 32 (ucast a OR push_bit 32 (ucast b) :: u64)) :: u32) = b"
  by (rule bit_word_eqI; auto simp: bit_ucast_iff bit_or_iff bit_push_bit_iff bit_drop_bit_eq
      dest: bit_imp_le_length)+

text \<open>The bit count: the carry of \<open>delta_nb_bits\<close> into the upper half.\<close>

lemma nb_of_delta:
  assumes X: "X < 2 ^ 13" and p: "p * 2 ^ (n + 1) < 2 ^ 14" and n: "n < 13"
  shows "unat (drop_bit 16 (of_nat X + (push_bit 16 (of_nat (n + 1)) - push_bit (n + 1) (of_nat p)) :: u32))
    = (if p * 2 ^ (n + 1) \<le> X then n + 1 else n)"
proof -
  define q where "q = p * 2 ^ (n + 1)"
  define V where "V = X + (n + 1) * 2 ^ 16 - q"
  have q: "q < 16384" using p by (simp add: q_def)
  then have le: "q \<le> (n + 1) * 65536" by simp
  have "(of_nat X + (push_bit 16 (of_nat (n + 1)) - push_bit (n + 1) (of_nat p)) :: u32)
      = of_nat X + of_nat ((n + 1) * 2 ^ 16) - of_nat q"
    by (simp add: push_bit_eq_mult q_def)
  also have "\<dots> = of_nat V"
    using le by (simp add: V_def of_nat_diff trans_le_add2)
  finally have w: "(of_nat X + (push_bit 16 (of_nat (n + 1)) - push_bit (n + 1) (of_nat p)) :: u32) = of_nat V" .
  have "V < 2 ^ 32" using X n by (simp add: V_def)
  then have u: "unat (of_nat V :: u32) = V" by (simp add: unat_of_nat take_bit_nat_eq_self)
  have "V div 65536 = (if q \<le> X then n + 1 else n)"
  proof (cases "q \<le> X")
    case True
    then have "V = (X - q) + (n + 1) * 65536" "X - q < 65536" using X by (simp_all add: V_def)
    then show ?thesis using True by simp
  next
    case False
    then have "V = (65536 - (q - X)) + n * 65536" "65536 - (q - X) < 65536"
      using q by (simp_all add: V_def)
    then show ?thesis using False by simp
  qed
  then show ?thesis unfolding w unat_drop_bit_div u q_def by simp
qed

text \<open>What an encoding table must do, in terms of the layout it shares with the decoder.\<close>

definition enc_table_for :: "nat \<Rightarrow> int list \<Rightarrow> EncTable \<Rightarrow> bool" where
  "enc_table_for acc ps t \<longleftrightarrow> et_table_size t = 2 ^ acc \<and> et_nsym t = length ps
     \<and> take (length ps) (fh_probs (et_head t)) = ps
     \<and> (\<forall>s. 0 < weight ps s \<longrightarrow>
          (\<exists>i < 2 ^ acc. layout acc ps ! i = s \<and> count_list (take i (layout acc ps)) s = 0
             \<and> start_index t s = Ok (of_nat (2 ^ acc + i)))
        \<and> (\<forall>X. 2 ^ acc \<le> X \<and> X < 2 * 2 ^ acc \<longrightarrow>
             (\<exists>i < 2 ^ acc. layout acc ps ! i = s
               \<and> count_list (take i (layout acc ps)) s = enc_idx acc (weight ps s) X
               \<and> enc_step t s (of_nat X) = Ok (enc_nb acc (weight ps s) X,
                   of_nat (X mod 2 ^ enc_nb acc (weight ps s) X), of_nat (2 ^ acc + i)))))"

lemma unat_u32: "X < 2 ^ 32 \<Longrightarrow> unat (of_nat X :: u32) = X"
  by (simp add: unat_of_nat take_bit_nat_eq_self)

lemma clog2_eq: "(if 2 ^ ilog2 p = p then ilog2 p else ilog2 p + 1) = clog2 p"
  by (simp add: clog2_def)

text \<open>Both halves of an entry, read with the state \<open>X\<close>.\<close>

lemma transform_entry_nb:
  assumes e: "transform_entry acc (2 ^ acc) p tot = Ok e" and p: "p \<noteq> 0" "-1 \<le> p" "p \<le> 2 ^ acc"
    and acc: "1 \<le> acc" "acc \<le> 12" and X: "2 ^ acc \<le> X" "X < 2 * 2 ^ acc"
  shows "unat (drop_bit 16 (of_nat X + ucast e :: u32)) = enc_nb acc (nat \<bar>p\<bar>) X"
    and "ucast (drop_bit 32 e) = (of_nat tot - of_nat (nat \<bar>p\<bar>) :: u32)"
proof -
  have pow: "(2::nat) ^ acc \<le> 2 ^ 12" using acc(2) by (intro power_increasing) auto
  then have X13: "X < 2 ^ 13" using X(2) by simp
  show "unat (drop_bit 16 (of_nat X + ucast e :: u32)) = enc_nb acc (nat \<bar>p\<bar>) X"
  proof (cases "p = 1 \<or> p = -1")
    case True
    then have "ucast e = (push_bit 16 (of_nat acc) - of_nat (2 ^ acc) :: u32)"
      using e p(1) by (auto simp: transform_entry_def entry_halves)
    also have "\<dots> = push_bit 16 (of_nat ((acc - 1) + 1)) - push_bit ((acc - 1) + 1) (of_nat 1)"
      using acc(1) by (simp add: push_bit_eq_mult)
    finally have "unat (drop_bit 16 (of_nat X + ucast e :: u32)) = (if 1 * 2 ^ (acc - 1 + 1) \<le> X then acc - 1 + 1 else acc - 1)"
      using nb_of_delta [OF X13, of 1 "acc - 1"] acc pow by simp
    also have "\<dots> = enc_nb acc 1 X"
      using X acc(1) by (simp add: enc_nb_def clog2_def ilog2.simps)
    finally show ?thesis using True by auto
  next
    case False
    define q where "q = nat p"
    have q: "nat \<bar>p\<bar> = q" "0 < q" "q \<le> 2 ^ acc" using False p by (auto simp: q_def nat_le_iff)
    have "(2::int) ^ acc \<le> 2 ^ 12" using acc(2) by (intro power_increasing) auto
    then have u: "as_u32 p = q" unfolding q_def using False p by (intro as_u32_small) auto
    have cl: "clog2 q \<le> acc" using clog2_le [OF q(2,3)] .
    have "ucast e = (push_bit 16 (of_nat (acc - clog2 q + 1)) - push_bit (acc - clog2 q + 1) (of_nat q) :: u32)"
      using e p(1) False cl
      by (auto simp: transform_entry_def entry_halves u Let_def clog2_eq rbind_rassert)
    moreover have "q * 2 ^ (acc - clog2 q + 1) < 2 ^ 14"
    proof -
      have "q \<le> 2 ^ clog2 q" using clog2_bounds [OF q(2)] by simp
      then have "q * 2 ^ (acc - clog2 q) \<le> 2 ^ clog2 q * 2 ^ (acc - clog2 q)" by (rule mult_le_mono1)
      also have "\<dots> = 2 ^ acc" using cl by (simp flip: power_add)
      finally show ?thesis using pow by simp
    qed
    ultimately have "unat (drop_bit 16 (of_nat X + ucast e :: u32))
        = (if q * 2 ^ (acc - clog2 q + 1) \<le> X then acc - clog2 q + 1 else acc - clog2 q)"
      using nb_of_delta [OF X13, of q "acc - clog2 q"] acc(2) by simp
    then show ?thesis unfolding q(1) by (simp add: enc_nb_def)
  qed
  show "ucast (drop_bit 32 e) = (of_nat tot - of_nat (nat \<bar>p\<bar>) :: u32)"
  proof (cases "p = 1 \<or> p = -1")
    case True
    then show ?thesis using e p(1) by (auto simp: transform_entry_def entry_halves simp del: drop_bit_or)
  next
    case False
    have "(2::int) ^ acc \<le> 2 ^ 12" using acc(2) by (intro power_increasing) auto
    then have u: "as_u32 p = nat \<bar>p\<bar>" using False p by (subst as_u32_small) auto
    have "transform_entry acc (2 ^ acc) p tot = Ok e" by (rule e)
    then show ?thesis using p(1) False
      by (auto simp: transform_entry_def entry_halves u Let_def rbind_eq_Ok simp del: drop_bit_or)
  qed
qed

lemma build_table_body_correct:
  assumes v: "dist_valid acc ps" and acc: "acc \<le> 12"
    and bufs: "2 ^ acc \<le> length owner" "2 ^ acc + 8 \<le> length spread" "2 ^ acc \<le> length st"
      "length (fh_tt head) = 256" "length (fh_start head) = 256"
  shows "\<exists>t. build_table_body ps acc owner spread head st = Ok t \<and> enc_table_for acc ps t"
proof -
  define ns neg lay where "ns = neg_syms 0 ps" and "neg = 2 ^ acc - length ns" and "lay = layout acc ps"
  let ?n = "(2::nat) ^ acc" and ?owner = "take (2 ^ acc) owner" and ?spread = "take (2 ^ acc + 8) spread"
    and ?st = "take (2 ^ acc) st"
  have acc1: "5 \<le> acc" "length ps \<le> 256" "\<forall>p \<in> set ps. -1 \<le> p" "sum_list (map abs ps) = 2 ^ acc"
    using v by (simp_all add: dist_valid_def)
  have pow: "?n \<le> 4096" "(2::int) ^ acc \<le> 4096"
    using power_increasing [OF acc, of "2::nat"] power_increasing [OF acc, of "2::int"] by simp_all
  have pn: "nat (2 ^ acc) = ?n" by (simp add: nat_power_eq)
  have "int (length (walk_syms 0 ps) + length ns) = int ?n"
    using length_syms [of ps 0] acc1 by (simp add: ns_def)
  then have nsl: "length ns \<le> ?n" by linarith
  obtain start1 where rows: "row_starts 0 ps 0 (int ?n - 1) (fh_start head) ?owner
      = Ok (?n, int neg - 1, start1, take neg ?owner @ rev (map of_nat ns))"
    and start1: "start1 = start_rows 0 ps 0 (fh_start head)"
    using row_starts_correct [of ps 0 0 ?n ?owner "fh_start head"] acc1 pow nsl bufs(1) pn
    by (simp add: ns_def neg_def)
  obtain ow where owners: "(if int neg - 1 = int ?n - 1 \<and> ?n > 1 then
        rbind (lay_runs ps 0 0 ?spread) (\<lambda>spread.
        rbind (scatter ?n spread 0 0 (take neg ?owner @ rev (map of_nat ns))) (\<lambda>(position, owner).
        rbind (rassert (position = 0)) (\<lambda>_. Ok owner)))
      else own_symbols 0 ps (int neg - 1) ?n 0 (take neg ?owner @ rev (map of_nat ns))) = Ok ow"
    and ow: "lay = map unat ow"
    using owners_correct [OF v acc, of ?owner ?spread] bufs(1,2)
    unfolding ns_def neg_def lay_def by auto
  have len: "length lay = ?n" and cnt: "\<And>s. count_list lay s = weight ps s"
    using layout_facts [OF v] by (simp_all add: lay_def)
  have live: "start1 ! s = cum ps s" if "0 < weight ps s" for s
  proof -
    have "s < length ps" "ps ! s \<noteq> 0" using that by (auto simp: weight_def split: if_splits)
    then show ?thesis using start_rows_nth [of s ps 0 "fh_start head" 0] acc1(2) bufs(5) by (simp add: start1)
  qed
  obtain start2 st2 where walk: "state_walk ?n 0 ow start1 ?st = Ok (start2, st2)"
    "length st2 = ?n" "length start2 = 256" "\<And>i. i < ?n \<Longrightarrow> st2 ! slot ps lay i = ?n + i"
    using state_walk_correct [of lay ps ow 0 ?st ?n start1, OF cnt ow] len live acc1(2) bufs(3,5) cum_all [OF v] pow
    by (auto simp: start1)
  have le: "p \<le> 2 ^ acc" if "p \<in> set ps" for p
  proof -
    obtain s where "s < length ps" "p = ps ! s" using \<open>p \<in> set ps\<close> by (auto simp: in_set_conv_nth)
    then show ?thesis using weight_le [OF v, of s] by (simp add: weight_def nat_le_iff)
  qed
  obtain tt2 start3 where trans: "transform acc ?n 0 ps 0 st2 (fh_tt head) start2 = Ok (tt2, start3)"
    "length tt2 = 256" "length start3 = 256"
    and entries: "\<And>s. s < length ps \<Longrightarrow> transform_entry acc ?n (ps ! s) (cum ps s) = Ok (tt2 ! s)
        \<and> (ps ! s \<noteq> 0 \<longrightarrow> start3 ! s = st2 ! cum ps s)"
    using transform_correct [of ps acc 0 st2 0 "fh_tt head" start2 ?n] acc le acc1 cum_all [OF v] walk(2,3) bufs(4) pow
    by auto
  define t where "t = \<lparr>et_table_size = ?n, et_nsym = length ps,
    et_head = \<lparr>fh_tt = tt2, fh_probs = ps @ drop (length ps) (fh_probs head), fh_start = start3\<rparr>, et_st = st2\<rparr>"
  have run: "build_table_body ps acc owner spread head st = Ok t"
    by (simp only: build_table_body_def Let_def push_bit_eq_mult mult_1 acc bufs acc1(2) simp_thms rassert_simps
        rbind.simps rows prod.case owners walk(1) trans(1) t_def)
  have first: "\<exists>i < ?n. lay ! i = s \<and> count_list (take i lay) s = c \<and> st2 ! (cum ps s + c) = ?n + i"
    if c: "c < weight ps s" for s c
  proof -
    obtain i where "i < ?n" "lay ! i = s" "count_list (take i lay) s = c"
      using count_list_position [of c lay s] c cnt len by auto
    then show ?thesis using walk(4) [of i] by (auto simp: slot_def)
  qed
  have spec: "(\<exists>i < ?n. lay ! i = s \<and> count_list (take i lay) s = 0 \<and> start_index t s = Ok (of_nat (?n + i)))
      \<and> (\<forall>X. ?n \<le> X \<and> X < 2 * ?n \<longrightarrow> (\<exists>i < ?n. lay ! i = s
          \<and> count_list (take i lay) s = enc_idx acc (weight ps s) X
          \<and> enc_step t s (of_nat X) = Ok (enc_nb acc (weight ps s) X,
               of_nat (X mod 2 ^ enc_nb acc (weight ps s) X), of_nat (?n + i))))"
    if w: "0 < weight ps s" for s
  proof (intro conjI allI impI)
    have s: "s < length ps" "ps ! s \<noteq> 0" "s < 256"
      using w acc1(2) by (auto simp: weight_def split: if_splits)
    show "\<exists>i < ?n. lay ! i = s \<and> count_list (take i lay) s = 0 \<and> start_index t s = Ok (of_nat (?n + i))"
      using first [OF w] entries [OF s(1)] s trans(3) by (auto simp: start_index_def t_def)
    fix X assume X: "?n \<le> X \<and> X < 2 * ?n"
    let ?p = "weight ps s"
    define nb where "nb = enc_nb acc ?p X"
    note p = w weight_le [OF v, of s]
    note E = enc_state_correct [OF p conjunct1 [OF X] conjunct2 [OF X]]
    have ps_s: "-1 \<le> ps ! s" "ps ! s \<le> 2 ^ acc" "?p = nat \<bar>ps ! s\<bar>"
      using s(1) acc1(3) le by (auto simp: weight_nth)
    note T = transform_entry_nb [OF conjunct1 [OF entries [OF s(1)]] s(2) ps_s(1,2) _ acc conjunct1 [OF X] conjunct2 [OF X],
        folded ps_s(3)]
    obtain i where i: "i < ?n" "lay ! i = s" "count_list (take i lay) s = enc_idx acc ?p X"
      "st2 ! (cum ps s + enc_idx acc ?p X) = ?n + i"
      using first [OF E(1)] by blast
    have nb: "nb < 32" using acc by (auto simp: nb_def enc_nb_def)
    have X13: "X < 2 ^ 32" using X pow by simp
    have emit: "of_nat X AND (push_bit nb 1 - 1) = (of_nat (X mod 2 ^ nb) :: u32)"
    proof -
      have "of_nat X AND (push_bit nb 1 - 1) = take_bit nb (of_nat X :: u32)"
        by (simp add: take_bit_eq_mask mask_eq_exp_minus_1)
      also have "\<dots> = of_nat (take_bit nb X)" by (simp add: of_nat_take_bit)
      finally show ?thesis by (simp add: take_bit_eq_mod)
    qed
    have cl: "cum ps s + enc_idx acc ?p X < ?n"
      using E(1) cum_Suc [of ps s] cum_le [OF v, of "Suc s"] s(1) by linarith
    have "drop_bit nb (of_nat X :: u32) = of_nat (X div 2 ^ nb)"
      using unat_u32 [OF le_less_trans [OF div_le_dividend X13]]
      by (simp only: word_unat_eq_iff unat_drop_bit_div unat_u32 [OF X13])
    then have at: "drop_bit nb (of_nat X) + ucast (drop_bit 32 (tt2 ! s)) = (of_nat (cum ps s + enc_idx acc ?p X) :: u32)"
      using T(2) E(4) acc1(1) by (simp add: nb_def)
    have "cum ps s + enc_idx acc ?p X < 2 ^ 32" using cl pow(1) by simp
    note unat_u32 [OF this]
    then have idx: "unat (drop_bit nb (of_nat X) + ucast (drop_bit 32 (tt2 ! s)) :: u32) = cum ps s + enc_idx acc ?p X"
      by (simp only: at)
    have "enc_step t s (of_nat X) = Ok (nb, of_nat (X mod 2 ^ nb), of_nat (?n + i))"
      unfolding enc_step_def using s(3) trans(2) T(1) acc1(1) nb emit idx i(4) cl walk(2)
      by (simp add: t_def rbind_rassert nb_def [symmetric] Let_def)
    then show "\<exists>i < ?n. lay ! i = s \<and> count_list (take i lay) s = enc_idx acc ?p X
        \<and> enc_step t s (of_nat X) = Ok (enc_nb acc ?p X, of_nat (X mod 2 ^ enc_nb acc ?p X), of_nat (?n + i))"
      using i by (auto simp: nb_def)
  qed
  have "enc_table_for acc ps t"
    using spec by (simp add: enc_table_for_def lay_def [symmetric]) (simp add: t_def)
  then show ?thesis using run by blast
qed

end
