(* ===== verification/Fse_Roundtrip.thy ===== *)
theory Fse_Roundtrip
  imports Fse_Enc_Table
begin

text \<open>
  The encoder's step and the decoder's entries are inverse.  The locale \<open>tans_coder\<close> states the
  contract between the two tables, on plain numbers, and derives the round trip of whole symbol
  sequences from it; it is interpreted on the tables that the code builds from one distribution.
\<close>

section \<open>The contract of the two tables\<close>

fun tans_encode :: "(nat \<Rightarrow> nat \<Rightarrow> nat \<times> nat \<times> nat) \<Rightarrow> nat list \<Rightarrow> nat \<Rightarrow> (nat \<times> nat) list \<times> nat" where
  "tans_encode step [] X = ([], X)"
| "tans_encode step (s # ss) X =
     (let (nb, e, X') = step s X; (fs, Y) = tans_encode step ss X' in ((nb, e) # fs, Y))"

fun tans_decode :: "(nat \<Rightarrow> nat \<times> nat \<times> nat) \<Rightarrow> (nat \<times> nat) list \<Rightarrow> nat \<Rightarrow> nat list \<times> nat" where
  "tans_decode ent [] i = ([fst (ent i)], i)"
| "tans_decode ent ((nb, e) # fs) i =
     (let (sy, base, n) = ent i; (ss, j) = tans_decode ent fs (base + e) in (sy # ss, j))"

locale tans_coder =
  fixes valid :: "'c \<Rightarrow> bool"
    and size_of :: "'c \<Rightarrow> nat"
    and live :: "'c \<Rightarrow> nat \<Rightarrow> bool"
    and step :: "'c \<Rightarrow> nat \<Rightarrow> nat \<Rightarrow> nat \<times> nat \<times> nat"
    and start :: "'c \<Rightarrow> nat \<Rightarrow> nat"
    and ent :: "'c \<Rightarrow> nat \<Rightarrow> nat \<times> nat \<times> nat"
  assumes step_state: "valid c \<Longrightarrow> live c s \<Longrightarrow> size_of c \<le> X \<Longrightarrow> X < 2 * size_of c \<Longrightarrow>
      step c s X = (nb, e, X') \<Longrightarrow> size_of c \<le> X' \<and> X' < 2 * size_of c \<and> e < 2 ^ nb"
    and step_entry: "valid c \<Longrightarrow> live c s \<Longrightarrow> size_of c \<le> X \<Longrightarrow> X < 2 * size_of c \<Longrightarrow>
      step c s X = (nb, e, X') \<Longrightarrow>
      \<exists>base. ent c (X' - size_of c) = (s, base, nb) \<and> base + e = X - size_of c"
    and start_state: "valid c \<Longrightarrow> live c s \<Longrightarrow>
      size_of c \<le> start c s \<and> start c s < 2 * size_of c \<and> fst (ent c (start c s - size_of c)) = s"
begin

lemma encode_state:
  assumes "valid c" "list_all (live c) ss" "size_of c \<le> X" "X < 2 * size_of c" "tans_encode (step c) ss X = (fs, Y)"
  shows "size_of c \<le> Y \<and> Y < 2 * size_of c \<and> length fs = length ss \<and> list_all (\<lambda>(nb, e). e < 2 ^ nb) fs"
  using assms(2-)
proof (induction ss arbitrary: X fs)
  case (Cons s ss)
  obtain nb e X' fs' where s: "step c s X = (nb, e, X')" "tans_encode (step c) ss X' = (fs', Y)" "fs = (nb, e) # fs'"
    using Cons.prems(4) by (auto simp: Let_def split: prod.splits)
  have "size_of c \<le> X' \<and> X' < 2 * size_of c \<and> e < 2 ^ nb"
    by (rule step_state [OF assms(1) _ Cons.prems(2,3) s(1)]) (use Cons.prems(1) in simp)
  then show ?case using Cons.IH [of X' fs'] Cons.prems(1) s by simp
qed simp

lemma decode_append:
  "tans_decode (ent c) (fs @ gs) i
    = (let (ss, j) = tans_decode (ent c) fs i; (ts, k) = tans_decode (ent c) gs j in (butlast ss @ ts, k))"
proof (induction fs arbitrary: i)
  case Nil
  then show ?case by (auto simp: split_beta Let_def)
next
  case (Cons f fs)
  have ne: "fst (tans_decode (ent c) fs i) \<noteq> []" for i
    by (cases fs) (auto simp: split_beta Let_def)
  show ?case using Cons by (cases f) (simp add: split_beta Let_def ne)
qed

lemma decode_encode:
  assumes "valid c" "list_all (live c) ss" "size_of c \<le> X" "X < 2 * size_of c" "tans_encode (step c) ss X = (fs, Y)"
  shows "tans_decode (ent c) (rev fs) (Y - size_of c) = (rev ss @ [fst (ent c (X - size_of c))], X - size_of c)"
  using assms(2-)
proof (induction ss arbitrary: X fs)
  case (Cons s ss)
  obtain nb e X' fs' where s: "step c s X = (nb, e, X')" "tans_encode (step c) ss X' = (fs', Y)" "fs = (nb, e) # fs'"
    using Cons.prems(4) by (auto simp: Let_def split: prod.splits)
  have X': "size_of c \<le> X' \<and> X' < 2 * size_of c \<and> e < 2 ^ nb"
    by (rule step_state [OF assms(1) _ Cons.prems(2,3) s(1)]) (use Cons.prems(1) in simp)
  have "\<exists>base. ent c (X' - size_of c) = (s, base, nb) \<and> base + e = X - size_of c"
    by (rule step_entry [OF assms(1) _ Cons.prems(2,3) s(1)]) (use Cons.prems(1) in simp)
  then show ?case
    using Cons.IH [of X' fs'] Cons.prems(1) X' s by (auto simp: decode_append)
qed simp

text \<open>A whole sequence: the last symbol is carried by the start state.\<close>

lemma sequence_roundtrip:
  assumes "valid c" "list_all (live c) (ss @ [s])" "tans_encode (step c) (rev ss) (start c s) = (fs, Y)"
  shows "tans_decode (ent c) (rev fs) (Y - size_of c) = (ss @ [s], start c s - size_of c)"
    and "size_of c \<le> Y" "Y < 2 * size_of c" "length fs = length ss"
    and "list_all (\<lambda>(nb, e). e < 2 ^ nb) fs"
proof -
  have st: "size_of c \<le> start c s" "start c s < 2 * size_of c" "fst (ent c (start c s - size_of c)) = s"
    using start_state [OF assms(1), of s] assms(2) by simp_all
  have l: "list_all (live c) (rev ss)" using assms(2) by (simp add: list_all_iff)
  show "tans_decode (ent c) (rev fs) (Y - size_of c) = (ss @ [s], start c s - size_of c)"
    using decode_encode [OF assms(1) l st(1,2) assms(3)] st(3) by simp
  show "size_of c \<le> Y" "Y < 2 * size_of c" "length fs = length ss" "list_all (\<lambda>(nb, e). e < 2 ^ nb) fs"
    using encode_state [OF assms(1) l st(1,2) assms(3)] by simp_all
qed

end

section \<open>The tables the code builds\<close>

text \<open>The step and the entries of built tables, read as plain numbers.\<close>

definition step_of :: "EncTable \<Rightarrow> nat \<Rightarrow> nat \<Rightarrow> nat \<times> nat \<times> nat" where
  "step_of t s X = (case enc_step t s (of_nat X) of
     Ok (nb, e, X') \<Rightarrow> (nb, unat e, unat X') | _ \<Rightarrow> (0, 0, 0))"

definition start_of :: "EncTable \<Rightarrow> nat \<Rightarrow> nat" where
  "start_of t s = (case start_index t s of Ok X \<Rightarrow> unat X | _ \<Rightarrow> 0)"

definition ent_of :: "Entry list \<Rightarrow> nat \<Rightarrow> nat \<times> nat \<times> nat" where
  "ent_of dec i = (symbol (dec ! i), unat (base_line (dec ! i)), num_bits (dec ! i))"

lemma table_entry:
  assumes t: "table_for acc ps dec" and i: "i < 2 ^ acc" "layout acc ps ! i = s"
    "count_list (take i (layout acc ps)) s = c"
  shows "ent_of dec i = (s, entry_base acc (weight ps s) c, entry_nb acc (weight ps s) c)"
proof -
  have l: "length dec = 2 ^ acc" "map symbol dec = layout acc ps"
    using t unfolding table_for_def by blast+
  then have s: "symbol (dec ! i) = s" using i by (metis length_map nth_map)
  then have "entry_rank dec i = c" using i(3) by (simp add: entry_rank_def l(2))
  moreover have "unat (base_line (dec ! i)) = entry_base acc (weight ps (symbol (dec ! i))) (entry_rank dec i)
      \<and> num_bits (dec ! i) = entry_nb acc (weight ps (symbol (dec ! i))) (entry_rank dec i)"
    using t i(1) unfolding table_for_def by blast
  ultimately show ?thesis using s by (simp add: ent_of_def)
qed

text \<open>
  A pair of tables built from one distribution, \<open>(acc_log, probabilities, encoder table, decoder
  entries)\<close>; the laws of \<open>tans_coder\<close> hold for every such pair.
\<close>

type_synonym table_pair = "nat \<times> int list \<times> EncTable \<times> Entry list"

definition pair_valid :: "table_pair \<Rightarrow> bool" where
  "pair_valid = (\<lambda>(acc, ps, t, dec). dist_valid acc ps \<and> acc \<le> 12 \<and> enc_table_for acc ps t \<and> table_for acc ps dec)"

definition pair_size :: "table_pair \<Rightarrow> nat" where
  "pair_size = (\<lambda>(acc, ps, t, dec). 2 ^ acc)"

definition pair_live :: "table_pair \<Rightarrow> nat \<Rightarrow> bool" where
  "pair_live = (\<lambda>(acc, ps, t, dec) s. 0 < weight ps s)"

definition pair_step :: "table_pair \<Rightarrow> nat \<Rightarrow> nat \<Rightarrow> nat \<times> nat \<times> nat" where
  "pair_step = (\<lambda>(acc, ps, t, dec). step_of t)"

definition pair_start :: "table_pair \<Rightarrow> nat \<Rightarrow> nat" where
  "pair_start = (\<lambda>(acc, ps, t, dec). start_of t)"

definition pair_ent :: "table_pair \<Rightarrow> nat \<Rightarrow> nat \<times> nat \<times> nat" where
  "pair_ent = (\<lambda>(acc, ps, t, dec). ent_of dec)"

lemmas pair_defs = pair_valid_def pair_size_def pair_live_def pair_step_def pair_start_def pair_ent_def

lemma built_step:
  assumes v: "dist_valid acc ps" and acc: "acc \<le> 12"
    and e: "enc_table_for acc ps t" and d: "table_for acc ps dec"
    and w: "0 < weight ps s" and X: "2 ^ acc \<le> X" "X < 2 * 2 ^ acc"
  shows "\<exists>nb em X' base. enc_step t s (of_nat X) = Ok (nb, of_nat em, of_nat X') \<and> step_of t s X = (nb, em, X')
    \<and> 2 ^ acc \<le> X' \<and> X' < 2 * 2 ^ acc \<and> em < 2 ^ nb \<and> nb \<le> acc
    \<and> ent_of dec (X' - 2 ^ acc) = (s, base, nb) \<and> base + em = X - 2 ^ acc"
proof -
  have pow: "(2::nat) ^ acc \<le> 4096" using power_increasing [OF acc, of "2::nat"] by simp
  let ?p = "weight ps s"
  note E = enc_state_correct [OF w weight_le [OF v] X]
  obtain i where i: "i < 2 ^ acc" "layout acc ps ! i = s"
      "count_list (take i (layout acc ps)) s = enc_idx acc ?p X"
    and run: "enc_step t s (of_nat X) = Ok (enc_nb acc ?p X, of_nat (X mod 2 ^ enc_nb acc ?p X), of_nat (2 ^ acc + i))"
    using e w X unfolding enc_table_for_def by blast
  have "X < 2 ^ 32" "2 ^ acc + i < 2 ^ 32" using X pow i(1) by simp_all
  then have "X mod 2 ^ enc_nb acc ?p X < 2 ^ 32" "2 ^ acc + i < 2 ^ 32"
    using mod_less_eq_dividend le_less_trans by blast+
  then have st: "step_of t s X = (enc_nb acc ?p X, X mod 2 ^ enc_nb acc ?p X, 2 ^ acc + i)"
    using run by (simp add: step_of_def unat_u32 del: of_nat_add)
  have nb: "enc_nb acc ?p X \<le> acc"
  proof (cases "clog2 ?p")
    case 0
    then have "?p = 1" using clog2_bounds [OF w] w by simp
    then show ?thesis using X(2) 0 by (simp add: enc_nb_def)
  next
    case (Suc q)
    then show ?thesis using clog2_le [OF w weight_le [OF v]] by (auto simp: enc_nb_def)
  qed
  have "ent_of dec i = (s, entry_base acc ?p (enc_idx acc ?p X), enc_nb acc ?p X)"
    using table_entry [OF d i] E(2) by simp
  then show ?thesis using run st i(1) E(3) nb by force
qed

interpretation pair: tans_coder pair_valid pair_size pair_live pair_step pair_start pair_ent
proof
  fix c s X nb em X'
  assume c: "pair_valid c" "pair_live c s" "pair_size c \<le> X" "X < 2 * pair_size c" "pair_step c s X = (nb, em, X')"
  obtain acc ps t dec where e: "c = (acc, ps, t, dec)" by (metis surj_pair)
  then obtain base where "2 ^ acc \<le> X'" "X' < 2 * 2 ^ acc" "em < 2 ^ nb"
    "ent_of dec (X' - 2 ^ acc) = (s, base, nb)" "base + em = X - 2 ^ acc"
    using built_step [of acc ps t dec s X] c by (auto simp: pair_defs)
  then show "pair_size c \<le> X' \<and> X' < 2 * pair_size c \<and> em < 2 ^ nb"
    "\<exists>base. pair_ent c (X' - pair_size c) = (s, base, nb) \<and> base + em = X - pair_size c"
    by (auto simp: pair_defs e)
next
  fix c s assume c: "pair_valid c" "pair_live c s"
  obtain acc ps t dec where e: "c = (acc, ps, t, dec)" by (metis surj_pair)
  have acc: "acc \<le> 12" and d: "table_for acc ps dec" using c by (auto simp: pair_defs e)
  have pow: "(2::nat) ^ acc \<le> 4096" using power_increasing [OF acc, of "2::nat"] by simp
  obtain i where i: "i < 2 ^ acc" "layout acc ps ! i = s" "count_list (take i (layout acc ps)) s = 0"
    and "start_index t s = Ok (of_nat (2 ^ acc + i))"
    using c unfolding e pair_defs enc_table_for_def by auto
  moreover have "2 ^ acc + i < 2 ^ 32" using pow i(1) by simp
  ultimately have "start_of t s = 2 ^ acc + i" by (simp add: start_of_def unat_u32 del: of_nat_add)
  then show "pair_size c \<le> pair_start c s \<and> pair_start c s < 2 * pair_size c
      \<and> fst (pair_ent c (pair_start c s - pair_size c)) = s"
    using table_entry [OF d i] i(1) by (simp add: pair_defs e)
qed

section \<open>Symbols to bits and back\<close>

text \<open>The decoding loop over a payload: marker, initial state, then one symbol per state.\<close>

fun decode_loop :: "nat \<Rightarrow> FSEDecoder \<Rightarrow> BitReaderReversed \<Rightarrow> (unit, nat list \<times> BitReaderReversed) res" where
  "decode_loop 0 d r = Ok ([], r)"
| "decode_loop (Suc k) d r =
     (let w = decode_symbol d in
      if k = 0 then Ok ([w], r)
      else rbind (update_state d r) (\<lambda>(d, r). rbind (decode_loop k d r) (\<lambda>(ws, r). Ok (w # ws, r))))"

definition fse_decode :: "FSETable \<Rightarrow> bytes \<Rightarrow> nat \<Rightarrow> (unit, nat list \<times> BitReaderReversed) res" where
  "fse_decode table source n =
     rbind (rr_skip_padding_marker (rr_new source)) (\<lambda>(ok, r).
     rbind (rassert ok) (\<lambda>_.
     rbind (rmap_err (\<lambda>_. ()) (init_state (fd_new table) r)) (\<lambda>(d, r). decode_loop n d r)))"

definition fields_bits :: "(nat \<times> nat) list \<Rightarrow> bits" where
  "fields_bits fs = concat (map (\<lambda>(nb, e). word_bits nb (of_nat e)) fs)"

lemma fields_bits_simps [simp]:
  "fields_bits [] = []" "fields_bits ((nb, e) # fs) = word_bits nb (of_nat e) @ fields_bits fs"
  by (simp_all add: fields_bits_def)

lemma unat_u64: "x < 2 ^ 32 \<Longrightarrow> unat (of_nat x :: u64) = x"
  by (simp add: unat_of_nat take_bit_nat_eq_self)

lemma ucast_u32_u64: "x < 2 ^ 32 \<Longrightarrow> (ucast (of_nat x :: u32) :: u64) = of_nat x"
  by (simp add: word_unat_eq_iff unsigned_ucast_eq unat_u32 unat_u64 take_bit_nat_eq_self)

lemma word_of_nat_unat_u32: "of_nat (unat w) = (w :: u32)"
  by (simp add: word_unat_eq_iff)

lemma encode_symbols_correct:
  assumes v: "dist_valid acc ps" "acc \<le> 12" "enc_table_for acc ps t" "table_for acc ps dec"
    and "list_all (\<lambda>s. 0 < weight ps s) ss" "2 ^ acc \<le> X" "X < 2 * 2 ^ acc" "bw_inv w"
    and "tans_encode (step_of t) ss X = (fs, Y)"
  shows "\<exists>w'. encode_symbols t ss (of_nat X) w = Ok (of_nat Y, w') \<and> bw_inv w'
    \<and> bw_bits w' = bw_bits w @ fields_bits fs"
  using assms(5-)
proof (induction ss arbitrary: X fs w)
  case Nil
  then show ?case by simp
next
  case (Cons s ss)
  have pow: "(2::nat) ^ acc \<le> 4096" using power_increasing [OF v(2), of "2::nat"] by simp
  obtain nb em X' base where st: "enc_step t s (of_nat X) = Ok (nb, of_nat em, of_nat X')"
    "step_of t s X = (nb, em, X')" "2 ^ acc \<le> X'" "X' < 2 * 2 ^ acc" "em < 2 ^ nb" "nb \<le> acc"
    "base + em = X - 2 ^ acc"
    using built_step [OF v, of s X] Cons.prems(1-3) by auto
  obtain fs' where fs: "tans_encode (step_of t) ss X' = (fs', Y)" "fs = (nb, em) # fs'"
    using Cons.prems(5) st(2) by (auto simp: Let_def split: prod.splits)
  have em: "em < 2 ^ 32" using st(7) Cons.prems(3) pow by simp
  have "unat (of_nat em :: u64) < 2 ^ nb" using st(5) em by (simp add: unat_u64)
  then obtain w1 where w1: "bw_write_bits w (of_nat em) nb = Ok w1" "bw_inv w1"
    "bw_bits w1 = bw_bits w @ word_bits nb (of_nat em)"
    using bw.put_step [OF Cons.prems(4), of nb "of_nat em"] st(6) v(2) by (auto simp: bw_write_bits_def)
  show ?case
    using Cons.IH [OF _ st(3,4) w1(2) fs(1)] Cons.prems(1) st(1) w1 fs(2) em
    by (simp add: ucast_u32_u64)
qed

text \<open>
  Decoding undoes encoding: with the fields on top of the reader's string, the loop passes
  through the encoder's states backwards.
\<close>

lemma decode_loop_correct:
  assumes v: "dist_valid acc ps" "acc \<le> 12" "enc_table_for acc ps t" "table_for acc ps (ft_decode d)"
    and "list_all (\<lambda>s. 0 < weight ps s) ss" "2 ^ acc \<le> X" "X < 2 * 2 ^ acc"
    and "tans_encode (step_of t) ss X = (fs, Y)" "rr_has r (B @ fields_bits fs)"
  shows "\<exists>r'. rr_has r' B \<and>
    decode_loop (Suc (length ss + k)) \<lparr>fd_state = ft_decode d ! (Y - 2 ^ acc), fd_table = d\<rparr> r
      = rbind (decode_loop (Suc k) \<lparr>fd_state = ft_decode d ! (X - 2 ^ acc), fd_table = d\<rparr> r')
          (\<lambda>(ws, r). Ok (rev ss @ ws, r))"
  using assms(5-)
proof (induction ss arbitrary: X fs B k)
  case Nil
  have "rbind m (\<lambda>(ws, r). Ok (ws, r)) = m" for m :: "(unit, nat list \<times> BitReaderReversed) res"
    by (cases m) auto
  then show ?case using Nil by auto
next
  case (Cons s ss)
  have pow: "(2::nat) ^ acc \<le> 4096" using power_increasing [OF v(2), of "2::nat"] by simp
  obtain nb em X' base where st: "step_of t s X = (nb, em, X')" "2 ^ acc \<le> X'" "X' < 2 * 2 ^ acc"
    "em < 2 ^ nb" "nb \<le> acc" "ent_of (ft_decode d) (X' - 2 ^ acc) = (s, base, nb)" "base + em = X - 2 ^ acc"
    using built_step [OF v, of s X] Cons.prems(1-3) by auto
  obtain fs' where fs: "tans_encode (step_of t) ss X' = (fs', Y)" "fs = (nb, em) # fs'"
    using Cons.prems(4) st(1) by (auto simp: Let_def split: prod.splits)
  have small: "em < 2 ^ 32" "base < 2 ^ 32" "base + em < 2 ^ 32" using st(7) Cons.prems(3) pow by simp_all
  let ?e = "ft_decode d ! (X' - 2 ^ acc)" and ?x = "ft_decode d ! (X - 2 ^ acc)"
  have e: "symbol ?e = s" "unat (base_line ?e) = base" "num_bits ?e = nb"
    using st(6) by (simp_all add: ent_of_def)
  have "rr_has r ((B @ word_bits nb (of_nat em)) @ fields_bits fs')"
    using Cons.prems(5) fs(2) by simp
  from Cons.IH [OF _ st(2,3) fs(1) this, of "Suc k"] Cons.prems(1)
  obtain r1 where r1: "rr_has r1 (B @ word_bits nb (of_nat em))"
    "decode_loop (Suc (length ss + Suc k)) \<lparr>fd_state = ft_decode d ! (Y - 2 ^ acc), fd_table = d\<rparr> r
      = rbind (decode_loop (Suc (Suc k)) \<lparr>fd_state = ?e, fd_table = d\<rparr> r1)
          (\<lambda>(ws, r). Ok (rev ss @ ws, r))"
    by auto
  obtain r2 where r2: "rr_get_bits r1 nb = Ok (of_nat em, r2)" "rr_has r2 B"
    using rr_has_get [OF r1(1)] st(4,5) v(2) small(1) by (auto simp: unat_u64)
  have "base_line ?e = of_nat base" using e(2) by (metis word_of_nat_unat_u32)
  then have "unat (base_line ?e + ucast (of_nat em :: u64)) = base + em"
  proof -
    assume b: "base_line ?e = of_nat base"
    have "ucast (of_nat em :: u64) = (of_nat em :: u32)"
      using small(1) by (simp add: word_unat_eq_iff unsigned_ucast_eq unat_u32 unat_u64 take_bit_nat_eq_self)
    then have "base_line ?e + ucast (of_nat em :: u64) = of_nat (base + em)" by (simp add: b)
    then show ?thesis by (simp only: unat_u32 [OF small(3)])
  qed
  moreover have "length (ft_decode d) = 2 ^ acc" using v(4) unfolding table_for_def by blast
  ultimately have upd: "update_state \<lparr>fd_state = ?e, fd_table = d\<rparr> r1
      = Ok (\<lparr>fd_state = ?x, fd_table = d\<rparr>, r2)"
    using r2(1) e(3) st(7) Cons.prems(2,3) by (simp add: update_state_def)
  have "decode_loop (Suc (Suc k)) \<lparr>fd_state = ?e, fd_table = d\<rparr> r1
      = rbind (decode_loop (Suc k) \<lparr>fd_state = ?x, fd_table = d\<rparr> r2) (\<lambda>(ws, r). Ok (s # ws, r))"
    using upd e(1) by (subst decode_loop.simps) (simp add: decode_symbol_def del: decode_loop.simps)
  then have "decode_loop (Suc (length (s # ss) + k)) \<lparr>fd_state = ft_decode d ! (Y - 2 ^ acc), fd_table = d\<rparr> r
      = rbind (decode_loop (Suc k) \<lparr>fd_state = ?x, fd_table = d\<rparr> r2) (\<lambda>(ws, r). Ok (rev (s # ss) @ ws, r))"
    using r1(2) by (simp add: rbind_assoc case_prod_beta' del: decode_loop.simps)
  then show ?case using r2(2) by blast
qed

text \<open>A biased state without its bias, as the value that is written; and the end marker.\<close>

lemma unbias_state:
  assumes "2 ^ acc \<le> Y" "Y < 2 * 2 ^ acc" "acc \<le> 12"
  shows "ucast (of_nat Y AND (push_bit acc 1 - 1) :: u32) = (of_nat (Y - 2 ^ acc) :: u64)"
    "unat (of_nat (Y - 2 ^ acc) :: u64) = Y - 2 ^ acc"
proof -
  have pow: "(2::nat) ^ acc \<le> 4096" using power_increasing [OF assms(3), of "2::nat"] by simp
  have "of_nat Y AND (push_bit acc 1 - 1) = take_bit acc (of_nat Y :: u32)"
    by (simp add: take_bit_eq_mask mask_eq_exp_minus_1)
  also have "\<dots> = of_nat (take_bit acc Y)" by (simp add: of_nat_take_bit)
  also have "take_bit acc Y = Y - 2 ^ acc"
    using assms by (simp add: take_bit_eq_mod le_mod_geq)
  finally have mask: "of_nat Y AND (push_bit acc 1 - 1) = (of_nat (Y - 2 ^ acc) :: u32)" .
  have i: "Y - 2 ^ acc < 2 ^ 32" using assms pow by simp
  show "ucast (of_nat Y AND (push_bit acc 1 - 1) :: u32) = (of_nat (Y - 2 ^ acc) :: u64)"
    unfolding mask by (rule ucast_u32_u64 [OF i])
  show "unat (of_nat (Y - 2 ^ acc) :: u64) = Y - 2 ^ acc" by (rule unat_u64 [OF i])
qed

lemma write_end_marker_correct:
  assumes "bw_inv w"
  obtains w' z where "write_end_marker w = Ok w'" "bw_inv w'" "z < 8"
    "bw_bits w' = bw_bits w @ True # replicate z False" "length (bw_bits w') mod 8 = 0"
proof -
  define n where "n = (if bw_misaligned w = 0 then 8 else bw_misaligned w)"
  have n: "0 < n" "n \<le> 8" by (auto simp: n_def bw_misaligned_def Let_def)
  have al: "(length (bw_bits w) + n) mod 8 = 0"
    using bw_index_length [OF assms] by (auto simp: n_def bw_misaligned_def Let_def) presburger+
  have "write_end_marker w = bw_write_bits_64 w 1 n"
    by (simp add: write_end_marker_def bw_write_bits_def n_def Let_def)
  moreover obtain w' where "bw_write_bits_64 w 1 n = Ok w'" "bw_inv w'"
    "bw_bits w' = bw_bits w @ word_bits n 1"
  proof (rule bw.put_step [OF assms, of n 1])
    show "n < 64" using n by simp
    have "(2::nat) ^ 1 \<le> 2 ^ n" using n by (intro power_increasing) auto
    then show "unat (1 :: u64) < 2 ^ n" by simp
  qed
  moreover have "word_bits n 1 = True # replicate (n - 1) False"
    by (rule nth_equalityI) (use n in \<open>auto simp: nth_Cons' bit_1_iff\<close>)
  moreover have "length (bw_bits w @ word_bits n 1) mod 8 = 0" using al by simp
  moreover have "n - 1 < 8" using n by simp
  ultimately show ?thesis using that by metis
qed

lemma encode_payload_correct:
  assumes v: "dist_valid acc ps" "acc \<le> 12" "enc_table_for acc ps t" "table_for acc ps (ft_decode d)"
    and acc: "ft_accuracy_log d = acc"
    and dat: "dat \<noteq> []" "\<forall>x \<in> set dat. 0 < weight ps x" and w: "bw_inv w" "length (bw_bits w) mod 8 = 0"
  shows "\<exists>w' out r'. encode_payload t dat w = Ok w' \<and> bw_dump w' = Ok out
    \<and> take (length (bw_bits w)) (bytes_bits out) = bw_bits w
    \<and> fse_decode d (drop (length (bw_bits w) div 8) out) (length dat) = Ok (dat, r')
    \<and> rr_bits_remaining r' = 0"
proof -
  have pow: "(2::nat) ^ acc \<le> 4096" using power_increasing [OF v(2), of "2::nat"] by simp
  have a5: "5 \<le> acc" using v(1) by (simp add: dist_valid_def)
  let ?c = "(acc, ps, t, ft_decode d)" and ?ss = "rev (butlast dat)" and ?s = "last dat"
  obtain fs Y where enc: "tans_encode (step_of t) ?ss (start_of t ?s) = (fs, Y)" by fastforce
  have live: "list_all (\<lambda>s. 0 < weight ps s) ?ss" "0 < weight ps ?s"
    using dat in_set_butlastD by (fastforce simp: list_all_iff)+
  have pair: "pair_valid ?c" "list_all (pair_live ?c) (butlast dat @ [?s])"
    "tans_encode (pair_step ?c) (rev (butlast dat)) (pair_start ?c ?s) = (fs, Y)"
    using v live enc by (simp_all add: pair_defs list_all_iff)
  note st = pair.start_state [OF pair(1), of ?s] and seq = pair.sequence_roundtrip [OF pair]
  have X: "2 ^ acc \<le> start_of t ?s" "start_of t ?s < 2 * 2 ^ acc" "symbol (ft_decode d ! (start_of t ?s - 2 ^ acc)) = ?s"
    using st pair(2) by (simp_all add: pair_defs ent_of_def)
  have Y: "2 ^ acc \<le> Y" "Y < 2 * 2 ^ acc" using seq(2,3) by (simp_all add: pair_size_def)
  obtain i where "start_index t ?s = Ok (of_nat (2 ^ acc + i))" "i < 2 ^ acc"
    using v(3) live(2) unfolding enc_table_for_def by blast
  then have start: "start_index t ?s = Ok (of_nat (start_of t ?s))" using pow by (simp add: start_of_def)
  obtain w1 where w1: "encode_symbols t ?ss (of_nat (start_of t ?s)) w = Ok (of_nat Y, w1)" "bw_inv w1"
    "bw_bits w1 = bw_bits w @ fields_bits fs"
    using encode_symbols_correct [OF v live(1) X(1,2) w(1) enc] by blast
  have log: "et_acc_log t = acc"
    using v(3) by (simp add: enc_table_for_def et_acc_log_def ilog2_pow2)
  define i where "i = Y - 2 ^ acc"
  have i: "i < 2 ^ acc" using Y by (simp add: i_def)
  note ub = unbias_state [OF Y v(2), folded i_def]
  have "write_state t (of_nat Y) w1 = bw_write_bits_64 w1 (of_nat i) acc"
    unfolding write_state_def bw_write_bits_def log ub(1) ..
  moreover obtain w2 where "bw_write_bits_64 w1 (of_nat i) acc = Ok w2" "bw_inv w2"
    "bw_bits w2 = bw_bits w1 @ word_bits acc (of_nat i)"
  proof (rule bw.put_step [OF w1(2), of acc "of_nat i"])
    show "acc < 64" using v(2) by simp
    show "unat (of_nat i :: u64) < 2 ^ acc" unfolding ub(2) by (rule i)
  qed
  ultimately have w2: "write_state t (of_nat Y) w1 = Ok w2" "bw_inv w2"
    "bw_bits w2 = bw_bits w @ fields_bits fs @ word_bits acc (of_nat i)"
    using w1(3) by simp_all
  obtain w3 z where w3: "write_end_marker w2 = Ok w3" "bw_inv w3" "z < 8"
    "bw_bits w3 = bw_bits w2 @ True # replicate z False" "length (bw_bits w3) mod 8 = 0"
    by (rule write_end_marker_correct [OF w2(2)])
  from bw_dump_correct [OF w3(2,5)]
  obtain out :: bytes where out: "bw_dump w3 = Ok out" "bytes_bits out = bw_bits w3" by auto
  let ?src = "drop (length (bw_bits w) div 8) out"
  have "8 * (length (bw_bits w) div 8) = length (bw_bits w)" using w(2) by presburger
  then have src: "bytes_bits ?src = (fields_bits fs @ word_bits acc (of_nat i)) @ True # replicate z False"
    using drop_bytes_bits [of "length (bw_bits w) div 8" out] out(2) w3(4) w2(3) by simp
  from rr_has_skip [OF rr_has_new [of ?src, unfolded src] w3(3)]
  obtain r1 where r1: "rr_skip_padding_marker (rr_new ?src) = Ok (True, r1)"
    "rr_has r1 (fields_bits fs @ word_bits acc (of_nat i))" by blast
  obtain r2 where r2: "rr_get_bits r1 acc = Ok (of_nat i, r2)" "rr_has r2 ([] @ fields_bits fs)"
    using rr_has_get [OF r1(2)] v(2) i by (auto simp: ub(2))
  have "length (ft_decode d) = 2 ^ acc" using v(4) unfolding table_for_def by blast
  then have init: "init_state (fd_new d) r1 = Ok (\<lparr>fd_state = ft_decode d ! (Y - 2 ^ acc), fd_table = d\<rparr>, r2)"
    using r2(1) a5 acc i ub(2) by (simp add: init_state_def fd_new_def i_def)
  obtain r3 where r3: "rr_has r3 []"
    "decode_loop (Suc (length ?ss + 0)) \<lparr>fd_state = ft_decode d ! (Y - 2 ^ acc), fd_table = d\<rparr> r2
      = rbind (decode_loop (Suc 0) \<lparr>fd_state = ft_decode d ! (start_of t ?s - 2 ^ acc), fd_table = d\<rparr> r3)
          (\<lambda>(ws, r). Ok (rev ?ss @ ws, r))"
    using decode_loop_correct [OF v live(1) X(1,2) enc r2(2), of 0] by blast
  have "Suc (length ?ss + 0) = length dat" using dat(1) by (cases dat rule: rev_cases) auto
  then have "fse_decode d ?src (length dat) = Ok (dat, r3)"
    using r1(1) init r3(2) X(3) dat(1) by (simp add: fse_decode_def decode_symbol_def)
  moreover have "encode_payload t dat w = Ok w3"
    using dat(1) start w1(1) w2(1) w3(1) by (simp add: encode_payload_def)
  moreover have "rr_bits_remaining r3 = 0" using r3(1) by (simp add: rr_has_def)
  moreover have "take (length (bw_bits w)) (bytes_bits out) = bw_bits w"
    using out(2) w3(4) w2(3) by simp
  ultimately show ?thesis using out(1) by blast
qed

section \<open>Properties\<close>

lemma decoder_table_exists:
  assumes "dist_valid acc ps"
  shows "\<exists>d :: FSETable. build_from_probabilities (ft_new 255) acc ps = Ok d \<and> table_for acc ps (ft_decode d)
    \<and> ft_accuracy_log d = acc"
proof -
  let ?t = "(ft_new 255)\<lparr>ft_symbol_probabilities := ps, ft_accuracy_log := acc\<rparr>"
  have "dist_valid (ft_accuracy_log ?t) (ft_symbol_probabilities ?t)"
    "length (ft_symbol_probabilities ?t) \<le> ft_max_symbol ?t + 1"
    using assms by (simp_all add: ft_new_def dist_valid_def)
  from build_table_exists [OF this]
  obtain d :: FSETable where "build_decoding_table ?t = Ok d"
    "table_for (ft_accuracy_log ?t) (ft_symbol_probabilities ?t) (ft_decode d)"
    "ft_accuracy_log d = ft_accuracy_log ?t" by blast
  moreover have "acc \<noteq> 0" using assms by (auto simp: dist_valid_def)
  ultimately show ?thesis by (auto simp: build_from_probabilities_def)
qed

lemma encoder_table_exists:
  assumes "dist_valid acc ps" "acc \<le> 12"
  shows "\<exists>t. build_table_from_probabilities ps acc = Ok t \<and> enc_table_for acc ps t"
proof -
  let ?h = "\<lparr>fh_tt = replicate 256 0, fh_probs = replicate 256 0, fh_start = replicate 256 0\<rparr>"
  have "\<exists>t. build_table_body ps acc (replicate (2 ^ acc) 0) (replicate (2 ^ acc + 8) 0) ?h (replicate (2 ^ acc) 0) = Ok t
      \<and> enc_table_for acc ps t"
    by (rule build_table_body_correct [OF assms]) simp_all
  then show ?thesis by (simp add: build_table_from_probabilities_def push_bit_eq_mult Let_def)
qed

text \<open>
  C4.  Encoder and decoder tables built from one valid distribution are inverse, even when the
  encoder's table is built in reused buffers of any content: one encode step of a live symbol
  from any biased state succeeds, and leads to a state whose decoder entry has that symbol, asks
  for exactly the emitted number of bits, and with the emitted value restores the state before
  the step.
\<close>

theorem encode_step_inverse:
  assumes "dist_valid acc ps" and "acc \<le> 12"
    and "length (fh_tt head) = 256" and "length (fh_start head) = 256" and "2 ^ acc \<le> length st"
  shows "\<exists>t d. build_table_from_probabilities_into ps acc owner spread head st = Ok t
    \<and> build_from_probabilities (ft_new 255) acc ps = Ok d
    \<and> (\<forall>s X. 0 < weight ps s \<and> 2 ^ acc \<le> X \<and> X < 2 * 2 ^ acc \<longrightarrow>
         (\<exists>nb em i. enc_step t s (of_nat X) = Ok (nb, em, of_nat (2 ^ acc + i)) \<and> i < 2 ^ acc
            \<and> symbol (ft_decode d ! i) = s \<and> num_bits (ft_decode d ! i) = nb \<and> unat em < 2 ^ nb
            \<and> unat (base_line (ft_decode d ! i)) + unat em = X - 2 ^ acc))"
proof -
  have pow: "(2::nat) ^ acc \<le> 4096" using power_increasing [OF assms(2), of "2::nat"] by simp
  have "\<exists>t. build_table_body ps acc (grow owner (2 ^ acc)) (grow spread (2 ^ acc + 8)) head st = Ok t
      \<and> enc_table_for acc ps t"
    by (rule build_table_body_correct [OF assms(1,2)]) (use assms in \<open>simp_all add: grow_def\<close>)
  then obtain t where t: "build_table_from_probabilities_into ps acc owner spread head st = Ok t"
    "enc_table_for acc ps t"
    by (auto simp: build_table_from_probabilities_into_def push_bit_eq_mult Let_def)
  obtain d :: FSETable where d: "build_from_probabilities (ft_new 255) acc ps = Ok d" "table_for acc ps (ft_decode d)"
    using decoder_table_exists [OF assms(1)] by blast
  have "\<exists>nb em i. enc_step t s (of_nat X) = Ok (nb, em, of_nat (2 ^ acc + i)) \<and> i < 2 ^ acc
      \<and> symbol (ft_decode d ! i) = s \<and> num_bits (ft_decode d ! i) = nb \<and> unat em < 2 ^ nb
      \<and> unat (base_line (ft_decode d ! i)) + unat em = X - 2 ^ acc"
    if X: "0 < weight ps s" "2 ^ acc \<le> X" "X < 2 * 2 ^ acc" for s X
  proof -
    obtain nb em X' base where r: "enc_step t s (of_nat X) = Ok (nb, of_nat em, of_nat X')"
      "2 ^ acc \<le> X'" "X' < 2 * 2 ^ acc" "em < 2 ^ nb"
      "ent_of (ft_decode d) (X' - 2 ^ acc) = (s, base, nb)" "base + em = X - 2 ^ acc"
      using built_step [OF assms(1,2) t(2) d(2) X] by blast
    have "em < 2 ^ 32" using r(6) X(3) pow by simp
    then have "unat (of_nat em :: u32) = em" by (rule unat_u32)
    moreover have "2 ^ acc + (X' - 2 ^ acc) = X'" "X' - 2 ^ acc < 2 ^ acc" using r(2,3) by simp_all
    ultimately show ?thesis using r
      by (intro exI [of _ nb] exI [of _ "of_nat em"] exI [of _ "X' - 2 ^ acc"]) (simp add: ent_of_def del: of_nat_add)
  qed
  then show ?thesis using t(1) d(1) by blast
qed

theorem encode_step_inverse_witness:
  "\<exists>t d nb em i. build_table_from_probabilities_into LL_DEFAULT_DISTRIBUTION 6 [7, 7] [9]
      \<lparr>fh_tt = replicate 256 3, fh_probs = [], fh_start = replicate 256 1\<rparr> (replicate 64 5) = Ok t
    \<and> build_from_probabilities (ft_new 255) 6 LL_DEFAULT_DISTRIBUTION = Ok d
    \<and> enc_step t 24 (of_nat 99) = Ok (nb, em, of_nat (2 ^ 6 + i)) \<and> symbol (ft_decode d ! i) = 24
    \<and> unat (base_line (ft_decode d ! i)) + unat em = 35"
proof -
  let ?head = "\<lparr>fh_tt = replicate 256 3, fh_probs = [], fh_start = replicate 256 1\<rparr>"
  have w: "0 < weight LL_DEFAULT_DISTRIBUTION 24" "(2::nat) ^ 6 \<le> 99" "99 < 2 * (2::nat) ^ 6" "99 - 2 ^ 6 = (35 :: nat)"
    by (simp_all add: weight_def LL_DEFAULT_DISTRIBUTION_def)
  obtain t and d :: FSETable where "build_table_from_probabilities_into LL_DEFAULT_DISTRIBUTION 6 [7, 7] [9] ?head (replicate 64 5) = Ok t"
    "build_from_probabilities (ft_new 255) 6 LL_DEFAULT_DISTRIBUTION = Ok d"
    "\<forall>s X. 0 < weight LL_DEFAULT_DISTRIBUTION s \<and> 2 ^ 6 \<le> X \<and> X < 2 * 2 ^ 6 \<longrightarrow>
       (\<exists>nb em i. enc_step t s (of_nat X) = Ok (nb, em, of_nat (2 ^ 6 + i)) \<and> i < 2 ^ 6
          \<and> symbol (ft_decode d ! i) = s \<and> num_bits (ft_decode d ! i) = nb \<and> unat em < 2 ^ nb
          \<and> unat (base_line (ft_decode d ! i)) + unat em = X - 2 ^ 6)"
    using encode_step_inverse [OF dist_valid_literals_length _ _ _ , of ?head "replicate 64 5" "[7, 7]" "[9]"]
    by (simp only: length_replicate FseHead.simps) force
  with w show ?thesis by (metis w)
qed

text \<open>
  C3.  FSE round trip: for every valid distribution, every nonempty sequence of symbols it
  covers is encoded into any byte-aligned writer without a panic, the bits already written stay,
  and the decoder, run on the bytes that were added, returns the sequence and has consumed the
  stream exactly.
\<close>

theorem fse_roundtrip:
  assumes "dist_valid acc ps" and "acc \<le> 12" and "dat \<noteq> []" and "\<forall>x \<in> set dat. 0 < weight ps x"
    and "bw_inv w" and "length (bw_bits w) mod 8 = 0"
  shows "\<exists>t d w' out r'. build_table_from_probabilities ps acc = Ok t
    \<and> build_from_probabilities (ft_new 255) acc ps = Ok d
    \<and> encode_payload t dat w = Ok w' \<and> bw_dump w' = Ok out
    \<and> take (length (bw_bits w)) (bytes_bits out) = bw_bits w
    \<and> fse_decode d (drop (length (bw_bits w) div 8) out) (length dat) = Ok (dat, r')
    \<and> rr_bits_remaining r' = 0"
proof -
  obtain t where t: "build_table_from_probabilities ps acc = Ok t" "enc_table_for acc ps t"
    using encoder_table_exists [OF assms(1,2)] by blast
  obtain d :: FSETable where d: "build_from_probabilities (ft_new 255) acc ps = Ok d"
    "table_for acc ps (ft_decode d)" "ft_accuracy_log d = acc"
    using decoder_table_exists [OF assms(1)] by blast
  from encode_payload_correct [OF assms(1,2) t(2) d(2,3) assms(3-6)] t(1) d(1) show ?thesis by blast
qed

theorem fse_roundtrip_witness:
  "\<exists>t d w' out r'. build_table_from_probabilities LL_DEFAULT_DISTRIBUTION 6 = Ok t
    \<and> build_from_probabilities (ft_new 255) 6 LL_DEFAULT_DISTRIBUTION = Ok d
    \<and> encode_payload t [0, 35, 1, 24, 24, 2] bw_new = Ok w' \<and> bw_dump w' = Ok out
    \<and> fse_decode d out (length [0, 35, 1, 24, 24, 2 :: nat]) = Ok ([0, 35, 1, 24, 24, 2], r') \<and> rr_bits_remaining r' = 0"
proof -
  have "\<forall>x \<in> set [0, 35, 1, 24, 24, 2]. 0 < weight LL_DEFAULT_DISTRIBUTION x"
    by (simp add: weight_def LL_DEFAULT_DISTRIBUTION_def)
  then show ?thesis
    using fse_roundtrip [OF dist_valid_literals_length, of "[0, 35, 1, 24, 24, 2]" bw_new] by auto
qed

end
