(* ===== verification/Fse_Normalize.thy ===== *)
theory Fse_Normalize
  imports Fse_Encoder
begin

text \<open>
  The normalization of a histogram, \<open>fse/fse_encoder.rs\<close>: table log, the main rounding pass,
  the fallback \<open>normalize_m2\<close>, and the fallback table of one state per symbol.  Counts are
  \<open>u32\<close> as naturals, probabilities \<open>i32\<close> as integers; both results are distributions whose
  weights fill the table exactly.
\<close>

section \<open>Table log\<close>

definition min_table_log :: "nat \<Rightarrow> nat \<Rightarrow> (unit, nat) res" where
  "min_table_log src_size max_symbol =
     (let min_bits_src = (if src_size = 0 then 1 else ilog2 src_size + 2) in
      rbind (rassert (0 < max_symbol)) (\<lambda>_. Ok (min min_bits_src (ilog2 max_symbol + 2))))"

definition optimal_table_log :: "nat \<Rightarrow> nat \<Rightarrow> nat \<Rightarrow> (unit, nat) res" where
  "optimal_table_log max_log src_size max_symbol =
     rbind (rassert (1 < src_size)) (\<lambda>_.
     let highbit = ilog2 (src_size - 1);
         max_bits_src = (if 2 \<le> highbit then highbit - 2 else highbit + 2 ^ 32 - 2)
     in rbind (min_table_log src_size max_symbol) (\<lambda>min_bits.
        let table_log = min max_log max_bits_src;
            table_log = max table_log min_bits
        in Ok (min 12 (max 5 table_log))))"

section \<open>The fallback\<close>

definition RTB_TABLE :: "nat list" where
  "RTB_TABLE = [0, 473195, 504333, 520860, 550000, 700000, 750000, 830000]"

definition NOT_YET_ASSIGNED :: int where
  "NOT_YET_ASSIGNED = -2"

text \<open>First pass: zero, low and single weights; the rest stays unassigned.\<close>

fun m2_small ::
  "nat \<Rightarrow> nat \<Rightarrow> int \<Rightarrow> nat list \<Rightarrow> nat \<Rightarrow> nat \<Rightarrow> (unit, int list \<times> nat \<times> nat) res" where
  "m2_small low_threshold low_one low_prob [] distributed tot = Ok ([], distributed, tot)"
| "m2_small low_threshold low_one low_prob (c # cs) distributed tot =
     (if c = 0 then
        rbind (m2_small low_threshold low_one low_prob cs distributed tot) (\<lambda>(ns, r). Ok (0 # ns, r))
      else if c \<le> low_threshold then
        rbind (rassert (c \<le> tot)) (\<lambda>_.
        rbind (m2_small low_threshold low_one low_prob cs (distributed + 1) (tot - c))
          (\<lambda>(ns, r). Ok (low_prob # ns, r)))
      else if c \<le> low_one then
        rbind (rassert (c \<le> tot)) (\<lambda>_.
        rbind (m2_small low_threshold low_one low_prob cs (distributed + 1) (tot - c))
          (\<lambda>(ns, r). Ok (1 # ns, r)))
      else
        rbind (m2_small low_threshold low_one low_prob cs distributed tot)
          (\<lambda>(ns, r). Ok (NOT_YET_ASSIGNED # ns, r)))"

text \<open>Second pass, when rounding to zero threatens.\<close>

fun m2_ones ::
  "nat \<Rightarrow> nat list \<Rightarrow> int list \<Rightarrow> nat \<Rightarrow> nat \<Rightarrow> (unit, int list \<times> nat \<times> nat) res" where
  "m2_ones low_one (c # cs) (n # ns) distributed tot =
     (if n = NOT_YET_ASSIGNED \<and> c \<le> low_one then
        rbind (rassert (c \<le> tot)) (\<lambda>_.
        rbind (m2_ones low_one cs ns (distributed + 1) (tot - c)) (\<lambda>(ns, r). Ok (1 # ns, r)))
      else rbind (m2_ones low_one cs ns distributed tot) (\<lambda>(ns, r). Ok (n # ns, r)))"
| "m2_ones low_one cs ns distributed tot = Ok (ns, distributed, tot)"

text \<open>The index of the first largest count.\<close>

fun max_index :: "nat list \<Rightarrow> nat \<Rightarrow> nat \<Rightarrow> nat \<Rightarrow> nat" where
  "max_index [] s max_v max_c = max_v"
| "max_index (c # cs) s max_v max_c =
     (if c > max_c then max_index cs (s + 1) s c else max_index cs (s + 1) max_v max_c)"

text \<open>
  Everything was small: the remainder is dealt out round-robin over the positive entries.  One
  round over the symbols deals at least one when any entry is positive, so
  \<open>to_distribute * length norm\<close> steps of fuel suffice; without a positive entry the loop does not
  end.
\<close>

fun m2_deal :: "nat \<Rightarrow> int list \<Rightarrow> nat \<Rightarrow> nat \<Rightarrow> (unit, int list) res" where
  "m2_deal 0 norm s to_distribute = (if to_distribute > 0 then Panic else Ok norm)"
| "m2_deal (Suc fuel) norm s to_distribute =
     (if to_distribute > 0 then
        rbind (rindex norm s) (\<lambda>n.
          if n > 0 then m2_deal fuel (norm[s := n + 1]) ((s + 1) mod length norm) (to_distribute - 1)
          else m2_deal fuel norm ((s + 1) mod length norm) to_distribute)
      else Ok norm)"

text \<open>The staircase; \<open>None\<close> is the \<open>false\<close> of the code.\<close>

fun m2_stairs ::
  "nat \<Rightarrow> nat \<Rightarrow> nat list \<Rightarrow> int list \<Rightarrow> nat \<Rightarrow> (unit, int list option) res" where
  "m2_stairs v_step_log r_step (c # cs) (n # ns) tmp_total =
     (if n = NOT_YET_ASSIGNED then
        let end' = tmp_total + c * r_step in
        rbind (rassert (end' < 2 ^ 64)) (\<lambda>_.
        let s_start = drop_bit v_step_log tmp_total mod 2 ^ 32;
            s_end = drop_bit v_step_log end' mod 2 ^ 32 in
        rbind (rassert (s_start \<le> s_end)) (\<lambda>_.
        let weight = s_end - s_start in
        if weight < 1 then Ok None
        else rbind (m2_stairs v_step_log r_step cs ns end') (\<lambda>r. Ok (map_option ((#) (int weight)) r))))
      else rbind (m2_stairs v_step_log r_step cs ns tmp_total) (\<lambda>r. Ok (map_option ((#) n) r)))"
| "m2_stairs v_step_log r_step cs ns tmp_total = Ok (Some ns)"

definition normalize_m2 :: "nat \<Rightarrow> nat list \<Rightarrow> nat \<Rightarrow> int \<Rightarrow> (unit, int list option) res" where
  "normalize_m2 table_log count tot low_prob =
     (let low_threshold = drop_bit table_log tot mod 2 ^ 32;
          low_one = drop_bit (table_log + 1) (tot * 3) mod 2 ^ 32
      in rbind (m2_small low_threshold low_one low_prob count 0 tot) (\<lambda>(norm, distributed, tot).
      rbind (rassert (distributed \<le> 2 ^ table_log)) (\<lambda>_.
      let to_distribute = 2 ^ table_log - distributed in
      if to_distribute = 0 then Ok (Some norm)
      else rbind
        (if tot div to_distribute > low_one then
           let low_one = (tot * 3) div (to_distribute * 2) mod 2 ^ 32 in
           rbind (m2_ones low_one count norm distributed tot) (\<lambda>(norm, distributed, tot).
           rbind (rassert (distributed \<le> 2 ^ table_log)) (\<lambda>_.
             Ok (norm, distributed, tot, 2 ^ table_log - distributed)))
         else Ok (norm, distributed, tot, to_distribute))
        (\<lambda>(norm, distributed, tot, to_distribute).
         if distributed = length count then
           let max_v = max_index count 0 0 0 in
           Ok (Some (norm[max_v := norm ! max_v + int to_distribute]))
         else if tot = 0 then
           rbind (m2_deal (to_distribute * length norm) norm 0 to_distribute) (\<lambda>norm. Ok (Some norm))
         else
           let v_step_log = 62 - table_log; mid = 2 ^ (v_step_log - 1) - 1 in
           rbind (rassert (2 ^ v_step_log * to_distribute + mid < 2 ^ 64)) (\<lambda>_.
             m2_stairs v_step_log ((2 ^ v_step_log * to_distribute + mid) div tot) count norm mid)))))"

section \<open>The main pass\<close>

fun norm_pass ::
  "nat \<Rightarrow> nat \<Rightarrow> nat \<Rightarrow> nat \<Rightarrow> int \<Rightarrow> nat \<Rightarrow> nat list \<Rightarrow> int \<Rightarrow> nat \<Rightarrow> int
    \<Rightarrow> (unit, int list \<times> int \<times> nat) res" where
  "norm_pass scale step v_step low_threshold low_prob s [] still largest largest_p =
     Ok ([], still, largest)"
| "norm_pass scale step v_step low_threshold low_prob s (c # cs) still largest largest_p =
     (if c = 0 then
        rbind (norm_pass scale step v_step low_threshold low_prob (s + 1) cs still largest largest_p)
          (\<lambda>(ns, r). Ok (0 # ns, r))
      else if c \<le> low_threshold then
        rbind (norm_pass scale step v_step low_threshold low_prob (s + 1) cs (still - 1) largest largest_p)
          (\<lambda>(ns, r). Ok (low_prob # ns, r))
      else
        let scaled = c * step in
        rbind (rassert (scaled < 2 ^ 64)) (\<lambda>_.
        let proba = drop_bit scale scaled;
            proba = (if proba < 8 then
                       let rest_to_beat = v_step * RTB_TABLE ! proba in
                       proba + of_bool (scaled - push_bit scale proba > rest_to_beat)
                     else proba)
        in rbind (norm_pass scale step v_step low_threshold low_prob (s + 1) cs (still - int proba)
                    (if int proba > largest_p then s else largest) (max largest_p (int proba)))
             (\<lambda>(ns, r). Ok (int proba # ns, r))))"

definition normalize_count :: "nat \<Rightarrow> nat list \<Rightarrow> nat \<Rightarrow> bool \<Rightarrow> (unit, int list option) res" where
  "normalize_count table_log count tot use_low_prob =
     (let low_prob = (if use_low_prob then -1 else 1);
          scale = 62 - table_log; step = 2 ^ 62 div max tot 1; v_step = 2 ^ (scale - 20);
          low_threshold = drop_bit table_log tot mod 2 ^ 32
      in rbind (norm_pass scale step v_step low_threshold low_prob 0 count (2 ^ table_log) 0 0)
        (\<lambda>(norm, still, largest).
      rbind (rindex norm largest) (\<lambda>n.
      if - still \<ge> drop_bit 1 n then normalize_m2 table_log count tot low_prob
      else Ok (Some (norm[largest := n + still])))))"

text \<open>The two table builds on top: the normalized one, and one state per live symbol.\<close>

definition build_normalized_table ::
  "nat list \<Rightarrow> nat \<Rightarrow> nat \<Rightarrow> nat \<Rightarrow> nat \<Rightarrow> (int list \<Rightarrow> nat \<Rightarrow> (unit, 't) res)
    \<Rightarrow> (unit, 't option) res" where
  "build_normalized_table counts nb_seq max_symbol max_log last_code build =
     rbind (rassert (2 < nb_seq)) (\<lambda>_.
     rbind (optimal_table_log max_log nb_seq max_symbol) (\<lambda>table_log.
     rbind (rindex counts last_code) (\<lambda>c.
     let (counts, tot) = (if c > 1 then (counts[last_code := c - 1], nb_seq - 1) else (counts, nb_seq))
     in rbind (rassert (max_symbol < length counts)) (\<lambda>_.
        rbind (normalize_count table_log (take (max_symbol + 1) counts) tot (tot \<ge> 2048)) (\<lambda>norm.
        case norm of None \<Rightarrow> Ok None
        | Some norm \<Rightarrow> rbind (build norm table_log) (\<lambda>t. Ok (Some t)))))))"

definition flat_norm :: "nat list \<Rightarrow> nat \<Rightarrow> (unit, int list \<times> nat) res" where
  "flat_norm counts max_symbol =
     (let count = take (max_symbol + 1) counts; live = length (filter (\<lambda>c. c > 0) count) in
      rbind (rassert (max_symbol < length counts \<and> 2 \<le> live)) (\<lambda>_.
      let table_log = max 5 (ilog2 (live - 1) + 1);
          norm = map (\<lambda>c. if c > 0 then 1 else 0) count;
          largest = max_index count 0 0 0
      in Ok (norm[largest := norm ! largest + (2 ^ table_log - int live)], table_log)))"

end
