(* ===== verification/Io.thy ===== *)
theory Io
  imports Prelude
begin

text \<open>
  The byte sources of \<open>io_nostd.rs\<close> (the traits of \<open>std::io\<close> behave the same): \<open>Read\<close> with
  its provided method \<open>read_exact\<close>, the implementations for byte slices and for \<open>Take\<close>, and
  \<open>Write\<close> with \<open>write_all\<close> for vectors and fixed slices.  A reader is a state \<open>'r\<close> with a
  \<open>read\<close> function; the reader of every parser below is such a pair, so that a parser is
  translated once for all sources.  Of an \<open>Error\<close> only the kind is kept.
\<close>

section \<open>Readers\<close>

datatype ErrorKind = Interrupted | UnexpectedEof | WouldBlock | OtherError | WriteAllEof

type_synonym 'r reader = "'r \<Rightarrow> nat \<Rightarrow> (ErrorKind, bytes) res \<times> 'r"

text \<open>
  The loop of \<open>read_exact\<close>, with the bytes stored so far; a source that is interrupted for ever
  makes it run for ever, which is the result \<open>None\<close>.
\<close>

partial_function (option) read_exact_loop ::
  "'r reader \<Rightarrow> 'r \<Rightarrow> nat \<Rightarrow> bytes \<Rightarrow> ((ErrorKind, bytes) res \<times> 'r) option" where
  "read_exact_loop rd r n acc =
     (if n = 0 then Some (Ok acc, r)
      else case rd r n of
        (Ok bs, r') \<Rightarrow>
          if bs = [] then Some (Err UnexpectedEof, r')
          else if length bs > n then Some (Panic, r')
          else read_exact_loop rd r' (n - length bs) (acc @ bs)
      | (Err e, r') \<Rightarrow>
          if e = Interrupted then read_exact_loop rd r' n acc else Some (Err e, r')
      | (Panic, r') \<Rightarrow> Some (Panic, r'))"

declare read_exact_loop.simps [code]

text \<open>Reading \<open>n\<close> bytes; not returning is the outcome \<open>Panic\<close>, and after a failure the source is lost.\<close>

definition read_exact :: "'r reader \<Rightarrow> 'r \<Rightarrow> nat \<Rightarrow> (ErrorKind, bytes \<times> 'r) res" where
  "read_exact rd r n =
     (case read_exact_loop rd r n [] of
        Some (Ok bs, r') \<Rightarrow> Ok (bs, r')
      | Some (Err e, r') \<Rightarrow> Err e
      | _ \<Rightarrow> Panic)"

definition slice_read :: "bytes reader" where
  "slice_read r n = (let k = min (length r) n in (Ok (take k r), drop k r))"

record 'r Take =
  tk_inner :: 'r
  tk_limit :: nat

definition take_read :: "'r reader \<Rightarrow> 'r Take reader" where
  "take_read rd t n =
     (if tk_limit t = 0 then (Ok [], t)
      else let at_most = min (tk_limit t) n in
        case rd (tk_inner t) at_most of
          (Ok bs, r') \<Rightarrow>
            (if length bs \<le> tk_limit t
             then (Ok bs, t\<lparr>tk_inner := r', tk_limit := tk_limit t - length bs\<rparr>)
             else (Panic, t\<lparr>tk_inner := r'\<rparr>))
        | (e, r') \<Rightarrow> (e, t\<lparr>tk_inner := r'\<rparr>))"

section \<open>Writers\<close>

type_synonym 'w writer = "'w \<Rightarrow> bytes \<Rightarrow> (ErrorKind, nat) res \<times> 'w"

partial_function (option) write_all_loop ::
  "'w writer \<Rightarrow> 'w \<Rightarrow> bytes \<Rightarrow> ((ErrorKind, unit) res \<times> 'w) option" where
  "write_all_loop wr w buf =
     (if buf = [] then Some (Ok (), w)
      else case wr w buf of
        (Ok n, w') \<Rightarrow>
          if n = 0 then Some (Err WriteAllEof, w')
          else if n > length buf then Some (Panic, w')
          else write_all_loop wr w' (drop n buf)
      | (Err e, w') \<Rightarrow>
          if e = Interrupted then write_all_loop wr w' buf else Some (Err e, w')
      | (Panic, w') \<Rightarrow> Some (Panic, w'))"

declare write_all_loop.simps [code]

definition vec_write :: "bytes writer" where
  "vec_write out data = (Ok (length data), out @ data)"

text \<open>A mutable slice, as the bytes written so far and the room that is left.\<close>

record SliceWriter =
  sl_written :: bytes
  sl_room :: nat

definition slice_write :: "SliceWriter writer" where
  "slice_write s data =
     (let amt = min (length data) (sl_room s)
      in (Ok amt, \<lparr>sl_written = sl_written s @ take amt data, sl_room = sl_room s - amt\<rparr>))"

section \<open>The contract of a source\<close>

text \<open>
  \<open>pending r\<close> is what the source \<open>r\<close> has still to deliver: a read of a non-empty buffer delivers
  a non-empty part of it, and nothing only at the end.
\<close>

definition take_pending :: "('r \<Rightarrow> bytes) \<Rightarrow> 'r Take \<Rightarrow> bytes" where
  "take_pending pending t = take (tk_limit t) (pending (tk_inner t))"

locale byte_source =
  fixes rd :: "'r reader"
    and pending :: "'r \<Rightarrow> bytes"
  assumes read_some: "0 < n \<Longrightarrow> \<exists>k r'. rd r n = (Ok (take k (pending r)), r')
    \<and> k \<le> n \<and> (k = 0 \<longrightarrow> pending r = []) \<and> k \<le> length (pending r) \<and> pending r' = drop k (pending r)"
begin

lemma loop_ok:
  "n \<le> length (pending r) \<Longrightarrow> \<exists>r'. read_exact_loop rd r n acc = Some (Ok (acc @ take n (pending r)), r')
     \<and> pending r' = drop n (pending r)"
proof (induction n arbitrary: r acc rule: less_induct)
  case (less n)
  show ?case
  proof (cases "n = 0")
    case True
    then show ?thesis by (simp add: read_exact_loop.simps)
  next
    case False
    then obtain k r' where k: "rd r n = (Ok (take k (pending r)), r')" "k \<le> n"
        "k = 0 \<longrightarrow> pending r = []" "k \<le> length (pending r)" "pending r' = drop k (pending r)"
      using read_some by blast
    have pos: "k \<noteq> 0" "take k (pending r) \<noteq> []" using k less.prems False by auto
    have "take n (pending r) = take k (pending r) @ take (n - k) (pending r')"
      using k(2) by (simp add: k(5) flip: take_add)
    moreover have "drop (n - k) (pending r') = drop n (pending r)" using k(2) by (simp add: k(5))
    moreover obtain r'' where "read_exact_loop rd r' (n - k) (acc @ take k (pending r))
        = Some (Ok ((acc @ take k (pending r)) @ take (n - k) (pending r')), r'')"
        "pending r'' = drop (n - k) (pending r')"
    proof -
      have "n - k < n" "n - k \<le> length (pending r')" using less.prems k pos(1) False by auto
      from less.IH [OF this] show ?thesis using that by blast
    qed
    ultimately show ?thesis
      using k(1,2,4) pos False by (subst read_exact_loop.simps) (auto simp: min_absorb2)
  qed
qed

lemma loop_short:
  "length (pending r) < n \<Longrightarrow> \<exists>r'. read_exact_loop rd r n acc = Some (Err UnexpectedEof, r')"
proof (induction n arbitrary: r acc rule: less_induct)
  case (less n)
  then obtain k r' where k: "rd r n = (Ok (take k (pending r)), r')" "k \<le> n"
      "k = 0 \<longrightarrow> pending r = []" "k \<le> length (pending r)" "pending r' = drop k (pending r)"
    using read_some [of n r] by auto
  show ?case
  proof (cases "k = 0")
    case True
    with k less.prems show ?thesis by (subst read_exact_loop.simps) auto
  next
    case False
    have "length (pending r') < n - k" using k less.prems by auto
    then obtain r'' where "read_exact_loop rd r' (n - k) (acc @ take k (pending r))
        = Some (Err UnexpectedEof, r'')"
      using less.IH [of "n - k" r'] False less.prems by fastforce
    then show ?thesis
      using k False less.prems by (subst read_exact_loop.simps) (auto simp: min_absorb2)
  qed
qed

lemma read_exact_ok:
  "n \<le> length (pending r) \<Longrightarrow>
     \<exists>r'. read_exact rd r n = Ok (take n (pending r), r') \<and> pending r' = drop n (pending r)"
  using loop_ok [of n r "[]"] by (auto simp: read_exact_def)

lemma read_exact_short:
  "length (pending r) < n \<Longrightarrow> read_exact rd r n = Err UnexpectedEof"
  using loop_short [of r n "[]"] by (auto simp: read_exact_def)

text \<open>\<open>Take\<close> of a well-behaved source is a well-behaved source.\<close>

lemma take_source: "byte_source (take_read rd) (take_pending pending)"
proof unfold_locales
  fix n :: nat and t :: "'r Take"
  assume n: "0 < n"
  let ?m = "min (tk_limit t) n"
  show "\<exists>k t'. take_read rd t n = (Ok (take k (take_pending pending t)), t') \<and> k \<le> n
    \<and> (k = 0 \<longrightarrow> take_pending pending t = []) \<and> k \<le> length (take_pending pending t)
    \<and> take_pending pending t' = drop k (take_pending pending t)"
  proof (cases "tk_limit t = 0")
    case True
    then show ?thesis by (auto simp: take_read_def take_pending_def)
  next
    case False
    with n have "0 < ?m" by simp
    from read_some [OF this, of "tk_inner t"] obtain k r' where k:
      "rd (tk_inner t) ?m = (Ok (take k (pending (tk_inner t))), r')" "k \<le> ?m"
      "k = 0 \<longrightarrow> pending (tk_inner t) = []" "k \<le> length (pending (tk_inner t))"
      "pending r' = drop k (pending (tk_inner t))" by blast
    show ?thesis
    proof (intro exI conjI)
      show "take_read rd t n = (Ok (take k (take_pending pending t)),
          t\<lparr>tk_inner := r', tk_limit := tk_limit t - k\<rparr>)"
        using k False by (auto simp: take_read_def take_pending_def Let_def min_def split: if_splits)
      show "take_pending pending (t\<lparr>tk_inner := r', tk_limit := tk_limit t - k\<rparr>)
          = drop k (take_pending pending t)"
        using k by (simp add: take_pending_def drop_take)
    qed (use k in \<open>auto simp: take_pending_def\<close>)
  qed
qed

end

lemma slice_read_some: "0 < n \<Longrightarrow> \<exists>k r'. slice_read r n = (Ok (take k r), r')
    \<and> k \<le> n \<and> (k = 0 \<longrightarrow> r = []) \<and> k \<le> length r \<and> r' = drop k r"
  by (rule exI [of _ "min (length r) n"]) (auto simp: slice_read_def Let_def min_def split: if_splits)

interpretation slice: byte_source slice_read "\<lambda>r. r"
  by unfold_locales (rule slice_read_some)

interpretation slice_take: byte_source "take_read slice_read" "take_pending (\<lambda>r. r)"
  by (rule slice.take_source)

lemma read_exact_slice:
  "read_exact slice_read r n = (if n \<le> length r then Ok (take n r, drop n r) else Err UnexpectedEof)"
  using slice.read_exact_ok [of n r] slice.read_exact_short [of r n] by auto

lemma read_exact_slice_app [simp]:
  "n = length xs \<Longrightarrow> read_exact slice_read (xs @ ys) n = Ok (xs, ys)"
  by (simp add: read_exact_slice)

text \<open>Writing everything to a vector or to a slice with room.\<close>

lemma write_all_vec: "write_all_loop vec_write out buf = Some (Ok (), out @ buf)"
  by (cases "buf = []") (simp_all add: write_all_loop.simps vec_write_def)

lemma write_all_slice:
  "write_all_loop slice_write s buf =
     (if length buf \<le> sl_room s
      then Some (Ok (), \<lparr>sl_written = sl_written s @ buf, sl_room = sl_room s - length buf\<rparr>)
      else Some (Err WriteAllEof, \<lparr>sl_written = sl_written s @ take (sl_room s) buf, sl_room = 0\<rparr>))"
proof (cases "buf = []")
  case False
  then show ?thesis
    by (cases "length buf \<le> sl_room s"; cases "sl_room s = 0")
      (simp_all add: write_all_loop.simps slice_write_def Let_def min_def)
qed (simp add: write_all_loop.simps)

end
