(* ===== verification/Frame_Header.thy ===== *)
theory Frame_Header
  imports Io Bit_Writer
begin

text \<open>
  Frame headers: the constants of \<open>common/mod.rs\<close>, the parser of \<open>decoding/frame.rs\<close> and the
  writer of \<open>encoding/frame_header.rs\<close> with the size classes of \<open>encoding/util.rs\<close>.  What the
  parser makes of a written header is stated by \<open>parsed_header\<close>.
\<close>

unbundle bit_operations_syntax

section \<open>Constants\<close>

definition MAGIC_NUM :: u32 where
  "MAGIC_NUM = 0xfd2fb528"

definition MIN_WINDOW_SIZE :: u64 where
  "MIN_WINDOW_SIZE = 1024"

definition MAX_WINDOW_SIZE :: u64 where
  "MAX_WINDOW_SIZE = push_bit 31 1"

definition MAX_BLOCK_SIZE :: u32 where
  "MAX_BLOCK_SIZE = 128 * 1024"

definition max_block_output :: "nat \<Rightarrow> nat" where
  "max_block_output window_size =
     (if window_size < unat MAX_BLOCK_SIZE then window_size else unat MAX_BLOCK_SIZE)"

definition streaming_buffer_cap :: "nat \<Rightarrow> u64 option \<Rightarrow> nat" where
  "streaming_buffer_cap window_size fcs =
     (let window = (if window_size < unat MIN_WINDOW_SIZE then unat MIN_WINDOW_SIZE else window_size);
          needed = window + 2 * max_block_output window_size + 64
      in case fcs of
           Some f \<Rightarrow> if unat f < needed then unat f else needed
         | None \<Rightarrow> needed)"

section \<open>Parsing\<close>

datatype FrameDescriptorError =
    InvalidFrameContentSizeFlag u8
  | ReservedBitSet u8

datatype FrameHeaderError =
    WindowTooBig u64
  | WindowTooSmall u64
  | FHE_FrameDescriptorError FrameDescriptorError
  | DictIdTooSmall nat nat
  | MismatchedFrameSize nat u8
  | FrameSizeIsZero
  | InvalidFrameSize u8

datatype ReadFrameHeaderError =
    MagicNumberReadError ErrorKind
  | BadMagicNumber u32
  | FrameDescriptorReadError ErrorKind
  | InvalidFrameDescriptor FrameDescriptorError
  | WindowDescriptorReadError ErrorKind
  | DictionaryIdReadError ErrorKind
  | FrameContentSizeReadError ErrorKind
  | SkipFrame u32 u32

definition is_skippable_magic :: "u32 \<Rightarrow> bool" where
  "is_skippable_magic magic_num \<longleftrightarrow> 0x184d2a50 \<le> magic_num \<and> magic_num \<le> 0x184d2a5f"

subsection \<open>The frame header descriptor\<close>

type_synonym FrameDescriptor = u8

definition frame_content_size_flag :: "FrameDescriptor \<Rightarrow> u8" where
  "frame_content_size_flag d = drop_bit 6 d"

definition reserved_flag :: "FrameDescriptor \<Rightarrow> bool" where
  "reserved_flag d \<longleftrightarrow> drop_bit 3 d AND 1 = 1"

definition single_segment_flag :: "FrameDescriptor \<Rightarrow> bool" where
  "single_segment_flag d \<longleftrightarrow> drop_bit 5 d AND 1 = 1"

definition content_checksum_flag :: "FrameDescriptor \<Rightarrow> bool" where
  "content_checksum_flag d \<longleftrightarrow> drop_bit 2 d AND 1 = 1"

definition dict_id_flag :: "FrameDescriptor \<Rightarrow> u8" where
  "dict_id_flag d = d AND 3"

definition declares_content_size :: "FrameDescriptor \<Rightarrow> bool" where
  "declares_content_size d \<longleftrightarrow> frame_content_size_flag d \<noteq> 0 \<or> single_segment_flag d"

definition frame_content_size_bytes :: "FrameDescriptor \<Rightarrow> (FrameDescriptorError, nat) res" where
  "frame_content_size_bytes d =
     (let f = frame_content_size_flag d in
      if f = 0 then (if single_segment_flag d then Ok 1 else Ok 0)
      else if f = 1 then Ok 2
      else if f = 2 then Ok 4
      else if f = 3 then Ok 8
      else Err (InvalidFrameContentSizeFlag f))"

definition dictionary_id_bytes :: "FrameDescriptor \<Rightarrow> (FrameDescriptorError, nat) res" where
  "dictionary_id_bytes d =
     (let f = dict_id_flag d in
      if f = 0 then Ok 0
      else if f = 1 then Ok 1
      else if f = 2 then Ok 2
      else if f = 3 then Ok 4
      else Err (InvalidFrameContentSizeFlag f))"

subsection \<open>The header\<close>

record FrameHeader =
  fh_descriptor :: FrameDescriptor
  fh_window_descriptor :: u8
  fh_dict_id :: "u32 option"
  fh_frame_content_size :: u64

text \<open>The little-endian sums of the parser: \<open>(buf[i] as T) << (8 * i)\<close>, added up.\<close>

definition le_sum :: "bytes \<Rightarrow> 'a::len word" where
  "le_sum buf = foldl (\<lambda>v i. v + push_bit (8 * i) (ucast (buf ! i))) 0 [0..<length buf]"

definition u32_from_le_bytes :: "bytes \<Rightarrow> u32" where
  "u32_from_le_bytes bs = horner_sum of_bool 2 (bytes_bits bs)"

definition window_size :: "FrameHeader \<Rightarrow> (FrameHeaderError, u64) res" where
  "window_size h =
     (if single_segment_flag (fh_descriptor h) then Ok (fh_frame_content_size h)
      else
        let exp = drop_bit 3 (fh_window_descriptor h);
            mantissa = fh_window_descriptor h AND 7;
            window_log = 10 + unat exp;
            window_base = push_bit window_log 1 :: u64;
            window_add = (window_base div 8) * ucast mantissa;
            window_size = window_base + window_add
        in if window_size \<ge> MIN_WINDOW_SIZE then
             if window_size \<le> MAX_WINDOW_SIZE then Ok window_size
             else Err (WindowTooBig window_size)
           else Err (WindowTooSmall window_size))"

text \<open>The parser returns the header, the number of bytes read and the source after them.\<close>

definition read_frame_header ::
  "'r reader \<Rightarrow> 'r \<Rightarrow> (ReadFrameHeaderError, FrameHeader \<times> nat \<times> 'r) res" where
  "read_frame_header rd r =
     rbind (rmap_err MagicNumberReadError (read_exact rd r 4)) (\<lambda>(buf, r).
     let magic_num = u32_from_le_bytes buf in
     if is_skippable_magic magic_num then
       rbind (rmap_err FrameDescriptorReadError (read_exact rd r 4)) (\<lambda>(buf, r).
         Err (SkipFrame magic_num (u32_from_le_bytes buf)))
     else if magic_num \<noteq> MAGIC_NUM then Err (BadMagicNumber magic_num)
     else
     rbind (rmap_err FrameDescriptorReadError (read_exact rd r 1)) (\<lambda>(buf, r).
     let desc = buf ! 0 in
     if reserved_flag desc then Err (InvalidFrameDescriptor (ReservedBitSet desc))
     else
     rbind (if \<not> single_segment_flag desc then
              rbind (rmap_err WindowDescriptorReadError (read_exact rd r 1)) (\<lambda>(buf, r).
                Ok (buf ! 0, 6, r))
            else Ok (0, 5, r)) (\<lambda>(window_descriptor, bytes_read, r).
     rbind (rmap_err InvalidFrameDescriptor (dictionary_id_bytes desc)) (\<lambda>dict_id_len.
     rbind (if dict_id_len \<noteq> 0 then
              rbind (rmap_err DictionaryIdReadError (read_exact rd r dict_id_len)) (\<lambda>(buf, r).
                let dict_id = le_sum buf in
                Ok (if dict_id \<noteq> 0 then Some dict_id else None, bytes_read + dict_id_len, r))
            else Ok (None, bytes_read, r)) (\<lambda>(dict_id, bytes_read, r).
     rbind (rmap_err InvalidFrameDescriptor (frame_content_size_bytes desc)) (\<lambda>fcs_len.
     rbind (if fcs_len \<noteq> 0 then
              rbind (rmap_err FrameContentSizeReadError (read_exact rd r fcs_len)) (\<lambda>(buf, r).
                let fcs = le_sum buf;
                    fcs = (if fcs_len = 2 then fcs + 256 else fcs)
                in Ok (fcs, bytes_read + fcs_len, r))
            else Ok (0, bytes_read, r)) (\<lambda>(fcs, bytes_read, r).
       Ok (\<lparr>fh_descriptor = desc, fh_window_descriptor = window_descriptor,
            fh_dict_id = dict_id, fh_frame_content_size = fcs\<rparr>, bytes_read, r))))))))"

section \<open>Writing\<close>

definition find_min_size :: "u64 \<Rightarrow> nat" where
  "find_min_size val =
     (if val = 0 then 1
      else if drop_bit 8 val = 0 then 1
      else if drop_bit 16 val = 0 then 2
      else if drop_bit 32 val = 0 then 4
      else 8)"

definition minify_val :: "u64 \<Rightarrow> bytes" where
  "minify_val val = take (find_min_size val) (u64_to_le_bytes val)"

definition u32_to_le_bytes :: "u32 \<Rightarrow> bytes" where
  "u32_to_le_bytes w = map (\<lambda>i. ucast (drop_bit (8 * i) w)) [0..<4]"

record EncFrameHeader =
  eh_frame_content_size :: "u64 option"
  eh_single_segment :: bool
  eh_content_checksum :: bool
  eh_dictionary_id :: "u32 option"
  eh_window_size :: "u64 option"

definition normalized :: "EncFrameHeader \<Rightarrow> EncFrameHeader" where
  "normalized h =
     (if \<not> eh_single_segment h
        \<and> (case eh_frame_content_size h of None \<Rightarrow> False | Some v \<Rightarrow> find_min_size v = 1)
      then h\<lparr>eh_frame_content_size := None\<rparr> else h)"

definition fcs_field_class :: "u64 \<Rightarrow> nat" where
  "fcs_field_class val =
     (if val \<le> 255 then 1
      else if val \<le> 65791 then 2
      else if val < 0xffffffff then 4
      else 8)"

text \<open>The writes of the descriptor, in the order of the source.\<close>

definition descriptor_dict_flag :: "EncFrameHeader \<Rightarrow> (unit, u64) res" where
  "descriptor_dict_flag h =
     (case eh_dictionary_id h of
        Some did \<Rightarrow>
          (let s = find_min_size (ucast did) in
           if s = 1 then Ok 1 else if s = 2 then Ok 2 else if s = 4 then Ok 3 else Panic)
      | None \<Rightarrow> Ok 0)"

definition descriptor_fcs_flag :: "EncFrameHeader \<Rightarrow> u64" where
  "descriptor_fcs_flag h =
     (case eh_frame_content_size h of
        Some v \<Rightarrow>
          (let c = fcs_field_class v in
           if c = 1 then 0 else if c = 2 then 1 else if c = 4 then 2 else 3)
      | None \<Rightarrow> 0)"

definition descriptor :: "EncFrameHeader \<Rightarrow> (unit, u8) res" where
  "descriptor h =
     rbind (descriptor_dict_flag h) (\<lambda>flag_value.
     rbind (bw_write_bits bw_new flag_value 2) (\<lambda>bw.
     rbind (bw_write_bits bw (if eh_content_checksum h then 1 else 0) 1) (\<lambda>bw.
     rbind (bw_write_bits bw 0 1) (\<lambda>bw.
     rbind (bw_write_bits bw 0 1) (\<lambda>bw.
     rbind (if eh_single_segment h then
              rbind (rassert (eh_frame_content_size h \<noteq> None)) (\<lambda>_. bw_write_bits bw 1 1)
            else
              rbind (rassert (eh_window_size h \<noteq> None)) (\<lambda>_. bw_write_bits bw 0 1)) (\<lambda>bw.
     rbind (bw_write_bits bw (descriptor_fcs_flag h) 2) (\<lambda>bw.
     rbind (bw_dump bw) (\<lambda>out. rindex out 0))))))))"

definition minify_val_fcs :: "u64 \<Rightarrow> bytes" where
  "minify_val_fcs val =
     (let new_size = fcs_field_class val;
          val = (if new_size = 2 then val - 256 else val)
      in take new_size (u64_to_le_bytes val))"

text \<open>\<open>next_power_of_two\<close> of a \<open>u64\<close>: past \<open>2^63\<close> it overflows, a panic in checked builds.\<close>

fun next_power_of_two :: "nat \<Rightarrow> nat \<Rightarrow> nat \<Rightarrow> (unit, nat) res" where
  "next_power_of_two 0 p v = Panic"
| "next_power_of_two (Suc k) p v = (if v \<le> p then Ok p else next_power_of_two k (2 * p) v)"

definition window_descriptor_byte :: "u64 \<Rightarrow> (unit, u8) res" where
  "window_descriptor_byte ws =
     rbind (next_power_of_two 64 1 (unat ws)) (\<lambda>p.
       let log = ilog2 p; exponent = of_nat (log - 10) :: u8
       in Ok (push_bit 3 exponent))"

definition serialize :: "EncFrameHeader \<Rightarrow> bytes \<Rightarrow> (unit, bytes) res" where
  "serialize h0 output =
     (let header = normalized h0;
          output = output @ u32_to_le_bytes MAGIC_NUM
      in rbind (descriptor header) (\<lambda>d.
         let output = output @ [d] in
         rbind (case (eh_single_segment header, eh_window_size header) of
                  (False, Some ws) \<Rightarrow>
                    rbind (window_descriptor_byte ws) (\<lambda>b. Ok (output @ [b]))
                | _ \<Rightarrow> Ok output) (\<lambda>output.
         let output = (case eh_dictionary_id header of
                         Some did \<Rightarrow> output @ minify_val (ucast did) | None \<Rightarrow> output);
             output = (case eh_frame_content_size header of
                         Some v \<Rightarrow> output @ minify_val_fcs v | None \<Rightarrow> output)
         in Ok output)))"

section \<open>Little-endian fields\<close>

lemma ucast_byte_horner:
  "8 \<le> LENGTH('a) \<Longrightarrow> (ucast (b :: u8) :: 'a::len word) = horner_sum of_bool 2 (byte_bits b)"
  by (rule bit_word_eqI)
    (auto simp: bit_ucast_iff bit_horner_sum_bit_iff nth_byte_bits_bit dest: bit_imp_le_length)

lemma le_sum_horner:
  assumes "8 \<le> LENGTH('a::len)"
  shows "(le_sum buf :: 'a word) = horner_sum of_bool 2 (bytes_bits buf)"
proof -
  have "k \<le> length buf \<Longrightarrow>
      foldl (\<lambda>v i. v + push_bit (8 * i) (ucast (buf ! i))) 0 [0..<k]
        = (horner_sum of_bool 2 (bytes_bits (take k buf)) :: 'a word)" for k
  proof (induction k)
    case (Suc k)
    then have "take (Suc k) buf = take k buf @ [buf ! k]" by (simp add: take_Suc_conv_app_nth)
    with Suc show ?case
      by (simp add: horner_sum_append ucast_byte_horner [OF assms] push_bit_eq_mult mult.commute)
  qed simp
  from this [of "length buf"] show ?thesis by (simp add: le_sum_def)
qed

lemma le_bytes_value:
  assumes "n \<le> 8" "8 \<le> LENGTH('a)" "8 * n \<le> LENGTH('a)" "unat v < 2 ^ (8 * n)"
  shows "le_sum (take n (u64_to_le_bytes v)) = (ucast v :: 'a::len word)"
proof -
  have v: "bit v i \<Longrightarrow> i < 8 * n" for i
    using unat_less_take_bit [OF assms(4)] by (metis bit_take_bit_iff)
  have "bytes_bits (take n (u64_to_le_bytes v)) = take (8 * n) (word_bits 64 v)"
    by (simp only: take_bytes_bits [symmetric] bytes_bits_u64_to_le_bytes)
  moreover have "horner_sum of_bool 2 (take (8 * n) (word_bits 64 v)) = (ucast v :: 'a word)"
  proof (rule bit_word_eqI)
    fix i
    show "bit (horner_sum of_bool 2 (take (8 * n) (word_bits 64 v)) :: 'a word) i
        \<longleftrightarrow> bit (ucast v :: 'a word) i" if "i < LENGTH('a)"
      using v [of i] assms(1,3) that by (auto simp: bit_horner_sum_bit_iff bit_ucast_iff)
  qed
  ultimately show ?thesis by (simp only: le_sum_horner [OF assms(2)])
qed

lemma bytes_bits_u32_to_le_bytes: "bytes_bits (u32_to_le_bytes w) = map (bit w) [0..<32]"
  by (rule nth_equalityI)
    (auto simp: nth_bytes_bits u32_to_le_bytes_def bit_ucast_iff bit_drop_bit_eq
      simp del: upt_conv_Cons simp flip: mult.commute)

lemma u32_le_bytes [simp]:
  "u32_from_le_bytes (u32_to_le_bytes w) = w" "length (u32_to_le_bytes w) = 4"
proof -
  show "u32_from_le_bytes (u32_to_le_bytes w) = w"
    unfolding u32_from_le_bytes_def bytes_bits_u32_to_le_bytes
    by (rule bit_word_eqI) (auto simp: bit_horner_sum_bit_iff simp del: upt_conv_Cons)
  show "length (u32_to_le_bytes w) = 4" by (simp add: u32_to_le_bytes_def)
qed

lemma drop_bit_0_iff: "drop_bit n (v :: u64) = 0 \<longleftrightarrow> unat v < 2 ^ n"
proof -
  have v: "take_bit 64 (unat v) = unat v"
    using unsigned_less [of v, where 'a = nat] by (simp add: take_bit_nat_eq_self)
  have "drop_bit n v = 0 \<longleftrightarrow> unat (drop_bit n v) = 0" by (simp add: unat_eq_0)
  also have "unat (drop_bit n v) = unat v div 2 ^ n" by (simp only: unsigned_drop_bit_eq) (simp add: drop_bit_eq_div v)
  finally show ?thesis by (simp add: div_eq_0_iff)
qed

lemma find_min_size_spec:
  "find_min_size v \<in> {1, 2, 4, 8}" "unat v < 2 ^ (8 * find_min_size v)" "find_min_size v \<le> 8"
  "length (minify_val v) = find_min_size v"
  using unsigned_less [of v, where 'a = nat]
  by (auto simp: find_min_size_def drop_bit_0_iff minify_val_def)

lemma fcs_class_spec:
  "fcs_field_class v \<in> {1, 2, 4, 8}"
  "fcs_field_class v \<noteq> 2 \<Longrightarrow> unat v < 2 ^ (8 * fcs_field_class v)"
  "fcs_field_class v = 2 \<Longrightarrow> 256 \<le> v \<and> unat (v - 256) < 2 ^ 16"
  "length (minify_val_fcs v) = fcs_field_class v"
  using unsigned_less [of v, where 'a = nat]
  by (auto simp: fcs_field_class_def word_le_nat_alt word_less_nat_alt minify_val_fcs_def Let_def
    unat_sub split: if_splits)


section \<open>The descriptor\<close>

definition header_ok :: "EncFrameHeader \<Rightarrow> bool" where
  "header_ok h \<longleftrightarrow> (if eh_single_segment h then eh_frame_content_size h \<noteq> None
     else (case eh_window_size h of None \<Rightarrow> False | Some ws \<Rightarrow> unat ws \<le> 2 ^ 63))"

definition dict_class :: "u32 option \<Rightarrow> nat" where
  "dict_class d = (case d of None \<Rightarrow> 0 | Some did \<Rightarrow>
     let s = find_min_size (ucast did) in if s = 4 then 3 else s)"

lemma dict_min_size: "find_min_size (ucast (did :: u32)) \<in> {1, 2, 4}"
proof -
  have "unat (ucast did :: u64) < 2 ^ 32"
    using unsigned_less [of did, where 'a = nat] by (simp add: unsigned_ucast_eq take_bit_nat_eq_self)
  then show ?thesis by (auto simp: find_min_size_def drop_bit_0_iff)
qed

lemma dict_flag_ok:
  "descriptor_dict_flag h = Ok (of_nat (dict_class (eh_dictionary_id h)))"
  "dict_class (eh_dictionary_id h) < 4"
proof -
  have "descriptor_dict_flag h = Ok (of_nat (dict_class (eh_dictionary_id h)))
      \<and> dict_class (eh_dictionary_id h) < 4"
    using dict_min_size [of "the (eh_dictionary_id h)"]
    by (cases "eh_dictionary_id h") (auto simp: descriptor_dict_flag_def dict_class_def Let_def)
  then show "descriptor_dict_flag h = Ok (of_nat (dict_class (eh_dictionary_id h)))"
    "dict_class (eh_dictionary_id h) < 4" by simp_all
qed

lemma fcs_flag_less: "unat (descriptor_fcs_flag h) < 4"
  by (auto simp: descriptor_fcs_flag_def Let_def split: option.split)

text \<open>The eight bits of the descriptor, as the writer emits them.\<close>

lemma descriptor_bits:
  assumes "header_ok h"
  shows "\<exists>d. descriptor h = Ok d \<and> byte_bits d =
    field_bits [(of_nat (dict_class (eh_dictionary_id h)), 2),
      (if eh_content_checksum h then 1 else 0, 1), (0, 1), (0, 1),
      (if eh_single_segment h then 1 else 0, 1), (descriptor_fcs_flag h, 2)]"
    (is "\<exists>d. _ \<and> byte_bits d = field_bits ?fs")
proof -
  have "unat (of_nat (dict_class (eh_dictionary_id h)) :: u64) < 4"
    using dict_flag_ok(2) [of h] by (simp add: unat_of_nat)
  then have "list_all field_ok ?fs" using fcs_flag_less [of h] by (simp add: field_ok_def)
  then obtain w where w: "put_all bw_write_bits_64 ?fs bw_new = Ok w" "bw_inv w"
      "bw_bits w = field_bits ?fs"
    using bw.put_all_ok [of bw_new ?fs] by auto
  have len: "length (field_bits ?fs) = 8" by simp
  obtain out where out: "bw_dump w = Ok out" "bytes_bits out = field_bits ?fs"
    using bw_dump_correct [OF w(2)] w(3) len by auto
  have "length out = 1" using out(2) len by (metis length_bytes_bits mult_cancel1 numeral_eq_iff zero_neq_numeral nat_mult_1_right)
  then obtain d where d: "out = [d]" by (cases out) auto
  have "descriptor h = rbind (put_all bw_write_bits_64 ?fs bw_new) (\<lambda>bw.
      rbind (bw_dump bw) (\<lambda>out. rindex out 0))"
    using assms unfolding header_ok_def
    by (auto simp: descriptor_def dict_flag_ok bw_write_bits_def rbind_assoc rassert_def
      split: option.splits)
  then show ?thesis using w(1) out d by simp
qed


lemma descriptor_flags:
  assumes d: "byte_bits d = field_bits [(of_nat a, 2), (if c then 1 else 0, 1), (0, 1), (0, 1),
      (if s then 1 else 0, 1), (f, 2)]"
    and a: "a < 4" and f: "unat f < 4"
  shows "dict_id_flag d = of_nat a" "content_checksum_flag d = c" "\<not> reserved_flag d"
    "single_segment_flag d = s" "frame_content_size_flag d = ucast f"
proof -
  have w1: "word_bits 1 (if b then 1 else 0) = [b]" for b by (simp add: word_bits_def)
  have w2: "word_bits 2 x = [bit x 0, bit x 1]" for x by (simp add: word_bits_def upt_rec)
  have eq: "byte_bits d = [bit (of_nat a :: u64) 0, bit (of_nat a :: u64) 1, c, False, False, s,
      bit f 0, bit f 1]"
    using w1 [of False] w1 [of True] by (simp add: d w2)
  have nth: "bit d i = byte_bits d ! i" if "i < 8" for i using that by simp
  have b: "bit d 0 = bit (of_nat a :: u64) 0" "bit d 1 = bit (of_nat a :: u64) 1" "bit d 2 = c"
    "\<not> bit d 3" "bit d 5 = s" "bit d 6 = bit f 0" "bit d 7 = bit f 1"
    by (simp_all add: nth eq)
  have one: "drop_bit k x AND 1 = 1 \<longleftrightarrow> bit x k" for x :: u8 and k
    by (simp add: bit_iff_odd_drop_bit and_one_eq odd_iff_mod_2_eq_one)
  show "content_checksum_flag d = c" "\<not> reserved_flag d" "single_segment_flag d = s"
    by (simp_all add: content_checksum_flag_def reserved_flag_def single_segment_flag_def one b)
  have two: "x < 4 \<Longrightarrow> i \<ge> 2 \<Longrightarrow> \<not> bit x i" for x i :: nat
    by (metis bit_take_bit_iff not_less take_bit_nat_eq_self power2_eq_square numeral_times_numeral semiring_norm(12,13))
  have a64: "bit (of_nat a :: u64) i \<longleftrightarrow> bit a i" "bit (of_nat a :: u8) i \<longleftrightarrow> bit a i" for i
    using a two [of a i] by (cases "i < 2"; simp add: bit_of_nat_iff)+
  show "dict_id_flag d = of_nat a"
  proof (rule bit_word_eqI)
    fix i assume "i < LENGTH(8)"
    show "bit (dict_id_flag d) i = bit (of_nat a :: u8) i"
    proof (cases "i < 2")
      case True
      then have "i = 0 \<or> i = 1" by auto
      then show ?thesis using b by (auto simp: dict_id_flag_def bit_and_iff a64)
    next
      case False
      have "(3 :: u8) = 2 ^ 2 - 1" by simp
      then have "\<not> bit (3 :: u8) i" using False by (simp only: bit_low_mask) simp
      then show ?thesis using False two [OF a, of i] by (simp add: dict_id_flag_def bit_and_iff a64)
    qed
  qed
  show "frame_content_size_flag d = ucast f"
  proof (rule bit_word_eqI)
    fix i assume i: "i < LENGTH(8)"
    have "bit f i \<Longrightarrow> i < 2" using two [OF f, of i]
      by (cases "2 \<le> i") (auto simp: bit_unsigned_iff dest: bit_imp_le_length)
    then show "bit (frame_content_size_flag d) i = bit (ucast f :: u8) i"
      using b(6,7) i bit_imp_le_length [of d "6 + i"]
      by (cases "i = 0 \<or> i = 1") (auto simp: frame_content_size_flag_def bit_drop_bit_eq bit_ucast_iff)
  qed
qed


section \<open>The window descriptor\<close>

lemma next_power_of_two_spec:
  "0 < p \<Longrightarrow> v \<le> p * 2 ^ k \<Longrightarrow> \<exists>e\<le>k. next_power_of_two (Suc k) p v = Ok (p * 2 ^ e) \<and> v \<le> p * 2 ^ e
     \<and> (e = 0 \<or> p * 2 ^ e < 2 * v)"
proof (induction k arbitrary: p)
  case 0
  then show ?case by simp
next
  case (Suc k)
  show ?case
  proof (cases "v \<le> p")
    case True
    then show ?thesis by (intro exI [of _ 0]) simp
  next
    case False
    obtain e where e: "e \<le> k" "next_power_of_two (Suc k) (2 * p) v = Ok (2 * p * 2 ^ e)"
        "v \<le> 2 * p * 2 ^ e" "e = 0 \<or> 2 * p * 2 ^ e < 2 * v"
      using Suc.IH [of "2 * p"] Suc.prems by (auto simp: mult_ac)
    show ?thesis
    proof (intro exI [of _ "Suc e"] conjI)
      show "next_power_of_two (Suc (Suc k)) p v = Ok (p * 2 ^ Suc e)"
        using False e(2) by (simp only: next_power_of_two.simps(2) [of "Suc k"]) (simp add: mult_ac)
      show "Suc e = 0 \<or> p * 2 ^ Suc e < 2 * v" using e(4) False by (cases "e = 0") (auto simp: mult_ac)
    qed (use e in \<open>auto simp: mult_ac\<close>)
  qed
qed

lemma window_descriptor_byte_ok:
  assumes "unat ws \<le> 2 ^ 63"
  obtains e where "e \<le> 63" "window_descriptor_byte ws = Ok (push_bit 3 (of_nat (e - 10)))"
    "unat ws \<le> 2 ^ e" "e = 0 \<or> 2 ^ e < 2 * unat ws"
proof -
  have "unat ws \<le> 1 * 2 ^ 63" using assms by simp
  from next_power_of_two_spec [OF _ this] obtain e where e: "e \<le> 63"
      "next_power_of_two (Suc 63) 1 (unat ws) = Ok (1 * 2 ^ e)" "unat ws \<le> 1 * 2 ^ e"
      "e = 0 \<or> 1 * 2 ^ e < 2 * unat ws" by auto
  have "next_power_of_two 64 1 (unat ws) = Ok (2 ^ e)"
    using e(2) by (simp only: eval_nat_numeral mult_1 numeral_eq_Suc pred_numeral_simps) simp
  then show thesis using e that [of e] by (simp add: window_descriptor_byte_def)
qed

text \<open>
  The descriptor byte keeps five bits of the exponent, so that the declared window is that of the
  exponent modulo 32; below \<open>2^42\<close> this is the exponent itself.
\<close>

lemma declared_window:
  assumes "\<not> single_segment_flag (fh_descriptor h)" "e \<le> 63"
    and "fh_window_descriptor h = push_bit 3 (of_nat (e - 10))"
  defines "w \<equiv> 2 ^ (10 + (e - 10) mod 32)"
  shows "window_size h = (if w \<le> MAX_WINDOW_SIZE then Ok w else Err (WindowTooBig w))"
proof -
  let ?x = "(e - 10) mod 32"
  have x: "e - 10 < 54" using assms(2) by simp
  have "list_all (\<lambda>x. drop_bit 3 (push_bit 3 (of_nat x :: u8)) = of_nat (x mod 32)
      \<and> push_bit 3 (of_nat x :: u8) AND 7 = 0) [0..<54]"
    by (simp add: upt_rec)
  then have f: "drop_bit 3 (fh_window_descriptor h) = of_nat ?x" "fh_window_descriptor h AND 7 = 0"
    using x assms(3) by (auto simp: list_all_iff)
  have small: "unat (of_nat ?x :: u8) = ?x" using less_trans [of ?x 32 256] by (simp add: unat_of_nat)
  have "10 + ?x \<le> 41" using mod_less_divisor [of 32 "e - 10"] by linarith
  moreover from this have "unat (2 ^ (10 + ?x) :: u64) = 2 ^ (10 + ?x)" by (intro unat_pow2) simp
  moreover have "(2 :: nat) ^ 10 \<le> 2 ^ (10 + ?x)" by (intro power_increasing; simp)
  ultimately have "MIN_WINDOW_SIZE \<le> w" by (simp add: w_def MIN_WINDOW_SIZE_def word_le_nat_alt)
  moreover have "window_size h = (if w \<ge> MIN_WINDOW_SIZE then if w \<le> MAX_WINDOW_SIZE then Ok w else Err (WindowTooBig w)
      else Err (WindowTooSmall w))"
    using assms(1) by (simp add: window_size_def Let_def f small w_def)
  ultimately show ?thesis by simp
qed


section \<open>Reading what was written\<close>

text \<open>
  \<open>reads_as h fh\<close>: the parsed header \<open>fh\<close> says what the written header \<open>h\<close> says, as far as the
  format can: a windowed frame drops a content size below 256, and the dictionary id 0 means none.
\<close>

definition reads_as :: "EncFrameHeader \<Rightarrow> FrameHeader \<Rightarrow> bool" where
  "reads_as h fh \<longleftrightarrow>
     (let fcs = eh_frame_content_size (normalized h); d = fh_descriptor fh in
      single_segment_flag d = eh_single_segment h
      \<and> content_checksum_flag d = eh_content_checksum h
      \<and> \<not> reserved_flag d
      \<and> fh_dict_id fh = (if eh_dictionary_id h = Some 0 then None else eh_dictionary_id h)
      \<and> declares_content_size d = (fcs \<noteq> None)
      \<and> fh_frame_content_size fh = (case fcs of None \<Rightarrow> 0 | Some v \<Rightarrow> v))"

lemma normalized_simps [simp]:
  "eh_single_segment (normalized h) = eh_single_segment h"
  "eh_content_checksum (normalized h) = eh_content_checksum h"
  "eh_dictionary_id (normalized h) = eh_dictionary_id h"
  "eh_window_size (normalized h) = eh_window_size h"
  "header_ok (normalized h) = header_ok h"
  by (auto simp: normalized_def header_ok_def)

text \<open>The two optional fields of known width.\<close>

lemma dict_field:
  "dict_class (Some did) \<noteq> 0"
  "length (minify_val (ucast did)) = (if dict_class (Some did) = 3 then 4 else dict_class (Some did))"
  "le_sum (minify_val (ucast (did :: u32))) = did"
proof -
  let ?v = "ucast did :: u64"
  show "dict_class (Some did) \<noteq> 0"
    "length (minify_val ?v) = (if dict_class (Some did) = 3 then 4 else dict_class (Some did))"
    using dict_min_size [of did] find_min_size_spec(4) [of ?v] by (auto simp: dict_class_def Let_def)
  have "8 * find_min_size ?v \<le> LENGTH(32)" using dict_min_size [of did] by auto
  then have "le_sum (minify_val ?v) = (ucast ?v :: u32)"
    unfolding minify_val_def using find_min_size_spec [of ?v] by (intro le_bytes_value) auto
  also have "(ucast ?v :: u32) = did" by (rule ucast_down_ucast_id) (simp add: is_down)
  finally show "le_sum (minify_val ?v) = did" .
qed

lemma fcs_field:
  "(if fcs_field_class v = 2 then le_sum (minify_val_fcs v) + 256 else le_sum (minify_val_fcs v)) = v"
proof (cases "fcs_field_class v = 2")
  case True
  have "le_sum (take 2 (u64_to_le_bytes (v - 256))) = (ucast (v - 256) :: u64)"
    using fcs_class_spec(3) [OF True] by (intro le_bytes_value) auto
  then show ?thesis using True by (simp add: minify_val_fcs_def)
next
  case False
  have "le_sum (take (fcs_field_class v) (u64_to_le_bytes v)) = (ucast v :: u64)"
    using fcs_class_spec(1) [of v] fcs_class_spec(2) [OF False] by (intro le_bytes_value) auto
  then show ?thesis using False by (simp add: minify_val_fcs_def)
qed

lemma fcs_width:
  assumes "frame_content_size_flag d = ucast (descriptor_fcs_flag (normalized h))"
    "single_segment_flag d = eh_single_segment h" "header_ok h"
  shows "frame_content_size_bytes d =
      Ok (case eh_frame_content_size (normalized h) of None \<Rightarrow> 0 | Some v \<Rightarrow> fcs_field_class v)"
    "declares_content_size d = (eh_frame_content_size (normalized h) \<noteq> None)"
proof -
  have small: "\<not> eh_single_segment h \<Longrightarrow> eh_frame_content_size (normalized h) = Some v \<Longrightarrow>
      fcs_field_class v \<noteq> 1" for v
    by (auto simp: normalized_def fcs_field_class_def find_min_size_def drop_bit_0_iff word_le_nat_alt
      split: if_splits option.splits)
  show "frame_content_size_bytes d =
      Ok (case eh_frame_content_size (normalized h) of None \<Rightarrow> 0 | Some v \<Rightarrow> fcs_field_class v)"
    "declares_content_size d = (eh_frame_content_size (normalized h) \<noteq> None)"
    using assms small fcs_class_spec(1)
    by (cases "eh_frame_content_size (normalized h)";
        fastforce simp: frame_content_size_bytes_def declares_content_size_def descriptor_fcs_flag_def Let_def
          header_ok_def normalized_def)+
qed


lemma dict_width:
  assumes "dict_id_flag d = of_nat (dict_class x)"
  shows "dictionary_id_bytes d = Ok (if dict_class x = 3 then 4 else dict_class x)"
proof -
  have "dict_class x \<in> {0, 1, 2, 3}"
    using dict_min_size [of "the x"] by (cases x) (auto simp: dict_class_def Let_def)
  then show ?thesis using assms by (auto simp: dictionary_id_bytes_def)
qed

text \<open>The bytes after the descriptor.\<close>

definition dict_bytes :: "u32 option \<Rightarrow> bytes" where
  "dict_bytes d = (case d of None \<Rightarrow> [] | Some did \<Rightarrow> minify_val (ucast did))"

definition fcs_bytes :: "u64 option \<Rightarrow> bytes" where
  "fcs_bytes v = (case v of None \<Rightarrow> [] | Some v \<Rightarrow> minify_val_fcs v)"

lemma read_after_magic:
  assumes "\<not> reserved_flag d" and W: "length W = (if single_segment_flag d then 0 else 1)"
    and D: "dictionary_id_bytes d = Ok (if dict_class x = 3 then 4 else dict_class x)"
    and F: "frame_content_size_bytes d = Ok (case v of None \<Rightarrow> 0 | Some v \<Rightarrow> fcs_field_class v)"
  shows "read_frame_header slice_read (u32_to_le_bytes MAGIC_NUM @ d # W @ dict_bytes x @ fcs_bytes v @ rest)
    = Ok (\<lparr>fh_descriptor = d, fh_window_descriptor = (if single_segment_flag d then 0 else W ! 0),
        fh_dict_id = (if x = Some 0 then None else x),
        fh_frame_content_size = (case v of None \<Rightarrow> 0 | Some v \<Rightarrow> v)\<rparr>,
        5 + length W + length (dict_bytes x) + length (fcs_bytes v), rest)"
proof -
  have magic: "read_exact slice_read (u32_to_le_bytes MAGIC_NUM @ ys) 4
      = Ok (u32_to_le_bytes MAGIC_NUM, ys)" for ys by simp
  have sk: "\<not> is_skippable_magic MAGIC_NUM" by (simp add: is_skippable_magic_def MAGIC_NUM_def)
  have one: "read_exact slice_read (c # ys) 1 = Ok ([c], ys)" for c ys
    using read_exact_slice_app [of 1 "[c]" ys] by simp
  have win: "(if \<not> single_segment_flag d then
        rbind (rmap_err WindowDescriptorReadError (read_exact slice_read (W @ ys) 1)) (\<lambda>(buf, r). Ok (buf ! 0, 6, r))
      else Ok (0, 5, W @ ys))
    = Ok (if single_segment_flag d then 0 else W ! 0, 5 + length W, ys)" for ys
    using W one [unfolded One_nat_def] by (cases W) auto
  have dict: "(if (if dict_class x = 3 then 4 else dict_class x) \<noteq> 0 then
        rbind (rmap_err DictionaryIdReadError (read_exact slice_read (dict_bytes x @ ys)
          (if dict_class x = 3 then 4 else dict_class x))) (\<lambda>(buf, r).
          let dict_id = le_sum buf in
            Ok (if dict_id \<noteq> 0 then Some dict_id else None,
              n + (if dict_class x = 3 then 4 else dict_class x), r))
      else Ok (None, n, dict_bytes x @ ys))
    = Ok (if x = Some 0 then None else x, n + length (dict_bytes x), ys)" for ys n
  proof (cases x)
    case None
    then show ?thesis by (simp add: dict_bytes_def dict_class_def)
  next
    case (Some did)
    then show ?thesis using dict_field [of did] by (auto simp: dict_bytes_def Let_def)
  qed
  have fcs: "(if (case v of None \<Rightarrow> 0 | Some v \<Rightarrow> fcs_field_class v) \<noteq> 0 then
        rbind (rmap_err FrameContentSizeReadError (read_exact slice_read (fcs_bytes v @ ys)
          (case v of None \<Rightarrow> 0 | Some v \<Rightarrow> fcs_field_class v))) (\<lambda>(buf, r).
          let fcs = le_sum buf;
              fcs = (if (case v of None \<Rightarrow> 0 | Some v \<Rightarrow> fcs_field_class v) = 2 then fcs + 256 else fcs)
          in Ok (fcs, n + (case v of None \<Rightarrow> 0 | Some v \<Rightarrow> fcs_field_class v), r))
      else Ok (0, n, fcs_bytes v @ ys))
    = Ok (case v of None \<Rightarrow> 0 | Some v \<Rightarrow> v, n + length (fcs_bytes v), ys)" for ys n
  proof (cases v)
    case None
    then show ?thesis by (simp add: fcs_bytes_def)
  next
    case (Some s)
    then show ?thesis
      using fcs_field [of s] fcs_class_spec(1,4) [of s] by (auto simp: fcs_bytes_def Let_def)
  qed
  show ?thesis
    unfolding read_frame_header_def append_Cons magic rmap_err.simps rbind.simps prod.case
      u32_le_bytes Let_def [of MAGIC_NUM]
    using sk assms(1) D F
    by (simp only: one rmap_err.simps rbind.simps prod.case Let_def [of "u32_from_le_bytes _"]
        Let_def [of "_ ! 0"] nth_Cons_0 if_False simp_thms win dict fcs)
qed


lemma serialize_shape:
  assumes "header_ok h"
  obtains d W where
    "serialize h out = Ok (out @ u32_to_le_bytes MAGIC_NUM @ d # W @ dict_bytes (eh_dictionary_id h)
       @ fcs_bytes (eh_frame_content_size (normalized h)))"
    "\<not> reserved_flag d" "single_segment_flag d = eh_single_segment h"
    "content_checksum_flag d = eh_content_checksum h"
    "dictionary_id_bytes d = Ok (if dict_class (eh_dictionary_id h) = 3 then 4
       else dict_class (eh_dictionary_id h))"
    "frame_content_size_bytes d =
       Ok (case eh_frame_content_size (normalized h) of None \<Rightarrow> 0 | Some v \<Rightarrow> fcs_field_class v)"
    "declares_content_size d = (eh_frame_content_size (normalized h) \<noteq> None)"
    "if eh_single_segment h then W = []
     else \<exists>ws e. eh_window_size h = Some ws \<and> W = [push_bit 3 (of_nat (e - 10))]
       \<and> unat ws \<le> 2 ^ e \<and> (e = 0 \<or> 2 ^ e < 2 * unat ws) \<and> e \<le> 63"
proof -
  have ok: "header_ok (normalized h)" using assms by simp
  obtain d where d: "descriptor (normalized h) = Ok d" and bits: "byte_bits d =
    field_bits [(of_nat (dict_class (eh_dictionary_id h)), 2),
      (if eh_content_checksum h then 1 else 0, 1), (0, 1), (0, 1),
      (if eh_single_segment h then 1 else 0, 1), (descriptor_fcs_flag (normalized h), 2)]"
    using descriptor_bits [OF ok] by auto
  note fl = descriptor_flags [OF bits dict_flag_ok(2) fcs_flag_less]
  note w = dict_width [OF fl(1)] fcs_width [OF fl(5,4) assms]
  show thesis
  proof (cases "eh_single_segment h")
    case True
    then show thesis
      using that [of d "[]"] fl(2-4) w d
      by (auto simp: serialize_def Let_def dict_bytes_def fcs_bytes_def split: option.splits)
  next
    case False
    with assms obtain ws where ws: "eh_window_size h = Some ws" "unat ws \<le> 2 ^ 63"
      by (auto simp: header_ok_def split: option.splits)
    obtain e where e: "window_descriptor_byte ws = Ok (push_bit 3 (of_nat (e - 10)))"
        "unat ws \<le> 2 ^ e" "e = 0 \<or> 2 ^ e < 2 * unat ws" "e \<le> 63"
      using window_descriptor_byte_ok [OF ws(2)] by blast
    show thesis
    proof (rule that [of d "[push_bit 3 (of_nat (e - 10))]"])
      show "serialize h out = Ok (out @ u32_to_le_bytes MAGIC_NUM @ d # [push_bit 3 (of_nat (e - 10))]
          @ dict_bytes (eh_dictionary_id h) @ fcs_bytes (eh_frame_content_size (normalized h)))"
        using False ws e(1) d
        by (auto simp: serialize_def Let_def dict_bytes_def fcs_bytes_def split: option.splits)
    qed (use False fl(2-4) w ws e(2,3,4) in \<open>auto intro!: exI [of _ e]\<close>)
  qed
qed

text \<open>
  C13.  A frame header the encoder can write is read back by the decoder: the parser consumes
  exactly the bytes written, whatever follows them, and its header carries the same flags,
  dictionary id and content size, except that a size below 256 in a windowed frame is not declared
  (\<open>reads_as\<close>).  The window the parsed header asks for is the content size of a single-segment
  frame.  For a requested window with the binary logarithm \<open>e\<close>, rounded up, it is
  \<open>2^(10 + (e - 10) mod 32)\<close>, refused by the decoder above its limit of 2 GiB: up to 2 TiB it covers
  the request and is less than twice it, or the 1 KiB floor; above 2 TiB the exponent wraps.
\<close>

theorem frame_header_roundtrip:
  assumes "header_ok h"
  shows "\<exists>b. serialize h out = Ok (out @ b) \<and>
    (\<forall>rest. \<exists>fh. read_frame_header slice_read (b @ rest) = Ok (fh, length b, rest) \<and> reads_as h fh
      \<and> (eh_single_segment h \<longrightarrow> window_size fh = Ok (the (eh_frame_content_size h)))
      \<and> (\<not> eh_single_segment h \<longrightarrow> (\<exists>ws e w. eh_window_size h = Some ws
          \<and> unat ws \<le> 2 ^ e \<and> (e = 0 \<or> 2 ^ e < 2 * unat ws)
          \<and> unat w = 2 ^ (10 + (e - 10) mod 32)
          \<and> window_size fh = (if w \<le> MAX_WINDOW_SIZE then Ok w else Err (WindowTooBig w))
          \<and> (unat ws \<le> 2 ^ 41 \<longrightarrow> ws \<le> w \<and> (w = 1024 \<or> unat w < 2 * unat ws)))))"
proof -
  obtain d W where s: "serialize h out = Ok (out @ u32_to_le_bytes MAGIC_NUM @ d # W
        @ dict_bytes (eh_dictionary_id h) @ fcs_bytes (eh_frame_content_size (normalized h)))"
    and d: "\<not> reserved_flag d" "single_segment_flag d = eh_single_segment h"
      "content_checksum_flag d = eh_content_checksum h"
      "dictionary_id_bytes d = Ok (if dict_class (eh_dictionary_id h) = 3 then 4
        else dict_class (eh_dictionary_id h))"
      "frame_content_size_bytes d =
        Ok (case eh_frame_content_size (normalized h) of None \<Rightarrow> 0 | Some v \<Rightarrow> fcs_field_class v)"
      "declares_content_size d = (eh_frame_content_size (normalized h) \<noteq> None)"
    and W: "if eh_single_segment h then W = []
      else \<exists>ws e. eh_window_size h = Some ws \<and> W = [push_bit 3 (of_nat (e - 10))]
        \<and> unat ws \<le> 2 ^ e \<and> (e = 0 \<or> 2 ^ e < 2 * unat ws) \<and> e \<le> 63"
    using serialize_shape [OF assms] .
  have lW: "length W = (if single_segment_flag d then 0 else 1)" using W d(2) by (auto split: if_splits)
  define b where "b = u32_to_le_bytes MAGIC_NUM @ d # W @ dict_bytes (eh_dictionary_id h)
    @ fcs_bytes (eh_frame_content_size (normalized h))"
  define fh where "fh = \<lparr>fh_descriptor = d, fh_window_descriptor = (if single_segment_flag d then 0 else W ! 0),
        fh_dict_id = (if eh_dictionary_id h = Some 0 then None else eh_dictionary_id h),
        fh_frame_content_size = (case eh_frame_content_size (normalized h) of None \<Rightarrow> 0 | Some v \<Rightarrow> v)\<rparr>"
  have r: "read_frame_header slice_read (b @ rest) = Ok (fh, length b, rest)" for rest
    using read_after_magic [OF d(1) lW d(4,5), of rest] by (simp add: b_def fh_def)
  have "reads_as h fh" using d by (simp add: reads_as_def fh_def)
  moreover have "window_size fh = Ok (the (eh_frame_content_size h))" if "eh_single_segment h"
    using that assms d(2) by (auto simp: window_size_def fh_def header_ok_def normalized_def)
  moreover have "\<exists>ws e w. eh_window_size h = Some ws \<and> unat ws \<le> 2 ^ e \<and> (e = 0 \<or> 2 ^ e < 2 * unat ws)
      \<and> unat w = 2 ^ (10 + (e - 10) mod 32)
      \<and> window_size fh = (if w \<le> MAX_WINDOW_SIZE then Ok w else Err (WindowTooBig w))
      \<and> (unat ws \<le> 2 ^ 41 \<longrightarrow> ws \<le> w \<and> (w = 1024 \<or> unat w < 2 * unat ws))"
    if win: "\<not> eh_single_segment h"
  proof -
    obtain ws e where e: "eh_window_size h = Some ws" "W = [push_bit 3 (of_nat (e - 10))]"
        "unat ws \<le> 2 ^ e" "e = 0 \<or> 2 ^ e < 2 * unat ws" "e \<le> 63"
      using W win by auto
    let ?x = "(e - 10) mod 32"
    have x: "10 + ?x < 64" using mod_less_divisor [of 32 "e - 10"] by linarith
    have u: "unat (2 ^ (10 + ?x) :: u64) = 2 ^ (10 + ?x)" using x by (rule unat_pow2)
    have "\<not> single_segment_flag (fh_descriptor fh)" "fh_window_descriptor fh = push_bit 3 (of_nat (e - 10))"
      using win e(2) d(2) by (simp_all add: fh_def)
    note w = declared_window [OF this(1) e(5) this(2)]
    have "ws \<le> 2 ^ (10 + ?x) \<and> ((2 ^ (10 + ?x) :: u64) = 1024 \<or> unat (2 ^ (10 + ?x) :: u64) < 2 * unat ws)"
      if small: "unat ws \<le> 2 ^ 41"
    proof -
      have "e \<le> 41"
      proof (rule ccontr)
        assume "\<not> e \<le> 41"
        then have "(2 :: nat) ^ 42 \<le> 2 ^ e" by (intro power_increasing) auto
        with e(4) small \<open>\<not> e \<le> 41\<close> show False by simp
      qed
      then have m: "10 + ?x = max 10 e" by simp
      have "(2 :: nat) ^ e \<le> 2 ^ max 10 e" by (intro power_increasing; simp)
      then have "unat ws \<le> 2 ^ max 10 e" using e(3) by linarith
      moreover have "(2 ^ max 10 e :: u64) = 1024 \<or> (2 :: nat) ^ max 10 e < 2 * unat ws"
        using e(4) by (cases "e \<le> 10") (auto simp: max_def)
      ultimately show ?thesis using u unfolding m by (auto simp: word_le_nat_alt)
    qed
    then show ?thesis using e w u by blast
  qed
  ultimately show ?thesis using s r by (auto simp: b_def)
qed

theorem frame_header_roundtrip_witness:
  "\<exists>b. serialize \<lparr>eh_frame_content_size = Some 70000, eh_single_segment = False,
      eh_content_checksum = True, eh_dictionary_id = Some 77777, eh_window_size = Some 5000\<rparr> [1] = Ok (1 # b)"
  using frame_header_roundtrip [of "\<lparr>eh_frame_content_size = Some 70000, eh_single_segment = False,
      eh_content_checksum = True, eh_dictionary_id = Some 77777, eh_window_size = Some 5000\<rparr>" "[1]"]
  by (auto simp: header_ok_def)

text \<open>
  The window descriptor keeps only the low five bits of the exponent: a requested window just
  above 2 TiB, below the documented 3.75 TiB bound, is declared as exponent 0, a window of 1 KiB.
\<close>

lemma next_power_of_two_numeral:
  "next_power_of_two (numeral k) p v = (if v \<le> p then Ok p else next_power_of_two (pred_numeral k) (2 * p) v)"
  by (simp add: numeral_eq_Suc)

lemma window_descriptor_wraps: "window_descriptor_byte (2 ^ 41 + 1) = Ok 0"
proof -
  have "next_power_of_two 64 1 (unat (2 ^ 41 + 1 :: u64)) = Ok (2 ^ 42)"
    by (simp add: next_power_of_two_numeral)
  then show ?thesis by (simp only: window_descriptor_byte_def rbind.simps Let_def ilog2_pow2) simp
qed

end
