(* ===== verification/Block_Header.thy ===== *)
theory Block_Header
  imports Frame_Header
begin

text \<open>
  Block headers: \<open>blocks/block.rs\<close>, the three-byte writer of \<open>encoding/block_header.rs\<close> and the
  reader \<open>read_block_header\<close> of \<open>decoding/block_decoder.rs\<close>.
\<close>

unbundle bit_operations_syntax

datatype BlockType = RawBlock | RLEBlock | CompressedBlock | ReservedBlock

datatype BlockTypeError = InvalidBlocktypeNumber u8

datatype BlockSizeError = BlockSizeTooLarge u32

datatype BlockHeaderReadError =
    BHReadError ErrorKind
  | FoundReservedBlock
  | BHBlockTypeError BlockTypeError
  | BHBlockSizeError BlockSizeError

section \<open>Writing\<close>

record EncBlockHeader =
  eb_last_block :: bool
  eb_block_type :: BlockType
  eb_block_size :: u32

definition serialize_into :: "EncBlockHeader \<Rightarrow> (unit, bytes) res" where
  "serialize_into h = rbind (rassert (eb_block_size h < push_bit 21 1)) (\<lambda>_.
     rbind (case eb_block_type h of
              RawBlock \<Rightarrow> Ok 0 | RLEBlock \<Rightarrow> Ok 1 | CompressedBlock \<Rightarrow> Ok 2 | ReservedBlock \<Rightarrow> Panic)
       (\<lambda>encoded_block_type.
         let block_header = push_bit 3 (eb_block_size h);
             block_header = block_header OR push_bit 1 encoded_block_type;
             block_header = block_header OR (if eb_last_block h then 1 else 0)
         in Ok (take 3 (u32_to_le_bytes block_header))))"

definition serialize_block_header :: "EncBlockHeader \<Rightarrow> bytes \<Rightarrow> (unit, bytes) res" where
  "serialize_block_header h output = rbind (serialize_into h) (\<lambda>prefix. Ok (output @ prefix))"

section \<open>Reading\<close>

record BlockHeader =
  bh_last_block :: bool
  bh_block_type :: BlockType
  bh_decompressed_size :: u32
  bh_content_size :: u32

text \<open>The three bytes of the decoder's header buffer.\<close>

definition is_last :: "bytes \<Rightarrow> bool" where
  "is_last buf \<longleftrightarrow> buf ! 0 AND 1 = 1"

definition block_type :: "bytes \<Rightarrow> (BlockTypeError, BlockType) res" where
  "block_type buf =
     (let t = drop_bit 1 (buf ! 0) AND 3 in
      if t = 0 then Ok RawBlock
      else if t = 1 then Ok RLEBlock
      else if t = 2 then Ok CompressedBlock
      else if t = 3 then Ok ReservedBlock
      else Err (InvalidBlocktypeNumber t))"

definition block_content_size_unchecked :: "bytes \<Rightarrow> u32" where
  "block_content_size_unchecked buf =
     ucast (drop_bit 3 (buf ! 0)) OR push_bit 5 (ucast (buf ! 1)) OR push_bit 13 (ucast (buf ! 2))"

definition block_content_size :: "bytes \<Rightarrow> (BlockSizeError, u32) res" where
  "block_content_size buf =
     (let val = block_content_size_unchecked buf in
      if val > MAX_BLOCK_SIZE then Err (BlockSizeTooLarge val) else Ok val)"

definition read_block_header ::
  "'r reader \<Rightarrow> 'r \<Rightarrow> (BlockHeaderReadError, BlockHeader \<times> nat \<times> 'r) res" where
  "read_block_header rd r =
     rbind (rmap_err BHReadError (read_exact rd r 3)) (\<lambda>(buf, r).
     rbind (rmap_err BHBlockTypeError (block_type buf)) (\<lambda>btype.
     if btype = ReservedBlock then Err FoundReservedBlock
     else
     rbind (rmap_err BHBlockSizeError (block_content_size buf)) (\<lambda>block_size.
       let decompressed_size = (case btype of
             RawBlock \<Rightarrow> block_size | RLEBlock \<Rightarrow> block_size | ReservedBlock \<Rightarrow> 0 | CompressedBlock \<Rightarrow> 0);
           content_size = (case btype of
             RawBlock \<Rightarrow> block_size | CompressedBlock \<Rightarrow> block_size | RLEBlock \<Rightarrow> 1 | ReservedBlock \<Rightarrow> 0)
       in Ok (\<lparr>bh_last_block = is_last buf, bh_block_type = btype,
               bh_decompressed_size = decompressed_size, bh_content_size = content_size\<rparr>, 3, r))))"

section \<open>The layout of the three bytes\<close>

text \<open>The header as one number: the flag in bit 0, the type in bits 1 and 2, the size above.\<close>

definition type_number :: "BlockType \<Rightarrow> nat" where
  "type_number t = (case t of RawBlock \<Rightarrow> 0 | RLEBlock \<Rightarrow> 1 | CompressedBlock \<Rightarrow> 2 | ReservedBlock \<Rightarrow> 3)"

lemma bit_header_bytes:
  fixes w :: u32
  assumes "unat w < 2 ^ 24"
  shows "is_last (take 3 (u32_to_le_bytes w)) = bit w 0"
    and "drop_bit 1 (take 3 (u32_to_le_bytes w) ! 0) AND 3 = ucast (drop_bit 1 w AND 3)"
    and "block_content_size_unchecked (take 3 (u32_to_le_bytes w)) = drop_bit 3 w"
proof -
  have b: "take 3 (u32_to_le_bytes w) = [ucast w, ucast (drop_bit 8 w), ucast (drop_bit 16 w)]"
    by (simp add: u32_to_le_bytes_def upt_rec)
  have "take_bit 24 w = w"
    using assms by (simp add: word_unat_eq_iff unsigned_take_bit_eq take_bit_nat_eq_self)
  then have hi: "bit w i \<Longrightarrow> i < 24" for i by (metis bit_take_bit_iff)
  have m1: "bit (1 :: u8) i \<longleftrightarrow> i = 0" for i by (simp add: bit_1_iff)
  have "(3 :: u8) = 2 ^ 2 - 1" "(3 :: u32) = 2 ^ 2 - 1" by simp_all
  then have m3: "bit (3 :: u8) i \<longleftrightarrow> i < 2" "bit (3 :: u32) i \<longleftrightarrow> i < 2" for i
    by (simp_all only: bit_low_mask) auto
  show "is_last (take 3 (u32_to_le_bytes w)) = bit w 0"
    by (simp add: is_last_def b and_one_eq odd_iff_mod_2_eq_one [symmetric] bit_0 [symmetric] bit_ucast_iff
        del: bit_0)
  show "drop_bit 1 (take 3 (u32_to_le_bytes w) ! 0) AND 3 = ucast (drop_bit 1 w AND 3)"
  proof (rule bit_word_eqI)
    fix i assume "i < LENGTH(8)"
    then show "bit (drop_bit 1 (take 3 (u32_to_le_bytes w) ! 0) AND 3) i
        = bit (ucast (drop_bit 1 w AND 3) :: u8) i"
      unfolding b bit_and_iff bit_ucast_iff m3 by (auto simp: bit_drop_bit_eq bit_ucast_iff)
  qed
  show "block_content_size_unchecked (take 3 (u32_to_le_bytes w)) = drop_bit 3 w"
  proof (rule bit_word_eqI)
    fix i assume i: "i < LENGTH(32)"
    have "i < 5 \<or> 5 \<le> i \<and> i < 13 \<or> 13 \<le> i" by auto
    then show "bit (block_content_size_unchecked (take 3 (u32_to_le_bytes w))) i = bit (drop_bit 3 w) i"
      using i hi [of "3 + i"]
      by (auto simp: block_content_size_unchecked_def b bit_or_iff bit_push_bit_iff bit_drop_bit_eq
          bit_ucast_iff)
  qed
qed


lemma type_bits:
  assumes "k < 4"
  shows "drop_bit 1 (push_bit 3 s OR push_bit 1 (of_nat k) OR (if l then 1 else 0 :: u32)) AND 3 = of_nat k"
    and "bit (push_bit 3 s OR push_bit 1 (of_nat k) OR (if l then 1 else 0 :: u32)) 0 = l"
    and "unat s < 2 ^ 21 \<Longrightarrow>
      drop_bit 3 (push_bit 3 s OR push_bit 1 (of_nat k) OR (if l then 1 else 0 :: u32)) = s"
    and "unat s < 2 ^ 21 \<Longrightarrow>
      unat (push_bit 3 s OR push_bit 1 (of_nat k) OR (if l then 1 else 0 :: u32)) < 2 ^ 24"
proof -
  let ?w = "push_bit 3 s OR push_bit 1 (of_nat k) OR (if l then 1 else 0 :: u32)"
  have "unat (of_nat k :: u32) < 2 ^ 2" using assms by (simp add: unat_of_nat)
  then have "take_bit 2 (of_nat k :: u32) = of_nat k"
    by (simp add: word_unat_eq_iff unsigned_take_bit_eq take_bit_nat_eq_self)
  then have k: "bit (of_nat k :: u32) i \<Longrightarrow> i < 2" for i by (metis bit_take_bit_iff)
  have "(3 :: u32) = 2 ^ 2 - 1" by simp
  then have m3: "bit (3 :: u32) i \<longleftrightarrow> i < 2" for i by (simp only: bit_low_mask) auto
  define y where "y = push_bit 1 (of_nat k :: u32)"
  have y: "bit y i \<longleftrightarrow> 1 \<le> i \<and> i < 32 \<and> bit (of_nat k :: u32) (i - 1)" for i
    unfolding y_def bit_push_bit_iff possible_bit_word by auto
  have w: "bit ?w i \<longleftrightarrow> i < 32 \<and> (3 \<le> i \<and> bit s (i - 3) \<or> 1 \<le> i \<and> bit (of_nat k :: u32) (i - 1) \<or> l \<and> i = 0)"
    for i unfolding y_def [symmetric] bit_or_iff y bit_push_bit_iff [of 3] possible_bit_word
    by (auto simp: bit_1_iff)
  show "drop_bit 1 ?w AND 3 = of_nat k"
  proof (rule bit_word_eqI)
    fix i
    show "bit (drop_bit 1 ?w AND 3) i = bit (of_nat k :: u32) i"
      unfolding bit_and_iff bit_drop_bit_eq m3 comp_def w using k [of i] by auto
  qed
  show "bit ?w 0 = l" unfolding w by simp
  assume "unat s < 2 ^ 21"
  then have "take_bit 21 s = s"
    by (simp add: word_unat_eq_iff unsigned_take_bit_eq take_bit_nat_eq_self)
  then have s: "bit s i \<Longrightarrow> i < 21" for i by (metis bit_take_bit_iff)
  show "drop_bit 3 ?w = s"
  proof (rule bit_word_eqI)
    fix i
    show "bit (drop_bit 3 ?w) i = bit s i"
      unfolding bit_drop_bit_eq comp_def w using s [of i] k [of "2 + i"] by auto
  qed
  have small: "i < 24" if i: "bit ?w i" for i
  proof -
    have "i - 3 < 21 \<or> i - 1 < 2 \<or> i = 0" using i s [of "i - 3"] k [of "i - 1"] unfolding w by blast
    then show ?thesis by linarith
  qed
  have "take_bit 24 ?w = ?w"
  proof (rule bit_word_eqI)
    fix i
    show "bit (take_bit 24 ?w) i = bit ?w i"
      using small [of i] unfolding bit_take_bit_iff by blast
  qed
  moreover have "unat (take_bit 24 ?w) = take_bit 24 (unat ?w)" by (rule unsigned_take_bit_eq)
  ultimately have "unat ?w = take_bit 24 (unat ?w)" by argo
  then show "unat ?w < 2 ^ 24" using take_bit_nat_less_exp [of 24 "unat ?w"] by argo
qed

text \<open>
  C14.  A block header of any size that fits its 21-bit field is written as three bytes and read
  back as the same flag and type with the two sizes the type implies, unless the size exceeds
  128 KiB, which the reader rejects with the size it found.
\<close>

theorem block_header_roundtrip:
  assumes "eb_block_size h < 2 ^ 21" "eb_block_type h \<noteq> ReservedBlock"
  shows "\<exists>p. serialize_block_header h out = Ok (out @ p) \<and> length p = 3
    \<and> read_block_header slice_read (p @ rest) =
       (if eb_block_size h > MAX_BLOCK_SIZE
        then Err (BHBlockSizeError (BlockSizeTooLarge (eb_block_size h)))
        else Ok (\<lparr>bh_last_block = eb_last_block h, bh_block_type = eb_block_type h,
          bh_decompressed_size = (if eb_block_type h = CompressedBlock then 0 else eb_block_size h),
          bh_content_size = (if eb_block_type h = RLEBlock then 1 else eb_block_size h)\<rparr>, 3, rest))"
proof -
  let ?s = "eb_block_size h" and ?k = "type_number (eb_block_type h)"
  let ?w = "push_bit 3 ?s OR push_bit 1 (of_nat ?k) OR (if eb_last_block h then 1 else 0 :: u32)"
  have k: "?k < 4" by (auto simp: type_number_def split: BlockType.split)
  have s: "unat ?s < 2 ^ 21" using assms(1) by (simp add: word_less_nat_alt)
  note tb = type_bits(1,2) [OF k] type_bits(3,4) [OF k s]
  note hb = bit_header_bytes [OF tb(4)]
  let ?p = "take 3 (u32_to_le_bytes ?w)"
  have "serialize_into h = Ok ?p"
    using assms by (cases "eb_block_type h") (simp_all add: serialize_into_def type_number_def Let_def or.assoc)
  moreover have "length ?p = 3" by simp
  moreover have "block_type ?p = Ok (eb_block_type h)"
    unfolding block_type_def hb(2) tb(1) Let_def
    by (cases "eb_block_type h") (simp_all add: type_number_def)
  moreover have "block_content_size ?p = (if ?s > MAX_BLOCK_SIZE then Err (BlockSizeTooLarge ?s) else Ok ?s)"
    unfolding block_content_size_def hb(3) tb(3) Let_def ..
  moreover have "is_last ?p = eb_last_block h" unfolding hb(1) tb(2) ..
  moreover have "read_exact slice_read (?p @ rest) 3 = Ok (?p, rest)" by (rule read_exact_slice_app) simp
  ultimately show ?thesis
    using assms(2)
    by (intro exI [of _ ?p])
      (cases "eb_block_type h"; simp add: serialize_block_header_def read_block_header_def Let_def)
qed

theorem block_header_roundtrip_witness:
  "\<exists>p. serialize_block_header \<lparr>eb_last_block = True, eb_block_type = CompressedBlock, eb_block_size = 69\<rparr> []
     = Ok p \<and> read_block_header slice_read (p @ [9]) = Ok (\<lparr>bh_last_block = True,
       bh_block_type = CompressedBlock, bh_decompressed_size = 0, bh_content_size = 69\<rparr>, 3, [9])"
  using block_header_roundtrip [of "\<lparr>eb_last_block = True, eb_block_type = CompressedBlock, eb_block_size = 69\<rparr>"
    "[]" "[9]"] by (auto simp: MAX_BLOCK_SIZE_def)

end
