(* ===== verification/Literals_Section.thy ===== *)
theory Literals_Section
  imports Bit_Reader Bit_Writer
begin

text \<open>
  The literals section header: the parser of \<open>blocks/literals_section.rs\<close> and the raw, RLE and
  Huffman headers the block encoder writes (\<open>encoding/block_enc/compressed.rs\<close>).  Both sides are
  related through the bit string of the header.
\<close>

unbundle bit_operations_syntax

section \<open>Parsing\<close>

datatype LiteralsSectionType = LRaw | LRLE | LCompressed | LTreeless

datatype LiteralsSectionParseError =
    IllegalLiteralSectionType u8
  | LSGetBitsError GetBitsError
  | LSNotEnoughBytes nat u8

record LiteralsSection =
  ls_regenerated_size :: u32
  ls_compressed_size :: "u32 option"
  ls_num_streams :: "nat option"
  ls_type :: LiteralsSectionType

definition ls_new :: LiteralsSection where
  "ls_new = \<lparr>ls_regenerated_size = 0, ls_compressed_size = None, ls_num_streams = None, ls_type = LRaw\<rparr>"

definition section_type :: "u8 \<Rightarrow> (LiteralsSectionParseError, LiteralsSectionType) res" where
  "section_type raw =
     (let t = raw AND 3 in
      if t = 0 then Ok LRaw
      else if t = 1 then Ok LRLE
      else if t = 2 then Ok LCompressed
      else if t = 3 then Ok LTreeless
      else Err (IllegalLiteralSectionType t))"

definition header_bytes_needed :: "u8 \<Rightarrow> (LiteralsSectionParseError, u8) res" where
  "header_bytes_needed first_byte =
     rbind (section_type first_byte) (\<lambda>ls_type.
     let size_format = drop_bit 2 first_byte AND 3 in
     if ls_type = LRLE \<or> ls_type = LRaw then
       if size_format = 0 \<or> size_format = 2 then Ok 1
       else if size_format = 1 then Ok 2
       else if size_format = 3 then Ok 3
       else Panic
     else
       if size_format = 0 \<or> size_format = 1 then Ok 3
       else if size_format = 2 then Ok 4
       else if size_format = 3 then Ok 5
       else Panic)"

definition ls_parse_from_header ::
  "LiteralsSection \<Rightarrow> bytes \<Rightarrow> (LiteralsSectionParseError, LiteralsSection \<times> nat) res" where
  "ls_parse_from_header self raw =
     (if raw = [] then Err (LSGetBitsError (NotEnoughRemainingBits 2 0))
      else
      let first = raw ! 0; at = (\<lambda>i. ucast (raw ! i) :: u32) in
      rbind (section_type first) (\<lambda>ty.
      let self = self\<lparr>ls_type := ty\<rparr>; size_format = drop_bit 2 first AND 3 in
      rbind (header_bytes_needed first) (\<lambda>byte_needed.
      if length raw < unat byte_needed then Err (LSNotEnoughBytes (length raw) byte_needed)
      else if ty = LRLE \<or> ty = LRaw then
        let self = self\<lparr>ls_compressed_size := None\<rparr> in
        if size_format = 0 \<or> size_format = 2 then
          Ok (self\<lparr>ls_regenerated_size := drop_bit 3 (at 0)\<rparr>, 1)
        else if size_format = 1 then
          Ok (self\<lparr>ls_regenerated_size := drop_bit 4 (at 0) + push_bit 4 (at 1)\<rparr>, 2)
        else if size_format = 3 then
          Ok (self\<lparr>ls_regenerated_size :=
                drop_bit 4 (at 0) + push_bit 4 (at 1) + push_bit 12 (at 2)\<rparr>, 3)
        else Panic
      else
        rbind (if size_format = 0 then Ok (self\<lparr>ls_num_streams := Some 1\<rparr>)
               else if size_format = 1 \<or> size_format = 2 \<or> size_format = 3
               then Ok (self\<lparr>ls_num_streams := Some 4\<rparr>)
               else Panic) (\<lambda>self.
        if size_format = 0 \<or> size_format = 1 then
          Ok (self\<lparr>ls_regenerated_size := drop_bit 4 (at 0) + push_bit 4 (at 1 AND 0x3f),
                ls_compressed_size := Some (ucast (drop_bit 6 (raw ! 1)) + push_bit 2 (at 2))\<rparr>, 3)
        else if size_format = 2 then
          Ok (self\<lparr>ls_regenerated_size :=
                  drop_bit 4 (at 0) + push_bit 4 (at 1) + push_bit 12 (at 2 AND 3),
                ls_compressed_size := Some (drop_bit 2 (at 2) + push_bit 6 (at 3))\<rparr>, 4)
        else if size_format = 3 then
          Ok (self\<lparr>ls_regenerated_size :=
                  drop_bit 4 (at 0) + push_bit 4 (at 1) + push_bit 12 (at 2 AND 0x3f),
                ls_compressed_size := Some (drop_bit 6 (at 2) + push_bit 2 (at 3) + push_bit 10 (at 4))\<rparr>, 5)
        else Panic))))"

section \<open>Writing\<close>

text \<open>The raw and RLE headers share one size ladder.\<close>

definition raw_literals :: "bytes \<Rightarrow> BitWriter \<Rightarrow> (unit, BitWriter) res" where
  "raw_literals literals writer =
     rbind (bw_write_bits writer 0 2) (\<lambda>writer.
     rbind (if length literals \<le> 31 then
              rbind (bw_write_bits writer 0 1) (\<lambda>writer.
                bw_write_bits writer (ucast (of_nat (length literals) :: u32)) 5)
            else if length literals \<le> 4095 then
              rbind (bw_write_bits writer 1 2) (\<lambda>writer.
                bw_write_bits writer (ucast (of_nat (length literals) :: u32)) 12)
            else
              rbind (bw_write_bits writer 3 2) (\<lambda>writer.
                bw_write_bits writer (ucast (of_nat (length literals) :: u32)) 20)) (\<lambda>writer.
     bw_append_bytes writer literals))"

definition rle_literals :: "bytes \<Rightarrow> BitWriter \<Rightarrow> (unit, BitWriter) res" where
  "rle_literals literals writer =
     rbind (bw_write_bits writer 1 2) (\<lambda>writer.
     rbind (if length literals \<le> 31 then
              rbind (bw_write_bits writer 0 1) (\<lambda>writer.
                bw_write_bits writer (ucast (of_nat (length literals) :: u32)) 5)
            else if length literals \<le> 4095 then
              rbind (bw_write_bits writer 1 2) (\<lambda>writer.
                bw_write_bits writer (ucast (of_nat (length literals) :: u32)) 12)
            else
              rbind (bw_write_bits writer 3 2) (\<lambda>writer.
                bw_write_bits writer (ucast (of_nat (length literals) :: u32)) 20)) (\<lambda>writer.
     rbind (rindex literals 0) (\<lambda>b. bw_write_bits writer (ucast b) 8)))"

datatype LitStreams = Stock | SmallFrame

definition SMALL_FRAME_LITERALS_MAX :: nat where
  "SMALL_FRAME_LITERALS_MAX = 64 * 1024"

definition LitStreams_for_frame :: "nat option \<Rightarrow> LitStreams" where
  "LitStreams_for_frame known_len =
     (case known_len of
        Some len \<Rightarrow> if len \<le> SMALL_FRAME_LITERALS_MAX then SmallFrame else Stock
      | None \<Rightarrow> Stock)"

text \<open>
  The stream layout of Huffman literals: whether one stream is used, the size format and the
  width of both size fields.
\<close>

definition single_stream :: "nat \<Rightarrow> bool \<Rightarrow> LitStreams \<Rightarrow> bool" where
  "single_stream len dict_seeded lit_streams =
     (if len < 256 then True
      else if len < 1024 then dict_seeded \<or> lit_streams = SmallFrame
      else False)"

definition stream_form :: "nat \<Rightarrow> bool \<Rightarrow> (unit, u64 \<times> nat) res" where
  "stream_form len single =
     (if single then Ok (0, 10)
      else if 256 \<le> len \<and> len < 1024 then Ok (1, 10)
      else if 1024 \<le> len \<and> len < 16384 then Ok (2, 14)
      else if 16384 \<le> len \<and> len < 262144 then Ok (3, 18)
      else Panic)"

text \<open>
  The header of Huffman literals: the type, the format and the sizes.  The second size is written
  as zero; the encoder patches it with \<open>patch_compressed_size\<close> once the body is known.
\<close>

definition compressed_header ::
  "bool \<Rightarrow> nat \<Rightarrow> bool \<Rightarrow> BitWriter \<Rightarrow> (unit, nat \<times> nat \<times> BitWriter) res" where
  "compressed_header new_table len single writer =
     rbind (bw_write_bits writer (if new_table then 2 else 3) 2) (\<lambda>writer.
     rbind (stream_form len single) (\<lambda>(size_format, size_bits).
     rbind (bw_write_bits writer size_format 2) (\<lambda>writer.
     rbind (bw_write_bits writer (ucast (of_nat len :: u32)) size_bits) (\<lambda>writer.
     let size_index = bw_index writer in
     rbind (bw_write_bits writer 0 size_bits) (\<lambda>writer.
       Ok (size_index, size_bits, writer))))))"

definition patch_compressed_size ::
  "BitWriter \<Rightarrow> nat \<Rightarrow> nat \<Rightarrow> nat \<Rightarrow> (unit, BitWriter) res" where
  "patch_compressed_size writer index_before size_index size_bits =
     (let encoded_len = (bw_index writer - index_before) div 8
      in bw_change_bits_64 writer size_index (of_nat encoded_len) size_bits)"

section \<open>Fields of a header as bit slices\<close>

text \<open>The value of \<open>n\<close> stream bits from position \<open>s\<close>, at any width.\<close>

definition bitfield :: "nat \<Rightarrow> nat \<Rightarrow> bits \<Rightarrow> 'a::len word" where
  "bitfield s n bs = horner_sum of_bool 2 (take n (drop s bs))"

lemma bit_bitfield:
  "bit (bitfield s n bs :: 'a::len word) i \<longleftrightarrow> i < n \<and> s + i < length bs \<and> bs ! (s + i) \<and> i < LENGTH('a)"
  by (auto simp: bitfield_def bit_horner_sum_bit_iff min_def split: if_splits)

lemma slice_byte: "i < length raw \<Longrightarrow> raw ! i = bitfield (8 * i) 8 (bytes_bits raw)"
  by (rule bit_word_eqI) (auto simp: bit_bitfield nth_bytes_bits)

lemma ucast_slice: "n \<le> LENGTH('b) \<Longrightarrow> n \<le> LENGTH('a) \<Longrightarrow>
    (ucast (bitfield s n bs :: 'b::len word) :: 'a::len word) = bitfield s n bs"
  by (rule bit_word_eqI) (auto simp: bit_ucast_iff bit_bitfield)

lemma slice_byte_ucast:
  "i < length raw \<Longrightarrow> 8 \<le> LENGTH('a) \<Longrightarrow>
     (ucast (raw ! i) :: 'a::len word) = bitfield (8 * i) 8 (bytes_bits raw)"
  by (subst slice_byte, assumption, rule ucast_slice) simp_all

lemma slice_drop: "k \<le> n \<Longrightarrow> n \<le> LENGTH('a) \<Longrightarrow>
    drop_bit k (bitfield s n bs :: 'a::len word) = bitfield (s + k) (n - k) bs"
  by (rule bit_word_eqI) (auto simp: bit_drop_bit_eq bit_bitfield add.assoc)

lemma slice_mask: "m \<le> n \<Longrightarrow> (bitfield s n bs :: 'a::len word) AND (2 ^ m - 1) = bitfield s m bs"
  by (rule bit_word_eqI) (auto simp: bit_and_iff bit_bitfield)

lemma slice_add:
  "s + a \<le> length bs \<Longrightarrow> bitfield s a bs + push_bit a (bitfield (s + a) b bs) = (bitfield s (a + b) bs :: 'a::len word)"
  by (simp add: bitfield_def take_add horner_sum_append push_bit_eq_mult min_absorb2 mult.commute add.commute)

lemma slice_at: "length xs = s \<Longrightarrow> length ys = n \<Longrightarrow>
    bitfield s n (xs @ ys @ zs) = (horner_sum of_bool 2 ys :: 'a::len word)"
  by (simp add: bitfield_def)

lemma slice_masks:
  "2 \<le> n \<Longrightarrow> bitfield s n bs AND (3 :: u8) = bitfield s 2 bs"
  "2 \<le> n \<Longrightarrow> bitfield s n bs AND (3 :: u32) = bitfield s 2 bs"
  "6 \<le> n \<Longrightarrow> bitfield s n bs AND (0x3f :: u32) = bitfield s 6 bs"
  using slice_mask [of 2 n s bs, where 'a = 8] slice_mask [of 2 n s bs, where 'a = 32]
    slice_mask [of 6 n s bs, where 'a = 32] by simp_all

section \<open>What the parser computes\<close>

text \<open>
  The layout of RFC 8878 for a type and a size format: where the regenerated size starts, its
  width, the width of the compressed size that follows it, and the length of the header.
\<close>

definition header_layout :: "u8 \<Rightarrow> u8 \<Rightarrow> nat \<times> nat \<times> nat option \<times> nat" where
  "header_layout t f =
     (if t = 0 \<or> t = 1 then
        if f = 1 then (4, 12, None, 2) else if f = 3 then (4, 20, None, 3) else (3, 5, None, 1)
      else
        if f = 2 then (4, 14, Some 14, 4) else if f = 3 then (4, 18, Some 18, 5)
        else (4, 10, Some 10, 3))"

definition type_of_number :: "u8 \<Rightarrow> LiteralsSectionType" where
  "type_of_number t = (if t = 0 then LRaw else if t = 1 then LRLE else if t = 2 then LCompressed else LTreeless)"

lemma two_bits_cases: "(bitfield s 2 bs :: u8) \<in> {0, 1, 2, 3}"
proof -
  have "take_bit 2 (bitfield s 2 bs :: u8) = bitfield s 2 bs"
    by (rule bit_word_eqI) (auto simp: bit_take_bit_iff bit_bitfield)
  then have "unat (bitfield s 2 bs :: u8) < 4"
    by (metis unsigned_take_bit_eq take_bit_nat_less_exp power2_eq_square numeral_times_numeral semiring_norm(12,13))
  then have "unat (bitfield s 2 bs :: u8) \<in> {0, 1, 2, 3}" by auto
  then show ?thesis by (auto simp: word_unat_eq_iff)
qed


lemma ls_parse_correct:
  assumes ne: "raw \<noteq> []"
  defines "H \<equiv> bytes_bits raw"
  defines "t \<equiv> bitfield 0 2 H" and "f \<equiv> bitfield 2 2 H"
  shows "ls_parse_from_header self raw = (case header_layout t f of (s, n, c, k) \<Rightarrow>
     if length raw < k then Err (LSNotEnoughBytes (length raw) (of_nat k))
     else Ok (\<lparr>ls_regenerated_size = bitfield s n H,
        ls_compressed_size = map_option (\<lambda>m. bitfield (s + n) m H) c,
        ls_num_streams = (if c = None then ls_num_streams self
          else Some (if f = 0 then 1 else 4)), ls_type = type_of_number t\<rparr>, k))"
proof -
  have lenH: "length H = 8 * length raw" by (simp add: H_def)
  have first: "raw ! 0 = bitfield 0 8 H" unfolding H_def using slice_byte [of 0 raw] ne by simp
  have t: "raw ! 0 AND 3 = t" unfolding t_def first by (rule slice_masks) simp
  have f: "drop_bit 2 (raw ! 0) AND 3 = f"
    unfolding f_def first by (simp add: slice_drop slice_masks numeral_2_eq_2 [symmetric] del: drop_bit_and)
  have at: "i < length raw \<Longrightarrow> ucast (raw ! i) = (bitfield (8 * i) 8 H :: u32)" for i
    unfolding H_def by (rule slice_byte_ucast) simp_all
  have at6: "1 < length raw \<Longrightarrow> ucast (drop_bit 6 (raw ! 1)) = (bitfield 14 2 H :: u32)"
    unfolding H_def by (simp add: slice_byte slice_drop ucast_slice)
  have s20: "16 \<le> length H \<Longrightarrow> bitfield 4 4 H + push_bit 4 (bitfield 8 8 H) = (bitfield 4 12 H :: u32)"
    "16 \<le> length H \<Longrightarrow> bitfield 4 12 H + push_bit 12 (bitfield 16 k H) = (bitfield 4 (12 + k) H :: u32)"
    "16 \<le> length H \<Longrightarrow> bitfield 4 4 H + push_bit 4 (bitfield 8 6 H) = (bitfield 4 10 H :: u32)"
    "16 \<le> length H \<Longrightarrow> bitfield 14 2 H + push_bit 2 (bitfield 16 8 H) = (bitfield 14 10 H :: u32)"
    "24 \<le> length H \<Longrightarrow> bitfield 18 6 H + push_bit 6 (bitfield 24 8 H) = (bitfield 18 14 H :: u32)"
    "24 \<le> length H \<Longrightarrow> bitfield 22 2 H + push_bit 2 (bitfield 24 8 H) = (bitfield 22 10 H :: u32)"
    "32 \<le> length H \<Longrightarrow> bitfield 22 10 H + push_bit 10 (bitfield 32 8 H) = (bitfield 22 18 H :: u32)"
    for k
    using slice_add [of 4 4 H 8, where 'a = 32] slice_add [of 4 12 H k, where 'a = 32]
      slice_add [of 4 4 H 6, where 'a = 32] slice_add [of 14 2 H 8, where 'a = 32]
      slice_add [of 18 6 H 8, where 'a = 32] slice_add [of 22 2 H 8, where 'a = 32]
      slice_add [of 22 10 H 8, where 'a = 32]
    by simp_all
  have tc: "t \<in> {0, 1, 2, 3}" "f \<in> {0, 1, 2, 3}" unfolding t_def f_def by (rule two_bits_cases)+
  have st: "section_type (raw ! 0) = Ok (type_of_number t)"
    unfolding section_type_def t Let_def type_of_number_def using tc(1) by auto
  have need: "header_bytes_needed (raw ! 0) = Ok (of_nat (snd (snd (snd (header_layout t f)))))"
    unfolding header_bytes_needed_def st f Let_def
    using tc by (auto simp: type_of_number_def header_layout_def)
  have ty: "type_of_number t = LRLE \<or> type_of_number t = LRaw \<longleftrightarrow> t = 0 \<or> t = 1"
    using tc(1) by (auto simp: type_of_number_def)
  define ty where "ty = type_of_number t"
  note parse = ls_parse_from_header_def Let_def st need f rbind.simps ty_def [symmetric]
  note layout = header_layout_def at at6 [unfolded One_nat_def] slice_drop slice_masks lenH s20
  show ?thesis
  proof (cases "t = 0 \<or> t = 1")
    case True
    then have "ty = LRLE \<or> ty = LRaw" using ty by (simp add: ty_def)
    with tc(2) ne True show ?thesis
      unfolding parse by (elim insertE emptyE) (simp_all only: layout, simp_all add: layout flip: ty_def)
  next
    case False
    then have "\<not> (ty = LRLE \<or> ty = LRaw)" using ty by (simp add: ty_def)
    with tc(2) ne False show ?thesis
      unfolding parse by (elim insertE emptyE) (simp_all only: layout, simp_all add: layout flip: ty_def)
  qed
qed


section \<open>What the writers produce\<close>

lemma bytes_of_bits: "length xs = 8 * n \<Longrightarrow> \<exists>bs. bytes_bits bs = xs \<and> length bs = n"
proof (induction n arbitrary: xs)
  case (Suc n)
  then have "length (drop 8 xs) = 8 * n" by simp
  from Suc.IH [OF this] obtain bs where bs: "bytes_bits bs = drop 8 xs" "length bs = n" by blast
  have "byte_bits (horner_sum of_bool 2 (take 8 xs)) = take 8 xs"
    using Suc.prems by (intro nth_equalityI) (auto simp: bit_horner_sum_bit_iff)
  then have "bytes_bits (horner_sum of_bool 2 (take 8 xs) # bs) = xs" by (simp add: bs(1))
  then show ?case using bs(2) by (metis length_Cons)
qed simp

lemma bitfield_word_bits:
  "length pre = s \<Longrightarrow> unat y < 2 ^ n \<Longrightarrow> n \<le> 64 \<Longrightarrow> n \<le> LENGTH('a) \<Longrightarrow>
     bitfield s n (pre @ word_bits n y @ rest) = (ucast y :: 'a::len word)"
proof -
  assume a: "length pre = s" "unat y < 2 ^ n" "n \<le> 64" "n \<le> LENGTH('a)"
  have y: "bit y i \<Longrightarrow> i < n" for i using unat_less_take_bit [OF a(2)] by (metis bit_take_bit_iff)
  show ?thesis
  proof (rule bit_word_eqI)
    fix i assume "i < LENGTH('a)"
    then show "bit (bitfield s n (pre @ word_bits n y @ rest) :: 'a word) i = bit (ucast y :: 'a word) i"
      using a y [of i] by (auto simp: bit_bitfield nth_append bit_ucast_iff)
  qed
qed

text \<open>The parser on a header of three or four fields.\<close>

lemma parse_wide:
  assumes H: "bytes_bits raw = word_bits 2 t @ word_bits 2 f @ word_bits n len @ R"
    and t: "unat t < 4" and f: "unat f < 4" and len: "unat len < 2 ^ n"
    and lay: "header_layout (ucast t) (ucast f) = (4, n, c, k)" and k: "k \<le> length raw"
    and c: "\<And>m. c = Some m \<Longrightarrow> \<exists>R'. R = word_bits m cs @ R' \<and> unat cs < 2 ^ m"
  shows "ls_parse_from_header self raw = Ok (\<lparr>ls_regenerated_size = ucast len,
     ls_compressed_size = (if c = None then None else Some (ucast cs)),
     ls_num_streams = (if c = None then ls_num_streams self
       else Some (if ucast f = (0 :: u8) then 1 else 4)), ls_type = type_of_number (ucast t)\<rparr>, k)"
proof -
  have n: "n \<le> 20" "\<And>m. c = Some m \<Longrightarrow> m \<le> 18" "k > 0" using lay by (auto simp: header_layout_def split: if_splits)
  have ne: "raw \<noteq> []" using k n(3) by auto
  have ft: "bitfield 0 2 (bytes_bits raw) = (ucast t :: u8)"
    unfolding H using t bitfield_word_bits [of "[]" 0 t 2, where 'a = 8] by simp
  have ff: "bitfield 2 2 (bytes_bits raw) = (ucast f :: u8)"
    unfolding H using f by (intro bitfield_word_bits) simp_all
  have fl: "bitfield 4 n (bytes_bits raw) = (ucast len :: u32)"
    unfolding H using len n(1) bitfield_word_bits [of "word_bits 2 t @ word_bits 2 f" 4 len n, where 'a = 32] by simp
  have fc: "bitfield (4 + n) m (bytes_bits raw) = (ucast cs :: u32)" if cm: "c = Some m" for m
  proof -
    obtain R' where "R = word_bits m cs @ R'" "unat cs < 2 ^ m" using c [OF cm] by blast
    then show ?thesis
      using n(2) [OF cm] bitfield_word_bits [of "word_bits 2 t @ word_bits 2 f @ word_bits n len" "4 + n" cs m, where 'a = 32]
      by (simp add: H)
  qed
  show ?thesis
    unfolding ls_parse_correct [OF ne] ft ff lay using k fl fc by (cases c) auto
qed

lemma parse_small:
  assumes H: "bytes_bits raw = word_bits 2 t @ word_bits 1 0 @ word_bits 5 len @ R"
    and t: "t = 0 \<or> t = 1" and len: "unat len < 32" and ne: "raw \<noteq> []"
  shows "ls_parse_from_header self raw = Ok (\<lparr>ls_regenerated_size = ucast len,
     ls_compressed_size = None, ls_num_streams = ls_num_streams self,
     ls_type = type_of_number (ucast t)\<rparr>, 1)"
proof -
  have ft: "bitfield 0 2 (bytes_bits raw) = (ucast t :: u8)"
    unfolding H using t bitfield_word_bits [of "[]" 0 t 2, where 'a = 8] by auto
  have "\<not> bit (bitfield 2 2 (bytes_bits raw) :: u8) 0"
    by (simp add: bit_bitfield H nth_append del: bit_0)
  then have "(bitfield 2 2 (bytes_bits raw) :: u8) = 0 \<or> (bitfield 2 2 (bytes_bits raw) :: u8) = 2"
    using two_bits_cases [of 2 "bytes_bits raw"] by (auto simp: bit_0)
  then have lay: "header_layout (ucast t) (bitfield 2 2 (bytes_bits raw)) = (3, 5, None, 1)"
    using t by (auto simp: header_layout_def)
  have fl: "bitfield 3 5 (bytes_bits raw) = (ucast len :: u32)"
    unfolding H using len bitfield_word_bits [of "word_bits 2 t @ word_bits 1 0" 3 len 5, where 'a = 32] by simp
  show ?thesis
    unfolding ls_parse_correct [OF ne] ft lay using ne fl by (cases raw) auto
qed


section \<open>Raw and RLE headers\<close>

definition len_word :: "nat \<Rightarrow> u64" where
  "len_word n = ucast (of_nat n :: u32)"

lemma len_word: "n < 2 ^ 32 \<Longrightarrow> unat (len_word n) = n" "n < 2 ^ 32 \<Longrightarrow> ucast (len_word n) = (of_nat n :: u32)"
proof -
  have "ucast (ucast (of_nat n :: u32) :: u64) = (of_nat n :: u32)"
    by (rule ucast_up_ucast_id) (simp add: is_up)
  then show "n < 2 ^ 32 \<Longrightarrow> ucast (len_word n) = (of_nat n :: u32)" by (simp only: len_word_def)
  show "n < 2 ^ 32 \<Longrightarrow> unat (len_word n) = n"
    by (simp add: len_word_def unsigned_ucast_eq unat_of_nat take_bit_nat_eq_self)
qed

definition size_fields :: "u64 \<Rightarrow> nat \<Rightarrow> field list" where
  "size_fields t n =
     (if n \<le> 31 then [(t, 2), (0, 1), (len_word n, 5)]
      else if n \<le> 4095 then [(t, 2), (1, 2), (len_word n, 12)]
      else [(t, 2), (3, 2), (len_word n, 20)])"

lemma raw_literals_fields:
  "raw_literals lits w = rbind (put_all bw_write_bits_64 (size_fields 0 (length lits)) w)
     (\<lambda>w. bw_append_bytes w lits)"
  "rle_literals lits w = rbind (put_all bw_write_bits_64 (size_fields 1 (length lits)) w)
     (\<lambda>w. rbind (rindex lits 0) (\<lambda>b. bw_write_bits_64 w (ucast b) 8))"
  by (simp_all add: raw_literals_def rle_literals_def size_fields_def bw_write_bits_def rbind_assoc
    flip: len_word_def)

lemma size_fields_ok: "unat t < 4 \<Longrightarrow> n < 2 ^ 20 \<Longrightarrow> list_all field_ok (size_fields t n)"
  by (simp add: size_fields_def field_ok_def len_word)

text \<open>The header bytes behind the fields, and what the parser makes of them.\<close>

lemma size_fields_header:
  assumes t: "t = 0 \<or> t = 1" and n: "n < 2 ^ 20"
  obtains hdr where "bytes_bits hdr = field_bits (size_fields t n)"
    "\<And>rest. ls_parse_from_header ls_new (hdr @ rest) = Ok (\<lparr>ls_regenerated_size = of_nat n,
       ls_compressed_size = None, ls_num_streams = None, ls_type = type_of_number (ucast t)\<rparr>, length hdr)"
proof -
  let ?k = "if n \<le> 31 then 1 else if n \<le> 4095 then 2 else 3 :: nat"
  have "length (field_bits (size_fields t n)) = 8 * ?k" by (simp add: size_fields_def)
  then obtain hdr where hdr: "bytes_bits hdr = field_bits (size_fields t n)" "length hdr = ?k"
    using bytes_of_bits by blast
  have ne: "hdr @ rest \<noteq> []" for rest using hdr(2) by (auto split: if_splits)
  have ns: "ls_num_streams ls_new = None" by (simp add: ls_new_def)
  show thesis
  proof (rule that [OF hdr(1)])
    fix rest
    consider (small) "n \<le> 31" | (mid) "31 < n" "n \<le> 4095" | (big) "4095 < n" by linarith
    then show "ls_parse_from_header ls_new (hdr @ rest) = Ok (\<lparr>ls_regenerated_size = of_nat n,
       ls_compressed_size = None, ls_num_streams = None, ls_type = type_of_number (ucast t)\<rparr>, length hdr)"
    proof cases
      case small
      have "bytes_bits (hdr @ rest) = word_bits 2 t @ word_bits 1 0 @ word_bits 5 (len_word n) @ bytes_bits rest"
        using hdr small by (simp add: size_fields_def)
      from parse_small [OF this t _ ne, of ls_new] small hdr(2) show ?thesis
        by (simp add: len_word ns)
    next
      case mid
      have "bytes_bits (hdr @ rest) = word_bits 2 t @ word_bits 2 1 @ word_bits 12 (len_word n) @ bytes_bits rest"
        using hdr mid by (simp add: size_fields_def)
      from parse_wide [OF this, where c = None and k = 2 and self = ls_new] mid hdr(2) t show ?thesis
        by (auto simp: len_word ns header_layout_def)
    next
      case big
      have "bytes_bits (hdr @ rest) = word_bits 2 t @ word_bits 2 3 @ word_bits 20 (len_word n) @ bytes_bits rest"
        using hdr big by (simp add: size_fields_def)
      from parse_wide [OF this, where c = None and k = 3 and self = ls_new] big n hdr(2) t show ?thesis
        by (auto simp: len_word ns header_layout_def)
    qed
  qed
qed

lemma plain_literals:
  assumes "bw_inv w" "length (bw_bits w) mod 8 = 0" "length lits < 2 ^ 20"
  shows "\<exists>w' hdr. raw_literals lits w = Ok w' \<and> bw_inv w'
      \<and> bw_bits w' = bw_bits w @ bytes_bits (hdr @ lits)
      \<and> (\<forall>rest. ls_parse_from_header ls_new (hdr @ rest) = Ok (\<lparr>ls_regenerated_size = of_nat (length lits),
           ls_compressed_size = None, ls_num_streams = None, ls_type = LRaw\<rparr>, length hdr))"
    and "lits \<noteq> [] \<Longrightarrow> \<exists>w' hdr. rle_literals lits w = Ok w' \<and> bw_inv w'
      \<and> bw_bits w' = bw_bits w @ bytes_bits (hdr @ [lits ! 0])
      \<and> (\<forall>rest. ls_parse_from_header ls_new (hdr @ rest) = Ok (\<lparr>ls_regenerated_size = of_nat (length lits),
           ls_compressed_size = None, ls_num_streams = None, ls_type = LRLE\<rparr>, length hdr))"
proof -
  have put: "\<exists>w'. put_all bw_write_bits_64 (size_fields t (length lits)) w = Ok w' \<and> bw_inv w'
      \<and> bw_bits w' = bw_bits w @ field_bits (size_fields t (length lits))" if "t = 0 \<or> t = 1" for t
    using that assms by (intro bw.put_all_ok size_fields_ok) auto
  obtain hdr where hdr: "bytes_bits hdr = field_bits (size_fields 0 (length lits))"
    "\<And>rest. ls_parse_from_header ls_new (hdr @ rest) = Ok (\<lparr>ls_regenerated_size = of_nat (length lits),
       ls_compressed_size = None, ls_num_streams = None, ls_type = type_of_number (ucast (0 :: u64))\<rparr>, length hdr)"
    using size_fields_header [of 0 "length lits"] assms(3) by auto
  obtain w1 where w1: "put_all bw_write_bits_64 (size_fields 0 (length lits)) w = Ok w1" "bw_inv w1"
      "bw_bits w1 = bw_bits w @ bytes_bits hdr"
    using put [of 0] hdr(1) by auto
  have "length (bw_bits w1) mod 8 = 0" using assms(2) by (simp add: w1(3))
  from bw_append_bytes_correct [OF w1(2) this, of lits] w1 hdr(2)
  show "\<exists>w' hdr. raw_literals lits w = Ok w' \<and> bw_inv w'
      \<and> bw_bits w' = bw_bits w @ bytes_bits (hdr @ lits)
      \<and> (\<forall>rest. ls_parse_from_header ls_new (hdr @ rest) = Ok (\<lparr>ls_regenerated_size = of_nat (length lits),
           ls_compressed_size = None, ls_num_streams = None, ls_type = LRaw\<rparr>, length hdr))"
    unfolding raw_literals_fields
    by (auto simp: type_of_number_def simp flip: append_assoc intro!: exI [of _ hdr])
  assume ne: "lits \<noteq> []"
  obtain hdr where hdr: "bytes_bits hdr = field_bits (size_fields 1 (length lits))"
    "\<And>rest. ls_parse_from_header ls_new (hdr @ rest) = Ok (\<lparr>ls_regenerated_size = of_nat (length lits),
       ls_compressed_size = None, ls_num_streams = None, ls_type = type_of_number (ucast (1 :: u64))\<rparr>, length hdr)"
    using size_fields_header [of 1 "length lits"] assms(3) by auto
  obtain w1 where w1: "put_all bw_write_bits_64 (size_fields 1 (length lits)) w = Ok w1" "bw_inv w1"
      "bw_bits w1 = bw_bits w @ bytes_bits hdr"
    using put [of 1] hdr(1) by auto
  let ?b = "lits ! 0"
  have u: "unat (ucast ?b :: u64) < 2 ^ 8"
    using unsigned_less [of ?b, where 'a = nat] by (simp add: unsigned_ucast_eq take_bit_nat_eq_self)
  have "word_bits 8 (ucast ?b) = byte_bits ?b"
    using byte_bits_ucast [of "ucast ?b"] by (simp add: ucast_down_ucast_id is_down)
  then show "\<exists>w' hdr. rle_literals lits w = Ok w' \<and> bw_inv w'
      \<and> bw_bits w' = bw_bits w @ bytes_bits (hdr @ [lits ! 0])
      \<and> (\<forall>rest. ls_parse_from_header ls_new (hdr @ rest) = Ok (\<lparr>ls_regenerated_size = of_nat (length lits),
           ls_compressed_size = None, ls_num_streams = None, ls_type = LRLE\<rparr>, length hdr))"
    using bw.put_step [OF w1(2) _ u] w1 hdr(2) ne unfolding raw_literals_fields
    by (fastforce simp: type_of_number_def intro!: exI [of _ hdr])
qed

text \<open>
  Raw and RLE literals of less than 2^20 bytes, written to an aligned writer, append a header
  of one to three bytes followed by the literals themselves or the one repeated byte; the parser
  reads the header back as the type and the exact size, and its length, whatever follows.
\<close>

theorem plain_literals_roundtrip:
  assumes "bw_inv w" "length (bw_bits w) mod 8 = 0" "length lits < 2 ^ 20"
  shows "(\<exists>w' hdr. raw_literals lits w = Ok w' \<and> bw_inv w'
      \<and> bw_bits w' = bw_bits w @ bytes_bits (hdr @ lits)
      \<and> (\<forall>rest. ls_parse_from_header ls_new (hdr @ rest) = Ok (\<lparr>ls_regenerated_size = of_nat (length lits),
           ls_compressed_size = None, ls_num_streams = None, ls_type = LRaw\<rparr>, length hdr)))
    \<and> (lits \<noteq> [] \<longrightarrow> (\<exists>w' hdr. rle_literals lits w = Ok w' \<and> bw_inv w'
      \<and> bw_bits w' = bw_bits w @ bytes_bits (hdr @ [lits ! 0])
      \<and> (\<forall>rest. ls_parse_from_header ls_new (hdr @ rest) = Ok (\<lparr>ls_regenerated_size = of_nat (length lits),
           ls_compressed_size = None, ls_num_streams = None, ls_type = LRLE\<rparr>, length hdr))))"
  using plain_literals [OF assms] by blast

theorem plain_literals_roundtrip_witness:
  "\<exists>w' hdr. raw_literals [1, 2, 3] bw_new = Ok w' \<and> bw_bits w' = bytes_bits (hdr @ [1, 2, 3])"
  using plain_literals_roundtrip [of bw_new "[1, 2, 3]"] by auto

section \<open>Huffman headers\<close>

lemma overwrite_at: "length pre = i \<Longrightarrow> length ys = length zs \<Longrightarrow>
    overwrite (pre @ zs @ rest) i ys = pre @ ys @ rest"
  by (simp add: overwrite_def)

lemma stream_form_ok:
  assumes "stream_form len single = Ok (f, n)" "single \<Longrightarrow> len < 1024"
  shows "len < 2 ^ n" "n = 10 \<or> n = 14 \<or> n = 18" "unat f < 4" "(f = 0) = single"
    "header_layout 2 (ucast f) = (4, n, Some n, if n = 10 then 3 else if n = 14 then 4 else 5)"
    "header_layout 3 (ucast f) = (4, n, Some n, if n = 10 then 3 else if n = 14 then 4 else 5)"
  using assms by (auto simp: stream_form_def header_layout_def split: if_splits)

lemma compressed_section:
  assumes inv: "bw_inv w" and al: "length (bw_bits w) mod 8 = 0"
    and form: "stream_form len single = Ok (f, n)" "single \<Longrightarrow> len < 1024"
    and body: "body \<noteq> []" "length body < 2 ^ n"
  shows "\<exists>si w1 w2 w3 hdr. compressed_header new len single w = Ok (si, n, w1)
    \<and> bw_append_bytes w1 body = Ok w2
    \<and> patch_compressed_size w2 (bw_index w1) si n = Ok w3 \<and> bw_inv w3
    \<and> bw_bits w3 = bw_bits w @ bytes_bits (hdr @ body)
    \<and> (\<forall>rest. ls_parse_from_header ls_new (hdr @ rest) = Ok (\<lparr>ls_regenerated_size = of_nat len,
         ls_compressed_size = Some (of_nat (length body)), ls_num_streams = Some (if single then 1 else 4),
         ls_type = (if new then LCompressed else LTreeless)\<rparr>, length hdr))"
proof -
  note sf = stream_form_ok [OF form]
  let ?t = "if new then 2 else 3 :: u64" and ?k = "if n = 10 then 3 else if n = 14 then 4 else 5 :: nat"
  let ?cs = "of_nat (length body) :: u64"
  have len32: "len < 2 ^ 32" using sf(1,2) by auto
  have t4: "unat ?t < 4" by (cases new) simp_all
  have cs: "unat ?cs = length body" "unat ?cs < 2 ^ n" "ucast ?cs = (of_nat (length body) :: u32)"
  proof -
    have "length body < 2 ^ 32" using body(2) sf(2) by auto
    then show "unat ?cs = length body" by (simp add: unat_of_nat)
    then show "unat ?cs < 2 ^ n" using body(2) by simp
    show "ucast ?cs = (of_nat (length body) :: u32)"
      using \<open>length body < 2 ^ 32\<close> \<open>unat ?cs = length body\<close>
      by (simp add: word_unat_eq_iff unsigned_ucast_eq unat_of_nat take_bit_nat_eq_self)
  qed
  obtain w0 where w0: "put_all bw_write_bits_64 [(?t, 2), (f, 2), (len_word len, n)] w = Ok w0"
      "bw_inv w0" "bw_bits w0 = bw_bits w @ field_bits [(?t, 2), (f, 2), (len_word len, n)]"
  proof -
    have "list_all field_ok [(?t, 2), (f, 2), (len_word len, n)]"
      using sf(1-3) len32 t4 by (auto simp: field_ok_def len_word)
    from bw.put_all_ok [OF inv this] that show thesis by blast
  qed
  obtain w1 where w1: "bw_write_bits_64 w0 0 n = Ok w1" "bw_inv w1" "bw_bits w1 = bw_bits w0 @ word_bits n 0"
  proof -
    have "n < 64" "unat (0 :: u64) < 2 ^ n" using sf(2) by auto
    from bw.put_step [OF w0(2) this] that show thesis by blast
  qed
  have hd: "compressed_header new len single w = Ok (bw_index w0, n, w1)"
    using w0(1) w1(1) form(1)
    by (auto simp: compressed_header_def bw_write_bits_def rbind_eq_Ok simp flip: len_word_def)
  have l0: "length (bw_bits w0) = length (bw_bits w) + 4 + n" by (simp add: w0(3))
  then have l1: "length (bw_bits w1) = length (bw_bits w) + 8 * ?k" using sf(2) by (auto simp: w1(3))
  then have "length (bw_bits w1) mod 8 = 0" using al by simp
  from bw_append_bytes_correct [OF w1(2) this, of body] obtain w2 where w2: "bw_append_bytes w1 body = Ok w2"
      "bw_inv w2" "bw_bits w2 = bw_bits w1 @ bytes_bits body" by blast
  have l2: "length (bw_bits w2) = length (bw_bits w1) + 8 * length body" by (simp add: w2(3))
  have ix: "bw_index w0 = length (bw_bits w0)" "bw_index w1 = length (bw_bits w1)"
      "bw_index w2 = length (bw_bits w2)"
    using w0(2) w1(2) w2(2) by (simp_all add: bw_index_length)
  have pos: "0 < length body" using body(1) by simp
  have "\<exists>w3. bw_change_bits_64 w2 (bw_index w0) ?cs n = Ok w3 \<and> bw_inv w3
      \<and> bw_bits w3 = overwrite (bw_bits w2) (bw_index w0) (word_bits n ?cs)"
  proof (rule bw_change_bits_64_correct [OF w2(2) _ _ cs(2)])
    show "length (bw_bits w2) mod 8 = 0" using al l2 l1 by simp
    show "bw_index w0 + n < length (bw_bits w2)" using l2 pos by (simp add: ix(1) w1(3))
    show "8 - bw_index w0 mod 8 \<le> n" if "bw_index w0 mod 8 \<noteq> 0" using sf(2) by auto
  qed
  moreover have "overwrite (bw_bits w2) (bw_index w0) (word_bits n ?cs)
      = bw_bits w0 @ word_bits n ?cs @ bytes_bits body"
    unfolding w2(3) w1(3) append_assoc ix(1) by (rule overwrite_at) simp_all
  ultimately obtain w3 where w3: "bw_change_bits_64 w2 (bw_index w0) ?cs n = Ok w3" "bw_inv w3"
      "bw_bits w3 = bw_bits w0 @ word_bits n ?cs @ bytes_bits body" by auto
  have patch: "patch_compressed_size w2 (bw_index w1) (bw_index w0) n = Ok w3"
    using w3(1) l2 by (simp add: patch_compressed_size_def ix(2,3))
  let ?H = "field_bits [(?t, 2), (f, 2), (len_word len, n), (?cs, n)]"
  have "length ?H = 8 * ?k" using sf(2) by auto
  then obtain hdr where hdr: "bytes_bits hdr = ?H" "length hdr = ?k" using bytes_of_bits by blast
  have "ls_parse_from_header ls_new (hdr @ rest) = Ok (\<lparr>ls_regenerated_size = of_nat len,
         ls_compressed_size = Some (of_nat (length body)), ls_num_streams = Some (if single then 1 else 4),
         ls_type = (if new then LCompressed else LTreeless)\<rparr>, length hdr)" for rest
  proof -
    have H: "bytes_bits (hdr @ rest) = word_bits 2 ?t @ word_bits 2 f @ word_bits n (len_word len)
        @ (word_bits n ?cs @ bytes_bits rest)" using hdr(1) by simp
    have f0: "(ucast f = (0 :: u8)) = single"
      using form(1) by (auto simp: stream_form_def split: if_splits)
    have lay: "header_layout (ucast ?t) (ucast f) = (4, n, Some n, ?k)" using sf(5,6) by auto
    have lenn: "unat (len_word len) < 2 ^ n" using sf(1) len32 by (simp add: len_word)
    have k: "?k \<le> length (hdr @ rest)" using hdr(2) by simp
    from parse_wide [OF H t4 sf(3) lenn lay k, of ?cs ls_new] cs(2,3) f0 hdr(2) len32
    show ?thesis by (auto simp: len_word type_of_number_def)
  qed
  then show ?thesis
    using hd w2(1) patch w3(2,3) hdr(1)
    by (intro exI [of _ "bw_index w0"] exI [of _ w1] exI [of _ w2] exI [of _ w3] exI [of _ hdr])
      (simp add: w0(3))
qed


text \<open>
  C15.  Huffman literals: the encoder writes the header with a zero compressed size, appends the
  body and patches the size in place; the result is a header followed by the unchanged body, and
  the parser reads back the literal count, the body's length, the number of streams and whether a
  table description follows, for each of the three header sizes.
\<close>

theorem compressed_header_roundtrip:
  assumes "bw_inv w" "length (bw_bits w) mod 8 = 0"
    and "stream_form len single = Ok (f, n)" "single \<Longrightarrow> len < 1024"
    and "body \<noteq> []" "length body < 2 ^ n"
  shows "\<exists>si w1 w2 w3 hdr. compressed_header new len single w = Ok (si, n, w1)
    \<and> bw_append_bytes w1 body = Ok w2
    \<and> patch_compressed_size w2 (bw_index w1) si n = Ok w3 \<and> bw_inv w3
    \<and> bw_bits w3 = bw_bits w @ bytes_bits (hdr @ body)
    \<and> (\<forall>rest. ls_parse_from_header ls_new (hdr @ rest) = Ok (\<lparr>ls_regenerated_size = of_nat len,
         ls_compressed_size = Some (of_nat (length body)), ls_num_streams = Some (if single then 1 else 4),
         ls_type = (if new then LCompressed else LTreeless)\<rparr>, length hdr))"
  using assms by (rule compressed_section)

theorem compressed_header_roundtrip_witness:
  "\<exists>si w1 w2 w3 hdr. compressed_header True 2000 False bw_new = Ok (si, 14, w1)
    \<and> bw_append_bytes w1 [7, 8, 9] = Ok w2 \<and> patch_compressed_size w2 (bw_index w1) si 14 = Ok w3
    \<and> bw_bits w3 = bytes_bits (hdr @ [7, 8, 9])"
  using compressed_header_roundtrip [of bw_new 2000 False 2 14 "[7, 8, 9]" True]
  by (fastforce simp: stream_form_def)

text \<open>
  C16.  The parser on every input: an empty header is the error of the first two-bit read, a
  header shorter than its first byte announces is rejected with both lengths, and otherwise each
  field is the bit slice the format lays out; the stream count of raw and RLE sections is left
  as it was.
\<close>

theorem ls_parse_spec:
  "ls_parse_from_header self raw =
    (if raw = [] then Err (LSGetBitsError (NotEnoughRemainingBits 2 0))
     else let H = bytes_bits raw; t = bitfield 0 2 H; f = bitfield 2 2 H in
       case header_layout t f of (s, n, c, k) \<Rightarrow>
         if length raw < k then Err (LSNotEnoughBytes (length raw) (of_nat k))
         else Ok (\<lparr>ls_regenerated_size = bitfield s n H,
           ls_compressed_size = map_option (\<lambda>m. bitfield (s + n) m H) c,
           ls_num_streams = (if c = None then ls_num_streams self else Some (if f = 0 then 1 else 4)),
           ls_type = type_of_number t\<rparr>, k))"
proof (cases "raw = []")
  case True
  then show ?thesis by (simp add: ls_parse_from_header_def)
next
  case False
  then show ?thesis using ls_parse_correct [OF False, of self] by (simp only: Let_def if_False)
qed

end
