(* ===== verification/Sequences_Header.thy ===== *)
theory Sequences_Header
  imports Bit_Writer Fse_Decoder Fse_Encoder
begin

text \<open>
  The head of the sequences section: \<open>blocks/sequence_section.rs\<close> (the sequence count, the mode
  byte, the predefined distributions) and its writers \<open>encode_seqnum\<close> and
  \<open>encode_fse_table_modes\<close> of \<open>encoding/block_enc/compressed.rs\<close>.
\<close>

unbundle bit_operations_syntax

section \<open>Constants\<close>

definition MAX_LITERAL_LENGTH_CODE :: u8 where
  "MAX_LITERAL_LENGTH_CODE = 35"

definition MAX_MATCH_LENGTH_CODE :: u8 where
  "MAX_MATCH_LENGTH_CODE = 52"

definition MAX_OFFSET_CODE :: u8 where
  "MAX_OFFSET_CODE = 31"

definition LL_DEFAULT_ACC_LOG :: nat where
  "LL_DEFAULT_ACC_LOG = 6"

definition ML_DEFAULT_DISTRIBUTION :: "int list" where
  "ML_DEFAULT_DISTRIBUTION =
    [1, 4, 3, 2, 2, 2, 2, 2, 2, 1, 1, 1, 1, 1, 1, 1, 1, 1, 1, 1, 1, 1, 1, 1, 1, 1, 1, 1, 1, 1, 1, 1,
     1, 1, 1, 1, 1, 1, 1, 1, 1, 1, 1, 1, 1, 1, -1, -1, -1, -1, -1, -1, -1]"

definition ML_DEFAULT_ACC_LOG :: nat where
  "ML_DEFAULT_ACC_LOG = 6"

definition OF_DEFAULT_DISTRIBUTION :: "int list" where
  "OF_DEFAULT_DISTRIBUTION =
    [1, 1, 1, 1, 1, 1, 2, 2, 2, 1, 1, 1, 1, 1, 1, 1, 1, 1, 1, 1, 1, 1, 1, 1, -1, -1, -1, -1, -1]"

definition OF_DEFAULT_ACC_LOG :: nat where
  "OF_DEFAULT_ACC_LOG = 5"

section \<open>The parser\<close>

record Sequence =
  sq_ll :: u32
  sq_ml :: u32
  sq_of :: u32

type_synonym CompressionModes = u8

datatype ModeType = Predefined | ModeRLE | FSECompressed | RepeatMode

datatype SequencesHeaderParseError =
    SHNotEnoughBytes u8 nat
  | ReservedBitsSet u8

record SequencesHeader =
  sh_num_sequences :: u32
  sh_modes :: "CompressionModes option"

definition sh_new :: SequencesHeader where
  "sh_new = \<lparr>sh_num_sequences = 0, sh_modes = None\<rparr>"

definition modes_parse :: "u8 \<Rightarrow> (SequencesHeaderParseError, CompressionModes) res" where
  "modes_parse byte = (if byte AND 3 \<noteq> 0 then Err (ReservedBitsSet byte) else Ok byte)"

definition decode_mode :: "u8 \<Rightarrow> (unit, ModeType) res" where
  "decode_mode m =
     (if m = 0 then Ok Predefined
      else if m = 1 then Ok ModeRLE
      else if m = 2 then Ok FSECompressed
      else if m = 3 then Ok RepeatMode
      else Panic)"

definition ll_mode :: "CompressionModes \<Rightarrow> (unit, ModeType) res" where
  "ll_mode m = decode_mode (drop_bit 6 m)"

definition of_mode :: "CompressionModes \<Rightarrow> (unit, ModeType) res" where
  "of_mode m = decode_mode (drop_bit 4 m AND 3)"

definition ml_mode :: "CompressionModes \<Rightarrow> (unit, ModeType) res" where
  "ml_mode m = decode_mode (drop_bit 2 m AND 3)"

definition sh_parse_from_header ::
  "SequencesHeader \<Rightarrow> bytes \<Rightarrow> (SequencesHeaderParseError, SequencesHeader \<times> nat) res" where
  "sh_parse_from_header self source =
     (if source = [] then Err (SHNotEnoughBytes 1 0)
      else
      let at = (\<lambda>i. ucast (source ! i) :: u32) in
      if source ! 0 = 0 then Ok (self\<lparr>sh_num_sequences := 0\<rparr>, 1)
      else if source ! 0 \<le> 127 then
        if length source < 2 then Err (SHNotEnoughBytes 2 (length source))
        else
          let self = self\<lparr>sh_num_sequences := at 0\<rparr> in
          rbind (modes_parse (source ! 1)) (\<lambda>m. Ok (self\<lparr>sh_modes := Some m\<rparr>, 2))
      else if source ! 0 \<le> 254 then
        if length source < 2 then Err (SHNotEnoughBytes 2 (length source))
        else
          let self = self\<lparr>sh_num_sequences := push_bit 8 (at 0 - 128) + at 1\<rparr> in
          if sh_num_sequences self \<noteq> 0 then
            if length source < 3 then Err (SHNotEnoughBytes 3 (length source))
            else rbind (modes_parse (source ! 2)) (\<lambda>m. Ok (self\<lparr>sh_modes := Some m\<rparr>, 3))
          else Ok (self, 2)
      else
        if length source < 4 then Err (SHNotEnoughBytes 4 (length source))
        else
          let self = self\<lparr>sh_num_sequences := at 1 + push_bit 8 (at 2) + 0x7f00\<rparr> in
          rbind (modes_parse (source ! 3)) (\<lambda>m. Ok (self\<lparr>sh_modes := Some m\<rparr>, 4)))"

section \<open>The writers\<close>

definition encode_seqnum :: "nat \<Rightarrow> BitWriter \<Rightarrow> (unit, BitWriter) res" where
  "encode_seqnum seqnum writer =
     (if 1 \<le> seqnum \<and> seqnum \<le> 127 then
        bw_write_bits writer (ucast (of_nat seqnum :: u32)) 8
      else if 128 \<le> seqnum \<and> seqnum < 0x7f00 then
        let upper = ucast (of_nat (seqnum div 2 ^ 8) OR 0x80 :: u64) :: u8;
            lower = of_nat seqnum :: u8
        in rbind (bw_write_bits writer (ucast upper) 8) (\<lambda>writer. bw_write_bits writer (ucast lower) 8)
      else if 0x7f00 \<le> seqnum \<and> seqnum \<le> 0xffff + 0x7f00 then
        let encode = seqnum - 0x7f00
        in rbind (bw_write_bits writer 255 8) (\<lambda>writer.
           rbind (bw_write_bits writer (ucast (of_nat encode :: u8)) 8) (\<lambda>writer.
             bw_write_bits writer (ucast (of_nat (encode div 2 ^ 8) :: u8)) 8))
      else Panic)"

datatype FseTableMode =
    FPredefined EncTable
  | FEncoded EncTable
  | FRle u8 EncTable
  | FRepeat EncTable

primrec fm_as_ref :: "FseTableMode \<Rightarrow> EncTable" where
  "fm_as_ref (FPredefined t) = t"
| "fm_as_ref (FEncoded t) = t"
| "fm_as_ref (FRle code t) = t"
| "fm_as_ref (FRepeat t) = t"

primrec mode_to_bits :: "FseTableMode \<Rightarrow> u8" where
  "mode_to_bits (FPredefined t) = 0"
| "mode_to_bits (FRle code t) = 1"
| "mode_to_bits (FEncoded t) = 2"
| "mode_to_bits (FRepeat t) = 3"

definition encode_fse_table_modes :: "FseTableMode \<Rightarrow> FseTableMode \<Rightarrow> FseTableMode \<Rightarrow> u8" where
  "encode_fse_table_modes ll ml off =
     push_bit 6 (mode_to_bits ll) OR push_bit 4 (mode_to_bits off) OR push_bit 2 (mode_to_bits ml)"

primrec encode_table :: "FseTableMode \<Rightarrow> BitWriter \<Rightarrow> (unit, BitWriter) res" where
  "encode_table (FPredefined t) writer = Ok writer"
| "encode_table (FRepeat t) writer = Ok writer"
| "encode_table (FRle code t) writer = bw_write_bits writer (ucast code) 8"
| "encode_table (FEncoded t) writer = write_table t writer"

section \<open>The mode byte\<close>

text \<open>The mode a decoder must take for a table of the encoder.\<close>

primrec mode_of :: "FseTableMode \<Rightarrow> ModeType" where
  "mode_of (FPredefined t) = Predefined"
| "mode_of (FRle code t) = ModeRLE"
| "mode_of (FEncoded t) = FSECompressed"
| "mode_of (FRepeat t) = RepeatMode"

lemma modes_byte:
  "modes_parse (encode_fse_table_modes ll ml off) = Ok (encode_fse_table_modes ll ml off)"
  "ll_mode (encode_fse_table_modes ll ml off) = Ok (mode_of ll)"
  "of_mode (encode_fse_table_modes ll ml off) = Ok (mode_of off)"
  "ml_mode (encode_fse_table_modes ll ml off) = Ok (mode_of ml)"
  by (cases ll; cases ml; cases off; simp add: modes_parse_def encode_fse_table_modes_def
    ll_mode_def of_mode_def ml_mode_def decode_mode_def)+

section \<open>The sequence count\<close>

text \<open>The three forms of the count as bytes.\<close>

definition seqnum_bytes :: "nat \<Rightarrow> bytes" where
  "seqnum_bytes n =
     (if n \<le> 127 then [of_nat n]
      else if n < 0x7f00 then [of_nat (n div 256 + 128), of_nat (n mod 256)]
      else [255, of_nat ((n - 0x7f00) mod 256), of_nat ((n - 0x7f00) div 256)])"

lemma of_nat_byte: "unat (of_nat n :: u8) = n mod 256"
  by (simp add: unat_of_nat)

lemma unat_ucast_byte [simp]: "unat (ucast (b :: u8) :: u64) = unat b" "unat (ucast (b :: u8) :: u32) = unat b"
  using unsigned_less [of b, where 'a = nat] by (simp_all add: unsigned_ucast_eq take_bit_nat_eq_self)

lemma word_bits_byte: "word_bits 8 (ucast (b :: u8)) = byte_bits b"
  using byte_bits_ucast [of "ucast b"] by (simp add: ucast_down_ucast_id is_down)

lemma put_byte:
  assumes "bw_inv w"
  shows "\<exists>w'. bw_write_bits_64 w (ucast (b :: u8)) 8 = Ok w' \<and> bw_inv w' \<and> bw_bits w' = bw_bits w @ byte_bits b"
proof -
  have "unat (ucast b :: u64) < 2 ^ 8" using unsigned_less [of b, where 'a = nat] by simp
  from bw.put_step [OF assms _ this] show ?thesis by (auto simp: word_bits_byte)
qed


lemma seqnum_writes:
  assumes "bw_inv w" "1 \<le> n" "n \<le> 0xffff + 0x7f00"
  shows "\<exists>w'. encode_seqnum n w = Ok w' \<and> bw_inv w' \<and> bw_bits w' = bw_bits w @ bytes_bits (seqnum_bytes n)"
proof -
  consider (small) "n \<le> 127" | (mid) "128 \<le> n" "n < 0x7f00" | (big) "0x7f00 \<le> n" by linarith
  then show ?thesis
  proof cases
    case small
    have "ucast (of_nat n :: u32) = (ucast (of_nat n :: u8) :: u64)"
      using small by (simp add: word_unat_eq_iff unsigned_ucast_eq unat_of_nat take_bit_nat_eq_self)
    then show ?thesis
      using put_byte [OF assms(1), of "of_nat n"] small assms(2)
      by (auto simp: encode_seqnum_def seqnum_bytes_def bw_write_bits_def)
  next
    case mid
    define upper :: u8 where "upper = of_nat (n div 256 + 128)"
    have "list_all (\<lambda>k. (ucast (of_nat k OR 0x80 :: u64) :: u8) = of_nat (k + 128)) [0..<127]"
      by code_simp
    then have up: "ucast (of_nat (n div 256) OR 128 :: u64) = upper"
      using mid(2) by (auto simp: upper_def list_all_iff)
    obtain w1 where w1: "bw_write_bits_64 w (ucast upper) 8 = Ok w1" "bw_inv w1"
        "bw_bits w1 = bw_bits w @ byte_bits upper"
      using put_byte [OF assms(1)] by blast
    have lo: "(of_nat n :: u8) = of_nat (n mod 256)" by (simp add: word_unat_eq_iff unat_of_nat)
    have "encode_seqnum n w = rbind (bw_write_bits_64 w (ucast upper) 8)
        (\<lambda>w. bw_write_bits_64 w (ucast (of_nat n :: u8)) 8)"
      using mid up by (simp add: encode_seqnum_def bw_write_bits_def Let_def)
    moreover have "seqnum_bytes n = [upper, of_nat n]"
      using mid by (simp add: seqnum_bytes_def upper_def flip: lo)
    ultimately show ?thesis
      using put_byte [OF w1(2), of "of_nat n"] w1(1,3) by auto
  next
    case big
    obtain w1 where w1: "bw_write_bits_64 w 255 8 = Ok w1" "bw_inv w1"
        "bw_bits w1 = bw_bits w @ byte_bits 255"
      using put_byte [OF assms(1), of 255] by auto
    define e where "e = n - 0x7f00"
    obtain w2 where w2: "bw_write_bits_64 w1 (ucast (of_nat e :: u8)) 8 = Ok w2" "bw_inv w2"
        "bw_bits w2 = bw_bits w1 @ byte_bits (of_nat e)"
      using put_byte [OF w1(2)] by blast
    have lo: "(of_nat e :: u8) = of_nat (e mod 256)" by (simp add: word_unat_eq_iff unat_of_nat)
    have "encode_seqnum n w = rbind (bw_write_bits_64 w 255 8) (\<lambda>w.
        rbind (bw_write_bits_64 w (ucast (of_nat e :: u8)) 8) (\<lambda>w.
          bw_write_bits_64 w (ucast (of_nat (e div 256) :: u8)) 8))"
      using big assms(3) by (simp add: encode_seqnum_def bw_write_bits_def Let_def e_def)
    moreover have "seqnum_bytes n = [255, of_nat e, of_nat (e div 256)]"
      using big unfolding seqnum_bytes_def e_def [symmetric] lo by simp
    ultimately show ?thesis
      using put_byte [OF w2(2), of "of_nat (e div 256)"] w1(1,3) w2(1,3) by auto
  qed
qed

lemma parse_seqnum:
  assumes "1 \<le> n" "n \<le> 0xffff + 0x7f00"
  shows "sh_parse_from_header sh_new ((seqnum_bytes n @ [encode_fse_table_modes ll ml off]) @ rest)
    = Ok (\<lparr>sh_num_sequences = of_nat n, sh_modes = Some (encode_fse_table_modes ll ml off)\<rparr>,
        length (seqnum_bytes n @ [encode_fse_table_modes ll ml off]))"
proof -
  note [simp] = word_le_nat_alt word_unat_eq_iff unat_of_nat modes_byte(1)
  consider (small) "n \<le> 127" | (mid) "128 \<le> n" "n < 0x7f00" | (big) "0x7f00 \<le> n" by linarith
  then show ?thesis
  proof cases
    case small
    then have "unat (of_nat n :: u8) = n" "ucast (of_nat n :: u8) = (of_nat n :: u32)"
      by (simp_all add: unsigned_ucast_eq take_bit_nat_eq_self)
    then show ?thesis
      using small assms(1) by (simp add: sh_parse_from_header_def seqnum_bytes_def sh_new_def)
  next
    case mid
    define q r where "q = n div 256" and "r = n mod 256"
    have n: "n = q * 256 + r" "q < 127" "r < 256" using mid by (auto simp: q_def r_def)
    have u: "unat (of_nat (q + 128) :: u8) = q + 128" using n by (simp del: of_nat_add)
    have c: "ucast (of_nat (q + 128) :: u8) = (of_nat (q + 128) :: u32)"
      "ucast (of_nat r :: u8) = (of_nat r :: u32)"
      using n u by (simp_all add: unsigned_ucast_eq take_bit_nat_eq_self del: of_nat_add)
    have v: "push_bit 8 (of_nat (q + 128) - 128) + of_nat r = (of_nat n :: u32)"
      by (simp add: n(1) push_bit_eq_mult)
    have nz: "(of_nat n :: u32) \<noteq> 0" using mid by simp
    have q: "(of_nat (q + 128) :: u8) \<noteq> 0" "q \<le> 126" using u n(2) by auto
    show ?thesis
      using mid u v nz c q
      by (simp add: sh_parse_from_header_def seqnum_bytes_def sh_new_def Let_def
          flip: q_def r_def del: of_nat_add word_unat_eq_iff)
  next
    case big
    define e where "e = n - 0x7f00"
    define q r where "q = e div 256" and "r = e mod 256"
    have n: "n = q * 256 + r + 0x7f00" "q < 256" "r < 256"
      using big assms(2) by (auto simp: q_def r_def e_def)
    have c: "ucast (of_nat q :: u8) = (of_nat q :: u32)" "ucast (of_nat r :: u8) = (of_nat r :: u32)"
      using n by (simp_all add: unsigned_ucast_eq take_bit_nat_eq_self)
    have "of_nat r + push_bit 8 (of_nat q) + 0x7f00 = (of_nat n :: u32)"
      by (simp add: n(1) push_bit_eq_mult add.commute del: word_unat_eq_iff)
    then show ?thesis
      using big c
      by (simp add: sh_parse_from_header_def seqnum_bytes_def sh_new_def Let_def
          flip: e_def q_def r_def del: word_unat_eq_iff)
  qed
qed

text \<open>
  C17.  Every sequence count the encoder can write (1 to 98047) followed by the mode byte of any
  three tables is parsed back to the count, the three modes and the length of the header; the
  long form starts at 0x7F00, where the high byte of the two-byte form would collide with the
  marker 255.
\<close>

theorem sequences_header_roundtrip:
  assumes "bw_inv w" "1 \<le> n" "n \<le> 0xffff + 0x7f00"
  shows "\<exists>w1 w2 hdr. encode_seqnum n w = Ok w1
    \<and> bw_write_bits w1 (ucast (encode_fse_table_modes ll ml off)) 8 = Ok w2 \<and> bw_inv w2
    \<and> bw_bits w2 = bw_bits w @ bytes_bits hdr
    \<and> (\<forall>rest. \<exists>m. sh_parse_from_header sh_new (hdr @ rest)
         = Ok (\<lparr>sh_num_sequences = of_nat n, sh_modes = Some m\<rparr>, length hdr)
       \<and> ll_mode m = Ok (mode_of ll) \<and> of_mode m = Ok (mode_of off) \<and> ml_mode m = Ok (mode_of ml))"
proof -
  let ?m = "encode_fse_table_modes ll ml off" and ?hdr = "seqnum_bytes n @ [encode_fse_table_modes ll ml off]"
  obtain w1 where w1: "encode_seqnum n w = Ok w1" "bw_inv w1"
      "bw_bits w1 = bw_bits w @ bytes_bits (seqnum_bytes n)"
    using seqnum_writes [OF assms] by blast
  obtain w2 where w2: "bw_write_bits_64 w1 (ucast ?m) 8 = Ok w2" "bw_inv w2"
      "bw_bits w2 = bw_bits w1 @ byte_bits ?m"
    using put_byte [OF w1(2)] by blast
  have "sh_parse_from_header sh_new (?hdr @ rest)
      = Ok (\<lparr>sh_num_sequences = of_nat n, sh_modes = Some ?m\<rparr>, length ?hdr)" for rest
    using assms(2,3) by (rule parse_seqnum)
  then show ?thesis
    using w1 w2 modes_byte [of ll ml off]
    by (intro exI [of _ w1] exI [of _ w2] exI [of _ ?hdr]) (simp add: bw_write_bits_def)
qed

theorem sequences_header_roundtrip_witness:
  "\<exists>w1 hdr m. encode_seqnum 32512 bw_new = Ok w1
    \<and> sh_parse_from_header sh_new (hdr @ [5]) = Ok (\<lparr>sh_num_sequences = 32512, sh_modes = Some m\<rparr>, length hdr)"
  using sequences_header_roundtrip [of bw_new 32512 "FPredefined t" "FPredefined t" "FPredefined t" for t]
  by fastforce

end
