(* ===== verification/Seq_Codes.thy ===== *)
theory Seq_Codes
  imports Bit_Reader Frame_Header
begin

text \<open>
  The literal-length, match-length and offset codes of \<open>encoding/seq_codes.rs\<close>: the code tables,
  the encoding ladders, the packing of one sequence into a \<open>SeqWord\<close> (three code bytes, the
  merged extra bits and their width) and its inverse \<open>decode_packed\<close>.  The lookup tables the
  source builds at compile time are computed here by the same loop.
\<close>

unbundle bit_operations_syntax

section \<open>Code tables\<close>

definition SEQ_CODE_SPACE :: nat where
  "SEQ_CODE_SPACE = 64"

definition LL_META :: "(u32 \<times> nat) list" where
  "LL_META = map (\<lambda>code. (of_nat code, 0)) [0..<16] @
    [(16, 1), (18, 1), (20, 1), (22, 1), (24, 2), (28, 2), (32, 3), (40, 3), (48, 4), (64, 6),
     (128, 7), (256, 8), (512, 9), (1024, 10), (2048, 11), (4096, 12), (8192, 13), (16384, 14),
     (32768, 15), (65536, 16)]"

definition ML_META :: "(u32 \<times> nat) list" where
  "ML_META = map (\<lambda>code. (of_nat code + 3, 0)) [0..<32] @
    [(35, 1), (37, 1), (39, 1), (41, 1), (43, 2), (47, 2), (51, 3), (59, 3), (67, 4), (83, 4),
     (99, 5), (131, 7), (259, 8), (515, 9), (1027, 10), (2051, 11), (4099, 12), (8195, 13),
     (16387, 14), (32771, 15), (65539, 16)]"

text \<open>The search of the table builders: the last code whose base does not exceed the length.\<close>

fun lut_code :: "(u32 \<times> nat) list \<Rightarrow> nat \<Rightarrow> nat \<Rightarrow> nat" where
  "lut_code meta 0 len = 0"
| "lut_code meta (Suc code) len =
     (if unat (fst (meta ! Suc code)) \<le> len then Suc code else lut_code meta code len)"

definition LL_CODE_LUT :: "u8 list" where
  "LL_CODE_LUT = map (\<lambda>len. of_nat (lut_code LL_META 35 len)) [0..<64]"

definition ML_CODE_LUT :: "u8 list" where
  "ML_CODE_LUT = map (\<lambda>len. of_nat (lut_code ML_META 52 len)) [0..<131]"

section \<open>Codes of one value\<close>

text \<open>
  The result is the code, the value of its extra bits and their number; lengths beyond the last
  rung of a ladder reach its \<open>unreachable!\<close> arm.
\<close>

definition encode_literal_length :: "u32 \<Rightarrow> (unit, u8 \<times> u32 \<times> nat) res" where
  "encode_literal_length len =
     (if len < 64 then
        rbind (rindex LL_CODE_LUT (unat len)) (\<lambda>code.
        rbind (rindex LL_META (unat code)) (\<lambda>(base, bits).
          Ok (code, len - base, bits)))
      else if len \<le> 127 then Ok (25, len - 64, 6)
      else if len \<le> 255 then Ok (26, len - 128, 7)
      else if len \<le> 511 then Ok (27, len - 256, 8)
      else if len \<le> 1023 then Ok (28, len - 512, 9)
      else if len \<le> 2047 then Ok (29, len - 1024, 10)
      else if len \<le> 4095 then Ok (30, len - 2048, 11)
      else if len \<le> 8191 then Ok (31, len - 4096, 12)
      else if len \<le> 16383 then Ok (32, len - 8192, 13)
      else if len \<le> 32767 then Ok (33, len - 16384, 14)
      else if len \<le> 65535 then Ok (34, len - 32768, 15)
      else if len \<le> 131071 then Ok (35, len - 65536, 16)
      else Panic)"

definition encode_match_len :: "u32 \<Rightarrow> (unit, u8 \<times> u32 \<times> nat) res" where
  "encode_match_len len = rbind (rassert (len \<ge> 3)) (\<lambda>_.
     if len < 131 then
        rbind (rindex ML_CODE_LUT (unat len)) (\<lambda>code.
        rbind (rindex ML_META (unat code)) (\<lambda>(base, bits).
          Ok (code, len - base, bits)))
      else if len \<le> 258 then Ok (43, len - 131, 7)
      else if len \<le> 514 then Ok (44, len - 259, 8)
      else if len \<le> 1026 then Ok (45, len - 515, 9)
      else if len \<le> 2050 then Ok (46, len - 1027, 10)
      else if len \<le> 4098 then Ok (47, len - 2051, 11)
      else if len \<le> 8194 then Ok (48, len - 4099, 12)
      else if len \<le> 16386 then Ok (49, len - 8195, 13)
      else if len \<le> 32770 then Ok (50, len - 16387, 14)
      else if len \<le> 65538 then Ok (51, len - 32771, 15)
      else if len \<le> 131074 then Ok (52, len - 65539, 16)
      else Panic)"

definition encode_offset :: "u32 \<Rightarrow> (unit, u8 \<times> u32 \<times> nat) res" where
  "encode_offset len = rbind (rassert (len \<noteq> 0)) (\<lambda>_.
     let log = ilog2 (unat len) in
     rbind (rassert (log \<le> 27)) (\<lambda>_.
       let lower = len AND (push_bit log 1 - 1)
       in Ok (of_nat log, lower, log)))"

section \<open>Packed sequences\<close>

record SeqWord =
  sw_codes :: u32
  sw_add :: u64
  sw_add_nb :: u8

definition pack_seq :: "u32 \<Rightarrow> u32 \<Rightarrow> u32 \<Rightarrow> (unit, SeqWord) res" where
  "pack_seq ll ml off = rbind (rassert (ml \<ge> 3)) (\<lambda>_.
     if ll < 16 \<and> ml < 35 then
       rbind (rassert (off \<noteq> 0)) (\<lambda>_.
         let log = ilog2 (unat off) in
         Ok \<lparr>sw_codes = ll OR push_bit 8 (ml - 3) OR push_bit 16 (of_nat log),
             sw_add = ucast (off AND (push_bit log 1 - 1)),
             sw_add_nb = of_nat log\<rparr>)
     else
       rbind (encode_literal_length ll) (\<lambda>(lc, la, ln).
       rbind (encode_match_len ml) (\<lambda>(mc, ma, mn).
       rbind (encode_offset off) (\<lambda>(oc, oa, on).
       rbind (rassert (unat lc < SEQ_CODE_SPACE)) (\<lambda>_.
       rbind (rassert (unat mc < SEQ_CODE_SPACE)) (\<lambda>_.
       rbind (rassert (unat oc < SEQ_CODE_SPACE)) (\<lambda>_.
         Ok \<lparr>sw_codes = ucast lc OR push_bit 8 (ucast mc) OR push_bit 16 (ucast oc),
             sw_add = ucast la OR push_bit ln (ucast ma) OR push_bit (ln + mn) (ucast oa),
             sw_add_nb = of_nat (ln + mn + on)\<rparr>)))))))"

text \<open>
  The additions of the source are checked in debug builds; the one that can overflow on an
  arbitrary argument is the offset's.
\<close>

definition decode_packed :: "u32 \<Rightarrow> u64 \<Rightarrow> (unit, u32 \<times> u32 \<times> u32) res" where
  "decode_packed packed add =
     (let ll_code = unat (packed AND 0xff);
          ml_code = unat (drop_bit 8 packed AND 0xff);
          of_code = unat (drop_bit 16 packed)
      in rbind (rindex LL_META ll_code) (\<lambda>(ll_base, ll_nb).
         rbind (rindex ML_META ml_code) (\<lambda>(ml_base, ml_nb).
           let ll = ucast ll_base + (add AND (push_bit ll_nb 1 - 1)) :: u64;
               ml = ucast ml_base + (drop_bit ll_nb add AND (push_bit ml_nb 1 - 1)) :: u64
           in rbind (rassert (of_code < 64)) (\<lambda>_.
              let high = drop_bit (ll_nb + ml_nb) add in
              rbind (rassert (2 ^ of_code + unat high < 2 ^ 64)) (\<lambda>_.
                let off = push_bit of_code 1 + high :: u64
                in Ok (ucast ll, ucast ml, ucast off))))))"

section \<open>The tables tile the lengths\<close>

lemma LL_META_eq: "LL_META =
    [(0, 0), (1, 0), (2, 0), (3, 0), (4, 0), (5, 0), (6, 0), (7, 0), (8, 0), (9, 0), (10, 0),
     (11, 0), (12, 0), (13, 0), (14, 0), (15, 0), (16, 1), (18, 1), (20, 1), (22, 1), (24, 2),
     (28, 2), (32, 3), (40, 3), (48, 4), (64, 6), (128, 7), (256, 8), (512, 9), (1024, 10),
     (2048, 11), (4096, 12), (8192, 13), (16384, 14), (32768, 15), (65536, 16)]"
  by (simp add: LL_META_def upt_rec)

lemma ML_META_eq: "ML_META =
    [(3, 0), (4, 0), (5, 0), (6, 0), (7, 0), (8, 0), (9, 0), (10, 0), (11, 0), (12, 0), (13, 0),
     (14, 0), (15, 0), (16, 0), (17, 0), (18, 0), (19, 0), (20, 0), (21, 0), (22, 0), (23, 0),
     (24, 0), (25, 0), (26, 0), (27, 0), (28, 0), (29, 0), (30, 0), (31, 0), (32, 0), (33, 0),
     (34, 0), (35, 1), (37, 1), (39, 1), (41, 1), (43, 2), (47, 2), (51, 3), (59, 3), (67, 4),
     (83, 4), (99, 5), (131, 7), (259, 8), (515, 9), (1027, 10), (2051, 11), (4099, 12),
     (8195, 13), (16387, 14), (32771, 15), (65539, 16)]"
  by (simp add: ML_META_def upt_rec)

lemma length_META [simp]: "length LL_META = 36" "length ML_META = 53"
  by (simp_all add: LL_META_def ML_META_def)

text \<open>Each code's range ends where the next one begins.\<close>

fun tiles :: "(u32 \<times> nat) list \<Rightarrow> bool" where
  "tiles ((b, n) # (b', n') # rest) \<longleftrightarrow> unat b' = unat b + 2 ^ n \<and> tiles ((b', n') # rest)"
| "tiles _ \<longleftrightarrow> True"

lemma tiles_nth:
  "tiles meta \<Longrightarrow> Suc c < length meta \<Longrightarrow>
     unat (fst (meta ! Suc c)) = unat (fst (meta ! c)) + 2 ^ snd (meta ! c)"
proof (induction meta arbitrary: c rule: tiles.induct)
  case (1 b n b' n' rest)
  then show ?case by (cases c) auto
qed auto

lemma META_tiles: "tiles LL_META" "tiles ML_META"
  by (simp_all add: LL_META_eq ML_META_eq)

lemma lut_code_le: "lut_code meta n len \<le> n"
  by (induction n) auto

lemma lut_code_base:
  "unat (fst (meta ! 0)) \<le> len \<Longrightarrow> unat (fst (meta ! lut_code meta n len)) \<le> len"
  by (induction n) auto

lemma lut_code_next:
  "lut_code meta n len < n \<Longrightarrow> len < unat (fst (meta ! Suc (lut_code meta n len)))"
proof (induction n)
  case (Suc n)
  then show ?case by (cases "lut_code meta n len = n") (auto split: if_splits simp: lut_code_le le_less)
qed simp

text \<open>
  \<open>coded meta v c e n\<close>: code \<open>c\<close> of the table \<open>meta\<close> covers \<open>v\<close> with \<open>n\<close> extra bits of value \<open>e\<close>.
\<close>

definition coded :: "(u32 \<times> nat) list \<Rightarrow> u32 \<Rightarrow> u8 \<Rightarrow> u32 \<Rightarrow> nat \<Rightarrow> bool" where
  "coded meta v c e n \<longleftrightarrow> unat c < length meta \<and> snd (meta ! unat c) = n
     \<and> unat v = unat (fst (meta ! unat c)) + unat e \<and> unat e < 2 ^ n"

lemma coded_lut:
  assumes meta: "tiles meta" "Suc n < 256" "length meta = Suc n"
    and v: "unat (fst (meta ! 0)) \<le> unat v" "unat v < unat (fst (meta ! n))"
  shows "coded meta v (of_nat (lut_code meta n (unat v)))
    (v - fst (meta ! lut_code meta n (unat v))) (snd (meta ! lut_code meta n (unat v)))"
proof -
  define c where "c = lut_code meta n (unat v)"
  have c: "c \<le> n" "unat (fst (meta ! c)) \<le> unat v" "c < n \<Longrightarrow> unat v < unat (fst (meta ! Suc c))"
    unfolding c_def using v by (auto intro: lut_code_le lut_code_base lut_code_next)
  have "c \<noteq> n" using c(2) v(2) by auto
  then have n: "c < n" using c(1) by simp
  have "unat (fst (meta ! Suc c)) = unat (fst (meta ! c)) + 2 ^ snd (meta ! c)"
    using meta n by (intro tiles_nth) auto
  moreover have "unat (of_nat c :: u8) = c" using n meta(2) by (simp add: unat_of_nat)
  moreover have "unat (v - fst (meta ! c)) = unat v - unat (fst (meta ! c))"
    using c(2) by (simp add: unat_sub word_le_nat_alt)
  ultimately show ?thesis
    unfolding coded_def c_def [symmetric] using c n meta by auto
qed


lemma META_widths:
  "c < 36 \<Longrightarrow> snd (LL_META ! c) \<le> 16" "c < 53 \<Longrightarrow> snd (ML_META ! c) \<le> 16"
proof -
  have "\<forall>x\<in>set LL_META. snd x \<le> 16" "\<forall>x\<in>set ML_META. snd x \<le> 16"
    by (simp_all add: LL_META_eq ML_META_eq)
  then show "c < 36 \<Longrightarrow> snd (LL_META ! c) \<le> 16" "c < 53 \<Longrightarrow> snd (ML_META ! c) \<le> 16"
    using nth_mem [of c LL_META] nth_mem [of c ML_META] by auto
qed

lemma encode_literal_length_coded:
  assumes "len \<le> 131071"
  shows "\<exists>c e n. encode_literal_length len = Ok (c, e, n) \<and> coded LL_META len c e n \<and> n \<le> 16"
proof (cases "len < 64")
  case True
  let ?c = "lut_code LL_META 35 (unat len)"
  have len: "unat len < 64" using True by (simp add: word_less_nat_alt)
  have c: "coded LL_META len (of_nat ?c) (len - fst (LL_META ! ?c)) (snd (LL_META ! ?c))"
    using len by (intro coded_lut META_tiles) (simp_all add: LL_META_eq)
  have n: "snd (LL_META ! ?c) \<le> 16"
    using lut_code_le [of LL_META 35 "unat len"] by (intro META_widths) simp
  have "unat (of_nat ?c :: u8) = ?c"
    using lut_code_le [of LL_META 35 "unat len"] by (simp add: unat_of_nat)
  then show ?thesis
    using True len c n lut_code_le [of LL_META 35 "unat len"]
    by (auto simp: encode_literal_length_def LL_CODE_LUT_def split: prod.split)
next
  case False
  with assms show ?thesis
    by (auto simp: encode_literal_length_def coded_def LL_META_eq unat_sub word_le_nat_alt
      word_less_nat_alt not_le)
qed

lemma encode_match_len_coded:
  assumes "3 \<le> len" "len \<le> 131074"
  shows "\<exists>c e n. encode_match_len len = Ok (c, e, n) \<and> coded ML_META len c e n \<and> n \<le> 16"
proof (cases "len < 131")
  case True
  let ?c = "lut_code ML_META 52 (unat len)"
  have len: "unat len < 131" "3 \<le> unat len"
    using True assms by (simp_all add: word_less_nat_alt word_le_nat_alt)
  have c: "coded ML_META len (of_nat ?c) (len - fst (ML_META ! ?c)) (snd (ML_META ! ?c))"
    using len by (intro coded_lut META_tiles) (simp_all add: ML_META_eq)
  have n: "snd (ML_META ! ?c) \<le> 16"
    using lut_code_le [of ML_META 52 "unat len"] by (intro META_widths) simp
  have "unat (of_nat ?c :: u8) = ?c"
    using lut_code_le [of ML_META 52 "unat len"] by (simp add: unat_of_nat)
  then show ?thesis
    using True assms len c n lut_code_le [of ML_META 52 "unat len"]
    by (auto simp: encode_match_len_def ML_CODE_LUT_def split: prod.split)
next
  case False
  with assms show ?thesis
    by (auto simp: encode_match_len_def coded_def ML_META_eq unat_sub word_le_nat_alt
      word_less_nat_alt not_le)
qed

lemma offset_split:
  assumes "off \<noteq> (0 :: u32)"
  defines "log \<equiv> ilog2 (unat off)"
  shows "unat (off AND (push_bit log 1 - 1)) < 2 ^ log"
    and "unat off = 2 ^ log + unat (off AND (push_bit log 1 - 1))" and "log < 32"
proof -
  have pos: "0 < unat off" using assms(1) by (simp add: unat_gt_0)
  have b: "2 ^ log \<le> unat off" "unat off < 2 ^ Suc log"
    unfolding log_def using pos by (rule ilog2_lower) (rule ilog2_upper)
  have "unat off < 2 ^ 32" using unsigned_less [of off] by simp
  with pos show "log < 32" unfolding log_def by (rule ilog2_less)
  have "off AND (push_bit log 1 - 1) = take_bit log off"
    by (simp add: take_bit_eq_mask mask_eq_exp_minus_1)
  then have m: "unat (off AND (push_bit log 1 - 1)) = unat off mod 2 ^ log"
    by (simp only: unsigned_take_bit_eq) (rule take_bit_eq_mod)
  then show "unat (off AND (push_bit log 1 - 1)) < 2 ^ log" by simp
  have "unat off div 2 ^ log = 1" using b by (intro div_nat_eqI) auto
  then show "unat off = 2 ^ log + unat (off AND (push_bit log 1 - 1))"
    unfolding m using div_mult_mod_eq [of "unat off" "2 ^ log"] by simp
qed


section \<open>Packing and unpacking\<close>

text \<open>Three adjacent bit fields are read back.\<close>

lemma fields3:
  fixes x y z :: "'a::len word"
  assumes "take_bit a x = x" "take_bit b y = y" "take_bit c z = z" "a + b + c \<le> LENGTH('a)"
    and def: "w = x OR push_bit a y OR push_bit (a + b) z"
  shows "w AND (push_bit a 1 - 1) = x" "drop_bit a w AND (push_bit b 1 - 1) = y"
    "drop_bit (a + b) w = z" "take_bit (a + b + c) w = w"
proof -
  have x: "bit x i \<Longrightarrow> i < a" and y: "bit y i \<Longrightarrow> i < b" and z: "bit z i \<Longrightarrow> i < c" for i
    using assms(1-3) by (metis bit_take_bit_iff)+
  have w: "bit w i \<longleftrightarrow> bit x i \<or> a \<le> i \<and> bit y (i - a) \<or> a + b \<le> i \<and> bit z (i - (a + b))"
    for i
    using assms(4) y [of "i - a"] z [of "i - (a + b)"]
    unfolding def bit_or_iff bit_push_bit_iff possible_bit_word by auto
  show "w AND (push_bit a 1 - 1) = x"
    by (rule bit_word_eqI) (auto simp: bit_and_iff w dest: x)
  show "drop_bit a w AND (push_bit b 1 - 1) = y"
    by (rule bit_word_eqI) (auto simp: bit_and_iff bit_drop_bit_eq w dest: x y)
  show "drop_bit (a + b) w = z"
  proof (rule bit_word_eqI)
    fix n
    show "bit (drop_bit (a + b) w) n = bit z n"
      using x [of "a + b + n"] y [of "b + n"]
      by (auto simp: bit_drop_bit_eq w add.assoc simp del: drop_bit_drop_bit)
  qed
  show "take_bit (a + b + c) w = w"
  proof (rule bit_word_eqI)
    fix n
    show "bit (take_bit (a + b + c) w) n = bit w n"
      using x [of n] y [of "n - a"] z [of "n - (a + b)"] by (auto simp: bit_take_bit_iff w)
  qed
qed

text \<open>A value below \<open>2 ^ n\<close> keeps its low \<open>n\<close> bits only, at whatever width it is stored.\<close>

lemma take_bit_ucast_small:
  fixes x :: "'a::len word"
  assumes "unat x < 2 ^ n" "LENGTH('a) \<le> LENGTH('b)"
  shows "take_bit n (ucast x :: 'b::len word) = ucast x" "unat (ucast x :: 'b word) = unat x"
proof -
  have "unat x < 2 ^ LENGTH('b)"
    using unsigned_less [of x] assms(2) by (meson less_le_trans one_le_numeral power_increasing)
  then show u: "unat (ucast x :: 'b word) = unat x"
    by (simp add: unsigned_ucast_eq take_bit_nat_eq_self)
  have "unat (take_bit n (ucast x :: 'b word)) = take_bit n (unat (ucast x :: 'b word))"
    by (rule unsigned_take_bit_eq)
  then show "take_bit n (ucast x :: 'b word) = ucast x"
    using assms(1) u by (simp add: word_unat_eq_iff take_bit_nat_eq_self)
qed


lemma byte_in_u32:
  "take_bit 8 (ucast (b :: u8) :: u32) = ucast b" "unat (ucast b :: u32) = unat b"
proof -
  have "unat b < 2 ^ 8" using unsigned_less [of b, where 'a = nat] by simp
  from take_bit_ucast_small [where 'b = 32, OF this]
  show "take_bit 8 (ucast b :: u32) = ucast b" "unat (ucast b :: u32) = unat b" by simp_all
qed

lemma u32_in_u64:
  "unat (x :: u32) < 2 ^ n \<Longrightarrow> take_bit n (ucast x :: u64) = ucast x"
  "unat (x :: u32) < 2 ^ n \<Longrightarrow> unat (ucast x :: u64) = unat x"
  by (rule take_bit_ucast_small, assumption, simp)+

lemma u32_sum_in_u64: "unat y = unat b + unat x \<Longrightarrow> ucast (ucast b + ucast x :: u64) = y"
  for b x y :: u32
proof -
  assume eq: "unat y = unat b + unat x"
  have y: "unat b + unat x < 2 ^ 32" using unsigned_less [of y, where 'a = nat] eq by simp
  have "unat (ucast b :: u64) = unat b" "unat (ucast x :: u64) = unat x"
    using y by (auto intro: u32_in_u64 [where n = 32])
  then have "unat (ucast b + ucast x :: u64) = unat b + unat x"
    using y by (simp add: unat_word_ariths)
  then have "unat (ucast (ucast b + ucast x :: u64) :: u32) = unat y"
    using y eq by (simp add: unsigned_ucast_eq take_bit_nat_eq_self)
  then show ?thesis by (simp only: word_unat_eq_iff)
qed

lemma decode_packed_coded:
  fixes off oa :: u32
  assumes ll: "coded LL_META ll lc la ln" "ln \<le> 16" and ml: "coded ML_META ml mc ma mn" "mn \<le> 16"
    and off: "unat off = 2 ^ log + unat oa" "unat oa < 2 ^ log" "log < 32"
    and codes: "codes = ucast lc OR push_bit 8 (ucast mc) OR push_bit 16 (of_nat log)"
    and add: "add = ucast la OR push_bit ln (ucast ma) OR push_bit (ln + mn) (ucast oa)"
  shows "decode_packed codes add = Ok (ll, ml, off)" and "take_bit (ln + mn + log) add = add"
proof -
  let ?l = "of_nat log :: u32"
  have c8: "take_bit 8 (ucast lc :: u32) = ucast lc" "take_bit 8 (ucast mc :: u32) = ucast mc"
    and cu: "unat (ucast lc :: u32) = unat lc" "unat (ucast mc :: u32) = unat mc"
    by (rule byte_in_u32)+
  have ul: "unat ?l = log" using off(3) by (simp add: unat_of_nat)
  have "take_bit 5 ?l = ?l"
    using off(3) ul by (simp add: word_unat_eq_iff unsigned_take_bit_eq take_bit_nat_eq_self)
  note cs = fields3 [OF c8 this, of codes]
  have m8: "push_bit 8 1 - 1 = (0xff :: u32)" by simp
  have code: "codes AND 0xff = ucast lc" "drop_bit 8 codes AND 0xff = ucast mc" "drop_bit 16 codes = ?l"
    using cs(1-3) codes by (simp_all only: m8) simp_all
  have e: "unat la < 2 ^ ln" "unat ma < 2 ^ mn" and c: "unat lc < 36" "unat mc < 53"
    and n: "snd (LL_META ! unat lc) = ln" "snd (ML_META ! unat mc) = mn"
    and v: "unat ll = unat (fst (LL_META ! unat lc)) + unat la"
      "unat ml = unat (fst (ML_META ! unat mc)) + unat ma"
    using ll(1) ml(1) by (simp_all add: coded_def)
  have "ln + mn + log \<le> LENGTH(64)" using ll(2) ml(2) off(3) by simp
  note as = fields3 [OF u32_in_u64(1) [OF e(1)] u32_in_u64(1) [OF e(2)] u32_in_u64(1) [OF off(2)] this add]
  show "take_bit (ln + mn + log) add = add" by (rule as(4))
  have high: "unat (ucast oa :: u64) = unat oa" by (rule u32_in_u64 [OF off(2)])
  have o32: "unat off < 2 ^ 32" using unsigned_less [of off, where 'a = nat] by simp
  have "unat (push_bit log 1 :: u64) = 2 ^ log" using off(3) by (simp add: unat_pow2)
  then have "unat (push_bit log 1 + ucast oa :: u64) = unat off"
    using o32 off(1) high by (simp add: unat_word_ariths)
  then have "unat (ucast (push_bit log 1 + ucast oa :: u64) :: u32) = unat off"
    using o32 by (simp add: unsigned_ucast_eq take_bit_nat_eq_self)
  then have off': "ucast (push_bit log 1 + ucast oa :: u64) = off" by (simp only: word_unat_eq_iff)
  have fit: "2 ^ log + unat oa < 2 ^ 64" using o32 off(1) by simp
  show "decode_packed codes add = Ok (ll, ml, off)"
    unfolding decode_packed_def code Let_def cu ul
    using c n high v as(1-3) off(3) off' fit
    by (auto simp: u32_sum_in_u64 split: prod.split)
qed


text \<open>The slow path of the packer, and the fast path as the instance without length extra bits.\<close>

lemma encode_offset_ok:
  assumes "off \<noteq> 0" "off < 2 ^ 28"
  shows "encode_offset off = Ok (of_nat (ilog2 (unat off)),
    off AND (push_bit (ilog2 (unat off)) 1 - 1), ilog2 (unat off))" and "ilog2 (unat off) \<le> 27"
proof -
  have "unat off < 2 ^ 28" "0 < unat off"
    using assms by (simp_all add: word_less_nat_alt unat_gt_0)
  then have "ilog2 (unat off) < 28" by (intro ilog2_less)
  then show "encode_offset off = Ok (of_nat (ilog2 (unat off)),
    off AND (push_bit (ilog2 (unat off)) 1 - 1), ilog2 (unat off))" "ilog2 (unat off) \<le> 27"
    using assms(1) by (simp_all add: encode_offset_def Let_def)
qed

text \<open>Two sixteen-bit length fields cannot meet in one block.\<close>

lemma block_widths:
  assumes "coded LL_META ll lc la ln" "ln \<le> 16" "coded ML_META ml mc ma mn" "mn \<le> 16"
    and "unat ll + unat ml \<le> 131072"
  shows "ln + mn \<le> 31"
proof (rule ccontr)
  assume "\<not> ?thesis"
  then have n: "ln = 16" "mn = 16" using assms by auto
  have "\<forall>x\<in>set LL_META. snd x = 16 \<longrightarrow> unat (fst x) = 65536"
    "\<forall>x\<in>set ML_META. snd x = 16 \<longrightarrow> unat (fst x) = 65539"
    by (simp_all add: LL_META_eq ML_META_eq)
  then have "unat (fst (LL_META ! unat lc)) = 65536" "unat (fst (ML_META ! unat mc)) = 65539"
    using assms n nth_mem [of "unat lc" LL_META] nth_mem [of "unat mc" ML_META]
    by (auto simp: coded_def)
  then show False using assms by (simp add: coded_def)
qed

lemma coded_direct:
  "ll < 16 \<Longrightarrow> coded LL_META ll (ucast ll) 0 0"
  "3 \<le> ml \<Longrightarrow> ml < 35 \<Longrightarrow> coded ML_META ml (ucast (ml - 3)) 0 0"
proof -
  have small: "unat (ucast x :: u8) = unat x" if "unat x < 256" for x :: u32
    using that by (simp add: unsigned_ucast_eq take_bit_nat_eq_self)
  show "ll < 16 \<Longrightarrow> coded LL_META ll (ucast ll) 0 0"
    by (simp add: coded_def small word_less_nat_alt LL_META_def nth_append unat_of_nat)
  assume ml: "3 \<le> ml" "ml < 35"
  then have u: "unat (ml - 3) = unat ml - 3" "unat ml < 35" "3 \<le> unat ml"
    by (simp_all add: unat_sub word_le_nat_alt word_less_nat_alt)
  then have "unat (ucast (ml - 3) :: u8) = unat ml - 3" by (simp add: small)
  moreover have "unat (of_nat (unat ml - 3) + 3 :: u32) = unat ml"
    using u by (simp add: of_nat_diff)
  ultimately show "coded ML_META ml (ucast (ml - 3)) 0 0"
    using u by (simp add: coded_def ML_META_def nth_append)
qed

text \<open>What a packed word says of its sequence.\<close>

definition packs :: "SeqWord \<Rightarrow> u32 \<Rightarrow> u32 \<Rightarrow> u32 \<Rightarrow> bool" where
  "packs w ll ml off \<longleftrightarrow> (\<exists>lc la ln mc ma mn log (oa :: u32).
     coded LL_META ll lc la ln \<and> ln \<le> 16 \<and> coded ML_META ml mc ma mn \<and> mn \<le> 16
     \<and> unat off = 2 ^ log + unat oa \<and> unat oa < 2 ^ log \<and> log \<le> 27
     \<and> sw_codes w = ucast lc OR push_bit 8 (ucast mc) OR push_bit 16 (of_nat log)
     \<and> sw_add w = ucast la OR push_bit ln (ucast ma) OR push_bit (ln + mn) (ucast oa)
     \<and> sw_add_nb w = of_nat (ln + mn + log))"

lemma ucast_byte_id: "unat (x :: u32) < 256 \<Longrightarrow> ucast (ucast x :: u8) = x"
  by (simp only: word_unat_eq_iff unsigned_ucast_eq)
    (simp add: unsigned_take_bit_eq take_bit_nat_eq_self)

lemma pack_seq_packs:
  assumes "ll \<le> 131071" "3 \<le> ml" "ml \<le> 131074" "off \<noteq> 0" "off < 2 ^ 28"
  shows "\<exists>w. pack_seq ll ml off = Ok w \<and> packs w ll ml off"
proof -
  define log where "log = ilog2 (unat off)"
  define oa where "oa = off AND (push_bit log 1 - 1)"
  note off = offset_split [OF assms(4), folded log_def, folded oa_def]
  note enc = encode_offset_ok [OF assms(4,5), folded log_def, folded oa_def]
  have log8: "unat (of_nat log :: u8) = log" using enc(2) by (simp add: unat_of_nat)
  show ?thesis
  proof (cases "ll < 16 \<and> ml < 35")
    case True
    define w where "w = \<lparr>sw_codes = ll OR push_bit 8 (ml - 3) OR push_bit 16 (of_nat log),
             sw_add = ucast oa, sw_add_nb = of_nat log\<rparr>"
    have p: "pack_seq ll ml off = Ok w"
      using True assms by (simp add: pack_seq_def w_def log_def oa_def Let_def)
    have "unat ll < 256" "unat (ml - 3) < 256"
      using True assms(2) by (auto simp: word_less_nat_alt word_le_nat_alt unat_sub)
    then have "sw_codes w = ucast (ucast ll :: u8) OR push_bit 8 (ucast (ucast (ml - 3) :: u8)) OR push_bit 16 (of_nat log)"
      by (simp add: w_def ucast_byte_id)
    then have "packs w ll ml off"
      unfolding packs_def
      using True coded_direct(1) [of ll] coded_direct(2) [of ml] assms(2) off(1,2) enc(2)
      by (intro exI [of _ "ucast ll"] exI [of _ 0] exI [of _ "ucast (ml - 3)"] exI [of _ log] exI [of _ oa])
        (simp add: w_def)
    then show ?thesis using p by blast
  next
    case False
    obtain lc la ln where l: "encode_literal_length ll = Ok (lc, la, ln)" "coded LL_META ll lc la ln"
        "ln \<le> 16"
      using encode_literal_length_coded [OF assms(1)] by blast
    obtain mc ma mn where m: "encode_match_len ml = Ok (mc, ma, mn)" "coded ML_META ml mc ma mn"
        "mn \<le> 16"
      using encode_match_len_coded [OF assms(2,3)] by blast
    define w where "w = \<lparr>sw_codes = ucast lc OR push_bit 8 (ucast mc) OR push_bit 16 (of_nat log),
       sw_add = ucast la OR push_bit ln (ucast ma) OR push_bit (ln + mn) (ucast oa),
       sw_add_nb = of_nat (ln + mn + log)\<rparr>"
    have c: "unat lc < 64" "unat mc < 64" "log < 64" using l m enc(2) by (auto simp: coded_def)
    have "ucast (of_nat log :: u8) = (of_nat log :: u32)"
      using log8 enc(2) by (simp add: word_unat_eq_iff unsigned_ucast_eq unat_of_nat take_bit_nat_eq_self)
    then have p: "pack_seq ll ml off = Ok w"
      using False assms(2) l(1) m(1) enc(1) c log8
      by (auto simp: pack_seq_def w_def SEQ_CODE_SPACE_def)
    have "packs w ll ml off"
      unfolding packs_def using l(2,3) m(2,3) off(1,2) enc(2)
      by (intro exI [of _ lc] exI [of _ la] exI [of _ ln] exI [of _ mc] exI [of _ ma] exI [of _ mn]
          exI [of _ log] exI [of _ oa]) (simp add: w_def)
    then show ?thesis using p by blast
  qed
qed

lemma packs_decode:
  assumes "packs w ll ml off"
  shows "decode_packed (sw_codes w) (sw_add w) = Ok (ll, ml, off)"
    "take_bit (unat (sw_add_nb w)) (sw_add w) = sw_add w"
    "unat ll + unat ml \<le> unat MAX_BLOCK_SIZE \<Longrightarrow> unat (sw_add_nb w) \<le> 58"
proof -
  obtain lc la ln mc ma mn log and oa :: u32 where
    l: "coded LL_META ll lc la ln" "ln \<le> 16" and m: "coded ML_META ml mc ma mn" "mn \<le> 16"
    and o': "unat off = 2 ^ log + unat oa" "unat oa < 2 ^ log" "log < 32" "log \<le> 27"
    and w: "sw_codes w = ucast lc OR push_bit 8 (ucast mc) OR push_bit 16 (of_nat log)"
      "sw_add w = ucast la OR push_bit ln (ucast ma) OR push_bit (ln + mn) (ucast oa)"
      "sw_add_nb w = of_nat (ln + mn + log)"
    using assms unfolding packs_def by force
  have nb: "unat (of_nat (ln + mn + log) :: u8) = ln + mn + log"
    using l(2) m(2) o'(4) by (simp add: unat_of_nat del: of_nat_add)
  note d = decode_packed_coded [OF l m o'(1-3) w(1,2)]
  show "decode_packed (sw_codes w) (sw_add w) = Ok (ll, ml, off)" by (rule d(1))
  show "take_bit (unat (sw_add_nb w)) (sw_add w) = sw_add w" unfolding w(3) nb by (rule d(2))
  show "unat (sw_add_nb w) \<le> 58" if "unat ll + unat ml \<le> unat MAX_BLOCK_SIZE"
    using block_widths [OF l m] that o'(4) unfolding w(3) nb by (simp add: MAX_BLOCK_SIZE_def)
qed

text \<open>
  C12.  Packing a sequence and unpacking its code word and merged extra bits returns the sequence,
  for every literal length, match length and offset the format can carry; the extra bits fit the
  announced width, which in a block (whose lengths sum to at most 128 KiB) is at most 58.
\<close>

theorem pack_seq_roundtrip:
  assumes "ll \<le> 131071" "3 \<le> ml" "ml \<le> 131074" "off \<noteq> 0" "off < 2 ^ 28"
  shows "\<exists>w. pack_seq ll ml off = Ok w \<and> decode_packed (sw_codes w) (sw_add w) = Ok (ll, ml, off)
    \<and> take_bit (unat (sw_add_nb w)) (sw_add w) = sw_add w
    \<and> (unat ll + unat ml \<le> unat MAX_BLOCK_SIZE \<longrightarrow> unat (sw_add_nb w) \<le> 58)"
  using pack_seq_packs [OF assms] packs_decode by blast

theorem pack_seq_roundtrip_witness:
  "\<exists>w. pack_seq 70000 1000 777 = Ok w \<and> decode_packed (sw_codes w) (sw_add w) = Ok (70000, 1000, 777)"
  using pack_seq_roundtrip [of 70000 1000 777] by auto

end
