(* ===== verification/Seq_Decoder.thy ===== *)
theory Seq_Decoder
  imports Sequences_Header Bit_Reader_Reversed Seq_Codes Fse_Table
begin

text \<open>
  The decoder of the sequence bitstream, \<open>decoding/sequence_section_decoder.rs\<close>, with the table
  scratch of \<open>decoding/scratch.rs\<close>: installing the three tables from the mode byte, packing them
  into fixed slots, the backwards bit window with its reload, one decoding step, the loop and the
  final padding check.  A raw-pointer access out of range is a \<open>Panic\<close>.
\<close>

unbundle bit_operations_syntax

section \<open>Scratch\<close>

definition LL_MAX_LOG :: nat where
  "LL_MAX_LOG = 9"

definition ML_MAX_LOG :: nat where
  "ML_MAX_LOG = 9"

definition OF_MAX_LOG :: nat where
  "OF_MAX_LOG = 8"

definition LL_SLOT :: nat where
  "LL_SLOT = 0"

definition ML_SLOT :: nat where
  "ML_SLOT = 2 ^ LL_MAX_LOG"

definition OF_SLOT :: nat where
  "OF_SLOT = ML_SLOT + 2 ^ ML_MAX_LOG"

definition SEQ_TABLE_SLOTS :: nat where
  "SEQ_TABLE_SLOTS = OF_SLOT + 2 ^ OF_MAX_LOG"

record FSEScratch =
  fs_offsets :: FSETable
  fs_of_rle :: "u8 option"
  fs_of_predefined :: bool
  fs_literal_lengths :: FSETable
  fs_ll_rle :: "u8 option"
  fs_ll_predefined :: bool
  fs_match_lengths :: FSETable
  fs_ml_rle :: "u8 option"
  fs_ml_predefined :: bool
  fs_ll_ready :: bool
  fs_of_ready :: bool
  fs_ml_ready :: bool
  fs_seq_packed :: "u64 list"
  fs_ll_seq_valid :: bool
  fs_ml_seq_valid :: bool
  fs_of_seq_valid :: bool

definition fs_new :: FSEScratch where
  "fs_new = \<lparr>fs_offsets = ft_new (unat MAX_OFFSET_CODE), fs_of_rle = None, fs_of_predefined = False,
     fs_literal_lengths = ft_new (unat MAX_LITERAL_LENGTH_CODE), fs_ll_rle = None, fs_ll_predefined = False,
     fs_match_lengths = ft_new (unat MAX_MATCH_LENGTH_CODE), fs_ml_rle = None, fs_ml_predefined = False,
     fs_ll_ready = False, fs_of_ready = False, fs_ml_ready = False,
     fs_seq_packed = replicate SEQ_TABLE_SLOTS 0,
     fs_ll_seq_valid = False, fs_ml_seq_valid = False, fs_of_seq_valid = False\<rparr>"

definition fs_reinit_from :: "FSEScratch \<Rightarrow> FSEScratch \<Rightarrow> FSEScratch" where
  "fs_reinit_from s other = s\<lparr>
     fs_offsets := ft_reinit_from (fs_offsets s) (fs_offsets other),
     fs_literal_lengths := ft_reinit_from (fs_literal_lengths s) (fs_literal_lengths other),
     fs_match_lengths := ft_reinit_from (fs_match_lengths s) (fs_match_lengths other),
     fs_of_rle := fs_of_rle other, fs_ll_rle := fs_ll_rle other, fs_ml_rle := fs_ml_rle other,
     fs_of_predefined := False, fs_ll_predefined := False, fs_ml_predefined := False,
     fs_ll_seq_valid := False, fs_ml_seq_valid := False, fs_of_seq_valid := False,
     fs_ll_ready := True, fs_of_ready := True, fs_ml_ready := True\<rparr>"

text \<open>The part of \<open>DecoderScratch::reset\<close> that concerns the FSE scratch.\<close>

definition fs_reset :: "FSEScratch \<Rightarrow> FSEScratch" where
  "fs_reset s = s\<lparr>
     fs_literal_lengths := ft_reset (fs_literal_lengths s),
     fs_match_lengths := ft_reset (fs_match_lengths s),
     fs_offsets := ft_reset (fs_offsets s),
     fs_ll_rle := None, fs_ml_rle := None, fs_of_rle := None,
     fs_ll_predefined := False, fs_ml_predefined := False, fs_of_predefined := False,
     fs_ll_seq_valid := False, fs_ml_seq_valid := False, fs_of_seq_valid := False,
     fs_ll_ready := False, fs_of_ready := False, fs_ml_ready := False\<rparr>"

datatype DecodeSequenceError =
    DSGetBitsError GetBitsError
  | DSFSEDecoderError FSEDecoderError
  | DSFSETableError FSETableError
  | SeqExtraPadding nat
  | UnsupportedOffset u8
  | SeqZeroOffset
  | NotEnoughBytesForNumSequences
  | SeqExtraBits int
  | MissingCompressionMode
  | MissingByteForRleLlTable
  | MissingByteForRleOfTable
  | MissingByteForRleMlTable

section \<open>Packed entries\<close>

definition pack_entry :: "u32 \<Rightarrow> nat \<Rightarrow> u16 \<Rightarrow> nat \<Rightarrow> u64" where
  "pack_entry base add_bits next_state nb_bits =
     push_bit 32 (ucast base) OR push_bit 24 (of_nat nb_bits) OR push_bit 16 (of_nat add_bits)
       OR ucast next_state"

definition seq_entry_base :: "u64 \<Rightarrow> u32" where
  "seq_entry_base e = ucast (drop_bit 32 e)"

definition entry_add_bits :: "u64 \<Rightarrow> u32" where
  "entry_add_bits e = ucast (drop_bit 16 e AND 0xff)"

definition entry_nb_bits :: "u64 \<Rightarrow> u32" where
  "entry_nb_bits e = ucast (drop_bit 24 e AND 0xff)"

definition entry_next_state :: "u64 \<Rightarrow> u32" where
  "entry_next_state e = ucast (e AND 0xffff)"

text \<open>\<open>EntryRef\<close>: the same entry read field by field from its little-endian bytes.\<close>

definition le_field :: "u64 \<Rightarrow> nat \<Rightarrow> nat \<Rightarrow> u32" where
  "le_field e width i = ucast (u64_from_le_bytes (take width (drop (width * i) (u64_to_le_bytes e))))"

definition ref_base :: "u64 \<Rightarrow> u32" where
  "ref_base e = le_field e 4 1"

definition ref_add_bits :: "u64 \<Rightarrow> u32" where
  "ref_add_bits e = le_field e 1 2"

definition ref_nb_bits :: "u64 \<Rightarrow> u32" where
  "ref_nb_bits e = le_field e 1 3"

definition ref_next_state :: "u64 \<Rightarrow> u32" where
  "ref_next_state e = le_field e 2 0"

section \<open>Packing the tables\<close>

definition LL_CODES :: "(u32 \<times> nat) list" where
  "LL_CODES =
    [(0, 0), (1, 0), (2, 0), (3, 0), (4, 0), (5, 0), (6, 0), (7, 0), (8, 0), (9, 0), (10, 0), (11, 0),
     (12, 0), (13, 0), (14, 0), (15, 0), (16, 1), (18, 1), (20, 1), (22, 1), (24, 2), (28, 2),
     (32, 3), (40, 3), (48, 4), (64, 6), (128, 7), (256, 8), (512, 9), (1024, 10), (2048, 11),
     (4096, 12), (8192, 13), (16384, 14), (32768, 15), (65536, 16)]"

definition ML_CODES :: "(u32 \<times> nat) list" where
  "ML_CODES =
    [(3, 0), (4, 0), (5, 0), (6, 0), (7, 0), (8, 0), (9, 0), (10, 0), (11, 0), (12, 0), (13, 0),
     (14, 0), (15, 0), (16, 0), (17, 0), (18, 0), (19, 0), (20, 0), (21, 0), (22, 0), (23, 0),
     (24, 0), (25, 0), (26, 0), (27, 0), (28, 0), (29, 0), (30, 0), (31, 0), (32, 0), (33, 0),
     (34, 0), (35, 1), (37, 1), (39, 1), (41, 1), (43, 2), (47, 2), (51, 3), (59, 3), (67, 4),
     (83, 4), (99, 5), (131, 7), (259, 8), (515, 9), (1027, 10), (2051, 11), (4099, 12), (8195, 13),
     (16387, 14), (32771, 15), (65539, 16)]"

definition OF_CODES :: "(u32 \<times> nat) list" where
  "OF_CODES = map (\<lambda>i. (push_bit i 1, i)) [0..<32]"

fun pack_entries :: "(u32 \<times> nat) list \<Rightarrow> Entry list \<Rightarrow> ('e, u64 list) res" where
  "pack_entries codes [] = Ok []"
| "pack_entries codes (e # es) =
     rbind (rindex codes (symbol e)) (\<lambda>(base, add).
     rbind (pack_entries codes es) (\<lambda>ps.
       Ok (pack_entry base add (ucast (base_line e)) (num_bits e) # ps)))"

text \<open>
  One table into its slot; the debug check that no packed entry leads out of the table is part
  of it.
\<close>

definition pack_seq_table ::
  "Entry list \<Rightarrow> (u32 \<times> nat) list \<Rightarrow> u64 list \<Rightarrow> ('e, u64 list) res" where
  "pack_seq_table decode codes out =
     rbind (pack_entries codes (take (length out) decode)) (\<lambda>ps.
     let out = ps @ drop (length ps) out in
     rbind (rassert (length decode \<le> length out)) (\<lambda>_.
     rbind (rassert (list_all (\<lambda>p. unat (entry_next_state p) + 2 ^ unat (entry_nb_bits p) \<le> length decode)
       (take (length decode) out))) (\<lambda>_. Ok out)))"

definition pack_rle_entry :: "u32 \<times> nat \<Rightarrow> u64" where
  "pack_rle_entry = (\<lambda>(base, add). pack_entry base add 0 0)"

text \<open>The slice \<open>[from..til]\<close> of the packed tables, given its new contents.\<close>

definition splice :: "'a list \<Rightarrow> nat \<Rightarrow> nat \<Rightarrow> 'a list \<Rightarrow> 'a list" where
  "splice xs from til ys = take from xs @ ys @ drop til xs"

definition pack_slot ::
  "u8 option \<Rightarrow> Entry list \<Rightarrow> (u32 \<times> nat) list \<Rightarrow> nat \<Rightarrow> nat \<Rightarrow> u64 list \<Rightarrow> ('e, u64 list) res" where
  "pack_slot rle decode codes from til packed =
     (case rle of
        Some c \<Rightarrow> rbind (rindex codes (unat c)) (\<lambda>m.
                  rbind (rassert (from < length packed)) (\<lambda>_. Ok (packed[from := pack_rle_entry m])))
      | None \<Rightarrow> rbind (rassert (from \<le> til \<and> til \<le> length packed)) (\<lambda>_.
                rbind (pack_seq_table decode codes (take (til - from) (drop from packed))) (\<lambda>out.
                  Ok (splice packed from til out))))"

definition pack_tables :: "FSEScratch \<Rightarrow> ('e, FSEScratch) res" where
  "pack_tables s =
     rbind (if \<not> fs_ll_seq_valid s then
              rbind (pack_slot (fs_ll_rle s) (ft_decode (fs_literal_lengths s)) LL_CODES LL_SLOT ML_SLOT
                (fs_seq_packed s)) (\<lambda>p. Ok (s\<lparr>fs_seq_packed := p, fs_ll_seq_valid := True\<rparr>))
            else Ok s) (\<lambda>s.
     rbind (if \<not> fs_ml_seq_valid s then
              rbind (pack_slot (fs_ml_rle s) (ft_decode (fs_match_lengths s)) ML_CODES ML_SLOT OF_SLOT
                (fs_seq_packed s)) (\<lambda>p. Ok (s\<lparr>fs_seq_packed := p, fs_ml_seq_valid := True\<rparr>))
            else Ok s) (\<lambda>s.
     if \<not> fs_of_seq_valid s then
       rbind (pack_slot (fs_of_rle s) (ft_decode (fs_offsets s)) OF_CODES OF_SLOT
         (length (fs_seq_packed s)) (fs_seq_packed s)) (\<lambda>p.
         Ok (s\<lparr>fs_seq_packed := p, fs_of_seq_valid := True\<rparr>))
     else Ok s))"

section \<open>Installing the tables of a block\<close>

text \<open>One stream each, in the order of the source; the result counts the bytes read so far.\<close>

definition update_ll_table ::
  "ModeType \<Rightarrow> bytes \<Rightarrow> FSEScratch \<Rightarrow> (DecodeSequenceError, nat \<times> FSEScratch) res" where
  "update_ll_table mode source s =
     (case mode of
        FSECompressed \<Rightarrow>
          rbind (rmap_err DSFSETableError (build_decoder (fs_literal_lengths s) source LL_MAX_LOG))
            (\<lambda>(bytes, t).
            Ok (bytes, s\<lparr>fs_literal_lengths := t, fs_ll_rle := None, fs_ll_predefined := False,
                  fs_ll_seq_valid := False, fs_ll_ready := True\<rparr>))
      | ModeRLE \<Rightarrow>
          if source = [] then Err MissingByteForRleLlTable
          else if source ! 0 > MAX_LITERAL_LENGTH_CODE then Err MissingByteForRleLlTable
          else Ok (1, s\<lparr>fs_ll_rle := Some (source ! 0), fs_ll_predefined := False,
                 fs_literal_lengths := (fs_literal_lengths s)\<lparr>ft_accuracy_log := 0\<rparr>,
                 fs_ll_seq_valid := False, fs_ll_ready := True\<rparr>)
      | Predefined \<Rightarrow>
          rbind (if \<not> fs_ll_predefined s then
                   rbind (rmap_err DSFSETableError (build_from_probabilities (fs_literal_lengths s)
                     LL_DEFAULT_ACC_LOG LL_DEFAULT_DISTRIBUTION)) (\<lambda>t.
                     Ok (s\<lparr>fs_literal_lengths := t, fs_ll_predefined := True, fs_ll_seq_valid := False\<rparr>))
                 else Ok s) (\<lambda>s. Ok (0, s\<lparr>fs_ll_rle := None, fs_ll_ready := True\<rparr>))
      | RepeatMode \<Rightarrow> Ok (0, s))"

definition update_of_table ::
  "ModeType \<Rightarrow> bytes \<Rightarrow> FSEScratch \<Rightarrow> (DecodeSequenceError, nat \<times> FSEScratch) res" where
  "update_of_table mode source s =
     (case mode of
        FSECompressed \<Rightarrow>
          rbind (rmap_err DSFSETableError (build_decoder (fs_offsets s) source OF_MAX_LOG))
            (\<lambda>(bytes, t).
            Ok (bytes, s\<lparr>fs_offsets := t, fs_of_rle := None, fs_of_predefined := False,
                  fs_of_seq_valid := False, fs_of_ready := True\<rparr>))
      | ModeRLE \<Rightarrow>
          if source = [] then Err MissingByteForRleOfTable
          else if source ! 0 > MAX_OFFSET_CODE then Err MissingByteForRleOfTable
          else Ok (1, s\<lparr>fs_of_rle := Some (source ! 0), fs_of_predefined := False,
                 fs_offsets := (fs_offsets s)\<lparr>ft_accuracy_log := 0\<rparr>,
                 fs_of_seq_valid := False, fs_of_ready := True\<rparr>)
      | Predefined \<Rightarrow>
          rbind (if \<not> fs_of_predefined s then
                   rbind (rmap_err DSFSETableError (build_from_probabilities (fs_offsets s)
                     OF_DEFAULT_ACC_LOG OF_DEFAULT_DISTRIBUTION)) (\<lambda>t.
                     Ok (s\<lparr>fs_offsets := t, fs_of_predefined := True, fs_of_seq_valid := False\<rparr>))
                 else Ok s) (\<lambda>s. Ok (0, s\<lparr>fs_of_rle := None, fs_of_ready := True\<rparr>))
      | RepeatMode \<Rightarrow> Ok (0, s))"

definition update_ml_table ::
  "ModeType \<Rightarrow> bytes \<Rightarrow> FSEScratch \<Rightarrow> (DecodeSequenceError, nat \<times> FSEScratch) res" where
  "update_ml_table mode source s =
     (case mode of
        FSECompressed \<Rightarrow>
          rbind (rmap_err DSFSETableError (build_decoder (fs_match_lengths s) source ML_MAX_LOG))
            (\<lambda>(bytes, t).
            Ok (bytes, s\<lparr>fs_match_lengths := t, fs_ml_rle := None, fs_ml_predefined := False,
                  fs_ml_seq_valid := False, fs_ml_ready := True\<rparr>))
      | ModeRLE \<Rightarrow>
          if source = [] then Err MissingByteForRleMlTable
          else if source ! 0 > MAX_MATCH_LENGTH_CODE then Err MissingByteForRleMlTable
          else Ok (1, s\<lparr>fs_ml_rle := Some (source ! 0), fs_ml_predefined := False,
                 fs_match_lengths := (fs_match_lengths s)\<lparr>ft_accuracy_log := 0\<rparr>,
                 fs_ml_seq_valid := False, fs_ml_ready := True\<rparr>)
      | Predefined \<Rightarrow>
          rbind (if \<not> fs_ml_predefined s then
                   rbind (rmap_err DSFSETableError (build_from_probabilities (fs_match_lengths s)
                     ML_DEFAULT_ACC_LOG ML_DEFAULT_DISTRIBUTION)) (\<lambda>t.
                     Ok (s\<lparr>fs_match_lengths := t, fs_ml_predefined := True, fs_ml_seq_valid := False\<rparr>))
                 else Ok s) (\<lambda>s. Ok (0, s\<lparr>fs_ml_rle := None, fs_ml_ready := True\<rparr>))
      | RepeatMode \<Rightarrow> Ok (0, s))"

definition slice_from :: "'a list \<Rightarrow> nat \<Rightarrow> ('e, 'a list) res" where
  "slice_from xs n = rbind (rassert (n \<le> length xs)) (\<lambda>_. Ok (drop n xs))"

definition maybe_update_fse_tables ::
  "SequencesHeader \<Rightarrow> bytes \<Rightarrow> FSEScratch \<Rightarrow> (DecodeSequenceError, nat \<times> FSEScratch) res" where
  "maybe_update_fse_tables section source s =
     rbind (ok_or MissingCompressionMode (sh_modes section)) (\<lambda>modes.
     rbind (infallible (ll_mode modes)) (\<lambda>m.
     rbind (update_ll_table m source s) (\<lambda>(bytes_ll, s).
     rbind (slice_from source bytes_ll) (\<lambda>of_source.
     rbind (infallible (of_mode modes)) (\<lambda>m.
     rbind (update_of_table m of_source s) (\<lambda>(bytes_of, s).
     rbind (slice_from source (bytes_ll + bytes_of)) (\<lambda>ml_source.
     rbind (infallible (ml_mode modes)) (\<lambda>m.
     rbind (update_ml_table m ml_source s) (\<lambda>(bytes_ml, s).
       Ok (bytes_ll + bytes_of + bytes_ml, s))))))))))"

section \<open>The bit window\<close>

text \<open>
  The window is the triple of the index, the shifted container and the number of consumed bits;
  the shifts by the consumed count wrap at 64, as \<open>wrapping_shl\<close> does.
\<close>

record SeqBitReader =
  sb_source :: bytes
  sb_ip :: nat
  sb_bits :: u64
  sb_consumed :: nat

definition leading_zeros8 :: "u8 \<Rightarrow> nat" where
  "leading_zeros8 b = (if b = 0 then 8 else 7 - ilog2 (unat b))"

definition sb_new :: "bytes \<Rightarrow> (DecodeSequenceError, SeqBitReader) res" where
  "sb_new source =
     (if source = [] then Err (SeqExtraPadding 9)
      else if last source = 0 then Err (SeqExtraPadding 9)
      else
      let pad = 1 + leading_zeros8 (last source) in
      if length source \<ge> 8 then
        let ip = length source - 8 in
        Ok \<lparr>sb_source = source, sb_ip = ip, sb_bits = u64_from_le_bytes (drop ip source),
            sb_consumed = pad\<rparr>
      else
        let buf = source @ replicate (8 - length source) 0 in
        Ok \<lparr>sb_source = source, sb_ip = 0, sb_bits = u64_from_le_bytes buf,
            sb_consumed = pad + (8 - length source) * 8\<rparr>)"

datatype Reload = Unfinished | EndOfBuffer | Overflow

definition wrapping_shl :: "u64 \<Rightarrow> nat \<Rightarrow> u64" where
  "wrapping_shl w n = push_bit (n mod 64) w"

definition wrapping_shr :: "u64 \<Rightarrow> nat \<Rightarrow> u64" where
  "wrapping_shr w n = drop_bit (n mod 64) w"

type_synonym window = "nat \<times> u64 \<times> nat"

definition win_read :: "window \<Rightarrow> nat \<Rightarrow> ('e, u64 \<times> window) res" where
  "win_read = (\<lambda>(ip, win, consumed) n. rbind (rassert (n < 64)) (\<lambda>_.
     Ok (wrapping_shr win (64 - n), (ip, push_bit n win, consumed + n))))"

definition read_state :: "window \<Rightarrow> nat \<Rightarrow> ('e, u32 \<times> window) res" where
  "read_state w log = rbind (win_read w log) (\<lambda>(v, w). Ok (ucast (v AND (push_bit log 1 - 1)), w))"

definition reload_slow :: "bytes \<Rightarrow> window \<Rightarrow> ('e, Reload \<times> window) res" where
  "reload_slow src = (\<lambda>(ip, win, consumed).
     let nb = min (consumed div 8) ip in
     rbind
       (if nb > 0 then
          let ip = ip - nb; consumed = consumed - nb * 8 in
          rbind (load_le64 src ip) (\<lambda>bits. Ok (ip, wrapping_shl bits consumed, consumed))
        else Ok (ip, win, consumed))
       (\<lambda>(ip, win, consumed).
         Ok (if ip = 0 then EndOfBuffer else Unfinished, (ip, win, consumed))))"

definition reload :: "bytes \<Rightarrow> window \<Rightarrow> ('e, Reload \<times> window) res" where
  "reload src = (\<lambda>(ip, win, consumed).
     if consumed > 64 then Ok (Overflow, (ip, win, consumed))
     else if ip \<ge> 8 then
       let ip = ip - consumed div 8; consumed = consumed mod 8 in
       rbind (load_le64 src ip) (\<lambda>bits. Ok (Unfinished, (ip, push_bit consumed bits, consumed)))
     else reload_slow src (ip, win, consumed))"

section \<open>Decoding sequences\<close>

record SeqDecoder =
  sd_tbl :: "u64 list"
  sd_src :: bytes
  sd_win :: window
  sd_ll_state :: u32
  sd_ml_state :: u32
  sd_of_state :: u32
  sd_rem :: nat

definition checked_add32 :: "u32 \<Rightarrow> u32 \<Rightarrow> ('e, u32) res" where
  "checked_add32 a b = rbind (rassert (unat a + unat b < 2 ^ 32)) (\<lambda>_. Ok (a + b))"

definition low_mask :: "nat \<Rightarrow> u64" where
  "low_mask n = push_bit n 1 - 1"

text \<open>The three extra-bit fields: one batched read, or two reads around a reload.\<close>

definition read_fields ::
  "bytes \<Rightarrow> window \<Rightarrow> nat \<Rightarrow> nat \<Rightarrow> nat \<Rightarrow> (DecodeSequenceError, (u64 \<times> u64 \<times> u64) \<times> window) res" where
  "read_fields src w ll_nb ml_nb of_nb =
     (let sum = ll_nb + ml_nb + of_nb in
      if sum \<le> 31 then
        rbind (win_read w sum) (\<lambda>(v, w).
          Ok ((drop_bit (ml_nb + ll_nb) v AND low_mask of_nb,
               drop_bit ll_nb v AND low_mask ml_nb,
               v AND low_mask ll_nb), w))
      else
        rbind (win_read w of_nb) (\<lambda>(obits, w).
        rbind (win_read w ml_nb) (\<lambda>(ml_add, w).
        rbind (reload src w) (\<lambda>(status, w).
        if status = Overflow then Err NotEnoughBytesForNumSequences
        else rbind (win_read w ll_nb) (\<lambda>(ll_add, w).
          Ok ((obits AND low_mask of_nb, ml_add AND low_mask ml_nb, ll_add AND low_mask ll_nb), w))))))"

text \<open>The batched read of the three state transitions: literal length on top, offset lowest.\<close>

definition read_transitions ::
  "window \<Rightarrow> u64 \<Rightarrow> u64 \<Rightarrow> u64 \<Rightarrow> (DecodeSequenceError, (u32 \<times> u32 \<times> u32) \<times> window) res" where
  "read_transitions w ll_entry ml_entry of_entry =
     (let ll_nb = unat (entry_nb_bits ll_entry); ml_nb = unat (entry_nb_bits ml_entry);
          of_nb = unat (entry_nb_bits of_entry)
      in rbind (win_read w (ll_nb + ml_nb + of_nb)) (\<lambda>(v, w).
         rbind (checked_add32 (entry_next_state ll_entry)
           (ucast (drop_bit (ml_nb + of_nb) v AND low_mask ll_nb))) (\<lambda>s_ll.
         rbind (checked_add32 (entry_next_state ml_entry)
           (ucast (drop_bit of_nb v AND low_mask ml_nb))) (\<lambda>s_ml.
         rbind (checked_add32 (entry_next_state of_entry) (ucast (v AND low_mask of_nb))) (\<lambda>s_of.
           Ok ((s_ll, s_ml, s_of), w))))))"

definition decode_step :: "SeqDecoder \<Rightarrow> (DecodeSequenceError, Sequence \<times> SeqDecoder) res" where
  "decode_step d =
     rbind (rindex (sd_tbl d) (LL_SLOT + unat (sd_ll_state d))) (\<lambda>ll_entry.
     rbind (rindex (sd_tbl d) (ML_SLOT + unat (sd_ml_state d))) (\<lambda>ml_entry.
     rbind (rindex (sd_tbl d) (OF_SLOT + unat (sd_of_state d))) (\<lambda>of_entry.
     rbind (read_fields (sd_src d) (sd_win d) (unat (entry_add_bits ll_entry))
       (unat (entry_add_bits ml_entry)) (unat (entry_add_bits of_entry)))
       (\<lambda>((obits, ml_add, ll_add), w).
     rbind (checked_add32 (seq_entry_base ll_entry) (ucast ll_add)) (\<lambda>ll.
     rbind (checked_add32 (seq_entry_base ml_entry) (ucast ml_add)) (\<lambda>ml.
     rbind (checked_add32 (seq_entry_base of_entry) (ucast obits)) (\<lambda>off.
     let seq = \<lparr>sq_ll = ll, sq_ml = ml, sq_of = off\<rparr> in
     rbind (rassert (0 < sd_rem d)) (\<lambda>_.
     let d = d\<lparr>sd_win := w, sd_rem := sd_rem d - 1\<rparr> in
     if sd_rem d > 0 then
       rbind (read_transitions (sd_win d) ll_entry ml_entry of_entry) (\<lambda>((s_ll, s_ml, s_of), w).
       rbind (reload (sd_src d) w) (\<lambda>(status, w).
       if status = Overflow then Err NotEnoughBytesForNumSequences
       else Ok (seq, d\<lparr>sd_win := w, sd_ll_state := s_ll, sd_ml_state := s_ml, sd_of_state := s_of\<rparr>)))
     else Ok (seq, d)))))))))"

definition sd_new ::
  "SequencesHeader \<Rightarrow> bytes \<Rightarrow> FSEScratch \<Rightarrow> (DecodeSequenceError, SeqDecoder \<times> FSEScratch) res" where
  "sd_new section source s =
     rbind (maybe_update_fse_tables section source s) (\<lambda>(bytes_read, s).
     rbind (slice_from source bytes_read) (\<lambda>bit_stream.
     rbind (sb_new bit_stream) (\<lambda>br.
     rbind (pack_tables s) (\<lambda>s.
     if \<not> fs_ll_ready s \<or> \<not> fs_of_ready s \<or> \<not> fs_ml_ready s
     then Err (DSFSEDecoderError TableIsUninitialized)
     else
       let w = (sb_ip br, wrapping_shl (sb_bits br) (sb_consumed br), sb_consumed br) in
       rbind (read_state w (ft_accuracy_log (fs_literal_lengths s))) (\<lambda>(ll_state, w).
       rbind (read_state w (ft_accuracy_log (fs_offsets s))) (\<lambda>(of_state, w).
       rbind (read_state w (ft_accuracy_log (fs_match_lengths s))) (\<lambda>(ml_state, w).
       rbind (reload (sb_source br) w) (\<lambda>(_, w).
         Ok (\<lparr>sd_tbl = fs_seq_packed s, sd_src = sb_source br, sd_win = w, sd_ll_state = ll_state,
              sd_ml_state = ml_state, sd_of_state = of_state,
              sd_rem = unat (sh_num_sequences section)\<rparr>, s)))))))))"

definition sd_finish :: "SeqDecoder \<Rightarrow> (DecodeSequenceError, unit) res" where
  "sd_finish d =
     (let (ip, _, consumed) = sd_win d; rem = int ip * 8 + 64 - int consumed in
      if rem > 0 then Err (SeqExtraBits rem)
      else if rem < 0 then Err NotEnoughBytesForNumSequences
      else Ok ())"

lemma decode_step_rem: "decode_step d = Ok (sq, d') \<Longrightarrow> 0 < sd_rem d \<and> sd_rem d' = sd_rem d - 1"
  by (auto simp: decode_step_def rbind_eq_Ok Let_def split: if_splits prod.splits)

text \<open>The loop of \<open>decode_sequences_into_impl\<close>.\<close>

function sequence_loop :: "SeqDecoder \<Rightarrow> (DecodeSequenceError, Sequence list \<times> SeqDecoder) res" where
  "sequence_loop d =
     (if sd_rem d > 0 then
        (case decode_step d of
           Err e \<Rightarrow> Err e
         | Panic \<Rightarrow> Panic
         | Ok (seq, d) \<Rightarrow> rbind (sequence_loop d) (\<lambda>(seqs, d). Ok (seq # seqs, d)))
      else Ok ([], d))"
  by pat_completeness auto
termination
  by (relation "measure sd_rem") (auto dest!: decode_step_rem)

declare sequence_loop.simps [simp del]

definition decode_sequences_into ::
  "SequencesHeader \<Rightarrow> bytes \<Rightarrow> FSEScratch \<Rightarrow> Sequence list
    \<Rightarrow> (DecodeSequenceError, Sequence list \<times> FSEScratch) res" where
  "decode_sequences_into section source s target =
     rbind (sd_new section source s) (\<lambda>(d, s).
     rbind (sequence_loop d) (\<lambda>(seqs, d).
     rbind (sd_finish d) (\<lambda>_. Ok (target @ seqs, s))))"

text \<open>The entry point clears its target first.\<close>

definition decode_sequences ::
  "SequencesHeader \<Rightarrow> bytes \<Rightarrow> FSEScratch \<Rightarrow> Sequence list
    \<Rightarrow> (DecodeSequenceError, Sequence list \<times> FSEScratch) res" where
  "decode_sequences section source s target = decode_sequences_into section source s []"

end
