(* ===== verification/Seq_Window.thy ===== *)
theory Seq_Window
  imports Seq_Decoder
begin

text \<open>
  What the bit window of the sequence decoder reads.  \<open>win_at src w bs m\<close>: the unread part of the
  stream is the bit string \<open>bs\<close>, and at least \<open>m\<close> of its bits can be read before the next reload.
\<close>

unbundle bit_operations_syntax

definition win_at :: "bytes \<Rightarrow> window \<Rightarrow> bits \<Rightarrow> nat \<Rightarrow> bool" where
  "win_at src = (\<lambda>(ip, win, consumed) bs m.
     (ip = 0 \<or> ip + 8 \<le> length src) \<and> int (length bs) = 8 * int ip + 64 - int consumed
     \<and> length bs \<le> 8 * length src \<and> take (length bs) (bytes_bits src) = bs
     \<and> (ip = 0 \<or> consumed + m \<le> 64)
     \<and> (\<forall>k<64. consumed \<le> k \<longrightarrow> bit win k = sbit (bytes_bits src) (8 * int ip + int k - int consumed)))"

lemma win_at_stream:
  assumes "win_at src w (bs @ f) m" "j < length f"
  shows "sbit (bytes_bits src) (int (length bs + j)) = f ! j"
proof -
  obtain ip win consumed where w: "w = (ip, win, consumed)" by (cases w)
  have t: "take (length (bs @ f)) (bytes_bits src) = bs @ f" "length (bs @ f) \<le> 8 * length src"
    using assms(1) by (simp_all add: win_at_def w)
  have "bytes_bits src ! (length bs + j) = take (length (bs @ f)) (bytes_bits src) ! (length bs + j)"
    using assms(2) by simp
  also have "\<dots> = f ! j" by (simp only: t(1) nth_append) simp
  finally show ?thesis using t(2) assms(2) by (simp add: sbit_def nat_int_add)
qed

lemma win_at_weaken: "win_at src w bs m \<Longrightarrow> n \<le> m \<Longrightarrow> win_at src w bs n"
  by (cases w) (auto simp: win_at_def)

lemma win_read_at:
  assumes at: "win_at src w (bs @ f) m" and n: "length f = n" "n \<le> m" "n < 64"
  shows "\<exists>v w'. win_read w n = Ok (v, w') \<and> win_at src w' bs (m - n) \<and> take_bit n v = bits_word f"
proof -
  obtain ip win c where w: "w = (ip, win, c)" by (cases w)
  have fit: "c + n \<le> 64" using at n by (auto simp: win_at_def w)
  have b: "bit win k = sbit (bytes_bits src) (8 * int ip + int k - int c)" if "k < 64" "c \<le> k" for k
    using at that by (auto simp: win_at_def w)
  have len: "int (length bs) + int n = 8 * int ip + 64 - int c" using at n by (auto simp: win_at_def w)
  have "win_at src (ip, push_bit n win, c + n) bs (m - n)"
  proof -
    have "bit (push_bit n win) k = sbit (bytes_bits src) (8 * int ip + int k - int (c + n))"
      if "k < 64" "c + n \<le> k" for k
      using that b [of "k - n"] by (simp add: bit_push_bit_iff of_nat_diff algebra_simps)
    moreover have "take (length bs) (bytes_bits src) = bs"
    proof -
      have "take (length (bs @ f)) (bytes_bits src) = bs @ f" using at by (simp add: win_at_def w)
      then have "take (length bs) (take (length (bs @ f)) (bytes_bits src)) = take (length bs) (bs @ f)"
        by simp
      then show ?thesis by (simp add: min_def)
    qed
    ultimately show ?thesis using at n len by (auto simp: win_at_def w)
  qed
  moreover have "take_bit n (wrapping_shr win (64 - n)) = bits_word f"
  proof (rule bit_word_eqI)
    fix j assume j: "j < LENGTH(64)"
    show "bit (take_bit n (wrapping_shr win (64 - n))) j = bit (bits_word f) j"
    proof (cases "j < n")
      case True
      then have m: "(64 - n) mod 64 = 64 - n" using n(3) by simp
      have "bit win (64 - n + j) = sbit (bytes_bits src) (8 * int ip + int (64 - n + j) - int c)"
        using True fit by (intro b) auto
      also have "8 * int ip + int (64 - n + j) - int c = int (length bs + j)"
        using len n(3) by (simp add: of_nat_diff)
      also have "sbit (bytes_bits src) \<dots> = f ! j"
        using win_at_stream [OF at] True n(1) by simp
      finally show ?thesis
        using True n j by (simp add: bit_take_bit_iff wrapping_shr_def m bit_drop_bit_eq bit_bits_word)
    qed (use n in \<open>simp add: bit_take_bit_iff bit_bits_word\<close>)
  qed
  ultimately show ?thesis using n(3) by (simp add: win_read_def w)
qed

lemma load_le64_at:
  assumes "p + 8 \<le> length src"
  shows "\<exists>v. load_le64 src p = (Ok v :: ('e, u64) res) \<and> (\<forall>k<64. bit v k = sbit (bytes_bits src) (8 * int p + int k))"
  using assms sbit_take_drop [of _ p src] by (simp add: load_le64_def bit_u64_from_le_bytes)

lemma reload_at:
  assumes at: "win_at src w bs m"
  shows "\<exists>st w'. reload src w = (Ok (st, w') :: ('e, _) res) \<and> st \<noteq> Overflow \<and> win_at src w' bs 57"
proof -
  obtain ip win c where w: "w = (ip, win, c)" by (cases w)
  have A: "ip = 0 \<or> ip + 8 \<le> length src" "int (length bs) = 8 * int ip + 64 - int c"
    "length bs \<le> 8 * length src" "take (length bs) (bytes_bits src) = bs" "ip = 0 \<or> c + m \<le> 64"
    using at by (simp_all add: win_at_def w)
  have c: "c \<le> 64" using A(2,5) by auto
  define nb where "nb = min (c div 8) ip"
  have nb: "nb \<le> ip" "8 * nb \<le> c" by (auto simp: nb_def)
  have moved: "win_at src (ip - nb, push_bit (c - 8 * nb) v, c - 8 * nb) bs 57"
    if v: "\<forall>k<64. bit v k = sbit (bytes_bits src) (8 * int (ip - nb) + int k)" for v
  proof -
    have "ip - nb = 0 \<or> c - 8 * nb + 57 \<le> 64"
    proof (cases "c div 8 \<le> ip")
      case True
      then have "nb = c div 8" by (simp add: nb_def)
      then show ?thesis by linarith
    qed (simp add: nb_def)
    moreover have "int (length bs) = 8 * int (ip - nb) + 64 - int (c - 8 * nb)"
      using A(2) nb by (simp add: of_nat_diff)
    moreover have "ip - nb = 0 \<or> ip - nb + 8 \<le> length src" using A(1) by auto
    moreover have "bit (push_bit (c - 8 * nb) v) k
        = sbit (bytes_bits src) (8 * int (ip - nb) + int k - int (c - 8 * nb))"
      if "k < 64" "c - 8 * nb \<le> k" for k
      using that v by (simp add: bit_push_bit_iff of_nat_diff add_diff_eq)
    ultimately show ?thesis using A(3,4) by (simp add: win_at_def)
  qed
  show ?thesis
  proof (cases "8 \<le> ip")
    case True
    then have n: "nb = c div 8" using c by (auto simp: nb_def)
    then have "c - 8 * nb = c mod 8" by (simp add: minus_mult_div_eq_mod)
    moreover have "ip - nb + 8 \<le> length src" using A(1) True by linarith
    then obtain v where "load_le64 src (ip - nb) = (Ok v :: ('e, _) res)"
      "\<forall>k<64. bit v k = sbit (bytes_bits src) (8 * int (ip - nb) + int k)"
      using load_le64_at by blast
    ultimately show ?thesis
      using moved [of v] c True unfolding w reload_def n by (simp add: Let_def)
  next
    case False
    show ?thesis
    proof (cases "nb = 0")
      case True
      then have "ip = 0 \<or> c + 57 \<le> 64" by (auto simp: nb_def min_def split: if_splits)
      then have "win_at src (ip, win, c) bs 57" using at by (auto simp: win_at_def w)
      then show ?thesis
        using False c True unfolding w reload_def reload_slow_def Let_def prod.case nb_def [symmetric] by simp
    next
      case pos: False
      have "ip - nb + 8 \<le> length src" using A(1) pos nb(1) by linarith
      then obtain v where v: "load_le64 src (ip - nb) = (Ok v :: ('e, _) res)"
        "\<forall>k<64. bit v k = sbit (bytes_bits src) (8 * int (ip - nb) + int k)"
        using load_le64_at by blast
      have "c - nb * 8 < 64" using c pos nb(2) by linarith
      then have "wrapping_shl v (c - nb * 8) = push_bit (c - 8 * nb) v"
        by (simp add: wrapping_shl_def mult.commute)
      then show ?thesis
        using False c pos v(1) moved [OF v(2)] 
        unfolding w reload_def reload_slow_def Let_def prod.case nb_def [symmetric]
        by (simp add: mult.commute)
    qed
  qed
qed

text \<open>The start: the last byte holds the marker and \<open>z\<close> zero bits above it.\<close>

lemma last_byte_marker:
  assumes "bytes_bits src = bs @ True # replicate z False" "z < 8"
  shows "src \<noteq> []" "last src \<noteq> 0" "leading_zeros8 (last src) = z" "length bs + Suc z = 8 * length src"
proof -
  have "length (bytes_bits src) = length bs + Suc z" unfolding assms(1) by simp
  then show len: "length bs + Suc z = 8 * length src" by simp
  then show ne: "src \<noteq> []" by auto
  let ?b = "last src" and ?pre = "drop (8 * (length src - 1)) bs"
  have sp: "drop (length src - 1) src = [?b]" 
    by (metis append_butlast_last_id append_eq_conv_conj length_butlast ne)
  have "byte_bits ?b = drop (8 * (length src - 1)) (bytes_bits src)"
    using sp by (simp add: drop_bytes_bits)
  also have "\<dots> = ?pre @ True # replicate z False"
    unfolding assms(1) using len assms(2) ne by (cases src) (simp_all add: drop_append)
  finally have bits: "byte_bits ?b = ?pre @ True # replicate z False" .
  have pre: "length ?pre = 7 - z" using len assms(2) ne by (cases src) simp_all
  have z: "bits_val (replicate k False) = 0" for k by (induction k) (simp_all add: bits_val_Cons)
  have v: "bits_val (byte_bits ?b) = unat ?b"
    by (rule bit_eqI) (auto simp: bit_bits_val bit_unsigned_iff dest: bit_imp_le_length intro: nth_byte_bits_bit)
  have val: "unat ?b = bits_val ?pre + 2 ^ (7 - z)"
    unfolding v [symmetric] bits bits_val_append bits_val_Cons z pre by simp
  have "bits_val ?pre < 2 ^ (7 - z)" using bits_val_less [of ?pre] by (simp only: pre)
  then have "ilog2 (unat ?b) = 7 - z" unfolding val by (intro ilog2_eqI) simp_all
  moreover show nz: "?b \<noteq> 0" using val by auto
  ultimately show "leading_zeros8 ?b = z" using assms(2) by (simp add: leading_zeros8_def)
qed

lemma sb_new_at:
  assumes "bytes_bits src = bs @ True # replicate z False" "z < 8"
  shows "\<exists>br. sb_new src = Ok br \<and> sb_source br = src
    \<and> win_at src (sb_ip br, wrapping_shl (sb_bits br) (sb_consumed br), sb_consumed br) bs 56"
proof -
  note m = last_byte_marker [OF assms]
  have tk: "take (length bs) (bytes_bits src) = bs" by (simp add: assms(1))
  show ?thesis
  proof (cases "8 \<le> length src")
    case True
    define ip c where "ip = length src - 8" and "c = Suc z"
    have "bit (u64_from_le_bytes (drop ip src)) k = sbit (bytes_bits src) (8 * int ip + int k)" if "k < 64" for k
      using that sbit_take_drop [OF that, of ip src] True by (simp add: bit_u64_from_le_bytes ip_def)
    then have "bit (push_bit c (u64_from_le_bytes (drop ip src))) k
        = sbit (bytes_bits src) (8 * int ip + int k - int c)" if "k < 64" "c \<le> k" for k
      using that by (simp add: bit_push_bit_iff of_nat_diff add_diff_eq)
    moreover have "wrapping_shl (u64_from_le_bytes (drop ip src)) c = push_bit c (u64_from_le_bytes (drop ip src))"
      using assms(2) by (simp add: wrapping_shl_def c_def)
    moreover have "int (length bs) = 8 * int ip + 64 - int c"
      using m(4) True by (simp add: ip_def c_def of_nat_diff)
    ultimately have "win_at src (ip, wrapping_shl (u64_from_le_bytes (drop ip src)) c, c) bs 56"
      using True m(4) tk assms(2) by (auto simp: win_at_def ip_def c_def)
    then show ?thesis using m(1-3) True by (simp add: sb_new_def Let_def ip_def c_def)
  next
    case False
    define c where "c = Suc z + (8 - length src) * 8"
    let ?v = "u64_from_le_bytes (src @ replicate (8 - length src) 0)"
    have "bit ?v k = sbit (bytes_bits src) (int k)" if "k < 64" for k
      using that by (simp add: bit_u64_from_le_bytes sbit_padded)
    moreover have "wrapping_shl ?v c = push_bit c ?v" if "c < 64" using that by (simp add: wrapping_shl_def)
    ultimately have "bit (wrapping_shl ?v c) k = sbit (bytes_bits src) (int k - int c)" if "k < 64" "c \<le> k" for k
      using that by (simp add: bit_push_bit_iff of_nat_diff)
    moreover have "int (length bs) = 64 - int c" using m(4) False by (simp add: c_def of_nat_diff)
    ultimately have "win_at src (0, wrapping_shl ?v c, c) bs 56"
      using m(4) tk by (auto simp: win_at_def)
    then show ?thesis using m(1-3) False by (simp add: sb_new_def Let_def c_def)
  qed
qed

end
