(* ===== verification/Seq_Encoder.thy ===== *)
theory Seq_Encoder
  imports Seq_Codes Fse_Roundtrip Sequences_Header
begin

text \<open>
  The encoder of the sequence bitstream, \<open>encode_sequences\<close>, \<open>hot_push_raw\<close> and \<open>push_add\<close> of
  \<open>encoding/block_enc/compressed.rs\<close>.  The writer's accumulator lives in locals and is flushed by
  eight-byte stores into capacity reserved once: a store past the reserve is a \<open>Panic\<close> of the
  model, so that success of the encoder includes the safety of its raw stores.  The bytes a store
  leaves beyond the cursor are overwritten or cut, and are not part of the buffer here.
\<close>

unbundle bit_operations_syntax

section \<open>The hot accumulator\<close>

record Hot =
  hot_acc :: u64
  hot_bits :: nat
  hot_buf :: bytes

definition hot_push_raw :: "nat \<Rightarrow> Hot \<Rightarrow> u64 \<Rightarrow> nat \<Rightarrow> (unit, Hot) res" where
  "hot_push_raw cap h v nb = rbind (rassert (nb \<le> 56)) (\<lambda>_.
     let k = hot_bits h div 8 in
     rbind (rassert (length (hot_buf h) + 8 \<le> cap)) (\<lambda>_.
     rbind (rassert (k < 8)) (\<lambda>_.
     let buf = hot_buf h @ take k (u64_to_le_bytes (hot_acc h));
         acc = drop_bit (8 * k) (hot_acc h); bits = hot_bits h - 8 * k
     in Ok \<lparr>hot_acc = acc OR push_bit bits v, hot_bits = bits + nb, hot_buf = buf\<rparr>)))"

text \<open>The code bytes of a packed word.\<close>

definition ll_code_of :: "u32 \<Rightarrow> nat" where
  "ll_code_of codes = unat (ucast codes :: u8)"

definition ml_code_of :: "u32 \<Rightarrow> nat" where
  "ml_code_of codes = unat (ucast (drop_bit 8 codes) :: u8)"

definition of_code_of :: "u32 \<Rightarrow> nat" where
  "of_code_of codes = unat (ucast (drop_bit 16 codes) :: u8)"

definition push_add :: "nat \<Rightarrow> Hot \<Rightarrow> u64 \<Rightarrow> nat \<Rightarrow> u32 \<Rightarrow> (unit, Hot) res" where
  "push_add cap h add add_nb codes =
     (if add_nb \<le> 56 then hot_push_raw cap h add add_nb
      else
        rbind (rindex LL_META (ll_code_of codes)) (\<lambda>(_, ln).
        rbind (rindex ML_META (ml_code_of codes)) (\<lambda>(_, mn).
        let on = of_code_of codes in
        rbind (hot_push_raw cap h (add AND (push_bit ln 1 - 1)) ln) (\<lambda>h.
        rbind (hot_push_raw cap h (drop_bit ln add AND (push_bit mn 1 - 1)) mn) (\<lambda>h.
          hot_push_raw cap h (drop_bit (ln + mn) add) on)))))"

section \<open>Encoding sequences\<close>

text \<open>The three biased states: literal length, match length, offset.\<close>

type_synonym states = "u32 \<times> u32 \<times> u32"

text \<open>One turn of the backward loop: the three transitions, then the extra bits.\<close>

definition encode_turn ::
  "nat \<Rightarrow> EncTable \<Rightarrow> EncTable \<Rightarrow> EncTable \<Rightarrow> SeqWord \<Rightarrow> Hot \<times> states \<Rightarrow> (unit, Hot \<times> states) res" where
  "encode_turn cap ll ml off w = (\<lambda>(h, ll_state, ml_state, of_state).
     let packed = sw_codes w; add_nb = unat (sw_add_nb w) in
     rbind (rassert (unat of_state < 2 * et_table_size off)) (\<lambda>_.
     rbind (rassert (unat ml_state < 2 * et_table_size ml)) (\<lambda>_.
     rbind (rassert (unat ll_state < 2 * et_table_size ll)) (\<lambda>_.
     rbind (enc_step off (of_code_of packed) of_state) (\<lambda>(of_nb, of_diff, of_state).
     rbind (enc_step ml (ml_code_of packed) ml_state) (\<lambda>(ml_nb, ml_diff, ml_state).
     rbind (enc_step ll (ll_code_of packed) ll_state) (\<lambda>(ll_nb, ll_diff, ll_state).
     let trans = ucast of_diff OR push_bit of_nb (ucast ml_diff)
           OR push_bit (of_nb + ml_nb) (ucast ll_diff);
         trans_nb = of_nb + ml_nb + ll_nb
     in rbind
       (if trans_nb + add_nb \<le> 56
        then hot_push_raw cap h (trans OR push_bit trans_nb (sw_add w)) (trans_nb + add_nb)
        else rbind (hot_push_raw cap h trans trans_nb) (\<lambda>h. push_add cap h (sw_add w) add_nb packed))
       (\<lambda>h. Ok (h, ll_state, ml_state, of_state)))))))))"

fun encode_turns ::
  "nat \<Rightarrow> EncTable \<Rightarrow> EncTable \<Rightarrow> EncTable \<Rightarrow> SeqWord list \<Rightarrow> Hot \<times> states \<Rightarrow> (unit, Hot \<times> states) res" where
  "encode_turns cap ll ml off [] st = Ok st"
| "encode_turns cap ll ml off (w # ws) st =
     rbind (encode_turn cap ll ml off w st) (encode_turns cap ll ml off ws)"

definition encode_sequences ::
  "nat \<Rightarrow> SeqWord list \<Rightarrow> BitWriter \<Rightarrow> EncTable \<Rightarrow> EncTable \<Rightarrow> EncTable \<Rightarrow> (unit, BitWriter) res" where
  "encode_sequences nb_seq seqs writer ll ml off =
     rbind (rassert (0 < nb_seq)) (\<lambda>_.
     let li = nb_seq - 1 in
     rbind (rindex seqs li) (\<lambda>w.
     let packed = sw_codes w in
     rbind (start_index ll (ll_code_of packed)) (\<lambda>ll_state.
     rbind (start_index ml (ml_code_of packed)) (\<lambda>ml_state.
     rbind (start_index off (of_code_of packed)) (\<lambda>of_state.
     let ml_log = ilog2 (et_table_size ml); of_log = ilog2 (et_table_size off);
         ll_log = ilog2 (et_table_size ll); (acc, bits, pos) = bw_hot_state writer;
         cap = length (bw_output writer) + (nb_seq * 11 + 32)
     in
     rbind (push_add cap \<lparr>hot_acc = acc, hot_bits = bits, hot_buf = take pos (bw_output writer)\<rparr>
       (sw_add w) (unat (sw_add_nb w)) packed) (\<lambda>h.
     rbind (encode_turns cap ll ml off (rev (take li seqs)) (h, ll_state, ml_state, of_state))
       (\<lambda>(h, ll_state, ml_state, of_state).
     rbind (bw_set_hot_state writer (hot_acc h) (hot_bits h) (length (hot_buf h)) (hot_buf h)) (\<lambda>writer.
     rbind (bw_write_bits writer (ucast (ml_state AND (push_bit ml_log 1 - 1))) ml_log) (\<lambda>writer.
     rbind (bw_write_bits writer (ucast (of_state AND (push_bit of_log 1 - 1))) of_log) (\<lambda>writer.
     rbind (bw_write_bits writer (ucast (ll_state AND (push_bit ll_log 1 - 1))) ll_log) (\<lambda>writer.
       write_end_marker writer)))))))))))"

section \<open>The accumulator appends\<close>

definition hot_ok :: "Hot \<Rightarrow> bool" where
  "hot_ok h \<longleftrightarrow> hot_bits h < 64 \<and> take_bit (hot_bits h) (hot_acc h) = hot_acc h"

definition hot_contents :: "Hot \<Rightarrow> bits" where
  "hot_contents h = bytes_bits (hot_buf h) @ word_bits (hot_bits h) (hot_acc h)"

lemma hot_push_raw_correct:
  assumes h: "hot_ok h" and v: "nb \<le> 56" "take_bit nb v = v"
    and cap: "length (hot_contents h) + 64 \<le> 8 * cap"
  shows "\<exists>h'. hot_push_raw cap h v nb = Ok h' \<and> hot_ok h' \<and> hot_contents h' = hot_contents h @ word_bits nb v"
proof -
  define k where "k = hot_bits h div 8"
  define bits acc where "bits = hot_bits h - 8 * k" and "acc = drop_bit (8 * k) (hot_acc h)"
  have k: "k < 8" "8 * k \<le> hot_bits h" "bits < 8" using h by (auto simp: hot_ok_def k_def bits_def)
  have sum: "hot_bits h = 8 * k + bits" using k(2) by (simp add: bits_def)
  have acc: "take_bit bits acc = acc"
  proof (rule bit_word_eqI)
    fix i
    have "bit (hot_acc h) j \<Longrightarrow> j < hot_bits h" for j using h by (metis hot_ok_def bit_take_bit_iff)
    then show "bit (take_bit bits acc) i = bit acc i"
      using sum by (fastforce simp: bit_take_bit_iff acc_def bit_drop_bit_eq)
  qed
  let ?h' = "\<lparr>hot_acc = acc OR push_bit bits v, hot_bits = bits + nb,
    hot_buf = hot_buf h @ take k (u64_to_le_bytes (hot_acc h))\<rparr>"
  have "hot_push_raw cap h v nb = Ok ?h'"
    using v(1) k cap by (simp add: hot_push_raw_def hot_contents_def k_def [symmetric]
        bits_def [symmetric] acc_def [symmetric])
  moreover have "take_bit (bits + nb) (acc OR push_bit bits v) = acc OR push_bit bits v"
  proof (rule bit_word_eqI)
    fix i
    show "bit (take_bit (bits + nb) (acc OR push_bit bits v)) i = bit (acc OR push_bit bits v) i"
      using acc v(2) by (metis (no_types, lifting) add_diff_inverse_nat bit_or_iff bit_push_bit_iff
          bit_take_bit_iff nat_add_left_cancel_less not_le trans_less_add1)
  qed
  then have "hot_ok ?h'" using k(3) v(1) by (simp add: hot_ok_def)
  moreover have "hot_contents ?h' = hot_contents h @ word_bits nb v"
  proof -
    have "word_bits (bits + nb) (acc OR push_bit bits v) = word_bits bits acc @ word_bits nb v"
      using acc k(3) v(1) by (intro word_bits_or_push) simp_all
    moreover have "bytes_bits (take k (u64_to_le_bytes (hot_acc h))) = word_bits (8 * k) (hot_acc h)"
    proof -
      have "take (8 * k) (word_bits 64 (hot_acc h)) = word_bits (8 * k) (hot_acc h)"
        using k(1) by (intro nth_equalityI) auto
      then show ?thesis by (simp add: bytes_bits_u64_to_le_bytes flip: take_bytes_bits)
    qed
    moreover have "word_bits (hot_bits h) (hot_acc h) = word_bits (8 * k) (hot_acc h) @ word_bits bits acc"
      unfolding sum acc_def by (rule word_bits_add)
    ultimately show ?thesis by (simp add: hot_contents_def)
  qed
  ultimately show ?thesis by blast
qed

section \<open>The codes and fields of a packed word\<close>

lemma code_bytes:
  assumes "codes = ucast lc OR push_bit 8 (ucast mc) OR push_bit 16 (of_nat log)" "log < 256"
  shows "ll_code_of codes = unat (lc :: u8)" "ml_code_of codes = unat (mc :: u8)" "of_code_of codes = log"
proof -
  have b: "bit codes i \<longleftrightarrow> bit lc i \<or> 8 \<le> i \<and> bit mc (i - 8) \<or> 16 \<le> i \<and> bit (of_nat log :: u32) (i - 16)"
    if "i < 32" for i
    using that by (auto simp: assms(1) bit_or_iff bit_push_bit_iff bit_ucast_iff)
  have hi: "\<not> bit (x :: u8) i" if "8 \<le> i" for x i
    using that by (auto dest: bit_imp_le_length)
  have "(ucast codes :: u8) = lc"
    by (rule bit_word_eqI) (auto simp: bit_ucast_iff b)
  then show "ll_code_of codes = unat lc" by (simp add: ll_code_of_def)
  have "(ucast (drop_bit 8 codes) :: u8) = mc"
    by (rule bit_word_eqI) (auto simp: bit_ucast_iff b bit_drop_bit_eq hi)
  then show "ml_code_of codes = unat mc" by (simp add: ml_code_of_def)
  have "(ucast (drop_bit 16 codes) :: u8) = of_nat log"
    by (rule bit_word_eqI) (auto simp: bit_ucast_iff b bit_drop_bit_eq hi bit_of_nat_iff)
  then show "of_code_of codes = log" using assms(2) by (simp add: of_code_of_def unat_of_nat)
qed

text \<open>
  The extra bits of a word, field by field: \<open>ll_width\<close> and \<open>ml_width\<close> bits of the lengths from the
  bottom, then as many offset bits as the offset code says.
\<close>

definition ll_width :: "SeqWord \<Rightarrow> nat" where
  "ll_width w = snd (LL_META ! ll_code_of (sw_codes w))"

definition ml_width :: "SeqWord \<Rightarrow> nat" where
  "ml_width w = snd (ML_META ! ml_code_of (sw_codes w))"

definition of_width :: "SeqWord \<Rightarrow> nat" where
  "of_width w = of_code_of (sw_codes w)"

definition ll_extra :: "SeqWord \<Rightarrow> u64" where
  "ll_extra w = sw_add w AND (push_bit (ll_width w) 1 - 1)"

definition ml_extra :: "SeqWord \<Rightarrow> u64" where
  "ml_extra w = drop_bit (ll_width w) (sw_add w) AND (push_bit (ml_width w) 1 - 1)"

definition of_extra :: "SeqWord \<Rightarrow> u64" where
  "of_extra w = drop_bit (ll_width w + ml_width w) (sw_add w)"

definition extra_bits :: "SeqWord \<Rightarrow> bits" where
  "extra_bits w = word_bits (ll_width w) (ll_extra w) @ word_bits (ml_width w) (ml_extra w)
     @ word_bits (of_width w) (of_extra w)"

lemma packs_fields:
  assumes "packs w ll ml off"
  shows "ll_code_of (sw_codes w) < 36" "ml_code_of (sw_codes w) < 53" "of_width w \<le> 27"
    "ll_width w \<le> 16" "ml_width w \<le> 16" "unat (sw_add_nb w) = ll_width w + ml_width w + of_width w"
    "unat ll = unat (fst (LL_META ! ll_code_of (sw_codes w))) + unat (ll_extra w)"
    "unat ml = unat (fst (ML_META ! ml_code_of (sw_codes w))) + unat (ml_extra w)"
    "unat off = 2 ^ of_width w + unat (of_extra w)"
    "unat (ll_extra w) < 2 ^ ll_width w" "unat (ml_extra w) < 2 ^ ml_width w"
    "unat (of_extra w) < 2 ^ of_width w"
    "word_bits (unat (sw_add_nb w)) (sw_add w) = extra_bits w"
proof -
  obtain lc la ln mc ma mn log and oa :: u32 where
    l: "coded LL_META ll lc la ln" "ln \<le> 16" and m: "coded ML_META ml mc ma mn" "mn \<le> 16"
    and o': "unat off = 2 ^ log + unat oa" "unat oa < 2 ^ log" "log \<le> 27"
    and w: "sw_codes w = ucast lc OR push_bit 8 (ucast mc) OR push_bit 16 (of_nat log)"
      "sw_add w = ucast la OR push_bit ln (ucast ma) OR push_bit (ln + mn) (ucast oa)"
      "sw_add_nb w = of_nat (ln + mn + log)"
    using assms unfolding packs_def by blast
  have "log < 256" using o'(3) by simp
  note c = code_bytes [OF w(1) this]
  have e: "unat la < 2 ^ ln" "unat ma < 2 ^ mn" using l(1) m(1) by (simp_all add: coded_def)
  have n: "ll_width w = ln" "ml_width w = mn" "of_width w = log"
    using l(1) m(1) by (simp_all add: ll_width_def ml_width_def of_width_def c coded_def)
  have "ln + mn + log \<le> LENGTH(64)" using l(2) m(2) o'(3) by simp
  note as = fields3 [OF u32_in_u64(1) [OF e(1)] u32_in_u64(1) [OF e(2)] u32_in_u64(1) [OF o'(2)] this w(2)]
  have x: "ll_extra w = ucast la" "ml_extra w = ucast ma" "of_extra w = ucast oa"
    using as(1-3) by (simp_all add: ll_extra_def ml_extra_def of_extra_def n)
  have u: "unat (ll_extra w) = unat la" "unat (ml_extra w) = unat ma" "unat (of_extra w) = unat oa"
    unfolding x by (rule u32_in_u64(2) [OF e(1)] u32_in_u64(2) [OF e(2)] u32_in_u64(2) [OF o'(2)])+
  show "ll_code_of (sw_codes w) < 36" "ml_code_of (sw_codes w) < 53" "of_width w \<le> 27"
    "ll_width w \<le> 16" "ml_width w \<le> 16"
    using l m o'(3) n c by (simp_all add: coded_def)
  show nb: "unat (sw_add_nb w) = ll_width w + ml_width w + of_width w"
    using l(2) m(2) o'(3) unfolding w(3) n by (simp add: unat_of_nat del: of_nat_add)
  show "unat ll = unat (fst (LL_META ! ll_code_of (sw_codes w))) + unat (ll_extra w)"
    "unat ml = unat (fst (ML_META ! ml_code_of (sw_codes w))) + unat (ml_extra w)"
    "unat off = 2 ^ of_width w + unat (of_extra w)"
    using l(1) m(1) o'(1) by (simp_all add: c u n coded_def)
  show "unat (ll_extra w) < 2 ^ ll_width w" "unat (ml_extra w) < 2 ^ ml_width w"
    "unat (of_extra w) < 2 ^ of_width w"
    using e o'(2) by (simp_all add: u n)
  have low: "word_bits k (x AND (push_bit k 1 - 1)) = word_bits k x" for k and x :: u64
    by (rule nth_equalityI) (auto simp: bit_and_iff dest: bit_imp_le_length)
  show "word_bits (unat (sw_add_nb w)) (sw_add w) = extra_bits w"
    unfolding nb extra_bits_def ll_extra_def ml_extra_def of_extra_def low
    by (simp only: word_bits_add drop_bit_drop_bit append_assoc add.commute [of "ml_width w" "ll_width w"])
qed

lemma push_add_correct:
  assumes p: "packs w ll ml off" and h: "hot_ok h"
    and cap: "length (hot_contents h) + 96 \<le> 8 * cap"
  shows "\<exists>h'. push_add cap h (sw_add w) (unat (sw_add_nb w)) (sw_codes w) = Ok h' \<and> hot_ok h'
    \<and> hot_contents h' = hot_contents h @ extra_bits w"
proof (cases "unat (sw_add_nb w) \<le> 56")
  case True
  then show ?thesis
    using hot_push_raw_correct [OF h True packs_decode(2) [OF p]] cap packs_fields(13) [OF p]
    by (simp add: push_add_def)
next
  case False
  note F = packs_fields [OF p]
  have tk: "take_bit n x = x" if "unat x < 2 ^ n" for n and x :: u64 using that by (rule unat_less_take_bit)
  obtain h1 where h1: "hot_push_raw cap h (ll_extra w) (ll_width w) = Ok h1" "hot_ok h1"
    "hot_contents h1 = hot_contents h @ word_bits (ll_width w) (ll_extra w)"
    using hot_push_raw_correct [OF h, of "ll_width w" "ll_extra w" cap] F(4) tk [OF F(10)] cap by auto
  obtain h2 where h2: "hot_push_raw cap h1 (ml_extra w) (ml_width w) = Ok h2" "hot_ok h2"
    "hot_contents h2 = hot_contents h1 @ word_bits (ml_width w) (ml_extra w)"
    using hot_push_raw_correct [OF h1(2), of "ml_width w" "ml_extra w" cap] F(4,5) tk [OF F(11)] cap h1(3) by auto
  obtain h3 where h3: "hot_push_raw cap h2 (of_extra w) (of_width w) = Ok h3" "hot_ok h3"
    "hot_contents h3 = hot_contents h2 @ word_bits (of_width w) (of_extra w)"
    using hot_push_raw_correct [OF h2(2), of "of_width w" "of_extra w" cap] F(3,4,5) tk [OF F(12)] cap
      h1(3) h2(3) by auto
  have "push_add cap h (sw_add w) (unat (sw_add_nb w)) (sw_codes w)
      = rbind (hot_push_raw cap h (ll_extra w) (ll_width w)) (\<lambda>h.
        rbind (hot_push_raw cap h (ml_extra w) (ml_width w)) (\<lambda>h.
          hot_push_raw cap h (of_extra w) (of_width w)))"
    using False F(1,2)
    by (simp add: push_add_def ll_extra_def ml_extra_def of_extra_def ll_width_def ml_width_def of_width_def
        split: prod.split)
  then show ?thesis using h1 h2 h3 by (simp add: extra_bits_def)
qed

end
