(* ===== verification/Seq_Roundtrip.thy ===== *)
theory Seq_Roundtrip
  imports Seq_Encoder Seq_Window
begin

text \<open>
  The sequence bitstream end to end.  A \<open>channel\<close> is what one of the three streams needs: the
  encoder's table and the decoder's packed entries step back and forth between the same states.
  Built tables and single-symbol tables are channels; encoding any sequences over three channels and
  decoding the bytes returns them.
\<close>

unbundle bit_operations_syntax

section \<open>Channels\<close>

definition in_range :: "nat \<Rightarrow> nat \<Rightarrow> bool" where
  "in_range log X \<longleftrightarrow> 2 ^ log \<le> X \<and> X < 2 * 2 ^ log"

definition carries :: "(u32 \<times> nat) list \<Rightarrow> u64 \<Rightarrow> nat \<Rightarrow> bool" where
  "carries codes e s \<longleftrightarrow> s < length codes \<and> seq_entry_base e = fst (codes ! s)
     \<and> unat (entry_add_bits e) = snd (codes ! s)"

definition channel ::
  "nat \<Rightarrow> (u32 \<times> nat) list \<Rightarrow> (nat \<Rightarrow> u64) \<Rightarrow> EncTable \<Rightarrow> nat \<Rightarrow> bool" where
  "channel log codes ent t s \<longleftrightarrow> et_table_size t = 2 ^ log
     \<and> start_index t s = Ok (of_nat (start_of t s)) \<and> in_range log (start_of t s)
     \<and> carries codes (ent (start_of t s - 2 ^ log)) s
     \<and> (\<forall>X. in_range log X \<longrightarrow> (\<exists>nb em X'. step_of t s X = (nb, em, X')
          \<and> enc_step t s (of_nat X) = Ok (nb, of_nat em, of_nat X') \<and> in_range log X'
          \<and> em < 2 ^ nb \<and> nb \<le> log \<and> carries codes (ent (X' - 2 ^ log)) s
          \<and> unat (entry_nb_bits (ent (X' - 2 ^ log))) = nb
          \<and> unat (entry_next_state (ent (X' - 2 ^ log))) + em = X - 2 ^ log))"

lemma channel_step:
  assumes "channel log codes ent t s" "in_range log X"
  obtains nb em X' where "step_of t s X = (nb, em, X')"
    "enc_step t s (of_nat X) = Ok (nb, of_nat em, of_nat X')" "in_range log X'" "em < 2 ^ nb" "nb \<le> log"
    "carries codes (ent (X' - 2 ^ log)) s" "unat (entry_nb_bits (ent (X' - 2 ^ log))) = nb"
    "unat (entry_next_state (ent (X' - 2 ^ log))) + em = X - 2 ^ log"
  using assms unfolding channel_def by blast

lemma channel_start:
  assumes "channel log codes ent t s"
  shows "et_table_size t = 2 ^ log" "start_index t s = Ok (of_nat (start_of t s))"
    "in_range log (start_of t s)" "carries codes (ent (start_of t s - 2 ^ log)) s"
  using assms unfolding channel_def by blast+

section \<open>The bits of a sequence list\<close>

definition turn_bits :: "nat \<times> nat \<Rightarrow> nat \<times> nat \<Rightarrow> nat \<times> nat \<Rightarrow> bits" where
  "turn_bits f m l = word_bits (fst f) (of_nat (snd f)) @ word_bits (fst m) (of_nat (snd m))
     @ word_bits (fst l) (of_nat (snd l))"

fun seq_stream ::
  "EncTable \<Rightarrow> EncTable \<Rightarrow> EncTable \<Rightarrow> SeqWord list \<Rightarrow> bits \<times> nat \<times> nat \<times> nat" where
  "seq_stream ll ml off [] = ([], 0, 0, 0)"
| "seq_stream ll ml off [w] = (extra_bits w, start_of ll (ll_code_of (sw_codes w)),
     start_of ml (ml_code_of (sw_codes w)), start_of off (of_code_of (sw_codes w)))"
| "seq_stream ll ml off (w # ws) =
     (let (bs, xl, xm, xo) = seq_stream ll ml off ws;
          (ln, le, xl') = step_of ll (ll_code_of (sw_codes w)) xl;
          (mn, me, xm') = step_of ml (ml_code_of (sw_codes w)) xm;
          (fn, fe, xo') = step_of off (of_code_of (sw_codes w)) xo
      in (bs @ turn_bits (fn, fe) (mn, me) (ln, le) @ extra_bits w, xl', xm', xo'))"

text \<open>The assumptions on the words: packed sequences of a block, over three channels.\<close>

definition seq_codes_ok :: "(nat \<Rightarrow> bool) \<Rightarrow> (nat \<Rightarrow> bool) \<Rightarrow> (nat \<Rightarrow> bool) \<Rightarrow> SeqWord \<Rightarrow> bool" where
  "seq_codes_ok L M F w \<longleftrightarrow> L (ll_code_of (sw_codes w)) \<and> M (ml_code_of (sw_codes w)) \<and> F (of_code_of (sw_codes w))"

definition block_word :: "SeqWord \<Rightarrow> bool" where
  "block_word w \<longleftrightarrow> (\<exists>ll ml off. packs w ll ml off) \<and> unat (sw_add_nb w) \<le> 58"

section \<open>The encoder writes them\<close>

lemma small_step: "in_range log X \<Longrightarrow> log \<le> 9 \<Longrightarrow> X < 1024"
  using power_increasing [of log 9 "2::nat"] by (simp add: in_range_def)

lemma trans_word:
  fixes a b c :: u64
  assumes "take_bit k a = a" "take_bit m b = b" "take_bit n c = c" "k + m + n \<le> 64"
  shows "word_bits (k + m + n) (a OR push_bit k b OR push_bit (k + m) c)
      = word_bits k a @ word_bits m b @ word_bits n c"
    and "take_bit (k + m + n) (a OR push_bit k b OR push_bit (k + m) c) = a OR push_bit k b OR push_bit (k + m) c"
proof -
  have "k + m + n \<le> LENGTH(64)" using assms(4) by simp
  note f = fields3 [OF assms(1-3) this refl]
  show "take_bit (k + m + n) (a OR push_bit k b OR push_bit (k + m) c) = a OR push_bit k b OR push_bit (k + m) c"
    by (rule f(4))
  have "k + m + 0 \<le> LENGTH(64)" using assms(4) by simp
  from fields3(4) [OF assms(1,2) _ this refl, of 0]
  have "take_bit (k + m) (a OR push_bit k b) = a OR push_bit k b" by simp
  from word_bits_or_push [OF this, of n c] word_bits_or_push [OF assms(1), of m b] assms(4)
  show "word_bits (k + m + n) (a OR push_bit k b OR push_bit (k + m) c)
      = word_bits k a @ word_bits m b @ word_bits n c" by (simp add: or.assoc)
qed

lemma emitted_word:
  assumes "em < 2 ^ nb" "nb \<le> 9"
  shows "ucast (of_nat em :: u32) = (of_nat em :: u64)" "take_bit nb (of_nat em :: u64) = of_nat em"
    "unat (of_nat em :: u64) = em"
proof -
  have "em < 512" using assms power_increasing [of nb 9 "2::nat"] by simp
  then have em: "em < 2 ^ 32" by simp
  show "ucast (of_nat em :: u32) = (of_nat em :: u64)" by (rule ucast_u32_u64 [OF em])
  show u: "unat (of_nat em :: u64) = em" by (rule unat_u64 [OF em])
  show "take_bit nb (of_nat em :: u64) = of_nat em" by (rule unat_less_take_bit) (simp only: u assms(1))
qed

lemma encode_turn_correct:
  assumes w: "block_word w"
    and L: "channel lg LC el ll (ll_code_of (sw_codes w))" "lg \<le> 9" "in_range lg xl"
    and M: "channel mg MC em ml (ml_code_of (sw_codes w))" "mg \<le> 9" "in_range mg xm"
    and F: "channel fg FC ef off (of_code_of (sw_codes w))" "fg \<le> 8" "in_range fg xo"
    and h: "hot_ok h" "length (hot_contents h) + 152 \<le> 8 * cap"
  shows "\<exists>h' ln le xl' mn me xm' fn fe xo'.
      step_of ll (ll_code_of (sw_codes w)) xl = (ln, le, xl')
    \<and> step_of ml (ml_code_of (sw_codes w)) xm = (mn, me, xm')
    \<and> step_of off (of_code_of (sw_codes w)) xo = (fn, fe, xo')
    \<and> encode_turn cap ll ml off w (h, of_nat xl, of_nat xm, of_nat xo) = Ok (h', of_nat xl', of_nat xm', of_nat xo')
    \<and> in_range lg xl' \<and> in_range mg xm' \<and> in_range fg xo' \<and> hot_ok h'
    \<and> length (hot_contents h') \<le> length (hot_contents h) + 88
    \<and> hot_contents h' = hot_contents h @ turn_bits (fn, fe) (mn, me) (ln, le) @ extra_bits w"
proof -
  obtain vl vm vo where p: "packs w vl vm vo" using w by (auto simp: block_word_def)
  note P = packs_fields [OF p] and D = packs_decode(2) [OF p]
  have nb58: "unat (sw_add_nb w) \<le> 58" using w by (simp add: block_word_def)
  obtain ln le xl' where l: "step_of ll (ll_code_of (sw_codes w)) xl = (ln, le, xl')"
    "enc_step ll (ll_code_of (sw_codes w)) (of_nat xl) = Ok (ln, of_nat le, of_nat xl')"
    "in_range lg xl'" "le < 2 ^ ln" "ln \<le> lg"
    by (rule channel_step [OF L(1,3)])
  obtain mn me xm' where m: "step_of ml (ml_code_of (sw_codes w)) xm = (mn, me, xm')"
    "enc_step ml (ml_code_of (sw_codes w)) (of_nat xm) = Ok (mn, of_nat me, of_nat xm')"
    "in_range mg xm'" "me < 2 ^ mn" "mn \<le> mg"
    by (rule channel_step [OF M(1,3)])
  obtain fn fe xo' where f: "step_of off (of_code_of (sw_codes w)) xo = (fn, fe, xo')"
    "enc_step off (of_code_of (sw_codes w)) (of_nat xo) = Ok (fn, of_nat fe, of_nat xo')"
    "in_range fg xo'" "fe < 2 ^ fn" "fn \<le> fg"
    by (rule channel_step [OF F(1,3)])
  have nbs: "ln \<le> 9" "mn \<le> 9" "fn \<le> 9" "fn + mn + ln \<le> 26" using l(5) m(5) f(5) L(2) M(2) F(2) by linarith+
  note el = emitted_word [OF l(4) nbs(1)] and em = emitted_word [OF m(4) nbs(2)]
    and ef = emitted_word [OF f(4) nbs(3)]
  define trans :: u64 where "trans = of_nat fe OR push_bit fn (of_nat me) OR push_bit (fn + mn) (of_nat le)"
  have "fn + mn + ln \<le> 64" using nbs(4) by simp
  note T = trans_word [OF ef(2) em(2) el(2) this, folded trans_def]
  have tb: "word_bits (fn + mn + ln) trans = turn_bits (fn, fe) (mn, me) (ln, le)"
    unfolding T(1) by (simp add: turn_bits_def)
  define push where "push = (if fn + mn + ln + unat (sw_add_nb w) \<le> 56
      then hot_push_raw cap h (trans OR push_bit (fn + mn + ln) (sw_add w)) (fn + mn + ln + unat (sw_add_nb w))
      else rbind (hot_push_raw cap h trans (fn + mn + ln)) (\<lambda>h. push_add cap h (sw_add w) (unat (sw_add_nb w)) (sw_codes w)))"
  have "\<exists>h'. push = Ok h' \<and> hot_ok h' \<and> hot_contents h'
      = hot_contents h @ turn_bits (fn, fe) (mn, me) (ln, le) @ extra_bits w"
  proof (cases "fn + mn + ln + unat (sw_add_nb w) \<le> 56")
    case True
    have s: "fn + mn + ln + unat (sw_add_nb w) + 0 \<le> LENGTH(64)" using True by simp
    have "take_bit (fn + mn + ln + unat (sw_add_nb w)) (trans OR push_bit (fn + mn + ln) (sw_add w))
        = trans OR push_bit (fn + mn + ln) (sw_add w)"
      using fields3(4) [OF T(2) D _ s refl, of 0] by simp
    moreover have "word_bits (fn + mn + ln + unat (sw_add_nb w)) (trans OR push_bit (fn + mn + ln) (sw_add w))
        = turn_bits (fn, fe) (mn, me) (ln, le) @ extra_bits w"
      using word_bits_or_push [OF T(2), of "unat (sw_add_nb w)" "sw_add w"] True P(13) tb by simp
    ultimately show ?thesis
      using hot_push_raw_correct [OF h(1) True, of "trans OR push_bit (fn + mn + ln) (sw_add w)" cap] True h(2)
      by (auto simp: push_def)
  next
    case False
    obtain h1 where h1: "hot_push_raw cap h trans (fn + mn + ln) = Ok h1" "hot_ok h1"
      "hot_contents h1 = hot_contents h @ turn_bits (fn, fe) (mn, me) (ln, le)"
      using hot_push_raw_correct [OF h(1) _ T(2), of cap] nbs(4) h(2) tb by auto
    have "length (turn_bits (fn, fe) (mn, me) (ln, le)) = fn + mn + ln" by (simp add: turn_bits_def)
    then have "length (hot_contents h1) + 96 \<le> 8 * cap" using h1(3) h(2) nbs(4) by simp
    from push_add_correct [OF p h1(2) this] h1(1,3) False show ?thesis by (auto simp: push_def)
  qed
  then obtain h' where h': "push = Ok h'" "hot_ok h'"
    "hot_contents h' = hot_contents h @ turn_bits (fn, fe) (mn, me) (ln, le) @ extra_bits w" by blast
  have sz: "et_table_size ll = 2 ^ lg" "et_table_size ml = 2 ^ mg" "et_table_size off = 2 ^ fg"
    using channel_start(1) L(1) M(1) F(1) by blast+
  have "xl < 2 ^ 32" "xm < 2 ^ 32" "xo < 2 ^ 32"
    using small_step [OF L(3,2)] small_step [OF M(3,2)] small_step [OF F(3)] F(2) by simp_all
  then have "unat (of_nat xl :: u32) < 2 * 2 ^ lg" "unat (of_nat xm :: u32) < 2 * 2 ^ mg"
    "unat (of_nat xo :: u32) < 2 * 2 ^ fg"
    using L(3) M(3) F(3) by (simp_all only: unat_u32 in_range_def)
  then have run: "encode_turn cap ll ml off w (h, of_nat xl, of_nat xm, of_nat xo)
      = rbind push (\<lambda>h. Ok (h, of_nat xl', of_nat xm', of_nat xo'))"
    by (simp add: encode_turn_def sz l(2) m(2) f(2) el(1) em(1) ef(1) Let_def push_def flip: trans_def)
  have "length (extra_bits w) \<le> 58" using nb58 P(6) by (simp add: extra_bits_def)
  then have "length (hot_contents h') \<le> length (hot_contents h) + 88"
    using h'(3) nbs(4) by (simp add: turn_bits_def)
  then show ?thesis using l(1,3) m(1,3) f(1,3) run h' by auto
qed

lemma seq_stream_Cons:
  "S \<noteq> [] \<Longrightarrow> seq_stream ll ml off S = (bs, xl, xm, xo)
    \<Longrightarrow> step_of ll (ll_code_of (sw_codes w)) xl = (ln, le, xl')
    \<Longrightarrow> step_of ml (ml_code_of (sw_codes w)) xm = (mn, me, xm')
    \<Longrightarrow> step_of off (of_code_of (sw_codes w)) xo = (fn, fe, xo')
    \<Longrightarrow> seq_stream ll ml off (w # S)
        = (bs @ turn_bits (fn, fe) (mn, me) (ln, le) @ extra_bits w, xl', xm', xo')"
  by (cases S) simp_all

text \<open>Three channels carry a word.\<close>

type_synonym chan = "nat \<times> (u32 \<times> nat) list \<times> (nat \<Rightarrow> u64) \<times> EncTable"

definition chan_ok :: "chan \<Rightarrow> nat \<Rightarrow> bool" where
  "chan_ok c s = (case c of (log, codes, ent, t) \<Rightarrow> channel log codes ent t s)"

definition word_on :: "chan \<Rightarrow> chan \<Rightarrow> chan \<Rightarrow> SeqWord \<Rightarrow> bool" where
  "word_on L M F w \<longleftrightarrow> block_word w \<and> chan_ok L (ll_code_of (sw_codes w))
     \<and> chan_ok M (ml_code_of (sw_codes w)) \<and> chan_ok F (of_code_of (sw_codes w))"

lemma encode_turns_correct:
  assumes logs: "lg \<le> 9" "mg \<le> 9" "fg \<le> 8"
    and "list_all (word_on (lg, LC, el, ll) (mg, MC, em, ml) (fg, FC, ef, off)) ws" "S \<noteq> []"
    and "seq_stream ll ml off S = (bs, xl, xm, xo)" "in_range lg xl" "in_range mg xm" "in_range fg xo"
    and "hot_ok h" "hot_contents h = base @ bs" "length (hot_contents h) + 88 * length ws + 64 \<le> 8 * cap"
  shows "\<exists>h' bs' xl' xm' xo'. seq_stream ll ml off (rev ws @ S) = (bs', xl', xm', xo')
    \<and> encode_turns cap ll ml off ws (h, of_nat xl, of_nat xm, of_nat xo) = Ok (h', of_nat xl', of_nat xm', of_nat xo')
    \<and> in_range lg xl' \<and> in_range mg xm' \<and> in_range fg xo' \<and> hot_ok h' \<and> hot_contents h' = base @ bs'"
  using assms(4-)
proof (induction ws arbitrary: S bs xl xm xo h)
  case Nil
  then show ?case by simp
next
  case (Cons w ws)
  have w: "block_word w" "channel lg LC el ll (ll_code_of (sw_codes w))"
    "channel mg MC em ml (ml_code_of (sw_codes w))" "channel fg FC ef off (of_code_of (sw_codes w))"
    using Cons.prems(1) by (simp_all add: word_on_def chan_ok_def)
  have cap: "length (hot_contents h) + 152 \<le> 8 * cap" using Cons.prems(9) by simp
  obtain h' ln le xl' mn me xm' fn fe xo' where st:
    "step_of ll (ll_code_of (sw_codes w)) xl = (ln, le, xl')"
    "step_of ml (ml_code_of (sw_codes w)) xm = (mn, me, xm')"
    "step_of off (of_code_of (sw_codes w)) xo = (fn, fe, xo')"
    and run: "encode_turn cap ll ml off w (h, of_nat xl, of_nat xm, of_nat xo) = Ok (h', of_nat xl', of_nat xm', of_nat xo')"
    and r: "in_range lg xl'" "in_range mg xm'" "in_range fg xo'" "hot_ok h'"
    and h': "length (hot_contents h') \<le> length (hot_contents h) + 88"
      "hot_contents h' = hot_contents h @ turn_bits (fn, fe) (mn, me) (ln, le) @ extra_bits w"
    using encode_turn_correct [OF w(1,2) logs(1) Cons.prems(4) w(3) logs(2) Cons.prems(5) w(4) logs(3) Cons.prems(6,7) cap]
    by blast
  have s: "seq_stream ll ml off (w # S) = (bs @ turn_bits (fn, fe) (mn, me) (ln, le) @ extra_bits w, xl', xm', xo')"
    by (rule seq_stream_Cons [OF Cons.prems(2,3) st])
  have "list_all (word_on (lg, LC, el, ll) (mg, MC, em, ml) (fg, FC, ef, off)) ws" "w # S \<noteq> []"
    using Cons.prems(1) by simp_all
  moreover have "hot_contents h' = base @ bs @ turn_bits (fn, fe) (mn, me) (ln, le) @ extra_bits w"
    using h'(2) Cons.prems(8) by simp
  moreover have "length (hot_contents h') + 88 * length ws + 64 \<le> 8 * cap"
    using h'(1) Cons.prems(9) by simp
  ultimately show ?case using Cons.IH [OF _ _ s r] run by fastforce
qed

text \<open>The whole encoder: the stream of the words, the three states and the end marker.\<close>

definition state_bits :: "nat \<Rightarrow> nat \<Rightarrow> bits" where
  "state_bits log X = word_bits log (of_nat (X - 2 ^ log))"

lemma put_state:
  assumes "bw_inv w" "in_range log X" "log \<le> 9"
  shows "\<exists>w'. bw_write_bits w (ucast (of_nat X AND (push_bit log 1 - 1) :: u32)) log = Ok w' \<and> bw_inv w'
    \<and> bw_bits w' = bw_bits w @ state_bits log X"
proof -
  have X: "2 ^ log \<le> X" "X < 2 * 2 ^ log" "log \<le> 12" using assms(2,3) by (simp_all add: in_range_def)
  note u = unbias_state [OF X]
  have "X - 2 ^ log < 2 ^ log" "log < 64" using X by simp_all
  then show ?thesis
    using bw_write_bits_64_correct [OF assms(1), of log "of_nat (X - 2 ^ log)"]
    unfolding bw_write_bits_def u(1) state_bits_def by (simp add: u(2))
qed

lemma encode_sequences_correct:
  assumes logs: "lg \<le> 9" "mg \<le> 9" "fg \<le> 8"
    and ws: "list_all (word_on (lg, LC, el, ll) (mg, MC, em, ml) (fg, FC, ef, off)) ws" "ws \<noteq> []"
    and w: "bw_inv w"
  shows "\<exists>w' bs xl xm xo z. encode_sequences (length ws) ws w ll ml off = Ok w' \<and> bw_inv w'
    \<and> seq_stream ll ml off ws = (bs, xl, xm, xo) \<and> in_range lg xl \<and> in_range mg xm \<and> in_range fg xo \<and> z < 8
    \<and> bw_bits w' = bw_bits w @ (bs @ state_bits mg xm @ state_bits fg xo @ state_bits lg xl) @ True # replicate z False
    \<and> length (bw_bits w') mod 8 = 0"
proof -
  let ?n = "length ws" and ?l = "last ws"
  define cap where "cap = length (bw_output w) + (?n * 11 + 32)"
  define h0 where "h0 = \<lparr>hot_acc = bw_partial w, hot_bits = bw_bits_in_partial w, hot_buf = bw_output w\<rparr>"
  have n: "0 < ?n" "ws ! (?n - 1) = ?l" "take (?n - 1) ws = butlast ws" "ws = butlast ws @ [?l]"
    using ws(2) append_butlast_last_id [OF ws(2), symmetric]
    by (simp_all only: length_greater_0_conv) (simp_all add: last_conv_nth butlast_conv_take)
  have h0: "hot_ok h0" "hot_contents h0 = bw_bits w" "take (bw_bit_idx w div 8) (bw_output w) = bw_output w"
    using w by (simp_all add: hot_ok_def hot_contents_def h0_def bw_inv_def bw_bits_def)
  have "length (bw_bits w) < 8 * length (bw_output w) + 64" using w by (simp add: bw_inv_def bw_bits_def)
  then have room: "length (hot_contents h0) + 88 * ?n + 96 \<le> 8 * cap" by (simp add: h0(2) cap_def)
  have l: "word_on (lg, LC, el, ll) (mg, MC, em, ml) (fg, FC, ef, off) ?l"
    and bl: "list_all (word_on (lg, LC, el, ll) (mg, MC, em, ml) (fg, FC, ef, off)) (rev (butlast ws))"
    using ws by (auto simp: list_all_iff dest: in_set_butlastD)
  then obtain vl vm vo where p: "packs ?l vl vm vo" "unat (sw_add_nb ?l) \<le> 58"
    by (auto simp: word_on_def block_word_def)
  have "length (hot_contents h0) + 96 \<le> 8 * cap" using room by simp
  from push_add_correct [OF p(1) h0(1) this]
  obtain h1 where h1: "push_add cap h0 (sw_add ?l) (unat (sw_add_nb ?l)) (sw_codes ?l) = Ok h1" "hot_ok h1"
    "hot_contents h1 = bw_bits w @ extra_bits ?l" unfolding h0(2) by blast
  have st: "start_index ll (ll_code_of (sw_codes ?l)) = Ok (of_nat (start_of ll (ll_code_of (sw_codes ?l))))"
      "start_index ml (ml_code_of (sw_codes ?l)) = Ok (of_nat (start_of ml (ml_code_of (sw_codes ?l))))"
      "start_index off (of_code_of (sw_codes ?l)) = Ok (of_nat (start_of off (of_code_of (sw_codes ?l))))"
    and r: "in_range lg (start_of ll (ll_code_of (sw_codes ?l)))" "in_range mg (start_of ml (ml_code_of (sw_codes ?l)))"
      "in_range fg (start_of off (of_code_of (sw_codes ?l)))"
    and sz: "ilog2 (et_table_size ll) = lg" "ilog2 (et_table_size ml) = mg" "ilog2 (et_table_size off) = fg"
    using l by (auto simp: word_on_def chan_ok_def channel_def)
  have "length (extra_bits ?l) = unat (sw_add_nb ?l)" using packs_fields(6) [OF p(1)] by (simp add: extra_bits_def)
  then have cap1: "length (hot_contents h1) + 88 * length (rev (butlast ws)) + 64 \<le> 8 * cap"
    using room h1(3) p(2) h0(2) n(1) by (cases ws rule: rev_cases) simp_all
  obtain h2 bs xl xm xo where t: "seq_stream ll ml off (rev (rev (butlast ws)) @ [?l]) = (bs, xl, xm, xo)"
    "encode_turns cap ll ml off (rev (butlast ws)) (h1, of_nat (start_of ll (ll_code_of (sw_codes ?l))),
        of_nat (start_of ml (ml_code_of (sw_codes ?l))), of_nat (start_of off (of_code_of (sw_codes ?l))))
      = Ok (h2, of_nat xl, of_nat xm, of_nat xo)"
    "in_range lg xl" "in_range mg xm" "in_range fg xo" "hot_ok h2" "hot_contents h2 = bw_bits w @ bs"
    using encode_turns_correct [OF logs bl _ seq_stream.simps(2) r h1(2,3) cap1] by auto
  define w1 where "w1 = w\<lparr>bw_output := hot_buf h2, bw_partial := hot_acc h2, bw_bits_in_partial := hot_bits h2,
    bw_bit_idx := length (hot_buf h2) * 8\<rparr>"
  have w1: "bw_set_hot_state w (hot_acc h2) (hot_bits h2) (length (hot_buf h2)) (hot_buf h2) = Ok w1"
    "bw_inv w1" "bw_bits w1 = bw_bits w @ bs"
    using t(6,7) by (simp_all add: bw_set_hot_state_def w1_def bw_inv_def bw_bits_def hot_ok_def hot_contents_def)
  obtain w2 where w2: "bw_write_bits w1 (ucast (of_nat xm AND (push_bit mg 1 - 1) :: u32)) mg = Ok w2" "bw_inv w2"
    "bw_bits w2 = bw_bits w1 @ state_bits mg xm" using put_state [OF w1(2) t(4) logs(2)] by blast
  obtain w3 where w3: "bw_write_bits w2 (ucast (of_nat xo AND (push_bit fg 1 - 1) :: u32)) fg = Ok w3" "bw_inv w3"
    "bw_bits w3 = bw_bits w2 @ state_bits fg xo" using put_state [OF w2(2) t(5)] logs(3) by auto
  obtain w4 where w4: "bw_write_bits w3 (ucast (of_nat xl AND (push_bit lg 1 - 1) :: u32)) lg = Ok w4" "bw_inv w4"
    "bw_bits w4 = bw_bits w3 @ state_bits lg xl" using put_state [OF w3(2) t(3) logs(1)] by blast
  obtain w5 z where w5: "write_end_marker w4 = Ok w5" "bw_inv w5" "z < 8"
    "bw_bits w5 = bw_bits w4 @ True # replicate z False" "length (bw_bits w5) mod 8 = 0"
    by (rule write_end_marker_correct [OF w4(2)])
  have "encode_sequences ?n ws w ll ml off = Ok w5"
    using n h1(1) t(2) w1(1) w2(1) w3(1) w4(1) w5(1) h0(3)
    by (simp add: encode_sequences_def bw_hot_state_def st sz Let_def flip: cap_def h0_def)
  moreover have "seq_stream ll ml off ws = (bs, xl, xm, xo)" using t(1) n(4) by simp
  ultimately show ?thesis using t(3-5) w1(3) w2(3) w3(3) w4(3) w5(2-) by auto
qed

section \<open>The decoder reads them\<close>

lemma bit_low_mask64: "bit (low_mask n) i \<longleftrightarrow> i < n \<and> i < 64"
  by (simp add: low_mask_def)

lemma field_of_read:
  assumes "take_bit n v = bits_word (a @ f @ b)" "length a + length f + length b = n" "n \<le> 64"
  shows "drop_bit (length a) v AND low_mask (length f) = bits_word f"
proof (rule bit_word_eqI)
  fix i assume "i < LENGTH(64)"
  have "bit v j = bit (bits_word (a @ f @ b)) j" if "j < n" for j
    using assms(1) that by (metis bit_take_bit_iff)
  then show "bit (drop_bit (length a) v AND low_mask (length f)) i = bit (bits_word f) i"
    using assms(2,3) by (auto simp: bit_and_iff bit_drop_bit_eq bit_low_mask64 bit_bits_word nth_append)
qed

lemma masked_read:
  assumes "take_bit n v = bits_word f" "length f = n" "n \<le> 64"
  shows "v AND low_mask n = bits_word f"
  using field_of_read [of n v "[]" f "[]"] assms by simp

lemma read_fields_at:
  assumes at: "win_at src w (bs @ fl @ fm @ fo) 57"
    and n: "length fl = ln" "length fm = mn" "length fo = fn" "ln \<le> 16" "mn \<le> 16" "fn \<le> 31"
  shows "\<exists>w'. read_fields src w ln mn fn = Ok ((bits_word fo, bits_word fm, bits_word fl), w') \<and> win_at src w' bs 26"
proof (cases "ln + mn + fn \<le> 31")
  case True
  obtain v w' where r: "win_read w (ln + mn + fn) = (Ok (v, w') :: (DecodeSequenceError, _) res)"
    "win_at src w' bs (57 - (ln + mn + fn))" "take_bit (ln + mn + fn) v = bits_word (fl @ fm @ fo)"
    using win_read_at [OF at, of "ln + mn + fn"] n True by auto
  have "v AND low_mask ln = bits_word fl" "drop_bit ln v AND low_mask mn = bits_word fm"
    "drop_bit (mn + ln) v AND low_mask fn = bits_word fo"
    using field_of_read [of "ln + mn + fn" v "[]" fl "fm @ fo"] field_of_read [of "ln + mn + fn" v fl fm fo]
      field_of_read [of "ln + mn + fn" v "fl @ fm" fo "[]"] r(3) True n by (simp_all add: add_ac)
  moreover have "win_at src w' bs 26" using r(2) True by (auto intro: win_at_weaken)
  ultimately show ?thesis using r(1) True by (simp add: read_fields_def)
next
  case False
  obtain v1 w1 where r1: "win_read w fn = (Ok (v1, w1) :: (DecodeSequenceError, _) res)"
    "win_at src w1 (bs @ fl @ fm) (57 - fn)" "take_bit fn v1 = bits_word fo"
    using win_read_at [of src w "bs @ fl @ fm" fo 57 fn] at n by auto
  obtain v2 w2 where r2: "win_read w1 mn = (Ok (v2, w2) :: (DecodeSequenceError, _) res)"
    "win_at src w2 (bs @ fl) (57 - fn - mn)" "take_bit mn v2 = bits_word fm"
  proof -
    have "mn \<le> 57 - fn" using n(5,6) by linarith
    moreover have "win_at src w1 ((bs @ fl) @ fm) (57 - fn)" using r1(2) by simp
    ultimately show ?thesis using that win_read_at [of src w1 "bs @ fl" fm "57 - fn" mn] n(2,5) by auto
  qed
  obtain st w3 where r3: "reload src w2 = (Ok (st, w3) :: (DecodeSequenceError, _) res)" "st \<noteq> Overflow"
    "win_at src w3 (bs @ fl) 57"
    using reload_at [OF r2(2)] by blast
  obtain v4 w4 where r4: "win_read w3 ln = (Ok (v4, w4) :: (DecodeSequenceError, _) res)"
    "win_at src w4 bs (57 - ln)" "take_bit ln v4 = bits_word fl"
    using win_read_at [OF r3(3)] n by auto
  have "win_at src w4 bs 26" using r4(2) n(4) by (auto intro: win_at_weaken)
  moreover have "v1 AND low_mask fn = bits_word fo" "v2 AND low_mask mn = bits_word fm" "v4 AND low_mask ln = bits_word fl"
    using masked_read r1(3) r2(3) r4(3) n by auto
  ultimately show ?thesis using r1(1) r2(1) r3(1,2) r4(1) False by (simp add: read_fields_def)
qed

lemma checked_add_field: "unat v = unat b + unat x \<Longrightarrow> checked_add32 b (ucast (x :: u64)) = Ok v"
proof -
  assume v: "unat v = unat b + unat x"
  have "unat v < 2 ^ 32" using unsigned_less [of v, where 'a = nat] by simp
  then have "unat (ucast x :: u32) = unat x"
    using v by (simp add: unsigned_ucast_eq take_bit_nat_eq_self)
  then show ?thesis
    using v \<open>unat v < 2 ^ 32\<close> by (simp add: checked_add32_def word_unat_eq_iff unat_word_ariths)
qed

lemma bits_word_field: "unat x < 2 ^ n \<Longrightarrow> n \<le> 64 \<Longrightarrow> bits_word (word_bits n x) = x"
  by (simp add: bits_word_word_bits unat_less_take_bit)

lemma LL_CODES_META: "LL_CODES = LL_META"
  by (simp add: LL_CODES_def LL_META_eq)

lemma ML_CODES_META: "ML_CODES = ML_META"
  by (simp add: ML_CODES_def ML_META_eq)

lemma OF_CODES_nth: "c < 32 \<Longrightarrow> OF_CODES ! c = (push_bit c 1, c)" "length OF_CODES = 32"
  by (simp_all add: OF_CODES_def del: push_bit_of_1)

lemma read_transitions_at:
  assumes at: "win_at src w (bs @ turn_bits (fn, fe) (mn, me) (ln, le)) 26"
    and nb: "unat (entry_nb_bits el) = ln" "unat (entry_nb_bits em) = mn" "unat (entry_nb_bits ef) = fn"
      "ln + mn + fn \<le> 26"
    and v: "le < 2 ^ ln" "me < 2 ^ mn" "fe < 2 ^ fn"
    and st: "unat (entry_next_state el) + le = yl" "unat (entry_next_state em) + me = ym"
      "unat (entry_next_state ef) + fe = yf" "yl < 1024" "ym < 1024" "yf < 1024"
  shows "\<exists>w'. read_transitions w el em ef = Ok ((of_nat yl, of_nat ym, of_nat yf), w') \<and> win_at src w' bs 0"
proof -
  let ?fo = "word_bits fn (of_nat fe)" and ?fm = "word_bits mn (of_nat me)" and ?fl = "word_bits ln (of_nat le)"
  have "win_at src w (bs @ (?fo @ ?fm @ ?fl)) 26" using at by (simp add: turn_bits_def)
  then obtain r w' where r: "win_read w (ln + mn + fn) = (Ok (r, w') :: (DecodeSequenceError, _) res)"
    "win_at src w' bs (26 - (ln + mn + fn))" "take_bit (ln + mn + fn) r = bits_word (?fo @ ?fm @ ?fl)"
    using win_read_at [of src w bs "?fo @ ?fm @ ?fl" 26 "ln + mn + fn"] nb(4) by auto
  have small: "unat (of_nat x :: u64) = x" "unat (of_nat x :: u32) = x" if "x < 1024" for x
    using that by (simp_all add: unat_of_nat take_bit_nat_eq_self)
  have e: "le < 1024" "me < 1024" "fe < 1024" using st by linarith+
  have n: "ln \<le> 64" "mn \<le> 64" "fn \<le> 64" using nb(4) by simp_all
  have val: "bits_word ?fl = of_nat le" "bits_word ?fm = of_nat me" "bits_word ?fo = of_nat fe"
    using n v e by (auto intro!: bits_word_field simp: small)
  have "r AND low_mask fn = bits_word ?fo" "drop_bit fn r AND low_mask mn = bits_word ?fm"
    "drop_bit (mn + fn) r AND low_mask ln = bits_word ?fl"
    using field_of_read [of "ln + mn + fn" r "[]" ?fo "?fm @ ?fl"] field_of_read [of "ln + mn + fn" r ?fo ?fm ?fl]
      field_of_read [of "ln + mn + fn" r "?fo @ ?fm" ?fl "[]"] r(3) nb(4) by (simp_all add: add_ac)
  moreover have "checked_add32 (entry_next_state el) (ucast (of_nat le :: u64)) = (Ok (of_nat yl) :: (DecodeSequenceError, _) res)"
    "checked_add32 (entry_next_state em) (ucast (of_nat me :: u64)) = (Ok (of_nat ym) :: (DecodeSequenceError, _) res)"
    "checked_add32 (entry_next_state ef) (ucast (of_nat fe :: u64)) = (Ok (of_nat yf) :: (DecodeSequenceError, _) res)"
    using st e by (auto intro!: checked_add_field simp only: small)
  ultimately have "read_transitions w el em ef = Ok ((of_nat yl, of_nat ym, of_nat yf), w')"
    using r(1) by (simp add: read_transitions_def nb(1-3) val)
  moreover have "win_at src w' bs 0" using r(2) by (auto intro: win_at_weaken)
  ultimately show ?thesis by blast
qed

text \<open>The packed tables at their slots, and the decoder's states for the encoder's.\<close>

definition slot_is :: "u64 list \<Rightarrow> nat \<Rightarrow> nat \<Rightarrow> (nat \<Rightarrow> u64) \<Rightarrow> bool" where
  "slot_is tbl lo log ent \<longleftrightarrow> (\<forall>i < 2 ^ log. lo + i < length tbl \<and> tbl ! (lo + i) = ent i)"

definition seq_of :: "SeqWord \<Rightarrow> Sequence \<Rightarrow> bool" where
  "seq_of w s \<longleftrightarrow> packs w (sq_ll s) (sq_ml s) (sq_of s)"

lemma word_entries:
  assumes p: "seq_of w s" and at: "win_at src win (bs @ extra_bits w) 57"
    and c: "carries LL_CODES el (ll_code_of (sw_codes w))" "carries ML_CODES em (ml_code_of (sw_codes w))"
      "carries OF_CODES ef (of_code_of (sw_codes w))"
  shows "\<exists>w'. read_fields src win (unat (entry_add_bits el)) (unat (entry_add_bits em)) (unat (entry_add_bits ef))
      = Ok ((of_extra w, ml_extra w, ll_extra w), w') \<and> win_at src w' bs 26"
    and "checked_add32 (seq_entry_base el) (ucast (ll_extra w)) = Ok (sq_ll s)"
    and "checked_add32 (seq_entry_base em) (ucast (ml_extra w)) = Ok (sq_ml s)"
    and "checked_add32 (seq_entry_base ef) (ucast (of_extra w)) = Ok (sq_of s)"
proof -
  note P = packs_fields [OF p [unfolded seq_of_def]]
  have oc: "of_code_of (sw_codes w) < 32" "OF_CODES ! of_code_of (sw_codes w) = (push_bit (of_width w) 1, of_width w)"
    using P(3) OF_CODES_nth(1) [of "of_code_of (sw_codes w)"] by (simp_all add: of_width_def del: push_bit_of_1)
  have n: "unat (entry_add_bits el) = ll_width w" "unat (entry_add_bits em) = ml_width w"
    "unat (entry_add_bits ef) = of_width w"
    using c oc(2) by (simp_all add: carries_def LL_CODES_META ML_CODES_META ll_width_def ml_width_def)
  have v: "bits_word (word_bits (ll_width w) (ll_extra w)) = ll_extra w"
    "bits_word (word_bits (ml_width w) (ml_extra w)) = ml_extra w"
    "bits_word (word_bits (of_width w) (of_extra w)) = of_extra w"
    using P by (auto intro!: bits_word_field)
  show "\<exists>w'. read_fields src win (unat (entry_add_bits el)) (unat (entry_add_bits em)) (unat (entry_add_bits ef))
      = Ok ((of_extra w, ml_extra w, ll_extra w), w') \<and> win_at src w' bs 26"
    unfolding n using read_fields_at [OF at [unfolded extra_bits_def], of "ll_width w" "ml_width w" "of_width w"]
      P(3-5) by (simp add: v)
  show "checked_add32 (seq_entry_base el) (ucast (ll_extra w)) = Ok (sq_ll s)"
    "checked_add32 (seq_entry_base em) (ucast (ml_extra w)) = Ok (sq_ml s)"
    using c P(7,8) by (auto intro!: checked_add_field simp: carries_def LL_CODES_META ML_CODES_META)
  have "unat (push_bit (of_width w) 1 :: u32) = 2 ^ of_width w"
  proof -
    have "(2::nat) ^ of_width w < 2 ^ 32" using P(3) by (intro power_strict_increasing) simp_all
    then have "unat (of_nat (2 ^ of_width w) :: u32) = 2 ^ of_width w" by (simp only: unat_u32)
    then show ?thesis by simp
  qed
  then show "checked_add32 (seq_entry_base ef) (ucast (of_extra w)) = Ok (sq_of s)"
    using c P(9) oc(2) by (auto intro!: checked_add_field simp: carries_def simp del: push_bit_of_1)
qed

text \<open>One decoding step on the last word, and on a word before others.\<close>

lemma stream_head:
  assumes "list_all (word_on (lg, LC, el, ll) (mg, MC, em, ml) (fg, FC, ef, off)) (w # ws)"
    and "seq_stream ll ml off (w # ws) = (bs, xl, xm, xo)"
  shows "in_range lg xl \<and> in_range mg xm \<and> in_range fg xo
    \<and> carries LC (el (xl - 2 ^ lg)) (ll_code_of (sw_codes w))
    \<and> carries MC (em (xm - 2 ^ mg)) (ml_code_of (sw_codes w))
    \<and> carries FC (ef (xo - 2 ^ fg)) (of_code_of (sw_codes w))
    \<and> (ws = [] \<and> bs = extra_bits w \<or>
       (\<exists>bs0 yl ym yo ln le mn me fn fe. ws \<noteq> [] \<and> seq_stream ll ml off ws = (bs0, yl, ym, yo)
          \<and> in_range lg yl \<and> in_range mg ym \<and> in_range fg yo
          \<and> bs = bs0 @ turn_bits (fn, fe) (mn, me) (ln, le) @ extra_bits w
          \<and> le < 2 ^ ln \<and> ln \<le> lg \<and> unat (entry_nb_bits (el (xl - 2 ^ lg))) = ln
          \<and> unat (entry_next_state (el (xl - 2 ^ lg))) + le = yl - 2 ^ lg
          \<and> me < 2 ^ mn \<and> mn \<le> mg \<and> unat (entry_nb_bits (em (xm - 2 ^ mg))) = mn
          \<and> unat (entry_next_state (em (xm - 2 ^ mg))) + me = ym - 2 ^ mg
          \<and> fe < 2 ^ fn \<and> fn \<le> fg \<and> unat (entry_nb_bits (ef (xo - 2 ^ fg))) = fn
          \<and> unat (entry_next_state (ef (xo - 2 ^ fg))) + fe = yo - 2 ^ fg))"
  using assms
proof (induction ws arbitrary: w bs xl xm xo)
  case Nil
  then show ?case
    using channel_start(3,4) [of lg LC el ll "ll_code_of (sw_codes w)"]
      channel_start(3,4) [of mg MC em ml "ml_code_of (sw_codes w)"]
      channel_start(3,4) [of fg FC ef off "of_code_of (sw_codes w)"]
    by (simp add: word_on_def chan_ok_def)
next
  case (Cons v ws)
  obtain bs0 yl ym yo where s: "seq_stream ll ml off (v # ws) = (bs0, yl, ym, yo)" by (metis prod_cases4)
  have r: "in_range lg yl" "in_range mg ym" "in_range fg yo"
    using Cons.IH [OF _ s] Cons.prems(1) by simp_all
  have c: "channel lg LC el ll (ll_code_of (sw_codes w))" "channel mg MC em ml (ml_code_of (sw_codes w))"
    "channel fg FC ef off (of_code_of (sw_codes w))"
    using Cons.prems(1) by (simp_all add: word_on_def chan_ok_def)
  obtain ln le xl' where l: "step_of ll (ll_code_of (sw_codes w)) yl = (ln, le, xl')" "in_range lg xl'"
    "le < 2 ^ ln" "ln \<le> lg" "carries LC (el (xl' - 2 ^ lg)) (ll_code_of (sw_codes w))"
    "unat (entry_nb_bits (el (xl' - 2 ^ lg))) = ln" "unat (entry_next_state (el (xl' - 2 ^ lg))) + le = yl - 2 ^ lg"
    by (rule channel_step [OF c(1) r(1)])
  obtain mn me xm' where m: "step_of ml (ml_code_of (sw_codes w)) ym = (mn, me, xm')" "in_range mg xm'"
    "me < 2 ^ mn" "mn \<le> mg" "carries MC (em (xm' - 2 ^ mg)) (ml_code_of (sw_codes w))"
    "unat (entry_nb_bits (em (xm' - 2 ^ mg))) = mn" "unat (entry_next_state (em (xm' - 2 ^ mg))) + me = ym - 2 ^ mg"
    by (rule channel_step [OF c(2) r(2)])
  obtain fn fe xo' where f: "step_of off (of_code_of (sw_codes w)) yo = (fn, fe, xo')" "in_range fg xo'"
    "fe < 2 ^ fn" "fn \<le> fg" "carries FC (ef (xo' - 2 ^ fg)) (of_code_of (sw_codes w))"
    "unat (entry_nb_bits (ef (xo' - 2 ^ fg))) = fn" "unat (entry_next_state (ef (xo' - 2 ^ fg))) + fe = yo - 2 ^ fg"
    by (rule channel_step [OF c(3) r(3)])
  have "seq_stream ll ml off (w # v # ws)
      = (bs0 @ turn_bits (fn, fe) (mn, me) (ln, le) @ extra_bits w, xl', xm', xo')"
    by (rule seq_stream_Cons [OF _ s l(1) m(1) f(1)]) simp
  then have e: "bs = bs0 @ turn_bits (fn, fe) (mn, me) (ln, le) @ extra_bits w" "xl = xl'" "xm = xm'" "xo = xo'"
    using Cons.prems(2) by simp_all
  show ?case using s r l m f by (auto simp: e)
qed

lemma slot_index:
  assumes "slot_is tbl lo log ent" "in_range log X" "log \<le> 9"
  shows "rindex tbl (lo + unat (of_nat (X - 2 ^ log) :: u32)) = Ok (ent (X - 2 ^ log))"
proof -
  have "X - 2 ^ log < 2 ^ log" using assms(2) by (auto simp: in_range_def)
  moreover have "X - 2 ^ log < 2 ^ 32" using small_step [OF assms(2,3)] by simp
  ultimately show ?thesis using assms(1) unfolding slot_is_def by (simp add: unat_u32)
qed

definition decoder_at :: "nat \<Rightarrow> nat \<Rightarrow> nat \<Rightarrow> u64 list \<Rightarrow> bytes \<Rightarrow> window \<Rightarrow> nat \<Rightarrow> nat \<Rightarrow> nat \<Rightarrow> nat \<Rightarrow> SeqDecoder" where
  "decoder_at lg mg fg tbl src win xl xm xo rem = \<lparr>sd_tbl = tbl, sd_src = src, sd_win = win,
     sd_ll_state = of_nat (xl - 2 ^ lg), sd_ml_state = of_nat (xm - 2 ^ mg), sd_of_state = of_nat (xo - 2 ^ fg),
     sd_rem = rem\<rparr>"

lemma sequence_loop_correct:
  assumes logs: "lg \<le> 9" "mg \<le> 9" "fg \<le> 8"
    and tbl: "slot_is tbl LL_SLOT lg el" "slot_is tbl ML_SLOT mg em" "slot_is tbl OF_SLOT fg ef"
    and "list_all (word_on (lg, LL_CODES, el, ll) (mg, ML_CODES, em, ml) (fg, OF_CODES, ef, off)) ws" "ws \<noteq> []"
    and "list_all2 seq_of ws ss" "seq_stream ll ml off ws = (bs, xl, xm, xo)" "win_at src win bs 57"
  shows "\<exists>d'. sequence_loop (decoder_at lg mg fg tbl src win xl xm xo (length ws)) = Ok (ss, d') \<and> sd_finish d' = Ok ()"
  using assms(7-)
proof (induction ws arbitrary: ss bs xl xm xo win)
  case Nil
  then show ?case by simp
next
  case (Cons w ws)
  obtain s ss' where ss: "ss = s # ss'" "seq_of w s" "list_all2 seq_of ws ss'"
    using Cons.prems(3) by (cases ss) auto
  note H = stream_head [OF Cons.prems(1,4)]
  have idx: "rindex tbl (LL_SLOT + unat (of_nat (xl - 2 ^ lg) :: u32)) = Ok (el (xl - 2 ^ lg))"
    "rindex tbl (ML_SLOT + unat (of_nat (xm - 2 ^ mg) :: u32)) = Ok (em (xm - 2 ^ mg))"
    "rindex tbl (OF_SLOT + unat (of_nat (xo - 2 ^ fg) :: u32)) = Ok (ef (xo - 2 ^ fg))"
  proof -
    have r: "in_range lg xl" "in_range mg xm" "in_range fg xo" "fg \<le> 9" using H logs(3) by simp_all
    show "rindex tbl (LL_SLOT + unat (of_nat (xl - 2 ^ lg) :: u32)) = Ok (el (xl - 2 ^ lg))"
      by (rule slot_index [OF tbl(1) r(1) logs(1)])
    show "rindex tbl (ML_SLOT + unat (of_nat (xm - 2 ^ mg) :: u32)) = Ok (em (xm - 2 ^ mg))"
      by (rule slot_index [OF tbl(2) r(2) logs(2)])
    show "rindex tbl (OF_SLOT + unat (of_nat (xo - 2 ^ fg) :: u32)) = Ok (ef (xo - 2 ^ fg))"
      by (rule slot_index [OF tbl(3) r(3,4)])
  qed
  have c: "carries LL_CODES (el (xl - 2 ^ lg)) (ll_code_of (sw_codes w))"
    "carries ML_CODES (em (xm - 2 ^ mg)) (ml_code_of (sw_codes w))"
    "carries OF_CODES (ef (xo - 2 ^ fg)) (of_code_of (sw_codes w))"
    using H by blast+
  let ?d = "decoder_at lg mg fg tbl src win xl xm xo (length (w # ws))"
  have sq: "\<lparr>sq_ll = sq_ll s, sq_ml = sq_ml s, sq_of = sq_of s\<rparr> = s" by simp
  show ?case
  proof (cases "ws = []")
    case True
    then have "win_at src win ([] @ extra_bits w) 57" using H Cons.prems(5) by simp
    note E = word_entries [OF ss(2) this c]
    obtain w' where w': "read_fields src win (unat (entry_add_bits (el (xl - 2 ^ lg))))
        (unat (entry_add_bits (em (xm - 2 ^ mg)))) (unat (entry_add_bits (ef (xo - 2 ^ fg))))
        = Ok ((of_extra w, ml_extra w, ll_extra w), w')" "win_at src w' [] 26"
      using E(1) by blast
    have "decode_step ?d = Ok (s, decoder_at lg mg fg tbl src w' xl xm xo 0)"
      using True by (simp add: decode_step_def decoder_at_def idx w'(1) E(2-4) sq)
    moreover have "sequence_loop (decoder_at lg mg fg tbl src w' xl xm xo 0)
        = Ok ([], decoder_at lg mg fg tbl src w' xl xm xo 0)"
      by (subst sequence_loop.simps) (simp add: decoder_at_def)
    moreover have "sd_finish (decoder_at lg mg fg tbl src w' xl xm xo 0) = Ok ()"
      using w'(2) by (cases w') (auto simp: sd_finish_def decoder_at_def win_at_def)
    ultimately show ?thesis
      using True ss by (subst sequence_loop.simps) (simp add: decoder_at_def)
  next
    case False
    then obtain bs0 yl ym yo ln le mn me fn fe where t: "seq_stream ll ml off ws = (bs0, yl, ym, yo)"
      "in_range lg yl" "in_range mg ym" "in_range fg yo"
      "bs = bs0 @ turn_bits (fn, fe) (mn, me) (ln, le) @ extra_bits w"
      and l: "le < 2 ^ ln" "ln \<le> lg" "unat (entry_nb_bits (el (xl - 2 ^ lg))) = ln"
        "unat (entry_next_state (el (xl - 2 ^ lg))) + le = yl - 2 ^ lg"
      and m: "me < 2 ^ mn" "mn \<le> mg" "unat (entry_nb_bits (em (xm - 2 ^ mg))) = mn"
        "unat (entry_next_state (em (xm - 2 ^ mg))) + me = ym - 2 ^ mg"
      and f: "fe < 2 ^ fn" "fn \<le> fg" "unat (entry_nb_bits (ef (xo - 2 ^ fg))) = fn"
        "unat (entry_next_state (ef (xo - 2 ^ fg))) + fe = yo - 2 ^ fg"
      using H by blast
    have "win_at src win ((bs0 @ turn_bits (fn, fe) (mn, me) (ln, le)) @ extra_bits w) 57"
      using Cons.prems(5) t(5) by simp
    note E = word_entries [OF ss(2) this c]
    obtain w1 where w1: "read_fields src win (unat (entry_add_bits (el (xl - 2 ^ lg))))
        (unat (entry_add_bits (em (xm - 2 ^ mg)))) (unat (entry_add_bits (ef (xo - 2 ^ fg))))
        = Ok ((of_extra w, ml_extra w, ll_extra w), w1)"
      "win_at src w1 (bs0 @ turn_bits (fn, fe) (mn, me) (ln, le)) 26"
      using E(1) by blast
    have n: "ln + mn + fn \<le> 26" using l(2) m(2) f(2) logs by linarith
    have y: "yl - 2 ^ lg < 1024" "ym - 2 ^ mg < 1024" "yo - 2 ^ fg < 1024"
      using small_step [OF t(2)] small_step [OF t(3)] small_step [OF t(4)] logs by auto
    obtain w2 where w2: "read_transitions w1 (el (xl - 2 ^ lg)) (em (xm - 2 ^ mg)) (ef (xo - 2 ^ fg))
        = Ok ((of_nat (yl - 2 ^ lg), of_nat (ym - 2 ^ mg), of_nat (yo - 2 ^ fg)), w2)" "win_at src w2 bs0 0"
      using read_transitions_at [OF w1(2) l(3) m(3) f(3) n l(1) m(1) f(1) l(4) m(4) f(4) y] by blast
    obtain st w3 where w3: "reload src w2 = (Ok (st, w3) :: (DecodeSequenceError, _) res)" "st \<noteq> Overflow"
      "win_at src w3 bs0 57"
      using reload_at [OF w2(2)] by blast
    have "decode_step ?d = Ok (s, decoder_at lg mg fg tbl src w3 yl ym yo (length ws))"
      using False w2(1) w3(1,2)
      by (simp add: decode_step_def decoder_at_def idx w1(1) E(2-4) sq del: of_nat_diff)
    moreover obtain d' where "sequence_loop (decoder_at lg mg fg tbl src w3 yl ym yo (length ws)) = Ok (ss', d')"
      "sd_finish d' = Ok ()"
      using Cons.IH [OF _ False ss(3) t(1) w3(3)] Cons.prems(1) by auto
    ultimately show ?thesis
      using ss by (subst sequence_loop.simps) (simp add: decoder_at_def)
  qed
qed

end
