(* ===== verification/Fse_Parse.thy ===== *)
theory Fse_Parse
  imports Fse_Table
begin

text \<open>
  The parser of a serialized distribution on arbitrary, possibly hostile bytes: it never panics,
  and whatever it accepts is a valid distribution, so that the decoding table built from it exists
  and leads from state to state inside itself.
\<close>

unbundle bit_operations_syntax

section \<open>Values\<close>

text \<open>One value with its arithmetic spelled out; \<open>b\<close> is the width of the remaining range.\<close>

lemma read_value_eq:
  assumes "pc < psum" "psum \<le> 2 ^ 20" "br_idx br \<le> br_total br"
    and b: "b = Suc (ilog2 (psum - pc + 1))" and lo: "lo + (psum - pc + 1) + 1 = 2 ^ b"
    and u: "u = bits_val (take b (br_bits br))"
  shows "read_value psum pc br =
    (if br_idx br = br_total br then Err (FseGetBitsError (NotEnoughRemainingBits b 0))
     else if br_left br + 1 < b then Err (FseGetBitsError (NotEnoughRemainingBits b (br_left br)))
     else rbind (if u AND 2 ^ (b - 1) - 1 < lo then Ok (u AND 2 ^ (b - 1) - 1, br\<lparr>br_idx := br_idx br + (b - 1)\<rparr>)
               else Ok (if 2 ^ (b - 1) \<le> u then u - lo else u, br\<lparr>br_idx := br_idx br + b\<rparr>))
        (\<lambda>(value, br). if br_bits_read br > length (br_source br) * 8
           then Err (FseGetBitsError (NotEnoughRemainingBits b (b - 1))) else Ok (value, br)))"
proof -
  define R where "R = psum - pc + 1"
  have R: "2 \<le> R" "R < 2 ^ 21" using assms(1,2) by (simp_all add: R_def)
  have bR: "b = Suc (ilog2 R)" by (simp add: b R_def)
  have b21: "1 \<le> b" "b \<le> 21" using ilog2_less [of R 21] R by (simp_all add: bR)
  have hb: "highest_bit_set R = Ok b" using R(1) by (simp add: highest_bit_set_def bR)
  have lo': "push_bit b 1 - 1 - R = lo" using lo by (simp add: R_def)
  have zp: "br_get_bits_zero_padded br b 1 = (if br_idx br = br_total br then Err (NotEnoughRemainingBits b 0)
      else if b \<le> br_left br + 1 then Ok (bits_word (take b (br_bits br)), br\<lparr>br_idx := br_idx br + b\<rparr>)
      else Err (NotEnoughRemainingBits b (br_left br)))"
    using br_get_bits_zero_padded_eq [of b br 1] b21 assms(3) by simp
  have u': "unat (bits_word (take b (br_bits br))) = u" unfolding u using b21 by (intro unat_bits_word) simp
  have "2 ^ (b - 1) - 1 < u \<longleftrightarrow> 2 ^ (b - 1) \<le> u" by (auto simp: less_eq_Suc_le)
  then show ?thesis
    unfolding read_value_def Let_def R_def [symmetric] hb rbind.simps lo' zp
    using b21(1) by (auto simp: u' br_return_bits_def)
qed

lemma value_range:
  assumes "pc < psum" "psum \<le> 2 ^ 20"
  obtains b lo where "b = Suc (ilog2 (psum - pc + 1))" "lo + (psum - pc + 1) + 1 = 2 ^ b" "2 ^ b = 2 * (2::nat) ^ (b - 1)"
    "2 ^ (b - 1) \<le> psum - pc + 1"
proof -
  define b where "b = Suc (ilog2 (psum - pc + 1))"
  have "psum - pc + 1 < 2 ^ b" "2 ^ (b - 1) \<le> psum - pc + 1"
    using ilog2_upper [of "psum - pc + 1"] ilog2_lower [of "psum - pc + 1"] by (simp_all add: b_def)
  then show ?thesis using that [of b "2 ^ b - 1 - (psum - pc + 1)"] by (simp add: b_def)
qed

lemma read_value_range:
  assumes "pc < psum" "psum \<le> 2 ^ 20" "br_idx br \<le> br_total br"
  shows "read_value psum pc br \<noteq> Panic"
    and "read_value psum pc br = Ok (v, br') \<Longrightarrow> v \<le> psum - pc + 1"
proof -
  obtain b lo where b: "b = Suc (ilog2 (psum - pc + 1))" "lo + (psum - pc + 1) + 1 = 2 ^ b"
    "2 ^ b = 2 * (2::nat) ^ (b - 1)" "2 ^ (b - 1) \<le> psum - pc + 1" by (rule value_range [OF assms(1,2)])
  define u ma where "u = bits_val (take b (br_bits br))" and "ma = 2 ^ (b - 1) - (1::nat)"
  note eq = read_value_eq [OF assms b(1,2) u_def]
  show "read_value psum pc br \<noteq> Panic" unfolding eq by simp
  have "u < 2 ^ b"
  proof -
    have "u < 2 ^ length (take b (br_bits br))" unfolding u_def by (rule bits_val_less)
    also have "\<dots> \<le> 2 ^ b" by (rule power_increasing) simp_all
    finally show ?thesis .
  qed
  moreover have "u AND ma \<le> ma" by (simp add: and_nat_def nat_le_iff AND_upper2)
  moreover have "ma + 1 = 2 ^ (b - 1)" by (simp add: ma_def)
  ultimately have v: "u AND ma \<le> psum - pc + 1" "2 ^ (b - 1) \<le> u \<Longrightarrow> u - lo \<le> psum - pc + 1"
    "\<not> 2 ^ (b - 1) \<le> u \<Longrightarrow> u \<le> psum - pc + 1"
    using b by linarith+
  show "v \<le> psum - pc + 1" if "read_value psum pc br = Ok (v, br')"
    using that v unfolding eq ma_def by (auto simp: rbind_eq_Ok split: if_splits)
qed

section \<open>The loops\<close>

lemma zero_run_total:
  "br_idx br \<le> br_total br \<Longrightarrow> zero_run br probs \<noteq> Panic
    \<and> (\<forall>br' probs'. zero_run br probs = Ok (br', probs') \<longrightarrow> (\<exists>k. probs' = probs @ replicate k 0))"
proof (induction br probs rule: zero_run.induct)
  case (1 br probs)
  have cs: "br_get_bits br 2 = Err (NotEnoughRemainingBits 2 (br_left br)) \<or>
      (\<exists>v. br_get_bits br 2 = Ok (v, br\<lparr>br_idx := br_idx br + 2\<rparr>) \<and> br_idx br + 2 \<le> br_total br)"
    using "1.prems" by (auto simp: br_get_bits_cases br_left_def br_total_def)
  then show ?case
  proof
    assume "br_get_bits br 2 = Err (NotEnoughRemainingBits 2 (br_left br))"
    then show ?thesis by (subst (1 2) zero_run.simps) simp
  next
    assume "\<exists>v. br_get_bits br 2 = Ok (v, br\<lparr>br_idx := br_idx br + 2\<rparr>) \<and> br_idx br + 2 \<le> br_total br"
    then obtain v where v: "br_get_bits br 2 = Ok (v, br\<lparr>br_idx := br_idx br + 2\<rparr>)" "br_idx br + 2 \<le> br_total br"
      by blast
    let ?br = "br\<lparr>br_idx := br_idx br + 2\<rparr>"
    have i: "br_idx ?br \<le> br_total ?br" using v(2) by (simp add: br_total_def)
    show ?thesis
    proof (cases "unat v = 3")
      case True
      then have e: "zero_run br probs = zero_run ?br (probs @ replicate 3 0)"
        using v(1) by (subst zero_run.simps) simp
      have IH: "zero_run ?br (probs @ replicate 3 0) \<noteq> Panic \<and> (\<forall>br' probs'.
          zero_run ?br (probs @ replicate 3 0) = Ok (br', probs') \<longrightarrow> (\<exists>k. probs' = (probs @ replicate 3 0) @ replicate k 0))"
        using "1.IH" [OF v(1) refl refl _ _ i] True by auto
      show ?thesis unfolding e using IH by (metis append.assoc replicate_add)
    next
      case False
      then show ?thesis using v(1) by (subst (1 2) zero_run.simps) auto
    qed
  qed
qed

definition partial_dist :: "nat \<Rightarrow> int list \<Rightarrow> bool" where
  "partial_dist pc probs \<longleftrightarrow> (\<forall>p \<in> set probs. -1 \<le> p) \<and> sum_list (map abs probs) = int pc"

lemma partial_dist_zeros: "partial_dist pc (probs @ replicate k 0) = partial_dist pc probs"
  by (auto simp: partial_dist_def sum_list_replicate)

lemma partial_dist_snoc:
  "partial_dist pc probs \<Longrightarrow> partial_dist (if prob > 0 then pc + nat prob else pc + 1) (probs @ [prob])"
  if "prob \<noteq> 0" "-1 \<le> prob"
  using that by (auto simp: partial_dist_def)

lemma read_loop_total:
  "br_idx br \<le> br_total br \<Longrightarrow> pc \<le> psum \<Longrightarrow> psum \<le> 2 ^ 20 \<Longrightarrow> partial_dist pc probs \<Longrightarrow>
    read_loop psum pc probs br \<noteq> Panic
    \<and> (\<forall>c ps br'. read_loop psum pc probs br = Ok (c, ps, br')
         \<longrightarrow> c = psum \<and> partial_dist psum ps \<and> br_idx br' \<le> br_total br' \<and> br_source br' = br_source br)"
proof (induction psum pc probs br rule: read_loop.induct)
  case (1 psum pc probs br)
  show ?case
  proof (cases "pc < psum")
    case False
    then show ?thesis using "1.prems" by (subst (1 2) read_loop.simps) simp
  next
    case True
    note rv = read_value_range [OF True "1.prems"(3,1)]
    show ?thesis
    proof (cases "read_value psum pc br")
      case Panic
      with rv(1) show ?thesis by blast
    next
      case (Err e)
      then show ?thesis using True by (subst (1 2) read_loop.simps) simp
    next
      case (Ok r)
      obtain v br1 where r: "r = (v, br1)" by (cases r)
      note v = Ok [unfolded r]
      define prob where "prob = int v - 1"
      have pr: "br_source br1 = br_source br" "br_idx br1 \<le> br_total br1"
        using read_value_progress [OF v True] by auto
      have lim: "-1 \<le> prob" "prob \<le> int (psum - pc)" using rv(2) [OF v] by (auto simp: prob_def)
      show ?thesis
      proof (cases "prob = 0")
        case False
        let ?pc = "if prob > 0 then pc + nat prob else pc + 1"
        have e: "read_loop psum pc probs br = read_loop psum ?pc (probs @ [prob]) br1"
          using True v False by (subst read_loop.simps) (simp add: Let_def prob_def)
        have "?pc \<le> psum" using lim True by auto
        moreover have "partial_dist ?pc (probs @ [prob])"
          using partial_dist_snoc [OF False lim(1)] "1.prems"(4) by blast
        ultimately show ?thesis
          unfolding e using "1.IH"(1) [OF True v refl prob_def refl False] pr "1.prems"(3) by simp
      next
        case zero: True
        show ?thesis
        proof (cases "zero_run br1 (probs @ [prob])")
          case Panic
          with zero_run_total [OF pr(2)] show ?thesis by blast
        next
          case (Err e)
          then show ?thesis using True v zero by (subst (1 2) read_loop.simps) (simp add: Let_def prob_def)
        next
          case (Ok z)
          obtain br2 ps2 where z: "z = (br2, ps2)" by (cases z)
          note zr = Ok [unfolded z]
          have e: "read_loop psum pc probs br = read_loop psum pc ps2 br2"
            using True v zero zr by (subst read_loop.simps) (simp add: Let_def prob_def)
          have b2: "br_source br2 = br_source br1" "br_idx br2 \<le> br_total br2"
            using zero_run_progress [OF zr] by auto
          obtain k where "ps2 = (probs @ [prob]) @ replicate k 0" using zero_run_total [OF pr(2)] zr by blast
          then have "ps2 = probs @ replicate (Suc k) 0" using zero by simp
          then have pd: "partial_dist pc ps2" using "1.prems"(4) by (simp only: partial_dist_zeros)
          have zr': "rmap_err FseGetBitsError (zero_run br1 (probs @ [prob])) = Ok (br2, ps2)" using zr by simp
          have nz: "\<not> prob \<noteq> 0" using zero by simp
          show ?thesis
            unfolding e using "1.IH"(2) [OF True v refl prob_def refl nz zr' refl b2(2) "1.prems"(2,3) pd] b2(1) pr(1)
            by simp
        qed
      qed
    qed
  qed
qed

section \<open>The whole parser\<close>

lemma read_probabilities_total:
  assumes "ft_max_symbol t \<le> 255"
  shows "read_probabilities t source max_log \<noteq> Panic"
    and "read_probabilities t source max_log = Ok (n, t') \<Longrightarrow>
      dist_valid (ft_accuracy_log t') (ft_symbol_probabilities t') \<and> ft_accuracy_log t' \<le> max_log
      \<and> length (ft_symbol_probabilities t') \<le> ft_max_symbol t + 1 \<and> ft_max_symbol t' = ft_max_symbol t
      \<and> n \<le> length source"
proof -
  have cs: "br_get_bits (br_new source) 4 = Err (NotEnoughRemainingBits 4 (br_left (br_new source))) \<or>
    (\<exists>v. br_get_bits (br_new source) 4 = Ok (v, (br_new source)\<lparr>br_idx := 4\<rparr>) \<and> unat v < 16
      \<and> 4 \<le> length source * 8)"
  proof (cases "br_left (br_new source) < 4")
    case False
    let ?v = "bits_word (take 4 (br_bits (br_new source)))"
    have "unat ?v = bits_val (take 4 (br_bits (br_new source)))" by (rule unat_bits_word) simp
    also have "\<dots> < 2 ^ length (take 4 (br_bits (br_new source)))" by (rule bits_val_less)
    also have "\<dots> \<le> 2 ^ 4" by (rule power_increasing) simp_all
    finally have "unat ?v < 16" by simp
    moreover have "4 \<le> length source * 8" using False by (cases source) (simp_all add: br_new_def br_left_def)
    ultimately show ?thesis
      using False by (cases source) (simp_all add: br_get_bits_cases br_new_def br_total_def br_left_def)
  qed (simp add: br_get_bits_cases br_new_def br_total_def br_left_def)
  have loop: "read_loop (push_bit (ACC_LOG_OFFSET + unat v) 1) 0 [] ((br_new source)\<lparr>br_idx := 4\<rparr>) \<noteq> Panic
    \<and> (\<forall>c ps br'. read_loop (push_bit (ACC_LOG_OFFSET + unat v) 1) 0 [] ((br_new source)\<lparr>br_idx := 4\<rparr>) = Ok (c, ps, br')
         \<longrightarrow> c = push_bit (ACC_LOG_OFFSET + unat v) 1 \<and> partial_dist (push_bit (ACC_LOG_OFFSET + unat v) 1) ps
           \<and> br_idx br' \<le> br_total br' \<and> br_source br' = source)"
    if "unat v < 16" "4 \<le> length source * 8" for v :: u64
  proof -
    have "(2::nat) ^ (ACC_LOG_OFFSET + unat v) \<le> 2 ^ 20"
      using that(1) by (intro power_increasing) (simp_all add: ACC_LOG_OFFSET_def)
    then show ?thesis
      using read_loop_total [of "(br_new source)\<lparr>br_idx := 4\<rparr>" 0 "push_bit (ACC_LOG_OFFSET + unat v) 1" "[]"] that(2)
      by (simp add: push_bit_eq_mult br_new_def br_total_def partial_dist_def) metis
  qed
  show "read_probabilities t source max_log \<noteq> Panic"
    using cs
  proof
    assume "\<exists>v. br_get_bits (br_new source) 4 = Ok (v, (br_new source)\<lparr>br_idx := 4\<rparr>) \<and> unat v < 16 \<and> 4 \<le> length source * 8"
    then obtain v where v: "br_get_bits (br_new source) 4 = Ok (v, (br_new source)\<lparr>br_idx := 4\<rparr>)" "unat v < 16"
      "4 \<le> length source * 8" by blast
    show ?thesis using loop [OF v(2,3)] v(1)
      by (auto simp: read_probabilities_def Let_def rbind_eq_Panic split: if_splits)
  qed (simp add: read_probabilities_def)
  assume ok: "read_probabilities t source max_log = Ok (n, t')"
  then obtain v where v: "br_get_bits (br_new source) 4 = Ok (v, (br_new source)\<lparr>br_idx := 4\<rparr>)" "unat v < 16"
      "4 \<le> length source * 8" using cs by (auto simp: read_probabilities_def)
  obtain ps br' where l: "read_loop (push_bit (ACC_LOG_OFFSET + unat v) 1) 0 [] ((br_new source)\<lparr>br_idx := 4\<rparr>)
      = Ok (push_bit (ACC_LOG_OFFSET + unat v) 1, ps, br')"
    and r: "ACC_LOG_OFFSET + unat v \<le> max_log" "length ps \<le> ft_max_symbol t + 1"
      "n = (if br_bits_read br' mod 8 = 0 then br_bits_read br' div 8 else br_bits_read br' div 8 + 1)"
      "t' = t\<lparr>ft_accuracy_log := ACC_LOG_OFFSET + unat v, ft_symbol_probabilities := ps\<rparr>"
    using ok v(1) loop [OF v(2,3)]
    by (auto simp: read_probabilities_def Let_def rbind_eq_Ok split: if_splits prod.splits)
  have p: "partial_dist (push_bit (ACC_LOG_OFFSET + unat v) 1) ps" "br_idx br' \<le> length source * 8"
    using loop [OF v(2,3)] l by (auto simp: br_total_def)
  have "n \<le> length source"
  proof (cases "br_idx br' mod 8 = 0")
    case True
    have "br_idx br' div 8 \<le> length source * 8 div 8" using p(2) by (rule div_le_mono)
    then show ?thesis using True by (simp add: r(3) br_bits_read_def)
  next
    case False
    then have "br_idx br' \<noteq> length source * 8" by auto
    then have "br_idx br' < length source * 8" using p(2) by simp
    then show ?thesis using False by (simp add: r(3) br_bits_read_def less_mult_imp_div_less Suc_le_eq)
  qed
  moreover have "dist_valid (ACC_LOG_OFFSET + unat v) ps"
  proof -
    define acc where "acc = ACC_LOG_OFFSET + unat v"
    have "5 \<le> acc" "acc \<le> 20" using v(2) by (simp_all add: acc_def ACC_LOG_OFFSET_def)
    moreover have "sum_list (map abs ps) = 2 ^ acc" "\<forall>p \<in> set ps. -1 \<le> p"
      using p(1) by (simp_all add: partial_dist_def push_bit_eq_mult flip: acc_def)
    ultimately show ?thesis using r(2) assms by (simp add: dist_valid_def flip: acc_def)
  qed
  ultimately show "dist_valid (ft_accuracy_log t') (ft_symbol_probabilities t') \<and> ft_accuracy_log t' \<le> max_log
      \<and> length (ft_symbol_probabilities t') \<le> ft_max_symbol t + 1 \<and> ft_max_symbol t' = ft_max_symbol t
      \<and> n \<le> length source"
    using r(1,2) by (simp add: r(4))
qed

section \<open>The table that is built\<close>

text \<open>
  Well-formed decoding table: a power of two of entries, every entry of a known symbol, and every
  transition inside the table.
\<close>

definition table_wf :: "nat \<Rightarrow> FSETable \<Rightarrow> bool" where
  "table_wf nsym t \<longleftrightarrow> length (ft_decode t) = 2 ^ ft_accuracy_log t
     \<and> list_all (\<lambda>e. symbol e < nsym \<and> num_bits e \<le> ft_accuracy_log t
          \<and> unat (base_line e) + 2 ^ num_bits e \<le> length (ft_decode t)) (ft_decode t)"

lemma table_for_wf:
  assumes "dist_valid acc ps" "table_for acc ps (ft_decode t)" "ft_accuracy_log t = acc" "length ps \<le> nsym"
  shows "table_wf nsym t"
proof -
  have len: "length (ft_decode t) = 2 ^ acc" and cnt: "count_list (map symbol (ft_decode t)) s = weight ps s" for s
    using assms(2) unfolding table_for_def by blast+
  have "symbol e < nsym \<and> num_bits e \<le> acc \<and> unat (base_line e) + 2 ^ num_bits e \<le> 2 ^ acc"
    if e: "e \<in> set (ft_decode t)" for e
  proof -
    obtain i where i: "i < 2 ^ acc" "e = ft_decode t ! i" using e len by (metis in_set_conv_nth)
    let ?w = "weight ps (symbol e)"
    have "symbol e \<in> set (map symbol (ft_decode t))" using e by simp
    then have w: "0 < ?w" by (metis cnt count_list_0_iff gr0I)
    have r: "entry_rank (ft_decode t) i < ?w"
      using entry_rank_less [OF assms(2)] i by simp
    have nb: "num_bits e = entry_nb acc ?w (entry_rank (ft_decode t) i)"
      and bl: "unat (base_line e) = entry_base acc ?w (entry_rank (ft_decode t) i)"
      using assms(2) i unfolding table_for_def by blast+
    have b: "unat (base_line e) + 2 ^ num_bits e \<le> 2 ^ acc"
      unfolding nb bl by (rule entry_base_bound [OF w weight_le [OF assms(1)] r])
    then have "(2::nat) ^ num_bits e \<le> 2 ^ acc" by linarith
    then have "num_bits e \<le> acc" by simp
    moreover have "symbol e < length ps" using w by (simp add: weight_def split: if_splits)
    ultimately show ?thesis using b assms(4) by simp
  qed
  then show ?thesis using len assms(3) by (simp add: table_wf_def list_all_iff)
qed

lemma build_table_max_symbol: "build_decoding_table t = Ok t' \<Longrightarrow> ft_max_symbol t' = ft_max_symbol t"
  by (auto simp: build_decoding_table_def Let_def rbind_eq_Ok split: if_splits prod.splits)

lemma build_decoder_ok:
  assumes "ft_max_symbol t \<le> 255"
  shows "build_decoder t source max_log \<noteq> Panic"
    and "build_decoder t source max_log = Ok (n, t') \<Longrightarrow>
      n \<le> length source \<and> table_wf (ft_max_symbol t + 1) t' \<and> ft_accuracy_log t' \<le> max_log
      \<and> ft_max_symbol t' = ft_max_symbol t"
proof -
  let ?t = "t\<lparr>ft_accuracy_log := 0\<rparr>"
  have m: "ft_max_symbol ?t \<le> 255" using assms by simp
  note rp = read_probabilities_total [OF m, of source max_log]
  have run: "\<exists>t2. build_decoder t source max_log = Ok (k, t2) \<and> table_wf (ft_max_symbol t + 1) t2
      \<and> ft_accuracy_log t2 = ft_accuracy_log t1 \<and> ft_max_symbol t2 = ft_max_symbol t"
    if ok: "read_probabilities ?t source max_log = Ok (k, t1)" for k t1
  proof -
    have v: "dist_valid (ft_accuracy_log t1) (ft_symbol_probabilities t1)"
      "length (ft_symbol_probabilities t1) \<le> ft_max_symbol t1 + 1" "ft_max_symbol t1 = ft_max_symbol t"
      using rp(2) [OF ok] by simp_all
    obtain t2 :: FSETable where t2: "build_decoding_table t1 = Ok t2"
      "table_for (ft_accuracy_log t1) (ft_symbol_probabilities t1) (ft_decode t2)"
      "ft_accuracy_log t2 = ft_accuracy_log t1"
      using build_table_exists [OF v(1,2)] by blast
    have "table_wf (ft_max_symbol t + 1) t2"
      using table_for_wf [OF v(1) t2(2,3)] v(2,3) by simp
    then show ?thesis
      using ok t2(1,3) build_table_max_symbol [OF t2(1)] v(3) by (simp add: build_decoder_def)
  qed
  show "build_decoder t source max_log \<noteq> Panic"
  proof (cases "read_probabilities ?t source max_log")
    case (Ok r)
    then show ?thesis using run [of "fst r" "snd r"] by auto
  qed (use rp(1) in \<open>simp_all add: build_decoder_def\<close>)
  assume ok: "build_decoder t source max_log = Ok (n, t')"
  then obtain k t1 where r: "read_probabilities ?t source max_log = Ok (k, t1)"
    by (auto simp: build_decoder_def rbind_eq_Ok)
  then show "n \<le> length source \<and> table_wf (ft_max_symbol t + 1) t' \<and> ft_accuracy_log t' \<le> max_log
      \<and> ft_max_symbol t' = ft_max_symbol t"
    using run [OF r] rp(2) [OF r] ok by auto
qed

section \<open>Properties\<close>

text \<open>
  C18.  Building a decoding table from arbitrary bytes never panics, for every alphabet of at most
  256 symbols: it ends with an error or with a table of \<open>2 ^ accuracy_log\<close> entries, each of a
  symbol of the alphabet and with all its transitions inside the table, after reading no more than
  the source holds.  This is the invariant on which the unchecked table reads of the decode loops
  rest.
\<close>

theorem build_decoder_safe:
  assumes "ft_max_symbol t \<le> 255"
  shows "(\<exists>e. build_decoder t source max_log = Err e)
    \<or> (\<exists>n t'. build_decoder t source max_log = Ok (n, t') \<and> n \<le> length source
         \<and> table_wf (ft_max_symbol t + 1) t' \<and> ft_accuracy_log t' \<le> max_log)"
  using build_decoder_ok [OF assms, of source max_log]
  by (cases "build_decoder t source max_log") auto

theorem build_decoder_safe_witness:
  "(\<exists>e. build_decoder (ft_new 35) [0x21, 0x43, 0xff] 9 = Err e)
    \<or> (\<exists>n t'. build_decoder (ft_new 35) [0x21, 0x43, 0xff] 9 = Ok (n, t') \<and> n \<le> 3 \<and> table_wf 36 t')"
  using build_decoder_safe [of "ft_new 35" "[0x21, 0x43, 0xff]" 9] by (auto simp: ft_new_def)

end
