(* ===== verification/Seq_Tables.thy ===== *)
theory Seq_Tables
  imports Seq_Decoder Fse_Parse
begin

text \<open>
  The invariant of the table scratch and the safety of installing and packing tables.  The three
  streams are treated alike through the record \<open>Stream\<close>, their common view; a stream is well
  formed when its table, or its single RLE code, can be decoded with, and its slot holds the packed
  table whenever the valid flag says so.
\<close>

unbundle bit_operations_syntax

section \<open>Fields of a packed entry\<close>

lemma of_nat_u64_bits: "n < 2 ^ k \<Longrightarrow> k \<le> 64 \<Longrightarrow> bit (of_nat n :: u64) i \<Longrightarrow> i < k"
proof -
  assume "n < 2 ^ k" "k \<le> 64" "bit (of_nat n :: u64) i"
  then have "bit n i" by (simp add: bit_of_nat_iff)
  then have "bit (take_bit k n) i" using \<open>n < 2 ^ k\<close> by (simp add: take_bit_nat_eq_self)
  then show "i < k" by (simp add: bit_take_bit_iff)
qed

lemma pack_entry_bit:
  assumes "add < 256" "nb < 256" "i < 64"
  shows "bit (pack_entry base add next nb) i \<longleftrightarrow>
    (if i < 16 then bit next i else if i < 24 then bit (of_nat add :: u64) (i - 16)
     else if i < 32 then bit (of_nat nb :: u64) (i - 24) else bit base (i - 32))"
proof -
  have add: "bit (of_nat add :: u64) j \<Longrightarrow> j < 8" for j using of_nat_u64_bits [of add 8 j] assms(1) by simp
  have nb: "bit (of_nat nb :: u64) j \<Longrightarrow> j < 8" for j using of_nat_u64_bits [of nb 8 j] assms(2) by simp
  have nx: "bit next j \<Longrightarrow> j < 16" for j using bit_imp_le_length [of "next" j] by simp
  have base: "bit base j \<Longrightarrow> j < 32" for j using bit_imp_le_length [of base j] by simp
  have "bit (pack_entry base add next nb) i \<longleftrightarrow> 32 \<le> i \<and> bit base (i - 32)
      \<or> 24 \<le> i \<and> bit (of_nat nb :: u64) (i - 24) \<or> 16 \<le> i \<and> bit (of_nat add :: u64) (i - 16) \<or> bit next i"
    using assms(3) by (auto simp: pack_entry_def bit_or_iff bit_push_bit_iff bit_ucast_iff)
  then show ?thesis
    using add [of "i - 16"] nb [of "i - 24"] nx [of i] by auto
qed

lemma mask_u64: "bit (0xff :: u64) i \<longleftrightarrow> i < 8" "bit (0xffff :: u64) i \<longleftrightarrow> i < 16"
proof -
  have "(0xff :: u64) = mask 8" "(0xffff :: u64) = mask 16" by (simp_all add: mask_eq_exp_minus_1)
  then show "bit (0xff :: u64) i \<longleftrightarrow> i < 8" "bit (0xffff :: u64) i \<longleftrightarrow> i < 16"
    by (auto simp only: bit_mask_iff possible_bit_word) simp_all
qed

lemma pack_entry_fields:
  assumes "add < 256" "nb < 256"
  shows "seq_entry_base (pack_entry base add next nb) = base"
    "unat (entry_add_bits (pack_entry base add next nb)) = add"
    "unat (entry_nb_bits (pack_entry base add next nb)) = nb"
    "entry_next_state (pack_entry base add next nb) = ucast next"
proof -
  note b = pack_entry_bit [OF assms]
  show "seq_entry_base (pack_entry base add next nb) = base"
    unfolding seq_entry_base_def
    by (rule bit_word_eqI) (simp add: bit_ucast_iff bit_drop_bit_eq b)
  have byte: "unat (ucast (of_nat n :: u64) :: u32) = n" if "n < 256" for n
    using that by (simp add: unsigned_ucast_eq unat_of_nat take_bit_nat_eq_self)
  have add: "bit (of_nat add :: u64) j \<Longrightarrow> j < 8" for j using of_nat_u64_bits [of add 8 j] assms(1) by simp
  have nb: "bit (of_nat nb :: u64) j \<Longrightarrow> j < 8" for j using of_nat_u64_bits [of nb 8 j] assms(2) by simp
  have "drop_bit 16 (pack_entry base add next nb) AND 0xff = of_nat add"
  proof (rule bit_word_eqI)
    fix n show "bit (drop_bit 16 (pack_entry base add next nb) AND 0xff) n = bit (of_nat add :: u64) n"
      unfolding bit_and_iff mask_u64 bit_drop_bit_eq using add [of n] by (cases "n < 8") (auto simp: b)
  qed
  then show "unat (entry_add_bits (pack_entry base add next nb)) = add"
    using byte [OF assms(1)] by (simp add: entry_add_bits_def)
  have "drop_bit 24 (pack_entry base add next nb) AND 0xff = of_nat nb"
  proof (rule bit_word_eqI)
    fix n show "bit (drop_bit 24 (pack_entry base add next nb) AND 0xff) n = bit (of_nat nb :: u64) n"
      unfolding bit_and_iff mask_u64 bit_drop_bit_eq using nb [of n] by (cases "n < 8") (auto simp: b)
  qed
  then show "unat (entry_nb_bits (pack_entry base add next nb)) = nb"
    using byte [OF assms(2)] by (simp add: entry_nb_bits_def)
  have nx: "pack_entry base add next nb AND 0xffff = ucast next"
  proof (rule bit_word_eqI)
    fix n show "bit (pack_entry base add next nb AND 0xffff) n = bit (ucast next :: u64) n"
      unfolding bit_and_iff mask_u64 bit_ucast_iff
      using bit_imp_le_length [of "next" n] by (cases "n < 16") (auto simp: b)
  qed
  show "entry_next_state (pack_entry base add next nb) = ucast next"
    unfolding entry_next_state_def nx by (rule bit_word_eqI) (auto simp: bit_ucast_iff)
qed

lemma bit_le_field:
  assumes "width * (i + 1) \<le> 8"
  shows "bit (le_field e width i) j \<longleftrightarrow> j < 32 \<and> j < 8 * width \<and> bit e (8 * (width * i) + j)"
proof -
  define k where "k = width * i"
  have k: "k + width \<le> 8" using assms by (simp add: k_def)
  have "bytes_bits (take width (drop k (u64_to_le_bytes e))) = take (8 * width) (drop (8 * k) (word_bits 64 e))"
    by (simp add: bytes_bits_u64_to_le_bytes flip: take_bytes_bits drop_bytes_bits)
  moreover have "8 * k + j < 64" "drop (8 * k) (word_bits 64 e) ! j = bit e (8 * k + j)" if "j < 8 * width"
    using that k by simp_all
  ultimately show ?thesis
    by (auto simp: le_field_def u64_from_le_bytes_def bit_ucast_iff bit_bits_word simp flip: k_def)
qed

text \<open>
  Reading a packed entry field by field from its little-endian bytes, as \<open>EntryRef\<close> does with
  narrow loads, gives the same base, extra bits, transition bits and next state as shifting and
  masking the whole entry, for every entry.
\<close>

theorem entry_ref_fields:
  "ref_base e = seq_entry_base e \<and> ref_add_bits e = entry_add_bits e
    \<and> ref_nb_bits e = entry_nb_bits e \<and> ref_next_state e = entry_next_state e"
proof (intro conjI bit_word_eqI)
  fix n assume n: "n < LENGTH(32)"
  show "bit (ref_base e) n = bit (seq_entry_base e) n"
    using n unfolding ref_base_def seq_entry_base_def by (simp add: bit_le_field bit_ucast_iff bit_drop_bit_eq)
  show "bit (ref_add_bits e) n = bit (entry_add_bits e) n"
    using n unfolding ref_add_bits_def entry_add_bits_def bit_ucast_iff bit_and_iff mask_u64 bit_drop_bit_eq
    by (auto simp add: bit_le_field)
  show "bit (ref_nb_bits e) n = bit (entry_nb_bits e) n"
    using n unfolding ref_nb_bits_def entry_nb_bits_def bit_ucast_iff bit_and_iff mask_u64 bit_drop_bit_eq
    by (auto simp add: bit_le_field)
  show "bit (ref_next_state e) n = bit (entry_next_state e) n"
    using n unfolding ref_next_state_def entry_next_state_def bit_ucast_iff bit_and_iff mask_u64 bit_drop_bit_eq
    by (auto simp add: bit_le_field)
qed

section \<open>One stream\<close>

record Stream =
  st_table :: FSETable
  st_rle :: "u8 option"
  st_pre :: bool
  st_ready :: bool
  st_valid :: bool

text \<open>The parameters of a stream: default distribution, codes, largest accuracy log.\<close>

record StreamKind =
  sk_acc :: nat
  sk_dist :: "int list"
  sk_codes :: "(u32 \<times> nat) list"
  sk_log :: nat

definition kind_ok :: "StreamKind \<Rightarrow> bool" where
  "kind_ok K \<longleftrightarrow> dist_valid (sk_acc K) (sk_dist K) \<and> sk_acc K \<le> sk_log K \<and> sk_log K \<le> 9
     \<and> length (sk_dist K) \<le> length (sk_codes K) \<and> 0 < length (sk_codes K) \<and> length (sk_codes K) \<le> 64
     \<and> list_all (\<lambda>(b, n). n \<le> 31 \<and> unat b + 2 ^ n \<le> 2 ^ 32) (sk_codes K)"

definition update_stream ::
  "StreamKind \<Rightarrow> u8 \<Rightarrow> DecodeSequenceError \<Rightarrow> ModeType \<Rightarrow> bytes \<Rightarrow> Stream
    \<Rightarrow> (DecodeSequenceError, nat \<times> Stream) res" where
  "update_stream K maxc err mode source v =
     (case mode of
        FSECompressed \<Rightarrow>
          rbind (rmap_err DSFSETableError (build_decoder (st_table v) source (sk_log K)))
            (\<lambda>(bytes, t). Ok (bytes, \<lparr>st_table = t, st_rle = None, st_pre = False, st_ready = True, st_valid = False\<rparr>))
      | ModeRLE \<Rightarrow>
          if source = [] \<or> source ! 0 > maxc then Err err
          else Ok (1, \<lparr>st_table = (st_table v)\<lparr>ft_accuracy_log := 0\<rparr>, st_rle = Some (source ! 0),
                  st_pre = False, st_ready = True, st_valid = False\<rparr>)
      | Predefined \<Rightarrow>
          rbind (if \<not> st_pre v then
                   rbind (rmap_err DSFSETableError (build_from_probabilities (st_table v) (sk_acc K) (sk_dist K)))
                     (\<lambda>t. Ok (v\<lparr>st_table := t, st_pre := True, st_valid := False\<rparr>))
                 else Ok v) (\<lambda>v. Ok (0, v\<lparr>st_rle := None, st_ready := True\<rparr>))
      | RepeatMode \<Rightarrow> Ok (0, v))"

definition stream_wf :: "StreamKind \<Rightarrow> Stream \<Rightarrow> bool" where
  "stream_wf K v \<longleftrightarrow> ft_max_symbol (st_table v) + 1 = length (sk_codes K)
     \<and> ft_accuracy_log (st_table v) \<le> sk_log K
     \<and> (if st_ready v then
          (case st_rle v of Some c \<Rightarrow> unat c < length (sk_codes K) \<and> ft_accuracy_log (st_table v) = 0
           | None \<Rightarrow> table_wf (length (sk_codes K)) (st_table v))
        else st_rle v = None \<and> ft_decode (st_table v) = [])
     \<and> (st_pre v \<longrightarrow> st_ready v \<and> st_rle v = None \<and> ft_accuracy_log (st_table v) = sk_acc K
          \<and> table_for (sk_acc K) (sk_dist K) (ft_decode (st_table v)))"

definition packed_of :: "(u32 \<times> nat) list \<Rightarrow> Entry \<Rightarrow> u64" where
  "packed_of codes e = (case codes ! symbol e of (base, add) \<Rightarrow>
     pack_entry base add (ucast (base_line e)) (num_bits e))"

definition stream_slot :: "StreamKind \<Rightarrow> nat \<Rightarrow> u64 list \<Rightarrow> Stream \<Rightarrow> bool" where
  "stream_slot K lo packed v \<longleftrightarrow>
     (case st_rle v of Some c \<Rightarrow> packed ! lo = pack_rle_entry (sk_codes K ! unat c)
      | None \<Rightarrow> \<forall>i < length (ft_decode (st_table v)). packed ! (lo + i) = packed_of (sk_codes K) (ft_decode (st_table v) ! i))"

definition stream_inv :: "StreamKind \<Rightarrow> nat \<Rightarrow> u64 list \<Rightarrow> Stream \<Rightarrow> bool" where
  "stream_inv K lo packed v \<longleftrightarrow> stream_wf K v \<and> (st_valid v \<longrightarrow> stream_slot K lo packed v)"

lemma default_table_exists:
  assumes "kind_ok K" "ft_max_symbol t + 1 = length (sk_codes K)"
  shows "\<exists>t'. build_from_probabilities t (sk_acc K) (sk_dist K) = Ok t'
    \<and> table_for (sk_acc K) (sk_dist K) (ft_decode t') \<and> ft_accuracy_log t' = sk_acc K
    \<and> ft_max_symbol t' = ft_max_symbol t \<and> table_wf (length (sk_codes K)) t'"
proof -
  let ?t = "t\<lparr>ft_symbol_probabilities := sk_dist K, ft_accuracy_log := sk_acc K\<rparr>"
  have d: "dist_valid (ft_accuracy_log ?t) (ft_symbol_probabilities ?t)"
    "length (ft_symbol_probabilities ?t) \<le> ft_max_symbol ?t + 1" "sk_acc K \<noteq> 0"
    using assms by (auto simp: kind_ok_def dist_valid_def)
  obtain t' :: FSETable where t': "build_decoding_table ?t = Ok t'"
    "table_for (ft_accuracy_log ?t) (ft_symbol_probabilities ?t) (ft_decode t')" "ft_accuracy_log t' = ft_accuracy_log ?t"
    using build_table_exists [OF d(1,2)] by blast
  have "table_wf (length (sk_codes K)) t'"
    using table_for_wf [OF d(1) t'(2,3)] assms by (simp add: kind_ok_def)
  then show ?thesis using t' d(3) build_table_max_symbol [OF t'(1)] by (simp add: build_from_probabilities_def)
qed

lemma update_stream_ok:
  assumes K: "kind_ok K" "unat maxc + 1 = length (sk_codes K)" and v: "stream_inv K lo packed v"
  shows "update_stream K maxc err mode source v \<noteq> Panic"
    and "update_stream K maxc err mode source v = Ok (n, v') \<Longrightarrow>
      n \<le> length source \<and> stream_inv K lo packed v' \<and> (mode \<noteq> RepeatMode \<longrightarrow> st_ready v')"
proof -
  have m: "ft_max_symbol (st_table v) + 1 = length (sk_codes K)" "ft_max_symbol (st_table v) \<le> 255"
    using v K by (auto simp: stream_inv_def stream_wf_def kind_ok_def)
  note bd = build_decoder_ok [OF m(2), of source "sk_log K"]
  obtain t' where t': "build_from_probabilities (st_table v) (sk_acc K) (sk_dist K) = Ok t'"
    "table_for (sk_acc K) (sk_dist K) (ft_decode t')" "ft_accuracy_log t' = sk_acc K"
    "ft_max_symbol t' = ft_max_symbol (st_table v)" "table_wf (length (sk_codes K)) t'"
    using default_table_exists [OF K(1) m(1)] by blast
  show "update_stream K maxc err mode source v \<noteq> Panic"
    using bd(1) t'(1) by (cases mode; cases "build_decoder (st_table v) source (sk_log K)")
      (auto simp: update_stream_def)
  assume ok: "update_stream K maxc err mode source v = Ok (n, v')"
  show "n \<le> length source \<and> stream_inv K lo packed v' \<and> (mode \<noteq> RepeatMode \<longrightarrow> st_ready v')"
  proof (cases mode)
    case FSECompressed
    then obtain t where b: "build_decoder (st_table v) source (sk_log K) = Ok (n, t)"
      "v' = \<lparr>st_table = t, st_rle = None, st_pre = False, st_ready = True, st_valid = False\<rparr>"
      using ok by (cases "build_decoder (st_table v) source (sk_log K)") (auto simp: update_stream_def)
    then show ?thesis using bd(2) [OF b(1)] m(1) by (simp add: stream_inv_def stream_wf_def)
  next
    case ModeRLE
    then have "source \<noteq> []" "\<not> maxc < source ! 0" "n = 1"
      "v' = \<lparr>st_table = (st_table v)\<lparr>ft_accuracy_log := 0\<rparr>, st_rle = Some (source ! 0),
                  st_pre = False, st_ready = True, st_valid = False\<rparr>"
      using ok by (auto simp: update_stream_def split: if_splits)
    then show ?thesis using m(1) K(2)
      by (cases source) (auto simp: stream_inv_def stream_wf_def word_less_nat_alt)
  next
    case Predefined
    then show ?thesis
      using ok t' m v K(1)
      by (auto simp: update_stream_def stream_inv_def stream_wf_def stream_slot_def kind_ok_def split: if_splits)
  next
    case RepeatMode
    then show ?thesis using ok v by (simp add: update_stream_def)
  qed
qed

section \<open>Packing\<close>

lemma pack_entries_ok:
  "list_all (\<lambda>e. symbol e < length codes) es \<Longrightarrow> pack_entries codes es = Ok (map (packed_of codes) es)"
  by (induction es) (simp_all add: packed_of_def split: prod.split)

lemma ucast_base_line: "unat (b :: u32) < 65536 \<Longrightarrow> unat (ucast (ucast b :: u16) :: u32) = unat b"
  by (simp add: unsigned_ucast_eq unsigned_take_bit_eq take_bit_nat_eq_self)

lemma codes_nth:
  "kind_ok K \<Longrightarrow> s < length (sk_codes K) \<Longrightarrow> snd (sk_codes K ! s) < 256"
  by (force simp: kind_ok_def list_all_length split_beta)

text \<open>The entry of a well-formed table, packed.\<close>

lemma packed_of_fields:
  assumes K: "kind_ok K" and t: "table_wf (length (sk_codes K)) t" "ft_accuracy_log t \<le> sk_log K"
    and i: "i < length (ft_decode t)"
  defines "e \<equiv> ft_decode t ! i"
  shows "seq_entry_base (packed_of (sk_codes K) e) = fst (sk_codes K ! symbol e)"
    "unat (entry_add_bits (packed_of (sk_codes K) e)) = snd (sk_codes K ! symbol e)"
    "unat (entry_nb_bits (packed_of (sk_codes K) e)) = num_bits e"
    "unat (entry_next_state (packed_of (sk_codes K) e)) = unat (base_line e)"
    "symbol e < length (sk_codes K)" "num_bits e \<le> 9"
    "unat (base_line e) + 2 ^ num_bits e \<le> length (ft_decode t)"
proof -
  have w: "symbol e < length (sk_codes K)" "num_bits e \<le> ft_accuracy_log t"
    "unat (base_line e) + 2 ^ num_bits e \<le> length (ft_decode t)" "length (ft_decode t) = 2 ^ ft_accuracy_log t"
    using t(1) i unfolding table_wf_def list_all_length e_def by blast+
  have a: "ft_accuracy_log t \<le> 9" using t(2) K by (simp add: kind_ok_def)
  then have "(2::nat) ^ ft_accuracy_log t \<le> 2 ^ 9" by (intro power_increasing) simp_all
  then have b: "unat (base_line e) < 65536" using w(3,4) by simp
  obtain base add where c: "sk_codes K ! symbol e = (base, add)" by fastforce
  have "add < 256" using codes_nth [OF K w(1)] c by simp
  moreover have "num_bits e < 256" using w(2) a by simp
  ultimately show "seq_entry_base (packed_of (sk_codes K) e) = fst (sk_codes K ! symbol e)"
    "unat (entry_add_bits (packed_of (sk_codes K) e)) = snd (sk_codes K ! symbol e)"
    "unat (entry_nb_bits (packed_of (sk_codes K) e)) = num_bits e"
    "unat (entry_next_state (packed_of (sk_codes K) e)) = unat (base_line e)"
    using pack_entry_fields [of add "num_bits e" base "ucast (base_line e)"] ucast_base_line [OF b]
    by (simp_all add: packed_of_def c)
  show "symbol e < length (sk_codes K)" "num_bits e \<le> 9"
    "unat (base_line e) + 2 ^ num_bits e \<le> length (ft_decode t)" using w a by simp_all
qed

lemma pack_slot_ok:
  assumes K: "kind_ok K" and v: "stream_wf K v"
    and r: "lo + 2 ^ sk_log K \<le> hi" "hi \<le> length packed"
  shows "\<exists>p'. pack_slot (st_rle v) (ft_decode (st_table v)) (sk_codes K) lo hi packed = (Ok p' :: ('e, _) res)
    \<and> length p' = length packed \<and> (\<forall>i. i < lo \<or> hi \<le> i \<longrightarrow> p' ! i = packed ! i) \<and> stream_slot K lo p' v"
proof (cases "st_rle v")
  case (Some c)
  then have "unat c < length (sk_codes K)" using v by (auto simp: stream_wf_def split: if_splits)
  moreover have "lo < length packed"
    using r zero_less_power [of "2::nat" "sk_log K"] by linarith
  moreover have "lo < hi" using r(1) zero_less_power [of "2::nat" "sk_log K"] by linarith
  ultimately show ?thesis using Some by (simp add: pack_slot_def stream_slot_def)
next
  case None
  let ?d = "ft_decode (st_table v)" and ?n = "length (ft_decode (st_table v))"
  let ?out = "take (hi - lo) (drop lo packed)"
  have wf: "list_all (\<lambda>e. symbol e < length (sk_codes K)) ?d" "?n \<le> 2 ^ sk_log K"
    and ent: "\<And>i. i < ?n \<Longrightarrow> unat (entry_next_state (packed_of (sk_codes K) (?d ! i)))
      + 2 ^ unat (entry_nb_bits (packed_of (sk_codes K) (?d ! i))) \<le> ?n"
  proof -
    have "table_wf (length (sk_codes K)) (st_table v) \<or> ?d = []"
      using v None by (auto simp: stream_wf_def split: if_splits)
    then show "list_all (\<lambda>e. symbol e < length (sk_codes K)) ?d"
      by (auto simp: table_wf_def list_all_iff)
    have a: "ft_accuracy_log (st_table v) \<le> sk_log K" using v by (simp add: stream_wf_def)
    show "?n \<le> 2 ^ sk_log K"
      using \<open>table_wf _ _ \<or> _\<close> a by (auto simp: table_wf_def)
    show "\<And>i. i < ?n \<Longrightarrow> unat (entry_next_state (packed_of (sk_codes K) (?d ! i)))
      + 2 ^ unat (entry_nb_bits (packed_of (sk_codes K) (?d ! i))) \<le> ?n"
      using \<open>table_wf _ _ \<or> _\<close> packed_of_fields [OF K _ a] by auto
  qed
  have lo: "length ?out = hi - lo" "?n \<le> hi - lo" "lo \<le> hi" using r wf(2) by auto
  define out' where "out' = map (packed_of (sk_codes K)) ?d @ drop ?n ?out"
  have l': "length out' = hi - lo" using lo by (simp add: out'_def)
  have "pack_seq_table ?d (sk_codes K) ?out = (Ok out' :: ('e, _) res)"
    using wf(1) lo ent by (simp add: pack_seq_table_def pack_entries_ok out'_def list_all_length nth_append Let_def)
  then have "pack_slot (st_rle v) ?d (sk_codes K) lo hi packed = (Ok (take lo packed @ out' @ drop hi packed) :: ('e, _) res)"
    using None lo r by (simp add: pack_slot_def splice_def)
  moreover have "(take lo packed @ out' @ drop hi packed) ! (lo + i) = packed_of (sk_codes K) (?d ! i)" if "i < ?n" for i
  proof -
    have "i < length out'" using that lo(2) l' by simp
    then show ?thesis using that lo r by (simp add: nth_append out'_def)
  qed
  moreover have "\<forall>i. i < lo \<or> hi \<le> i \<longrightarrow> (take lo packed @ out' @ drop hi packed) ! i = packed ! i"
    using lo r l' by (auto simp: nth_append)
  ultimately show ?thesis using None lo r l' by (simp add: stream_slot_def)
qed

end
