(* ===== verification/Seq_Safety.thy ===== *)
theory Seq_Safety
  imports Seq_Tables
begin

text \<open>
  Safety of the sequence decoder on arbitrary input: with a scratch that satisfies its invariant, no
  block, however corrupt, makes it read outside the packed tables or the source, overflow a checked
  addition or loop; it returns an error, or exactly the announced number of sequences and a scratch
  that satisfies the invariant again.
\<close>

unbundle bit_operations_syntax

section \<open>The invariant of the scratch\<close>

definition LL_KIND :: StreamKind where
  "LL_KIND = \<lparr>sk_acc = LL_DEFAULT_ACC_LOG, sk_dist = LL_DEFAULT_DISTRIBUTION, sk_codes = LL_CODES, sk_log = LL_MAX_LOG\<rparr>"

definition ML_KIND :: StreamKind where
  "ML_KIND = \<lparr>sk_acc = ML_DEFAULT_ACC_LOG, sk_dist = ML_DEFAULT_DISTRIBUTION, sk_codes = ML_CODES, sk_log = ML_MAX_LOG\<rparr>"

definition OF_KIND :: StreamKind where
  "OF_KIND = \<lparr>sk_acc = OF_DEFAULT_ACC_LOG, sk_dist = OF_DEFAULT_DISTRIBUTION, sk_codes = OF_CODES, sk_log = OF_MAX_LOG\<rparr>"

definition view_ll :: "FSEScratch \<Rightarrow> Stream" where
  "view_ll s = \<lparr>st_table = fs_literal_lengths s, st_rle = fs_ll_rle s, st_pre = fs_ll_predefined s,
     st_ready = fs_ll_ready s, st_valid = fs_ll_seq_valid s\<rparr>"

definition view_ml :: "FSEScratch \<Rightarrow> Stream" where
  "view_ml s = \<lparr>st_table = fs_match_lengths s, st_rle = fs_ml_rle s, st_pre = fs_ml_predefined s,
     st_ready = fs_ml_ready s, st_valid = fs_ml_seq_valid s\<rparr>"

definition view_of :: "FSEScratch \<Rightarrow> Stream" where
  "view_of s = \<lparr>st_table = fs_offsets s, st_rle = fs_of_rle s, st_pre = fs_of_predefined s,
     st_ready = fs_of_ready s, st_valid = fs_of_seq_valid s\<rparr>"

definition put_ll :: "Stream \<Rightarrow> FSEScratch \<Rightarrow> FSEScratch" where
  "put_ll v s = s\<lparr>fs_literal_lengths := st_table v, fs_ll_rle := st_rle v, fs_ll_predefined := st_pre v,
     fs_ll_ready := st_ready v, fs_ll_seq_valid := st_valid v\<rparr>"

definition put_ml :: "Stream \<Rightarrow> FSEScratch \<Rightarrow> FSEScratch" where
  "put_ml v s = s\<lparr>fs_match_lengths := st_table v, fs_ml_rle := st_rle v, fs_ml_predefined := st_pre v,
     fs_ml_ready := st_ready v, fs_ml_seq_valid := st_valid v\<rparr>"

definition put_of :: "Stream \<Rightarrow> FSEScratch \<Rightarrow> FSEScratch" where
  "put_of v s = s\<lparr>fs_offsets := st_table v, fs_of_rle := st_rle v, fs_of_predefined := st_pre v,
     fs_of_ready := st_ready v, fs_of_seq_valid := st_valid v\<rparr>"

definition fs_inv :: "FSEScratch \<Rightarrow> bool" where
  "fs_inv s \<longleftrightarrow> length (fs_seq_packed s) = SEQ_TABLE_SLOTS
     \<and> stream_inv LL_KIND LL_SLOT (fs_seq_packed s) (view_ll s)
     \<and> stream_inv ML_KIND ML_SLOT (fs_seq_packed s) (view_ml s)
     \<and> stream_inv OF_KIND OF_SLOT (fs_seq_packed s) (view_of s)"

lemma view_put [simp]:
  "view_ll (put_ll v s) = v" "view_ml (put_ll v s) = view_ml s" "view_of (put_ll v s) = view_of s"
  "view_ll (put_ml v s) = view_ll s" "view_ml (put_ml v s) = v" "view_of (put_ml v s) = view_of s"
  "view_ll (put_of v s) = view_ll s" "view_ml (put_of v s) = view_ml s" "view_of (put_of v s) = v"
  "fs_seq_packed (put_ll v s) = fs_seq_packed s" "fs_seq_packed (put_ml v s) = fs_seq_packed s"
  "fs_seq_packed (put_of v s) = fs_seq_packed s"
  by (simp_all add: view_ll_def view_ml_def view_of_def put_ll_def put_ml_def put_of_def)

lemma dist_valid_match_length: "dist_valid 6 ML_DEFAULT_DISTRIBUTION"
  by (simp add: dist_valid_def ML_DEFAULT_DISTRIBUTION_def)

lemma dist_valid_offset: "dist_valid 5 OF_DEFAULT_DISTRIBUTION"
  by (simp add: dist_valid_def OF_DEFAULT_DISTRIBUTION_def)

lemma kinds_ok: "kind_ok LL_KIND" "kind_ok ML_KIND" "kind_ok OF_KIND"
proof -
  show "kind_ok LL_KIND"
    using dist_valid_literals_length
    by (simp add: kind_ok_def LL_KIND_def LL_CODES_def LL_DEFAULT_ACC_LOG_def LL_MAX_LOG_def LL_DEFAULT_DISTRIBUTION_def)
  show "kind_ok ML_KIND"
    using dist_valid_match_length
    by (simp add: kind_ok_def ML_KIND_def ML_CODES_def ML_DEFAULT_ACC_LOG_def ML_MAX_LOG_def ML_DEFAULT_DISTRIBUTION_def)
  have "list_all (\<lambda>(b, n). n \<le> 31 \<and> unat b + 2 ^ n \<le> 2 ^ 32) OF_CODES"
    by (simp add: OF_CODES_def upt_rec)
  then show "kind_ok OF_KIND"
    using dist_valid_offset
    by (simp add: kind_ok_def OF_KIND_def OF_CODES_def OF_DEFAULT_ACC_LOG_def OF_MAX_LOG_def OF_DEFAULT_DISTRIBUTION_def)
qed

lemma kind_simps [simp]:
  "sk_codes LL_KIND = LL_CODES" "sk_codes ML_KIND = ML_CODES" "sk_codes OF_KIND = OF_CODES"
  "sk_log LL_KIND = 9" "sk_log ML_KIND = 9" "sk_log OF_KIND = 8"
  "sk_acc LL_KIND = 6" "sk_acc ML_KIND = 6" "sk_acc OF_KIND = 5"
  "sk_dist LL_KIND = LL_DEFAULT_DISTRIBUTION" "sk_dist ML_KIND = ML_DEFAULT_DISTRIBUTION"
  "sk_dist OF_KIND = OF_DEFAULT_DISTRIBUTION"
  by (simp_all add: LL_KIND_def ML_KIND_def OF_KIND_def LL_MAX_LOG_def ML_MAX_LOG_def OF_MAX_LOG_def
      LL_DEFAULT_ACC_LOG_def ML_DEFAULT_ACC_LOG_def OF_DEFAULT_ACC_LOG_def)

lemma slot_values: "LL_SLOT = 0" "ML_SLOT = 512" "OF_SLOT = 1024" "SEQ_TABLE_SLOTS = 1280"
  by (simp_all add: LL_SLOT_def ML_SLOT_def OF_SLOT_def SEQ_TABLE_SLOTS_def LL_MAX_LOG_def ML_MAX_LOG_def OF_MAX_LOG_def)

lemma codes_lengths: "length LL_CODES = 36" "length ML_CODES = 53" "length OF_CODES = 32"
  by (simp_all add: LL_CODES_def ML_CODES_def OF_CODES_def)

lemma fs_inv_new: "fs_inv fs_new"
  by (simp add: fs_inv_def fs_new_def view_ll_def view_ml_def view_of_def stream_inv_def stream_wf_def ft_new_def
      codes_lengths MAX_OFFSET_CODE_def MAX_LITERAL_LENGTH_CODE_def MAX_MATCH_LENGTH_CODE_def)

lemma fs_inv_reset: "fs_inv s \<Longrightarrow> fs_inv (fs_reset s)"
  by (simp add: fs_inv_def fs_reset_def view_ll_def view_ml_def view_of_def stream_inv_def stream_wf_def ft_reset_def
      codes_lengths)

section \<open>Installing and packing\<close>

lemmas update_defs = update_ll_table_def update_ml_table_def update_of_table_def update_stream_def
  view_ll_def view_ml_def view_of_def put_ll_def put_ml_def put_of_def

lemmas default_logs = LL_DEFAULT_ACC_LOG_def ML_DEFAULT_ACC_LOG_def OF_DEFAULT_ACC_LOG_def
  LL_MAX_LOG_def ML_MAX_LOG_def OF_MAX_LOG_def

lemma update_ll_view:
  "update_ll_table mode source s = rbind (update_stream LL_KIND MAX_LITERAL_LENGTH_CODE MissingByteForRleLlTable
     mode source (view_ll s)) (\<lambda>(n, v). Ok (n, put_ll v s))"
  by (cases mode; cases "build_decoder (fs_literal_lengths s) source 9";
      cases "build_from_probabilities (fs_literal_lengths s) 6 LL_DEFAULT_DISTRIBUTION")
    (auto simp: update_defs default_logs)

lemma update_ml_view:
  "update_ml_table mode source s = rbind (update_stream ML_KIND MAX_MATCH_LENGTH_CODE MissingByteForRleMlTable
     mode source (view_ml s)) (\<lambda>(n, v). Ok (n, put_ml v s))"
  by (cases mode; cases "build_decoder (fs_match_lengths s) source 9";
      cases "build_from_probabilities (fs_match_lengths s) 6 ML_DEFAULT_DISTRIBUTION")
    (auto simp: update_defs default_logs)

lemma update_of_view:
  "update_of_table mode source s = rbind (update_stream OF_KIND MAX_OFFSET_CODE MissingByteForRleOfTable
     mode source (view_of s)) (\<lambda>(n, v). Ok (n, put_of v s))"
  by (cases mode; cases "build_decoder (fs_offsets s) source 8";
      cases "build_from_probabilities (fs_offsets s) 5 OF_DEFAULT_DISTRIBUTION")
    (auto simp: update_defs default_logs)

lemma max_codes: "unat MAX_LITERAL_LENGTH_CODE + 1 = length (sk_codes LL_KIND)"
  "unat MAX_MATCH_LENGTH_CODE + 1 = length (sk_codes ML_KIND)" "unat MAX_OFFSET_CODE + 1 = length (sk_codes OF_KIND)"
  by (simp_all add: codes_lengths MAX_LITERAL_LENGTH_CODE_def MAX_MATCH_LENGTH_CODE_def MAX_OFFSET_CODE_def)

lemma mode_total: "\<exists>m. decode_mode (b AND 3) = Ok m" "\<exists>m. decode_mode (drop_bit 6 b) = Ok m"
proof -
  have "unat (b AND 3) < 4"
  proof -
    have "b AND 3 = take_bit 2 b" by (simp add: take_bit_eq_mask mask_eq_exp_minus_1)
    then have "unat (b AND 3) = take_bit 2 (unat b)" by (simp only: unsigned_take_bit_eq)
    then show ?thesis using take_bit_nat_less_exp [of 2 "unat b"] by simp
  qed
  moreover have "unat (drop_bit 6 b) < 4"
    using unsigned_less [of b, where 'a = nat] by (simp add: drop_bit_eq_div unat_div)
  moreover have "\<exists>m. decode_mode x = Ok m" if lt: "unat x < 4" for x
  proof -
    consider "unat x = 0" | "unat x = 1" | "unat x = 2" | "unat x = 3" using lt by linarith
    then show ?thesis by cases (auto simp: decode_mode_def word_unat_eq_iff)
  qed
  ultimately show "\<exists>m. decode_mode (b AND 3) = Ok m" "\<exists>m. decode_mode (drop_bit 6 b) = Ok m" by blast+
qed

definition installs :: "nat \<Rightarrow> (DecodeSequenceError, nat \<times> FSEScratch) res \<Rightarrow> bool" where
  "installs k r \<longleftrightarrow> r \<noteq> Panic \<and> (\<forall>n s'. r = Ok (n, s') \<longrightarrow> n \<le> k \<and> fs_inv s')"

lemma update_tables_ok:
  assumes "fs_inv s"
  shows "installs (length source) (update_ll_table mode source s)"
    "installs (length source) (update_ml_table mode source s)"
    "installs (length source) (update_of_table mode source s)"
proof -
  have i: "stream_inv LL_KIND LL_SLOT (fs_seq_packed s) (view_ll s)"
    "stream_inv ML_KIND ML_SLOT (fs_seq_packed s) (view_ml s)"
    "stream_inv OF_KIND OF_SLOT (fs_seq_packed s) (view_of s)" using assms by (simp_all add: fs_inv_def)
  show "installs (length source) (update_ll_table mode source s)"
    using update_stream_ok [OF kinds_ok(1) max_codes(1) i(1)] assms
    by (force simp: installs_def update_ll_view rbind_eq_Panic rbind_eq_Ok fs_inv_def)
  show "installs (length source) (update_ml_table mode source s)"
    using update_stream_ok [OF kinds_ok(2) max_codes(2) i(2)] assms
    by (force simp: installs_def update_ml_view rbind_eq_Panic rbind_eq_Ok fs_inv_def)
  show "installs (length source) (update_of_table mode source s)"
    using update_stream_ok [OF kinds_ok(3) max_codes(3) i(3)] assms
    by (force simp: installs_def update_of_view rbind_eq_Panic rbind_eq_Ok fs_inv_def)
qed

lemma maybe_update_ok:
  assumes "fs_inv s"
  shows "installs (length source) (maybe_update_fse_tables hdr source s)"
proof (cases "sh_modes hdr")
  case None
  then show ?thesis by (simp add: installs_def maybe_update_fse_tables_def ok_or_def)
next
  case (Some b)
  obtain ml mo mm where m: "ll_mode b = Ok ml" "of_mode b = Ok mo" "ml_mode b = Ok mm"
    using mode_total unfolding ll_mode_def of_mode_def ml_mode_def by metis
  have eq: "maybe_update_fse_tables hdr source s =
    rbind (update_ll_table ml source s) (\<lambda>(n1, s). rbind (slice_from source n1) (\<lambda>src.
    rbind (update_of_table mo src s) (\<lambda>(n2, s). rbind (slice_from source (n1 + n2)) (\<lambda>src.
    rbind (update_ml_table mm src s) (\<lambda>(n3, s). Ok (n1 + n2 + n3, s))))))"
    using Some m by (simp add: maybe_update_fse_tables_def ok_or_def)
  show ?thesis
  proof (cases "update_ll_table ml source s")
    case (Ok r1)
    obtain n1 s1 where r1: "r1 = (n1, s1)" by (cases r1)
    have n1: "n1 \<le> length source" "fs_inv s1"
      using update_tables_ok(1) [OF assms, of source ml] Ok r1 by (simp_all add: installs_def)
    show ?thesis
    proof (cases "update_of_table mo (drop n1 source) s1")
      case (Ok r2)
      obtain n2 s2 where r2: "r2 = (n2, s2)" by (cases r2)
      have n2: "n1 + n2 \<le> length source" "fs_inv s2"
        using update_tables_ok(3) [OF n1(2), of "drop n1 source" mo] Ok r2 n1(1) by (auto simp: installs_def)
      show ?thesis
        using update_tables_ok(2) [OF n2(2), of "drop (n1 + n2) source" mm] n1 n2
          \<open>update_ll_table ml source s = Ok r1\<close> Ok r1 r2
        by (cases "update_ml_table mm (drop (n1 + n2) source) s2")
          (auto simp: eq slice_from_def installs_def)
    qed (use update_tables_ok(3) [OF n1(2), of "drop n1 source" mo] n1 Ok r1 in
        \<open>simp_all add: eq slice_from_def installs_def\<close>)
  qed (use update_tables_ok(1) [OF assms, of source ml] in \<open>simp_all add: eq installs_def\<close>)
qed

text \<open>Packing never fails, keeps the invariant, and makes every slot valid.\<close>

lemma decode_length: "stream_wf K v \<Longrightarrow> st_rle v = None \<Longrightarrow> length (ft_decode (st_table v)) \<le> 2 ^ sk_log K"
proof -
  assume v: "stream_wf K v" "st_rle v = None"
  then have "table_wf (length (sk_codes K)) (st_table v) \<or> ft_decode (st_table v) = []"
    by (auto simp: stream_wf_def split: if_splits)
  moreover have "ft_accuracy_log (st_table v) \<le> sk_log K" using v by (simp add: stream_wf_def)
  ultimately show ?thesis by (auto simp: table_wf_def)
qed

lemma slot_kept:
  assumes "stream_slot K lo p v" "stream_wf K v" "\<forall>i. lo \<le> i \<and> i < lo + 2 ^ sk_log K \<longrightarrow> p' ! i = p ! i"
  shows "stream_slot K lo p' v"
proof (cases "st_rle v")
  case (Some c)
  have "0 < (2::nat) ^ sk_log K" by simp
  then show ?thesis using assms Some by (simp add: stream_slot_def)
next
  case None
  have "length (ft_decode (st_table v)) \<le> 2 ^ sk_log K" using assms(2) None by (rule decode_length)
  then show ?thesis using assms(1,3) None by (simp add: stream_slot_def)
qed

lemma inv_kept:
  "stream_inv K lo p v \<Longrightarrow> \<forall>i. lo \<le> i \<and> i < lo + 2 ^ sk_log K \<longrightarrow> p' ! i = p ! i \<Longrightarrow> stream_inv K lo p' v"
  using slot_kept by (auto simp: stream_inv_def)

definition pack_stream ::
  "StreamKind \<Rightarrow> nat \<Rightarrow> nat \<Rightarrow> u64 list \<Rightarrow> Stream \<Rightarrow> (DecodeSequenceError, u64 list) res" where
  "pack_stream K lo hi packed v = (if \<not> st_valid v
     then pack_slot (st_rle v) (ft_decode (st_table v)) (sk_codes K) lo hi packed else Ok packed)"

lemma valid_flag [simp]:
  "stream_slot K lo p (v\<lparr>st_valid := b\<rparr>) = stream_slot K lo p v"
  "stream_wf K (v\<lparr>st_valid := b\<rparr>) = stream_wf K v"
  by (cases "st_rle v"; cases "st_ready v"; simp add: stream_slot_def stream_wf_def)+

lemma pack_stream_ok:
  assumes "kind_ok K" "stream_inv K lo packed v" "lo + 2 ^ sk_log K \<le> hi" "hi \<le> length packed"
  obtains p' where "pack_stream K lo hi packed v = Ok p'" "length p' = length packed"
    "\<forall>i. i < lo \<or> hi \<le> i \<longrightarrow> p' ! i = packed ! i" "stream_inv K lo p' (v\<lparr>st_valid := True\<rparr>)"
proof -
  have wf: "stream_wf K v" using assms(2) by (simp add: stream_inv_def)
  show ?thesis
  proof (cases "st_valid v")
    case True
    then show ?thesis using assms(2) by (intro that [of packed])
        (simp_all add: pack_stream_def stream_inv_def)
  next
    case False
    obtain p' where "pack_slot (st_rle v) (ft_decode (st_table v)) (sk_codes K) lo hi packed
        = (Ok p' :: (DecodeSequenceError, _) res)" "length p' = length packed"
      "\<forall>i. i < lo \<or> hi \<le> i \<longrightarrow> p' ! i = packed ! i" "stream_slot K lo p' v"
      using pack_slot_ok [OF assms(1) wf assms(3,4)] by blast
    then show ?thesis using False wf by (intro that [of p'])
        (simp_all add: pack_stream_def stream_inv_def)
  qed
qed

lemma put_valid:
  "fs_ll_seq_valid s \<Longrightarrow> put_ll ((view_ll s)\<lparr>st_valid := True\<rparr>) s = s"
  "fs_ml_seq_valid s \<Longrightarrow> put_ml ((view_ml s)\<lparr>st_valid := True\<rparr>) s = s"
  "fs_of_seq_valid s \<Longrightarrow> put_of ((view_of s)\<lparr>st_valid := True\<rparr>) s = s"
  by (simp_all add: put_ll_def put_ml_def put_of_def view_ll_def view_ml_def view_of_def)

lemma pack_tables_eq:
  "pack_tables s =
    rbind (pack_stream LL_KIND LL_SLOT ML_SLOT (fs_seq_packed s) (view_ll s)) (\<lambda>p.
    let s = put_ll ((view_ll s)\<lparr>st_valid := True\<rparr>) (s\<lparr>fs_seq_packed := p\<rparr>) in
    rbind (pack_stream ML_KIND ML_SLOT OF_SLOT (fs_seq_packed s) (view_ml s)) (\<lambda>p.
    let s = put_ml ((view_ml s)\<lparr>st_valid := True\<rparr>) (s\<lparr>fs_seq_packed := p\<rparr>) in
    rbind (pack_stream OF_KIND OF_SLOT (length (fs_seq_packed s)) (fs_seq_packed s) (view_of s)) (\<lambda>p.
      Ok (put_of ((view_of s)\<lparr>st_valid := True\<rparr>) (s\<lparr>fs_seq_packed := p\<rparr>)))))"
proof -
  have step: "(if \<not> fs_ll_seq_valid s then
        rbind (pack_slot (fs_ll_rle s) (ft_decode (fs_literal_lengths s)) LL_CODES LL_SLOT ML_SLOT
          (fs_seq_packed s)) (\<lambda>p. Ok (s\<lparr>fs_seq_packed := p, fs_ll_seq_valid := True\<rparr>)) else Ok s)
      = rbind (pack_stream LL_KIND LL_SLOT ML_SLOT (fs_seq_packed s) (view_ll s))
          (\<lambda>p. Ok (put_ll ((view_ll s)\<lparr>st_valid := True\<rparr>) (s\<lparr>fs_seq_packed := p\<rparr>)))"
    "(if \<not> fs_ml_seq_valid s then
        rbind (pack_slot (fs_ml_rle s) (ft_decode (fs_match_lengths s)) ML_CODES ML_SLOT OF_SLOT
          (fs_seq_packed s)) (\<lambda>p. Ok (s\<lparr>fs_seq_packed := p, fs_ml_seq_valid := True\<rparr>)) else Ok s)
      = rbind (pack_stream ML_KIND ML_SLOT OF_SLOT (fs_seq_packed s) (view_ml s))
          (\<lambda>p. Ok (put_ml ((view_ml s)\<lparr>st_valid := True\<rparr>) (s\<lparr>fs_seq_packed := p\<rparr>)))"
    "(if \<not> fs_of_seq_valid s then
        rbind (pack_slot (fs_of_rle s) (ft_decode (fs_offsets s)) OF_CODES OF_SLOT
          (length (fs_seq_packed s)) (fs_seq_packed s)) (\<lambda>p. Ok (s\<lparr>fs_seq_packed := p, fs_of_seq_valid := True\<rparr>)) else Ok s)
      = rbind (pack_stream OF_KIND OF_SLOT (length (fs_seq_packed s)) (fs_seq_packed s) (view_of s))
          (\<lambda>p. Ok (put_of ((view_of s)\<lparr>st_valid := True\<rparr>) (s\<lparr>fs_seq_packed := p\<rparr>)))" for s
    by (auto simp: pack_stream_def view_ll_def view_ml_def view_of_def put_ll_def put_ml_def put_of_def
        intro!: arg_cong2 [where f = rbind])
  show ?thesis unfolding pack_tables_def step by (simp add: rbind_assoc Let_def)
qed

lemma view_packed [simp]:
  "view_ll (s\<lparr>fs_seq_packed := p\<rparr>) = view_ll s" "view_ml (s\<lparr>fs_seq_packed := p\<rparr>) = view_ml s"
  "view_of (s\<lparr>fs_seq_packed := p\<rparr>) = view_of s"
  by (simp_all add: view_ll_def view_ml_def view_of_def)

lemma pack_tables_ok:
  assumes "fs_inv s"
  obtains s' where "pack_tables s = (Ok s' :: (DecodeSequenceError, _) res)" "fs_inv s'" "view_ll s' = (view_ll s)\<lparr>st_valid := True\<rparr>"
    "view_ml s' = (view_ml s)\<lparr>st_valid := True\<rparr>" "view_of s' = (view_of s)\<lparr>st_valid := True\<rparr>"
proof -
  have len: "length (fs_seq_packed s) = 1280" and i: "stream_inv LL_KIND LL_SLOT (fs_seq_packed s) (view_ll s)"
    "stream_inv ML_KIND ML_SLOT (fs_seq_packed s) (view_ml s)" "stream_inv OF_KIND OF_SLOT (fs_seq_packed s) (view_of s)"
    using assms by (simp_all add: fs_inv_def slot_values)
  obtain p1 where p1: "pack_stream LL_KIND LL_SLOT ML_SLOT (fs_seq_packed s) (view_ll s) = Ok p1"
    "length p1 = 1280" "\<forall>i. i < LL_SLOT \<or> ML_SLOT \<le> i \<longrightarrow> p1 ! i = fs_seq_packed s ! i"
    "stream_inv LL_KIND LL_SLOT p1 ((view_ll s)\<lparr>st_valid := True\<rparr>)"
    using pack_stream_ok [OF kinds_ok(1) i(1), of ML_SLOT] len by (auto simp: slot_values)
  have m1: "stream_inv ML_KIND ML_SLOT p1 (view_ml s)" "stream_inv OF_KIND OF_SLOT p1 (view_of s)"
    using i(2,3) p1(3) by (auto elim!: inv_kept simp: slot_values)
  obtain p2 where p2: "pack_stream ML_KIND ML_SLOT OF_SLOT p1 (view_ml s) = Ok p2"
    "length p2 = 1280" "\<forall>i. i < ML_SLOT \<or> OF_SLOT \<le> i \<longrightarrow> p2 ! i = p1 ! i"
    "stream_inv ML_KIND ML_SLOT p2 ((view_ml s)\<lparr>st_valid := True\<rparr>)"
    using pack_stream_ok [OF kinds_ok(2) m1(1), of OF_SLOT] p1(2) by (auto simp: slot_values)
  have m2: "stream_inv LL_KIND LL_SLOT p2 ((view_ll s)\<lparr>st_valid := True\<rparr>)" "stream_inv OF_KIND OF_SLOT p2 (view_of s)"
    using p1(4) m1(2) p2(3) by (auto elim!: inv_kept simp: slot_values)
  obtain p3 where p3: "pack_stream OF_KIND OF_SLOT 1280 p2 (view_of s) = Ok p3"
    "length p3 = 1280" "\<forall>i. i < OF_SLOT \<or> 1280 \<le> i \<longrightarrow> p3 ! i = p2 ! i"
    "stream_inv OF_KIND OF_SLOT p3 ((view_of s)\<lparr>st_valid := True\<rparr>)"
    using pack_stream_ok [OF kinds_ok(3) m2(2), of 1280] p2(2) by (auto simp: slot_values)
  have m3: "stream_inv LL_KIND LL_SLOT p3 ((view_ll s)\<lparr>st_valid := True\<rparr>)"
    "stream_inv ML_KIND ML_SLOT p3 ((view_ml s)\<lparr>st_valid := True\<rparr>)"
    using m2(1) p2(4) p3(3) by (auto elim!: inv_kept simp: slot_values)
  define s1 where "s1 = put_ll ((view_ll s)\<lparr>st_valid := True\<rparr>) (s\<lparr>fs_seq_packed := p1\<rparr>)"
  define s2 where "s2 = put_ml ((view_ml s)\<lparr>st_valid := True\<rparr>) (s1\<lparr>fs_seq_packed := p2\<rparr>)"
  define s3 where "s3 = put_of ((view_of s)\<lparr>st_valid := True\<rparr>) (s2\<lparr>fs_seq_packed := p3\<rparr>)"
  have v: "view_ll s3 = (view_ll s)\<lparr>st_valid := True\<rparr>" "view_ml s3 = (view_ml s)\<lparr>st_valid := True\<rparr>"
    "view_of s3 = (view_of s)\<lparr>st_valid := True\<rparr>" "fs_seq_packed s3 = p3"
    by (simp_all add: s1_def s2_def s3_def)
  have "pack_tables s = (Ok s3 :: (DecodeSequenceError, _) res)"
    using p1(1) p2(1,2) p3(1) by (simp add: pack_tables_eq Let_def s1_def s2_def s3_def)
  moreover have "fs_inv s3" using p3(2,4) m3 by (simp add: fs_inv_def v slot_values)
  ultimately show ?thesis using v that by blast
qed

section \<open>Decoding stays inside\<close>

definition entry_safe :: "nat \<Rightarrow> u64 \<Rightarrow> bool" where
  "entry_safe n e \<longleftrightarrow> unat (entry_add_bits e) \<le> 31
     \<and> unat (seq_entry_base e) + 2 ^ unat (entry_add_bits e) \<le> 2 ^ 32 \<and> unat (entry_nb_bits e) \<le> 9
     \<and> unat (entry_next_state e) + 2 ^ unat (entry_nb_bits e) \<le> n"

definition slot_safe :: "u64 list \<Rightarrow> nat \<Rightarrow> nat \<Rightarrow> bool" where
  "slot_safe tbl lo n \<longleftrightarrow> n \<le> 512 \<and> (\<forall>i<n. lo + i < length tbl \<and> entry_safe n (tbl ! (lo + i)))"

definition win_safe :: "bytes \<Rightarrow> window \<Rightarrow> bool" where
  "win_safe src w \<longleftrightarrow> fst w = 0 \<or> fst w + 8 \<le> length src"

definition decoder_safe :: "SeqDecoder \<Rightarrow> bool" where
  "decoder_safe d \<longleftrightarrow> win_safe (sd_src d) (sd_win d) \<and> (\<exists>nl nm nf.
     slot_safe (sd_tbl d) LL_SLOT nl \<and> slot_safe (sd_tbl d) ML_SLOT nm \<and> slot_safe (sd_tbl d) OF_SLOT nf
     \<and> unat (sd_ll_state d) < nl \<and> unat (sd_ml_state d) < nm \<and> unat (sd_of_state d) < nf)"

lemma stream_slot_safe:
  assumes K: "kind_ok K" and v: "stream_inv K lo packed v" "st_ready v" "st_valid v"
    and hi: "lo + 2 ^ sk_log K \<le> length packed"
  shows "slot_safe packed lo (2 ^ ft_accuracy_log (st_table v))"
proof (cases "st_rle v")
  case (Some c)
  have c: "unat c < length (sk_codes K)" "ft_accuracy_log (st_table v) = 0"
    "packed ! lo = pack_rle_entry (sk_codes K ! unat c)"
    using v Some by (simp_all add: stream_inv_def stream_wf_def stream_slot_def)
  obtain b a where ba: "sk_codes K ! unat c = (b, a)" by fastforce
  have n: "a \<le> 31" "unat b + 2 ^ a \<le> 2 ^ 32" using K c(1) ba by (force simp: kind_ok_def list_all_length)+
  then have "entry_safe 1 (packed ! lo)"
    unfolding c(3) ba using pack_entry_fields [of a 0 b 0] by (simp add: pack_rle_entry_def entry_safe_def)
  moreover have "lo < length packed" using hi zero_less_power [of "2::nat" "sk_log K"] by linarith
  ultimately show ?thesis using c(2) by (simp add: slot_safe_def)
next
  case None
  let ?t = "st_table v"
  have t: "table_wf (length (sk_codes K)) ?t" "ft_accuracy_log ?t \<le> sk_log K"
    and p: "\<And>i. i < length (ft_decode ?t) \<Longrightarrow> packed ! (lo + i) = packed_of (sk_codes K) (ft_decode ?t ! i)"
    using v None by (simp_all add: stream_inv_def stream_wf_def stream_slot_def)
  have l: "length (ft_decode ?t) = 2 ^ ft_accuracy_log ?t" using t(1) by (simp add: table_wf_def)
  have n1: "(2::nat) ^ ft_accuracy_log ?t \<le> 2 ^ sk_log K" by (rule power_increasing [OF t(2)]) simp
  have n2: "(2::nat) ^ sk_log K \<le> 2 ^ 9" using K by (intro power_increasing) (simp_all add: kind_ok_def)
  have n3: "entry_safe (2 ^ ft_accuracy_log ?t) (packed ! (lo + i))" if i: "i < 2 ^ ft_accuracy_log ?t" for i
  proof -
    have i': "i < length (ft_decode ?t)" using i l by simp
    note f = packed_of_fields [OF K t i']
    obtain b a where ba: "sk_codes K ! symbol (ft_decode ?t ! i) = (b, a)" by fastforce
    have "a \<le> 31" "unat b + 2 ^ a \<le> 2 ^ 32" using K f(5) ba by (force simp: kind_ok_def list_all_length)+
    then show ?thesis unfolding p [OF i'] using f(6,7) l by (simp add: entry_safe_def f(1-4) ba)
  qed
  show ?thesis unfolding slot_safe_def
  proof (intro conjI allI impI)
    show "2 ^ ft_accuracy_log ?t \<le> (512 :: nat)" using le_trans [OF n1 n2] by simp
    fix i assume i: "i < (2::nat) ^ ft_accuracy_log ?t"
    show "lo + i < length packed" using i n1 hi by linarith
    show "entry_safe (2 ^ ft_accuracy_log ?t) (packed ! (lo + i))" by (rule n3 [OF i])
  qed
qed

lemma win_read_safe:
  "n < 64 \<Longrightarrow> win_safe src w \<Longrightarrow> \<exists>v w'. win_read w n = (Ok (v, w') :: ('e, _) res) \<and> win_safe src w'"
  by (cases w) (simp add: win_read_def win_safe_def)

lemma reload_safe:
  assumes "win_safe src w"
  shows "\<exists>st w'. reload src w = (Ok (st, w') :: ('e, _) res) \<and> win_safe src w'"
proof -
  obtain ip win c where w: "w = (ip, win, c)" by (cases w)
  have a: "ip = 0 \<or> ip + 8 \<le> length src" using assms by (simp add: w win_safe_def)
  have load: "\<exists>v. load_le64 src p = (Ok v :: ('e, u64) res)" if "p + 8 \<le> length src" for p
    using that by (simp add: load_le64_def)
  consider "64 < c" | "c \<le> 64" "8 \<le> ip" | "c \<le> 64" "ip < 8" by linarith
  then show ?thesis
  proof cases
    case 1
    then show ?thesis using a by (simp add: w reload_def win_safe_def)
  next
    case 2
    then have "ip - c div 8 + 8 \<le> length src" using a by linarith
    then show ?thesis using load [of "ip - c div 8"] 2 by (auto simp: w reload_def win_safe_def Let_def)
  next
    case 3
    define nb where "nb = min (c div 8) ip"
    show ?thesis
    proof (cases "nb > 0")
      case True
      then have "ip - nb + 8 \<le> length src" using a by (auto simp: nb_def)
      then show ?thesis using load [of "ip - nb"] 3 True
        unfolding w reload_def reload_slow_def Let_def prod.case nb_def [symmetric] by (auto simp: win_safe_def)
    next
      case False
      then show ?thesis using 3 a
        unfolding w reload_def reload_slow_def Let_def prod.case nb_def [symmetric] by (auto simp: win_safe_def)
    qed
  qed
qed

lemma low_mask_less: "n < 64 \<Longrightarrow> unat (v AND low_mask n) < 2 ^ n"
proof -
  assume "n < 64"
  have "v AND low_mask n = take_bit n v" by (simp add: low_mask_def take_bit_eq_mask mask_eq_exp_minus_1)
  then have "unat (v AND low_mask n) = take_bit n (unat v)" by (simp only: unsigned_take_bit_eq)
  then show ?thesis by simp
qed

lemma checked_add_masked:
  assumes "n \<le> 31" "unat b + 2 ^ n \<le> 2 ^ 32"
  shows "\<exists>r. checked_add32 b (ucast (v AND low_mask n :: u64)) = (Ok r :: ('e, _) res)
    \<and> unat r < unat b + 2 ^ n"
proof -
  have v: "unat (v AND low_mask n) < 2 ^ n" using assms(1) by (intro low_mask_less) simp
  have "(2::nat) ^ n < 2 ^ 32" using assms(1) by (intro power_strict_increasing) simp_all
  then have "unat (v AND low_mask n) < 2 ^ 32" using v by linarith
  then have u: "unat (ucast (v AND low_mask n) :: u32) = unat (v AND low_mask n)"
    by (simp add: unsigned_ucast_eq take_bit_nat_eq_self)
  have s: "unat b + unat (v AND low_mask n) < 2 ^ 32" using v assms(2) by linarith
  then have "unat (b + ucast (v AND low_mask n)) = unat b + unat (v AND low_mask n)"
    using u by (simp add: unat_word_ariths)
  then show ?thesis using s u v by (simp add: checked_add32_def)
qed

lemma read_fields_safe:
  assumes "ln \<le> 31" "mn \<le> 31" "fn \<le> 31" "win_safe src w"
  shows "(\<exists>e. read_fields src w ln mn fn = Err e) \<or> (\<exists>x y z w'.
    read_fields src w ln mn fn = Ok ((x AND low_mask fn, y AND low_mask mn, z AND low_mask ln), w') \<and> win_safe src w')"
proof (cases "ln + mn + fn \<le> 31")
  case True
  then show ?thesis
    using win_read_safe [OF _ assms(4), of "ln + mn + fn", where 'e = DecodeSequenceError]
    by (fastforce simp: read_fields_def)
next
  case False
  obtain v1 w1 where 1: "win_read w fn = (Ok (v1, w1) :: (DecodeSequenceError, _) res)" "win_safe src w1"
    using win_read_safe [OF _ assms(4), of fn] assms(3) by auto
  obtain v2 w2 where 2: "win_read w1 mn = (Ok (v2, w2) :: (DecodeSequenceError, _) res)" "win_safe src w2"
    using win_read_safe [OF _ 1(2), of mn] assms(2) by auto
  obtain st w3 where 3: "reload src w2 = (Ok (st, w3) :: (DecodeSequenceError, _) res)" "win_safe src w3"
    using reload_safe [OF 2(2)] by blast
  obtain v4 w4 where 4: "win_read w3 ln = (Ok (v4, w4) :: (DecodeSequenceError, _) res)" "win_safe src w4"
    using win_read_safe [OF _ 3(2), of ln] assms(1) by auto
  show ?thesis
  proof (cases "st = Overflow")
    case True
    then show ?thesis using False 1(1) 2(1) 3(1) by (simp add: read_fields_def)
  next
    case ok: False
    then show ?thesis using False 1(1) 2(1) 3(1) 4 by (simp add: read_fields_def) blast
  qed
qed

lemma read_transitions_safe:
  assumes "entry_safe nl el" "entry_safe nm em" "entry_safe nf ef" "win_safe src w"
    and "nl \<le> 512" "nm \<le> 512" "nf \<le> 512"
  shows "\<exists>sl sm sf w'. read_transitions w el em ef = Ok ((sl, sm, sf), w') \<and> win_safe src w'
    \<and> unat sl < nl \<and> unat sm < nm \<and> unat sf < nf"
proof -
  let ?l = "unat (entry_nb_bits el)" and ?m = "unat (entry_nb_bits em)" and ?f = "unat (entry_nb_bits ef)"
  have nb: "?l \<le> 9" "?m \<le> 9" "?f \<le> 9" using assms(1-3) by (simp_all add: entry_safe_def)
  obtain v w' where r: "win_read w (?l + ?m + ?f) = (Ok (v, w') :: (DecodeSequenceError, _) res)" "win_safe src w'"
    using win_read_safe [OF _ assms(4), of "?l + ?m + ?f"] nb by auto
  have add: "\<exists>r. checked_add32 (entry_next_state e) (ucast (x AND low_mask (unat (entry_nb_bits e)) :: u64))
      = (Ok r :: (DecodeSequenceError, _) res) \<and> unat r < n" if "entry_safe n e" "n \<le> 512" for e n x
  proof -
    have "unat (entry_nb_bits e) \<le> 31" "unat (entry_next_state e) + 2 ^ unat (entry_nb_bits e) \<le> 2 ^ 32"
      using that by (simp_all add: entry_safe_def)
    from checked_add_masked [OF this, of x] that(1) show ?thesis by (fastforce simp: entry_safe_def)
  qed
  obtain sl sm sf where
    "checked_add32 (entry_next_state el) (ucast (drop_bit (?m + ?f) v AND low_mask ?l)) = (Ok sl :: (DecodeSequenceError, _) res)"
    "checked_add32 (entry_next_state em) (ucast (drop_bit ?f v AND low_mask ?m)) = (Ok sm :: (DecodeSequenceError, _) res)"
    "checked_add32 (entry_next_state ef) (ucast (v AND low_mask ?f)) = (Ok sf :: (DecodeSequenceError, _) res)"
    "unat sl < nl" "unat sm < nm" "unat sf < nf"
    using add [OF assms(1,5)] add [OF assms(2,6)] add [OF assms(3,7)] by blast
  then show ?thesis using r by (simp add: read_transitions_def)
qed

lemma decode_step_safe:
  assumes d: "decoder_safe d" and rem: "0 < sd_rem d"
  shows "(\<exists>e. decode_step d = Err e) \<or> (\<exists>sq d'. decode_step d = Ok (sq, d') \<and> decoder_safe d')"
proof -
  obtain nl nm nf where slots: "slot_safe (sd_tbl d) LL_SLOT nl" "slot_safe (sd_tbl d) ML_SLOT nm" "slot_safe (sd_tbl d) OF_SLOT nf"
    and st: "unat (sd_ll_state d) < nl" "unat (sd_ml_state d) < nm" "unat (sd_of_state d) < nf"
    and w: "win_safe (sd_src d) (sd_win d)"
    using d by (auto simp: decoder_safe_def)
  define el em ef where "el = sd_tbl d ! (LL_SLOT + unat (sd_ll_state d))"
    and "em = sd_tbl d ! (ML_SLOT + unat (sd_ml_state d))" and "ef = sd_tbl d ! (OF_SLOT + unat (sd_of_state d))"
  have idx: "LL_SLOT + unat (sd_ll_state d) < length (sd_tbl d)" "ML_SLOT + unat (sd_ml_state d) < length (sd_tbl d)"
    "OF_SLOT + unat (sd_of_state d) < length (sd_tbl d)"
    and e: "entry_safe nl el" "entry_safe nm em" "entry_safe nf ef"
    and n: "nl \<le> 512" "nm \<le> 512" "nf \<le> 512"
    using slots st by (simp_all add: slot_safe_def el_def em_def ef_def)
  have nb: "unat (entry_add_bits el) \<le> 31" "unat (entry_add_bits em) \<le> 31" "unat (entry_add_bits ef) \<le> 31"
    using e by (simp_all add: entry_safe_def)
  have base: "\<exists>r. checked_add32 (seq_entry_base x) (ucast (v AND low_mask (unat (entry_add_bits x)) :: u64))
      = (Ok r :: (DecodeSequenceError, _) res)" if "entry_safe k x" for k x v
    using checked_add_masked [of "unat (entry_add_bits x)" "seq_entry_base x" v] that by (auto simp: entry_safe_def)
  show ?thesis
    using read_fields_safe [OF nb w]
  proof
    assume "\<exists>e. read_fields (sd_src d) (sd_win d) (unat (entry_add_bits el)) (unat (entry_add_bits em)) (unat (entry_add_bits ef)) = Err e"
    then show ?thesis using idx by (auto simp: decode_step_def el_def em_def ef_def)
  next
    assume "\<exists>x y z w'. read_fields (sd_src d) (sd_win d) (unat (entry_add_bits el)) (unat (entry_add_bits em)) (unat (entry_add_bits ef))
      = Ok ((x AND low_mask (unat (entry_add_bits ef)), y AND low_mask (unat (entry_add_bits em)),
             z AND low_mask (unat (entry_add_bits el))), w') \<and> win_safe (sd_src d) w'"
    then obtain x y z w1 where f: "read_fields (sd_src d) (sd_win d) (unat (entry_add_bits el)) (unat (entry_add_bits em)) (unat (entry_add_bits ef))
      = Ok ((x AND low_mask (unat (entry_add_bits ef)), y AND low_mask (unat (entry_add_bits em)),
             z AND low_mask (unat (entry_add_bits el))), w1)" "win_safe (sd_src d) w1" by blast
    obtain ll ml off where b: "checked_add32 (seq_entry_base el) (ucast (z AND low_mask (unat (entry_add_bits el)))) = (Ok ll :: (DecodeSequenceError, _) res)"
      "checked_add32 (seq_entry_base em) (ucast (y AND low_mask (unat (entry_add_bits em)))) = (Ok ml :: (DecodeSequenceError, _) res)"
      "checked_add32 (seq_entry_base ef) (ucast (x AND low_mask (unat (entry_add_bits ef)))) = (Ok off :: (DecodeSequenceError, _) res)"
      using base [OF e(1)] base [OF e(2)] base [OF e(3)] by blast
    obtain sl sm sf w2 where t: "read_transitions w1 el em ef = Ok ((sl, sm, sf), w2)" "win_safe (sd_src d) w2"
      "unat sl < nl" "unat sm < nm" "unat sf < nf"
      using read_transitions_safe [OF e f(2) n] by blast
    obtain s w3 where r: "reload (sd_src d) w2 = (Ok (s, w3) :: (DecodeSequenceError, _) res)" "win_safe (sd_src d) w3"
      using reload_safe [OF t(2)] by blast
    let ?d1 = "d\<lparr>sd_win := w1, sd_rem := sd_rem d - 1\<rparr>"
    let ?d2 = "?d1\<lparr>sd_win := w3, sd_ll_state := sl, sd_ml_state := sm, sd_of_state := sf\<rparr>"
    have safe: "decoder_safe ?d1" "decoder_safe ?d2"
      using slots st f(2) r(2) t(3-5) by (auto simp: decoder_safe_def)
    have "decode_step d = (if sd_rem d - 1 > 0
        then if s = Overflow then Err NotEnoughBytesForNumSequences else Ok (\<lparr>sq_ll = ll, sq_ml = ml, sq_of = off\<rparr>, ?d2)
        else Ok (\<lparr>sq_ll = ll, sq_ml = ml, sq_of = off\<rparr>, ?d1))"
      using idx f(1) b t(1) r(1) rem by (simp add: decode_step_def flip: el_def em_def ef_def)
    then show ?thesis using safe by auto
  qed
qed

lemma sequence_loop_safe:
  "decoder_safe d \<Longrightarrow> (\<exists>e. sequence_loop d = Err e) \<or> (\<exists>ss d'. sequence_loop d = Ok (ss, d') \<and> length ss = sd_rem d)"
proof (induction d rule: sequence_loop.induct)
  case (1 d)
  show ?case
  proof (cases "sd_rem d > 0")
    case True
    show ?thesis
      using decode_step_safe [OF "1.prems" True]
    proof
      assume "\<exists>e. decode_step d = Err e"
      then show ?thesis using True by (subst (1 2) sequence_loop.simps) auto
    next
      assume "\<exists>sq d'. decode_step d = Ok (sq, d') \<and> decoder_safe d'"
      then obtain sq d' where d': "decode_step d = Ok (sq, d')" "decoder_safe d'" by blast
      have "sd_rem d' = sd_rem d - 1" using decode_step_rem [OF d'(1)] by simp
      moreover have "(\<exists>e. sequence_loop d' = Err e) \<or> (\<exists>ss d''. sequence_loop d' = Ok (ss, d'') \<and> length ss = sd_rem d')"
        using "1.IH" [OF True d'(1) refl d'(2)] .
      ultimately show ?thesis using True d'(1) by (subst (1 2) sequence_loop.simps) auto
    qed
  qed (subst (1 2) sequence_loop.simps, simp)
qed

section \<open>The whole block\<close>

lemma read_state_safe:
  assumes "log \<le> 9" "win_safe src w"
  shows "\<exists>v w'. read_state w log = (Ok (v, w') :: ('e, _) res) \<and> win_safe src w' \<and> unat v < 2 ^ log"
proof -
  obtain r w' where r: "win_read w log = (Ok (r, w') :: ('e, _) res)" "win_safe src w'"
    using win_read_safe [OF _ assms(2), of log] assms(1) by auto
  have l: "unat (r AND low_mask log) < 2 ^ log" using assms(1) by (intro low_mask_less) simp
  have "(2::nat) ^ log \<le> 2 ^ 9" using assms(1) by (intro power_increasing) simp_all
  then have "unat (ucast (r AND low_mask log) :: u32) = unat (r AND low_mask log)"
    using l by (simp add: unsigned_ucast_eq take_bit_nat_eq_self)
  then show ?thesis using r l by (simp add: read_state_def low_mask_def)
qed

lemma sb_new_safe: "sb_new source = Ok br \<Longrightarrow> sb_source br = source \<and> (sb_ip br = 0 \<or> sb_ip br + 8 \<le> length source)"
  by (auto simp: sb_new_def Let_def split: if_splits)

lemma sb_new_total: "sb_new source \<noteq> Panic"
  by (simp add: sb_new_def Let_def)

lemma sd_new_safe:
  assumes "fs_inv s"
  shows "(\<exists>e. sd_new hdr source s = Err e) \<or> (\<exists>d s'. sd_new hdr source s = Ok (d, s')
    \<and> decoder_safe d \<and> fs_inv s' \<and> sd_rem d = unat (sh_num_sequences hdr))"
proof (cases "maybe_update_fse_tables hdr source s")
  case Panic
  then show ?thesis using maybe_update_ok [OF assms] by (simp add: installs_def)
next
  case (Err e)
  then show ?thesis by (simp add: sd_new_def)
next
  case (Ok r)
  obtain n s1 where r: "r = (n, s1)" by (cases r)
  have s1: "n \<le> length source" "fs_inv s1"
    using maybe_update_ok [OF assms, of source hdr] Ok r by (simp_all add: installs_def)
  show ?thesis
  proof (cases "sb_new (drop n source)")
    case (Ok br)
    note br = sb_new_safe [OF Ok]
    obtain s2 where s2: "pack_tables s1 = (Ok s2 :: (DecodeSequenceError, _) res)" "fs_inv s2"
      "view_ll s2 = (view_ll s1)\<lparr>st_valid := True\<rparr>" "view_ml s2 = (view_ml s1)\<lparr>st_valid := True\<rparr>"
      "view_of s2 = (view_of s1)\<lparr>st_valid := True\<rparr>" by (rule pack_tables_ok [OF s1(2)])
    show ?thesis
    proof (cases "fs_ll_ready s2 \<and> fs_of_ready s2 \<and> fs_ml_ready s2")
      case False
      then show ?thesis using \<open>maybe_update_fse_tables hdr source s = Ok r\<close> r Ok s1(1) s2(1)
        by (auto simp: sd_new_def slice_from_def)
    next
      case True
      have rdy: "st_ready (view_ll s2)" "st_ready (view_ml s2)" "st_ready (view_of s2)"
        using True by (simp_all add: view_ll_def view_ml_def view_of_def)
      have vld: "st_valid (view_ll s2)" "st_valid (view_ml s2)" "st_valid (view_of s2)" by (simp_all add: s2(3-5))
      let ?p = "fs_seq_packed s2"
      have i: "stream_inv LL_KIND LL_SLOT ?p (view_ll s2)" "stream_inv ML_KIND ML_SLOT ?p (view_ml s2)"
        "stream_inv OF_KIND OF_SLOT ?p (view_of s2)" "length ?p = 1280"
        using s2(2) by (simp_all add: fs_inv_def slot_values)
      have sl: "slot_safe ?p LL_SLOT (2 ^ ft_accuracy_log (fs_literal_lengths s2))"
        "slot_safe ?p ML_SLOT (2 ^ ft_accuracy_log (fs_match_lengths s2))"
        "slot_safe ?p OF_SLOT (2 ^ ft_accuracy_log (fs_offsets s2))"
        using stream_slot_safe [OF kinds_ok(1) i(1) rdy(1) vld(1)] stream_slot_safe [OF kinds_ok(2) i(2) rdy(2) vld(2)]
          stream_slot_safe [OF kinds_ok(3) i(3) rdy(3) vld(3)] i(4)
        by (simp_all add: slot_values) (simp_all add: view_ll_def view_ml_def view_of_def)
      have logs: "ft_accuracy_log (fs_literal_lengths s2) \<le> 9" "ft_accuracy_log (fs_match_lengths s2) \<le> 9"
        "ft_accuracy_log (fs_offsets s2) \<le> 9"
        using i(1-3) by (simp_all add: stream_inv_def stream_wf_def) (simp_all add: view_ll_def view_ml_def view_of_def)
      let ?w = "(sb_ip br, wrapping_shl (sb_bits br) (sb_consumed br), sb_consumed br)"
      have w: "win_safe (drop n source) ?w" using br by (simp add: win_safe_def)
      obtain ll w1 where 1: "read_state ?w (ft_accuracy_log (fs_literal_lengths s2)) = (Ok (ll, w1) :: (DecodeSequenceError, _) res)"
        "win_safe (drop n source) w1" "unat ll < 2 ^ ft_accuracy_log (fs_literal_lengths s2)"
        using read_state_safe [OF logs(1) w] by blast
      obtain off w2 where 2: "read_state w1 (ft_accuracy_log (fs_offsets s2)) = (Ok (off, w2) :: (DecodeSequenceError, _) res)"
        "win_safe (drop n source) w2" "unat off < 2 ^ ft_accuracy_log (fs_offsets s2)"
        using read_state_safe [OF logs(3) 1(2)] by blast
      obtain ml w3 where 3: "read_state w2 (ft_accuracy_log (fs_match_lengths s2)) = (Ok (ml, w3) :: (DecodeSequenceError, _) res)"
        "win_safe (drop n source) w3" "unat ml < 2 ^ ft_accuracy_log (fs_match_lengths s2)"
        using read_state_safe [OF logs(2) 2(2)] by blast
      obtain st w4 where 4: "reload (drop n source) w3 = (Ok (st, w4) :: (DecodeSequenceError, _) res)"
        "win_safe (drop n source) w4" using reload_safe [OF 3(2)] by blast
      let ?d = "\<lparr>sd_tbl = ?p, sd_src = drop n source, sd_win = w4, sd_ll_state = ll, sd_ml_state = ml,
        sd_of_state = off, sd_rem = unat (sh_num_sequences hdr)\<rparr>"
      have "sd_new hdr source s = Ok (?d, s2)"
        using \<open>maybe_update_fse_tables hdr source s = Ok r\<close> r Ok s1(1) s2(1) True br 1(1) 2(1) 3(1) 4(1)
        by (simp add: sd_new_def slice_from_def)
      moreover have "decoder_safe ?d" using sl 1(3) 2(3) 3(3) 4(2) by (auto simp: decoder_safe_def)
      ultimately show ?thesis using s2(2) by simp
    qed
  qed (use sb_new_total Ok r s1 in \<open>auto simp: sd_new_def slice_from_def\<close>)
qed

section \<open>Properties\<close>

lemma decode_sequences_safe_holds:
  assumes "fs_inv s"
  shows "(\<exists>e. decode_sequences_into hdr source s target = Err e)
    \<or> (\<exists>seqs s'. decode_sequences_into hdr source s target = Ok (target @ seqs, s')
         \<and> length seqs = unat (sh_num_sequences hdr) \<and> fs_inv s')"
  using sd_new_safe [OF assms, of hdr source]
proof
  assume "\<exists>e. sd_new hdr source s = Err e"
  then show ?thesis by (auto simp: decode_sequences_into_def)
next
  assume "\<exists>d s'. sd_new hdr source s = Ok (d, s') \<and> decoder_safe d \<and> fs_inv s'
    \<and> sd_rem d = unat (sh_num_sequences hdr)"
  then obtain d s' where d: "sd_new hdr source s = Ok (d, s')" "decoder_safe d" "fs_inv s'"
    "sd_rem d = unat (sh_num_sequences hdr)" by blast
  have fin: "sd_finish x \<noteq> Panic" for x by (auto simp: sd_finish_def Let_def split: prod.split)
  from sequence_loop_safe [OF d(2)] show ?thesis
  proof
    assume "\<exists>e. sequence_loop d = Err e"
    then show ?thesis using d(1) by (auto simp: decode_sequences_into_def)
  next
    assume "\<exists>ss d'. sequence_loop d = Ok (ss, d') \<and> length ss = sd_rem d"
    then obtain ss d' where "sequence_loop d = Ok (ss, d')" "length ss = sd_rem d" by blast
    then show ?thesis using d fin [of d'] by (cases "sd_finish d'") (auto simp: decode_sequences_into_def)
  qed
qed



end
