(* ===== verification/Seq_Failure.thy ===== *)
theory Seq_Failure
  imports Seq_Safety
begin

text \<open>
  The scratch after a call that fails.  The table builders of \<open>fse/fse_decoder.rs\<close> and the sequence
  decoder of \<open>decoding/sequence_section_decoder.rs\<close> work on \<open>&mut\<close> tables, so that an early return
  leaves them half changed.  Here every operation returns its outcome together with the state it
  leaves, whatever the outcome; forgetting the state of the failures gives the operations of
  \<open>Fse_Decoder\<close> and \<open>Seq_Decoder\<close>.
\<close>

unbundle bit_operations_syntax

section \<open>Outcomes with the state they leave\<close>

definition sbind :: "('e, 'a) res \<times> 's \<Rightarrow> ('a \<Rightarrow> 's \<Rightarrow> ('e, 'b) res \<times> 's) \<Rightarrow> ('e, 'b) res \<times> 's" where
  "sbind m f = (case fst m of Ok a \<Rightarrow> f a (snd m) | Err e \<Rightarrow> (Err e, snd m) | Panic \<Rightarrow> (Panic, snd m))"

definition forget :: "('e, 'a) res \<times> 's \<Rightarrow> ('e, 'a \<times> 's) res" where
  "forget m = rbind (fst m) (\<lambda>a. Ok (a, snd m))"

lemma sbind_simps [simp]:
  "sbind (Ok a, s) f = f a s" "sbind (Err e, s) f = (Err e, s)" "sbind (Panic, s) f = (Panic, s)"
  by (simp_all add: sbind_def)

lemma forget_simps [simp]:
  "forget (Ok a, s) = Ok (a, s)" "forget (Err e, s) = Err e" "forget (Panic, s) = Panic"
  by (simp_all add: forget_def)

lemma forget_sbind: "forget (sbind m f) = rbind (forget m) (\<lambda>(a, s). forget (f a s))"
  by (cases m; cases "fst m") auto

lemma forget_pure: "forget (r, s) = rbind r (\<lambda>a. Ok (a, s))"
  by (simp add: forget_def)

lemma forget_if: "forget (if b then x else y) = (if b then forget x else forget y)"
  by simp

section \<open>The table builders\<close>

text \<open>The run of zero markers pushes its zeros as it goes.\<close>

function zero_run_st :: "BitReader \<Rightarrow> int list \<Rightarrow> (GetBitsError, BitReader) res \<times> int list" where
  "zero_run_st br probs =
     (case br_get_bits br 2 of
        Err e \<Rightarrow> (Err e, probs)
      | Panic \<Rightarrow> (Panic, probs)
      | Ok (v, br') \<Rightarrow>
          let skip_amount = unat v; probs' = probs @ replicate skip_amount 0 in
          if skip_amount \<noteq> 3 then (Ok br', probs')
          else zero_run_st br' probs')"
  by pat_completeness auto
termination
  by (relation "measure (\<lambda>(br, probs). br_left br)") (auto dest: br_get_bits_progress)

declare zero_run_st.simps [simp del]

lemma forget_zero_run: "forget (zero_run_st br probs) = zero_run br probs"
proof (induction br probs rule: zero_run_st.induct)
  case (1 br probs)
  show ?case
  proof (cases "br_get_bits br 2")
    case (Ok p)
    then show ?thesis using "1.IH" [of p "fst p" "snd p"]
      by (subst zero_run_st.simps, subst zero_run.simps) (auto simp: Let_def split: prod.splits)
  qed (subst zero_run_st.simps, subst zero_run.simps, simp)+
qed

lemma zero_run_st_shrinks:
  "zero_run_st br probs = (Ok br', probs') \<Longrightarrow> br_left br' < br_left br"
  using zero_run_shrinks [of FseGetBitsError br probs br' probs'] by (simp flip: forget_zero_run)

function read_loop_st ::
  "nat \<Rightarrow> nat \<Rightarrow> int list \<Rightarrow> BitReader \<Rightarrow> (FSETableError, nat \<times> BitReader) res \<times> int list" where
  "read_loop_st probability_sum probability_counter probs br =
     (if probability_counter < probability_sum then
        (case read_value probability_sum probability_counter br of
           Err e \<Rightarrow> (Err e, probs)
         | Panic \<Rightarrow> (Panic, probs)
         | Ok (value, br) \<Rightarrow>
             let prob = int value - 1; probs = probs @ [prob] in
             if prob \<noteq> 0 then
               read_loop_st probability_sum
                 (if prob > 0 then probability_counter + nat prob else probability_counter + 1) probs br
             else
               (case zero_run_st br probs of
                  (Err e, probs) \<Rightarrow> (Err (FseGetBitsError e), probs)
                | (Panic, probs) \<Rightarrow> (Panic, probs)
                | (Ok br, probs) \<Rightarrow> read_loop_st probability_sum probability_counter probs br))
      else (Ok (probability_counter, br), probs))"
  by pat_completeness auto
termination
  by (relation "measure (\<lambda>(s, c, probs, br). br_left br)")
    (auto dest: read_value_shrinks sym [THEN zero_run_st_shrinks] intro: less_trans)

declare read_loop_st.simps [simp del]

lemma forget_read_loop:
  "read_loop psum pc probs br = rbind (forget (read_loop_st psum pc probs br)) (\<lambda>((c, br), ps). Ok (c, ps, br))"
proof (induction psum pc probs br rule: read_loop_st.induct)
  case (1 psum pc probs br)
  show ?case
  proof (cases "pc < psum")
    case True
    show ?thesis
    proof (cases "read_value psum pc br")
      case (Ok p)
      obtain v br1 where p: "p = (v, br1)" by (cases p)
      show ?thesis
      proof (cases "int v - 1 = 0")
        case False
        then show ?thesis
          using True Ok p "1.IH"(1) [OF True Ok p [symmetric] refl refl False]
          by (subst read_loop.simps, subst read_loop_st.simps) (simp add: Let_def)
      next
        case zero: True
        let ?ps = "probs @ [int v - 1]"
        obtain r ps where z: "zero_run_st br1 ?ps = (r, ps)" by (cases "zero_run_st br1 ?ps")
        have fz: "zero_run br1 ?ps = forget (r, ps)" using forget_zero_run [of br1 ?ps] z by simp
        show ?thesis
        proof (cases r)
          case r: (Ok br2)
          then show ?thesis
            using True Ok p zero z fz "1.IH"(2) [OF True Ok p [symmetric] refl refl _ _]
            by (subst read_loop.simps, subst read_loop_st.simps) (simp add: Let_def)
        qed (use True Ok p zero z fz in
            \<open>(subst read_loop.simps, subst read_loop_st.simps, simp add: Let_def)+\<close>)
      qed
    qed (use True in \<open>(subst read_loop.simps, subst read_loop_st.simps, simp)+\<close>)
  qed (subst read_loop.simps, subst read_loop_st.simps, simp)
qed

definition read_probabilities_st ::
  "FSETable \<Rightarrow> bytes \<Rightarrow> nat \<Rightarrow> (FSETableError, nat) res \<times> FSETable" where
  "read_probabilities_st t source max_log =
     (let t = t\<lparr>ft_symbol_probabilities := []\<rparr> in
      case rmap_err FseGetBitsError (br_get_bits (br_new source) 4) of
        Err e \<Rightarrow> (Err e, t)
      | Panic \<Rightarrow> (Panic, t)
      | Ok (v, br) \<Rightarrow>
          let accuracy_log = ACC_LOG_OFFSET + unat v; t = t\<lparr>ft_accuracy_log := accuracy_log\<rparr> in
          if accuracy_log > max_log then (Err (AccLogTooBig accuracy_log max_log), t)
          else if accuracy_log = 0 then (Err AccLogIsZero, t)
          else let probability_sum = push_bit accuracy_log 1;
                   (r, probs) = read_loop_st probability_sum 0 [] br;
                   t = t\<lparr>ft_symbol_probabilities := probs\<rparr>
            in sbind (r, t) (\<lambda>(probability_counter, br) t.
               if probability_counter \<noteq> probability_sum
               then (Err (ProbabilityCounterMismatch probability_counter probability_sum probs), t)
               else if length probs > ft_max_symbol t + 1 then (Err (TooManySymbols (length probs)), t)
               else (Ok (if br_bits_read br mod 8 = 0 then br_bits_read br div 8
                         else br_bits_read br div 8 + 1), t)))"

text \<open>The only early return of the build precedes every write; its panics lose the table.\<close>

definition build_decoding_table_st :: "FSETable \<Rightarrow> (FSETableError, unit) res \<times> FSETable" where
  "build_decoding_table_st t =
     (case build_decoding_table t of Ok t' \<Rightarrow> (Ok (), t') | Err e \<Rightarrow> (Err e, t) | Panic \<Rightarrow> (Panic, t))"

definition build_decoder_st ::
  "FSETable \<Rightarrow> bytes \<Rightarrow> nat \<Rightarrow> (FSETableError, nat) res \<times> FSETable" where
  "build_decoder_st t source max_log =
     sbind (read_probabilities_st (t\<lparr>ft_accuracy_log := 0\<rparr>) source max_log) (\<lambda>bytes_read t.
     sbind (build_decoding_table_st t) (\<lambda>_ t. (Ok bytes_read, t)))"

definition build_from_probabilities_st ::
  "FSETable \<Rightarrow> nat \<Rightarrow> int list \<Rightarrow> (FSETableError, unit) res \<times> FSETable" where
  "build_from_probabilities_st t acc_log probs =
     (if acc_log = 0 then (Err AccLogIsZero, t)
      else build_decoding_table_st (t\<lparr>ft_symbol_probabilities := probs, ft_accuracy_log := acc_log\<rparr>))"

lemma forget_read_probabilities: "forget (read_probabilities_st t source max_log) = read_probabilities t source max_log"
proof (cases "br_get_bits (br_new source) 4")
  case (Ok p)
  obtain v br where p: "p = (v, br)" by (cases p)
  define psum :: nat where "psum = push_bit (ACC_LOG_OFFSET + unat v) 1"
  obtain r ps where l: "read_loop_st psum 0 [] br = (r, ps)" by fastforce
  show ?thesis
    unfolding read_probabilities_st_def read_probabilities_def Let_def Ok p rmap_err.simps res.case prod.case rbind.simps
      psum_def [symmetric] l forget_read_loop
    by (cases r) auto
qed (simp_all add: read_probabilities_st_def read_probabilities_def Let_def)

lemma forget_build_table:
  "rbind (forget (build_decoding_table_st t)) (\<lambda>(_, t). f t) = rbind (build_decoding_table t) f"
  by (cases "build_decoding_table t") (simp_all add: build_decoding_table_st_def)

lemma forget_build_decoder: "forget (build_decoder_st t source max_log) = build_decoder t source max_log"
proof (cases "read_probabilities (t\<lparr>ft_accuracy_log := 0\<rparr>) source max_log")
  case (Ok p)
  then show ?thesis using forget_build_table [of "snd p" "\<lambda>t. Ok (fst p, t)"]
    by (simp add: build_decoder_st_def build_decoder_def forget_sbind forget_read_probabilities split_def)
qed (simp_all add: build_decoder_st_def build_decoder_def forget_sbind forget_read_probabilities)

lemma forget_build_from_probabilities:
  "forget (build_from_probabilities_st t acc ps) = rbind (build_from_probabilities t acc ps) (\<lambda>t. Ok ((), t))"
  by (cases "build_decoding_table (t\<lparr>ft_symbol_probabilities := ps, ft_accuracy_log := acc\<rparr>)")
    (simp_all add: build_from_probabilities_st_def build_from_probabilities_def build_decoding_table_st_def)

section \<open>Installing the tables of a block\<close>

definition update_ll_table_st ::
  "ModeType \<Rightarrow> bytes \<Rightarrow> FSEScratch \<Rightarrow> (DecodeSequenceError, nat) res \<times> FSEScratch" where
  "update_ll_table_st mode source s =
     (case mode of
        FSECompressed \<Rightarrow>
          (let (r, t) = build_decoder_st (fs_literal_lengths s) source LL_MAX_LOG in
           sbind (rmap_err DSFSETableError r, s\<lparr>fs_literal_lengths := t\<rparr>) (\<lambda>bytes s.
             (Ok bytes, s\<lparr>fs_ll_rle := None, fs_ll_predefined := False,
                fs_ll_seq_valid := False, fs_ll_ready := True\<rparr>)))
      | ModeRLE \<Rightarrow>
          if source = [] then (Err MissingByteForRleLlTable, s)
          else if source ! 0 > MAX_LITERAL_LENGTH_CODE then (Err MissingByteForRleLlTable, s)
          else (Ok 1, s\<lparr>fs_ll_rle := Some (source ! 0), fs_ll_predefined := False,
                 fs_literal_lengths := (fs_literal_lengths s)\<lparr>ft_accuracy_log := 0\<rparr>,
                 fs_ll_seq_valid := False, fs_ll_ready := True\<rparr>)
      | Predefined \<Rightarrow>
          sbind (if \<not> fs_ll_predefined s then
                   (let (r, t) = build_from_probabilities_st (fs_literal_lengths s) LL_DEFAULT_ACC_LOG LL_DEFAULT_DISTRIBUTION in
                    sbind (rmap_err DSFSETableError r, s\<lparr>fs_literal_lengths := t\<rparr>) (\<lambda>_ s.
                      (Ok (), s\<lparr>fs_ll_predefined := True, fs_ll_seq_valid := False\<rparr>)))
                 else (Ok (), s)) (\<lambda>_ s. (Ok 0, s\<lparr>fs_ll_rle := None, fs_ll_ready := True\<rparr>))
      | RepeatMode \<Rightarrow> (Ok 0, s))"

definition update_of_table_st ::
  "ModeType \<Rightarrow> bytes \<Rightarrow> FSEScratch \<Rightarrow> (DecodeSequenceError, nat) res \<times> FSEScratch" where
  "update_of_table_st mode source s =
     (case mode of
        FSECompressed \<Rightarrow>
          (let (r, t) = build_decoder_st (fs_offsets s) source OF_MAX_LOG in
           sbind (rmap_err DSFSETableError r, s\<lparr>fs_offsets := t\<rparr>) (\<lambda>bytes s.
             (Ok bytes, s\<lparr>fs_of_rle := None, fs_of_predefined := False,
                fs_of_seq_valid := False, fs_of_ready := True\<rparr>)))
      | ModeRLE \<Rightarrow>
          if source = [] then (Err MissingByteForRleOfTable, s)
          else if source ! 0 > MAX_OFFSET_CODE then (Err MissingByteForRleOfTable, s)
          else (Ok 1, s\<lparr>fs_of_rle := Some (source ! 0), fs_of_predefined := False,
                 fs_offsets := (fs_offsets s)\<lparr>ft_accuracy_log := 0\<rparr>,
                 fs_of_seq_valid := False, fs_of_ready := True\<rparr>)
      | Predefined \<Rightarrow>
          sbind (if \<not> fs_of_predefined s then
                   (let (r, t) = build_from_probabilities_st (fs_offsets s) OF_DEFAULT_ACC_LOG OF_DEFAULT_DISTRIBUTION in
                    sbind (rmap_err DSFSETableError r, s\<lparr>fs_offsets := t\<rparr>) (\<lambda>_ s.
                      (Ok (), s\<lparr>fs_of_predefined := True, fs_of_seq_valid := False\<rparr>)))
                 else (Ok (), s)) (\<lambda>_ s. (Ok 0, s\<lparr>fs_of_rle := None, fs_of_ready := True\<rparr>))
      | RepeatMode \<Rightarrow> (Ok 0, s))"

definition update_ml_table_st ::
  "ModeType \<Rightarrow> bytes \<Rightarrow> FSEScratch \<Rightarrow> (DecodeSequenceError, nat) res \<times> FSEScratch" where
  "update_ml_table_st mode source s =
     (case mode of
        FSECompressed \<Rightarrow>
          (let (r, t) = build_decoder_st (fs_match_lengths s) source ML_MAX_LOG in
           sbind (rmap_err DSFSETableError r, s\<lparr>fs_match_lengths := t\<rparr>) (\<lambda>bytes s.
             (Ok bytes, s\<lparr>fs_ml_rle := None, fs_ml_predefined := False,
                fs_ml_seq_valid := False, fs_ml_ready := True\<rparr>)))
      | ModeRLE \<Rightarrow>
          if source = [] then (Err MissingByteForRleMlTable, s)
          else if source ! 0 > MAX_MATCH_LENGTH_CODE then (Err MissingByteForRleMlTable, s)
          else (Ok 1, s\<lparr>fs_ml_rle := Some (source ! 0), fs_ml_predefined := False,
                 fs_match_lengths := (fs_match_lengths s)\<lparr>ft_accuracy_log := 0\<rparr>,
                 fs_ml_seq_valid := False, fs_ml_ready := True\<rparr>)
      | Predefined \<Rightarrow>
          sbind (if \<not> fs_ml_predefined s then
                   (let (r, t) = build_from_probabilities_st (fs_match_lengths s) ML_DEFAULT_ACC_LOG ML_DEFAULT_DISTRIBUTION in
                    sbind (rmap_err DSFSETableError r, s\<lparr>fs_match_lengths := t\<rparr>) (\<lambda>_ s.
                      (Ok (), s\<lparr>fs_ml_predefined := True, fs_ml_seq_valid := False\<rparr>)))
                 else (Ok (), s)) (\<lambda>_ s. (Ok 0, s\<lparr>fs_ml_rle := None, fs_ml_ready := True\<rparr>))
      | RepeatMode \<Rightarrow> (Ok 0, s))"

definition maybe_update_fse_tables_st ::
  "SequencesHeader \<Rightarrow> bytes \<Rightarrow> FSEScratch \<Rightarrow> (DecodeSequenceError, nat) res \<times> FSEScratch" where
  "maybe_update_fse_tables_st section source s =
     sbind (ok_or MissingCompressionMode (sh_modes section), s) (\<lambda>modes s.
     sbind (infallible (ll_mode modes), s) (\<lambda>m s.
     sbind (update_ll_table_st m source s) (\<lambda>bytes_ll s.
     sbind (slice_from source bytes_ll, s) (\<lambda>of_source s.
     sbind (infallible (of_mode modes), s) (\<lambda>m s.
     sbind (update_of_table_st m of_source s) (\<lambda>bytes_of s.
     sbind (slice_from source (bytes_ll + bytes_of), s) (\<lambda>ml_source s.
     sbind (infallible (ml_mode modes), s) (\<lambda>m s.
     sbind (update_ml_table_st m ml_source s) (\<lambda>bytes_ml s.
       (Ok (bytes_ll + bytes_of + bytes_ml), s))))))))))"

text \<open>Packing does not fail; a panic, which never happens, loses the scratch.\<close>

definition pack_tables_st :: "FSEScratch \<Rightarrow> (DecodeSequenceError, unit) res \<times> FSEScratch" where
  "pack_tables_st s = (case pack_tables s of Ok s' \<Rightarrow> (Ok (), s') | Err e \<Rightarrow> (Err e, s) | Panic \<Rightarrow> (Panic, s))"

definition sd_new_st ::
  "SequencesHeader \<Rightarrow> bytes \<Rightarrow> FSEScratch \<Rightarrow> (DecodeSequenceError, SeqDecoder) res \<times> FSEScratch" where
  "sd_new_st section source s =
     sbind (maybe_update_fse_tables_st section source s) (\<lambda>bytes_read s.
     sbind (slice_from source bytes_read, s) (\<lambda>bit_stream s.
     sbind (sb_new bit_stream, s) (\<lambda>br s.
     sbind (pack_tables_st s) (\<lambda>_ s.
     if \<not> fs_ll_ready s \<or> \<not> fs_of_ready s \<or> \<not> fs_ml_ready s
     then (Err (DSFSEDecoderError TableIsUninitialized), s)
     else
       let w = (sb_ip br, wrapping_shl (sb_bits br) (sb_consumed br), sb_consumed br) in
       (rbind (read_state w (ft_accuracy_log (fs_literal_lengths s))) (\<lambda>(ll_state, w).
        rbind (read_state w (ft_accuracy_log (fs_offsets s))) (\<lambda>(of_state, w).
        rbind (read_state w (ft_accuracy_log (fs_match_lengths s))) (\<lambda>(ml_state, w).
        rbind (reload (sb_source br) w) (\<lambda>(_, w).
          Ok \<lparr>sd_tbl = fs_seq_packed s, sd_src = sb_source br, sd_win = w, sd_ll_state = ll_state,
               sd_ml_state = ml_state, sd_of_state = of_state,
               sd_rem = unat (sh_num_sequences section)\<rparr>)))), s)))))"

text \<open>
  The target keeps its length when a step fails, and holds the sequences already when only the
  padding check fails.
\<close>

definition decode_sequences_into_st ::
  "SequencesHeader \<Rightarrow> bytes \<Rightarrow> FSEScratch \<Rightarrow> Sequence list
    \<Rightarrow> (DecodeSequenceError, unit) res \<times> FSEScratch \<times> Sequence list" where
  "decode_sequences_into_st section source s target =
     (let (r, s) = sd_new_st section source s in
      sbind (r, s, target) (\<lambda>d (s, target).
      sbind (sequence_loop d, s, target) (\<lambda>(seqs, d) (s, target).
        (sd_finish d, s, target @ seqs))))"

definition decode_sequences_st ::
  "SequencesHeader \<Rightarrow> bytes \<Rightarrow> FSEScratch \<Rightarrow> Sequence list
    \<Rightarrow> (DecodeSequenceError, unit) res \<times> FSEScratch \<times> Sequence list" where
  "decode_sequences_st section source s target = decode_sequences_into_st section source s []"

section \<open>Forgetting the state of failures\<close>

lemma built: "build_decoder_st t source l = (r, t') \<Longrightarrow> build_decoder t source l = forget (r, t')"
  using forget_build_decoder [of t source l] by simp

lemma built_from:
  "build_from_probabilities_st t acc ps = (r, t') \<Longrightarrow> build_from_probabilities t acc ps = rbind r (\<lambda>_. Ok t')"
  using forget_build_from_probabilities [of t acc ps]
  by (cases r; cases "build_from_probabilities t acc ps") auto

lemma forget_update_ll: "forget (update_ll_table_st mode source s) = update_ll_table mode source s"
proof -
  obtain r t where d: "build_decoder_st (fs_literal_lengths s) source LL_MAX_LOG = (r, t)" by fastforce
  obtain r' t' where p: "build_from_probabilities_st (fs_literal_lengths s) LL_DEFAULT_ACC_LOG LL_DEFAULT_DISTRIBUTION = (r', t')"
    by fastforce
  note e = update_ll_table_st_def update_ll_table_def d p built [OF d] built_from [OF p]
  show ?thesis
  proof (cases mode)
    case FSECompressed
    then show ?thesis by (cases r) (simp_all add: e)
  next
    case Predefined
    then show ?thesis by (cases r') (simp_all add: e)
  qed (simp_all add: e)
qed

lemma forget_update_of: "forget (update_of_table_st mode source s) = update_of_table mode source s"
proof -
  obtain r t where d: "build_decoder_st (fs_offsets s) source OF_MAX_LOG = (r, t)" by fastforce
  obtain r' t' where p: "build_from_probabilities_st (fs_offsets s) OF_DEFAULT_ACC_LOG OF_DEFAULT_DISTRIBUTION = (r', t')"
    by fastforce
  note e = update_of_table_st_def update_of_table_def d p built [OF d] built_from [OF p]
  show ?thesis
  proof (cases mode)
    case FSECompressed
    then show ?thesis by (cases r) (simp_all add: e)
  next
    case Predefined
    then show ?thesis by (cases r') (simp_all add: e)
  qed (simp_all add: e)
qed

lemma forget_update_ml: "forget (update_ml_table_st mode source s) = update_ml_table mode source s"
proof -
  obtain r t where d: "build_decoder_st (fs_match_lengths s) source ML_MAX_LOG = (r, t)" by fastforce
  obtain r' t' where p: "build_from_probabilities_st (fs_match_lengths s) ML_DEFAULT_ACC_LOG ML_DEFAULT_DISTRIBUTION = (r', t')"
    by fastforce
  note e = update_ml_table_st_def update_ml_table_def d p built [OF d] built_from [OF p]
  show ?thesis
  proof (cases mode)
    case FSECompressed
    then show ?thesis by (cases r) (simp_all add: e)
  next
    case Predefined
    then show ?thesis by (cases r') (simp_all add: e)
  qed (simp_all add: e)
qed

lemma forget_maybe_update: "forget (maybe_update_fse_tables_st section source s) = maybe_update_fse_tables section source s"
  unfolding maybe_update_fse_tables_st_def maybe_update_fse_tables_def
  by (simp add: forget_sbind forget_pure forget_update_ll forget_update_of forget_update_ml rbind_assoc split_def)

lemma forget_pack: "forget (pack_tables_st s) = rbind (pack_tables s) (\<lambda>s. Ok ((), s))"
  by (cases "pack_tables s :: (DecodeSequenceError, _) res") (simp_all add: pack_tables_st_def)

lemma forget_sd_new: "forget (sd_new_st section source s) = sd_new section source s"
  unfolding sd_new_st_def sd_new_def
  by (simp add: forget_sbind forget_pure forget_maybe_update forget_pack rbind_assoc split_def Let_def forget_if cong del: if_weak_cong)

lemma forget_decode_sequences:
  "rbind (forget (decode_sequences_into_st hdr source s target)) (\<lambda>(_, s, seqs). Ok (seqs, s))
    = decode_sequences_into hdr source s target"
proof -
  obtain r s' where n: "sd_new_st hdr source s = (r, s')" by fastforce
  have n': "sd_new hdr source s = forget (r, s')" using forget_sd_new [of hdr source s] n by simp
  show ?thesis
  proof (cases r)
    case (Ok d)
    show ?thesis
    proof (cases "sequence_loop d")
      case (Ok p)
      then show ?thesis using \<open>r = Ok d\<close>
        by (cases p; cases "sd_finish (snd p)") (simp_all add: decode_sequences_into_st_def decode_sequences_into_def n n')
    qed (use Ok in \<open>simp_all add: decode_sequences_into_st_def decode_sequences_into_def n n'\<close>)
  qed (simp_all add: decode_sequences_into_st_def decode_sequences_into_def n n')
qed

section \<open>What a failure leaves behind\<close>

text \<open>The part of the invariant that no operation can lose.\<close>

definition fs_shape :: "FSEScratch \<Rightarrow> bool" where
  "fs_shape s \<longleftrightarrow> length (fs_seq_packed s) = SEQ_TABLE_SLOTS
     \<and> ft_max_symbol (fs_literal_lengths s) = unat MAX_LITERAL_LENGTH_CODE
     \<and> ft_max_symbol (fs_match_lengths s) = unat MAX_MATCH_LENGTH_CODE
     \<and> ft_max_symbol (fs_offsets s) = unat MAX_OFFSET_CODE"

definition keeps :: "(DecodeSequenceError, 'a) res \<times> FSEScratch \<Rightarrow> bool" where
  "keeps m \<longleftrightarrow> (case fst m of Ok _ \<Rightarrow> fs_inv (snd m)
     | Err e \<Rightarrow> fs_shape (snd m) \<and> ((\<exists>f. e = DSFSETableError f) \<or> fs_inv (snd m))
     | Panic \<Rightarrow> True)"

lemma fs_inv_shape: "fs_inv s \<Longrightarrow> fs_shape s"
  using max_codes by (auto simp: fs_inv_def fs_shape_def stream_inv_def stream_wf_def view_ll_def view_ml_def view_of_def)

lemma keeps_sbind: "keeps m \<Longrightarrow> (\<And>a. fst m = Ok a \<Longrightarrow> fs_inv (snd m) \<Longrightarrow> keeps (f a (snd m))) \<Longrightarrow> keeps (sbind m f)"
  by (cases m; cases "fst m") (auto simp: keeps_def)

lemma keeps_pure: "fs_inv s \<Longrightarrow> keeps (r, s)"
  by (cases r) (simp_all add: keeps_def fs_inv_shape)

lemma keeps_if: "(b \<Longrightarrow> keeps x) \<Longrightarrow> (\<not> b \<Longrightarrow> keeps y) \<Longrightarrow> keeps (if b then x else y)"
  by simp

lemma keeps_installs:
  assumes "fs_inv s" "installs k (forget m)"
    and "\<And>e s'. m = (Err e, s') \<Longrightarrow> (\<exists>f. e = DSFSETableError f) \<and> fs_shape s' \<or> s' = s"
  shows "keeps m"
proof (cases m)
  case (Pair r s')
  then show ?thesis using assms fs_inv_shape [OF assms(1)]
    by (cases r) (auto simp: keeps_def installs_def)
qed

lemma built_symbols:
  "ft_max_symbol (snd (build_decoder_st t source l)) = ft_max_symbol t"
  "ft_max_symbol (snd (build_from_probabilities_st t acc ps)) = ft_max_symbol t"
proof -
  have b: "ft_max_symbol (snd (build_decoding_table_st t)) = ft_max_symbol t" for t
    using build_table_max_symbol [of t] by (cases "build_decoding_table t") (simp_all add: build_decoding_table_st_def)
  have r: "ft_max_symbol (snd (read_probabilities_st t source l)) = ft_max_symbol t" for t
    by (simp add: read_probabilities_st_def sbind_def Let_def split: res.splits prod.splits)
  obtain x u where u: "read_probabilities_st (t\<lparr>ft_accuracy_log := 0\<rparr>) source l = (x, u)" by fastforce
  then have "ft_max_symbol u = ft_max_symbol t" using r [of "t\<lparr>ft_accuracy_log := 0\<rparr>"] by simp
  then show "ft_max_symbol (snd (build_decoder_st t source l)) = ft_max_symbol t"
    using b [of u] by (cases x; cases "build_decoding_table_st u"; cases "fst (build_decoding_table_st u)")
      (simp_all add: build_decoder_st_def u)
  show "ft_max_symbol (snd (build_from_probabilities_st t acc ps)) = ft_max_symbol t"
    by (simp add: build_from_probabilities_st_def b)
qed

lemma keeps_update_ll: "fs_inv s \<Longrightarrow> keeps (update_ll_table_st mode source s)"
proof -
  assume s: "fs_inv s"
  obtain r t where d: "build_decoder_st (fs_literal_lengths s) source LL_MAX_LOG = (r, t)" by fastforce
  obtain r' t' where p: "build_from_probabilities_st (fs_literal_lengths s) LL_DEFAULT_ACC_LOG LL_DEFAULT_DISTRIBUTION = (r', t')"
    by fastforce
  have m: "ft_max_symbol t = ft_max_symbol (fs_literal_lengths s)" "ft_max_symbol t' = ft_max_symbol (fs_literal_lengths s)"
    using built_symbols(1) [of "fs_literal_lengths s" source] built_symbols(2) [of "fs_literal_lengths s"] d p by (metis snd_conv)+
  have "installs (length source) (forget (update_ll_table_st mode source s))"
    using update_tables_ok(1) [OF s] by (simp only: forget_update_ll)
  moreover have "(\<exists>f. e = DSFSETableError f) \<and> fs_shape s' \<or> s' = s" if "update_ll_table_st mode source s = (Err e, s')" for e s'
    using that s m fs_inv_shape [OF s]
    by (cases mode; cases r; cases r') (auto simp: update_ll_table_st_def d p fs_shape_def split: if_splits)
  ultimately show ?thesis by (rule keeps_installs [OF s])
qed

lemma keeps_update_of: "fs_inv s \<Longrightarrow> keeps (update_of_table_st mode source s)"
proof -
  assume s: "fs_inv s"
  obtain r t where d: "build_decoder_st (fs_offsets s) source OF_MAX_LOG = (r, t)" by fastforce
  obtain r' t' where p: "build_from_probabilities_st (fs_offsets s) OF_DEFAULT_ACC_LOG OF_DEFAULT_DISTRIBUTION = (r', t')"
    by fastforce
  have m: "ft_max_symbol t = ft_max_symbol (fs_offsets s)" "ft_max_symbol t' = ft_max_symbol (fs_offsets s)"
    using built_symbols(1) [of "fs_offsets s" source] built_symbols(2) [of "fs_offsets s"] d p by (metis snd_conv)+
  have "installs (length source) (forget (update_of_table_st mode source s))"
    using update_tables_ok(3) [OF s] by (simp only: forget_update_of)
  moreover have "(\<exists>f. e = DSFSETableError f) \<and> fs_shape s' \<or> s' = s" if "update_of_table_st mode source s = (Err e, s')" for e s'
    using that s m fs_inv_shape [OF s]
    by (cases mode; cases r; cases r') (auto simp: update_of_table_st_def d p fs_shape_def split: if_splits)
  ultimately show ?thesis by (rule keeps_installs [OF s])
qed

lemma keeps_update_ml: "fs_inv s \<Longrightarrow> keeps (update_ml_table_st mode source s)"
proof -
  assume s: "fs_inv s"
  obtain r t where d: "build_decoder_st (fs_match_lengths s) source ML_MAX_LOG = (r, t)" by fastforce
  obtain r' t' where p: "build_from_probabilities_st (fs_match_lengths s) ML_DEFAULT_ACC_LOG ML_DEFAULT_DISTRIBUTION = (r', t')"
    by fastforce
  have m: "ft_max_symbol t = ft_max_symbol (fs_match_lengths s)" "ft_max_symbol t' = ft_max_symbol (fs_match_lengths s)"
    using built_symbols(1) [of "fs_match_lengths s" source] built_symbols(2) [of "fs_match_lengths s"] d p by (metis snd_conv)+
  have "installs (length source) (forget (update_ml_table_st mode source s))"
    using update_tables_ok(2) [OF s] by (simp only: forget_update_ml)
  moreover have "(\<exists>f. e = DSFSETableError f) \<and> fs_shape s' \<or> s' = s" if "update_ml_table_st mode source s = (Err e, s')" for e s'
    using that s m fs_inv_shape [OF s]
    by (cases mode; cases r; cases r') (auto simp: update_ml_table_st_def d p fs_shape_def split: if_splits)
  ultimately show ?thesis by (rule keeps_installs [OF s])
qed

lemma keeps_then: "fs_inv s \<Longrightarrow> (\<And>a. keeps (f a s)) \<Longrightarrow> keeps (sbind (r, s) f)"
  by (rule keeps_sbind) (simp_all add: keeps_pure)

lemma keeps_maybe_update: "fs_inv s \<Longrightarrow> keeps (maybe_update_fse_tables_st hdr source s)"
  unfolding maybe_update_fse_tables_st_def
  apply (rule keeps_then, assumption)
  apply (rule keeps_then, assumption)
  apply (rule keeps_sbind, erule keeps_update_ll)
  apply (rule keeps_then, assumption)
  apply (rule keeps_then, assumption)
  apply (rule keeps_sbind, erule keeps_update_of)
  apply (rule keeps_then, assumption)
  apply (rule keeps_then, assumption)
  apply (rule keeps_sbind, erule keeps_update_ml)
  apply (erule keeps_pure)
  done

lemma keeps_pack: "fs_inv s \<Longrightarrow> keeps (pack_tables_st s)"
  by (erule pack_tables_ok) (simp add: keeps_def pack_tables_st_def)

lemma keeps_sd_new: "fs_inv s \<Longrightarrow> keeps (sd_new_st hdr source s)"
  unfolding sd_new_st_def Let_def
  apply (rule keeps_sbind, erule keeps_maybe_update)
  apply (rule keeps_then, assumption)
  apply (rule keeps_then, assumption)
  apply (rule keeps_sbind, erule keeps_pack)
  apply (rule keeps_if; rule keeps_pure; assumption)
  done

lemma fs_shape_reset: "fs_shape s \<Longrightarrow> fs_inv (fs_reset s)"
  by (simp add: fs_inv_def fs_reset_def fs_shape_def view_ll_def view_ml_def view_of_def stream_inv_def stream_wf_def ft_reset_def
      codes_lengths MAX_OFFSET_CODE_def MAX_LITERAL_LENGTH_CODE_def MAX_MATCH_LENGTH_CODE_def)

definition fs_ready :: "FSEScratch \<Rightarrow> bool" where
  "fs_ready s \<longleftrightarrow> fs_ll_ready s \<and> fs_ml_ready s \<and> fs_of_ready s"

lemma table_wf_reinit [simp]: "table_wf n (ft_reinit_from t t') = table_wf n t'"
  "ft_max_symbol (ft_reinit_from t t') = ft_max_symbol t" "ft_accuracy_log (ft_reinit_from t t') = ft_accuracy_log t'"
  by (simp_all add: ft_reinit_from_def ft_reset_def table_wf_def Let_def)

lemma fs_shape_reinit: "fs_shape s \<Longrightarrow> fs_inv d \<Longrightarrow> fs_ready d \<Longrightarrow> fs_inv (fs_reinit_from s d)"
  using max_codes
  by (simp add: fs_inv_def fs_reinit_from_def fs_shape_def fs_ready_def view_ll_def view_ml_def view_of_def
      stream_inv_def stream_wf_def split: option.splits)

lemma decode_sequences_keeps:
  assumes s: "fs_inv s" and run: "decode_sequences_into_st hdr source s target = (r, s', target')"
  shows "r \<noteq> Panic" "fs_shape s'" "(\<forall>f. r \<noteq> Err (DSFSETableError f)) \<longrightarrow> fs_inv s'"
proof -
  obtain x s1 where n: "sd_new_st hdr source s = (x, s1)" by fastforce
  have k: "keeps (x, s1)" using keeps_sd_new [OF s, of hdr source] n by simp
  have "decode_sequences_into hdr source s target \<noteq> Panic"
    using decode_sequences_safe_holds [OF s, of hdr source target] by auto
  then show "r \<noteq> Panic"
    using forget_decode_sequences [of hdr source s target] run by auto
  have "s' = s1 \<and> (\<forall>e. x = Err e \<longrightarrow> r = Err e) \<and> (x = Panic \<longrightarrow> r = Panic)"
    using run n by (cases x; cases "sequence_loop (case x of Ok d \<Rightarrow> d)")
      (auto simp: decode_sequences_into_st_def split: prod.splits)
  then show "fs_shape s'" "(\<forall>f. r \<noteq> Err (DSFSETableError f)) \<longrightarrow> fs_inv s'"
    using k \<open>r \<noteq> Panic\<close> fs_inv_shape by (cases x; auto simp: keeps_def)+
qed

section \<open>Tables that survive a rejected description\<close>

text \<open>
  Three blocks: single-code tables, a rejected literal length description, and the repetition of
  the tables.
\<close>

lemma example_modes:
  "ll_mode 0x54 = Ok ModeRLE" "of_mode 0x54 = Ok ModeRLE" "ml_mode 0x54 = Ok ModeRLE"
   "ll_mode 0xBC = Ok FSECompressed" "ll_mode 0xFC = Ok RepeatMode" "of_mode 0xFC = Ok RepeatMode" "ml_mode 0xFC = Ok RepeatMode"
  by (simp_all add: ll_mode_def of_mode_def ml_mode_def decode_mode_def)

definition rle_tables :: FSEScratch where
  "rle_tables = fs_new\<lparr>fs_ll_rle := Some 0, fs_of_rle := Some 0, fs_ml_rle := Some 0,
   fs_ll_ready := True, fs_of_ready := True, fs_ml_ready := True\<rparr>"

lemma example_update:
  "maybe_update_fse_tables_st \<lparr>sh_num_sequences = 1, sh_modes = Some 0x54\<rparr> [0, 0, 0, 1] fs_new = (Ok 3, rle_tables)"
  by (simp add: maybe_update_fse_tables_st_def ok_or_def example_modes update_ll_table_st_def update_of_table_st_def update_ml_table_st_def slice_from_def fs_new_def numeral_eq_Suc rle_tables_def ft_new_def)

definition packed_tables :: FSEScratch where
  "packed_tables = rle_tables\<lparr> fs_ll_seq_valid := True, fs_of_seq_valid := True, fs_ml_seq_valid := True,
   fs_seq_packed := (((replicate 1280 0)[0 := pack_entry 0 0 0 0])[512 := pack_entry 3 0 0 0])[1024 := pack_entry 1 0 0 0]\<rparr>"

lemma first_codes: "LL_CODES ! 0 = (0, 0)" "ML_CODES ! 0 = (3, 0)" "OF_CODES ! 0 = (1, 0)"
  by (simp_all add: LL_CODES_def ML_CODES_def OF_CODES_def)

lemma example_pack:
  "pack_tables_st rle_tables = (Ok (), packed_tables)"
proof -
  have "pack_tables rle_tables = (Ok packed_tables :: (DecodeSequenceError, _) res)"
    by (simp add: pack_tables_def rle_tables_def packed_tables_def fs_new_def pack_slot_def rindex_def codes_lengths first_codes slot_values pack_rle_entry_def)
  then show ?thesis by (simp add: pack_tables_st_def)
qed


lemma example_words:
  "u64_from_le_bytes [1, 0, 0, 0, 0, 0, 0, 0] = 1" "u64_from_le_bytes [0xFF, 0xFF, 0xFF, 1, 0, 0, 0, 0] = 0x1FFFFFF"
  by code_simp+

lemma example_fields:
  "seq_entry_base (pack_entry 0 0 0 0) = 0" "seq_entry_base (pack_entry 3 0 0 0) = 3" "seq_entry_base (pack_entry 1 0 0 0) = 1"
  "entry_add_bits (pack_entry 0 0 0 0) = 0" "entry_add_bits (pack_entry 3 0 0 0) = 0" "entry_add_bits (pack_entry 1 0 0 0) = 0"
  by (simp_all add: seq_entry_base_def entry_add_bits_def pack_entry_def)

lemma example_stream:
  "sb_new [1] = Ok \<lparr>sb_source = [1], sb_ip = 0, sb_bits = 1, sb_consumed = 64\<rparr>"
  using example_words(1) by (simp add: sb_new_def leading_zeros8_def ilog2.simps numeral_eq_Suc)

lemma example_states:
  "sb_new [0xFF, 0xFF, 0xFF, 1] = Ok \<lparr>sb_source = [0xFF, 0xFF, 0xFF, 1], sb_ip = 0, sb_bits = 0x1FFFFFF, sb_consumed = 40\<rparr>"
  using example_words(2) by (simp add: sb_new_def leading_zeros8_def ilog2.simps numeral_eq_Suc)

definition opened :: SeqDecoder where
  "opened = \<lparr>sd_tbl = fs_seq_packed packed_tables, sd_src = [1], sd_win = (0, 1, 64), sd_ll_state = 0,
     sd_ml_state = 0, sd_of_state = 0, sd_rem = 1\<rparr>"

lemma example_open:
  "sd_new_st \<lparr>sh_num_sequences = 1, sh_modes = Some 0x54\<rparr> [0, 0, 0, 1] fs_new = (Ok opened, packed_tables)"
proof -
  have r: "fs_ll_ready packed_tables" "fs_of_ready packed_tables" "fs_ml_ready packed_tables"
    "ft_accuracy_log (fs_literal_lengths packed_tables) = 0" "ft_accuracy_log (fs_offsets packed_tables) = 0"
    "ft_accuracy_log (fs_match_lengths packed_tables) = 0" by (simp_all add: packed_tables_def rle_tables_def fs_new_def ft_new_def)
  show ?thesis by (simp add: sd_new_st_def example_update example_pack slice_from_def example_stream r Let_def opened_def read_state_def win_read_def reload_def reload_slow_def wrapping_shl_def wrapping_shr_def)
qed

lemma example_sequence:
  "sequence_loop opened = Ok ([\<lparr>sq_ll = 0, sq_ml = 3, sq_of = 1\<rparr>], opened\<lparr>sd_rem := 0\<rparr>)"
proof -
  have tbl: "length (fs_seq_packed packed_tables) = 1280" "fs_seq_packed packed_tables ! 0 = pack_entry 0 0 0 0"
    "fs_seq_packed packed_tables ! 512 = pack_entry 3 0 0 0" "fs_seq_packed packed_tables ! 1024 = pack_entry 1 0 0 0"
    by (simp_all add: packed_tables_def)
  have "decode_step opened = Ok (\<lparr>sq_ll = 0, sq_ml = 3, sq_of = 1\<rparr>, opened\<lparr>sd_rem := 0\<rparr>)"
    by (simp add: decode_step_def opened_def rindex_def tbl slot_values example_fields read_fields_def win_read_def checked_add32_def low_mask_def)
  then show ?thesis by (subst sequence_loop.simps, simp add: opened_def, subst sequence_loop.simps, simp)
qed

lemma example_decodes:
  "decode_sequences_into_st \<lparr>sh_num_sequences = 1, sh_modes = Some 0x54\<rparr> [0, 0, 0, 1] fs_new []
        = (Ok (), packed_tables, [\<lparr>sq_ll = 0, sq_ml = 3, sq_of = 1\<rparr>])"
  by (simp add: decode_sequences_into_st_def example_open example_sequence sd_finish_def) (simp add: opened_def)

definition broken_tables :: FSEScratch where
  "broken_tables = packed_tables\<lparr>fs_literal_lengths := (fs_literal_lengths packed_tables)\<lparr>ft_accuracy_log := 20\<rparr>\<rparr>"

lemma example_log:
  "br_get_bits (br_new [0x0F]) 4 = Ok (15, (br_new [0x0F])\<lparr>br_idx := 4\<rparr>)"
  by (simp add: br_get_bits_def br_new_def br_bits_left_def rindex_def)

lemma example_rejected:
  "decode_sequences_into_st \<lparr>sh_num_sequences = 1, sh_modes = Some 0xBC\<rparr> [0x0F] packed_tables []
        = (Err (DSFSETableError (AccLogTooBig 20 9)), broken_tables, [])"
proof -
  have "build_decoder_st (fs_literal_lengths packed_tables) [0x0F] LL_MAX_LOG = (Err (AccLogTooBig 20 9),
     (fs_literal_lengths packed_tables)\<lparr>ft_accuracy_log := 20\<rparr>)"
    by (simp add: build_decoder_st_def read_probabilities_st_def example_log Let_def LL_MAX_LOG_def ACC_LOG_OFFSET_def packed_tables_def rle_tables_def fs_new_def ft_new_def)
  then show ?thesis
    by (simp add: decode_sequences_into_st_def sd_new_st_def maybe_update_fse_tables_st_def ok_or_def example_modes update_ll_table_st_def broken_tables_def)
qed

lemma example_overread:
  "fst (decode_sequences_into_st \<lparr>sh_num_sequences = 1, sh_modes = Some 0xFC\<rparr> [0xFF, 0xFF, 0xFF, 1] broken_tables []) = Panic"
proof -
  have v: "fs_ll_seq_valid broken_tables" "fs_ml_seq_valid broken_tables" "fs_of_seq_valid broken_tables"
    "fs_ll_ready broken_tables" "fs_of_ready broken_tables" "fs_ml_ready broken_tables"
    "ft_accuracy_log (fs_literal_lengths broken_tables) = 20" "ft_accuracy_log (fs_offsets broken_tables) = 0"
    "ft_accuracy_log (fs_match_lengths broken_tables) = 0" "length (fs_seq_packed broken_tables) = 1280"
    by (simp_all add: broken_tables_def packed_tables_def rle_tables_def fs_new_def ft_new_def)
  have p: "pack_tables broken_tables = (Ok broken_tables :: (DecodeSequenceError, _) res)" by (simp add: pack_tables_def v)
  have u: "maybe_update_fse_tables_st \<lparr>sh_num_sequences = 1, sh_modes = Some 0xFC\<rparr> src broken_tables = (Ok 0, broken_tables)" for src
    by (simp add: maybe_update_fse_tables_st_def ok_or_def example_modes update_ll_table_st_def update_of_table_st_def update_ml_table_st_def slice_from_def)
  obtain d where d: "sd_new_st \<lparr>sh_num_sequences = 1, sh_modes = Some 0xFC\<rparr> [0xFF, 0xFF, 0xFF, 1] broken_tables = (Ok d, broken_tables)"
    "sd_ll_state d = 0xFFFFF" "sd_tbl d = fs_seq_packed broken_tables" "sd_rem d = 1"
    by (simp add: sd_new_st_def u slice_from_def example_states pack_tables_st_def p v Let_def read_state_def win_read_def wrapping_shl_def wrapping_shr_def reload_def reload_slow_def)
  have "sequence_loop d = Panic" by (subst sequence_loop.simps) (simp add: d decode_step_def rindex_def v)
  then show ?thesis by (simp add: decode_sequences_into_st_def d)
qed

section \<open>Properties\<close>




end
