(* ===== verification/Fse_Ncount.thy ===== *)
theory Fse_Ncount
  imports Fse_Parse Fse_Encoder
begin

text \<open>
  The serialized distribution end to end: the bits of a distribution as the format defines them, the
  register-accumulating writer that produces exactly these bits within its reserved bytes, and the
  parser that reads them back.
\<close>

unbundle bit_operations_syntax

section \<open>The bits of a distribution\<close>

text \<open>
  A value \<open>v\<close> when the mass \<open>R - 1\<close> remains: the width is that of \<open>R\<close>, one bit less for the small
  values; large values are shifted past them.
\<close>

definition low_values :: "nat \<Rightarrow> nat" where
  "low_values R = 2 * 2 ^ ilog2 R - 1 - R"

definition shifted_value :: "nat \<Rightarrow> nat \<Rightarrow> nat" where
  "shifted_value R v = (if 2 ^ ilog2 R \<le> v then v + low_values R else v)"

definition value_width :: "nat \<Rightarrow> nat \<Rightarrow> nat" where
  "value_width R v = Suc (ilog2 R) - of_bool (shifted_value R v < low_values R)"

definition value_bits :: "nat \<Rightarrow> nat \<Rightarrow> bits" where
  "value_bits R v = val_bits (value_width R v) (shifted_value R v)"

definition zero_bits :: "nat \<Rightarrow> bits" where
  "zero_bits k = replicate (2 * (k div 3)) True @ val_bits 2 (k mod 3)"

definition zeros :: "int list \<Rightarrow> nat" where
  "zeros ps = length (takeWhile (\<lambda>p. p = 0) ps)"

function dist_bits :: "int list \<Rightarrow> nat \<Rightarrow> bits" where
  "dist_bits ps R = (case ps of [] \<Rightarrow> [] | p # ps \<Rightarrow>
     if R \<le> 1 then []
     else value_bits R (nat (p + 1)) @
       (if p = 0 then zero_bits (zeros ps) @ dist_bits (drop (zeros ps) ps) R
        else dist_bits ps (R - nat \<bar>p\<bar>)))"
  by pat_completeness auto
termination
  by (relation "measure (length o fst)") (auto simp: less_Suc_eq_le)

declare dist_bits.simps [simp del]

lemma log_bounds:
  assumes "1 \<le> R"
  shows "2 ^ ilog2 R \<le> R" "R < 2 * 2 ^ ilog2 R" "low_values R + R + 1 = 2 * 2 ^ ilog2 R"
  using assms ilog2_lower [of R] ilog2_upper [of R] by (simp_all add: low_values_def)

lemma shifted_bound: "1 \<le> R \<Longrightarrow> v \<le> R \<Longrightarrow> shifted_value R v < 2 ^ value_width R v"
proof -
  assume R: "1 \<le> R" "v \<le> R"
  note b = log_bounds [OF R(1)]
  show ?thesis
  proof (cases "shifted_value R v < low_values R")
    case True
    then have "shifted_value R v = v" by (auto simp: shifted_value_def split: if_splits)
    then show ?thesis using True b by (simp add: value_width_def)
  next
    case False
    then show ?thesis using R b by (simp add: value_width_def shifted_value_def)
  qed
qed

lemma width_bound: "1 \<le> R \<Longrightarrow> R < 2 ^ k \<Longrightarrow> value_width R v \<le> k"
  using ilog2_less [of R k] by (simp add: value_width_def)

section \<open>The writer\<close>

text \<open>The register state holds the bits \<open>bs\<close>, at most \<open>m\<close> of them not yet stored.\<close>

definition nc_at :: "nc_state \<Rightarrow> nat \<Rightarrow> bits \<Rightarrow> bool" where
  "nc_at = (\<lambda>(acc, nb, pos, buf) m bs. nb \<le> m \<and> nb < 64 \<and> pos \<le> length buf \<and> take_bit nb acc = acc
     \<and> bytes_bits (take pos buf) @ word_bits nb acc = bs)"

lemma nc_at_weaken: "nc_at st m bs \<Longrightarrow> m \<le> m' \<Longrightarrow> nc_at st m' bs"
  by (auto simp: nc_at_def split: prod.splits)

lemma word_bits_of_nat: "n \<le> 64 \<Longrightarrow> word_bits n (of_nat v) = val_bits n v"
  by (rule nth_equalityI) (auto simp: bit_of_nat_iff)

lemma accumulate:
  fixes acc v :: u64
  assumes "take_bit nb acc = acc" "nb + k \<le> 64" "take_bit k v = v"
  shows "take_bit (nb + k) (acc OR push_bit nb v) = acc OR push_bit nb v"
    and "word_bits (nb + k) (acc OR push_bit nb v) = word_bits nb acc @ word_bits k v"
proof -
  show "word_bits (nb + k) (acc OR push_bit nb v) = word_bits nb acc @ word_bits k v"
    using assms by (intro word_bits_or_push) simp_all
  have "bit acc i \<Longrightarrow> i < nb" "bit v i \<Longrightarrow> i < k" for i
    using assms(1,3) by (metis bit_take_bit_iff)+
  then show "take_bit (nb + k) (acc OR push_bit nb v) = acc OR push_bit nb v"
    by (intro bit_word_eqI) (fastforce simp: bit_take_bit_iff bit_or_iff bit_push_bit_iff)
qed

lemma nc_add_at:
  assumes "nc_at st m bs" "m + width \<le> 63" "v < 2 ^ width"
  shows "\<exists>st'. nc_add v width st = Ok st' \<and> nc_at st' (m + width) (bs @ val_bits width v)"
proof -
  obtain acc nb pos buf where st: "st = (acc, nb, pos, buf)" by (metis prod_cases4)
  have a: "nb \<le> m" "pos \<le> length buf" "take_bit nb acc = acc" "bytes_bits (take pos buf) @ word_bits nb acc = bs"
    using assms(1) by (simp_all add: nc_at_def st)
  have n: "nb + width \<le> 64" "width \<le> 64" using assms(2) a(1) by simp_all
  have "v < 2 ^ 64" using assms(3) n(2) power_increasing [of width 64 "2::nat"] by linarith
  then have "unat (of_nat v :: u64) = v" by (simp add: unat_of_nat take_bit_nat_eq_self)
  then have "take_bit width (of_nat v :: u64) = of_nat v" using assms(3) by (intro unat_less_take_bit) simp
  note ac = accumulate [OF a(3) n(1) this]
  have "nc_at (acc OR push_bit nb (of_nat v), nb + width, pos, buf) (m + width) (bs @ val_bits width v)"
    using a assms(2) ac word_bits_of_nat [OF n(2), of v] by (auto simp: nc_at_def)
  then show ?thesis using a(1) assms(2) by (simp add: nc_add_def st)
qed

lemma stored_bits:
  fixes acc :: u64
  assumes "8 * k \<le> nb" "nb < 64" "take_bit nb acc = acc"
  shows "word_bits nb acc = bytes_bits (take k (u64_to_le_bytes acc)) @ word_bits (nb - 8 * k) (drop_bit (8 * k) acc)"
    and "take_bit (nb - 8 * k) (drop_bit (8 * k) acc) = drop_bit (8 * k) acc"
proof -
  have "take (8 * k) (word_bits 64 acc) = word_bits (8 * k) acc"
    using assms(1,2) by (intro nth_equalityI) auto
  then have "bytes_bits (take k (u64_to_le_bytes acc)) = word_bits (8 * k) acc"
    by (simp add: bytes_bits_u64_to_le_bytes flip: take_bytes_bits)
  then show "word_bits nb acc = bytes_bits (take k (u64_to_le_bytes acc)) @ word_bits (nb - 8 * k) (drop_bit (8 * k) acc)"
    using word_bits_add [of "8 * k" "nb - 8 * k" acc] assms(1) by simp
  have "bit acc i \<Longrightarrow> i < nb" for i using assms(3) by (metis bit_take_bit_iff)
  then show "take_bit (nb - 8 * k) (drop_bit (8 * k) acc) = drop_bit (8 * k) acc"
    by (intro bit_word_eqI) (fastforce simp: bit_take_bit_iff bit_drop_bit_eq)
qed

lemma nc_flush_at:
  assumes "nc_at st 63 bs" "length bs + 16 \<le> 8 * cap"
  shows "\<exists>st'. nc_flush cap st = Ok st' \<and> nc_at st' 47 bs"
proof -
  obtain acc nb pos buf where st: "st = (acc, nb, pos, buf)" by (metis prod_cases4)
  have a: "nb < 64" "pos \<le> length buf" "take_bit nb acc = acc" "bytes_bits (take pos buf) @ word_bits nb acc = bs"
    using assms(1) by (simp_all add: nc_at_def st)
  show ?thesis
  proof (cases "48 \<le> nb")
    case True
    define k where "k = nb div 8"
    have seven: "nb AND 7 = nb mod 8" using take_bit_eq_mask [of 3 nb] by (simp add: take_bit_eq_mod mask_eq_exp_minus_1)
    have k: "8 * k \<le> nb" "k < 8" "nb - 8 * k = nb AND 7" "nb AND 7 < 8" "drop_bit 3 nb = k"
      using a(1) unfolding seven by (auto simp: k_def drop_bit_eq_div minus_mult_div_eq_mod)
    have "length bs = 8 * pos + nb" using a(2) arg_cong [OF a(4), of length] by simp
    then have "pos + 8 \<le> cap" using True assms(2) by simp
    then have run: "nc_flush cap st = Ok (drop_bit (8 * k) acc, nb AND 7, pos + k, take pos buf @ u64_to_le_bytes acc)"
      using True a(2) k by (simp add: nc_flush_def st overrun_store_u64_def mult.commute)
    have "take (pos + k) (take pos buf @ u64_to_le_bytes acc) = take pos buf @ take k (u64_to_le_bytes acc)"
      using a(2) by simp
    then have "nc_at (drop_bit (8 * k) acc, nb AND 7, pos + k, take pos buf @ u64_to_le_bytes acc) 47 bs"
      using stored_bits [OF k(1) a(1,3)] k a by (simp add: nc_at_def)
    then show ?thesis using run by blast
  next
    case False
    then show ?thesis using a by (simp add: nc_flush_def st nc_at_def)
  qed
qed

text \<open>Runs of zeros, the threshold, and the whole loop.\<close>

lemma val_bits_ones: "val_bits 16 0xffff = replicate 16 True" "val_bits 2 3 = replicate 2 True"
proof -
  have "(0xffff :: nat) = mask 16" "(3 :: nat) = mask 2" by (simp_all add: mask_eq_exp_minus_1)
  then show "val_bits 16 0xffff = replicate 16 True" "val_bits 2 3 = replicate 2 True"
    by (auto intro!: nth_equalityI simp only: length_val_bits length_replicate nth_val_bits nth_replicate
        bit_mask_iff) simp_all
qed

lemma nc_run24_at:
  "nc_at st 47 bs \<Longrightarrow> length bs + 16 * (run div 24) + 16 \<le> 8 * cap \<Longrightarrow>
    \<exists>st'. nc_run24 cap run st = Ok (run mod 24, st') \<and> nc_at st' 47 (bs @ replicate (16 * (run div 24)) True)"
proof (induction run arbitrary: st bs rule: less_induct)
  case (less run)
  show ?case
  proof (cases "24 \<le> run")
    case True
    then obtain r where r: "run = 24 + r" by (metis le_Suc_ex)
    obtain st1 where st1: "nc_add 0xffff 16 st = Ok st1" "nc_at st1 63 (bs @ replicate 16 True)"
      using nc_add_at [OF less.prems(1), where width = 16 and v = "0xffff"] by (auto simp: val_bits_ones)
    have d: "run div 24 = Suc (r div 24)" "run mod 24 = r mod 24" "r < run" by (simp_all add: r)
    have room: "length (bs @ replicate 16 True) + 16 \<le> 8 * cap" using less.prems(2) d by simp
    obtain st2 where st2: "nc_flush cap st1 = Ok st2" "nc_at st2 47 (bs @ replicate 16 True)"
      using nc_flush_at [OF st1(2) room] by blast
    have "replicate 16 True @ replicate (16 * (r div 24)) True = replicate (16 * (run div 24)) True"
      by (simp only: d mult_Suc_right replicate_add)
    then show ?thesis
      using less.IH [OF d(3) st2(2)] less.prems(2) st1(1) st2(1) d r
      by (subst nc_run24.simps) simp
  next
    case False
    then show ?thesis using less.prems(1) by (subst nc_run24.simps) simp
  qed
qed

lemma nc_run3_at:
  "nc_at st m bs \<Longrightarrow> m + 2 * (run div 3) \<le> 63 \<Longrightarrow>
    \<exists>st'. nc_run3 run st = Ok (run mod 3, st') \<and> nc_at st' (m + 2 * (run div 3)) (bs @ replicate (2 * (run div 3)) True)"
proof (induction run arbitrary: st bs m rule: less_induct)
  case (less run)
  show ?case
  proof (cases "3 \<le> run")
    case True
    then obtain r where r: "run = 3 + r" by (metis le_Suc_ex)
    have d: "run div 3 = Suc (r div 3)" "run mod 3 = r mod 3" "r < run" by (simp_all add: r)
    have "m + 2 \<le> 63" using less.prems(2) d by simp
    then obtain st1 where st1: "nc_add 3 2 st = Ok st1" "nc_at st1 (m + 2) (bs @ replicate 2 True)"
      using nc_add_at [OF less.prems(1), where width = 2 and v = 3] by (auto simp: val_bits_ones)
    have "replicate 2 True @ replicate (2 * (r div 3)) True = replicate (2 * (run div 3)) True"
      unfolding d by (simp flip: replicate_add)
    then show ?thesis
      using less.IH [OF d(3) st1(2)] less.prems(2) st1(1) d r
      by (subst nc_run3.simps) simp
  next
    case False
    then show ?thesis using less.prems(1) by (subst nc_run3.simps) simp
  qed
qed

lemma nc_shrink_eq:
  "1 \<le> r \<Longrightarrow> r < 2 * 2 ^ k \<Longrightarrow> nc_shrink r (2 ^ k) (Suc k) = Ok (2 ^ ilog2 r, Suc (ilog2 r))"
proof (induction k)
  case 0
  then show ?case by (subst nc_shrink.simps) (simp add: ilog2.simps)
next
  case (Suc k)
  show ?case
  proof (cases "r < 2 ^ Suc k")
    case True
    then show ?thesis using Suc by (subst nc_shrink.simps) simp
  next
    case False
    then have "ilog2 r = Suc k" using Suc.prems by (intro ilog2_eqI) simp_all
    then show ?thesis using False by (subst nc_shrink.simps) simp
  qed
qed

lemma nc_zeros_at:
  assumes "nc_at st 47 bs" "length bs + length (zero_bits run) + 16 \<le> 8 * cap"
  shows "\<exists>r st1 st2 st3 st4. nc_run24 cap run st = Ok (r, st1) \<and> nc_run3 r st1 = Ok (run mod 3, st2)
    \<and> nc_add (run mod 3) 2 st2 = Ok st3 \<and> nc_flush cap st3 = Ok st4 \<and> nc_at st4 47 (bs @ zero_bits run)"
proof -
  have d: "run div 3 = 8 * (run div 24) + run mod 24 div 3" "run mod 24 mod 3 = run mod 3" "run mod 24 div 3 < 8"
  proof -
    have r: "run = run mod 24 + 3 * (8 * (run div 24))" by simp
    have "run div 3 = (run mod 24 + 3 * (8 * (run div 24))) div 3" by (subst r) simp
    also have "\<dots> = 8 * (run div 24) + run mod 24 div 3" by (simp only: div_mult_self2 zero_neq_numeral not_False_eq_True)
    finally show "run div 3 = 8 * (run div 24) + run mod 24 div 3" .
    show "run mod 24 mod 3 = run mod 3" by (rule mod_mod_cancel) simp
    show "run mod 24 div 3 < 8" by (rule less_mult_imp_div_less) simp
  qed
  have len: "length (zero_bits run) = 2 * (run div 3) + 2" by (simp add: zero_bits_def)
  have "length bs + 16 * (run div 24) + 16 \<le> 8 * cap" using assms(2) len d(1) by simp
  from nc_run24_at [OF assms(1) this] obtain st1 where
    st1: "nc_run24 cap run st = Ok (run mod 24, st1)" "nc_at st1 47 (bs @ replicate (16 * (run div 24)) True)" by blast
  have "47 + 2 * (run mod 24 div 3) \<le> 63" using d(3) by simp
  from nc_run3_at [OF st1(2) this] obtain st2 where
    st2: "nc_run3 (run mod 24) st1 = Ok (run mod 3, st2)"
      "nc_at st2 61 (bs @ replicate (2 * (run div 3)) True)"
    using d nc_at_weaken [of _ "47 + 2 * (run mod 24 div 3)" _ 61] by (auto simp flip: replicate_add)
  have "run mod 3 < 2 ^ 2" by (simp add: less_trans [OF mod_less_divisor])
  with nc_add_at [OF st2(2), of 2 "run mod 3"] obtain st3 where
    st3: "nc_add (run mod 3) 2 st2 = Ok st3" "nc_at st3 63 (bs @ zero_bits run)" by (auto simp: zero_bits_def)
  have "length (bs @ zero_bits run) + 16 \<le> 8 * cap" using assms(2) by simp
  from nc_flush_at [OF st3(2) this] st1(1) st2(1) st3(1) show ?thesis by blast
qed

text \<open>A distribution over the mass \<open>R - 1\<close> that is left.\<close>

definition rest_dist :: "int list \<Rightarrow> nat \<Rightarrow> bool" where
  "rest_dist ps R \<longleftrightarrow> (\<forall>p \<in> set ps. -1 \<le> p) \<and> sum_list (map abs ps) + 1 = int R \<and> (ps = [] \<or> last ps \<noteq> 0)"

lemma zeros_drop: "sum_list (map abs (drop (zeros ps) ps)) = sum_list (map abs ps)"
  "set (drop (zeros ps) ps) \<subseteq> set ps" "take (zeros ps) ps = replicate (zeros ps) 0" "zeros ps \<le> length ps"
proof -
  show "take (zeros ps) ps = replicate (zeros ps) 0"
    by (induction ps) (auto simp: zeros_def)
  show "sum_list (map abs (drop (zeros ps) ps)) = sum_list (map abs ps)"
    by (induction ps) (auto simp: zeros_def)
qed (auto simp: zeros_def set_drop_subset length_takeWhile_le)

lemma rest_dist_step:
  assumes "rest_dist (p # ps) R"
  shows "-1 \<le> p" "nat \<bar>p\<bar> \<le> R - 1" "1 \<le> R" "nat (p + 1) \<le> R"
    "p \<noteq> 0 \<Longrightarrow> rest_dist ps (R - nat \<bar>p\<bar>)"
    "p = 0 \<Longrightarrow> rest_dist (drop (zeros ps) ps) R \<and> drop (zeros ps) ps \<noteq> []"
proof -
  have s: "0 \<le> sum_list (map abs ps)" by (rule sum_list_nonneg) auto
  show b: "-1 \<le> p" "nat \<bar>p\<bar> \<le> R - 1" "1 \<le> R" "nat (p + 1) \<le> R"
    using assms s by (auto simp: rest_dist_def)
  show "rest_dist ps (R - nat \<bar>p\<bar>)" if "p \<noteq> 0"
    using assms b by (auto simp: rest_dist_def of_nat_diff)
  assume p: "p = 0"
  have l: "last ps \<noteq> 0" "ps \<noteq> []" using assms p by (auto simp: rest_dist_def split: if_splits)
  have ne: "drop (zeros ps) ps \<noteq> []"
  proof
    assume "drop (zeros ps) ps = []"
    then have "take (zeros ps) ps = ps" by simp
    then have "ps = replicate (zeros ps) 0" using zeros_drop(3) [of ps] by simp
    then have "last ps = 0" using l(2) by (metis last_replicate length_0_conv length_replicate)
    then show False using l(1) by simp
  qed
  then have "last (drop (zeros ps) ps) = last ps" by (simp add: last_drop)
  then show "rest_dist (drop (zeros ps) ps) R \<and> drop (zeros ps) ps \<noteq> []"
    using assms p ne l zeros_drop(1,2) [of ps] by (auto simp: rest_dist_def)
qed

lemma nc_value_eq:
  assumes "-1 \<le> p" "nat (p + 1) \<le> R" "R \<le> 2 ^ 20"
  shows "nc_value p (2 ^ ilog2 R) (low_values R) = shifted_value R (nat (p + 1))"
proof -
  have "p + 1 < 2 ^ 64" using assms by simp
  then have "(p + 1) mod 2 ^ 64 = p + 1" using assms(1) by simp
  then show ?thesis by (simp add: nc_value_def shifted_value_def)
qed

lemma nc_loop_at:
  "rest_dist ps R \<Longrightarrow> R < 2 ^ 13 \<Longrightarrow> nc_at st 47 bs \<Longrightarrow> length bs + 15 * length ps + 16 \<le> 8 * cap \<Longrightarrow>
    \<exists>st'. nc_loop cap ps R (2 ^ ilog2 R) (Suc (ilog2 R)) st = Ok st' \<and> nc_at st' 47 (bs @ dist_bits ps R)"
proof (induction ps R arbitrary: st bs rule: dist_bits.induct)
  case (1 pps R)
  show ?case
  proof (cases pps)
    case Nil
    then show ?thesis using "1.prems" by (subst nc_loop.simps, subst dist_bits.simps) simp
  next
    case (Cons p ps)
    note s = rest_dist_step [OF "1.prems"(1) [unfolded Cons]]
    show ?thesis
    proof (cases "R \<le> 1")
      case True
      then show ?thesis using "1.prems" Cons by (subst nc_loop.simps, subst dist_bits.simps) simp
    next
      case False
      define v w where "v = shifted_value R (nat (p + 1))" and "w = value_width R (nat (p + 1))"
      define r where "r = R - nat \<bar>p\<bar>"
      note lb = log_bounds [OF s(3)]
      have v: "v < 2 ^ w" "w \<le> 13" using shifted_bound [OF s(3,4)] width_bound [OF s(3) "1.prems"(2)]
        by (simp_all add: v_def w_def)
      have "47 + w \<le> 63" using v(2) by simp
      with nc_add_at [OF "1.prems"(3) _ v(1)] obtain st1 where
        st1: "nc_add v w st = Ok st1" "nc_at st1 (47 + w) (bs @ val_bits w v)" by blast
      have vb: "val_bits w v = value_bits R (nat (p + 1))" by (simp add: value_bits_def v_def w_def)
      have "length (bs @ val_bits w v) + 16 \<le> 8 * cap" using "1.prems"(4) v(2) Cons by simp
      moreover have "nc_at st1 63 (bs @ val_bits w v)" using nc_at_weaken [OF st1(2)] v(2) by simp
      ultimately obtain st2 where st2: "nc_flush cap st1 = Ok st2" "nc_at st2 47 (bs @ val_bits w v)"
        using nc_flush_at by blast
      have sh: "nc_shrink r (2 ^ ilog2 R) (Suc (ilog2 R)) = Ok (2 ^ ilog2 r, Suc (ilog2 r))"
        using lb s(2,3) False by (intro nc_shrink_eq) (auto simp: r_def)
      have lo: "2 * 2 ^ ilog2 R - 1 - R = low_values R" "1 + R \<le> 2 * 2 ^ ilog2 R" using lb by simp_all
      have nv: "nc_value p (2 ^ ilog2 R) (low_values R) = v"
        using nc_value_eq [OF s(1,4)] "1.prems"(2) by (simp add: v_def)
      have wv: "Suc (ilog2 R) - of_bool (v < low_values R) = w" by (simp add: w_def v_def value_width_def)
      have p: "nat \<bar>p\<bar> \<le> R" using s(2) by simp
      have run: "nc_loop cap pps R (2 ^ ilog2 R) (Suc (ilog2 R)) st =
         (if p = 0 then
            rbind (nc_run24 cap (zeros ps) st2) (\<lambda>(r', st). rbind (nc_run3 r' st) (\<lambda>(r', st).
            rbind (nc_add r' 2 st) (\<lambda>st. rbind (nc_flush cap st) (\<lambda>st.
              nc_loop cap (drop (zeros ps) ps) r (2 ^ ilog2 r) (Suc (ilog2 r)) st))))
          else rbind (nc_flush cap st2) (\<lambda>st. nc_loop cap ps r (2 ^ ilog2 r) (Suc (ilog2 r)) st))"
        using False lo p by (subst nc_loop.simps)
          (simp add: Cons nv wv st1(1) st2(1) sh zeros_def Let_def flip: r_def)
      show ?thesis
      proof (cases "p = 0")
        case True
        have z: "zeros ps \<le> length ps" by (rule zeros_drop(4))
        have "length (zero_bits (zeros ps)) \<le> 2 * zeros ps + 2" by (simp add: zero_bits_def)
        then have room: "length (bs @ val_bits w v) + length (zero_bits (zeros ps)) + 15 * (length ps - zeros ps) + 16 \<le> 8 * cap"
          using "1.prems"(4) v(2) z Cons by simp
        then have "length (bs @ val_bits w v) + length (zero_bits (zeros ps)) + 16 \<le> 8 * cap" by simp
        from nc_zeros_at [OF st2(2) this] obtain r' st3 st4 st5 st6 where
          z: "nc_run24 cap (zeros ps) st2 = Ok (r', st3)" "nc_run3 r' st3 = Ok (zeros ps mod 3, st4)"
          "nc_add (zeros ps mod 3) 2 st4 = Ok st5" "nc_flush cap st5 = Ok st6"
          "nc_at st6 47 ((bs @ val_bits w v) @ zero_bits (zeros ps))" by blast
        have r: "r = R" using True by (simp add: r_def)
        have "length ((bs @ val_bits w v) @ zero_bits (zeros ps)) + 15 * length (drop (zeros ps) ps) + 16 \<le> 8 * cap"
          using room by simp
        from "1.IH"(1) [OF Cons False True _ "1.prems"(2) z(5) this] s(6) True
        show ?thesis
          unfolding run using z(1-4) True vb
          by (subst dist_bits.simps) (use False in \<open>simp add: Cons r\<close>)
      next
        case nz: False
        have "length (bs @ val_bits w v) + 16 \<le> 8 * cap" using "1.prems"(4) v(2) Cons by simp
        moreover have "nc_at st2 63 (bs @ val_bits w v)" using nc_at_weaken [OF st2(2)] by simp
        ultimately obtain st3 where st3: "nc_flush cap st2 = Ok st3" "nc_at st3 47 (bs @ val_bits w v)"
          using nc_flush_at by blast
        have "length (bs @ val_bits w v) + 15 * length ps + 16 \<le> 8 * cap" using "1.prems"(4) v(2) Cons by simp
        moreover have "r < 2 ^ 13" using "1.prems"(2) by (simp add: r_def)
        ultimately have "\<exists>st'. nc_loop cap ps r (2 ^ ilog2 r) (Suc (ilog2 r)) st3 = Ok st'
            \<and> nc_at st' 47 ((bs @ val_bits w v) @ dist_bits ps r)"
          using "1.IH"(2) [OF Cons False nz _ _ st3(2)] s(5) [OF nz] by (simp add: r_def)
        then
        show ?thesis
          unfolding run using st3(1) nz vb
          by (subst dist_bits.simps) (use False in \<open>simp add: Cons flip: r_def\<close>)
      qed
    qed
  qed
qed

section \<open>The reader\<close>

lemma bits_val_take_val:
  assumes "v < 2 ^ n"
  shows "bits_val (take n (val_bits n v @ rest)) = v"
    and "bits_val (take (Suc n) (val_bits n v @ rest)) mod 2 ^ n = v"
proof -
  show t: "bits_val (take n (val_bits n v @ rest)) = v"
    using assms by (simp add: bits_val_val_bits take_bit_nat_eq_self)
  have "take (Suc n) (val_bits n v @ rest) = val_bits n v @ take 1 rest" by simp
  then show "bits_val (take (Suc n) (val_bits n v @ rest)) mod 2 ^ n = v"
    using assms by (simp only: bits_val_append bits_val_val_bits length_val_bits)
      (simp add: take_bit_nat_eq_self)
qed

lemma bits_at_length:
  "br_bits br = f @ rest \<Longrightarrow> br_idx br \<le> br_total br \<Longrightarrow> br_idx br + length f \<le> br_total br"
proof -
  assume a: "br_bits br = f @ rest" "br_idx br \<le> br_total br"
  have "br_left br = length f + length rest" using arg_cong [OF a(1), of length] by simp
  then show ?thesis using a(2) by (simp add: br_left_def br_total_def)
qed

lemma bits_advance: "br_bits br = f @ rest \<Longrightarrow> br_bits (br\<lparr>br_idx := br_idx br + length f\<rparr>) = rest"
proof -
  assume bits: "br_bits br = f @ rest"
  have "br_bits (br\<lparr>br_idx := br_idx br + length f\<rparr>) = drop (length f) (br_bits br)"
    by (simp add: br_bits_def add.commute)
  then show ?thesis by (simp add: bits)
qed

lemma read_value_bits:
  assumes pc: "pc < psum" "psum \<le> 2 ^ 20" and idx: "br_idx br \<le> br_total br"
    and R: "R = psum - pc + 1" and v: "v \<le> R" and bits: "br_bits br = value_bits R v @ rest"
  shows "read_value psum pc br = Ok (v, br\<lparr>br_idx := br_idx br + length (value_bits R v)\<rparr>)"
proof -
  obtain b lo where b: "b = Suc (ilog2 (psum - pc + 1))" "lo + (psum - pc + 1) + 1 = 2 ^ b"
    "2 ^ b = 2 * (2::nat) ^ (b - 1)" "2 ^ (b - 1) \<le> psum - pc + 1" by (rule value_range [OF pc])
  have R1: "1 \<le> R" using R by simp
  have bR: "b = Suc (ilog2 R)" "2 ^ ilog2 R = (2::nat) ^ (b - 1)" "low_values R = lo"
    using b log_bounds(3) [OF R1] by (simp_all add: R)
  define s where "s = shifted_value R v"
  define n where "n = value_width R v"
  have sn: "s < 2 ^ n" unfolding s_def n_def by (rule shifted_bound [OF R1 v])
  have n: "n = b - of_bool (s < lo)" by (simp add: n_def value_width_def bR(3) s_def flip: bR(1))
  have s: "s = (if 2 ^ (b - 1) \<le> v then v + lo else v)" by (simp add: s_def shifted_value_def bR(2,3))
  have bits': "br_bits br = val_bits n s @ rest" using bits by (simp add: value_bits_def s_def n_def)
  have left: "n \<le> br_left br" using arg_cong [OF bits', of length] by simp
  have b2: "2 \<le> b" using pc(1) ilog2_lower [of "psum - pc + 1"] b(1) by (subst b(1), subst ilog2.simps) auto
  have "1 \<le> n" using b2 by (simp add: n) arith
  then have ne: "br_idx br \<noteq> br_total br" using left by (simp add: br_left_def br_total_def)
  have lim: "br_bits_read (br\<lparr>br_idx := br_idx br + n\<rparr>) \<le> length (br_source br) * 8"
    using bits_at_length [OF bits' idx] by (simp add: br_bits_read_def br_total_def)
  define u where "u = bits_val (take b (br_bits br))"
  note eq = read_value_eq [OF pc idx b(1,2) u_def]
  have ma: "u AND 2 ^ (b - 1) - 1 = u mod 2 ^ (b - 1)"
    using take_bit_eq_mask [of "b - 1" u] by (simp add: take_bit_eq_mod mask_eq_exp_minus_1)
  show ?thesis
  proof (cases "s < lo")
    case True
    then have "n = b - 1" "s = v" "v < lo" using n s by (auto split: if_splits)
    moreover from this have "u mod 2 ^ (b - 1) = v"
      using bits_val_take_val(2) [OF sn, of rest] b2 by (simp add: u_def bits' Suc_diff_Suc)
    ultimately show ?thesis
      using ne left lim b2 unfolding eq ma by (simp add: value_bits_def flip: s_def n_def)
  next
    case False
    then have nb: "n = b" using n by simp
    have us: "u = s" using bits_val_take_val(1) [OF sn, of rest] by (simp add: u_def bits' nb)
    have "\<not> u mod 2 ^ (b - 1) < lo \<and> (if 2 ^ (b - 1) \<le> u then u - lo else u) = v"
    proof (cases "2 ^ (b - 1) \<le> v")
      case True
      then have "u = v + lo" using s us by simp
      moreover have "u - 2 ^ (b - 1) < 2 ^ (b - 1)" using sn nb us b(3) by simp
      then have "u mod 2 ^ (b - 1) = u - 2 ^ (b - 1)"
        using True \<open>u = v + lo\<close> by (simp add: mod_if)
      ultimately show ?thesis using True by simp
    next
      case small: False
      then show ?thesis using s us False by simp
    qed
    then show ?thesis
      using ne left lim nb unfolding eq ma by (simp add: value_bits_def flip: s_def n_def)
  qed
qed

lemma zero_run_bits:
  "br_bits br = zero_bits k @ rest \<Longrightarrow> br_idx br \<le> br_total br \<Longrightarrow>
    zero_run br probs = Ok (br\<lparr>br_idx := br_idx br + length (zero_bits k)\<rparr>, probs @ replicate k 0)"
proof (induction k arbitrary: br probs rule: less_induct)
  case (less k)
  define d where "d = min k 3"
  define tl where "tl = (if 3 \<le> k then zero_bits (k - 3) else [])"
  have z: "zero_bits k = val_bits 2 d @ tl"
  proof (cases "3 \<le> k")
    case True
    then obtain j where j: "k = 3 + j" by (metis le_Suc_ex)
    then have "k div 3 = Suc (j div 3)" "k mod 3 = j mod 3" "k - 3 = j" "d = 3" by (simp_all add: d_def)
    then show ?thesis
      using True by (simp only: tl_def zero_bits_def val_bits_ones(2) if_True mult_Suc_right replicate_add append_assoc)
  qed (simp add: d_def tl_def zero_bits_def)
  have d: "d < 2 ^ 2" by (simp add: d_def)
  have bits: "br_bits br = val_bits 2 d @ tl @ rest" using less.prems(1) z by simp
  have lim: "br_idx br + 2 \<le> br_total br" using bits_at_length [OF bits less.prems(2)] by simp
  have left: "2 \<le> br_left br" using arg_cong [OF bits, of length] by simp
  let ?br = "br\<lparr>br_idx := br_idx br + 2\<rparr>"
  have get: "br_get_bits br 2 = Ok (bits_word (take 2 (br_bits br)), ?br)"
    using left lim by (intro br_get_bits_correct) simp_all
  have "unat (bits_word (take 2 (br_bits br))) = bits_val (take 2 (br_bits br))" by (rule unat_bits_word) simp
  then have u: "unat (bits_word (take 2 (br_bits br))) = d"
    using bits_val_take_val(1) [OF d] by (simp add: bits)
  show ?case
  proof (cases "3 \<le> k")
    case True
    have "br_bits ?br = zero_bits (k - 3) @ rest"
      using bits_advance [OF bits] True by (simp add: tl_def)
    from less.IH [OF _ this, of "probs @ replicate 3 0"] True lim
    have IH: "zero_run ?br (probs @ replicate 3 0)
        = Ok (?br\<lparr>br_idx := br_idx ?br + length (zero_bits (k - 3))\<rparr>, (probs @ replicate 3 0) @ replicate (k - 3) 0)"
      by (simp add: br_total_def)
    have "replicate 3 (0::int) @ replicate (k - 3) 0 = replicate k 0" using True by (simp flip: replicate_add)
    then show ?thesis
      using IH get u True z by (subst zero_run.simps) (simp add: d_def tl_def)
  next
    case False
    then show ?thesis using get u z by (subst zero_run.simps) (auto simp: d_def tl_def)
  qed
qed

lemma rest_dist_live: "rest_dist (p # ps) R \<Longrightarrow> 1 < R"
proof (rule ccontr)
  assume d: "rest_dist (p # ps) R" and "\<not> 1 < R"
  then have "sum_list (map abs (p # ps)) \<le> 0" by (simp add: rest_dist_def)
  moreover have "\<bar>last (p # ps)\<bar> \<le> sum_list (map abs (p # ps))"
    by (rule member_le_sum_list) (use last_in_set [of "p # ps"] in auto)
  ultimately show False using d by (auto simp: rest_dist_def simp del: last.simps)
qed

lemma read_loop_bits:
  "rest_dist ps R \<Longrightarrow> pc \<le> psum \<Longrightarrow> psum \<le> 2 ^ 20 \<Longrightarrow> R = psum - pc + 1 \<Longrightarrow> br_idx br \<le> br_total br \<Longrightarrow>
    br_bits br = dist_bits ps R @ rest \<Longrightarrow>
    read_loop psum pc pre br = Ok (psum, pre @ ps, br\<lparr>br_idx := br_idx br + length (dist_bits ps R)\<rparr>)"
proof (induction ps R arbitrary: pc pre br rule: dist_bits.induct)
  case (1 pps R)
  show ?case
  proof (cases pps)
    case Nil
    then have "pc = psum" using "1.prems"(1,2,4) by (simp add: rest_dist_def)
    then show ?thesis using Nil by (subst read_loop.simps, subst dist_bits.simps) simp
  next
    case (Cons p ps)
    note d = "1.prems"(1) [unfolded Cons]
    note s = rest_dist_step [OF d]
    have R: "\<not> R \<le> 1" "pc < psum" using rest_dist_live [OF d] "1.prems"(4) by simp_all
    define v vb where "v = nat (p + 1)" and "vb = value_bits R v"
    define z where "z = (if p = 0 then zero_bits (zeros ps) else [])"
    define tl where "tl = (if p = 0 then drop (zeros ps) ps else ps)"
    define R' where "R' = (if p = 0 then R else R - nat \<bar>p\<bar>)"
    have db: "dist_bits pps R = vb @ z @ dist_bits tl R'"
      by (subst dist_bits.simps) (use R(1) in \<open>simp add: Cons vb_def v_def z_def tl_def R'_def\<close>)
    have bits: "br_bits br = vb @ (z @ dist_bits tl R' @ rest)" using "1.prems"(6) by (simp add: db)
    let ?br = "br\<lparr>br_idx := br_idx br + length vb\<rparr>"
    have v: "v \<le> R" "int v - 1 = p" using s(1,4) by (simp_all add: v_def)
    have rv: "read_value psum pc br = Ok (v, ?br)"
      unfolding vb_def by (rule read_value_bits [OF R(2) "1.prems"(3,5,4) v(1) bits [unfolded vb_def]])
    have b1: "br_bits ?br = z @ (dist_bits tl R' @ rest)" by (rule bits_advance [OF bits])
    have i1: "br_idx ?br \<le> br_total ?br" using bits_at_length [OF bits "1.prems"(5)] by (simp add: br_total_def)
    show ?thesis
    proof (cases "p = 0")
      case True
      let ?br2 = "?br\<lparr>br_idx := br_idx ?br + length z\<rparr>"
      have zr: "zero_run ?br (pre @ [0]) = Ok (?br2, (pre @ [0]) @ replicate (zeros ps) 0)"
        using zero_run_bits [of ?br "zeros ps" "dist_bits tl R' @ rest"] b1 i1 True by (simp add: z_def)
      have b2: "br_bits ?br2 = dist_bits (drop (zeros ps) ps) R @ rest"
        using bits_advance [OF b1] True by (simp add: tl_def R'_def)
      have i2: "br_idx ?br2 \<le> br_total ?br2" using bits_at_length [OF b1 i1] by (simp add: br_total_def)
      have "(pre @ [0]) @ replicate (zeros ps) 0 @ drop (zeros ps) ps = pre @ pps"
        using zeros_drop(3) [of ps, symmetric] by (simp add: Cons True)
      moreover from s(6) [OF True] have "rest_dist (drop (zeros ps) ps) R" by blast
      note "1.IH"(1) [OF Cons R(1) True this "1.prems"(2,3,4) i2 b2, of "(pre @ [0]) @ replicate (zeros ps) 0"]
      ultimately show ?thesis
        using True rv zr v(2) R(2) db by (subst read_loop.simps) (simp add: tl_def R'_def add.assoc)
    next
      case False
      let ?pc = "if p > 0 then pc + nat p else pc + 1"
      have pcs: "?pc \<le> psum" "R - nat \<bar>p\<bar> = psum - ?pc + 1" using s(1,2) False "1.prems"(2,4) R by auto
      have b2: "br_bits ?br = dist_bits ps (R - nat \<bar>p\<bar>) @ rest"
        using b1 False by (simp add: z_def tl_def R'_def)
      from "1.IH"(2) [OF Cons R(1) False s(5) [OF False] pcs(1) "1.prems"(3) pcs(2) i1 b2, of "pre @ [p]"]
      show ?thesis
        using False rv v(2) R(2) db Cons
        by (subst read_loop.simps, cases "0 < p") (simp_all add: Let_def z_def tl_def R'_def add.assoc)
    qed
  qed
qed

section \<open>Whole descriptions\<close>

definition ncount_bits :: "nat \<Rightarrow> int list \<Rightarrow> bits" where
  "ncount_bits acc ps = val_bits 4 (acc - 5) @ dist_bits ps (2 ^ acc + 1)"

lemma dist_valid_rest: "dist_valid acc ps \<Longrightarrow> last ps \<noteq> 0 \<Longrightarrow> rest_dist ps (2 ^ acc + 1)"
  by (simp add: dist_valid_def rest_dist_def)

lemma write_ncount_correct:
  assumes v: "dist_valid acc ps" "acc \<le> 12" "last ps \<noteq> 0" and w: "bw_inv w"
  shows "\<exists>w' z. write_ncount ps acc w = Ok w' \<and> bw_inv w' \<and> z < 8
    \<and> bw_bits w' = bw_bits w @ ncount_bits acc ps @ replicate z False \<and> length (bw_bits w') mod 8 = 0"
proof -
  have acc: "5 \<le> acc" using v(1) by (simp add: dist_valid_def)
  define pos where "pos = bw_bit_idx w div 8"
  define cap where "cap = pos + ((4 + 15 * length ps) div 8 + 16)"
  have i: "pos = length (bw_output w)" "bw_bits_in_partial w < 64"
    "take_bit (bw_bits_in_partial w) (bw_partial w) = bw_partial w" using w by (simp_all add: bw_inv_def pos_def)
  have at0: "nc_at (bw_partial w, bw_bits_in_partial w, pos, bw_output w) 63 (bw_bits w)"
    using i by (simp add: nc_at_def bw_bits_def)
  have "length (bw_bits w) \<le> 8 * pos + 63" using i by (simp add: bw_bits_def)
  moreover have "4 + 15 * length ps \<le> 8 * ((4 + 15 * length ps) div 8) + 7" by presburger
  ultimately have room: "length (bw_bits w) + 4 + 15 * length ps + 16 \<le> 8 * cap" by (simp add: cap_def)
  then have "length (bw_bits w) + 16 \<le> 8 * cap" by simp
  from nc_flush_at [OF at0 this] obtain st1 where
    st1: "nc_flush cap (bw_partial w, bw_bits_in_partial w, pos, bw_output w) = Ok st1" "nc_at st1 47 (bw_bits w)" by blast
  have "acc - 5 < 2 ^ 4" using v(2) by simp
  from nc_add_at [OF st1(2) _ this] obtain st2 where
    st2: "nc_add (acc - 5) 4 st1 = Ok st2" "nc_at st2 51 (bw_bits w @ val_bits 4 (acc - 5))" by auto
  have "length (bw_bits w @ val_bits 4 (acc - 5)) + 16 \<le> 8 * cap" using room by simp
  moreover have "nc_at st2 63 (bw_bits w @ val_bits 4 (acc - 5))" using nc_at_weaken [OF st2(2)] by simp
  ultimately obtain st3 where
    st3: "nc_flush cap st2 = Ok st3" "nc_at st3 47 (bw_bits w @ val_bits 4 (acc - 5))" using nc_flush_at by blast
  have room3: "length (bw_bits w @ val_bits 4 (acc - 5)) + 15 * length ps + 16 \<le> 8 * cap" using room by simp
  have lt: "(2::nat) ^ acc + 1 < 2 ^ 13"
    using power_increasing [OF v(2), of "2::nat"] by simp
  have "(1::nat) < 2 ^ acc" using acc by (intro one_less_power) simp_all
  then have il: "ilog2 (2 ^ acc + 1) = acc" by (intro ilog2_eqI) simp_all
  from nc_loop_at [OF dist_valid_rest [OF v(1,3)] lt st3(2) room3, unfolded il]
  obtain st4 where st4: "nc_loop cap ps (2 ^ acc + 1) (2 ^ acc) (acc + 1) st3 = Ok st4"
    "nc_at st4 47 ((bw_bits w @ val_bits 4 (acc - 5)) @ dist_bits ps (2 ^ acc + 1))"
    by auto
  obtain a nb p buf where q: "st4 = (a, nb, p, buf)" by (metis prod_cases4)
  define w1 where "w1 = w\<lparr>bw_output := take p buf, bw_partial := a, bw_bits_in_partial := nb, bw_bit_idx := p * 8\<rparr>"
  have w1: "bw_set_hot_state w a nb p buf = Ok w1" "bw_inv w1" "bw_bits w1 = bw_bits w @ ncount_bits acc ps"
    using st4(2) by (simp_all add: q nc_at_def bw_set_hot_state_def w1_def bw_inv_def bw_bits_def ncount_bits_def)
  define z where "z = bw_misaligned w1"
  have z: "z < 8" "(length (bw_bits w1) + z) mod 8 = 0"
    using bw_misaligned_less [of w1] bw_misaligned_fills [OF w1(2)] by (simp_all add: z_def)
  have "z < 64" "unat (0 :: u64) < 2 ^ z" using z(1) by simp_all
  from bw_write_bits_64_correct [OF w1(2) this] obtain w2 where
    w2: "bw_write_bits w1 0 z = Ok w2" "bw_inv w2" "bw_bits w2 = bw_bits w1 @ word_bits z 0"
    by (auto simp: bw_write_bits_def)
  have "word_bits z 0 = replicate z False" by (rule nth_equalityI) simp_all
  moreover have "write_ncount ps acc w = Ok w2"
    using acc v(2) st1(1) st2(1) st3(1) st4(1) w1(1) w2(1)
    by (simp add: write_ncount_def ACC_LOG_OFFSET_def bw_hot_state_def q z_def push_bit_eq_mult
        flip: pos_def cap_def)
  ultimately show ?thesis using w2 w1(3) z by (auto simp: add.assoc)
qed

lemma whole_bytes: "(m::nat) + z = 8 * n \<Longrightarrow> z < 8 \<Longrightarrow> (if m mod 8 = 0 then m div 8 else m div 8 + 1) = n"
proof -
  assume m: "m + z = 8 * n" "z < 8"
  show ?thesis
  proof (cases "z = 0")
    case False
    then have "m = 8 * (n - 1) + (8 - z)" "0 < n" using m by auto
    moreover have "8 - z < 8" using False by simp
    ultimately have "m div 8 = n - 1" "m mod 8 = 8 - z" by simp_all
    then show ?thesis using m(2) \<open>0 < n\<close> by simp
  qed (use m in simp)
qed

lemma read_ncount_correct:
  assumes v: "dist_valid acc ps" "acc \<le> max_log" "last ps \<noteq> 0" "length ps \<le> ft_max_symbol t + 1"
    and src: "bytes_bits source = ncount_bits acc ps @ replicate z False @ after" "z < 8"
      "length (ncount_bits acc ps) + z = 8 * n"
  shows "read_probabilities t source max_log
    = Ok (n, t\<lparr>ft_accuracy_log := acc, ft_symbol_probabilities := ps\<rparr>)"
proof -
  have acc: "5 \<le> acc" "acc \<le> 20" using v(1) by (simp_all add: dist_valid_def)
  let ?br = "(br_new source)\<lparr>br_idx := 4\<rparr>"
  let ?db = "dist_bits ps (2 ^ acc + 1)"
  have bits: "br_bits (br_new source) = val_bits 4 (acc - 5) @ (?db @ replicate z False @ after)"
    using src(1) by (simp add: ncount_bits_def)
  have left: "4 \<le> length source * 8" using arg_cong [OF src(1), of length] by (simp add: ncount_bits_def)
  have get: "br_get_bits (br_new source) 4 = Ok (bits_word (take 4 (br_bits (br_new source))), ?br)"
    using left by (subst br_get_bits_correct) (auto simp: br_left_def br_total_def br_new_def)
  have "acc - 5 < 2 ^ 4" using acc(2) by simp
  then have "bits_val (take 4 (br_bits (br_new source))) = acc - 5"
    using bits_val_take_val(1) by (simp only: bits)
  then have nibble: "unat (bits_word (take 4 (br_bits (br_new source)))) = acc - 5"
    using unat_bits_word [of "take 4 (br_bits (br_new source))"] by simp
  have b1: "br_bits ?br = ?db @ replicate z False @ after"
    using bits_advance [OF bits] by (simp add: br_new_def)
  have i1: "br_idx ?br \<le> br_total ?br" using left by (simp add: br_total_def br_new_def)
  have "(2::nat) ^ acc \<le> 2 ^ 20" using acc(2) by (intro power_increasing) simp_all
  note loop = read_loop_bits [OF dist_valid_rest [OF v(1,3)] _ this _ i1 b1, of 0 "[]"]
  have len: "4 + length ?db + z = 8 * n" using src(3) by (simp add: ncount_bits_def)
  have "(if (4 + length ?db) mod 8 = 0 then (4 + length ?db) div 8 else (4 + length ?db) div 8 + 1) = n"
    by (rule whole_bytes [OF len src(2)])
  then show ?thesis
    using get nibble acc v(2,4) loop
    by (simp add: read_probabilities_def ACC_LOG_OFFSET_def push_bit_eq_mult br_bits_read_def Let_def cong: if_cong)
qed

lemma ncount_desc:
  assumes "dist_valid acc ps" "acc \<le> 12" "last ps \<noteq> 0"
  shows "\<exists>desc. (\<forall>w. bw_inv w \<and> length (bw_bits w) mod 8 = 0 \<longrightarrow>
       (\<exists>w'. write_ncount ps acc w = Ok w' \<and> bw_inv w' \<and> bw_bits w' = bw_bits w @ bytes_bits desc))
    \<and> (\<forall>t after max_log. length ps \<le> ft_max_symbol t + 1 \<and> acc \<le> max_log \<longrightarrow>
         read_probabilities t (desc @ after) max_log
           = Ok (length desc, t\<lparr>ft_accuracy_log := acc, ft_symbol_probabilities := ps\<rparr>))"
proof -
  let ?n = "length (ncount_bits acc ps)"
  obtain w0 z where w0: "write_ncount ps acc bw_new = Ok w0" "bw_inv w0" "z < 8"
    "bw_bits w0 = ncount_bits acc ps @ replicate z False" "length (bw_bits w0) mod 8 = 0"
    using write_ncount_correct [OF assms, of bw_new] by auto
  obtain desc where desc: "bytes_bits desc = ncount_bits acc ps @ replicate z False"
    using bw_dump_correct [OF w0(2,5)] w0(4) by auto
  have len: "?n + z = 8 * length desc" using arg_cong [OF desc, of length] by simp
  have "\<exists>w'. write_ncount ps acc w = Ok w' \<and> bw_inv w' \<and> bw_bits w' = bw_bits w @ bytes_bits desc"
    if wi: "bw_inv w" and al: "length (bw_bits w) mod 8 = 0" for w
  proof -
    obtain w' z' where w': "write_ncount ps acc w = Ok w'" "bw_inv w'" "z' < 8"
      "bw_bits w' = bw_bits w @ ncount_bits acc ps @ replicate z' False" "length (bw_bits w') mod 8 = 0"
      using write_ncount_correct [OF assms wi] by auto
    obtain m where m: "length (bw_bits w) = 8 * m" using al by (metis mod_0_imp_dvd dvdE)
    obtain k where k: "length (bw_bits w') = 8 * k" using w'(5) by (metis mod_0_imp_dvd dvdE)
    have "8 * m + (?n + z') = 8 * k" using m k w'(4) by simp
    then have "z' + 8 * (m + length desc) = z + 8 * k" using len by simp
    then have "(z' + 8 * (m + length desc)) mod 8 = (z + 8 * k) mod 8" by (rule arg_cong)
    then have "z' = z" using w'(3) w0(3) by (simp only: mod_mult_self2 mod_less)
    then show ?thesis using w' desc by auto
  qed
  moreover have "read_probabilities t (desc @ after) max_log
      = Ok (length desc, t\<lparr>ft_accuracy_log := acc, ft_symbol_probabilities := ps\<rparr>)"
    if "length ps \<le> ft_max_symbol t + 1" "acc \<le> max_log" for t after max_log
    using read_ncount_correct [OF assms(1) that(2) assms(3) that(1), of "desc @ after" z "bytes_bits after"] desc w0(3) len
    by simp
  ultimately show ?thesis by (intro exI [of _ desc]) auto
qed

text \<open>
  C22.  Serializing a normalized distribution and parsing it again returns the distribution and
  consumes exactly the bytes written: for every distribution of accuracy 5 to 12 whose last symbol
  is live there is a byte string that the writer appends to any byte-aligned writer, never storing
  outside its reserve, and from which the parser, whatever bytes follow, rebuilds the probabilities
  and the accuracy.
\<close>

theorem ncount_roundtrip:
  assumes "dist_valid acc ps" "acc \<le> 12" "last ps \<noteq> 0"
  shows "\<exists>desc. (\<forall>w. bw_inv w \<and> length (bw_bits w) mod 8 = 0 \<longrightarrow>
       (\<exists>w'. write_ncount ps acc w = Ok w' \<and> bw_inv w' \<and> bw_bits w' = bw_bits w @ bytes_bits desc))
    \<and> (\<forall>t after max_log. length ps \<le> ft_max_symbol t + 1 \<and> acc \<le> max_log \<longrightarrow>
         read_probabilities t (desc @ after) max_log
           = Ok (length desc, t\<lparr>ft_accuracy_log := acc, ft_symbol_probabilities := ps\<rparr>))"
  by (rule ncount_desc [OF assms])

theorem ncount_roundtrip_witness:
  "\<exists>w' desc. write_ncount LL_DEFAULT_DISTRIBUTION 6 bw_new = Ok w' \<and> bw_bits w' = bytes_bits desc
    \<and> read_probabilities (ft_new 35) (desc @ [7]) 9
       = Ok (length desc, (ft_new 35)\<lparr>ft_accuracy_log := 6, ft_symbol_probabilities := LL_DEFAULT_DISTRIBUTION\<rparr>)"
proof -
  have l: "last LL_DEFAULT_DISTRIBUTION \<noteq> 0" "length LL_DEFAULT_DISTRIBUTION \<le> ft_max_symbol (ft_new 35) + 1"
    by (simp_all add: LL_DEFAULT_DISTRIBUTION_def ft_new_def)
  obtain desc where d: "\<forall>w. bw_inv w \<and> length (bw_bits w) mod 8 = 0 \<longrightarrow>
       (\<exists>w'. write_ncount LL_DEFAULT_DISTRIBUTION 6 w = Ok w' \<and> bw_inv w' \<and> bw_bits w' = bw_bits w @ bytes_bits desc)"
    "\<forall>t after max_log. length LL_DEFAULT_DISTRIBUTION \<le> ft_max_symbol t + 1 \<and> 6 \<le> max_log \<longrightarrow>
         read_probabilities t (desc @ after) max_log
           = Ok (length desc, t\<lparr>ft_accuracy_log := 6, ft_symbol_probabilities := LL_DEFAULT_DISTRIBUTION\<rparr>)"
    using ncount_roundtrip [OF dist_valid_literals_length _ l(1)] by auto
  show ?thesis using d(1) [rule_format, of bw_new] d(2) [rule_format, OF conjI, OF l(2), of 9 "[7]"] by auto
qed

end
