(* ===== verification/Sequences_Roundtrip.thy ===== *)
theory Sequences_Roundtrip
  imports Seq_Roundtrip Seq_Safety Fse_Ncount
begin

text \<open>
  The whole sequences section: count, modes, table descriptions and bitstream, written by the
  encoder and read back by the decoder with a scratch that the two sides agree on.  The tables may
  be predefined, serialized, single-symbol, or repeated from the scratch.
\<close>

unbundle bit_operations_syntax

section \<open>Built tables are channels\<close>

lemma built_channel:
  fixes d :: FSETable
  assumes K: "kind_ok K" and v: "dist_valid acc ps" "acc \<le> sk_log K" "length ps \<le> length (sk_codes K)"
    and e: "enc_table_for acc ps t" and d: "table_for acc ps (ft_decode d)" "ft_accuracy_log d = acc"
    and w: "0 < weight ps s"
    and ent: "\<forall>i < 2 ^ acc. ent i = packed_of (sk_codes K) (ft_decode d ! i)"
  shows "channel acc (sk_codes K) ent t s"
proof -
  have acc: "acc \<le> 12" using K v(2) by (simp add: kind_ok_def)
  have pow: "(2::nat) ^ acc \<le> 4096" using power_increasing [OF acc, of "2::nat"] by simp
  have wf: "table_wf (length (sk_codes K)) d" by (rule table_for_wf [OF v(1) d v(3)])
  have len: "length (ft_decode d) = 2 ^ acc" using d(1) unfolding table_for_def by blast
  have s: "s < length (sk_codes K)" using w v(3) by (simp add: weight_def split: if_splits)
  have al: "ft_accuracy_log d \<le> sk_log K" using d(2) v(2) by simp
  have F: "carries (sk_codes K) (ent i) (symbol (ft_decode d ! i))"
      "unat (entry_nb_bits (ent i)) = num_bits (ft_decode d ! i)"
      "unat (entry_next_state (ent i)) = unat (base_line (ft_decode d ! i))" if "i < 2 ^ acc" for i
    using packed_of_fields [OF K wf al, of i] ent that len by (simp_all add: carries_def)
  obtain i where i: "i < 2 ^ acc" "layout acc ps ! i = s" "count_list (take i (layout acc ps)) s = 0"
    "start_index t s = Ok (of_nat (2 ^ acc + i))"
    using e w unfolding enc_table_for_def by blast
  have "2 ^ acc + i < 2 ^ 32" using pow i(1) by simp
  then have st: "start_of t s = 2 ^ acc + i" using i(4) by (simp add: start_of_def unat_u32 del: of_nat_add)
  have "symbol (ft_decode d ! i) = s" using table_entry [OF d(1) i(1-3)] by (simp add: ent_of_def)
  then have start: "carries (sk_codes K) (ent i) s" using F(1) [OF i(1)] by simp
  have step: "\<exists>nb em X'. step_of t s X = (nb, em, X') \<and> enc_step t s (of_nat X) = Ok (nb, of_nat em, of_nat X')
      \<and> in_range acc X' \<and> em < 2 ^ nb \<and> nb \<le> acc \<and> carries (sk_codes K) (ent (X' - 2 ^ acc)) s
      \<and> unat (entry_nb_bits (ent (X' - 2 ^ acc))) = nb
      \<and> unat (entry_next_state (ent (X' - 2 ^ acc))) + em = X - 2 ^ acc" if X: "in_range acc X" for X
  proof -
    have X': "2 ^ acc \<le> X" "X < 2 * 2 ^ acc" using X by (simp_all add: in_range_def)
    obtain nb em Y base where r: "enc_step t s (of_nat X) = Ok (nb, of_nat em, of_nat Y)" "step_of t s X = (nb, em, Y)"
      "2 ^ acc \<le> Y" "Y < 2 * 2 ^ acc" "em < 2 ^ nb" "nb \<le> acc"
      "ent_of (ft_decode d) (Y - 2 ^ acc) = (s, base, nb)" "base + em = X - 2 ^ acc"
      using built_step [OF v(1) acc e d(1) w X'] by blast
    have "Y - 2 ^ acc < 2 ^ acc" using r(3,4) by simp
    note F = F [OF this]
    show ?thesis using r F by (auto simp: in_range_def ent_of_def)
  qed
  have "et_table_size t = 2 ^ acc" using e by (simp add: enc_table_for_def)
  then show ?thesis
    using step start st i(1,4) by (auto simp: channel_def in_range_def)
qed

section \<open>Single-symbol tables are channels\<close>

lemma row_starts_rle:
  "row_starts s (replicate k 0 @ [1]) 0 h start owner = Ok (1, h, start[s + k := 0], owner)"
  by (induction k arbitrary: s) (simp_all add: as_u32_def)

lemma own_symbols_rle:
  "own_symbols s (replicate k 0 @ [1]) 0 1 0 [x] = Ok [of_nat (s + k)]"
proof (induction k arbitrary: s)
  case 0
  have "next_position 0 1 = 0" by (simp add: next_position_def)
  then show ?case by simp
qed simp

lemma all_ones: "ucast (- 1 :: u32) OR push_bit 32 (ucast (- 1 :: u32)) = (- 1 :: u64)"
  by (rule bit_word_eqI) (auto simp: bit_or_iff bit_push_bit_iff bit_ucast_iff)

lemma low_ones: "(ucast (- 1 :: u64) :: u32) = - 1" "(ucast (mask 32 :: u64) :: u32) = - 1"
  by (rule bit_word_eqI; auto simp: bit_ucast_iff bit_mask_iff)+

lemma transform_rle:
  "s + k < length tt \<Longrightarrow> s + k < length start \<Longrightarrow>
    \<exists>tt' start'. transform 0 1 s (replicate k 0 @ [1]) 0 [x] tt start = Ok (tt', start')
      \<and> length tt' = length tt \<and> length start' = length start \<and> tt' ! (s + k) = - 1 \<and> start' ! (s + k) = x"
proof (induction k arbitrary: s tt start)
  case 0
  then show ?case by (simp add: transform_entry_def as_u32_def all_ones)
next
  case (Suc k)
  obtain e where e: "transform_entry 0 1 0 0 = Ok e" by (simp add: transform_entry_def)
  show ?case using Suc.IH [of "s + 1" "tt[s := e]" start] Suc.prems e by (simp add: as_u32_def)
qed

lemma rle_table_channel:
  assumes "code < 256" "length (fh_tt head) = 256" "length (fh_start head) = 256" "1 \<le> length st"
  shows "\<exists>t. rle_table code owner spread head st = Ok t \<and> et_table_size t = 1
    \<and> start_index t code = Ok 1 \<and> enc_step t code 1 = Ok (0, 0, 1)"
proof -
  have g: "Suc 0 \<le> length (grow owner (Suc 0))" "9 \<le> length (grow spread 9)"
    by (cases owner) (simp_all add: grow_def)
  then obtain x where o1: "take (Suc 0) (grow owner (Suc 0)) = [x]"
    by (cases "grow owner (Suc 0)") auto
  obtain y where s1: "take (Suc 0) st = [y]" using assms(4) by (cases st) auto
  let ?start = "(fh_start head)[code := 0]"
  have sw: "state_walk 1 0 [of_nat code] ?start [y] = Ok (?start[code := 1], [1])"
    using assms(1,3) by (simp add: unat_of_nat)
  obtain tt' start' where tr: "transform 0 1 0 (replicate code 0 @ [1]) 0 [1] (fh_tt head) (?start[code := 1]) = Ok (tt', start')"
    "length tt' = 256" "length start' = 256" "tt' ! code = - 1" "start' ! code = 1"
    using transform_rle [of 0 code "fh_tt head" "?start[code := 1]" 1] assms by auto
  define probs :: "int list" where "probs = replicate code 0 @ [1]"
  have "build_table_body probs 0 (grow owner (Suc 0)) (grow spread 9) head st
      = Ok \<lparr>et_table_size = 1, et_nsym = length probs,
            et_head = \<lparr>fh_tt = tt', fh_probs = probs @ drop (length probs) (fh_probs head), fh_start = start'\<rparr>, et_st = [1]\<rparr>"
    using g o1 s1 sw tr(1) assms(1) row_starts_rle [of 0 code 0 "fh_start head" "[x]"] own_symbols_rle [of 0 code x]
    by (simp add: build_table_body_def flip: probs_def) (simp add: probs_def)
  then have "rle_table code owner spread head st
      = Ok \<lparr>et_table_size = 1, et_nsym = length probs,
            et_head = \<lparr>fh_tt = tt', fh_probs = probs @ drop (length probs) (fh_probs head), fh_start = start'\<rparr>, et_st = [1]\<rparr>"
    by (simp add: rle_table_def build_table_from_probabilities_into_def flip: probs_def)
  then show ?thesis
    using tr assms(1) by (simp add: start_index_def enc_step_def low_ones Let_def)
qed

text \<open>An encoder table that can only encode one code, and its channel.\<close>

definition is_rle :: "EncTable \<Rightarrow> nat \<Rightarrow> bool" where
  "is_rle t c \<longleftrightarrow> et_table_size t = 1 \<and> start_index t c = Ok 1 \<and> enc_step t c 1 = Ok (0, 0, 1)"

lemma rle_channel:
  assumes K: "kind_ok K" and t: "is_rle t c" "c < length (sk_codes K)"
    and ent: "ent 0 = pack_rle_entry (sk_codes K ! c)"
  shows "channel 0 (sk_codes K) ent t c"
proof -
  obtain b a where ba: "sk_codes K ! c = (b, a)" by fastforce
  have "a < 256" using codes_nth [OF K t(2)] ba by simp
  note f = pack_entry_fields [OF this, of 0 b 0]
  have "carries (sk_codes K) (ent 0) c" using t(2) f by (simp add: carries_def ent ba pack_rle_entry_def)
  moreover have "start_of t c = 1" using t(1) by (simp add: is_rle_def start_of_def)
  moreover have "step_of t c 1 = (0, 0, 1)" using t(1) by (simp add: is_rle_def step_of_def)
  moreover have "in_range 0 X \<longleftrightarrow> X = 1" for X by (auto simp: in_range_def)
  ultimately show ?thesis
    using t(1) f by (simp add: channel_def is_rle_def ent ba pack_rle_entry_def)
qed

section \<open>Modes\<close>

text \<open>The decoder's stream agrees with an encoder table on the codes \<open>S\<close>.\<close>

definition agrees :: "StreamKind \<Rightarrow> Stream \<Rightarrow> EncTable \<Rightarrow> nat set \<Rightarrow> bool" where
  "agrees K v t S \<longleftrightarrow> st_ready v \<and>
     (case st_rle v of
        Some c \<Rightarrow> is_rle t (unat c) \<and> unat c < length (sk_codes K) \<and> S \<subseteq> {unat c}
          \<and> ft_accuracy_log (st_table v) = 0
      | None \<Rightarrow> \<exists>ps. dist_valid (ft_accuracy_log (st_table v)) ps \<and> ft_accuracy_log (st_table v) \<le> sk_log K
          \<and> length ps \<le> length (sk_codes K) \<and> enc_table_for (ft_accuracy_log (st_table v)) ps t
          \<and> table_for (ft_accuracy_log (st_table v)) ps (ft_decode (st_table v)) \<and> (\<forall>s\<in>S. 0 < weight ps s))"

lemma agrees_channel:
  assumes K: "kind_ok K" and a: "agrees K v t S" and sl: "stream_slot K lo packed v"
  defines "log \<equiv> ft_accuracy_log (st_table v)"
  shows "log \<le> sk_log K" and "s \<in> S \<Longrightarrow> channel log (sk_codes K) (\<lambda>i. packed ! (lo + i)) t s"
proof -
  show "log \<le> sk_log K" using a by (auto simp: agrees_def log_def split: option.splits)
  assume s: "s \<in> S"
  show "channel log (sk_codes K) (\<lambda>i. packed ! (lo + i)) t s"
  proof (cases "st_rle v")
    case (Some c)
    then have "is_rle t (unat c)" "unat c < length (sk_codes K)" "s = unat c" "log = 0"
      using a s by (auto simp: agrees_def log_def)
    then show ?thesis
      using rle_channel [OF K, of t "unat c" "\<lambda>i. packed ! (lo + i)"] sl Some by (simp add: stream_slot_def)
  next
    case None
    then obtain ps where p: "dist_valid log ps" "log \<le> sk_log K" "length ps \<le> length (sk_codes K)"
      "enc_table_for log ps t" "table_for log ps (ft_decode (st_table v))" "0 < weight ps s"
      using a s by (auto simp: agrees_def log_def)
    have "length (ft_decode (st_table v)) = 2 ^ log" using p(5) unfolding table_for_def by blast
    then have "\<forall>i < 2 ^ log. packed ! (lo + i) = packed_of (sk_codes K) (ft_decode (st_table v) ! i)"
      using sl None by (simp add: stream_slot_def)
    moreover have "ft_accuracy_log (st_table v) = log" by (simp add: log_def)
    ultimately show ?thesis using built_channel [OF K p(1-5) _ p(6)] by simp
  qed
qed

text \<open>
  What each mode promises: a predefined table is built from the default distribution, a serialized
  one from a distribution the decoder can hold, an RLE table encodes its one code, a repeated table
  agrees with what the decoder's scratch holds.
\<close>

definition mode_ok :: "StreamKind \<Rightarrow> Stream \<Rightarrow> FseTableMode \<Rightarrow> nat set \<Rightarrow> bool" where
  "mode_ok K v fm S = (case fm of
     FPredefined t \<Rightarrow> build_table_from_probabilities (sk_dist K) (sk_acc K) = Ok t
       \<and> (\<forall>s\<in>S. 0 < weight (sk_dist K) s)
   | FEncoded t \<Rightarrow> (\<exists>acc ps. dist_valid acc ps \<and> acc \<le> sk_log K \<and> length ps \<le> length (sk_codes K)
       \<and> last ps \<noteq> 0 \<and> enc_table_for acc ps t \<and> (\<forall>s\<in>S. 0 < weight ps s))
   | FRle c t \<Rightarrow> is_rle t (unat c) \<and> unat c < length (sk_codes K) \<and> S \<subseteq> {unat c}
   | FRepeat t \<Rightarrow> agrees K v t S)"

text \<open>The description of a table: bytes that the writer appends and that install its decoder.\<close>

definition describes ::
  "StreamKind \<Rightarrow> u8 \<Rightarrow> DecodeSequenceError \<Rightarrow> Stream \<Rightarrow> FseTableMode \<Rightarrow> nat set \<Rightarrow> bytes \<Rightarrow> bool" where
  "describes K maxc err v fm S tb \<longleftrightarrow>
     (\<forall>w. bw_inv w \<and> length (bw_bits w) mod 8 = 0 \<longrightarrow>
        (\<exists>w'. encode_table fm w = Ok w' \<and> bw_inv w' \<and> bw_bits w' = bw_bits w @ bytes_bits tb))
   \<and> (\<exists>v'. agrees K v' (fm_as_ref fm) S
        \<and> (\<forall>rest. update_stream K maxc err (mode_of fm) (tb @ rest) v = Ok (length tb, v')))"

lemma describes_predefined:
  assumes K: "kind_ok K" and v: "stream_inv K lo packed v" and m: "mode_ok K v (FPredefined t) S"
  shows "describes K maxc err v (FPredefined t) S []"
proof -
  have t: "build_table_from_probabilities (sk_dist K) (sk_acc K) = Ok t" "\<forall>s\<in>S. 0 < weight (sk_dist K) s"
    using m by (simp_all add: mode_ok_def)
  have k: "dist_valid (sk_acc K) (sk_dist K)" "sk_acc K \<le> 12" "sk_acc K \<le> sk_log K"
    "length (sk_dist K) \<le> length (sk_codes K)" using K(1) by (simp_all add: kind_ok_def)
  have e: "enc_table_for (sk_acc K) (sk_dist K) t" using encoder_table_exists [OF k(1,2)] t(1) by auto
  have mx: "ft_max_symbol (st_table v) + 1 = length (sk_codes K)" using v by (simp add: stream_inv_def stream_wf_def)
  obtain d where d: "build_from_probabilities (st_table v) (sk_acc K) (sk_dist K) = Ok d"
    "table_for (sk_acc K) (sk_dist K) (ft_decode d)" "ft_accuracy_log d = sk_acc K"
    using default_table_exists [OF K(1) mx] by blast
  show ?thesis
  proof (cases "st_pre v")
    case True
    then have "ft_accuracy_log (st_table v) = sk_acc K" "table_for (sk_acc K) (sk_dist K) (ft_decode (st_table v))"
      using v by (simp_all add: stream_inv_def stream_wf_def)
    then show ?thesis using True k e t(2)
      by (auto simp: describes_def update_stream_def agrees_def)
  next
    case False
    then show ?thesis using d k e t(2)
      by (auto simp: describes_def update_stream_def agrees_def)
  qed
qed

lemma describes_encoded:
  assumes K: "kind_ok K" and v: "stream_inv K lo packed v" and m: "mode_ok K v (FEncoded t) S"
  shows "\<exists>tb. describes K maxc err v (FEncoded t) S tb"
proof -
  obtain acc ps where p: "dist_valid acc ps" "acc \<le> sk_log K" "length ps \<le> length (sk_codes K)" "last ps \<noteq> 0"
    "enc_table_for acc ps t" "\<forall>s\<in>S. 0 < weight ps s" using m by (auto simp: mode_ok_def)
  have acc: "acc \<le> 12" using p(2) K by (simp add: kind_ok_def)
  have mx: "ft_max_symbol (st_table v) + 1 = length (sk_codes K)" using v by (simp add: stream_inv_def stream_wf_def)
  let ?t0 = "(st_table v)\<lparr>ft_accuracy_log := 0\<rparr>"
  let ?t1 = "?t0\<lparr>ft_accuracy_log := acc, ft_symbol_probabilities := ps\<rparr>"
  from ncount_desc [OF p(1) acc p(4)]
  obtain tb where tb0: "\<forall>w. bw_inv w \<and> length (bw_bits w) mod 8 = 0 \<longrightarrow>
       (\<exists>w'. write_ncount ps acc w = Ok w' \<and> bw_inv w' \<and> bw_bits w' = bw_bits w @ bytes_bits tb)"
    "\<forall>t after max_log. length ps \<le> ft_max_symbol t + 1 \<and> acc \<le> max_log \<longrightarrow> read_probabilities t (tb @ after) max_log
       = Ok (length tb, t\<lparr>ft_accuracy_log := acc, ft_symbol_probabilities := ps\<rparr>)" by (elim exE conjE)
  have tb: "\<forall>rest. read_probabilities ?t0 (tb @ rest) (sk_log K) = Ok (length tb, ?t1)"
    using tb0(2) p(2,3) mx by simp
  have t1: "dist_valid (ft_accuracy_log ?t1) (ft_symbol_probabilities ?t1)"
    "length (ft_symbol_probabilities ?t1) \<le> ft_max_symbol ?t1 + 1" using p(1,3) mx by simp_all
  obtain d where d: "build_decoding_table ?t1 = Ok d" "table_for acc ps (ft_decode d)" "ft_accuracy_log d = acc"
    using build_table_exists [OF t1] by auto
  have "encode_table (FEncoded t) = write_ncount ps acc"
    using p(5) by (simp add: fun_eq_iff enc_table_for_def write_table_def et_acc_log_def)
  moreover have "build_decoder (st_table v) (tb @ rest) (sk_log K) = Ok (length tb, d)" for rest
    using tb d(1) by (simp add: build_decoder_def)
  ultimately have "describes K maxc err v (FEncoded t) S tb"
    using tb0(1) d(2,3) p by (auto simp: describes_def update_stream_def agrees_def)
  then show ?thesis ..
qed

lemma table_described:
  assumes K: "kind_ok K" "unat maxc + 1 = length (sk_codes K)" and v: "stream_inv K lo packed v"
    and m: "mode_ok K v fm S"
  shows "\<exists>tb. describes K maxc err v fm S tb"
proof (cases fm)
  case (FPredefined t)
  then show ?thesis using describes_predefined [OF K(1) v, of t S maxc err] m by auto
next
  case (FEncoded t)
  then show ?thesis using describes_encoded [OF K(1) v, of t S maxc err] m by auto
next
  case (FRle c t)
  then have "\<not> maxc < c" using m K(2) by (simp add: mode_ok_def word_less_nat_alt)
  then have "describes K maxc err v fm S [c]"
    using FRle m put_byte [of _ c]
    by (auto simp: describes_def update_stream_def agrees_def mode_ok_def bw_write_bits_def)
  then show ?thesis ..
next
  case (FRepeat t)
  then have "describes K maxc err v fm S []" using m by (simp add: describes_def update_stream_def mode_ok_def)
  then show ?thesis ..
qed

end
