(* ===== verification/Sequences_Section.thy ===== *)
theory Sequences_Section
  imports Sequences_Roundtrip
begin

text \<open>
  The sequences section of a compressed block as the encoder assembles it, and its round trip
  through the decoder.
\<close>

unbundle bit_operations_syntax

text \<open>
  The section writer of \<open>emit_block_content\<close>, given the tables that were chosen for the three
  streams: count, modes, descriptions in the order literal lengths, offsets, match lengths, bits.
\<close>

definition write_sequences_section ::
  "SeqWord list \<Rightarrow> FseTableMode \<Rightarrow> FseTableMode \<Rightarrow> FseTableMode \<Rightarrow> BitWriter \<Rightarrow> (unit, BitWriter) res" where
  "write_sequences_section seqs ll ml off writer =
     (if seqs = [] then bw_write_bits writer 0 8
      else
        rbind (encode_seqnum (length seqs) writer) (\<lambda>writer.
        rbind (bw_write_bits writer (ucast (encode_fse_table_modes ll ml off)) 8) (\<lambda>writer.
        rbind (encode_table ll writer) (\<lambda>writer.
        rbind (encode_table off writer) (\<lambda>writer.
        rbind (encode_table ml writer) (\<lambda>writer.
          encode_sequences (length seqs) seqs writer (fm_as_ref ll) (fm_as_ref ml) (fm_as_ref off)))))))"

section \<open>Installing the described tables\<close>

lemma maybe_update_described:
  assumes inv: "fs_inv s"
    and L: "describes LL_KIND MAX_LITERAL_LENGTH_CODE MissingByteForRleLlTable (view_ll s) ll SL tb"
    and F: "describes OF_KIND MAX_OFFSET_CODE MissingByteForRleOfTable (view_of s) off SF tf"
    and M: "describes ML_KIND MAX_MATCH_LENGTH_CODE MissingByteForRleMlTable (view_ml s) ml SM tm"
  shows "\<exists>s'. (\<forall>rest. maybe_update_fse_tables
        \<lparr>sh_num_sequences = n, sh_modes = Some (encode_fse_table_modes ll ml off)\<rparr> (tb @ tf @ tm @ rest) s
        = Ok (length tb + length tf + length tm, s')) \<and> fs_inv s'
    \<and> agrees LL_KIND (view_ll s') (fm_as_ref ll) SL \<and> agrees ML_KIND (view_ml s') (fm_as_ref ml) SM
    \<and> agrees OF_KIND (view_of s') (fm_as_ref off) SF"
proof -
  let ?hdr = "\<lparr>sh_num_sequences = n, sh_modes = Some (encode_fse_table_modes ll ml off)\<rparr>"
  obtain v1 where v1: "\<forall>rest. update_stream LL_KIND MAX_LITERAL_LENGTH_CODE MissingByteForRleLlTable (mode_of ll)
      (tb @ rest) (view_ll s) = Ok (length tb, v1)" "agrees LL_KIND v1 (fm_as_ref ll) SL"
    using L unfolding describes_def by blast
  obtain v2 where v2: "\<forall>rest. update_stream OF_KIND MAX_OFFSET_CODE MissingByteForRleOfTable (mode_of off)
      (tf @ rest) (view_of s) = Ok (length tf, v2)" "agrees OF_KIND v2 (fm_as_ref off) SF"
    using F unfolding describes_def by blast
  obtain v3 where v3: "\<forall>rest. update_stream ML_KIND MAX_MATCH_LENGTH_CODE MissingByteForRleMlTable (mode_of ml)
      (tm @ rest) (view_ml s) = Ok (length tm, v3)" "agrees ML_KIND v3 (fm_as_ref ml) SM"
    using M unfolding describes_def by blast
  let ?s = "put_ml v3 (put_of v2 (put_ll v1 s))"
  have run: "maybe_update_fse_tables ?hdr (tb @ tf @ tm @ rest) s = Ok (length tb + length tf + length tm, ?s)" for rest
    by (simp add: maybe_update_fse_tables_def ok_or_def modes_byte update_ll_view update_of_view update_ml_view
        slice_from_def v1(1) v2(1) v3(1))
  moreover have "fs_inv ?s" using maybe_update_ok [OF inv, of "tb @ tf @ tm @ rest" ?hdr for rest] run
    by (simp add: installs_def)
  ultimately show ?thesis using v1(2) v2(2) v3(2) by simp
qed

section \<open>The start of the bitstream\<close>

lemma read_state_at:
  assumes at: "win_at src w (bs @ state_bits log X) m" and X: "in_range log X" "log \<le> 9" "log \<le> m"
  shows "\<exists>w'. read_state w log = (Ok (of_nat (X - 2 ^ log), w') :: (DecodeSequenceError, _) res) \<and> win_at src w' bs (m - log)"
proof -
  have len: "length (state_bits log X) = log" by (simp add: state_bits_def)
  have "log < 64" using X(2) by simp
  from win_read_at [OF at len X(3) this] obtain v w' where
    r: "win_read w log = (Ok (v, w') :: (DecodeSequenceError, _) res)" "win_at src w' bs (m - log)"
      "take_bit log v = bits_word (state_bits log X)" by blast
  define x where "x = X - 2 ^ log"
  have x: "x < 2 ^ log" "x < 1024" using X(1) small_step [OF X(1,2)] by (auto simp: x_def in_range_def)
  have u: "unat (of_nat x :: u64) = x" using x(2) by (simp add: unat_of_nat take_bit_nat_eq_self)
  have "v AND (push_bit log 1 - 1) = take_bit log v" by (simp add: take_bit_eq_mask mask_eq_exp_minus_1 push_bit_of_1)
  also have "\<dots> = of_nat x"
    unfolding r(3) state_bits_def x_def [symmetric] using x(1) X(2) by (intro bits_word_field) (simp_all add: u)
  finally have "(ucast (v AND (push_bit log 1 - 1)) :: u32) = of_nat x"
    using x(2) by (simp add: word_unat_eq_iff unsigned_ucast_eq unat_of_nat take_bit_nat_eq_self)
  then show ?thesis using r(1,2) by (simp add: read_state_def x_def)
qed

section \<open>The channels of a scratch\<close>

definition codes_used :: "(u32 \<Rightarrow> nat) \<Rightarrow> SeqWord list \<Rightarrow> nat set" where
  "codes_used code ws = (\<lambda>w. code (sw_codes w)) ` set ws"

definition tables_agree :: "FSEScratch \<Rightarrow> EncTable \<Rightarrow> EncTable \<Rightarrow> EncTable \<Rightarrow> SeqWord list \<Rightarrow> bool" where
  "tables_agree s ll ml off ws \<longleftrightarrow> agrees LL_KIND (view_ll s) ll (codes_used ll_code_of ws)
     \<and> agrees ML_KIND (view_ml s) ml (codes_used ml_code_of ws)
     \<and> agrees OF_KIND (view_of s) off (codes_used of_code_of ws)"

definition ll_log :: "FSEScratch \<Rightarrow> nat" where
  "ll_log s = ft_accuracy_log (fs_literal_lengths s)"

definition ml_log :: "FSEScratch \<Rightarrow> nat" where
  "ml_log s = ft_accuracy_log (fs_match_lengths s)"

definition of_log :: "FSEScratch \<Rightarrow> nat" where
  "of_log s = ft_accuracy_log (fs_offsets s)"

definition slot_entry :: "FSEScratch \<Rightarrow> nat \<Rightarrow> nat \<Rightarrow> u64" where
  "slot_entry s lo i = fs_seq_packed s ! (lo + i)"

lemma agrees_valid: "agrees K (v\<lparr>st_valid := b\<rparr>) t S = agrees K v t S"
  by (cases "st_rle v") (simp_all add: agrees_def)

lemma scratch_channels:
  assumes inv: "fs_inv s" and valid: "fs_ll_seq_valid s" "fs_ml_seq_valid s" "fs_of_seq_valid s"
    and ag: "tables_agree s ll ml off ws" and ws: "list_all block_word ws"
  shows "ll_log s \<le> 9" "ml_log s \<le> 9" "of_log s \<le> 8"
    "list_all (word_on (ll_log s, LL_CODES, slot_entry s LL_SLOT, ll) (ml_log s, ML_CODES, slot_entry s ML_SLOT, ml)
       (of_log s, OF_CODES, slot_entry s OF_SLOT, off)) ws"
    "slot_is (fs_seq_packed s) LL_SLOT (ll_log s) (slot_entry s LL_SLOT)"
    "slot_is (fs_seq_packed s) ML_SLOT (ml_log s) (slot_entry s ML_SLOT)"
    "slot_is (fs_seq_packed s) OF_SLOT (of_log s) (slot_entry s OF_SLOT)"
proof -
  have sl: "stream_slot LL_KIND LL_SLOT (fs_seq_packed s) (view_ll s)"
    "stream_slot ML_KIND ML_SLOT (fs_seq_packed s) (view_ml s)"
    "stream_slot OF_KIND OF_SLOT (fs_seq_packed s) (view_of s)"
    using inv valid by (simp_all add: fs_inv_def stream_inv_def view_ll_def view_ml_def view_of_def)
  have a: "agrees LL_KIND (view_ll s) ll (codes_used ll_code_of ws)"
    "agrees ML_KIND (view_ml s) ml (codes_used ml_code_of ws)"
    "agrees OF_KIND (view_of s) off (codes_used of_code_of ws)" using ag by (simp_all add: tables_agree_def)
  have lg: "ft_accuracy_log (st_table (view_ll s)) = ll_log s" "ft_accuracy_log (st_table (view_ml s)) = ml_log s"
    "ft_accuracy_log (st_table (view_of s)) = of_log s"
    by (simp_all add: ll_log_def ml_log_def of_log_def view_ll_def view_ml_def view_of_def)
  note L = agrees_channel [OF kinds_ok(1) a(1) sl(1), unfolded lg kind_simps]
    and M = agrees_channel [OF kinds_ok(2) a(2) sl(2), unfolded lg kind_simps]
    and F = agrees_channel [OF kinds_ok(3) a(3) sl(3), unfolded lg kind_simps]
  show logs: "ll_log s \<le> 9" "ml_log s \<le> 9" "of_log s \<le> 8" by (fact L(1) M(1) F(1))+
  show "list_all (word_on (ll_log s, LL_CODES, slot_entry s LL_SLOT, ll) (ml_log s, ML_CODES, slot_entry s ML_SLOT, ml)
       (of_log s, OF_CODES, slot_entry s OF_SLOT, off)) ws"
    using ws L(2) M(2) F(2) by (auto simp: list_all_iff word_on_def chan_ok_def codes_used_def slot_entry_def [abs_def])
  have len: "length (fs_seq_packed s) = 1280" using inv by (simp add: fs_inv_def slot_values)
  have "(2::nat) ^ ll_log s \<le> 512" "(2::nat) ^ ml_log s \<le> 512" "(2::nat) ^ of_log s \<le> 256"
    using power_increasing [OF logs(1), of "2::nat"] power_increasing [OF logs(2), of "2::nat"]
      power_increasing [OF logs(3), of "2::nat"] by simp_all
  then show "slot_is (fs_seq_packed s) LL_SLOT (ll_log s) (slot_entry s LL_SLOT)"
    "slot_is (fs_seq_packed s) ML_SLOT (ml_log s) (slot_entry s ML_SLOT)"
    "slot_is (fs_seq_packed s) OF_SLOT (of_log s) (slot_entry s OF_SLOT)"
    by (auto simp: slot_is_def slot_entry_def len slot_values)
qed

lemma agrees_ready: "agrees K v t S \<Longrightarrow> st_ready v"
  by (simp add: agrees_def)

lemma packed_scratch:
  assumes "fs_inv s" "tables_agree s ll ml off ws"
  shows "\<exists>s'. pack_tables s = (Ok s' :: (DecodeSequenceError, _) res) \<and> fs_inv s'
    \<and> fs_ll_seq_valid s' \<and> fs_ml_seq_valid s' \<and> fs_of_seq_valid s'
    \<and> ll_log s' = ll_log s \<and> ml_log s' = ml_log s \<and> of_log s' = of_log s \<and> tables_agree s' ll ml off ws
    \<and> fs_ll_ready s' \<and> fs_of_ready s' \<and> fs_ml_ready s'"
proof -
  obtain s' where s': "pack_tables s = (Ok s' :: (DecodeSequenceError, _) res)" "fs_inv s'"
    "view_ll s' = (view_ll s)\<lparr>st_valid := True\<rparr>" "view_ml s' = (view_ml s)\<lparr>st_valid := True\<rparr>"
    "view_of s' = (view_of s)\<lparr>st_valid := True\<rparr>" by (rule pack_tables_ok [OF assms(1)])
  have "tables_agree s' ll ml off ws" using assms(2) by (simp add: tables_agree_def s'(3-5) agrees_valid)
  moreover from this have "st_ready (view_ll s')" "st_ready (view_ml s')" "st_ready (view_of s')"
    by (auto simp: tables_agree_def dest!: agrees_ready)
  ultimately show ?thesis
    using s' by (simp add: view_ll_def view_ml_def view_of_def ll_log_def ml_log_def of_log_def)
qed

text \<open>Decoding the bits of a sequence list after its tables are in place.\<close>

lemma decode_stream:
  assumes upd: "maybe_update_fse_tables hdr source s = Ok (n, s1)" "drop n source = strm" "n \<le> length source"
    and inv: "fs_inv s1" and ag: "tables_agree s1 ll ml off ws"
    and ws: "list_all block_word ws" "ws \<noteq> []" "list_all2 seq_of ws ss" "unat (sh_num_sequences hdr) = length ws"
    and st: "seq_stream ll ml off ws = (bs, xl, xm, xo)" "in_range (ll_log s1) xl" "in_range (ml_log s1) xm" "in_range (of_log s1) xo"
    and bits: "bytes_bits strm = (bs @ state_bits (ml_log s1) xm @ state_bits (of_log s1) xo @ state_bits (ll_log s1) xl)
       @ True # replicate z False" "z < 8"
  shows "\<exists>s'. decode_sequences_into hdr source s target = Ok (target @ ss, s') \<and> fs_inv s' \<and> tables_agree s' ll ml off ws"
proof -
  obtain s2 where s2: "pack_tables s1 = (Ok s2 :: (DecodeSequenceError, _) res)" "fs_inv s2"
    and valid: "fs_ll_seq_valid s2" "fs_ml_seq_valid s2" "fs_of_seq_valid s2"
    and lg: "ll_log s2 = ll_log s1" "ml_log s2 = ml_log s1" "of_log s2 = of_log s1"
    and ag2: "tables_agree s2 ll ml off ws" and ready: "fs_ll_ready s2" "fs_of_ready s2" "fs_ml_ready s2"
    using packed_scratch [OF inv ag] by blast
  note C = scratch_channels [OF s2(2) valid ag2 ws(1), unfolded lg]
  have rng: "in_range (ll_log s1) xl" "in_range (of_log s1) xo" "in_range (ml_log s1) xm" by (fact st)+
  obtain br where br: "sb_new strm = Ok br" "sb_source br = strm"
    "win_at strm (sb_ip br, wrapping_shl (sb_bits br) (sb_consumed br), sb_consumed br)
       (bs @ state_bits (ml_log s1) xm @ state_bits (of_log s1) xo @ state_bits (ll_log s1) xl) 56"
    using sb_new_at [OF bits] by blast
  let ?w = "(sb_ip br, wrapping_shl (sb_bits br) (sb_consumed br), sb_consumed br)"
  have at1: "win_at strm ?w ((bs @ state_bits (ml_log s1) xm @ state_bits (of_log s1) xo) @ state_bits (ll_log s1) xl) 56"
    using br(3) by simp
  have "ll_log s1 \<le> 56" using C(1) by simp
  from read_state_at [OF at1 rng(1) C(1) this] obtain w1 where
    w1: "read_state ?w (ll_log s1) = (Ok (of_nat (xl - 2 ^ ll_log s1), w1) :: (DecodeSequenceError, _) res)"
      "win_at strm w1 (bs @ state_bits (ml_log s1) xm @ state_bits (of_log s1) xo) (56 - ll_log s1)" by blast
  have at2: "win_at strm w1 ((bs @ state_bits (ml_log s1) xm) @ state_bits (of_log s1) xo) 47"
    using win_at_weaken [OF w1(2), of 47] C(1) by simp
  have "of_log s1 \<le> 9" "of_log s1 \<le> 47" using C(3) by simp_all
  from read_state_at [OF at2 rng(2) this] obtain w2 where
    w2: "read_state w1 (of_log s1) = (Ok (of_nat (xo - 2 ^ of_log s1), w2) :: (DecodeSequenceError, _) res)"
      "win_at strm w2 (bs @ state_bits (ml_log s1) xm) (47 - of_log s1)" by blast
  have at3: "win_at strm w2 (bs @ state_bits (ml_log s1) xm) 39"
    using win_at_weaken [OF w2(2), of 39] C(3) by simp
  have "ml_log s1 \<le> 39" using C(2) by simp
  from read_state_at [OF at3 rng(3) C(2) this] obtain w3 where
    w3: "read_state w2 (ml_log s1) = (Ok (of_nat (xm - 2 ^ ml_log s1), w3) :: (DecodeSequenceError, _) res)"
      "win_at strm w3 bs (39 - ml_log s1)" by blast
  obtain stt w4 where w4: "reload strm w3 = (Ok (stt, w4) :: (DecodeSequenceError, _) res)" "win_at strm w4 bs 57"
    using reload_at [OF w3(2)] by blast
  let ?d = "decoder_at (ll_log s1) (ml_log s1) (of_log s1) (fs_seq_packed s2) strm w4 xl xm xo (length ws)"
  have "sd_new hdr source s = Ok (?d, s2)"
    using upd s2(1) br(1,2) ready w1(1) w2(1) w3(1) w4(1) ws(4) lg
    by (simp add: sd_new_def slice_from_def decoder_at_def ll_log_def ml_log_def of_log_def)
  moreover obtain d' where "sequence_loop ?d = Ok (ss, d')" "sd_finish d' = Ok ()"
    using sequence_loop_correct [OF C(1-3) C(5-7) C(4) ws(2,3) st(1) w4(2)] by blast
  ultimately show ?thesis using s2(2) ag2 by (simp add: decode_sequences_into_def)
qed

section \<open>The section\<close>

text \<open>The sequences a block can hold, and their packed words.\<close>

definition seq_ok :: "Sequence \<Rightarrow> bool" where
  "seq_ok q \<longleftrightarrow> sq_ll q \<le> 131071 \<and> 3 \<le> sq_ml q \<and> sq_ml q \<le> 131074 \<and> sq_of q \<noteq> 0 \<and> sq_of q < 2 ^ 28
     \<and> unat (sq_ll q) + unat (sq_ml q) \<le> unat MAX_BLOCK_SIZE"

definition packed_from :: "Sequence list \<Rightarrow> SeqWord list \<Rightarrow> bool" where
  "packed_from seqs ws \<longleftrightarrow> list_all2 (\<lambda>q w. seq_ok q \<and> pack_seq (sq_ll q) (sq_ml q) (sq_of q) = Ok w) seqs ws"

lemma packed_words:
  assumes "packed_from seqs ws"
  shows "list_all block_word ws" "list_all2 seq_of ws seqs" "length ws = length seqs"
proof -
  have one: "block_word w \<and> seq_of w q" if "seq_ok q" "pack_seq (sq_ll q) (sq_ml q) (sq_of q) = Ok w" for q w
  proof -
    have "packs w (sq_ll q) (sq_ml q) (sq_of q)"
      using pack_seq_packs [of "sq_ll q" "sq_ml q" "sq_of q"] that by (auto simp: seq_ok_def)
    then show ?thesis
      using packs_decode(3) that(1) by (auto simp: block_word_def seq_of_def seq_ok_def)
  qed
  from assms show "list_all block_word ws"
    unfolding packed_from_def by (induction seqs ws rule: list_all2_induct) (use one in auto)
  from assms show "list_all2 seq_of ws seqs"
    unfolding packed_from_def by (induction seqs ws rule: list_all2_induct) (use one in auto)
  show "length ws = length seqs" using assms by (auto simp: packed_from_def dest: list_all2_lengthD)
qed

text \<open>The writer in one step: header, descriptions and the bits over any channels.\<close>

lemma write_section_correct:
  assumes w: "bw_inv w" "length (bw_bits w) mod 8 = 0" and n: "1 \<le> length ws" "length ws \<le> 0xffff + 0x7f00"
    and d: "describes KL maxl el vl ll SL tb" "describes KF maxf ef vf off SF tf" "describes KM maxm em vm ml SM tm"
    and logs: "lg \<le> 9" "mg \<le> 9" "fg \<le> 8"
    and ws: "list_all (word_on (lg, LC, entl, fm_as_ref ll) (mg, MC, entm, fm_as_ref ml) (fg, FC, entf, fm_as_ref off)) ws"
  shows "\<exists>w' strm bs xl xm xo z. write_sequences_section ws ll ml off w = Ok w' \<and> bw_inv w'
    \<and> bw_bits w' = bw_bits w @ bytes_bits (seqnum_bytes (length ws) @ [encode_fse_table_modes ll ml off] @ tb @ tf @ tm @ strm)
    \<and> seq_stream (fm_as_ref ll) (fm_as_ref ml) (fm_as_ref off) ws = (bs, xl, xm, xo)
    \<and> in_range lg xl \<and> in_range mg xm \<and> in_range fg xo \<and> z < 8
    \<and> bytes_bits strm = (bs @ state_bits mg xm @ state_bits fg xo @ state_bits lg xl) @ True # replicate z False"
proof -
  let ?m = "encode_fse_table_modes ll ml off"
  have ne: "ws \<noteq> []" using n(1) by auto
  obtain w1 where w1: "encode_seqnum (length ws) w = Ok w1" "bw_inv w1"
      "bw_bits w1 = bw_bits w @ bytes_bits (seqnum_bytes (length ws))"
    using seqnum_writes [OF w(1) n] by blast
  obtain w2 where w2: "bw_write_bits_64 w1 (ucast ?m) 8 = Ok w2" "bw_inv w2"
      "bw_bits w2 = bw_bits w @ bytes_bits (seqnum_bytes (length ws) @ [?m])"
    using put_byte [OF w1(2), of ?m] w1(3) by auto
  have al: "length (bw_bits w @ bytes_bits xs) mod 8 = 0" for xs using w(2) by simp
  have "length (bw_bits w2) mod 8 = 0" unfolding w2(3) by (rule al)
  then obtain w3 where w3: "encode_table ll w2 = Ok w3" "bw_inv w3"
      "bw_bits w3 = bw_bits w @ bytes_bits (seqnum_bytes (length ws) @ [?m] @ tb)"
    using d(1) w2(2,3) unfolding describes_def by fastforce
  have "length (bw_bits w3) mod 8 = 0" unfolding w3(3) by (rule al)
  then obtain w4 where w4: "encode_table off w3 = Ok w4" "bw_inv w4"
      "bw_bits w4 = bw_bits w @ bytes_bits (seqnum_bytes (length ws) @ [?m] @ tb @ tf)"
    using d(2) w3(2,3) unfolding describes_def by fastforce
  have "length (bw_bits w4) mod 8 = 0" unfolding w4(3) by (rule al)
  then obtain w5 where w5: "encode_table ml w4 = Ok w5" "bw_inv w5"
      "bw_bits w5 = bw_bits w @ bytes_bits (seqnum_bytes (length ws) @ [?m] @ tb @ tf @ tm)"
    using d(3) w4(2,3) unfolding describes_def by fastforce
  from encode_sequences_correct [OF logs ws ne w5(2)] obtain w6 bs xl xm xo z where
    e: "encode_sequences (length ws) ws w5 (fm_as_ref ll) (fm_as_ref ml) (fm_as_ref off) = Ok w6" "bw_inv w6"
      "seq_stream (fm_as_ref ll) (fm_as_ref ml) (fm_as_ref off) ws = (bs, xl, xm, xo)"
      "in_range lg xl" "in_range mg xm" "in_range fg xo" "z < 8"
      "bw_bits w6 = bw_bits w5 @ (bs @ state_bits mg xm @ state_bits fg xo @ state_bits lg xl) @ True # replicate z False"
      "length (bw_bits w6) mod 8 = 0"
    by (elim exE conjE) (rule that)
  obtain out where "bytes_bits out = bw_bits w6" using bw_dump_correct [OF e(2,9)] by blast
  moreover have "8 dvd length (bw_bits w5)" unfolding w5(3) using al by (metis mod_0_imp_dvd)
  then have "bytes_bits (drop (length (bw_bits w5) div 8) out) = drop (length (bw_bits w5)) (bytes_bits out)"
    by (simp add: dvd_mult_div_cancel flip: drop_bytes_bits)
  ultimately obtain strm where
    "bytes_bits strm = (bs @ state_bits mg xm @ state_bits fg xo @ state_bits lg xl) @ True # replicate z False"
    using e(8) by simp
  then show ?thesis
    using e w1(1) w2(1) w3(1) w4(1) w5(1,3) ne
    by (intro exI [of _ w6] exI [of _ strm] exI [of _ bs] exI [of _ xl] exI [of _ xm] exI [of _ xo] exI [of _ z])
      (simp add: write_sequences_section_def bw_write_bits_def)
qed

lemma sequences_section_roundtrip_holds:
  assumes "fs_inv s" "bw_inv w" "length (bw_bits w) mod 8 = 0"
    and "seqs \<noteq> []" "length seqs \<le> 0xffff + 0x7f00" "packed_from seqs ws"
    and "mode_ok LL_KIND (view_ll s) ll (codes_used ll_code_of ws)"
      "mode_ok ML_KIND (view_ml s) ml (codes_used ml_code_of ws)"
      "mode_ok OF_KIND (view_of s) off (codes_used of_code_of ws)"
  shows "\<exists>w' sec. write_sequences_section ws ll ml off w = Ok w' \<and> bw_inv w' \<and> bw_bits w' = bw_bits w @ bytes_bits sec
    \<and> (\<exists>hdr n s'. sh_parse_from_header sh_new sec = Ok (hdr, n) \<and> sh_num_sequences hdr = of_nat (length seqs)
         \<and> decode_sequences_into hdr (drop n sec) s target = Ok (target @ seqs, s')
         \<and> fs_inv s' \<and> tables_agree s' (fm_as_ref ll) (fm_as_ref ml) (fm_as_ref off) ws)"
proof -
  note W = packed_words [OF assms(6)]
  have inv: "stream_inv LL_KIND LL_SLOT (fs_seq_packed s) (view_ll s)"
    "stream_inv ML_KIND ML_SLOT (fs_seq_packed s) (view_ml s)"
    "stream_inv OF_KIND OF_SLOT (fs_seq_packed s) (view_of s)" using assms(1) by (simp_all add: fs_inv_def)
  obtain tb where tb: "describes LL_KIND MAX_LITERAL_LENGTH_CODE MissingByteForRleLlTable (view_ll s) ll (codes_used ll_code_of ws) tb"
    using table_described [OF kinds_ok(1) max_codes(1) inv(1) assms(7)] by blast
  obtain tm where tm: "describes ML_KIND MAX_MATCH_LENGTH_CODE MissingByteForRleMlTable (view_ml s) ml (codes_used ml_code_of ws) tm"
    using table_described [OF kinds_ok(2) max_codes(2) inv(2) assms(8)] by blast
  obtain tf where tf: "describes OF_KIND MAX_OFFSET_CODE MissingByteForRleOfTable (view_of s) off (codes_used of_code_of ws) tf"
    using table_described [OF kinds_ok(3) max_codes(3) inv(3) assms(9)] by blast
  let ?hdr = "\<lparr>sh_num_sequences = of_nat (length ws), sh_modes = Some (encode_fse_table_modes ll ml off)\<rparr>"
  obtain s1 where s1: "\<forall>rest. maybe_update_fse_tables ?hdr (tb @ tf @ tm @ rest) s = Ok (length tb + length tf + length tm, s1)"
    "fs_inv s1" "tables_agree s1 (fm_as_ref ll) (fm_as_ref ml) (fm_as_ref off) ws"
    using maybe_update_described [OF assms(1) tb tf tm, of "of_nat (length ws)"] unfolding tables_agree_def by blast
  obtain s2 where s2: "fs_inv s2" "fs_ll_seq_valid s2" "fs_ml_seq_valid s2" "fs_of_seq_valid s2"
    "ll_log s2 = ll_log s1" "ml_log s2 = ml_log s1" "of_log s2 = of_log s1"
    "tables_agree s2 (fm_as_ref ll) (fm_as_ref ml) (fm_as_ref off) ws"
    using packed_scratch [OF s1(2,3)] by blast
  note C = scratch_channels [OF s2(1-4,8) W(1), unfolded s2(5-7)]
  have n: "1 \<le> length ws" "length ws \<le> 0xffff + 0x7f00" "ws \<noteq> []" using assms(4,5) W(3) by (cases seqs; auto)+
  from write_section_correct [OF assms(2,3) n(1,2) tb tf tm C(1-4)] obtain w' strm bs xl xm xo z where
    e: "write_sequences_section ws ll ml off w = Ok w'" "bw_inv w'"
      "bw_bits w' = bw_bits w @ bytes_bits (seqnum_bytes (length ws) @ [encode_fse_table_modes ll ml off] @ tb @ tf @ tm @ strm)"
      "seq_stream (fm_as_ref ll) (fm_as_ref ml) (fm_as_ref off) ws = (bs, xl, xm, xo)"
      "in_range (ll_log s1) xl" "in_range (ml_log s1) xm" "in_range (of_log s1) xo" "z < 8"
      "bytes_bits strm = (bs @ state_bits (ml_log s1) xm @ state_bits (of_log s1) xo @ state_bits (ll_log s1) xl) @ True # replicate z False"
    by (elim exE conjE) (rule that)
  let ?h = "seqnum_bytes (length ws) @ [encode_fse_table_modes ll ml off]"
  have "unat (of_nat (length ws) :: u32) = length ws" using n(2) by (intro unat_u32) simp
  then have cnt: "unat (sh_num_sequences ?hdr) = length ws" by simp
  have "maybe_update_fse_tables ?hdr (tb @ tf @ tm @ strm) s = Ok (length tb + length tf + length tm, s1)"
    "drop (length tb + length tf + length tm) (tb @ tf @ tm @ strm) = strm"
    "length tb + length tf + length tm \<le> length (tb @ tf @ tm @ strm)" using s1(1) by simp_all
  from decode_stream [OF this s1(2,3) W(1) n(3) W(2) cnt e(4-7,9,8), of target] obtain s' where
    "decode_sequences_into ?hdr (tb @ tf @ tm @ strm) s target = Ok (target @ seqs, s')" "fs_inv s'"
    "tables_agree s' (fm_as_ref ll) (fm_as_ref ml) (fm_as_ref off) ws" by blast
  moreover have "sh_parse_from_header sh_new (?h @ tb @ tf @ tm @ strm) = Ok (?hdr, length ?h)"
    by (rule parse_seqnum [OF n(1,2)])
  ultimately show ?thesis
    using e(1-3) W(3)
    by (intro exI [of _ w'] exI [of _ "?h @ tb @ tf @ tm @ strm"] conjI exI [of _ ?hdr] exI [of _ "length ?h"] exI [of _ s'])
      simp_all
qed

text \<open>
  C2.  The sequences section round trip: any list of 1 to 98047 block sequences, packed and written
  with any choice of predefined, serialized, single-code or repeated tables that cover the codes
  used, is written without a panic, and the decoder, whose scratch agrees with the repeated tables,
  parses the header and returns exactly the sequences; its scratch then satisfies the invariant and
  agrees with the tables of this block, which is what repeating them in the next block needs.
\<close>

theorem sequences_section_roundtrip:
  assumes "fs_inv s" "bw_inv w" "length (bw_bits w) mod 8 = 0"
    and "seqs \<noteq> []" "length seqs \<le> 0xffff + 0x7f00" "packed_from seqs ws"
    and "mode_ok LL_KIND (view_ll s) ll (codes_used ll_code_of ws)"
      "mode_ok ML_KIND (view_ml s) ml (codes_used ml_code_of ws)"
      "mode_ok OF_KIND (view_of s) off (codes_used of_code_of ws)"
  shows "\<exists>w' sec. write_sequences_section ws ll ml off w = Ok w' \<and> bw_inv w' \<and> bw_bits w' = bw_bits w @ bytes_bits sec
    \<and> (\<exists>hdr n s'. sh_parse_from_header sh_new sec = Ok (hdr, n) \<and> sh_num_sequences hdr = of_nat (length seqs)
         \<and> decode_sequences_into hdr (drop n sec) s target = Ok (target @ seqs, s')
         \<and> fs_inv s' \<and> tables_agree s' (fm_as_ref ll) (fm_as_ref ml) (fm_as_ref off) ws)"
  by (rule sequences_section_roundtrip_holds [OF assms])

text \<open>Every code has a place in the predefined distributions, up to offset code 28.\<close>

lemma default_weights:
  "c < 36 \<Longrightarrow> 0 < weight LL_DEFAULT_DISTRIBUTION c" "c < 53 \<Longrightarrow> 0 < weight ML_DEFAULT_DISTRIBUTION c"
  "c < 29 \<Longrightarrow> 0 < weight OF_DEFAULT_DISTRIBUTION c"
proof -
  have "list_all (\<lambda>c. 0 < weight LL_DEFAULT_DISTRIBUTION c) [0..<36]" "list_all (\<lambda>c. 0 < weight ML_DEFAULT_DISTRIBUTION c) [0..<53]"
    "list_all (\<lambda>c. 0 < weight OF_DEFAULT_DISTRIBUTION c) [0..<29]" by code_simp+
  then show "c < 36 \<Longrightarrow> 0 < weight LL_DEFAULT_DISTRIBUTION c" "c < 53 \<Longrightarrow> 0 < weight ML_DEFAULT_DISTRIBUTION c"
    "c < 29 \<Longrightarrow> 0 < weight OF_DEFAULT_DISTRIBUTION c" by (auto simp: list_all_iff)
qed

lemma predefined_modes:
  assumes "list_all block_word ws"
  shows "\<exists>tl tm tf. mode_ok LL_KIND vl (FPredefined tl) (codes_used ll_code_of ws)
    \<and> mode_ok ML_KIND vm (FPredefined tm) (codes_used ml_code_of ws)
    \<and> mode_ok OF_KIND vf (FPredefined tf) (codes_used of_code_of ws)"
proof -
  have t: "\<exists>t. build_table_from_probabilities (sk_dist K) (sk_acc K) = Ok t" if "kind_ok K" for K
    using that encoder_table_exists [of "sk_acc K" "sk_dist K"] by (auto simp: kind_ok_def)
  have "ll_code_of (sw_codes w) < 36 \<and> ml_code_of (sw_codes w) < 53 \<and> of_code_of (sw_codes w) < 29" if "w \<in> set ws" for w
  proof -
    have "block_word w" using assms that by (simp add: list_all_iff)
    then obtain l m f where "packs w l m f" by (auto simp: block_word_def)
    then show ?thesis using packs_fields(1-3) [of w l m f] by (simp add: of_width_def)
  qed
  then show ?thesis
    using t [OF kinds_ok(1)] t [OF kinds_ok(2)] t [OF kinds_ok(3)]
    by (auto simp: mode_ok_def codes_used_def intro!: default_weights)
qed

theorem sequences_section_roundtrip_witness:
  "\<exists>ws tl tm tf w' sec hdr n s'. write_sequences_section ws (FPredefined tl) (FPredefined tm) (FPredefined tf) bw_new = Ok w'
    \<and> bw_bits w' = bytes_bits sec \<and> sh_parse_from_header sh_new sec = Ok (hdr, n)
    \<and> decode_sequences_into hdr (drop n sec) fs_new [] = Ok ([\<lparr>sq_ll = 5, sq_ml = 100, sq_of = 77\<rparr>], s')"
proof -
  let ?q = "\<lparr>sq_ll = 5, sq_ml = 100, sq_of = 77\<rparr>"
  obtain wd where wd: "pack_seq 5 100 77 = Ok wd" using pack_seq_packs [of 5 100 77] by auto
  have p: "packed_from [?q] [wd]" using wd by (simp add: packed_from_def seq_ok_def MAX_BLOCK_SIZE_def)
  obtain tl tm tf where m: "mode_ok LL_KIND (view_ll fs_new) (FPredefined tl) (codes_used ll_code_of [wd])"
    "mode_ok ML_KIND (view_ml fs_new) (FPredefined tm) (codes_used ml_code_of [wd])"
    "mode_ok OF_KIND (view_of fs_new) (FPredefined tf) (codes_used of_code_of [wd])"
    using predefined_modes [OF packed_words(1) [OF p]] by blast
  have "length (bw_bits bw_new) mod 8 = 0" "[?q] \<noteq> []" "length [?q] \<le> 0xffff + 0x7f00" by simp_all
  from sequences_section_roundtrip [OF fs_inv_new bw_inv_new(1) this p m, of "[]"]
  show ?thesis by fastforce
qed

end
