(* ===== verification/Xxh64.thy ===== *)
theory Xxh64
  imports Prelude
begin

text \<open>
  The checksum \<open>xxh64.rs\<close>: the streaming state with its 32-byte buffer, the unrolled bulk loops,
  the append and the uniform scan that are fused with hashing, and the final mix.  The reference is
  the one-shot hash of the whole message; every way to feed the state ends in it.
\<close>

unbundle bit_operations_syntax

section \<open>Rounds\<close>

definition PRIME1 :: u64 where
  "PRIME1 = 11400714785074694791"

definition PRIME2 :: u64 where
  "PRIME2 = 14029467366897019727"

definition PRIME3 :: u64 where
  "PRIME3 = 1609587929392839161"

definition PRIME4 :: u64 where
  "PRIME4 = 9650029242287828579"

definition PRIME5 :: u64 where
  "PRIME5 = 2870177450012600261"

definition rotate_left :: "u64 \<Rightarrow> nat \<Rightarrow> u64" where
  "rotate_left w n = push_bit (n mod 64) w OR drop_bit (64 - n mod 64) w"

definition xx_round :: "u64 \<Rightarrow> u64 \<Rightarrow> u64" where
  "xx_round acc lane = rotate_left (acc + lane * PRIME2) 31 * PRIME1"

definition merge_round :: "u64 \<Rightarrow> u64 \<Rightarrow> u64" where
  "merge_round acc val = (acc XOR xx_round 0 val) * PRIME1 + PRIME4"

definition read64 :: "bytes \<Rightarrow> ('e, u64) res" where
  "read64 b = rbind (rassert (8 \<le> length b)) (\<lambda>_. Ok (u64_from_le_bytes (take 8 b)))"

definition read32 :: "bytes \<Rightarrow> ('e, u32) res" where
  "read32 b = rbind (rassert (4 \<le> length b)) (\<lambda>_. Ok (ucast (u64_from_le_bytes (take 4 b))))"

section \<open>The state\<close>

type_synonym lanes = "u64 \<times> u64 \<times> u64 \<times> u64"

record Xxh64 =
  xx_v :: lanes
  xx_total :: nat
  xx_mem :: bytes
  xx_mem_len :: nat

definition xx_new :: "u64 \<Rightarrow> Xxh64" where
  "xx_new seed = \<lparr>xx_v = (seed + PRIME1 + PRIME2, seed + PRIME2, seed, seed - PRIME1),
     xx_total = 0, xx_mem = replicate 32 0, xx_mem_len = 0\<rparr>"

definition xx_rounds :: "lanes \<Rightarrow> lanes \<Rightarrow> lanes" where
  "xx_rounds = (\<lambda>(v0, v1, v2, v3) (a0, a1, a2, a3).
     (xx_round v0 a0, xx_round v1 a1, xx_round v2 a2, xx_round v3 a3))"

definition absorb32 :: "lanes \<Rightarrow> bytes \<Rightarrow> ('e, lanes) res" where
  "absorb32 v chunk =
     rbind (read64 chunk) (\<lambda>a0. rbind (read64 (drop 8 chunk)) (\<lambda>a1.
     rbind (read64 (drop 16 chunk)) (\<lambda>a2. rbind (read64 (drop 24 chunk)) (\<lambda>a3.
       Ok (xx_rounds v (a0, a1, a2, a3))))))"

text \<open>The four loads of a 32-byte chunk in the unrolled loops.\<close>

definition load_lanes :: "bytes \<Rightarrow> nat \<Rightarrow> ('e, lanes) res" where
  "load_lanes input p =
     rbind (load_le64 input p) (\<lambda>a0. rbind (load_le64 input (p + 8)) (\<lambda>a1.
     rbind (load_le64 input (p + 16)) (\<lambda>a2. rbind (load_le64 input (p + 24)) (\<lambda>a3.
       Ok (a0, a1, a2, a3)))))"

function absorb_bulk64 :: "lanes \<Rightarrow> bytes \<Rightarrow> ('e, lanes \<times> bytes) res" where
  "absorb_bulk64 v input =
     (if length input \<ge> 64 then
        rbind (load_lanes input 0) (\<lambda>a. rbind (load_lanes input 32) (\<lambda>b.
          absorb_bulk64 (xx_rounds (xx_rounds v a) b) (drop 64 input)))
      else Ok (v, input))"
  by pat_completeness auto
termination
  by (relation "measure (\<lambda>(v, i). length i)") auto

function absorb_bulk32 :: "lanes \<Rightarrow> bytes \<Rightarrow> ('e, lanes \<times> bytes) res" where
  "absorb_bulk32 v input =
     (if length input \<ge> 32 then
        rbind (absorb32 v input) (\<lambda>v. absorb_bulk32 v (drop 32 input))
      else Ok (v, input))"
  by pat_completeness auto
termination
  by (relation "measure (\<lambda>(v, i). length i)") auto

declare absorb_bulk64.simps [simp del] absorb_bulk32.simps [simp del]

text \<open>Writing \<open>bs\<close> into the buffer at \<open>p\<close>, in range.\<close>

definition mem_put :: "bytes \<Rightarrow> nat \<Rightarrow> bytes \<Rightarrow> ('e, bytes) res" where
  "mem_put mem p bs = rbind (rassert (p + length bs \<le> length mem)) (\<lambda>_.
     Ok (take p mem @ bs @ drop (p + length bs) mem))"

definition xx_absorb :: "Xxh64 \<Rightarrow> bytes \<Rightarrow> ('e, Xxh64) res" where
  "xx_absorb h input =
     (let bulk = (\<lambda>h input.
        rbind (absorb_bulk64 (xx_v h) input) (\<lambda>(v, input).
        rbind (absorb_bulk32 v input) (\<lambda>(v, input).
        rbind (mem_put (xx_mem h) 0 input) (\<lambda>mem.
          Ok (h\<lparr>xx_v := v, xx_mem := mem, xx_mem_len := length input\<rparr>)))))
      in if xx_mem_len h > 0 then
        rbind (rassert (xx_mem_len h \<le> 32)) (\<lambda>_.
        let fill = min (32 - xx_mem_len h) (length input) in
        rbind (mem_put (xx_mem h) (xx_mem_len h) (take fill input)) (\<lambda>mem.
        let h = h\<lparr>xx_mem := mem, xx_mem_len := xx_mem_len h + fill\<rparr>; input = drop fill input in
        if xx_mem_len h < 32 then Ok h
        else rbind (absorb32 (xx_v h) (xx_mem h)) (\<lambda>v.
          bulk (h\<lparr>xx_v := v, xx_mem_len := 0\<rparr>) input)))
      else bulk h input)"

text \<open>The total is a \<open>u64\<close>; exceeding it is the overflow panic of \<open>+=\<close>.\<close>

definition count_bytes :: "Xxh64 \<Rightarrow> nat \<Rightarrow> ('e, Xxh64) res" where
  "count_bytes h n = rbind (rassert (xx_total h + n < 2 ^ 64)) (\<lambda>_.
     Ok (h\<lparr>xx_total := xx_total h + n\<rparr>))"

definition mem_is_empty :: "Xxh64 \<Rightarrow> bool" where
  "mem_is_empty h \<longleftrightarrow> xx_mem_len h = 0"

definition xx_write :: "Xxh64 \<Rightarrow> bytes \<Rightarrow> ('e, Xxh64) res" where
  "xx_write h input = rbind (count_bytes h (length input)) (\<lambda>h. xx_absorb h input)"

section \<open>Appending while hashing\<close>

text \<open>
  The destination is the list of bytes stored so far behind the old end of the vector; every store
  lands at its end, which the source guarantees by advancing both pointers together.
\<close>

definition store_at :: "bytes \<Rightarrow> nat \<Rightarrow> bytes \<Rightarrow> ('e, bytes) res" where
  "store_at dst i bs = rbind (rassert (i = length dst)) (\<lambda>_. Ok (dst @ bs))"

definition store_lanes :: "bytes \<Rightarrow> nat \<Rightarrow> lanes \<Rightarrow> ('e, bytes) res" where
  "store_lanes dst i = (\<lambda>(a0, a1, a2, a3).
     rbind (store_at dst i (u64_to_le_bytes a0)) (\<lambda>dst.
     rbind (store_at dst (i + 8) (u64_to_le_bytes a1)) (\<lambda>dst.
     rbind (store_at dst (i + 16) (u64_to_le_bytes a2)) (\<lambda>dst.
       store_at dst (i + 24) (u64_to_le_bytes a3)))))"

function append_bulk64 :: "bytes \<Rightarrow> nat \<Rightarrow> lanes \<Rightarrow> bytes \<Rightarrow> ('e, nat \<times> lanes \<times> bytes) res" where
  "append_bulk64 input i v dst =
     (if i + 64 \<le> length input then
        rbind (load_lanes input i) (\<lambda>a. rbind (load_lanes input (i + 32)) (\<lambda>b.
        rbind (store_lanes dst i a) (\<lambda>dst. rbind (store_lanes dst (i + 32) b) (\<lambda>dst.
          append_bulk64 input (i + 64) (xx_rounds (xx_rounds v a) b) dst))))
      else Ok (i, v, dst))"
  by pat_completeness auto
termination
  by (relation "measure (\<lambda>(input, i, v, dst). length input - i)") auto

function append_bulk32 :: "bytes \<Rightarrow> nat \<Rightarrow> lanes \<Rightarrow> bytes \<Rightarrow> ('e, nat \<times> lanes \<times> bytes) res" where
  "append_bulk32 input i v dst =
     (if i + 32 \<le> length input then
        rbind (load_lanes input i) (\<lambda>c. rbind (store_lanes dst i c) (\<lambda>dst.
          append_bulk32 input (i + 32) (xx_rounds v c) dst))
      else Ok (i, v, dst))"
  by pat_completeness auto
termination
  by (relation "measure (\<lambda>(input, i, v, dst). length input - i)") auto

declare append_bulk64.simps [simp del] append_bulk32.simps [simp del]

definition write_appending_from ::
  "Xxh64 \<Rightarrow> bytes \<Rightarrow> bytes \<Rightarrow> nat \<Rightarrow> ('e, Xxh64 \<times> bytes) res" where
  "write_appending_from h out input hash_from =
     rbind (rassert (hash_from \<le> length input)) (\<lambda>_.
     rbind (rassert (hash_from = length input \<or> hash_from mod 32 = 0)) (\<lambda>_.
     rbind (count_bytes h (length input - hash_from)) (\<lambda>h.
     rbind
       (if xx_mem_len h > 0 then
          rbind (rassert (hash_from = 0)) (\<lambda>_.
          rbind (rassert (xx_mem_len h \<le> 32)) (\<lambda>_.
          let fill = min (32 - xx_mem_len h) (length input) in
          rbind (store_at [] 0 (take fill input)) (\<lambda>dst.
          rbind (mem_put (xx_mem h) (xx_mem_len h) (take fill input)) (\<lambda>mem.
          let h = h\<lparr>xx_mem := mem, xx_mem_len := xx_mem_len h + fill\<rparr> in
          if xx_mem_len h = 32 then
            rbind (absorb32 (xx_v h) (xx_mem h)) (\<lambda>v. Ok (h\<lparr>xx_v := v, xx_mem_len := 0\<rparr>, fill, dst))
          else Ok (h, fill, dst)))))
        else Ok (h, 0, [])) (\<lambda>(h, i, dst).
     rbind
       (if hash_from > 0 then rbind (store_at [] 0 (take hash_from input)) (\<lambda>dst. Ok (hash_from, dst))
        else Ok (i, dst)) (\<lambda>(i, dst).
     rbind (append_bulk64 input i (xx_v h) dst) (\<lambda>(i, v, dst).
     rbind (append_bulk32 input i v dst) (\<lambda>(i, v, dst).
     let h = h\<lparr>xx_v := v\<rparr>; rest = length input - i in
     rbind
       (if rest > 0 then
          rbind (store_at dst i (drop i input)) (\<lambda>dst.
          rbind (mem_put (xx_mem h) 0 (drop i input)) (\<lambda>mem.
            Ok (h\<lparr>xx_mem := mem, xx_mem_len := rest\<rparr>, dst)))
        else Ok (h, dst)) (\<lambda>(h, dst).
     rbind (rassert (length dst = length input)) (\<lambda>_. Ok (h, out @ dst))))))))))"

definition write_appending :: "Xxh64 \<Rightarrow> bytes \<Rightarrow> bytes \<Rightarrow> ('e, Xxh64 \<times> bytes) res" where
  "write_appending h out input = write_appending_from h out input 0"

section \<open>Scanning while hashing\<close>

definition lanes_differ :: "u64 \<Rightarrow> lanes \<Rightarrow> u64" where
  "lanes_differ br = (\<lambda>(a0, a1, a2, a3). (a0 XOR br) OR (a1 XOR br) OR (a2 XOR br) OR (a3 XOR br))"

function scan_bulk64 :: "bytes \<Rightarrow> u64 \<Rightarrow> nat \<Rightarrow> lanes \<Rightarrow> ('e, bool \<times> nat \<times> lanes) res" where
  "scan_bulk64 input br i v =
     (if i + 64 \<le> length input then
        rbind (load_lanes input i) (\<lambda>a. rbind (load_lanes input (i + 32)) (\<lambda>b.
        let v = xx_rounds (xx_rounds v a) b in
        if lanes_differ br a OR lanes_differ br b \<noteq> 0 then Ok (False, i + 64, v)
        else scan_bulk64 input br (i + 64) v))
      else Ok (True, i, v))"
  by pat_completeness auto
termination
  by (relation "measure (\<lambda>(input, br, i, v). length input - i)") auto

declare scan_bulk64.simps [simp del]

definition scan_words :: "bytes \<Rightarrow> u64 \<Rightarrow> lanes \<Rightarrow> ('e, bool \<times> nat \<times> lanes) res" where
  "scan_words input br v =
     rbind (scan_bulk64 input br 0 v) (\<lambda>(uniform, i, v).
       if uniform \<and> i + 32 \<le> length input then
         rbind (load_lanes input i) (\<lambda>c. Ok (lanes_differ br c = 0, i + 32, xx_rounds v c))
       else Ok (uniform, i, v))"

definition scan_uniform_absorbing :: "Xxh64 \<Rightarrow> bytes \<Rightarrow> ('e, (bool \<times> nat) \<times> Xxh64) res" where
  "scan_uniform_absorbing h input =
     rbind (rassert (xx_mem_len h = 0)) (\<lambda>_.
     case input of
       [] \<Rightarrow> Ok ((True, 0), h)
     | first # _ \<Rightarrow>
       let br = ucast first * 0x0101010101010101; len = length input in
       rbind (scan_words input br (xx_v h)) (\<lambda>(uniform, i, v).
       rbind (count_bytes (h\<lparr>xx_v := v\<rparr>) i) (\<lambda>h.
       if \<not> uniform then Ok ((False, i), h)
       else
         let tail = drop i input in
         if \<not> list_all (\<lambda>b. b = first) tail then Ok ((False, i), h)
         else rbind (xx_absorb h tail) (\<lambda>h. rbind (count_bytes h (length tail)) (\<lambda>h.
           Ok ((True, len), h))))))"

section \<open>The final mix\<close>

function finish_words :: "u64 \<Rightarrow> bytes \<Rightarrow> ('e, u64 \<times> bytes) res" where
  "finish_words h tail =
     (if length tail \<ge> 8 then
        rbind (read64 tail) (\<lambda>w.
          finish_words (rotate_left (h XOR xx_round 0 w) 27 * PRIME1 + PRIME4) (drop 8 tail))
      else Ok (h, tail))"
  by pat_completeness auto
termination
  by (relation "measure (\<lambda>(h, t). length t)") auto

declare finish_words.simps [simp del]

definition avalanche :: "u64 \<Rightarrow> u64" where
  "avalanche h =
     (let h = h XOR drop_bit 33 h; h = h * PRIME2; h = h XOR drop_bit 29 h; h = h * PRIME3
      in h XOR drop_bit 32 h)"

definition xx_finish :: "Xxh64 \<Rightarrow> ('e, u64) res" where
  "xx_finish s =
     (let h = (if xx_total s \<ge> 32 then
          let (v0, v1, v2, v3) = xx_v s;
              acc = rotate_left v0 1 + rotate_left v1 7 + rotate_left v2 12 + rotate_left v3 18
          in merge_round (merge_round (merge_round (merge_round acc v0) v1) v2) v3
        else let (v0, v1, v2, v3) = xx_v s in v2 + PRIME5);
          h = h + of_nat (xx_total s)
      in rbind (rassert (xx_mem_len s \<le> length (xx_mem s))) (\<lambda>_.
         rbind (finish_words h (take (xx_mem_len s) (xx_mem s))) (\<lambda>(h, tail).
         rbind
           (if length tail \<ge> 4 then
              rbind (read32 tail) (\<lambda>w.
                Ok (rotate_left (h XOR ucast w * PRIME1) 23 * PRIME2 + PRIME3, drop 4 tail))
            else Ok (h, tail)) (\<lambda>(h, tail).
         let h = fold (\<lambda>b h. rotate_left (h XOR ucast b * PRIME5) 11 * PRIME1) tail h
         in Ok (avalanche h)))))"

section \<open>The reference\<close>

definition chunk_lanes :: "bytes \<Rightarrow> lanes" where
  "chunk_lanes c = (u64_from_le_bytes (take 8 c), u64_from_le_bytes (take 8 (drop 8 c)),
     u64_from_le_bytes (take 8 (drop 16 c)), u64_from_le_bytes (take 8 (drop 24 c)))"

function stripes :: "lanes \<Rightarrow> bytes \<Rightarrow> lanes" where
  "stripes v bs = (if length bs \<ge> 32 then stripes (xx_rounds v (chunk_lanes bs)) (drop 32 bs) else v)"
  by pat_completeness auto
termination
  by (relation "measure (\<lambda>(v, b). length b)") auto

declare stripes.simps [simp del]

definition whole :: "bytes \<Rightarrow> nat" where
  "whole bs = 32 * (length bs div 32)"

definition tail_of :: "bytes \<Rightarrow> bytes" where
  "tail_of bs = drop (whole bs) bs"

text \<open>The hash of a whole message: the state after all of it, mixed.\<close>

definition xxh64 :: "u64 \<Rightarrow> bytes \<Rightarrow> ('e, u64) res" where
  "xxh64 seed bs = xx_finish ((xx_new seed)\<lparr>xx_v := stripes (xx_v (xx_new seed)) bs,
     xx_total := length bs, xx_mem := tail_of bs, xx_mem_len := length (tail_of bs)\<rparr>)"

text \<open>The state after the message \<open>bs\<close>.\<close>

definition xx_after :: "u64 \<Rightarrow> bytes \<Rightarrow> Xxh64 \<Rightarrow> bool" where
  "xx_after seed bs h \<longleftrightarrow> xx_v h = stripes (xx_v (xx_new seed)) bs \<and> xx_total h = length bs
     \<and> length (xx_mem h) = 32 \<and> xx_mem_len h = length (tail_of bs) \<and> take (xx_mem_len h) (xx_mem h) = tail_of bs"

lemma whole_simps: "whole bs \<le> length bs" "length bs - whole bs = length bs mod 32" "length bs - whole bs < 32"
proof -
  show m: "length bs - whole bs = length bs mod 32" by (simp add: whole_def minus_mult_div_eq_mod)
  show "length bs - whole bs < 32" unfolding m by simp
qed (simp add: whole_def)

lemma stripes_short: "length bs < 32 \<Longrightarrow> stripes v bs = v"
  by (subst stripes.simps) simp

lemma stripes_step: "32 \<le> length bs \<Longrightarrow> stripes v bs = stripes (xx_rounds v (chunk_lanes bs)) (drop 32 bs)"
  by (subst stripes.simps) simp

lemma chunk_lanes_append: "32 \<le> length xs \<Longrightarrow> chunk_lanes (xs @ ys) = chunk_lanes xs"
  by (simp add: chunk_lanes_def)

lemma chunk_lanes_take: "32 \<le> n \<Longrightarrow> chunk_lanes (take n xs) = chunk_lanes xs"
  by (simp add: chunk_lanes_def drop_take min_def)

lemma stripes_block: "length b = 32 \<Longrightarrow> stripes v (b @ r) = stripes (xx_rounds v (chunk_lanes b)) r"
  by (simp add: stripes_step [of "b @ r"] chunk_lanes_append)

lemma stripes_append: "length xs mod 32 = 0 \<Longrightarrow> stripes v (xs @ ys) = stripes (stripes v xs) ys"
proof (induction v xs rule: stripes.induct)
  case (1 v xs)
  show ?case
  proof (cases "32 \<le> length xs")
    case True
    let ?v = "xx_rounds v (chunk_lanes xs)"
    have "stripes v (xs @ ys) = stripes ?v (drop 32 xs @ ys)"
      using True by (simp add: stripes_step [of "xs @ ys"] chunk_lanes_append)
    also have "\<dots> = stripes (stripes ?v (drop 32 xs)) ys"
      using "1.IH" [OF True] "1.prems" True by (simp add: le_mod_geq)
    finally show ?thesis using True by (simp add: stripes_step [of xs])
  next
    case False
    then have "length xs = 0" using "1.prems" by simp
    then show ?thesis by (simp add: stripes_short)
  qed
qed

lemma stripes_whole: "stripes v bs = stripes v (take (whole bs) bs)"
proof -
  have "stripes v (take (whole bs) bs @ tail_of bs) = stripes (stripes v (take (whole bs) bs)) (tail_of bs)"
    using whole_simps(1) [of bs] by (intro stripes_append) (simp add: whole_def)
  then show ?thesis using whole_simps(3) [of bs] by (simp add: tail_of_def stripes_short)
qed

lemma tail_append: "length xs mod 32 = 0 \<Longrightarrow> tail_of (xs @ ys) = tail_of ys"
proof -
  assume "length xs mod 32 = 0"
  then obtain q where q: "length xs = 32 * q" by (metis mod_eq_0_iff_dvd dvdE)
  show ?thesis unfolding tail_of_def whole_def length_append q by (simp add: q)
qed

lemma tail_of_short: "length bs < 32 \<Longrightarrow> tail_of bs = bs"
  by (simp add: tail_of_def whole_def)

lemma length_tail_of: "length (tail_of bs) < 32"
  using whole_simps(3) [of bs] by (simp add: tail_of_def)

lemma split_whole: "take (whole bs) bs @ tail_of bs = bs" "length (take (whole bs) bs) mod 32 = 0"
  using whole_simps(1) [of bs] by (simp_all add: tail_of_def whole_def)

lemma after_append:
  "stripes v (xs @ ys) = stripes (stripes v xs) (tail_of xs @ ys)" "tail_of (xs @ ys) = tail_of (tail_of xs @ ys)"
proof -
  let ?w = "take (whole xs) xs"
  have xs: "xs @ ys = ?w @ (tail_of xs @ ys)" by (metis append_assoc split_whole(1))
  have "stripes v (xs @ ys) = stripes (stripes v ?w) (tail_of xs @ ys)"
    unfolding xs by (rule stripes_append [OF split_whole(2)])
  then show "stripes v (xs @ ys) = stripes (stripes v xs) (tail_of xs @ ys)" by (simp flip: stripes_whole)
  show "tail_of (xs @ ys) = tail_of (tail_of xs @ ys)"
    unfolding xs by (subst tail_append [OF split_whole(2)]) (simp add: split_whole(1))
qed

section \<open>The bulk loops\<close>

lemma load_le64_ok: "p + 8 \<le> length src \<Longrightarrow> load_le64 src p = Ok (u64_from_le_bytes (take 8 (drop p src)))"
  by (simp add: load_le64_def)

lemma load_lanes_ok: "p + 32 \<le> length input \<Longrightarrow> load_lanes input p = Ok (chunk_lanes (drop p input))"
  by (simp add: load_lanes_def load_le64_ok chunk_lanes_def add.commute)

lemma absorb32_ok: "32 \<le> length c \<Longrightarrow> absorb32 v c = Ok (xx_rounds v (chunk_lanes c))"
proof -
  assume "32 \<le> length c"
  then have "8 \<le> length c" "8 \<le> length c - 8" "8 \<le> length c - 16" "8 \<le> length c - 24" by arith+
  then show ?thesis by (simp add: absorb32_def read64_def chunk_lanes_def)
qed

lemma absorb_bulk64_ok:
  "\<exists>k. (absorb_bulk64 v input :: ('e, _) res) = Ok (stripes v (take k input), drop k input) \<and> k mod 32 = 0 \<and> k \<le> length input"
proof (induction v input rule: absorb_bulk64.induct)
  case (1 v input)
  show ?case
  proof (cases "64 \<le> length input")
    case True
    let ?v = "xx_rounds (xx_rounds v (chunk_lanes input)) (chunk_lanes (drop 32 input))"
    obtain k where k: "(absorb_bulk64 ?v (drop 64 input) :: ('e, _) res) = Ok (stripes ?v (take k (drop 64 input)), drop k (drop 64 input))"
      "k mod 32 = 0" "k \<le> length (drop 64 input)"
      using "1.IH" [OF True, of "chunk_lanes input" "chunk_lanes (drop 32 input)"] by (elim exE conjE) (rule that)
    have kk: "(64 + k) mod 32 = 0" "64 + k \<le> length input" using k(2,3) True by (presburger, simp)
    have "stripes v (take (64 + k) input) = stripes ?v (take k (drop 64 input))"
      using True k(3) by (simp add: stripes_step drop_take chunk_lanes_take)
    then show ?thesis
      using True k(1) kk by (intro exI [of _ "64 + k"]) (subst absorb_bulk64.simps; simp add: load_lanes_ok add.commute)
  next
    case False
    then show ?thesis by (intro exI [of _ 0]) (subst absorb_bulk64.simps; simp add: stripes_short)
  qed
qed

lemma absorb_bulk32_ok: "absorb_bulk32 v input = Ok (stripes v input, tail_of input)"
proof (induction v input rule: absorb_bulk32.induct)
  case (1 v input)
  show ?case
  proof (cases "32 \<le> length input")
    case True
    then have "tail_of (drop 32 input) = tail_of input"
      by (simp add: tail_of_def whole_def le_div_geq add.commute)
    then show ?thesis
      using 1 True by (subst absorb_bulk32.simps, subst stripes.simps) (simp add: absorb32_ok)
  next
    case False
    then show ?thesis by (subst absorb_bulk32.simps) (simp add: stripes_short tail_of_def whole_def)
  qed
qed

lemma bulk_ok:
  "(rbind (absorb_bulk64 v input) (\<lambda>(v, input). absorb_bulk32 v input) :: ('e, _) res) = Ok (stripes v input, tail_of input)"
proof -
  obtain k where k: "(absorb_bulk64 v input :: ('e, _) res) = Ok (stripes v (take k input), drop k input)" "k mod 32 = 0" "k \<le> length input"
    using absorb_bulk64_ok by (metis)
  have "stripes (stripes v (take k input)) (drop k input) = stripes v input"
    using stripes_append [of "take k input" v "drop k input"] k by (simp add: min_def)
  moreover have "tail_of (drop k input) = tail_of input"
  proof -
    obtain q where q: "k = 32 * q" using k(2) by (metis mod_eq_0_iff_dvd dvdE)
    obtain r where r: "length input = 32 * q + r" using k(3) unfolding q by (metis le_add_diff_inverse)
    show ?thesis unfolding q tail_of_def whole_def by (simp add: r add.commute)
  qed
  ultimately show ?thesis by (simp add: absorb_bulk32_ok k(1))
qed

lemma bulk_then:
  "rbind (absorb_bulk64 v input) (\<lambda>(v, input). rbind (absorb_bulk32 v input) (\<lambda>(v, input). f v input))
     = f (stripes v input) (tail_of input)"
proof -
  have "rbind (rbind (absorb_bulk64 v input) (\<lambda>(v, input). absorb_bulk32 v input)) (\<lambda>(v, input). f v input)
    = f (stripes v input) (tail_of input)" by (simp add: bulk_ok)
  then show ?thesis by (simp add: rbind_assoc case_prod_unfold)
qed

section \<open>Absorbing\<close>

lemma mem_put_ok: "p + length bs \<le> length mem \<Longrightarrow> mem_put mem p bs = Ok (take p mem @ bs @ drop (p + length bs) mem)"
  by (simp add: mem_put_def)

text \<open>The lanes and the buffer after the message \<open>bs\<close>, from the initial lanes \<open>v\<close>.\<close>

definition xx_holds :: "lanes \<Rightarrow> bytes \<Rightarrow> Xxh64 \<Rightarrow> bool" where
  "xx_holds v bs h \<longleftrightarrow> xx_v h = stripes v bs \<and> length (xx_mem h) = 32
     \<and> xx_mem_len h = length (tail_of bs) \<and> take (length (tail_of bs)) (xx_mem h) = tail_of bs"

lemma xx_holdsD:
  assumes "xx_holds v bs h"
  shows "xx_v h = stripes v bs" "length (xx_mem h) = 32" "xx_mem_len h = length (tail_of bs)"
    "take (xx_mem_len h) (xx_mem h) = tail_of bs" "xx_mem_len h < 32"
  using assms length_tail_of [of bs] unfolding xx_holds_def by auto

lemma xx_absorb_bulk:
  assumes h: "xx_mem_len h = 0" "length (xx_mem h) = 32"
  shows "xx_absorb h input = Ok (h\<lparr>xx_v := stripes (xx_v h) input,
    xx_mem := tail_of input @ drop (length (tail_of input)) (xx_mem h), xx_mem_len := length (tail_of input)\<rparr>)"
  using h length_tail_of [of input] by (simp add: xx_absorb_def bulk_then mem_put_ok)

lemma xx_absorb_fill:
  assumes "0 < xx_mem_len h" "xx_mem_len h < 32" "length (xx_mem h) = 32" "32 - xx_mem_len h \<le> length input"
    "c = take (xx_mem_len h) (xx_mem h) @ take (32 - xx_mem_len h) input"
  shows "xx_absorb h input = xx_absorb (h\<lparr>xx_mem := c, xx_v := xx_rounds (xx_v h) (chunk_lanes c), xx_mem_len := 0\<rparr>)
    (drop (32 - xx_mem_len h) input)"
proof -
  have f: "min (32 - xx_mem_len h) (length input) = 32 - xx_mem_len h" using assms(4) by simp
  have c: "length c = 32" using assms by simp
  have put: "mem_put (xx_mem h) (xx_mem_len h) (take (32 - xx_mem_len h) input) = Ok c"
    using assms by (simp add: mem_put_ok)
  show ?thesis
    using assms(1,2) c by (simp add: xx_absorb_def f put absorb32_ok Let_def)
qed

lemma xx_absorb_holds:
  assumes h: "xx_holds v bs h"
  shows "\<exists>h'. xx_absorb h input = Ok h' \<and> xx_holds v (bs @ input) h' \<and> xx_total h' = xx_total h"
proof (cases "xx_mem_len h = 0")
  case True
  then have "tail_of bs = []" using h by (simp add: xx_holds_def)
  then show ?thesis
    using h True length_tail_of [of input]
    by (simp add: xx_absorb_bulk xx_holds_def after_append(1) [of _ bs] after_append(2) [of bs])
next
  case False
  let ?m = "xx_mem_len h" and ?t = "tail_of bs"
  have m: "?m = length ?t" "?m < 32" "take ?m (xx_mem h) = ?t" "length (xx_mem h) = 32" "xx_v h = stripes v bs"
    using xx_holdsD [OF h] by auto
  show ?thesis
  proof (cases "?m + length input < 32")
    case True
    then have "length (?t @ input) < 32" using m(1) by simp
    note short = stripes_short [OF this] tail_of_short [OF this]
    have f: "min (32 - ?m) (length input) = length input" using True by simp
    show ?thesis
      using False m True
      by (simp add: xx_absorb_def f mem_put_ok xx_holds_def after_append(1) [of _ bs] after_append(2) [of bs] short Let_def)
  next
    case nf: False
    let ?i = "take (32 - ?m) input" and ?r = "drop (32 - ?m) input"
    have f: "min (32 - ?m) (length input) = 32 - ?m" "length ?i = 32 - ?m" using nf by simp_all
    have blk: "length (?t @ ?i) = 32" using m f by simp
    have ti: "?t @ input = (?t @ ?i) @ ?r" by simp
    have st: "stripes v (bs @ input) = stripes (xx_rounds (xx_v h) (chunk_lanes (?t @ ?i))) ?r"
      unfolding after_append(1) [of v bs] ti
      by (simp only: stripes_block [OF blk] m(5))
    have tl: "tail_of (bs @ input) = tail_of ?r"
      unfolding after_append(2) [of bs] ti by (rule tail_append) (simp only: blk, simp)
    let ?h = "h\<lparr>xx_mem := ?t @ ?i, xx_v := xx_rounds (xx_v h) (chunk_lanes (?t @ ?i)), xx_mem_len := 0\<rparr>"
    have "xx_absorb h input = xx_absorb ?h ?r"
      using False m nf by (intro xx_absorb_fill) simp_all
    moreover have "xx_absorb ?h ?r = Ok (?h\<lparr>xx_v := stripes (xx_v ?h) ?r,
        xx_mem := tail_of ?r @ drop (length (tail_of ?r)) (xx_mem ?h), xx_mem_len := length (tail_of ?r)\<rparr>)"
      using blk by (intro xx_absorb_bulk) simp_all
    ultimately have e: "xx_absorb h input = Ok (?h\<lparr>xx_v := stripes (xx_v ?h) ?r,
        xx_mem := tail_of ?r @ drop (length (tail_of ?r)) (xx_mem ?h), xx_mem_len := length (tail_of ?r)\<rparr>)"
      by (rule trans)
    have len: "length (tail_of ?r) \<le> length ?t + min (length input) (32 - ?m)"
      using length_tail_of [of ?r] blk by simp
    show ?thesis
      unfolding e xx_holds_def st tl
      by (intro exI conjI, rule refl)
        (use len blk in \<open>simp_all del: drop_append\<close>)
  qed
qed

section \<open>Streaming equals one-shot hashing\<close>

lemma xx_write_ok:
  assumes "xx_holds v bs h" "xx_total h + length input < 2 ^ 64"
  shows "\<exists>h'. (xx_write h input :: ('e, _) res) = Ok h' \<and> xx_holds v (bs @ input) h' \<and> xx_total h' = xx_total h + length input"
proof -
  have "xx_holds v bs (h\<lparr>xx_total := xx_total h + length input\<rparr>)" using assms(1) unfolding xx_holds_def by simp
  from xx_absorb_holds [OF this, of input] show ?thesis
    using assms(2) by (simp add: xx_write_def count_bytes_def)
qed

definition xx_feed :: "Xxh64 \<Rightarrow> bytes list \<Rightarrow> ('e, Xxh64) res" where
  "xx_feed h pieces = foldl (\<lambda>r p. rbind r (\<lambda>h. xx_write h p)) (Ok h) pieces"

lemma xx_feed_ok:
  assumes "xx_holds v bs h" "xx_total h + length (concat pieces) < 2 ^ 64"
  shows "\<exists>h'. (xx_feed h pieces :: ('e, _) res) = Ok h' \<and> xx_holds v (bs @ concat pieces) h'
    \<and> xx_total h' = xx_total h + length (concat pieces)"
  using assms
proof (induction pieces arbitrary: bs h)
  case (Cons p pieces)
  have "xx_total h + length p < 2 ^ 64" using Cons.prems(2) by simp
  from xx_write_ok [OF Cons.prems(1) this] obtain h1 where
    h1: "(xx_write h p :: ('e, _) res) = Ok h1" "xx_holds v (bs @ p) h1" "xx_total h1 = xx_total h + length p"
    by (elim exE conjE) (rule that)
  from Cons.IH [OF h1(2)] Cons.prems(2) h1(3) show ?case by (simp add: xx_feed_def h1(1) add.assoc)
qed (simp add: xx_feed_def)

lemma xx_new_holds: "xx_holds (xx_v (xx_new seed)) [] (xx_new seed)" "xx_total (xx_new seed) = 0"
  by (simp_all add: xx_holds_def xx_new_def stripes_short tail_of_short)

lemma xx_finish_holds:
  assumes "xx_holds (xx_v (xx_new seed)) bs h" "xx_total h = length bs"
  shows "xx_finish h = xxh64 seed bs"
proof -
  have "xx_mem_len h \<le> length (xx_mem h)" "take (xx_mem_len h) (xx_mem h) = tail_of bs"
    "xx_v h = stripes (xx_v (xx_new seed)) bs"
    using xx_holdsD [OF assms(1)] by (simp_all only: less_imp_le)
  then show ?thesis using assms(2) by (simp add: xxh64_def xx_finish_def)
qed

text \<open> C23.  However a message is cut into writes, the digest is the one-shot hash of the whole message.\<close>

theorem xx_streaming:
  assumes "length (concat pieces) < 2 ^ 64"
  shows "(rbind (xx_feed (xx_new seed) pieces) xx_finish :: ('e, _) res) = xxh64 seed (concat pieces)"
proof -
  have "xx_total (xx_new seed) + length (concat pieces) < 2 ^ 64"
    using assms by (simp only: xx_new_holds(2) add_0)
  from xx_feed_ok [OF xx_new_holds(1) this] obtain h where
    h: "(xx_feed (xx_new seed) pieces :: ('e, _) res) = Ok h"
    "xx_holds (xx_v (xx_new seed)) ([] @ concat pieces) h"
    "xx_total h = xx_total (xx_new seed) + length (concat pieces)" by (elim exE conjE) (rule that)
  then have "xx_finish h = xxh64 seed (concat pieces)"
    by (intro xx_finish_holds) (simp_all add: xx_new_holds(2))
  then show ?thesis using h(1) by simp
qed

lemma xx_streaming_witness:
  "(rbind (xx_feed (xx_new 7) [replicate 33 5, [1, 2], []]) xx_finish :: (unit, _) res)
    = xxh64 7 (replicate 33 5 @ [1, 2])"
  using xx_streaming [of "[replicate 33 5, [1, 2], []]" 7, where 'e = unit] by simp

text \<open>The published digest of the empty message.\<close>

lemma xxh64_empty: "(xxh64 0 [] :: (unit, u64) res) = Ok 0xEF46DB3751D8E999"
  by code_simp

section \<open>Appending equals extending and writing\<close>

lemma take_lanes:
  "32 \<le> length c \<Longrightarrow> take 8 c @ take 8 (drop 8 c) @ take 8 (drop 16 c) @ take 8 (drop 24 c) = take 32 c"
proof -
  have "take 32 c = take (8 + (8 + (8 + 8))) c" by simp
  also have "\<dots> = take 8 c @ take 8 (drop 8 c) @ take 8 (drop 16 c) @ take 8 (drop 24 c)"
    unfolding take_add by (simp add: drop_drop)
  finally show ?thesis ..
qed

lemma store_lanes_ok:
  assumes "length dst = i" "32 \<le> length c"
  shows "store_lanes dst i (chunk_lanes c) = Ok (dst @ take 32 c)"
  using assms by (simp add: store_lanes_def chunk_lanes_def store_at_def flip: take_lanes)

lemma take_more: "k \<le> n \<Longrightarrow> take k xs @ take (n - k) (drop k xs) = take n xs"
  by (metis le_add_diff_inverse take_add)

lemma append_bulk64_ok:
  assumes "length dst = i" "i \<le> length input"
  shows "\<exists>k. (append_bulk64 input i v dst :: ('e, _) res)
      = Ok (i + k, stripes v (take k (drop i input)), dst @ take k (drop i input))
    \<and> k mod 32 = 0 \<and> i + k \<le> length input"
  using assms
proof (induction input i v dst rule: append_bulk64.induct)
  case (1 input i v dst)
  show ?case
  proof (cases "i + 64 \<le> length input")
    case True
    let ?b = "drop i input"
    let ?v = "xx_rounds (xx_rounds v (chunk_lanes ?b)) (chunk_lanes (drop 32 ?b))"
    have d: "drop (i + 32) input = drop 32 ?b" "drop (i + 64) input = drop 64 ?b" by (simp_all add: add.commute)
    have t: "take 32 ?b @ take 32 (drop 32 ?b) = take 64 ?b" using take_more [of 32 64 ?b] by simp
    have l: "length (dst @ take 64 ?b) = i + 64" using True "1.prems" by simp
    obtain k where k: "(append_bulk64 input (i + 64) ?v (dst @ take 64 ?b) :: ('e, _) res)
        = Ok (i + 64 + k, stripes ?v (take k (drop 64 ?b)), (dst @ take 64 ?b) @ take k (drop 64 ?b))"
      "k mod 32 = 0" "i + 64 + k \<le> length input"
      using "1.IH" [where x = "chunk_lanes ?b" and xa = "chunk_lanes (drop 32 ?b)" and xba = "dst @ take 64 ?b",
        OF True l True] unfolding d
      by (elim exE conjE) (rule that)
    have kk: "(64 + k) mod 32 = 0" using k(2) by presburger
    have tk: "take (64 + k) ?b = take 64 ?b @ take k (drop 64 ?b)" by (rule take_add)
    have st: "stripes v (take (64 + k) ?b) = stripes ?v (take k (drop 64 ?b))"
      using True k(3) by (simp add: stripes_step drop_take chunk_lanes_take)
    have step: "(append_bulk64 input i v dst :: ('e, _) res) = append_bulk64 input (i + 64) ?v (dst @ take 64 ?b)"
      using True "1.prems" t
      by (subst append_bulk64.simps)
        (simp add: load_lanes_ok store_lanes_ok d del: drop_drop flip: t)
    have "(append_bulk64 input i v dst :: ('e, _) res)
        = Ok (i + (64 + k), stripes v (take (64 + k) ?b), dst @ take (64 + k) ?b)"
      unfolding step k(1) st unfolding tk append_assoc add.assoc ..
    then show ?thesis
      using k(3) kk by (intro exI [of _ "64 + k"] conjI) simp_all
  next
    case False
    then show ?thesis using "1.prems"
      by (intro exI [of _ 0]) (subst append_bulk64.simps; simp add: stripes_short)
  qed
qed

lemma append_bulk32_ok:
  assumes "length dst = i" "i \<le> length input"
  shows "append_bulk32 input i v dst = Ok (i + whole (drop i input), stripes v (drop i input),
    dst @ take (whole (drop i input)) (drop i input))"
  using assms
proof (induction input i v dst rule: append_bulk32.induct)
  case (1 input i v dst)
  let ?b = "drop i input"
  show ?case
  proof (cases "i + 32 \<le> length input")
    case True
    let ?v = "xx_rounds v (chunk_lanes ?b)"
    have d: "drop (i + 32) input = drop 32 ?b" by (simp add: add.commute)
    have l: "length (dst @ take 32 ?b) = i + 32" using True "1.prems" by simp
    have w: "whole ?b = 32 + whole (drop 32 ?b)" using True by (simp add: whole_def le_div_geq add.commute)
    have step: "(append_bulk32 input i v dst :: ('a, _) res) = append_bulk32 input (i + 32) ?v (dst @ take 32 ?b)"
      using True "1.prems" by (subst append_bulk32.simps) (simp add: load_lanes_ok store_lanes_ok)
    have st: "stripes v ?b = stripes ?v (drop 32 ?b)" using True by (simp add: stripes_step)
    show ?thesis
      unfolding step "1.IH" [OF True l True, where x = "chunk_lanes ?b", unfolded d]
        st w take_add append_assoc add.assoc ..
  next
    case False
    then have "length ?b < 32" by simp
    then show ?thesis using False
      by (subst append_bulk32.simps) (simp add: stripes_short whole_def)
  qed
qed

lemma append_bulk_then:
  assumes "length dst = i" "i \<le> length input"
  shows "(rbind (append_bulk64 input i v dst) (\<lambda>(i, v, dst). rbind (append_bulk32 input i v dst) (\<lambda>(i, v, dst). f i v dst)) :: ('e, _) res)
    = f (i + whole (drop i input)) (stripes v (drop i input)) (dst @ take (whole (drop i input)) (drop i input))"
proof -
  obtain k where k: "(append_bulk64 input i v dst :: ('e, _) res)
      = Ok (i + k, stripes v (take k (drop i input)), dst @ take k (drop i input))"
    "k mod 32 = 0" "i + k \<le> length input"
    using append_bulk64_ok [OF assms, of v] by (elim exE conjE) (rule that)
  let ?b = "drop i input"
  have l: "length (dst @ take k ?b) = i + k" using assms k(3) by simp
  have m: "length (take k ?b) mod 32 = 0" using k(2,3) by (simp add: min_absorb2 le_diff_conv2 assms(2) add.commute)
  obtain q where q: "k = 32 * q" using k(2) by (metis mod_eq_0_iff_dvd dvdE)
  obtain r where r: "length ?b = 32 * q + r" using k(3) unfolding q by (metis length_drop le_add_diff_inverse le_diff_conv2 add.commute assms(2))
  have w: "whole ?b = k + whole (drop k ?b)" unfolding whole_def q length_drop [of "32 * q"] r by simp
  have st: "stripes (stripes v (take k ?b)) (drop k ?b) = stripes v ?b"
    by (simp only: stripes_append [OF m, symmetric] append_take_drop_id)
  have d: "drop (i + k) input = drop k ?b" by (simp add: add.commute)
  show ?thesis
    unfolding k(1) rbind.simps prod.case append_bulk32_ok [OF l k(3)] d st w take_add append_assoc add.assoc ..
qed

lemma drop_whole: "drop (i + whole (drop i input)) input = tail_of (drop i input)"
  by (simp add: tail_of_def add.commute)

lemma append_rest:
  assumes "length (xx_mem h) = 32" "i \<le> length input" "xx_v h = v" "xx_mem_len h = 0"
  shows "(rbind (append_bulk64 input i v (take i input)) (\<lambda>(i, v, dst).
     rbind (append_bulk32 input i v dst) (\<lambda>(i, v, dst).
     let h = h\<lparr>xx_v := v\<rparr>; rest = length input - i in
     rbind
       (if rest > 0 then
          rbind (store_at dst i (drop i input)) (\<lambda>dst.
          rbind (mem_put (xx_mem h) 0 (drop i input)) (\<lambda>mem.
            Ok (h\<lparr>xx_mem := mem, xx_mem_len := rest\<rparr>, dst)))
        else Ok (h, dst)) (\<lambda>(h, dst).
     rbind (rassert (length dst = length input)) (\<lambda>_. Ok (h, out @ dst))))) :: ('e, _) res)
   = rbind (xx_absorb h (drop i input)) (\<lambda>h. Ok (h, out @ input))"
proof -
  let ?b = "drop i input" and ?j = "i + whole (drop i input)"
  have j: "?j \<le> length input" "length input - ?j = length (tail_of ?b)"
    using whole_simps(1) [of ?b] assms(2) by (simp_all add: tail_of_def)
  have dst: "take i input @ take (whole ?b) ?b = take ?j input" by (simp add: take_add)
  have li: "length (take i input) = i" using assms(2) by simp
  have ji: "length (take ?j input) = ?j" using j(1) by simp
  have all: "take ?j input @ tail_of ?b = input" using append_take_drop_id [of ?j input] unfolding drop_whole .
  have lt: "length (tail_of ?b) \<le> 32" using length_tail_of [of ?b] by simp
  show ?thesis
    unfolding append_bulk_then [OF li assms(2)] dst drop_whole j(2)
    using lt ji all j assms(1,3,4)
    by (cases "tail_of ?b = []")
      (simp_all add: Let_def store_at_def mem_put_ok xx_absorb_bulk)
qed

text \<open>
  C24.  The append fused with hashing is the plain append followed by the plain write of the part still to
  be hashed, from every state between two writes.
\<close>

theorem write_appending_fused:
  assumes h: "length (xx_mem h) = 32" "xx_mem_len h < 32"
    and k: "k \<le> length input" "k = length input \<or> k mod 32 = 0" "xx_mem_len h > 0 \<longrightarrow> k = 0"
  shows "(write_appending_from h out input k :: ('e, _) res)
    = rbind (xx_write h (drop k input)) (\<lambda>h. Ok (h, out @ input))"
proof (cases "xx_total h + (length input - k) < 2 ^ 64")
  case False
  then show ?thesis using k by (simp add: write_appending_from_def xx_write_def count_bytes_def)
next
  case total: True
  let ?h = "h\<lparr>xx_total := xx_total h + (length input - k)\<rparr>"
  let ?m = "xx_mem_len h" and ?f = "min (32 - xx_mem_len h) (length input)"
  have w: "(xx_write h (drop k input) :: ('e, _) res) = xx_absorb ?h (drop k input)"
    using total by (simp add: xx_write_def count_bytes_def)
  consider "?m = 0" | "?m > 0" "?m + ?f = 32" | "?m > 0" "?m + ?f < 32" "?f = length input" using h(2) by linarith
  then show ?thesis
  proof cases
    case 1
    have start: "(if k > 0 then rbind (store_at [] 0 (take k input)) (\<lambda>dst. Ok (k, dst)) else Ok (0, []))
        = (Ok (k, take k input) :: ('e, _) res)"
      by (simp add: store_at_def)
    show ?thesis
      unfolding w append_rest [of ?h, symmetric, OF _ k(1) refl, simplified, OF h(1) 1]
      using 1 k total
      by (simp add: write_appending_from_def count_bytes_def start)
  next
    case 2
    then have k0: "k = 0" using k(3) by simp
    let ?c = "take ?m (xx_mem h) @ take ?f input"
    let ?g = "?h\<lparr>xx_mem := ?c, xx_v := xx_rounds (xx_v h) (chunk_lanes ?c), xx_mem_len := 0\<rparr>"
    have c: "length ?c = 32" using 2 h by simp
    have put: "(mem_put (xx_mem h) ?m (take ?f input) :: ('e, _) res) = Ok ?c" using 2 h by (simp add: mem_put_ok)
    have a: "(xx_absorb ?h (drop k input) :: ('e, _) res) = xx_absorb ?g (drop ?f input)"
      using 2 k0 h xx_absorb_fill [of ?h input ?c, where 'a = 'e] by simp
    show ?thesis
      unfolding w a
      using append_rest [of ?g ?f input "xx_v ?g" out, where 'e = 'e] c 2 k0 total h put
      by (simp add: write_appending_from_def count_bytes_def store_at_def absorb32_ok Let_def cong: if_cong)
  next
    case 3
    then have k0: "k = 0" using k(3) by simp
    have nil: "append_bulk64 input (length input) v input = (Ok (length input, v, input) :: ('e, _) res)"
      "append_bulk32 input (length input) v input = (Ok (length input, v, input) :: ('e, _) res)" for v
      by (simp_all add: append_bulk64.simps append_bulk32.simps)
    show ?thesis
      unfolding w using 3 k0 total h
      by (simp add: write_appending_from_def count_bytes_def store_at_def xx_absorb_def nil mem_put_ok Let_def)
  qed
qed

lemma write_appending_fused_witness:
  "(write_appending_from (xx_new 3) [9] (replicate 40 4) 32 :: (unit, _) res)
    = rbind (xx_write (xx_new 3) (drop 32 (replicate 40 4))) (\<lambda>h. Ok (h, [9] @ replicate 40 4))"
  by (rule write_appending_fused) (simp_all add: xx_new_def)

section \<open>The uniform scan\<close>

lemma unat_u64_from_le_bytes: "length bs \<le> 8 \<Longrightarrow> unat (u64_from_le_bytes bs) = bits_val (bytes_bits bs)"
  by (simp add: u64_from_le_bytes_def unat_bits_word)

lemma bits_val_byte: "bits_val (byte_bits b) = unat b"
proof -
  have "byte_bits b = val_bits 8 (unat b)"
    by (rule nth_equalityI) (auto simp: bit_unsigned_iff)
  moreover have "unat b < 2 ^ 8" using unsigned_less [of b] by simp
  ultimately show ?thesis by (simp add: bits_val_val_bits take_bit_nat_eq_self)
qed

lemma splat: "u64_from_le_bytes (replicate 8 b) = ucast b * 0x0101010101010101"
proof -
  have l: "unat b < 256" using unsigned_less [of b] by simp
  have rep: "replicate 8 b = [b, b, b, b, b, b, b, b]" by (simp add: numeral_eq_Suc)
  have "unat (u64_from_le_bytes (replicate 8 b)) = unat b * 0x0101010101010101"
    unfolding rep by (simp add: unat_u64_from_le_bytes bits_val_append bits_val_byte)
  moreover have "unat (ucast b * 0x0101010101010101 :: u64) = unat b * 0x0101010101010101"
  proof -
    have "unat (ucast b :: u64) = unat b"
      using l by (simp add: unsigned_ucast_eq take_bit_nat_eq_self)
    moreover have "unat (0x0101010101010101 :: u64) = 0x0101010101010101" by simp
    ultimately have "unat (ucast b * 0x0101010101010101 :: u64) = (unat b * 0x0101010101010101) mod 2 ^ LENGTH(64)"
      by (simp only: unat_word_ariths)
    also have "\<dots> = unat b * 0x0101010101010101" using l by (intro mod_less) simp
    finally show ?thesis .
  qed
  ultimately show ?thesis by (simp only: word_unat_eq_iff)
qed

lemma lane_uniform:
  assumes l: "length bs = 8"
  shows "u64_from_le_bytes bs = ucast b * 0x0101010101010101 \<longleftrightarrow> list_all (\<lambda>x. x = b) bs"
proof
  assume "u64_from_le_bytes bs = ucast b * 0x0101010101010101"
  then have "u64_to_le_bytes (u64_from_le_bytes bs) = u64_to_le_bytes (u64_from_le_bytes (replicate 8 b))"
    unfolding splat by simp
  then have "bs = replicate 8 b" using l by (simp only: bytes_of_word length_replicate)
  then show "list_all (\<lambda>x. x = b) bs" by (simp add: list_all_iff)
next
  assume "list_all (\<lambda>x. x = b) bs"
  then have "replicate (length bs) b = bs" by (intro replicate_length_same) (simp add: list_all_iff)
  then have "bs = replicate 8 b" unfolding l by simp
  then show "u64_from_le_bytes bs = ucast b * 0x0101010101010101" by (simp only: splat)
qed

lemma xor_zero_iff: "a XOR b = 0 \<longleftrightarrow> a = b" for a b :: u64
proof
  assume "a XOR b = 0"
  then have "bit (a XOR b) n = False" for n by simp
  then show "a = b" by (intro bit_word_eqI) (simp add: bit_xor_iff)
qed simp

lemma lanes_differ_zero:
  "32 \<le> length c \<Longrightarrow> lanes_differ (ucast b * 0x0101010101010101) (chunk_lanes c) = 0
    \<longleftrightarrow> list_all (\<lambda>x. x = b) (take 32 c)"
  by (simp add: lanes_differ_def chunk_lanes_def lane_uniform or_eq_0_iff xor_zero_iff flip: take_lanes)

lemma scan_bulk64_ok:
  assumes "i \<le> length input" "br = ucast b * 0x0101010101010101"
  shows "\<exists>u k. (scan_bulk64 input br i v :: ('e, _) res) = Ok (u, i + k, stripes v (take k (drop i input)))
    \<and> k mod 32 = 0 \<and> i + k \<le> length input \<and> (u \<longleftrightarrow> list_all (\<lambda>x. x = b) (take k (drop i input)))"
  using assms
proof (induction input br i v rule: scan_bulk64.induct)
  case (1 input br i v)
  note br = "1.prems"(2)
  show ?case
  proof (cases "i + 64 \<le> length input")
    case True
    let ?b = "drop i input"
    let ?v = "xx_rounds (xx_rounds v (chunk_lanes ?b)) (chunk_lanes (drop 32 ?b))"
    have d: "drop (i + 32) input = drop 32 ?b" "drop (i + 64) input = drop 64 ?b" by (simp_all add: add.commute)
    have t: "take 64 ?b = take 32 ?b @ take 32 (drop 32 ?b)" using take_more [of 32 64 ?b] by simp
    have diff: "lanes_differ br (chunk_lanes ?b) OR lanes_differ br (chunk_lanes (drop 32 ?b)) = 0
        \<longleftrightarrow> list_all (\<lambda>x. x = b) (take 64 ?b)"
      using True unfolding or_eq_0_iff t br by (simp add: lanes_differ_zero)
    have st: "stripes v (take (64 + k) ?b) = stripes ?v (take k (drop 64 ?b))" if "i + 64 + k \<le> length input" for k
      using True that by (simp add: stripes_step drop_take chunk_lanes_take)
    have st0: "stripes v (take 64 ?b) = ?v" using st [of 0] True by (simp add: stripes_short)
    have step: "(scan_bulk64 input br i v :: ('e, _) res) =
        (if list_all (\<lambda>x. x = b) (take 64 ?b) then scan_bulk64 input br (i + 64) ?v else Ok (False, i + 64, ?v))"
      using True by (subst scan_bulk64.simps) (simp add: load_lanes_ok d(1) Let_def diff del: drop_drop)
    show ?thesis
    proof (cases "list_all (\<lambda>x. x = b) (take 64 ?b)")
      case all: True
      then have nd: "\<not> lanes_differ br (chunk_lanes ?b) OR lanes_differ br (chunk_lanes (drop 32 ?b)) \<noteq> 0"
        using diff by simp
      obtain u k where k: "(scan_bulk64 input br (i + 64) ?v :: ('e, _) res)
          = Ok (u, i + 64 + k, stripes ?v (take k (drop 64 ?b)))" "k mod 32 = 0" "i + 64 + k \<le> length input"
        "u \<longleftrightarrow> list_all (\<lambda>x. x = b) (take k (drop 64 ?b))"
        using "1.IH" [where x = "chunk_lanes ?b" and xa = "chunk_lanes (drop 32 ?b)", OF True refl nd True br]
        unfolding d by (elim exE conjE) (rule that)
      have kk: "(64 + k) mod 32 = 0" using k(2) by presburger
      show ?thesis
        unfolding step using all k kk
        by (intro exI [of _ u] exI [of _ "64 + k"]) (simp add: st [OF k(3), unfolded take_add] take_add [of 64] d del: drop_drop)
    next
      case False
      then show ?thesis
        unfolding step using True by (intro exI [of _ False] exI [of _ 64]) (simp add: st0)
    qed
  next
    case False
    then show ?thesis using "1.prems"
      by (intro exI [of _ True] exI [of _ 0]) (subst scan_bulk64.simps; simp add: stripes_short)
  qed
qed

lemma xx_write_whole:
  assumes "xx_mem_len h = 0" "length (xx_mem h) = 32" "length bs mod 32 = 0" "xx_total h + length bs < 2 ^ 64"
  shows "xx_write h bs = Ok (h\<lparr>xx_v := stripes (xx_v h) bs, xx_total := xx_total h + length bs\<rparr>)"
proof -
  have "tail_of bs = []" using tail_append [OF assms(3), of "[]"] by (simp add: tail_of_short)
  then show ?thesis using assms by (cases h) (simp add: xx_write_def count_bytes_def xx_absorb_bulk)
qed

lemma scan_chunks:
  fixes h :: Xxh64
  assumes "input = first # rest" "br = ucast first * 0x0101010101010101"
  shows "\<exists>u i. (scan_words input br v :: ('e, _) res) = Ok (u, i, stripes v (take i input))
    \<and> i mod 32 = 0 \<and> i \<le> length input \<and> (u \<longleftrightarrow> list_all (\<lambda>b. b = first) (take i input))"
proof -
  obtain u k where k: "(scan_bulk64 input br 0 v :: ('e, _) res) = Ok (u, 0 + k, stripes v (take k (drop 0 input)))"
    "k mod 32 = 0" "0 + k \<le> length input" "u \<longleftrightarrow> list_all (\<lambda>x. x = first) (take k (drop 0 input))"
    using scan_bulk64_ok [of 0 input br first v, OF le0 assms(2)] by (elim exE conjE) (rule that)
  show ?thesis
  proof (cases "u \<and> k + 32 \<le> length input")
    case True
    have m: "length (take k input) mod 32 = 0" "length (take k input) = k" using k(2,3) by simp_all
    have l32: "length (take 32 (drop k input)) = 32" using conjunct2 [OF True] by simp
    have "stripes v (take (k + 32) input) = stripes (stripes v (take k input)) (take 32 (drop k input))"
      unfolding take_add by (rule stripes_append [OF m(1)])
    also have "\<dots> = xx_rounds (stripes v (take k input)) (chunk_lanes (drop k input))"
      using stripes_block [OF l32, of _ "[]"] by (simp add: chunk_lanes_take stripes_short)
    finally have st: "xx_rounds (stripes v (take k input)) (chunk_lanes (drop k input)) = stripes v (take (k + 32) input)" ..
    have kk: "(k + 32) mod 32 = 0" using k(2) by simp
    have d: "lanes_differ br (chunk_lanes (drop k input)) = 0 \<longleftrightarrow> list_all (\<lambda>b. b = first) (take 32 (drop k input))"
      unfolding assms(2) using conjunct2 [OF True] by (intro lanes_differ_zero) simp
    show ?thesis
      unfolding scan_words_def using True k kk
      by (intro exI [of _ "list_all (\<lambda>b. b = first) (take 32 (drop k input))"] exI [of _ "k + 32"])
        (simp add: load_lanes_ok st d take_add [of k])
  next
    case False
    then show ?thesis unfolding scan_words_def using k by (intro exI [of _ u] exI [of _ k]) auto
  qed
qed

text \<open>
  The fused scan tells whether all bytes equal the first and absorbs exactly the prefix it reports,
  the whole input when the answer is yes, so the caller can resume hashing behind it.
\<close>

theorem scan_uniform_spec:
  assumes h: "xx_mem_len h = 0" "length (xx_mem h) = 32" "xx_total h + length input < 2 ^ 64"
  shows "\<exists>n h'. (scan_uniform_absorbing h input :: ('e, _) res)
      = Ok ((list_all (\<lambda>b. b = hd input) input, n), h')
    \<and> n \<le> length input \<and> (list_all (\<lambda>b. b = hd input) input \<longrightarrow> n = length input)
    \<and> (xx_write h (take n input) :: ('e, _) res) = Ok h'"
proof (cases input)
  case Nil
  then show ?thesis
    using h xx_write_whole [OF h(1,2), of "[]", where 'a = 'e]
    by (cases h) (simp add: scan_uniform_absorbing_def stripes_short)
next
  case (Cons first rest)
  let ?all = "list_all (\<lambda>b. b = hd input)"
  have hd: "hd input = first" by (simp add: Cons)
  obtain u i where s: "(scan_words input (ucast first * 0x0101010101010101) (xx_v h) :: ('e, _) res) = Ok (u, i, stripes (xx_v h) (take i input))"
    and i: "i mod 32 = 0" "i \<le> length input" and u0: "u \<longleftrightarrow> list_all (\<lambda>b. b = first) (take i input)"
    using scan_chunks [OF Cons refl, of "xx_v h"] by (elim exE conjE) (rule that)
  have u: "u \<longleftrightarrow> ?all (take i input)" using u0 by (simp only: hd)
  have all: "?all input \<longleftrightarrow> u \<and> ?all (drop i input)"
    unfolding u by (metis append_take_drop_id list_all_append)
  let ?h = "h\<lparr>xx_v := stripes (xx_v h) (take i input), xx_total := xx_total h + i\<rparr>"
  have m: "length (take i input) mod 32 = 0" "length (take i input) = i" using i by simp_all
  have run: "(scan_uniform_absorbing h input :: ('e, _) res) =
      (if \<not> u then Ok ((False, i), ?h)
       else if \<not> ?all (drop i input) then Ok ((False, i), ?h)
       else rbind (xx_absorb ?h (drop i input)) (\<lambda>h. rbind (count_bytes h (length (drop i input))) (\<lambda>h.
           Ok ((True, length input), h))))"
    using h i s by (simp add: scan_uniform_absorbing_def Cons count_bytes_def Let_def)
  show ?thesis
  proof (cases "?all input")
    case False
    then have "(scan_uniform_absorbing h input :: ('e, _) res) = Ok ((False, i), ?h)" using run all by auto
    moreover have "(xx_write h (take i input) :: ('e, _) res) = Ok ?h"
      using xx_write_whole [OF h(1,2) m(1)] h(3) i(2) by simp
    ultimately show ?thesis using False i(2) by (intro exI [of _ i] exI [of _ ?h]) simp
  next
    case True
    have st: "stripes (stripes (xx_v h) (take i input)) (drop i input) = stripes (xx_v h) input"
      by (simp only: stripes_append [OF m(1), symmetric] append_take_drop_id)
    have tl: "tail_of (drop i input) = tail_of input"
      using tail_append [OF m(1), of "drop i input"] by simp
    show ?thesis
      using True run all h i st tl
      by (intro exI [of _ "length input"]) (simp add: xx_absorb_bulk xx_write_def count_bytes_def)
  qed
qed

lemma scan_uniform_spec_witness:
  "\<exists>h'. (scan_uniform_absorbing (xx_new 0) (replicate 70 8) :: (unit, _) res) = Ok ((True, 70), h')
    \<and> (xx_write (xx_new 0) (replicate 70 8) :: (unit, _) res) = Ok h'"
  using scan_uniform_spec [of "xx_new 0" "replicate 70 8", where 'e = unit]
  by (auto simp add: xx_new_def list_all_iff)

end
