(* ===== verification/Ring_Buffer.thy ===== *)
theory Ring_Buffer
  imports Io
begin

text \<open>
  The ring buffer \<open>decoding/ringbuffer.rs\<close> behind the decoded history.  The allocation is a list of
  optional bytes, \<open>None\<close> where nothing was written yet, so that a read of uninitialized memory and
  every access outside the allocation is a \<open>Panic\<close>.  The chunk of \<open>copy_bytes_overshooting\<close> is the
  16 bytes of the SIMD targets.  A failing allocator is not modelled; \<open>Drop\<close> has no effect here.
\<close>

type_synonym memory = "u8 option list"

section \<open>Raw memory\<close>

definition mem_read :: "memory \<Rightarrow> nat \<Rightarrow> nat \<Rightarrow> ('e, bytes) res" where
  "mem_read mem p n =
     rbind (rassert (p + n \<le> length mem \<and> list_all (\<lambda>b. b \<noteq> None) (take n (drop p mem))))
       (\<lambda>_. Ok (map the (take n (drop p mem))))"

definition mem_write :: "memory \<Rightarrow> nat \<Rightarrow> bytes \<Rightarrow> ('e, memory) res" where
  "mem_write mem p bs = rbind (rassert (p + length bs \<le> length mem))
     (\<lambda>_. Ok (take p mem @ map Some bs @ drop (p + length bs) mem))"

definition COPY_AT_ONCE_SIZE :: nat where
  "COPY_AT_ONCE_SIZE = 16"

definition next_multiple_of :: "nat \<Rightarrow> nat \<Rightarrow> nat" where
  "next_multiple_of n k = k * ((n + k - 1) div k)"

primrec copy_words :: "memory \<Rightarrow> nat \<Rightarrow> nat \<Rightarrow> nat \<Rightarrow> ('e, memory) res" where
  "copy_words mem src dst 0 = Ok mem"
| "copy_words mem src dst (Suc k) =
     rbind (mem_read mem src COPY_AT_ONCE_SIZE) (\<lambda>w. rbind (mem_write mem dst w) (\<lambda>mem.
       copy_words mem (src + COPY_AT_ONCE_SIZE) (dst + COPY_AT_ONCE_SIZE) k))"

text \<open>\<open>src\<close> and \<open>dst\<close> are offsets with the lengths eligible for reading and writing.\<close>

definition copy_bytes_overshooting ::
  "memory \<Rightarrow> nat \<times> nat \<Rightarrow> nat \<times> nat \<Rightarrow> nat \<Rightarrow> ('e, memory) res" where
  "copy_bytes_overshooting mem src dst copy_at_least =
     (let min_buffer_size = min (snd src) (snd dst);
          copy_multiple = next_multiple_of copy_at_least COPY_AT_ONCE_SIZE
      in rbind
       (if min_buffer_size \<ge> COPY_AT_ONCE_SIZE \<and> copy_at_least \<le> COPY_AT_ONCE_SIZE then
          rbind (mem_read mem (fst src) COPY_AT_ONCE_SIZE) (\<lambda>w. mem_write mem (fst dst) w)
        else if min_buffer_size \<ge> copy_multiple then
          copy_words mem (fst src) (fst dst) (copy_multiple div COPY_AT_ONCE_SIZE)
        else rbind (mem_read mem (fst src) copy_at_least) (\<lambda>bs. mem_write mem (fst dst) bs)) (\<lambda>mem.
       rbind (mem_read mem (fst src) copy_at_least) (\<lambda>a. rbind (mem_read mem (fst dst) copy_at_least) (\<lambda>b.
       rbind (rassert (a = b)) (\<lambda>_. Ok mem)))))"

section \<open>The buffer and its cursors\<close>

record RingBuffer =
  rb_buf :: memory
  rb_cap :: nat
  rb_head :: nat
  rb_tail :: nat

definition wrap_add :: "nat \<Rightarrow> nat \<Rightarrow> nat \<Rightarrow> nat" where
  "wrap_add pos len cap = (let t = pos + len in if t \<ge> cap then t - cap else t)"

definition rb_new :: RingBuffer where
  "rb_new = \<lparr>rb_buf = [], rb_cap = 0, rb_head = 0, rb_tail = 0\<rparr>"

definition assert_cursors_in_bounds :: "RingBuffer \<Rightarrow> ('e, unit) res" where
  "assert_cursors_in_bounds rb = rassert (rb_cap rb = 0 \<or> rb_head rb < rb_cap rb \<and> rb_tail rb < rb_cap rb)"

definition data_slice_lengths :: "RingBuffer \<Rightarrow> nat \<times> nat" where
  "data_slice_lengths rb =
     (if rb_tail rb \<ge> rb_head rb then (rb_tail rb - rb_head rb, 0)
      else (rb_cap rb - rb_head rb, rb_tail rb))"

definition free_slice_lengths :: "RingBuffer \<Rightarrow> nat \<times> nat" where
  "free_slice_lengths rb =
     (let (len_after_tail, len_to_head) =
        (if rb_tail rb < rb_head rb then (rb_head rb - rb_tail rb, 0)
         else (rb_cap rb - rb_tail rb, rb_head rb))
      in (len_to_head, len_after_tail))"

definition rb_len :: "RingBuffer \<Rightarrow> nat" where
  "rb_len rb = (let (x, y) = data_slice_lengths rb in x + y)"

definition rb_free :: "RingBuffer \<Rightarrow> nat" where
  "rb_free rb = (let (x, y) = free_slice_lengths rb in (x + y) - 1)"

definition advance_tail :: "RingBuffer \<Rightarrow> nat \<Rightarrow> ('e, RingBuffer) res" where
  "advance_tail rb len =
     rbind (assert_cursors_in_bounds rb) (\<lambda>_.
     rbind (rassert (rb_cap rb = 0 \<or> rb_len rb + len < rb_cap rb)) (\<lambda>_.
     let rb = rb\<lparr>rb_tail := wrap_add (rb_tail rb) len (rb_cap rb)\<rparr> in
     rbind (assert_cursors_in_bounds rb) (\<lambda>_. Ok rb)))"

definition advance_head :: "RingBuffer \<Rightarrow> nat \<Rightarrow> ('e, RingBuffer) res" where
  "advance_head rb len =
     rbind (assert_cursors_in_bounds rb) (\<lambda>_.
     rbind (rassert (len \<le> rb_len rb)) (\<lambda>_.
     let rb = rb\<lparr>rb_head := wrap_add (rb_head rb) len (rb_cap rb)\<rparr> in
     rbind (assert_cursors_in_bounds rb) (\<lambda>_. Ok rb)))"

definition install_allocation :: "RingBuffer \<Rightarrow> memory \<Rightarrow> nat \<Rightarrow> nat \<Rightarrow> ('e, RingBuffer) res" where
  "install_allocation rb buf cap data_len =
     rbind (rassert (data_len < cap)) (\<lambda>_.
     let rb = rb\<lparr>rb_buf := buf, rb_cap := cap, rb_head := 0, rb_tail := data_len\<rparr> in
     rbind (assert_cursors_in_bounds rb) (\<lambda>_. Ok rb))"

definition rb_clear :: "RingBuffer \<Rightarrow> ('e, RingBuffer) res" where
  "rb_clear rb =
     (let rb = rb\<lparr>rb_head := 0, rb_tail := 0\<rparr> in
      rbind (assert_cursors_in_bounds rb) (\<lambda>_. Ok rb))"

text \<open>The two occupied and the two free sections, as offset and length.\<close>

definition data_slice_parts :: "RingBuffer \<Rightarrow> ('e, (nat \<times> nat) \<times> (nat \<times> nat)) res" where
  "data_slice_parts rb =
     rbind (assert_cursors_in_bounds rb) (\<lambda>_.
     let (len_after_head, len_to_tail) = data_slice_lengths rb in
     Ok ((rb_head rb, len_after_head), (0, len_to_tail)))"

definition free_slice_parts :: "RingBuffer \<Rightarrow> ('e, (nat \<times> nat) \<times> (nat \<times> nat)) res" where
  "free_slice_parts rb =
     rbind (assert_cursors_in_bounds rb) (\<lambda>_.
     let (len_to_head, len_after_tail) = free_slice_lengths rb in
     Ok ((rb_tail rb, len_after_tail), (0, len_to_head)))"

definition as_slices :: "RingBuffer \<Rightarrow> ('e, bytes \<times> bytes) res" where
  "as_slices rb =
     rbind (data_slice_parts rb) (\<lambda>(s1, s2).
     rbind (mem_read (rb_buf rb) (fst s1) (snd s1)) (\<lambda>a.
     rbind (mem_read (rb_buf rb) (fst s2) (snd s2)) (\<lambda>b. Ok (a, b))))"

section \<open>Growth\<close>

text \<open>\<open>usize::next_power_of_two\<close>, whose overflow is a panic.\<close>

definition next_power_of_two :: "nat \<Rightarrow> ('e, nat) res" where
  "next_power_of_two n =
     (let p = (if n \<le> 1 then 1 else 2 ^ Suc (ilog2 (n - 1)))
      in rbind (rassert (p < 2 ^ 64)) (\<lambda>_. Ok p))"

definition SLACK :: nat where
  "SLACK = 2 * (128 * 1024)"

definition grown_cap :: "nat \<Rightarrow> nat \<Rightarrow> ('e, nat) res" where
  "grown_cap cap required =
     (if required \<le> SLACK then
        rbind (next_power_of_two cap) (\<lambda>a. rbind (next_power_of_two required) (\<lambda>b. Ok (max a b)))
      else rbind (next_power_of_two (required - SLACK)) (\<lambda>p.
        rbind (rassert (p + SLACK < 2 ^ 64)) (\<lambda>_. Ok (p + SLACK))))"

definition reserve_amortized :: "RingBuffer \<Rightarrow> nat \<Rightarrow> ('e, RingBuffer) res" where
  "reserve_amortized rb amount =
     (let required = rb_cap rb + amount + 1 in
      rbind (rassert (required < 2 ^ 64)) (\<lambda>_.
      rbind (grown_cap (rb_cap rb) required) (\<lambda>new_cap.
      rbind (rassert (new_cap \<ge> required)) (\<lambda>_.
      rbind (rassert (new_cap < 2 ^ 63)) (\<lambda>_.
      let new_buf = replicate new_cap None in
      rbind
        (if rb_cap rb > 0 then
           rbind (data_slice_parts rb) (\<lambda>(s1, s2).
           rbind (mem_read (rb_buf rb) (fst s1) (snd s1)) (\<lambda>a.
           rbind (mem_write new_buf 0 a) (\<lambda>new_buf.
           rbind (mem_read (rb_buf rb) (fst s2) (snd s2)) (\<lambda>b.
           rbind (mem_write new_buf (snd s1) b) (\<lambda>new_buf.
             Ok (new_buf, snd s1 + snd s2))))))
         else Ok (new_buf, 0)) (\<lambda>(new_buf, data_len).
      install_allocation rb new_buf new_cap data_len))))))"

definition rb_reserve :: "RingBuffer \<Rightarrow> nat \<Rightarrow> ('e, RingBuffer) res" where
  "rb_reserve rb amount =
     (let free = rb_free rb in
      if free \<ge> amount then Ok rb else reserve_amortized rb (amount - free))"

section \<open>Appending and removing\<close>

definition push_back :: "RingBuffer \<Rightarrow> u8 \<Rightarrow> ('e, RingBuffer) res" where
  "push_back rb byte =
     rbind (rb_reserve rb 1) (\<lambda>rb.
     rbind (mem_write (rb_buf rb) (rb_tail rb) [byte]) (\<lambda>buf.
     advance_tail (rb\<lparr>rb_buf := buf\<rparr>) 1))"

definition rb_get :: "RingBuffer \<Rightarrow> nat \<Rightarrow> ('e, u8 option) res" where
  "rb_get rb idx =
     (if idx < rb_len rb then
        rbind (mem_read (rb_buf rb) (wrap_add (rb_head rb) idx (rb_cap rb)) 1) (\<lambda>bs. Ok (Some (hd bs)))
      else Ok None)"

text \<open>The two copies into the free sections, and the step of the tail behind them.\<close>

definition fill_free :: "RingBuffer \<Rightarrow> bytes \<Rightarrow> ('e, RingBuffer) res" where
  "fill_free rb data =
     (let len = length data in
      rbind (free_slice_parts rb) (\<lambda>(f1, f2).
      let in_f1 = min len (snd f1); in_f2 = len - in_f1 in
      rbind (if in_f1 > 0 then mem_write (rb_buf rb) (fst f1) (take in_f1 data) else Ok (rb_buf rb)) (\<lambda>buf.
      rbind (if in_f2 > 0 then mem_write buf (fst f2) (drop in_f1 data) else Ok buf) (\<lambda>buf.
      advance_tail (rb\<lparr>rb_buf := buf\<rparr>) len))))"

definition rb_extend :: "RingBuffer \<Rightarrow> bytes \<Rightarrow> ('e, RingBuffer) res" where
  "rb_extend rb data =
     (let len = length data in
      if len = 0 then Ok rb
      else rbind (rb_reserve rb len) (\<lambda>rb.
        rbind (rassert (rb_len rb + len < rb_cap rb)) (\<lambda>_.
        rbind (rassert (rb_free rb \<ge> len)) (\<lambda>_.
        rbind (free_slice_parts rb) (\<lambda>(f1, f2).
        rbind (rassert (snd f1 + snd f2 \<ge> len)) (\<lambda>_.
        fill_free rb data))))))"

definition extend_pre_reserved :: "RingBuffer \<Rightarrow> bytes \<Rightarrow> ('e, RingBuffer) res" where
  "extend_pre_reserved rb data =
     (if length data = 0 then Ok rb
      else rbind (rassert (rb_free rb \<ge> length data)) (\<lambda>_. fill_free rb data))"

definition drop_first_n :: "RingBuffer \<Rightarrow> nat \<Rightarrow> ('e, RingBuffer) res" where
  "drop_first_n rb amount =
     rbind (rassert (amount \<le> rb_len rb)) (\<lambda>_. advance_head rb (min amount (rb_len rb)))"

definition rb_extend_and_fill :: "RingBuffer \<Rightarrow> u8 \<Rightarrow> nat \<Rightarrow> ('e, RingBuffer) res" where
  "rb_extend_and_fill rb fill_with fill_length =
     (if fill_length = 0 then Ok rb
      else rbind (rb_reserve rb fill_length) (\<lambda>rb.
        rbind (free_slice_parts rb) (\<lambda>(p1, p2).
        rbind (rassert (snd p1 + snd p2 \<ge> fill_length)) (\<lambda>_.
        let fill1 = min (snd p1) fill_length in
        rbind (mem_write (rb_buf rb) (fst p1) (replicate fill1 fill_with)) (\<lambda>buf.
        rbind (if fill1 < fill_length then mem_write buf (fst p2) (replicate (fill_length - fill1) fill_with)
          else Ok buf) (\<lambda>buf.
        advance_tail (rb\<lparr>rb_buf := buf\<rparr>) fill_length))))))"

text \<open>The sections are zeroed, then filled by \<open>read_exact\<close>.\<close>

definition rb_extend_from_reader ::
  "'r reader \<Rightarrow> RingBuffer \<Rightarrow> 'r \<Rightarrow> nat \<Rightarrow> (ErrorKind, RingBuffer \<times> 'r) res" where
  "rb_extend_from_reader rd rb r fill_length =
     (if fill_length = 0 then Ok (rb, r)
      else rbind (rb_reserve rb fill_length) (\<lambda>rb.
        rbind (free_slice_parts rb) (\<lambda>(p1, p2).
        rbind (rassert (snd p1 + snd p2 \<ge> fill_length)) (\<lambda>_.
        let fill1 = min (snd p1) fill_length in
        rbind (mem_write (rb_buf rb) (fst p1) (replicate fill1 0)) (\<lambda>buf.
        rbind (read_exact rd r fill1) (\<lambda>(bs, r).
        rbind (mem_write buf (fst p1) bs) (\<lambda>buf.
        rbind
          (if fill1 < fill_length then
             rbind (mem_write buf (fst p2) (replicate (fill_length - fill1) 0)) (\<lambda>buf.
             rbind (read_exact rd r (fill_length - fill1)) (\<lambda>(bs, r).
             rbind (mem_write buf (fst p2) bs) (\<lambda>buf. Ok (buf, r))))
           else Ok (buf, r)) (\<lambda>(buf, r).
        rbind (advance_tail (rb\<lparr>rb_buf := buf\<rparr>) fill_length) (\<lambda>rb. Ok (rb, r))))))))))"

section \<open>Copying within the buffer\<close>

text \<open>A length that the source computes by a subtraction, which panics below zero.\<close>

definition rsub :: "nat \<Rightarrow> nat \<Rightarrow> ('e, nat) res" where
  "rsub a b = (if b \<le> a then Ok (a - b) else Panic)"

text \<open>Occupied section in one piece: the write may wrap.\<close>

definition within_contiguous :: "RingBuffer \<Rightarrow> nat \<Rightarrow> nat \<Rightarrow> ('e, memory) res" where
  "within_contiguous rb start len =
     (let after_tail = min len (rb_cap rb - rb_tail rb); s = rb_head rb + start in
      rbind (rsub (rb_tail rb) s) (\<lambda>s_len.
      rbind (copy_bytes_overshooting (rb_buf rb) (s, s_len) (rb_tail rb, rb_cap rb - rb_tail rb) after_tail) (\<lambda>buf.
      if after_tail < len then
        rbind (rsub s_len after_tail) (\<lambda>s_len.
        copy_bytes_overshooting buf (s + after_tail, s_len) (0, rb_head rb) (len - after_tail))
      else Ok buf)))"

text \<open>Occupied section wrapped, source behind the wrap.\<close>

definition within_wrapped :: "RingBuffer \<Rightarrow> nat \<Rightarrow> nat \<Rightarrow> ('e, memory) res" where
  "within_wrapped rb start len =
     (let s = wrap_add (rb_head rb) start (rb_cap rb) in
      rbind (rsub (rb_tail rb) s) (\<lambda>s_len. rbind (rsub (rb_head rb) (rb_tail rb)) (\<lambda>d_len.
      copy_bytes_overshooting (rb_buf rb) (s, s_len) (rb_tail rb, d_len) len)))"

text \<open>Occupied section wrapped, source starting before the wrap: the read may wrap.\<close>

definition within_split :: "RingBuffer \<Rightarrow> nat \<Rightarrow> nat \<Rightarrow> ('e, memory) res" where
  "within_split rb start len =
     (let s = rb_head rb + start in
      rbind (rsub (rb_cap rb) s) (\<lambda>s_len. rbind (rsub (rb_head rb) (rb_tail rb)) (\<lambda>d_len.
      let after_start = min len s_len in
      rbind (copy_bytes_overshooting (rb_buf rb) (s, s_len) (rb_tail rb, d_len) after_start) (\<lambda>buf.
      if after_start < len then
        rbind (rsub d_len after_start) (\<lambda>d_len.
        copy_bytes_overshooting buf (0, rb_tail rb) (rb_tail rb + after_start, d_len) (len - after_start))
      else Ok buf))))"

definition extend_from_within_unchecked :: "RingBuffer \<Rightarrow> nat \<Rightarrow> nat \<Rightarrow> ('e, RingBuffer) res" where
  "extend_from_within_unchecked rb start len =
     rbind (rassert (start + len \<le> rb_len rb)) (\<lambda>_.
     rbind (rassert (rb_free rb \<ge> len)) (\<lambda>_.
     rbind
       (if rb_head rb < rb_tail rb then within_contiguous rb start len
        else if rb_head rb + start > rb_cap rb then within_wrapped rb start len
        else within_split rb start len) (\<lambda>buf.
     advance_tail (rb\<lparr>rb_buf := buf\<rparr>) len)))"

definition extend_from_within :: "RingBuffer \<Rightarrow> nat \<Rightarrow> nat \<Rightarrow> ('e, RingBuffer) res" where
  "extend_from_within rb start len =
     rbind (rassert (start + len \<le> rb_len rb)) (\<lambda>_.
     rbind (rb_reserve rb len) (\<lambda>rb. extend_from_within_unchecked rb start len))"

end
