(* ===== verification/Ring_Refine.thy ===== *)
theory Ring_Refine
  imports Ring_Buffer
begin

text \<open>
  The ring buffer implements a byte list: its invariant, its abstraction, and for every operation
  that it succeeds within its documented precondition and acts on the list.  The proofs look at the
  memory through logical positions, so that the layouts of the copies meet in one append lemma.
\<close>

section \<open>Memory\<close>

definition mem_init :: "memory \<Rightarrow> nat \<Rightarrow> nat \<Rightarrow> bool" where
  "mem_init mem p n \<longleftrightarrow> p + n \<le> length mem \<and> (\<forall>i<n. mem ! (p + i) \<noteq> None)"

definition mem_bytes :: "memory \<Rightarrow> nat \<Rightarrow> nat \<Rightarrow> bytes" where
  "mem_bytes mem p n = map (\<lambda>i. the (mem ! (p + i))) [0..<n]"

lemma length_mem_bytes [simp]: "length (mem_bytes mem p n) = n"
  by (simp add: mem_bytes_def)

lemma nth_mem_bytes [simp]: "i < n \<Longrightarrow> mem_bytes mem p n ! i = the (mem ! (p + i))"
  by (simp add: mem_bytes_def)

lemma mem_init_nth: "mem_init mem p n \<Longrightarrow> p \<le> i \<Longrightarrow> i < p + n \<Longrightarrow> mem ! i \<noteq> None"
  unfolding mem_init_def by (metis le_add_diff_inverse nat_add_left_cancel_less)

lemma mem_read_ok: "mem_init mem p n \<Longrightarrow> mem_read mem p n = Ok (mem_bytes mem p n)"
proof -
  assume i: "mem_init mem p n"
  have "list_all (\<lambda>b. b \<noteq> None) (take n (drop p mem))"
    using i by (simp add: list_all_length mem_init_def)
  moreover have "map the (take n (drop p mem)) = mem_bytes mem p n"
  proof (rule nth_equalityI)
    show "length (map the (take n (drop p mem))) = length (mem_bytes mem p n)"
      using conjunct1 [OF i [unfolded mem_init_def]] by simp
  qed (use i in \<open>simp add: mem_init_def\<close>)
  ultimately show ?thesis using i by (simp add: mem_read_def mem_init_def)
qed

text \<open>The effect of a store, position by position.\<close>

definition stored :: "memory \<Rightarrow> nat \<Rightarrow> bytes \<Rightarrow> memory \<Rightarrow> bool" where
  "stored mem p bs mem' \<longleftrightarrow> length mem' = length mem
     \<and> (\<forall>i<length mem. mem' ! i = (if p \<le> i \<and> i < p + length bs then Some (bs ! (i - p)) else mem ! i))"

lemma mem_write_ok: "p + length bs \<le> length mem \<Longrightarrow> \<exists>mem'. (mem_write mem p bs :: ('e, _) res) = Ok mem' \<and> stored mem p bs mem'"
  unfolding mem_write_def stored_def by (auto simp: nth_append min_def)

lemma storedD:
  assumes "stored mem p bs mem'"
  shows "length mem' = length mem"
    "p \<le> i \<Longrightarrow> i < p + length bs \<Longrightarrow> i < length mem \<Longrightarrow> mem' ! i = Some (bs ! (i - p))"
    "i < p \<or> p + length bs \<le> i \<Longrightarrow> i < length mem \<Longrightarrow> mem' ! i = mem ! i"
  using assms by (auto simp: stored_def)

text \<open>The contract of an overshooting copy: the bytes arrive, nothing outside the target changes.\<close>

definition copied :: "memory \<Rightarrow> nat \<Rightarrow> nat \<Rightarrow> nat \<Rightarrow> nat \<Rightarrow> memory \<Rightarrow> bool" where
  "copied mem s d n room mem' \<longleftrightarrow> length mem' = length mem
     \<and> (\<forall>i<length mem. i < d \<or> d + room \<le> i \<longrightarrow> mem' ! i = mem ! i)
     \<and> (\<forall>i<n. mem' ! (d + i) = mem ! (s + i))"

lemma copiedD:
  assumes "copied mem s d n room mem'"
  shows "length mem' = length mem" "i < length mem \<Longrightarrow> i < d \<or> d + room \<le> i \<Longrightarrow> mem' ! i = mem ! i"
    "i < n \<Longrightarrow> mem' ! (d + i) = mem ! (s + i)"
  using assms by (auto simp: copied_def)

lemma copied_once:
  assumes "mem_init mem s k" "d + k \<le> length mem" "n \<le> k" "k \<le> room"
  shows "\<exists>mem'. (rbind (mem_read mem s k) (\<lambda>w. mem_write mem d w) :: ('e, _) res) = Ok mem' \<and> copied mem s d n room mem'"
proof -
  obtain mem' where m: "(mem_write mem d (mem_bytes mem s k) :: ('e, _) res) = Ok mem'" "stored mem d (mem_bytes mem s k) mem'"
    using mem_write_ok [of d "mem_bytes mem s k" mem] assms(2) by auto
  have "mem' ! (d + i) = mem ! (s + i)" if "i < n" for i
  proof -
    have "mem' ! (d + i) = Some (the (mem ! (s + i)))"
      using storedD(2) [OF m(2), of "d + i"] that assms(2,3) by simp
    moreover have "mem ! (s + i) \<noteq> None" using mem_init_nth [OF assms(1), of "s + i"] that assms(3) by simp
    ultimately show ?thesis by simp
  qed
  then have "copied mem s d n room mem'"
    using storedD [OF m(2)] assms(4) by (auto simp: copied_def)
  with m(1) show ?thesis by (simp add: mem_read_ok [OF assms(1)])
qed

lemma mem_init_keep:
  "mem_init mem s n \<Longrightarrow> length mem' = length mem \<Longrightarrow> (\<And>i. s \<le> i \<Longrightarrow> i < s + n \<Longrightarrow> mem' ! i = mem ! i) \<Longrightarrow> mem_init mem' s n"
  by (simp add: mem_init_def)

lemma copied_words:
  assumes "mem_init mem s (16 * k)" "d + 16 * k \<le> length mem" "s + 16 * k \<le> d \<or> d + 16 * k \<le> s"
  shows "\<exists>mem'. (copy_words mem s d k :: ('e, _) res) = Ok mem' \<and> copied mem s d (16 * k) (16 * k) mem'"
  using assms
proof (induction k arbitrary: mem s d)
  case 0
  then show ?case by (simp add: copied_def)
next
  case (Suc k)
  have i: "mem_init mem s 16" using Suc.prems(1) by (auto simp: mem_init_def)
  obtain m1 where m1: "(rbind (mem_read mem s 16) (\<lambda>w. mem_write mem d w) :: ('e, _) res) = Ok m1" "copied mem s d 16 16 m1"
    using copied_once [OF i, of d 16 16] Suc.prems(2) by auto
  have len: "length m1 = length mem" using copiedD(1) [OF m1(2)] .
  have keep: "m1 ! j = mem ! j" if "j < length mem" "j < d \<or> d + 16 \<le> j" for j
    using copiedD(2) [OF m1(2) that] .
  have "mem_init m1 (s + 16) (16 * k)"
    unfolding mem_init_def
  proof (intro conjI allI impI)
    show "s + 16 + 16 * k \<le> length m1" using Suc.prems(1) len by (simp add: mem_init_def)
    fix j assume j: "j < 16 * k"
    have "m1 ! (s + 16 + j) = mem ! (s + 16 + j)"
      using Suc.prems j by (intro keep) (auto simp: mem_init_def)
    moreover have "mem ! (s + 16 + j) \<noteq> None" using Suc.prems(1) j by (intro mem_init_nth) auto
    ultimately show "m1 ! (s + 16 + j) \<noteq> None" by simp
  qed
  moreover have "d + 16 + 16 * k \<le> length m1" "s + 16 + 16 * k \<le> d + 16 \<or> d + 16 + 16 * k \<le> s + 16"
    using Suc.prems(2,3) len by auto
  ultimately obtain m2 where m2: "(copy_words m1 (s + 16) (d + 16) k :: ('e, _) res) = Ok m2"
    "copied m1 (s + 16) (d + 16) (16 * k) (16 * k) m2"
    using Suc.IH by blast
  have "m2 ! (d + j) = mem ! (s + j)" if "j < 16 * Suc k" for j
  proof (cases "j < 16")
    case True
    then have "m2 ! (d + j) = m1 ! (d + j)" using copiedD(2) [OF m2(2)] Suc.prems(2) len by simp
    then show ?thesis using copiedD(3) [OF m1(2) True] by simp
  next
    case False
    define i where "i = j - 16"
    then have i: "j = 16 + i" "i < 16 * k" using False that by simp_all
    have "m2 ! (d + j) = m1 ! (s + 16 + i)" using copiedD(3) [OF m2(2) i(2)] by (simp add: i(1) ac_simps)
    also have "\<dots> = mem ! (s + 16 + i)" using Suc.prems i by (intro keep) (auto simp: mem_init_def)
    finally show ?thesis by (simp add: i(1) ac_simps)
  qed
  moreover have "m2 ! j = mem ! j" if "j < length mem" "j < d \<or> d + 16 * Suc k \<le> j" for j
    using copiedD(2) [OF m2(2), of j] keep [of j] that len by auto
  ultimately have "copied mem s d (16 * Suc k) (16 * Suc k) m2"
    using copiedD(1) [OF m2(2)] len by (simp add: copied_def)
  moreover have "(copy_words mem s d (Suc k) :: ('e, _) res) = Ok m2"
    using m1(1) m2(1) by (simp add: COPY_AT_ONCE_SIZE_def flip: rbind_assoc)
  ultimately show ?case by blast
qed

lemma copied_mono: "copied mem s d k room mem' \<Longrightarrow> n \<le> k \<Longrightarrow> room \<le> room' \<Longrightarrow> copied mem s d n room' mem'"
  by (auto simp: copied_def)

lemma mem_init_less: "mem_init mem s k \<Longrightarrow> n \<le> k \<Longrightarrow> mem_init mem s n"
  by (auto simp: mem_init_def)

lemma copied_init:
  assumes "copied mem s d n room mem'" "mem_init mem s n" "d + n \<le> length mem"
  shows "mem_init mem' d n" "mem_bytes mem' d n = mem_bytes mem s n"
proof -
  have "mem' ! (d + i) = mem ! (s + i)" "mem ! (s + i) \<noteq> None" if "i < n" for i
    using copiedD(3) [OF assms(1) that] mem_init_nth [OF assms(2), of "s + i"] that by simp_all
  then show "mem_init mem' d n" "mem_bytes mem' d n = mem_bytes mem s n"
    using assms(3) copiedD(1) [OF assms(1)] by (auto simp: mem_init_def mem_bytes_def)
qed

lemma copied_source:
  assumes "copied mem s d n room mem'" "mem_init mem s k" "s + k \<le> d \<or> d + room \<le> s"
  shows "mem_init mem' s k" "mem_bytes mem' s k = mem_bytes mem s k"
proof -
  have "mem' ! (s + i) = mem ! (s + i)" if "i < k" for i
    using copiedD(2) [OF assms(1), of "s + i"] assms(2,3) that by (auto simp: mem_init_def)
  then show "mem_init mem' s k" "mem_bytes mem' s k = mem_bytes mem s k"
    using assms(2) copiedD(1) [OF assms(1)] by (auto simp: mem_init_def mem_bytes_def)
qed

lemma overshoot_ok:
  assumes s: "mem_init mem s (min s_len d_len)" and d: "d + d_len \<le> length mem"
    and dis: "s + s_len \<le> d \<or> d + d_len \<le> s" and n: "n \<le> s_len" "n \<le> d_len"
  shows "\<exists>mem'. (copy_bytes_overshooting mem (s, s_len) (d, d_len) n :: ('e, _) res) = Ok mem'
    \<and> copied mem s d n d_len mem'"
proof -
  let ?m = "next_multiple_of n 16"
  have nm: "n \<le> min s_len d_len" using n by simp
  have m: "?m = 16 * (?m div 16)" "n \<le> ?m" by (simp_all add: next_multiple_of_def)
  let ?r = "(if min s_len d_len \<ge> 16 \<and> n \<le> 16 then rbind (mem_read mem s 16) (\<lambda>w. mem_write mem d w)
        else if min s_len d_len \<ge> ?m then copy_words mem s d (?m div 16)
        else rbind (mem_read mem s n) (\<lambda>bs. mem_write mem d bs)) :: ('e, _) res"
  consider "16 \<le> min s_len d_len" "n \<le> 16" | "\<not> (16 \<le> min s_len d_len \<and> n \<le> 16)" "?m \<le> min s_len d_len"
    | "\<not> (16 \<le> min s_len d_len \<and> n \<le> 16)" "\<not> ?m \<le> min s_len d_len" by blast
  then have "\<exists>mem'. ?r = Ok mem' \<and> copied mem s d n d_len mem'"
  proof cases
    case 1
    then have "mem_init mem s 16" using s by (auto intro: mem_init_less)
    then show ?thesis using 1 d copied_once [of mem s 16 d n d_len, where 'e = 'e] by simp
  next
    case 2
    have "mem_init mem s (16 * (?m div 16))" using 2(2) s m(1) by (auto intro: mem_init_less)
    then obtain mem' where "(copy_words mem s d (?m div 16) :: ('e, _) res) = Ok mem'" "copied mem s d ?m ?m mem'"
      using copied_words [of mem s "?m div 16" d, where 'e = 'e] 2(2) d dis m(1) by auto
    moreover from this have "copied mem s d n d_len mem'" using m(2) 2(2) by (auto intro: copied_mono)
    moreover have "?r = copy_words mem s d (?m div 16)" using 2 by (simp only: if_False if_True)
    ultimately show ?thesis by simp
  next
    case 3
    have "?r = rbind (mem_read mem s n) (\<lambda>bs. mem_write mem d bs)" using 3 by (simp only: if_False)
    then show ?thesis
      using copied_once [OF mem_init_less [OF s nm], of d n d_len, where 'e = 'e] d n(2) by simp
  qed
  then obtain mem' where r: "?r = Ok mem'" and c: "copied mem s d n d_len mem'" by blast
  have "s + n \<le> d \<or> d + d_len \<le> s" using dis n(1) by auto
  note src = copied_source [OF c mem_init_less [OF s nm] this]
  have "d + n \<le> length mem" using d n(2) by simp
  note dst = copied_init [OF c mem_init_less [OF s nm] this]
  have "(copy_bytes_overshooting mem (s, s_len) (d, d_len) n :: ('e, _) res) = Ok mem'"
    unfolding copy_bytes_overshooting_def COPY_AT_ONCE_SIZE_def Let_def fst_conv snd_conv r rbind.simps
    by (simp add: mem_read_ok [OF src(1)] mem_read_ok [OF dst(1)] src(2) dst(2))
  with c show ?thesis by blast
qed

section \<open>Invariant and abstraction\<close>

text \<open>Invariants 1 to 4 of the source: the byte at logical position \<open>i\<close> lies at \<open>rb_pos rb i\<close>.\<close>

definition rb_pos :: "RingBuffer \<Rightarrow> nat \<Rightarrow> nat" where
  "rb_pos rb i = wrap_add (rb_head rb) i (rb_cap rb)"

definition ring_inv :: "RingBuffer \<Rightarrow> bool" where
  "ring_inv rb \<longleftrightarrow> length (rb_buf rb) = rb_cap rb
     \<and> (if rb_cap rb = 0 then rb_head rb = 0 \<and> rb_tail rb = 0
        else rb_head rb < rb_cap rb \<and> rb_tail rb < rb_cap rb)
     \<and> (\<forall>i<rb_len rb. rb_buf rb ! rb_pos rb i \<noteq> None)"

definition ring_abs :: "RingBuffer \<Rightarrow> bytes" where
  "ring_abs rb = map (\<lambda>i. the (rb_buf rb ! rb_pos rb i)) [0..<rb_len rb]"

lemma length_ring_abs [simp]: "length (ring_abs rb) = rb_len rb"
  by (simp add: ring_abs_def)

lemma nth_ring_abs: "i < rb_len rb \<Longrightarrow> ring_abs rb ! i = the (rb_buf rb ! rb_pos rb i)"
  by (simp add: ring_abs_def)

lemma ring_invD:
  assumes "ring_inv rb"
  shows "length (rb_buf rb) = rb_cap rb" "rb_cap rb = 0 \<Longrightarrow> rb_head rb = 0 \<and> rb_tail rb = 0"
    "0 < rb_cap rb \<Longrightarrow> rb_head rb < rb_cap rb \<and> rb_tail rb < rb_cap rb"
    "i < rb_len rb \<Longrightarrow> rb_buf rb ! rb_pos rb i = Some (ring_abs rb ! i)"
  using assms by (auto simp: ring_inv_def nth_ring_abs split: if_splits)

lemmas ringD3 = ring_invD(3) and ringD4 = ring_invD(4)

lemma rb_len_eq: "rb_len rb = (if rb_head rb \<le> rb_tail rb then rb_tail rb - rb_head rb
    else rb_cap rb - rb_head rb + rb_tail rb)"
  by (simp add: rb_len_def data_slice_lengths_def)

lemma rb_len_buf [simp]: "rb_len (rb\<lparr>rb_buf := mem\<rparr>) = rb_len rb"
  by (simp add: rb_len_eq)

lemma rb_free_eq: "ring_inv rb \<Longrightarrow> rb_free rb = rb_cap rb - rb_len rb - 1"
  by (cases "rb_cap rb = 0")
    (auto simp: rb_free_def free_slice_lengths_def rb_len_eq dest: ring_invD(2,3))

lemma rb_len_less: "ring_inv rb \<Longrightarrow> 0 < rb_cap rb \<Longrightarrow> rb_len rb < rb_cap rb"
  by (auto simp: rb_len_eq dest!: ring_invD(3))

lemma rb_len_cap_0: "ring_inv rb \<Longrightarrow> rb_cap rb = 0 \<Longrightarrow> rb_len rb = 0"
  by (auto simp: rb_len_eq dest: ring_invD(2))

lemma cursors_ok: "ring_inv rb \<Longrightarrow> assert_cursors_in_bounds rb = Ok ()"
  by (auto simp: assert_cursors_in_bounds_def dest: ring_invD(3))

lemma rb_pos_less: "ring_inv rb \<Longrightarrow> i < rb_cap rb \<Longrightarrow> rb_pos rb i < rb_cap rb"
  by (auto simp: rb_pos_def wrap_add_def Let_def dest: ring_invD(3))

lemma rb_pos_eq: "rb_pos rb i = (if rb_head rb + i < rb_cap rb then rb_head rb + i else rb_head rb + i - rb_cap rb)"
  by (simp add: rb_pos_def wrap_add_def Let_def)

text \<open>The logical positions behind the content: the free sections in writing order.\<close>

lemma free_pos:
  assumes "ring_inv rb" "j < rb_cap rb - rb_len rb"
  shows "rb_pos rb (rb_len rb + j) = (if rb_tail rb + j < rb_cap rb then rb_tail rb + j else rb_tail rb + j - rb_cap rb)"
  using assms(2) ring_invD(3) [OF assms(1)] by (auto simp: rb_pos_eq rb_len_eq)

lemma pos_distinct:
  "ring_inv rb \<Longrightarrow> i < rb_cap rb \<Longrightarrow> j < rb_cap rb \<Longrightarrow> rb_pos rb i = rb_pos rb j \<longleftrightarrow> i = j"
  using ring_invD(3) [of rb] by (auto simp: rb_pos_eq)

text \<open>The outcome of an append without reallocation.\<close>

definition ring_appends :: "RingBuffer \<Rightarrow> bytes \<Rightarrow> ('e, RingBuffer) res \<Rightarrow> bool" where
  "ring_appends rb bs r \<longleftrightarrow> (\<exists>rb'. r = Ok rb' \<and> ring_inv rb' \<and> ring_abs rb' = ring_abs rb @ bs \<and> rb_cap rb' = rb_cap rb)"

text \<open>Every append ends here: the old bytes are kept, the new ones stand behind them.\<close>

lemma ring_append:
  assumes inv: "ring_inv rb" and len: "length mem = rb_cap rb"
    and keep: "\<And>i. i < rb_len rb \<Longrightarrow> mem ! rb_pos rb i = rb_buf rb ! rb_pos rb i"
    and new: "\<And>j. j < length bs \<Longrightarrow> mem ! rb_pos rb (rb_len rb + j) = Some (bs ! j)"
    and room: "length bs \<le> rb_free rb"
  shows "ring_appends rb bs (advance_tail (rb\<lparr>rb_buf := mem\<rparr>) (length bs))"
proof (cases "rb_cap rb = 0")
  case True
  then have "bs = []" "mem = []" using room len rb_free_eq [OF inv] by simp_all
  with True ring_invD [OF inv] rb_len_cap_0 [OF inv True] show ?thesis
    unfolding ring_appends_def
    by (intro exI [of _ rb] conjI)
      (auto simp: advance_tail_def assert_cursors_in_bounds_def wrap_add_def Let_def ring_inv_def inv)
next
  case False
  let ?rb = "rb\<lparr>rb_buf := mem, rb_tail := wrap_add (rb_tail rb) (length bs) (rb_cap rb)\<rparr>"
  have c: "rb_head rb < rb_cap rb" "rb_tail rb < rb_cap rb" using ring_invD(3) [OF inv] False by auto
  have l: "rb_len rb + length bs < rb_cap rb"
    using room rb_free_eq [OF inv] rb_len_less [OF inv] False by linarith
  have l': "rb_len ?rb = rb_len rb + length bs"
    using l c by (auto simp: rb_len_eq wrap_add_def Let_def split: if_splits)
  have t: "wrap_add (rb_tail rb) (length bs) (rb_cap rb) < rb_cap rb"
    using c l by (auto simp: wrap_add_def Let_def rb_len_eq split: if_splits)
  have pos: "rb_pos ?rb i = rb_pos rb i" for i by (simp add: rb_pos_def)
  have at: "mem ! rb_pos rb i = Some ((ring_abs rb @ bs) ! i)" if "i < rb_len rb + length bs" for i
  proof (cases "i < rb_len rb")
    case True
    then show ?thesis using keep ring_invD(4) [OF inv True] by (simp add: nth_append)
  next
    case False
    then obtain j where "i = rb_len rb + j" by (metis le_add_diff_inverse not_less)
    then show ?thesis using new [of j] that by (simp add: nth_append)
  qed
  have "advance_tail (rb\<lparr>rb_buf := mem\<rparr>) (length bs) = Ok ?rb"
    using c l t by (simp add: advance_tail_def assert_cursors_in_bounds_def Let_def)
  moreover have "ring_inv ?rb"
    using len c t l' at False by (auto simp: ring_inv_def pos)
  moreover have "ring_abs ?rb = ring_abs rb @ bs"
    by (rule nth_equalityI) (simp_all add: l' nth_ring_abs pos at)
  ultimately show ?thesis by (auto simp: ring_appends_def)
qed

section \<open>Appends into the free sections\<close>

lemma stored_nil: "stored mem p [] mem"
  by (auto simp: stored_def)

lemma stored_again: "stored mem p as m1 \<Longrightarrow> stored m1 p bs m2 \<Longrightarrow> length as = length bs \<Longrightarrow> stored mem p bs m2"
  by (auto simp: stored_def)

lemma free_parts_ok:
  "ring_inv rb \<Longrightarrow> free_slice_parts rb = Ok ((rb_tail rb, if rb_tail rb < rb_head rb then rb_head rb - rb_tail rb else rb_cap rb - rb_tail rb),
     (0, if rb_tail rb < rb_head rb then 0 else rb_head rb))"
  by (simp add: free_slice_parts_def free_slice_lengths_def cursors_ok)

abbreviation first_free :: "RingBuffer \<Rightarrow> nat" where
  "first_free rb \<equiv> (if rb_tail rb < rb_head rb then rb_head rb - rb_tail rb else rb_cap rb - rb_tail rb)"

lemma free_room:
  assumes "ring_inv rb" "n \<le> rb_free rb"
  shows "rb_tail rb + min n (first_free rb) \<le> rb_cap rb" "n - first_free rb \<le> rb_head rb"
    "n \<le> first_free rb + (if rb_tail rb < rb_head rb then 0 else rb_head rb)"
    "0 < n - first_free rb \<Longrightarrow> rb_head rb \<le> rb_tail rb \<and> n - first_free rb < rb_head rb"
    "rb_head rb \<le> rb_cap rb"
  using ring_invD(2,3) [OF assms(1)] assms(2)
  by (cases "rb_cap rb = 0"; auto simp: rb_free_eq [OF assms(1)] rb_len_eq split: if_splits)+

lemma rest_room:
  assumes "ring_inv rb" "n \<le> rb_free rb" "k = min n (first_free rb)"
  shows "n - k = 0 \<or> rb_head rb \<le> rb_tail rb \<and> n - k < rb_head rb"
proof (cases "n \<le> first_free rb")
  case False
  have k: "k = first_free rb" unfolding assms(3) by (rule min_absorb2) (use False in linarith)
  have "0 < n - first_free rb" using False by linarith
  from free_room(4) [OF assms(1,2) this] show ?thesis unfolding k by blast
next
  case True
  then show ?thesis unfolding assms(3) by (simp only: min_absorb1 diff_self_eq_0 simp_thms)
qed

lemma data_pos:
  assumes "ring_inv rb" "i < rb_len rb"
  shows "rb_head rb \<le> rb_tail rb \<Longrightarrow> rb_head rb \<le> rb_pos rb i \<and> rb_pos rb i < rb_tail rb"
    "rb_tail rb < rb_head rb \<Longrightarrow> rb_pos rb i < rb_tail rb \<or> rb_head rb \<le> rb_pos rb i"
    "rb_pos rb i < rb_cap rb"
proof -
  have c: "0 < rb_cap rb" using assms rb_len_cap_0 [OF assms(1)] by (cases "rb_cap rb = 0") simp_all
  note cur = ring_invD(3) [OF assms(1) c]
  show "rb_head rb \<le> rb_pos rb i \<and> rb_pos rb i < rb_tail rb" if "rb_head rb \<le> rb_tail rb"
  proof -
    have "rb_head rb + i < rb_tail rb" using assms(2) that by (simp add: rb_len_eq less_diff_conv add.commute)
    then show ?thesis using cur by (simp add: rb_pos_eq)
  qed
  show "rb_tail rb < rb_head rb \<Longrightarrow> rb_pos rb i < rb_tail rb \<or> rb_head rb \<le> rb_pos rb i"
    using assms(2) cur unfolding rb_pos_eq rb_len_eq by (cases "rb_head rb + i < rb_cap rb"; simp; arith)
  show "rb_pos rb i < rb_cap rb"
    using assms(2) rb_len_less [OF assms(1) c] by (intro rb_pos_less [OF assms(1)]) simp
qed

lemma two_stores:
  assumes inv: "ring_inv rb" and room: "length data \<le> rb_free rb" and k: "k = min (length data) (first_free rb)"
    and m1: "stored (rb_buf rb) (rb_tail rb) (take k data) m1" and m2: "stored m1 0 (drop k data) m2"
  shows "ring_appends rb data (advance_tail (rb\<lparr>rb_buf := m2\<rparr>) (length data))"
proof (rule ring_append [OF inv _ _ _ room])
  note fr = free_room [OF inv room]
  have cap: "length (rb_buf rb) = rb_cap rb" by (rule ring_invD(1) [OF inv])
  show len: "length m2 = rb_cap rb" using storedD(1) [OF m1] storedD(1) [OF m2] cap by simp
  fix i assume i: "i < rb_len rb"
  note pos = data_pos [OF inv i]
  have "length data - k \<le> rb_pos rb i" using rest_room [OF inv room k] pos(1) by auto
  then have "m2 ! rb_pos rb i = m1 ! rb_pos rb i"
    using pos(3) storedD(1) [OF m1] cap by (intro storedD(3) [OF m2]) simp_all
  also have "\<dots> = rb_buf rb ! rb_pos rb i"
  proof (rule storedD(3) [OF m1])
    have "k \<le> length data" "k \<le> first_free rb" by (simp_all add: k)
    then show "rb_pos rb i < rb_tail rb \<or> rb_tail rb + length (take k data) \<le> rb_pos rb i"
      using pos(1,2) by (cases "rb_tail rb < rb_head rb") auto
  qed (use pos(3) cap in simp)
  finally show "m2 ! rb_pos rb i = rb_buf rb ! rb_pos rb i" .
next
  note fr = free_room [OF inv room]
  have cap: "length (rb_buf rb) = rb_cap rb" "length m1 = rb_cap rb"
    using ring_invD(1) [OF inv] storedD(1) [OF m1] by simp_all
  fix j assume j: "j < length data"
  then have f: "j < rb_free rb" using room by simp
  then have jl: "j < rb_cap rb - rb_len rb" "0 < rb_cap rb" using rb_free_eq [OF inv] by simp_all
  note pos = free_pos [OF inv jl(1)]
  have c: "rb_tail rb < rb_cap rb" using ring_invD(3) [OF inv jl(2)] by simp
  show "m2 ! rb_pos rb (rb_len rb + j) = Some (data ! j)"
  proof (cases "j < k")
    case True
    then have jj: "rb_tail rb + j < rb_cap rb" using fr(1) by (auto simp: k)
    have "m2 ! (rb_tail rb + j) = m1 ! (rb_tail rb + j)"
      using jj cap rest_room [OF inv room k] by (intro storedD(3) [OF m2]) auto
    also have "\<dots> = Some (take k data ! j)"
      using storedD(2) [OF m1, of "rb_tail rb + j"] True j jj cap by simp
    finally show ?thesis using True jj by (simp add: pos)
  next
    case False
    then have "\<not> length data \<le> k" using j by simp
    then have n: "rb_head rb \<le> rb_tail rb" "j - k < rb_head rb" "k = rb_cap rb - rb_tail rb"
      using rest_room [OF inv room k] j by (simp_all add: k min_def split: if_splits)
    have "rb_pos rb (rb_len rb + j) = j - k" using False n(3) c unfolding pos by auto
    moreover have "m2 ! (j - k) = Some (drop k data ! (j - k))"
      using storedD(2) [OF m2, of "j - k"] False j n(2) c n(1) cap by simp
    ultimately show ?thesis using False j by simp
  qed
qed

lemma fill_free_ok:
  assumes inv: "ring_inv rb" and room: "length data \<le> rb_free rb"
  shows "ring_appends rb data (fill_free rb data :: ('e, _) res)"
proof -
  define k where "k = min (length data) (first_free rb)"
  note fr = free_room [OF inv room]
  have cap: "length (rb_buf rb) = rb_cap rb" by (rule ring_invD(1) [OF inv])
  have kk: "rb_tail rb + k \<le> rb_cap rb" "k \<le> length data" using fr(1) by (simp_all add: k_def)
  have "\<exists>m1. (if 0 < k then mem_write (rb_buf rb) (rb_tail rb) (take k data) else Ok (rb_buf rb) :: ('e, _) res) = Ok m1
      \<and> stored (rb_buf rb) (rb_tail rb) (take k data) m1"
    using mem_write_ok [of "rb_tail rb" "take k data" "rb_buf rb", where 'e = 'e] kk cap
    by (cases "0 < k") (simp_all add: stored_nil)
  then obtain m1 where m1: "(if 0 < k then mem_write (rb_buf rb) (rb_tail rb) (take k data) else Ok (rb_buf rb) :: ('e, _) res) = Ok m1"
    "stored (rb_buf rb) (rb_tail rb) (take k data) m1" by blast
  have "length data - k \<le> length m1"
    using rest_room [OF inv room k_def] storedD(1) [OF m1(2)] cap fr(5) by linarith
  then have "\<exists>m2. (if 0 < length data - k then mem_write m1 0 (drop k data) else Ok m1 :: ('e, _) res) = Ok m2
      \<and> stored m1 0 (drop k data) m2"
    using mem_write_ok [of 0 "drop k data" m1, where 'e = 'e]
    by (cases "0 < length data - k") (simp_all add: stored_nil)
  then obtain m2 where m2: "(if 0 < length data - k then mem_write m1 0 (drop k data) else Ok m1 :: ('e, _) res) = Ok m2"
    "stored m1 0 (drop k data) m2" by blast
  have "(fill_free rb data :: ('e, _) res) = advance_tail (rb\<lparr>rb_buf := m2\<rparr>) (length data)"
    unfolding fill_free_def Let_def free_parts_ok [OF inv] rbind.simps prod.case fst_conv snd_conv
      k_def [symmetric] m1(1) m2(1) ..
  then show ?thesis using two_stores [OF inv room k_def m1(2) m2(2), where 'a = 'e] by simp
qed

section \<open>Growth\<close>

lemma npo2_bounds:
  assumes "n \<le> 2 ^ 62"
  shows "\<exists>p. (next_power_of_two n :: ('e, _) res) = Ok p \<and> n \<le> p \<and> p \<le> 2 * n + 1 \<and> p \<le> 2 ^ 62"
proof (cases "n \<le> 1")
  case True
  then show ?thesis by (intro exI [of _ 1]) (simp add: next_power_of_two_def)
next
  case False
  let ?p = "2 ^ Suc (ilog2 (n - 1)) :: nat"
  have "n - 1 < ?p" by (rule ilog2_upper)
  then have "n \<le> ?p" by linarith
  moreover have "2 ^ ilog2 (n - 1) \<le> n - 1" by (rule ilog2_lower) (use False in simp)
  then have "?p \<le> 2 * n + 1" unfolding power_Suc by linarith
  moreover have "ilog2 (n - 1) < 62" using False assms by (intro ilog2_less) simp_all
  then have "?p \<le> 2 ^ 62" by (intro power_increasing) simp_all
  ultimately show ?thesis using False by (intro exI [of _ ?p]) (simp add: next_power_of_two_def)
qed

lemma grown_cap_ok:
  assumes "cap < required" "required \<le> 2 ^ 62"
  shows "\<exists>c. (grown_cap cap required :: ('e, _) res) = Ok c \<and> required \<le> c \<and> c \<le> 2 * required + SLACK \<and> c < 2 ^ 63"
proof (cases "required \<le> SLACK")
  case True
  obtain a where a: "(next_power_of_two cap :: ('e, _) res) = Ok a" "a \<le> 2 * cap + 1" "a \<le> 2 ^ 62"
    using npo2_bounds [of cap, where 'e = 'e] assms by auto
  obtain b where b: "(next_power_of_two required :: ('e, _) res) = Ok b" "required \<le> b" "b \<le> 2 * required + 1" "b \<le> 2 ^ 62"
    using npo2_bounds [OF assms(2), where 'e = 'e] by blast
  show ?thesis using True a b assms by (auto simp: grown_cap_def SLACK_def max_def)
next
  case False
  then have "required - SLACK \<le> 2 ^ 62" using assms by simp
  from npo2_bounds [OF this] obtain p where p: "(next_power_of_two (required - SLACK) :: ('e, _) res) = Ok p"
    "required - SLACK \<le> p" "p \<le> 2 * (required - SLACK) + 1" "p \<le> 2 ^ 62" by blast
  show ?thesis using False p assms by (auto simp: grown_cap_def SLACK_def)
qed

lemma data_parts_ok:
  assumes inv: "ring_inv rb"
  obtains n1 n2 where "data_slice_parts rb = Ok ((rb_head rb, n1), (0, n2))"
    "n1 + n2 = rb_len rb" "mem_init (rb_buf rb) (rb_head rb) n1" "mem_init (rb_buf rb) 0 n2"
    "ring_abs rb = mem_bytes (rb_buf rb) (rb_head rb) n1 @ mem_bytes (rb_buf rb) 0 n2"
proof -
  obtain n1 n2 where n: "data_slice_lengths rb = (n1, n2)" by (cases "data_slice_lengths rb")
  have l: "n1 + n2 = rb_len rb" using n by (simp add: rb_len_def)
  have cap: "length (rb_buf rb) = rb_cap rb" by (rule ring_invD(1) [OF inv])
  have p1: "rb_pos rb i = rb_head rb + i \<and> rb_head rb + i < rb_cap rb" if "i < n1" for i
    using that n ring_invD(2,3) [OF inv]
    by (cases "rb_cap rb = 0") (auto simp: data_slice_lengths_def rb_pos_eq split: if_splits)
  have p2: "rb_pos rb (n1 + i) = i \<and> i < rb_cap rb" if "i < n2" for i
    using that n ring_invD(2,3) [OF inv]
    by (cases "rb_cap rb = 0") (auto simp: data_slice_lengths_def rb_pos_eq split: if_splits)
  have at: "rb_buf rb ! rb_pos rb i = Some (ring_abs rb ! i)" if "i < n1 + n2" for i
    using ring_invD(4) [OF inv] that l by simp
  have i1: "rb_buf rb ! (rb_head rb + i) = Some (ring_abs rb ! i)" if "i < n1" for i
    using at [of i] p1 [OF that] that by simp
  have i2: "rb_buf rb ! i = Some (ring_abs rb ! (n1 + i))" if "i < n2" for i
    using at [of "n1 + i"] p2 [OF that] that by simp
  have "rb_head rb + n1 \<le> rb_cap rb" "n2 \<le> rb_cap rb"
    using n ring_invD(2,3) [OF inv]
    by (cases "rb_cap rb = 0"; auto simp: data_slice_lengths_def split: if_splits)+
  then have m: "mem_init (rb_buf rb) (rb_head rb) n1" "mem_init (rb_buf rb) 0 n2"
    using i1 i2 cap by (simp_all add: mem_init_def)
  have "ring_abs rb = mem_bytes (rb_buf rb) (rb_head rb) n1 @ mem_bytes (rb_buf rb) 0 n2"
  proof (rule nth_equalityI)
    fix i assume "i < length (ring_abs rb)"
    then have "i < n1 \<or> n1 \<le> i \<and> i - n1 < n2" using l by auto
    then show "ring_abs rb ! i = (mem_bytes (rb_buf rb) (rb_head rb) n1 @ mem_bytes (rb_buf rb) 0 n2) ! i"
      using i1 [of i] i2 [of "i - n1"] by (auto simp: nth_append)
  qed (simp add: l)
  moreover have "data_slice_parts rb = Ok ((rb_head rb, n1), (0, n2))"
    by (simp add: data_slice_parts_def cursors_ok [OF inv] n)
  ultimately show ?thesis using that l m by blast
qed

lemma fresh_ring:
  assumes "length mem = c" "length bs < c" "\<And>i. i < length bs \<Longrightarrow> mem ! i = Some (bs ! i)"
  shows "ring_inv \<lparr>rb_buf = mem, rb_cap = c, rb_head = 0, rb_tail = length bs\<rparr>"
    "ring_abs \<lparr>rb_buf = mem, rb_cap = c, rb_head = 0, rb_tail = length bs\<rparr> = bs"
    "rb_len \<lparr>rb_buf = mem, rb_cap = c, rb_head = 0, rb_tail = length bs\<rparr> = length bs"
proof -
  show l: "rb_len \<lparr>rb_buf = mem, rb_cap = c, rb_head = 0, rb_tail = length bs\<rparr> = length bs"
    by (simp add: rb_len_eq)
  have p: "rb_pos \<lparr>rb_buf = mem, rb_cap = c, rb_head = 0, rb_tail = length bs\<rparr> i = i" if "i < length bs" for i
    using that assms(2) by (simp add: rb_pos_eq)
  show "ring_inv \<lparr>rb_buf = mem, rb_cap = c, rb_head = 0, rb_tail = length bs\<rparr>"
    using assms p l by (auto simp: ring_inv_def)
  show "ring_abs \<lparr>rb_buf = mem, rb_cap = c, rb_head = 0, rb_tail = length bs\<rparr> = bs"
    using assms p l by (intro nth_equalityI) (simp_all add: nth_ring_abs)
qed

lemma reserve_amortized_ok:
  assumes inv: "ring_inv rb" and am: "rb_free rb < n" "rb_len rb + n + 2 \<le> 2 ^ 62"
  shows "\<exists>rb'. (reserve_amortized rb (n - rb_free rb) :: ('e, _) res) = Ok rb' \<and> ring_inv rb' \<and> ring_abs rb' = ring_abs rb
    \<and> n \<le> rb_free rb' \<and> rb_cap rb' \<le> 2 * (rb_len rb + n + 2) + SLACK"
proof -
  let ?r = "rb_cap rb + (n - rb_free rb) + 1"
  have r: "?r \<le> rb_len rb + n + 2" "rb_len rb + n < ?r" "rb_cap rb < ?r"
    using am(1) rb_free_eq [OF inv] rb_len_less [OF inv] rb_len_cap_0 [OF inv]
    by (cases "rb_cap rb = 0"; simp)+
  then obtain c where c: "(grown_cap (rb_cap rb) ?r :: ('e, _) res) = Ok c" "?r \<le> c"
    "c \<le> 2 * ?r + SLACK" "c < 2 ^ 63"
    using grown_cap_ok [of "rb_cap rb" ?r, where 'e = 'e] am(2) by (meson le_trans)
  have r64: "?r < 2 ^ 64" using r(1) am(2) by simp
  let ?bs = "ring_abs rb"
  have lc: "rb_len rb < c" using r(2) c(2) by linarith
  have "\<exists>mem. (if 0 < rb_cap rb then
           rbind (data_slice_parts rb) (\<lambda>(s1, s2).
           rbind (mem_read (rb_buf rb) (fst s1) (snd s1)) (\<lambda>a.
           rbind (mem_write (replicate c None) 0 a) (\<lambda>new_buf.
           rbind (mem_read (rb_buf rb) (fst s2) (snd s2)) (\<lambda>b.
           rbind (mem_write new_buf (snd s1) b) (\<lambda>new_buf.
             Ok (new_buf, snd s1 + snd s2))))))
         else Ok (replicate c None, 0) :: ('e, _) res) = Ok (mem, length ?bs)
     \<and> length mem = c \<and> (\<forall>i<length ?bs. mem ! i = Some (?bs ! i))"
  proof (cases "rb_cap rb = 0")
    case True
    then show ?thesis using rb_len_cap_0 [OF inv True] by simp
  next
    case False
    obtain n1 n2 where d: "(data_slice_parts rb :: ('e, _) res) = Ok ((rb_head rb, n1), (0, n2))"
      "n1 + n2 = rb_len rb" "mem_init (rb_buf rb) (rb_head rb) n1" "mem_init (rb_buf rb) 0 n2"
      "?bs = mem_bytes (rb_buf rb) (rb_head rb) n1 @ mem_bytes (rb_buf rb) 0 n2"
      by (rule data_parts_ok [OF inv])
    let ?a = "mem_bytes (rb_buf rb) (rb_head rb) n1" and ?b = "mem_bytes (rb_buf rb) 0 n2"
    obtain m1 where m1: "(mem_write (replicate c None) 0 ?a :: ('e, _) res) = Ok m1" "stored (replicate c None) 0 ?a m1"
      using mem_write_ok [of 0 ?a "replicate c None", where 'e = 'e] d(2) lc by auto
    have l1: "length m1 = c" using storedD(1) [OF m1(2)] by simp
    obtain m2 where m2: "(mem_write m1 n1 ?b :: ('e, _) res) = Ok m2" "stored m1 n1 ?b m2"
      using mem_write_ok [of n1 ?b m1, where 'e = 'e] d(2) lc l1 by auto
    have "m2 ! i = Some (?bs ! i)" if i: "i < length ?bs" for i
    proof (cases "i < n1")
      case True
      have "m2 ! i = m1 ! i" using True i l1 lc by (intro storedD(3) [OF m2(2)]) simp_all
      also have "\<dots> = Some (?a ! i)" using storedD(2) [OF m1(2), of i] True i lc by simp
      finally show ?thesis using True by (simp add: d(5) nth_append)
    next
      case False
      have "m2 ! i = Some (?b ! (i - n1))" using False i d(2) l1 lc by (intro storedD(2) [OF m2(2)]) simp_all
      then show ?thesis using False by (simp add: d(5) nth_append)
    qed
    then show ?thesis
      using False d(2) storedD(1) [OF m2(2)] l1
      by (intro exI [of _ m2]) (simp add: d(1) mem_read_ok [OF d(3)] mem_read_ok [OF d(4)] m1(1) m2(1))
  qed
  then obtain mem where mem: "(if 0 < rb_cap rb then
           rbind (data_slice_parts rb) (\<lambda>(s1, s2).
           rbind (mem_read (rb_buf rb) (fst s1) (snd s1)) (\<lambda>a.
           rbind (mem_write (replicate c None) 0 a) (\<lambda>new_buf.
           rbind (mem_read (rb_buf rb) (fst s2) (snd s2)) (\<lambda>b.
           rbind (mem_write new_buf (snd s1) b) (\<lambda>new_buf.
             Ok (new_buf, snd s1 + snd s2))))))
         else Ok (replicate c None, 0) :: ('e, _) res) = Ok (mem, length ?bs)"
    and m: "length mem = c" "\<And>i. i < length ?bs \<Longrightarrow> mem ! i = Some (?bs ! i)" by blast
  let ?rb = "\<lparr>rb_buf = mem, rb_cap = c, rb_head = 0, rb_tail = length ?bs\<rparr>"
  have lc': "length ?bs < c" using lc by simp
  note fresh = fresh_ring [OF m(1) lc' m(2)]
  have "(reserve_amortized rb (n - rb_free rb) :: ('e, _) res) = install_allocation rb mem c (length ?bs)"
    unfolding reserve_amortized_def Let_def c(1) rbind.simps rbind_rassert mem prod.case
    using r64 c(2,4) by simp
  also have "\<dots> = Ok ?rb"
    using lc' by (cases rb) (simp add: install_allocation_def assert_cursors_in_bounds_def Let_def)
  finally show ?thesis
    using fresh c(2,3) r rb_free_eq [OF fresh(1)] by (intro exI [of _ ?rb]) auto
qed

lemma reserve_refines_holds:
  assumes "ring_inv rb" "rb_len rb + n + 2 \<le> 2 ^ 62"
  shows "\<exists>rb'. (rb_reserve rb n :: ('e, _) res) = Ok rb' \<and> ring_inv rb' \<and> ring_abs rb' = ring_abs rb
    \<and> n \<le> rb_free rb' \<and> rb_cap rb' \<le> max (rb_cap rb) (2 * (rb_len rb + n + 2) + SLACK)"
proof (cases "n \<le> rb_free rb")
  case True
  then show ?thesis using assms(1) by (simp add: rb_reserve_def)
next
  case False
  then have "rb_free rb < n" by simp
  from reserve_amortized_ok [OF assms(1) this assms(2), where 'e = 'e] False show ?thesis
    by (auto simp: rb_reserve_def)
qed

text \<open>
  C26.  Reserving keeps the content, makes the room, and allocates at most twice the content with the
  demand plus the slack of two blocks, whatever the capacity was.
\<close>

theorem reserve_refines:
  assumes "ring_inv rb" "rb_len rb + n + 2 \<le> 2 ^ 62"
  shows "\<exists>rb'. (rb_reserve rb n :: ('e, _) res) = Ok rb' \<and> ring_inv rb' \<and> ring_abs rb' = ring_abs rb
    \<and> n \<le> rb_free rb' \<and> rb_cap rb' \<le> max (rb_cap rb) (2 * (rb_len rb + n + 2) + SLACK)"
  by (rule reserve_refines_holds [OF assms])

lemma reserve_refines_witness:
  "\<exists>rb'. (rb_reserve rb_new 9 :: (unit, _) res) = Ok rb' \<and> ring_inv rb' \<and> ring_abs rb' = ring_abs rb_new
    \<and> 9 \<le> rb_free rb' \<and> rb_cap rb' \<le> max (rb_cap rb_new) (2 * (rb_len rb_new + 9 + 2) + SLACK)"
  by (rule reserve_refines) (simp_all add: ring_inv_def rb_new_def rb_len_eq)

section \<open>Copies within the buffer\<close>

definition within_done :: "RingBuffer \<Rightarrow> nat \<Rightarrow> nat \<Rightarrow> memory \<Rightarrow> bool" where
  "within_done rb start n mem \<longleftrightarrow> length mem = rb_cap rb
     \<and> (\<forall>i<rb_len rb. mem ! rb_pos rb i = rb_buf rb ! rb_pos rb i)
     \<and> (\<forall>i<n. mem ! rb_pos rb (rb_len rb + i) = rb_buf rb ! rb_pos rb (start + i))"

lemma within_append:
  assumes inv: "ring_inv rb" and n: "start + n \<le> rb_len rb" "n \<le> rb_free rb" and w: "within_done rb start n mem"
  shows "ring_appends rb (take n (drop start (ring_abs rb))) (advance_tail (rb\<lparr>rb_buf := mem\<rparr>) n)"
proof -
  let ?bs = "take n (drop start (ring_abs rb))"
  have l: "length ?bs = n" using n(1) by simp
  have "ring_appends rb ?bs (advance_tail (rb\<lparr>rb_buf := mem\<rparr>) (length ?bs))"
  proof (rule ring_append [OF inv])
    fix j assume "j < length ?bs"
    then have j: "j < n" using l by simp
    have "rb_buf rb ! rb_pos rb (start + j) = Some (ring_abs rb ! (start + j))"
      using n(1) j by (intro ringD4 [OF inv]) simp
    then show "mem ! rb_pos rb (rb_len rb + j) = Some (?bs ! j)"
      using w j n(1) by (simp add: within_done_def)
  qed (use w l n in \<open>simp_all add: within_done_def\<close>)
  then show ?thesis by (simp only: l)
qed

lemma within_contiguous_ok:
  assumes inv: "ring_inv rb" and n: "start + n \<le> rb_len rb" "n \<le> rb_free rb" and ht: "rb_head rb < rb_tail rb"
  shows "\<exists>mem. (within_contiguous rb start n :: ('e, _) res) = Ok mem \<and> within_done rb start n mem"
proof -
  let ?h = "rb_head rb" and ?t = "rb_tail rb" and ?c = "rb_cap rb" and ?b = "rb_buf rb"
  have cap: "length ?b = ?c" by (rule ring_invD(1) [OF inv])
  have c: "?t < ?c" using ring_invD(2,3) [OF inv] ht by (cases "?c = 0") auto
  have len: "rb_len rb = ?t - ?h" using ht by (simp add: rb_len_eq)
  have fr: "n \<le> ?c - ?t + ?h - 1" using n(2) rb_free_eq [OF inv] len c ht by simp
  have pos: "rb_pos rb i = ?h + i" if "i < rb_len rb" for i
    using data_pos(1) [OF inv that] that len c ht by (auto simp: rb_pos_eq)
  have new: "rb_pos rb (rb_len rb + i) = (if ?t + i < ?c then ?t + i else ?t + i - ?c)" if "i < n" for i
    using that n(2) rb_free_eq [OF inv] by (intro free_pos [OF inv]) simp
  define k where "k = min n (?c - ?t)"
  define s where "s = ?h + start"
  have s: "s \<le> ?t" "n \<le> ?t - s" using n(1) len ht by (simp_all add: s_def)
  have src: "mem_init ?b s (?t - s)"
    unfolding mem_init_def
  proof (intro conjI allI impI)
    show "s + (?t - s) \<le> length ?b" using s c cap by simp
    fix i assume "i < ?t - s"
    then have i: "start + i < rb_len rb" using len by (simp add: s_def)
    then show "?b ! (s + i) \<noteq> None" using ringD4 [OF inv i] pos [OF i] by (simp add: s_def add.assoc)
  qed
  have kn: "k \<le> n" "k \<le> ?c - ?t" by (simp_all add: k_def)
  obtain m1 where m1: "(copy_bytes_overshooting ?b (s, ?t - s) (?t, ?c - ?t) k :: ('e, _) res) = Ok m1"
    "copied ?b s ?t k (?c - ?t) m1"
    using overshoot_ok [OF mem_init_less [OF src min.cobounded1], of ?t "?c - ?t" k, where 'e = 'e] s kn c cap by auto
  have keep1: "m1 ! i = ?b ! i" if "i < ?t" for i using copiedD(2) [OF m1(2), of i] that c cap by simp
  have new1: "m1 ! (?t + i) = ?b ! (s + i)" if "i < k" for i using copiedD(3) [OF m1(2) that] .
  have l1: "length m1 = ?c" using copiedD(1) [OF m1(2)] cap by simp
  show ?thesis
  proof (cases "k < n")
    case False
    then have kk: "k = n" using kn by simp
    have "m1 ! rb_pos rb (rb_len rb + i) = ?b ! rb_pos rb (start + i)" if i: "i < n" for i
    proof -
      have "?t + i < ?c" using i kk kn(2) by simp
      then show ?thesis using new [OF i] new1 [of i] pos [of "start + i"] i kk n(1) by (simp add: s_def add.assoc)
    qed
    then have "within_done rb start n m1"
      using l1 keep1 pos len by (simp add: within_done_def)
    then show ?thesis
      using m1(1) False s by (intro exI [of _ m1]) (simp add: within_contiguous_def Let_def rsub_def flip: k_def s_def)
  next
    case True
    then have k: "k = ?c - ?t" by (simp add: k_def)
    then have nh: "n - k \<le> ?h" using fr c ht by simp
    have src1: "mem_init m1 (s + k) (?t - s - k)"
      unfolding mem_init_def
    proof (intro conjI allI impI)
      show "s + k + (?t - s - k) \<le> length m1" using s l1 c True by simp
      fix i assume "i < ?t - s - k"
      then show "m1 ! (s + k + i) \<noteq> None"
        using mem_init_nth [OF src, of "s + k + i"] keep1 [of "s + k + i"] by simp
    qed
    obtain m2 where m2: "(copy_bytes_overshooting m1 (s + k, ?t - s - k) (0, ?h) (n - k) :: ('e, _) res) = Ok m2"
      "copied m1 (s + k) 0 (n - k) ?h m2"
      using overshoot_ok [OF mem_init_less [OF src1 min.cobounded1], of 0 ?h "n - k", where 'e = 'e]
        diff_le_mono [OF s(2), of k] nh c l1 ht by (auto simp: s_def)
    have keep2: "m2 ! i = m1 ! i" if "?h \<le> i" "i < ?c" for i using copiedD(2) [OF m2(2), of i] that l1 by simp
    have new2: "m2 ! i = m1 ! (s + k + i)" if "i < n - k" for i using copiedD(3) [OF m2(2) that] by simp
    have "m2 ! rb_pos rb (rb_len rb + i) = ?b ! rb_pos rb (start + i)" if i: "i < n" for i
    proof -
      have p: "rb_pos rb (start + i) = s + i" "s + i < ?t"
        using pos [of "start + i"] i n(1) len by (simp_all add: s_def)
      show ?thesis
      proof (cases "i < k")
        case True
        then have "?t + i < ?c" using k by simp
        then show ?thesis using new [OF i] keep2 [of "?t + i"] new1 [OF True] p ht by simp
      next
        case False
        then have "\<not> ?t + i < ?c" "?t + i - ?c = i - k" using k c by simp_all
        then show ?thesis using new [OF i] new2 [of "i - k"] keep1 [of "s + i"] p i False by simp
      qed
    qed
    then have "within_done rb start n m2"
      using copiedD(1) [OF m2(2)] l1 keep1 keep2 pos len c by (simp add: within_done_def)
    moreover have "(within_contiguous rb start n :: ('e, _) res) = Ok m2"
      using m1(1) m2(1) True s by (simp add: within_contiguous_def Let_def rsub_def flip: k_def s_def)
    ultimately show ?thesis by blast
  qed
qed

lemma within_wrapped_ok:
  assumes inv: "ring_inv rb" and n: "start + n \<le> rb_len rb" "n \<le> rb_free rb"
    and ht: "\<not> rb_head rb < rb_tail rb" and hs: "rb_cap rb < rb_head rb + start"
  shows "\<exists>mem. (within_wrapped rb start n :: ('e, _) res) = Ok mem \<and> within_done rb start n mem"
proof -
  let ?h = "rb_head rb" and ?t = "rb_tail rb" and ?c = "rb_cap rb" and ?b = "rb_buf rb"
  have cap: "length ?b = ?c" by (rule ring_invD(1) [OF inv])
  have c0: "0 < ?c" using hs n(1) rb_len_cap_0 [OF inv] ring_invD(2) [OF inv] by (cases "?c = 0") auto
  note c = ring_invD(3) [OF inv c0]
  have th: "?t < ?h"
  proof (rule ccontr)
    assume "\<not> ?t < ?h"
    then have "rb_len rb = 0" using ht by (simp add: rb_len_eq)
    then show False using n(1) hs c by simp
  qed
  have len: "rb_len rb = ?c - ?h + ?t" using th by (simp add: rb_len_eq)
  have fr: "n \<le> ?h - ?t - 1" using n(2) rb_free_eq [OF inv] len c th by simp
  define s where "s = ?h + start - ?c"
  have s: "wrap_add ?h start ?c = s" using hs by (simp add: wrap_add_def s_def)
  have st: "s \<le> ?t" "n \<le> ?t - s" using n(1) len hs c unfolding s_def by linarith+
  have pos: "rb_pos rb (start + i) = s + i" if "start + i < rb_len rb" for i
    using hs by (simp add: rb_pos_eq s_def)
  have new: "rb_pos rb (rb_len rb + i) = ?t + i \<and> ?t + i < ?h" if i: "i < n" for i
  proof -
    have "?t + i < ?h" using i fr th by simp
    moreover have "i < ?c - rb_len rb" using i n(2) rb_free_eq [OF inv] by simp
    ultimately show ?thesis using free_pos [OF inv, of i] c by simp
  qed
  have src: "mem_init ?b s (?t - s)"
    unfolding mem_init_def
  proof (intro conjI allI impI)
    show "s + (?t - s) \<le> length ?b" using st c cap by simp
    fix i assume i: "i < ?t - s"
    then have l: "start + i < rb_len rb" using len hs c unfolding s_def by linarith
    then show "?b ! (s + i) \<noteq> None" using ringD4 [OF inv l] pos [OF l] by simp
  qed
  obtain m1 where m1: "(copy_bytes_overshooting ?b (s, ?t - s) (?t, ?h - ?t) n :: ('e, _) res) = Ok m1"
    "copied ?b s ?t n (?h - ?t) m1"
    using overshoot_ok [OF mem_init_less [OF src min.cobounded1], of ?t "?h - ?t" n, where 'e = 'e]
      st le_trans [OF fr diff_le_self] c cap th by auto
  have keep: "m1 ! rb_pos rb i = ?b ! rb_pos rb i" if "i < rb_len rb" for i
    using copiedD(2) [OF m1(2), of "rb_pos rb i"] data_pos(2,3) [OF inv that] th cap by auto
  have "m1 ! rb_pos rb (rb_len rb + i) = ?b ! rb_pos rb (start + i)" if i: "i < n" for i
    using new [OF i] copiedD(3) [OF m1(2) i] pos [of i] n(1) i by simp
  then have "within_done rb start n m1"
    using keep copiedD(1) [OF m1(2)] cap by (simp add: within_done_def)
  moreover have "(within_wrapped rb start n :: ('e, _) res) = Ok m1"
    using m1(1) st th by (simp add: within_wrapped_def Let_def rsub_def s)
  ultimately show ?thesis by blast
qed

lemma within_split_ok:
  assumes inv: "ring_inv rb" and n: "start + n \<le> rb_len rb" "n \<le> rb_free rb"
    and ht: "\<not> rb_head rb < rb_tail rb" and hs: "\<not> rb_cap rb < rb_head rb + start"
  shows "\<exists>mem. (within_split rb start n :: ('e, _) res) = Ok mem \<and> within_done rb start n mem"
proof -
  let ?h = "rb_head rb" and ?t = "rb_tail rb" and ?c = "rb_cap rb" and ?b = "rb_buf rb"
  have cap: "length ?b = ?c" by (rule ring_invD(1) [OF inv])
  have c: "?t \<le> ?h" "?h \<le> ?c" "?t = ?h \<or> ?h < ?c" using ht ring_invD(2,3) [OF inv] by (cases "?c = 0"; auto)+
  have len: "rb_len rb = (if ?t = ?h then 0 else ?c - ?h + ?t)" using c by (simp add: rb_len_eq)
  have fr: "n \<le> ?h - ?t" using n rb_free_eq [OF inv] len c by (cases "?t = ?h") simp_all
  define s where "s = ?h + start"
  have s: "s \<le> ?c" using hs by (simp add: s_def)
  have pos: "rb_pos rb (start + i) = (if s + i < ?c then s + i else s + i - ?c)" for i
    by (simp add: rb_pos_eq s_def add.assoc)
  have new: "rb_pos rb (rb_len rb + i) = ?t + i \<and> ?t + i < ?h" if i: "i < n" for i
  proof -
    have "?t + i < ?h" using i fr by simp
    moreover have "i < ?c - rb_len rb" using i n(2) rb_free_eq [OF inv] by simp
    ultimately show ?thesis using free_pos [OF inv, of i] c by simp
  qed
  define k where "k = min n (?c - s)"
  have kn: "k \<le> n" "k \<le> ?c - s" by (simp_all add: k_def)
  have src: "mem_init ?b s (min (?c - s) (?h - ?t))"
    unfolding mem_init_def
  proof (intro conjI allI impI)
    show "s + min (?c - s) (?h - ?t) \<le> length ?b" using s cap by simp
    fix i assume i: "i < min (?c - s) (?h - ?t)"
    then have l: "start + i < rb_len rb" using len by (auto simp: s_def)
    have "s + i < ?c" using i by linarith
    then show "?b ! (s + i) \<noteq> None" using ringD4 [OF inv l] pos [of i] by simp
  qed
  obtain m1 where m1: "(copy_bytes_overshooting ?b (s, ?c - s) (?t, ?h - ?t) k :: ('e, _) res) = Ok m1"
    "copied ?b s ?t k (?h - ?t) m1"
    using overshoot_ok [OF src, of ?t k, where 'e = 'e] kn fr c cap by (auto simp: s_def)
  have keep1: "m1 ! i = ?b ! i" if "i < ?t \<or> ?h \<le> i" "i < ?c" for i
    using copiedD(2) [OF m1(2), of i] that c cap by auto
  have l1: "length m1 = ?c" using copiedD(1) [OF m1(2)] cap by simp
  have dpos: "(rb_pos rb i < ?t \<or> ?h \<le> rb_pos rb i) \<and> rb_pos rb i < ?c" if "i < rb_len rb" for i
    using data_pos(1,2,3) [OF inv that] c by (cases "?t = ?h") auto
  show ?thesis
  proof (cases "k < n")
    case False
    then have kk: "k = n" using kn by simp
    have "m1 ! rb_pos rb (rb_len rb + i) = ?b ! rb_pos rb (start + i)" if i: "i < n" for i
    proof -
      have "s + i < ?c" using i kk kn(2) by simp
      then show ?thesis using new [OF i] copiedD(3) [OF m1(2), of i] pos [of i] i kk by simp
    qed
    then have "within_done rb start n m1"
      using keep1 dpos l1 by (simp add: within_done_def)
    moreover have "(within_split rb start n :: ('e, _) res) = Ok m1"
      using m1(1) s c False by (simp add: within_split_def Let_def rsub_def flip: k_def s_def)
    ultimately show ?thesis by blast
  next
    case True
    then have k: "k = ?c - s" by (simp add: k_def)
    have th: "?t < ?h" using True fr by simp
    then have nt: "n - k \<le> ?t" using k n(1) len s c unfolding s_def by simp
    have src1: "mem_init m1 0 ?t"
      unfolding mem_init_def
    proof (intro conjI allI impI)
      show "0 + ?t \<le> length m1" using l1 c by simp
      fix i assume i: "i < ?t"
      define j where "j = ?c - ?h + i"
      have j: "j < rb_len rb" "rb_pos rb j = i" using i len th c by (simp_all add: j_def rb_pos_eq)
      show "m1 ! (0 + i) \<noteq> None" using ringD4 [OF inv j(1)] j(2) keep1 [of i] i c by simp
    qed
    obtain m2 where m2: "(copy_bytes_overshooting m1 (0, ?t) (?t + k, ?h - ?t - k) (n - k) :: ('e, _) res) = Ok m2"
      "copied m1 0 (?t + k) (n - k) (?h - ?t - k) m2"
      using overshoot_ok [OF mem_init_less [OF src1 min.cobounded1], of "?t + k" "?h - ?t - k" "n - k", where 'e = 'e]
        diff_le_mono [OF fr, of k] nt kn l1 c True by auto
    have "?t + k \<le> ?h" using fr kn(1) c(1) by linarith
    then have "?t + k + (?h - ?t - k) = ?h" by simp
    then have keep2: "m2 ! i = m1 ! i" if "i < ?t + k \<or> ?h \<le> i" "i < ?c" for i
      using copiedD(2) [OF m2(2), of i] that l1 by simp
    have "m2 ! rb_pos rb (rb_len rb + i) = ?b ! rb_pos rb (start + i)" if i: "i < n" for i
    proof (cases "i < k")
      case True
      then have "s + i < ?c" using kn(2) by linarith
      then show ?thesis using True
        using new [OF i] keep2 [of "?t + i"] copiedD(3) [OF m1(2) True] pos [of i] k c by simp
    next
      case False
      then have e: "\<not> s + i < ?c" "s + i - ?c = i - k" "?t + k + (i - k) = ?t + i" using k s by simp_all
      have "m2 ! (?t + i) = m1 ! (i - k)" using copiedD(3) [OF m2(2), of "i - k"] i False e by simp
      also have "\<dots> = ?b ! (i - k)" using i nt False c by (intro keep1) auto
      finally show ?thesis using new [OF i] pos [of i] e by simp
    qed
    moreover have "m2 ! rb_pos rb i = ?b ! rb_pos rb i" if "i < rb_len rb" for i
      using keep2 [of "rb_pos rb i"] keep1 [of "rb_pos rb i"] dpos [OF that] by auto
    ultimately have "within_done rb start n m2"
      using copiedD(1) [OF m2(2)] l1 by (simp add: within_done_def)
    moreover have "(within_split rb start n :: ('e, _) res) = Ok m2"
      using m1(1) m2(1) s c True fr by (simp add: within_split_def Let_def rsub_def flip: k_def s_def)
    ultimately show ?thesis by blast
  qed
qed

lemma extend_from_within_unchecked_refines_holds:
  assumes "ring_inv rb" "start + n \<le> rb_len rb" "n \<le> rb_free rb"
  shows "ring_appends rb (take n (drop start (ring_abs rb))) (extend_from_within_unchecked rb start n :: ('e, _) res)"
proof -
  have "\<exists>mem. (if rb_head rb < rb_tail rb then within_contiguous rb start n
        else if rb_head rb + start > rb_cap rb then within_wrapped rb start n
        else within_split rb start n :: ('e, _) res) = Ok mem \<and> within_done rb start n mem"
    using within_contiguous_ok [OF assms] within_wrapped_ok [OF assms] within_split_ok [OF assms] by auto
  then obtain mem where mem: "(if rb_head rb < rb_tail rb then within_contiguous rb start n
        else if rb_head rb + start > rb_cap rb then within_wrapped rb start n
        else within_split rb start n :: ('e, _) res) = Ok mem" "within_done rb start n mem" by blast
  have "(extend_from_within_unchecked rb start n :: ('e, _) res) = advance_tail (rb\<lparr>rb_buf := mem\<rparr>) n"
    unfolding extend_from_within_unchecked_def mem(1) using assms(2,3) by simp
  then show ?thesis using within_append [OF assms mem(2), where 'a = 'e] by simp
qed

text \<open>
  C25.  The copy within the buffer appends the asked part of the content, in each of its layouts, with an
  overshoot that never touches the content.
\<close>

theorem extend_from_within_unchecked_refines:
  assumes "ring_inv rb" "start + n \<le> rb_len rb" "n \<le> rb_free rb"
  shows "ring_appends rb (take n (drop start (ring_abs rb))) (extend_from_within_unchecked rb start n :: ('e, _) res)"
  by (rule extend_from_within_unchecked_refines_holds [OF assms])

lemma extend_from_within_unchecked_refines_witness:
  "ring_appends \<lparr>rb_buf = [Some 1, Some 2, None, None, Some 3], rb_cap = 5, rb_head = 4, rb_tail = 2\<rparr>
     (take 1 (drop 1 (ring_abs \<lparr>rb_buf = [Some 1, Some 2, None, None, Some 3], rb_cap = 5, rb_head = 4, rb_tail = 2\<rparr>)))
     (extend_from_within_unchecked \<lparr>rb_buf = [Some 1, Some 2, None, None, Some 3], rb_cap = 5, rb_head = 4, rb_tail = 2\<rparr> 1 1 :: (unit, _) res)"
  by (rule extend_from_within_unchecked_refines) code_simp+

section \<open>The remaining operations\<close>

text \<open>The outcome of an append that may reallocate.\<close>

definition ring_extends :: "RingBuffer \<Rightarrow> bytes \<Rightarrow> ('e, RingBuffer) res \<Rightarrow> bool" where
  "ring_extends rb bs r \<longleftrightarrow> (\<exists>rb'. r = Ok rb' \<and> ring_inv rb' \<and> ring_abs rb' = ring_abs rb @ bs
     \<and> rb_cap rb' \<le> max (rb_cap rb) (2 * (rb_len rb + length bs + 2) + SLACK))"

lemma ring_appends_free:
  "ring_inv rb \<Longrightarrow> ring_appends rb bs (Ok rb') \<Longrightarrow> rb_free rb' = rb_free rb - length bs"
  by (auto simp: ring_appends_def rb_free_eq simp flip: length_ring_abs)

lemma reserve_then:
  assumes "ring_inv rb" "rb_len rb + length bs + 2 \<le> 2 ^ 62"
    and "\<And>rb'. ring_inv rb' \<Longrightarrow> length bs \<le> rb_free rb' \<Longrightarrow> ring_appends rb' bs (f rb' :: ('e, _) res)"
  shows "ring_extends rb bs (rbind (rb_reserve rb (length bs)) f)"
proof -
  obtain rb' where r: "(rb_reserve rb (length bs) :: ('e, _) res) = Ok rb'" "ring_inv rb'" "ring_abs rb' = ring_abs rb"
    "length bs \<le> rb_free rb'" "rb_cap rb' \<le> max (rb_cap rb) (2 * (rb_len rb + length bs + 2) + SLACK)"
    using reserve_refines_holds [OF assms(1,2), where 'e = 'e] by blast
  then show ?thesis using assms(3) [OF r(2,4)] by (auto simp: ring_appends_def ring_extends_def)
qed

lemma ring_extends_nil: "ring_inv rb \<Longrightarrow> ring_extends rb [] (Ok rb)"
  by (simp add: ring_extends_def)

lemma extend_room:
  assumes "ring_inv rb" "n \<le> rb_free rb" "0 < n"
  shows "rb_len rb + n < rb_cap rb"
    "n \<le> first_free rb + (if rb_tail rb < rb_head rb then 0 else rb_head rb)"
  using assms rb_free_eq [OF assms(1)] free_room(3) [OF assms(1,2)] by simp_all

text \<open>Each append acts on the content, and the bounds of the growth are those of the reserve.\<close>

lemma extend_in_room:
  assumes r: "ring_inv r" "length data \<le> rb_free r" and ne: "data \<noteq> []"
  shows "ring_appends r data (rbind (rassert (rb_len r + length data < rb_cap r)) (\<lambda>_.
        rbind (rassert (rb_free r \<ge> length data)) (\<lambda>_.
        rbind (free_slice_parts r) (\<lambda>(f1, f2).
        rbind (rassert (snd f1 + snd f2 \<ge> length data)) (\<lambda>_.
        fill_free r data)))) :: ('e, _) res)"
proof -
  have "0 < length data" using ne by simp
  from extend_room [OF r this] r(2) fill_free_ok [OF r, where 'e = 'e] show ?thesis
    by (simp only: free_parts_ok [OF r(1)] rbind.simps prod.case fst_conv snd_conv rassert_simps)
qed

theorem extend_refines:
  assumes "ring_inv rb" "rb_len rb + length data + 2 \<le> 2 ^ 62"
  shows "ring_extends rb data (rb_extend rb data :: ('e, _) res)"
proof (cases "data = []")
  case False
  then show ?thesis
    using reserve_then [OF assms extend_in_room [OF _ _ False], where 'e = 'e]
    by (simp add: rb_extend_def Let_def)
qed (simp add: rb_extend_def ring_extends_nil [OF assms(1)])

text \<open>Into reserved room the append moves nothing.\<close>

lemma extend_appends:
  assumes "ring_inv rb" "length data \<le> rb_free rb"
  shows "ring_appends rb data (rb_extend rb data :: ('e, _) res)"
proof (cases "data = []")
  case False
  then show ?thesis using extend_in_room [OF assms False, where 'e = 'e] assms(2)
    by (simp add: rb_extend_def rb_reserve_def Let_def)
qed (use assms(1) in \<open>simp add: rb_extend_def ring_appends_def\<close>)

lemma extend_pre_reserved_ok:
  assumes "ring_inv rb" "length data \<le> rb_free rb"
  shows "ring_appends rb data (extend_pre_reserved rb data :: ('e, _) res)"
  using fill_free_ok [OF assms, where 'e = 'e] assms
  by (cases "data = []") (simp_all add: extend_pre_reserved_def ring_appends_def)

lemma two_stores_extend:
  assumes r: "ring_inv r" "length bs \<le> rb_free r" and k: "k = min (first_free r) (length bs)"
    and m1: "stored (rb_buf r) (rb_tail r) (take k bs) m1" and m2: "stored m1 0 (drop k bs) m2"
  shows "ring_appends r bs (advance_tail (r\<lparr>rb_buf := m2\<rparr>) (length bs))"
  by (rule two_stores [OF r _ m1 m2]) (simp only: k min.commute)

lemma stores_fit:
  assumes r: "ring_inv r" "n \<le> rb_free r" and k: "k = min (first_free r) n"
  shows "rb_tail r + k \<le> length (rb_buf r)" "n - k \<le> length (rb_buf r)"
proof -
  have k': "k = min n (first_free r)" unfolding k by (rule min.commute)
  show "rb_tail r + k \<le> length (rb_buf r)"
    using free_room(1) [OF r] unfolding k' ring_invD(1) [OF r(1)] .
  show "n - k \<le> length (rb_buf r)"
    using rest_room [OF r k'] free_room(5) [OF r] unfolding ring_invD(1) [OF r(1)] by linarith
qed

text \<open>An optional second store.\<close>

lemma second_store:
  assumes "length m1 = c" "length bs - k \<le> c" "k \<le> length bs"
  shows "\<exists>m2. (if k < length bs then mem_write m1 0 (drop k bs) else Ok m1 :: ('e, _) res) = Ok m2 \<and> stored m1 0 (drop k bs) m2"
  using mem_write_ok [of 0 "drop k bs" m1, where 'e = 'e] assms
  by (cases "k < length bs") (simp_all add: stored_nil)

theorem extend_and_fill_refines:
  assumes "ring_inv rb" "rb_len rb + n + 2 \<le> 2 ^ 62"
  shows "ring_extends rb (replicate n b) (rb_extend_and_fill rb b n :: ('e, _) res)"
proof (cases "n = 0")
  case False
  let ?bs = "replicate n b"
  let ?f = "\<lambda>rb. rbind (free_slice_parts rb) (\<lambda>(p1, p2).
        rbind (rassert (snd p1 + snd p2 \<ge> n)) (\<lambda>_.
        let fill1 = min (snd p1) n in
        rbind (mem_write (rb_buf rb) (fst p1) (replicate fill1 b)) (\<lambda>buf.
        rbind (if fill1 < n then mem_write buf (fst p2) (replicate (n - fill1) b)
          else Ok buf) (\<lambda>buf.
        advance_tail (rb\<lparr>rb_buf := buf\<rparr>) n)))) :: ('e, _) res"
  have "ring_extends rb ?bs (rbind (rb_reserve rb (length ?bs)) ?f)"
  proof (rule reserve_then)
    fix r assume r: "ring_inv r" "length ?bs \<le> rb_free r"
    define k where "k = min (first_free r) n"
    have kn: "take k ?bs = replicate k b" "drop k ?bs = replicate (n - k) b" "k \<le> n" by (simp_all add: k_def min_def)
    have r2: "n \<le> rb_free r" using r(2) by simp
    note fit = stores_fit [OF r(1) r2 k_def]
    obtain m1 where m1: "(mem_write (rb_buf r) (rb_tail r) (replicate k b) :: ('e, _) res) = Ok m1"
      "stored (rb_buf r) (rb_tail r) (take k ?bs) m1"
      using mem_write_ok [of "rb_tail r" "replicate k b" "rb_buf r", where 'e = 'e] fit(1) kn(1) by auto
    obtain m2 where m2: "(if k < n then mem_write m1 0 (drop k ?bs) else Ok m1 :: ('e, _) res) = Ok m2"
      "stored m1 0 (drop k ?bs) m2"
      using second_store [of m1 _ ?bs k, where 'e = 'e, OF storedD(1) [OF m1(2)]] fit(2) kn(3)
      unfolding length_replicate by blast
    have e: "?f r = advance_tail (r\<lparr>rb_buf := m2\<rparr>) n"
      unfolding free_parts_ok [OF r(1)] rbind.simps prod.case fst_conv snd_conv Let_def k_def [symmetric] m1(1)
      unfolding kn(2) [symmetric] m2(1) rbind.simps
      using extend_room(2) [OF r(1) r2] False by simp
    show "ring_appends r ?bs (?f r)"
      unfolding e using two_stores_extend [OF r _ m1(2) m2(2), where 'a = 'e] by (simp add: k_def)
  qed (use assms in simp_all)
  then show ?thesis using False by (simp add: rb_extend_and_fill_def)
qed (simp add: rb_extend_and_fill_def ring_extends_nil [OF assms(1)])

lemma push_back_refines:
  assumes "ring_inv rb" "rb_len rb + 3 \<le> 2 ^ 62"
  shows "ring_extends rb [b] (push_back rb b :: ('e, _) res)"
proof -
  let ?f = "\<lambda>rb. rbind (mem_write (rb_buf rb) (rb_tail rb) [b]) (\<lambda>buf. advance_tail (rb\<lparr>rb_buf := buf\<rparr>) 1) :: ('e, _) res"
  have "ring_extends rb [b] (rbind (rb_reserve rb (length [b])) ?f)"
  proof (rule reserve_then)
    fix r assume r: "ring_inv r" "length [b] \<le> rb_free r"
    then have r1: "1 \<le> rb_free r" by simp
    have "rb_cap r \<noteq> 0" using r1 rb_free_eq [OF r(1)] by simp
    then have c: "rb_head r < rb_cap r" "rb_tail r < rb_cap r" using ringD3 [OF r(1)] by auto
    have k: "1 = min (first_free r) (length [b])" using c by simp
    have "rb_tail r + length [b] \<le> length (rb_buf r)" using c ring_invD(1) [OF r(1)] by simp
    then obtain m1 where m1: "(mem_write (rb_buf r) (rb_tail r) [b] :: ('e, _) res) = Ok m1"
      "stored (rb_buf r) (rb_tail r) [b] m1"
      using mem_write_ok by blast
    have "ring_appends r [b] (advance_tail (r\<lparr>rb_buf := m1\<rparr>) (length [b]) :: ('e, _) res)"
      by (rule two_stores_extend [OF r k, of m1]) (simp_all add: m1(2) stored_nil)
    then show "ring_appends r [b] (?f r)" by (simp add: m1(1))
  qed (use assms in simp_all)
  then show ?thesis by (simp add: push_back_def)
qed

lemma read_exact_loop_length:
  assumes "read_exact_loop rd r n acc = Some y"
  shows "case fst y of Ok bs \<Rightarrow> length bs = length acc + n | _ \<Rightarrow> True"
proof (rule read_exact_loop.raw_induct [OF _ assms])
  fix f :: "'a reader \<Rightarrow> 'a \<Rightarrow> nat \<Rightarrow> bytes \<Rightarrow> ((ErrorKind, bytes) res \<times> 'a) option" and rd r n acc y
  assume 1: "\<And>rd r n acc y. f rd r n acc = Some y \<Longrightarrow> case fst y of Ok bs \<Rightarrow> length bs = length acc + n | _ \<Rightarrow> True"
    "(if n = 0 then Some (Ok acc, r)
      else case rd r n of
        (Ok bs, r') \<Rightarrow>
          if bs = [] then Some (Err UnexpectedEof, r')
          else if length bs > n then Some (Panic, r')
          else f rd r' (n - length bs) (acc @ bs)
      | (Err e, r') \<Rightarrow>
          if e = Interrupted then f rd r' n acc else Some (Err e, r')
      | (Panic, r') \<Rightarrow> Some (Panic, r')) = Some y"
  obtain x r' where x: "rd r n = (x, r')" by (cases "rd r n")
  show "case fst y of Ok bs \<Rightarrow> length bs = length acc + n | _ \<Rightarrow> True"
  proof (cases x)
    case (Ok as)
    show ?thesis
    proof (cases "n = 0 \<or> as = [] \<or> n < length as")
      case False
      then have f: "f rd r' (n - length as) (acc @ as) = Some y" using 1(2) x Ok by simp
      have "length as \<le> n" using False by simp
      with 1(1) [OF f] show ?thesis by (cases "fst y") simp_all
    qed (use 1(2) x Ok in \<open>auto split: if_splits\<close>)
  next
    case (Err e)
    show ?thesis
    proof (cases "n = 0 \<or> e \<noteq> Interrupted")
      case False
      then have f: "f rd r' n acc = Some y" using 1(2) x Err by simp
      show ?thesis by (rule 1(1) [OF f])
    qed (use 1(2) [unfolded x Err] in \<open>auto split: if_splits\<close>)
  next
    case Panic
    then show ?thesis using 1(2) [unfolded x Panic] by (auto split: if_splits)
  qed
qed

lemma read_exact_length: "read_exact rd r n = Ok (bs, r') \<Longrightarrow> length bs = n"
  using read_exact_loop_length [of rd r n "[]"]
  by (fastforce simp: read_exact_def split: option.splits prod.splits res.splits)

text \<open>
  The bytes two reads of \<open>k\<close> and then \<open>n - k\<close> bytes deliver, with the outcome of the first that fails.
\<close>

definition read_in_two :: "'r reader \<Rightarrow> 'r \<Rightarrow> nat \<Rightarrow> nat \<Rightarrow> (ErrorKind, bytes \<times> 'r) res" where
  "read_in_two rd r k n = rbind (read_exact rd r k) (\<lambda>(as, r).
     rbind (if k < n then read_exact rd r (n - k) else Ok ([], r)) (\<lambda>(bs, r). Ok (as @ bs, r)))"

definition appends_read :: "RingBuffer \<Rightarrow> (ErrorKind, bytes \<times> 'r) res \<Rightarrow> (ErrorKind, RingBuffer \<times> 'r) res \<Rightarrow> bool" where
  "appends_read rb delivered x \<longleftrightarrow> (case delivered of
     Ok (bs, r') \<Rightarrow> \<exists>rb'. x = Ok (rb', r') \<and> ring_extends rb bs (Ok rb' :: (ErrorKind, _) res)
   | Err e \<Rightarrow> x = Err e
   | Panic \<Rightarrow> x = Panic)"

lemma extend_from_reader_any:
  assumes inv: "ring_inv rb" and max: "rb_len rb + n + 2 \<le> 2 ^ 62"
  shows "\<exists>k\<le>n. appends_read rb (read_in_two rd r k n) (rb_extend_from_reader rd rb r n)"
proof (cases "n = 0")
  case True
  then show ?thesis using ring_extends_nil [OF inv, where 'a = ErrorKind]
    by (simp add: appends_read_def read_in_two_def read_exact_def read_exact_loop.simps rb_extend_from_reader_def)
next
  case False
  obtain q where q: "(rb_reserve rb n :: (ErrorKind, _) res) = Ok q" "ring_inv q" "ring_abs q = ring_abs rb"
    "n \<le> rb_free q" "rb_cap q \<le> max (rb_cap rb) (2 * (rb_len rb + n + 2) + SLACK)"
    using reserve_refines_holds [OF inv max, where 'e = ErrorKind] by blast
  define k where "k = min (first_free q) n"
  note fit = stores_fit [OF q(2,4) k_def]
  have kn: "k \<le> n" by (simp add: k_def)
  obtain m0 where m0: "(mem_write (rb_buf q) (rb_tail q) (replicate k 0) :: (ErrorKind, _) res) = Ok m0"
    "stored (rb_buf q) (rb_tail q) (replicate k 0) m0"
    using mem_write_ok [of "rb_tail q" "replicate k 0" "rb_buf q", where 'e = ErrorKind] fit(1) by auto
  have run: "rb_extend_from_reader rd rb r n = rbind (read_exact rd r k) (\<lambda>(bs, r).
        rbind (mem_write m0 (rb_tail q) bs) (\<lambda>buf.
        rbind
          (if k < n then
             rbind (mem_write buf 0 (replicate (n - k) 0)) (\<lambda>buf.
             rbind (read_exact rd r (n - k)) (\<lambda>(bs, r).
             rbind (mem_write buf 0 bs) (\<lambda>buf. Ok (buf, r))))
           else Ok (buf, r)) (\<lambda>(buf, r).
        rbind (advance_tail (q\<lparr>rb_buf := buf\<rparr>) n) (\<lambda>rb. Ok (rb, r)))))"
    using False extend_room(2) [OF q(2,4)]
    unfolding rb_extend_from_reader_def q(1) rbind.simps free_parts_ok [OF q(2)] prod.case fst_conv snd_conv
      Let_def k_def [symmetric] m0(1) rbind_rassert
    by (simp only: if_True if_False zero_less_iff_neq_zero not_False_eq_True)
  show ?thesis
  proof (cases "read_exact rd r k")
    case first: (Ok p)
    obtain as r1 where p: "p = (as, r1)" by (cases p)
    have la: "length as = k" by (rule read_exact_length [OF first [unfolded p]])
    have l0: "length m0 = length (rb_buf q)" using storedD(1) [OF m0(2)] .
    have "rb_tail q + length as \<le> length m0" using fit(1) la l0 by simp
    then obtain m1 where m1: "(mem_write m0 (rb_tail q) as :: (ErrorKind, _) res) = Ok m1" "stored m0 (rb_tail q) as m1"
      using mem_write_ok by blast
    have s1: "stored (rb_buf q) (rb_tail q) as m1"
      using stored_again [OF m0(2) m1(2)] la by simp
    have l1: "length m1 = length (rb_buf q)" using storedD(1) [OF s1] .
    have fin: "\<exists>rb'. rbind (advance_tail (q\<lparr>rb_buf := m2\<rparr>) n) (\<lambda>rb. Ok (rb, r2)) = (Ok (rb', r2) :: (ErrorKind, _) res)
        \<and> ring_extends rb (as @ bs) (Ok rb' :: (ErrorKind, _) res)"
      if b: "length bs = n - k" "stored m1 0 bs m2" for bs m2 and r2 :: 'a
    proof -
      have n: "length (as @ bs) = n" "take k (as @ bs) = as" "drop k (as @ bs) = bs" using la b(1) kn by simp_all
      have "ring_appends q (as @ bs) (advance_tail (q\<lparr>rb_buf := m2\<rparr>) (length (as @ bs)) :: (ErrorKind, _) res)"
        by (rule two_stores_extend [OF q(2), of _ k m1]) (use n q(4) s1 b(2) k_def in \<open>simp_all\<close>)
      then show ?thesis
        using q(3,5) unfolding n(1) ring_appends_def ring_extends_def by auto
    qed
    show ?thesis
    proof (cases "k < n")
      case False
      have "length ([] :: bytes) = n - k" "stored m1 0 [] m1" using False kn by (simp_all add: stored_nil)
      from fin [OF this, of r1] have "appends_read rb (read_in_two rd r k n) (rb_extend_from_reader rd rb r n)"
        unfolding run read_in_two_def first p rbind.simps prod.case m1(1) if_not_P [OF False]
        by (auto simp: appends_read_def)
      then show ?thesis using kn by blast
    next
      case True
      have "0 + length (replicate (n - k) (0 :: u8)) \<le> length m1" using fit(2) l1 by simp
      then obtain m2 where m2: "(mem_write m1 0 (replicate (n - k) 0) :: (ErrorKind, _) res) = Ok m2"
        "stored m1 0 (replicate (n - k) 0) m2" using mem_write_ok by blast
      show ?thesis
      proof (cases "read_exact rd r1 (n - k)")
        case second: (Ok p2)
        obtain bs r2 where p2: "p2 = (bs, r2)" by (cases p2)
        have lb: "length bs = n - k" by (rule read_exact_length [OF second [unfolded p2]])
        have "0 + length bs \<le> length m2" using fit(2) l1 lb storedD(1) [OF m2(2)] by simp
        then obtain m3 where m3: "(mem_write m2 0 bs :: (ErrorKind, _) res) = Ok m3" "stored m2 0 bs m3"
          using mem_write_ok by blast
        have "stored m1 0 bs m3" using stored_again [OF m2(2) m3(2)] lb by simp
        from fin [OF lb this, of r2] True kn show ?thesis
          by (intro exI [of _ k]) (auto simp: run first p m1(1) m2(1) second p2 m3(1) appends_read_def read_in_two_def)
      qed (use True kn in \<open>auto intro!: exI [of _ k] simp: run first p m1(1) m2(1) appends_read_def read_in_two_def\<close>)
    qed
  qed (use kn in \<open>auto intro!: exI [of _ k] simp: run appends_read_def read_in_two_def\<close>)
qed

lemma read_in_two_source:
  assumes src: "byte_source rd pending" and k: "k \<le> n"
  shows "if n \<le> length (pending r) then \<exists>r'. read_in_two rd r k n = Ok (take n (pending r), r') \<and> pending r' = drop n (pending r)
    else read_in_two rd r k n = Err UnexpectedEof"
proof (cases "k \<le> length (pending r)")
  case True
  obtain r1 where r1: "read_exact rd r k = Ok (take k (pending r), r1)" "pending r1 = drop k (pending r)"
    using byte_source.read_exact_ok [OF src True] by blast
  have a: "read_exact rd r1 0 = Ok ([], r1)" by (simp add: read_exact_def read_exact_loop.simps)
  have two: "read_in_two rd r k n = rbind (read_exact rd r1 (n - k)) (\<lambda>(bs, r). Ok (take k (pending r0) @ bs, r))"
    if "r0 = r" for r0 using r1(1) k that by (cases "k = n") (simp_all add: read_in_two_def a)
  show ?thesis
  proof (cases "n \<le> length (pending r)")
    case True
    then have "n - k \<le> length (pending r1)" using r1(2) by simp
    then obtain r2 where r2: "read_exact rd r1 (n - k) = Ok (take (n - k) (pending r1), r2)" "pending r2 = drop (n - k) (pending r1)"
      using byte_source.read_exact_ok [OF src] by blast
    have "take k (pending r) @ take (n - k) (drop k (pending r)) = take n (pending r)" using k by (simp flip: take_add)
    then show ?thesis using True r2 r1(2) k by (simp add: two [OF refl])
  next
    case False
    then have "length (pending r1) < n - k" using r1(2) True by simp
    then show ?thesis using False byte_source.read_exact_short [OF src] by (simp add: two [OF refl])
  qed
next
  case False
  then show ?thesis using byte_source.read_exact_short [OF src, of r k] k by (simp add: read_in_two_def)
qed

text \<open>
  C34.  Filling the ring from a reader, on every outcome.  Whatever the reader does, there are a
  split \<open>k\<close> of the \<open>n\<close> bytes and two reads of that many bytes each, in this order, whose bytes are
  appended to the content and whose first failure is the result.  A reader that delivers its
  \<open>pending\<close> bytes in order, as \<open>Read\<close> documents, has exactly the first \<open>n\<close> of them appended and is
  left with the rest, or is refused with \<open>UnexpectedEof\<close> when it has fewer.
\<close>

theorem extend_from_reader_refines:
  assumes "ring_inv rb" and "rb_len rb + n + 2 \<le> 2 ^ 62"
  shows "(\<exists>k\<le>n. appends_read rb (read_in_two rd r k n) (rb_extend_from_reader rd rb r n))
    \<and> (byte_source rd pending \<longrightarrow>
         (if n \<le> length (pending r)
          then \<exists>rb' r'. rb_extend_from_reader rd rb r n = Ok (rb', r') \<and> ring_inv rb'
            \<and> ring_abs rb' = ring_abs rb @ take n (pending r) \<and> pending r' = drop n (pending r)
          else rb_extend_from_reader rd rb r n = Err UnexpectedEof))"
proof (intro conjI impI)
  show any: "\<exists>k\<le>n. appends_read rb (read_in_two rd r k n) (rb_extend_from_reader rd rb r n)"
    by (rule extend_from_reader_any [OF assms])
  assume src: "byte_source rd pending"
  from any obtain k where k: "k \<le> n" "appends_read rb (read_in_two rd r k n) (rb_extend_from_reader rd rb r n)" by blast
  show "if n \<le> length (pending r)
      then \<exists>rb' r'. rb_extend_from_reader rd rb r n = Ok (rb', r') \<and> ring_inv rb'
        \<and> ring_abs rb' = ring_abs rb @ take n (pending r) \<and> pending r' = drop n (pending r)
      else rb_extend_from_reader rd rb r n = Err UnexpectedEof"
    using read_in_two_source [OF src k(1), of r] k(2)
    by (auto simp: appends_read_def ring_extends_def split: if_splits)
qed

theorem extend_from_reader_refines_witness:
  "\<exists>rb' r'. rb_extend_from_reader slice_read rb_new [7, 8, 9, 10 :: u8] 3 = Ok (rb', r')
    \<and> ring_inv rb' \<and> ring_abs rb' = [7, 8, 9] \<and> r' = [10]"
proof -
  have "ring_inv rb_new" "rb_len rb_new + 3 + 2 \<le> 2 ^ 62" "ring_abs rb_new = []"
    by (simp_all add: ring_inv_def ring_abs_def rb_new_def rb_len_eq)
  with extend_from_reader_refines [of rb_new 3 slice_read "[7, 8, 9, 10]" "\<lambda>r. r"] slice.byte_source_axioms
  show ?thesis by simp
qed

lemma rb_get_refines:
  assumes inv: "ring_inv rb"
  shows "rb_get rb i = Ok (if i < length (ring_abs rb) then Some (ring_abs rb ! i) else None)"
proof (cases "i < rb_len rb")
  case True
  have "mem_init (rb_buf rb) (rb_pos rb i) 1"
    using ringD4 [OF inv True] data_pos(3) [OF inv True] ring_invD(1) [OF inv] by (simp add: mem_init_def)
  then show ?thesis
    using True ringD4 [OF inv True] by (simp add: rb_get_def mem_read_ok mem_bytes_def flip: rb_pos_def)
qed (simp add: rb_get_def)

lemma as_slices_refines:
  assumes inv: "ring_inv rb"
  shows "\<exists>a b. as_slices rb = Ok (a, b) \<and> ring_abs rb = a @ b"
proof -
  obtain n1 n2 where d: "(data_slice_parts rb :: ('a, _) res) = Ok ((rb_head rb, n1), (0, n2))"
      "n1 + n2 = rb_len rb" "mem_init (rb_buf rb) (rb_head rb) n1" "mem_init (rb_buf rb) 0 n2"
      "ring_abs rb = mem_bytes (rb_buf rb) (rb_head rb) n1 @ mem_bytes (rb_buf rb) 0 n2"
    by (rule data_parts_ok [OF inv])
  then show ?thesis by (simp add: as_slices_def mem_read_ok)
qed

lemma clear_refines:
  assumes "ring_inv rb"
  shows "\<exists>rb'. (rb_clear rb :: ('e, _) res) = Ok rb' \<and> ring_inv rb' \<and> ring_abs rb' = [] \<and> rb_cap rb' = rb_cap rb"
proof -
  let ?rb = "rb\<lparr>rb_head := 0, rb_tail := 0\<rparr>"
  have "rb_len ?rb = 0" by (simp add: rb_len_eq)
  moreover have "(rb_clear rb :: ('e, _) res) = Ok ?rb"
    by (cases "rb_cap rb = 0") (simp_all add: rb_clear_def assert_cursors_in_bounds_def Let_def)
  ultimately show ?thesis
    using ring_invD(1) [OF assms] by (intro exI [of _ ?rb]) (simp add: ring_inv_def flip: length_0_conv)
qed

theorem drop_first_n_refines:
  assumes inv: "ring_inv rb" and n: "n \<le> rb_len rb"
  shows "\<exists>rb'. drop_first_n rb n = Ok rb' \<and> ring_inv rb' \<and> ring_abs rb' = drop n (ring_abs rb) \<and> rb_cap rb' = rb_cap rb"
proof (cases "rb_cap rb = 0")
  case True
  then have "n = 0" "rb_len rb = 0" using rb_len_cap_0 [OF inv True] n by simp_all
  then show ?thesis
    using True ring_invD(2) [OF inv True] inv
    by (intro exI [of _ rb]) (simp add: drop_first_n_def advance_head_def assert_cursors_in_bounds_def wrap_add_def Let_def)
next
  case False
  let ?rb = "rb\<lparr>rb_head := wrap_add (rb_head rb) n (rb_cap rb)\<rparr>"
  have c: "rb_head rb < rb_cap rb" "rb_tail rb < rb_cap rb" using ring_invD(3) [OF inv] False by auto
  have l: "rb_len rb < rb_cap rb" using rb_len_less [OF inv] False by simp
  have len: "rb_len ?rb = rb_len rb - n"
    using n c by (auto simp: rb_len_eq wrap_add_def Let_def split: if_splits)
  have pos: "rb_pos ?rb i = rb_pos rb (n + i)" if "i < rb_len rb - n" for i
    using that n c l by (auto simp: rb_pos_eq wrap_add_def Let_def)
  have "rb_head rb + n - rb_cap rb < rb_cap rb" using n l c by linarith
  then have h: "rb_head ?rb < rb_cap rb" by (simp add: wrap_add_def Let_def)
  have "drop_first_n rb n = Ok ?rb"
    using n c h by (simp add: drop_first_n_def advance_head_def assert_cursors_in_bounds_def Let_def)
  moreover have "ring_inv ?rb"
    using inv c h False len pos by (auto simp: ring_inv_def)
  moreover have "ring_abs ?rb = drop n (ring_abs rb)"
    using n by (intro nth_equalityI) (simp_all add: len nth_ring_abs pos)
  ultimately show ?thesis by auto
qed

lemma new_refines: "ring_inv rb_new" "ring_abs rb_new = []"
  by (simp_all add: ring_inv_def ring_abs_def rb_new_def rb_len_eq)

theorem extend_from_within_refines:
  assumes inv: "ring_inv rb" and n: "start + n \<le> rb_len rb" and max: "rb_len rb + n + 2 \<le> 2 ^ 62"
  shows "ring_extends rb (take n (drop start (ring_abs rb))) (extend_from_within rb start n :: ('e, _) res)"
proof -
  obtain r where r: "(rb_reserve rb n :: ('e, _) res) = Ok r" "ring_inv r" "ring_abs r = ring_abs rb"
    "n \<le> rb_free r" "rb_cap r \<le> max (rb_cap rb) (2 * (rb_len rb + n + 2) + SLACK)"
    using reserve_refines_holds [OF inv max, where 'e = 'e] by blast
  have l: "rb_len r = rb_len rb" by (metis length_ring_abs r(3))
  from extend_from_within_unchecked_refines_holds [OF r(2) _ r(4), of start, where 'e = 'e] n l r n
  show ?thesis by (auto simp: extend_from_within_def ring_appends_def ring_extends_def)
qed

end
