(* ===== verification/Match_Copy.thy ===== *)
theory Match_Copy
  imports Ring_Refine
begin

text \<open>
  The copy of a match.  The reference appends byte by byte, each byte the one \<open>offset\<close> back, so that
  a match may run into the bytes it writes.  The decoder copies in chunks that double; the interface
  \<open>byte_store\<close> collects what that loop relies on, and the ring buffer provides it.
\<close>

section \<open>The reference\<close>

fun copy_match :: "bytes \<Rightarrow> nat \<Rightarrow> nat \<Rightarrow> bytes" where
  "copy_match h offset 0 = h"
| "copy_match h offset (Suc n) = copy_match (h @ [h ! (length h - offset)]) offset n"

lemma length_copy_match [simp]: "length (copy_match h offset n) = length h + n"
  by (induction h offset n rule: copy_match.induct) simp_all

lemma copy_match_prefix: "take (length h) (copy_match h offset n) = h"
proof (induction h offset n rule: copy_match.induct)
  case (2 h offset n)
  have "take (length h) (copy_match (h @ [h ! (length h - offset)]) offset n)
    = take (length h) (take (Suc (length h)) (copy_match (h @ [h ! (length h - offset)]) offset n))"
    by simp
  also have "\<dots> = h" using 2 by simp
  finally show ?case by simp
qed simp

lemma copy_match_add: "copy_match h offset (m + n) = copy_match (copy_match h offset m) offset n"
  by (induction h offset m rule: copy_match.induct) simp_all

text \<open>The copied bytes only depend on the last \<open>offset\<close> bytes.\<close>

lemma copy_match_append:
  "offset \<le> length h \<Longrightarrow> 0 < offset \<Longrightarrow> copy_match (p @ h) offset n = p @ copy_match h offset n"
proof (induction n arbitrary: h)
  case (Suc n)
  have "(p @ h) ! (length (p @ h) - offset) = h ! (length h - offset)"
  proof -
    have "length (p @ h) - offset = length p + (length h - offset)" using Suc.prems by simp
    then show ?thesis by (simp only: nth_append_length_plus)
  qed
  then show ?case using Suc.IH [of "h @ [h ! (length h - offset)]"] Suc.prems by simp
qed simp

text \<open>A match that does not reach its own output is one block copy.\<close>

lemma copy_match_block:
  assumes "n \<le> offset" "offset \<le> length h"
  shows "copy_match h offset n = h @ take n (drop (length h - offset) h)"
  using assms
proof (induction n arbitrary: h)
  case (Suc n)
  let ?b = "h ! (length h - offset)"
  have "copy_match (h @ [?b]) offset n = (h @ [?b]) @ take n (drop (length (h @ [?b]) - offset) (h @ [?b]))"
    using Suc.prems by (intro Suc.IH) simp_all
  also have "drop (length (h @ [?b]) - offset) (h @ [?b]) = drop (Suc (length h - offset)) h @ [?b]"
    using Suc.prems by (simp add: Suc_diff_le)
  also have "take n \<dots> = take n (drop (Suc (length h - offset)) h)"
    using Suc.prems by simp
  also have "(h @ [?b]) @ \<dots> = h @ take (Suc n) (drop (length h - offset) h)"
    using Suc.prems by (simp add: take_Suc_conv_app_nth Cons_nth_drop_Suc [symmetric])
  finally show ?case by simp
qed simp

text \<open>In closed form: the last \<open>offset\<close> bytes over and over.\<close>

lemma copy_match_snoc:
  "copy_match h offset (Suc n) = (let g = copy_match h offset n in g @ [g ! (length g - offset)])"
  using copy_match_add [of h offset n 1] by (simp add: Let_def)

lemma copy_match_closed:
  assumes "0 < offset" "offset \<le> length h"
  shows "copy_match h offset n = h @ map (\<lambda>i. h ! (length h - offset + i mod offset)) [0..<n]"
proof (induction n)
  case (Suc n)
  let ?g = "copy_match h offset n"
  have "?g ! (length ?g - offset) = h ! (length h - offset + n mod offset)"
  proof (cases "n < offset")
    case True
    then have "length ?g - offset = length h - offset + n" "length h - offset + n < length h"
      using assms by simp_all
    then show ?thesis using True by (simp add: Suc nth_append)
  next
    case False
    then have "length ?g - offset = length h + (n - offset)" using assms by simp
    then show ?thesis using False assms by (simp add: Suc nth_append le_mod_geq)
  qed
  then show ?case by (simp only: copy_match_snoc Let_def) (simp add: Suc)
qed simp

text \<open>
  Once whole periods are copied, a chunk read from the anchor of the match continues it, whatever
  part of everything behind the anchor the chunk takes.
\<close>

lemma copy_match_chunk:
  assumes "0 < offset" "offset \<le> length h" "offset dvd c" "k \<le> offset + c"
  shows "copy_match h offset c @ take k (drop (length h - offset) (copy_match h offset c)) = copy_match h offset (c + k)"
proof (rule nth_equalityI)
  show "length (copy_match h offset c @ take k (drop (length h - offset) (copy_match h offset c)))
    = length (copy_match h offset (c + k))"
    using assms by simp
next
  fix i assume i: "i < length (copy_match h offset c @ take k (drop (length h - offset) (copy_match h offset c)))"
  have at: "copy_match h offset m ! j = (if j < length h then h ! j else h ! (length h - offset + (j - length h) mod offset))"
    if "j < length h + m" for m j
  proof (cases "j < length h")
    case False
    then have "j - length h < m" using that by simp
    then show ?thesis using False by (simp add: copy_match_closed [OF assms(1,2)] nth_append)
  qed (simp add: copy_match_closed [OF assms(1,2)] nth_append)
  show "(copy_match h offset c @ take k (drop (length h - offset) (copy_match h offset c))) ! i
    = copy_match h offset (c + k) ! i"
  proof (cases "i < length h + c")
    case True
    then show ?thesis by (simp add: nth_append at)
  next
    case False
    define j where "j = i - (length h + c)"
    then have ij: "i = length h + c + j" "j < k" using False i assms by simp_all
    have "(copy_match h offset c @ take k (drop (length h - offset) (copy_match h offset c))) ! i
      = copy_match h offset c ! (length h - offset + j)"
      using ij assms by (simp add: nth_append)
    also have "\<dots> = h ! (length h - offset + j mod offset)"
      using ij(2) assms by (subst at) (auto simp: le_mod_geq not_less le_diff_conv2)
    also have "\<dots> = copy_match h offset (c + k) ! i"
      using ij assms(3) by (subst at) (auto simp: mod_add_left_eq [symmetric] simp del: mod_add_left_eq)
    finally show ?thesis .
  qed
qed

section \<open>The chunked loop\<close>

text \<open>
  The loop of \<open>repeat_in_chunks\<close> over any store with a length and a copy from within.  A match with
  offset 0 would never grow, so that not returning is the result \<open>None\<close>.
\<close>

partial_function (option) chunk_loop ::
  "('b \<Rightarrow> nat) \<Rightarrow> ('b \<Rightarrow> nat \<Rightarrow> nat \<Rightarrow> ('e, 'b) res) \<Rightarrow> 'b \<Rightarrow> nat \<Rightarrow> nat \<Rightarrow> nat \<Rightarrow> nat \<Rightarrow> ('e, 'b) res option" where
  "chunk_loop count within b start_idx offset match_length n_copied =
     (if n_copied < match_length then
        if count b \<noteq> start_idx + offset + n_copied then Some Panic
        else let chunk = min (offset + n_copied) (match_length - n_copied) in
          (case within b start_idx chunk of
             Ok b' \<Rightarrow> chunk_loop count within b' start_idx offset match_length (n_copied + chunk)
           | Err e \<Rightarrow> Some (Err e)
           | Panic \<Rightarrow> Some Panic)
      else Some (Ok b))"

declare chunk_loop.simps [code]

text \<open>What the loop relies on: a content that grows by copies of its own parts while there is room.\<close>

locale byte_store =
  fixes good :: "'b \<Rightarrow> bool" and content :: "'b \<Rightarrow> bytes" and room :: "'b \<Rightarrow> nat"
    and count :: "'b \<Rightarrow> nat" and within :: "'b \<Rightarrow> nat \<Rightarrow> nat \<Rightarrow> ('e, 'b) res"
  assumes count_ok: "good b \<Longrightarrow> count b = length (content b)"
    and within_ok: "good b \<Longrightarrow> start + n \<le> length (content b) \<Longrightarrow> n \<le> room b \<Longrightarrow>
      \<exists>b'. within b start n = Ok b' \<and> good b' \<and> content b' = content b @ take n (drop start (content b))
        \<and> room b' = room b - n"
begin

lemma loop_copies:
  assumes "good b" "content b = copy_match h offset n_copied" "0 < offset" "offset \<le> length h"
    "n_copied \<le> ml" "offset dvd n_copied \<or> n_copied = ml" "ml - n_copied \<le> room b"
  shows "\<exists>b'. chunk_loop count within b (length h - offset) offset ml n_copied = Some (Ok b') \<and> good b'
    \<and> content b' = copy_match h offset ml \<and> room b' = room b - (ml - n_copied)"
  using assms
proof (induction "ml - n_copied" arbitrary: b n_copied rule: less_induct)
  case less
  show ?case
  proof (cases "n_copied < ml")
    case False
    then show ?thesis using less.prems by (simp add: chunk_loop.simps)
  next
    case True
    let ?start = "length h - offset"
    define chunk where "chunk = min (offset + n_copied) (ml - n_copied)"
    have c: "0 < chunk" "chunk \<le> offset + n_copied" "chunk \<le> ml - n_copied" "n_copied + chunk \<le> ml"
      using True less.prems(3) by (simp_all add: chunk_def)
    have dv: "offset dvd n_copied" using less.prems(6) True by simp
    have l: "length (content b) = length h + n_copied" using less.prems(2) by simp
    have "?start + chunk \<le> length (content b)" using c(2) less.prems(4) unfolding l by linarith
    moreover have "chunk \<le> room b" using c(3) less.prems(7) by simp
    ultimately obtain b' where b': "within b ?start chunk = Ok b'" "good b'"
      "content b' = content b @ take chunk (drop ?start (content b))" "room b' = room b - chunk"
      using within_ok [OF less.prems(1)] by blast
    have cb: "content b' = copy_match h offset (n_copied + chunk)"
      unfolding b'(3) less.prems(2) by (rule copy_match_chunk [OF less.prems(3,4) dv c(2)])
    have "offset dvd n_copied + chunk \<or> n_copied + chunk = ml"
      using dv by (auto simp: chunk_def min_def)
    moreover have "ml - (n_copied + chunk) < ml - n_copied" "ml - (n_copied + chunk) \<le> room b'"
      using c True less.prems(7) b'(4) by simp_all
    ultimately obtain b'' where r: "chunk_loop count within b' ?start offset ml (n_copied + chunk) = Some (Ok b'')"
      "good b''" "content b'' = copy_match h offset ml" "room b'' = room b' - (ml - (n_copied + chunk))"
      using less.hyps [OF _ b'(2) cb less.prems(3,4) c(4)] by blast
    have "count b = ?start + offset + n_copied" using count_ok [OF less.prems(1)] l less.prems(4) by simp
    then have "chunk_loop count within b ?start offset ml n_copied = Some (Ok b'')"
      using True b'(1) r(1) by (subst chunk_loop.simps) (simp add: Let_def flip: chunk_def)
    then show ?thesis using r b'(4) c(3) by (intro exI [of _ b'']) simp
  qed
qed

text \<open>Without the check for offset 0 the loop would not return.\<close>

lemma loop_stuck:
  assumes "chunk_loop count' within' b start offset ml n_copied = Some r"
  shows "\<not> (count' = count \<and> within' = within \<and> offset = 0 \<and> n_copied = 0 \<and> 0 < ml \<and> good b \<and> start = length (content b))"
proof (rule chunk_loop.raw_induct [OF _ assms])
  fix f :: "('b \<Rightarrow> nat) \<Rightarrow> ('b \<Rightarrow> nat \<Rightarrow> nat \<Rightarrow> ('e, 'b) res) \<Rightarrow> 'b \<Rightarrow> nat \<Rightarrow> nat \<Rightarrow> nat \<Rightarrow> nat \<Rightarrow> ('e, 'b) res option"
    and count' within' b start_idx offset match_length n_copied y
  assume IH: "\<And>count' within' b start_idx offset match_length n_copied y.
      f count' within' b start_idx offset match_length n_copied = Some y \<Longrightarrow>
      \<not> (count' = count \<and> within' = within \<and> offset = 0 \<and> n_copied = 0 \<and> 0 < match_length \<and> good b \<and> start_idx = length (content b))"
    and run: "(if n_copied < match_length then
        if count' b \<noteq> start_idx + offset + n_copied then Some Panic
        else let chunk = min (offset + n_copied) (match_length - n_copied) in
          (case within' b start_idx chunk of
             Ok b' \<Rightarrow> f count' within' b' start_idx offset match_length (n_copied + chunk)
           | Err e \<Rightarrow> Some (Err e)
           | Panic \<Rightarrow> Some Panic)
      else Some (Ok b)) = Some y"
  show "\<not> (count' = count \<and> within' = within \<and> offset = 0 \<and> n_copied = 0 \<and> 0 < match_length \<and> good b \<and> start_idx = length (content b))"
  proof
    assume a: "count' = count \<and> within' = within \<and> offset = 0 \<and> n_copied = 0 \<and> 0 < match_length \<and> good b \<and> start_idx = length (content b)"
    then obtain b' where b': "within b start_idx 0 = Ok b'" "good b'" "content b' = content b"
      using within_ok [of b start_idx 0] by auto
    have "count b = start_idx" using a count_ok by simp
    then have "f count within b' start_idx 0 match_length 0 = Some y" using run a b'(1) by simp
    from IH [OF this] a b' show False by simp
  qed
qed

end

interpretation ring: byte_store ring_inv ring_abs rb_free rb_len
  "extend_from_within_unchecked :: RingBuffer \<Rightarrow> nat \<Rightarrow> nat \<Rightarrow> ('e, RingBuffer) res"
proof
  fix b start n
  assume inv: "ring_inv b" and n: "start + n \<le> length (ring_abs b)" "n \<le> rb_free b"
  then have a: "ring_appends b (take n (drop start (ring_abs b))) (extend_from_within_unchecked b start n :: ('e, _) res)"
    by (intro extend_from_within_unchecked_refines_holds) simp_all
  then obtain b' where b': "(extend_from_within_unchecked b start n :: ('e, _) res) = Ok b'" "ring_inv b'"
    "ring_abs b' = ring_abs b @ take n (drop start (ring_abs b))" by (auto simp: ring_appends_def)
  have "rb_free b' = rb_free b - n"
    using ring_appends_free [OF inv a [unfolded b'(1)]] n by simp
  with b' show "\<exists>b'. (extend_from_within_unchecked b start n :: ('e, _) res) = Ok b' \<and> ring_inv b'
      \<and> ring_abs b' = ring_abs b @ take n (drop start (ring_abs b)) \<and> rb_free b' = rb_free b - n" by blast
qed simp

end
