(* ===== verification/Decode_Buffer.thy ===== *)
theory Decode_Buffer
  imports Match_Copy Xxh64
begin

text \<open>
  The decode buffer \<open>decoding/decode_buffer.rs\<close>: the retained history in the ring, the dictionary in
  front of it, the output counter, the checksum over drained bytes, and the drains.  A drain that
  fails keeps what was delivered, so drains return their state beside their outcome.
\<close>

section \<open>State\<close>

datatype DecodeBufferError =
    NotEnoughBytesInDictionary nat nat  \<comment> \<open>got, need\<close>
  | OffsetTooBig nat nat  \<comment> \<open>offset, buffer length\<close>

record DecodeBuffer =
  db_buffer :: RingBuffer
  db_dict_content :: bytes
  db_window_size :: nat
  db_total_output_counter :: nat
  db_hash_enabled :: bool
  db_hash :: Xxh64

definition db_new :: "nat \<Rightarrow> DecodeBuffer" where
  "db_new window = \<lparr>db_buffer = rb_new, db_dict_content = [], db_window_size = window,
     db_total_output_counter = 0, db_hash_enabled = False, db_hash = xx_new 0\<rparr>"

definition db_reset :: "DecodeBuffer \<Rightarrow> nat \<Rightarrow> ('e, DecodeBuffer) res" where
  "db_reset db window =
     rbind (rb_clear (db_buffer db)) (\<lambda>buf. rbind (rb_reserve buf window) (\<lambda>buf.
       Ok (db\<lparr>db_window_size := window, db_buffer := buf, db_dict_content := [],
         db_total_output_counter := 0, db_hash_enabled := False, db_hash := xx_new 0\<rparr>)))"

definition set_checksum_enabled :: "DecodeBuffer \<Rightarrow> bool \<Rightarrow> DecodeBuffer" where
  "set_checksum_enabled db on = db\<lparr>db_hash_enabled := on\<rparr>"

definition hash_bytes :: "DecodeBuffer \<Rightarrow> bytes \<Rightarrow> ('e, DecodeBuffer) res" where
  "hash_bytes db bs =
     (if db_hash_enabled db then rbind (xx_write (db_hash db) bs) (\<lambda>h. Ok (db\<lparr>db_hash := h\<rparr>)) else Ok db)"

definition hash_pending :: "DecodeBuffer \<Rightarrow> ('e, DecodeBuffer) res" where
  "hash_pending db =
     (if db_hash_enabled db then
        rbind (as_slices (db_buffer db)) (\<lambda>(a, b).
        rbind (xx_write (db_hash db) a) (\<lambda>h. rbind (xx_write h b) (\<lambda>h. Ok (db\<lparr>db_hash := h\<rparr>))))
      else Ok db)"

definition db_len :: "DecodeBuffer \<Rightarrow> nat" where
  "db_len db = rb_len (db_buffer db)"

definition total_output :: "DecodeBuffer \<Rightarrow> nat" where
  "total_output db = db_total_output_counter db"

text \<open>The counter is a \<open>u64\<close>; exceeding it is the overflow panic of \<open>+=\<close>.\<close>

definition count_output :: "DecodeBuffer \<Rightarrow> nat \<Rightarrow> ('e, DecodeBuffer) res" where
  "count_output db n = rbind (rassert (db_total_output_counter db + n < 2 ^ 64)) (\<lambda>_.
     Ok (db\<lparr>db_total_output_counter := db_total_output_counter db + n\<rparr>))"

section \<open>Appends\<close>

definition db_reserve :: "DecodeBuffer \<Rightarrow> nat \<Rightarrow> ('e, DecodeBuffer) res" where
  "db_reserve db amount = rbind (rb_reserve (db_buffer db) amount) (\<lambda>buf. Ok (db\<lparr>db_buffer := buf\<rparr>))"

definition db_extend_and_fill :: "DecodeBuffer \<Rightarrow> u8 \<Rightarrow> nat \<Rightarrow> ('e, DecodeBuffer) res" where
  "db_extend_and_fill db fill_with fill_length =
     rbind (rb_extend_and_fill (db_buffer db) fill_with fill_length) (\<lambda>buf.
       count_output (db\<lparr>db_buffer := buf\<rparr>) fill_length)"

definition db_extend_from_reader ::
  "'r reader \<Rightarrow> DecodeBuffer \<Rightarrow> 'r \<Rightarrow> nat \<Rightarrow> (ErrorKind, DecodeBuffer \<times> 'r) res" where
  "db_extend_from_reader rd db r fill_length =
     rbind (rb_extend_from_reader rd (db_buffer db) r fill_length) (\<lambda>(buf, r).
     rbind (count_output (db\<lparr>db_buffer := buf\<rparr>) fill_length) (\<lambda>db. Ok (db, r)))"

definition db_push :: "DecodeBuffer \<Rightarrow> bytes \<Rightarrow> ('e, DecodeBuffer) res" where
  "db_push db data =
     rbind (rb_extend (db_buffer db) data) (\<lambda>buf. count_output (db\<lparr>db_buffer := buf\<rparr>) (length data))"

definition push_pre_reserved :: "DecodeBuffer \<Rightarrow> bytes \<Rightarrow> ('e, DecodeBuffer) res" where
  "push_pre_reserved db data =
     rbind (rassert (rb_free (db_buffer db) \<ge> length data)) (\<lambda>_.
     rbind (extend_pre_reserved (db_buffer db) data) (\<lambda>buf.
       count_output (db\<lparr>db_buffer := buf\<rparr>) (length data)))"

section \<open>Matches\<close>

definition repeat_in_chunks :: "RingBuffer \<Rightarrow> nat \<Rightarrow> nat \<Rightarrow> nat \<Rightarrow> ('e, RingBuffer) res option" where
  "repeat_in_chunks buffer offset match_length start_idx =
     chunk_loop rb_len extend_from_within_unchecked buffer start_idx offset match_length 0"

text \<open>The branch of \<open>repeat_reserved\<close> for an offset inside the retained history.\<close>

definition repeat_retained :: "DecodeBuffer \<Rightarrow> nat \<Rightarrow> nat \<Rightarrow> ('e, DecodeBuffer) res option" where
  "repeat_retained db offset match_length =
     (let buf_len = rb_len (db_buffer db); start_idx = buf_len - offset; end_idx = start_idx + match_length
      in if rb_free (db_buffer db) < match_length then Some Panic
      else map_option (\<lambda>r. rbind r (\<lambda>buf. count_output (db\<lparr>db_buffer := buf\<rparr>) match_length))
       (if end_idx > buf_len then repeat_in_chunks (db_buffer db) offset match_length start_idx
        else Some (extend_from_within_unchecked (db_buffer db) start_idx match_length)))"

text \<open>
  The part of a match that lies in the dictionary.  The second component is the tail call
  \<open>self.repeat(self.buffer.len(), rest)\<close> of the source, \<open>None\<close> when the match is complete.
\<close>

definition repeat_from_dict ::
  "DecodeBuffer \<Rightarrow> nat \<Rightarrow> nat \<Rightarrow> (DecodeBufferError, DecodeBuffer \<times> nat option) res" where
  "repeat_from_dict db offset match_length =
     (let len = rb_len (db_buffer db); dict = db_dict_content db in
      rbind (rassert (db_total_output_counter db \<ge> len)) (\<lambda>_.
      if len = db_total_output_counter db then
        rbind (rsub offset len) (\<lambda>bytes_from_dict.
        if bytes_from_dict > length dict then
          Err (NotEnoughBytesInDictionary (length dict) bytes_from_dict)
        else if bytes_from_dict < match_length then
          rbind (rb_extend (db_buffer db) (drop (length dict - bytes_from_dict) dict)) (\<lambda>buf.
          rbind (count_output (db\<lparr>db_buffer := buf\<rparr>) bytes_from_dict) (\<lambda>db.
            Ok (db, Some (match_length - bytes_from_dict))))
        else
          let low = length dict - bytes_from_dict; high = low + match_length in
          rbind (rassert (high \<le> length dict)) (\<lambda>_.
          rbind (rb_extend (db_buffer db) (take match_length (drop low dict))) (\<lambda>buf.
          rbind (count_output (db\<lparr>db_buffer := buf\<rparr>) match_length) (\<lambda>db. Ok (db, None)))))
      else Err (OffsetTooBig offset len)))"

text \<open>\<open>None\<close> is a match that never returns.\<close>

partial_function (option) repeat_reserved ::
  "DecodeBuffer \<Rightarrow> nat \<Rightarrow> nat \<Rightarrow> (DecodeBufferError, DecodeBuffer) res option" where
  "repeat_reserved db offset match_length =
     (if offset > rb_len (db_buffer db) then
        (case repeat_from_dict db offset match_length of
           Ok (db, rest) \<Rightarrow>
             (case rest of
                None \<Rightarrow> Some (Ok db)
              | Some n \<Rightarrow>
                  (case db_reserve db n of
                     Ok db' \<Rightarrow> repeat_reserved db' (rb_len (db_buffer db)) n
                   | Err e \<Rightarrow> Some (Err e)
                   | Panic \<Rightarrow> Some Panic))
         | Err e \<Rightarrow> Some (Err e)
         | Panic \<Rightarrow> Some Panic)
      else repeat_retained db offset match_length)"

declare repeat_reserved.simps [code]

definition db_repeat :: "DecodeBuffer \<Rightarrow> nat \<Rightarrow> nat \<Rightarrow> (DecodeBufferError, DecodeBuffer) res option" where
  "db_repeat db offset match_length =
     (case db_reserve db match_length of
        Ok db \<Rightarrow> repeat_reserved db offset match_length
      | Err e \<Rightarrow> Some (Err e)
      | Panic \<Rightarrow> Some Panic)"

definition repeat_pre_reserved :: "DecodeBuffer \<Rightarrow> nat \<Rightarrow> nat \<Rightarrow> (DecodeBufferError, DecodeBuffer) res option" where
  "repeat_pre_reserved db offset match_length = repeat_reserved db offset match_length"

section \<open>Drains\<close>

definition can_drain_to_window_size :: "DecodeBuffer \<Rightarrow> nat option" where
  "can_drain_to_window_size db =
     (if rb_len (db_buffer db) > db_window_size db then Some (rb_len (db_buffer db) - db_window_size db) else None)"

definition can_drain :: "DecodeBuffer \<Rightarrow> nat" where
  "can_drain db = rb_len (db_buffer db)"

text \<open>The closure that takes the bytes: how many it took, and whether it failed.\<close>

type_synonym 's dump = "'s \<Rightarrow> bytes \<Rightarrow> (nat \<times> (ErrorKind, unit) res) \<times> 's"

text \<open>The guard drops the delivered bytes on every way out.\<close>

definition drain_guard ::
  "DecodeBuffer \<Rightarrow> nat \<Rightarrow> (ErrorKind, nat) res \<Rightarrow> 's \<Rightarrow> (ErrorKind, nat) res \<times> DecodeBuffer \<times> 's" where
  "drain_guard db amount r s =
     (if amount \<noteq> 0 then
        (case (drop_first_n (db_buffer db) amount :: (unit, _) res) of
           Ok buf \<Rightarrow> (r, db\<lparr>db_buffer := buf\<rparr>, s)
         | _ \<Rightarrow> (Panic, db, s))
      else (r, db, s))"

text \<open>One call of the closure, and the checksum over what it took.\<close>

definition dump_slice ::
  "'s dump \<Rightarrow> DecodeBuffer \<Rightarrow> bytes \<Rightarrow> nat \<Rightarrow> 's \<Rightarrow> (nat \<times> (ErrorKind, unit) res) \<times> (unit, DecodeBuffer) res \<times> 's" where
  "dump_slice write_bytes db slc n s =
     (case write_bytes s (take n slc) of ((written, res), s) \<Rightarrow>
        ((written, res),
         (if db_hash_enabled db then
            rbind (rassert (written \<le> length slc)) (\<lambda>_. hash_bytes db (take written slc))
          else Ok db), s))"

definition drain_to ::
  "'s dump \<Rightarrow> DecodeBuffer \<Rightarrow> nat \<Rightarrow> 's \<Rightarrow> (ErrorKind, nat) res \<times> DecodeBuffer \<times> 's" where
  "drain_to write_bytes db amount s =
     (if amount = 0 then (Ok 0, db, s)
      else case (as_slices (db_buffer db) :: (unit, _) res) of
        Ok (part1, part2) \<Rightarrow>
          (let n1 = min (length part1) amount; n2 = min (length part2) (amount - n1)
           in if n1 \<noteq> 0 then
             (case dump_slice write_bytes db part1 n1 s of
                ((written1, res1), Ok db, s) \<Rightarrow>
                  (case res1 of
                     Ok _ \<Rightarrow>
                       if written1 = n1 \<and> n2 \<noteq> 0 then
                         (case dump_slice write_bytes db part2 n2 s of
                            ((written2, res2), Ok db, s) \<Rightarrow>
                              (case res2 of
                                 Ok _ \<Rightarrow> drain_guard db (written1 + written2) (Ok (written1 + written2)) s
                               | Err e \<Rightarrow> drain_guard db (written1 + written2) (Err e) s
                               | Panic \<Rightarrow> drain_guard db (written1 + written2) Panic s)
                          | (_, _, s) \<Rightarrow> drain_guard db written1 Panic s)
                       else drain_guard db written1 (Ok written1) s
                   | Err e \<Rightarrow> drain_guard db written1 (Err e) s
                   | Panic \<Rightarrow> drain_guard db written1 Panic s)
              | (_, _, s) \<Rightarrow> (Panic, db, s))
           else (Ok 0, db, s))
      | _ \<Rightarrow> (Panic, db, s))"

text \<open>\<open>write_all\<close> that reports how much was taken before an error.\<close>

function write_all_bytes :: "'w writer \<Rightarrow> 'w \<Rightarrow> bytes \<Rightarrow> nat \<Rightarrow> (nat \<times> (ErrorKind, unit) res) \<times> 'w" where
  "write_all_bytes wr w buf written =
     (if written < length buf then
        (case wr w (drop written buf) of
           (Ok n, w) \<Rightarrow> if n = 0 then ((written, Ok ()), w) else write_all_bytes wr w buf (written + n)
         | (Err e, w) \<Rightarrow> ((written, Err e), w)
         | (Panic, w) \<Rightarrow> ((written, Panic), w))
      else ((written, Ok ()), w))"
  by pat_completeness auto
termination
  by (relation "measure (\<lambda>(wr, w, buf, written). length buf - written)") auto

declare write_all_bytes.simps [simp del]

definition drain_to_window_size_writer ::
  "'w writer \<Rightarrow> DecodeBuffer \<Rightarrow> 'w \<Rightarrow> (ErrorKind, nat) res \<times> DecodeBuffer \<times> 'w" where
  "drain_to_window_size_writer wr db sink =
     (case can_drain_to_window_size db of
        None \<Rightarrow> (Ok 0, db, sink)
      | Some n \<Rightarrow> drain_to (\<lambda>w buf. write_all_bytes wr w buf 0) db n sink)"

definition drain_to_writer ::
  "'w writer \<Rightarrow> DecodeBuffer \<Rightarrow> 'w \<Rightarrow> (ErrorKind, nat) res \<times> DecodeBuffer \<times> 'w" where
  "drain_to_writer wr db sink =
     drain_to (\<lambda>w buf. write_all_bytes wr w buf 0) db (rb_len (db_buffer db)) sink"

text \<open>The closures that collect into a vector, and into a target slice from its start.\<close>

definition dump_vec :: "bytes dump" where
  "dump_vec vec buf = ((length buf, Ok ()), vec @ buf)"

definition drain_to_window_size :: "DecodeBuffer \<Rightarrow> (ErrorKind, bytes option) res \<times> DecodeBuffer" where
  "drain_to_window_size db =
     (case can_drain_to_window_size db of
        None \<Rightarrow> (Ok None, db)
      | Some n \<Rightarrow>
          (case drain_to dump_vec db n [] of
             (Ok _, db, vec) \<Rightarrow> (Ok (Some vec), db)
           | (Err _, db, _) \<Rightarrow> (Ok None, db)
           | (Panic, db, _) \<Rightarrow> (Panic, db)))"

text \<open>Draining everything at once.\<close>

definition db_drain :: "DecodeBuffer \<Rightarrow> ('e, bytes \<times> DecodeBuffer) res" where
  "db_drain db =
     rbind (as_slices (db_buffer db)) (\<lambda>(part1, part2).
     rbind (rbind (hash_bytes db part1) (\<lambda>db. hash_bytes db part2)) (\<lambda>db.
     rbind (rb_clear (db_buffer db)) (\<lambda>buf.
       Ok (part1 @ part2, db\<lparr>db_buffer := buf\<rparr>))))"

text \<open>\<open>copy_from_slice\<close> into a target with \<open>room\<close> bytes, from the count written so far.\<close>

definition dump_target :: "nat \<Rightarrow> bytes dump" where
  "dump_target room target buf =
     (if length target + length buf \<le> room then ((length buf, Ok ()), target @ buf) else ((0, Panic), target))"

definition read_all :: "DecodeBuffer \<Rightarrow> nat \<Rightarrow> (ErrorKind, nat) res \<times> DecodeBuffer \<times> bytes" where
  "read_all db room =
     (let amount = min (rb_len (db_buffer db)) room in
      case drain_to (dump_target room) db amount [] of
        (Ok _, db, target) \<Rightarrow> (Ok amount, db, target)
      | (e, db, target) \<Rightarrow> (e, db, target))"

definition db_read :: "DecodeBuffer \<Rightarrow> nat \<Rightarrow> (ErrorKind, nat) res \<times> DecodeBuffer \<times> bytes" where
  "db_read db room =
     (let max_amount = (case can_drain_to_window_size db of Some n \<Rightarrow> n | None \<Rightarrow> 0); amount = min max_amount room in
      case drain_to (dump_target room) db amount [] of
        (Ok _, db, target) \<Rightarrow> (Ok amount, db, target)
      | (e, db, target) \<Rightarrow> (e, db, target))"

end
