(* ===== verification/Decode_Refine.thy ===== *)
theory Decode_Refine
  imports Decode_Buffer
begin

text \<open>
  What the decode buffer promises: a match appends what the byte-wise reference appends over the
  dictionary followed by the retained history, or is refused with the documented error; a drain
  delivers a prefix of the history in order, keeps the rest, and hashes exactly what was delivered.
\<close>

section \<open>Matches\<close>

definition history :: "DecodeBuffer \<Rightarrow> bytes" where
  "history db = ring_abs (db_buffer db)"

definition db_ok :: "DecodeBuffer \<Rightarrow> bool" where
  "db_ok db \<longleftrightarrow> ring_inv (db_buffer db) \<and> rb_len (db_buffer db) \<le> db_total_output_counter db"

abbreviation appended :: "DecodeBuffer \<Rightarrow> RingBuffer \<Rightarrow> nat \<Rightarrow> DecodeBuffer" where
  "appended db buf n \<equiv> db\<lparr>db_buffer := buf, db_total_output_counter := db_total_output_counter db + n\<rparr>"

lemma repeat_retained_ok:
  assumes inv: "ring_inv (db_buffer db)" and o: "0 < offset" "offset \<le> rb_len (db_buffer db)"
    and room: "n \<le> rb_free (db_buffer db)" and max: "db_total_output_counter db + n < 2 ^ 64"
  shows "\<exists>buf. (repeat_retained db offset n :: ('e, _) res option) = Some (Ok (appended db buf n)) \<and> ring_inv buf
    \<and> ring_abs buf = copy_match (history db) offset n \<and> rb_free buf = rb_free (db_buffer db) - n"
proof -
  let ?b = "db_buffer db" and ?h = "history db"
  have h: "length ?h = rb_len ?b" "ring_abs ?b = ?h" by (simp_all add: history_def)
  have "\<exists>buf. (if rb_len ?b - offset + n > rb_len ?b then repeat_in_chunks ?b offset n (rb_len ?b - offset)
        else Some (extend_from_within_unchecked ?b (rb_len ?b - offset) n) :: ('e, _) res option) = Some (Ok buf)
      \<and> ring_inv buf \<and> ring_abs buf = copy_match ?h offset n \<and> rb_free buf = rb_free ?b - n"
  proof (cases "rb_len ?b - offset + n > rb_len ?b")
    case True
    have "\<exists>b'. chunk_loop rb_len (extend_from_within_unchecked :: _ \<Rightarrow> _ \<Rightarrow> _ \<Rightarrow> ('e, _) res) ?b (length ?h - offset) offset n 0
        = Some (Ok b') \<and> ring_inv b' \<and> ring_abs b' = copy_match ?h offset n \<and> rb_free b' = rb_free ?b - (n - 0)"
      using o room h by (intro ring.loop_copies [OF inv]) simp_all
    then show ?thesis using True h(1) by (auto simp: repeat_in_chunks_def)
  next
    case False
    then have n: "n \<le> offset" "rb_len ?b - offset + n \<le> length (ring_abs ?b)" using o by simp_all
    have "copy_match ?h offset n = ?h @ take n (drop (rb_len ?b - offset) ?h)"
      using copy_match_block [OF n(1), of ?h] o h(1) by simp
    then show ?thesis using ring.within_ok [OF inv n(2) room, where 'e = 'e] False h by auto
  qed
  then obtain buf where b: "(if rb_len ?b - offset + n > rb_len ?b then repeat_in_chunks ?b offset n (rb_len ?b - offset)
        else Some (extend_from_within_unchecked ?b (rb_len ?b - offset) n) :: ('e, _) res option) = Some (Ok buf)"
      "ring_inv buf" "ring_abs buf = copy_match ?h offset n" "rb_free buf = rb_free ?b - n" by blast
  have "(repeat_retained db offset n :: ('e, _) res option) = Some (Ok (appended db buf n))"
    unfolding repeat_retained_def Let_def b(1) using room max by (simp add: count_output_def)
  with b show ?thesis by blast
qed

lemma repeat_reserved_retained:
  "offset \<le> rb_len (db_buffer db) \<Longrightarrow> repeat_reserved db offset n = repeat_retained db offset n"
  by (subst repeat_reserved.simps) simp

lemma db_reserve_ok:
  assumes "ring_inv (db_buffer db)" "rb_len (db_buffer db) + n + 2 \<le> 2 ^ 62"
  shows "\<exists>buf. (db_reserve db n :: ('e, _) res) = Ok (db\<lparr>db_buffer := buf\<rparr>) \<and> ring_inv buf
    \<and> ring_abs buf = ring_abs (db_buffer db) \<and> n \<le> rb_free buf"
  using reserve_refines_holds [OF assms, where 'e = 'e] by (auto simp: db_reserve_def)

text \<open>The last \<open>k\<close> bytes of the dictionary, seen from the end of the history.\<close>

lemma dict_bytes:
  assumes "length h < offset" "offset \<le> length h + length d" "n \<le> offset - length h"
  shows "copy_match (d @ h) offset n = d @ h @ take n (drop (length d - (offset - length h)) d)"
proof -
  have "copy_match (d @ h) offset n = (d @ h) @ take n (drop (length (d @ h) - offset) (d @ h))"
    using assms by (intro copy_match_block) simp_all
  moreover have "take n (drop (length (d @ h) - offset) (d @ h)) = take n (drop (length d - (offset - length h)) d)"
    using assms by simp
  ultimately show ?thesis by simp
qed

lemma extend_free:
  assumes "ring_inv rb" "length bs \<le> rb_free rb" "(rb_extend rb bs :: ('e, _) res) = Ok buf"
  shows "rb_free buf = rb_free rb - length bs"
proof -
  have "ring_appends rb bs (Ok buf :: ('e, _) res)" using extend_appends [OF assms(1,2), where 'e = 'e] assms(3) by simp
  then show ?thesis by (rule ring_appends_free [OF assms(1)])
qed

lemma repeat_dict_ok:
  assumes ok: "db_ok db" and len: "rb_len (db_buffer db) = db_total_output_counter db"
    and o: "rb_len (db_buffer db) < offset" "offset \<le> rb_len (db_buffer db) + length (db_dict_content db)"
    and max: "rb_len (db_buffer db) + n + 2 \<le> 2 ^ 62"
  shows "\<exists>buf. repeat_reserved db offset n = Some (Ok (appended db buf n)) \<and> ring_inv buf
    \<and> db_dict_content db @ ring_abs buf = copy_match (db_dict_content db @ history db) offset n
    \<and> (n \<le> rb_free (db_buffer db) \<longrightarrow> rb_free buf = rb_free (db_buffer db) - n)"
proof -
  let ?b = "db_buffer db" and ?h = "history db" and ?d = "db_dict_content db"
  define k where kd: "k = offset - rb_len ?b"
  have inv: "ring_inv ?b" using ok by (simp add: db_ok_def)
  have h: "length ?h = rb_len ?b" "ring_abs ?b = ?h" by (simp_all add: history_def)
  have k: "k \<le> length ?d" "0 < k" using o by (simp_all add: kd)
  have ok: "offset = rb_len ?b + k" using o by (simp add: kd)
  have rs: "rsub offset (rb_len ?b) = Ok k" using o by (simp add: rsub_def kd)
  have max64: "db_total_output_counter db + n < 2 ^ 64" using max len by simp
  show ?thesis
  proof (cases "k < n")
    case False
    let ?s = "take n (drop (length ?d - k) ?d)"
    have ls: "length ?s = n" using False k by simp
    have "ring_extends ?b ?s (rb_extend ?b ?s :: (DecodeBufferError, _) res)"
      using max ls by (intro extend_refines [OF inv]) simp
    then obtain buf where b: "(rb_extend ?b ?s :: (DecodeBufferError, _) res) = Ok buf" "ring_inv buf" "ring_abs buf = ?h @ ?s"
      by (auto simp: ring_extends_def h)
    have fr: "n \<le> rb_free ?b \<longrightarrow> rb_free buf = rb_free ?b - n"
      using extend_free [OF inv _ b(1)] ls by simp
    have hl: "length ?d - k + n \<le> length ?d" using k False by linarith
    have "repeat_from_dict db offset n = Ok (appended db buf n, None)"
      using hl k False len max64 b(1)
      by (simp add: repeat_from_dict_def rs Let_def count_output_def flip: len)
    then have "repeat_reserved db offset n = Some (Ok (appended db buf n))"
      using o(1) by (subst repeat_reserved.simps) simp
    moreover have "?d @ ring_abs buf = copy_match (?d @ ?h) offset n"
      using dict_bytes [of ?h offset ?d n] o False b(3) h by (simp flip: kd)
    ultimately show ?thesis using b(2) fr by blast
  next
    case True
    let ?s = "drop (length ?d - k) ?d"
    have ls: "length ?s = k" using k by simp
    have "ring_extends ?b ?s (rb_extend ?b ?s :: (DecodeBufferError, _) res)"
      using max ls True by (intro extend_refines [OF inv]) simp
    then obtain b1 where b1: "(rb_extend ?b ?s :: (DecodeBufferError, _) res) = Ok b1" "ring_inv b1" "ring_abs b1 = ?h @ ?s"
      by (auto simp: ring_extends_def h)
    have l1: "rb_len b1 = offset" using arg_cong [OF b1(3), of length] ls h(1) ok by simp
    let ?db = "appended db b1 k"
    have k64: "db_total_output_counter db + k < 2 ^ 64" using max64 True by linarith
    have d1: "repeat_from_dict db offset n = Ok (?db, Some (n - k))"
      using k64 k True b1(1) by (simp add: repeat_from_dict_def rs Let_def count_output_def len [symmetric])
    have "rb_len b1 + (n - k) + 2 \<le> 2 ^ 62" using l1 max True unfolding ok by simp
    then obtain b2 where b2: "(db_reserve ?db (n - k) :: (DecodeBufferError, _) res) = Ok (?db\<lparr>db_buffer := b2\<rparr>)"
      "ring_inv b2" "ring_abs b2 = ring_abs b1" "n - k \<le> rb_free b2"
      using db_reserve_ok [of ?db "n - k", where 'e = DecodeBufferError] b1(2) by auto
    have f1: "rb_free b1 = rb_free ?b - k" "b2 = b1" if "n \<le> rb_free ?b"
    proof -
      have "k \<le> rb_free ?b" using that True by simp
      then show f: "rb_free b1 = rb_free ?b - k" using extend_free [OF inv _ b1(1)] ls by simp
      have "n - k \<le> rb_free b1" using that True f by simp
      then show "b2 = b1" using b2(1) by (auto simp: db_reserve_def rb_reserve_def dest: arg_cong [where f = db_buffer])
    qed
    have l2: "rb_len b2 = offset" using b2(3) l1 by (metis length_ring_abs)
    let ?db2 = "?db\<lparr>db_buffer := b2\<rparr>"
    have r: "repeat_reserved db offset n = repeat_retained ?db2 offset (n - k)"
      using o(1) l2 by (subst repeat_reserved.simps) (simp add: d1 b2(1) l1 repeat_reserved_retained)
    have "0 < offset" "offset \<le> rb_len (db_buffer ?db2)" "n - k \<le> rb_free (db_buffer ?db2)"
      "db_total_output_counter ?db2 + (n - k) < 2 ^ 64"
      using o l2 b2(4) max64 True by simp_all
    then obtain buf where b: "(repeat_retained ?db2 offset (n - k) :: (DecodeBufferError, _) res option) = Some (Ok (appended ?db2 buf (n - k)))"
      "ring_inv buf" "ring_abs buf = copy_match (history ?db2) offset (n - k)" "rb_free buf = rb_free b2 - (n - k)"
      using repeat_retained_ok [of ?db2 offset "n - k", where 'e = DecodeBufferError] b2(2) by auto
    have hs: "history ?db2 = ?h @ ?s" using b2(3) b1(3) by (simp add: history_def)
    have "copy_match (?d @ ?h) offset n = copy_match (copy_match (?d @ ?h) offset k) offset (n - k)"
      using True by (simp flip: copy_match_add)
    also have "copy_match (?d @ ?h) offset k = ?d @ (?h @ ?s)"
      using dict_bytes [of ?h offset ?d k] o h ls by (simp flip: kd)
    also have "copy_match (?d @ (?h @ ?s)) offset (n - k) = ?d @ copy_match (?h @ ?s) offset (n - k)"
      using ls h ok o(1) by (intro copy_match_append) simp_all
    finally have "?d @ ring_abs buf = copy_match (?d @ ?h) offset n" using b(3) hs by simp
    moreover have "appended ?db2 buf (n - k) = appended db buf n" using True by simp
    moreover have "n \<le> rb_free ?b \<longrightarrow> rb_free buf = rb_free ?b - n" using b(4) f1 True by auto
    ultimately show ?thesis using r b by (intro exI [of _ buf]) simp
  qed
qed

text \<open>What is in reach of a match, and how what is out of reach is refused.\<close>

definition in_reach :: "DecodeBuffer \<Rightarrow> nat \<Rightarrow> bool" where
  "in_reach db offset \<longleftrightarrow> offset \<le> rb_len (db_buffer db)
     \<or> rb_len (db_buffer db) = db_total_output_counter db \<and> offset \<le> rb_len (db_buffer db) + length (db_dict_content db)"

definition refusal :: "DecodeBuffer \<Rightarrow> nat \<Rightarrow> DecodeBufferError" where
  "refusal db offset =
     (if rb_len (db_buffer db) = db_total_output_counter db
      then NotEnoughBytesInDictionary (length (db_dict_content db)) (offset - rb_len (db_buffer db))
      else OffsetTooBig offset (rb_len (db_buffer db)))"

lemma repeat_reserved_refused:
  assumes "db_ok db" "\<not> in_reach db offset"
  shows "repeat_reserved db offset n = Some (Err (refusal db offset))"
proof -
  have far: "rb_len (db_buffer db) < offset" using assms(2) by (simp add: in_reach_def)
  have le: "rb_len (db_buffer db) \<le> db_total_output_counter db" using assms(1) by (simp add: db_ok_def)
  have "repeat_from_dict db offset n = Err (refusal db offset)"
  proof (cases "rb_len (db_buffer db) = db_total_output_counter db")
    case True
    then have "length (db_dict_content db) < offset - rb_len (db_buffer db)" using assms(2) by (auto simp: in_reach_def)
    then show ?thesis using True far by (simp add: repeat_from_dict_def rsub_def refusal_def Let_def)
  next
    case False
    then show ?thesis using le by (simp add: repeat_from_dict_def refusal_def Let_def)
  qed
  then show ?thesis using far by (subst repeat_reserved.simps) simp
qed

lemma appended_ok:
  assumes "db_ok db" "ring_inv buf" "db_dict_content db @ ring_abs buf = copy_match (db_dict_content db @ history db) offset n"
  shows "db_ok (appended db buf n)"
proof -
  have "length (db_dict_content db @ ring_abs buf) = length (db_dict_content db @ history db) + n"
    unfolding assms(3) by simp
  then have "rb_len buf = rb_len (db_buffer db) + n" by (simp add: history_def)
  then show ?thesis using assms(1,2) by (simp add: db_ok_def)
qed

text \<open>A match into room that is already there.\<close>

lemma repeat_reserved_refines:
  assumes ok: "db_ok db" and o: "0 < offset" "in_reach db offset"
    and max: "db_total_output_counter db + n + 2 \<le> 2 ^ 62" and room: "n \<le> rb_free (db_buffer db)"
  shows "\<exists>buf. repeat_reserved db offset n = Some (Ok (appended db buf n)) \<and> db_ok (appended db buf n)
    \<and> db_dict_content db @ ring_abs buf = copy_match (db_dict_content db @ history db) offset n
    \<and> rb_free buf = rb_free (db_buffer db) - n"
proof -
  have inv: "ring_inv (db_buffer db)" "rb_len (db_buffer db) \<le> db_total_output_counter db"
    using ok by (simp_all add: db_ok_def)
  show ?thesis
  proof (cases "offset \<le> rb_len (db_buffer db)")
    case True
    have "db_total_output_counter db + n < 2 ^ 64" using max by simp
    from repeat_retained_ok [OF inv(1) o(1) True room this, where 'e = DecodeBufferError]
    obtain buf where b: "(repeat_retained db offset n :: (DecodeBufferError, _) res option) = Some (Ok (appended db buf n))"
      "ring_inv buf" "ring_abs buf = copy_match (history db) offset n" "rb_free buf = rb_free (db_buffer db) - n" by blast
    have "db_dict_content db @ ring_abs buf = copy_match (db_dict_content db @ history db) offset n"
      using b(3) True o(1) copy_match_append [of offset "history db"] by (simp add: history_def)
    then show ?thesis
      using b appended_ok [OF ok b(2)] True by (intro exI [of _ buf]) (simp add: repeat_reserved_retained)
  next
    case False
    then have d: "rb_len (db_buffer db) = db_total_output_counter db" "rb_len (db_buffer db) < offset"
        "offset \<le> rb_len (db_buffer db) + length (db_dict_content db)"
      using o(2) by (auto simp: in_reach_def)
    have "rb_len (db_buffer db) + n + 2 \<le> 2 ^ 62" using max inv(2) by simp
    from repeat_dict_ok [OF ok d this] room appended_ok [OF ok] show ?thesis by blast
  qed
qed

text \<open>
  C30.  A match: over the dictionary followed by the retained history it appends what the byte-wise copy
  appends, and returns; the dictionary is in reach only while nothing was drained, and what lies
  out of reach is refused with the error that tells why.
\<close>

theorem repeat_refines:
  assumes ok: "db_ok db" and o: "0 < offset" and max: "db_total_output_counter db + n + 2 \<le> 2 ^ 62"
  shows "if in_reach db offset
    then \<exists>buf. db_repeat db offset n = Some (Ok (appended db buf n)) \<and> db_ok (appended db buf n)
      \<and> db_dict_content db @ ring_abs buf = copy_match (db_dict_content db @ history db) offset n
    else db_repeat db offset n = Some (Err (refusal db offset))"
proof -
  have inv: "ring_inv (db_buffer db)" "rb_len (db_buffer db) \<le> db_total_output_counter db"
    using ok by (simp_all add: db_ok_def)
  then have "rb_len (db_buffer db) + n + 2 \<le> 2 ^ 62" using max by simp
  then obtain b1 where b1: "(db_reserve db n :: (DecodeBufferError, _) res) = Ok (db\<lparr>db_buffer := b1\<rparr>)"
    "ring_inv b1" "ring_abs b1 = ring_abs (db_buffer db)" "n \<le> rb_free b1"
    using db_reserve_ok [OF inv(1), where 'e = DecodeBufferError] by blast
  let ?db = "db\<lparr>db_buffer := b1\<rparr>"
  have l1: "rb_len b1 = rb_len (db_buffer db)" using b1(3) by (metis length_ring_abs)
  have same: "db_ok ?db" "history ?db = history db" "in_reach ?db offset = in_reach db offset" "refusal ?db offset = refusal db offset"
    using b1 l1 inv by (simp_all add: db_ok_def history_def in_reach_def refusal_def)
  have r: "db_repeat db offset n = repeat_reserved ?db offset n" by (simp add: db_repeat_def b1(1))
  show ?thesis
  proof (cases "in_reach db offset")
    case True
    have "in_reach ?db offset" "db_total_output_counter ?db + n + 2 \<le> 2 ^ 62" "n \<le> rb_free (db_buffer ?db)"
      using True same max b1(4) by simp_all
    then show ?thesis using repeat_reserved_refines [OF same(1) o, of n] True r same(2) by auto
  next
    case False
    then show ?thesis using repeat_reserved_refused [OF same(1), of offset n] same r by simp
  qed
qed

text \<open>A match of five bytes that starts with the last byte of the dictionary.\<close>

lemma repeat_refines_witness:
  "let db = (db_new 8)\<lparr>db_buffer := \<lparr>rb_buf = [Some 1, None, None], rb_cap = 3, rb_head = 0, rb_tail = 1\<rparr>,
      db_dict_content := [7, 9], db_total_output_counter := 1\<rparr>
   in \<exists>buf. db_repeat db 2 5 = Some (Ok (appended db buf 5)) \<and> [7, 9] @ ring_abs buf = [7, 9, 1, 9, 1, 9, 1, 9]"
proof -
  let ?rb = "\<lparr>rb_buf = [Some 1, None, None], rb_cap = 3, rb_head = 0, rb_tail = 1\<rparr>"
  let ?db = "(db_new 8)\<lparr>db_buffer := ?rb, db_dict_content := [7, 9], db_total_output_counter := 1\<rparr>"
  have l: "rb_len ?rb = 1" "ring_inv ?rb" "ring_abs ?rb = [1]" by code_simp+
  have c: "copy_match [7, 9, 1] 2 5 = [7, 9, 1, 9, 1, 9, 1, 9]" by code_simp
  have ok: "db_ok ?db" using l by (simp add: db_ok_def)
  have h: "history ?db = [1]" using l by (simp add: history_def)
  have "\<exists>buf. db_repeat ?db 2 5 = Some (Ok (appended ?db buf 5)) \<and> db_ok (appended ?db buf 5)
      \<and> db_dict_content ?db @ ring_abs buf = copy_match (db_dict_content ?db @ history ?db) 2 5"
    using repeat_refines [OF ok, of 2 5] l(1) by (simp add: in_reach_def)
  then show ?thesis unfolding h by (auto simp: c)
qed

end
