(* ===== verification/Drain_Refine.thy ===== *)
theory Drain_Refine
  imports Decode_Refine
begin

text \<open>
  The drains of the decode buffer over every sink: the interface of a closure that takes bytes, its
  instances for writers, vectors and slices, and what a drain does to the history, the sink and the
  checksum, on its error paths too.
\<close>

section \<open>Sinks\<close>

text \<open>
  A closure that takes a prefix of what it is offered and says how much: \<open>delivered\<close> is everything it
  was given so far, \<open>fits s n\<close> that the sink can take \<open>n\<close> more bytes.
\<close>

locale dump_sink =
  fixes dump :: "'s dump" and delivered :: "'s \<Rightarrow> bytes" and fits :: "'s \<Rightarrow> nat \<Rightarrow> bool"
  assumes dump_prefix: "fits s n \<Longrightarrow> length bs \<le> n \<Longrightarrow> \<exists>w r s'. dump s bs = ((w, r), s') \<and> w \<le> length bs
      \<and> r \<noteq> Panic \<and> delivered s' = delivered s @ take w bs \<and> fits s' (n - w)"

text \<open>A sink that never fails and never takes less.\<close>

locale full_sink = dump_sink +
  assumes dump_all: "fits s n \<Longrightarrow> length bs \<le> n \<Longrightarrow> \<exists>s'. dump s bs = ((length bs, Ok ()), s')"

text \<open>A writer keeps what it accepts, and nothing when it fails.\<close>

locale byte_sink =
  fixes wr :: "'w writer" and taken :: "'w \<Rightarrow> bytes"
  assumes wr_ok: "wr w bs = (Ok n, w') \<Longrightarrow> n \<le> length bs \<and> taken w' = taken w @ take n bs"
    and wr_err: "wr w bs = (Err e, w') \<Longrightarrow> taken w' = taken w"
    and wr_total: "wr w bs \<noteq> (Panic, w')"
begin

lemma write_all_prefix:
  "i \<le> length buf \<Longrightarrow> \<exists>n r w'. write_all_bytes wr w buf i = ((n, r), w') \<and> i \<le> n \<and> n \<le> length buf
    \<and> r \<noteq> Panic \<and> taken w' = taken w @ take (n - i) (drop i buf)"
proof (induction "length buf - i" arbitrary: w i rule: less_induct)
  case less
  show ?case
  proof (cases "i < length buf")
    case False
    then show ?thesis using less.prems by (simp add: write_all_bytes.simps)
  next
    case True
    obtain x w1 where x: "wr w (drop i buf) = (x, w1)" by (cases "wr w (drop i buf)")
    show ?thesis
    proof (cases x)
      case (Ok n)
      have n: "n \<le> length buf - i" "taken w1 = taken w @ take n (drop i buf)"
        using wr_ok [of w "drop i buf" n w1] x Ok by simp_all
      show ?thesis
      proof (cases "n = 0")
        case True
        then show ?thesis using less.prems x Ok n by (subst write_all_bytes.simps) simp
      next
        case False
        then have "length buf - (i + n) < length buf - i" "i + n \<le> length buf" using n(1) True by simp_all
        from less.hyps [OF this, of w1] obtain m r w' where
          m: "write_all_bytes wr w1 buf (i + n) = ((m, r), w')" "i + n \<le> m" "m \<le> length buf" "r \<noteq> Panic"
            "taken w' = taken w1 @ take (m - (i + n)) (drop (i + n) buf)" by blast
        have "take (m - i) (drop i buf) = take n (drop i buf) @ take (m - (i + n)) (drop (i + n) buf)"
          using m(2) take_add [of n "m - (i + n)" "drop i buf"] by (simp add: add.commute)
        then show ?thesis using True False x Ok m n(2) by (subst write_all_bytes.simps) simp
      qed
    next
      case (Err e)
      then show ?thesis using less.prems True x wr_err [of w "drop i buf" e w1]
        by (subst write_all_bytes.simps) simp
    next
      case Panic
      then show ?thesis using wr_total x by blast
    qed
  qed
qed

end

sublocale byte_sink \<subseteq> all: dump_sink "\<lambda>w buf. write_all_bytes wr w buf 0" taken "\<lambda>_ _. True"
proof
  fix s n and bs :: bytes
  show "\<exists>w r s'. write_all_bytes wr s bs 0 = ((w, r), s') \<and> w \<le> length bs \<and> r \<noteq> Panic
      \<and> taken s' = taken s @ take w bs \<and> True"
    using write_all_prefix [of 0 bs s] by auto
qed

interpretation vec: full_sink dump_vec "\<lambda>s. s" "\<lambda>_ _. True"
  by unfold_locales (simp_all add: dump_vec_def)

interpretation target: full_sink "dump_target room" "\<lambda>s. s" "\<lambda>s n. length s + n \<le> room" for room
  by unfold_locales (simp_all add: dump_target_def)

interpretation vec_writer: byte_sink vec_write "\<lambda>s. s"
  by unfold_locales (auto simp: vec_write_def)

interpretation slice_writer: byte_sink slice_write sl_written
  by unfold_locales (auto simp: slice_write_def Let_def)

section \<open>The checksum over drained bytes\<close>

definition hashed :: "DecodeBuffer \<Rightarrow> bytes \<Rightarrow> bool" where
  "hashed db bs \<longleftrightarrow> (db_hash_enabled db \<longrightarrow> xx_holds (xx_v (xx_new 0)) bs (db_hash db) \<and> xx_total (db_hash db) = length bs)"

lemma hash_bytes_ok:
  assumes "hashed db hs" "length hs + length bs < 2 ^ 64"
  shows "\<exists>h. (hash_bytes db bs :: ('e, _) res) = Ok (db\<lparr>db_hash := h\<rparr>) \<and> hashed (db\<lparr>db_hash := h\<rparr>) (hs @ bs)"
proof (cases "db_hash_enabled db")
  case False
  then show ?thesis by (intro exI [of _ "db_hash db"]) (simp add: hash_bytes_def hashed_def)
next
  case True
  then have "xx_holds (xx_v (xx_new 0)) hs (db_hash db)" "xx_total (db_hash db) + length bs < 2 ^ 64"
    using assms by (simp_all add: hashed_def)
  from xx_write_ok [OF this, where 'e = 'e] True assms(1) show ?thesis
    by (auto simp: hash_bytes_def hashed_def)
qed

lemma hashed_cong [simp]: "hashed (db\<lparr>db_buffer := b\<rparr>) bs = hashed db bs"
  by (simp add: hashed_def)

lemma as_slices_first:
  assumes "ring_inv rb" "(as_slices rb :: ('e, _) res) = Ok (a, b)" "a = []"
  shows "b = []"
proof -
  obtain n1 n2 where n: "data_slice_lengths rb = (n1, n2)" by (cases "data_slice_lengths rb")
  have l: "mem_read mem p n = (Ok xs :: ('e, _) res) \<Longrightarrow> length xs = n" for mem p n xs
    by (auto simp: mem_read_def rbind_rassert split: if_splits)
  have "length a = n1" "length b = n2"
    using assms(2) l by (auto simp: as_slices_def data_slice_parts_def n rbind_eq_Ok cursors_ok [OF assms(1)])
  then show ?thesis
    using assms(3) n ringD3 [OF assms(1)] ring_invD(2) [OF assms(1)]
    by (cases "rb_cap rb = 0") (auto simp: data_slice_lengths_def split: if_splits)
qed

section \<open>Draining\<close>

text \<open>The state after \<open>k\<close> bytes of the history went to the sink.\<close>

definition drained :: "DecodeBuffer \<Rightarrow> nat \<Rightarrow> bytes \<Rightarrow> DecodeBuffer \<Rightarrow> bool" where
  "drained db k hs db' \<longleftrightarrow> db_ok db' \<and> history db' = drop k (history db) \<and> hashed db' (hs @ take k (history db))
     \<and> db_dict_content db' = db_dict_content db \<and> db_window_size db' = db_window_size db
     \<and> db_total_output_counter db' = db_total_output_counter db \<and> db_hash_enabled db' = db_hash_enabled db"

lemma guard_ok:
  assumes ok: "db_ok db" and k: "k \<le> length (history db)" and h: "hashed (db\<lparr>db_hash := h\<rparr>) (hs @ take k (history db))"
  shows "\<exists>db'. drain_guard (db\<lparr>db_hash := h\<rparr>) k r s = (r, db', s) \<and> drained db k hs db'"
proof (cases "k = 0")
  case True
  then show ?thesis using ok h by (simp add: drain_guard_def drained_def db_ok_def history_def)
next
  case False
  have inv: "ring_inv (db_buffer db)" using ok by (simp add: db_ok_def)
  obtain b where b: "(drop_first_n (db_buffer db) k :: (unit, _) res) = Ok b" "ring_inv b"
    "ring_abs b = drop k (history db)"
    using drop_first_n_refines [OF inv, of k, where 'a = unit] k by (auto simp: history_def)
  have "rb_len b \<le> rb_len (db_buffer db)"
    using arg_cong [OF b(3), of length] by (simp add: history_def)
  then show ?thesis
    using False b ok h by (auto simp: drain_guard_def drained_def db_ok_def history_def)
qed

context dump_sink
begin

lemma dump_slice_ok:
  assumes f: "fits s m" and n: "n \<le> length slc" "n \<le> m" and h: "hashed db hs" "length hs + length slc < 2 ^ 64"
  shows "\<exists>w r h' s'. dump_slice dump db slc n s = ((w, r), Ok (db\<lparr>db_hash := h'\<rparr>), s') \<and> w \<le> n \<and> r \<noteq> Panic
    \<and> delivered s' = delivered s @ take w slc \<and> fits s' (m - w) \<and> hashed (db\<lparr>db_hash := h'\<rparr>) (hs @ take w slc)
    \<and> ((\<forall>s n bs. fits s n \<longrightarrow> length bs \<le> n \<longrightarrow> (\<exists>s'. dump s bs = ((length bs, Ok ()), s'))) \<longrightarrow> w = n \<and> r = Ok ())"
proof -
  have "length (take n slc) \<le> m" using n by simp
  from dump_prefix [OF f this] obtain w r s' where d: "dump s (take n slc) = ((w, r), s')" "w \<le> n" "r \<noteq> Panic"
    "delivered s' = delivered s @ take w slc" "fits s' (m - w)" using n by auto
  have "length hs + length (take w slc) < 2 ^ 64" using h(2) by simp
  from hash_bytes_ok [OF h(1) this, where 'e = unit] obtain h' where
    h': "(hash_bytes db (take w slc) :: (unit, _) res) = Ok (db\<lparr>db_hash := h'\<rparr>)" "hashed (db\<lparr>db_hash := h'\<rparr>) (hs @ take w slc)"
    by blast
  have "db_hash_enabled db \<Longrightarrow> w \<le> length slc" using d(2) n by simp
  then have "dump_slice dump db slc n s = ((w, r), Ok (db\<lparr>db_hash := h'\<rparr>), s')"
    using d h' n by (cases "db_hash_enabled db") (auto simp: dump_slice_def hash_bytes_def)
  moreover have "w = n \<and> r = Ok ()" if full: "\<forall>s n bs. fits s n \<longrightarrow> length bs \<le> n \<longrightarrow> (\<exists>s'. dump s bs = ((length bs, Ok ()), s'))"
  proof -
    obtain s2 where "dump s (take n slc) = ((length (take n slc), Ok ()), s2)"
      using full f \<open>length (take n slc) \<le> m\<close> by blast
    then show ?thesis using d(1) n by simp
  qed
  ultimately show ?thesis using d h' by blast
qed

lemma drain_to_prefix:
  assumes ok: "db_ok db" and h: "hashed db hs" "length hs + length (history db) < 2 ^ 64" and f: "fits s amount"
  shows "\<exists>r db' s' k. drain_to dump db amount s = (r, db', s') \<and> r \<noteq> Panic \<and> k \<le> min amount (length (history db))
    \<and> (\<forall>n. r = Ok n \<longrightarrow> n = k) \<and> delivered s' = delivered s @ take k (history db) \<and> drained db k hs db'
    \<and> ((\<forall>s n bs. fits s n \<longrightarrow> length bs \<le> n \<longrightarrow> (\<exists>s'. dump s bs = ((length bs, Ok ()), s'))) \<longrightarrow> r = Ok (min amount (length (history db))))"
proof (cases "amount = 0")
  case True
  then show ?thesis using ok h(1) by (simp add: drain_to_def drained_def)
next
  case False
  have inv: "ring_inv (db_buffer db)" using ok by (simp add: db_ok_def)
  obtain a b where ab: "(as_slices (db_buffer db) :: (unit, _) res) = Ok (a, b)" "history db = a @ b"
    using as_slices_refines [OF inv, where 'a = unit] by (auto simp: history_def)
  define n1 where "n1 = min (length a) amount"
  define n2 where "n2 = min (length b) (amount - n1)"
  have n: "n1 \<le> length a" "n1 \<le> amount" "n2 \<le> length b" "n2 \<le> amount - n1" "n2 \<noteq> 0 \<Longrightarrow> n1 = length a"
    by (auto simp: n1_def n2_def)
  show ?thesis
  proof (cases "n1 = 0")
    case True
    then have a: "a = []" using False by (cases a) (auto simp: n1_def min_def split: if_splits)
    then have "b = []" using as_slices_first [OF inv ab(1)] by simp
    have "drain_to dump db amount s = (Ok 0, db, s)" using False ab(1) a by (simp add: drain_to_def Let_def)
    then show ?thesis
      using ok h(1) ab(2) a \<open>b = []\<close> by (intro exI [of _ "Ok 0"] exI [of _ db] exI [of _ s] exI [of _ "0 :: nat"]) (simp add: drained_def)
  next
    case n1: False
    then have "a \<noteq> []" using n(1) by auto
    have "length hs + length a < 2 ^ 64" using h(2) ab(2) by simp
    from dump_slice_ok [OF f n(1,2) h(1) this] obtain w1 r1 h1 s1 where
      d1: "dump_slice dump db a n1 s = ((w1, r1), Ok (db\<lparr>db_hash := h1\<rparr>), s1)" "w1 \<le> n1" "r1 \<noteq> Panic"
        "delivered s1 = delivered s @ take w1 a" "fits s1 (amount - w1)" "hashed (db\<lparr>db_hash := h1\<rparr>) (hs @ take w1 a)"
        "\<forall>s n bs. fits s n \<longrightarrow> length bs \<le> n \<longrightarrow> (\<exists>s'. dump s bs = ((length bs, Ok ()), s')) \<Longrightarrow> w1 = n1 \<and> r1 = Ok ()"
      by blast
    have t1: "take w1 (history db) = take w1 a" "w1 \<le> length (history db)" using d1(2) n(1) ab(2) by simp_all
    have stop: "\<exists>db'. drain_guard (db\<lparr>db_hash := h1\<rparr>) w1 r s1 = (r, db', s1) \<and> drained db w1 hs db'" for r
      using guard_ok [OF ok t1(2), of h1 hs r s1] d1(6) t1(1) by simp
    show ?thesis
    proof (cases "r1 = Ok () \<and> w1 = n1 \<and> n2 \<noteq> 0")
      case False
      have "drain_to dump db amount s = drain_guard (db\<lparr>db_hash := h1\<rparr>) w1 (case r1 of Ok _ \<Rightarrow> Ok w1 | Err e \<Rightarrow> Err e | Panic \<Rightarrow> Panic) s1"
        unfolding drain_to_def ab(1) res.case prod.case Let_def n1_def [symmetric] n2_def [symmetric] d1(1)
        using \<open>amount \<noteq> 0\<close> n1 False by (cases r1) auto
      moreover obtain db' where "drain_guard (db\<lparr>db_hash := h1\<rparr>) w1 (case r1 of Ok _ \<Rightarrow> Ok w1 | Err e \<Rightarrow> Err e | Panic \<Rightarrow> Panic) s1
          = (case r1 of Ok _ \<Rightarrow> Ok w1 | Err e \<Rightarrow> Err e | Panic \<Rightarrow> Panic, db', s1)" "drained db w1 hs db'"
        using stop by blast
      moreover have "r1 = Ok () \<and> w1 = min amount (length (history db))" if "\<forall>s n bs. fits s n \<longrightarrow> length bs \<le> n \<longrightarrow> (\<exists>s'. dump s bs = ((length bs, Ok ()), s'))"
      proof -
        have w: "w1 = n1" "r1 = Ok ()" "n2 = 0" using d1(7) [OF that] False by auto
        then have "b = [] \<or> amount \<le> n1" by (auto simp: n2_def min_def split: if_splits)
        then show ?thesis using w ab(2) by (auto simp: n1_def min_def)
      qed
      ultimately show ?thesis
        using d1(2,3,4) n(2) t1
        by (intro exI [of _ "case r1 of Ok _ \<Rightarrow> Ok w1 | Err e \<Rightarrow> Err e | Panic \<Rightarrow> Panic"] exI [of _ db'] exI [of _ s1] exI [of _ w1])
          (auto split: res.splits)
    next
      case True
      then have e: "w1 = length a" "n2 \<noteq> 0" "r1 = Ok ()" "n1 = length a" using n(5) by simp_all
      have f1: "fits s1 (amount - n1)" using d1(5) True by simp
      have h1: "hashed (db\<lparr>db_hash := h1\<rparr>) (hs @ a)" using d1(6) e(1) by simp
      have "length (hs @ a) + length b < 2 ^ 64" using h(2) ab(2) by simp
      from dump_slice_ok [OF f1 n(3,4) h1 this] obtain w2 r2 h2 s2 where
        d2: "dump_slice dump (db\<lparr>db_hash := h1\<rparr>) b n2 s1 = ((w2, r2), Ok (db\<lparr>db_hash := h1, db_hash := h2\<rparr>), s2)" "w2 \<le> n2" "r2 \<noteq> Panic"
          "delivered s2 = delivered s1 @ take w2 b" "hashed (db\<lparr>db_hash := h1, db_hash := h2\<rparr>) ((hs @ a) @ take w2 b)"
          "\<forall>s n bs. fits s n \<longrightarrow> length bs \<le> n \<longrightarrow> (\<exists>s'. dump s bs = ((length bs, Ok ()), s')) \<Longrightarrow> w2 = n2 \<and> r2 = Ok ()"
        by blast
      let ?r = "case r2 of Ok _ \<Rightarrow> Ok (w1 + w2) | Err e \<Rightarrow> Err e | Panic \<Rightarrow> Panic"
      have t2: "take (w1 + w2) (history db) = a @ take w2 b" "w1 + w2 \<le> length (history db)"
        using d2(2) n(3) ab(2) e(1) by simp_all
      obtain db' where g: "drain_guard (db\<lparr>db_hash := h2\<rparr>) (w1 + w2) ?r s2 = (?r, db', s2)" "drained db (w1 + w2) hs db'"
        using guard_ok [OF ok t2(2), of h2 hs ?r s2] d2(5) t2(1) by auto
      have "drain_to dump db amount s = drain_guard (db\<lparr>db_hash := h2\<rparr>) (w1 + w2) ?r s2"
        unfolding drain_to_def ab(1) res.case prod.case Let_def n1_def [symmetric] n2_def [symmetric] d1(1)
        using \<open>amount \<noteq> 0\<close> n1 True d2(1) by (cases r2) simp_all
      moreover have "w1 + w2 \<le> min amount (length (history db))" using d2(2) n e(1,4) t2(2) by linarith
      moreover have "delivered s2 = delivered s @ take (w1 + w2) (history db)" using d2(4) d1(4) t2(1) e(1) by simp
      moreover have "r2 = Ok () \<and> w1 + w2 = min amount (length (history db))" if "\<forall>s n bs. fits s n \<longrightarrow> length bs \<le> n \<longrightarrow> (\<exists>s'. dump s bs = ((length bs, Ok ()), s'))"
        using d2(6) [OF that] n(2) e(1,4) ab(2) by (auto simp: n2_def)
      ultimately show ?thesis
        using g d2(3) by (intro exI [of _ ?r] exI [of _ db'] exI [of _ s2] exI [of _ "w1 + w2"]) (auto split: res.splits)
    qed
  qed
qed

end

context full_sink
begin

lemma drain_to_all:
  assumes "db_ok db" "hashed db hs" "length hs + length (history db) < 2 ^ 64" "fits s amount"
  shows "\<exists>db' s'. drain_to dump db amount s = (Ok (min amount (length (history db))), db', s')
    \<and> delivered s' = delivered s @ take amount (history db) \<and> drained db (min amount (length (history db))) hs db'"
proof -
  obtain r db' s' k where r: "drain_to dump db amount s = (r, db', s')" "\<forall>n. r = Ok n \<longrightarrow> n = k"
    "delivered s' = delivered s @ take k (history db)" "drained db k hs db'"
    "(\<forall>s n bs. fits s n \<longrightarrow> length bs \<le> n \<longrightarrow> (\<exists>s'. dump s bs = ((length bs, Ok ()), s')))
      \<longrightarrow> r = Ok (min amount (length (history db)))"
    using drain_to_prefix [OF assms] by blast
  then have ok: "r = Ok (min amount (length (history db)))" using dump_all by blast
  then have k: "k = min amount (length (history db))" using r(2) by blast
  then have "take k (history db) = take amount (history db)" by (cases "amount \<le> length (history db)") simp_all
  then show ?thesis using r(1,3,4) ok k by (intro exI [of _ db'] exI [of _ s']) simp
qed

end

text \<open>
  C31.  Draining to a writer: whatever the writer accepts and wherever it fails, the sink received a prefix
  of the history, the buffer keeps exactly the rest, the checksum covers exactly what was received,
  and the count that is returned is its length.
\<close>

theorem drain_to_writer_refines:
  assumes wr: "byte_sink wr taken" and db: "db_ok db" "hashed db hs" "length hs + length (history db) < 2 ^ 64"
  shows "\<exists>r db' w' k. drain_to_writer wr db w = (r, db', w') \<and> r \<noteq> Panic \<and> k \<le> length (history db)
    \<and> (\<forall>n. r = Ok n \<longrightarrow> n = k) \<and> taken w' = taken w @ take k (history db) \<and> drained db k hs db'"
proof -
  have sink: "dump_sink (\<lambda>w buf. write_all_bytes wr w buf 0) taken (\<lambda>_ _. True)"
    using byte_sink.write_all_prefix [OF wr, of 0] by unfold_locales auto
  have "min (rb_len (db_buffer db)) (length (history db)) = length (history db)" by (simp add: history_def)
  with dump_sink.drain_to_prefix [OF sink db, where s = w and amount = "rb_len (db_buffer db)"]
  show ?thesis unfolding drain_to_writer_def by fastforce
qed

text \<open>A buffer of three bytes, drained into a slice with room for two of them.\<close>

lemma drain_to_writer_refines_witness:
  "\<exists>r db' w' k. drain_to_writer slice_write
      ((db_new 8)\<lparr>db_buffer := \<lparr>rb_buf = [Some 1, Some 2, Some 3, None], rb_cap = 4, rb_head = 0, rb_tail = 3\<rparr>,
        db_total_output_counter := 3\<rparr>) \<lparr>sl_written = [], sl_room = 2\<rparr> = (r, db', w') \<and> k \<le> 3
    \<and> sl_written w' = take k [1, 2, 3]"
proof -
  let ?rb = "\<lparr>rb_buf = [Some 1, Some 2, Some 3, None], rb_cap = 4, rb_head = 0, rb_tail = 3\<rparr>"
  let ?db = "(db_new 8)\<lparr>db_buffer := ?rb, db_total_output_counter := 3\<rparr>"
  have l: "rb_len ?rb = 3" "ring_inv ?rb" "ring_abs ?rb = [1, 2, 3]" by code_simp+
  have "db_ok ?db" "hashed ?db []" "length [] + length (history ?db) < 2 ^ 64"
    using l by (simp_all add: db_ok_def hashed_def history_def db_new_def)
  from drain_to_writer_refines [OF slice_writer.byte_sink_axioms this, where w = "\<lparr>sl_written = [], sl_room = 2\<rparr>"]
  obtain r db' w' k where "drain_to_writer slice_write ?db \<lparr>sl_written = [], sl_room = 2\<rparr> = (r, db', w')"
    "k \<le> length (history ?db)" "sl_written w' = [] @ take k (history ?db)" by auto
  moreover have "history ?db = [1, 2, 3]" using l(3) by (simp add: history_def)
  ultimately show ?thesis by (intro exI [of _ r] exI [of _ db'] exI [of _ w'] exI [of _ k]) simp
qed

text \<open>
  C32.  Reading hands out what exceeds the window, as far as the target has room, in order and completely.
\<close>

theorem db_read_refines:
  assumes "db_ok db" "hashed db hs" "length hs + length (history db) < 2 ^ 64"
  shows "\<exists>db'. let k = min (length (history db) - db_window_size db) room in
    db_read db room = (Ok k, db', take k (history db)) \<and> drained db k hs db'"
proof -
  define n where "n = (case can_drain_to_window_size db of Some n \<Rightarrow> n | None \<Rightarrow> 0)"
  have nw: "n = length (history db) - db_window_size db"
    by (simp add: n_def can_drain_to_window_size_def history_def)
  let ?k = "min n room"
  have mk: "min ?k (length (history db)) = ?k" by (simp add: nw)
  from target.drain_to_all [OF assms, of "[]" ?k room] obtain db' s' where
    d: "drain_to (dump_target room) db ?k [] = (Ok ?k, db', s')" "s' = take ?k (history db)" "drained db ?k hs db'"
    unfolding mk by auto
  then have "db_read db room = (Ok ?k, db', take ?k (history db))"
    by (simp add: db_read_def Let_def flip: n_def)
  then show ?thesis using d(3) nw by (intro exI [of _ db']) simp
qed

text \<open>Three bytes, a window of one, and a target with room for eight: the first two are handed out.\<close>

lemma db_read_refines_witness:
  "\<exists>db'. db_read ((db_new 1)\<lparr>db_buffer := \<lparr>rb_buf = [Some 1, Some 2, Some 3, None], rb_cap = 4, rb_head = 0, rb_tail = 3\<rparr>,
      db_total_output_counter := 3\<rparr>) 8 = (Ok 2, db', [1, 2]) \<and> history db' = [3]"
proof -
  let ?rb = "\<lparr>rb_buf = [Some 1, Some 2, Some 3, None], rb_cap = 4, rb_head = 0, rb_tail = 3\<rparr>"
  let ?db = "(db_new 1)\<lparr>db_buffer := ?rb, db_total_output_counter := 3\<rparr>"
  have l: "rb_len ?rb = 3" "ring_inv ?rb" "ring_abs ?rb = [1, 2, 3]" by code_simp+
  have ok: "db_ok ?db" "hashed ?db []" "length [] + length (history ?db) < 2 ^ 64"
    using l by (simp_all add: db_ok_def hashed_def history_def db_new_def)
  have h: "history ?db = [1, 2, 3]" "db_window_size ?db = 1" using l(3) by (simp_all add: history_def db_new_def)
  from db_read_refines [OF ok, of 8] show ?thesis
    unfolding drained_def Let_def h by (auto simp: numeral_2_eq_2)
qed

text \<open>
  C33.  The chunked copy returns exactly for a positive offset: with offset 0 it would run for ever, which
  the check of the sequence executor excludes.
\<close>

theorem repeat_in_chunks_returns:
  assumes "ring_inv rb" "offset \<le> rb_len rb" "0 < n" "n \<le> rb_free rb"
  shows "(repeat_in_chunks rb offset n (rb_len rb - offset) :: ('e, _) res option) \<noteq> None \<longleftrightarrow> 0 < offset"
proof
  assume "0 < offset"
  then show "(repeat_in_chunks rb offset n (rb_len rb - offset) :: ('e, _) res option) \<noteq> None"
    using ring.loop_copies [of rb "ring_abs rb" offset 0 n, where 'e = 'e] assms
    by (auto simp: repeat_in_chunks_def)
next
  assume "(repeat_in_chunks rb offset n (rb_len rb - offset) :: ('e, _) res option) \<noteq> None"
  then obtain r where "(chunk_loop rb_len extend_from_within_unchecked rb (rb_len rb - offset) offset n 0 :: ('e, _) res option) = Some r"
    by (auto simp: repeat_in_chunks_def)
  from ring.loop_stuck [OF this] assms show "0 < offset" by auto
qed

lemma repeat_in_chunks_returns_witness:
  "(repeat_in_chunks \<lparr>rb_buf = [Some 1, None, None], rb_cap = 3, rb_head = 0, rb_tail = 1\<rparr> 0 1 1 :: (unit, _) res option) = None"
  using repeat_in_chunks_returns [of "\<lparr>rb_buf = [Some 1, None, None], rb_cap = 3, rb_head = 0, rb_tail = 1\<rparr>" 0 1, where 'e = unit]
  by (simp add: ring_inv_def rb_len_eq rb_pos_eq rb_free_def free_slice_lengths_def)

end
