(* ===== verification/Sequence_Execution.thy ===== *)
theory Sequence_Execution
  imports Decode_Refine Sequences_Header Frame_Header
begin

text \<open>
  The execution of sequences, \<open>decoding/sequence_execution.rs\<close>: the repeated-offset history and the
  loop of \<open>execute_sequences\<close> over the decode buffer.  The reference semantics works on the plain byte
  string dictionary, history, output, and resolves offsets by the table of the format.
\<close>

section \<open>The offset history\<close>

type_synonym offset_hist = "u32 \<times> u32 \<times> u32"

text \<open>
  \<open>[u32; 3]\<close> as a triple; the slot mask and the fold of slot 3 keep the index in bounds.  The result
  \<open>None\<close> is an offset of zero (\<open>NonZero::new\<close>).
\<close>

definition hist_slot :: "offset_hist \<Rightarrow> nat \<Rightarrow> u32" where
  "hist_slot h i = (case h of (s0, s1, s2) \<Rightarrow> if i = 0 then s0 else if i = 1 then s1 else s2)"

definition saturating_sub32 :: "u32 \<Rightarrow> u32 \<Rightarrow> u32" where
  "saturating_sub32 a b = (if b \<le> a then a - b else 0)"

definition do_offset_history :: "u32 \<Rightarrow> u32 \<Rightarrow> offset_hist \<Rightarrow> u32 option \<times> offset_hist" where
  "do_offset_history offset_value lit_len scratch =
     (case scratch of (s0, s1, s2) \<Rightarrow>
      if offset_value > 3 then
        let actual = offset_value - 3 in (Some actual, (actual, s0, s1))
      else
        let idx = offset_value - 1 + (if lit_len = 0 then 1 else 0);
            slt = unat (and idx 3);
            slt = (if slt = 3 then 0 else slt);
            actual_offset = saturating_sub32 (hist_slot scratch slt) (if idx = 3 then 1 else 0);
            keep = (idx = 0);
            rotate_all = (idx \<ge> 2);
            s2 = (if rotate_all then s1 else s2);
            s1 = (if keep then s1 else s0);
            s0 = (if keep then s0 else actual_offset)
        in (if actual_offset = 0 then None else Some actual_offset, (s0, s1, s2)))"

section \<open>Executing a block\<close>

datatype ExecuteSequencesError =
    DecodebufferError DecodeBufferError
  | NotEnoughBytesForSequence nat nat  \<comment> \<open>wanted, have\<close>
  | ZeroOffset
  | BlockOutputTooLarge nat  \<comment> \<open>max\<close>
  | TargetTooSmall

record ExecState =
  ex_buffer :: DecodeBuffer
  ex_hist :: offset_hist
  ex_literals_copy_counter :: nat
  ex_seq_sum :: nat

text \<open>\<open>seq_sum\<close> is a \<open>u32\<close>; exceeding it is the overflow panic of \<open>+=\<close>.\<close>

definition add_seq_sum :: "ExecState \<Rightarrow> nat \<Rightarrow> ('e, ExecState) res" where
  "add_seq_sum st n = rbind (rassert (ex_seq_sum st + n < 2 ^ 32)) (\<lambda>_.
     Ok (st\<lparr>ex_seq_sum := ex_seq_sum st + n\<rparr>))"

text \<open>The literals in front of a match.\<close>

definition exec_literals :: "bytes \<Rightarrow> nat \<Rightarrow> ExecState \<Rightarrow> (ExecuteSequencesError, ExecState) res" where
  "exec_literals literals ll st =
     (if ll > 0 then
        let high = ex_literals_copy_counter st + ll in
        if high > length literals then Err (NotEnoughBytesForSequence high (length literals))
        else rbind (push_pre_reserved (ex_buffer st) (take ll (drop (ex_literals_copy_counter st) literals))) (\<lambda>buf.
          Ok (st\<lparr>ex_buffer := buf, ex_literals_copy_counter := ex_literals_copy_counter st + ll\<rparr>))
      else Ok st)"

text \<open>The match; \<open>None\<close> is a copy that never returns.\<close>

definition exec_match :: "nat \<Rightarrow> nat \<Rightarrow> ExecState \<Rightarrow> (ExecuteSequencesError, ExecState) res option" where
  "exec_match actual_offset ml st =
     (if ml > 0 then
        map_option (\<lambda>r. case r of
             Ok buf \<Rightarrow> Ok (st\<lparr>ex_buffer := buf\<rparr>)
           | Err e \<Rightarrow> Err (DecodebufferError e)
           | Panic \<Rightarrow> Panic)
          (repeat_pre_reserved (ex_buffer st) actual_offset ml)
      else Some (Ok st))"

fun exec_loop :: "bytes \<Rightarrow> Sequence list \<Rightarrow> ExecState \<Rightarrow> (ExecuteSequencesError, ExecState) res option" where
  "exec_loop literals [] st = Some (Ok st)"
| "exec_loop literals (sq # seqs) st =
     (case exec_literals literals (unat (sq_ll sq)) st of
        Ok st \<Rightarrow>
          (case do_offset_history (sq_of sq) (sq_ll sq) (ex_hist st) of
             (None, _) \<Rightarrow> Some (Err ZeroOffset)
           | (Some actual_offset, hist) \<Rightarrow>
               (case exec_match (unat actual_offset) (unat (sq_ml sq)) (st\<lparr>ex_hist := hist\<rparr>) of
                  None \<Rightarrow> None
                | Some (Ok st) \<Rightarrow>
                    (case rbind (add_seq_sum st (unat (sq_ml sq))) (\<lambda>st. add_seq_sum st (unat (sq_ll sq))) of
                       Ok st \<Rightarrow> exec_loop literals seqs st
                     | Err e \<Rightarrow> Some (Err e)
                     | Panic \<Rightarrow> Some Panic)
                | Some (Err e) \<Rightarrow> Some (Err e)
                | Some Panic \<Rightarrow> Some Panic))
      | Err e \<Rightarrow> Some (Err e)
      | Panic \<Rightarrow> Some Panic)"

text \<open>The literals behind the last match.\<close>

definition exec_rest :: "bytes \<Rightarrow> ExecState \<Rightarrow> (ExecuteSequencesError, ExecState) res" where
  "exec_rest literals st =
     (if ex_literals_copy_counter st < length literals then
        let rest_literals = drop (ex_literals_copy_counter st) literals in
        rbind (push_pre_reserved (ex_buffer st) rest_literals) (\<lambda>buf.
          add_seq_sum (st\<lparr>ex_buffer := buf\<rparr>) (length rest_literals mod 2 ^ 32))
      else Ok st)"

text \<open>The sum over \<open>usize\<close> saturates; \<open>2 ^ 64 - 1\<close> is the bound of the 64-bit target.\<close>

definition block_output :: "Sequence list \<Rightarrow> bytes \<Rightarrow> nat" where
  "block_output seqs literals =
     min (2 ^ 64 - 1) (fold (\<lambda>sq acc. min (2 ^ 64 - 1) (acc + unat (sq_ml sq))) seqs 0 + length literals)"

definition execute_sequences ::
  "Sequence list \<Rightarrow> bytes \<Rightarrow> DecodeBuffer \<Rightarrow> offset_hist \<Rightarrow> (ExecuteSequencesError, DecodeBuffer \<times> offset_hist) res option" where
  "execute_sequences seqs literals buffer hist =
     (let old_buffer_size = db_len buffer;
          total_out = block_output seqs literals;
          block_out_max = max_block_output (db_window_size buffer)
      in if total_out > block_out_max then Some (Err (BlockOutputTooLarge block_out_max))
      else case db_reserve buffer total_out of
        Ok buffer \<Rightarrow>
          map_option (\<lambda>r. rbind r (\<lambda>st. rbind (exec_rest literals st) (\<lambda>st.
              rbind (rsub (db_len (ex_buffer st)) old_buffer_size) (\<lambda>diff.
              rbind (rassert (ex_seq_sum st = diff)) (\<lambda>_.
              Ok (ex_buffer st, ex_hist st))))))
            (exec_loop literals seqs
              \<lparr>ex_buffer = buffer, ex_hist = hist, ex_literals_copy_counter = 0, ex_seq_sum = 0\<rparr>)
      | Err e \<Rightarrow> Some (Err e)
      | Panic \<Rightarrow> Some Panic)"

end
