(* ===== verification/Sequence_Run.thy ===== *)
theory Sequence_Run
  imports Sequence_Execution
begin

text \<open>
  What the execution of a block promises: the offsets are those of the table of the format, and the
  output is that of a byte-wise run over the plain string of everything in reach, errors included.
\<close>

section \<open>The offset table\<close>

text \<open>
  The rows of the format: a value above 3 is an offset plus 3; the values 1, 2 and 3 name a recent
  offset, shifted by one for a sequence without literals, where 3 means the latest offset minus one.
\<close>

type_synonym recent = "nat \<times> nat \<times> nat"

definition resolve_offset :: "nat \<Rightarrow> bool \<Rightarrow> recent \<Rightarrow> nat \<times> recent" where
  "resolve_offset ofv literals h =
     (case h of (r0, r1, r2) \<Rightarrow>
      if ofv > 3 then (ofv - 3, (ofv - 3, r0, r1))
      else if literals then
        (if ofv = 1 then (r0, (r0, r1, r2))
         else if ofv = 2 then (r1, (r1, r0, r2))
         else (r2, (r2, r0, r1)))
      else
        (if ofv = 1 then (r1, (r1, r0, r2))
         else if ofv = 2 then (r2, (r2, r0, r1))
         else (r0 - 1, (r0 - 1, r0, r1))))"

definition recent_of :: "offset_hist \<Rightarrow> recent" where
  "recent_of h = (case h of (a, b, c) \<Rightarrow> (unat a, unat b, unat c))"

lemma do_offset_history_spec_holds:
  assumes "0 < ofv"
  shows "(case do_offset_history ofv ll h of (r, h') \<Rightarrow> (case r of None \<Rightarrow> 0 | Some a \<Rightarrow> unat a, recent_of h'))
      = resolve_offset (unat ofv) (ll \<noteq> 0) (recent_of h)
    \<and> fst (do_offset_history ofv ll h) \<noteq> Some 0"
proof -
  obtain s0 s1 s2 where h: "h = (s0, s1, s2)" by (cases h)
  consider "ofv = 1" | "ofv = 2" | "ofv = 3" | "ofv > 3"
  proof -
    have "unat ofv \<noteq> 0" using assms by (simp add: unat_eq_zero word_neq_0_conv)
    then consider "unat ofv = 1" | "unat ofv = 2" | "unat ofv = 3" | "unat ofv > 3" by linarith
    then show thesis
      by cases (use that in \<open>auto simp: word_less_nat_alt dest!: arg_cong [where f = "of_nat :: nat \<Rightarrow> u32"]\<close>)
  qed
  then show ?thesis
  proof cases
    case 4
    then have "unat (ofv - 3) = unat ofv - 3" "3 < unat ofv" by (simp_all add: unat_sub word_less_nat_alt word_le_nat_alt)
    moreover have "ofv - 3 \<noteq> 0" using 4 by auto
    ultimately show ?thesis using 4 by (simp add: h do_offset_history_def resolve_offset_def recent_of_def Let_def)
  qed (auto simp: h do_offset_history_def resolve_offset_def recent_of_def hist_slot_def saturating_sub32_def Let_def
      unat_sub word_le_nat_alt unat_eq_zero)
qed

text \<open> C29.  The branch-free form is the table, and refuses exactly the offset zero.\<close>

theorem do_offset_history_spec:
  assumes "0 < ofv"
  shows "(case do_offset_history ofv ll h of (r, h') \<Rightarrow> (case r of None \<Rightarrow> 0 | Some a \<Rightarrow> unat a, recent_of h'))
      = resolve_offset (unat ofv) (ll \<noteq> 0) (recent_of h)
    \<and> fst (do_offset_history ofv ll h) \<noteq> Some 0"
  by (rule do_offset_history_spec_holds [OF assms])

text \<open>The latest offset minus one, of a history that starts with zero: refused.\<close>

lemma do_offset_history_spec_witness:
  "case do_offset_history 3 0 (0, 4, 8) of (r, h) \<Rightarrow> (case r of None \<Rightarrow> 0 | Some a \<Rightarrow> unat a) = 0 \<and> recent_of h = (0, 0, 4)"
  using do_offset_history_spec [of 3 0 "(0, 4, 8)"]
  by (auto simp: resolve_offset_def recent_of_def split: prod.splits)

section \<open>Everything in reach\<close>

text \<open>The dictionary is in reach until something was drained.\<close>

definition reachable :: "DecodeBuffer \<Rightarrow> bytes" where
  "reachable db =
     (if rb_len (db_buffer db) = db_total_output_counter db then db_dict_content db else []) @ history db"

lemma in_reach_length: "in_reach db offset \<longleftrightarrow> offset \<le> length (reachable db)"
  by (auto simp: in_reach_def reachable_def history_def)

text \<open>\<open>db'\<close> is \<open>db\<close> with \<open>n\<close> more bytes of output, so that \<open>v\<close> is in reach.\<close>

definition grows :: "DecodeBuffer \<Rightarrow> nat \<Rightarrow> DecodeBuffer \<Rightarrow> bytes \<Rightarrow> bool" where
  "grows db n db' v \<longleftrightarrow> (\<exists>buf. db' = appended db buf n \<and> db_ok db' \<and> reachable db' = v
     \<and> rb_free buf = rb_free (db_buffer db) - n \<and> rb_len buf = rb_len (db_buffer db) + n)"

lemma grows_refl: "db_ok db \<Longrightarrow> grows db 0 db (reachable db)"
  by (auto simp: grows_def intro: exI [of _ "db_buffer db"])

lemma grows_trans: "grows db m db1 v1 \<Longrightarrow> grows db1 n db2 v2 \<Longrightarrow> grows db (m + n) db2 v2"
  by (auto simp: grows_def add.assoc)

lemma growsD:
  assumes "grows db n db' v"
  shows "db_ok db'" "reachable db' = v" "rb_free (db_buffer db') = rb_free (db_buffer db) - n"
    "rb_len (db_buffer db') = rb_len (db_buffer db) + n" "db_total_output_counter db' = db_total_output_counter db + n"
    "db_dict_content db' = db_dict_content db" "db_window_size db' = db_window_size db"
  using assms by (auto simp: grows_def)

lemma push_grows:
  assumes ok: "db_ok db" and room: "length data \<le> rb_free (db_buffer db)" and max: "db_total_output_counter db + length data < 2 ^ 64"
  shows "\<exists>db'. (push_pre_reserved db data :: ('e, _) res) = Ok db' \<and> grows db (length data) db' (reachable db @ data)"
proof -
  have inv: "ring_inv (db_buffer db)" "rb_len (db_buffer db) \<le> db_total_output_counter db" using ok by (simp_all add: db_ok_def)
  have a: "ring_appends (db_buffer db) data (extend_pre_reserved (db_buffer db) data :: ('e, _) res)"
    by (rule extend_pre_reserved_ok [OF inv(1) room])
  then obtain buf where b: "(extend_pre_reserved (db_buffer db) data :: ('e, _) res) = Ok buf" "ring_inv buf"
    "ring_abs buf = ring_abs (db_buffer db) @ data" by (auto simp: ring_appends_def)
  have f: "rb_free buf = rb_free (db_buffer db) - length data" by (rule ring_appends_free [OF inv(1) a [unfolded b(1)]])
  have l: "rb_len buf = rb_len (db_buffer db) + length data" using arg_cong [OF b(3), of length] by simp
  have "(push_pre_reserved db data :: ('e, _) res) = Ok (appended db buf (length data))"
    using room max b(1) by (simp add: push_pre_reserved_def count_output_def)
  moreover have "grows db (length data) (appended db buf (length data)) (reachable db @ data)"
    using b f l inv by (auto simp: grows_def reachable_def history_def db_ok_def)
  ultimately show ?thesis by blast
qed

lemma repeat_grows:
  assumes ok: "db_ok db" and o: "0 < offset" "offset \<le> length (reachable db)"
    and room: "n \<le> rb_free (db_buffer db)" and max: "db_total_output_counter db + n + 2 \<le> 2 ^ 62"
  shows "\<exists>db'. repeat_pre_reserved db offset n = Some (Ok db') \<and> grows db n db' (copy_match (reachable db) offset n)"
proof -
  from repeat_reserved_refines [OF ok o(1) _ max room] o(2) obtain buf where
    b: "repeat_reserved db offset n = Some (Ok (appended db buf n))" "db_ok (appended db buf n)"
      "db_dict_content db @ ring_abs buf = copy_match (db_dict_content db @ history db) offset n"
      "rb_free buf = rb_free (db_buffer db) - n" by (auto simp: in_reach_length)
  have l: "rb_len buf = rb_len (db_buffer db) + n" using arg_cong [OF b(3), of length] by (simp add: history_def)
  have "reachable (appended db buf n) = copy_match (reachable db) offset n"
  proof (cases "rb_len (db_buffer db) = db_total_output_counter db")
    case True
    then show ?thesis using b(3) l by (simp add: reachable_def history_def)
  next
    case False
    then have "offset \<le> length (history db)" using o(2) by (simp add: reachable_def)
    then have "copy_match (db_dict_content db @ history db) offset n = db_dict_content db @ copy_match (history db) offset n"
      using o(1) by (rule copy_match_append)
    then show ?thesis using b(3) l False by (simp add: reachable_def history_def)
  qed
  then have "grows db n (appended db buf n) (copy_match (reachable db) offset n)" using b l by (auto simp: grows_def)
  then show ?thesis using b(1) by (auto simp: repeat_pre_reserved_def)
qed

section \<open>The reference run\<close>

text \<open>
  A run over the string \<open>v\<close> in reach, with the literals from \<open>i\<close> on still to come; \<open>refuse\<close> is how an
  offset beyond the string is refused.
\<close>

fun run_loop :: "(nat \<Rightarrow> nat \<Rightarrow> DecodeBufferError) \<Rightarrow> bytes \<Rightarrow> Sequence list \<Rightarrow> nat \<Rightarrow> recent \<Rightarrow> bytes
    \<Rightarrow> (ExecuteSequencesError, nat \<times> recent \<times> bytes) res" where
  "run_loop refuse literals [] i h v = Ok (i, h, v)"
| "run_loop refuse literals (sq # seqs) i h v =
     (let ll = unat (sq_ll sq); ml = unat (sq_ml sq) in
      if i + ll > length literals then Err (NotEnoughBytesForSequence (i + ll) (length literals))
      else let v = v @ take ll (drop i literals); (offset, h) = resolve_offset (unat (sq_of sq)) (0 < ll) h in
        if offset = 0 then Err ZeroOffset
        else if ml \<noteq> 0 \<and> offset > length v then Err (DecodebufferError (refuse (length v) offset))
        else run_loop refuse literals seqs (i + ll) h (copy_match v offset ml))"

definition run_sequences :: "(nat \<Rightarrow> nat \<Rightarrow> DecodeBufferError) \<Rightarrow> bytes \<Rightarrow> Sequence list \<Rightarrow> recent \<Rightarrow> bytes
    \<Rightarrow> (ExecuteSequencesError, recent \<times> bytes) res" where
  "run_sequences refuse literals seqs h v =
     rbind (run_loop refuse literals seqs 0 h v) (\<lambda>(i, h, v). Ok (h, v @ drop i literals))"

definition refuse_of :: "DecodeBuffer \<Rightarrow> nat \<Rightarrow> nat \<Rightarrow> DecodeBufferError" where
  "refuse_of db n offset =
     (if rb_len (db_buffer db) = db_total_output_counter db
      then NotEnoughBytesInDictionary (length (db_dict_content db)) (offset - (n - length (db_dict_content db)))
      else OffsetTooBig offset n)"

lemma refusal_grows: "grows db n db' v \<Longrightarrow> offset > length v \<Longrightarrow> refusal db' offset = refuse_of db (length v) offset"
  by (auto simp: grows_def refusal_def refuse_of_def reachable_def history_def)

section \<open>The loop\<close>

lemma exec_literals_ok:
  assumes "db_ok (ex_buffer st)" "ex_literals_copy_counter st + ll \<le> length literals"
    "ll \<le> rb_free (db_buffer (ex_buffer st))" "db_total_output_counter (ex_buffer st) + ll < 2 ^ 64"
  shows "\<exists>db'. exec_literals literals ll st
      = Ok (st\<lparr>ex_buffer := db', ex_literals_copy_counter := ex_literals_copy_counter st + ll\<rparr>)
    \<and> grows (ex_buffer st) ll db' (reachable (ex_buffer st) @ take ll (drop (ex_literals_copy_counter st) literals))"
proof (cases "ll = 0")
  case True
  then show ?thesis using grows_refl [OF assms(1)] by (auto simp: exec_literals_def intro!: exI [of _ "ex_buffer st"])
next
  case False
  let ?bs = "take ll (drop (ex_literals_copy_counter st) literals)"
  have l: "length ?bs = ll" using assms(2) by simp
  from push_grows [OF assms(1), of ?bs, where 'e = ExecuteSequencesError] assms(3,4)
  obtain db' where "push_pre_reserved (ex_buffer st) ?bs = (Ok db' :: (ExecuteSequencesError, _) res)"
    "grows (ex_buffer st) ll db' (reachable (ex_buffer st) @ ?bs)" unfolding l by blast
  then show ?thesis using False assms(2) by (auto simp: exec_literals_def Let_def)
qed

lemma exec_match_ok:
  assumes "db_ok (ex_buffer st)" "0 < offset" "ml = 0 \<or> offset \<le> length (reachable (ex_buffer st))"
    "ml \<le> rb_free (db_buffer (ex_buffer st))" "db_total_output_counter (ex_buffer st) + ml + 2 \<le> 2 ^ 62"
  shows "\<exists>db'. exec_match offset ml st = Some (Ok (st\<lparr>ex_buffer := db'\<rparr>))
    \<and> grows (ex_buffer st) ml db' (copy_match (reachable (ex_buffer st)) offset ml)"
proof (cases "ml = 0")
  case True
  then show ?thesis using grows_refl [OF assms(1)] by (auto simp: exec_match_def intro!: exI [of _ "ex_buffer st"])
next
  case False
  then show ?thesis using repeat_grows [OF assms(1,2) _ assms(4,5)] assms(3) by (auto simp: exec_match_def)
qed

lemma exec_match_refused:
  assumes "db_ok (ex_buffer st)" "0 < ml" "length (reachable (ex_buffer st)) < offset"
  shows "exec_match offset ml st = Some (Err (DecodebufferError (refusal (ex_buffer st) offset)))"
  using repeat_reserved_refused [OF assms(1), of offset ml] assms(2,3)
  by (simp add: exec_match_def repeat_pre_reserved_def in_reach_length)

text \<open>A state of the loop with \<open>todo\<close> bytes of matches to come, started on \<open>db\<close>.\<close>

definition exec_at :: "DecodeBuffer \<Rightarrow> bytes \<Rightarrow> nat \<Rightarrow> ExecState \<Rightarrow> bytes \<Rightarrow> bool" where
  "exec_at db literals todo st v \<longleftrightarrow> grows db (ex_seq_sum st) (ex_buffer st) v
     \<and> ex_literals_copy_counter st \<le> length literals
     \<and> (let n = todo + (length literals - ex_literals_copy_counter st) in
         n \<le> rb_free (db_buffer (ex_buffer st)) \<and> db_total_output_counter (ex_buffer st) + n + 2 \<le> 2 ^ 62
         \<and> ex_seq_sum st + n < 2 ^ 32)"

definition matched :: "Sequence list \<Rightarrow> nat" where
  "matched seqs = sum_list (map (\<lambda>sq. unat (sq_ml sq)) seqs)"

lemma exec_loop_ok:
  assumes "exec_at db literals (matched seqs) st v" "\<forall>sq\<in>set seqs. 0 < sq_of sq"
  shows "case run_loop (refuse_of db) literals seqs (ex_literals_copy_counter st) (recent_of (ex_hist st)) v of
      Ok (i, h, v') \<Rightarrow> \<exists>st'. exec_loop literals seqs st = Some (Ok st') \<and> exec_at db literals 0 st' v'
        \<and> ex_literals_copy_counter st' = i \<and> recent_of (ex_hist st') = h
    | Err e \<Rightarrow> exec_loop literals seqs st = Some (Err e)
    | Panic \<Rightarrow> False"
  using assms
proof (induction seqs arbitrary: st v)
  case Nil
  then show ?case by (simp add: matched_def)
next
  case (Cons sq seqs)
  let ?db = "ex_buffer st" and ?i = "ex_literals_copy_counter st"
  define ll ml where lm: "ll = unat (sq_ll sq)" "ml = unat (sq_ml sq)"
  define n where n: "n = matched seqs + (length literals - ?i)"
  have ms: "matched (sq # seqs) = ml + matched seqs" by (simp add: matched_def lm)
  have g: "grows db (ex_seq_sum st) ?db v" and i: "?i \<le> length literals"
    and room: "ml + n \<le> rb_free (db_buffer ?db)" "db_total_output_counter ?db + (ml + n) + 2 \<le> 2 ^ 62"
      "ex_seq_sum st + (ml + n) < 2 ^ 32"
    using Cons.prems(1) by (simp_all only: exec_at_def ms Let_def n add.assoc)
  note db = growsD [OF g]
  have ll0: "(sq_ll sq \<noteq> 0) = (0 < ll)" by (simp add: lm unat_gt_0)
  obtain offset h where o: "resolve_offset (unat (sq_of sq)) (0 < ll) (recent_of (ex_hist st)) = (offset, h)" by (metis surj_pair)
  obtain r h' where dh: "do_offset_history (sq_of sq) (sq_ll sq) (ex_hist st) = (r, h')" by (metis surj_pair)
  have oh: "(case r of None \<Rightarrow> 0 | Some a \<Rightarrow> unat a) = offset" "recent_of h' = h" "r \<noteq> Some 0"
    using do_offset_history_spec_holds [of "sq_of sq" "sq_ll sq" "ex_hist st"] Cons.prems(2) by (simp_all add: dh ll0 o)
  show ?case
  proof (cases "?i + ll \<le> length literals")
    case False
    then have "exec_literals literals ll st = Err (NotEnoughBytesForSequence (?i + ll) (length literals))"
      using i by (cases "ll = 0") (simp_all add: exec_literals_def Let_def)
    then show ?thesis using False by (simp add: lm)
  next
    case True
    then have "ll \<le> rb_free (db_buffer ?db)" "db_total_output_counter ?db + ll < 2 ^ 64"
      using room n by simp_all
    with exec_literals_ok [OF db(1) True] obtain db1 where
      l: "exec_literals literals ll st = Ok (st\<lparr>ex_buffer := db1, ex_literals_copy_counter := ?i + ll\<rparr>)"
      and g1: "grows ?db ll db1 (v @ take ll (drop ?i literals))" using db(2) by auto
    note d1 = growsD [OF g1]
    let ?v = "v @ take ll (drop ?i literals)"
    let ?st = "st\<lparr>ex_buffer := db1, ex_literals_copy_counter := ?i + ll, ex_hist := h'\<rparr>"
    show ?thesis
    proof (cases "offset = 0")
      case z: True
      then have "r = None" using oh(1,3) by (auto split: option.splits simp: unat_eq_zero)
      then show ?thesis using z True by (simp add: o dh l flip: lm)
    next
      case False
      then obtain a where a: "r = Some a" "unat a = offset" using oh(1) by (auto split: option.splits)
      show ?thesis
      proof (cases "ml \<noteq> 0 \<and> length ?v < offset")
        case far: True
        have "exec_match offset ml ?st = Some (Err (DecodebufferError (refusal db1 offset)))"
          using exec_match_refused [of ?st ml offset] far d1(1,2) by simp
        moreover have "refusal db1 offset = refuse_of db (length ?v) offset"
          using refusal_grows [OF grows_trans [OF g g1]] far by simp
        ultimately show ?thesis using far True False by (simp add: o dh l a flip: lm)
      next
        case near: False
        have fit: "ml \<le> rb_free (db_buffer db1)" "db_total_output_counter db1 + ml + 2 \<le> 2 ^ 62"
          using room True d1(3,5) by (simp_all add: n)
        from exec_match_ok [of ?st offset ml] near d1(1,2) False fit obtain db2 where
          m: "exec_match offset ml ?st = Some (Ok (?st\<lparr>ex_buffer := db2\<rparr>))"
          and g2: "grows db1 ml db2 (copy_match ?v offset ml)" by auto
        let ?st2 = "?st\<lparr>ex_buffer := db2, ex_seq_sum := ex_seq_sum st + ml + ll\<rparr>"
        have g3: "grows db (ex_seq_sum st + ml + ll) db2 (copy_match ?v offset ml)"
          using grows_trans [OF g grows_trans [OF g1 g2]] by (simp add: ac_simps)
        have "exec_at db literals (matched seqs) ?st2 (copy_match ?v offset ml)"
          using g3 True room d1(3,5) growsD(3,5) [OF g2] by (simp add: exec_at_def Let_def n)
        from Cons.IH [OF this] Cons.prems(2) oh(2) have "case run_loop (refuse_of db) literals seqs (?i + ll) h (copy_match ?v offset ml) of
            Ok (i, h, v') \<Rightarrow> \<exists>st'. exec_loop literals seqs ?st2 = Some (Ok st') \<and> exec_at db literals 0 st' v'
              \<and> ex_literals_copy_counter st' = i \<and> recent_of (ex_hist st') = h
          | Err e \<Rightarrow> exec_loop literals seqs ?st2 = Some (Err e)
          | Panic \<Rightarrow> False" by simp
        moreover have "ex_seq_sum st + ml < 2 ^ 32" "ex_seq_sum st + ml + ll < 2 ^ 32"
          using room(3) True unfolding n by linarith+
        then have "exec_loop literals (sq # seqs) st = exec_loop literals seqs ?st2"
          by (simp add: l dh a m add_seq_sum_def flip: lm)
        moreover have "run_loop (refuse_of db) literals (sq # seqs) ?i (recent_of (ex_hist st)) v
            = run_loop (refuse_of db) literals seqs (?i + ll) h (copy_match ?v offset ml)"
          using True False near by (auto simp: o Let_def simp flip: lm)
        ultimately show ?thesis by (simp only:)
      qed
    qed
  qed
qed

section \<open>The whole block\<close>

lemma block_output_eq: "block_output seqs literals = min (2 ^ 64 - 1) (matched seqs + length literals)"
proof -
  have "fold (\<lambda>sq acc. min M (acc + unat (sq_ml sq))) seqs (min M a) = min M (a + matched seqs)" for M a :: nat
  proof (induction seqs arbitrary: a)
    case (Cons sq seqs)
    have "min M (min M a + unat (sq_ml sq)) = min M (a + unat (sq_ml sq))" by simp
    then show ?case using Cons.IH [of "a + unat (sq_ml sq)"] by (simp only: fold_simps matched_def list.map sum_list.Cons add.assoc)
  qed (simp add: matched_def)
  from this [of "2 ^ 64 - 1" 0] show ?thesis by (simp add: block_output_def min_def)
qed

lemma run_loop_length:
  "run_loop refuse literals seqs i h v = Ok (i', h', v') \<Longrightarrow> i \<le> length literals \<Longrightarrow>
    i \<le> i' \<and> i' \<le> length literals \<and> length v' = length v + matched seqs + (i' - i)"
proof (induction refuse literals seqs i h v rule: run_loop.induct)
  case (2 refuse literals sq seqs i h v)
  obtain offset g where o: "resolve_offset (unat (sq_of sq)) (0 < unat (sq_ll sq)) h = (offset, g)" by (metis surj_pair)
  have c: "\<not> i + unat (sq_ll sq) > length literals" "offset \<noteq> 0"
    "\<not> (unat (sq_ml sq) \<noteq> 0 \<and> offset > length (v @ take (unat (sq_ll sq)) (drop i literals)))"
    using "2.prems"(1) by (auto simp: o Let_def split: if_splits)
  have "run_loop refuse literals seqs (i + unat (sq_ll sq)) g
      (copy_match (v @ take (unat (sq_ll sq)) (drop i literals)) offset (unat (sq_ml sq))) = Ok (i', h', v')"
    using "2.prems"(1) c by (auto simp: o Let_def split: if_splits)
  from "2.IH" [OF refl refl c(1) refl o [symmetric] refl c(2,3) this] c(1)
  show ?case by (simp add: matched_def)
qed (simp add: matched_def)

lemma length_grows: "grows db n db' v \<Longrightarrow> length v = length (reachable db) + n"
  by (auto simp: grows_def reachable_def history_def)

lemma execute_sequences_refines_holds:
  assumes ok: "db_ok db" and pos: "\<forall>sq\<in>set seqs. 0 < sq_of sq" and max: "db_total_output_counter db < 2 ^ 61"
  shows "if matched seqs + length literals > max_block_output (db_window_size db)
    then execute_sequences seqs literals db hist = Some (Err (BlockOutputTooLarge (max_block_output (db_window_size db))))
    else case run_sequences (refuse_of db) literals seqs (recent_of hist) (reachable db) of
      Ok (h, v) \<Rightarrow> \<exists>buf hist'. execute_sequences seqs literals db hist
          = Some (Ok (appended db buf (matched seqs + length literals), hist'))
        \<and> db_ok (appended db buf (matched seqs + length literals))
        \<and> reachable (appended db buf (matched seqs + length literals)) = v \<and> recent_of hist' = h
    | Err e \<Rightarrow> execute_sequences seqs literals db hist = Some (Err e)
    | Panic \<Rightarrow> False"
proof -
  define n where n: "n = matched seqs + length literals"
  define cap where cap: "cap = max_block_output (db_window_size db)"
  have cap_le: "cap \<le> 2 ^ 17" by (simp add: cap max_block_output_def MAX_BLOCK_SIZE_def)
  show ?thesis
  proof (cases "n > cap")
    case True
    then have "block_output seqs literals > cap" using cap_le by (simp add: block_output_eq flip: n)
    then show ?thesis using True by (simp add: execute_sequences_def Let_def flip: n cap)
  next
    case False
    then have n_le: "n \<le> 2 ^ 17" using cap_le by simp
    then have bo: "block_output seqs literals = n" by (simp add: block_output_eq flip: n)
    have inv: "ring_inv (db_buffer db)" "rb_len (db_buffer db) \<le> db_total_output_counter db" using ok by (simp_all add: db_ok_def)
    have "rb_len (db_buffer db) + n + 2 \<le> 2 ^ 62" using inv(2) max n_le by simp
    from db_reserve_ok [OF inv(1) this, where 'e = ExecuteSequencesError] obtain b1 where
      b1: "(db_reserve db n :: (ExecuteSequencesError, _) res) = Ok (db\<lparr>db_buffer := b1\<rparr>)" "ring_inv b1"
        "ring_abs b1 = ring_abs (db_buffer db)" "n \<le> rb_free b1" by blast
    let ?db = "db\<lparr>db_buffer := b1\<rparr>"
    have l1: "rb_len b1 = rb_len (db_buffer db)" using b1(3) by (metis length_ring_abs)
    have same: "db_ok ?db" "reachable ?db = reachable db" "refuse_of ?db = refuse_of db"
      using b1 l1 inv by (auto simp: db_ok_def reachable_def history_def refuse_of_def fun_eq_iff)
    let ?st = "\<lparr>ex_buffer = ?db, ex_hist = hist, ex_literals_copy_counter = 0, ex_seq_sum = 0\<rparr>"
    have "exec_at ?db literals (matched seqs) ?st (reachable db)"
      using grows_refl [OF same(1)] b1(4) max n_le by (simp add: exec_at_def same(2) n)
    from exec_loop_ok [OF this pos] have loop: "case run_loop (refuse_of db) literals seqs 0 (recent_of hist) (reachable db) of
        Ok (i, h, v') \<Rightarrow> \<exists>st'. exec_loop literals seqs ?st = Some (Ok st') \<and> exec_at ?db literals 0 st' v'
          \<and> ex_literals_copy_counter st' = i \<and> recent_of (ex_hist st') = h
      | Err e \<Rightarrow> exec_loop literals seqs ?st = Some (Err e)
      | Panic \<Rightarrow> False" by (simp add: same(3))
    have run: "execute_sequences seqs literals db hist = map_option (\<lambda>r. rbind r (\<lambda>st. rbind (exec_rest literals st) (\<lambda>st.
              rbind (rsub (db_len (ex_buffer st)) (db_len db)) (\<lambda>diff.
              rbind (rassert (ex_seq_sum st = diff)) (\<lambda>_.
              Ok (ex_buffer st, ex_hist st)))))) (exec_loop literals seqs ?st)"
      using False by (simp add: execute_sequences_def Let_def bo b1(1) flip: cap)
    show ?thesis
    proof (cases "run_loop (refuse_of db) literals seqs 0 (recent_of hist) (reachable db)")
      case (Ok r)
      then obtain i h v where r: "run_loop (refuse_of db) literals seqs 0 (recent_of hist) (reachable db) = Ok (i, h, v)"
        by (metis prod_cases3)
      with loop obtain st where st: "exec_loop literals seqs ?st = Some (Ok st)" "exec_at ?db literals 0 st v"
        "ex_literals_copy_counter st = i" "recent_of (ex_hist st) = h" by auto
      have g: "grows ?db (ex_seq_sum st) (ex_buffer st) v" and i: "i \<le> length literals"
        and room: "length literals - i \<le> rb_free (db_buffer (ex_buffer st))"
          "db_total_output_counter (ex_buffer st) + (length literals - i) + 2 \<le> 2 ^ 62"
          "ex_seq_sum st + (length literals - i) < 2 ^ 32"
        using st(2) by (simp_all only: exec_at_def Let_def st(3) add_0)
      have total: "ex_seq_sum st + (length literals - i) = n"
        using run_loop_length [OF r] length_grows [OF g] same(2) by (simp add: n)
      have "\<exists>st'. exec_rest literals st = Ok st' \<and> ex_seq_sum st' = n \<and> ex_hist st' = ex_hist st
          \<and> grows ?db n (ex_buffer st') (v @ drop i literals)"
      proof (cases "i < length literals")
        case True
        have "length (drop i literals) \<le> rb_free (db_buffer (ex_buffer st))"
          "db_total_output_counter (ex_buffer st) + length (drop i literals) < 2 ^ 64" using room by simp_all
        from push_grows [OF growsD(1) [OF g] this, where 'e = ExecuteSequencesError] obtain db' where
          p: "(push_pre_reserved (ex_buffer st) (drop i literals) :: (ExecuteSequencesError, _) res) = Ok db'"
            "grows (ex_buffer st) (length literals - i) db' (v @ drop i literals)" using growsD(2) [OF g] by auto
        have "length (drop i literals) mod 2 ^ 32 = length literals - i" using room(3) by simp
        then show ?thesis
          using True p(1) room(3) total grows_trans [OF g p(2)] st(3) by (simp add: exec_rest_def Let_def add_seq_sum_def)
      next
        case False
        then show ?thesis using st(3) i total g by (simp add: exec_rest_def)
      qed
      then obtain st' where st': "exec_rest literals st = Ok st'" "ex_seq_sum st' = n" "ex_hist st' = ex_hist st"
        "grows ?db n (ex_buffer st') (v @ drop i literals)" by blast
      have "db_len (ex_buffer st') = db_len db + n" using growsD(4) [OF st'(4)] l1 by (simp add: db_len_def)
      then have "execute_sequences seqs literals db hist = Some (Ok (ex_buffer st', ex_hist st'))"
        by (simp add: run st(1) st'(1,2) rsub_def)
      moreover obtain buf where "ex_buffer st' = appended db buf n" using st'(4) by (auto simp: grows_def)
      ultimately show ?thesis
        using False r growsD(1,2) [OF st'(4)] st(4) st'(3) by (auto simp: run_sequences_def simp flip: n cap)
    next
      case (Err e)
      then show ?thesis using False loop run by (simp add: run_sequences_def flip: n cap)
    next
      case Panic
      then show ?thesis using loop by simp
    qed
  qed
qed

text \<open>
  C27.  A block whose output exceeds the cap is refused before anything is reserved; every other block
  leaves in reach exactly what the reference run leaves, or fails with its error.  The block returns
  and never panics: the reservation suffices for every append, and the final length check holds.
\<close>

theorem execute_sequences_refines:
  assumes ok: "db_ok db" and pos: "\<forall>sq\<in>set seqs. 0 < sq_of sq" and max: "db_total_output_counter db < 2 ^ 61"
  shows "if matched seqs + length literals > max_block_output (db_window_size db)
    then execute_sequences seqs literals db hist = Some (Err (BlockOutputTooLarge (max_block_output (db_window_size db))))
    else case run_sequences (refuse_of db) literals seqs (recent_of hist) (reachable db) of
      Ok (h, v) \<Rightarrow> \<exists>buf hist'. execute_sequences seqs literals db hist
          = Some (Ok (appended db buf (matched seqs + length literals), hist'))
        \<and> db_ok (appended db buf (matched seqs + length literals))
        \<and> reachable (appended db buf (matched seqs + length literals)) = v \<and> recent_of hist' = h
    | Err e \<Rightarrow> execute_sequences seqs literals db hist = Some (Err e)
    | Panic \<Rightarrow> False"
  by (rule execute_sequences_refines_holds [OF assms])

text \<open>One literal, a match of four bytes two back, and a literal behind it.\<close>

lemma execute_sequences_refines_witness:
  "let db = (db_new 1024)\<lparr>db_buffer := \<lparr>rb_buf = [Some 1, Some 2, Some 3, None], rb_cap = 4, rb_head = 0, rb_tail = 3\<rparr>,
      db_total_output_counter := 3\<rparr>
   in \<exists>buf hist'. execute_sequences [\<lparr>sq_ll = 1, sq_ml = 4, sq_of = 5\<rparr>] [9, 7] db (1, 4, 8) = Some (Ok (appended db buf 6, hist'))
     \<and> reachable (appended db buf 6) = [1, 2, 3, 9, 3, 9, 3, 9, 7] \<and> recent_of hist' = (2, 1, 4)"
proof -
  let ?rb = "\<lparr>rb_buf = [Some 1, Some 2, Some 3, None], rb_cap = 4, rb_head = 0, rb_tail = 3\<rparr>"
  let ?db = "(db_new 1024)\<lparr>db_buffer := ?rb, db_total_output_counter := 3\<rparr>"
  let ?seqs = "[\<lparr>sq_ll = 1, sq_ml = 4, sq_of = 5\<rparr>]"
  have l: "rb_len ?rb = 3" "ring_inv ?rb" "ring_abs ?rb = [1, 2, 3]" by code_simp+
  have ok: "db_ok ?db" "\<forall>sq\<in>set ?seqs. 0 < sq_of sq" "db_total_output_counter ?db < 2 ^ 61"
    using l by (simp_all add: db_ok_def)
  have r: "reachable ?db = [1, 2, 3]" using l by (simp add: reachable_def history_def db_new_def)
  have m: "matched ?seqs + length [9, 7 :: u8] = 6" "max_block_output (db_window_size ?db) = 1024"
    by (simp_all add: matched_def db_new_def max_block_output_def MAX_BLOCK_SIZE_def)
  have run: "run_sequences refuse [9, 7] ?seqs (recent_of (1, 4, 8)) [1, 2, 3] = Ok ((2, 1, 4), [1, 2, 3, 9, 3, 9, 3, 9, 7])" for refuse
    by code_simp
  from execute_sequences_refines [OF ok, of "[9, 7]" "(1, 4, 8)"] show ?thesis
    unfolding m r run by (auto simp: Let_def)
qed

end
