(* ===== verification/Seq_Emit.thy ===== *)
theory Seq_Emit
  imports Sequence_Run Sequences_Section
begin

text \<open>
  The emission of one sequence, \<open>push_seq_packed\<close> of \<open>encoding/match_generator/tables.rs\<close>, which every
  match finder calls, and what it means for the decoder: a parse whose matches really repeat earlier
  bytes is executed back to the block it was taken from.
\<close>

section \<open>Emitting a sequence\<close>

text \<open>\<open>read8\<close> of \<open>hash.rs\<close>; the callers keep it inside the window.\<close>

definition read8 :: "bytes \<Rightarrow> nat \<Rightarrow> ('e, u64) res" where
  "read8 win idx = load_le64 win idx"

text \<open>Up to eight literals are copied as one word when the window has eight bytes there.\<close>

definition push_literals :: "bytes \<Rightarrow> nat \<Rightarrow> bytes \<Rightarrow> bytes \<Rightarrow> (unit, bytes) res" where
  "push_literals win anchor_idx lits literals =
     (if length lits \<le> 8 \<and> anchor_idx + 8 \<le> length win then
        rbind (read8 win anchor_idx) (\<lambda>v.
        let cap = length literals + 8; end' = length literals in
        rbind (overrun_store_u64 cap literals end' v) (\<lambda>buf. publish_len cap buf (end' + length lits)))
      else Ok (literals @ lits))"

text \<open>Positions are absolute; \<open>start\<close> is an index into the window that begins at \<open>win_base\<close>.\<close>

definition push_seq_packed ::
  "bytes \<Rightarrow> nat \<Rightarrow> nat \<Rightarrow> nat \<Rightarrow> nat \<Rightarrow> u32 \<Rightarrow> offset_hist \<Rightarrow> bytes \<Rightarrow> SeqWord list
    \<Rightarrow> (unit, (u32 \<times> nat) \<times> offset_hist \<times> bytes \<times> SeqWord list) res" where
  "push_seq_packed win win_base anchor start match_len of_value rep literals seqs =
     rbind (rsub anchor win_base) (\<lambda>anchor_idx.
     rbind (rsub start anchor_idx) (\<lambda>n. let ll = of_nat n :: u32 in
     rbind (rassert (start \<le> length win)) (\<lambda>_. let lits = take n (drop anchor_idx win) in
     if ll = 0 then
       let (_, rep) = do_offset_history of_value 0 rep in
       rbind (pack_seq 0 (of_nat match_len) of_value) (\<lambda>w. Ok ((0, start + match_len), rep, literals, seqs @ [w]))
     else
       rbind (push_literals win anchor_idx lits literals) (\<lambda>literals.
       let (_, rep) = do_offset_history of_value ll rep in
       rbind (pack_seq ll (of_nat match_len) of_value) (\<lambda>w.
         Ok ((ll, start + match_len), rep, literals, seqs @ [w]))))))"

text \<open>Both ways of copying the literals append exactly them.\<close>

lemma push_literals_eq:
  assumes "length (take n (drop i win)) = n"
  shows "push_literals win i (take n (drop i win)) literals = Ok (literals @ take n (drop i win))"
proof (cases "n \<le> 8 \<and> i + 8 \<le> length win")
  case True
  then have "take n (take 8 (drop i win)) = take n (drop i win)" "length (take 8 (drop i win)) = 8"
    by (auto simp: min_absorb1 min_absorb2)
  then show ?thesis using True bytes_of_word unfolding push_literals_def assms
    by (simp add: read8_def load_le64_def overrun_store_u64_def publish_len_def)
qed (simp only: push_literals_def assms if_False)

lemma push_seq_packed_eq:
  assumes i: "i + n + ml \<le> length win" "n + ml \<le> 131072" "3 \<le> ml" and o: "0 < ofv" "ofv < 2 ^ 28"
  shows "\<exists>w. push_seq_packed win base (base + i) (i + n) ml ofv rep literals seqs
      = Ok ((of_nat n, i + n + ml), snd (do_offset_history ofv (of_nat n) rep),
          literals @ take n (drop i win), seqs @ [w])
    \<and> pack_seq (of_nat n) (of_nat ml) ofv = Ok w"
proof -
  have u: "unat (of_nat n :: u32) = n" "unat (of_nat ml :: u32) = ml"
    using i by (simp_all add: unat_of_nat)
  have b: "(of_nat n :: u32) \<le> 131071" "3 \<le> (of_nat ml :: u32)" "(of_nat ml :: u32) \<le> 131074" "ofv \<noteq> 0"
    using i o by (auto simp: word_le_nat_alt u)
  obtain w where w: "pack_seq (of_nat n) (of_nat ml) ofv = Ok w" using pack_seq_packs [OF b o(2)] by blast
  have z: "(of_nat n :: u32) = 0 \<longleftrightarrow> n = 0"
  proof
    assume "(of_nat n :: u32) = 0"
    then have "unat (of_nat n :: u32) = 0" by simp
    then show "n = 0" unfolding u .
  qed simp
  show ?thesis
  proof (cases "n = 0")
    case True
    then show ?thesis using w i by (intro exI [of _ w]) (simp add: push_seq_packed_def rsub_def Let_def split: prod.splits)
  next
    case False
    let ?l = "take n (drop i win)"
    have l: "length ?l = n" using i by simp
    have "push_literals win i ?l literals = Ok (literals @ ?l)" by (rule push_literals_eq [OF l])
    then show ?thesis using False w i
      by (intro exI [of _ w]) (simp add: push_seq_packed_def rsub_def z Let_def split: prod.splits)
  qed
qed

section \<open>A parse of a block\<close>

text \<open>
  A match finder as its output: where each match starts, how long it is, and its offset value.  The
  parse is right when the matches follow each other and each, with its offset resolved by the table
  of the format, repeats bytes of what is in reach in front of the window or in the window.
\<close>

type_synonym parse = "(nat \<times> nat \<times> u32) list"

fun emit_parse :: "bytes \<Rightarrow> nat \<Rightarrow> parse \<Rightarrow> nat \<Rightarrow> offset_hist \<Rightarrow> bytes \<Rightarrow> SeqWord list
    \<Rightarrow> (unit, nat \<times> offset_hist \<times> bytes \<times> SeqWord list) res" where
  "emit_parse win base [] anchor rep literals seqs = Ok (anchor, rep, literals, seqs)"
| "emit_parse win base ((start, ml, ofv) # ms) anchor rep literals seqs =
     rbind (push_seq_packed win base (base + anchor) start ml ofv rep literals seqs)
       (\<lambda>((ll, anchor), rep, literals, seqs). emit_parse win base ms anchor rep literals seqs)"

definition repeats :: "bytes \<Rightarrow> nat \<Rightarrow> nat \<Rightarrow> nat \<Rightarrow> bool" where
  "repeats text p offset ml \<longleftrightarrow> 0 < offset \<and> offset \<le> p \<and> p + ml \<le> length text
     \<and> (\<forall>i<ml. text ! (p + i) = text ! (p + i - offset))"

fun parse_ok :: "bytes \<Rightarrow> bytes \<Rightarrow> nat \<Rightarrow> recent \<Rightarrow> parse \<Rightarrow> bool" where
  "parse_ok front win anchor h [] \<longleftrightarrow> anchor \<le> length win"
| "parse_ok front win anchor h ((start, ml, ofv) # ms) \<longleftrightarrow>
     anchor \<le> start \<and> 3 \<le> ml \<and> 0 < ofv \<and> ofv < 2 ^ 28
     \<and> (case resolve_offset (unat ofv) (anchor < start) h of (offset, h) \<Rightarrow>
         repeats (front @ win) (length front + start) offset ml \<and> parse_ok front win (start + ml) h ms)"

lemma copy_match_repeats:
  assumes "repeats text p offset ml"
  shows "copy_match (take p text) offset ml = take (p + ml) text"
proof -
  have "copy_match (take p text) offset k = take (p + k) text" if "k \<le> ml" for k
    using that
  proof (induction k)
    case (Suc k)
    have l: "length (take (p + k) text) = p + k" using assms Suc.prems by (simp add: repeats_def)
    have "p + k - offset < p + k" using assms by (simp add: repeats_def)
    then have "take (p + k) text ! (p + k - offset) = text ! (p + k)" using assms Suc.prems by (simp add: repeats_def)
    then have "copy_match (take p text) offset (Suc k) = take (p + k) text @ [text ! (p + k)]"
      unfolding copy_match_snoc Let_def using Suc l by simp
    also have "\<dots> = take (p + Suc k) text" using assms Suc.prems by (simp add: repeats_def take_Suc_conv_app_nth)
    finally show ?case .
  qed simp
  then show ?thesis by simp
qed

lemma emit_parse_runs:
  assumes "parse_ok front win i (recent_of rep) ms" "length win \<le> i + 131072"
  shows "\<exists>j rep' lits ws qs. emit_parse win base ms i rep literals seqs = Ok (j, rep', literals @ lits, seqs @ ws)
    \<and> i \<le> j \<and> j \<le> length win \<and> packed_from qs ws \<and> length ws = length ms
    \<and> matched qs + length lits = j - i
    \<and> (\<forall>rest refuse. run_loop refuse (literals @ lits @ rest) qs (length literals) (recent_of rep) (front @ take i win)
        = Ok (length literals + length lits, recent_of rep', front @ take j win))"
  using assms
proof (induction ms arbitrary: i rep literals seqs)
  case Nil
  then show ?case
    by (intro exI [of _ i] exI [of _ rep] exI [of _ "[]"] exI [of _ "[]"] exI [of _ "[]"]) (simp add: packed_from_def matched_def)
next
  case (Cons m ms)
  obtain start ml ofv where m: "m = (start, ml, ofv)" by (cases m)
  obtain offset h where o: "resolve_offset (unat ofv) (i < start) (recent_of rep) = (offset, h)" by (metis surj_pair)
  have p: "i \<le> start" "3 \<le> ml" "0 < ofv" "ofv < 2 ^ 28" "repeats (front @ win) (length front + start) offset ml"
    "parse_ok front win (start + ml) h ms" using Cons.prems(1) by (simp_all add: m o)
  define n where "n = start - i"
  have st: "start = i + n" using p(1) by (simp add: n_def)
  have fits: "i + n + ml \<le> length win" using p(5) by (simp add: repeats_def st)
  have n: "n + ml \<le> 131072" using fits Cons.prems(2) by simp
  let ?l = "take n (drop i win)"
  obtain w where w: "push_seq_packed win base (base + i) (i + n) ml ofv rep literals seqs
      = Ok ((of_nat n, i + n + ml), snd (do_offset_history ofv (of_nat n) rep), literals @ ?l, seqs @ [w])"
      "pack_seq (of_nat n) (of_nat ml) ofv = Ok w"
    using push_seq_packed_eq [OF fits n p(2,3,4)] by blast
  have u: "unat (of_nat n :: u32) = n" "unat (of_nat ml :: u32) = ml" using n by (simp_all add: unat_of_nat)
  have z: "((of_nat n :: u32) \<noteq> 0) = (i < start)" using u(1) by (auto simp: st simp flip: unat_gt_0)
  have h: "recent_of (snd (do_offset_history ofv (of_nat n) rep)) = h"
    using do_offset_history_spec_holds [OF p(3), of "of_nat n" rep] by (auto simp: z o split: prod.splits)
  let ?q = "\<lparr>sq_ll = of_nat n, sq_ml = of_nat ml, sq_of = ofv\<rparr>"
  have q: "seq_ok ?q" using n p(2,3,4) by (auto simp: seq_ok_def word_le_nat_alt u MAX_BLOCK_SIZE_def)
  have "parse_ok front win (i + n + ml) (recent_of (snd (do_offset_history ofv (of_nat n) rep))) ms"
    "length win \<le> i + n + ml + 131072" using p(6) Cons.prems(2) by (simp_all add: st h)
  from Cons.IH [OF this, of "literals @ ?l" "seqs @ [w]"]
  obtain j rep' lits ws qs where IH: "emit_parse win base ms (i + n + ml) (snd (do_offset_history ofv (of_nat n) rep)) (literals @ ?l) (seqs @ [w])
        = Ok (j, rep', (literals @ ?l) @ lits, (seqs @ [w]) @ ws)"
      "i + n + ml \<le> j" "j \<le> length win" "packed_from qs ws" "length ws = length ms" "matched qs + length lits = j - (i + n + ml)"
    and run: "\<And>rest refuse. run_loop refuse ((literals @ ?l) @ lits @ rest) qs (length (literals @ ?l)) h (front @ take (i + n + ml) win)
        = Ok (length (literals @ ?l) + length lits, recent_of rep', front @ take j win)"
    unfolding h by blast
  have ll: "length ?l = n" using fits by simp
  have cm: "copy_match (front @ take i win @ ?l) offset ml = front @ take (i + n + ml) win"
    using copy_match_repeats [OF p(5)] by (simp add: st add.assoc take_add)
  have far: "offset \<noteq> 0" "\<not> length (front @ take i win @ ?l) < offset" using p(5) fits by (simp_all add: repeats_def st)
  have step: "run_loop refuse (literals @ (?l @ lits) @ rest) (?q # qs) (length literals) (recent_of rep) (front @ take i win)
      = Ok (length literals + length (?l @ lits), recent_of rep', front @ take j win)" for rest refuse
  proof -
    have "resolve_offset (unat ofv) (0 < n) (recent_of rep) = (offset, h)" using o by (simp add: st)
    then show ?thesis using run [of refuse rest] far cm ll
      by (simp add: u Let_def)
  qed
  have "packed_from (?q # qs) (w # ws)" using IH(4) w(2) q by (simp add: packed_from_def)
  moreover have "emit_parse win base (m # ms) i rep literals seqs = Ok (j, rep', literals @ ?l @ lits, seqs @ w # ws)"
    using w(1) IH(1) by (simp add: m st)
  moreover have "matched (?q # qs) + length (?l @ lits) = j - i" using IH(2,6) ll u by (simp add: matched_def)
  moreover have "i \<le> j" "length (w # ws) = length (m # ms)" using IH(2,5) by simp_all
  ultimately show ?case using IH(3) step by blast
qed

section \<open>From the parse back to the block\<close>

lemma recent_of_inject [simp]: "recent_of h = recent_of h' \<longleftrightarrow> h = h'"
  by (auto simp: recent_of_def word_unat_eq_iff split: prod.splits)

lemma emitted_parse_executes_holds:
  assumes db: "db_ok db" "db_total_output_counter db < 2 ^ 61" "reachable db = front @ take i win"
    and block: "parse_ok front win i (recent_of rep) ms" "length win \<le> i + 131072" "length win \<le> i + db_window_size db"
  shows "\<exists>j rep' lits ws qs buf. emit_parse win base ms i rep [] [] = Ok (j, rep', lits, ws) \<and> packed_from qs ws
    \<and> length ws = length ms \<and> execute_sequences qs (lits @ drop j win) db rep = Some (Ok (appended db buf (length win - i), rep'))
    \<and> db_ok (appended db buf (length win - i)) \<and> reachable (appended db buf (length win - i)) = front @ win"
proof -
  from emit_parse_runs [OF block(1,2), of base "[]" "[]"] obtain j rep' lits ws qs where
    e: "emit_parse win base ms i rep [] [] = Ok (j, rep', lits, ws)" "i \<le> j" "j \<le> length win" "packed_from qs ws"
      "length ws = length ms" "matched qs + length lits = j - i"
    and run: "\<And>rest refuse. run_loop refuse (lits @ rest) qs 0 (recent_of rep) (front @ take i win)
        = Ok (length lits, recent_of rep', front @ take j win)" by auto
  let ?lits = "lits @ drop j win"
  have n: "matched qs + length ?lits = length win - i" using e(2,3,6) by simp
  have pos: "\<forall>sq\<in>set qs. 0 < sq_of sq"
  proof
    fix q assume "q \<in> set qs"
    with e(4) have "seq_ok q" unfolding packed_from_def by (induction qs ws rule: list_all2_induct) auto
    then show "0 < sq_of q" by (simp add: seq_ok_def word_gt_0)
  qed
  have "\<not> matched qs + length ?lits > max_block_output (db_window_size db)"
  proof -
    have "length win - i \<le> 131072" "length win - i \<le> db_window_size db" using block(2,3) by linarith+
    then show ?thesis unfolding n by (auto simp: max_block_output_def MAX_BLOCK_SIZE_def)
  qed
  moreover have "run_sequences (refuse_of db) ?lits qs (recent_of rep) (reachable db) = Ok (recent_of rep', front @ win)"
    using run [of "refuse_of db" "drop j win"] by (simp add: run_sequences_def db(3))
  ultimately have "\<exists>buf hist'. execute_sequences qs ?lits db rep = Some (Ok (appended db buf (length win - i), hist'))
        \<and> db_ok (appended db buf (length win - i)) \<and> reachable (appended db buf (length win - i)) = front @ win
        \<and> recent_of hist' = recent_of rep'"
    using execute_sequences_refines_holds [OF db(1) pos db(2), of ?lits rep] unfolding n by simp
  then show ?thesis using e by (auto intro!: exI [of _ j] exI [of _ ws] exI [of _ qs])
qed

text \<open>
  C28.  A right parse of a block is emitted without a panic, and executing its sequences over its literals
  and the bytes behind the last match leaves the block in reach, and the encoder's offset history.
\<close>

theorem emitted_parse_executes:
  assumes db: "db_ok db" "db_total_output_counter db < 2 ^ 61" "reachable db = front @ take i win"
    and block: "parse_ok front win i (recent_of rep) ms" "length win \<le> i + 131072" "length win \<le> i + db_window_size db"
  shows "\<exists>j rep' lits ws qs buf. emit_parse win base ms i rep [] [] = Ok (j, rep', lits, ws) \<and> packed_from qs ws
    \<and> length ws = length ms \<and> execute_sequences qs (lits @ drop j win) db rep = Some (Ok (appended db buf (length win - i), rep'))
    \<and> db_ok (appended db buf (length win - i)) \<and> reachable (appended db buf (length win - i)) = front @ win"
  by (rule emitted_parse_executes_holds [OF assms])

text \<open>Nine bytes of period three: three literals and one match.\<close>

lemma emitted_parse_executes_witness:
  "\<exists>j rep' lits ws qs buf. emit_parse [1, 2, 3, 1, 2, 3, 1, 2, 3] 0 [(3, 6, 6)] 0 (1, 4, 8) [] [] = Ok (j, rep', lits, ws)
    \<and> execute_sequences qs (lits @ drop j [1, 2, 3, 1, 2, 3, 1, 2, 3]) (db_new 1024) (1, 4, 8) = Some (Ok (appended (db_new 1024) buf 9, rep'))
    \<and> reachable (appended (db_new 1024) buf 9) = [1, 2, 3, 1, 2, 3, 1, 2, 3]"
proof -
  let ?win = "[1, 2, 3, 1, 2, 3, 1, 2, 3] :: bytes"
  have db: "db_ok (db_new 1024)" "db_total_output_counter (db_new 1024) < 2 ^ 61" "reachable (db_new 1024) = [] @ take 0 ?win"
    by (simp_all add: db_ok_def db_new_def ring_inv_def rb_new_def rb_len_eq reachable_def history_def ring_abs_def)
  have p: "parse_ok [] ?win 0 (recent_of (1, 4, 8)) [(3, 6, 6)]" "length ?win \<le> 0 + 131072" "length ?win \<le> 0 + db_window_size (db_new 1024)"
    by (code_simp, simp_all add: db_new_def)
  have n: "length ?win - 0 = 9" by simp
  from emitted_parse_executes [OF db p, of 0] show ?thesis
    unfolding n append_Nil by (elim exE conjE, intro exI conjI) assumption+
qed

text \<open>
  C1.  The round trip of a block: what a match finder with a right parse emits, written as a sequences
  section with any admissible choice of tables, is parsed and decoded by the decoder and executed
  over the literals to exactly the block; both sides end with the same offset history, and the
  scratch agrees with the tables for the next block.
\<close>

theorem block_roundtrip:
  assumes db: "db_ok db" "db_total_output_counter db < 2 ^ 61" "reachable db = front @ take i win"
    and block: "parse_ok front win i (recent_of rep) ms" "length win \<le> i + 131072" "length win \<le> i + db_window_size db"
    and enc: "emit_parse win base ms i rep [] [] = Ok (j, rep', lits, ws)" "ms \<noteq> []" "length ms \<le> 0xffff + 0x7f00"
    and st: "fs_inv s" "bw_inv w" "length (bw_bits w) mod 8 = 0"
    and modes: "mode_ok LL_KIND (view_ll s) ll (codes_used ll_code_of ws)"
      "mode_ok ML_KIND (view_ml s) ml (codes_used ml_code_of ws)"
      "mode_ok OF_KIND (view_of s) off (codes_used of_code_of ws)"
  shows "\<exists>w' sec hdr n s' qs buf. write_sequences_section ws ll ml off w = Ok w' \<and> bw_bits w' = bw_bits w @ bytes_bits sec
    \<and> sh_parse_from_header sh_new sec = Ok (hdr, n) \<and> decode_sequences_into hdr (drop n sec) s [] = Ok (qs, s')
    \<and> execute_sequences qs (lits @ drop j win) db rep = Some (Ok (appended db buf (length win - i), rep'))
    \<and> reachable (appended db buf (length win - i)) = front @ win \<and> db_ok (appended db buf (length win - i))
    \<and> fs_inv s' \<and> tables_agree s' (fm_as_ref ll) (fm_as_ref ml) (fm_as_ref off) ws"
proof -
  from emitted_parse_executes_holds [OF db block, of base] obtain qs buf where
    e: "packed_from qs ws" "length ws = length ms" "execute_sequences qs (lits @ drop j win) db rep = Some (Ok (appended db buf (length win - i), rep'))"
      "db_ok (appended db buf (length win - i))" "reachable (appended db buf (length win - i)) = front @ win"
    using enc(1) by auto
  have "length qs = length ws" using e(1) by (simp add: packed_from_def list_all2_lengthD)
  then have "qs \<noteq> []" "length qs \<le> 0xffff + 0x7f00" using enc(2,3) e(2) by auto
  from sequences_section_roundtrip_holds [OF st this e(1) modes, of "[]"] e show ?thesis
    unfolding append_Nil by blast
qed

text \<open>The same block through a sequences section with the predefined tables.\<close>

lemma block_roundtrip_witness:
  "\<exists>j rep' lits ws tl tm tf w' sec hdr n s' qs buf. emit_parse [1, 2, 3, 1, 2, 3, 1, 2, 3] 0 [(3, 6, 6)] 0 (1, 4, 8) [] [] = Ok (j, rep', lits, ws)
    \<and> write_sequences_section ws (FPredefined tl) (FPredefined tm) (FPredefined tf) bw_new = Ok w' \<and> bw_bits w' = bytes_bits sec
    \<and> sh_parse_from_header sh_new sec = Ok (hdr, n) \<and> decode_sequences_into hdr (drop n sec) fs_new [] = Ok (qs, s')
    \<and> execute_sequences qs (lits @ drop j [1, 2, 3, 1, 2, 3, 1, 2, 3]) (db_new 1024) (1, 4, 8) = Some (Ok (appended (db_new 1024) buf 9, rep'))
    \<and> reachable (appended (db_new 1024) buf 9) = [1, 2, 3, 1, 2, 3, 1, 2, 3]"
proof -
  let ?win = "[1, 2, 3, 1, 2, 3, 1, 2, 3] :: bytes"
  have db: "db_ok (db_new 1024)" "db_total_output_counter (db_new 1024) < 2 ^ 61" "reachable (db_new 1024) = [] @ take 0 ?win"
    by (simp_all add: db_ok_def db_new_def ring_inv_def rb_new_def rb_len_eq reachable_def history_def ring_abs_def)
  have p: "parse_ok [] ?win 0 (recent_of (1, 4, 8)) [(3, 6, 6)]" "length ?win \<le> 0 + 131072" "length ?win \<le> 0 + db_window_size (db_new 1024)"
    by (code_simp, simp_all add: db_new_def)
  from emitted_parse_executes_holds [OF db p, of 0] obtain j rep' lits ws qs where
    e: "emit_parse ?win 0 [(3, 6, 6)] 0 (1, 4, 8) [] [] = Ok (j, rep', lits, ws)" "packed_from qs ws" by blast
  obtain tl tm tf where m: "mode_ok LL_KIND (view_ll fs_new) (FPredefined tl) (codes_used ll_code_of ws)"
    "mode_ok ML_KIND (view_ml fs_new) (FPredefined tm) (codes_used ml_code_of ws)"
    "mode_ok OF_KIND (view_of fs_new) (FPredefined tf) (codes_used of_code_of ws)"
    using predefined_modes [OF packed_words(1) [OF e(2)]] by blast
  have "[(3, 6, 6)] \<noteq> ([] :: parse)" "length ([(3, 6, 6)] :: parse) \<le> 0xffff + 0x7f00" "length (bw_bits bw_new) mod 8 = 0" by simp_all
  note k = this
  have n: "length ?win - 0 = 9" by simp
  from block_roundtrip [OF db p e(1) k(1,2) fs_inv_new bw_inv_new(1) k(3) m] e(1) show ?thesis
    unfolding n append_Nil bw_inv_new(2) by (elim exE conjE, intro exI conjI) assumption+
qed

end
