(* ===== verification/Packed_Writer.thy ===== *)
theory Packed_Writer
  imports Bit_Writer
begin

text \<open>
  The batched writer of Huffman codes, \<open>write_packed_codes_rev\<close> of \<open>bit_io/bit_writer.rs\<close>: codes are
  kept left-aligned in two alternating containers, whose shift counts and bit counters are whole
  table elements.  The routine appends exactly what one \<open>write_bits\<close> per symbol would append.  The
  SIMD forms of the four-bit bulk path are not modelled; its scalar form is.
\<close>

unbundle bit_operations_syntax

section \<open>The containers\<close>

text \<open>A container: the pending bits from the top of a word, and the counter of whole elements.\<close>

type_synonym container = "u64 \<times> u64"

definition dual_add :: "u64 list \<Rightarrow> u8 \<Rightarrow> bool \<Rightarrow> container \<Rightarrow> (unit, container) res" where
  "dual_add aligned s clean = (\<lambda>(c, b).
     rbind (rindex aligned (unat s)) (\<lambda>e.
       Ok (drop_bit (unat (e AND 63)) c OR (if clean then e AND NOT 0xf else e), b + e)))"

text \<open>The adds of a round; only the last element is cleaned.\<close>

fun dual_group :: "u64 list \<Rightarrow> bytes \<Rightarrow> container \<Rightarrow> (unit, container) res" where
  "dual_group aligned [] cb = Ok cb"
| "dual_group aligned [s] cb = dual_add aligned s True cb"
| "dual_group aligned (s # t # ss) cb =
     rbind (dual_add aligned s False cb) (dual_group aligned (t # ss))"

text \<open>The output is the initialized prefix of a buffer of capacity \<open>cap\<close>, and the cursor in it.\<close>

type_synonym dual_state = "container \<times> bytes \<times> nat"

definition dual_flush :: "nat \<Rightarrow> dual_state \<Rightarrow> (unit, dual_state) res" where
  "dual_flush cap = (\<lambda>((c, b), buf, pos).
     if unat (b AND 0xff) \<ge> 8 then
       let bc = unat (b AND 0x3f) in
       rbind (rassert (0 < bc)) (\<lambda>_.
       rbind (overrun_store_u64 cap buf pos (drop_bit (64 - bc) c)) (\<lambda>buf.
         Ok ((c, b AND 7), buf, pos + unat (b AND 0xff) div 8)))
     else Ok ((c, b), buf, pos))"

text \<open>The symbols in front of index \<open>i\<close>, last first.\<close>

definition back_syms :: "bytes \<Rightarrow> nat \<Rightarrow> nat \<Rightarrow> bytes" where
  "back_syms dat i k = map (\<lambda>j. dat ! (i - 1 - j)) [0..<k]"

definition dual_round :: "u64 list \<Rightarrow> bytes \<Rightarrow> nat \<Rightarrow> nat \<Rightarrow> dual_state \<Rightarrow> (unit, dual_state) res" where
  "dual_round aligned dat cap i = (\<lambda>(cb0, buf, pos).
     rbind (dual_group aligned (back_syms dat i 5) cb0) (\<lambda>cb0.
     rbind (dual_flush cap (cb0, buf, pos)) (\<lambda>((c0, b0), buf, pos).
     rbind (dual_group aligned (back_syms dat (i - 5) 5) (0, 0)) (\<lambda>(c1, b1).
     dual_flush cap ((drop_bit (unat (b1 AND 63)) c0 OR c1, b0 + b1), buf, pos)))))"

function dual_rounds :: "u64 list \<Rightarrow> bytes \<Rightarrow> nat \<Rightarrow> nat \<Rightarrow> nat \<Rightarrow> dual_state \<Rightarrow> (unit, nat \<times> dual_state) res" where
  "dual_rounds aligned dat cap head i st =
     (if i \<ge> head + 10 then
        rbind (dual_round aligned dat cap i st) (dual_rounds aligned dat cap head (i - 10))
      else Ok (i, st))"
  by pat_completeness auto
termination
  by (relation "measure (\<lambda>(al, d, cap, head, i, st). i)") auto

function dual_tail :: "u64 list \<Rightarrow> bytes \<Rightarrow> nat \<Rightarrow> nat \<Rightarrow> dual_state \<Rightarrow> (unit, dual_state) res" where
  "dual_tail aligned dat cap i st =
     (if i > 0 then
        let group = min 5 i; (cb0, buf, pos) = st in
        rbind (dual_group aligned (back_syms dat i group) cb0) (\<lambda>cb0.
        rbind (dual_flush cap (cb0, buf, pos)) (dual_tail aligned dat cap (i - group)))
      else Ok st)"
  by pat_completeness auto
termination
  by (relation "measure (\<lambda>(al, d, cap, i, st). i)") auto

declare dual_rounds.simps [simp del] dual_tail.simps [simp del]

definition write_packed_codes_dual :: "u64 list \<Rightarrow> bytes \<Rightarrow> BitWriter \<Rightarrow> (unit, BitWriter) res" where
  "write_packed_codes_dual aligned dat w =
     (let n = length dat; entry_bits = bw_bits_in_partial w in
      rbind (if entry_bits = 0 then Ok 0
             else rbind (rassert (entry_bits \<le> 64)) (\<lambda>_. Ok (push_bit (64 - entry_bits) (bw_partial w)))) (\<lambda>c0.
      let pos = bw_bit_idx w div 8; cap = pos + (n * 11 div 8 + 16) in
      rbind (dual_flush cap ((c0, of_nat entry_bits), bw_output w, pos)) (\<lambda>st.
      rbind (dual_rounds aligned dat cap (n mod 10) n st) (\<lambda>(i, st).
      rbind (dual_tail aligned dat cap i st) (\<lambda>((c0, b0), buf, pos).
      rbind (publish_len cap buf pos) (\<lambda>output.
      let pending = unat (b0 AND 7) in
      Ok (w\<lparr>bw_output := output, bw_partial := (if pending = 0 then 0 else drop_bit (64 - pending) c0),
            bw_bits_in_partial := pending, bw_bit_idx := pos * 8\<rparr>)))))))"

section \<open>What a container holds\<close>

definition ct_ok :: "bits \<Rightarrow> container \<Rightarrow> bool" where
  "ct_ok p = (\<lambda>(c, b). length p \<le> 63 \<and> unat b mod 256 = length p \<and> drop_bit (64 - length p) c = bits_word p)"

text \<open>What lies below the pending bits is below bit \<open>d\<close>.\<close>

definition dirt_below :: "nat \<Rightarrow> bits \<Rightarrow> container \<Rightarrow> bool" where
  "dirt_below d p = (\<lambda>(c, b). \<forall>j<64 - length p. bit c j \<longrightarrow> j < d)"

definition element :: "bits \<Rightarrow> u64" where
  "element cs = push_bit (64 - length cs) (bits_word cs) OR of_nat (length cs)"

lemma mask_low_bits:
  "(w :: u64) AND 0xff = take_bit 8 w" "w AND 0x3f = take_bit 6 w" "w AND 63 = take_bit 6 w" "w AND 7 = take_bit 3 w"
  by (simp_all add: take_bit_eq_mask mask_eq_exp_minus_1)

lemma unat_take_bit: "unat (take_bit n (w :: u64)) = unat w mod 2 ^ n"
  by (simp add: unsigned_take_bit_eq flip: take_bit_eq_mod)

lemmas low_bits = mask_low_bits unat_take_bit

lemma element_bits:
  assumes "length cs \<le> 11"
  shows "bit (element cs) j \<longleftrightarrow> j < 64 \<and> (64 - length cs \<le> j \<and> cs ! (j - (64 - length cs)) \<or> bit (length cs) j)"
proof -
  have "length cs < 2 ^ 4" using assms by simp
  then have "bit (length cs) j \<Longrightarrow> j < 4"
    by (metis bit_take_bit_iff take_bit_nat_eq_self)
  then show ?thesis using assms by (auto simp: element_def bit_or_iff bit_push_bit_iff bit_bits_word bit_of_nat_iff)
qed

lemma length_code_bits: "length cs \<le> 11 \<Longrightarrow> bit (length cs) j \<Longrightarrow> j < 4"
proof -
  assume "length cs \<le> 11"
  then have "length cs < 2 ^ 4" by simp
  then show "bit (length cs) j \<Longrightarrow> j < 4" by (metis bit_take_bit_iff take_bit_nat_eq_self)
qed

lemma element_low: "length cs \<le> 11 \<Longrightarrow> unat (element cs) mod 256 = length cs" "length cs \<le> 11 \<Longrightarrow> unat (element cs) mod 64 = length cs"
proof -
  assume l: "length cs \<le> 11"
  have "take_bit k (element cs) = of_nat (length cs)" if "4 \<le> k" "k \<le> 8" for k
  proof (rule bit_word_eqI)
    fix j assume "j < LENGTH(64)"
    then show "bit (take_bit k (element cs)) j = bit (of_nat (length cs) :: u64) j"
      using l that length_code_bits [OF l, of j]
      by (auto simp: bit_take_bit_iff element_bits bit_of_nat_iff)
  qed
  then have "unat (take_bit k (element cs)) = length cs" if "4 \<le> k" "k \<le> 8" for k
    using that l by (simp add: unat_of_nat)
  from this [of 8] this [of 6] show "unat (element cs) mod 256 = length cs" "unat (element cs) mod 64 = length cs"
    by (simp_all add: unat_take_bit)
qed

lemma counter_add:
  assumes "unat b mod 256 = m" "unat e mod 256 = n" "m + n < 256"
  shows "unat (b + e :: u64) mod 256 = m + n"
proof -
  have "unat (b + e) mod 256 = (unat b + unat e) mod 256"
    by (simp add: unat_word_ariths mod_mod_cancel)
  also have "\<dots> = (m + n) mod 256" using assms(1,2) by (metis mod_add_eq)
  finally show ?thesis using assms(3) by simp
qed

section \<open>Adding a code\<close>

text \<open>The elements of the table: \<open>code\<close> gives the bits of each symbol, first written first.\<close>

definition coded_by :: "u64 list \<Rightarrow> (u8 \<Rightarrow> bits) \<Rightarrow> bytes \<Rightarrow> bool" where
  "coded_by aligned code dat \<longleftrightarrow> length aligned = 256
     \<and> (\<forall>s\<in>set dat. 1 \<le> length (code s) \<and> length (code s) \<le> 11 \<and> aligned ! unat s = element (code s))"

lemma byte_index: "length aligned = 256 \<Longrightarrow> unat (s :: u8) < length aligned"
  using unsigned_less [of s, where 'a = nat] by simp

lemma window_add:
  assumes p: "drop_bit (64 - length p) c = bits_word p" and l: "length cs \<le> 11" "length p + length cs \<le> 63"
    and e: "\<And>j. 64 - length p - length cs \<le> j \<Longrightarrow> bit e j \<longleftrightarrow> j < 64 \<and> 64 - length cs \<le> j \<and> cs ! (j - (64 - length cs))"
  shows "drop_bit (64 - length (p @ cs)) (drop_bit (length cs) c OR e) = bits_word (p @ cs)"
proof (rule bit_word_eqI)
  fix i
  have c: "bit c (64 - length p + k) \<longleftrightarrow> k < length p \<and> p ! k" for k
  proof -
    have "bit (drop_bit (64 - length p) c) k \<longleftrightarrow> k < length p \<and> p ! k" unfolding p using l by (auto simp: bit_bits_word)
    then show ?thesis by (simp add: bit_drop_bit_eq)
  qed
  have ix: "length cs + (64 - length (p @ cs) + i) = 64 - length p + i" using l by simp
  have old: "bit c (length cs + (64 - length (p @ cs) + i)) \<longleftrightarrow> i < length p \<and> p ! i"
    unfolding ix by (rule c)
  have "bit e (64 - length (p @ cs) + i) \<longleftrightarrow> 64 - length (p @ cs) + i < 64 \<and> 64 - length cs \<le> 64 - length (p @ cs) + i
      \<and> cs ! (64 - length (p @ cs) + i - (64 - length cs))" by (rule e) simp
  moreover have "64 - length cs \<le> 64 - length (p @ cs) + i \<longleftrightarrow> length p \<le> i"
    "64 - length (p @ cs) + i - (64 - length cs) = i - length p" "64 - length (p @ cs) + i < 64 \<longleftrightarrow> i < length (p @ cs)"
    using l by auto
  ultimately have new: "bit e (64 - length (p @ cs) + i) \<longleftrightarrow> i < length (p @ cs) \<and> length p \<le> i \<and> cs ! (i - length p)" by (simp only:)
  show "bit (drop_bit (64 - length (p @ cs)) (drop_bit (length cs) c OR e)) i = bit (bits_word (p @ cs)) i"
    using l old new by (auto simp: bit_drop_bit_eq bit_or_iff bit_bits_word nth_append add.commute)
qed

lemma dual_add_ok:
  assumes t: "coded_by aligned code dat" "s \<in> set dat" and c: "ct_ok p (c, b)"
    and room: "length p + length (code s) \<le> (if clean then 63 else 60)"
  shows "\<exists>c' b'. dual_add aligned s clean (c, b) = Ok (c', b') \<and> ct_ok (p @ code s) (c', b')
    \<and> (\<forall>d. dirt_below d p (c, b) \<longrightarrow> dirt_below (if clean then d - length (code s) else max 4 (d - length (code s))) (p @ code s) (c', b'))"
proof -
  let ?cs = "code s" and ?e = "element (code s)"
  have cs: "1 \<le> length ?cs" "length ?cs \<le> 11" "aligned ! unat s = ?e" "length aligned = 256"
    using t by (auto simp: coded_by_def)
  define e where "e = (if clean then ?e AND NOT 0xf else ?e)"
  have m: "(0xf :: u64) = mask 4" by (simp add: mask_eq_exp_minus_1)
  have f: "bit (0xf :: u64) j \<longleftrightarrow> j < 4" for j
    unfolding m by (simp only: bit_mask_iff) auto
  have eb: "bit e j \<longleftrightarrow> j < 64 \<and> (64 - length ?cs \<le> j \<and> ?cs ! (j - (64 - length ?cs)) \<or> \<not> clean \<and> bit (length ?cs) j)" for j
  proof -
    have "bit (?e AND NOT 0xf) j \<longleftrightarrow> bit ?e j \<and> 4 \<le> j"
      by (simp only: bit_and_iff bit_not_iff f) (auto dest: bit_imp_le_length)
    then have "bit e j \<longleftrightarrow> bit ?e j \<and> (clean \<longrightarrow> 4 \<le> j)" by (cases clean) (simp_all only: e_def if_True if_False simp_thms)
    then show ?thesis using length_code_bits [OF cs(2), of j] cs(2) by (auto simp: element_bits)
  qed
  have add: "dual_add aligned s clean (c, b) = Ok (drop_bit (length ?cs) c OR e, b + ?e)"
    using byte_index [OF cs(4), of s] cs(3) element_low(2) [OF cs(2)]
    by (simp add: dual_add_def e_def low_bits)
  have r63: "length p + length ?cs \<le> 63" using room by (simp split: if_splits)
  have "bit e j \<longleftrightarrow> j < 64 \<and> 64 - length ?cs \<le> j \<and> ?cs ! (j - (64 - length ?cs))"
    if "64 - length p - length ?cs \<le> j" for j
    using that room length_code_bits [OF cs(2), of j] by (auto simp: eb split: if_splits)
  then have w: "drop_bit (64 - length (p @ ?cs)) (drop_bit (length ?cs) c OR e) = bits_word (p @ ?cs)"
    using c by (intro window_add [OF _ cs(2) r63]) (simp_all add: ct_ok_def)
  have "unat (b + ?e) mod 256 = length p + length ?cs"
    using c element_low(1) [OF cs(2)] r63 by (intro counter_add) (simp_all add: ct_ok_def)
  then have ok: "ct_ok (p @ ?cs) (drop_bit (length ?cs) c OR e, b + ?e)" using w r63 by (simp add: ct_ok_def)
  have "dirt_below (if clean then d - length ?cs else max 4 (d - length ?cs)) (p @ ?cs) (drop_bit (length ?cs) c OR e, b + ?e)"
    if d: "dirt_below d p (c, b)" for d
    unfolding dirt_below_def prod.case
  proof (intro allI impI)
    fix j assume j: "j < 64 - length (p @ ?cs)" "bit (drop_bit (length ?cs) c OR e) j"
    then consider "bit c (length ?cs + j)" | "bit e j" by (auto simp: bit_or_iff bit_drop_bit_eq)
    then show "j < (if clean then d - length ?cs else max 4 (d - length ?cs))"
    proof cases
      case 1
      have "length ?cs + j < 64 - length p" using j(1) by simp
      then have "length ?cs + j < d" using d 1 by (auto simp: dirt_below_def)
      then show ?thesis by (auto simp: less_max_iff_disj)
    next
      case 2
      then have "\<not> clean" "bit (length ?cs) j" using j(1) by (auto simp: eb)
      then show ?thesis using length_code_bits [OF cs(2)] by (auto simp: less_max_iff_disj)
    qed
  qed
  then show ?thesis using add ok by blast
qed

abbreviation codes :: "(u8 \<Rightarrow> bits) \<Rightarrow> bytes \<Rightarrow> bits" where
  "codes code ss \<equiv> concat (map code ss)"

lemma dirt_below_mono: "dirt_below d p cb \<Longrightarrow> d \<le> d' \<Longrightarrow> dirt_below d' p cb"
  by (auto simp: dirt_below_def)

lemma codes_length: "coded_by aligned code dat \<Longrightarrow> set ss \<subseteq> set dat \<Longrightarrow> length (codes code ss) \<le> 11 * length ss"
  by (induction ss) (auto simp: coded_by_def)

text \<open>
  A round of at most five codes; a container that started clean has nothing but its pending bits
  where the merge will put the seven pending bits of the other one.
\<close>

lemma dual_group_ok:
  assumes t: "coded_by aligned code dat" and "set ss \<subseteq> set dat" "ct_ok p cb" "length p + 11 * length ss \<le> 63"
  shows "\<exists>cb'. dual_group aligned ss cb = Ok cb' \<and> ct_ok (p @ codes code ss) cb'
    \<and> (dirt_below 4 p cb \<longrightarrow> ss \<noteq> [] \<longrightarrow> length p + 11 * length ss \<le> 55 \<longrightarrow>
        dirt_below (57 - length (p @ codes code ss)) (p @ codes code ss) cb')"
  using assms(2-)
proof (induction ss arbitrary: p cb)
  case (Cons s ss)
  obtain c b where cb: "cb = (c, b)" by (cases cb)
  have s: "s \<in> set dat" "length (code s) \<le> 11" using Cons.prems(1) t by (auto simp: coded_by_def)
  show ?case
  proof (cases "ss = []")
    case True
    obtain c' b' where d: "dual_add aligned s True (c, b) = Ok (c', b')" "ct_ok (p @ code s) (c', b')"
      "\<forall>d. dirt_below d p (c, b) \<longrightarrow> dirt_below (d - length (code s)) (p @ code s) (c', b')"
      using dual_add_ok [OF t s(1), of p c b True] Cons.prems s(2) by (auto simp: cb)
    have "dirt_below (57 - length (p @ code s)) (p @ code s) (c', b')" if "dirt_below 4 p (c, b)" "length p + 11 \<le> 55"
    proof (rule dirt_below_mono)
      show "dirt_below (4 - length (code s)) (p @ code s) (c', b')" using d(3) that(1) by blast
      show "4 - length (code s) \<le> 57 - length (p @ code s)" using that(2) by simp
    qed
    then show ?thesis using d(1,2) True by (simp add: cb)
  next
    case False
    then obtain s' ss' where ss: "ss = s' # ss'" by (cases ss) auto
    have "length p + length (code s) \<le> 60" using Cons.prems(3) s(2) by (simp add: ss)
    then obtain c' b' where d: "dual_add aligned s False (c, b) = Ok (c', b')" "ct_ok (p @ code s) (c', b')"
      "\<forall>d. dirt_below d p (c, b) \<longrightarrow> dirt_below (max 4 (d - length (code s))) (p @ code s) (c', b')"
      using dual_add_ok [OF t s(1), of p c b False] Cons.prems(2) by (auto simp: cb)
    have "set ss \<subseteq> set dat" "length (p @ code s) + 11 * length ss \<le> 63" using Cons.prems s(2) by auto
    from Cons.IH [OF this(1) d(2) this(2)] obtain cb' where r: "dual_group aligned ss (c', b') = Ok cb'"
      "ct_ok ((p @ code s) @ codes code ss) cb'"
      "dirt_below 4 (p @ code s) (c', b') \<longrightarrow> length (p @ code s) + 11 * length ss \<le> 55 \<longrightarrow>
        dirt_below (57 - length ((p @ code s) @ codes code ss)) ((p @ code s) @ codes code ss) cb'"
      using False by blast
    have "dual_group aligned (s # ss) cb = Ok cb'" using d(1) r(1) by (simp add: ss cb)
    moreover have "dirt_below (57 - length (p @ codes code (s # ss))) (p @ codes code (s # ss)) cb'"
      if "dirt_below 4 p cb" "length p + 11 * length (s # ss) \<le> 55"
    proof -
      have "dirt_below 4 (p @ code s) (c', b')" using d(3) that(1) by (metis cb diff_le_self max_absorb1)
      moreover have "length (p @ code s) + 11 * length ss \<le> 55" using that(2) s(2) by simp
      ultimately show ?thesis using r(3) by simp
    qed
    ultimately show ?thesis using r(2) by simp
  qed
qed simp

text \<open>The second container is appended below the first.\<close>

lemma merge_ok:
  assumes p: "ct_ok p (c0, b0)" "length p \<le> 7" and q: "ct_ok q (c1, b1)" "length q \<le> 55" "dirt_below (57 - length q) q (c1, b1)"
  shows "ct_ok (p @ q) (drop_bit (unat (b1 AND 63)) c0 OR c1, b0 + b1)"
proof -
  have "unat b1 mod 64 = length q"
  proof -
    have "unat b1 mod 64 = (unat b1 mod 256) mod 64" by (simp add: mod_mod_cancel)
    then show ?thesis using q(1,2) by (simp add: ct_ok_def)
  qed
  then have sh: "unat (b1 AND 63) = length q" by (simp add: low_bits)
  have b: "unat (b0 + b1) mod 256 = length p + length q"
    using p q(1,2) by (intro counter_add) (simp_all add: ct_ok_def)
  have "drop_bit (64 - length (p @ q)) (drop_bit (length q) c0 OR c1) = bits_word (p @ q)"
  proof (rule bit_word_eqI)
    fix i
    have c0: "bit c0 (64 - length p + k) \<longleftrightarrow> k < length p \<and> p ! k" for k
    proof -
      have "bit (drop_bit (64 - length p) c0) k \<longleftrightarrow> k < length p \<and> p ! k"
        using p by (auto simp: ct_ok_def bit_bits_word)
      then show ?thesis by (simp add: bit_drop_bit_eq)
    qed
    have c1: "bit c1 (64 - length q + k) \<longleftrightarrow> k < length q \<and> q ! k" for k
    proof -
      have "bit (drop_bit (64 - length q) c1) k \<longleftrightarrow> k < length q \<and> q ! k"
        using q(1) by (auto simp: ct_ok_def bit_bits_word)
      then show ?thesis by (simp add: bit_drop_bit_eq)
    qed
    have ix: "length q + (64 - length (p @ q) + i) = 64 - length p + i" using p(2) q(2) by simp
    have old: "bit c0 (length q + (64 - length (p @ q) + i)) \<longleftrightarrow> i < length p \<and> p ! i" unfolding ix by (rule c0)
    have new: "bit c1 (64 - length (p @ q) + i) \<longleftrightarrow> length p \<le> i \<and> i < length (p @ q) \<and> q ! (i - length p)"
    proof (cases "length p \<le> i")
      case True
      then have "64 - length (p @ q) + i = 64 - length q + (i - length p)" using p(2) q(2) by simp
      then show ?thesis using c1 [of "i - length p"] True by auto
    next
      case False
      then have "64 - length (p @ q) + i < 64 - length q" "57 - length q \<le> 64 - length (p @ q) + i" using p(2) q(2) by simp_all
      then show ?thesis using q(3) False by (auto simp: dirt_below_def)
    qed
    show "bit (drop_bit (64 - length (p @ q)) (drop_bit (length q) c0 OR c1)) i = bit (bits_word (p @ q)) i"
      using p(2) q(2) old new by (auto simp: bit_drop_bit_eq bit_or_iff bit_bits_word nth_append add.commute)
  qed
  then show ?thesis using b p(2) q(2) by (simp add: ct_ok_def sh)
qed

section \<open>Flushing\<close>

definition dual_ok :: "nat \<Rightarrow> bits \<Rightarrow> bits \<Rightarrow> dual_state \<Rightarrow> bool" where
  "dual_ok cap written p = (\<lambda>(cb, buf, pos). pos \<le> length buf \<and> ct_ok p cb \<and> written = bytes_bits (take pos buf) @ p)"

lemma dual_flush_ok:
  assumes ok: "dual_ok cap written p (cb, buf, pos)" and cap: "length written + 56 \<le> 8 * cap"
  shows "\<exists>b buf' pos' q. dual_flush cap (cb, buf, pos) = Ok ((fst cb, b), buf', pos')
    \<and> dual_ok cap written q ((fst cb, b), buf', pos') \<and> length q \<le> 7"
proof -
  obtain c b where cb: "cb = (c, b)" by (cases cb)
  let ?m = "length p"
  have c: "?m \<le> 63" "unat b mod 256 = ?m" "drop_bit (64 - ?m) c = bits_word p" and pos: "pos \<le> length buf"
    and w: "written = bytes_bits (take pos buf) @ p"
    using ok by (simp_all add: dual_ok_def ct_ok_def cb)
  show ?thesis
  proof (cases "8 \<le> ?m")
    case False
    then show ?thesis using ok c(2)
      by (intro exI [of _ b] exI [of _ buf] exI [of _ pos] exI [of _ p]) (simp add: dual_flush_def cb low_bits)
  next
    case True
    have m64: "unat b mod 64 = ?m" "unat b mod 8 = ?m mod 8"
    proof -
      have "unat b mod 64 = (unat b mod 256) mod 64" "unat b mod 8 = (unat b mod 256) mod 8" by (simp_all add: mod_mod_cancel)
      then show "unat b mod 64 = ?m" "unat b mod 8 = ?m mod 8" using c(1,2) by simp_all
    qed
    define k where "k = ?m div 8"
    have k: "k < 8" "8 * k \<le> ?m" "?m = 8 * k + ?m mod 8" using c(1) by (auto simp: k_def)
    let ?v = "bits_word p"
    let ?buf = "take pos buf @ u64_to_le_bytes ?v"
    have room: "pos + 8 \<le> cap" using cap pos True by (simp add: w)
    have run: "dual_flush cap (cb, buf, pos) = Ok ((c, b AND 7), ?buf, pos + k)"
      using True c(2,3) m64(1) room pos by (cases p) (simp_all add: dual_flush_def cb low_bits overrun_store_u64_def Let_def k_def)
    have q: "drop_bit (64 - ?m mod 8) c = bits_word (drop (8 * k) p)"
    proof (rule bit_word_eqI)
      fix i
      have "bit c (64 - ?m mod 8 + i) = bit (drop_bit (64 - ?m) c) (8 * k + i)"
      proof -
        have "64 - ?m + (8 * k + i) = 64 - ?m mod 8 + i" using k(3) c(1) by linarith
        then show ?thesis by (simp add: bit_drop_bit_eq)
      qed
      also have "\<dots> \<longleftrightarrow> 8 * k + i < ?m \<and> p ! (8 * k + i)" unfolding c(3) using c(1) by (auto simp: bit_bits_word)
      finally show "bit (drop_bit (64 - ?m mod 8) c) i = bit (bits_word (drop (8 * k) p)) i"
        using c(1) by (auto simp: bit_drop_bit_eq bit_bits_word)
    qed
    have lq: "length (drop (8 * k) p) = ?m mod 8" using k(3) by simp
    have "unat (b AND 7) mod 256 = ?m mod 8" by (simp add: low_bits m64(2))
    then have ct: "ct_ok (drop (8 * k) p) (c, b AND 7)" using q lq by (simp add: ct_ok_def)
    have "take (8 * k) (word_bits 64 ?v) = take (8 * k) p"
      using k(1,2) c(1) by (intro nth_equalityI) (auto simp: bit_bits_word)
    then have "bytes_bits (take (pos + k) ?buf) = bytes_bits (take pos buf) @ take (8 * k) p"
      using pos by (simp add: take_bytes_bits [symmetric] bytes_bits_u64_to_le_bytes)
    then have "dual_ok cap written (drop (8 * k) p) ((c, b AND 7), ?buf, pos + k)"
      using ct pos k(1) by (simp add: dual_ok_def w)
    moreover have "length (drop (8 * k) p) \<le> 7" using lq by simp
    ultimately show ?thesis using run cb by auto
  qed
qed

section \<open>The loops\<close>

lemma back_syms_append: "back_syms dat i (a + b) = back_syms dat i a @ back_syms dat (i - a) b"
  by (rule nth_equalityI) (auto simp: back_syms_def nth_append intro!: arg_cong [where f = "(!) dat"])

lemma back_syms_all: "i \<le> length dat \<Longrightarrow> back_syms dat i i = rev (take i dat)"
  by (rule nth_equalityI) (auto simp: back_syms_def rev_nth min_def)

lemma length_back_syms [simp]: "length (back_syms dat i k) = k"
  by (simp add: back_syms_def)

lemma set_back_syms: "k \<le> i \<Longrightarrow> i \<le> length dat \<Longrightarrow> set (back_syms dat i k) \<subseteq> set dat"
  by (auto simp: back_syms_def)

lemma dual_group_state:
  assumes t: "coded_by aligned code dat" and ss: "set ss \<subseteq> set dat" "length ss \<le> 5"
    and st: "dual_ok cap written p (cb, buf, pos)" "length p \<le> 7"
  shows "\<exists>cb'. dual_group aligned ss cb = Ok cb' \<and> dual_ok cap (written @ codes code ss) (p @ codes code ss) (cb', buf, pos)"
proof -
  have "ct_ok p cb" using st(1) by (simp add: dual_ok_def)
  moreover have "length p + 11 * length ss \<le> 63" using ss(2) st(2) by simp
  ultimately show ?thesis
    using dual_group_ok [OF t ss(1)] st(1) by (fastforce simp: dual_ok_def)
qed

lemma dual_round_ok:
  assumes t: "coded_by aligned code dat" and st: "dual_ok cap written p st" "length p \<le> 7"
    and i: "10 \<le> i" "i \<le> length dat" and cap: "length written + 166 \<le> 8 * cap"
  shows "\<exists>st' q. dual_round aligned dat cap i st = Ok st' \<and> length q \<le> 7
    \<and> dual_ok cap (written @ codes code (back_syms dat i 10)) q st'"
proof -
  obtain cb buf pos where s: "st = (cb, buf, pos)" by (metis prod_cases3)
  let ?s1 = "back_syms dat i 5" and ?s2 = "back_syms dat (i - 5) 5"
  have sub: "set ?s1 \<subseteq> set dat" "set ?s2 \<subseteq> set dat" using i by (intro set_back_syms; simp)+
  note len = codes_length [OF t sub(1)] codes_length [OF t sub(2)]
  obtain cb1 where g1: "dual_group aligned ?s1 cb = Ok cb1" "dual_ok cap (written @ codes code ?s1) (p @ codes code ?s1) (cb1, buf, pos)"
    using dual_group_state [OF t sub(1) _ st(1) [unfolded s] st(2)] by auto
  have "length (written @ codes code ?s1) + 56 \<le> 8 * cap" using cap len(1) by simp
  from dual_flush_ok [OF g1(2) this] obtain b0 buf1 pos1 q where
    f1: "dual_flush cap (cb1, buf, pos) = Ok ((fst cb1, b0), buf1, pos1)" "dual_ok cap (written @ codes code ?s1) q ((fst cb1, b0), buf1, pos1)"
      "length q \<le> 7" by blast
  have "ct_ok [] (0, 0)" "dirt_below 4 [] (0, 0)" by (simp_all add: ct_ok_def dirt_below_def bits_word_def)
  then obtain c1 b1 where g2: "dual_group aligned ?s2 (0, 0) = Ok (c1, b1)" "ct_ok (codes code ?s2) (c1, b1)"
    "dirt_below (57 - length (codes code ?s2)) (codes code ?s2) (c1, b1)"
    using dual_group_ok [OF t sub(2), of "[]" "(0, 0)"] by (force simp: back_syms_def)
  have m: "ct_ok (q @ codes code ?s2) (drop_bit (unat (b1 AND 63)) (fst cb1) OR c1, b0 + b1)"
    using f1(2,3) len(2) by (intro merge_ok [OF _ _ g2(2) _ g2(3)]) (simp_all add: dual_ok_def)
  let ?w = "written @ codes code (back_syms dat i 10)"
  have w: "?w = (written @ codes code ?s1) @ codes code ?s2" using back_syms_append [of dat i 5 5] by simp
  have d: "dual_ok cap ?w (q @ codes code ?s2) ((drop_bit (unat (b1 AND 63)) (fst cb1) OR c1, b0 + b1), buf1, pos1)"
    using f1(2) m unfolding w by (simp add: dual_ok_def)
  have "length ?w + 56 \<le> 8 * cap" using cap len unfolding w by simp
  from dual_flush_ok [OF d this] obtain b buf2 pos2 r where
    "dual_flush cap ((drop_bit (unat (b1 AND 63)) (fst cb1) OR c1, b0 + b1), buf1, pos1)
        = Ok ((drop_bit (unat (b1 AND 63)) (fst cb1) OR c1, b), buf2, pos2)"
      "dual_ok cap ?w r ((drop_bit (unat (b1 AND 63)) (fst cb1) OR c1, b), buf2, pos2)" "length r \<le> 7"
    unfolding fst_conv by blast
  then show ?thesis using g1(1) f1(1) g2(1)
    by (intro exI [of _ "((drop_bit (unat (b1 AND 63)) (fst cb1) OR c1, b), buf2, pos2)"] exI [of _ r])
      (simp add: dual_round_def s)
qed

lemma dual_rounds_ok:
  assumes t: "coded_by aligned code dat" and "dual_ok cap written p st" "length p \<le> 7" "i \<le> length dat"
    "length written + 11 * i + 56 \<le> 8 * cap"
  shows "\<exists>j st' q. dual_rounds aligned dat cap head i st = Ok (j, st') \<and> j \<le> i \<and> length q \<le> 7
    \<and> dual_ok cap (written @ codes code (back_syms dat i (i - j))) q st'"
  using assms(2-)
proof (induction i arbitrary: written p st rule: less_induct)
  case (less i)
  show ?case
  proof (cases "i \<ge> head + 10")
    case False
    then have "dual_rounds aligned dat cap head i st = Ok (i, st)" by (subst dual_rounds.simps) simp
    then show ?thesis using less.prems
      by (intro exI [of _ i] exI [of _ st] exI [of _ p]) (simp add: back_syms_def)
  next
    case True
    have i: "10 \<le> i" "length written + 166 \<le> 8 * cap" using True less.prems(4) by simp_all
    obtain st1 q1 where r: "dual_round aligned dat cap i st = Ok st1" "length q1 \<le> 7"
      "dual_ok cap (written @ codes code (back_syms dat i 10)) q1 st1"
      using dual_round_ok [OF t less.prems(1,2) i(1) less.prems(3) i(2)] by blast
    have "length (codes code (back_syms dat i 10)) \<le> 11 * length (back_syms dat i 10)"
      using i(1) less.prems(3) by (intro codes_length [OF t] set_back_syms) simp_all
    then have room: "length (written @ codes code (back_syms dat i 10)) + 11 * (i - 10) + 56 \<le> 8 * cap"
      using less.prems(4) i(1) by simp
    have lt: "i - 10 < i" "i - 10 \<le> length dat" using i(1) less.prems(3) by simp_all
    from less.IH [OF lt(1) r(3,2) lt(2) room] obtain j st' q where l: "dual_rounds aligned dat cap head (i - 10) st1 = Ok (j, st')" "j \<le> i - 10" "length q \<le> 7"
      "dual_ok cap ((written @ codes code (back_syms dat i 10)) @ codes code (back_syms dat (i - 10) (i - 10 - j))) q st'"
      by blast
    have "back_syms dat i (10 + (i - 10 - j)) = back_syms dat i 10 @ back_syms dat (i - 10) (i - 10 - j)"
      by (rule back_syms_append)
    moreover have "10 + (i - 10 - j) = i - j" using i(1) l(2) by simp
    ultimately have "dual_ok cap (written @ codes code (back_syms dat i (i - j))) q st'" using l(4) by simp
    moreover have "dual_rounds aligned dat cap head i st = Ok (j, st')"
      using True r(1) l(1) by (subst dual_rounds.simps) simp
    moreover have "j \<le> i" using l(2) by simp
    ultimately show ?thesis using l(3) by blast
  qed
qed

lemma dual_tail_ok:
  assumes t: "coded_by aligned code dat" and "dual_ok cap written p st" "length p \<le> 7" "i \<le> length dat"
    "length written + 11 * i + 56 \<le> 8 * cap"
  shows "\<exists>st' q. dual_tail aligned dat cap i st = Ok st' \<and> length q \<le> 7
    \<and> dual_ok cap (written @ codes code (back_syms dat i i)) q st'"
  using assms(2-)
proof (induction i arbitrary: written p st rule: less_induct)
  case (less i)
  show ?case
  proof (cases "0 < i")
    case False
    then have "dual_tail aligned dat cap i st = Ok st" by (subst dual_tail.simps) simp
    then show ?thesis using False less.prems by (intro exI [of _ st] exI [of _ p]) (simp add: back_syms_def)
  next
    case True
    obtain cb buf pos where s: "st = (cb, buf, pos)" by (metis prod_cases3)
    define g where "g = min 5 i"
    have g: "0 < g" "g \<le> 5" "g \<le> i" using True by (simp_all add: g_def)
    let ?ss = "back_syms dat i g"
    have sub: "set ?ss \<subseteq> set dat" using g(3) less.prems(3) by (rule set_back_syms)
    note len = codes_length [OF t sub]
    obtain cb1 where g1: "dual_group aligned ?ss cb = Ok cb1" "dual_ok cap (written @ codes code ?ss) (p @ codes code ?ss) (cb1, buf, pos)"
      using dual_group_state [OF t sub _ less.prems(1) [unfolded s] less.prems(2)] g(2) by auto
    have room: "length (written @ codes code ?ss) + 11 * (i - g) + 56 \<le> 8 * cap" using less.prems(4) len g(3) by simp
    then have "length (written @ codes code ?ss) + 56 \<le> 8 * cap" by simp
    from dual_flush_ok [OF g1(2) this] obtain b0 buf1 pos1 q where
      f1: "dual_flush cap (cb1, buf, pos) = Ok ((fst cb1, b0), buf1, pos1)" "dual_ok cap (written @ codes code ?ss) q ((fst cb1, b0), buf1, pos1)"
        "length q \<le> 7" by blast
    have lt: "i - g < i" "i - g \<le> length dat" using g less.prems(3) by simp_all
    from less.IH [OF lt(1) f1(2,3) lt(2) room] obtain st' r where l: "dual_tail aligned dat cap (i - g) ((fst cb1, b0), buf1, pos1) = Ok st'" "length r \<le> 7"
      "dual_ok cap ((written @ codes code ?ss) @ codes code (back_syms dat (i - g) (i - g))) r st'"
      by blast
    have "back_syms dat i i = ?ss @ back_syms dat (i - g) (i - g)"
      using back_syms_append [of dat i g "i - g"] g(3) by simp
    then have "dual_ok cap (written @ codes code (back_syms dat i i)) r st'" using l(3) by simp
    moreover have "dual_tail aligned dat cap i st = Ok st'"
      using True g1(1) f1(1) l(1) by (subst dual_tail.simps) (simp add: s Let_def flip: g_def)
    ultimately show ?thesis using l(2) by blast
  qed
qed

lemma write_packed_codes_dual_correct:
  assumes inv: "bw_inv w" and t: "coded_by aligned code dat"
  shows "\<exists>w'. write_packed_codes_dual aligned dat w = Ok w' \<and> bw_inv w'
    \<and> bw_bits w' = bw_bits w @ codes code (rev dat)"
proof -
  define n where "n = length dat"
  define m where "m = bw_bits_in_partial w"
  define pos where "pos = bw_bit_idx w div 8"
  define cap where "cap = pos + (n * 11 div 8 + 16)"
  define c0 where "c0 = (if m = 0 then 0 else push_bit (64 - m) (bw_partial w))"
  have m: "m < 64" "take_bit m (bw_partial w) = bw_partial w" and pos: "pos = length (bw_output w)"
    using inv by (simp_all add: bw_inv_def m_def pos_def)
  let ?p = "word_bits m (bw_partial w)"
  have top: "bit (bw_partial w) j \<Longrightarrow> j < m" for j using m(2) by (metis bit_take_bit_iff)
  have "drop_bit (64 - m) c0 = bits_word ?p"
  proof (rule bit_word_eqI)
    fix i
    show "bit (drop_bit (64 - m) c0) i = bit (bits_word ?p) i"
      using m(1) top [of i] by (auto simp: c0_def bit_drop_bit_eq bit_push_bit_iff bit_bits_word)
  qed
  moreover have "unat (of_nat m :: u64) mod 256 = m" using m(1) by (simp add: unat_of_nat)
  ultimately have "ct_ok ?p (c0, of_nat m)" using m(1) by (simp add: ct_ok_def)
  then have st: "dual_ok cap (bw_bits w) ?p ((c0, of_nat m), bw_output w, pos)"
    by (simp add: dual_ok_def pos bw_bits_def m_def)
  have len: "length (bw_bits w) + 11 * n + 56 \<le> 8 * cap"
  proof -
    have "length (bw_bits w) = 8 * pos + m" by (simp add: bw_bits_def pos m_def)
    moreover have "11 * n \<le> 8 * (n * 11 div 8) + 7" by simp
    ultimately show ?thesis using m(1) unfolding cap_def by simp
  qed
  then have "length (bw_bits w) + 56 \<le> 8 * cap" by simp
  from dual_flush_ok [OF st this] obtain b buf1 pos1 q where
    f: "dual_flush cap ((c0, of_nat m), bw_output w, pos) = Ok ((c0, b), buf1, pos1)"
      "dual_ok cap (bw_bits w) q ((c0, b), buf1, pos1)" "length q \<le> 7" unfolding fst_conv by blast
  obtain j st2 q2 where r: "dual_rounds aligned dat cap (n mod 10) n ((c0, b), buf1, pos1) = Ok (j, st2)" "j \<le> n" "length q2 \<le> 7"
    "dual_ok cap (bw_bits w @ codes code (back_syms dat n (n - j))) q2 st2"
    using dual_rounds_ok [OF t f(2,3), of n "n mod 10"] len by (auto simp: n_def)
  have "length (codes code (back_syms dat n (n - j))) \<le> 11 * length (back_syms dat n (n - j))"
    using r(2) by (intro codes_length [OF t] set_back_syms) (simp_all add: n_def)
  then have "length (bw_bits w @ codes code (back_syms dat n (n - j))) + 11 * j + 56 \<le> 8 * cap"
    using len r(2) by (simp add: diff_mult_distrib2)
  then obtain st3 q3 where l: "dual_tail aligned dat cap j st2 = Ok st3" "length q3 \<le> 7"
    "dual_ok cap ((bw_bits w @ codes code (back_syms dat n (n - j))) @ codes code (back_syms dat j j)) q3 st3"
    using dual_tail_ok [OF t r(4,3), of j] r(2) by (auto simp: n_def)
  obtain c3 b3 buf3 pos3 where s3: "st3 = ((c3, b3), buf3, pos3)" by (metis prod_cases3 surj_pair)
  have "back_syms dat n ((n - j) + j) = back_syms dat n (n - j) @ back_syms dat (n - (n - j)) j"
    by (rule back_syms_append)
  then have all: "back_syms dat n (n - j) @ back_syms dat j j = rev dat"
    using r(2) back_syms_all [of n dat] by (simp add: n_def)
  have w3: "bw_bits w @ codes code (rev dat) = bytes_bits (take pos3 buf3) @ q3"
    and ct: "unat b3 mod 256 = length q3" "drop_bit (64 - length q3) c3 = bits_word q3" and p3: "pos3 \<le> length buf3"
    using l(3) by (simp_all add: dual_ok_def ct_ok_def s3 flip: all)
  have pend: "unat (b3 AND 7) = length q3"
  proof -
    have "unat b3 mod 8 = (unat b3 mod 256) mod 8" by (simp add: mod_mod_cancel)
    then show ?thesis using ct(1) l(2) by (simp add: low_bits)
  qed
  have capp: "pos3 \<le> cap"
  proof -
    have "8 * pos3 \<le> length (bw_bits w @ codes code (rev dat))" unfolding w3 using p3 by simp
    also have "\<dots> \<le> length (bw_bits w) + 11 * n" using codes_length [OF t, of "rev dat"] by (simp add: n_def)
    finally show ?thesis using len by simp
  qed
  let ?w = "w\<lparr>bw_output := take pos3 buf3, bw_partial := (if length q3 = 0 then 0 else drop_bit (64 - length q3) c3),
    bw_bits_in_partial := length q3, bw_bit_idx := pos3 * 8\<rparr>"
  have run: "write_packed_codes_dual aligned dat w = Ok ?w"
    using m(1) f(1) r(1) l(1) p3 capp
    by (simp add: write_packed_codes_dual_def Let_def s3 publish_len_def pend c0_def
        flip: n_def m_def pos_def cap_def split: if_splits)
  have part: "(if length q3 = 0 then 0 else drop_bit (64 - length q3) c3) = bits_word q3"
    using ct(2) by (simp add: bits_word_def)
  have "word_bits (length q3) (bits_word q3) = q3" using l(2) by (intro nth_equalityI) (auto simp: bit_bits_word)
  moreover have "take_bit (length q3) (bits_word q3) = bits_word q3"
    by (rule bit_word_eqI) (auto simp: bit_take_bit_iff bit_bits_word)
  ultimately have "bw_inv ?w" "bw_bits ?w = bw_bits w @ codes code (rev dat)"
    unfolding part using l(2) p3 w3 by (simp_all add: bw_inv_def bw_bits_def)
  then show ?thesis using run by blast
qed

section \<open>The four-bit bulk path\<close>

text \<open>The pending bits are filled up to a byte border with trailing symbols.\<close>

function bulk_peel :: "u16 list \<Rightarrow> bytes \<Rightarrow> u64 \<Rightarrow> nat \<Rightarrow> nat \<Rightarrow> (unit, u64 \<times> nat \<times> nat) res" where
  "bulk_peel packed dat acc bits n =
     (if bits mod 8 \<noteq> 0 then
        if n = 0 then Panic
        else rbind (rindex dat (n - 1)) (\<lambda>s. rbind (rindex packed (unat s)) (\<lambda>t.
          bulk_peel packed dat (acc OR push_bit bits (ucast (drop_bit 4 t))) (bits + 4) (n - 1)))
      else Ok (acc, bits, n))"
  by pat_completeness auto
termination
  by (relation "measure (\<lambda>(p, d, a, b, n). n)") auto

definition bulk_lut :: "u16 list \<Rightarrow> u8 \<Rightarrow> (unit, u8) res" where
  "bulk_lut packed b = rbind (rindex packed (unat b)) (\<lambda>t. Ok (ucast (drop_bit 4 t)))"

text \<open>Sixteen symbols in eight bytes, two codes per byte.\<close>

fun bulk_bytes :: "u16 list \<Rightarrow> bytes \<Rightarrow> (unit, bytes) res" where
  "bulk_bytes packed (s # t # ss) =
     rbind (bulk_lut packed s) (\<lambda>x. rbind (bulk_lut packed t) (\<lambda>y.
     rbind (bulk_bytes packed ss) (\<lambda>bs. Ok ((x OR push_bit 4 y) # bs))))"
| "bulk_bytes packed _ = Ok []"

function bulk_loop :: "u16 list \<Rightarrow> bytes \<Rightarrow> nat \<Rightarrow> nat \<Rightarrow> bytes \<Rightarrow> (unit, bytes) res" where
  "bulk_loop packed dat bulk_end i out =
     (if i > bulk_end then
        rbind (bulk_bytes packed (back_syms dat i 16)) (\<lambda>bs. bulk_loop packed dat bulk_end (i - 16) (out @ bs))
      else Ok out)"
  by pat_completeness auto
termination
  by (relation "measure (\<lambda>(p, d, e, i, out). i)") auto

declare bulk_peel.simps [simp del] bulk_loop.simps [simp del]

text \<open>The shift by \<open>8 * k\<close> is a 64-bit shift: eight full bytes overflow it.\<close>

definition bulk_drain :: "bytes \<Rightarrow> nat \<Rightarrow> nat \<Rightarrow> u64 \<Rightarrow> nat \<Rightarrow> (unit, bytes \<times> nat \<times> u64 \<times> nat) res" where
  "bulk_drain output pos k acc bits =
     (if k > 0 then
        rbind (overrun_store_u64 (pos + 16) output pos acc) (\<lambda>buf.
        rbind (rassert (8 * k < 64)) (\<lambda>_. Ok (take (pos + k) buf, pos + k, drop_bit (8 * k) acc, bits - 8 * k)))
      else Ok (take pos output, pos, acc, bits))"

definition write_uniform4_bulk :: "u16 list \<Rightarrow> bytes \<Rightarrow> BitWriter \<Rightarrow> (unit, bytes \<times> BitWriter) res" where
  "write_uniform4_bulk packed dat w =
     rbind (bulk_peel packed dat (bw_partial w) (bw_bits_in_partial w) (length dat)) (\<lambda>(acc, bits, n).
     let pos = bw_bit_idx w div 8; k = bits div 8 in
     rbind (bulk_drain (bw_output w) pos k acc bits) (\<lambda>(out, pos, acc, bits).
     rbind (rassert (bits = 0)) (\<lambda>_.
     let groups = n div 16; bulk_end = n - groups * 16 in
     rbind (if groups > 0 then bulk_loop packed dat bulk_end n out else Ok out) (\<lambda>out.
     let pos = pos + groups * 8 in
     rbind (publish_len (pos + 16) out pos) (\<lambda>output.
       Ok (take bulk_end dat, w\<lparr>bw_output := output, bw_partial := acc, bw_bits_in_partial := bits, bw_bit_idx := pos * 8\<rparr>))))))"

definition write_packed_codes_rev ::
  "u16 list \<Rightarrow> u64 list \<Rightarrow> u8 \<Rightarrow> bytes \<Rightarrow> BitWriter \<Rightarrow> (unit, BitWriter) res" where
  "write_packed_codes_rev packed aligned uniform_nb dat w =
     rbind (if uniform_nb = 4 \<and> length dat \<ge> 16 \<and> bw_bits_in_partial w mod 4 = 0
            then write_uniform4_bulk packed dat w else Ok (dat, w))
       (\<lambda>(dat, w). write_packed_codes_dual aligned dat w)"

text \<open>The packed table holds the code above four bits of length.\<close>

definition packed_by :: "u16 list \<Rightarrow> (u8 \<Rightarrow> bits) \<Rightarrow> bytes \<Rightarrow> bool" where
  "packed_by packed code dat \<longleftrightarrow> length packed = 256
     \<and> (\<forall>s\<in>set dat. length (code s) = 4 \<and> packed ! unat s = push_bit 4 (of_nat (bits_val (code s))) OR 4)"

lemma packed_code:
  assumes "packed_by packed code dat" "s \<in> set dat"
  shows "bit (drop_bit 4 (packed ! unat s)) i \<longleftrightarrow> i < 4 \<and> code s ! i" "length (code s) = 4" "unat s < length packed"
proof -
  have p: "length (code s) = 4" "packed ! unat s = push_bit 4 (of_nat (bits_val (code s))) OR 4" "length packed = 256"
    using assms by (auto simp: packed_by_def)
  have f: "bit (4 :: u16) j \<longleftrightarrow> j = 2" for j
  proof -
    have "bit (2 ^ 2 :: u16) j \<longleftrightarrow> j = 2" unfolding bit_exp_iff by auto
    then show ?thesis by simp
  qed
  have "i < 16" if "bit (drop_bit 4 (packed ! unat s)) i" using that by (auto dest: bit_imp_le_length)
  then show "bit (drop_bit 4 (packed ! unat s)) i \<longleftrightarrow> i < 4 \<and> code s ! i"
    unfolding p(2) by (auto simp: bit_drop_bit_eq bit_or_iff bit_push_bit_iff f bit_of_nat_iff bit_bits_val p(1))
  show "length (code s) = 4" "unat s < length packed" using p byte_index [of packed s] by auto
qed

lemma bulk_bytes_ok:
  assumes "packed_by packed code dat" "set ss \<subseteq> set dat" "even (length ss)"
  shows "\<exists>bs. bulk_bytes packed ss = Ok bs \<and> 2 * length bs = length ss \<and> bytes_bits bs = codes code ss"
  using assms
proof (induction packed ss rule: bulk_bytes.induct)
  case (1 packed s s' ss)
  have s: "s \<in> set dat" "s' \<in> set dat" using "1.prems"(2) by simp_all
  note c = packed_code [OF "1.prems"(1) s(1)] packed_code [OF "1.prems"(1) s(2)]
  let ?x = "ucast (drop_bit 4 (packed ! unat s)) :: u8" and ?y = "ucast (drop_bit 4 (packed ! unat s')) :: u8"
  have l: "bulk_lut packed s = Ok ?x" "bulk_lut packed s' = Ok ?y" using c by (simp_all add: bulk_lut_def)
  have "set ss \<subseteq> set dat" "even (length ss)" using "1.prems" by auto
  from "1.IH" [OF "1.prems"(1) this] obtain bs where
    b: "bulk_bytes packed ss = Ok bs" "2 * length bs = length ss" "bytes_bits bs = codes code ss" by blast
  have "byte_bits (?x OR push_bit 4 ?y) = code s @ code s'"
    by (intro nth_equalityI) (auto simp: bit_or_iff bit_push_bit_iff bit_ucast_iff nth_append c(1,2,4,5))
  then show ?case using l b by simp
qed auto

lemma bulk_loop_ok:
  assumes t: "packed_by packed code dat" and "i \<le> length dat" "16 dvd i - e" "e \<le> i"
  shows "\<exists>bs. bulk_loop packed dat e i out = Ok (out @ bs) \<and> 2 * length bs = i - e
    \<and> bytes_bits bs = codes code (back_syms dat i (i - e))"
  using assms(2-)
proof (induction i arbitrary: out rule: less_induct)
  case (less i)
  show ?case
  proof (cases "e < i")
    case False
    then have "bulk_loop packed dat e i out = Ok out" by (subst bulk_loop.simps) simp
    then show ?thesis using False less.prems by (intro exI [of _ "[]"]) (simp add: back_syms_def)
  next
    case True
    then have i: "16 \<le> i - e" using less.prems(2) by (auto intro: dvd_imp_le)
    have dv: "16 dvd i - 16 - e"
    proof -
      have "i - 16 - e = i - e - 16" by simp
      then show ?thesis using less.prems(2) i by (metis dvd_diff_nat dvd_refl)
    qed
    have "set (back_syms dat i 16) \<subseteq> set dat" using i less.prems(1) by (intro set_back_syms) simp_all
    from bulk_bytes_ok [OF t this] obtain bs where b: "bulk_bytes packed (back_syms dat i 16) = Ok bs" "2 * length bs = 16"
      "bytes_bits bs = codes code (back_syms dat i 16)" by auto
    have lt: "i - 16 < i" "i - 16 \<le> length dat" "e \<le> i - 16" using i less.prems(1) by linarith+
    from less.IH [OF lt(1,2) dv lt(3), of "out @ bs"] obtain cs where
      r: "bulk_loop packed dat e (i - 16) (out @ bs) = Ok ((out @ bs) @ cs)" "2 * length cs = i - 16 - e"
        "bytes_bits cs = codes code (back_syms dat (i - 16) (i - 16 - e))" by blast
    have n: "i - e = 16 + (i - 16 - e)" using i by simp
    have "back_syms dat i (i - e) = back_syms dat i 16 @ back_syms dat (i - 16) (i - 16 - e)"
      unfolding n by (simp only: back_syms_append)
    then have "bytes_bits (bs @ cs) = codes code (back_syms dat i (i - e))" using b(3) r(3) by simp
    moreover have "bulk_loop packed dat e i out = Ok (out @ bs @ cs)"
      using True b(1) r(1) by (subst bulk_loop.simps) simp
    moreover have "2 * length (bs @ cs) = i - e" using b(2) r(2) i by simp
    ultimately show ?thesis by blast
  qed
qed

text \<open>At most one symbol is peeled.\<close>

lemma bulk_peel_ok:
  assumes t: "packed_by packed code dat" and dat: "16 \<le> length dat"
    and a: "take_bit m acc = acc" "m mod 4 = 0" "m < 60"
  shows "\<exists>acc' k n. bulk_peel packed dat acc m (length dat) = Ok (acc', 8 * k, n) \<and> take_bit (8 * k) acc' = acc' \<and> k < 8
    \<and> n \<le> length dat \<and> word_bits (8 * k) acc' = word_bits m acc @ codes code (back_syms dat (length dat) (length dat - n))"
proof (cases "m mod 8 = 0")
  case True
  then obtain k where "m = 8 * k" by auto
  then show ?thesis using a
    by (intro exI [of _ acc] exI [of _ k] exI [of _ "length dat"]) (simp add: bulk_peel.simps back_syms_def)
next
  case False
  then have "m mod 8 = 4" using a(2) by presburger
  then have "8 dvd m + 4" by presburger
  then obtain k where k: "m + 4 = 8 * k" by (rule dvdE)
  let ?s = "dat ! (length dat - 1)"
  have s: "?s \<in> set dat" using dat by simp
  note c = packed_code [OF t s]
  define v where "v = (ucast (drop_bit 4 (packed ! unat ?s)) :: u64)"
  have v: "bit v i \<longleftrightarrow> i < 4 \<and> code ?s ! i" for i by (auto simp: v_def bit_ucast_iff c(1) [unfolded One_nat_def])
  let ?acc = "acc OR push_bit m v"
  have top: "bit acc j \<Longrightarrow> j < m" for j using a(1) by (metis bit_take_bit_iff)
  have "bulk_peel packed dat ?acc (m + 4) (length dat - 1) = Ok (?acc, 8 * k, length dat - 1)"
    by (subst bulk_peel.simps) (simp add: k)
  moreover have "\<not> length dat = 0" "length dat - 1 < length dat" using dat by auto
  ultimately have "bulk_peel packed dat acc m (length dat) = Ok (?acc, 8 * k, length dat - 1)"
    using False c(3) by (subst bulk_peel.simps) (simp add: v_def)
  moreover have "take_bit (8 * k) ?acc = ?acc"
    unfolding take_bit_eq_self_iff_drop_bit_eq_0
    by (rule bit_word_eqI) (auto simp: bit_drop_bit_eq bit_or_iff bit_push_bit_iff v simp flip: k dest: top)
  moreover have "word_bits (m + 4) ?acc = word_bits m acc @ code ?s"
  proof -
    have "word_bits 4 v = code ?s" using c(2) by (intro nth_equalityI) (auto simp: v)
    then show ?thesis using word_bits_or_push [OF a(1), of 4 v] a(3) by simp
  qed
  moreover have "k < 8" using k a(3) by simp
  ultimately show ?thesis using dat
    by (intro exI [of _ ?acc] exI [of _ k] exI [of _ "length dat - 1"]) (simp add: back_syms_def flip: k)
qed

lemma write_uniform4_bulk_correct:
  assumes inv: "bw_inv w" and t: "packed_by packed code dat" and dat: "16 \<le> length dat"
    and m: "bw_bits_in_partial w mod 4 = 0" "bw_bits_in_partial w \<noteq> 60"
  shows "\<exists>w' e. write_uniform4_bulk packed dat w = Ok (take e dat, w') \<and> bw_inv w' \<and> e \<le> length dat
    \<and> bw_bits w' = bw_bits w @ codes code (back_syms dat (length dat) (length dat - e))"
proof -
  let ?m = "bw_bits_in_partial w" and ?l = "length dat"
  have w: "?m < 64" "take_bit ?m (bw_partial w) = bw_partial w" "bw_bit_idx w = 8 * length (bw_output w)"
    using inv by (simp_all add: bw_inv_def)
  have "?m < 60"
  proof -
    have "4 dvd ?m" using m(1) by presburger
    then obtain j where "?m = 4 * j" by (rule dvdE)
    then show ?thesis using w(1) m(2) by simp
  qed
  from bulk_peel_ok [OF t dat w(2) m(1) this] obtain acc k n where
    p: "bulk_peel packed dat (bw_partial w) ?m ?l = Ok (acc, 8 * k, n)" "take_bit (8 * k) acc = acc" "k < 8" "n \<le> ?l"
      "word_bits (8 * k) acc = word_bits ?m (bw_partial w) @ codes code (back_syms dat ?l (?l - n))" by blast
  define out where "out = bw_output w @ take k (u64_to_le_bytes acc)"
  have "take (8 * k) (word_bits 64 acc) = word_bits (8 * k) acc" using p(3) by (intro nth_equalityI) auto
  then have out: "bytes_bits out = bw_bits w @ codes code (back_syms dat ?l (?l - n))"
    using p(5) by (simp add: out_def bw_bits_def bytes_bits_u64_to_le_bytes flip: take_bytes_bits)
  have lo: "length out = length (bw_output w) + k" using p(3) by (simp add: out_def)
  have "drop_bit (8 * k) acc = 0" using p(2) by (metis drop_bit_take_bit diff_self_eq_0 take_bit_0)
  then have first: "bulk_drain (bw_output w) (length (bw_output w)) k acc (8 * k) = Ok (out, length out, 0, 0)"
    using p(2,3) lo by (cases "k = 0") (simp_all add: bulk_drain_def overrun_store_u64_def out_def)
  define e where "e = n - n div 16 * 16"
  have e: "e \<le> n" "16 dvd n - e" "n - e = 16 * (n div 16)" by (simp_all add: e_def)
  obtain bs where b: "(if n div 16 > 0 then bulk_loop packed dat e n out else Ok out) = Ok (out @ bs)" "2 * length bs = n - e"
    "bytes_bits bs = codes code (back_syms dat n (n - e))"
  proof (cases "0 < n div 16")
    case True
    then show ?thesis using bulk_loop_ok [OF t p(4) e(2,1), of out] that by auto
  next
    case False
    then have "e = n" by (simp add: e_def)
    then show ?thesis using that [of "[]"] False by (simp add: back_syms_def)
  qed
  have lb: "length bs = n div 16 * 8" using b(2) e(3) by simp
  let ?w = "w\<lparr>bw_output := out @ bs, bw_partial := 0, bw_bits_in_partial := 0, bw_bit_idx := (length out + n div 16 * 8) * 8\<rparr>"
  have "write_uniform4_bulk packed dat w = Ok (take e dat, ?w)"
    unfolding write_uniform4_bulk_def Let_def p(1) rbind.simps prod.case w(3)
    by (simp only: nonzero_mult_div_cancel_left first rbind.simps prod.case rassert_simps b(1) simp_thms zero_neq_numeral not_False_eq_True flip: e_def)
      (simp add: publish_len_def lb)
  moreover have "back_syms dat ?l (?l - e) = back_syms dat ?l (?l - n) @ back_syms dat n (n - e)"
  proof -
    have "?l - e = (?l - n) + (n - e)" "?l - (?l - n) = n" using p(4) e(1) by simp_all
    then show ?thesis by (simp only: back_syms_append)
  qed
  then have "bw_bits ?w = bw_bits w @ codes code (back_syms dat ?l (?l - e))"
    unfolding bw_bits_def [of ?w] using out b(3) by simp
  moreover have "bw_inv ?w" using lb by (simp add: bw_inv_def)
  ultimately show ?thesis using e(1) p(4) by fastforce
qed

lemma write_packed_codes_rev_spec_holds:
  assumes "bw_inv w" "coded_by aligned code dat"
    and "nb = 4 \<Longrightarrow> packed_by packed code dat \<and> bw_bits_in_partial w \<noteq> 60"
  shows "\<exists>w'. write_packed_codes_rev packed aligned nb dat w = Ok w' \<and> bw_inv w'
    \<and> bw_bits w' = bw_bits w @ codes code (rev dat)"
proof (cases "nb = 4 \<and> length dat \<ge> 16 \<and> bw_bits_in_partial w mod 4 = 0")
  case False
  then show ?thesis using write_packed_codes_dual_correct [OF assms(1,2)] by (simp only: write_packed_codes_rev_def if_False rbind.simps prod.case)
next
  case True
  then have t: "packed_by packed code dat" "16 \<le> length dat" "bw_bits_in_partial w mod 4 = 0" "bw_bits_in_partial w \<noteq> 60"
    using assms(3) by blast+
  from write_uniform4_bulk_correct [OF assms(1) t] obtain w1 e where
    b: "write_uniform4_bulk packed dat w = Ok (take e dat, w1)" "bw_inv w1" "e \<le> length dat"
    "bw_bits w1 = bw_bits w @ codes code (back_syms dat (length dat) (length dat - e))" by blast
  have "coded_by aligned code (take e dat)" using assms(2) by (auto simp: coded_by_def dest: in_set_takeD)
  from write_packed_codes_dual_correct [OF b(2) this] obtain w2 where
    d: "write_packed_codes_dual aligned (take e dat) w1 = Ok w2" "bw_inv w2" "bw_bits w2 = bw_bits w1 @ codes code (rev (take e dat))" by blast
  have "back_syms dat (length dat) ((length dat - e) + e)
      = back_syms dat (length dat) (length dat - e) @ back_syms dat (length dat - (length dat - e)) e"
    by (rule back_syms_append)
  then have "rev dat = back_syms dat (length dat) (length dat - e) @ rev (take e dat)"
    using b(3) back_syms_all [of "length dat" dat] back_syms_all [of e dat] by simp
  then have "bw_bits w2 = bw_bits w @ codes code (rev dat)" using d(3) b(4) by simp
  then show ?thesis using True b(1) d(1,2) by (simp add: write_packed_codes_rev_def)
qed

text \<open>
  C38.  The batched writer appends, for any data and any pending bits, exactly the codes of the symbols
  from the last to the first, as one \<open>write_bits\<close> per symbol would; every store stays within the
  reserved capacity.  A flat four-bit table must not find 60 bits pending.
\<close>

theorem write_packed_codes_rev_spec:
  assumes "bw_inv w" "coded_by aligned code dat"
    and "nb = 4 \<Longrightarrow> packed_by packed code dat \<and> bw_bits_in_partial w \<noteq> 60"
  shows "\<exists>w'. write_packed_codes_rev packed aligned nb dat w = Ok w' \<and> bw_inv w'
    \<and> bw_bits w' = bw_bits w @ codes code (rev dat)"
  by (rule write_packed_codes_rev_spec_holds [OF assms])

text \<open>With 60 bits pending the bulk path shifts a 64-bit word by 64.\<close>

lemma uniform4_bulk_panics:
  assumes "packed_by packed code dat" "16 \<le> length dat" "bw_bits_in_partial w = 60" "bw_bit_idx w = 8 * length (bw_output w)"
  shows "write_uniform4_bulk packed dat w = Panic"
proof -
  let ?s = "dat ! (length dat - 1)"
  have "?s \<in> set dat" using assms(2) by simp
  then have "unat ?s < length packed" by (rule packed_code(3) [OF assms(1)])
  moreover have "\<not> length dat = 0" "length dat - 1 < length dat" using assms(2) by auto
  moreover have "bulk_peel packed dat acc 64 n = Ok (acc, 64, n)" for acc n by (subst bulk_peel.simps) simp
  ultimately have "\<exists>acc. bulk_peel packed dat (bw_partial w) 60 (length dat) = Ok (acc, 64, length dat - 1)"
    by (subst bulk_peel.simps) simp
  then show ?thesis using assms(3,4)
    by (auto simp: write_uniform4_bulk_def bulk_drain_def overrun_store_u64_def)
qed

text \<open>Instance of the specification: two codes, with one bit pending.\<close>

definition sample_code :: "u8 \<Rightarrow> bits" where
  "sample_code s = (if s = 0 then [True] else [False, True])"

definition sample_aligned :: "u64 list" where
  "sample_aligned = element [True] # replicate 255 (element [False, True])"

lemma write_packed_codes_rev_spec_witness:
  "\<exists>w'. write_packed_codes_rev (replicate 256 0) sample_aligned 0 [0, 1, 0] (bw_new\<lparr>bw_partial := 1, bw_bits_in_partial := 1\<rparr>) = Ok w'
    \<and> bw_inv w' \<and> bw_bits w' = [True, True, False, True, True]"
proof -
  let ?w = "bw_new\<lparr>bw_partial := 1, bw_bits_in_partial := 1\<rparr>"
  have "bw_inv ?w" by (simp add: bw_inv_def bw_new_def bw_from_def)
  moreover have "coded_by sample_aligned sample_code [0, 1, 0]" by (simp add: coded_by_def sample_aligned_def sample_code_def)
  ultimately show ?thesis
    using write_packed_codes_rev_spec [of ?w sample_aligned sample_code "[0, 1, 0]" 0 "replicate 256 0"]
    by (simp add: sample_code_def bw_bits_def bw_new_def bw_from_def word_bits_def)
qed

end
