(* ===== verification/Huff_Decoder.thy ===== *)
theory Huff_Decoder
  imports Fse_Parse
begin

text \<open>
  The Huffman decoding table of \<open>huff0/huff0_decoder.rs\<close>: reading the weights (raw, or compressed
  with two interleaved FSE states), deriving the code lengths, the counting sort that fills the
  lookup table, and the decoder that walks a backward bit stream with it.  Weights, code lengths
  and ranks, all below 256 in the code, are \<open>nat\<close>; what the code packs into words is a word.
\<close>

unbundle bit_operations_syntax

section \<open>Data\<close>

definition MAX_MAX_NUM_BITS :: nat where
  "MAX_MAX_NUM_BITS = 11"

datatype HuffmanTableError =
    HuffGetBitsError GetBitsError
  | HuffFSEDecoderError FSEDecoderError
  | HuffFSETableError FSETableError
  | SourceIsEmpty
  | NotEnoughBytesForWeights nat nat
  | HuffExtraPadding int
  | TooManyWeights nat
  | MissingWeights
  | LeftoverIsNotAPowerOf2 nat
  | NotEnoughBytesToDecompressWeights nat nat
  | FSETableUsedTooManyBytes nat nat
  | NotEnoughBytesInSource nat nat
  | WeightBiggerThanMaxNumBits nat
  | MaxBitsTooHigh nat
  | InvalidWeightOneCount nat

record HuffEntry =
  he_symbol :: u8
  he_num_bits :: nat

record HuffmanTable =
  ht_decode :: "HuffEntry list"
  ht_packed :: "u16 list"
  ht_weights :: "nat list"
  ht_max_num_bits :: nat
  ht_bits :: "nat list"
  ht_bit_ranks :: "nat list"
  ht_rank_indexes :: "nat list"
  ht_x2 :: "u32 list"
  ht_fse_table :: FSETable

definition ht_new :: HuffmanTable where
  "ht_new = \<lparr>ht_decode = [], ht_packed = [], ht_weights = [], ht_max_num_bits = 0, ht_bits = [],
     ht_bit_ranks = [], ht_rank_indexes = [], ht_x2 = [], ht_fse_table = ft_new 11\<rparr>"

definition ht_reset :: "HuffmanTable \<Rightarrow> HuffmanTable" where
  "ht_reset t = t\<lparr>ht_decode := [], ht_packed := [], ht_weights := [], ht_max_num_bits := 0, ht_bits := [],
     ht_bit_ranks := [], ht_rank_indexes := [], ht_x2 := [], ht_fse_table := ft_reset (ht_fse_table t)\<rparr>"

definition ht_reinit_from :: "HuffmanTable \<Rightarrow> HuffmanTable \<Rightarrow> HuffmanTable" where
  "ht_reinit_from t other =
     (let t = ht_reset t in
      t\<lparr>ht_decode := ht_decode t @ ht_decode other, ht_packed := ht_packed t @ ht_packed other,
        ht_weights := ht_weights t @ ht_weights other, ht_max_num_bits := ht_max_num_bits other,
        ht_bits := ht_bits t @ ht_bits other, ht_x2 := ht_x2 t @ ht_x2 other,
        ht_fse_table := ft_reinit_from (ht_fse_table t) (ht_fse_table other)\<rparr>)"

section \<open>Reading the weights\<close>

text \<open>
  The two decoders take turns; the stream ends when a state update has read behind its start, and
  the other decoder then still holds one weight.
\<close>

definition weight_turn ::
  "FSEDecoder \<Rightarrow> BitReaderReversed \<Rightarrow> nat list \<Rightarrow> (HuffmanTableError, FSEDecoder \<times> BitReaderReversed \<times> nat list) res" where
  "weight_turn d br ws =
     rbind (infallible (update_state d br)) (\<lambda>(d', br). Ok (d', br, ws @ [decode_symbol d]))"

function weights_loop ::
  "FSEDecoder \<Rightarrow> FSEDecoder \<Rightarrow> BitReaderReversed \<Rightarrow> nat list \<Rightarrow> (HuffmanTableError, nat list) res" where
  "weights_loop dec1 dec2 br ws =
     (case weight_turn dec1 br ws of
        Err e \<Rightarrow> Err e | Panic \<Rightarrow> Panic
      | Ok (dec1, br, ws1) \<Rightarrow>
          if rr_bits_remaining br \<le> -1 then Ok (ws1 @ [decode_symbol dec2])
          else case weight_turn dec2 br ws1 of
            Err e \<Rightarrow> Err e | Panic \<Rightarrow> Panic
          | Ok (dec2, br, ws2) \<Rightarrow>
              if rr_bits_remaining br \<le> -1 then Ok (ws2 @ [decode_symbol dec1])
              else if length ws2 > 255 then Err (TooManyWeights (length ws2))
              else weights_loop dec1 dec2 br ws2)"
  by pat_completeness auto
termination
proof (relation "measure (\<lambda>(d1, d2, br, ws). 256 - length ws)", goal_cases)
  case (2 d1 d2 br ws p d1' q br1 ws1 p2 d2' q2 br2 ws2)
  then have "length ws2 = length ws + 2"
    by (auto simp: weight_turn_def rbind_eq_Ok)
  then show ?case using 2 by (auto split: prod.splits)
qed simp

declare weights_loop.simps [simp del]

definition read_fse_weights ::
  "HuffmanTable \<Rightarrow> nat \<Rightarrow> bytes \<Rightarrow> (HuffmanTableError, HuffmanTable \<times> nat) res" where
  "read_fse_weights t header fse_stream =
     (if header > length fse_stream then Err (NotEnoughBytesForWeights (length fse_stream) header)
      else rbind (rmap_err HuffFSETableError (build_decoder (ht_fse_table t) fse_stream 6)) (\<lambda>(used, fse).
        if used > header then Err (FSETableUsedTooManyBytes used header)
        else
          let dec1 = fd_new fse; dec2 = fd_new fse; compressed_length = header - used in
          rbind (rassert (used \<le> length fse_stream)) (\<lambda>_.
          let compressed = drop used fse_stream in
          if length compressed < compressed_length
          then Err (NotEnoughBytesToDecompressWeights (length compressed) compressed_length)
          else
            rbind (infallible (rr_skip_padding_marker (rr_new (take compressed_length compressed)))) (\<lambda>(found, br).
            if \<not> found then Err (HuffExtraPadding 9)
            else
              rbind (rmap_err HuffFSEDecoderError (init_state dec1 br)) (\<lambda>(dec1, br).
              rbind (rmap_err HuffFSEDecoderError (init_state dec2 br)) (\<lambda>(dec2, br).
              rbind (weights_loop dec1 dec2 br []) (\<lambda>ws.
                if length ws > 255 then Err (TooManyWeights (length ws))
                else Ok (t\<lparr>ht_fse_table := fse, ht_weights := ws\<rparr>, 8 + (used + compressed_length) * 8))))))))"

definition raw_weight :: "bytes \<Rightarrow> nat \<Rightarrow> (HuffmanTableError, nat) res" where
  "raw_weight raw idx =
     rbind (rindex raw (idx div 2)) (\<lambda>b.
       Ok (if idx mod 2 = 0 then unat (drop_bit 4 b) else unat (b AND 0xf)))"

fun raw_weights :: "bytes \<Rightarrow> nat \<Rightarrow> nat \<Rightarrow> (HuffmanTableError, nat list) res" where
  "raw_weights raw idx 0 = Ok []"
| "raw_weights raw idx (Suc k) =
     rbind (raw_weight raw idx) (\<lambda>w. rbind (raw_weights raw (idx + 1) k) (\<lambda>ws. Ok (w # ws)))"

definition read_raw_weights ::
  "HuffmanTable \<Rightarrow> nat \<Rightarrow> bytes \<Rightarrow> (HuffmanTableError, HuffmanTable \<times> nat) res" where
  "read_raw_weights t header raw =
     (let num_weights = header - 127;
          bytes_needed = (if num_weights mod 2 = 0 then num_weights div 2 else num_weights div 2 + 1) in
      if length raw < bytes_needed then Err (NotEnoughBytesInSource (length raw) bytes_needed)
      else rbind (raw_weights raw 0 num_weights) (\<lambda>ws. Ok (t\<lparr>ht_weights := ws\<rparr>, 8 + 4 * num_weights)))"

definition read_weights :: "HuffmanTable \<Rightarrow> bytes \<Rightarrow> (HuffmanTableError, HuffmanTable \<times> nat) res" where
  "read_weights t source =
     (case source of [] \<Rightarrow> Err SourceIsEmpty
      | header # rest \<Rightarrow>
          rbind (if unat header \<le> 127 then read_fse_weights t (unat header) rest
                 else read_raw_weights t (unat header) rest)
            (\<lambda>(t, bits_read). Ok (t, if bits_read mod 8 = 0 then bits_read div 8 else bits_read div 8 + 1)))"

section \<open>Building the table\<close>

text \<open>The sum of the weights' shares of the code space, and how many symbols have weight 1.\<close>

fun sum_weights :: "nat list \<Rightarrow> nat \<Rightarrow> nat \<Rightarrow> (HuffmanTableError, nat \<times> nat) res" where
  "sum_weights [] weight_sum ones = Ok (weight_sum, ones)"
| "sum_weights (w # ws) weight_sum ones =
     (if w > MAX_MAX_NUM_BITS then Err (WeightBiggerThanMaxNumBits w)
      else
        let weight_sum' = weight_sum + (if w > 0 then push_bit (w - 1) 1 else 0) in
        rbind (rassert (weight_sum' < 2 ^ 32)) (\<lambda>_.
          sum_weights ws weight_sum' (ones + of_bool (w = 1))))"

text \<open>The code length of each weight; the subtraction is checked.\<close>

fun lengths_of :: "nat \<Rightarrow> nat list \<Rightarrow> (HuffmanTableError, nat list) res" where
  "lengths_of max_bits [] = Ok []"
| "lengths_of max_bits (w # ws) =
     rbind (rassert (w \<le> max_bits + 1)) (\<lambda>_.
     rbind (lengths_of max_bits ws) (\<lambda>bs. Ok ((if w > 0 then max_bits + 1 - w else 0) # bs)))"

fun count_ranks :: "nat list \<Rightarrow> nat list \<Rightarrow> (HuffmanTableError, nat list) res" where
  "count_ranks ranks [] = Ok ranks"
| "count_ranks ranks (b # bs) =
     rbind (rindex ranks b) (\<lambda>c. count_ranks (ranks[b := c + 1]) bs)"

text \<open>The region of a length starts where the regions of the longer ones end.\<close>

fun rank_index_loop :: "nat list \<Rightarrow> nat \<Rightarrow> nat \<Rightarrow> nat list \<Rightarrow> (HuffmanTableError, nat list) res" where
  "rank_index_loop ranks max_bits 0 indexes = Ok indexes"
| "rank_index_loop ranks max_bits (Suc b) indexes =
     rbind (rindex indexes (Suc b)) (\<lambda>i. rbind (rindex ranks (Suc b)) (\<lambda>c.
     rbind (rassert (Suc b \<le> max_bits)) (\<lambda>_.
       rank_index_loop ranks max_bits b (indexes[b := i + c * push_bit (max_bits - Suc b) 1]))))"

text \<open>The counting sort: where each length begins, and the placement of the symbols.\<close>

fun begin_ranks :: "nat list \<Rightarrow> nat \<Rightarrow> nat \<Rightarrow> nat list \<Rightarrow> (HuffmanTableError, nat \<times> nat list) res" where
  "begin_ranks [] b acc rank_begin = Ok (acc, rank_begin)"
| "begin_ranks (c # cs) b acc rank_begin =
     rbind (rindex rank_begin b) (\<lambda>_. begin_ranks cs (b + 1) (acc + c) (rank_begin[b := acc]))"

fun sort_symbols :: "nat list \<Rightarrow> nat \<Rightarrow> nat list \<Rightarrow> bytes \<Rightarrow> (HuffmanTableError, nat list \<times> bytes) res" where
  "sort_symbols [] sy rank_next slots = Ok (rank_next, slots)"
| "sort_symbols (b # bs) sy rank_next slots =
     rbind (rindex rank_next b) (\<lambda>slot. rbind (rindex slots slot) (\<lambda>_.
       sort_symbols bs (sy + 1) (rank_next[b := slot + 1]) (slots[slot := of_nat sy])))"

text \<open>\<open>xs[idx..idx + len].fill(v)\<close>\<close>

definition fill_range :: "'a list \<Rightarrow> nat \<Rightarrow> nat \<Rightarrow> 'a \<Rightarrow> ('e, 'a list) res" where
  "fill_range xs idx len v =
     rbind (rassert (idx + len \<le> length xs)) (\<lambda>_. Ok (take idx xs @ replicate len v @ drop (idx + len) xs))"

type_synonym fill_state = "nat \<times> HuffEntry list \<times> u16 list"

fun fill_symbols :: "nat \<Rightarrow> nat \<Rightarrow> bytes \<Rightarrow> fill_state \<Rightarrow> (HuffmanTableError, fill_state) res" where
  "fill_symbols bits len [] st = Ok st"
| "fill_symbols bits len (sy # ss) (idx, dec, packed) =
     rbind (fill_range dec idx len \<lparr>he_symbol = sy, he_num_bits = bits\<rparr>) (\<lambda>dec.
     rbind (fill_range packed idx len (push_bit 8 (ucast sy) OR of_nat bits)) (\<lambda>packed.
       fill_symbols bits len ss (idx + len, dec, packed)))"

fun fill_ranks ::
  "nat \<Rightarrow> bytes \<Rightarrow> nat list \<Rightarrow> nat list \<Rightarrow> nat \<Rightarrow> fill_state \<Rightarrow> (HuffmanTableError, fill_state) res" where
  "fill_ranks max_bits slots rank_begin rank_next 0 st = Ok st"
| "fill_ranks max_bits slots rank_begin rank_next (Suc b) st =
     rbind (rindex rank_begin (Suc b)) (\<lambda>s. rbind (rindex rank_next (Suc b)) (\<lambda>e.
     rbind (rassert (s \<le> e \<and> e \<le> length slots)) (\<lambda>_.
     rbind (fill_symbols (Suc b) (push_bit (max_bits - Suc b) 1) (take (e - s) (drop s slots)) st)
       (fill_ranks max_bits slots rank_begin rank_next b))))"

definition fill_decode_tables :: "HuffmanTable \<Rightarrow> (HuffmanTableError, HuffmanTable) res" where
  "fill_decode_tables t =
     rbind (begin_ranks (ht_bit_ranks t) 0 0 (replicate 12 0)) (\<lambda>(acc, rank_begin).
     rbind (rassert (acc = length (ht_bits t))) (\<lambda>_.
     rbind (sort_symbols (ht_bits t) 0 rank_begin (replicate 256 0)) (\<lambda>(rank_next, slots).
     rbind (fill_ranks (ht_max_num_bits t) slots rank_begin rank_next (ht_max_num_bits t)
              (0, ht_decode t, replicate (length (ht_decode t)) 0)) (\<lambda>(idx, dec, packed).
     rbind (rassert (idx = length dec)) (\<lambda>_.
       Ok (t\<lparr>ht_decode := dec, ht_packed := packed\<rparr>))))))"

definition is_power_of_two :: "nat \<Rightarrow> bool" where
  "is_power_of_two n \<longleftrightarrow> n > 0 \<and> n = 2 ^ ilog2 n"

text \<open>The code lengths, or the reason why the weights are not those of a Huffman tree.\<close>

definition code_lengths_of :: "nat list \<Rightarrow> (HuffmanTableError, nat \<times> nat list) res" where
  "code_lengths_of weights =
     rbind (sum_weights weights 0 0) (\<lambda>(weight_sum, weight_one_count).
     if weight_sum = 0 then Err MissingWeights
     else
       rbind (highest_bit_set weight_sum) (\<lambda>max_bits.
       if max_bits > MAX_MAX_NUM_BITS then Err (MaxBitsTooHigh max_bits)
       else
         rbind (rassert (weight_sum \<le> push_bit max_bits 1)) (\<lambda>_.
         let left_over = push_bit max_bits 1 - weight_sum in
         if \<not> is_power_of_two left_over then Err (LeftoverIsNotAPowerOf2 left_over)
         else
           rbind (highest_bit_set left_over) (\<lambda>last_weight.
           let rank_one = weight_one_count + of_bool (last_weight = 1) in
           if rank_one < 2 \<or> rank_one mod 2 = 1 then Err (InvalidWeightOneCount rank_one)
           else
             rbind (lengths_of max_bits weights) (\<lambda>bs.
             rbind (rassert (last_weight \<le> max_bits + 1)) (\<lambda>_.
               Ok (max_bits, bs @ [max_bits + 1 - last_weight])))))))"

definition build_table_from_weights :: "HuffmanTable \<Rightarrow> (HuffmanTableError, HuffmanTable) res" where
  "build_table_from_weights t =
     rbind (code_lengths_of (ht_weights t)) (\<lambda>(max_bits, bits).
     rbind (count_ranks (replicate (max_bits + 1) 0) bits) (\<lambda>ranks.
     let dec = vec_resize (ht_decode t) (push_bit max_bits 1) \<lparr>he_symbol = 0, he_num_bits = 0\<rparr> in
     rbind (rank_index_loop ranks max_bits max_bits (replicate (max_bits + 1) 0)) (\<lambda>indexes.
     rbind (rindex indexes 0) (\<lambda>first.
     rbind (rassert (first = length dec)) (\<lambda>_.
       fill_decode_tables
         (t\<lparr>ht_x2 := [], ht_bits := bits, ht_max_num_bits := max_bits, ht_bit_ranks := ranks,
            ht_decode := dec, ht_rank_indexes := indexes\<rparr>))))))"

definition ht_build_decoder :: "HuffmanTable \<Rightarrow> bytes \<Rightarrow> (HuffmanTableError, nat \<times> HuffmanTable) res" where
  "ht_build_decoder t source =
     rbind (read_weights (t\<lparr>ht_decode := [], ht_packed := []\<rparr>) source) (\<lambda>(t, bytes_used).
     rbind (build_table_from_weights t) (\<lambda>t. Ok (bytes_used, t)))"

section \<open>The decoder\<close>

record HuffmanDecoder =
  hd_table :: HuffmanTable
  hd_state :: u64

definition hd_new :: "HuffmanTable \<Rightarrow> HuffmanDecoder" where
  "hd_new table = \<lparr>hd_table = table, hd_state = 0\<rparr>"

definition hd_decode_symbol :: "HuffmanDecoder \<Rightarrow> (unit, u8) res" where
  "hd_decode_symbol d = rbind (rindex (ht_decode (hd_table d)) (unat (hd_state d))) (\<lambda>e. Ok (he_symbol e))"

definition hd_init_state :: "HuffmanDecoder \<Rightarrow> BitReaderReversed \<Rightarrow> (unit, nat \<times> HuffmanDecoder \<times> BitReaderReversed) res" where
  "hd_init_state d br =
     (let nb = ht_max_num_bits (hd_table d) in
      rbind (rr_get_bits br nb) (\<lambda>(new_bits, br). Ok (nb, d\<lparr>hd_state := new_bits\<rparr>, br)))"

text \<open>Shift the window by the length of the symbol's code and append the new bits.\<close>

definition advance_window :: "u64 \<Rightarrow> nat \<Rightarrow> nat \<Rightarrow> u64 \<Rightarrow> (unit, u64) res" where
  "advance_window state nb table_len new_bits =
     rbind (rassert (nb < 64 \<and> 0 < table_len)) (\<lambda>_.
       Ok ((push_bit nb state AND (of_nat table_len - 1)) OR new_bits))"

definition hd_next_state :: "HuffmanDecoder \<Rightarrow> BitReaderReversed \<Rightarrow> (unit, nat \<times> HuffmanDecoder \<times> BitReaderReversed) res" where
  "hd_next_state d br =
     rbind (rindex (ht_decode (hd_table d)) (unat (hd_state d))) (\<lambda>e.
     rbind (rr_get_bits br (he_num_bits e)) (\<lambda>(new_bits, br).
     rbind (advance_window (hd_state d) (he_num_bits e) (length (ht_decode (hd_table d))) new_bits) (\<lambda>state.
       Ok (he_num_bits e, d\<lparr>hd_state := state\<rparr>, br))))"

definition decode_and_advance :: "HuffmanDecoder \<Rightarrow> BitReaderReversed \<Rightarrow> (unit, u8 \<times> HuffmanDecoder \<times> BitReaderReversed) res" where
  "decode_and_advance d br =
     rbind (rindex (ht_packed (hd_table d)) (unat (hd_state d))) (\<lambda>entry.
     let nb = unat (entry AND 0x3f) in
     rbind (rr_get_bits br nb) (\<lambda>(new_bits, br).
     rbind (advance_window (hd_state d) nb (length (ht_packed (hd_table d))) new_bits) (\<lambda>state.
       Ok (ucast (drop_bit 8 entry), d\<lparr>hd_state := state\<rparr>, br))))"

end
