(* ===== verification/Huff_Table.thy ===== *)
theory Huff_Table
  imports Huff_Decoder
begin

text \<open>
  The Huffman lookup table meets its description: one span of \<open>2 ^ (max - b)\<close> equal entries per
  symbol of code length \<open>b\<close>, the longest codes first and the symbols of one length in ascending
  order.  The counting sort of the code disappears in this description.
\<close>

unbundle bit_operations_syntax

section \<open>The described table\<close>

definition syms_at :: "nat list \<Rightarrow> nat \<Rightarrow> nat list" where
  "syms_at L b = filter (\<lambda>s. L ! s = b) [0..<length L]"

fun ranked :: "nat list \<Rightarrow> nat \<Rightarrow> (nat \<times> nat) list" where
  "ranked L 0 = []"
| "ranked L (Suc b) = map (\<lambda>s. (s, Suc b)) (syms_at L (Suc b)) @ ranked L b"

definition spans :: "nat \<Rightarrow> (nat \<times> nat) list \<Rightarrow> (nat \<times> nat) list" where
  "spans M xs = concat (map (\<lambda>(s, b). replicate (2 ^ (M - b)) (s, b)) xs)"

definition kraft :: "nat \<Rightarrow> nat list \<Rightarrow> nat" where
  "kraft M L = sum_list (map (\<lambda>l. if l = 0 then 0 else 2 ^ (M - l)) L)"

definition lengths_ok :: "nat list \<Rightarrow> nat \<Rightarrow> bool" where
  "lengths_ok L M \<longleftrightarrow> 1 \<le> M \<and> M \<le> 11 \<and> length L \<le> 256 \<and> list_all (\<lambda>l. l \<le> M) L \<and> kraft M L = 2 ^ M"

definition entry_of :: "nat \<times> nat \<Rightarrow> HuffEntry" where
  "entry_of = (\<lambda>(s, b). \<lparr>he_symbol = of_nat s, he_num_bits = b\<rparr>)"

definition huff_packed_of :: "nat \<times> nat \<Rightarrow> u16" where
  "huff_packed_of = (\<lambda>(s, b). push_bit 8 (ucast (of_nat s :: u8)) OR of_nat b)"

text \<open>A table built for the code lengths \<open>L\<close>.\<close>

definition table_built :: "nat list \<Rightarrow> nat \<Rightarrow> HuffmanTable \<Rightarrow> bool" where
  "table_built L M t \<longleftrightarrow> ht_bits t = L \<and> ht_max_num_bits t = M
     \<and> ht_decode t = map entry_of (spans M (ranked L M)) \<and> ht_packed t = map huff_packed_of (spans M (ranked L M))"

lemma spans_simps [simp]:
  "spans M [] = []" "spans M (xs @ ys) = spans M xs @ spans M ys"
  "spans M ((s, b) # xs) = replicate (2 ^ (M - b)) (s, b) @ spans M xs"
  by (simp_all add: spans_def)

lemma syms_at_snoc: "syms_at (pre @ [c]) b = syms_at pre b @ (if c = b then [length pre] else [])"
proof -
  have "filter (\<lambda>s. (pre @ [c]) ! s = b) [0..<length pre] = filter (\<lambda>s. pre ! s = b) [0..<length pre]"
    by (rule filter_cong) (simp_all add: nth_append)
  then show ?thesis by (simp add: syms_at_def)
qed

lemma length_syms_at: "length (syms_at L b) = count_list L b"
  by (induction L rule: rev_induct) (simp_all add: syms_at_snoc syms_at_def [of "[]"])

lemma set_syms_at: "s \<in> set (syms_at L b) \<longleftrightarrow> s < length L \<and> L ! s = b"
  by (auto simp: syms_at_def)

lemma length_spans_same: "length (spans M (map (\<lambda>s. (s, b)) ss)) = length ss * 2 ^ (M - b)"
  by (induction ss) simp_all

lemma length_ranked:
  "length (spans M (ranked L b)) = sum_list (map (\<lambda>l. if l = 0 \<or> b < l then 0 else 2 ^ (M - l)) L)"
proof (induction b)
  case 0
  have "(\<lambda>l. if l = 0 \<or> 0 < l then 0 else 2 ^ (M - l)) = (\<lambda>_::nat. 0 :: nat)" by auto
  then show ?case by (simp only: ranked.simps spans_simps sum_list_0 list.size)
next
  case (Suc b)
  have "count_list L (Suc b) * 2 ^ (M - Suc b) + sum_list (map (\<lambda>l. if l = 0 \<or> b < l then 0 else 2 ^ (M - l)) L)
      = sum_list (map (\<lambda>l. if l = 0 \<or> Suc b < l then 0 else 2 ^ (M - l)) L)"
    by (induction L) (auto simp: linorder_not_less le_Suc_eq)
  then show ?case using Suc by (simp add: length_spans_same length_syms_at)
qed

lemma length_table:
  assumes "lengths_ok L M"
  shows "length (spans M (ranked L M)) = 2 ^ M"
proof -
  have "length (spans M (ranked L M)) = kraft M L"
    unfolding length_ranked kraft_def using assms
    by (intro arg_cong [where f = sum_list] map_cong) (auto simp: lengths_ok_def list_all_iff)
  then show ?thesis using assms by (simp add: lengths_ok_def)
qed

section \<open>The counting sort\<close>

text \<open>How many symbols have a shorter code, absent ones included.\<close>

fun below :: "nat list \<Rightarrow> nat \<Rightarrow> nat" where
  "below L 0 = 0"
| "below L (Suc b) = below L b + count_list L b"

lemma below_mono: "b \<le> b' \<Longrightarrow> below L b \<le> below L b'"
  by (induction b' rule: dec_induct) auto

lemma below_filter: "below L b = length (filter (\<lambda>l. l < b) L)"
proof (induction b)
  case (Suc b)
  have "length (filter (\<lambda>l. l < Suc b) L) = length (filter (\<lambda>l. l < b) L) + count_list L b"
    by (induction L) auto
  then show ?case using Suc by simp
qed simp

lemma below_le: "below L b \<le> length L"
  by (simp add: below_filter)

lemma below_apart:
  assumes "b \<noteq> b'" "j < count_list L b" "k < count_list L b'"
  shows "below L b + j \<noteq> below L b' + k"
proof -
  consider "b < b'" | "b' < b" using assms(1) by linarith
  then show ?thesis
  proof cases
    case 1
    then have "below L (Suc b) \<le> below L b'" by (intro below_mono) simp
    then show ?thesis using assms(2) by simp
  next
    case 2
    then have "below L (Suc b') \<le> below L b" by (intro below_mono) simp
    then show ?thesis using assms(3) by simp
  qed
qed

lemma count_ranks_ok:
  assumes "\<forall>b\<in>set bs. b < length ranks"
  shows "\<exists>r. count_ranks ranks bs = Ok r \<and> length r = length ranks \<and> (\<forall>b<length ranks. r ! b = ranks ! b + count_list bs b)"
  using assms
proof (induction bs arbitrary: ranks)
  case (Cons b bs)
  have "\<forall>x\<in>set bs. x < length (ranks[b := ranks ! b + 1])" using Cons.prems by simp
  from Cons.IH [OF this] obtain r where "count_ranks (ranks[b := ranks ! b + 1]) bs = Ok r" "length r = length ranks"
    "\<forall>c<length ranks. r ! c = ranks[b := ranks ! b + 1] ! c + count_list bs c" by auto
  then show ?case using Cons.prems by (auto simp: nth_list_update)
qed simp

lemma begin_ranks_ok:
  assumes "b + length cs \<le> length rb"
  shows "\<exists>r. begin_ranks cs b acc rb = Ok (acc + sum_list cs, r) \<and> length r = length rb
    \<and> (\<forall>i<length cs. r ! (b + i) = acc + sum_list (take i cs)) \<and> (\<forall>i<b. r ! i = rb ! i)"
  using assms
proof (induction cs arbitrary: b acc rb)
  case (Cons c cs)
  have "b + 1 + length cs \<le> length (rb[b := acc])" using Cons.prems by simp
  from Cons.IH [OF this, of "acc + c"] obtain r where r: "begin_ranks cs (b + 1) (acc + c) (rb[b := acc]) = Ok (acc + c + sum_list cs, r)"
    "length r = length rb" "\<forall>i<length cs. r ! (b + 1 + i) = acc + c + sum_list (take i cs)" "\<forall>i<b+1. r ! i = rb[b := acc] ! i" by auto
  have "r ! (b + i) = acc + sum_list (take i (c # cs))" if "i < length (c # cs)" for i
    using that r(3,4) Cons.prems by (cases i) auto
  then show ?case using r Cons.prems by auto
qed simp

lemma sort_symbols_ok:
  assumes L: "L = pre @ bs" "length L \<le> length slots" and nxt: "\<forall>b\<in>set L. b < m" "m \<le> length nxt"
    and n: "\<forall>b<m. nxt ! b = below L b + count_list pre b"
    and s: "\<forall>b<m. \<forall>j<count_list pre b. slots ! (below L b + j) = of_nat (syms_at pre b ! j)"
  shows "\<exists>nxt' slots'. sort_symbols bs (length pre) nxt slots = Ok (nxt', slots') \<and> length nxt' = length nxt
    \<and> length slots' = length slots \<and> (\<forall>b<m. nxt' ! b = below L (Suc b)
      \<and> (\<forall>j<count_list L b. slots' ! (below L b + j) = of_nat (syms_at L b ! j)))"
  using assms
proof (induction bs arbitrary: pre nxt slots)
  case Nil
  then show ?case by auto
next
  case (Cons c bs)
  let ?slot = "nxt ! c"
  have c: "c < m" "c < length nxt" using Cons.prems(1,3,4) by auto
  have cnt: "count_list L b = count_list pre b + of_bool (b = c) + count_list bs b" for b using Cons.prems(1) by simp
  have sl: "?slot = below L c + count_list pre c" using Cons.prems(5) c by simp
  have "below L (Suc c) \<le> length L" by (rule below_le)
  then have fits: "?slot < length slots" using sl Cons.prems(2) cnt [of c] by simp
  let ?nxt = "nxt[c := ?slot + 1]" and ?slots = "slots[?slot := of_nat (length pre)]"
  have "\<forall>b<m. ?nxt ! b = below L b + count_list (pre @ [c]) b"
    using Cons.prems(5) sl c by (auto simp: nth_list_update)
  moreover have "?slots ! (below L b + j) = of_nat (syms_at (pre @ [c]) b ! j)"
    if "b < m" "j < count_list (pre @ [c]) b" for b j
  proof (cases "b = c \<and> j = count_list pre c")
    case True
    then show ?thesis using sl fits by (simp add: syms_at_snoc nth_append length_syms_at)
  next
    case False
    then have j: "j < count_list pre b" using that(2) by (auto split: if_splits)
    have "below L b + j \<noteq> ?slot"
    proof (cases "b = c")
      case True
      then show ?thesis using j sl by simp
    next
      case False
      then show ?thesis unfolding sl using j cnt [of b] cnt [of c] by (intro below_apart) auto
    qed
    then show ?thesis using Cons.prems(6) that(1) j by (simp add: syms_at_snoc nth_append length_syms_at)
  qed
  ultimately obtain nxt' slots' where "sort_symbols bs (length (pre @ [c])) ?nxt ?slots = Ok (nxt', slots')"
    "length nxt' = length ?nxt" "length slots' = length ?slots"
    "\<forall>b<m. nxt' ! b = below L (Suc b) \<and> (\<forall>j<count_list L b. slots' ! (below L b + j) = of_nat (syms_at L b ! j))"
    using Cons.IH [of "pre @ [c]" ?slots ?nxt] Cons.prems(1-4) by auto
  then show ?case using c fits by simp
qed

lemma sorted_slice:
  assumes "\<forall>j<count_list L b. slots ! (below L b + j) = of_nat (syms_at L b ! j)" "length L \<le> length slots"
  shows "take (count_list L b) (drop (below L b) slots) = map of_nat (syms_at L b)"
proof -
  have "below L (Suc b) \<le> length slots" using below_le assms(2) by (rule le_trans)
  then show ?thesis using assms(1) by (intro nth_equalityI) (auto simp: length_syms_at)
qed


section \<open>The fill\<close>

lemma fill_range_ok:
  assumes "idx + len \<le> length xs"
  shows "fill_range xs idx len v = Ok (take idx xs @ replicate len v @ drop (idx + len) xs)"
  using assms by (simp add: fill_range_def)

text \<open>What is written so far, and the rest of both tables still to be overwritten.\<close>

definition filled :: "nat \<Rightarrow> (nat \<times> nat) list \<Rightarrow> fill_state \<Rightarrow> bool" where
  "filled n xs = (\<lambda>(idx, dec, packed). idx = length xs \<and> length dec = n \<and> length packed = n
     \<and> take idx dec = map entry_of xs \<and> take idx packed = map huff_packed_of xs)"

lemma filled_range:
  assumes "filled n xs (idx, dec, packed)" "length xs + len \<le> n"
  shows "\<exists>dec' packed'. fill_range dec idx len (entry_of (s, b)) = (Ok dec' :: (HuffmanTableError, _) res)
    \<and> fill_range packed idx len (huff_packed_of (s, b)) = (Ok packed' :: (HuffmanTableError, _) res)
    \<and> filled n (xs @ replicate len (s, b)) (idx + len, dec', packed')"
  using assms by (auto simp: filled_def fill_range_def)

lemma fill_symbols_ok:
  assumes "filled n xs st" "length xs + length ss * len \<le> n" "len = 2 ^ (M - b)"
  shows "\<exists>st'. fill_symbols b len (map of_nat ss) st = Ok st' \<and> filled n (xs @ spans M (map (\<lambda>s. (s, b)) ss)) st'"
  using assms(1,2)
proof (induction ss arbitrary: xs st)
  case Nil
  then show ?case by simp
next
  case (Cons s ss)
  obtain idx dec packed where st: "st = (idx, dec, packed)" by (metis prod_cases3)
  have "length xs + len \<le> n" using Cons.prems(2) by simp
  from filled_range [OF Cons.prems(1) [unfolded st] this, of s b] obtain dec' packed' where
    f: "fill_range dec idx len (entry_of (s, b)) = (Ok dec' :: (HuffmanTableError, _) res)"
      "fill_range packed idx len (huff_packed_of (s, b)) = (Ok packed' :: (HuffmanTableError, _) res)"
      "filled n (xs @ replicate len (s, b)) (idx + len, dec', packed')" by blast
  have "length (xs @ replicate len (s, b)) + length ss * len \<le> n" using Cons.prems(2) by simp
  from Cons.IH [OF f(3) this] show ?case using f(1,2) assms(3) by (simp add: st entry_of_def huff_packed_of_def)
qed

lemma fill_ranks_ok:
  assumes sl: "\<forall>b\<le>M. \<forall>j<count_list L b. slots ! (below L b + j) = of_nat (syms_at L b ! j)"
    and rb: "\<forall>b\<le>M. rank_begin ! b = below L b" "\<forall>b\<le>M. rank_next ! b = below L (Suc b)"
    and len: "M < length rank_begin" "M < length rank_next" "length L \<le> length slots"
    and st: "b \<le> M" "filled n xs st" "length xs + length (spans M (ranked L b)) \<le> n"
  shows "\<exists>st'. fill_ranks M slots rank_begin rank_next b st = Ok st' \<and> filled n (xs @ spans M (ranked L b)) st'"
  using st
proof (induction b arbitrary: xs st)
  case 0
  then show ?case by simp
next
  case (Suc b)
  let ?ss = "syms_at L (Suc b)"
  have "below L (Suc (Suc b)) \<le> length slots" using below_le len(3) by (rule le_trans)
  moreover have "take (count_list L (Suc b)) (drop (below L (Suc b)) slots) = map of_nat ?ss"
    by (rule sorted_slice) (use sl len(3) Suc.prems(1) in auto)
  moreover have "length xs + length ?ss * 2 ^ (M - Suc b) \<le> n" "push_bit (M - Suc b) 1 = (2 ^ (M - Suc b) :: nat)"
    using Suc.prems(3) by (simp_all add: length_spans_same push_bit_eq_mult)
  ultimately obtain st1 where "fill_symbols (Suc b) (push_bit (M - Suc b) 1) (take (count_list L (Suc b)) (drop (below L (Suc b)) slots)) st = Ok st1"
    "filled n (xs @ spans M (map (\<lambda>s. (s, Suc b)) ?ss)) st1"
    using fill_symbols_ok [OF Suc.prems(2)] by metis
  moreover have "length (xs @ spans M (map (\<lambda>s. (s, Suc b)) ?ss)) + length (spans M (ranked L b)) \<le> n" "b \<le> M"
    using Suc.prems(1,3) by simp_all
  ultimately obtain st2 where "fill_ranks M slots rank_begin rank_next b st1 = Ok st2" "filled n ((xs @ spans M (map (\<lambda>s. (s, Suc b)) ?ss)) @ spans M (ranked L b)) st2"
    using Suc.IH by blast
  then show ?case
    using Suc.prems(1) rb len \<open>below L (Suc (Suc b)) \<le> length slots\<close> \<open>fill_symbols _ _ _ _ = _\<close> by simp
qed

lemma sum_counts: "\<forall>l\<in>set L. l < n \<Longrightarrow> sum_list (map (count_list L) [0..<n]) = length L"
proof -
  have "sum_list (map (count_list L) [0..<n]) = below L n" by (induction n) simp_all
  then show "\<forall>l\<in>set L. l < n \<Longrightarrow> ?thesis" by (simp add: below_filter)
qed

lemma fill_decode_tables_ok:
  assumes ok: "lengths_ok L M" and t: "ht_bits t = L" "ht_max_num_bits t = M" "length (ht_decode t) = 2 ^ M"
    "ht_bit_ranks t = map (count_list L) [0..<Suc M]"
  shows "\<exists>t'. fill_decode_tables t = Ok t' \<and> table_built L M t' \<and> ht_weights t' = ht_weights t
    \<and> ht_x2 t' = ht_x2 t \<and> ht_fse_table t' = ht_fse_table t"
proof -
  have M: "M \<le> 11" "length L \<le> 256" "\<forall>l\<in>set L. l < Suc M" using ok by (auto simp: lengths_ok_def list_all_iff)
  have "sum_list (map (count_list L) [0..<i]) = below L i" for i by (induction i) simp_all
  then have pre: "sum_list (take i (map (count_list L) [0..<Suc M])) = below L i" if "i \<le> Suc M" for i
    using that by (simp add: take_map min_def del: upt_Suc)
  have "0 + length (map (count_list L) [0..<Suc M]) \<le> length (replicate 12 (0::nat))" using M(1) by simp
  from begin_ranks_ok [OF this, of 0] obtain rb where
    rb: "begin_ranks (map (count_list L) [0..<Suc M]) 0 0 (replicate 12 0) = Ok (length L, rb)" "length rb = 12"
      and "\<forall>i<Suc M. rb ! i = sum_list (take i (map (count_list L) [0..<Suc M]))"
    using sum_counts [OF M(3)] by (auto simp del: upt_Suc)
  then have b: "\<forall>b<Suc M. rb ! b = below L b" using pre by (simp del: upt_Suc)
  have "\<exists>nxt' slots'. sort_symbols L (length ([] :: nat list)) rb (replicate 256 0) = Ok (nxt', slots') \<and> length nxt' = length rb
    \<and> length slots' = length (replicate 256 (0 :: u8)) \<and> (\<forall>b<Suc M. nxt' ! b = below L (Suc b)
      \<and> (\<forall>j<count_list L b. slots' ! (below L b + j) = of_nat (syms_at L b ! j)))"
    using M rb(2) b by (intro sort_symbols_ok) auto
  then obtain nxt slots where s: "sort_symbols L 0 rb (replicate 256 0) = Ok (nxt, slots)" "length nxt = 12" "length slots = 256"
    "\<forall>b<Suc M. nxt ! b = below L (Suc b)" "\<forall>b<Suc M. \<forall>j<count_list L b. slots ! (below L b + j) = of_nat (syms_at L b ! j)"
    using rb(2) by auto
  have "\<exists>st'. fill_ranks M slots rb nxt M (0, ht_decode t, replicate (length (ht_decode t)) 0) = Ok st' \<and> filled (2 ^ M) ([] @ spans M (ranked L M)) st'"
    using s b M rb(2) t(3) length_table [OF ok] by (intro fill_ranks_ok) (auto simp: filled_def)
  then obtain idx dec packed where "fill_ranks M slots rb nxt M (0, ht_decode t, replicate (length (ht_decode t)) 0) = Ok (idx, dec, packed)"
    "filled (2 ^ M) (spans M (ranked L M)) (idx, dec, packed)" by auto
  then show ?thesis
    using rb(1) s(1) t length_table [OF ok]
    by (auto simp: fill_decode_tables_def filled_def table_built_def simp del: upt_Suc)
qed

section \<open>The code lengths\<close>

definition share :: "nat list \<Rightarrow> nat" where
  "share ws = sum_list (map (\<lambda>w. if w = 0 then 0 else 2 ^ (w - 1)) ws)"

definition length_of :: "nat \<Rightarrow> nat \<Rightarrow> nat" where
  "length_of M w = (if w = 0 then 0 else M + 1 - w)"

text \<open>The weights with the inferred last one fill the code space of \<open>M\<close> bits exactly.\<close>

definition full_tree :: "nat list \<Rightarrow> nat \<Rightarrow> nat \<Rightarrow> bool" where
  "full_tree ws lw M \<longleftrightarrow> list_all (\<lambda>w. w \<le> 11) ws \<and> 0 < share ws \<and> 1 \<le> lw \<and> M \<le> 11
     \<and> share (ws @ [lw]) = 2 ^ M \<and> 2 \<le> count_list (ws @ [lw]) 1"

lemma share_simps [simp]:
  "share [] = 0" "share (w # ws) = (if w = 0 then 0 else 2 ^ (w - 1)) + share ws" "share (ws @ vs) = share ws + share vs"
  by (simp_all add: share_def)

lemma share_member: "w \<in> set ws \<Longrightarrow> 0 < w \<Longrightarrow> 2 ^ (w - 1) \<le> share ws"
  by (induction ws) auto

lemma share_parity: "share ws mod 2 = count_list ws 1 mod 2"
proof (induction ws)
  case (Cons w ws)
  consider "w = 0" | "w = 1" | v where "w = Suc (Suc v)" by (metis One_nat_def not0_implies_Suc)
  then show ?case using Cons by cases (simp_all add: mod_Suc)
qed simp

lemma sum_weights_ok:
  assumes "s + 1024 * length ws < 2 ^ 32"
  shows "if list_all (\<lambda>w. w \<le> 11) ws then sum_weights ws s n = Ok (s + share ws, n + count_list ws 1)
    else \<exists>w. sum_weights ws s n = Err (WeightBiggerThanMaxNumBits w)"
  using assms
proof (induction ws arbitrary: s n)
  case (Cons w ws)
  let ?s = "s + (if w > 0 then push_bit (w - 1) 1 else 0)"
  show ?case
  proof (cases "w \<le> 11")
    case True
    have "(2::nat) ^ (w - 1) \<le> 2 ^ 10" by (rule power_increasing) (use True in auto)
    then have s: "?s + 1024 * length ws < 2 ^ 32" "?s = s + (if w = 0 then 0 else 2 ^ (w - 1))"
      using Cons.prems by (auto simp: push_bit_eq_mult)
    then have "?s < 2 ^ 32" by linarith
    then have "sum_weights (w # ws) s n = sum_weights ws ?s (n + of_bool (w = 1))"
      using True by (simp add: MAX_MAX_NUM_BITS_def Let_def)
    then show ?thesis using Cons.IH [OF s(1), of "n + of_bool (w = 1)"] True s(2) by auto
  qed (simp add: MAX_MAX_NUM_BITS_def)
qed simp

lemma lengths_of_ok: "\<forall>w\<in>set ws. w \<le> M + 1 \<Longrightarrow> lengths_of M ws = Ok (map (length_of M) ws)"
  by (induction ws) (simp_all add: length_of_def)

lemma full_tree_top:
  assumes "full_tree ws lw M"
  shows "ilog2 (share ws) = M - 1" "1 \<le> M" "lw \<le> M" "\<forall>w\<in>set ws. w \<le> M"
proof -
  have f: "0 < share ws" "share ws + 2 ^ (lw - 1) = 2 ^ M" "1 \<le> lw" using assms by (auto simp: full_tree_def)
  have "(1::nat) \<le> 2 ^ (lw - 1)" by simp
  then have "1 < (2::nat) ^ M" using f(1,2) by linarith
  then show M: "1 \<le> M" by (cases M) auto
  then have M2: "(2::nat) ^ M = 2 ^ (M - 1) + 2 ^ (M - 1)" by (cases M) auto
  have "(2::nat) ^ (lw - 1) < 2 ^ M" using f(1,2) by linarith
  then have "lw - 1 < M" by (simp only: power_strict_increasing_iff one_less_numeral_iff semiring_norm)
  then show "lw \<le> M" by simp
  from \<open>lw - 1 < M\<close> have "(2::nat) ^ (lw - 1) \<le> 2 ^ (M - 1)" by (intro power_increasing) auto
  then have "2 ^ (M - 1) \<le> share ws" using f(2) M2 by linarith
  moreover have "share ws < 2 ^ M" by (simp flip: f(2))
  then have "share ws < 2 ^ Suc (M - 1)" using M by simp
  ultimately show "ilog2 (share ws) = M - 1" by (rule ilog2_eqI)
  show "\<forall>w\<in>set ws. w \<le> M"
  proof
    fix w assume w: "w \<in> set ws"
    show "w \<le> M"
    proof (cases "w = 0")
      case False
      then have "2 ^ (w - 1) \<le> share ws" using share_member [OF w] by simp
      moreover have "share ws < 2 ^ M" by (simp flip: f(2))
      ultimately have "(2::nat) ^ (w - 1) < 2 ^ M" by linarith
      then have "w - 1 < M" by (simp only: power_strict_increasing_iff one_less_numeral_iff semiring_norm)
      then show ?thesis by simp
    qed simp
  qed
qed

lemma full_tree_lengths:
  assumes "full_tree ws lw M" "length ws \<le> 255"
  shows "lengths_ok (map (length_of M) (ws @ [lw])) M"
proof -
  note top = full_tree_top [OF assms(1)]
  have le: "\<forall>w\<in>set (ws @ [lw]). w \<le> M" using top by auto
  have "kraft M (map (length_of M) vs) = share vs" if "\<forall>w\<in>set vs. w \<le> M" for vs
    using that by (induction vs) (auto simp: kraft_def length_of_def)
  from this [OF le] show ?thesis using top assms by (auto simp: lengths_ok_def full_tree_def length_of_def list_all_iff)
qed

lemma code_lengths_of_eq:
  assumes "length ws \<le> 255" "list_all (\<lambda>w. w \<le> 11) ws"
    and d: "S = share ws" "M = Suc (ilog2 S)" "left = 2 ^ M - S" "lw = Suc (ilog2 left)" "rank_one = count_list ws 1 + of_bool (lw = 1)"
  shows "code_lengths_of ws =
    (if S = 0 then Err MissingWeights else if M > 11 then Err (MaxBitsTooHigh M)
     else if \<not> is_power_of_two left then Err (LeftoverIsNotAPowerOf2 left)
     else if rank_one < 2 \<or> rank_one mod 2 = 1 then Err (InvalidWeightOneCount rank_one)
     else rbind (lengths_of M ws) (\<lambda>bs. rbind (rassert (lw \<le> M + 1)) (\<lambda>_. Ok (M, bs @ [M + 1 - lw]))))"
proof -
  have len: "(0::nat) + 1024 * length ws < 2 ^ 32" using assms(1) by simp
  have "sum_weights ws 0 0 = Ok (S, count_list ws 1)"
    using sum_weights_ok [OF len, of 0] assms(2) by (simp add: d(1))
  moreover have "S < 2 ^ M" unfolding d(2) by (rule ilog2_upper)
  ultimately show ?thesis
    by (simp add: code_lengths_of_def highest_bit_set_def MAX_MAX_NUM_BITS_def Let_def d(2-) push_bit_eq_mult)
qed

theorem code_lengths_of_cases:
  assumes "length ws \<le> 255"
  shows "(\<exists>lw M. full_tree ws lw M \<and> code_lengths_of ws = Ok (M, map (length_of M) (ws @ [lw])))
    \<or> (\<exists>e. code_lengths_of ws = Err e)"
proof (cases "list_all (\<lambda>w. w \<le> 11) ws")
  case False
  have "(0::nat) + 1024 * length ws < 2 ^ 32" using assms by simp
  from sum_weights_ok [OF this, of 0] show ?thesis using False by (auto simp: code_lengths_of_def)
next
  case True
  define S M left lw where d: "S = share ws" "M = Suc (ilog2 S)" "left = 2 ^ M - S" "lw = Suc (ilog2 left)"
  note eq = code_lengths_of_eq [OF assms True d refl]
  show ?thesis
  proof (cases "S = 0 \<or> M > 11 \<or> \<not> is_power_of_two left \<or> (count_list ws 1 + of_bool (lw = 1) < 2 \<or> (count_list ws 1 + of_bool (lw = 1)) mod 2 = 1)")
    case True
    then show ?thesis unfolding eq by auto
  next
    case False
    then have f: "0 < S" "M \<le> 11" "is_power_of_two left" "2 \<le> count_list ws 1 + of_bool (lw = 1)" by auto
    have "S < 2 ^ M" unfolding d(2) by (rule ilog2_upper)
    then have "S + 2 ^ (lw - 1) = 2 ^ M" using f(3) by (simp add: is_power_of_two_def d(3,4))
    then have t: "full_tree ws lw M" using f \<open>list_all _ ws\<close> by (auto simp: full_tree_def d(1,4))
    have "lengths_of M ws = Ok (map (length_of M) ws)" using full_tree_top(4) [OF t] by (intro lengths_of_ok) auto
    then have "code_lengths_of ws = Ok (M, map (length_of M) (ws @ [lw]))"
      unfolding eq using False full_tree_top(3) [OF t] by (auto simp: length_of_def d(4))
    then show ?thesis using t by blast
  qed
qed

theorem code_lengths_of_complete:
  assumes "length ws \<le> 255" "full_tree ws lw M"
  shows "code_lengths_of ws = Ok (M, map (length_of M) (ws @ [lw]))"
proof -
  note top = full_tree_top [OF assms(2)]
  have f: "list_all (\<lambda>w. w \<le> 11) ws" "0 < share ws" "1 \<le> lw" "M \<le> 11" "share ws + 2 ^ (lw - 1) = 2 ^ M"
    "2 \<le> count_list (ws @ [lw]) 1" "share (ws @ [lw]) = 2 ^ M" using assms(2) by (auto simp: full_tree_def)
  have M: "Suc (ilog2 (share ws)) = M" using top(1,2) by simp
  have l: "2 ^ M - share ws = 2 ^ (lw - 1)" "Suc (lw - 1) = lw" using f(3,5) by auto
  have "count_list (ws @ [lw]) 1 mod 2 = 0"
    unfolding share_parity [symmetric] f(7) using top(2) by (cases M) simp_all
  then have one: "2 \<le> count_list ws 1 + of_bool (lw = 1)" "(count_list ws 1 + of_bool (lw = 1)) mod 2 \<noteq> 1" using f(6) by auto
  have "lengths_of M ws = Ok (map (length_of M) ws)" using top(4) by (intro lengths_of_ok) auto
  then show ?thesis
    using code_lengths_of_eq [OF assms(1) f(1) refl refl refl refl refl, unfolded M l ilog2_pow2] one f(2-4) top(3)
    by (simp add: is_power_of_two_def length_of_def)
qed

section \<open>The whole build\<close>

definition above :: "nat \<Rightarrow> nat list \<Rightarrow> nat \<Rightarrow> nat" where
  "above M L b = sum_list (map (\<lambda>l. if b < l then 2 ^ (M - l) else 0) L)"

lemma above_step: "above M L b = above M L (Suc b) + count_list L (Suc b) * 2 ^ (M - Suc b)"
  unfolding above_def by (induction L) (auto simp: linorder_not_less le_Suc_eq dest: Suc_lessI)

lemma above_top: "\<forall>l\<in>set L. l \<le> M \<Longrightarrow> above M L M = 0"
  by (induction L) (auto simp: above_def)

lemma above_all: "above M L 0 = kraft M L"
  unfolding above_def kraft_def by (intro arg_cong [where f = sum_list] map_cong) auto

lemma rank_index_loop_ok:
  assumes "b \<le> M" "length idx = Suc M" "idx ! b = above M L b" "ranks = map (count_list L) [0..<Suc M]"
  shows "\<exists>r. rank_index_loop ranks M b idx = Ok r \<and> length r = Suc M \<and> r ! 0 = kraft M L"
  using assms(1-3)
proof (induction b arbitrary: idx)
  case 0
  then show ?case by (simp add: above_all)
next
  case (Suc b)
  let ?idx = "idx[b := idx ! Suc b + ranks ! Suc b * 2 ^ (M - Suc b)]"
  have r: "ranks ! Suc b = count_list L (Suc b)" "Suc b < length ranks" using Suc.prems(1) by (simp_all add: assms(4) del: upt_Suc)
  have "?idx ! b = above M L b" "b \<le> M" "length ?idx = Suc M"
    using Suc.prems r by (simp_all add: above_step [of M L b])
  from Suc.IH [OF this(2,3,1)] show ?case using Suc.prems(1,2) r(2) by (simp add: push_bit_eq_mult)
qed

lemma build_lengths_ok:
  assumes ok: "lengths_ok L M" and t: "code_lengths_of (ht_weights t) = Ok (M, L)"
  shows "\<exists>t'. build_table_from_weights t = Ok t' \<and> table_built L M t' \<and> ht_weights t' = ht_weights t
    \<and> ht_x2 t' = [] \<and> ht_fse_table t' = ht_fse_table t"
proof -
  have M: "\<forall>l\<in>set L. l < Suc M" "\<forall>l\<in>set L. l \<le> M" using ok by (auto simp: lengths_ok_def list_all_iff)
  from count_ranks_ok [of L "replicate (Suc M) 0"] M(1) obtain r where
    r: "count_ranks (replicate (Suc M) 0) L = Ok r" "length r = Suc M" "\<forall>b<Suc M. r ! b = count_list L b" by (auto simp del: replicate.simps)
  have ranks: "r = map (count_list L) [0..<Suc M]" using r(2,3) by (intro nth_equalityI) (simp_all del: upt_Suc)
  have "replicate (Suc M) 0 ! M = above M L M" using above_top [OF M(2)] by (simp del: replicate.simps)
  from rank_index_loop_ok [OF order_refl _ this ranks] obtain idx where
    i: "rank_index_loop r M M (replicate (Suc M) 0) = Ok idx" "length idx = Suc M" "idx ! 0 = 2 ^ M"
    using ok by (auto simp: lengths_ok_def)
  let ?dec = "vec_resize (ht_decode t) (2 ^ M) \<lparr>he_symbol = 0, he_num_bits = 0\<rparr>"
  let ?t = "t\<lparr>ht_x2 := [], ht_bits := L, ht_max_num_bits := M, ht_bit_ranks := r, ht_decode := ?dec, ht_rank_indexes := idx\<rparr>"
  have d: "length ?dec = 2 ^ M" by (simp add: vec_resize_def)
  then have "\<exists>t'. fill_decode_tables ?t = Ok t' \<and> table_built L M t' \<and> ht_weights t' = ht_weights ?t
    \<and> ht_x2 t' = ht_x2 ?t \<and> ht_fse_table t' = ht_fse_table ?t"
    by (intro fill_decode_tables_ok [OF ok]) (simp_all add: ranks del: upt_Suc)
  then show ?thesis using t r(1) i d
    by (simp add: build_table_from_weights_def push_bit_eq_mult del: replicate.simps)
qed

text \<open>
  C35.  Building the table succeeds exactly for weights that one last symbol completes to a full
  tree of at most eleven levels with two symbols at least on the lowest; then both views of the
  table are the described one.  Otherwise the code returns an error; it never panics.
\<close>

theorem build_table_spec:
  assumes "length (ht_weights t) \<le> 255"
  shows "(\<exists>lw M t'. full_tree (ht_weights t) lw M \<and> build_table_from_weights t = Ok t'
        \<and> table_built (map (length_of M) (ht_weights t @ [lw])) M t')
    \<or> (\<nexists>lw M. full_tree (ht_weights t) lw M) \<and> (\<exists>e. build_table_from_weights t = Err e)"
proof (cases "\<exists>lw M. full_tree (ht_weights t) lw M")
  case True
  then obtain lw M where f: "full_tree (ht_weights t) lw M" by blast
  from build_lengths_ok [OF full_tree_lengths [OF f assms] code_lengths_of_complete [OF assms f]]
  show ?thesis using f by blast
next
  case False
  then obtain e where "code_lengths_of (ht_weights t) = Err e" using code_lengths_of_cases [OF assms] by blast
  then show ?thesis using False by (simp add: build_table_from_weights_def)
qed

theorem build_table_spec_witness:
  "\<exists>t'. build_table_from_weights (ht_new\<lparr>ht_weights := [2, 1]\<rparr>) = Ok t' \<and> ht_packed t' = [0x102, 0x202, 0x001, 0x001]"
proof -
  let ?t = "ht_new\<lparr>ht_weights := [2, 1]\<rparr>"
  have f: "full_tree [2, 1] 1 2" by (simp add: full_tree_def)
  have u: "lw = 1 \<and> M = 2" if "full_tree [2, 1] lw M" for lw M
    using that code_lengths_of_complete [OF _ that] code_lengths_of_complete [OF _ f] by (auto simp: length_of_def split: if_splits)
  have "(\<exists>lw M t'. full_tree [2, 1] lw M \<and> build_table_from_weights ?t = Ok t' \<and> table_built (map (length_of M) ([2, 1] @ [lw])) M t')"
    using build_table_spec [of ?t] f by (auto simp: ht_new_def)
  then obtain t' where t: "build_table_from_weights ?t = Ok t'" "table_built (map (length_of 2) [2, 1, 1]) 2 t'"
    using u by fastforce
  have "map huff_packed_of (spans 2 (ranked (map (length_of 2) [2, 1, 1]) 2)) = [0x102, 0x202, 0x001, 0x001]"
    by code_simp
  then show ?thesis using t by (simp add: table_built_def)
qed

end
