(* ===== verification/Huff_Weights.thy ===== *)
theory Huff_Weights
  imports Huff_Table
begin

text \<open>
  Reading a Huffman tree description of any bytes: the two interleaved FSE decoders stay in their
  table, the weights that come out are at most 255, and the table built from them is well formed.
\<close>

unbundle bit_operations_syntax

section \<open>The interleaved decoders stay in their table\<close>

definition fd_safe :: "FSEDecoder \<Rightarrow> bool" where
  "fd_safe d \<longleftrightarrow> (\<exists>n. table_wf n (fd_table d)) \<and> ft_accuracy_log (fd_table d) \<le> 6 \<and> fd_state d \<in> set (ft_decode (fd_table d))"

lemma rr_get_bits_less:
  assumes "rr_inv r" "n \<le> 57"
  obtains v r' where "rr_get_bits r n = Ok (v, r')" "rr_inv r'" "unat v < 2 ^ n"
    "rr_source r' = rr_source r" "rr_bits_remaining r' = rr_bits_remaining r - int n"
proof -
  let ?b = "sbits (rr_stream r) (rr_bits_remaining r - int n) n"
  have "unat (bits_word ?b) < 2 ^ n"
    using bits_val_less [of ?b] assms(2) by (simp add: unat_bits_word)
  then show thesis using rr_get_bitsE [OF assms] that by metis
qed

lemma init_state_safe:
  assumes "table_wf n (fd_table d)" "ft_accuracy_log (fd_table d) \<le> 6" "rr_inv r"
  shows "(\<exists>e. init_state d r = Err e) \<or> (\<exists>d' r'. init_state d r = Ok (d', r') \<and> fd_safe d' \<and> rr_inv r')"
proof -
  let ?a = "ft_accuracy_log (fd_table d)"
  obtain v r' where r: "rr_get_bits r ?a = Ok (v, r')" "rr_inv r'" "unat v < 2 ^ ?a"
    by (rule rr_get_bits_less [OF assms(3), of ?a]) (use assms(2) in auto)
  have "unat v < length (ft_decode (fd_table d))" using r(3) assms(1) by (simp add: table_wf_def)
  then show ?thesis using r assms by (auto simp: init_state_def fd_safe_def)
qed

lemma update_state_safe:
  assumes "fd_safe d" "rr_inv r"
  shows "\<exists>d' r'. update_state d r = Ok (d', r') \<and> fd_safe d' \<and> rr_inv r'"
proof -
  let ?e = "fd_state d" and ?dec = "ft_decode (fd_table d)"
  obtain n where t: "table_wf n (fd_table d)" "ft_accuracy_log (fd_table d) \<le> 6" "?e \<in> set ?dec"
    using assms(1) by (auto simp: fd_safe_def)
  have e: "num_bits ?e \<le> 6" "unat (base_line ?e) + 2 ^ num_bits ?e \<le> length ?dec"
    using t by (auto simp: table_wf_def list_all_iff)
  have "length ?dec = 2 ^ ft_accuracy_log (fd_table d)" using t(1) by (simp add: table_wf_def)
  also have "\<dots> \<le> 2 ^ 6" using t(2) by (intro power_increasing) simp_all
  finally have l: "length ?dec \<le> 64" by simp
  obtain v r' where r: "rr_get_bits r (num_bits ?e) = Ok (v, r')" "rr_inv r'" "unat v < 2 ^ num_bits ?e"
    by (rule rr_get_bits_less [OF assms(2), of "num_bits ?e"]) (use e(1) in auto)
  have small: "unat (base_line ?e) + unat v < length ?dec" using e(2) r(3) by simp
  then have "unat v < 2 ^ 32" using l by simp
  then have "unat (ucast v :: u32) = unat v" by (simp add: unsigned_ucast_eq take_bit_nat_eq_self)
  then have "unat (base_line ?e + ucast v) = unat (base_line ?e) + unat v"
    using small l by (simp add: unat_word_ariths(1))
  then show ?thesis using small r t by (auto simp: update_state_def fd_safe_def)
qed

lemma weight_turn_safe:
  assumes "fd_safe d" "rr_inv r"
  shows "\<exists>d' r'. weight_turn d r ws = Ok (d', r', ws @ [decode_symbol d]) \<and> fd_safe d' \<and> rr_inv r'"
  using update_state_safe [OF assms] by (auto simp: weight_turn_def)

lemma weights_loop_safe:
  assumes "fd_safe d1" "fd_safe d2" "rr_inv r"
  shows "weights_loop d1 d2 r ws \<noteq> Panic"
  using assms
proof (induction d1 d2 r ws rule: weights_loop.induct)
  case (1 d1 d2 r ws)
  from weight_turn_safe [OF "1.prems"(1,3)] obtain d1' r1 where
    t1: "weight_turn d1 r ws = Ok (d1', r1, ws @ [decode_symbol d1])" "fd_safe d1'" "rr_inv r1" by metis
  from weight_turn_safe [OF "1.prems"(2) t1(3)] obtain d2' r2 where
    t2: "weight_turn d2 r1 (ws @ [decode_symbol d1]) = Ok (d2', r2, (ws @ [decode_symbol d1]) @ [decode_symbol d2])"
    "fd_safe d2'" "rr_inv r2" by metis
  from "1.IH" [OF t1(1) refl refl _ t2(1) refl refl _ _ t1(2) t2(2,3)] show ?case
    by (subst weights_loop.simps) (simp add: t1(1) t2(1))
qed

lemma read_fse_weights_safe:
  assumes "ft_max_symbol (ht_fse_table t) \<le> 255"
  shows "(\<exists>e. read_fse_weights t header stream = Err e) \<or> (\<exists>t'. read_fse_weights t header stream = Ok (t', 8 + header * 8)
    \<and> length (ht_weights t') \<le> 255 \<and> header \<le> length stream
    \<and> ft_max_symbol (ht_fse_table t') = ft_max_symbol (ht_fse_table t))"
proof (cases "build_decoder (ht_fse_table t) stream 6")
  case Panic
  then show ?thesis using build_decoder_ok(1) [OF assms] by blast
next
  case (Err e)
  then show ?thesis by (simp add: read_fse_weights_def)
next
  case (Ok u)
  then obtain used fse where b: "build_decoder (ht_fse_table t) stream 6 = Ok (used, fse)" by (cases u) auto
  from build_decoder_ok(2) [OF assms this] obtain n where
    f: "used \<le> length stream" "table_wf n fse" "ft_accuracy_log fse \<le> 6" "ft_max_symbol fse = ft_max_symbol (ht_fse_table t)" by blast
  let ?src = "take (header - used) (drop used stream)"
  obtain found r0 where s: "rr_skip_padding_marker (rr_new ?src) = Ok (found, r0)" "rr_inv r0"
    using rr_skip_loop_correct [OF rr_inv_new, of 8 ?src] by (auto simp: rr_skip_padding_marker_def)
  show ?thesis
  proof (cases "header \<le> length stream \<and> used \<le> header \<and> found")
    case False
    then show ?thesis using b s(1) f(1) by (auto simp: read_fse_weights_def Let_def)
  next
    case True
    have n: "table_wf n (fd_table (fd_new fse))" "ft_accuracy_log (fd_table (fd_new fse)) \<le> 6" using f by (simp_all add: fd_new_def)
    have len: "length (drop used stream) \<ge> header - used" "used + (header - used) = header" using True by auto
    define rest where "rest = (\<lambda>(dec1, br). rbind (rmap_err HuffFSEDecoderError (init_state (fd_new fse) br)) (\<lambda>(dec2, br).
              rbind (weights_loop dec1 dec2 br []) (\<lambda>ws.
                if length ws > 255 then Err (TooManyWeights (length ws))
                else Ok (t\<lparr>ht_fse_table := fse, ht_weights := ws\<rparr>, 8 + header * 8))))"
    have eq: "read_fse_weights t header stream = rbind (rmap_err HuffFSEDecoderError (init_state (fd_new fse) r0)) rest"
      unfolding read_fse_weights_def Let_def b rmap_err.simps rbind.simps prod.case len(2) using True b s(1) f(1) len by (simp add: rest_def)
    show ?thesis
    proof (cases "\<exists>d1 r1. init_state (fd_new fse) r0 = Ok (d1, r1) \<and> fd_safe d1 \<and> rr_inv r1")
      case False
      then show ?thesis using init_state_safe [OF n s(2)] eq by auto
    next
      case True
      then obtain d1 r1 where d1: "init_state (fd_new fse) r0 = Ok (d1, r1)" "fd_safe d1" "rr_inv r1" by blast
      show ?thesis
      proof (cases "\<exists>d2 r2. init_state (fd_new fse) r1 = Ok (d2, r2) \<and> fd_safe d2 \<and> rr_inv r2")
        case False
        then show ?thesis using init_state_safe [OF n d1(3)] d1(1) eq by (auto simp: rest_def)
      next
        case True
        then obtain d2 r2 where d2: "init_state (fd_new fse) r1 = Ok (d2, r2)" "fd_safe d2" "rr_inv r2" by blast
        have "weights_loop d1 d2 r2 [] \<noteq> Panic" by (rule weights_loop_safe [OF d1(2) d2(2,3)])
        then show ?thesis using eq d1(1) d2(1) \<open>header \<le> length stream \<and> _\<close> f(4)
          by (cases "weights_loop d1 d2 r2 []") (auto simp: rest_def)
      qed
    qed
  qed
qed

lemma raw_weights_ok:
  assumes "(idx + n + 1) div 2 \<le> length raw"
  shows "\<exists>ws. raw_weights raw idx n = Ok ws \<and> length ws = n"
  using assms
proof (induction n arbitrary: idx)
  case (Suc n)
  have "idx div 2 < length raw" using Suc.prems by simp
  moreover obtain ws where "raw_weights raw (idx + 1) n = Ok ws" "length ws = n"
    using Suc.IH [of "idx + 1"] Suc.prems by auto
  ultimately show ?case by (simp add: raw_weight_def)
qed simp

lemma read_raw_weights_safe:
  assumes "header < 256"
  shows "(\<exists>e. read_raw_weights t header raw = Err e) \<or> (\<exists>ws. read_raw_weights t header raw
      = Ok (t\<lparr>ht_weights := ws\<rparr>, 8 + 4 * (header - 127)) \<and> length ws \<le> 255 \<and> (header - 127 + 1) div 2 \<le> length raw)"
proof -
  let ?n = "header - 127"
  have need: "(if ?n mod 2 = 0 then ?n div 2 else ?n div 2 + 1) = (?n + 1) div 2" by presburger
  show ?thesis
  proof (cases "(?n + 1) div 2 \<le> length raw")
    case True
    then obtain ws where "raw_weights raw 0 ?n = Ok ws" "length ws = ?n" using raw_weights_ok [of 0 ?n raw] by auto
    then show ?thesis using True assms unfolding read_raw_weights_def Let_def need by auto
  next
    case False
    then show ?thesis unfolding read_raw_weights_def Let_def need by simp
  qed
qed

lemma read_weights_safe:
  assumes "ft_max_symbol (ht_fse_table t) \<le> 255"
  shows "(\<exists>e. read_weights t source = Err e) \<or> (\<exists>t' n. read_weights t source = Ok (t', n)
    \<and> length (ht_weights t') \<le> 255 \<and> n \<le> length source \<and> ft_max_symbol (ht_fse_table t') = ft_max_symbol (ht_fse_table t))"
proof (cases source)
  case Nil
  then show ?thesis by (simp add: read_weights_def)
next
  case (Cons h rest)
  show ?thesis
  proof (cases "unat h \<le> 127")
    case True
    then show ?thesis using read_fse_weights_safe [OF assms, of "unat h" rest] Cons by (auto simp: read_weights_def)
  next
    case False
    have b: "(if (8 + 4 * k) mod 8 = 0 then (8 + 4 * k) div 8 else (8 + 4 * k) div 8 + 1) = 1 + (k + 1) div 2" for k :: nat
      by presburger
    have "unat h < 256" using unsigned_less [of h] by simp
    from read_raw_weights_safe [OF this, of t rest] show ?thesis
    proof (elim disjE exE conjE)
      fix ws assume "read_raw_weights t (unat h) rest = Ok (t\<lparr>ht_weights := ws\<rparr>, 8 + 4 * (unat h - 127))"
        "length ws \<le> 255" "(unat h - 127 + 1) div 2 \<le> length rest"
      then show ?thesis using False Cons b by (simp add: read_weights_def del: add_Suc_right)
    qed (use False Cons in \<open>simp add: read_weights_def\<close>)
  qed
qed

text \<open>
  C36.  Reading the tree description of any bytes never panics and never reads behind the source;
  when it succeeds, the decoding table is the described one for code lengths that fill their code
  space exactly.
\<close>

theorem huff_build_decoder_safe:
  assumes "ft_max_symbol (ht_fse_table t) \<le> 255"
  shows "(\<exists>e. ht_build_decoder t source = Err e) \<or> (\<exists>n t' L M. ht_build_decoder t source = Ok (n, t')
    \<and> n \<le> length source \<and> lengths_ok L M \<and> table_built L M t' \<and> ft_max_symbol (ht_fse_table t') = ft_max_symbol (ht_fse_table t))"
proof -
  have "ft_max_symbol (ht_fse_table (t\<lparr>ht_decode := [], ht_packed := []\<rparr>)) \<le> 255" using assms by simp
  from read_weights_safe [OF this, of source] show ?thesis
  proof (elim disjE exE conjE)
    fix t1 n assume r: "read_weights (t\<lparr>ht_decode := [], ht_packed := []\<rparr>) source = Ok (t1, n)"
      "length (ht_weights t1) \<le> 255" "n \<le> length source"
      "ft_max_symbol (ht_fse_table t1) = ft_max_symbol (ht_fse_table (t\<lparr>ht_decode := [], ht_packed := []\<rparr>))"
    show ?thesis
    proof (cases "\<exists>lw M. full_tree (ht_weights t1) lw M")
      case False
      then show ?thesis using code_lengths_of_cases [OF r(2)] r(1)
        by (auto simp: ht_build_decoder_def build_table_from_weights_def)
    next
      case True
      then obtain lw M where f: "full_tree (ht_weights t1) lw M" by blast
      note ok = full_tree_lengths [OF f r(2)]
      from build_lengths_ok [OF ok code_lengths_of_complete [OF r(2) f]] show ?thesis
        using r ok by (fastforce simp: ht_build_decoder_def)
    qed
  qed (simp add: ht_build_decoder_def)
qed

theorem huff_build_decoder_safe_witness:
  "(\<exists>e. ht_build_decoder ht_new [0x81, 0x21] = Err e) \<or> (\<exists>n t' L M. ht_build_decoder ht_new [0x81, 0x21] = Ok (n, t')
    \<and> n \<le> 2 \<and> lengths_ok L M \<and> table_built L M t')"
  using huff_build_decoder_safe [of ht_new "[0x81, 0x21]"] by (auto simp: ht_new_def ft_new_def)

end
