(* ===== verification/Huff_Encoder.thy ===== *)
theory Huff_Encoder
  imports Packed_Writer Fse_Normalize
begin

text \<open>
  The Huffman encoding side, \<open>huff0/huff0_encoder.rs\<close>: canonical codes from weights, the queries
  the literals coder asks of a table, the one- and four-stream encoders and the serialized weight
  description.  The buffers a table recycles are parameters with arbitrary content.
\<close>

unbundle bit_operations_syntax

section \<open>Codes from weights\<close>

definition MAX_CODE_LENGTH :: nat where
  "MAX_CODE_LENGTH = 11"

record HuffEncTable =
  het_nsym :: nat
  het_packed :: "u16 list"
  het_aligned :: "u64 list"
  het_uniform_nb :: nat

fun bucket_counts :: "nat list \<Rightarrow> nat list \<Rightarrow> (unit, nat list) res" where
  "bucket_counts [] cs = Ok cs"
| "bucket_counts (w # ws) cs = rbind (rindex cs w) (\<lambda>c. bucket_counts ws (cs[w := c + 1]))"

text \<open>Bucket starts, and whether all live symbols share one weight.\<close>

fun bucket_scan :: "nat list \<Rightarrow> nat \<Rightarrow> nat \<Rightarrow> nat \<Rightarrow> bool \<Rightarrow> nat list \<times> nat \<times> nat \<times> bool" where
  "bucket_scan [] weight tot uniform_w uniform = ([], tot, uniform_w, uniform)"
| "bucket_scan (c # cs) weight tot uniform_w uniform =
     (let (uw, u) = (if c \<noteq> 0 then if uniform_w = 0 then (weight, uniform) else (uniform_w, False)
                     else (uniform_w, uniform));
          (starts, r) = bucket_scan cs (weight + 1) (tot + c) uw u
      in (tot # starts, r))"

fun bucket_sort :: "nat list \<Rightarrow> nat \<Rightarrow> nat list \<Rightarrow> bytes \<Rightarrow> (unit, bytes) res" where
  "bucket_sort [] sy cursor slots = Ok slots"
| "bucket_sort (w # ws) sy cursor slots =
     (if w \<noteq> 0 then
        rbind (rindex cursor w) (\<lambda>p. rbind (rindex slots p) (\<lambda>_.
          bucket_sort ws (sy + 1) (cursor[w := p + 1]) (slots[p := of_nat sy])))
      else bucket_sort ws (sy + 1) cursor slots)"

fun assign_bucket :: "nat \<Rightarrow> bytes \<Rightarrow> nat \<Rightarrow> u16 list \<Rightarrow> u64 list \<Rightarrow> (unit, nat \<times> u16 list \<times> u64 list) res" where
  "assign_bucket nb [] code packed aligned = Ok (code, packed, aligned)"
| "assign_bucket nb (s # ss) code packed aligned =
     rbind (rassert (nb \<le> 11 \<and> code \<le> 0xfff)) (\<lambda>_.
     rbind (rindex packed (unat s)) (\<lambda>_. rbind (rindex aligned (unat s)) (\<lambda>_.
     rbind (rassert (0 < nb)) (\<lambda>_.
       assign_bucket nb ss (code + 1)
         (packed[unat s := of_nat (push_bit 4 code OR nb)])
         (aligned[unat s := push_bit (64 - nb) (of_nat code) OR of_nat nb])))))"

text \<open>The buckets from weight \<open>weight\<close> up; the code shifts by the distance of the weights.\<close>

fun assign_codes ::
  "nat \<Rightarrow> bytes \<Rightarrow> nat list \<Rightarrow> nat list \<Rightarrow> nat \<Rightarrow> nat \<Rightarrow> nat \<Rightarrow> u16 list \<Rightarrow> u64 list \<Rightarrow> (unit, u16 list \<times> u64 list) res" where
  "assign_codes max_num_bits slots (start # starts) (c # cs) weight code current_weight packed aligned =
     (if c = 0 then assign_codes max_num_bits slots starts cs (weight + 1) code current_weight packed aligned
      else
        let code = drop_bit (weight - current_weight) code in
        rbind (rassert (weight \<le> max_num_bits)) (\<lambda>_.
        rbind (rassert (start + c \<le> length slots)) (\<lambda>_.
        rbind (assign_bucket (max_num_bits - weight + 1) (take c (drop start slots)) code packed aligned)
          (\<lambda>(code, packed, aligned).
            assign_codes max_num_bits slots starts cs (weight + 1) code weight packed aligned))))"
| "assign_codes max_num_bits slots _ _ weight code current_weight packed aligned = Ok (packed, aligned)"

definition weight_sum :: "nat list \<Rightarrow> nat" where
  "weight_sum counts = sum_list (map (\<lambda>w. push_bit (w - 1) (counts ! w)) [1..<MAX_CODE_LENGTH + 1])"

definition build_from_weights_slice :: "nat list \<Rightarrow> u64 list \<Rightarrow> (unit, HuffEncTable) res" where
  "build_from_weights_slice weights aligned =
     rbind (rassert (list_all (\<lambda>w. w \<le> MAX_CODE_LENGTH) weights)) (\<lambda>_.
     rbind (bucket_counts weights (replicate (MAX_CODE_LENGTH + 1) 0)) (\<lambda>counts.
     let (starts, tot, uniform_w, uniform) = bucket_scan (tl counts) 1 0 0 True in
     rbind (bucket_sort weights 0 (0 # starts) (replicate 256 0)) (\<lambda>slots.
     let wsum = weight_sum counts in
     rbind (rassert (0 < wsum \<and> wsum = 2 ^ ilog2 wsum)) (\<lambda>_.
     let max_num_bits = ilog2 wsum in
     rbind (assign_codes max_num_bits slots starts (tl counts) 1 0 0 (replicate 256 0) aligned) (\<lambda>(packed, aligned).
     rbind (if uniform \<and> tot \<ge> 2
            then rbind (rassert (uniform_w \<le> max_num_bits)) (\<lambda>_. Ok (max_num_bits - uniform_w + 1)) else Ok 0) (\<lambda>uniform_nb.
       Ok \<lparr>het_nsym = length weights, het_packed = packed, het_aligned = aligned, het_uniform_nb = uniform_nb\<rparr>))))))"

definition build_from_weights :: "nat list \<Rightarrow> (unit, HuffEncTable) res" where
  "build_from_weights weights =
     rbind (rassert (list_all (\<lambda>w. w \<le> MAX_CODE_LENGTH) weights)) (\<lambda>_.
     rbind (rassert (length weights \<le> 256)) (\<lambda>_.
       build_from_weights_slice (map (\<lambda>w. w mod 256) weights) (replicate 256 0)))"

definition build_from_code_lengths :: "nat list \<Rightarrow> (unit, HuffEncTable) res" where
  "build_from_code_lengths lengths =
     (let max_len = (if lengths = [] then 1 else Max (set lengths)) in
      build_from_weights (map (\<lambda>len. if len = 0 then 0 else max_len - len + 1) lengths))"

section \<open>Queries\<close>

definition packed_nb :: "HuffEncTable \<Rightarrow> nat \<Rightarrow> (unit, nat) res" where
  "packed_nb t s = rbind (rindex (het_packed t) s) (\<lambda>p. Ok (unat (p AND 0xf)))"

definition code_lengths :: "HuffEncTable \<Rightarrow> nat list" where
  "code_lengths t = map (\<lambda>p. unat (p AND 0xf)) (het_packed t)"

definition code_bits :: "HuffEncTable \<Rightarrow> u8 \<Rightarrow> (unit, nat) res" where
  "code_bits t s = packed_nb t (unat s)"

fun price :: "HuffEncTable \<Rightarrow> nat \<Rightarrow> nat list \<Rightarrow> (unit, nat) res" where
  "price t s [] = Ok 0"
| "price t s (c # cs) = rbind (packed_nb t s) (\<lambda>nb. rbind (price t (s + 1) cs) (\<lambda>r. Ok (c * nb + r)))"

definition estimate_compressed_size :: "HuffEncTable \<Rightarrow> nat list \<Rightarrow> (unit, nat) res" where
  "estimate_compressed_size t counts = rbind (price t 0 counts) (\<lambda>p. Ok ((p + 7) div 8))"

definition write_weights_into :: "HuffEncTable \<Rightarrow> (unit, nat list) res" where
  "write_weights_into t =
     (let lens = map (\<lambda>s. unat (het_packed t ! s AND 0xf)) [0..<het_nsym t] in
      rbind (rassert (het_nsym t \<le> length (het_packed t) \<and> lens \<noteq> [])) (\<lambda>_.
        Ok (map (\<lambda>nb. if nb = 0 then 0 else Max (set lens) - nb + 1) lens)))"

fun encodable_sum :: "HuffEncTable \<Rightarrow> HuffEncTable \<Rightarrow> nat list \<Rightarrow> nat \<Rightarrow> (unit, nat option) res" where
  "encodable_sum self other [] acc = Ok (Some acc)"
| "encodable_sum self other (s # ss) acc =
     rbind (packed_nb other s) (\<lambda>other_nb. rbind (packed_nb self s) (\<lambda>self_nb.
       if other_nb \<noteq> 0 \<and> self_nb = 0 then Ok None
       else encodable_sum self other ss (acc + (max other_nb self_nb - min other_nb self_nb))))"

definition can_encode :: "HuffEncTable \<Rightarrow> HuffEncTable \<Rightarrow> (unit, nat option) res" where
  "can_encode self other =
     (if het_nsym other > het_nsym self then Ok None else encodable_sum self other [0..<het_nsym other] 0)"

section \<open>Streams\<close>

definition huff_encode_stream :: "HuffEncTable \<Rightarrow> bytes \<Rightarrow> BitWriter \<Rightarrow> (unit, BitWriter) res" where
  "huff_encode_stream t dat w =
     rbind (write_packed_codes_rev (het_packed t) (het_aligned t) (of_nat (het_uniform_nb t)) dat w) (\<lambda>w.
     let bits_to_fill = bw_misaligned w in
     if bits_to_fill = 0 then bw_write_bits w 1 8 else bw_write_bits w 1 bits_to_fill)"

text \<open>The stream and its size in bytes.\<close>

definition sized_stream :: "HuffEncTable \<Rightarrow> bytes \<Rightarrow> BitWriter \<Rightarrow> (unit, nat \<times> BitWriter) res" where
  "sized_stream t dat w =
     (let index_before = bw_index w in
      rbind (huff_encode_stream t dat w) (\<lambda>w. Ok ((bw_index w - index_before) div 8, w)))"

definition encode4x_only :: "HuffEncTable \<Rightarrow> bytes \<Rightarrow> BitWriter \<Rightarrow> (unit, BitWriter) res" where
  "encode4x_only t dat w =
     rbind (rassert (length dat \<ge> 6)) (\<lambda>_.
     let split_size = (length dat + 3) div 4 in
     rbind (rassert (split_size * 3 \<le> length dat)) (\<lambda>_.
     let src1 = take split_size dat;
         src2 = take split_size (drop split_size dat);
         src3 = take split_size (drop (split_size * 2) dat);
         src4 = drop (split_size * 3) dat;
         size_idx = bw_index w
     in rbind (bw_write_bits w 0 16) (\<lambda>w. rbind (bw_write_bits w 0 16) (\<lambda>w. rbind (bw_write_bits w 0 16) (\<lambda>w.
        rbind (sized_stream t src1 w) (\<lambda>(size1, w).
        rbind (sized_stream t src2 w) (\<lambda>(size2, w).
        rbind (sized_stream t src3 w) (\<lambda>(size3, w).
        rbind (huff_encode_stream t src4 w) (\<lambda>w.
        rbind (rassert (size1 < 2 ^ 16 \<and> size2 < 2 ^ 16 \<and> size3 < 2 ^ 16)) (\<lambda>_.
        rbind (bw_change_bits_64 w size_idx (of_nat size1) 16) (\<lambda>w.
        rbind (bw_change_bits_64 w (size_idx + 16) (of_nat size2) 16) (\<lambda>w.
          bw_change_bits_64 w (size_idx + 32) (of_nat size3) 16))))))))))))"

section \<open>The weight description\<close>

text \<open>A buffer of its own takes the FSE form; the encoder's pooled buffers are parameters.\<close>

type_synonym fse_pool = "bytes \<times> bytes \<times> FseHead \<times> nat list"

definition pooled_table :: "fse_pool \<Rightarrow> int list \<Rightarrow> nat \<Rightarrow> (unit, EncTable) res" where
  "pooled_table pool norm table_log =
     (case pool of (owner, spread, head, st) \<Rightarrow> build_table_from_probabilities_into norm table_log owner spread head st)"

definition write_fse_weights :: "EncTable \<Rightarrow> nat list \<Rightarrow> (unit, bytes) res" where
  "write_fse_weights table weights =
     rbind (encode_interleaved table weights (bw_from [])) (\<lambda>w. rbind (bw_flush w) (\<lambda>w. Ok (bw_output w)))"

fun weight_counts :: "nat list \<Rightarrow> nat list \<Rightarrow> nat \<Rightarrow> nat \<Rightarrow> (unit, nat list \<times> nat \<times> nat) res" where
  "weight_counts [] counts max_w max_count = Ok (counts, max_w, max_count)"
| "weight_counts (w # ws) counts max_w max_count =
     rbind (rindex counts w) (\<lambda>c.
       weight_counts ws (counts[w := c + 1]) (max max_w w) (max max_count (c + 1)))"

fun raw_pairs :: "nat list \<Rightarrow> bytes" where
  "raw_pairs (a # b # ws) = (push_bit 4 (of_nat a) OR of_nat b) # raw_pairs ws"
| "raw_pairs [a] = [push_bit 4 (of_nat a)]"
| "raw_pairs [] = []"

definition raw_desc :: "nat list \<Rightarrow> (unit, bytes) res" where
  "raw_desc weights =
     rbind (rassert (length weights \<le> 128)) (\<lambda>_. Ok (of_nat (length weights + 127) # raw_pairs weights))"

definition fse_desc :: "fse_pool \<Rightarrow> nat list \<Rightarrow> (unit, bytes option) res" where
  "fse_desc pool weights =
     (let n = length weights in
      rbind (weight_counts weights (replicate (MAX_CODE_LENGTH + 1) 0) 0 0) (\<lambda>(counts, max_w, max_count).
      rbind
        (if max_count \<noteq> n \<and> max_count > 1 then
           rbind (optimal_table_log 6 n max_w) (\<lambda>table_log. normalize_count table_log (take (max_w + 1) counts) n False)
         else Ok None) (\<lambda>normalized.
      case normalized of
        Some norm \<Rightarrow>
          rbind (optimal_table_log 6 n max_w) (\<lambda>table_log.
          rbind (pooled_table pool norm table_log) (\<lambda>table.
          rbind (write_fse_weights table weights) (\<lambda>fse.
            let fse_len = length fse in
            if fse_len > 1 \<and> fse_len < 128 \<and> (fse_len < n div 2 \<or> n > 128)
            then Ok (Some (of_nat fse_len # fse)) else Ok None)))
      | None \<Rightarrow>
          if n > 128 then
            let phantom = (if max_w = MAX_CODE_LENGTH then MAX_CODE_LENGTH - 1 else max_w + 1);
                norm = (replicate (MAX_CODE_LENGTH + 1) 0)[max_w := 31, phantom := 1] in
            rbind (pooled_table pool (take (max phantom max_w + 1) norm) 5) (\<lambda>table.
            rbind (write_fse_weights table weights) (\<lambda>fse.
              let fse_len = length fse in
              if fse_len < 128 then Ok (Some (of_nat fse_len # fse)) else Ok None))
          else Ok None)))"

definition write_table_desc :: "HuffEncTable \<Rightarrow> fse_pool \<Rightarrow> (unit, bytes) res" where
  "write_table_desc t pool =
     rbind (write_weights_into t) (\<lambda>wire.
     let weights = butlast wire in
     rbind (if length weights \<ge> 4 then fse_desc pool weights else Ok None) (\<lambda>d.
     case d of Some desc \<Rightarrow> Ok desc | None \<Rightarrow> raw_desc weights))"

end
