(* ===== verification/Huff_Codes.thy ===== *)
theory Huff_Codes
  imports Huff_Encoder Huff_Table
begin

text \<open>
  The canonical code of a set of code lengths, as the prefix of a symbol's span in the decoding
  table, and the proof that the encoder's table of \<open>build_from_weights_slice\<close> holds these codes in
  both of its forms.
\<close>

unbundle bit_operations_syntax

section \<open>Canonical codes\<close>

definition rank_in :: "nat list \<Rightarrow> nat \<Rightarrow> nat" where
  "rank_in L s = count_list (take s L) (L ! s)"

definition code_of :: "nat list \<Rightarrow> nat \<Rightarrow> nat \<Rightarrow> nat" where
  "code_of L M s = above M L (L ! s) div 2 ^ (M - L ! s) + rank_in L s"

definition huff_code :: "nat list \<Rightarrow> nat \<Rightarrow> u8 \<Rightarrow> bits" where
  "huff_code L M s = val_bits (L ! unat s) (code_of L M (unat s))"

lemma rank_in_less: "s < length L \<Longrightarrow> rank_in L s < count_list L (L ! s)"
proof -
  assume s: "s < length L"
  have "L = take s L @ L ! s # drop (Suc s) L" using s by (rule id_take_nth_drop)
  then have "count_list L (L ! s) = count_list (take s L @ L ! s # drop (Suc s) L) (L ! s)" by (rule arg_cong)
  then show ?thesis by (simp add: rank_in_def)
qed

lemma syms_at_rank: "s < length L \<Longrightarrow> syms_at L (L ! s) ! rank_in L s = s"
proof -
  assume s: "s < length L"
  have pre: "take s L @ [L ! s] @ drop (Suc s) L = L" using s by (simp add: id_take_nth_drop [symmetric])
  have more: "\<exists>ys. syms_at (xs @ ys') b = syms_at xs b @ ys" for xs ys' b
  proof (induction ys' rule: rev_induct)
    case (snoc y ys')
    then show ?case by (auto simp: syms_at_snoc simp flip: append_assoc) (metis append_assoc)
  qed simp
  obtain ys where "syms_at ((take s L @ [L ! s]) @ drop (Suc s) L) (L ! s) = syms_at (take s L @ [L ! s]) (L ! s) @ ys" using more by blast
  then have "syms_at L (L ! s) = (syms_at (take s L) (L ! s) @ [s]) @ ys" using s pre by (simp add: syms_at_snoc)
  then show ?thesis by (simp add: rank_in_def nth_append flip: length_syms_at)
qed

lemma rank_in_syms: "i < count_list L b \<Longrightarrow> rank_in L (syms_at L b ! i) = i"
proof -
  assume i: "i < count_list L b"
  let ?s = "syms_at L b ! i"
  have "?s \<in> set (syms_at L b)" using i by (simp add: length_syms_at)
  then have s: "?s < length L" "L ! ?s = b" by (simp_all add: set_syms_at)
  have "syms_at L b ! rank_in L ?s = ?s" "rank_in L ?s < count_list L b" using syms_at_rank [OF s(1)] rank_in_less [OF s(1)] s(2) by auto
  moreover have "distinct (syms_at L b)" by (simp add: syms_at_def)
  ultimately show ?thesis using i by (simp add: nth_eq_iff_index_eq length_syms_at)
qed

lemma above_split:
  assumes "b \<le> M"
  shows "2 ^ (M - b) dvd (sum_list (map (\<lambda>l. if l = 0 \<or> b < l then 0 else 2 ^ (M - l)) L) :: nat)"
    "kraft M L = above M L b + sum_list (map (\<lambda>l. if l = 0 \<or> b < l then 0 else 2 ^ (M - l)) L)"
proof -
  show "2 ^ (M - b) dvd (sum_list (map (\<lambda>l. if l = 0 \<or> b < l then 0 else 2 ^ (M - l)) L) :: nat)"
    by (induction L) (auto intro!: dvd_add le_imp_power_dvd)
  show "kraft M L = above M L b + sum_list (map (\<lambda>l. if l = 0 \<or> b < l then 0 else 2 ^ (M - l)) L)"
    unfolding kraft_def above_def by (induction L) auto
qed

lemma above_dvd:
  assumes "lengths_ok L M" "b \<le> M"
  shows "2 ^ (M - b) dvd above M L b"
proof -
  have "2 ^ (M - b) dvd kraft M L" using assms by (simp add: lengths_ok_def le_imp_power_dvd)
  then show ?thesis unfolding above_split(2) [OF assms(2)] using dvd_add_left_iff [OF above_split(1) [OF assms(2)]] by blast
qed

lemma code_span:
  assumes "lengths_ok L M" "s < length L" "0 < L ! s"
  shows "code_of L M s * 2 ^ (M - L ! s) = above M L (L ! s) + rank_in L s * 2 ^ (M - L ! s)"
    "L ! s \<le> M" "code_of L M s < 2 ^ (L ! s)"
proof -
  let ?b = "L ! s"
  show b: "?b \<le> M" using assms by (simp add: lengths_ok_def list_all_length)
  from above_dvd [OF assms(1) this] show eq: "code_of L M s * 2 ^ (M - ?b) = above M L ?b + rank_in L s * 2 ^ (M - ?b)"
    by (simp add: code_of_def algebra_simps)
  obtain c where c: "?b = Suc c" using assms(3) by (cases ?b) auto
  have "rank_in L s * 2 ^ (M - ?b) < count_list L ?b * 2 ^ (M - ?b)" using rank_in_less [OF assms(2)] by simp
  also have "above M L ?b + count_list L ?b * 2 ^ (M - ?b) = above M L c" unfolding c above_step [of M L c] by simp
  then have "count_list L ?b * 2 ^ (M - ?b) = above M L c - above M L ?b" by simp
  finally have "code_of L M s * 2 ^ (M - ?b) < above M L c" unfolding eq by simp
  also have "above M L c \<le> kraft M L" using above_split(2) [of c M L] b c by simp
  also have "kraft M L = 2 ^ ?b * 2 ^ (M - ?b)" using assms(1) b by (simp add: lengths_ok_def flip: power_add)
  finally show "code_of L M s < 2 ^ ?b" by simp
qed

text \<open>The entries of a span, and only they, begin with the code of its symbol.\<close>

lemma ranked_split:
  assumes "b \<le> M" "\<forall>l\<in>set L. l \<le> M"
  shows "\<exists>pre. ranked L M = pre @ ranked L b \<and> length (spans M pre) = above M L b"
  using assms(1)
proof (induction b rule: inc_induct)
  case base
  show ?case using above_top [OF assms(2)] by simp
next
  case (step n)
  then obtain pre where "ranked L M = pre @ ranked L (Suc n)" "length (spans M pre) = above M L (Suc n)" by blast
  then show ?case
    by (intro exI [of _ "pre @ map (\<lambda>s. (s, Suc n)) (syms_at L (Suc n))"])
      (simp add: above_step [of M L n] length_spans_same length_syms_at)
qed

lemma spans_same_nth:
  assumes "r < length ss" "r * 2 ^ (M - b) \<le> v" "v < Suc r * 2 ^ (M - b)"
  shows "spans M (map (\<lambda>s. (s, b)) ss) ! v = (ss ! r, b)"
  using assms
proof (induction ss arbitrary: r v)
  case (Cons s ss)
  show ?case
  proof (cases r)
    case 0
    then show ?thesis using Cons.prems by (simp add: nth_append)
  next
    case (Suc r')
    have "r' < length ss" "r' * 2 ^ (M - b) \<le> v - 2 ^ (M - b)" "v - 2 ^ (M - b) < Suc r' * 2 ^ (M - b)" "\<not> v < 2 ^ (M - b)"
      using Cons.prems Suc by auto
    from Cons.IH [OF this(1-3)] this(4) show ?thesis using Suc by (simp add: nth_append)
  qed
qed simp

lemma table_lookup:
  assumes "lengths_ok L M" "s < length L" "0 < L ! s" "v div 2 ^ (M - L ! s) = code_of L M s"
  shows "spans M (ranked L M) ! v = (s, L ! s)" "v < 2 ^ M"
proof -
  let ?b = "L ! s" and ?w = "2 ^ (M - L ! s) :: nat"
  note cs = code_span [OF assms(1-3)]
  obtain c where c: "?b = Suc c" using assms(3) by (cases ?b) auto
  have v: "code_of L M s * ?w \<le> v" "v < Suc (code_of L M s) * ?w"
    unfolding assms(4) [symmetric] by (simp_all add: div_times_less_eq_dividend dividend_less_div_times)
  have "Suc (code_of L M s) * ?w \<le> 2 ^ ?b * ?w" using cs(3) by (intro mult_right_mono) simp_all
  also have "\<dots> = 2 ^ M" using cs(2) by (simp flip: power_add)
  finally show "v < 2 ^ M" using v(2) by simp
  have "\<forall>l\<in>set L. l \<le> M" using assms(1) by (simp add: lengths_ok_def list_all_iff)
  from ranked_split [OF cs(2) this] obtain pre where
    p: "ranked L M = pre @ ranked L (Suc c)" "length (spans M pre) = above M L ?b" using c by auto
  let ?i = "v - above M L ?b" and ?ss = "syms_at L ?b"
  have i: "rank_in L s * ?w \<le> ?i" "?i < Suc (rank_in L s) * ?w" "\<not> v < above M L ?b" using v cs(1) by simp_all
  have r: "rank_in L s < length ?ss" using rank_in_less [OF assms(2)] by (simp add: length_syms_at)
  have "Suc (rank_in L s) * ?w \<le> length ?ss * ?w" using r by (intro mult_right_mono) simp_all
  then have "?i < length (spans M (map (\<lambda>s. (s, ?b)) ?ss))" using i(2) by (simp only: length_spans_same)
  then have "spans M (ranked L M) ! v = spans M (map (\<lambda>s. (s, ?b)) ?ss) ! ?i"
    using i(3) unfolding p(1) spans_simps nth_append p(2) ranked.simps by (simp add: nth_append flip: c)
  also have "\<dots> = (s, ?b)" using spans_same_nth [OF r i(1,2)] syms_at_rank [OF assms(2)] by simp
  finally show "spans M (ranked L M) ! v = (s, ?b)" .
qed

section \<open>The encoder's table\<close>

text \<open>The weights of a full tree, last symbol included.\<close>

definition weights_ok :: "nat list \<Rightarrow> nat \<Rightarrow> bool" where
  "weights_ok W M \<longleftrightarrow> length W \<le> 256 \<and> 1 \<le> M \<and> M \<le> 11 \<and> (\<forall>w\<in>set W. w \<le> M) \<and> share W = 2 ^ M"

definition sym_coded :: "nat list \<Rightarrow> nat \<Rightarrow> nat \<Rightarrow> u16 list \<Rightarrow> u64 list \<Rightarrow> bool" where
  "sym_coded L M s packed aligned \<longleftrightarrow>
     packed ! s = push_bit 4 (of_nat (code_of L M s)) OR of_nat (L ! s)
     \<and> aligned ! s = element (val_bits (L ! s) (code_of L M s))"

text \<open>An encoder table for the code lengths \<open>L\<close>.\<close>

definition enc_built :: "nat list \<Rightarrow> nat \<Rightarrow> HuffEncTable \<Rightarrow> bool" where
  "enc_built L M t \<longleftrightarrow> het_nsym t = length L \<and> length (het_packed t) = 256 \<and> length (het_aligned t) = 256
     \<and> (\<forall>s<length L. 0 < L ! s \<longrightarrow> sym_coded L M s (het_packed t) (het_aligned t))
     \<and> (\<forall>s<256. (s < length L \<longrightarrow> L ! s = 0) \<longrightarrow> het_packed t ! s = 0)
     \<and> (het_uniform_nb t \<noteq> 0 \<longrightarrow> (\<forall>s<length L. 0 < L ! s \<longrightarrow> L ! s = het_uniform_nb t))
     \<and> het_uniform_nb t \<le> 11"

lemma weights_lengths:
  assumes "weights_ok W M"
  shows "lengths_ok (map (length_of M) W) M"
proof -
  have "kraft M (map (length_of M) W) = share W" if "\<forall>w\<in>set W. w \<le> M" for W
    using that by (induction W) (auto simp: kraft_def length_of_def)
  then show ?thesis using assms by (auto simp: lengths_ok_def weights_ok_def list_all_iff length_of_def)
qed

lemma bucket_counts_ok:
  assumes "\<forall>w\<in>set ws. w < length cs"
  shows "\<exists>r. bucket_counts ws cs = Ok r \<and> length r = length cs \<and> (\<forall>w<length cs. r ! w = cs ! w + count_list ws w)"
  using assms
proof (induction ws arbitrary: cs)
  case (Cons w ws)
  have "\<forall>x\<in>set ws. x < length (cs[w := cs ! w + 1])" using Cons.prems by simp
  from Cons.IH [OF this] show ?case using Cons.prems by (auto simp: nth_list_update)
qed simp

lemma bucket_scan_ok:
  assumes "bucket_scan cs k tot uw u = (starts, tot', uw', u')" "1 \<le> k"
  shows "length starts = length cs \<and> (\<forall>i<length cs. starts ! i = tot + sum_list (take i cs)) \<and> tot' = tot + sum_list cs
    \<and> (u' \<longrightarrow> u \<and> (uw \<noteq> 0 \<longrightarrow> uw' = uw) \<and> (\<forall>i<length cs. cs ! i \<noteq> 0 \<longrightarrow> uw = 0 \<and> uw' = k + i))"
  using assms
proof (induction cs arbitrary: k tot uw u starts)
  case (Cons c cs)
  define uw1 u1 where d: "uw1 = (if c \<noteq> 0 \<and> uw = 0 then k else uw)" "u1 = (u \<and> \<not> (c \<noteq> 0 \<and> uw \<noteq> 0))"
  obtain st r where r: "bucket_scan cs (k + 1) (tot + c) uw1 u1 = (st, r)" by (metis surj_pair)
  have e: "(if c \<noteq> 0 then if uw = 0 then (k, u) else (uw, False) else (uw, u)) = (uw1, u1)" by (simp add: d)
  have s: "starts = tot # st" "bucket_scan cs (k + 1) (tot + c) uw1 u1 = (st, tot', uw', u')"
    using Cons.prems(1) r by (simp_all only: bucket_scan.simps e Let_def prod.case) auto
  have "1 \<le> k + 1" by simp
  note ih = Cons.IH [OF s(2) this]
  have "starts ! i = tot + sum_list (take i (c # cs))" if "i < length (c # cs)" for i
    using that ih s(1) by (cases i) auto
  moreover have "u \<and> (uw \<noteq> 0 \<longrightarrow> uw' = uw) \<and> (\<forall>i<length (c # cs). (c # cs) ! i \<noteq> 0 \<longrightarrow> uw = 0 \<and> uw' = k + i)" if "u'"
  proof -
    have h: "u1" "uw1 \<noteq> 0 \<longrightarrow> uw' = uw1" "\<forall>i<length cs. cs ! i \<noteq> 0 \<longrightarrow> uw1 = 0 \<and> uw' = k + 1 + i" using ih that by blast+
    have "uw = 0 \<and> uw' = k + i" if "i < length (c # cs)" "(c # cs) ! i \<noteq> 0" for i
      using that h Cons.prems(2) by (cases i) (auto simp: d split: if_splits)
    then show ?thesis using h by (auto simp: d split: if_splits)
  qed
  ultimately show ?case using ih s(1) by auto
qed simp

definition begin_of :: "nat list \<Rightarrow> nat \<Rightarrow> nat" where
  "begin_of W w = below W w - count_list W 0"

lemma begin_of_below: "1 \<le> w \<Longrightarrow> begin_of W w + count_list W 0 = below W w"
  using below_mono [of 1 w W] by (simp add: begin_of_def)

lemma begin_of_fits: "1 \<le> w \<Longrightarrow> begin_of W w + count_list W w \<le> length W"
  using begin_of_below [of w W] below_le [of W "Suc w"] by simp

lemma bucket_sort_fits:
  assumes W: "W = pre @ ws" "\<forall>w<m. 0 < w \<longrightarrow> begin_of W w + count_list W w \<le> length slots" and cur: "\<forall>w\<in>set W. w < m" "m \<le> length cursor"
    and c: "\<forall>w<m. 0 < w \<longrightarrow> cursor ! w = begin_of W w + count_list pre w"
    and s: "\<forall>w<m. 0 < w \<longrightarrow> (\<forall>j<count_list pre w. slots ! (begin_of W w + j) = of_nat (syms_at pre w ! j))"
  shows "\<exists>slots'. bucket_sort ws (length pre) cursor slots = Ok slots' \<and> length slots' = length slots
    \<and> (\<forall>w<m. 0 < w \<longrightarrow> (\<forall>j<count_list W w. slots' ! (begin_of W w + j) = of_nat (syms_at W w ! j)))"
  using assms
proof (induction ws arbitrary: pre cursor slots)
  case Nil
  then show ?case by simp
next
  case (Cons x ws)
  have cnt: "count_list W w = count_list pre w + of_bool (w = x) + count_list ws w" for w using Cons.prems(1) by simp
  have W': "W = (pre @ [x]) @ ws" using Cons.prems(1) by simp
  have x: "x < m" "x < length cursor" using Cons.prems(1,3,4) by auto
  show ?case
  proof (cases "x = 0")
    case True
    have "\<forall>w<m. 0 < w \<longrightarrow> cursor ! w = begin_of W w + count_list (pre @ [x]) w"
      "\<forall>w<m. 0 < w \<longrightarrow> (\<forall>j<count_list (pre @ [x]) w. slots ! (begin_of W w + j) = of_nat (syms_at (pre @ [x]) w ! j))"
      using Cons.prems(5,6) True by (simp_all add: syms_at_snoc)
    from Cons.IH [OF W' Cons.prems(2-4) this] show ?thesis using True by simp
  next
    case False
    let ?p = "cursor ! x"
    have p: "?p = begin_of W x + count_list pre x" using Cons.prems(5) x(1) False by simp
    moreover have "begin_of W x + count_list W x \<le> length slots" using Cons.prems(2) x(1) False by simp
    ultimately have fits: "?p < length slots" using cnt [of x] by simp
    let ?cur = "cursor[x := ?p + 1]" and ?slots = "slots[?p := of_nat (length pre)]"
    have cu: "\<forall>w<m. 0 < w \<longrightarrow> ?cur ! w = begin_of W w + count_list (pre @ [x]) w"
      using Cons.prems(5) p x by (auto simp: nth_list_update)
    have "?slots ! (begin_of W w + j) = of_nat (syms_at (pre @ [x]) w ! j)"
      if "w < m" "0 < w" "j < count_list (pre @ [x]) w" for w j
    proof (cases "w = x \<and> j = count_list pre x")
      case True
      then show ?thesis using p fits by (simp add: syms_at_snoc nth_append length_syms_at)
    next
      case other: False
      then have j: "j < count_list pre w" using that(3) by (auto split: if_splits)
      have "begin_of W w + j \<noteq> ?p"
      proof (cases "w = x")
        case True
        then show ?thesis using j p by simp
      next
        case False
        then have "below W w + j \<noteq> below W x + count_list pre x" using j cnt [of w] cnt [of x] by (intro below_apart) auto
        then show ?thesis unfolding p using begin_of_below [of w W] begin_of_below [of x W] that(2) \<open>x \<noteq> 0\<close> by linarith
      qed
      then show ?thesis using Cons.prems(6) that(1,2) j by (simp add: syms_at_snoc nth_append length_syms_at)
    qed
    then have "\<forall>w<m. 0 < w \<longrightarrow> (\<forall>j<count_list (pre @ [x]) w. ?slots ! (begin_of W w + j) = of_nat (syms_at (pre @ [x]) w ! j))" by blast
    from Cons.IH [OF W' _ Cons.prems(3) _ cu this] Cons.prems(2,4) show ?thesis using False x fits by simp
  qed
qed

lemma bucket_sort_ok:
  assumes W: "W = pre @ ws" "length W \<le> length slots" and cur: "\<forall>w\<in>set W. w < m" "m \<le> length cursor"
    and c: "\<forall>w<m. 0 < w \<longrightarrow> cursor ! w = begin_of W w + count_list pre w"
    and s: "\<forall>w<m. 0 < w \<longrightarrow> (\<forall>j<count_list pre w. slots ! (begin_of W w + j) = of_nat (syms_at pre w ! j))"
  shows "\<exists>slots'. bucket_sort ws (length pre) cursor slots = Ok slots' \<and> length slots' = length slots
    \<and> (\<forall>w<m. 0 < w \<longrightarrow> (\<forall>j<count_list W w. slots' ! (begin_of W w + j) = of_nat (syms_at W w ! j)))"
proof -
  have "\<forall>w<m. 0 < w \<longrightarrow> begin_of W w + count_list W w \<le> length slots"
    using begin_of_fits [of _ W] W(2) by (metis Suc_leI One_nat_def le_trans)
  from bucket_sort_fits [OF W(1) this cur c s] show ?thesis .
qed

lemma bucket_slice:
  assumes "\<forall>j<count_list W w. slots ! (begin_of W w + j) = of_nat (syms_at W w ! j)" "begin_of W w + count_list W w \<le> length slots" "1 \<le> w"
  shows "take (count_list W w) (drop (begin_of W w) slots) = map of_nat (syms_at W w)"
  using assms by (intro nth_equalityI) (auto simp: length_syms_at)

text \<open>One bucket: consecutive codes for distinct symbols.\<close>

lemma bits_word_val: "c < 2 ^ b \<Longrightarrow> b \<le> 64 \<Longrightarrow> bits_word (val_bits b c) = of_nat c"
proof -
  assume c: "c < 2 ^ b" "b \<le> 64"
  then have "take_bit b c = c" by (simp add: take_bit_nat_eq_self)
  then have "bit c i \<Longrightarrow> i < b" for i by (metis bit_take_bit_iff)
  then show ?thesis using c(2) by (intro bit_word_eqI) (auto simp: bit_bits_word bit_of_nat_iff)
qed

lemma element_code:
  assumes "c < 2 ^ b" "b \<le> 11"
  shows "element (val_bits b c) = push_bit (64 - b) (of_nat c) OR of_nat b"
  using assms by (simp add: element_def bits_word_val)

lemma packed_code_word: "(of_nat (push_bit 4 c OR b) :: u16) = push_bit 4 (of_nat c) OR of_nat b"
  by (simp only: of_nat_or_eq of_nat_push_bit)

lemma assign_bucket_ok:
  assumes "distinct ss" "\<forall>s\<in>set ss. s < 256" "length packed = 256" "length aligned = 256"
    and "1 \<le> b" "b \<le> 11" "c + length ss \<le> 2 ^ b"
  shows "\<exists>packed' aligned'. assign_bucket b (map of_nat ss) c packed aligned = Ok (c + length ss, packed', aligned')
    \<and> length packed' = 256 \<and> length aligned' = 256
    \<and> (\<forall>i<length ss. packed' ! (ss ! i) = push_bit 4 (of_nat (c + i)) OR of_nat b \<and> aligned' ! (ss ! i) = element (val_bits b (c + i)))
    \<and> (\<forall>s. s \<notin> set ss \<longrightarrow> packed' ! s = packed ! s \<and> aligned' ! s = aligned ! s)"
  using assms
proof (induction ss arbitrary: c packed aligned)
  case (Cons s ss)
  have s: "s < 256" "unat (of_nat s :: u8) = s" using Cons.prems(2) by (simp_all add: unat_of_nat)
  have "(2::nat) ^ b \<le> 2 ^ 11" by (rule power_increasing) (use Cons.prems(6) in auto)
  then have c: "c < 2 ^ b" "c \<le> 0xfff" using Cons.prems(7) by simp_all
  let ?p = "packed[s := of_nat (push_bit 4 c OR b)]" and ?a = "aligned[s := push_bit (64 - b) (of_nat c) OR of_nat b]"
  have "\<exists>packed' aligned'. assign_bucket b (map of_nat ss) (c + 1) ?p ?a = Ok (c + 1 + length ss, packed', aligned')
    \<and> length packed' = 256 \<and> length aligned' = 256
    \<and> (\<forall>i<length ss. packed' ! (ss ! i) = push_bit 4 (of_nat (c + 1 + i)) OR of_nat b \<and> aligned' ! (ss ! i) = element (val_bits b (c + 1 + i)))
    \<and> (\<forall>s. s \<notin> set ss \<longrightarrow> packed' ! s = ?p ! s \<and> aligned' ! s = ?a ! s)"
    using Cons.prems by (intro Cons.IH) simp_all
  then obtain packed' aligned' where r: "assign_bucket b (map of_nat ss) (c + 1) ?p ?a = Ok (c + 1 + length ss, packed', aligned')"
    "length packed' = 256" "length aligned' = 256"
    "\<forall>i<length ss. packed' ! (ss ! i) = push_bit 4 (of_nat (c + 1 + i)) OR of_nat b \<and> aligned' ! (ss ! i) = element (val_bits b (c + 1 + i))"
    "\<forall>s. s \<notin> set ss \<longrightarrow> packed' ! s = ?p ! s \<and> aligned' ! s = ?a ! s" by blast
  have "assign_bucket b (map of_nat (s # ss)) c packed aligned = Ok (c + length (s # ss), packed', aligned')"
    using r(1) Cons.prems(3-6) c s by simp
  moreover have "packed' ! ((s # ss) ! i) = push_bit 4 (of_nat (c + i)) OR of_nat b \<and> aligned' ! ((s # ss) ! i) = element (val_bits b (c + i))"
    if "i < length (s # ss)" for i
  proof (cases i)
    case 0
    have "s \<notin> set ss" using Cons.prems(1) by simp
    then have "packed' ! s = of_nat (push_bit 4 c OR b)" "aligned' ! s = push_bit (64 - b) (of_nat c) OR of_nat b"
      using r(5) s(1) Cons.prems(3,4) by simp_all
    then show ?thesis using 0 c(1) Cons.prems(6) by (simp only: packed_code_word element_code nth_Cons_0 add_0_right simp_thms)
  next
    case (Suc j)
    then show ?thesis using r(4) that by simp
  qed
  moreover have "packed' ! x = packed ! x \<and> aligned' ! x = aligned ! x" if "x \<notin> set (s # ss)" for x
    using r(5) that by simp
  ultimately show ?case using r(2,3) by blast
qed simp

text \<open>The symbols of weight below \<open>k\<close> are coded, all others untouched.\<close>

definition coded_below :: "nat list \<Rightarrow> nat \<Rightarrow> nat \<Rightarrow> u16 list \<Rightarrow> u64 list \<Rightarrow> bool" where
  "coded_below W M k packed aligned \<longleftrightarrow> length packed = 256 \<and> length aligned = 256
     \<and> (\<forall>s<256. if s < length W \<and> 0 < W ! s \<and> W ! s < k then sym_coded (map (length_of M) W) M s packed aligned
          else packed ! s = 0)"

lemma syms_at_lengths:
  assumes "weights_ok W M" "1 \<le> w" "w \<le> M"
  shows "syms_at (map (length_of M) W) (M + 1 - w) = syms_at W w"
proof -
  have "length_of M (W ! s) = M + 1 - w \<longleftrightarrow> W ! s = w" if "s < length W" for s
  proof -
    have "W ! s \<le> M" using assms(1) that by (simp add: weights_ok_def)
    then show ?thesis using assms(2,3) by (auto simp: length_of_def)
  qed
  then show ?thesis unfolding syms_at_def by (intro filter_cong) simp_all
qed

lemma code_of_bucket:
  assumes "weights_ok W M" "1 \<le> w" "w \<le> M" "i < count_list W w"
  defines "L \<equiv> map (length_of M) W"
  shows "L ! (syms_at W w ! i) = M + 1 - w" "code_of L M (syms_at W w ! i) = above M L (M + 1 - w) div 2 ^ (w - 1) + i"
    "syms_at W w ! i < length W" "W ! (syms_at W w ! i) = w"
proof -
  let ?s = "syms_at W w ! i"
  have "?s \<in> set (syms_at W w)" using assms(4) by (simp add: length_syms_at)
  then show s: "?s < length W" "W ! ?s = w" by (simp_all add: set_syms_at)
  then show l: "L ! ?s = M + 1 - w" using assms(2) by (simp add: L_def length_of_def)
  have eq: "syms_at L (M + 1 - w) = syms_at W w" unfolding L_def by (rule syms_at_lengths [OF assms(1-3)])
  have "count_list L (M + 1 - w) = count_list W w" using length_syms_at [of L "M + 1 - w"] length_syms_at [of W w] eq by simp
  then have "rank_in L ?s = i" using rank_in_syms [of i L "M + 1 - w"] assms(4) eq by simp
  moreover have "M - (M + 1 - w) = w - 1" using assms(2,3) by simp
  ultimately show "code_of L M ?s = above M L (M + 1 - w) div 2 ^ (w - 1) + i" by (simp add: code_of_def l)
qed

lemma assign_codes_ok:
  assumes ok: "weights_ok W M" and sl: "length slots = 256"
    "\<forall>w<12. 0 < w \<longrightarrow> (\<forall>j<count_list W w. slots ! (begin_of W w + j) = of_nat (syms_at W w ! j))"
    and k: "1 \<le> k" "k \<le> 12" "cw < k" "cw \<le> M" "\<forall>v. cw < v \<and> v < k \<longrightarrow> count_list W v = 0"
    and c: "code = above M (map (length_of M) W) (M - cw) div 2 ^ (cw - 1)"
    and st: "coded_below W M k packed aligned"
  shows "\<exists>packed' aligned'. assign_codes M slots (map (begin_of W) [k..<12]) (map (count_list W) [k..<12]) k code cw packed aligned
      = Ok (packed', aligned') \<and> coded_below W M 12 packed' aligned'"
  using k c st
proof (induction "12 - k" arbitrary: k code cw packed aligned)
  case 0
  then have "k = 12" by simp
  then show ?case using 0 by auto
next
  case (Suc n)
  let ?L = "map (length_of M) W" and ?c = "count_list W k"
  have k12: "k < 12" using Suc.hyps(2) by simp
  then have upt: "[k..<12] = k # [Suc k..<12]" by (rule upt_conv_Cons)
  have n: "n = 12 - Suc k" using Suc.hyps(2) by simp
  show ?case
  proof (cases "?c = 0")
    case True
    have "\<forall>v. cw < v \<and> v < Suc k \<longrightarrow> count_list W v = 0" using Suc.prems(5) True by (auto simp: less_Suc_eq)
    moreover have "W ! s \<noteq> k" if "s < length W" for s using True that by (metis count_list_0_iff nth_mem)
    then have "coded_below W M (Suc k) packed aligned" using Suc.prems(7) by (auto simp: coded_below_def less_Suc_eq)
    ultimately show ?thesis
      using Suc.hyps(1) [OF n _ _ _ Suc.prems(4) _ Suc.prems(6)] Suc.prems(1,3) k12 True by (simp add: upt)
  next
    case False
    then have "k \<in> set W" by (metis count_list_0_iff)
    then have kM: "k \<le> M" using ok by (simp add: weights_ok_def)
    let ?b = "M + 1 - k" and ?code = "drop_bit (k - cw) code"
    have b: "1 \<le> ?b" "?b \<le> 11" "M - ?b = k - 1" "?b \<le> M" "Suc (M - k) = ?b" using kM ok Suc.prems(1) by (auto simp: weights_ok_def)
    have lok: "lengths_ok ?L M" by (rule weights_lengths [OF ok])
    have same: "above M ?L (M - cw) = above M ?L ?b"
    proof -
      have "above M ?L (M - cw) = above M ?L d" if "?b \<le> d" "d \<le> M - cw" for d
        using that(2,1)
      proof (induction rule: inc_induct)
        case (step d)
        have "count_list ?L (Suc d) = count_list W (M - d)"
          using syms_at_lengths [OF ok, of "M - d"] step.hyps step.prems Suc.prems(1) length_syms_at [of ?L "Suc d"] length_syms_at [of W "M - d"]
          by (simp add: Suc_diff_le)
        moreover have "cw < M - d" "M - d < k" using step.hyps step.prems kM Suc.prems(1) by linarith+
        then have "count_list W (M - d) = 0" using Suc.prems(5) by simp
        ultimately show ?case using step by (simp add: above_step [of M ?L d])
      qed simp
      then show ?thesis using Suc.prems(3) by simp
    qed
    have code: "?code = above M ?L ?b div 2 ^ (k - 1)"
    proof (cases "cw = 0")
      case True
      have "above M ?L ?b = 0" using same True above_top [of ?L M] lok by (simp add: lengths_ok_def list_all_iff)
      then show ?thesis using Suc.prems(6) same by (simp add: drop_bit_eq_div)
    next
      case False
      then have "k - 1 = (cw - 1) + (k - cw)" using Suc.prems(3) by simp
      then show ?thesis using Suc.prems(6) same by (simp add: drop_bit_eq_div power_add div_mult2_eq)
    qed
    note bucket = code_of_bucket [OF ok Suc.prems(1) kM]
    have ss: "distinct (syms_at W k)" "length (syms_at W k) = ?c" "\<forall>s\<in>set (syms_at W k). s < 256"
      using ok by (auto simp: syms_at_def weights_ok_def length_syms_at [unfolded syms_at_def])
    have "code_of ?L M (syms_at W k ! (?c - 1)) < 2 ^ ?b"
      using code_span(3) [OF lok, of "syms_at W k ! (?c - 1)"] bucket(1,3) [of "?c - 1"] False b(1) by simp
    moreover have "code_of ?L M (syms_at W k ! (?c - 1)) = ?code + (?c - 1)" using bucket(2) [of "?c - 1"] code False by simp
    ultimately have "?code + length (syms_at W k) \<le> 2 ^ ?b" using False ss(2) by linarith
    from assign_bucket_ok [OF ss(1,3) _ _ b(1,2) this] Suc.prems(7) obtain p1 a1 where
      a: "assign_bucket ?b (map of_nat (syms_at W k)) ?code packed aligned = Ok (?code + ?c, p1, a1)" "length p1 = 256" "length a1 = 256"
        "\<forall>i<?c. p1 ! (syms_at W k ! i) = push_bit 4 (of_nat (?code + i)) OR of_nat ?b \<and> a1 ! (syms_at W k ! i) = element (val_bits ?b (?code + i))"
        "\<forall>s. s \<notin> set (syms_at W k) \<longrightarrow> p1 ! s = packed ! s \<and> a1 ! s = aligned ! s"
      unfolding ss(2) coded_below_def by blast
    have done_below: "coded_below W M (Suc k) p1 a1"
    proof -
      have "if s < length W \<and> 0 < W ! s \<and> W ! s < Suc k then sym_coded ?L M s p1 a1 else p1 ! s = 0" if "s < 256" for s
      proof (cases "s \<in> set (syms_at W k)")
        case True
        then obtain i where i: "i < ?c" "s = syms_at W k ! i" by (metis in_set_conv_nth ss(2))
        then show ?thesis using a(4) bucket [OF i(1)] code Suc.prems(1) by (simp add: sym_coded_def)
      next
        case out: False
        then have "s < length W \<Longrightarrow> W ! s \<noteq> k" by (simp add: set_syms_at)
        then show ?thesis using Suc.prems(7) a(5) out that by (auto simp: coded_below_def sym_coded_def less_Suc_eq)
      qed
      then show ?thesis using a(2,3) by (simp add: coded_below_def)
    qed
    have "take ?c (drop (begin_of W k) slots) = map of_nat (syms_at W k)"
      using sl k12 Suc.prems(1) ok begin_of_fits [of k W] by (intro bucket_slice) (auto simp: weights_ok_def)
    moreover have "begin_of W k + ?c \<le> length slots" using begin_of_fits [OF Suc.prems(1), of W] sl(1) ok by (simp add: weights_ok_def)
    moreover have "\<exists>packed' aligned'. assign_codes M slots (map (begin_of W) [Suc k..<12]) (map (count_list W) [Suc k..<12]) (Suc k) (?code + ?c) k p1 a1
        = Ok (packed', aligned') \<and> coded_below W M 12 packed' aligned'"
    proof (rule Suc.hyps(1) [OF n])
      have "count_list ?L ?b = ?c" using syms_at_lengths [OF ok Suc.prems(1) kM] length_syms_at [of ?L ?b] ss(2) by simp
      moreover have "?b = Suc (M - k)" using kM by simp
      ultimately have "above M ?L (M - k) = above M ?L ?b + ?c * 2 ^ (k - 1)" using above_step [of M ?L "M - k"] b(3) by simp
      then show "?code + ?c = above M ?L (M - k) div 2 ^ (k - 1)" using code by simp
    qed (use kM k12 done_below in auto)
    ultimately show ?thesis
      using False kM a(1) by (simp add: upt b(5) [unfolded Suc_eq_plus1 [symmetric]])
  qed
qed

lemma weight_sum_ok:
  assumes "\<forall>w<12. counts ! w = count_list W w" "\<forall>w\<in>set W. w < 12"
  shows "weight_sum counts = share W"
proof -
  have "weight_sum counts = (\<Sum>w\<in>{1..<12}. count_list W w * 2 ^ (w - 1))"
    using assms(1) by (simp add: weight_sum_def MAX_CODE_LENGTH_def interv_sum_list_conv_sum_set_nat push_bit_eq_mult del: upt_rec_numeral)
  also have "\<dots> = share W"
    using assms(2)
  proof (induction W)
    case (Cons x W)
    have "(\<Sum>w\<in>{1..<12}. count_list (x # W) w * 2 ^ (w - 1))
        = (\<Sum>w\<in>{1..<12}. count_list W w * 2 ^ (w - 1)) + (\<Sum>w\<in>{1..<12}. if w = x then 2 ^ (x - 1) else 0)"
      unfolding sum.distrib [symmetric] by (rule sum.cong) auto
    also have "(\<Sum>w\<in>{1..<12}. if w = x then 2 ^ (x - 1) else 0) = (if x = 0 then 0 else 2 ^ (x - 1 :: nat) :: nat)"
      using Cons.prems by (simp add: sum.delta)
    finally show ?case using Cons by simp
  qed simp
  finally show ?thesis .
qed

lemma build_from_weights_slice_spec_holds:
  assumes "weights_ok W M" "length aligned = 256"
  shows "\<exists>t. build_from_weights_slice W aligned = Ok t \<and> enc_built (map (length_of M) W) M t"
proof -
  let ?L = "map (length_of M) W"
  have W: "\<forall>w\<in>set W. w < 12" "length W \<le> 256" "list_all (\<lambda>w. w \<le> MAX_CODE_LENGTH) W" "\<forall>w\<in>set W. w \<le> M" "1 \<le> M" "M \<le> 11"
    using assms(1) by (auto simp: weights_ok_def list_all_iff MAX_CODE_LENGTH_def)
  from bucket_counts_ok [of W "replicate 12 0"] W(1) obtain counts where
    c: "bucket_counts W (replicate 12 0) = Ok counts" "length counts = 12" "\<forall>w<12. counts ! w = count_list W w" by auto
  have cs: "tl counts = map (count_list W) [1..<12]" using c(2,3) by (intro nth_equalityI) (simp_all add: nth_tl del: upt_Suc upt_rec_numeral)
  obtain starts tot uw u where scan: "bucket_scan (map (count_list W) [1..<12]) 1 0 0 True = (starts, tot, uw, u)" by (metis prod_cases4)
  note sc = bucket_scan_ok [OF scan order_refl]
  have sums: "sum_list (take i (map (count_list W) [1..<12])) + count_list W 0 = below W (Suc i)" if "i \<le> 11" for i
    using that
  proof (induction i)
    case (Suc i)
    then show ?case by (simp add: take_Suc_conv_app_nth del: upt_rec_numeral)
  qed simp
  have starts: "starts = map (begin_of W) [1..<12]"
  proof (rule nth_equalityI)
    fix i assume "i < length starts"
    then have i: "i < 11" using sc by simp
    then show "starts ! i = map (begin_of W) [1..<12] ! i" using sc sums [of i] by (simp add: begin_of_def del: upt_rec_numeral)
  qed (use sc in simp)
  have tot: "tot + count_list W 0 = length W"
    using sc sums [of 11] W(1) by (simp add: below_filter del: upt_rec_numeral)
  have "\<exists>slots'. bucket_sort W (length ([] :: nat list)) (0 # starts) (replicate 256 0) = Ok slots' \<and> length slots' = length (replicate 256 (0 :: u8))
    \<and> (\<forall>w<12. 0 < w \<longrightarrow> (\<forall>j<count_list W w. slots' ! (begin_of W w + j) = of_nat (syms_at W w ! j)))"
    using W(1,2) by (intro bucket_sort_ok) (auto simp: starts nth_Cons' simp del: upt_rec_numeral)
  then obtain slots where sl: "bucket_sort W 0 (0 # starts) (replicate 256 0) = Ok slots" "length slots = 256"
    "\<forall>w<12. 0 < w \<longrightarrow> (\<forall>j<count_list W w. slots ! (begin_of W w + j) = of_nat (syms_at W w ! j))"
    by auto
  have "weight_sum counts = share W" by (rule weight_sum_ok [OF c(3) W(1)])
  then have ws: "weight_sum counts = 2 ^ M" using assms(1) by (simp add: weights_ok_def)
  have "\<exists>packed' aligned'. assign_codes M slots (map (begin_of W) [1..<12]) (map (count_list W) [1..<12]) 1 0 0 (replicate 256 0) aligned
      = Ok (packed', aligned') \<and> coded_below W M 12 packed' aligned'"
  proof (rule assign_codes_ok [OF assms(1) sl(2,3)])
    have "\<forall>l\<in>set ?L. l \<le> M" by (auto simp: length_of_def)
    then show "0 = above M ?L (M - 0) div 2 ^ (0 - 1)" using above_top by simp
  qed (use assms(2) in \<open>auto simp: coded_below_def\<close>)
  then obtain packed al where a: "assign_codes M slots starts (tl counts) 1 0 0 (replicate 256 0) aligned = Ok (packed, al)"
    "coded_below W M 12 packed al" using starts cs by auto
  have live: "W ! s = uw" if "u" "s < length W" "0 < W ! s" for s
  proof -
    have "W ! s < 12" "count_list W (W ! s) \<noteq> 0" using W(1) that(2) by (simp, simp only: count_list_0_iff, simp)
    then have "map (count_list W) [1..<12] ! (W ! s - 1) \<noteq> 0" "W ! s - 1 < 11" using that(3) by (simp_all del: upt_rec_numeral)
    then show ?thesis using sc that(1,3) by auto
  qed
  define nb where "nb = (if u \<and> tot \<ge> 2 then M - uw + 1 else 0)"
  have uni: "(if u \<and> tot \<ge> 2 then rbind (rassert (uw \<le> M)) (\<lambda>_. Ok (M - uw + 1)) else Ok 0) = (Ok nb :: (unit, nat) res)"
    and nb: "nb \<noteq> 0 \<longrightarrow> (\<forall>s<length ?L. 0 < ?L ! s \<longrightarrow> ?L ! s = nb)" "nb \<le> 11"
  proof -
    have "nb = length_of M uw \<and> uw \<le> M \<and> nb \<noteq> 0" if "u \<and> tot \<ge> 2"
    proof -
      have "\<exists>s<length W. W ! s \<noteq> 0"
      proof (rule ccontr)
        assume "\<not> ?thesis"
        then have "\<forall>w\<in>set W. w = 0" by (auto simp: in_set_conv_nth)
        then have "count_list W 0 = length W" by (induction W) auto
        then show False using tot that by simp
      qed
      then obtain s where "s < length W" "0 < W ! s" by auto
      then have "uw \<le> M" "0 < uw" using live that W(4) by auto
      then show ?thesis using that by (simp add: nb_def length_of_def Suc_diff_le)
    qed
    moreover have "nb = 0" if "\<not> (u \<and> tot \<ge> 2)" using that by (auto simp: nb_def)
    ultimately show "(if u \<and> tot \<ge> 2 then rbind (rassert (uw \<le> M)) (\<lambda>_. Ok (M - uw + 1)) else Ok 0) = (Ok nb :: (unit, nat) res)"
      "nb \<noteq> 0 \<longrightarrow> (\<forall>s<length ?L. 0 < ?L ! s \<longrightarrow> ?L ! s = nb)" "nb \<le> 11"
      using live W(6) by (auto simp: nb_def length_of_def split: if_splits)
  qed
  have "build_from_weights_slice W aligned = Ok \<lparr>het_nsym = length W, het_packed = packed, het_aligned = al, het_uniform_nb = nb\<rparr>"
    using W(3) c(1) scan cs sl(1) ws a(1) uni
    by (simp add: build_from_weights_slice_def MAX_CODE_LENGTH_def del: replicate.simps upt_rec_numeral)
  moreover have "enc_built ?L M \<lparr>het_nsym = length W, het_packed = packed, het_aligned = al, het_uniform_nb = nb\<rparr>"
  proof -
    have "\<forall>s<length W. W ! s \<le> M \<and> W ! s < 12" using W(1,4) by simp
    then have z: "s < length W \<Longrightarrow> ?L ! s = 0 \<longleftrightarrow> W ! s = 0" "s < length W \<Longrightarrow> W ! s < 12" for s
      by (auto simp: length_of_def)
    have st: "\<forall>s<256. if s < length W \<and> 0 < W ! s \<and> W ! s < 12 then sym_coded ?L M s packed al else packed ! s = 0"
      "length packed = 256" "length al = 256" using a(2) by (simp_all add: coded_below_def)
    have "sym_coded ?L M s packed al" if "s < length ?L" "0 < ?L ! s" for s
      using st(1) z that W(2) by (metis length_map less_le_trans neq0_conv)
    moreover have "packed ! s = 0" if "s < 256" "s < length ?L \<longrightarrow> ?L ! s = 0" for s
      using st(1) z(1) that by (metis length_map neq0_conv)
    ultimately show ?thesis using st(2,3) nb by (simp add: enc_built_def)
  qed
  ultimately show ?thesis by blast
qed

text \<open>
  C37.  For the weights of any full tree the encoder's table is built without a panic and holds,
  in the packed and in the left-aligned form, the canonical code of every live symbol; a common
  code length is recorded only when all live symbols have it.
\<close>

theorem build_from_weights_slice_spec:
  assumes "weights_ok W M" "length aligned = 256"
  shows "\<exists>t. build_from_weights_slice W aligned = Ok t \<and> enc_built (map (length_of M) W) M t"
  by (rule build_from_weights_slice_spec_holds [OF assms])

theorem build_from_weights_slice_spec_witness:
  "\<exists>t. build_from_weights_slice [2, 1, 0, 1] (replicate 256 0) = Ok t \<and> enc_built [1, 2, 0, 2] 2 t"
  using build_from_weights_slice_spec [of "[2, 1, 0, 1]" 2 "replicate 256 0"] by (simp add: weights_ok_def length_of_def)

text \<open>What the batched writer needs of the table.\<close>

lemma enc_coded_by:
  assumes "enc_built L M t" "lengths_ok L M" "\<forall>s\<in>set dat. unat s < length L \<and> 0 < L ! unat s"
  shows "coded_by (het_aligned t) (huff_code L M) dat"
    "of_nat (het_uniform_nb t) = (4 :: u8) \<Longrightarrow> packed_by (het_packed t) (huff_code L M) dat"
proof -
  have c: "sym_coded L M (unat s) (het_packed t) (het_aligned t)" "code_of L M (unat s) < 2 ^ (L ! unat s)" "L ! unat s \<le> 11"
    if "s \<in> set dat" for s
    using assms that code_span(2,3) [OF assms(2), of "unat s"] by (auto simp: enc_built_def lengths_ok_def)
  then show "coded_by (het_aligned t) (huff_code L M) dat"
    using assms by (auto simp: coded_by_def enc_built_def huff_code_def sym_coded_def Suc_le_eq)
  show "packed_by (het_packed t) (huff_code L M) dat" if "of_nat (het_uniform_nb t) = (4 :: u8)"
  proof -
    have u: "het_uniform_nb t \<le> 11" using assms(1) by (simp add: enc_built_def)
    have "unat (of_nat (het_uniform_nb t) :: u8) = 4" using that by simp
    then have "het_uniform_nb t = 4" using u by (simp add: unat_of_nat)
    then have "L ! unat s = 4" if "s \<in> set dat" for s using assms that by (auto simp: enc_built_def)
    then show ?thesis using c assms(1)
      by (auto simp: packed_by_def enc_built_def huff_code_def sym_coded_def bits_val_val_bits take_bit_nat_eq_self)
  qed
qed

end
