(* ===== verification/Huff_Stream.thy ===== *)
theory Huff_Stream
  imports Huff_Codes Huff_Weights Fse_Roundtrip
begin

text \<open>
  One Huffman stream: what \<open>encode_stream\<close> appends, and the decoder's window walking back over it.
  The window at position \<open>P\<close> holds the \<open>max_num_bits\<close> stream bits below \<open>P\<close>, zeros below the start
  of the stream; a symbol's code on top of the window selects the symbol's span.
\<close>

unbundle bit_operations_syntax

section \<open>The window\<close>

definition window_at :: "nat \<Rightarrow> BitReaderReversed \<Rightarrow> u64 \<Rightarrow> int \<Rightarrow> bool" where
  "window_at M r state P \<longleftrightarrow> rr_inv r \<and> rr_bits_remaining r = P - int M
     \<and> state = bits_word (sbits (rr_stream r) (P - int M) M)"

lemma window_less:
  assumes "M \<le> 11"
  shows "unat (bits_word (sbits bs P M)) < 2 ^ M"
  using bits_val_less [of "sbits bs P M"] assms by (simp add: unat_bits_word)

lemma window_top:
  assumes "b \<le> M" "M \<le> 11"
  shows "unat (bits_word (sbits bs (P - int M) M)) div 2 ^ (M - b) = bits_val (sbits bs (P - int b) b)"
proof -
  have "drop_bit (M - b) (bits_val (sbits bs (P - int M) M)) = bits_val (sbits bs (P - int b) b)"
    by (rule bit_eqI) (use assms in \<open>auto simp: bit_drop_bit_eq bit_bits_val algebra_simps of_nat_diff\<close>)
  then show ?thesis using assms by (simp add: unat_bits_word drop_bit_eq_div)
qed

lemma table_mask: "(of_nat (2 ^ M) - 1 :: u64) = mask M"
  by (simp add: mask_eq_exp_minus_1)

lemma window_advance:
  assumes "b \<le> M" "1 \<le> M" "M \<le> 11"
  shows "advance_window (bits_word (sbits bs (P - int M) M)) b (2 ^ M) (bits_word (sbits bs (P - int M - int b) b))
    = Ok (bits_word (sbits bs (P - int b - int M) M))"
proof -
  have "(push_bit b (bits_word (sbits bs (P - int M) M)) AND mask M) OR bits_word (sbits bs (P - int M - int b) b)
      = bits_word (sbits bs (P - int b - int M) M)"
  proof (rule bit_word_eqI)
    fix n assume "n < LENGTH(64)"
    then show "bit ((push_bit b (bits_word (sbits bs (P - int M) M)) AND mask M) OR bits_word (sbits bs (P - int M - int b) b)) n
        = bit (bits_word (sbits bs (P - int b - int M) M)) n"
      using assms by (cases "n < b") (auto simp: bit_or_iff bit_and_iff bit_push_bit_iff bit_mask_iff bit_bits_word algebra_simps of_nat_diff)
  qed
  then show ?thesis using assms by (simp only: advance_window_def table_mask) simp
qed

lemma huff_packed_of_fields:
  assumes "s < 256" "b \<le> 11"
  shows "unat (huff_packed_of (s, b) AND 0x3f) = b" "ucast (drop_bit 8 (huff_packed_of (s, b))) = (of_nat s :: u8)"
proof -
  have "b < 2 ^ 4" using assms(2) by simp
  then have b: "bit b i \<Longrightarrow> i < 4" for i by (metis bit_take_bit_iff take_bit_nat_eq_self)
  have p: "bit (huff_packed_of (s, b)) i \<longleftrightarrow> i < 16 \<and> (8 \<le> i \<and> bit (of_nat s :: u8) (i - 8) \<or> bit b i)" for i
    by (auto simp: huff_packed_of_def bit_or_iff bit_push_bit_iff bit_ucast_iff bit_of_nat_iff dest: b)
  have m: "(0x3f :: u16) = mask 6" by (simp add: mask_eq_exp_minus_1)
  show "unat (huff_packed_of (s, b) AND 0x3f) = b"
    unfolding m by (rule bit_eqI) (auto simp: bit_unsigned_iff bit_and_iff bit_mask_iff p dest: b)
  show "ucast (drop_bit 8 (huff_packed_of (s, b))) = (of_nat s :: u8)"
    by (rule bit_word_eqI) (auto simp: bit_ucast_iff bit_drop_bit_eq p dest: b)
qed

text \<open>A symbol whose code ends at \<open>P\<close>.\<close>

definition code_at :: "nat list \<Rightarrow> nat \<Rightarrow> bits \<Rightarrow> int \<Rightarrow> u8 \<Rightarrow> bool" where
  "code_at L M bs P s \<longleftrightarrow> unat s < length L \<and> 0 < L ! unat s
     \<and> sbits bs (P - int (L ! unat s)) (L ! unat s) = huff_code L M s"

lemma window_entry:
  assumes "lengths_ok L M" "window_at M r state P" "code_at L M (rr_stream r) P s"
  shows "spans M (ranked L M) ! unat state = (unat s, L ! unat s)" "unat state < 2 ^ M"
proof -
  let ?b = "L ! unat s"
  have s: "unat s < length L" "0 < ?b" and c: "sbits (rr_stream r) (P - int ?b) ?b = huff_code L M s"
    using assms(3) by (simp_all add: code_at_def)
  note cs = code_span [OF assms(1) s]
  have "unat state div 2 ^ (M - ?b) = bits_val (huff_code L M s)"
    using assms(1,2) cs(2) window_top [of ?b M "rr_stream r" P] by (simp add: window_at_def lengths_ok_def c)
  also have "\<dots> = code_of L M (unat s)" using cs(3) by (simp add: huff_code_def bits_val_val_bits take_bit_nat_eq_self)
  finally have d: "unat state div 2 ^ (M - ?b) = code_of L M (unat s)" .
  show "spans M (ranked L M) ! unat state = (unat s, ?b)" "unat state < 2 ^ M"
    by (rule table_lookup [OF assms(1) s d])+
qed

text \<open>Both forms of a decoding step give the symbol and move the window behind its code.\<close>

lemma window_step:
  assumes "lengths_ok L M" "window_at M r state P" "code_at L M (rr_stream r) P s"
  obtains r' state' where "rr_get_bits r (L ! unat s) = Ok (bits_word (sbits (rr_stream r) (P - int M - int (L ! unat s)) (L ! unat s)), r')"
    "advance_window state (L ! unat s) (2 ^ M) (bits_word (sbits (rr_stream r) (P - int M - int (L ! unat s)) (L ! unat s))) = Ok state'"
    "window_at M r' state' (P - int (L ! unat s))" "rr_stream r' = rr_stream r"
proof -
  let ?b = "L ! unat s"
  have b: "?b \<le> M" "1 \<le> M" "M \<le> 11" "?b \<le> 57"
    using assms(1,3) code_span(2) [OF assms(1), of "unat s"] by (auto simp: lengths_ok_def code_at_def)
  have inv: "rr_inv r" "rr_bits_remaining r = P - int M" using assms(2) by (simp_all add: window_at_def)
  obtain r' where r': "rr_get_bits r ?b = Ok (bits_word (sbits (rr_stream r) (rr_bits_remaining r - int ?b) ?b), r')"
    "rr_inv r'" "rr_source r' = rr_source r" "rr_stream r' = rr_stream r" "rr_bits_remaining r' = rr_bits_remaining r - int ?b"
    by (rule rr_get_bitsE [OF inv(1) b(4)])
  note adv = window_advance [OF b(1-3), of "rr_stream r" P]
  show thesis
    using that [OF r'(1) [unfolded inv(2)]] adv r' inv assms(2) by (simp add: window_at_def)
qed

lemma decode_and_advance_ok:
  assumes "lengths_ok L M" "table_built L M (hd_table d)" "window_at M r (hd_state d) P" "code_at L M (rr_stream r) P s"
  obtains d' r' where "decode_and_advance d r = Ok (s, d', r')" "hd_table d' = hd_table d"
    "window_at M r' (hd_state d') (P - int (L ! unat s))" "rr_stream r' = rr_stream r"
proof -
  let ?b = "L ! unat s"
  note e = window_entry [OF assms(1,3,4)]
  have s: "unat s < 256" using unsigned_less [of s] by simp
  have b: "?b \<le> 11" using assms(1,4) code_span(2) [OF assms(1), of "unat s"] by (auto simp: lengths_ok_def code_at_def)
  have t: "ht_packed (hd_table d) = map huff_packed_of (spans M (ranked L M))" "length (spans M (ranked L M)) = 2 ^ M"
    using assms(2) length_table [OF assms(1)] by (simp_all add: table_built_def)
  obtain r' state' where st: "rr_get_bits r ?b = Ok (bits_word (sbits (rr_stream r) (P - int M - int ?b) ?b), r')"
    "advance_window (hd_state d) ?b (2 ^ M) (bits_word (sbits (rr_stream r) (P - int M - int ?b) ?b)) = Ok state'"
    "window_at M r' state' (P - int ?b)" "rr_stream r' = rr_stream r"
    by (rule window_step [OF assms(1,3,4)])
  have "decode_and_advance d r = Ok (s, d\<lparr>hd_state := state'\<rparr>, r')"
    using e t st(1,2) huff_packed_of_fields [OF s b] by (simp add: decode_and_advance_def Let_def)
  then show thesis using that st(3,4) by simp
qed

lemma decode_next_ok:
  assumes "lengths_ok L M" "table_built L M (hd_table d)" "window_at M r (hd_state d) P" "code_at L M (rr_stream r) P s"
  obtains d' r' where "hd_decode_symbol d = Ok s" "hd_next_state d r = Ok (L ! unat s, d', r')" "hd_table d' = hd_table d"
    "window_at M r' (hd_state d') (P - int (L ! unat s))" "rr_stream r' = rr_stream r"
proof -
  let ?b = "L ! unat s"
  note e = window_entry [OF assms(1,3,4)]
  have t: "ht_decode (hd_table d) = map entry_of (spans M (ranked L M))" "length (spans M (ranked L M)) = 2 ^ M"
    using assms(2) length_table [OF assms(1)] by (simp_all add: table_built_def)
  obtain r' state' where st: "rr_get_bits r ?b = Ok (bits_word (sbits (rr_stream r) (P - int M - int ?b) ?b), r')"
    "advance_window (hd_state d) ?b (2 ^ M) (bits_word (sbits (rr_stream r) (P - int M - int ?b) ?b)) = Ok state'"
    "window_at M r' state' (P - int ?b)" "rr_stream r' = rr_stream r"
    by (rule window_step [OF assms(1,3,4)])
  have "hd_decode_symbol d = Ok s" using e t by (simp add: hd_decode_symbol_def entry_of_def)
  moreover have "hd_next_state d r = Ok (?b, d\<lparr>hd_state := state'\<rparr>, r')"
    using e t st(1,2) by (simp add: hd_next_state_def entry_of_def)
  ultimately show thesis using that st(3,4) by simp
qed

section \<open>A whole stream\<close>

text \<open>The codes of \<open>dat\<close> lie back to back in front of \<open>P\<close>, the first symbol's code last.\<close>

definition codes_at :: "nat list \<Rightarrow> nat \<Rightarrow> bits \<Rightarrow> bytes \<Rightarrow> bool" where
  "codes_at L M bs dat \<longleftrightarrow> (\<forall>s\<in>set dat. unat s < length L \<and> 0 < L ! unat s)
     \<and> take (length (codes (huff_code L M) (rev dat))) bs = codes (huff_code L M) (rev dat)"

lemma length_huff_code [simp]: "length (huff_code L M s) = L ! unat s"
  by (simp add: huff_code_def)

lemma codes_at_head:
  assumes "codes_at L M bs (s # dat)"
  shows "code_at L M bs (int (length (codes (huff_code L M) (rev (s # dat))))) s" "codes_at L M bs dat"
    "int (length (codes (huff_code L M) (rev (s # dat)))) - int (L ! unat s) = int (length (codes (huff_code L M) (rev dat)))"
proof -
  let ?c = "codes (huff_code L M) (rev dat)" and ?h = "huff_code L M s"
  have t: "take (length ?c + length ?h) bs = ?c @ ?h" and l: "\<forall>x\<in>set (s # dat). unat x < length L \<and> 0 < L ! unat x"
    using assms by (simp_all add: codes_at_def)
  have "take (length ?c) (take (length ?c + length ?h) bs) = ?c" unfolding t by simp
  then show "codes_at L M bs dat" using l by (simp add: codes_at_def)
  have lb: "length ?c + length ?h \<le> length bs" using arg_cong [OF t, of length] by simp
  have "sbits bs (int (length ?c)) (length ?h) = take (length ?h) (drop (length ?c) bs)"
    using lb by (subst sbits_inside) simp_all
  also have "\<dots> = ?h" using t by (metis append_eq_conv_conj add_diff_cancel_left' drop_take)
  finally show "code_at L M bs (int (length (codes (huff_code L M) (rev (s # dat))))) s"
    using l by (simp add: code_at_def)
qed simp

text \<open>What \<open>encode_stream\<close> appends: the codes from the last symbol to the first, and the end marker.\<close>

lemma huff_encode_stream_ok:
  assumes w: "bw_inv w" "length (bw_bits w) mod 8 = 0" and t: "enc_built L M t" "lengths_ok L M"
    and dat: "\<forall>s\<in>set dat. unat s < length L \<and> 0 < L ! unat s"
  shows "\<exists>w' z. huff_encode_stream t dat w = Ok w' \<and> bw_inv w' \<and> z < 8
    \<and> bw_bits w' = bw_bits w @ codes (huff_code L M) (rev dat) @ True # replicate z False \<and> length (bw_bits w') mod 8 = 0"
proof -
  note c = enc_coded_by [OF t dat]
  have "bw_bits_in_partial w \<noteq> 60"
  proof
    assume "bw_bits_in_partial w = 60"
    then have "length (bw_bits w) mod 8 = 4" by (simp add: bw_bits_def)
    then show False using w(2) by simp
  qed
  then obtain w1 where w1: "write_packed_codes_rev (het_packed t) (het_aligned t) (of_nat (het_uniform_nb t)) dat w = Ok w1" "bw_inv w1"
    "bw_bits w1 = bw_bits w @ codes (huff_code L M) (rev dat)"
    using write_packed_codes_rev_spec_holds [OF w(1) c(1)] c(2) by blast
  obtain w' z where "write_end_marker w1 = Ok w'" "bw_inv w'" "z < 8"
    "bw_bits w' = bw_bits w1 @ True # replicate z False" "length (bw_bits w') mod 8 = 0"
    by (rule write_end_marker_correct [OF w1(2)])
  then show ?thesis using w1(1,3) by (auto simp: huff_encode_stream_def write_end_marker_def Let_def)
qed

text \<open>The reader on such a stream, with the marker skipped and the first window loaded.\<close>

lemma stream_start:
  assumes "lengths_ok L M" "table_built L M t" "bytes_bits src = codes (huff_code L M) (rev dat) @ True # replicate z False" "z < 8"
    and "\<forall>s\<in>set dat. unat s < length L \<and> 0 < L ! unat s"
  obtains r r' d where "rr_skip_padding_marker (rr_new src) = Ok (True, r)" "hd_init_state (hd_new t) r = Ok (M, d, r')"
    "hd_table d = t" "window_at M r' (hd_state d) (int (length (codes (huff_code L M) (rev dat))))" "codes_at L M (rr_stream r') dat"
proof -
  let ?c = "codes (huff_code L M) (rev dat)"
  have M: "M \<le> 57" "ht_max_num_bits t = M" using assms(1,2) by (simp_all add: lengths_ok_def table_built_def)
  from rr_has_skip [OF rr_has_new [of src, unfolded assms(3)] assms(4)] obtain r where
    r: "rr_skip_padding_marker (rr_new src) = Ok (True, r)" "rr_has r ?c" by blast
  have h: "rr_inv r" "rr_bits_remaining r = int (length ?c)" "take (length ?c) (rr_stream r) = ?c" using r(2) by (simp_all add: rr_has_def)
  obtain r' where r': "rr_get_bits r M = Ok (bits_word (sbits (rr_stream r) (rr_bits_remaining r - int M) M), r')"
    "rr_inv r'" "rr_source r' = rr_source r" "rr_stream r' = rr_stream r" "rr_bits_remaining r' = rr_bits_remaining r - int M"
    by (rule rr_get_bitsE [OF h(1) M(1)])
  show thesis
    by (rule that [OF r(1), of "\<lparr>hd_table = t, hd_state = bits_word (sbits (rr_stream r) (rr_bits_remaining r - int M) M)\<rparr>" r'])
      (use r' h M assms(5) in \<open>simp_all add: hd_init_state_def hd_new_def window_at_def codes_at_def\<close>)
qed

end
