(* ===== verification/Huff_X2.thy ===== *)
theory Huff_X2
  imports Huff_Weights
begin

text \<open>
  The double-symbol decoding table of \<open>huff0/huff0_decoder.rs\<close>, \<open>build_x2_table\<close>: 2048 entries,
  each with one or two symbols, their number and the bits they take together.  The table is only
  kept when enough of the code space can be paired.
\<close>

unbundle bit_operations_syntax

fun rfold :: "('a \<Rightarrow> 's \<Rightarrow> ('e, 's) res) \<Rightarrow> 'a list \<Rightarrow> 's \<Rightarrow> ('e, 's) res" where
  "rfold f [] s = Ok s"
| "rfold f (x # xs) s = rbind (f x s) (rfold f xs)"

definition x2_entry :: "u32 \<Rightarrow> nat \<Rightarrow> nat \<Rightarrow> u32" where
  "x2_entry seq nb len = seq OR push_bit 16 (of_nat nb) OR push_bit 24 (of_nat len)"

text \<open>How many symbols have each weight, and the largest weight.\<close>

fun x2_stats :: "nat \<Rightarrow> nat list \<Rightarrow> nat list \<Rightarrow> nat \<Rightarrow> (unit, nat list \<times> nat) res" where
  "x2_stats baseline [] stats max_w = Ok (stats, max_w)"
| "x2_stats baseline (b # bs) stats max_w =
     (if b = 0 then x2_stats baseline bs stats max_w
      else
        rbind (rassert (b \<le> baseline)) (\<lambda>_.
        let w = baseline - b in
        rbind (rindex stats w) (\<lambda>c. x2_stats baseline bs (stats[w := c + 1]) (max max_w w))))"

text \<open>The part of the window space whose codes leave room for a second code.\<close>

fun x2_eligible :: "nat \<Rightarrow> nat \<Rightarrow> nat list \<Rightarrow> nat \<Rightarrow> nat" where
  "x2_eligible tlog min_bits [] slots = slots"
| "x2_eligible tlog min_bits (b # bs) slots =
     x2_eligible tlog min_bits bs
       (if b \<noteq> 0 \<and> 11 - int b \<ge> int min_bits then slots + 2 ^ (tlog + 1 - b + 10 - tlog) else slots)"

fun x2_starts :: "nat list \<Rightarrow> nat \<Rightarrow> nat list" where
  "x2_starts [] next' = []"
| "x2_starts (c # cs) next' = next' # x2_starts cs (next' + c)"

fun x2_sort :: "nat \<Rightarrow> nat list \<Rightarrow> nat \<Rightarrow> nat list \<Rightarrow> bytes \<Rightarrow> (unit, nat list \<times> bytes) res" where
  "x2_sort baseline [] sy ends slots = Ok (ends, slots)"
| "x2_sort baseline (b # bs) sy ends slots =
     (if b = 0 then x2_sort baseline bs (sy + 1) ends slots
      else
        let w = baseline - b in
        rbind (rindex ends w) (\<lambda>p. rbind (rindex slots p) (\<lambda>_.
          x2_sort baseline bs (sy + 1) (ends[w := p + 1]) (slots[p := of_nat sy]))))"

text \<open>Where the span of each weight starts in the window space.\<close>

fun x2_values :: "nat \<Rightarrow> nat \<Rightarrow> nat list \<Rightarrow> nat \<Rightarrow> nat list \<times> nat" where
  "x2_values tlog w [] acc = ([], acc)"
| "x2_values tlog w (c # cs) acc =
     (let (vs, r) = x2_values tlog (w + 1) cs (acc + c * 2 ^ (w + 10 - tlog)) in (acc # vs, r))"

record X2Tables =
  xt_baseline :: nat
  xt_min_bits :: nat
  xt_max_w :: nat
  xt_starts :: "nat list"
  xt_ends :: "nat list"
  xt_sorted :: bytes
  xt_values :: "nat list"

definition x2_value :: "X2Tables \<Rightarrow> nat \<Rightarrow> nat \<Rightarrow> nat" where
  "x2_value x consumed w =
     (if xt_min_bits x \<le> consumed \<and> int consumed \<le> 11 - int (xt_min_bits x) \<and> 1 \<le> w \<and> w \<le> xt_max_w x
      then drop_bit consumed (xt_values x ! w) else 0)"

definition x2_bucket :: "X2Tables \<Rightarrow> nat \<Rightarrow> (unit, bytes) res" where
  "x2_bucket x w =
     rbind (rindex (xt_starts x) w) (\<lambda>s. rbind (rindex (xt_ends x) w) (\<lambda>e.
     rbind (rassert (s \<le> e \<and> e \<le> length (xt_sorted x))) (\<lambda>_. Ok (take (e - s) (drop s (xt_sorted x))))))"

text \<open>The second symbols of weight \<open>w2\<close> behind the first symbol, from \<open>base\<close> on.\<close>

definition x2_double :: "u8 \<Rightarrow> nat \<Rightarrow> u8 \<Rightarrow> u32 list \<times> nat \<Rightarrow> (unit, u32 list \<times> nat) res" where
  "x2_double base_seq total_bits second = (\<lambda>(dt, base).
     rbind (rassert (total_bits \<le> 11)) (\<lambda>_.
     let span = 2 ^ (11 - total_bits) in
     rbind (fill_range dt base span (x2_entry (ucast base_seq OR push_bit 8 (ucast second)) total_bits 2)) (\<lambda>dt.
       Ok (dt, base + span))))"

definition x2_seconds :: "X2Tables \<Rightarrow> u8 \<Rightarrow> nat \<Rightarrow> nat \<Rightarrow> nat \<Rightarrow> u32 list \<Rightarrow> (unit, u32 list) res" where
  "x2_seconds x base_seq nb start w2 dt =
     rbind (rassert (w2 \<le> xt_baseline x)) (\<lambda>_.
     rbind (x2_bucket x w2) (\<lambda>ss.
     rbind (rfold (x2_double base_seq (xt_baseline x - w2 + nb)) ss (dt, start + x2_value x nb w2)) (\<lambda>(dt, _). Ok dt)))"

text \<open>The span of one first symbol: single entries, then the doubles by weight.\<close>

definition x2_first :: "X2Tables \<Rightarrow> nat \<Rightarrow> u8 \<Rightarrow> u32 list \<times> nat \<Rightarrow> (unit, u32 list \<times> nat) res" where
  "x2_first x nb base_seq = (\<lambda>(dt, start).
     let min_weight = nat (max (int nb + int (xt_baseline x) - 11) 1) in
     rbind (fill_range dt start (x2_value x nb min_weight) (x2_entry (ucast base_seq) nb 1)) (\<lambda>dt.
     rbind (rfold (x2_seconds x base_seq nb start) [min_weight..<xt_max_w x + 1] dt) (\<lambda>dt.
       Ok (dt, start + 2 ^ (11 - nb)))))"

definition x2_single :: "nat \<Rightarrow> u8 \<Rightarrow> u32 list \<times> nat \<Rightarrow> (unit, u32 list \<times> nat) res" where
  "x2_single nb sy = (\<lambda>(dt, start).
     rbind (fill_range dt start (2 ^ (11 - nb)) (x2_entry (ucast sy) nb 1)) (\<lambda>dt. Ok (dt, start + 2 ^ (11 - nb))))"

definition x2_weight :: "X2Tables \<Rightarrow> nat \<Rightarrow> u32 list \<Rightarrow> (unit, u32 list) res" where
  "x2_weight x w dt =
     (let nb = xt_baseline x - w in
      rbind (rassert (nb \<le> 11)) (\<lambda>_.
      rbind (x2_bucket x w) (\<lambda>ss.
      rbind (rindex (xt_values x) w) (\<lambda>start.
      rbind (rfold (if 11 - int nb \<ge> int (xt_min_bits x) then x2_first x nb else x2_single nb) ss (dt, start))
        (\<lambda>(dt, _). Ok dt)))))"

definition build_x2_table :: "HuffmanTable \<Rightarrow> (unit, HuffmanTable) res" where
  "build_x2_table t =
     (let tlog = ht_max_num_bits t; baseline = tlog + 1 in
      rbind (rassert (1 \<le> tlog \<and> tlog \<le> 11)) (\<lambda>_.
      rbind (x2_stats baseline (ht_bits t) (replicate 13 0) 0) (\<lambda>(stats, max_w).
      rbind (rassert (max_w \<le> baseline)) (\<lambda>_.
      let min_bits = baseline - max_w; slots = x2_eligible tlog min_bits (ht_bits t) 0 in
      if slots * 5 < 4 * 2 ^ 11 then Ok (t\<lparr>ht_x2 := []\<rparr>)
      else
        let counts = take max_w (tl stats); starts = 0 # x2_starts counts 0;
            (values', acc) = x2_values tlog 1 counts 0 in
        rbind (x2_sort baseline (ht_bits t) 0 starts (replicate (sum_list counts) 0)) (\<lambda>(ends, sorted').
        rbind (rassert (acc = 2 ^ 11)) (\<lambda>_.
        let x = \<lparr>xt_baseline = baseline, xt_min_bits = min_bits, xt_max_w = max_w, xt_starts = starts,
                 xt_ends = ends, xt_sorted = sorted', xt_values = 0 # values'\<rparr> in
        rbind (rfold (x2_weight x) [1..<max_w + 1] (replicate (2 ^ 11) 0)) (\<lambda>dt. Ok (t\<lparr>ht_x2 := dt\<rparr>))))))))"

end
