(* ===== verification/Huff_X2_Table.thy ===== *)
theory Huff_X2_Table
  imports Huff_Codes Huff_X2
begin

text \<open>
  What \<open>build_x2_table\<close> builds: every window of eleven bits is mapped to the symbol whose code it
  starts with and, when the bits behind that code start with another whole code, to that one too.
\<close>

unbundle bit_operations_syntax

section \<open>The window space\<close>

lemma lengths_ok_11:
  assumes "lengths_ok L M"
  shows "lengths_ok L 11"
proof -
  have M: "M \<le> 11" "\<forall>l\<in>set L. l \<le> M" "kraft M L = 2 ^ M" using assms by (auto simp: lengths_ok_def list_all_iff)
  have "kraft 11 xs = 2 ^ (11 - M) * kraft M xs" if "\<forall>l\<in>set xs. l \<le> M" for xs
    using that
  proof (induction xs)
    case (Cons l xs)
    then have "11 - l = (11 - M) + (M - l)" using M(1) by simp
    then have "(2::nat) ^ (11 - l) = 2 ^ (11 - M) * 2 ^ (M - l)" by (simp only: power_add)
    then show ?case using Cons by (simp add: kraft_def distrib_left)
  qed (simp add: kraft_def)
  then have "kraft 11 L = 2 ^ (11 - M) * 2 ^ M" using M by simp
  also have "\<dots> = 2 ^ 11" using M(1) by (simp flip: power_add)
  finally show ?thesis using assms M by (auto simp: lengths_ok_def list_all_iff)
qed

lemma above_scale:
  assumes "M \<le> N" "\<forall>l\<in>set L. l \<le> M"
  shows "above N L b = 2 ^ (N - M) * above M L b"
  using assms(2)
proof (induction L)
  case (Cons l L)
  then have "N - l = (N - M) + (M - l)" using assms(1) by simp
  then have "(2::nat) ^ (N - l) = 2 ^ (N - M) * 2 ^ (M - l)" by (simp only: power_add)
  then show ?case using Cons by (simp add: above_def distrib_left)
qed (simp add: above_def)

lemma huff_code_11:
  assumes "lengths_ok L M" "unat s < length L" "0 < L ! unat s"
  shows "huff_code L 11 s = huff_code L M s"
proof -
  let ?b = "L ! unat s"
  have M: "M \<le> 11" "\<forall>l\<in>set L. l \<le> M" using assms(1) by (auto simp: lengths_ok_def list_all_iff)
  have b: "?b \<le> M" by (rule code_span(2) [OF assms])
  then have "11 - ?b = (11 - M) + (M - ?b)" using M(1) by simp
  then have "(2::nat) ^ (11 - ?b) = 2 ^ (11 - M) * 2 ^ (M - ?b)" by (simp only: power_add)
  then have "code_of L 11 (unat s) = code_of L M (unat s)" by (simp add: code_of_def above_scale [OF M])
  then show ?thesis by (simp add: huff_code_def)
qed

text \<open>The symbol and the code length that a window starts with.\<close>

definition starts_with :: "nat list \<Rightarrow> nat \<Rightarrow> nat \<times> nat" where
  "starts_with L v = spans 11 (ranked L 11) ! v"

lemma set_ranked: "(s, b) \<in> set (ranked L n) \<longleftrightarrow> s < length L \<and> L ! s = b \<and> 0 < b \<and> b \<le> n"
  by (induction n) (auto simp: set_syms_at le_Suc_eq)

lemma distinct_ranked: "distinct (ranked L n)"
proof (induction n)
  case (Suc n)
  have "distinct (map (\<lambda>s. (s, Suc n)) (syms_at L (Suc n)))" by (simp add: distinct_map syms_at_def inj_on_def)
  then show ?case using Suc by (auto simp: set_ranked)
qed simp

lemma spans_index:
  assumes "v < length (spans M R)"
  shows "\<exists>pre s b post. R = pre @ (s, b) # post \<and> length (spans M pre) \<le> v \<and> v < length (spans M pre) + 2 ^ (M - b) \<and> spans M R ! v = (s, b)"
  using assms
proof (induction R arbitrary: v)
  case (Cons x R)
  obtain s b where x: "x = (s, b)" by (cases x)
  show ?case
  proof (cases "v < 2 ^ (M - b)")
    case True
    then show ?thesis by (intro exI [of _ "[]"] exI [of _ s] exI [of _ b] exI [of _ R]) (simp add: x nth_append)
  next
    case False
    then have "v - 2 ^ (M - b) < length (spans M R)" using Cons.prems by (simp add: x)
    from Cons.IH [OF this] obtain pre s' b' post where
      h: "R = pre @ (s', b') # post" "length (spans M pre) \<le> v - 2 ^ (M - b)" "v - 2 ^ (M - b) < length (spans M pre) + 2 ^ (M - b')"
      "spans M R ! (v - 2 ^ (M - b)) = (s', b')" by blast
    have "spans M (x # R) ! v = (s', b')" using h(4) False by (simp add: x nth_append)
    moreover have "length (spans M (x # pre)) \<le> v" "v < length (spans M (x # pre)) + 2 ^ (M - b')" using h(2,3) False by (simp_all add: x)
    moreover have "x # R = (x # pre) @ (s', b') # post" using h(1) by simp
    ultimately show ?thesis by blast
  qed
qed simp

lemma span_begin:
  assumes ok: "lengths_ok L 11" and R: "ranked L 11 = pre @ (s, b) # post"
  shows "length (spans 11 pre) = code_of L 11 s * 2 ^ (11 - b)"
proof -
  have "(s, b) \<in> set (ranked L 11)" using R by simp
  then have s: "s < length L" "b = L ! s" "0 < L ! s" "L ! s \<le> 11" by (auto simp: set_ranked)
  let ?w = "2 ^ (11 - L ! s) :: nat" and ?c = "code_of L 11 s"
  have at: "length (spans 11 pre) \<le> u \<and> u < length (spans 11 pre) + ?w" if "u div ?w = ?c" for u
  proof -
    have e: "spans 11 (ranked L 11) ! u = (s, b)" "u < 2 ^ 11" using table_lookup [OF ok s(1,3) that] s(2) by simp_all
    then have "u < length (spans 11 (ranked L 11))" using length_table [OF ok] by simp
    from spans_index [OF this] obtain pre' s' b' post' where
      R': "ranked L 11 = pre' @ (s', b') # post'" "length (spans 11 pre') \<le> u" "u < length (spans 11 pre') + 2 ^ (11 - b')" "spans 11 (ranked L 11) ! u = (s', b')" by blast
    have "(s', b') = (s, b)" using R'(4) e(1) by simp
    then have "pre' @ (s, b) # post' = pre @ (s, b) # post" using R R'(1) by simp
    moreover have "distinct (pre @ (s, b) # post)" using distinct_ranked [of L 11] R by simp
    ultimately have "pre' = pre" using append_Cons_eq_iff [of "(s, b)" pre post pre' post'] by simp
    then show ?thesis using R'(2,3) \<open>(s', b') = (s, b)\<close> s(2) by simp
  qed
  have dv: "(?c * ?w + r) div ?w = ?c" if "r < ?w" for r using that by simp
  have "length (spans 11 pre) \<le> ?c * ?w" using at [OF dv, of 0] by simp
  moreover have "?c * ?w + (?w - 1) < length (spans 11 pre) + ?w" using at [OF dv, of "?w - 1"] by simp
  ultimately show ?thesis using s(2) by simp
qed

lemma starts_with_code:
  assumes ok: "lengths_ok L 11" and v: "v < 2 ^ 11"
  obtains s where "starts_with L v = (s, L ! s)" "s < length L" "0 < L ! s" "L ! s \<le> 11" "v div 2 ^ (11 - L ! s) = code_of L 11 s"
proof -
  have "v < length (spans 11 (ranked L 11))" using v length_table [OF ok] by simp
  from spans_index [OF this] obtain pre s b post where
    R: "ranked L 11 = pre @ (s, b) # post" "length (spans 11 pre) \<le> v" "v < length (spans 11 pre) + 2 ^ (11 - b)" "spans 11 (ranked L 11) ! v = (s, b)" by blast
  have "(s, b) \<in> set (ranked L 11)" using R(1) by simp
  then have s: "s < length L" "b = L ! s" "0 < L ! s" "L ! s \<le> 11" by (auto simp: set_ranked)
  let ?w = "2 ^ (11 - L ! s) :: nat" and ?c = "code_of L 11 s"
  have dv: "(?c * ?w + r) div ?w = ?c" if "r < ?w" for r using that by simp
  have "length (spans 11 pre) = ?c * ?w" using span_begin [OF ok R(1)] s(2) by simp
  then have "v - ?c * ?w < ?w" "?c * ?w + (v - ?c * ?w) = v" using R(2,3) s(2) by simp_all
  then have "v div ?w = ?c" using dv by metis
  then show thesis using that [of s] R(4) s by (simp add: starts_with_def)
qed

lemma starts_with_same:
  assumes "lengths_ok L 11" "v < 2 ^ 11" "starts_with L v = (s, b)" "v' div 2 ^ (11 - b) = v div 2 ^ (11 - b)"
  shows "starts_with L v' = (s, b)" "v' < 2 ^ 11"
proof -
  obtain s' where s': "starts_with L v = (s', L ! s')" "s' < length L" "0 < L ! s'" "v div 2 ^ (11 - L ! s') = code_of L 11 s'"
    by (rule starts_with_code [OF assms(1,2)])
  then have e: "s' = s" "b = L ! s" using assms(3) by simp_all
  have "v' div 2 ^ (11 - L ! s) = code_of L 11 s" using assms(4) s'(4) e by simp
  from table_lookup [OF assms(1) _ _ this] s' e show "starts_with L v' = (s, b)" "v' < 2 ^ 11" by (simp_all add: starts_with_def)
qed

section \<open>The locals of the build\<close>

lemma bucket_weights: "\<forall>l\<in>set L. l \<le> M \<Longrightarrow> 1 \<le> w \<Longrightarrow> w \<le> M \<Longrightarrow> syms_at (map (length_of M) L) w = syms_at L (M + 1 - w)"
  unfolding syms_at_def by (rule filter_cong) (auto simp: length_of_def)

lemma count_weights: "\<forall>l\<in>set L. l \<le> M \<Longrightarrow> 1 \<le> w \<Longrightarrow> w \<le> M \<Longrightarrow> count_list (map (length_of M) L) w = count_list L (M + 1 - w)"
  by (induction L) (auto simp: length_of_def)

lemma x2_stats_ok:
  assumes "\<forall>l\<in>set bs. l \<le> M" "M + 1 < length stats"
  shows "\<exists>stats' m. x2_stats (M + 1) bs stats max_w = Ok (stats', m) \<and> length stats' = length stats
    \<and> (\<forall>w. 0 < w \<longrightarrow> w < length stats \<longrightarrow> stats' ! w = stats ! w + count_list (map (length_of M) bs) w)
    \<and> max_w \<le> m \<and> (\<forall>w\<in>set (map (length_of M) bs). w \<le> m) \<and> (m = max_w \<or> m \<in> set (map (length_of M) bs))"
  using assms
proof (induction bs arbitrary: stats max_w)
  case (Cons b bs)
  show ?case
  proof (cases "b = 0")
    case True
    then show ?thesis using Cons.IH [of stats max_w] Cons.prems by (auto simp: length_of_def)
  next
    case False
    let ?w = "M + 1 - b"
    have w: "?w < length stats" "length_of M b = ?w" "0 < ?w" using Cons.prems False by (auto simp: length_of_def)
    obtain stats' m where r: "x2_stats (M + 1) bs (stats[?w := stats ! ?w + 1]) (max max_w ?w) = Ok (stats', m)" "length stats' = length stats"
      "\<forall>w. 0 < w \<longrightarrow> w < length stats \<longrightarrow> stats' ! w = (stats[?w := stats ! ?w + 1]) ! w + count_list (map (length_of M) bs) w"
      "max max_w ?w \<le> m" "\<forall>w\<in>set (map (length_of M) bs). w \<le> m" "m = max max_w ?w \<or> m \<in> set (map (length_of M) bs)"
      using Cons.IH [of "stats[?w := stats ! ?w + 1]" "max max_w ?w"] Cons.prems by auto
    have "x2_stats (M + 1) (b # bs) stats max_w = Ok (stats', m)" using False Cons.prems w(1) r(1) by (simp add: Let_def)
    moreover have "\<forall>v. 0 < v \<longrightarrow> v < length stats \<longrightarrow> stats' ! v = stats ! v + count_list (map (length_of M) (b # bs)) v"
      using r(3) w by (auto simp: nth_list_update)
    ultimately show ?thesis using r(2,4-6) w(2) by (auto simp: max_def split: if_splits)
  qed
qed simp

lemma x2_starts_nth: "i < length cs \<Longrightarrow> x2_starts cs a ! i = a + sum_list (take i cs)" "length (x2_starts cs a) = length cs"
  by (induction cs arbitrary: a i) (auto simp: nth_Cons' take_Cons')

lemma x2_values_nth:
  "x2_values M w cs acc = (vs, r) \<Longrightarrow> length vs = length cs \<and> r = acc + (\<Sum>j<length cs. cs ! j * 2 ^ (w + j + 10 - M))
    \<and> (\<forall>i<length cs. vs ! i = acc + (\<Sum>j<i. cs ! j * 2 ^ (w + j + 10 - M)))"
proof (induction cs arbitrary: w acc vs r)
  case (Cons c cs)
  obtain us where us: "x2_values M (w + 1) cs (acc + c * 2 ^ (w + 10 - M)) = (us, r)" "vs = acc # us"
    using Cons.prems by (auto simp: Let_def split: prod.splits)
  note ih = Cons.IH [OF us(1)]
  have s: "(\<Sum>j<Suc i. (c # cs) ! j * 2 ^ (w + j + 10 - M)) = c * 2 ^ (w + 10 - M) + (\<Sum>j<i. cs ! j * 2 ^ (w + 1 + j + 10 - M))" for i
    by (simp add: sum.lessThan_Suc_shift del: sum.lessThan_Suc)
  have "vs ! i = acc + (\<Sum>j<i. (c # cs) ! j * 2 ^ (w + j + 10 - M))" if "i < length (c # cs)" for i
    using that ih by (cases i) (simp_all add: us(2) s del: sum.lessThan_Suc)
  then show ?case using ih by (simp add: us(2) s del: sum.lessThan_Suc)
qed simp

lemma x2_sort_bucket:
  assumes "\<forall>l\<in>set bs. l \<le> M" "bucket_sort (map (length_of M) bs) sy ends slots = Ok slots'"
  shows "\<exists>ends'. x2_sort (M + 1) bs sy ends slots = Ok (ends', slots') \<and> length ends' = length ends
    \<and> (\<forall>w. 0 < w \<longrightarrow> w < length ends \<longrightarrow> ends' ! w = ends ! w + count_list (map (length_of M) bs) w)"
  using assms
proof (induction bs arbitrary: sy ends slots)
  case (Cons b bs)
  show ?case
  proof (cases "b = 0")
    case True
    then show ?thesis using Cons by (simp add: length_of_def)
  next
    case False
    let ?w = "M + 1 - b"
    have w: "length_of M b = ?w" "0 < ?w" using Cons.prems(1) False by (auto simp: length_of_def)
    then have i: "?w < length ends" "ends ! ?w < length slots"
      "bucket_sort (map (length_of M) bs) (sy + 1) (ends[?w := ends ! ?w + 1]) (slots[ends ! ?w := of_nat sy]) = Ok slots'"
      using Cons.prems(2) by (auto simp: rbind_eq_Ok rindex_eq_Ok)
    have "\<forall>l\<in>set bs. l \<le> M" using Cons.prems(1) by simp
    from Cons.IH [OF this i(3)] obtain ends' where
      r: "x2_sort (M + 1) bs (sy + 1) (ends[?w := ends ! ?w + 1]) (slots[ends ! ?w := of_nat sy]) = Ok (ends', slots')" "length ends' = length ends"
      "\<forall>w. 0 < w \<longrightarrow> w < length ends \<longrightarrow> ends' ! w = (ends[?w := ends ! ?w + 1]) ! w + count_list (map (length_of M) bs) w" by auto
    then show ?thesis using False i(1,2) w by (auto simp: Let_def nth_list_update)
  qed
qed simp

text \<open>The buckets of the sorted symbols and the starts of their spans.\<close>

definition x2_tables :: "nat list \<Rightarrow> nat \<Rightarrow> nat \<Rightarrow> X2Tables \<Rightarrow> bool" where
  "x2_tables L M mw x \<longleftrightarrow> 1 \<le> mw \<and> mw \<le> M \<and> xt_baseline x = M + 1 \<and> xt_min_bits x = M + 1 - mw \<and> xt_max_w x = mw
     \<and> (\<forall>l\<in>set L. l = 0 \<or> M + 1 - mw \<le> l) \<and> length (xt_values x) = mw + 1
     \<and> (\<forall>w. 1 \<le> w \<longrightarrow> w \<le> mw \<longrightarrow> x2_bucket x w = Ok (map of_nat (syms_at L (M + 1 - w))) \<and> xt_values x ! w = above 11 L (M + 1 - w))"

lemma above_rev:
  assumes "\<forall>l\<in>set L. l \<le> M" "i \<le> M"
  shows "(\<Sum>j<i. count_list L (M - j) * 2 ^ (11 - (M - j))) = above 11 L (M - i)"
  using assms(2)
proof (induction i)
  case 0
  have "above 11 L M = 0" using assms(1) by (induction L) (auto simp: above_def)
  then show ?case by simp
next
  case (Suc i)
  have e: "Suc (M - Suc i) = M - i" using Suc.prems by simp
  have "above 11 L (M - Suc i) = above 11 L (M - i) + count_list L (M - i) * 2 ^ (11 - (M - i))"
    using above_step [of 11 L "M - Suc i"] by (simp only: e)
  then show ?case using Suc by simp
qed

lemma begin_of_counts: "1 \<le> w \<Longrightarrow> begin_of W w = sum_list (map (count_list W) [1..<w])"
proof (induction w rule: dec_induct)
  case base
  show ?case by (simp add: begin_of_def)
next
  case (step w)
  have "begin_of W (Suc w) = begin_of W w + count_list W w"
    using begin_of_below [of w W] begin_of_below [of "Suc w" W] step(1) by simp
  then show ?case using step by simp
qed

lemma x2_locals:
  assumes "lengths_ok L M"
  obtains stats mw ends slots x where
    "x2_stats (M + 1) L (replicate 13 0) 0 = Ok (stats, mw)" "1 \<le> mw" "mw \<le> M"
    "x2_sort (M + 1) L 0 (0 # x2_starts (take mw (tl stats)) 0) (replicate (sum_list (take mw (tl stats))) 0) = Ok (ends, slots)"
    "snd (x2_values M 1 (take mw (tl stats)) 0) = 2 ^ 11"
    "x = \<lparr>xt_baseline = M + 1, xt_min_bits = M + 1 - mw, xt_max_w = mw, xt_starts = 0 # x2_starts (take mw (tl stats)) 0,
       xt_ends = ends, xt_sorted = slots, xt_values = 0 # fst (x2_values M 1 (take mw (tl stats)) 0)\<rparr>" "x2_tables L M mw x"
proof -
  let ?W = "map (length_of M) L"
  have M: "1 \<le> M" "M \<le> 11" and le: "\<forall>l\<in>set L. l \<le> M" and kr: "kraft M L = 2 ^ M" using assms by (auto simp: lengths_ok_def list_all_iff)
  obtain stats mw where st: "x2_stats (M + 1) L (replicate 13 0) 0 = Ok (stats, mw)" "length stats = 13"
    "\<forall>w. 0 < w \<longrightarrow> w < 13 \<longrightarrow> stats ! w = count_list ?W w" "\<forall>w\<in>set ?W. w \<le> mw" "mw = 0 \<or> mw \<in> set ?W"
    using x2_stats_ok [OF le, of "replicate 13 0" 0] M(2) by (auto simp: nth_Cons' numeral_eq_Suc)
  have lw: "\<forall>l\<in>set L. length_of M l \<le> mw" using st(4) by auto
  have mw: "1 \<le> mw"
  proof (rule ccontr)
    assume n: "\<not> 1 \<le> mw"
    have "\<forall>l\<in>set L. l = 0"
    proof
      fix l assume "l \<in> set L"
      then have "length_of M l \<le> mw" "l \<le> M" using lw le by auto
      then show "l = 0" using n by (auto simp: length_of_def split: if_splits)
    qed
    then have "kraft M L = 0" by (induction L) (auto simp: kraft_def)
    then show False using kr by simp
  qed
  then have mwM: "mw \<le> M" using st(5) le by (auto simp: length_of_def split: if_splits)
  define cs where "cs = take mw (tl stats)"
  have csm: "cs = map (count_list ?W) [1..<mw + 1]"
    using st(2,3) mwM M unfolding cs_def by (intro nth_equalityI) (auto simp: nth_tl simp del: upt_Suc upt_rec_numeral)
  have cl: "length cs = mw" by (simp add: csm)
  have tk: "take i [1..<mw + 1] = [1..<i + 1]" if "i \<le> mw" for i using that by (simp add: take_upt del: upt_Suc)
  have starts: "(0 # x2_starts cs 0) ! w = begin_of ?W w" if "1 \<le> w" "w \<le> mw" for w
  proof -
    have "(0 # x2_starts cs 0) ! w = sum_list (take (w - 1) cs)" using that x2_starts_nth(1) [of "w - 1" cs 0] cl by (simp add: nth_Cons')
    also have "\<dots> = sum_list (map (count_list ?W) [1..<w])" unfolding csm take_map using that tk [of "w - 1"] by simp
    finally show ?thesis using begin_of_counts [OF that(1), of ?W] by simp
  qed
  have tot: "sum_list cs = begin_of ?W (mw + 1)" unfolding csm using begin_of_counts [of "mw + 1" ?W] by simp
  have fit: "\<forall>w<mw + 1. 0 < w \<longrightarrow> begin_of ?W w + count_list ?W w \<le> length (replicate (sum_list cs) (0 :: u8))"
  proof (intro allI impI)
    fix w assume w: "w < mw + 1" "0 < w"
    have "below ?W (Suc w) \<le> below ?W (mw + 1)" using w by (intro below_mono) simp
    then have "begin_of ?W w + count_list ?W w \<le> begin_of ?W (mw + 1)" using begin_of_below [of w ?W] begin_of_below [of "mw + 1" ?W] w by simp
    then show "begin_of ?W w + count_list ?W w \<le> length (replicate (sum_list cs) (0 :: u8))" by (simp add: tot)
  qed
  have sl: "length (0 # x2_starts cs 0) = mw + 1" using x2_starts_nth(2) [of cs 0] cl by simp
  have "\<exists>slots'. bucket_sort ?W (length ([] :: nat list)) (0 # x2_starts cs 0) (replicate (sum_list cs) 0) = Ok slots'
    \<and> length slots' = length (replicate (sum_list cs) (0 :: u8))
    \<and> (\<forall>w<mw + 1. 0 < w \<longrightarrow> (\<forall>j<count_list ?W w. slots' ! (begin_of ?W w + j) = of_nat (syms_at ?W w ! j)))"
    by (rule bucket_sort_fits [OF _ fit]) (use st(4) sl starts in \<open>auto simp: less_Suc_eq_le Suc_le_eq\<close>)
  then obtain slots where so: "bucket_sort ?W 0 (0 # x2_starts cs 0) (replicate (sum_list cs) 0) = Ok slots" "length slots = sum_list cs"
    "\<forall>w<mw + 1. 0 < w \<longrightarrow> (\<forall>j<count_list ?W w. slots ! (begin_of ?W w + j) = of_nat (syms_at ?W w ! j))" by auto
  from x2_sort_bucket [OF le so(1)] obtain ends where
    e: "x2_sort (M + 1) L 0 (0 # x2_starts cs 0) (replicate (sum_list cs) 0) = Ok (ends, slots)" "length ends = mw + 1"
    "\<forall>w. 0 < w \<longrightarrow> w < mw + 1 \<longrightarrow> ends ! w = begin_of ?W w + count_list ?W w" using sl starts by auto
  obtain vs r where v: "x2_values M 1 cs 0 = (vs, r)" by (metis surj_pair)
  note vn = x2_values_nth [OF v, unfolded cl]
  have cv: "cs ! j * 2 ^ (1 + j + 10 - M) = count_list L (M - j) * 2 ^ (11 - (M - j))" if "j < mw" for j
  proof -
    have "cs ! j = count_list L (M + 1 - (j + 1))" unfolding csm using that mwM count_weights [OF le, of "j + 1"] by (simp del: upt_Suc)
    moreover have "M + 1 - (j + 1) = M - j" by simp
    moreover have "1 + j + 10 - M = 11 - (M - j)" using that mwM M by linarith
    ultimately show ?thesis by (simp only:)
  qed
  have sums: "(\<Sum>j<i. cs ! j * 2 ^ (1 + j + 10 - M)) = above 11 L (M - i)" if "i \<le> mw" for i
  proof -
    have "(\<Sum>j<i. cs ! j * 2 ^ (1 + j + 10 - M)) = (\<Sum>j<i. count_list L (M - j) * 2 ^ (11 - (M - j)))"
      by (rule sum.cong [OF refl], rule cv) (use that in simp)
    also have "\<dots> = above 11 L (M - i)" by (rule above_rev [OF le]) (use that mwM in simp)
    finally show ?thesis .
  qed
  have no: "\<forall>l\<in>set L. l = 0 \<or> M + 1 - mw \<le> l"
  proof
    fix l assume "l \<in> set L"
    then have "length_of M l \<le> mw" using lw by auto
    then show "l = 0 \<or> M + 1 - mw \<le> l" by (auto simp: length_of_def split: if_splits)
  qed
  have "r = above 11 L (M - mw)" using vn sums [of mw] by simp
  also have "\<dots> = above 11 L 0"
    unfolding above_def using no mw by (intro arg_cong [where f = sum_list] map_cong) auto
  also have "\<dots> = 2 ^ 11" using lengths_ok_11 [OF assms] by (simp add: above_all lengths_ok_def)
  finally have r: "r = 2 ^ 11" .
  let ?x = "\<lparr>xt_baseline = M + 1, xt_min_bits = M + 1 - mw, xt_max_w = mw, xt_starts = 0 # x2_starts cs 0,
    xt_ends = ends, xt_sorted = slots, xt_values = 0 # fst (x2_values M 1 cs 0)\<rparr>"
  have "x2_bucket ?x w = Ok (map of_nat (syms_at L (M + 1 - w))) \<and> xt_values ?x ! w = above 11 L (M + 1 - w)" if "1 \<le> w" "w \<le> mw" for w
  proof -
    have f: "begin_of ?W w + count_list ?W w \<le> length slots" using fit that so(2) by simp
    have "take (count_list ?W w) (drop (begin_of ?W w) slots) = map of_nat (syms_at ?W w)"
      using so(3) that f by (intro bucket_slice) auto
    then have "x2_bucket ?x w = Ok (map of_nat (syms_at ?W w))"
      using starts [OF that] e(2,3) sl that f by (simp add: x2_bucket_def rindex_def del: nth_Cons_numeral)
    moreover have "xt_values ?x ! w = above 11 L (M - (w - 1))" using vn sums [of "w - 1"] that by (simp add: v [simplified] nth_Cons')
    ultimately show ?thesis using bucket_weights [OF le that(1)] that mwM by (simp add: Suc_diff_le)
  qed
  then have "x2_tables L M mw ?x" using mw mwM no vn by (simp add: x2_tables_def v [simplified])
  then show thesis using that [OF st(1) mw mwM, folded cs_def, OF e(1) _ refl] r v by simp
qed

section \<open>Writing the table\<close>

definition x2_one :: "nat \<Rightarrow> nat \<Rightarrow> u32" where
  "x2_one s b = x2_entry (ucast (of_nat s :: u8)) b 1"

definition x2_pair :: "nat \<Rightarrow> nat \<Rightarrow> nat \<Rightarrow> nat \<Rightarrow> u32" where
  "x2_pair s b s2 b2 = x2_entry (ucast (of_nat s :: u8) OR push_bit 8 (ucast (of_nat s2 :: u8))) (b2 + b) 2"

definition x2_doubles :: "nat list \<Rightarrow> nat \<Rightarrow> nat \<Rightarrow> nat \<Rightarrow> u32 list" where
  "x2_doubles L s b n = map (\<lambda>(s2, b2). x2_pair s b s2 b2) (spans (11 - b) (ranked L n))"

definition x2_block :: "nat list \<Rightarrow> nat \<Rightarrow> nat \<times> nat \<Rightarrow> u32 list" where
  "x2_block L mb = (\<lambda>(s, b). if b + mb \<le> 11
     then replicate (above 11 L (11 - b) div 2 ^ b) (x2_one s b) @ x2_doubles L s b (11 - b)
     else replicate (2 ^ (11 - b)) (x2_one s b))"

definition prefix_is :: "u32 list \<Rightarrow> u32 list \<Rightarrow> bool" where
  "prefix_is dt P \<longleftrightarrow> length dt = 2 ^ 11 \<and> take (length P) dt = P"

lemma fill_append:
  assumes "prefix_is dt P" "length P + n \<le> 2 ^ 11"
  shows "\<exists>dt'. fill_range dt (length P) n v = (Ok dt' :: ('e, _) res) \<and> prefix_is dt' (P @ replicate n v)"
  using assms by (auto simp: prefix_is_def fill_range_def)

lemma rfold_append:
  assumes "\<And>s dt P. s \<in> set ss \<Longrightarrow> prefix_is dt P \<Longrightarrow> length P + n \<le> 2 ^ 11
      \<Longrightarrow> \<exists>dt'. f (of_nat s :: u8) (dt, length P) = Ok (dt', length P + n) \<and> prefix_is dt' (P @ g s) \<and> length (g s) = n"
    and "prefix_is dt P" "length P + length ss * n \<le> 2 ^ 11"
  shows "\<exists>dt'. rfold f (map of_nat ss) (dt, length P) = Ok (dt', length P + length ss * n) \<and> prefix_is dt' (P @ concat (map g ss))"
  using assms
proof (induction ss arbitrary: dt P)
  case (Cons s ss)
  obtain dt1 where d: "f (of_nat s) (dt, length P) = Ok (dt1, length P + n)" "prefix_is dt1 (P @ g s)" "length (g s) = n"
    using Cons.prems(1) [of s dt P] Cons.prems(2,3) by auto
  have "\<exists>dt'. rfold f (map of_nat ss) (dt1, length (P @ g s)) = Ok (dt', length (P @ g s) + length ss * n) \<and> prefix_is dt' ((P @ g s) @ concat (map g ss))"
    by (rule Cons.IH [OF _ d(2)]) (use Cons.prems(1,3) d(3) in auto)
  then show ?case using d(1,3) by (simp add: add.assoc)
qed simp

lemma spans_map: "spans M (map (\<lambda>s. (s, b)) ss) = concat (map (\<lambda>s. replicate (2 ^ (M - b)) (s, b)) ss)"
  by (simp add: spans_def comp_def)

lemma concat_pairs:
  "map (\<lambda>(s2, b2). x2_pair s b s2 b2) (spans M (map (\<lambda>s. (s, b')) ss)) = concat (map (\<lambda>s2. replicate (2 ^ (M - b')) (x2_pair s b s2 b')) ss)"
  by (induction ss) simp_all

lemma ranked_ge:
  assumes "\<forall>l\<in>set L. l \<le> M" "M \<le> n"
  shows "ranked L n = ranked L M"
  using assms(2)
proof (induction n rule: dec_induct)
  case (step n)
  then have "syms_at L (Suc n) = []" using assms(1) by (fastforce simp: syms_at_def filter_empty_conv dest: nth_mem)
  then show ?case using step by simp
qed simp

lemma ranked_none: "\<forall>l\<in>set L. l = 0 \<or> n < l \<Longrightarrow> ranked L n = []"
  using set_ranked [of _ _ L n] by (metis last_in_set leD neq0_conv nth_mem surj_pair)

lemma length_spans_scale: "\<forall>(s, b)\<in>set R. b \<le> n \<Longrightarrow> length (spans (n + k) R) = 2 ^ k * length (spans n R)"
proof (induction R)
  case (Cons x R)
  obtain s b where x: "x = (s, b)" by (cases x)
  then have "n + k - b = k + (n - b)" using Cons.prems by simp
  then have "(2::nat) ^ (n + k - b) = 2 ^ k * 2 ^ (n - b)" by (simp only: power_add)
  then show ?case using Cons by (simp add: x distrib_left)
qed (simp add: spans_def)

lemma spans_scale: "\<forall>(s, b)\<in>set R. b \<le> n \<Longrightarrow> i < length (spans n R) \<Longrightarrow> spans (n + k) R ! (i * 2 ^ k) = spans n R ! i"
proof (induction R arbitrary: i)
  case (Cons x R)
  obtain s b where x: "x = (s, b)" by (cases x)
  then have "n + k - b = (n - b) + k" using Cons.prems by simp
  then have p: "(2::nat) ^ (n + k - b) = 2 ^ (n - b) * 2 ^ k" by (simp only: power_add)
  show ?case
  proof (cases "i < 2 ^ (n - b)")
    case True
    then have "i * 2 ^ k < 2 ^ (n - b) * 2 ^ k" by simp
    then show ?thesis using True by (simp add: x nth_append p)
  next
    case False
    then have "\<not> i * 2 ^ k < 2 ^ (n - b) * 2 ^ k" "i * 2 ^ k - 2 ^ (n - b) * 2 ^ k = (i - 2 ^ (n - b)) * 2 ^ k" by (simp_all add: diff_mult_distrib)
    then show ?thesis using False Cons by (simp add: x nth_append p)
  qed
qed (simp add: spans_def)

text \<open>The codes behind a code of length \<open>b\<close>: those of at most \<open>11 - b\<close> bits come last in the table.\<close>

lemma second_space:
  assumes ok: "lengths_ok L 11" and b: "b \<le> 11"
  shows "above 11 L (11 - b) = above 11 L (11 - b) div 2 ^ b * 2 ^ b"
    "above 11 L (11 - b) div 2 ^ b + length (spans (11 - b) (ranked L (11 - b))) = 2 ^ (11 - b)"
    "q < length (spans (11 - b) (ranked L (11 - b))) \<Longrightarrow>
      starts_with L ((above 11 L (11 - b) div 2 ^ b + q) * 2 ^ b) = spans (11 - b) (ranked L (11 - b)) ! q"
    "v < above 11 L (11 - b) \<Longrightarrow> 11 - b < snd (starts_with L v)"
proof -
  let ?c = "11 - b"
  have cb: "?c + b = 11" using b by simp
  have le: "\<forall>l\<in>set L. l \<le> 11" using ok by (simp add: lengths_ok_def list_all_iff)
  have "2 ^ (11 - ?c) dvd above 11 L ?c" by (rule above_dvd [OF ok]) simp
  then show sk: "above 11 L ?c = above 11 L ?c div 2 ^ b * 2 ^ b" using b by simp
  obtain pre where p: "ranked L 11 = pre @ ranked L ?c" "length (spans 11 pre) = above 11 L ?c"
    using ranked_split [OF _ le, of ?c] by auto
  have all: "\<forall>(s, b)\<in>set (ranked L ?c). b \<le> ?c" by (auto simp: set_ranked)
  note sc = length_spans_scale [OF all, of b, unfolded cb] and sn = spans_scale [OF all, of _ b, unfolded cb]
  have "above 11 L ?c + length (spans 11 (ranked L ?c)) = 2 ^ 11" using length_table [OF ok] by (simp add: p)
  also have "(2::nat) ^ 11 = 2 ^ ?c * 2 ^ b" using cb by (simp only: flip: power_add)
  finally have t: "above 11 L ?c + length (spans 11 (ranked L ?c)) = 2 ^ ?c * 2 ^ b" .
  have "(above 11 L ?c div 2 ^ b + length (spans ?c (ranked L ?c))) * 2 ^ b = above 11 L ?c div 2 ^ b * 2 ^ b + 2 ^ b * length (spans ?c (ranked L ?c))"
    by (simp only: distrib_right mult.commute [of "2 ^ b"])
  also have "\<dots> = 2 ^ ?c * 2 ^ b" unfolding sk [symmetric] sc [symmetric] by (rule t)
  finally have "(above 11 L ?c div 2 ^ b + length (spans ?c (ranked L ?c))) * 2 ^ b = 2 ^ ?c * 2 ^ b" .
  then show "above 11 L ?c div 2 ^ b + length (spans ?c (ranked L ?c)) = 2 ^ ?c" by (simp only: mult_cancel2) simp
  show "starts_with L ((above 11 L ?c div 2 ^ b + q) * 2 ^ b) = spans ?c (ranked L ?c) ! q" if "q < length (spans ?c (ranked L ?c))"
  proof -
    have e: "(above 11 L ?c div 2 ^ b + q) * 2 ^ b = above 11 L ?c + q * 2 ^ b" using sk by (simp add: distrib_right)
    show ?thesis unfolding starts_with_def e p(1) using sn [OF that] by (simp add: nth_append p(2))
  qed
  show "?c < snd (starts_with L v)" if "v < above 11 L ?c"
  proof -
    have "starts_with L v = spans 11 pre ! v" using that by (simp add: starts_with_def p(1) nth_append p(2))
    moreover have "v < length (spans 11 pre)" using that p(2) by simp
    ultimately have "starts_with L v \<in> set (spans 11 pre)" by simp
    then obtain s l where sl: "starts_with L v = (s, l)" "(s, l) \<in> set pre" by (auto simp: spans_def)
    have "(s, l) \<in> set (ranked L 11)" "(s, l) \<notin> set (ranked L ?c)" using sl(2) distinct_ranked [of L 11] by (auto simp: p(1))
    then show ?thesis using sl(1) by (auto simp: set_ranked)
  qed
qed

lemma length_block:
  assumes "lengths_ok L 11" "b \<le> 11"
  shows "length (x2_block L mb (s, b)) = 2 ^ (11 - b)"
  using second_space(2) [OF assms] by (simp add: x2_block_def x2_doubles_def)

lemma x2_double_step:
  assumes "prefix_is dt P" "length P + 2 ^ (11 - tb) \<le> 2 ^ 11" "tb \<le> 11"
  shows "\<exists>dt'. x2_double (of_nat s) tb (of_nat s2) (dt, length P) = Ok (dt', length P + 2 ^ (11 - tb))
    \<and> prefix_is dt' (P @ replicate (2 ^ (11 - tb)) (x2_entry (ucast (of_nat s :: u8) OR push_bit 8 (ucast (of_nat s2 :: u8))) tb 2))"
proof -
  obtain dt' where "fill_range dt (length P) (2 ^ (11 - tb)) (x2_entry (ucast (of_nat s :: u8) OR push_bit 8 (ucast (of_nat s2 :: u8))) tb 2) = (Ok dt' :: (unit, _) res)"
    "prefix_is dt' (P @ replicate (2 ^ (11 - tb)) (x2_entry (ucast (of_nat s :: u8) OR push_bit 8 (ucast (of_nat s2 :: u8))) tb 2))"
    using fill_append [OF assms(1,2)] by blast
  then show ?thesis using assms(3) by (simp add: x2_double_def)
qed

lemma seconds_range:
  assumes "lengths_ok L 11" "nb \<le> 11" "n \<le> 11 - nb"
  shows "above 11 L n div 2 ^ nb \<le> 2 ^ (11 - nb)"
proof -
  have "above 11 L n \<le> kraft 11 L" using above_split(2) [of n 11 L] assms(3) by simp
  then have "above 11 L n \<le> 2 ^ 11" using assms(1) by (simp add: lengths_ok_def)
  then have "above 11 L n div 2 ^ nb \<le> 2 ^ 11 div 2 ^ nb" by (rule div_le_mono)
  also have "\<dots> = 2 ^ (11 - nb)" using assms(2) by (simp add: power_diff)
  finally show ?thesis .
qed

lemma above_seconds:
  assumes "Suc n + nb \<le> 11"
  shows "above 11 L n div 2 ^ nb = above 11 L (Suc n) div 2 ^ nb + count_list L (Suc n) * 2 ^ (11 - nb - Suc n)"
proof -
  have "11 - Suc n = (11 - nb - Suc n) + nb" using assms by simp
  then have "above 11 L n = above 11 L (Suc n) + count_list L (Suc n) * 2 ^ (11 - nb - Suc n) * 2 ^ nb"
    using above_step [of 11 L n] by (simp only: power_add mult.assoc)
  then show ?thesis by (simp only: div_mult_self4) simp
qed

lemma x2_seconds_ok:
  assumes ok: "lengths_ok L 11" "\<forall>l\<in>set L. l \<le> M" and x: "x2_tables L M mw x"
    and nb: "xt_min_bits x \<le> nb" "nb + xt_min_bits x \<le> 11" "start + 2 ^ (11 - nb) \<le> 2 ^ 11"
    and "n \<le> M" "n + nb \<le> 11" "prefix_is dt P" "length P = start + above 11 L n div 2 ^ nb"
  shows "\<exists>dt'. rfold (x2_seconds x (of_nat s) nb start) [M + 1 - n..<mw + 1] dt = Ok dt' \<and> prefix_is dt' (P @ x2_doubles L s nb n)"
  using assms(7-10)
proof (induction n arbitrary: dt P)
  case 0
  have "mw \<le> M" using x by (simp add: x2_tables_def)
  then show ?case using "0.prems" by (simp add: x2_doubles_def)
next
  case (Suc n)
  have t: "1 \<le> mw" "mw \<le> M" "xt_baseline x = M + 1" "xt_min_bits x = M + 1 - mw" "xt_max_w x = mw" "\<forall>l\<in>set L. l = 0 \<or> M + 1 - mw \<le> l"
    and bk: "1 \<le> w \<Longrightarrow> w \<le> mw \<Longrightarrow> x2_bucket x w = Ok (map of_nat (syms_at L (M + 1 - w))) \<and> xt_values x ! w = above 11 L (M + 1 - w)" for w
    using x by (auto simp: x2_tables_def)
  show ?case
  proof (cases "M - n \<le> mw")
    case False
    then have "\<forall>l\<in>set L. l = 0 \<or> Suc n < l" using t(6) by fastforce
    then have "x2_doubles L s nb (Suc n) = []" using ranked_none by (simp add: x2_doubles_def del: ranked.simps)
    moreover have "[M + 1 - Suc n..<mw + 1] = []" using False by simp
    ultimately show ?thesis using Suc.prems(3) by (simp del: upt_Suc)
  next
    case True
    let ?w = "M - n" and ?ss = "syms_at L (Suc n)" and ?span = "2 ^ (11 - (Suc n + nb)) :: nat"
    have w: "1 \<le> ?w" "M + 1 - ?w = Suc n" "?w \<le> M + 1" "M + 1 - ?w + nb = Suc n + nb" using Suc.prems(1) by simp_all
    have ex: "11 - nb - Suc n = 11 - (Suc n + nb)" by simp
    note as = above_seconds [OF Suc.prems(2), of L, unfolded ex]
    have base: "start + x2_value x nb ?w = length P"
      using bk [OF w(1) True] w(1,2) True nb(1,2) t(4,5) Suc.prems(4) by (simp add: x2_value_def drop_bit_eq_div)
    have "above 11 L n div 2 ^ nb \<le> 2 ^ (11 - nb)" using Suc.prems(2) nb(2) by (intro seconds_range [OF ok(1)]) simp_all
    then have room: "length P + length ?ss * ?span \<le> 2 ^ 11" using as Suc.prems(4) nb(3) by (simp add: length_syms_at)
    let ?g = "\<lambda>s2. replicate ?span (x2_pair s nb s2 (Suc n))"
    have step: "\<exists>dt''. x2_double (of_nat s) (Suc n + nb) (of_nat s2) (dt', length P') = Ok (dt'', length P' + ?span) \<and> prefix_is dt'' (P' @ ?g s2) \<and> length (?g s2) = ?span"
      if "s2 \<in> set ?ss" "prefix_is dt' P'" "length P' + ?span \<le> 2 ^ 11" for s2 dt' P'
      using x2_double_step [OF that(2,3) Suc.prems(2), of s s2] unfolding x2_pair_def length_replicate by blast
    from rfold_append [where f = "x2_double (of_nat s) (Suc n + nb)" and g = ?g and n = ?span and ss = ?ss, OF step Suc.prems(3) room] obtain dt1 where d: "rfold (x2_double (of_nat s) (Suc n + nb)) (map of_nat ?ss) (dt, length P) = Ok (dt1, length P + length ?ss * ?span)"
      "prefix_is dt1 (P @ concat (map ?g ?ss))" by blast
    have "x2_seconds x (of_nat s) nb start ?w dt = Ok dt1"
      using bk [OF w(1) True] w d(1) base t(3) by (simp add: x2_seconds_def)
    moreover have "[M + 1 - Suc n..<mw + 1] = ?w # [M + 1 - n..<mw + 1]" using True Suc.prems(1) by (simp add: upt_rec [of "M - n"] Suc_diff_le)
    moreover have "length (P @ concat (map ?g ?ss)) = start + above 11 L n div 2 ^ nb"
      using as Suc.prems(4) by (simp add: length_concat comp_def sum_list_triv length_syms_at)
    with Suc.IH [OF _ _ d(2)] Suc.prems(1,2) obtain dt' where
      r: "rfold (x2_seconds x (of_nat s) nb start) [M + 1 - n..<mw + 1] dt1 = Ok dt'" "prefix_is dt' ((P @ concat (map ?g ?ss)) @ x2_doubles L s nb n)" by auto
    moreover have "concat (map ?g ?ss) @ x2_doubles L s nb n = x2_doubles L s nb (Suc n)"
      by (simp add: x2_doubles_def concat_pairs add.commute)
    ultimately show ?thesis by (simp del: upt_Suc)
  qed
qed

lemma x2_first_ok:
  assumes ok: "lengths_ok L 11" "\<forall>l\<in>set L. l \<le> M" "M \<le> 11" and x: "x2_tables L M mw x"
    and nb: "xt_min_bits x \<le> nb" "nb + xt_min_bits x \<le> 11" "nb \<le> M" and P: "prefix_is dt P" "length P + 2 ^ (11 - nb) \<le> 2 ^ 11"
  shows "\<exists>dt'. x2_first x nb (of_nat s) (dt, length P) = Ok (dt', length P + 2 ^ (11 - nb)) \<and> prefix_is dt' (P @ x2_block L (xt_min_bits x) (s, nb))"
proof -
  have t: "1 \<le> mw" "mw \<le> M" "xt_baseline x = M + 1" "xt_min_bits x = M + 1 - mw" "xt_max_w x = mw"
    and bk: "1 \<le> w \<Longrightarrow> w \<le> mw \<Longrightarrow> xt_values x ! w = above 11 L (M + 1 - w)" for w
    using x by (auto simp: x2_tables_def)
  define c where "c = min (11 - nb) M"
  have c: "c \<le> M" "c + nb \<le> 11" "M + 1 - mw \<le> c" "nb \<le> 11" using nb t ok(3) by (auto simp: c_def)
  have mwt: "nat (max (int nb + int (xt_baseline x) - 11) 1) = M + 1 - c" using t(3) nb(3) ok(3) by (auto simp: c_def)
  have w: "1 \<le> M + 1 - c" "M + 1 - c \<le> mw" "M + 1 - (M + 1 - c) = c" using c by auto
  have ab: "above 11 L c = above 11 L (11 - nb)" and rk: "ranked L c = ranked L (11 - nb)"
  proof -
    have z: "above 11 L b = 0" if "M \<le> b" for b using ok(2) that by (induction L) (auto simp: above_def)
    consider "c = 11 - nb" | "c = M" "M \<le> 11 - nb" by (cases "M \<le> 11 - nb") (auto simp: c_def)
    then show "above 11 L c = above 11 L (11 - nb)" by cases (simp_all only: z order_refl)
    consider "c = 11 - nb" | "c = M" "M \<le> 11 - nb" by (cases "M \<le> 11 - nb") (auto simp: c_def)
    then show "ranked L c = ranked L (11 - nb)"
    proof cases
      case 2
      from ranked_ge [OF ok(2) 2(2)] show ?thesis by (simp only: 2(1))
    qed (simp only:)
  qed
  let ?skip = "above 11 L (11 - nb) div 2 ^ nb"
  have skip: "x2_value x nb (M + 1 - c) = ?skip"
    using bk [OF w(1,2)] w nb(1,2) t(4,5) ab by (simp add: x2_value_def drop_bit_eq_div)
  have room: "length P + ?skip \<le> 2 ^ 11" using seconds_range [OF ok(1) c(4), of "11 - nb"] P(2) by simp
  obtain dt1 where d: "fill_range dt (length P) ?skip (x2_one s nb) = (Ok dt1 :: (unit, _) res)" "prefix_is dt1 (P @ replicate ?skip (x2_one s nb))"
    using fill_append [OF P(1) room] by blast
  have l: "length (P @ replicate ?skip (x2_one s nb)) = length P + above 11 L c div 2 ^ nb" by (simp add: ab)
  from x2_seconds_ok [OF ok(1,2) x nb(1,2) P(2) c(1,2) d(2) l] obtain dt2 where
    r: "rfold (x2_seconds x (of_nat s) nb (length P)) [M + 1 - c..<mw + 1] dt1 = Ok dt2"
    "prefix_is dt2 ((P @ replicate ?skip (x2_one s nb)) @ x2_doubles L s nb c)" by blast
  have "x2_first x nb (of_nat s) (dt, length P) = Ok (dt2, length P + 2 ^ (11 - nb))"
    using d(1) r(1) skip t(5) by (simp add: x2_first_def mwt x2_one_def del: upt_Suc)
  moreover have "x2_doubles L s nb c = x2_doubles L s nb (11 - nb)" by (simp only: x2_doubles_def rk)
  ultimately show ?thesis using r(2) nb(2) by (simp add: x2_block_def)
qed

lemma x2_single_ok:
  assumes "prefix_is dt P" "length P + 2 ^ (11 - nb) \<le> 2 ^ 11"
  shows "\<exists>dt'. x2_single nb (of_nat s) (dt, length P) = Ok (dt', length P + 2 ^ (11 - nb)) \<and> prefix_is dt' (P @ replicate (2 ^ (11 - nb)) (x2_one s nb))"
proof -
  obtain dt' where "fill_range dt (length P) (2 ^ (11 - nb)) (x2_one s nb) = (Ok dt' :: (unit, _) res)"
    "prefix_is dt' (P @ replicate (2 ^ (11 - nb)) (x2_one s nb))" using fill_append [OF assms] by blast
  then show ?thesis by (simp add: x2_single_def x2_one_def)
qed

lemma x2_weights_ok:
  assumes ok: "lengths_ok L 11" "\<forall>l\<in>set L. l \<le> M" "M \<le> 11" and x: "x2_tables L M mw x"
    and "n \<le> M" "prefix_is dt P" "length P = above 11 L n"
  shows "\<exists>dt'. rfold (x2_weight x) [M + 1 - n..<mw + 1] dt = Ok dt' \<and> prefix_is dt' (P @ concat (map (x2_block L (xt_min_bits x)) (ranked L n)))"
  using assms(5-7)
proof (induction n arbitrary: dt P)
  case 0
  have "mw \<le> M" using x by (simp add: x2_tables_def)
  then show ?case using "0.prems" by simp
next
  case (Suc n)
  have t: "1 \<le> mw" "mw \<le> M" "xt_baseline x = M + 1" "xt_min_bits x = M + 1 - mw" "xt_max_w x = mw" "\<forall>l\<in>set L. l = 0 \<or> M + 1 - mw \<le> l"
    "length (xt_values x) = mw + 1"
    and bk: "1 \<le> w \<Longrightarrow> w \<le> mw \<Longrightarrow> x2_bucket x w = Ok (map of_nat (syms_at L (M + 1 - w))) \<and> xt_values x ! w = above 11 L (M + 1 - w)" for w
    using x by (auto simp: x2_tables_def)
  show ?case
  proof (cases "M - n \<le> mw")
    case False
    then have "\<forall>l\<in>set L. l = 0 \<or> Suc n < l" using t(6) by fastforce
    then have "ranked L (Suc n) = []" by (rule ranked_none)
    moreover have "[M + 1 - Suc n..<mw + 1] = []" using False by simp
    ultimately show ?thesis using Suc.prems(2) by (simp del: upt_Suc ranked.simps)
  next
    case True
    let ?w = "M - n" and ?nb = "Suc n" and ?ss = "syms_at L (Suc n)" and ?span = "2 ^ (11 - Suc n) :: nat" and ?mb = "xt_min_bits x"
    have w: "1 \<le> ?w" "M + 1 - ?w = Suc n" "?w \<le> M + 1" "?nb \<le> 11" using Suc.prems(1) ok(3) by simp_all
    have st: "above 11 L n = length P + length ?ss * ?span" using above_step [of 11 L n] Suc.prems(3) by (simp add: length_syms_at)
    have "above 11 L n \<le> kraft 11 L" using above_split(2) [of n 11 L] Suc.prems(1) ok(3) by simp
    then have room: "length P + length ?ss * ?span \<le> 2 ^ 11" using ok(1) st by (simp add: lengths_ok_def)
    let ?g = "\<lambda>s. x2_block L ?mb (s, ?nb)" and ?f = "if 11 - int ?nb \<ge> int ?mb then x2_first x ?nb else x2_single ?nb"
    have mb: "?mb \<le> ?nb" using True t(4) w Suc.prems(1) by simp
    have step: "\<exists>dt''. ?f (of_nat s) (dt', length P') = Ok (dt'', length P' + ?span) \<and> prefix_is dt'' (P' @ ?g s) \<and> length (?g s) = ?span"
      if "s \<in> set ?ss" "prefix_is dt' P'" "length P' + ?span \<le> 2 ^ 11" for s dt' P'
    proof (cases "?nb + ?mb \<le> 11")
      case True
      then have "?f = x2_first x ?nb" by simp
      then show ?thesis using x2_first_ok [OF ok x mb True Suc.prems(1) that(2,3)] length_block [OF ok(1) w(4)] by (simp only:) blast
    next
      case False
      then have "?f = x2_single ?nb" "?g s = replicate ?span (x2_one s ?nb)" by (simp_all add: x2_block_def)
      then show ?thesis using x2_single_ok [OF that(2,3)] by (simp only: length_replicate) blast
    qed
    from rfold_append [where f = ?f and g = ?g and n = ?span and ss = ?ss, OF step Suc.prems(2) room] obtain dt1 where
      d: "rfold ?f (map of_nat ?ss) (dt, length P) = Ok (dt1, length P + length ?ss * ?span)" "prefix_is dt1 (P @ concat (map ?g ?ss))" by blast
    have "x2_weight x ?w dt = Ok dt1"
      using bk [OF w(1) True] w True d(1) t(3,7) Suc.prems(3) by (simp add: x2_weight_def rindex_def)
    moreover have "[M + 1 - Suc n..<mw + 1] = ?w # [M + 1 - n..<mw + 1]" using True Suc.prems(1) by (simp add: upt_rec [of "M - n"] Suc_diff_le)
    moreover have "length (P @ concat (map ?g ?ss)) = above 11 L n"
      using st length_block [OF ok(1) w(4)] by (simp add: length_concat comp_def sum_list_triv)
    with Suc.IH [OF _ d(2)] Suc.prems(1) obtain dt' where
      r: "rfold (x2_weight x) [M + 1 - n..<mw + 1] dt1 = Ok dt'"
      "prefix_is dt' ((P @ concat (map ?g ?ss)) @ concat (map (x2_block L ?mb) (ranked L n)))" by auto
    moreover have "concat (map ?g ?ss) @ concat (map (x2_block L ?mb) (ranked L n)) = concat (map (x2_block L ?mb) (ranked L (Suc n)))"
      by (simp add: comp_def)
    ultimately show ?thesis by (simp del: upt_Suc)
  qed
qed

section \<open>The table as a map\<close>

text \<open>What the table holds for the window \<open>v\<close>.\<close>

definition x2_window :: "nat list \<Rightarrow> nat \<Rightarrow> u32" where
  "x2_window L v = (let (s, b) = starts_with L v; (s2, b2) = starts_with L (v mod 2 ^ (11 - b) * 2 ^ b) in
     if b + b2 \<le> 11 then x2_pair s b s2 b2 else x2_one s b)"

definition x2_built :: "nat list \<Rightarrow> u32 list \<Rightarrow> bool" where
  "x2_built L dt \<longleftrightarrow> length dt = 2 ^ 11 \<and> (\<forall>v<2 ^ 11. dt ! v = x2_window L v)"

lemma concat_at:
  assumes "v < length (concat (map g R))" "\<forall>x\<in>set R. length (f x) = length (g x)"
  shows "\<exists>pre x post. R = pre @ x # post \<and> length (concat (map g pre)) \<le> v \<and> v < length (concat (map g pre)) + length (g x)
    \<and> concat (map g R) ! v = g x ! (v - length (concat (map g pre))) \<and> concat (map f R) ! v = f x ! (v - length (concat (map g pre)))"
  using assms
proof (induction R arbitrary: v)
  case (Cons x R)
  show ?case
  proof (cases "v < length (g x)")
    case True
    then show ?thesis using Cons.prems(2) by (intro exI [of _ "[]"] exI [of _ x] exI [of _ R]) (simp add: nth_append)
  next
    case False
    then have "v - length (g x) < length (concat (map g R))" using Cons.prems(1) by simp
    from Cons.IH [OF this] Cons.prems(2) obtain pre y post where
      h: "R = pre @ y # post" "length (concat (map g pre)) \<le> v - length (g x)" "v - length (g x) < length (concat (map g pre)) + length (g y)"
      "concat (map g R) ! (v - length (g x)) = g y ! (v - length (g x) - length (concat (map g pre)))"
      "concat (map f R) ! (v - length (g x)) = f y ! (v - length (g x) - length (concat (map g pre)))" by auto
    have "x # R = (x # pre) @ y # post" "length (concat (map g (x # pre))) = length (g x) + length (concat (map g pre))" using h(1) by simp_all
    moreover have "concat (map g (x # R)) ! v = concat (map g R) ! (v - length (g x))"
      "concat (map f (x # R)) ! v = concat (map f R) ! (v - length (g x))" using False Cons.prems(2) by (simp_all add: nth_append)
    moreover have "v - length (g x) - length (concat (map g pre)) = v - length (concat (map g (x # pre)))" by simp
    ultimately have "x # R = (x # pre) @ y # post \<and> length (concat (map g (x # pre))) \<le> v \<and> v < length (concat (map g (x # pre))) + length (g y)
      \<and> concat (map g (x # R)) ! v = g y ! (v - length (concat (map g (x # pre)))) \<and> concat (map f (x # R)) ! v = f y ! (v - length (concat (map g (x # pre))))"
      using h(2-5) False by (metis le_add_diff_inverse add.assoc nat_add_left_cancel_le nat_add_left_cancel_less not_le)
    then show ?thesis by blast
  qed
qed simp

lemma x2_blocks_window:
  assumes ok: "lengths_ok L 11" and mb: "\<forall>l\<in>set L. l = 0 \<or> mb \<le> l"
  shows "x2_built L (concat (map (x2_block L mb) (ranked L 11)))"
proof -
  let ?g = "\<lambda>(s :: nat, b). replicate (2 ^ (11 - b)) (s, b)" and ?X = "concat (map (x2_block L mb) (ranked L 11))"
  have same: "\<forall>x\<in>set (ranked L 11). length (x2_block L mb x) = length (?g x)"
    using length_block [OF ok] by (auto simp: set_ranked)
  have sp: "concat (map ?g R) = spans 11 R" for R by (simp add: spans_def)
  have "map length (map (x2_block L mb) (ranked L 11)) = map length (map ?g (ranked L 11))" using same by auto
  then have len: "length ?X = 2 ^ 11" using length_table [OF ok] unfolding sp [symmetric] length_concat by (simp only:)
  have "?X ! v = x2_window L v" if v: "v < 2 ^ 11" for v
  proof -
    have "v < length (concat (map ?g (ranked L 11)))" using v length_table [OF ok] by (simp only: sp)
    from concat_at [OF this same] obtain pre s b post where
      h: "ranked L 11 = pre @ (s, b) # post" "length (spans 11 pre) \<le> v" "v < length (spans 11 pre) + 2 ^ (11 - b)"
      "starts_with L v = (s, b)" "?X ! v = x2_block L mb (s, b) ! (v - length (spans 11 pre))"
      by (fastforce simp: sp starts_with_def)
    have "(s, b) \<in> set (ranked L 11)" using h(1) by simp
    then have b: "0 < b" "b \<le> 11" "s < length L" "L ! s = b" by (auto simp: set_ranked)
    have j: "v mod 2 ^ (11 - b) = v - length (spans 11 pre)"
    proof -
      let ?w = "2 ^ (11 - b) :: nat" and ?r = "v - length (spans 11 pre)"
      have "v = code_of L 11 s * ?w + ?r" "?r < ?w" using h(2,3) span_begin [OF ok h(1)] by simp_all
      then show ?thesis by (metis mod_less mod_mult_self3)
    qed
    define r where "r = v mod 2 ^ (11 - b)"
    let ?skip = "above 11 L (11 - b) div 2 ^ b" and ?sp = "spans (11 - b) (ranked L (11 - b))"
    note ss = second_space [OF ok b(2)]
    have rb: "r * 2 ^ b < 2 ^ 11"
    proof -
      have "r * 2 ^ b < 2 ^ (11 - b) * 2 ^ b" by (simp add: r_def)
      also have "\<dots> = 2 ^ 11" using b(2) by (simp flip: power_add)
      finally show ?thesis .
    qed
    obtain s2 where s2: "starts_with L (r * 2 ^ b) = (s2, L ! s2)" "s2 < length L" "0 < L ! s2" by (rule starts_with_code [OF ok rb])
    have X: "?X ! v = x2_block L mb (s, b) ! r" using h(5) j by (simp add: r_def)
    have W: "x2_window L v = (if b + L ! s2 \<le> 11 then x2_pair s b s2 (L ! s2) else x2_one s b)"
      by (simp add: x2_window_def h(4) r_def [symmetric] s2(1))
    have m2: "mb \<le> L ! s2" using mb s2(2,3) by (metis neq0_conv nth_mem)
    show ?thesis
    proof (cases "b + mb \<le> 11")
      case False
      then show ?thesis using m2 unfolding X W by (simp add: x2_block_def r_def)
    next
      case fits: True
      show ?thesis
      proof (cases "r < ?skip")
        case True
        then have "r * 2 ^ b < ?skip * 2 ^ b" by simp
        then have "r * 2 ^ b < above 11 L (11 - b)" using ss(1) by simp
        from ss(4) [OF this] have "\<not> b + L ! s2 \<le> 11" using s2(1) by simp
        then show ?thesis using True fits unfolding X W by (simp add: x2_block_def nth_append)
      next
        case False
        have "r < 2 ^ (11 - b)" by (simp add: r_def)
        then have q: "r - ?skip < length ?sp" using ss(2) False by linarith
        have e: "?skip + (r - ?skip) = r" using False by simp
        have sw: "?sp ! (r - ?skip) = (s2, L ! s2)" using ss(3) [OF q] s2(1) unfolding e by simp
        have "?sp ! (r - ?skip) \<in> set ?sp" using q by simp
        then have "L ! s2 \<le> 11 - b" unfolding sw by (auto simp: spans_def set_ranked)
        then have "b + L ! s2 \<le> 11" using b(2) by linarith
        moreover have "x2_block L mb (s, b) ! r = x2_doubles L s b (11 - b) ! (r - ?skip)"
          using False fits by (simp add: x2_block_def nth_append)
        moreover have "x2_doubles L s b (11 - b) ! (r - ?skip) = x2_pair s b s2 (L ! s2)"
          using q sw by (simp add: x2_doubles_def)
        ultimately show ?thesis unfolding X W by simp
      qed
    qed
  qed
  then show ?thesis using len by (simp add: x2_built_def)
qed

text \<open>
  For every table of a full tree the double-symbol table is either left empty, when less than four
  fifths of the windows can be paired, or maps each window of eleven bits to the symbol it starts
  with and, if the next code fits into the window as well, to the two symbols and their bits.
\<close>

theorem build_x2_table_spec:
  assumes "lengths_ok L M" "table_built L M t"
  shows "\<exists>dt. build_x2_table t = Ok (t\<lparr>ht_x2 := dt\<rparr>) \<and> (dt = [] \<or> x2_built L dt)"
proof -
  have M: "1 \<le> M" "M \<le> 11" "\<forall>l\<in>set L. l \<le> M" using assms(1) by (auto simp: lengths_ok_def list_all_iff)
  have t: "ht_max_num_bits t = M" "ht_bits t = L" using assms(2) by (simp_all add: table_built_def)
  note ok = lengths_ok_11 [OF assms(1)]
  obtain stats mw ends slots x where l:
    "x2_stats (M + 1) L (replicate 13 0) 0 = Ok (stats, mw)" "1 \<le> mw" "mw \<le> M"
    "x2_sort (M + 1) L 0 (0 # x2_starts (take mw (tl stats)) 0) (replicate (sum_list (take mw (tl stats))) 0) = Ok (ends, slots)"
    "snd (x2_values M 1 (take mw (tl stats)) 0) = 2 ^ 11"
    "x = \<lparr>xt_baseline = M + 1, xt_min_bits = M + 1 - mw, xt_max_w = mw, xt_starts = 0 # x2_starts (take mw (tl stats)) 0,
       xt_ends = ends, xt_sorted = slots, xt_values = 0 # fst (x2_values M 1 (take mw (tl stats)) 0)\<rparr>" "x2_tables L M mw x"
    by (rule x2_locals [OF assms(1)])
  obtain vs r where v: "x2_values M 1 (take mw (tl stats)) 0 = (vs, r)" by (metis surj_pair)
  have r: "r = 2 ^ 11" using l(5) v by simp
  have "above 11 L M = 0" using M(3) by (induction L) (auto simp: above_def)
  then have "length ([] :: u32 list) = above 11 L M" by simp
  moreover have "prefix_is (replicate (2 ^ 11) 0) []" by (simp add: prefix_is_def)
  ultimately obtain dt where dt: "rfold (x2_weight x) [M + 1 - M..<mw + 1] (replicate (2 ^ 11) 0) = Ok dt"
    "prefix_is dt ([] @ concat (map (x2_block L (xt_min_bits x)) (ranked L M)))"
    using x2_weights_ok [OF ok M(3,2) l(7), of M] by blast
  have x: "xt_min_bits x = M + 1 - mw" "\<forall>l\<in>set L. l = 0 \<or> M + 1 - mw \<le> l" using l(7) by (simp_all add: x2_tables_def)
  have rk: "ranked L 11 = ranked L M" by (rule ranked_ge [OF M(3,2)])
  have "x2_built L (concat (map (x2_block L (xt_min_bits x)) (ranked L M)))"
    using x2_blocks_window [OF ok x(2)] by (simp only: x(1) rk)
  moreover have "dt = concat (map (x2_block L (xt_min_bits x)) (ranked L M))"
  proof -
    have "length (concat (map (x2_block L (xt_min_bits x)) (ranked L M))) = length dt" using dt(2) calculation by (simp only: prefix_is_def x2_built_def)
    then show ?thesis using dt(2) by (simp add: prefix_is_def)
  qed
  ultimately have b: "x2_built L dt" by simp
  have run: "rfold (x2_weight x) [1..<mw + 1] (replicate (2 ^ 11) 0) = Ok dt" using dt(1) by simp
  define few where "few \<longleftrightarrow> x2_eligible M (M + 1 - mw) L 0 * 5 < 4 * 2 ^ 11"
  have "build_x2_table t = Ok (t\<lparr>ht_x2 := if few then [] else dt\<rparr>)"
    unfolding build_x2_table_def Let_def t l(1) rbind.simps prod.case few_def [symmetric] v
    using M(1,2) l(2,3,4) r run unfolding l(6) v by (simp add: v del: upt_Suc replicate.simps)
  then show ?thesis using b by auto
qed

end
