(* ===== verification/Literals_Decoder.thy ===== *)
theory Literals_Decoder
  imports Literals_Section Huff_X2
begin

text \<open>
  The literals section decoder, \<open>decoding/literals_section_decoder.rs\<close>: raw and RLE sections, the
  single stream, the four streams one after the other, and the interleaved four-stream loop with
  its scalar tails.  The pointers of the interleaved loop are offsets into the section and the
  output; the output starts uninitialized, so a byte that is never written makes the call a panic.
  The double-symbol loop is its portable form; the inline assembly that replaces it on BMI2
  machines is not modelled.
\<close>

unbundle bit_operations_syntax

section \<open>Data\<close>

datatype HuffmanDecoderError = HDGetBitsError GetBitsError

datatype DecompressLiteralsError =
    MissingCompressedSize
  | MissingNumStreams
  | LitGetBitsError GetBitsError
  | LitHuffmanTableError HuffmanTableError
  | LitHuffmanDecoderError HuffmanDecoderError
  | UninitializedHuffmanTable
  | MissingBytesForJumpHeader nat
  | LiteralsTooSmallFor4Streams nat
  | MissingBytesForLiterals nat nat
  | LitExtraPadding int
  | BitstreamReadMismatch int int
  | DecodedLiteralCountMismatch nat nat

record HuffmanScratch =
  hs_table :: HuffmanTable

type_synonym out_buf = "u8 option list"

section \<open>The table of a section\<close>

text \<open>The cost model that chooses between the single- and the double-symbol table.\<close>

definition ALGO_TIME :: "((nat \<times> nat) \<times> (nat \<times> nat)) list" where
  "ALGO_TIME = [((0, 0), (1, 1)), ((0, 0), (1, 1)), ((150, 216), (381, 119)), ((170, 205), (514, 112)),
     ((177, 199), (539, 110)), ((197, 194), (644, 107)), ((221, 192), (735, 107)), ((256, 189), (881, 106)),
     ((359, 188), (1167, 109)), ((582, 187), (1570, 114)), ((688, 187), (1712, 122)), ((825, 186), (1965, 136)),
     ((976, 185), (2131, 150)), ((1180, 186), (2070, 175)), ((1377, 185), (1731, 202)), ((1412, 185), (1695, 202))]"

definition select_x2_table :: "nat \<Rightarrow> nat \<Rightarrow> bool" where
  "select_x2_table dst_size c_src_size =
     (let q = (if c_src_size \<ge> dst_size then 15 else min (c_src_size * 16 div dst_size) 15);
          d256 = drop_bit 8 dst_size; ((a0, b0), (a1, b1)) = ALGO_TIME ! q;
          t0 = a0 + b0 * d256; t1 = a1 + b1 * d256; t1 = t1 + drop_bit 5 t1
      in t1 < t0)"

definition prepare_section_table ::
  "LiteralsSectionType \<Rightarrow> nat \<Rightarrow> HuffmanScratch \<Rightarrow> bytes
    \<Rightarrow> (DecompressLiteralsError, nat \<times> HuffmanScratch) res" where
  "prepare_section_table kind regenerated_size scratch source =
     (if kind = LCompressed then
        rbind (rmap_err LitHuffmanTableError (ht_build_decoder (hs_table scratch) source)) (\<lambda>(bytes_read, t).
        rbind (if select_x2_table regenerated_size (length source) then infallible (build_x2_table t) else Ok t) (\<lambda>t.
          Ok (bytes_read, scratch\<lparr>hs_table := t\<rparr>)))
      else if kind = LTreeless \<and> ht_max_num_bits (hs_table scratch) = 0 then Err UninitializedHuffmanTable
      else Ok (0, scratch))"

definition parse_stream_bounds :: "nat \<Rightarrow> bytes \<Rightarrow> (DecompressLiteralsError, (nat \<times> nat) list) res" where
  "parse_stream_bounds regenerated_size source =
     (if regenerated_size < 6 then Err (LiteralsTooSmallFor4Streams regenerated_size)
      else if length source < 6 then Err (MissingBytesForJumpHeader (length source))
      else
        let byte = (\<lambda>i. unat (source ! i));
            jump1 = byte 0 + push_bit 8 (byte 1);
            jump2 = jump1 + byte 2 + push_bit 8 (byte 3);
            jump3 = jump2 + byte 4 + push_bit 8 (byte 5);
            streams_len = length source - 6 in
        if streams_len < jump3 then Err (MissingBytesForLiterals streams_len jump3)
        else Ok [(6, 6 + jump1), (6 + jump1, 6 + jump2), (6 + jump2, 6 + jump3), (6 + jump3, length source)])"

section \<open>One stream\<close>

text \<open>The reader behind the end marker, and the decoder with its first window.\<close>

definition open_stream :: "HuffmanTable \<Rightarrow> bytes \<Rightarrow> (DecompressLiteralsError, HuffmanDecoder \<times> BitReaderReversed) res" where
  "open_stream table stream =
     rbind (infallible (rr_skip_padding_marker (rr_new stream))) (\<lambda>(found, br).
     if \<not> found then Err (LitExtraPadding 9)
     else rbind (infallible (hd_init_state (hd_new table) br)) (\<lambda>(_, d, br). Ok (d, br)))"

fun decode_count :: "nat \<Rightarrow> HuffmanDecoder \<Rightarrow> BitReaderReversed \<Rightarrow> bytes \<Rightarrow> (unit, bytes \<times> BitReaderReversed) res" where
  "decode_count 0 d br target = Ok (target, br)"
| "decode_count (Suc n) d br target =
     rbind (decode_and_advance d br) (\<lambda>(s, d, br). decode_count n d br (target @ [s]))"

definition single_stream_literals :: "HuffmanTable \<Rightarrow> bytes \<Rightarrow> nat \<Rightarrow> bytes \<Rightarrow> (DecompressLiteralsError, bytes) res" where
  "single_stream_literals table source regenerated target =
     rbind (open_stream table source) (\<lambda>(d, br).
     let tlog = int (ht_max_num_bits table) in
     rbind (infallible (decode_count regenerated d br target)) (\<lambda>(target, br).
       if rr_bits_remaining br \<noteq> - tlog then Err (BitstreamReadMismatch (rr_bits_remaining br) (- tlog))
       else Ok target))"

text \<open>The slow path: one stream at a time, each exactly its quarter of the output.\<close>

fun decode_segment ::
  "int \<Rightarrow> nat \<Rightarrow> nat \<Rightarrow> HuffmanDecoder \<Rightarrow> BitReaderReversed \<Rightarrow> bytes \<Rightarrow> (unit, nat \<times> bytes \<times> BitReaderReversed) res" where
  "decode_segment tlog produced 0 d br target = Ok (produced, target, br)"
| "decode_segment tlog produced (Suc n) d br target =
     (if rr_bits_remaining br > - tlog then
        rbind (hd_decode_symbol d) (\<lambda>s.
        rbind (hd_next_state d br) (\<lambda>(_, d, br). decode_segment tlog (produced + 1) n d br (target @ [s])))
      else Ok (produced, target, br))"

fun decode_segments ::
  "HuffmanTable \<Rightarrow> bytes \<Rightarrow> ((nat \<times> nat) \<times> nat) list \<Rightarrow> nat \<Rightarrow> bytes \<Rightarrow> (DecompressLiteralsError, bytes) res" where
  "decode_segments table source [] seg_start target = Ok target"
| "decode_segments table source (((start, end'), seg_end) # rest) seg_start target =
     rbind (rassert (seg_start \<le> seg_end \<and> start \<le> end' \<and> end' \<le> length source)) (\<lambda>_.
     let seg_len = seg_end - seg_start; tlog = int (ht_max_num_bits table) in
     rbind (open_stream table (take (end' - start) (drop start source))) (\<lambda>(d, br).
     rbind (infallible (decode_segment tlog 0 seg_len d br target)) (\<lambda>(produced, target, br).
       if produced \<noteq> seg_len then Err (DecodedLiteralCountMismatch produced seg_len)
       else if rr_bits_remaining br \<noteq> - tlog then Err (BitstreamReadMismatch (rr_bits_remaining br) (- tlog))
       else decode_segments table source rest seg_end target)))"

section \<open>The interleaved loop\<close>

record WinStream =
  ws_ip :: nat
  ws_bits :: u64
  ws_op :: nat

definition ctz64 :: "u64 \<Rightarrow> nat" where
  "ctz64 w = length (takeWhile Not (map (bit w) [0..<64]))"

definition init_window :: "bytes \<Rightarrow> nat \<times> nat \<Rightarrow> nat \<Rightarrow> (DecompressLiteralsError, WinStream) res" where
  "init_window region bounds op =
     rbind (rassert (8 \<le> snd bounds)) (\<lambda>_.
     let p = snd bounds - 8 in
     rbind (rindex region (p + 7)) (\<lambda>last_byte.
     let skip = (if last_byte \<noteq> 0 then 8 - ilog2 (unat last_byte) else 0) in
     rbind (load_le64 region p) (\<lambda>v.
       Ok \<lparr>ws_ip = p, ws_bits = push_bit skip (v OR 1), ws_op = op\<rparr>)))"

fun init_windows :: "bytes \<Rightarrow> (nat \<times> nat) list \<Rightarrow> nat list \<Rightarrow> (DecompressLiteralsError, WinStream list) res" where
  "init_windows region (b # bs) (op # ops) =
     rbind (init_window region b op) (\<lambda>st. rbind (init_windows region bs ops) (\<lambda>sts. Ok (st # sts)))"
| "init_windows region _ _ = Ok []"

definition decode_sym ::
  "u16 list \<Rightarrow> nat \<Rightarrow> nat \<Rightarrow> WinStream \<Rightarrow> out_buf \<Rightarrow> (DecompressLiteralsError, WinStream \<times> out_buf) res" where
  "decode_sym packed tlog k st out =
     rbind (rindex packed (unat (drop_bit (64 - tlog) (ws_bits st)))) (\<lambda>entry.
     rbind (rindex out (ws_op st + k)) (\<lambda>_.
       Ok (st\<lparr>ws_bits := push_bit (unat (entry AND 0x3f)) (ws_bits st)\<rparr>,
           out[ws_op st + k := Some (ucast (drop_bit 8 entry))])))"

text \<open>One symbol in each stream; five such columns; the reloads.\<close>

fun decode_column ::
  "u16 list \<Rightarrow> nat \<Rightarrow> nat \<Rightarrow> WinStream list \<Rightarrow> out_buf \<Rightarrow> (DecompressLiteralsError, WinStream list \<times> out_buf) res" where
  "decode_column packed tlog k [] out = Ok ([], out)"
| "decode_column packed tlog k (st # sts) out =
     rbind (decode_sym packed tlog k st out) (\<lambda>(st, out).
     rbind (decode_column packed tlog k sts out) (\<lambda>(sts, out). Ok (st # sts, out)))"

fun decode_columns ::
  "u16 list \<Rightarrow> nat \<Rightarrow> nat list \<Rightarrow> WinStream list \<Rightarrow> out_buf \<Rightarrow> (DecompressLiteralsError, WinStream list \<times> out_buf) res" where
  "decode_columns packed tlog [] sts out = Ok (sts, out)"
| "decode_columns packed tlog (k # ks) sts out =
     rbind (decode_column packed tlog k sts out) (\<lambda>(sts, out). decode_columns packed tlog ks sts out)"

definition reload_window :: "bytes \<Rightarrow> nat \<Rightarrow> WinStream \<Rightarrow> (DecompressLiteralsError, WinStream) res" where
  "reload_window region step st =
     (let ctz = ctz64 (ws_bits st) in
      rbind (rassert (ctz div 8 \<le> ws_ip st)) (\<lambda>_.
      let ip = ws_ip st - ctz div 8 in
      rbind (load_le64 region ip) (\<lambda>v.
        Ok \<lparr>ws_ip = ip, ws_bits = push_bit (ctz mod 8) (v OR 1), ws_op = ws_op st + step\<rparr>)))"

fun reload_windows :: "bytes \<Rightarrow> nat \<Rightarrow> WinStream list \<Rightarrow> (DecompressLiteralsError, WinStream list) res" where
  "reload_windows region step [] = Ok []"
| "reload_windows region step (st # sts) =
     rbind (reload_window region step st) (\<lambda>st. rbind (reload_windows region step sts) (\<lambda>sts. Ok (st # sts)))"

definition fast_iteration ::
  "u16 list \<Rightarrow> nat \<Rightarrow> bytes \<Rightarrow> WinStream list \<Rightarrow> out_buf \<Rightarrow> (DecompressLiteralsError, WinStream list \<times> out_buf) res" where
  "fast_iteration packed tlog region sts out =
     rbind (decode_columns packed tlog [0, 1, 2, 3, 4] sts out) (\<lambda>(sts, out).
     rbind (reload_windows region 5 sts) (\<lambda>sts. Ok (sts, out)))"

definition last_op :: "WinStream list \<Rightarrow> nat" where
  "last_op sts = ws_op (sts ! 3)"

text \<open>
  The inner loop runs until the last stream reaches \<open>olimit\<close>.  Every iteration moves it by five at
  least, so the number of iterations the bounds allow is fuel enough; running out of it is a panic.
\<close>

fun fast_inner ::
  "nat \<Rightarrow> nat \<Rightarrow> (WinStream list \<times> out_buf \<Rightarrow> (DecompressLiteralsError, WinStream list \<times> out_buf) res)
    \<Rightarrow> WinStream list \<times> out_buf \<Rightarrow> (DecompressLiteralsError, WinStream list \<times> out_buf) res" where
  "fast_inner 0 olimit iteration st = Panic"
| "fast_inner (Suc n) olimit iteration st =
     rbind (iteration st) (\<lambda>(sts, out).
       if last_op sts \<ge> olimit then Ok (sts, out) else fast_inner n olimit iteration (sts, out))"

definition streams_cross :: "WinStream list \<Rightarrow> bool" where
  "streams_cross sts \<longleftrightarrow> ws_ip (sts ! 1) < ws_ip (sts ! 0) \<or> ws_ip (sts ! 2) < ws_ip (sts ! 1) \<or> ws_ip (sts ! 3) < ws_ip (sts ! 2)"

fun fast_outer ::
  "nat \<Rightarrow> u16 list \<Rightarrow> nat \<Rightarrow> bytes \<Rightarrow> WinStream list \<times> out_buf \<Rightarrow> (DecompressLiteralsError, WinStream list \<times> out_buf) res" where
  "fast_outer 0 packed tlog region st = Panic"
| "fast_outer (Suc n) packed tlog region (sts, out) =
     rbind (rassert (last_op sts \<le> length out)) (\<lambda>_.
     let iters = min (ws_ip (sts ! 0) div 7) ((length out - last_op sts) div 5) in
     if iters = 0 \<or> streams_cross sts then Ok (sts, out)
     else
       rbind (fast_inner iters (last_op sts + iters * 5) (\<lambda>(sts, out). fast_iteration packed tlog region sts out) (sts, out))
         (fast_outer n packed tlog region))"

section \<open>The scalar tails\<close>

text \<open>One lookup in the tail: the shift count is taken modulo 64.\<close>

definition tail_sym :: "u16 list \<Rightarrow> nat \<Rightarrow> u64 \<Rightarrow> nat \<times> nat \<times> out_buf \<Rightarrow> (DecompressLiteralsError, nat \<times> nat \<times> out_buf) res" where
  "tail_sym packed tlog window = (\<lambda>(consumed, pos, out).
     rbind (rindex packed (unat (drop_bit (64 - tlog) (push_bit (consumed mod 64) window)))) (\<lambda>entry.
     rbind (rindex out pos) (\<lambda>_.
       Ok (consumed + unat (entry AND 0x3f), pos + 1, out[pos := Some (ucast (drop_bit 8 entry))]))))"

fun tail_syms :: "nat \<Rightarrow> u16 list \<Rightarrow> nat \<Rightarrow> u64 \<Rightarrow> nat \<times> nat \<times> out_buf \<Rightarrow> (DecompressLiteralsError, nat \<times> nat \<times> out_buf) res" where
  "tail_syms 0 packed tlog window st = Ok st"
| "tail_syms (Suc n) packed tlog window st =
     rbind (tail_sym packed tlog window st) (tail_syms n packed tlog window)"

text \<open>The reload: exhausted, a whole window below, the first bytes of the region, the floor.\<close>

definition tail_reload ::
  "bytes \<Rightarrow> nat \<Rightarrow> nat \<Rightarrow> u64 \<Rightarrow> (DecompressLiteralsError, bool \<times> nat \<times> nat \<times> u64) res" where
  "tail_reload region ptr consumed window =
     (let want = consumed div 8 in
      if consumed > 64 then Ok (False, ptr, consumed, window)
      else if ptr \<ge> 8 then
        rbind (rassert (want \<le> ptr)) (\<lambda>_.
        rbind (load_le64 region (ptr - want)) (\<lambda>v. Ok (True, ptr - want, consumed mod 8, v)))
      else if ptr > 0 then
        let nb = min want ptr in
        rbind (load_le64 region (ptr - nb)) (\<lambda>v. Ok (\<not> want > ptr, ptr - nb, consumed - 8 * nb, v))
      else Ok (False, ptr, consumed, window))"

function tail_loop ::
  "u16 list \<Rightarrow> nat \<Rightarrow> bytes \<Rightarrow> nat \<Rightarrow> nat \<Rightarrow> u64 \<Rightarrow> nat \<times> nat \<times> out_buf \<Rightarrow> (DecompressLiteralsError, u64 \<times> nat \<times> nat \<times> out_buf) res" where
  "tail_loop packed tlog region seg_end ptr window (consumed, pos, out) =
     (case tail_reload region ptr consumed window of
        Err e \<Rightarrow> Err e | Panic \<Rightarrow> Panic
      | Ok (unfinished, ptr, consumed, window) \<Rightarrow>
          if \<not> unfinished \<or> pos + 3 \<ge> seg_end then Ok (window, consumed, pos, out)
          else case tail_syms 4 packed tlog window (consumed, pos, out) of
            Err e \<Rightarrow> Err e | Panic \<Rightarrow> Panic
          | Ok st \<Rightarrow> tail_loop packed tlog region seg_end ptr window st)"
  by pat_completeness auto

lemma tail_sym_step: "tail_sym packed tlog window (c, o1, out) = Ok (c', o2, out') \<Longrightarrow> o2 = o1 + 1"
  by (auto simp: tail_sym_def rbind_eq_Ok)

lemma tail_syms_step: "tail_syms n packed tlog window (c, o1, out) = Ok (c', o2, out') \<Longrightarrow> o2 = o1 + n"
proof (induction n arbitrary: c o1 out)
  case (Suc n)
  then obtain c1 o3 out1 where "tail_sym packed tlog window (c, o1, out) = Ok (c1, o3, out1)"
    "tail_syms n packed tlog window (c1, o3, out1) = Ok (c', o2, out')"
    by (auto simp: rbind_eq_Ok)
  then show ?case using Suc.IH tail_sym_step by fastforce
qed simp

termination tail_loop
proof (relation "measure (\<lambda>(packed, tlog, region, seg_end, ptr, window, c, o1, out). seg_end - o1)", goal_cases)
  case (2 packed tlog region seg_end ptr window consumed o1 out r unf q ptr' q2 consumed' window' st)
  obtain c2 o2 out2 where st: "st = (c2, o2, out2)" by (metis prod_cases3)
  have "o2 = o1 + 4" using 2 tail_syms_step unfolding st by blast
  then show ?case using 2 by (auto simp: st)
qed simp

declare tail_loop.simps [simp del]

definition finish_stream ::
  "u16 list \<Rightarrow> nat \<Rightarrow> bytes \<Rightarrow> nat \<Rightarrow> nat \<Rightarrow> WinStream \<Rightarrow> out_buf \<Rightarrow> (DecompressLiteralsError, out_buf) res" where
  "finish_stream packed tlog region start seg_end st out =
     (if ws_ip st + 8 < start then Err (BitstreamReadMismatch 0 (- int tlog))
      else if ws_op st > seg_end then Err (DecodedLiteralCountMismatch (ws_op st) seg_end)
      else
        rbind (load_le64 region (ws_ip st)) (\<lambda>window.
        rbind (tail_loop packed tlog region seg_end (ws_ip st) window (ctz64 (ws_bits st), ws_op st, out))
          (\<lambda>(window, consumed, pos, out).
        rbind (tail_syms (seg_end - pos) packed tlog window (consumed, pos, out)) (\<lambda>(_, _, out). Ok out))))"

fun finish_streams ::
  "u16 list \<Rightarrow> nat \<Rightarrow> bytes \<Rightarrow> (nat \<times> nat) list \<Rightarrow> nat list \<Rightarrow> WinStream list \<Rightarrow> out_buf \<Rightarrow> (DecompressLiteralsError, out_buf) res" where
  "finish_streams packed tlog region (b # bs) (seg_end # ends) (st # sts) out =
     rbind (finish_stream packed tlog region (fst b) seg_end st out) (finish_streams packed tlog region bs ends sts)"
| "finish_streams packed tlog region _ _ _ out = Ok out"

text \<open>The published region must have been written whole before it is read.\<close>

definition published :: "out_buf \<Rightarrow> (DecompressLiteralsError, bytes) res" where
  "published out = rbind (rassert (None \<notin> set out)) (\<lambda>_. Ok (map the out))"

definition segment_ends :: "nat \<Rightarrow> nat list" where
  "segment_ends total_out = (let segment = (total_out + 3) div 4 in [segment, 2 * segment, 3 * segment, total_out])"

definition segment_starts :: "nat \<Rightarrow> nat list" where
  "segment_starts total_out = (let segment = (total_out + 3) div 4 in [0, segment, 2 * segment, 3 * segment])"

definition decompress_4streams_interleaved ::
  "HuffmanTable \<Rightarrow> bytes \<Rightarrow> (nat \<times> nat) list \<Rightarrow> out_buf \<Rightarrow> (DecompressLiteralsError, out_buf) res" where
  "decompress_4streams_interleaved table region bounds out =
     (let tlog = ht_max_num_bits table; packed = ht_packed table; total_out = length out in
      rbind (rassert (1 \<le> tlog \<and> tlog \<le> 11 \<and> length packed = 2 ^ tlog)) (\<lambda>_.
      rbind (init_windows region bounds (segment_starts total_out)) (\<lambda>sts.
      rbind (fast_outer (total_out + 1) packed tlog region (sts, out)) (\<lambda>(sts, out).
        finish_streams packed tlog region bounds (segment_ends total_out) sts out))))"

section \<open>The double-symbol loop\<close>

definition decode_sym_x2 :: "u32 list \<Rightarrow> WinStream \<Rightarrow> out_buf \<Rightarrow> (DecompressLiteralsError, WinStream \<times> out_buf) res" where
  "decode_sym_x2 dt st out =
     rbind (rindex dt (unat (drop_bit 53 (ws_bits st)))) (\<lambda>entry.
     rbind (rassert (ws_op st + 1 < length out)) (\<lambda>_.
       Ok (st\<lparr>ws_bits := push_bit (unat (drop_bit 16 entry AND 0x3f)) (ws_bits st),
              ws_op := ws_op st + unat (drop_bit 24 entry)\<rparr>,
           out[ws_op st := Some (ucast entry), ws_op st + 1 := Some (ucast (drop_bit 8 entry))])))"

fun decode_column_x2 ::
  "u32 list \<Rightarrow> WinStream list \<Rightarrow> out_buf \<Rightarrow> (DecompressLiteralsError, WinStream list \<times> out_buf) res" where
  "decode_column_x2 dt [] out = Ok ([], out)"
| "decode_column_x2 dt (st # sts) out =
     rbind (decode_sym_x2 dt st out) (\<lambda>(st, out).
     rbind (decode_column_x2 dt sts out) (\<lambda>(sts, out). Ok (st # sts, out)))"

fun decode_columns_x2 ::
  "u32 list \<Rightarrow> nat \<Rightarrow> WinStream list \<times> out_buf \<Rightarrow> (DecompressLiteralsError, WinStream list \<times> out_buf) res" where
  "decode_columns_x2 dt 0 st = Ok st"
| "decode_columns_x2 dt (Suc n) st =
     rbind (decode_column_x2 dt (fst st) (snd st)) (decode_columns_x2 dt n)"

definition fast_iteration_x2 ::
  "u32 list \<Rightarrow> bytes \<Rightarrow> WinStream list \<times> out_buf \<Rightarrow> (DecompressLiteralsError, WinStream list \<times> out_buf) res" where
  "fast_iteration_x2 dt region st =
     rbind (decode_columns_x2 dt 5 st) (\<lambda>(sts, out).
     rbind (reload_windows region 0 sts) (\<lambda>sts. Ok (sts, out)))"

definition x2_iters :: "nat list \<Rightarrow> WinStream list \<Rightarrow> nat" where
  "x2_iters ends sts = foldl min (ws_ip (sts ! 0) div 7) (map2 (\<lambda>e st. (e - ws_op st) div 10) ends sts)"

fun fast_outer_x2 ::
  "nat \<Rightarrow> nat \<Rightarrow> u32 list \<Rightarrow> bytes \<Rightarrow> nat list \<Rightarrow> WinStream list \<times> out_buf \<Rightarrow> (DecompressLiteralsError, WinStream list \<times> out_buf) res" where
  "fast_outer_x2 0 tlog dt region ends st = Panic"
| "fast_outer_x2 (Suc n) tlog dt region ends (sts, out) =
     rbind (rassert (list_all2 (\<lambda>e st. ws_op st \<le> e) ends sts)) (\<lambda>_.
     let iters = x2_iters ends sts in
     if iters = 0 then Ok (sts, out)
     else if streams_cross sts then Err (BitstreamReadMismatch 0 (- int tlog))
     else
       rbind (fast_inner iters (last_op sts + iters * 5) (fast_iteration_x2 dt region) (sts, out))
         (fast_outer_x2 n tlog dt region ends))"

definition decompress_4streams_interleaved_x2 ::
  "HuffmanTable \<Rightarrow> bytes \<Rightarrow> (nat \<times> nat) list \<Rightarrow> out_buf \<Rightarrow> (DecompressLiteralsError, out_buf) res" where
  "decompress_4streams_interleaved_x2 table region bounds out =
     (let tlog = ht_max_num_bits table; dt = ht_x2 table; total_out = length out; ends = segment_ends total_out in
      rbind (rassert (length dt = 2 ^ 11)) (\<lambda>_.
      rbind (init_windows region bounds (segment_starts total_out)) (\<lambda>sts.
      rbind (fast_outer_x2 (total_out + 1) tlog dt region ends (sts, out)) (\<lambda>(sts, out).
      rbind (rassert (length (ht_packed table) = 2 ^ tlog)) (\<lambda>_.
        finish_streams (ht_packed table) tlog region bounds ends sts out)))))"

section \<open>The section\<close>

definition fast_gate :: "HuffmanTable \<Rightarrow> nat \<Rightarrow> (nat \<times> nat) list \<Rightarrow> bool" where
  "fast_gate table total_out bounds \<longleftrightarrow>
     total_out > 3 * ((total_out + 3) div 4) \<and> list_all (\<lambda>(s, e). e - s \<ge> 8) bounds \<and> ht_max_num_bits table \<ge> 1"

definition interleaved ::
  "HuffmanTable \<Rightarrow> bytes \<Rightarrow> (nat \<times> nat) list \<Rightarrow> nat \<Rightarrow> (DecompressLiteralsError, bytes) res" where
  "interleaved table source bounds total_out =
     rbind (if ht_x2 table = [] then decompress_4streams_interleaved table source bounds (replicate total_out None)
            else decompress_4streams_interleaved_x2 table source bounds (replicate total_out None)) published"

definition four_streams :: "HuffmanTable \<Rightarrow> bytes \<Rightarrow> nat \<Rightarrow> bytes \<Rightarrow> (DecompressLiteralsError, bytes) res" where
  "four_streams table source total_out target =
     rbind (parse_stream_bounds total_out source) (\<lambda>bounds.
     if fast_gate table total_out bounds then
       rbind (interleaved table source bounds total_out) (\<lambda>out. Ok (target @ out))
     else decode_segments table source (zip bounds (segment_ends total_out)) 0 target)"

definition decompress_literals ::
  "LiteralsSection \<Rightarrow> HuffmanScratch \<Rightarrow> bytes \<Rightarrow> bytes \<Rightarrow> (DecompressLiteralsError, nat \<times> HuffmanScratch \<times> bytes) res" where
  "decompress_literals sec scratch source target =
     (let start_len = length target; regenerated = unat (ls_regenerated_size sec) in
      rbind (ok_or MissingCompressedSize (ls_compressed_size sec)) (\<lambda>compressed_size.
      rbind (ok_or MissingNumStreams (ls_num_streams sec)) (\<lambda>num_streams.
      rbind (rassert (unat compressed_size \<le> length source)) (\<lambda>_.
      let source = take (unat compressed_size) source in
      rbind (prepare_section_table (ls_type sec) regenerated scratch source) (\<lambda>(bytes_read, scratch).
      rbind (rassert (bytes_read \<le> length source)) (\<lambda>_.
      let source = drop bytes_read source in
      rbind (if num_streams = 4 then four_streams (hs_table scratch) source regenerated target
             else rbind (rassert (num_streams = 1)) (\<lambda>_.
               single_stream_literals (hs_table scratch) source regenerated target)) (\<lambda>target.
      if length target - start_len \<noteq> regenerated
      then Err (DecodedLiteralCountMismatch (length target - start_len) regenerated)
      else Ok (bytes_read + length source, scratch, target))))))))"

definition decode_literals ::
  "LiteralsSection \<Rightarrow> HuffmanScratch \<Rightarrow> bytes \<Rightarrow> bytes \<Rightarrow> (DecompressLiteralsError, nat \<times> HuffmanScratch \<times> bytes) res" where
  "decode_literals sec scratch source target =
     (let n = unat (ls_regenerated_size sec) in
      case ls_type sec of
        LRaw \<Rightarrow> rbind (rassert (n \<le> length source)) (\<lambda>_. Ok (n, scratch, target @ take n source))
      | LRLE \<Rightarrow> rbind (rindex source 0) (\<lambda>b. Ok (1, scratch, target @ replicate n b))
      | _ \<Rightarrow> decompress_literals sec scratch source target)"

text \<open>Straight into the block's output; \<open>None\<close> when the section must take the staging path.\<close>

definition decode_literals_direct ::
  "LiteralsSection \<Rightarrow> HuffmanScratch \<Rightarrow> bytes \<Rightarrow> nat \<Rightarrow> (DecompressLiteralsError, HuffmanScratch \<times> bytes option) res" where
  "decode_literals_direct sec scratch source out_len =
     (let n = unat (ls_regenerated_size sec) in
      case ls_type sec of
        LRaw \<Rightarrow> rbind (rassert (n \<le> length source \<and> n = out_len)) (\<lambda>_. Ok (scratch, Some (take n source)))
      | LRLE \<Rightarrow> rbind (rindex source 0) (\<lambda>b. Ok (scratch, Some (replicate out_len b)))
      | _ \<Rightarrow>
          rbind (ok_or MissingCompressedSize (ls_compressed_size sec)) (\<lambda>compressed_size.
          rbind (ok_or MissingNumStreams (ls_num_streams sec)) (\<lambda>num_streams.
          if num_streams \<noteq> 4 then Ok (scratch, None)
          else
            rbind (rassert (unat compressed_size \<le> length source)) (\<lambda>_.
            let source = take (unat compressed_size) source in
            rbind (prepare_section_table (ls_type sec) n scratch source) (\<lambda>(bytes_read, scratch).
            rbind (rassert (bytes_read \<le> length source)) (\<lambda>_.
            let source = drop bytes_read source in
            rbind (parse_stream_bounds n source) (\<lambda>bounds.
            if \<not> fast_gate (hs_table scratch) n bounds then Ok (scratch, None)
            else
              rbind (rassert (n = out_len)) (\<lambda>_.
              rbind (interleaved (hs_table scratch) source bounds n) (\<lambda>out. Ok (scratch, Some out))))))))))"

end
