(* ===== verification/Literals_Roundtrip.thy ===== *)
theory Literals_Roundtrip
  imports Literals_Decoder Huff_Stream
begin

text \<open>
  Huffman-coded literals come back: the single stream, the four streams decoded one after the
  other, and the interleaved four-stream loop with its scalar tails.
\<close>

unbundle bit_operations_syntax

section \<open>One stream\<close>

lemma decode_count_ok:
  assumes "lengths_ok L M" "table_built L M (hd_table d)" "codes_at L M (rr_stream r) dat"
    "window_at M r (hd_state d) (int (length (codes (huff_code L M) (rev dat))))"
  shows "\<exists>r'. decode_count (length dat) d r target = Ok (target @ dat, r') \<and> rr_bits_remaining r' = - int M"
  using assms(2-)
proof (induction dat arbitrary: d r target)
  case Nil
  then show ?case by (simp add: window_at_def)
next
  case (Cons s dat)
  note h = codes_at_head [OF Cons.prems(2)]
  obtain d' r' where st: "decode_and_advance d r = Ok (s, d', r')" "hd_table d' = hd_table d"
    "window_at M r' (hd_state d') (int (length (codes (huff_code L M) (rev (s # dat)))) - int (L ! unat s))" "rr_stream r' = rr_stream r"
    by (rule decode_and_advance_ok [OF assms(1) Cons.prems(1,3) h(1)])
  have "table_built L M (hd_table d')" "codes_at L M (rr_stream r') dat" using Cons.prems(1) h(2) st(2,4) by simp_all
  from Cons.IH [OF this st(3) [unfolded h(3)], of "target @ [s]"] st(1) show ?case by simp
qed

lemma decode_segment_ok:
  assumes "lengths_ok L M" "table_built L M (hd_table d)" "codes_at L M (rr_stream r) dat"
    "window_at M r (hd_state d) (int (length (codes (huff_code L M) (rev dat))))"
  shows "\<exists>r'. decode_segment (int M) k (length dat) d r target = Ok (k + length dat, target @ dat, r') \<and> rr_bits_remaining r' = - int M"
  using assms(2-)
proof (induction dat arbitrary: d r target k)
  case Nil
  then show ?case by (simp add: window_at_def)
next
  case (Cons s dat)
  note h = codes_at_head [OF Cons.prems(2)]
  obtain d' r' where st: "hd_decode_symbol d = Ok s" "hd_next_state d r = Ok (L ! unat s, d', r')" "hd_table d' = hd_table d"
    "window_at M r' (hd_state d') (int (length (codes (huff_code L M) (rev (s # dat)))) - int (L ! unat s))" "rr_stream r' = rr_stream r"
    by (rule decode_next_ok [OF assms(1) Cons.prems(1,3) h(1)])
  have "table_built L M (hd_table d')" "codes_at L M (rr_stream r') dat" using Cons.prems(1) h(2) st(3,5) by simp_all
  note ih = Cons.IH [OF this st(4) [unfolded h(3)], of "k + 1" "target @ [s]"]
  have "0 < L ! unat s" using Cons.prems(2) by (simp add: codes_at_def)
  then have "rr_bits_remaining r > - int M" using Cons.prems(3) by (simp add: window_at_def)
  then show ?case using ih st(1,2) by (simp add: add.assoc)
qed

text \<open>The bytes of one encoded stream.\<close>

definition stream_of :: "nat list \<Rightarrow> nat \<Rightarrow> bytes \<Rightarrow> bytes \<Rightarrow> bool" where
  "stream_of L M dat src \<longleftrightarrow> (\<forall>s\<in>set dat. unat s < length L \<and> 0 < L ! unat s)
     \<and> (\<exists>z<8. bytes_bits src = codes (huff_code L M) (rev dat) @ True # replicate z False)"

lemma encode_stream_appends:
  assumes w: "bw_inv w" "length (bw_bits w) mod 8 = 0" and t: "enc_built L M t" "lengths_ok L M"
    and dat: "\<forall>s\<in>set dat. unat s < length L \<and> 0 < L ! unat s"
  shows "\<exists>w' src. huff_encode_stream t dat w = Ok w' \<and> bw_inv w' \<and> bw_bits w' = bw_bits w @ bytes_bits src \<and> stream_of L M dat src"
proof -
  obtain w' z where e: "huff_encode_stream t dat w = Ok w'" "bw_inv w'" "z < 8"
    "bw_bits w' = bw_bits w @ codes (huff_code L M) (rev dat) @ True # replicate z False" "length (bw_bits w') mod 8 = 0"
    using huff_encode_stream_ok [OF w t dat] by (elim exE conjE) (rule that)
  let ?x = "codes (huff_code L M) (rev dat) @ True # replicate z False"
  have "length ?x mod 8 = 0" using e(4,5) w(2) by (simp add: mod_add_eq [symmetric]) presburger
  then obtain n where "length ?x = 8 * n" by auto
  then obtain src where src: "bytes_bits src = ?x" using bytes_of_bits by blast
  then have "stream_of L M dat src" using e(3) dat by (auto simp: stream_of_def)
  then show ?thesis using e(1,2,4) src by (intro exI [of _ w'] exI [of _ src]) simp
qed

lemma open_stream_ok:
  assumes "lengths_ok L M" "table_built L M t" "stream_of L M dat src"
  obtains d r where "open_stream t src = Ok (d, r)" "hd_table d = t" "codes_at L M (rr_stream r) dat"
    "window_at M r (hd_state d) (int (length (codes (huff_code L M) (rev dat))))"
proof -
  obtain z where z: "z < 8" "bytes_bits src = codes (huff_code L M) (rev dat) @ True # replicate z False"
    "\<forall>s\<in>set dat. unat s < length L \<and> 0 < L ! unat s" using assms(3) by (auto simp: stream_of_def)
  obtain r r' d where "rr_skip_padding_marker (rr_new src) = Ok (True, r)" "hd_init_state (hd_new t) r = Ok (M, d, r')"
    "hd_table d = t" "window_at M r' (hd_state d) (int (length (codes (huff_code L M) (rev dat))))" "codes_at L M (rr_stream r') dat"
    by (rule stream_start [OF assms(1,2) z(2,1,3)])
  then show thesis using that by (simp add: open_stream_def)
qed

lemma single_stream_ok:
  assumes "lengths_ok L M" "table_built L M t" "stream_of L M dat src"
  shows "single_stream_literals t src (length dat) target = Ok (target @ dat)"
proof -
  obtain d r where o: "open_stream t src = Ok (d, r)" "hd_table d = t" "codes_at L M (rr_stream r) dat"
    "window_at M r (hd_state d) (int (length (codes (huff_code L M) (rev dat))))"
    by (rule open_stream_ok [OF assms])
  from decode_count_ok [OF assms(1) _ o(3,4), of target] assms(2) o(2) obtain r' where
    "decode_count (length dat) d r target = Ok (target @ dat, r')" "rr_bits_remaining r' = - int M" by auto
  then show ?thesis using o(1) assms(2) by (simp add: single_stream_literals_def table_built_def)
qed

section \<open>Four streams, one after the other\<close>

definition slice_of :: "bytes \<Rightarrow> nat \<times> nat \<Rightarrow> bytes" where
  "slice_of source = (\<lambda>(s, e). take (e - s) (drop s source))"

fun laid_out :: "nat list \<Rightarrow> nat \<Rightarrow> bytes \<Rightarrow> (nat \<times> nat) list \<Rightarrow> nat list \<Rightarrow> nat \<Rightarrow> bytes list \<Rightarrow> bool" where
  "laid_out L M source (b # bs) (n # ns) st (d # ds) \<longleftrightarrow> fst b \<le> snd b \<and> snd b \<le> length source
     \<and> n = st + length d \<and> stream_of L M d (slice_of source b) \<and> laid_out L M source bs ns n ds"
| "laid_out L M source bs ns st ds \<longleftrightarrow> bs = [] \<and> ns = [] \<and> ds = []"

lemma decode_segments_ok:
  assumes "lengths_ok L M" "table_built L M t" "laid_out L M source bs ns st ds"
  shows "decode_segments t source (zip bs ns) st target = Ok (target @ concat ds)"
  using assms(3)
proof (induction ds arbitrary: bs ns st target)
  case Nil
  then show ?case by (cases bs; cases ns) auto
next
  case (Cons d ds)
  then obtain s e bs' n ns' where eq: "bs = (s, e) # bs'" "ns = n # ns'"
    by (cases bs; cases ns) auto
  have h: "s \<le> e" "e \<le> length source" "n = st + length d" "stream_of L M d (take (e - s) (drop s source))" "laid_out L M source bs' ns' n ds"
    using Cons.prems by (auto simp: eq slice_of_def)
  obtain dd r where o: "open_stream t (take (e - s) (drop s source)) = Ok (dd, r)" "hd_table dd = t" "codes_at L M (rr_stream r) d"
    "window_at M r (hd_state dd) (int (length (codes (huff_code L M) (rev d))))"
    by (rule open_stream_ok [OF assms(1,2) h(4)])
  from decode_segment_ok [OF assms(1) _ o(3,4), of 0 target] assms(2) o(2) obtain r' where
    r: "decode_segment (int M) 0 (length d) dd r target = Ok (length d, target @ d, r')" "rr_bits_remaining r' = - int M" by auto
  have "decode_segments t source (zip bs ns) st target = decode_segments t source (zip bs' ns') n (target @ d)"
    using h o(1) r assms(2) by (simp add: eq table_built_def)
  then show ?case using Cons.IH [OF h(5)] by simp
qed

section \<open>What the encoder lays out\<close>

text \<open>The quarters of the data, and a section body with its jump table.\<close>

definition quarters :: "bytes \<Rightarrow> bytes list" where
  "quarters dat = (let n = (length dat + 3) div 4 in
     [take n dat, take n (drop n dat), take n (drop (n * 2) dat), drop (n * 3) dat])"

definition jump_table :: "bytes list \<Rightarrow> bytes" where
  "jump_table srcs = concat (map (\<lambda>src. [of_nat (length src), of_nat (length src div 256)]) (take 3 srcs))"

definition body_of :: "nat list \<Rightarrow> nat \<Rightarrow> bytes \<Rightarrow> bytes \<Rightarrow> bool" where
  "body_of L M dat body \<longleftrightarrow> (\<exists>s1 s2 s3 s4. body = jump_table [s1, s2, s3, s4] @ s1 @ s2 @ s3 @ s4
     \<and> list_all2 (stream_of L M) (quarters dat) [s1, s2, s3, s4] \<and> list_all (\<lambda>s. length s < 2 ^ 16) [s1, s2, s3])"

lemma stream_size:
  assumes "stream_of L M d src" "lengths_ok L M"
  shows "8 * length src \<le> 11 * length d + 8" "0 < length src"
proof -
  obtain z where z: "z < 8" "bytes_bits src = codes (huff_code L M) (rev d) @ True # replicate z False"
    "\<forall>s\<in>set d. unat s < length L \<and> 0 < L ! unat s" using assms(1) by (auto simp: stream_of_def)
  have "length (codes (huff_code L M) ss) \<le> 11 * length ss" if "set ss \<subseteq> set d" for ss
    using that
  proof (induction ss)
    case (Cons s ss)
    then have "L ! unat s \<le> 11" using z(3) assms(2) code_span(2) [OF assms(2), of "unat s"] by (auto simp: lengths_ok_def)
    then show ?case using Cons by simp
  qed simp
  from this [of "rev d"] have "length (codes (huff_code L M) (rev d)) \<le> 11 * length d" by simp
  moreover have "8 * length src = length (codes (huff_code L M) (rev d)) + Suc z" using arg_cong [OF z(2), of length] by simp
  ultimately show "8 * length src \<le> 11 * length d + 8" "0 < length src" using z(1) by auto
qed

lemma sized_stream_ok:
  assumes w: "bw_inv w" "length (bw_bits w) mod 8 = 0" and t: "enc_built L M t" "lengths_ok L M"
    and dat: "\<forall>s\<in>set dat. unat s < length L \<and> 0 < L ! unat s"
  shows "\<exists>w' src. sized_stream t dat w = Ok (length src, w') \<and> bw_inv w' \<and> bw_bits w' = bw_bits w @ bytes_bits src \<and> stream_of L M dat src"
proof -
  obtain w' src where e: "huff_encode_stream t dat w = Ok w'" "bw_inv w'" "bw_bits w' = bw_bits w @ bytes_bits src" "stream_of L M dat src"
    using encode_stream_appends [OF assms] by (elim exE conjE) (rule that)
  then have "(bw_index w' - bw_index w) div 8 = length src" using w(1) by (simp add: bw_index_length)
  then show ?thesis using e by (intro exI [of _ w'] exI [of _ src]) (simp add: sized_stream_def)
qed

end
