(* ===== verification/Literals_Four.thy ===== *)
theory Literals_Four
  imports Literals_Roundtrip
begin

text \<open>
  Four Huffman streams behind a jump table: what the encoder lays out is what the decoder reads.
\<close>

unbundle bit_operations_syntax

lemma jump_bits: "n < 2 ^ 16 \<Longrightarrow> bytes_bits [of_nat n, of_nat (n div 256)] = word_bits 16 (of_nat n)"
proof (rule nth_equalityI)
  fix i assume "n < 2 ^ 16" "i < length (bytes_bits [of_nat n, of_nat (n div 256)])"
  then have "i < 16" by simp
  moreover have "n div 256 = drop_bit 8 n" by (simp add: drop_bit_eq_div)
  ultimately show "bytes_bits [of_nat n, of_nat (n div 256)] ! i = word_bits 16 (of_nat n) ! i"
    by (auto simp: nth_append bit_of_nat_iff bit_drop_bit_eq)
qed simp

lemma four_parts: "take n xs @ take n (drop n xs) @ take n (drop (n * 2) xs) @ drop (n * 3) xs = xs"
proof -
  have "n * 3 = n + n * 2" "n * 2 = n + n" by simp_all
  then show ?thesis by (simp only: drop_drop [symmetric] append_take_drop_id)
qed

lemma quarter_le: "6 \<le> n \<Longrightarrow> (n + 3) div 4 * 3 \<le> (n::nat)"
proof (cases "n < 9")
  case True
  assume "6 \<le> n"
  then consider "n = 6" | "n = 7" | "n = 8" using True by linarith
  then show ?thesis by cases simp_all
qed linarith

lemma quarters_split:
  assumes "6 \<le> length dat"
  shows "concat (quarters dat) = dat"
    "map length (quarters dat) = [(length dat + 3) div 4, (length dat + 3) div 4, (length dat + 3) div 4, length dat - (length dat + 3) div 4 * 3]"
    "\<forall>d\<in>set (quarters dat). set d \<subseteq> set dat"
proof -
  define n where "n = (length dat + 3) div 4"
  have n: "n * 3 \<le> length dat" using quarter_le [OF assms] by (simp add: n_def)
  have q: "quarters dat = [take n dat, take n (drop n dat), take n (drop (n * 2) dat), drop (n * 3) dat]"
    by (simp add: quarters_def n_def Let_def)
  show "concat (quarters dat) = dat" using four_parts [of n dat] by (simp only: q concat.simps append_Nil2)
  have "min (length dat) n = n" "min (length dat - n) n = n" "min (length dat - n * 2) n = n" using n by linarith+
  then show "map length (quarters dat) = [(length dat + 3) div 4, (length dat + 3) div 4, (length dat + 3) div 4, length dat - (length dat + 3) div 4 * 3]"
    unfolding n_def [symmetric] by (simp add: q)
  show "\<forall>d\<in>set (quarters dat). set d \<subseteq> set dat" by (auto simp: q dest: in_set_takeD in_set_dropD)
qed

lemma write_zero16:
  assumes "bw_inv w" "length (bw_bits w) mod 8 = 0"
  shows "\<exists>w'. bw_write_bits w 0 16 = Ok w' \<and> bw_inv w' \<and> bw_bits w' = bw_bits w @ word_bits 16 0"
  using bw_write_bits_64_correct [OF assms(1), of 16 0] by (auto simp: bw_write_bits_def)

lemma patch16:
  assumes "bw_inv w" "length (bw_bits w) mod 8 = 0" "bw_bits w = pre @ word_bits 16 0 @ rest" "length rest \<noteq> 0"
    "idx = length pre" "idx mod 8 = 0" "n < 2 ^ 16"
  shows "\<exists>w'. bw_change_bits_64 w idx (of_nat n) 16 = Ok w' \<and> bw_inv w'
    \<and> bw_bits w' = pre @ bytes_bits [of_nat n, of_nat (n div 256)] @ rest"
proof -
  have "unat (of_nat n :: u64) < 2 ^ 16" using assms(7) by (simp add: unat_of_nat)
  moreover have "idx + 16 < length (bw_bits w)" using assms(3,4,5) by simp
  ultimately obtain w' where "bw_change_bits_64 w idx (of_nat n) 16 = Ok w'" "bw_inv w'"
    "bw_bits w' = overwrite (bw_bits w) idx (word_bits 16 (of_nat n))"
    using bw_change_bits_64_correct [OF assms(1,2), of idx 16 "of_nat n"] assms(6) by auto
  then show ?thesis using overwrite_at [of pre idx "word_bits 16 (of_nat n)" "word_bits 16 0" rest] assms(3,5) jump_bits [OF assms(7)] by simp
qed

lemma encode4x_ok:
  assumes w: "bw_inv w" "length (bw_bits w) mod 8 = 0" and t: "enc_built L M t" "lengths_ok L M"
    and dat: "\<forall>s\<in>set dat. unat s < length L \<and> 0 < L ! unat s" "6 \<le> length dat" "length dat \<le> 131072"
  shows "\<exists>w' body. encode4x_only t dat w = Ok w' \<and> bw_inv w' \<and> bw_bits w' = bw_bits w @ bytes_bits body \<and> body_of L M dat body"
proof -
  let ?n = "(length dat + 3) div 4" and ?z = "word_bits 16 0"
  note q = quarters_split [OF dat(2)]
  obtain d1 d2 d3 d4 where qs: "quarters dat = [d1, d2, d3, d4]" and ds: "d1 = take ?n dat" "d2 = take ?n (drop ?n dat)"
    "d3 = take ?n (drop (?n * 2) dat)" "d4 = drop (?n * 3) dat" by (simp add: quarters_def Let_def)
  have live: "\<forall>s\<in>set d1. unat s < length L \<and> 0 < L ! unat s" "\<forall>s\<in>set d2. unat s < length L \<and> 0 < L ! unat s"
    "\<forall>s\<in>set d3. unat s < length L \<and> 0 < L ! unat s" "\<forall>s\<in>set d4. unat s < length L \<and> 0 < L ! unat s"
    using q(3) dat(1) unfolding qs by auto
  have len: "length d1 = ?n" "length d2 = ?n" "length d3 = ?n" "?n \<le> 32768" using q(2) dat(3) unfolding qs by auto
  obtain w1 where w1: "bw_write_bits w 0 16 = Ok w1" "bw_inv w1" "bw_bits w1 = bw_bits w @ ?z" using write_zero16 [OF w] by blast
  have a1: "length (bw_bits w1) mod 8 = 0" using w(2) w1(3) by simp presburger
  obtain w2 where w2: "bw_write_bits w1 0 16 = Ok w2" "bw_inv w2" "bw_bits w2 = bw_bits w1 @ ?z" using write_zero16 [OF w1(2) a1] by blast
  have a2: "length (bw_bits w2) mod 8 = 0" using a1 w2(3) by simp presburger
  obtain w3 where w3: "bw_write_bits w2 0 16 = Ok w3" "bw_inv w3" "bw_bits w3 = bw_bits w2 @ ?z" using write_zero16 [OF w2(2) a2] by blast
  have a3: "length (bw_bits w3) mod 8 = 0" using a2 w3(3) by simp presburger
  obtain w4 s1 where w4: "sized_stream t d1 w3 = Ok (length s1, w4)" "bw_inv w4" "bw_bits w4 = bw_bits w3 @ bytes_bits s1" "stream_of L M d1 s1"
    using sized_stream_ok [OF w3(2) a3 t live(1)] by (elim exE conjE) (rule that)
  have a4: "length (bw_bits w4) mod 8 = 0" using a3 w4(3) by simp
  obtain w5 s2 where w5: "sized_stream t d2 w4 = Ok (length s2, w5)" "bw_inv w5" "bw_bits w5 = bw_bits w4 @ bytes_bits s2" "stream_of L M d2 s2"
    using sized_stream_ok [OF w4(2) a4 t live(2)] by (elim exE conjE) (rule that)
  have a5: "length (bw_bits w5) mod 8 = 0" using a4 w5(3) by simp
  obtain w6 s3 where w6: "sized_stream t d3 w5 = Ok (length s3, w6)" "bw_inv w6" "bw_bits w6 = bw_bits w5 @ bytes_bits s3" "stream_of L M d3 s3"
    using sized_stream_ok [OF w5(2) a5 t live(3)] by (elim exE conjE) (rule that)
  have a6: "length (bw_bits w6) mod 8 = 0" using a5 w6(3) by simp
  obtain w7 s4 where w7: "huff_encode_stream t d4 w6 = Ok w7" "bw_inv w7" "bw_bits w7 = bw_bits w6 @ bytes_bits s4" "stream_of L M d4 s4"
    using encode_stream_appends [OF w6(2) a6 t live(4)] by (elim exE conjE) (rule that)
  have a7: "length (bw_bits w7) mod 8 = 0" using a6 w7(3) by simp
  let ?rest = "bytes_bits s1 @ bytes_bits s2 @ bytes_bits s3 @ bytes_bits s4"
  have b7: "bw_bits w7 = bw_bits w @ ?z @ ?z @ ?z @ ?rest" using w1(3) w2(3) w3(3) w4(3) w5(3) w6(3) w7(3) by simp
  have sz: "length s1 < 2 ^ 16" "length s2 < 2 ^ 16" "length s3 < 2 ^ 16"
    using stream_size(1) [OF w4(4) t(2)] stream_size(1) [OF w5(4) t(2)] stream_size(1) [OF w6(4) t(2)] len by auto
  have "length ?rest \<noteq> 0" using stream_size(2) [OF w7(4) t(2)] by simp
  then have ne: "length ?rest \<noteq> 0" "length (?z @ ?rest) \<noteq> 0" "length (?z @ ?z @ ?rest) \<noteq> 0" by simp_all
  let ?j = "\<lambda>s :: bytes. bytes_bits [of_nat (length s), of_nat (length s div 256)]"
  have i: "bw_index w = length (bw_bits w)" by (rule bw_index_length [OF w(1)])
  obtain w8 where w8: "bw_change_bits_64 w7 (bw_index w) (of_nat (length s1)) 16 = Ok w8" "bw_inv w8"
    "bw_bits w8 = bw_bits w @ ?j s1 @ ?z @ ?z @ ?rest"
    using patch16 [OF w7(2) a7 b7 ne(3) i _ sz(1)] i w(2) by (elim meta_impE exE conjE) (simp, rule that)
  have l8: "length (bw_bits w8) mod 8 = 0" using w8(3) w(2) by (simp del: bytes_bits_simps) presburger
  have b8: "bw_bits w8 = (bw_bits w @ ?j s1) @ ?z @ ?z @ ?rest" using w8(3) by (simp only: append_assoc)
  have i8: "bw_index w + 16 = length (bw_bits w @ ?j s1)" "(bw_index w + 16) mod 8 = 0" using i w(2) by (simp, presburger)
  obtain w9 where w9: "bw_change_bits_64 w8 (bw_index w + 16) (of_nat (length s2)) 16 = Ok w9" "bw_inv w9"
    "bw_bits w9 = (bw_bits w @ ?j s1) @ ?j s2 @ ?z @ ?rest"
    using patch16 [OF w8(2) l8 b8 ne(2) i8 sz(2)] by (elim exE conjE) (rule that)
  have l9: "length (bw_bits w9) mod 8 = 0" using w9(3) w(2) by (simp del: bytes_bits_simps) presburger
  have b9: "bw_bits w9 = (bw_bits w @ ?j s1 @ ?j s2) @ ?z @ ?rest" using w9(3) by (simp only: append_assoc)
  have i9: "bw_index w + 32 = length (bw_bits w @ ?j s1 @ ?j s2)" "(bw_index w + 32) mod 8 = 0" using i w(2) by (simp, presburger)
  obtain w10 where w10: "bw_change_bits_64 w9 (bw_index w + 32) (of_nat (length s3)) 16 = Ok w10" "bw_inv w10"
    "bw_bits w10 = (bw_bits w @ ?j s1 @ ?j s2) @ ?j s3 @ ?rest"
    using patch16 [OF w9(2) l9 b9 ne(1) i9 sz(3)] by (elim exE conjE) (rule that)
  define body where "body = jump_table [s1, s2, s3, s4] @ s1 @ s2 @ s3 @ s4"
  have "bw_bits w10 = bw_bits w @ bytes_bits body" using w10(3) by (simp add: body_def jump_table_def)
  moreover have "body_of L M dat body" unfolding body_of_def qs
    by (rule exI [of _ s1], rule exI [of _ s2], rule exI [of _ s3], rule exI [of _ s4]) (use sz in \<open>simp add: body_def w4 w5 w6 w7\<close>)
  moreover have "encode4x_only t dat w = Ok w10"
    using dat(2) sz quarter_le [OF dat(2)] by (simp add: encode4x_only_def Let_def ds [symmetric] w1(1) w2(1) w3(1) w4(1) w5(1) w6(1) w7(1) w8(1) w9(1) w10(1))
  ultimately show ?thesis using w10(2) by blast
qed

section \<open>Reading the jump table\<close>

lemma jump_bytes:
  assumes "n < 2 ^ 16"
  shows "unat (of_nat n :: u8) + push_bit 8 (unat (of_nat (n div 256) :: u8)) = n"
proof -
  have "n div 256 < 256" using assms by simp
  then show ?thesis by (simp add: unat_of_nat push_bit_eq_mult)
qed

lemma slice_piece: "length pre = a \<Longrightarrow> a + length src = b \<Longrightarrow> slice_of (pre @ src @ post) (a, b) = src"
  by (auto simp: slice_of_def)

lemma body_bounds:
  assumes "body_of L M dat body" "6 \<le> length dat"
  obtains bounds where "parse_stream_bounds (length dat) body = Ok bounds"
    "laid_out L M body bounds (segment_ends (length dat)) 0 (quarters dat)" "list_all (\<lambda>b. 6 \<le> fst b) bounds"
proof -
  obtain s1 s2 s3 s4 where b: "body = jump_table [s1, s2, s3, s4] @ s1 @ s2 @ s3 @ s4"
    "list_all2 (stream_of L M) (quarters dat) [s1, s2, s3, s4]" "length s1 < 2 ^ 16" "length s2 < 2 ^ 16" "length s3 < 2 ^ 16"
    using assms(1) by (auto simp: body_of_def)
  obtain d1 d2 d3 d4 where q: "quarters dat = [d1, d2, d3, d4]" by (simp add: quarters_def Let_def)
  let ?n = "(length dat + 3) div 4"
  have len: "length d1 = ?n" "length d2 = ?n" "length d3 = ?n" "length d4 = length dat - ?n * 3" "?n * 3 \<le> length dat"
    using quarters_split(2) [OF assms(2)] quarter_le [OF assms(2)] unfolding q by simp_all
  define bounds where "bounds = [(6, 6 + length s1), (6 + length s1, 6 + (length s1 + length s2)),
    (6 + (length s1 + length s2), 6 + (length s1 + length s2 + length s3)), (6 + (length s1 + length s2 + length s3), length body)]"
  have j: "jump_table [s1, s2, s3, s4] = [of_nat (length s1), of_nat (length s1 div 256), of_nat (length s2), of_nat (length s2 div 256),
      of_nat (length s3), of_nat (length s3 div 256)]" by (simp add: jump_table_def)
  have lb: "length body = 6 + (length s1 + length s2 + length s3) + length s4" by (simp add: b(1) j)
  have at: "body ! 0 = of_nat (length s1)" "body ! 1 = of_nat (length s1 div 256)" "body ! 2 = of_nat (length s2)"
    "body ! 3 = of_nat (length s2 div 256)" "body ! 4 = of_nat (length s3)" "body ! 5 = of_nat (length s3 div 256)"
    by (simp_all add: b(1) j)
  have p: "parse_stream_bounds (length dat) body = Ok bounds"
    using assms(2) lb jump_bytes [OF b(3)] jump_bytes [OF b(4)] jump_bytes [OF b(5)]
    unfolding parse_stream_bounds_def Let_def at bounds_def by (simp add: add.assoc)
  have st: "stream_of L M d1 s1" "stream_of L M d2 s2" "stream_of L M d3 s3" "stream_of L M d4 s4" using b(2) by (simp_all add: q)
  let ?J = "jump_table [s1, s2, s3, s4]"
  have "slice_of body (6, 6 + length s1) = s1" using slice_piece [of ?J 6 s1 "6 + length s1" "s2 @ s3 @ s4"] by (simp add: b(1) j)
  moreover have "slice_of body (6 + length s1, 6 + (length s1 + length s2)) = s2"
    using slice_piece [of "?J @ s1" "6 + length s1" s2 "6 + (length s1 + length s2)" "s3 @ s4"] by (simp add: b(1) j)
  moreover have "slice_of body (6 + (length s1 + length s2), 6 + (length s1 + length s2 + length s3)) = s3"
    using slice_piece [of "?J @ s1 @ s2" "6 + (length s1 + length s2)" s3 "6 + (length s1 + length s2 + length s3)" "s4"] by (simp add: b(1) j)
  moreover have "slice_of body (6 + (length s1 + length s2 + length s3), length body) = s4"
    using slice_piece [of "?J @ s1 @ s2 @ s3" "6 + (length s1 + length s2 + length s3)" s4 "length body" "[]"] lb by (simp add: b(1) j)
  ultimately have "laid_out L M body bounds (segment_ends (length dat)) 0 (quarters dat)"
    using st len lb by (simp add: bounds_def segment_ends_def q Let_def)
  then show thesis using that p by (simp add: bounds_def)
qed

lemma four_streams_slow:
  assumes "lengths_ok L M" "table_built L M t" "body_of L M dat body" "6 \<le> length dat"
    and "\<And>bounds. parse_stream_bounds (length dat) body = Ok bounds \<Longrightarrow> \<not> fast_gate t (length dat) bounds"
  shows "four_streams t body (length dat) target = Ok (target @ dat)"
proof -
  obtain bounds where b: "parse_stream_bounds (length dat) body = Ok bounds"
    "laid_out L M body bounds (segment_ends (length dat)) 0 (quarters dat)" by (rule body_bounds [OF assms(3,4)])
  then show ?thesis using decode_segments_ok [OF assms(1,2) b(2)] assms(5) quarters_split(1) [OF assms(4)] by (simp add: four_streams_def)
qed

end
