(* ===== verification/Literals_Fast.thy ===== *)
theory Literals_Fast
  imports Literals_Four Seq_Window
begin

text \<open>
  The interleaved four-stream loop: on streams that hold the codes of the data, every lookup finds
  the right symbol, every reload stays in the region, and the tails decode exactly what the loop left.
\<close>

unbundle bit_operations_syntax

section \<open>A lookup in a window\<close>

lemma lookup_code:
  assumes "lengths_ok L M" "table_built L M t" "code_at L M bs P s"
  obtains e where "rindex (ht_packed t) (unat (bits_word (sbits bs (P - int M) M))) = (Ok e :: ('e, _) res)"
    "unat (e AND 0x3f) = L ! unat s" "ucast (drop_bit 8 e) = s" "L ! unat s \<le> M"
proof -
  let ?b = "L ! unat s" and ?state = "bits_word (sbits bs (P - int M) M)"
  have s: "unat s < length L" "0 < ?b" and c: "sbits bs (P - int ?b) ?b = huff_code L M s"
    using assms(3) by (simp_all add: code_at_def)
  note cs = code_span [OF assms(1) s]
  have "unat ?state div 2 ^ (M - ?b) = bits_val (huff_code L M s)"
    using assms(1) cs(2) window_top [of ?b M bs P] by (simp add: lengths_ok_def c)
  also have "\<dots> = code_of L M (unat s)" using cs(3) by (simp add: huff_code_def bits_val_val_bits take_bit_nat_eq_self)
  finally have d: "unat ?state div 2 ^ (M - ?b) = code_of L M (unat s)" .
  note e = table_lookup [OF assms(1) s d]
  have b: "unat s < 256" "?b \<le> 11" using unsigned_less [of s] cs(2) assms(1) by (simp_all add: lengths_ok_def)
  have t: "ht_packed t = map huff_packed_of (spans M (ranked L M))" "length (spans M (ranked L M)) = 2 ^ M"
    using assms(2) length_table [OF assms(1)] by (simp_all add: table_built_def)
  show thesis
    by (rule that [of "huff_packed_of (unat s, ?b)"]) (use e t huff_packed_of_fields [OF b] cs(2) in simp_all)
qed

lemma peek_bits:
  assumes "1 \<le> M" "c + M \<le> 64" "\<forall>k<64. 64 - M - c \<le> k \<longrightarrow> bit v k = sbit bs (8 * int p + int k)"
  shows "drop_bit (64 - M) (push_bit c v) = bits_word (sbits bs (8 * int p + 64 - int c - int M) M)" (is "?l = ?r")
proof (rule bit_word_eqI)
  fix j :: nat assume "j < LENGTH(64)"
  show "bit ?l j = bit ?r j"
  proof (cases "j < M")
    case True
    then have e: "int (64 - M + j - c) = 64 - int M + int j - int c" using assms(2) by (simp add: of_nat_diff)
    have "c \<le> 64 - M + j" "64 - M + j < 64" using True assms(1,2) by linarith+
    then have "bit ?l j = bit v (64 - M + j - c)" by (simp add: bit_drop_bit_eq bit_push_bit_iff)
    also have "\<dots> = sbit bs (8 * int p + int (64 - M + j - c))" using True assms(2,3) by auto
    finally show ?thesis using True assms(2) by (simp add: bit_bits_word e algebra_simps)
  qed (use assms in \<open>auto simp: bit_drop_bit_eq bit_push_bit_iff bit_bits_word dest: bit_imp_le_length\<close>)
qed

lemma ctz_marked: "c \<le> 63 \<Longrightarrow> bit u 0 \<Longrightarrow> ctz64 (push_bit c u) = c"
proof -
  assume c: "c \<le> 63" and u: "bit u 0"
  have "[0..<64] = [0..<c] @ c # [Suc c..<64]" using c upt_add_eq_append [of 0 c "64 - c"] upt_conv_Cons [of c 64] by simp
  then have "map (bit (push_bit c u)) [0..<64] = map (bit (push_bit c u)) [0..<c] @ True # map (bit (push_bit c u)) [Suc c..<64]"
    using c u by (simp add: bit_push_bit_iff)
  then show ?thesis by (simp add: ctz64_def takeWhile_append bit_push_bit_iff takeWhile_eq_all_conv [THEN iffD2])
qed

section \<open>A lane\<close>

text \<open>
  \<open>win_pos region st A c\<close>: the stream's window stands at bit \<open>A\<close> of the region with \<open>c\<close> bits shifted out;
  the marker bit below the window tells \<open>c\<close>.
\<close>

definition win_pos :: "bytes \<Rightarrow> WinStream \<Rightarrow> int \<Rightarrow> nat \<Rightarrow> bool" where
  "win_pos region st A c \<longleftrightarrow> ws_ip st + 8 \<le> length region \<and> c \<le> 63 \<and> A = 8 * int (ws_ip st) + 64 - int c
     \<and> (\<exists>u. bit u 0 \<and> (\<forall>k<64. 0 < k \<longrightarrow> bit u k = sbit (bytes_bits region) (8 * int (ws_ip st) + int k)) \<and> ws_bits st = push_bit c u)"

lemma decode_sym_ok:
  assumes "lengths_ok L M" "table_built L M t" "win_pos region st A c" "c + M \<le> 63" "code_at L M (bytes_bits region) A s"
    and "ws_op st + k < length out"
  shows "\<exists>st'. decode_sym (ht_packed t) M k st out = Ok (st', out[ws_op st + k := Some s]) \<and> ws_op st' = ws_op st
    \<and> ws_ip st' = ws_ip st \<and> win_pos region st' (A - int (L ! unat s)) (c + L ! unat s) \<and> L ! unat s \<le> M"
proof -
  have M: "1 \<le> M" using assms(1) by (simp add: lengths_ok_def)
  obtain u where u: "bit u 0" "\<forall>k<64. 0 < k \<longrightarrow> bit u k = sbit (bytes_bits region) (8 * int (ws_ip st) + int k)" "ws_bits st = push_bit c u"
    and p: "A = 8 * int (ws_ip st) + 64 - int c" using assms(3) by (auto simp: win_pos_def)
  obtain e where e: "rindex (ht_packed t) (unat (bits_word (sbits (bytes_bits region) (A - int M) M))) = (Ok e :: (DecompressLiteralsError, _) res)"
    "unat (e AND 0x3f) = L ! unat s" "ucast (drop_bit 8 e) = s" "L ! unat s \<le> M" by (rule lookup_code [OF assms(1,2,5)])
  have "0 < 64 - M - c" using assms(4) by simp
  then have "\<forall>k<64. 64 - M - c \<le> k \<longrightarrow> bit u k = sbit (bytes_bits region) (8 * int (ws_ip st) + int k)" using u(2) by auto
  with M assms(4) have "drop_bit (64 - M) (push_bit c u) = bits_word (sbits (bytes_bits region) (8 * int (ws_ip st) + 64 - int c - int M) M)"
    by (intro peek_bits) simp_all
  then have "decode_sym (ht_packed t) M k st out = Ok (st\<lparr>ws_bits := push_bit (L ! unat s) (ws_bits st)\<rparr>, out[ws_op st + k := Some s])"
    using e(1-3) assms(6) by (simp add: decode_sym_def u(3) p)
  moreover have "win_pos region (st\<lparr>ws_bits := push_bit (L ! unat s) (ws_bits st)\<rparr>) (A - int (L ! unat s)) (c + L ! unat s)"
    using assms(3,4) e(4) u unfolding win_pos_def by (auto simp: add.commute intro!: exI [of _ u])
  ultimately show ?thesis using e(4) by (intro exI conjI) auto
qed

lemma reload_window_ok:
  assumes "win_pos region st A c" "c div 8 \<le> ws_ip st"
  shows "\<exists>st'. reload_window region n st = Ok st' \<and> ws_op st' = ws_op st + n \<and> ws_ip st' = ws_ip st - c div 8
    \<and> win_pos region st' A (c mod 8)"
proof -
  obtain v where v: "ws_bits st = push_bit c v" "bit v 0" and p: "A = 8 * int (ws_ip st) + 64 - int c" "c \<le> 63" "ws_ip st + 8 \<le> length region"
    using assms(1) by (auto simp: win_pos_def)
  have "ws_ip st - c div 8 + 8 \<le> length region" using p(3) by simp
  from load_le64_at [OF this] obtain u where u: "load_le64 region (ws_ip st - c div 8) = (Ok u :: (DecompressLiteralsError, _) res)"
    "\<forall>k<64. bit u k = sbit (bytes_bits region) (8 * int (ws_ip st - c div 8) + int k)" by blast
  have z: "ctz64 (ws_bits st) = c" using ctz_marked [OF p(2) v(2)] by (simp add: v(1))
  have "A = 8 * int (ws_ip st - c div 8) + 64 - int (c mod 8)"
    using p(1) assms(2) by (simp add: of_nat_diff) presburger
  then show ?thesis using assms(2) p(3) u by (auto simp: reload_window_def z win_pos_def bit_or_iff bit_1_iff intro!: exI [of _ "u OR 1"])
qed

text \<open>Where the codes of a lane lie in the region.\<close>

lemma codes_at_drop: "codes_at L M bs d \<Longrightarrow> codes_at L M bs (drop k d)"
proof (induction k arbitrary: d)
  case (Suc k)
  then show ?case using codes_at_head(2) by (cases d) fastforce+
qed simp

lemma sbits_drop: "0 \<le> P \<Longrightarrow> sbits (drop n bs) P k = sbits bs (int n + P) k"
proof (rule nth_equalityI)
  fix i assume "0 \<le> P" "i < length (sbits (drop n bs) P k)"
  then have "sbit (drop n bs) (P + int i) = sbit bs (int n + (P + int i))" by (auto simp: sbit_def nat_add_distrib)
  then show "sbits (drop n bs) P k ! i = sbits bs (int n + P) k ! i" using \<open>i < _\<close> by (simp add: add.assoc)
qed simp

lemma code_at_lane:
  assumes "codes_at L M (drop n bs) d" "k < length d"
  shows "code_at L M bs (int n + int (length (codes (huff_code L M) (rev (drop k d))))) (d ! k)"
    "int (length (codes (huff_code L M) (rev (drop k d)))) - int (L ! unat (d ! k)) = int (length (codes (huff_code L M) (rev (drop (Suc k) d))))"
proof -
  have d: "drop k d = d ! k # drop (Suc k) d" using assms(2) by (simp add: Cons_nth_drop_Suc)
  note h = codes_at_head [OF codes_at_drop [OF assms(1), of k, unfolded d], folded d]
  let ?P = "int (length (codes (huff_code L M) (rev (drop k d))))" and ?b = "L ! unat (d ! k)"
  have "0 \<le> ?P - int ?b" using h(3) by simp
  then have "sbits (drop n bs) (?P - int ?b) ?b = sbits bs (int n + ?P - int ?b) ?b"
    using sbits_drop by (simp add: add_diff_eq)
  then show "code_at L M bs (int n + ?P) (d ! k)" using h(1) by (simp add: code_at_def)
  show "?P - int ?b = int (length (codes (huff_code L M) (rev (drop (Suc k) d))))" by (rule h(3))
qed

text \<open>
  A lane is one stream: where its bytes start in the region, where its symbols go in the output, and
  its symbols.  The lanes write disjoint parts of the output.
\<close>

type_synonym lane = "nat \<times> nat \<times> bytes"

definition data_len :: "lane \<Rightarrow> nat" where
  "data_len = (\<lambda>(start, first, d). length d)"

definition first_of :: "lane \<Rightarrow> nat" where
  "first_of = (\<lambda>(start, first, d). first)"

definition part_of :: "lane \<Rightarrow> nat set" where
  "part_of ln = {first_of ln..<first_of ln + data_len ln}"

definition changed_in :: "nat set \<Rightarrow> out_buf \<Rightarrow> out_buf \<Rightarrow> bool" where
  "changed_in S out out' \<longleftrightarrow> length out' = length out \<and> (\<forall>i. i \<notin> S \<longrightarrow> out' ! i = out ! i)"

lemma changed_in_refl [simp]: "changed_in S out out"
  by (simp add: changed_in_def)

lemma changed_in_trans: "changed_in S a b \<Longrightarrow> changed_in T b c \<Longrightarrow> changed_in (S \<union> T) a c"
  by (simp add: changed_in_def)

lemma changed_in_same: "changed_in S a b \<Longrightarrow> changed_in S b c \<Longrightarrow> changed_in S a c"
  by (simp add: changed_in_def)

lemma changed_in_mono: "changed_in S a b \<Longrightarrow> S \<subseteq> T \<Longrightarrow> changed_in T a b"
  by (auto simp: changed_in_def)

lemma changed_in_write: "i \<in> S \<Longrightarrow> changed_in S out (out[i := x])"
  by (metis changed_in_def length_list_update nth_list_update_neq)

lemma changed_in_length: "changed_in S out out' \<Longrightarrow> length out' = length out"
  by (simp add: changed_in_def)

definition lane_data :: "nat list \<Rightarrow> nat \<Rightarrow> bytes \<Rightarrow> nat \<Rightarrow> lane \<Rightarrow> bool" where
  "lane_data L M region n = (\<lambda>(start, first, d). first + length d \<le> n \<and> codes_at L M (drop (8 * start) (bytes_bits region)) d)"

definition lane_at :: "nat list \<Rightarrow> nat \<Rightarrow> bytes \<Rightarrow> out_buf \<Rightarrow> nat \<Rightarrow> nat \<Rightarrow> nat \<Rightarrow> lane \<Rightarrow> WinStream \<Rightarrow> bool" where
  "lane_at L M region out k j C = (\<lambda>(start, first, d) st. ws_op st = first + k \<and> k + j \<le> length d
     \<and> (\<forall>i<k + j. out ! (first + i) = Some (d ! i))
     \<and> (\<exists>c\<le>C. win_pos region st (int (8 * start) + int (length (codes (huff_code L M) (rev (drop (k + j) d))))) c))"

lemma lane_at_changed:
  assumes "lane_at L M region out k j C ln st" "changed_in S out out'" "S \<inter> part_of ln = {}"
  shows "lane_at L M region out' k j C ln st"
proof -
  obtain start first d where ln: "ln = (start, first, d)" by (cases ln)
  have "out' ! (first + i) = out ! (first + i)" if "i < length d" for i
  proof -
    have "first + i \<notin> S" using assms(3) that by (auto simp: ln part_of_def first_of_def data_len_def)
    then show ?thesis using assms(2) by (simp add: changed_in_def)
  qed
  then show ?thesis using assms(1) by (simp add: lane_at_def ln)
qed

lemma lane_sym:
  assumes "lengths_ok L M" "table_built L M t" "lane_data L M region (length out) ln"
    and "lane_at L M region out k j C ln st" "C + M \<le> 63" "k + j < data_len ln"
  shows "\<exists>st' out'. decode_sym (ht_packed t) M j st out = Ok (st', out') \<and> changed_in (part_of ln) out out'
    \<and> ws_ip st' = ws_ip st \<and> lane_at L M region out' k (Suc j) (C + M) ln st'"
proof -
  obtain start first d where ln: "ln = (start, first, d)" by (cases ln)
  let ?s = "d ! (k + j)" and ?A = "int (8 * start) + int (length (codes (huff_code L M) (rev (drop (k + j) d))))"
  obtain c where c: "c \<le> C" "win_pos region st ?A c" and op: "ws_op st = first + k" and fl: "\<forall>i<k + j. out ! (first + i) = Some (d ! i)"
    using assms(4) by (auto simp: lane_at_def ln)
  have dd: "first + length d \<le> length out" "codes_at L M (drop (8 * start) (bytes_bits region)) d"
    using assms(3) by (simp_all add: lane_data_def ln)
  have kj: "k + j < length d" using assms(6) by (simp add: data_len_def ln)
  note ca = code_at_lane [OF dd(2) kj]
  have i: "ws_op st + j < length out" using dd(1) kj op by simp
  have "c + M \<le> 63" using c(1) assms(5) by simp
  from decode_sym_ok [OF assms(1,2) c(2) this ca(1) i] obtain st' where
    st: "decode_sym (ht_packed t) M j st out = Ok (st', out[ws_op st + j := Some ?s])" "ws_op st' = ws_op st" "ws_ip st' = ws_ip st"
    "win_pos region st' (?A - int (L ! unat ?s)) (c + L ! unat ?s)" "L ! unat ?s \<le> M" by blast
  have "win_pos region st' (int (8 * start) + int (length (codes (huff_code L M) (rev (drop (k + Suc j) d))))) (c + L ! unat ?s)"
    using st(4) ca(2) by (simp add: add_diff_eq [symmetric] del: of_nat_mult)
  moreover have "\<forall>i<k + Suc j. (out[ws_op st + j := Some ?s]) ! (first + i) = Some (d ! i)"
    using fl op i by (auto simp: nth_list_update less_Suc_eq)
  ultimately have "lane_at L M region (out[ws_op st + j := Some ?s]) k (Suc j) (C + M) ln st'"
    using st(2,5) op kj c(1) by (auto simp: lane_at_def ln intro!: exI [of _ "c + L ! unat ?s"])
  moreover have "changed_in (part_of ln) out (out[ws_op st + j := Some ?s])"
    using op kj by (intro changed_in_write) (simp add: part_of_def first_of_def data_len_def ln)
  ultimately show ?thesis using st(1,3) by blast
qed

lemma reload_lane:
  assumes "lane_at L M region out k j 63 ln st" "7 \<le> ws_ip st"
  shows "\<exists>st'. reload_window region j st = Ok st' \<and> lane_at L M region out (k + j) 0 7 ln st' \<and> ws_ip st \<le> ws_ip st' + 7"
proof -
  obtain start first d where ln: "ln = (start, first, d)" by (cases ln)
  let ?A = "int (8 * start) + int (length (codes (huff_code L M) (rev (drop (k + j) d))))"
  obtain c where c: "c \<le> 63" "win_pos region st ?A c" using assms(1) by (auto simp: lane_at_def ln)
  have m: "c div 8 \<le> 7" "c mod 8 \<le> 7" using c(1) by simp_all
  then have "c div 8 \<le> ws_ip st" using assms(2) by simp
  from reload_window_ok [OF c(2) this, of j] obtain st' where st: "reload_window region j st = Ok st'" "ws_op st' = ws_op st + j"
    "ws_ip st' = ws_ip st - c div 8" "win_pos region st' ?A (c mod 8)" by blast
  have "lane_at L M region out (k + j) 0 7 ln st'" using assms(1) st(2,4) m(2) by (auto simp: lane_at_def ln)
  moreover have "ws_ip st \<le> ws_ip st' + 7" using st(3) m(1) by linarith
  ultimately show ?thesis using st(1) by blast
qed

lemma lane_at_weaken: "lane_at L M region out k j C ln st \<Longrightarrow> C \<le> C' \<Longrightarrow> lane_at L M region out k j C' ln st"
  by (cases ln) (auto simp: lane_at_def intro: order_trans)

section \<open>All lanes\<close>

abbreviation lanes_at :: "nat list \<Rightarrow> nat \<Rightarrow> bytes \<Rightarrow> out_buf \<Rightarrow> nat \<Rightarrow> nat \<Rightarrow> nat \<Rightarrow> lane list \<Rightarrow> WinStream list \<Rightarrow> bool" where
  "lanes_at L M region out k j C \<equiv> list_all2 (lane_at L M region out k j C)"

fun apart :: "lane list \<Rightarrow> bool" where
  "apart [] \<longleftrightarrow> True"
| "apart (ln # lns) \<longleftrightarrow> (\<forall>l\<in>set lns. part_of ln \<inter> part_of l = {}) \<and> apart lns"

definition parts_of :: "lane list \<Rightarrow> nat set" where
  "parts_of lns = \<Union> (part_of ` set lns)"

lemma parts_of_simps [simp]: "parts_of [] = {}" "parts_of (ln # lns) = part_of ln \<union> parts_of lns"
  by (simp_all add: parts_of_def)

lemma apart_parts: "apart (ln # lns) \<Longrightarrow> part_of ln \<inter> parts_of lns = {}" "apart (ln # lns) \<Longrightarrow> parts_of lns \<inter> part_of ln = {}"
  by (auto simp: parts_of_def)

lemma lanes_changed:
  assumes "list_all2 (\<lambda>ln st. P ln st) lns sts" "\<And>ln st. ln \<in> set lns \<Longrightarrow> P ln st \<Longrightarrow> Q ln st"
  shows "list_all2 Q lns sts"
  using assms by (auto elim!: list.rel_mono_strong)

lemma lanes_at_changed:
  assumes "lanes_at L M region out k j C lns sts" "changed_in S out out'" "S \<inter> parts_of lns = {}"
  shows "lanes_at L M region out' k j C lns sts"
  by (rule lanes_changed [OF assms(1)], rule lane_at_changed [OF _ assms(2)]) (use assms(3) in \<open>auto simp: parts_of_def\<close>)

lemma decode_column_ok:
  assumes "lengths_ok L M" "table_built L M t" "C + M \<le> 63"
    and "\<forall>ln\<in>set lns. lane_data L M region (length out) ln \<and> k + j < data_len ln" "apart lns"
    and "lanes_at L M region out k j C lns sts"
  shows "\<exists>sts' out'. decode_column (ht_packed t) M j sts out = Ok (sts', out') \<and> changed_in (parts_of lns) out out'
    \<and> map ws_ip sts' = map ws_ip sts \<and> lanes_at L M region out' k (Suc j) (C + M) lns sts'"
  using assms(4-6)
proof (induction lns arbitrary: sts out)
  case Nil
  then show ?case by simp
next
  case (Cons ln lns)
  note ap = apart_parts [OF Cons.prems(2)]
  obtain st sts1 where sts: "sts = st # sts1" "lane_at L M region out k j C ln st" "lanes_at L M region out k j C lns sts1"
    using Cons.prems(3) by (auto simp: list_all2_Cons1)
  have h: "lane_data L M region (length out) ln" "k + j < data_len ln" using Cons.prems(1) by simp_all
  obtain st' out1 where s: "decode_sym (ht_packed t) M j st out = Ok (st', out1)" "changed_in (part_of ln) out out1"
    "ws_ip st' = ws_ip st" "lane_at L M region out1 k (Suc j) (C + M) ln st'"
    using lane_sym [OF assms(1,2) h(1) sts(2) assms(3) h(2)] by blast
  have d: "\<forall>ln\<in>set lns. lane_data L M region (length out1) ln \<and> k + j < data_len ln"
    using Cons.prems(1) changed_in_length [OF s(2)] by simp
  have "apart lns" using Cons.prems(2) by simp
  from Cons.IH [OF d this lanes_at_changed [OF sts(3) s(2) ap(1)]] obtain sts' out' where
    r: "decode_column (ht_packed t) M j sts1 out1 = Ok (sts', out')" "changed_in (parts_of lns) out1 out'"
    "map ws_ip sts' = map ws_ip sts1" "lanes_at L M region out' k (Suc j) (C + M) lns sts'" by blast
  have "lane_at L M region out' k (Suc j) (C + M) ln st'" by (rule lane_at_changed [OF s(4) r(2) ap(2)])
  then show ?case using s r changed_in_trans [OF s(2) r(2)] by (simp add: sts(1))
qed

lemma decode_columns_ok:
  assumes "lengths_ok L M" "table_built L M t" "C + n * M \<le> 63"
    and "\<forall>ln\<in>set lns. lane_data L M region (length out) ln \<and> k + j + n \<le> data_len ln" "apart lns"
    and "lanes_at L M region out k j C lns sts"
  shows "\<exists>sts' out'. decode_columns (ht_packed t) M [j..<j + n] sts out = Ok (sts', out') \<and> changed_in (parts_of lns) out out'
    \<and> map ws_ip sts' = map ws_ip sts \<and> lanes_at L M region out' k (j + n) (C + n * M) lns sts'"
  using assms(3,4,6)
proof (induction n arbitrary: j C sts out)
  case 0
  then show ?case by simp
next
  case (Suc n)
  have C: "C + M \<le> 63" using Suc.prems(1) by simp
  have d: "\<forall>ln\<in>set lns. lane_data L M region (length out) ln \<and> k + j < data_len ln" using Suc.prems(2) by fastforce
  obtain sts1 out1 where s: "decode_column (ht_packed t) M j sts out = Ok (sts1, out1)" "changed_in (parts_of lns) out out1"
    "map ws_ip sts1 = map ws_ip sts" "lanes_at L M region out1 k (Suc j) (C + M) lns sts1"
    using decode_column_ok [OF assms(1,2) C d assms(5) Suc.prems(3)] by blast
  have "\<exists>sts' out'. decode_columns (ht_packed t) M [Suc j..<Suc j + n] sts1 out1 = Ok (sts', out') \<and> changed_in (parts_of lns) out1 out'
    \<and> map ws_ip sts' = map ws_ip sts1 \<and> lanes_at L M region out' k (Suc j + n) (C + M + n * M) lns sts'"
    by (rule Suc.IH [OF _ _ s(4)]) (use Suc.prems(1,2) changed_in_length [OF s(2)] in \<open>auto simp: add.assoc\<close>)
  moreover have "[j..<j + Suc n] = j # [Suc j..<Suc j + n]" by (simp add: upt_rec)
  ultimately show ?case using s changed_in_same [OF s(2)] by (auto simp: add.assoc)
qed

lemma reload_windows_ok:
  assumes "lanes_at L M region out k j 63 lns sts" "\<forall>st\<in>set sts. 7 \<le> ws_ip st"
  shows "\<exists>sts'. reload_windows region j sts = Ok sts' \<and> lanes_at L M region out (k + j) 0 7 lns sts'
    \<and> list_all2 (\<lambda>st st'. ws_ip st \<le> ws_ip st' + 7) sts sts'"
  using assms
proof (induction lns arbitrary: sts)
  case Nil
  then show ?case by simp
next
  case (Cons ln lns)
  obtain st sts1 where sts: "sts = st # sts1" "lane_at L M region out k j 63 ln st" "lanes_at L M region out k j 63 lns sts1"
    using Cons.prems(1) by (auto simp: list_all2_Cons1)
  have "7 \<le> ws_ip st" using Cons.prems(2) sts(1) by simp
  from reload_lane [OF sts(2) this] obtain st' where s: "reload_window region j st = Ok st'" "lane_at L M region out (k + j) 0 7 ln st'"
    "ws_ip st \<le> ws_ip st' + 7" by blast
  obtain sts' where r: "reload_windows region j sts1 = Ok sts'" "lanes_at L M region out (k + j) 0 7 lns sts'"
    "list_all2 (\<lambda>st st'. ws_ip st \<le> ws_ip st' + 7) sts1 sts'" using Cons.IH [OF sts(3)] Cons.prems(2) sts(1) by auto
  then show ?case using s by (simp add: sts(1))
qed

lemma lanes_at_weaken: "lanes_at L M region out k j C lns sts \<Longrightarrow> C \<le> C' \<Longrightarrow> lanes_at L M region out k j C' lns sts"
  by (erule lanes_changed) (rule lane_at_weaken)

lemma same_ips:
  assumes "map ws_ip sts1 = map ws_ip sts"
  shows "\<forall>st\<in>set sts. n \<le> ws_ip st \<Longrightarrow> \<forall>st\<in>set sts1. n \<le> ws_ip st"
    "list_all2 (\<lambda>st st'. ws_ip st \<le> ws_ip st' + 7) sts1 sts' \<Longrightarrow> list_all2 (\<lambda>st st'. ws_ip st \<le> ws_ip st' + 7) sts sts'"
proof -
  assume "\<forall>st\<in>set sts. n \<le> ws_ip st"
  moreover have "ws_ip ` set sts1 = ws_ip ` set sts" using arg_cong [OF assms, of set] by simp
  ultimately have "\<forall>i\<in>ws_ip ` set sts1. n \<le> i" by simp
  then show "\<forall>st\<in>set sts1. n \<le> ws_ip st" by blast
next
  assume "list_all2 (\<lambda>st st'. ws_ip st \<le> ws_ip st' + 7) sts1 sts'"
  then have "list_all2 (\<lambda>i st'. i \<le> ws_ip st' + 7) (map ws_ip sts1) sts'" by (simp add: list_all2_map1)
  then show "list_all2 (\<lambda>st st'. ws_ip st \<le> ws_ip st' + 7) sts sts'" unfolding assms by (simp add: list_all2_map1)
qed

lemma fast_iteration_ok:
  assumes "lengths_ok L M" "table_built L M t"
    and "\<forall>ln\<in>set lns. lane_data L M region (length out) ln \<and> k + 5 \<le> data_len ln" "apart lns"
    and "lanes_at L M region out k 0 8 lns sts" "\<forall>st\<in>set sts. 7 \<le> ws_ip st"
  shows "\<exists>sts' out'. fast_iteration (ht_packed t) M region sts out = Ok (sts', out') \<and> changed_in (parts_of lns) out out'
    \<and> lanes_at L M region out' (k + 5) 0 8 lns sts' \<and> list_all2 (\<lambda>st st'. ws_ip st \<le> ws_ip st' + 7) sts sts'"
proof -
  have M: "8 + 5 * M \<le> 63" using assms(1) by (simp add: lengths_ok_def)
  have five: "[0, 1, 2, 3, 4] = [0..<0 + 5 :: nat]" by (simp add: upt_rec)
  obtain sts1 out1 where s: "decode_columns (ht_packed t) M [0..<0 + 5] sts out = Ok (sts1, out1)" "changed_in (parts_of lns) out out1"
    "map ws_ip sts1 = map ws_ip sts" "lanes_at L M region out1 k (0 + 5) (8 + 5 * M) lns sts1"
    using decode_columns_ok [OF assms(1,2) M _ assms(4,5)] assms(3) by auto
  from reload_windows_ok [OF lanes_at_weaken [OF s(4) M] same_ips(1) [OF s(3) assms(6)]] obtain sts' where
    r: "reload_windows region 5 sts1 = Ok sts'" "lanes_at L M region out1 (k + 5) 0 7 lns sts'"
    "list_all2 (\<lambda>st st'. ws_ip st \<le> ws_ip st' + 7) sts1 sts'" by auto
  then show ?thesis using s(1,2) same_ips(2) [OF s(3) r(3)] lanes_at_weaken [OF r(2), of 8] unfolding fast_iteration_def five by simp
qed

section \<open>The loop\<close>

lemma last_op_lanes:
  assumes "lanes_at L M region out k j C lns sts" "length lns = 4"
  shows "last_op sts = first_of (lns ! 3) + k" "k \<le> data_len (lns ! 3)"
proof -
  have "lane_at L M region out k j C (lns ! 3) (sts ! 3)" using list_all2_nthD [OF assms(1), of 3] assms(2) by simp
  then show "last_op sts = first_of (lns ! 3) + k" "k \<le> data_len (lns ! 3)"
    by (cases "lns ! 3"; simp add: last_op_def lane_at_def first_of_def data_len_def)+
qed

lemma ips_left:
  assumes "list_all2 (\<lambda>st st'. ws_ip st \<le> ws_ip st' + 7) sts sts'" "\<forall>st\<in>set sts. 7 * Suc n \<le> ws_ip st"
  shows "\<forall>st\<in>set sts'. 7 * n \<le> ws_ip st"
proof
  fix st' assume "st' \<in> set sts'"
  then obtain i where i: "i < length sts'" "st' = sts' ! i" by (auto simp: in_set_conv_nth)
  then have "sts ! i \<in> set sts" "ws_ip (sts ! i) \<le> ws_ip st' + 7" using assms(1) by (auto simp: list_all2_conv_all_nth)
  then show "7 * n \<le> ws_ip st'" using assms(2) by fastforce
qed

lemma fast_inner_ok:
  assumes "lengths_ok L M" "table_built L M t" "length lns = 4" "apart lns"
    and "\<forall>ln\<in>set lns. lane_data L M region (length out) ln \<and> k + 5 * Suc n \<le> data_len ln"
    and "lanes_at L M region out k 0 8 lns sts" "\<forall>st\<in>set sts. 7 * Suc n \<le> ws_ip st"
  shows "\<exists>sts' out'. fast_inner (Suc n) (first_of (lns ! 3) + (k + 5 * Suc n)) (\<lambda>(sts, out). fast_iteration (ht_packed t) M region sts out) (sts, out)
    = Ok (sts', out') \<and> changed_in (parts_of lns) out out' \<and> lanes_at L M region out' (k + 5 * Suc n) 0 8 lns sts'"
  using assms(5-7)
proof (induction n arbitrary: k sts out)
  case 0
  have "\<forall>ln\<in>set lns. lane_data L M region (length out) ln \<and> k + 5 \<le> data_len ln" "\<forall>st\<in>set sts. 7 \<le> ws_ip st" using "0.prems"(1,3) by auto
  from fast_iteration_ok [OF assms(1,2) this(1) assms(4) "0.prems"(2) this(2)] obtain sts' out' where
    r: "fast_iteration (ht_packed t) M region sts out = Ok (sts', out')" "changed_in (parts_of lns) out out'"
    "lanes_at L M region out' (k + 5) 0 8 lns sts'" by blast
  then show ?case using last_op_lanes [OF r(3) assms(3)] by simp
next
  case (Suc n)
  have d: "\<forall>ln\<in>set lns. lane_data L M region (length out) ln \<and> k + 5 \<le> data_len ln" "\<forall>st\<in>set sts. 7 \<le> ws_ip st"
    using Suc.prems(1,3) by auto
  from fast_iteration_ok [OF assms(1,2) d(1) assms(4) Suc.prems(2) d(2)] obtain sts1 out1 where
    r: "fast_iteration (ht_packed t) M region sts out = Ok (sts1, out1)" "changed_in (parts_of lns) out out1"
    "lanes_at L M region out1 (k + 5) 0 8 lns sts1" "list_all2 (\<lambda>st st'. ws_ip st \<le> ws_ip st' + 7) sts sts1" by blast
  have d1: "\<forall>ln\<in>set lns. lane_data L M region (length out1) ln \<and> k + 5 + 5 * Suc n \<le> data_len ln"
    using Suc.prems(1) changed_in_length [OF r(2)] by auto
  from Suc.IH [OF d1 r(3) ips_left [OF r(4) Suc.prems(3)]] obtain sts' out' where
    q: "fast_inner (Suc n) (first_of (lns ! 3) + (k + 5 + 5 * Suc n)) (\<lambda>(sts, out). fast_iteration (ht_packed t) M region sts out) (sts1, out1)
      = Ok (sts', out')" "changed_in (parts_of lns) out1 out'" "lanes_at L M region out' (k + 5 + 5 * Suc n) 0 8 lns sts'" by blast
  have e: "first_of (lns ! 3) + (k + 5 * Suc (Suc n)) = first_of (lns ! 3) + (k + 5 + 5 * Suc n)" by simp
  show ?case unfolding e
    using r(1) q last_op_lanes [OF r(3) assms(3)] changed_in_same [OF r(2) q(2)]
    by (subst fast_inner.simps) (simp add: add.commute add.left_commute)
qed

text \<open>The lanes after the loop, each with what it has left.\<close>

abbreviation some_lanes :: "nat list \<Rightarrow> nat \<Rightarrow> bytes \<Rightarrow> out_buf \<Rightarrow> lane list \<Rightarrow> WinStream list \<Rightarrow> bool" where
  "some_lanes L M region out \<equiv> list_all2 (\<lambda>ln st. \<exists>k. lane_at L M region out k 0 8 ln st)"

lemma fast_outer_ok:
  assumes "lengths_ok L M" "table_built L M t" "length lns = 4" "apart lns"
    and "\<forall>ln\<in>set lns. lane_data L M region (length out) ln \<and> data_len (lns ! 3) \<le> data_len ln"
    and "first_of (lns ! 3) + data_len (lns ! 3) = length out"
    and "lanes_at L M region out k 0 8 lns sts" "length out < first_of (lns ! 3) + k + n"
  shows "\<exists>sts' out'. fast_outer n (ht_packed t) M region (sts, out) = Ok (sts', out') \<and> changed_in (parts_of lns) out out'
    \<and> some_lanes L M region out' lns sts'"
  using assms(5-8)
proof (induction n arbitrary: k sts out)
  case 0
  show ?case using last_op_lanes(2) [OF "0.prems"(3) assms(3)] "0.prems"(2,4) by simp
next
  case (Suc n)
  note k = last_op_lanes(2) [OF Suc.prems(3) assms(3)] and lo = last_op_lanes(1) [OF Suc.prems(3) assms(3)]
  define iters where "iters = min (ws_ip (sts ! 0) div 7) ((length out - last_op sts) div 5)"
  show ?case
  proof (cases "iters = 0 \<or> streams_cross sts")
    case True
    have "some_lanes L M region out lns sts" by (rule lanes_changed [OF Suc.prems(3)]) blast
    then show ?thesis using True k lo Suc.prems(2) by (auto simp: iters_def Let_def simp del: min_less_iff_disj)
  next
    case False
    then obtain i where i: "iters = Suc i" "\<not> streams_cross sts" by (cases iters) auto
    have "iters \<le> (length out - last_op sts) div 5" "iters \<le> ws_ip (sts ! 0) div 7" by (simp_all add: iters_def)
    then have b: "5 * Suc i \<le> data_len (lns ! 3) - k" "7 * Suc i \<le> ws_ip (sts ! 0)" using i(1) lo Suc.prems(2) by auto
    have d: "\<forall>ln\<in>set lns. lane_data L M region (length out) ln \<and> k + 5 * Suc i \<le> data_len ln" using Suc.prems(1) b(1) k by fastforce
    have "length sts = 4" using list_all2_lengthD [OF Suc.prems(3)] assms(3) by simp
    then obtain a b c e where sts: "sts = [a, b, c, e]" by (auto simp: numeral_eq_Suc length_Suc_conv)
    have ip: "\<forall>st\<in>set sts. 7 * Suc i \<le> ws_ip st" using b(2) i(2) by (auto simp: sts streams_cross_def)
    from fast_inner_ok [OF assms(1-4) d Suc.prems(3) ip] obtain sts1 out1 where
      r: "fast_inner (Suc i) (first_of (lns ! 3) + (k + 5 * Suc i)) (\<lambda>(sts, out). fast_iteration (ht_packed t) M region sts out) (sts, out) = Ok (sts1, out1)"
      "changed_in (parts_of lns) out out1" "lanes_at L M region out1 (k + 5 * Suc i) 0 8 lns sts1" by blast
    have e: "last_op sts + Suc i * 5 = first_of (lns ! 3) + (k + 5 * Suc i)" "last_op sts \<le> length out" using lo k Suc.prems(2) by simp_all
    have "fast_outer (Suc n) (ht_packed t) M region (sts, out) = fast_outer n (ht_packed t) M region (sts1, out1)"
      unfolding fast_outer.simps iters_def [symmetric] Let_def i(1) e(1) r(1) using i(2) e(2) by simp
    moreover have "\<exists>sts' out'. fast_outer n (ht_packed t) M region (sts1, out1) = Ok (sts', out') \<and> changed_in (parts_of lns) out1 out'
      \<and> some_lanes L M region out' lns sts'"
      by (rule Suc.IH [OF _ _ r(3)]) (use Suc.prems changed_in_length [OF r(2)] in simp_all)
    ultimately show ?thesis using changed_in_same [OF r(2)] by fastforce
  qed
qed

section \<open>The tails\<close>

definition tail_pos :: "bytes \<Rightarrow> nat \<Rightarrow> u64 \<Rightarrow> nat \<Rightarrow> int \<Rightarrow> bool" where
  "tail_pos region ptr v c A \<longleftrightarrow> ptr + 8 \<le> length region \<and> A = 8 * int ptr + 64 - int c
     \<and> (\<forall>k<64. bit v k = sbit (bytes_bits region) (8 * int ptr + int k))"

lemma tail_sym_ok:
  assumes "lengths_ok L M" "table_built L M t" "tail_pos region ptr v c A" "c + M \<le> 64" "code_at L M (bytes_bits region) A s"
    and "pos < length out"
  shows "tail_sym (ht_packed t) M v (c, pos, out) = Ok (c + L ! unat s, pos + 1, out[pos := Some s])
    \<and> tail_pos region ptr v (c + L ! unat s) (A - int (L ! unat s)) \<and> L ! unat s \<le> M"
proof -
  have M: "1 \<le> M" using assms(1) by (simp add: lengths_ok_def)
  have p: "A = 8 * int ptr + 64 - int c" "\<forall>k<64. bit v k = sbit (bytes_bits region) (8 * int ptr + int k)"
    using assms(3) by (simp_all add: tail_pos_def)
  obtain e where e: "rindex (ht_packed t) (unat (bits_word (sbits (bytes_bits region) (A - int M) M))) = (Ok e :: (DecompressLiteralsError, _) res)"
    "unat (e AND 0x3f) = L ! unat s" "ucast (drop_bit 8 e) = s" "L ! unat s \<le> M" by (rule lookup_code [OF assms(1,2,5)])
  have "drop_bit (64 - M) (push_bit c v) = bits_word (sbits (bytes_bits region) (8 * int ptr + 64 - int c - int M) M)"
    using p(2) assms(4) M by (intro peek_bits) auto
  moreover have "c mod 64 = c" using assms(4) M by simp
  ultimately have "tail_sym (ht_packed t) M v (c, pos, out) = Ok (c + L ! unat s, pos + 1, out[pos := Some s])"
    using e(1-3) assms(6) by (simp add: tail_sym_def p(1))
  then show ?thesis using assms(3) e(4) by (simp add: tail_pos_def)
qed

text \<open>A lane in its tail: the window at \<open>ptr\<close>, the first \<open>k\<close> symbols written.\<close>

definition tail_at :: "nat list \<Rightarrow> nat \<Rightarrow> bytes \<Rightarrow> out_buf \<Rightarrow> nat \<Rightarrow> lane \<Rightarrow> nat \<Rightarrow> u64 \<Rightarrow> nat \<Rightarrow> bool" where
  "tail_at L M region out k = (\<lambda>(start, first, d) ptr v c. k \<le> length d \<and> (\<forall>i<k. out ! (first + i) = Some (d ! i))
     \<and> tail_pos region ptr v c (int (8 * start) + int (length (codes (huff_code L M) (rev (drop k d))))))"

lemma tail_syms_ok:
  assumes "lengths_ok L M" "table_built L M t" "lane_data L M region (length out) (start, first, d)"
    and "tail_at L M region out k (start, first, d) ptr v c" "k + n \<le> length d" "c + n * M \<le> 64 \<or> ptr = 0 \<and> 6 \<le> start"
  shows "\<exists>c' out'. tail_syms n (ht_packed t) M v (c, first + k, out) = Ok (c', first + (k + n), out') \<and> changed_in (part_of (start, first, d)) out out'
    \<and> tail_at L M region out' (k + n) (start, first, d) ptr v c' \<and> c' \<le> c + n * M"
  using assms(3-6)
proof (induction n arbitrary: k c out)
  case 0
  then show ?case by simp
next
  case (Suc n)
  let ?s = "d ! k" and ?A = "\<lambda>k. int (8 * start) + int (length (codes (huff_code L M) (rev (drop k d))))"
  have M: "1 \<le> M" "M \<le> 11" using assms(1) by (simp_all add: lengths_ok_def)
  have dd: "first + length d \<le> length out" "codes_at L M (drop (8 * start) (bytes_bits region)) d"
    using Suc.prems(1) by (simp_all add: lane_data_def)
  have tp: "tail_pos region ptr v c (?A k)" and fl: "\<forall>i<k. out ! (first + i) = Some (d ! i)" using Suc.prems(2) by (simp_all add: tail_at_def)
  have k: "k < length d" using Suc.prems(3) by simp
  note ca = code_at_lane [OF dd(2) k]
  have i: "first + k < length out" using dd(1) k by simp
  have c: "c + M \<le> 64"
    using Suc.prems(4)
  proof
    assume "ptr = 0 \<and> 6 \<le> start"
    then show ?thesis using tp M(2) by (simp add: tail_pos_def)
  qed simp
  note st = tail_sym_ok [OF assms(1,2) tp c ca(1) i]
  let ?out = "out[first + k := Some ?s]" and ?c = "c + L ! unat ?s"
  have "tail_pos region ptr v ?c (?A (Suc k))" using st ca(2) by (simp add: add_diff_eq [symmetric] del: of_nat_mult)
  then have t: "tail_at L M region ?out (Suc k) (start, first, d) ptr v ?c"
    using fl i k by (auto simp: tail_at_def nth_list_update less_Suc_eq)
  have w: "changed_in (part_of (start, first, d)) out ?out"
    using k by (intro changed_in_write) (simp add: part_of_def first_of_def data_len_def)
  have "?c + n * M \<le> 64 \<or> ptr = 0 \<and> 6 \<le> start" using Suc.prems(4) st by auto
  from Suc.IH [OF _ t _ this] Suc.prems(1,3) obtain c' out' where
    q: "tail_syms n (ht_packed t) M v (?c, first + Suc k, ?out) = Ok (c', first + (Suc k + n), out')"
    "changed_in (part_of (start, first, d)) ?out out'"
    "tail_at L M region out' (Suc k + n) (start, first, d) ptr v c'" "c' \<le> ?c + n * M" by auto
  then show ?case using st changed_in_same [OF w q(2)] by auto
qed

lemma tail_reload_ok:
  assumes "tail_pos region ptr v c A" "c \<le> 63"
  shows "\<exists>unf ptr' c' v'. tail_reload region ptr c v = Ok (unf, ptr', c', v') \<and> tail_pos region ptr' v' c' A \<and> (if unf then c' \<le> 7 else ptr' = 0)"
proof -
  have p: "A = 8 * int ptr + 64 - int c" "ptr + 8 \<le> length region" using assms(1) by (simp_all add: tail_pos_def)
  have load: "\<exists>u. load_le64 region (ptr - nb) = (Ok u :: (DecompressLiteralsError, _) res) \<and> tail_pos region (ptr - nb) u (c - 8 * nb) A"
    if "nb \<le> ptr" "8 * nb \<le> c" for nb
  proof -
    have "ptr - nb + 8 \<le> length region" using p(2) by simp
    from load_le64_at [OF this] show ?thesis using p that by (auto simp: tail_pos_def of_nat_diff)
  qed
  have m: "c - 8 * (c div 8) = c mod 8" by (simp add: minus_mult_div_eq_mod)
  have w: "8 * (c div 8) \<le> c" "c div 8 \<le> 7" using assms(2) by simp_all
  consider "8 \<le> ptr" | "0 < ptr" "ptr < 8" "c div 8 \<le> ptr" | "0 < ptr" "ptr < 8" "ptr < c div 8" | "ptr = 0" by linarith
  then show ?thesis
  proof cases
    case 1
    have "c mod 8 \<le> 7" by simp
    then show ?thesis using 1 load [of "c div 8"] w assms(2) m by (auto simp: tail_reload_def Let_def)
  next
    case 2
    then have "c mod 8 \<le> 7" by simp
    then show ?thesis using 2 load [of "c div 8"] w assms(2) m by (auto simp: tail_reload_def Let_def)
  next
    case 3
    then have "8 * ptr \<le> c" by linarith
    then show ?thesis using 3 load [of ptr] w assms(2) by (auto simp: tail_reload_def Let_def)
  next
    case 4
    then show ?thesis using assms by (auto simp: tail_reload_def Let_def)
  qed
qed

lemma tail_loop_ok:
  assumes "lengths_ok L M" "table_built L M t" "6 \<le> start"
    and "lane_data L M region (length out) (start, first, d)" "tail_at L M region out k (start, first, d) ptr v c" "c \<le> 63"
  shows "\<exists>ptr' v' c' k' out'. tail_loop (ht_packed t) M region (first + length d) ptr v (c, first + k, out) = Ok (v', c', first + k', out')
    \<and> changed_in (part_of (start, first, d)) out out' \<and> tail_at L M region out' k' (start, first, d) ptr' v' c'
    \<and> (c' + (length d - k') * M \<le> 64 \<or> ptr' = 0 \<and> 6 \<le> start)"
  using assms(4-6)
proof (induction "length d - k" arbitrary: k ptr v c out rule: less_induct)
  case less
  have M: "1 \<le> M" "M \<le> 11" using assms(1) by (simp_all add: lengths_ok_def)
  have tp: "tail_pos region ptr v c (int (8 * start) + int (length (codes (huff_code L M) (rev (drop k d)))))" "k \<le> length d"
    using less.prems(2) by (simp_all add: tail_at_def)
  obtain unf ptr1 c1 v1 where r: "tail_reload region ptr c v = Ok (unf, ptr1, c1, v1)"
    "tail_pos region ptr1 v1 c1 (int (8 * start) + int (length (codes (huff_code L M) (rev (drop k d)))))" "if unf then c1 \<le> 7 else ptr1 = 0"
    using tail_reload_ok [OF tp(1) less.prems(3)] by blast
  have t1: "tail_at L M region out k (start, first, d) ptr1 v1 c1" using less.prems(2) r(2) by (simp add: tail_at_def)
  show ?case
  proof (cases "\<not> unf \<or> first + k + 3 \<ge> first + length d")
    case True
    have "c1 + (length d - k) * M \<le> 64 \<or> ptr1 = 0 \<and> 6 \<le> start"
    proof (cases unf)
      case True
      then have "length d - k \<le> 3" "c1 \<le> 7" using \<open>\<not> unf \<or> _\<close> r(3) by auto
      then have "(length d - k) * M \<le> 3 * 11" using M(2) mult_le_mono by blast
      then show ?thesis using \<open>c1 \<le> 7\<close> by simp
    qed (use r(3) assms(3) in simp)
    then show ?thesis using True r(1) t1 by (subst tail_loop.simps) (auto intro!: exI [of _ ptr1])
  next
    case False
    then have f: "unf" "k + 4 \<le> length d" "c1 \<le> 7" using r(3) by auto
    have "c1 + 4 * M \<le> 64" using f(3) M(2) by simp
    from tail_syms_ok [OF assms(1,2) less.prems(1) t1 f(2)] this obtain c2 out2 where
      q: "tail_syms 4 (ht_packed t) M v1 (c1, first + k, out) = Ok (c2, first + (k + 4), out2)" "changed_in (part_of (start, first, d)) out out2"
      "tail_at L M region out2 (k + 4) (start, first, d) ptr1 v1 c2" "c2 \<le> c1 + 4 * M" by blast
    have c2: "c2 \<le> 63" using q(4) f(3) M(2) by simp
    have lt: "length d - (k + 4) < length d - k" using f(2) by simp
    have d2: "lane_data L M region (length out2) (start, first, d)" using less.prems(1) changed_in_length [OF q(2)] by simp
    obtain ptr' v' c' k' out' where
      h: "tail_loop (ht_packed t) M region (first + length d) ptr1 v1 (c2, first + (k + 4), out2) = Ok (v', c', first + k', out')"
      "changed_in (part_of (start, first, d)) out2 out'" "tail_at L M region out' k' (start, first, d) ptr' v' c'"
      "c' + (length d - k') * M \<le> 64 \<or> ptr' = 0 \<and> 6 \<le> start"
      using less.hyps [OF lt d2 q(3) c2] by (elim exE conjE) (rule that)
    have "tail_loop (ht_packed t) M region (first + length d) ptr v (c, first + k, out) = Ok (v', c', first + k', out')"
      using False r(1) q(1) h(1) by (subst tail_loop.simps) simp
    then show ?thesis using h(3,4) changed_in_same [OF q(2) h(2)] by blast
  qed
qed

definition lane_done :: "out_buf \<Rightarrow> lane \<Rightarrow> bool" where
  "lane_done out = (\<lambda>(start, first, d). \<forall>i<length d. out ! (first + i) = Some (d ! i))"

lemma lane_done_changed:
  assumes "lane_done out ln" "changed_in S out out'" "S \<inter> part_of ln = {}"
  shows "lane_done out' ln"
proof -
  obtain start first d where ln: "ln = (start, first, d)" by (cases ln)
  have "out' ! (first + i) = out ! (first + i)" if "i < length d" for i
  proof -
    have "first + i \<notin> S" using assms(3) that by (auto simp: ln part_of_def first_of_def data_len_def)
    then show ?thesis using assms(2) by (simp add: changed_in_def)
  qed
  then show ?thesis using assms(1) by (simp add: lane_done_def ln)
qed

lemma finish_stream_ok:
  assumes "lengths_ok L M" "table_built L M t" "lane_data L M region (length out) (start, first, d)" "6 \<le> start"
    and "lane_at L M region out k 0 8 (start, first, d) st"
  shows "\<exists>out'. finish_stream (ht_packed t) M region start (first + length d) st out = Ok out' \<and> changed_in (part_of (start, first, d)) out out'
    \<and> lane_done out' (start, first, d)"
proof -
  let ?A = "int (8 * start) + int (length (codes (huff_code L M) (rev (drop k d))))"
  obtain c where c: "c \<le> 8" "win_pos region st ?A c" and op: "ws_op st = first + k" "k \<le> length d" "\<forall>i<k. out ! (first + i) = Some (d ! i)"
    using assms(5) by (auto simp: lane_at_def)
  have p: "ws_ip st + 8 \<le> length region" "?A = 8 * int (ws_ip st) + 64 - int c" using c(2) by (simp_all add: win_pos_def)
  have z: "ctz64 (ws_bits st) = c" using c(2) ctz_marked by (auto simp: win_pos_def)
  from load_le64_at [OF p(1)] obtain v where v: "load_le64 region (ws_ip st) = (Ok v :: (DecompressLiteralsError, _) res)"
    "\<forall>k<64. bit v k = sbit (bytes_bits region) (8 * int (ws_ip st) + int k)" by blast
  have "tail_at L M region out k (start, first, d) (ws_ip st) v c" using op p v(2) by (simp add: tail_at_def tail_pos_def)
  from tail_loop_ok [OF assms(1,2,4,3) this] c(1) obtain ptr' v' c' k' out1 where
    r: "tail_loop (ht_packed t) M region (first + length d) (ws_ip st) v (c, first + k, out) = Ok (v', c', first + k', out1)"
    "changed_in (part_of (start, first, d)) out out1" "tail_at L M region out1 k' (start, first, d) ptr' v' c'"
    "c' + (length d - k') * M \<le> 64 \<or> ptr' = 0 \<and> 6 \<le> start" by auto
  have k': "k' \<le> length d" using r(3) by (simp add: tail_at_def)
  have d1: "lane_data L M region (length out1) (start, first, d)" using assms(3) changed_in_length [OF r(2)] by simp
  from tail_syms_ok [OF assms(1,2) d1 r(3) _ r(4)] k' obtain c2 out2 where
    q: "tail_syms (length d - k') (ht_packed t) M v' (c', first + k', out1) = Ok (c2, first + length d, out2)" "changed_in (part_of (start, first, d)) out1 out2"
    "tail_at L M region out2 (length d) (start, first, d) ptr' v' c2" by auto
  have "\<not> ws_ip st + 8 < start" using p(2) by linarith
  then have "finish_stream (ht_packed t) M region start (first + length d) st out = Ok out2"
    using op k' v(1) z r(1) q(1) by (simp add: finish_stream_def)
  then show ?thesis using q(3) changed_in_same [OF r(2) q(2)] by (simp add: tail_at_def lane_done_def)
qed

section \<open>The first windows\<close>

lemma lane_last_byte:
  assumes "bytes_bits src = pre @ True # replicate z False" "z < 8"
  shows "src \<noteq> []" "last src \<noteq> 0" "ilog2 (unat (last src)) = 7 - z"
proof -
  show ne: "src \<noteq> []" using assms(1) by auto
  define xs b where "xs = butlast src" and "b = last src"
  have src: "src = xs @ [b]" using ne by (simp add: xs_def b_def)
  have len: "8 * length xs + 8 = length pre + 1 + z" using arg_cong [OF assms(1), of length] by (simp add: src)
  have bits: "bit b i \<longleftrightarrow> (pre @ True # replicate z False) ! (8 * length xs + i)" if "i < 8" for i
    using arg_cong [OF assms(1), of "\<lambda>l. l ! (8 * length xs + i)"] that by (simp add: src nth_append nth_byte_bits)
  have e: "8 * length xs + (7 - z) = length pre" using len assms(2) by linarith
  have t: "bit b (7 - z)" using bits [of "7 - z"] assms(2) by (simp add: e)
  then show nz: "last src \<noteq> 0" by (auto simp: b_def)
  have h: "\<not> bit b i" if "7 - z < i" "i < 8" for i
  proof -
    have "8 * length xs + i = length pre + Suc (i - (7 - z) - 1)" "i - (7 - z) - 1 < z" using e that by linarith+
    then show ?thesis using bits [OF that(2)] by (simp add: nth_append)
  qed
  have "i < 8 - z" if "bit b i" for i
    using h [of i] that bit_imp_le_length [OF that] assms(2) by (cases "7 - z < i") auto
  then have "take_bit (8 - z) (unat b) = unat b" by (intro bit_eqI) (auto simp: bit_take_bit_iff bit_unsigned_iff)
  then have "unat b < 2 ^ (8 - z)" by (metis take_bit_nat_less_exp)
  moreover have "2 ^ (7 - z) \<le> unat b"
  proof -
    have "odd (unat b div 2 ^ (7 - z))" using t by (simp add: bit_iff_odd [symmetric] bit_unsigned_iff)
    then have "unat b div 2 ^ (7 - z) \<noteq> 0" by (metis even_zero)
    then show ?thesis by (simp add: div_eq_0_iff)
  qed
  moreover have "2 ^ (8 - z) = (2::nat) * 2 ^ (7 - z)" using assms(2) by (simp add: Suc_diff_le flip: power_Suc)
  ultimately show "ilog2 (unat (last src)) = 7 - z" unfolding b_def [symmetric] by (intro ilog2_eqI) simp_all
qed

lemma init_window_ok:
  assumes "stream_of L M d (slice_of region (a, e))" "a \<le> e" "e \<le> length region" "8 \<le> e - a"
  shows "\<exists>st. init_window region (a, e) pos = Ok st \<and> lane_at L M region out 0 0 8 (a, pos, d) st"
    "codes_at L M (drop (8 * a) (bytes_bits region)) d"
proof -
  let ?src = "slice_of region (a, e)" and ?c = "codes (huff_code L M) (rev d)"
  obtain z where z: "z < 8" "bytes_bits ?src = ?c @ True # replicate z False" "\<forall>s\<in>set d. unat s < length L \<and> 0 < L ! unat s"
    using assms(1) by (auto simp: stream_of_def)
  have src: "?src = take (e - a) (drop a region)" "length ?src = e - a" using assms(2,3) by (simp_all add: slice_of_def)
  have bits: "bytes_bits ?src = take (8 * (e - a)) (drop (8 * a) (bytes_bits region))"
    by (simp add: src(1) take_bytes_bits drop_bytes_bits)
  have "length ?c + 1 + z = 8 * (e - a)" using arg_cong [OF z(2), of length] src(2) by simp
  note len = this
  have "take (length ?c) (bytes_bits ?src) = take (length ?c) (drop (8 * a) (bytes_bits region))"
    unfolding bits using len by (simp add: min_def)
  then show "codes_at L M (drop (8 * a) (bytes_bits region)) d" using z(2,3) by (simp add: codes_at_def)
  have "e - 8 + 8 \<le> length region" using assms(3,4) by simp
  from load_le64_at [OF this] obtain v where v: "load_le64 region (e - 8) = (Ok v :: (DecompressLiteralsError, _) res)"
    "\<forall>k<64. bit v k = sbit (bytes_bits region) (8 * int (e - 8) + int k)" by blast
  note lb = lane_last_byte [OF z(2,1)]
  have "last ?src = ?src ! (e - a - 1)" using lb(1) src(2) by (simp add: last_conv_nth)
  also have "\<dots> = region ! (e - 1)" using assms(2-4) by (simp add: src(1))
  finally have l: "rindex region (e - 8 + 7) = (Ok (last ?src) :: (DecompressLiteralsError, _) res)" using assms(3,4) by (simp add: rindex_def)
  have "8 - (7 - z) = Suc z" using z(1) by simp
  then have i: "init_window region (a, e) pos = Ok \<lparr>ws_ip = e - 8, ws_bits = push_bit (Suc z) (v OR 1), ws_op = pos\<rparr>"
    using l v(1) lb(2,3) assms(4) le_trans [OF assms(4) diff_le_self] by (simp add: init_window_def)
  have "win_pos region \<lparr>ws_ip = e - 8, ws_bits = push_bit (Suc z) (v OR 1), ws_op = pos\<rparr> (int (8 * a) + int (length ?c)) (Suc z)"
    using v(2) z(1) assms(2-4) len unfolding win_pos_def
    by (intro conjI exI [of _ "v OR 1"]) (auto simp: bit_or_iff bit_1_iff of_nat_diff)
  then show "\<exists>st. init_window region (a, e) pos = Ok st \<and> lane_at L M region out 0 0 8 (a, pos, d) st"
    using i z(1) by (auto simp: lane_at_def intro!: exI [of _ "Suc z"])
qed

section \<open>The four streams at once\<close>

fun lanes_of :: "(nat \<times> nat) list \<Rightarrow> nat \<Rightarrow> bytes list \<Rightarrow> lane list" where
  "lanes_of (b # bs) st (d # ds) = (fst b, st, d) # lanes_of bs (st + length d) ds"
| "lanes_of bs st ds = []"

lemma lanes_of_from: "ln \<in> set (lanes_of bs st ds) \<Longrightarrow> st \<le> first_of ln"
  by (induction bs st ds rule: lanes_of.induct) (auto simp: first_of_def)

lemma apart_lanes_of: "apart (lanes_of bs st ds)"
proof (induction bs st ds rule: lanes_of.induct)
  case (1 b bs st d ds)
  have "part_of (fst b, st, d) \<inter> part_of l = {}" if "l \<in> set (lanes_of bs (st + length d) ds)" for l
    using lanes_of_from [OF that] by (auto simp: part_of_def first_of_def data_len_def)
  then show ?case using 1 by simp
qed auto

lemma init_windows_ok:
  assumes "laid_out L M region bs ns st ds" "list_all (\<lambda>(a, e). 8 \<le> e - a) bs" "st + length (concat ds) \<le> n"
  shows "\<exists>sts. init_windows region bs (map first_of (lanes_of bs st ds)) = Ok sts \<and> lanes_at L M region out 0 0 8 (lanes_of bs st ds) sts"
    "\<forall>ln\<in>set (lanes_of bs st ds). lane_data L M region n ln"
proof -
  have "(\<exists>sts. init_windows region bs (map first_of (lanes_of bs st ds)) = Ok sts \<and> lanes_at L M region out 0 0 8 (lanes_of bs st ds) sts)
    \<and> (\<forall>ln\<in>set (lanes_of bs st ds). lane_data L M region n ln)"
    using assms
  proof (induction ds arbitrary: bs ns st)
    case Nil
    then show ?case by (cases bs; cases ns) auto
  next
    case (Cons d ds)
    then obtain a e bs' m ns' where eq: "bs = (a, e) # bs'" "ns = m # ns'" by (cases bs; cases ns) auto
    have h: "a \<le> e" "e \<le> length region" "m = st + length d" "stream_of L M d (slice_of region (a, e))"
      "laid_out L M region bs' ns' m ds" "8 \<le> e - a" "list_all (\<lambda>(a, e). 8 \<le> e - a) bs'"
      using Cons.prems(1,2) by (auto simp: eq)
    note w = init_window_ok [OF h(4,1,2,6)]
    obtain s1 where s1: "init_window region (a, e) st = Ok s1" "lane_at L M region out 0 0 8 (a, st, d) s1" using w(1) by blast
    have "lane_data L M region n (a, st, d)" using w(2) Cons.prems(3) by (simp add: lane_data_def)
    moreover have "m + length (concat ds) \<le> n" using Cons.prems(3) h(3) by simp
    ultimately show ?case using Cons.IH [OF h(5,7)] s1 h(3) by (auto simp: eq first_of_def)
  qed
  then show "\<exists>sts. init_windows region bs (map first_of (lanes_of bs st ds)) = Ok sts \<and> lanes_at L M region out 0 0 8 (lanes_of bs st ds) sts"
    "\<forall>ln\<in>set (lanes_of bs st ds). lane_data L M region n ln" by blast+
qed

lemma finish_streams_ok:
  assumes "lengths_ok L M" "table_built L M t" "laid_out L M region bs ns st ds" "list_all (\<lambda>b. 6 \<le> fst b) bs"
    and "\<forall>ln\<in>set (lanes_of bs st ds). lane_data L M region (length out) ln"
    and "some_lanes L M region out (lanes_of bs st ds) sts"
  shows "\<exists>out'. finish_streams (ht_packed t) M region bs ns sts out = Ok out' \<and> changed_in (parts_of (lanes_of bs st ds)) out out'
    \<and> (\<forall>ln\<in>set (lanes_of bs st ds). lane_done out' ln)"
  using assms(3-6)
proof (induction ds arbitrary: bs ns st sts out)
  case Nil
  then show ?case by (cases bs; cases ns) auto
next
  case (Cons d ds)
  then obtain a e bs' n ns' where eq: "bs = (a, e) # bs'" "ns = n # ns'" by (cases bs; cases ns) auto
  let ?ln = "(a, st, d)" and ?lns = "lanes_of bs' (st + length d) ds"
  have h: "n = st + length d" "laid_out L M region bs' ns' (st + length d) ds" "6 \<le> a" "list_all (\<lambda>b. 6 \<le> fst b) bs'"
    "lane_data L M region (length out) ?ln" "\<forall>ln\<in>set ?lns. lane_data L M region (length out) ln"
    using Cons.prems(1,2,3) by (auto simp: eq)
  have "apart (?ln # ?lns)" using apart_lanes_of [of bs st "d # ds"] by (simp add: eq)
  note ap = apart_parts [OF this]
  obtain s1 sts' k where sts: "sts = s1 # sts'" "lane_at L M region out k 0 8 ?ln s1" "some_lanes L M region out ?lns sts'"
    using Cons.prems(4) by (auto simp: eq list_all2_Cons1)
  from finish_stream_ok [OF assms(1,2) h(5,3) sts(2)] obtain out1 where
    r: "finish_stream (ht_packed t) M region a (st + length d) s1 out = Ok out1" "changed_in (part_of ?ln) out out1" "lane_done out1 ?ln" by blast
  have s1: "some_lanes L M region out1 ?lns sts'"
  proof (rule lanes_changed [OF sts(3)])
    fix ln s assume "ln \<in> set ?lns" "\<exists>k. lane_at L M region out k 0 8 ln s"
    moreover have "part_of ?ln \<inter> part_of ln = {}" using ap(1) \<open>ln \<in> _\<close> by (auto simp: parts_of_def)
    ultimately show "\<exists>k. lane_at L M region out1 k 0 8 ln s" using lane_at_changed [OF _ r(2)] by blast
  qed
  have d1: "\<forall>ln\<in>set ?lns. lane_data L M region (length out1) ln" using h(6) changed_in_length [OF r(2)] by simp
  from Cons.IH [OF h(2,4) d1 s1] obtain out' where
    q: "finish_streams (ht_packed t) M region bs' ns' sts' out1 = Ok out'" "changed_in (parts_of ?lns) out1 out'" "\<forall>ln\<in>set ?lns. lane_done out' ln" by blast
  have "lane_done out' ?ln" by (rule lane_done_changed [OF r(3) q(2) ap(2)])
  then show ?case using r(1) q changed_in_trans [OF r(2) q(2)] by (simp add: eq sts(1) h(1))
qed

lemma all_done:
  assumes "\<forall>ln\<in>set (lanes_of bs st ds). lane_done out ln" "length bs = length ds" "st + length (concat ds) = length out"
    and "full = pre @ concat ds" "take st out = map Some pre"
  shows "out = map Some full"
  using assms
proof (induction bs st ds arbitrary: pre rule: lanes_of.induct)
  case (1 b bs st d ds)
  have dn: "\<forall>i<length d. out ! (st + i) = Some (d ! i)" using "1.prems"(1) by (simp add: lane_done_def)
  have "take (st + length d) out = take st out @ take (length d) (drop st out)" by (simp add: take_add)
  also have "take (length d) (drop st out) = map Some d"
    using dn "1.prems"(3) by (intro nth_equalityI) auto
  finally have t: "take (st + length d) out = map Some (pre @ d)" using "1.prems"(5) by simp
  show ?case by (rule "1.IH" [OF _ _ _ _ t]) (use "1.prems"(1-4) in simp_all)
qed auto

lemma laid_out_lengths: "laid_out L M region bs ns st ds \<Longrightarrow> length bs = length ds"
  by (induction L M region bs ns st ds rule: laid_out.induct) auto

lemma published_full: "published (map Some full) = Ok full"
  by (auto simp: published_def comp_def)

text \<open>The lanes of a four-stream section.\<close>

lemma four_lanes:
  assumes "6 \<le> length dat" "laid_out L M body bounds (segment_ends (length dat)) 0 (quarters dat)" "list_all (\<lambda>(a, e). 8 \<le> e - a) bounds"
  defines "lns \<equiv> lanes_of bounds 0 (quarters dat)"
  shows "length lns = 4" "apart lns" "\<forall>ln\<in>set lns. lane_data L M body (length dat) ln \<and> data_len (lns ! 3) \<le> data_len ln"
    "first_of (lns ! 3) + data_len (lns ! 3) = length dat"
    "\<exists>sts. init_windows body bounds (segment_starts (length dat)) = Ok sts \<and> lanes_at L M body out 0 0 8 lns sts"
    "map2 (\<lambda>ln e. e - first_of ln) lns (segment_ends (length dat)) = map data_len lns"
proof -
  obtain d1 d2 d3 d4 where q: "quarters dat = [d1, d2, d3, d4]" by (simp add: quarters_def Let_def)
  let ?n = "(length dat + 3) div 4"
  have len: "length d1 = ?n" "length d2 = ?n" "length d3 = ?n" "length d4 = length dat - ?n * 3" "?n * 3 \<le> length dat"
    using quarters_split(2) [OF assms(1)] quarter_le [OF assms(1)] unfolding q by simp_all
  have cc: "concat (quarters dat) = dat" by (rule quarters_split(1) [OF assms(1)])
  obtain b1 b2 b3 b4 where bs: "bounds = [b1, b2, b3, b4]" using assms(2) by (auto simp: q segment_ends_def Let_def elim!: laid_out.elims)
  have lns: "lns = [(fst b1, 0, d1), (fst b2, ?n, d2), (fst b3, ?n + ?n, d3), (fst b4, ?n + ?n + ?n, d4)]" by (simp add: lns_def bs q len)
  have starts: "map first_of lns = segment_starts (length dat)" by (simp add: lns first_of_def segment_starts_def Let_def)
  have "0 + length (concat (quarters dat)) \<le> length dat" by (simp add: cc)
  note iw = init_windows_ok [OF assms(2,3) this, folded lns_def, unfolded starts]
  show "\<exists>sts. init_windows body bounds (segment_starts (length dat)) = Ok sts \<and> lanes_at L M body out 0 0 8 lns sts" by (rule iw(1))
  show "\<forall>ln\<in>set lns. lane_data L M body (length dat) ln \<and> data_len (lns ! 3) \<le> data_len ln"
    using iw(2) len by (auto simp: lns data_len_def)
  show "length lns = 4" "apart lns" "first_of (lns ! 3) + data_len (lns ! 3) = length dat"
    using len apart_lanes_of [of bounds 0 "quarters dat"] by (auto simp: lns_def [symmetric]) (simp_all add: lns data_len_def first_of_def)
  show "map2 (\<lambda>ln e. e - first_of ln) lns (segment_ends (length dat)) = map data_len lns"
    using len by (simp add: lns data_len_def first_of_def segment_ends_def Let_def, linarith)
qed

lemma finish_four:
  assumes "lengths_ok L M" "table_built L M t" "6 \<le> length dat"
    and b: "laid_out L M body bounds (segment_ends (length dat)) 0 (quarters dat)" "list_all (\<lambda>b. 6 \<le> fst b) bounds" "list_all (\<lambda>(a, e). 8 \<le> e - a) bounds"
    and "some_lanes L M body out (lanes_of bounds 0 (quarters dat)) sts" "length out = length dat"
  shows "\<exists>out'. finish_streams (ht_packed t) M body bounds (segment_ends (length dat)) sts out = Ok out' \<and> published out' = Ok dat"
proof -
  have cc: "concat (quarters dat) = dat" by (rule quarters_split(1) [OF assms(3)])
  have d: "\<forall>ln\<in>set (lanes_of bounds 0 (quarters dat)). lane_data L M body (length out) ln"
    using four_lanes(3) [OF assms(3) b(1,3)] assms(8) by simp
  from finish_streams_ok [OF assms(1,2) b(1,2) d assms(7)] obtain out' where
    e: "finish_streams (ht_packed t) M body bounds (segment_ends (length dat)) sts out = Ok out'"
    "changed_in (parts_of (lanes_of bounds 0 (quarters dat))) out out'" "\<forall>ln\<in>set (lanes_of bounds 0 (quarters dat)). lane_done out' ln" by blast
  have "out' = map Some dat"
    by (rule all_done [OF e(3) laid_out_lengths [OF b(1)], where pre = "[]"]) (simp_all add: cc changed_in_length [OF e(2)] assms(8))
  then show ?thesis using e(1) published_full by auto
qed

lemma interleaved_ok:
  assumes "lengths_ok L M" "table_built L M t" "6 \<le> length dat"
    and b: "laid_out L M body bounds (segment_ends (length dat)) 0 (quarters dat)" "list_all (\<lambda>b. 6 \<le> fst b) bounds" "list_all (\<lambda>(a, e). 8 \<le> e - a) bounds"
    and "ht_x2 t = []"
  shows "interleaved t body bounds (length dat) = Ok dat"
proof -
  let ?lns = "lanes_of bounds 0 (quarters dat)" and ?out = "replicate (length dat) None :: out_buf"
  note fl = four_lanes [OF assms(3) b(1,3)]
  obtain sts where s: "init_windows body bounds (segment_starts (length dat)) = Ok sts" "lanes_at L M body ?out 0 0 8 ?lns sts"
    using fl(5) by blast
  have "\<exists>sts1 out1. fast_outer (length dat + 1) (ht_packed t) M body (sts, ?out) = Ok (sts1, out1) \<and> changed_in (parts_of ?lns) ?out out1
    \<and> some_lanes L M body out1 ?lns sts1"
    using fl(3,4) by (intro fast_outer_ok [OF assms(1,2) fl(1,2) _ _ s(2)]) simp_all
  then obtain sts1 out1 where f: "fast_outer (length dat + 1) (ht_packed t) M body (sts, ?out) = Ok (sts1, out1)"
    "changed_in (parts_of ?lns) ?out out1" "some_lanes L M body out1 ?lns sts1" by blast
  have "length out1 = length dat" using changed_in_length [OF f(2)] by simp
  from finish_four [OF assms(1-3) b f(3) this] obtain out2 where
    e: "finish_streams (ht_packed t) M body bounds (segment_ends (length dat)) sts1 out1 = Ok out2" "published out2 = Ok dat" by blast
  have "ht_max_num_bits t = M" "length (ht_packed t) = 2 ^ M" "1 \<le> M" "M \<le> 11"
    using assms(1,2) length_table [OF assms(1)] by (simp_all add: table_built_def lengths_ok_def)
  then show ?thesis using s(1) f(1) e assms(7) by (simp add: interleaved_def decompress_4streams_interleaved_def)
qed

end
