(* ===== verification/Literals_X2.thy ===== *)
theory Literals_X2
  imports Literals_Fast Huff_X2_Table
begin

text \<open>
  The double-symbol loop: a lookup emits one or two symbols of its stream, the lanes move at their own
  pace, their windows never pass each other, and the tails of the single-symbol loop finish them.
\<close>

unbundle bit_operations_syntax

section \<open>The entries\<close>

lemma x2_entry_fields:
  assumes "\<forall>i. 16 \<le> i \<longrightarrow> \<not> bit w i" "b < 64" "n < 256"
  shows "unat (drop_bit 16 (x2_entry w b n) AND 0x3f) = b" "unat (drop_bit 24 (x2_entry w b n)) = n"
    "ucast (x2_entry w b n) = (ucast w :: u8)" "ucast (drop_bit 8 (x2_entry w b n)) = (ucast (drop_bit 8 w) :: u8)"
proof -
  have b: "i < 6" if "bit b i" for i
  proof (rule ccontr)
    assume "\<not> i < 6"
    moreover have "take_bit 6 b = b" using assms(2) by (simp add: take_bit_nat_eq_self)
    ultimately show False using that by (metis bit_take_bit_iff)
  qed
  have n: "i < 8" if "bit n i" for i
  proof (rule ccontr)
    assume "\<not> i < 8"
    moreover have "take_bit 8 n = n" using assms(3) by (simp add: take_bit_nat_eq_self)
    ultimately show False using that by (metis bit_take_bit_iff)
  qed
  have e: "bit (x2_entry w b n) i \<longleftrightarrow> bit w i \<or> 16 \<le> i \<and> bit b (i - 16) \<or> 24 \<le> i \<and> bit n (i - 24)" if "i < 32" for i
    using that by (auto simp: x2_entry_def bit_or_iff bit_push_bit_iff bit_of_nat_iff)
  have m: "(0x3f :: u32) = mask 6" by (simp add: mask_eq_exp_minus_1)
  show "unat (drop_bit 16 (x2_entry w b n) AND 0x3f) = b"
  proof (rule bit_eqI)
    fix i
    show "bit (unat (drop_bit 16 (x2_entry w b n) AND 0x3f)) i = bit b i"
    proof (cases "i < 6")
      case True
      then show ?thesis using e [of "16 + i"] assms(1) by (simp add: m bit_unsigned_iff bit_and_iff bit_mask_iff bit_drop_bit_eq)
    qed (use b in \<open>auto simp: m bit_unsigned_iff bit_and_iff bit_mask_iff\<close>)
  qed
  show "unat (drop_bit 24 (x2_entry w b n)) = n"
  proof (rule bit_eqI)
    fix i
    show "bit (unat (drop_bit 24 (x2_entry w b n))) i = bit n i"
    proof (cases "i < 8")
      case True
      then have "\<not> bit b (8 + i)" using b [of "8 + i"] by auto
      then show ?thesis using True e [of "24 + i"] assms(1) by (simp add: bit_unsigned_iff bit_drop_bit_eq)
    qed (use n in \<open>auto simp: bit_unsigned_iff bit_drop_bit_eq dest: bit_imp_le_length\<close>)
  qed
  show "ucast (x2_entry w b n) = (ucast w :: u8)" by (rule bit_word_eqI) (use e in \<open>auto simp: bit_ucast_iff\<close>)
  show "ucast (drop_bit 8 (x2_entry w b n)) = (ucast (drop_bit 8 w) :: u8)"
    by (rule bit_word_eqI) (use e in \<open>auto simp: bit_ucast_iff bit_drop_bit_eq\<close>)
qed

lemma x2_one_fields:
  assumes "b \<le> 11"
  shows "unat (drop_bit 16 (x2_one s b) AND 0x3f) = b" "unat (drop_bit 24 (x2_one s b)) = 1" "ucast (x2_one s b) = (of_nat s :: u8)"
proof -
  have "\<forall>i. 16 \<le> i \<longrightarrow> \<not> bit (ucast (of_nat s :: u8) :: u32) i" by (auto simp: bit_ucast_iff dest: bit_imp_le_length)
  note f = x2_entry_fields [OF this, of b 1]
  show "unat (drop_bit 16 (x2_one s b) AND 0x3f) = b" "unat (drop_bit 24 (x2_one s b)) = 1"
    using f assms by (simp_all add: x2_one_def)
  have "ucast (ucast (of_nat s :: u8) :: u32) = (of_nat s :: u8)" by (rule bit_word_eqI) (auto simp: bit_ucast_iff)
  then show "ucast (x2_one s b) = (of_nat s :: u8)" using f(3) assms by (simp only: x2_one_def)
qed

lemma x2_pair_fields:
  assumes "b + b2 \<le> 11"
  shows "unat (drop_bit 16 (x2_pair s b s2 b2) AND 0x3f) = b + b2" "unat (drop_bit 24 (x2_pair s b s2 b2)) = 2"
    "ucast (x2_pair s b s2 b2) = (of_nat s :: u8)" "ucast (drop_bit 8 (x2_pair s b s2 b2)) = (of_nat s2 :: u8)"
proof -
  let ?w = "ucast (of_nat s :: u8) OR push_bit 8 (ucast (of_nat s2 :: u8)) :: u32"
  have "\<forall>i. 16 \<le> i \<longrightarrow> \<not> bit ?w i" by (auto simp: bit_ucast_iff bit_or_iff bit_push_bit_iff dest: bit_imp_le_length)
  note f = x2_entry_fields [OF this, of "b2 + b" 2]
  show "unat (drop_bit 16 (x2_pair s b s2 b2) AND 0x3f) = b + b2" "unat (drop_bit 24 (x2_pair s b s2 b2)) = 2"
    using f assms by (simp_all add: x2_pair_def)
  have "ucast ?w = (of_nat s :: u8)" by (rule bit_word_eqI) (auto simp: bit_ucast_iff bit_or_iff bit_push_bit_iff)
  then show "ucast (x2_pair s b s2 b2) = (of_nat s :: u8)" using f(3) assms by (simp add: x2_pair_def)
  have "ucast (drop_bit 8 ?w) = (of_nat s2 :: u8)"
    by (rule bit_word_eqI) (auto simp: bit_ucast_iff bit_or_iff bit_push_bit_iff bit_drop_bit_eq dest: bit_imp_le_length)
  then show "ucast (drop_bit 8 (x2_pair s b s2 b2)) = (of_nat s2 :: u8)" using f(4) assms by (simp add: x2_pair_def)
qed

section \<open>A lookup\<close>

abbreviation window11 :: "bits \<Rightarrow> int \<Rightarrow> nat" where
  "window11 bs A \<equiv> unat (bits_word (sbits bs (A - 11) 11) :: u64)"

lemma starts_with_code_at:
  assumes "lengths_ok L M" "code_at L M bs A s"
  shows "starts_with L (window11 bs A) = (unat s, L ! unat s)" "window11 bs A < 2 ^ 11"
proof -
  let ?b = "L ! unat s"
  have s: "unat s < length L" "0 < ?b" and c: "sbits bs (A - int ?b) ?b = huff_code L M s"
    using assms(2) by (simp_all add: code_at_def)
  note ok = lengths_ok_11 [OF assms(1)]
  note cs = code_span [OF ok s]
  have "window11 bs A div 2 ^ (11 - ?b) = bits_val (huff_code L 11 s)"
    using window_top [of ?b 11 bs A] cs(2) by (simp add: c huff_code_11 [OF assms(1) s])
  also have "\<dots> = code_of L 11 (unat s)" using cs(3) by (simp add: huff_code_def bits_val_val_bits take_bit_nat_eq_self)
  finally have "window11 bs A div 2 ^ (11 - ?b) = code_of L 11 (unat s)" .
  from table_lookup [OF ok s this] show "starts_with L (window11 bs A) = (unat s, ?b)" "window11 bs A < 2 ^ 11"
    by (simp_all add: starts_with_def)
qed

lemma next_window:
  assumes "b \<le> 11"
  shows "window11 bs (A - int b) div 2 ^ b = window11 bs A mod 2 ^ (11 - b)"
proof -
  have "drop_bit b (window11 bs (A - int b)) = take_bit (11 - b) (window11 bs A)"
    by (rule bit_eqI) (use assms in \<open>auto simp: bit_drop_bit_eq bit_take_bit_iff bit_unsigned_iff bit_bits_word algebra_simps\<close>)
  then show ?thesis by (simp add: drop_bit_eq_div take_bit_eq_mod)
qed

text \<open>If the table pairs two symbols, the second is the one whose code follows.\<close>

lemma second_symbol:
  assumes ok: "lengths_ok L M" and c: "code_at L M bs A s" "code_at L M bs (A - int (L ! unat s)) s2"
    and p: "starts_with L (window11 bs A mod 2 ^ (11 - L ! unat s) * 2 ^ (L ! unat s)) = (x, b2)" "L ! unat s + b2 \<le> 11"
  shows "x = unat s2" "b2 = L ! unat s2"
proof -
  let ?b = "L ! unat s" and ?v = "window11 bs A"
  let ?w = "?v mod 2 ^ (11 - ?b)" and ?v2 = "window11 bs (A - int ?b)"
  have b: "?b \<le> 11" using p(2) by simp
  have "?w < 2 ^ (11 - ?b)" by simp
  then have "?w * 2 ^ ?b < 2 ^ (11 - ?b) * 2 ^ ?b" by (rule mult_strict_right_mono) simp
  then have lt: "?w * 2 ^ ?b < 2 ^ 11" using b by (simp add: power_add [symmetric])
  have "(2::nat) ^ (11 - b2) = 2 ^ ?b * 2 ^ (11 - b2 - ?b)" using p(2) by (simp add: power_add [symmetric])
  then have "?v2 div 2 ^ (11 - b2) = ?w * 2 ^ ?b div 2 ^ (11 - b2)"
    using next_window [OF b, of bs A] by (simp add: div_mult2_eq)
  from starts_with_same(1) [OF lengths_ok_11 [OF ok] lt p(1) this] have "(x, b2) = (unat s2, L ! unat s2)"
    unfolding starts_with_code_at(1) [OF ok c(2)] by (rule sym)
  then have "x = unat s2 \<and> b2 = L ! unat s2" by (simp only: prod.inject)
  then show "x = unat s2" "b2 = L ! unat s2" by blast+
qed

text \<open>What a lookup emits where the next two symbols are \<open>s\<close> and \<open>s2\<close>.\<close>

lemma x2_lookup:
  assumes "lengths_ok L M" "x2_built L dt" "code_at L M bs A s" "code_at L M bs (A - int (L ! unat s)) s2"
  obtains e n l where "rindex dt (window11 bs A) = (Ok e :: ('e, _) res)" "ucast e = s"
    "unat (drop_bit 16 e AND 0x3f) = n" "unat (drop_bit 24 e) = l" "n \<le> 11"
    "n = L ! unat s \<and> l = 1 \<or> n = L ! unat s + L ! unat s2 \<and> l = 2 \<and> ucast (drop_bit 8 e) = s2"
proof -
  let ?b = "L ! unat s"
  note w = starts_with_code_at [OF assms(1,3)]
  have b: "?b \<le> 11" using assms(1,3) code_span(2) [OF lengths_ok_11 [OF assms(1)], of "unat s"] by (simp add: code_at_def)
  obtain x b2 where x: "starts_with L (window11 bs A mod 2 ^ (11 - ?b) * 2 ^ ?b) = (x, b2)" by (metis surj_pair)
  define e where "e = x2_window L (window11 bs A)"
  have r: "rindex dt (window11 bs A) = (Ok e :: ('e, _) res)" using assms(2) w(2) by (simp add: x2_built_def rindex_def e_def)
  show thesis
  proof (cases "?b + b2 \<le> 11")
    case True
    note s2 = second_symbol [OF assms(1,3,4) x True]
    have e: "e = x2_pair (unat s) ?b x b2" using True by (simp add: e_def x2_window_def w(1) x)
    note f = x2_pair_fields [OF True, of "unat s" x, folded e]
    show ?thesis by (rule that [OF r _ f(1,2)]) (use f(3,4) True s2 in simp_all)
  next
    case False
    then have e: "e = x2_one (unat s) ?b" by (simp add: e_def x2_window_def w(1) x)
    note f = x2_one_fields [OF b, of "unat s", folded e]
    show ?thesis by (rule that [OF r _ f(1,2)]) (use f(3) b in simp_all)
  qed
qed

section \<open>A lane\<close>

text \<open>A lane with room for \<open>r\<close> more symbols.\<close>

definition lane_room :: "nat list \<Rightarrow> nat \<Rightarrow> bytes \<Rightarrow> out_buf \<Rightarrow> nat \<Rightarrow> nat \<Rightarrow> lane \<Rightarrow> WinStream \<Rightarrow> bool" where
  "lane_room L M region out r C ln st \<longleftrightarrow> (\<exists>k. lane_at L M region out k 0 C ln st \<and> k + r \<le> data_len ln)"

text \<open>A lookup moves the lane by one or two symbols.\<close>

lemma lane_sym_x2:
  assumes ok: "lengths_ok L M" and dt: "x2_built L dt" and data: "lane_data L M region (length out) ln"
    and at: "lane_room L M region out (Suc (Suc r)) C ln st" and C: "C + 11 \<le> 63"
  shows "\<exists>st' out'. decode_sym_x2 dt st out = Ok (st', out') \<and> changed_in (part_of ln) out out'
    \<and> ws_ip st' = ws_ip st \<and> ws_op st < ws_op st' \<and> ws_op st' \<le> ws_op st + 2 \<and> lane_room L M region out' r (C + 11) ln st'"
proof -
  obtain start first d where ln: "ln = (start, first, d)" by (cases ln)
  obtain k c where k: "k + Suc (Suc r) \<le> length d" and op: "ws_op st = first + k" and fl: "\<forall>i<k. out ! (first + i) = Some (d ! i)"
    and c: "c \<le> C" "win_pos region st (int (8 * start) + int (length (codes (huff_code L M) (rev (drop k d))))) c"
    using at by (auto simp: lane_room_def lane_at_def ln data_len_def)
  define pos where "pos k = int (8 * start) + int (length (codes (huff_code L M) (rev (drop k d))))" for k
  have dd: "first + length d \<le> length out" "codes_at L M (drop (8 * start) (bytes_bits region)) d"
    using data by (simp_all add: lane_data_def ln)
  let ?s = "d ! k" and ?s2 = "d ! Suc k" and ?bs = "bytes_bits region"
  have k1: "k < length d" "Suc k < length d" using k by simp_all
  have ca: "code_at L M ?bs (pos k) ?s" "code_at L M ?bs (pos (Suc k)) ?s2"
    using code_at_lane(1) [OF dd(2) k1(1)] code_at_lane(1) [OF dd(2) k1(2)] by (simp_all add: pos_def)
  have nx: "pos k - int (L ! unat ?s) = pos (Suc k)" "pos (Suc k) - int (L ! unat ?s2) = pos (Suc (Suc k))"
    using code_at_lane(2) [OF dd(2) k1(1)] code_at_lane(2) [OF dd(2) k1(2)] by (simp_all add: pos_def)
  obtain u where u: "bit u 0" "\<forall>k<64. 0 < k \<longrightarrow> bit u k = sbit ?bs (8 * int (ws_ip st) + int k)" "ws_bits st = push_bit c u"
    and p: "pos k = 8 * int (ws_ip st) + 64 - int c" using c(2) by (auto simp: win_pos_def pos_def)
  have "0 < 64 - 11 - c" using C c(1) by simp
  then have "\<forall>k<64. 64 - 11 - c \<le> k \<longrightarrow> bit u k = sbit ?bs (8 * int (ws_ip st) + int k)" using u(2) by auto
  with C c(1) have pk: "drop_bit (64 - 11) (push_bit c u) = bits_word (sbits ?bs (8 * int (ws_ip st) + 64 - int c - int 11) 11)"
    by (intro peek_bits) simp_all
  obtain e n l where e: "rindex dt (window11 ?bs (pos k)) = (Ok e :: (DecompressLiteralsError, _) res)" "ucast e = ?s"
    "unat (drop_bit 16 e AND 0x3f) = n" "unat (drop_bit 24 e) = l" "n \<le> 11"
    "n = L ! unat ?s \<and> l = 1 \<or> n = L ! unat ?s + L ! unat ?s2 \<and> l = 2 \<and> ucast (drop_bit 8 e) = ?s2"
    by (rule x2_lookup [OF ok dt ca(1), of ?s2]) (use ca(2) nx(1) in simp_all)
  let ?st = "st\<lparr>ws_bits := push_bit n (ws_bits st), ws_op := ws_op st + l\<rparr>"
  let ?out = "out[ws_op st := Some ?s, ws_op st + 1 := Some (ucast (drop_bit 8 e))]"
  have i: "ws_op st + 1 < length out" using dd(1) k op by simp
  have run: "decode_sym_x2 dt st out = Ok (?st, ?out)"
    using e(1-4) pk i by (simp add: decode_sym_x2_def u(3) p)
  have ch: "changed_in (part_of ln) out ?out"
    by (rule changed_in_same [OF changed_in_write changed_in_write])
      (use k op in \<open>simp_all add: part_of_def first_of_def data_len_def ln\<close>)
  have l: "l = 1 \<or> l = 2" using e(6) by auto
  have "pos k - int n = pos (k + l)" using e(6) nx by auto
  then have w: "win_pos region ?st (pos (k + l)) (c + n)"
    using c C e(5) u p unfolding win_pos_def by (auto simp: add.commute intro!: exI [of _ u])
  have "?out ! (first + i) = Some (d ! i)" if "i < k + l" for i
    using that e(6) fl op i by (auto simp: nth_list_update less_Suc_eq numeral_2_eq_2)
  then have "lane_at L M region ?out (k + l) 0 (C + 11) ln ?st"
    using w l k op c(1) e(5) by (auto simp: lane_at_def ln pos_def intro!: exI [of _ "c + n"])
  then have "lane_room L M region ?out r (C + 11) ln ?st"
    using l k by (auto simp: lane_room_def ln data_len_def intro!: exI [of _ "k + l"])
  then show ?thesis using run ch l by fastforce
qed

section \<open>All lanes\<close>

abbreviation rooms :: "nat list \<Rightarrow> nat \<Rightarrow> bytes \<Rightarrow> out_buf \<Rightarrow> nat \<Rightarrow> nat \<Rightarrow> lane list \<Rightarrow> WinStream list \<Rightarrow> bool" where
  "rooms L M region out r C \<equiv> list_all2 (lane_room L M region out r C)"

text \<open>At least \<open>n\<close> symbols on, at most \<open>m\<close> bytes down.\<close>

definition moves :: "nat \<Rightarrow> nat \<Rightarrow> WinStream \<Rightarrow> WinStream \<Rightarrow> bool" where
  "moves n m st st' \<longleftrightarrow> ws_op st + n \<le> ws_op st' \<and> ws_ip st \<le> ws_ip st' + m"

lemma moves_trans:
  assumes "list_all2 (moves n m) sts sts1" "list_all2 (moves n' m') sts1 sts2"
  shows "list_all2 (moves (n + n') (m + m')) sts sts2"
  by (rule list_all2_trans [OF _ assms]) (simp add: moves_def)

lemma moves_ips:
  assumes "list_all2 (moves n m) sts sts'" "\<forall>st\<in>set sts. b + m \<le> ws_ip st"
  shows "\<forall>st\<in>set sts'. b \<le> ws_ip st"
proof
  fix st' assume "st' \<in> set sts'"
  then obtain i where i: "i < length sts'" "st' = sts' ! i" by (auto simp: in_set_conv_nth)
  then have "sts ! i \<in> set sts" "ws_ip (sts ! i) \<le> ws_ip st' + m" using assms(1) by (auto simp: list_all2_conv_all_nth moves_def)
  then show "b \<le> ws_ip st'" using assms(2) by fastforce
qed

lemma moves_last: "list_all2 (moves n m) sts sts' \<Longrightarrow> length sts = 4 \<Longrightarrow> last_op sts + n \<le> last_op sts'"
  using list_all2_nthD [of "moves n m" sts sts' 3] by (simp add: last_op_def moves_def)

lemma lane_room_changed: "lane_room L M region out r C ln st \<Longrightarrow> changed_in S out out' \<Longrightarrow> S \<inter> part_of ln = {} \<Longrightarrow> lane_room L M region out' r C ln st"
  unfolding lane_room_def using lane_at_changed by blast

lemma rooms_changed:
  assumes "rooms L M region out r C lns sts" "changed_in S out out'" "S \<inter> parts_of lns = {}"
  shows "rooms L M region out' r C lns sts"
  by (rule lanes_changed [OF assms(1)], rule lane_room_changed [OF _ assms(2)]) (use assms(3) in \<open>auto simp: parts_of_def\<close>)

lemma rooms_weaken: "rooms L M region out r C lns sts \<Longrightarrow> r' \<le> r \<Longrightarrow> C \<le> C' \<Longrightarrow> rooms L M region out r' C' lns sts"
  by (erule lanes_changed) (auto simp: lane_room_def intro: lane_at_weaken add_leD1 dest: le_trans)

lemma decode_column_x2_ok:
  assumes "lengths_ok L M" "x2_built L dt" "C + 11 \<le> 63"
    and "\<forall>ln\<in>set lns. lane_data L M region (length out) ln" "apart lns" "rooms L M region out (Suc (Suc r)) C lns sts"
  shows "\<exists>sts' out'. decode_column_x2 dt sts out = Ok (sts', out') \<and> changed_in (parts_of lns) out out'
    \<and> list_all2 (moves 1 0) sts sts' \<and> rooms L M region out' r (C + 11) lns sts'"
  using assms(4-6)
proof (induction lns arbitrary: sts out)
  case Nil
  then show ?case by simp
next
  case (Cons ln lns)
  note ap = apart_parts [OF Cons.prems(2)]
  obtain st sts1 where sts: "sts = st # sts1" "lane_room L M region out (Suc (Suc r)) C ln st" "rooms L M region out (Suc (Suc r)) C lns sts1"
    using Cons.prems(3) by (auto simp: list_all2_Cons1)
  have h: "lane_data L M region (length out) ln" using Cons.prems(1) by simp
  obtain st' out1 where s: "decode_sym_x2 dt st out = Ok (st', out1)" "changed_in (part_of ln) out out1"
    "moves 1 0 st st'" "lane_room L M region out1 r (C + 11) ln st'"
    using lane_sym_x2 [OF assms(1,2) h sts(2) assms(3)] by (fastforce simp: moves_def)
  have d: "\<forall>ln\<in>set lns. lane_data L M region (length out1) ln" using Cons.prems(1) changed_in_length [OF s(2)] by simp
  have "apart lns" using Cons.prems(2) by simp
  from Cons.IH [OF d this rooms_changed [OF sts(3) s(2) ap(1)]] obtain sts' out' where
    r: "decode_column_x2 dt sts1 out1 = Ok (sts', out')" "changed_in (parts_of lns) out1 out'"
    "list_all2 (moves 1 0) sts1 sts'" "rooms L M region out' r (C + 11) lns sts'" by blast
  have "lane_room L M region out' r (C + 11) ln st'" by (rule lane_room_changed [OF s(4) r(2) ap(2)])
  then show ?case using s r changed_in_trans [OF s(2) r(2)] by (simp add: sts(1))
qed

lemma decode_columns_x2_ok:
  assumes "lengths_ok L M" "x2_built L dt" "C + n * 11 \<le> 63"
    and "\<forall>ln\<in>set lns. lane_data L M region (length out) ln" "apart lns" "rooms L M region out (r + 2 * n) C lns sts"
  shows "\<exists>sts' out'. decode_columns_x2 dt n (sts, out) = Ok (sts', out') \<and> changed_in (parts_of lns) out out'
    \<and> list_all2 (moves n 0) sts sts' \<and> rooms L M region out' r (C + n * 11) lns sts'"
  using assms(3,4,6)
proof (induction n arbitrary: C sts out)
  case 0
  then show ?case by (simp add: list.rel_refl moves_def)
next
  case (Suc n)
  have C: "C + 11 \<le> 63" and two: "r + 2 * Suc n = Suc (Suc (r + 2 * n))" using Suc.prems(1) by simp_all
  obtain sts1 out1 where s: "decode_column_x2 dt sts out = Ok (sts1, out1)" "changed_in (parts_of lns) out out1"
    "list_all2 (moves 1 0) sts sts1" "rooms L M region out1 (r + 2 * n) (C + 11) lns sts1"
    using decode_column_x2_ok [OF assms(1,2) C Suc.prems(2) assms(5) Suc.prems(3) [unfolded two]] by blast
  have "\<exists>sts' out'. decode_columns_x2 dt n (sts1, out1) = Ok (sts', out') \<and> changed_in (parts_of lns) out1 out'
    \<and> list_all2 (moves n 0) sts1 sts' \<and> rooms L M region out' r (C + 11 + n * 11) lns sts'"
    by (rule Suc.IH [OF _ _ s(4)]) (use Suc.prems(1,2) changed_in_length [OF s(2)] in auto)
  then show ?case using s changed_in_same [OF s(2)] moves_trans [OF s(3)] by (fastforce simp: add.assoc)
qed

lemma reload_room:
  assumes "lane_room L M region out r 63 ln st" "7 \<le> ws_ip st"
  shows "\<exists>st'. reload_window region 0 st = Ok st' \<and> lane_room L M region out r 8 ln st' \<and> moves 0 7 st st'"
proof -
  obtain k where k: "lane_at L M region out k 0 63 ln st" "k + r \<le> data_len ln" using assms(1) by (auto simp: lane_room_def)
  from reload_lane [OF k(1) assms(2)] obtain st' where
    s: "reload_window region 0 st = Ok st'" "lane_at L M region out k 0 7 ln st'" "ws_ip st \<le> ws_ip st' + 7" by auto
  have "ws_op st' = ws_op st" using k(1) s(2) by (auto simp: lane_at_def)
  then show ?thesis using k(2) s lane_at_weaken [OF s(2), of 8] by (auto simp: lane_room_def moves_def)
qed

lemma reload_rooms:
  assumes "rooms L M region out r 63 lns sts" "\<forall>st\<in>set sts. 7 \<le> ws_ip st"
  shows "\<exists>sts'. reload_windows region 0 sts = Ok sts' \<and> rooms L M region out r 8 lns sts' \<and> list_all2 (moves 0 7) sts sts'"
  using assms
proof (induction lns arbitrary: sts)
  case (Cons ln lns)
  obtain st sts1 where sts: "sts = st # sts1" "lane_room L M region out r 63 ln st" "rooms L M region out r 63 lns sts1"
    using Cons.prems(1) by (auto simp: list_all2_Cons1)
  then show ?case using reload_room [OF sts(2)] Cons.IH [OF sts(3)] Cons.prems(2) by auto
qed simp

lemma fast_iteration_x2_ok:
  assumes "lengths_ok L M" "x2_built L dt" "\<forall>ln\<in>set lns. lane_data L M region (length out) ln" "apart lns"
    and "rooms L M region out (r + 10) 8 lns sts" "\<forall>st\<in>set sts. b + 7 \<le> ws_ip st"
  shows "\<exists>sts' out'. fast_iteration_x2 dt region (sts, out) = Ok (sts', out') \<and> changed_in (parts_of lns) out out'
    \<and> rooms L M region out' r 8 lns sts' \<and> list_all2 (moves 5 7) sts sts' \<and> (\<forall>st\<in>set sts'. b \<le> ws_ip st)"
proof -
  have ten: "r + 10 = r + 2 * 5" by simp
  obtain sts1 out1 where s: "decode_columns_x2 dt 5 (sts, out) = Ok (sts1, out1)" "changed_in (parts_of lns) out out1"
    "list_all2 (moves 5 0) sts sts1" "rooms L M region out1 r (8 + 5 * 11) lns sts1"
    using decode_columns_x2_ok [OF assms(1,2) _ assms(3,4) assms(5) [unfolded ten]] by auto
  have "\<forall>st\<in>set sts1. 7 \<le> ws_ip st" by (rule moves_ips [OF s(3)]) (use assms(6) in auto)
  moreover have "rooms L M region out1 r 63 lns sts1" using s(4) by simp
  ultimately obtain sts' where r: "reload_windows region 0 sts1 = Ok sts'" "rooms L M region out1 r 8 lns sts'" "list_all2 (moves 0 7) sts1 sts'"
    using reload_rooms by blast
  have m: "list_all2 (moves 5 7) sts sts'" using moves_trans [OF s(3) r(3)] by simp
  show ?thesis using s(1,2) r(1,2) m moves_ips [OF m assms(6)] by (simp add: fast_iteration_x2_def)
qed

section \<open>The loop\<close>

lemma fast_inner_x2_ok:
  assumes "lengths_ok L M" "x2_built L dt" "length lns = 4" "apart lns"
    and "\<forall>ln\<in>set lns. lane_data L M region (length out) ln" "rooms L M region out (10 * Suc n) 8 lns sts"
    and "\<forall>st\<in>set sts. 7 * Suc n \<le> ws_ip st" "olimit \<le> last_op sts + Suc n * 5"
  shows "\<exists>sts' out'. fast_inner (Suc n) olimit (fast_iteration_x2 dt region) (sts, out) = Ok (sts', out') \<and> changed_in (parts_of lns) out out'
    \<and> rooms L M region out' 0 8 lns sts' \<and> olimit \<le> last_op sts'"
  using assms(5-8)
proof (induction n arbitrary: sts out)
  case 0
  have z: "10 * Suc 0 = (0::nat) + 10" "7 * Suc 0 = (0::nat) + 7" by simp_all
  from fast_iteration_x2_ok [OF assms(1,2) "0.prems"(1) assms(4) "0.prems"(2,3) [unfolded z]] obtain sts' out' where
    r: "fast_iteration_x2 dt region (sts, out) = Ok (sts', out')" "changed_in (parts_of lns) out out'"
    "rooms L M region out' 0 8 lns sts'" "list_all2 (moves 5 7) sts sts'" by blast
  have "length sts = 4" using list_all2_lengthD [OF "0.prems"(2)] assms(3) by simp
  from moves_last [OF r(4) this] show ?case using r(1-3) "0.prems"(4) by simp
next
  case (Suc n)
  have z: "10 * Suc (Suc n) = 10 * Suc n + 10" "7 * Suc (Suc n) = 7 * Suc n + 7" by simp_all
  from fast_iteration_x2_ok [OF assms(1,2) Suc.prems(1) assms(4) Suc.prems(2,3) [unfolded z]] obtain sts1 out1 where
    r: "fast_iteration_x2 dt region (sts, out) = Ok (sts1, out1)" "changed_in (parts_of lns) out out1"
    "rooms L M region out1 (10 * Suc n) 8 lns sts1" "list_all2 (moves 5 7) sts sts1" "\<forall>st\<in>set sts1. 7 * Suc n \<le> ws_ip st" by blast
  have "length sts = 4" using list_all2_lengthD [OF Suc.prems(2)] assms(3) by simp
  note ml = moves_last [OF r(4) this]
  have d1: "\<forall>ln\<in>set lns. lane_data L M region (length out1) ln" using Suc.prems(1) changed_in_length [OF r(2)] by simp
  show ?case
  proof (cases "olimit \<le> last_op sts1")
    case True
    have "rooms L M region out1 0 8 lns sts1" by (rule rooms_weaken [OF r(3)]) simp_all
    then show ?thesis using True r(1,2) by (subst fast_inner.simps) simp
  next
    case False
    have "olimit \<le> last_op sts1 + Suc n * 5" using Suc.prems(4) ml by simp
    from Suc.IH [OF d1 r(3,5) this] obtain sts' out' where
      q: "fast_inner (Suc n) olimit (fast_iteration_x2 dt region) (sts1, out1) = Ok (sts', out')" "changed_in (parts_of lns) out1 out'"
      "rooms L M region out' 0 8 lns sts'" "olimit \<le> last_op sts'" by blast
    then show ?thesis using False r(1) changed_in_same [OF r(2) q(2)] by (subst fast_inner.simps) simp
  qed
qed

text \<open>Windows never pass each other while the next lane has symbols left: the codes of a lane end below the next lane.\<close>

definition follows :: "nat list \<Rightarrow> nat \<Rightarrow> lane \<Rightarrow> lane \<Rightarrow> bool" where
  "follows L M = (\<lambda>(start, first, d) (start', first', d'). 8 * start + length (codes (huff_code L M) (rev d)) \<le> 8 * start')"

lemma codes_drop_le: "length (codes c (rev (drop k d))) \<le> length (codes c (rev d))"
proof -
  have "rev d = rev (drop k d) @ rev (take k d)" by (metis append_take_drop_id rev_append)
  then have "length (codes c (rev d)) = length (codes c (rev (drop k d))) + length (codes c (rev (take k d)))"
    by (metis concat_append length_append map_append)
  then show ?thesis by simp
qed

lemma codes_many: "\<forall>s\<in>set ss. 0 < L ! unat s \<Longrightarrow> length ss \<le> length (codes (huff_code L M) ss)"
  by (induction ss) (auto simp: Suc_le_eq intro: add_mono [of 1, simplified])

lemma lanes_ordered:
  assumes f: "follows L M ln ln'" and data: "lane_data L M region n ln'"
    and at: "lane_at L M region out k 0 8 ln st" "lane_room L M region out r 8 ln' st'" and r: "8 \<le> r"
  shows "ws_ip st \<le> ws_ip st'"
proof -
  obtain start first d start' first' d' where ln: "ln = (start, first, d)" "ln' = (start', first', d')" by (cases ln; cases ln')
  let ?n = "\<lambda>d. length (codes (huff_code L M) (rev d))"
  obtain c where c: "c \<le> 8" "int (8 * start) + int (?n (drop k d)) = 8 * int (ws_ip st) + 64 - int c"
    using at(1) by (auto simp: lane_at_def ln win_pos_def)
  obtain k' c' where c': "k' + r \<le> length d'" "int (8 * start') + int (?n (drop k' d')) = 8 * int (ws_ip st') + 64 - int c'"
    using at(2) by (auto simp: lane_room_def lane_at_def ln data_len_def win_pos_def)
  have "\<forall>s\<in>set d'. 0 < L ! unat s" using data by (simp add: lane_data_def ln codes_at_def)
  then have "length (rev (drop k' d')) \<le> ?n (drop k' d')" by (intro codes_many) (auto dest: in_set_dropD)
  then have "8 \<le> ?n (drop k' d')" using c'(1) r by simp
  moreover have "8 * start + ?n (drop k d) \<le> 8 * start'" using f codes_drop_le [of "huff_code L M" k d] by (simp add: follows_def ln)
  ultimately show ?thesis using c c'(2) by linarith
qed

definition lane_end :: "lane \<Rightarrow> nat" where
  "lane_end ln = first_of ln + data_len ln"

lemma foldl_min_le: "foldl min a xs \<le> (a::nat) \<and> (\<forall>x\<in>set xs. foldl min a xs \<le> x)"
proof (induction xs arbitrary: a)
  case (Cons x xs)
  then show ?case using Cons.IH [of "min a x"] by auto
qed simp

lemma some_lanes_room:
  assumes "some_lanes L M region out lns sts" "x2_iters (map lane_end lns) sts = i"
  shows "rooms L M region out (10 * i) 8 lns sts" "7 * i \<le> ws_ip (sts ! 0)" "list_all2 (\<lambda>e st. ws_op st \<le> e) (map lane_end lns) sts"
proof -
  have len: "length sts = length lns" using list_all2_lengthD [OF assms(1)] by simp
  note m = foldl_min_le [of "ws_ip (sts ! 0) div 7" "map2 (\<lambda>e st. (e - ws_op st) div 10) (map lane_end lns) sts"]
  have "i \<le> ws_ip (sts ! 0) div 7" using m assms(2) by (simp add: x2_iters_def)
  then show "7 * i \<le> ws_ip (sts ! 0)" by linarith
  have a: "\<exists>k. lane_at L M region out k 0 8 (lns ! j) (sts ! j)" if "j < length lns" for j
    using list_all2_nthD [OF assms(1) that] .
  have op: "ws_op st = first_of ln + k \<and> k \<le> data_len ln" if "lane_at L M region out k 0 8 ln st" for k ln st
    using that by (auto simp: lane_at_def first_of_def data_len_def)
  show "list_all2 (\<lambda>e st. ws_op st \<le> e) (map lane_end lns) sts"
  proof (rule list_all2_all_nthI)
    fix j assume "j < length (map lane_end lns)"
    then have j: "j < length lns" by simp
    obtain k where "lane_at L M region out k 0 8 (lns ! j) (sts ! j)" using a [OF j] by blast
    from op [OF this] show "ws_op (sts ! j) \<le> map lane_end lns ! j" using j by (simp add: lane_end_def)
  qed (simp add: len)
  show "rooms L M region out (10 * i) 8 lns sts"
  proof (rule list_all2_all_nthI)
    fix j assume j: "j < length lns"
    obtain k where k: "lane_at L M region out k 0 8 (lns ! j) (sts ! j)" using a [OF j] by blast
    have "map2 (\<lambda>e st. (e - ws_op st) div 10) (map lane_end lns) sts ! j = (lane_end (lns ! j) - ws_op (sts ! j)) div 10" using j len by simp
    moreover have "j < length (map2 (\<lambda>e st. (e - ws_op st) div 10) (map lane_end lns) sts)" using j len by simp
    ultimately have "i \<le> (lane_end (lns ! j) - ws_op (sts ! j)) div 10" using m assms(2) nth_mem by (metis x2_iters_def)
    then have "i \<le> (data_len (lns ! j) - k) div 10" "k \<le> data_len (lns ! j)" using op [OF k] by (simp_all add: lane_end_def)
    then have "k + 10 * i \<le> data_len (lns ! j)" by linarith
    then show "lane_room L M region out (10 * i) 8 (lns ! j) (sts ! j)" using k by (auto simp: lane_room_def)
  qed (simp add: len)
qed

lemma fast_outer_x2_ok:
  assumes "lengths_ok L M" "x2_built L dt" "length lns = 4" "apart lns"
    and f: "follows L M (lns ! 0) (lns ! 1)" "follows L M (lns ! 1) (lns ! 2)" "follows L M (lns ! 2) (lns ! 3)"
    and "\<forall>ln\<in>set lns. lane_data L M region (length out) ln" "some_lanes L M region out lns sts"
    and "lane_end (lns ! 3) < last_op sts + n"
  shows "\<exists>sts' out'. fast_outer_x2 n tlog dt region (map lane_end lns) (sts, out) = Ok (sts', out')
    \<and> changed_in (parts_of lns) out out' \<and> some_lanes L M region out' lns sts'"
  using assms(8-10)
proof (induction n arbitrary: sts out)
  case 0
  have "length sts = 4" using list_all2_lengthD [OF "0.prems"(2)] assms(3) by simp
  then have "ws_op (sts ! 3) \<le> lane_end (lns ! 3)"
    using list_all2_nthD [OF some_lanes_room(3) [OF "0.prems"(2) refl], of 3] assms(3) by simp
  then show ?case using "0.prems"(3) by (simp add: last_op_def)
next
  case (Suc n)
  define i where "i = x2_iters (map lane_end lns) sts"
  note rm = some_lanes_room [OF Suc.prems(2) i_def [symmetric]]
  show ?case
  proof (cases i)
    case 0
    then show ?thesis using rm(3) Suc.prems(2) by (auto simp: i_def Let_def)
  next
    case (Suc j)
    have "length sts = 4" using list_all2_lengthD [OF Suc.prems(2)] assms(3) by simp
    then obtain a b c e where sts: "sts = [a, b, c, e]" by (auto simp: numeral_eq_Suc length_Suc_conv)
    obtain l0 l1 l2 l3 where lns: "lns = [l0, l1, l2, l3]" using assms(3) by (auto simp: numeral_eq_Suc length_Suc_conv)
    have r8: "8 \<le> 10 * i" using Suc by simp
    have at: "\<exists>k. lane_at L M region out k 0 8 l0 a" "\<exists>k. lane_at L M region out k 0 8 l1 b" "\<exists>k. lane_at L M region out k 0 8 l2 c"
      using Suc.prems(2) by (simp_all add: sts lns)
    have "ws_ip a \<le> ws_ip b" "ws_ip b \<le> ws_ip c" "ws_ip c \<le> ws_ip e"
      using at lanes_ordered [OF f(1), of region "length out" out] lanes_ordered [OF f(2), of region "length out" out]
        lanes_ordered [OF f(3), of region "length out" out] r8 rm(1) Suc.prems(1) unfolding sts lns by auto
    then have cr: "\<not> streams_cross sts" "\<forall>st\<in>set sts. 7 * Suc j \<le> ws_ip st" using rm(2) Suc by (auto simp: sts streams_cross_def)
    from fast_inner_x2_ok [OF assms(1-4) Suc.prems(1) rm(1) [unfolded Suc] cr(2) order_refl] obtain sts1 out1 where
      r: "fast_inner (Suc j) (last_op sts + Suc j * 5) (fast_iteration_x2 dt region) (sts, out) = Ok (sts1, out1)"
      "changed_in (parts_of lns) out out1" "rooms L M region out1 0 8 lns sts1" "last_op sts + Suc j * 5 \<le> last_op sts1" by blast
    have sl: "some_lanes L M region out1 lns sts1" by (rule lanes_changed [OF r(3)]) (auto simp: lane_room_def)
    have "fast_outer_x2 (Suc n) tlog dt region (map lane_end lns) (sts, out) = fast_outer_x2 n tlog dt region (map lane_end lns) (sts1, out1)"
      unfolding fast_outer_x2.simps i_def [symmetric] Let_def Suc r(1) using cr(1) rm(3) by simp
    moreover have "\<exists>sts' out'. fast_outer_x2 n tlog dt region (map lane_end lns) (sts1, out1) = Ok (sts', out')
      \<and> changed_in (parts_of lns) out1 out' \<and> some_lanes L M region out' lns sts'"
      by (rule Suc.IH [OF _ sl]) (use Suc.prems(1,3) r(4) changed_in_length [OF r(2)] in simp_all)
    ultimately show ?thesis using changed_in_same [OF r(2)] by fastforce
  qed
qed

section \<open>The four streams\<close>

text \<open>The slices of a section follow each other, and so do the codes in them.\<close>

lemma bounds_chained:
  assumes "parse_stream_bounds n body = Ok bounds"
  obtains a b c d e where "bounds = [(a, b), (b, c), (c, d), (d, e)]"
  using assms by (auto simp: parse_stream_bounds_def Let_def split: if_splits)

lemma slice_codes:
  assumes "stream_of L M d (slice_of source (a, e))" "a \<le> e" "e \<le> length source"
  shows "8 * a + length (codes (huff_code L M) (rev d)) \<le> 8 * e"
proof -
  obtain z where "bytes_bits (slice_of source (a, e)) = codes (huff_code L M) (rev d) @ True # replicate z False"
    using assms(1) by (auto simp: stream_of_def)
  from arg_cong [OF this, of length] have "length (codes (huff_code L M) (rev d)) + Suc z = 8 * (e - a)"
    using assms(2,3) by (simp add: slice_of_def)
  then show ?thesis using assms(2) by linarith
qed

lemma four_follow:
  assumes "6 \<le> length dat" "parse_stream_bounds (length dat) body = Ok bounds"
    and "laid_out L M body bounds (segment_ends (length dat)) 0 (quarters dat)"
  defines "lns \<equiv> lanes_of bounds 0 (quarters dat)"
  shows "follows L M (lns ! 0) (lns ! 1)" "follows L M (lns ! 1) (lns ! 2)" "follows L M (lns ! 2) (lns ! 3)"
    "map lane_end lns = segment_ends (length dat)"
proof -
  obtain d1 d2 d3 d4 where q: "quarters dat = [d1, d2, d3, d4]" by (simp add: quarters_def Let_def)
  let ?n = "(length dat + 3) div 4"
  have len: "length d1 = ?n" "length d2 = ?n" "length d3 = ?n" "length d4 = length dat - ?n * 3" "?n * 3 \<le> length dat"
    using quarters_split(2) [OF assms(1)] quarter_le [OF assms(1)] unfolding q by simp_all
  obtain a b c d e where bs: "bounds = [(a, b), (b, c), (c, d), (d, e)]" by (rule bounds_chained [OF assms(2)])
  have lns: "lns = [(a, 0, d1), (b, ?n, d2), (c, ?n + ?n, d3), (d, ?n + ?n + ?n, d4)]" by (simp add: lns_def bs q len)
  have st: "stream_of L M d1 (slice_of body (a, b))" "stream_of L M d2 (slice_of body (b, c))" "stream_of L M d3 (slice_of body (c, d))"
    "a \<le> b" "b \<le> c" "c \<le> d" "b \<le> length body" "c \<le> length body" "d \<le> length body"
    using assms(3) by (simp_all add: bs q segment_ends_def Let_def)
  show "follows L M (lns ! 0) (lns ! 1)" "follows L M (lns ! 1) (lns ! 2)" "follows L M (lns ! 2) (lns ! 3)"
    using slice_codes [OF st(1,4,7)] slice_codes [OF st(2,5,8)] slice_codes [OF st(3,6,9)] by (simp_all add: lns follows_def)
  show "map lane_end lns = segment_ends (length dat)"
    using len by (simp add: lns lane_end_def first_of_def data_len_def segment_ends_def Let_def)
qed

lemma interleaved_x2_ok:
  assumes "lengths_ok L M" "table_built L M t" "6 \<le> length dat" "parse_stream_bounds (length dat) body = Ok bounds"
    and b: "laid_out L M body bounds (segment_ends (length dat)) 0 (quarters dat)" "list_all (\<lambda>b. 6 \<le> fst b) bounds" "list_all (\<lambda>(a, e). 8 \<le> e - a) bounds"
    and x: "x2_built L (ht_x2 t)"
  shows "interleaved t body bounds (length dat) = Ok dat"
proof -
  let ?lns = "lanes_of bounds 0 (quarters dat)" and ?out = "replicate (length dat) None :: out_buf"
  note fl = four_lanes [OF assms(3) b(1,3)] and ff = four_follow [OF assms(3,4) b(1)]
  obtain sts where s: "init_windows body bounds (segment_starts (length dat)) = Ok sts" "lanes_at L M body ?out 0 0 8 ?lns sts"
    using fl(5) by blast
  have sl: "some_lanes L M body ?out ?lns sts" by (rule lanes_changed [OF s(2)]) blast
  have "lane_end (?lns ! 3) < last_op sts + (length dat + 1)" using fl(4) by (simp add: lane_end_def)
  moreover have "\<forall>ln\<in>set ?lns. lane_data L M body (length ?out) ln" using fl(3) by simp
  ultimately obtain sts1 out1 where
    f: "fast_outer_x2 (length dat + 1) M (ht_x2 t) body (map lane_end ?lns) (sts, ?out) = Ok (sts1, out1)"
    "changed_in (parts_of ?lns) ?out out1" "some_lanes L M body out1 ?lns sts1"
    using fast_outer_x2_ok [OF assms(1) x fl(1,2) ff(1-3) _ sl, of "length dat + 1" M] by blast
  have "length out1 = length dat" using changed_in_length [OF f(2)] by simp
  from finish_four [OF assms(1-3) b f(3) this] obtain out2 where
    e: "finish_streams (ht_packed t) M body bounds (segment_ends (length dat)) sts1 out1 = Ok out2" "published out2 = Ok dat" by blast
  have "ht_max_num_bits t = M" "length (ht_packed t) = 2 ^ M" "length (ht_x2 t) = 2 ^ 11"
    using assms(1,2) length_table [OF assms(1)] x by (simp_all add: table_built_def x2_built_def)
  moreover from this have "ht_x2 t \<noteq> []" by auto
  ultimately show ?thesis using s(1) f(1) [unfolded ff(4)] e by (simp add: interleaved_def decompress_4streams_interleaved_x2_def)
qed

text \<open>The double-symbol table of a decoder: none, or one that says what the codes say.\<close>

definition x2_ok :: "nat list \<Rightarrow> HuffmanTable \<Rightarrow> bool" where
  "x2_ok L t \<longleftrightarrow> ht_x2 t = [] \<or> x2_built L (ht_x2 t)"

lemma interleaved_both_ok:
  assumes "lengths_ok L M" "table_built L M t" "x2_ok L t" "6 \<le> length dat" "parse_stream_bounds (length dat) body = Ok bounds"
    and "laid_out L M body bounds (segment_ends (length dat)) 0 (quarters dat)" "list_all (\<lambda>b. 6 \<le> fst b) bounds" "list_all (\<lambda>(a, e). 8 \<le> e - a) bounds"
  shows "interleaved t body bounds (length dat) = Ok dat"
  using assms(3) interleaved_ok [OF assms(1,2,4,6-8)] interleaved_x2_ok [OF assms(1,2,4-8)] by (auto simp: x2_ok_def)

end
