(* ===== verification/Literals_Body.thy ===== *)
theory Literals_Body
  imports Literals_X2
begin

text \<open>
  The Huffman body of a literals section as a whole: one stream or four, whichever path the decoder takes.
\<close>

section \<open>Any number of streams\<close>

definition encode_body :: "HuffEncTable \<Rightarrow> nat \<Rightarrow> bytes \<Rightarrow> BitWriter \<Rightarrow> (unit, BitWriter) res" where
  "encode_body t streams dat w = (if streams = 1 then huff_encode_stream t dat w else encode4x_only t dat w)"

definition decode_body :: "HuffmanTable \<Rightarrow> nat \<Rightarrow> bytes \<Rightarrow> nat \<Rightarrow> bytes \<Rightarrow> (DecompressLiteralsError, bytes) res" where
  "decode_body t streams source n target = (if streams = 4 then four_streams t source n target
     else rbind (rassert (streams = 1)) (\<lambda>_. single_stream_literals t source n target))"

lemma four_streams_ok:
  assumes "lengths_ok L M" "table_built L M t" "body_of L M dat body" "6 \<le> length dat" "x2_ok L t"
  shows "four_streams t body (length dat) target = Ok (target @ dat)"
proof -
  obtain bounds where b: "parse_stream_bounds (length dat) body = Ok bounds"
    "laid_out L M body bounds (segment_ends (length dat)) 0 (quarters dat)" "list_all (\<lambda>b. 6 \<le> fst b) bounds"
    by (rule body_bounds [OF assms(3,4)])
  show ?thesis
  proof (cases "fast_gate t (length dat) bounds")
    case True
    then have "list_all (\<lambda>(a, e). 8 \<le> e - a) bounds" by (simp add: fast_gate_def)
    from interleaved_both_ok [OF assms(1,2,5,4) b this] show ?thesis using b(1) True by (simp add: four_streams_def)
  next
    case False
    then show ?thesis using four_streams_slow [OF assms(1-4)] b(1) by simp
  qed
qed

lemma body_size:
  assumes "body_of L M dat body" "lengths_ok L M"
  shows "8 * length body \<le> 11 * length dat + 80"
proof -
  obtain s1 s2 s3 s4 where b: "body = jump_table [s1, s2, s3, s4] @ s1 @ s2 @ s3 @ s4"
    "list_all2 (stream_of L M) (quarters dat) [s1, s2, s3, s4]" using assms(1) by (auto simp: body_of_def)
  define n where "n = (length dat + 3) div 4"
  have "quarters dat = [take n dat, take n (drop n dat), take n (drop (n * 2) dat), drop (n * 3) dat]"
    by (simp add: quarters_def n_def Let_def)
  then have st: "stream_of L M (take n dat) s1" "stream_of L M (take n (drop n dat)) s2" "stream_of L M (take n (drop (n * 2) dat)) s3"
    "stream_of L M (drop (n * 3) dat) s4" using b(2) by simp_all
  note z = stream_size(1) [OF st(1) assms(2)] stream_size(1) [OF st(2) assms(2)] stream_size(1) [OF st(3) assms(2)] stream_size(1) [OF st(4) assms(2)]
  have "length (take n dat) + length (take n (drop n dat)) + length (take n (drop (n * 2) dat)) + length (drop (n * 3) dat) = length dat"
    using arg_cong [OF four_parts [of n dat], of length] by simp
  moreover have "length body = 6 + length s1 + length s2 + length s3 + length s4" by (simp add: b(1) jump_table_def)
  ultimately show ?thesis using z by linarith
qed

lemma body_roundtrip:
  assumes w: "bw_inv w" "length (bw_bits w) mod 8 = 0" and t: "enc_built L M et" "lengths_ok L M" "table_built L M dt" "x2_ok L dt"
    and dat: "\<forall>s\<in>set dat. unat s < length L \<and> 0 < L ! unat s" "length dat \<le> 131072"
    and streams: "streams = 1 \<or> streams = 4 \<and> 6 \<le> length dat"
  shows "\<exists>w' body. encode_body et streams dat w = Ok w' \<and> bw_inv w' \<and> bw_bits w' = bw_bits w @ bytes_bits body
    \<and> decode_body dt streams body (length dat) target = Ok (target @ dat) \<and> 8 * length body \<le> 11 * length dat + 80"
proof (cases "streams = 1")
  case True
  obtain w' body where e: "huff_encode_stream et dat w = Ok w'" "bw_inv w'" "bw_bits w' = bw_bits w @ bytes_bits body" "stream_of L M dat body"
    using encode_stream_appends [OF w t(1,2) dat(1)] by (elim exE conjE) (rule that)
  show ?thesis
    using e single_stream_ok [OF t(2,3) e(4), of target] stream_size(1) [OF e(4) t(2)] True
    by (intro exI [of _ w'] exI [of _ body]) (simp add: encode_body_def decode_body_def)
next
  case False
  then have s: "streams = 4" "6 \<le> length dat" using streams by simp_all
  obtain w' body where e: "encode4x_only et dat w = Ok w'" "bw_inv w'" "bw_bits w' = bw_bits w @ bytes_bits body" "body_of L M dat body"
    using encode4x_ok [OF w t(1,2) dat(1) s(2) dat(2)] by (elim exE conjE) (rule that)
  show ?thesis
    using e four_streams_ok [OF t(2,3) e(4) s(2) t(4), of target] body_size [OF e(4) t(2)] s(1)
    by (intro exI [of _ w'] exI [of _ body]) (simp add: encode_body_def decode_body_def)
qed

end
