(* ===== verification/Spec2Isabelle.thy ===== *)
theory Spec2Isabelle
  imports Prelude Bit_Reader Bit_Reader_Reversed Bit_Writer Bit_Roundtrip
    Fse_Decoder Fse_Table Fse_Encoder Fse_Enc_Table Fse_Roundtrip Fse_Normalize
    Io Frame_Header Block_Header Literals_Section Sequences_Header Seq_Codes
    Seq_Decoder Seq_Window Seq_Encoder Seq_Roundtrip Fse_Parse Seq_Tables Seq_Safety Seq_Failure
    Fse_Ncount Sequences_Roundtrip Sequences_Section Xxh64 Ring_Buffer Ring_Refine
    Match_Copy Decode_Buffer Decode_Refine Drain_Refine Sequence_Execution Sequence_Run Seq_Emit Packed_Writer
    Huff_Decoder Huff_Table Huff_Weights Huff_Encoder Huff_Codes Huff_Stream Huff_X2
    Huff_X2_Table Literals_Decoder Literals_Roundtrip Literals_Four Literals_Fast Literals_Body
begin

text \<open>
  A verification library for zstdx (\<open>src/crates/zstdx\<close>), an encoder and decoder of the Zstandard
  format (RFC 8878) in Rust.  Paths below are relative to \<open>src/crates/zstdx/src\<close>.

  \<^bold>\<open>The program.\<close>  A frame is a header and a list of blocks.  A compressed block holds a literals
  section (bytes, mostly Huffman coded in one or four streams) and a sequences section (triples of
  literal length, match length and offset, coded with three interleaved FSE streams).  The encoder's
  match finder emits sequences and literals; the block writer chooses tables and writes the two
  sections with a bit writer.  The decoder parses the headers, installs the tables a block names,
  decodes literals and sequences with bit readers that run backwards, and executes the sequences
  against a history in a ring buffer, from which the output is drained and checksummed.

  \<^bold>\<open>Conventions.\<close>
  \<^item> \<open>u8\<close> to \<open>u64\<close> are words where the code computes with their width (bit containers, packed
    entries, wrapping base lines, checksums); counters, indices and lengths (\<open>usize\<close>, and \<open>u32\<close>
    counts that are only compared) are \<open>nat\<close>, with every subtraction of the code guarded.
    Signed counts of the distributions are \<open>int\<close>.  Buffers are lists; a heap is not modelled.
  \<^item> A fallible operation returns \<open>('e, 'a) res\<close>: \<open>Ok\<close>, \<open>Err\<close> or \<open>Panic\<close>.  \<open>Panic\<close> stands for a failed
    assertion (debug assertions included), an index out of range, an overflow of checked arithmetic
    and an unchecked raw access outside its buffer: theorems that exclude \<open>Panic\<close> exclude all of
    them.  State is passed and returned.  After \<open>Err\<close> the state is dropped, except where code
    continues to use it: the table scratch (\<open>Seq_Failure\<close>) and the drains (\<open>Decode_Buffer\<close>).
  \<^item> Loops are structural recursion where they count, \<open>function\<close> with a measure where they consume
    bits or bytes, and \<open>partial_function (option)\<close> where they may not end (\<open>read_exact_loop\<close>,
    \<open>write_all_loop\<close>, \<open>chunk_loop\<close>), so that not returning is the value \<open>None\<close>.  Fuel is used for the walk over
    occupied slots of a table (\<open>skip_occupied\<close>, table size many steps: the positions form a cycle
    of that length) and for the fast literal loops (one more than the output length: an iteration
    writes at least five bytes); exhausted fuel is \<open>None\<close> or \<open>Panic\<close>, and the theorems show that it
    is not exhausted.
  \<^item> Code outside the repository (\<open>std::io\<close> readers and writers, a caller's closure) is a parameter:
    a reader or writer is a state with a step function, and the contract of its trait is the
    locale named below.

  \<^bold>\<open>Bits\<close> (\<open>bit_io/\<close>).  \<open>Bit_Reader\<close>, \<open>Bit_Reader_Reversed\<close> and \<open>Bit_Writer\<close> model the three files; each
  is refined to bit strings (\<open>br_bits\<close>, \<open>rr_stream\<close>, \<open>bw_bits\<close>) over all exits of its refill and flush
  paths.  \<open>Packed_Writer\<close> models the batched Huffman code writer of \<open>bit_writer.rs\<close> (the two
  containers, the four-bit bulk path) and shows that it appends the same codes as single writes.
  \<open>Bit_Roundtrip\<close> reads back what was written.

  \<^bold>\<open>FSE\<close> (\<open>fse/\<close>).  \<open>Fse_Decoder\<close>: table construction, distribution parser, state.  \<open>Fse_Table\<close> gives the
  abstract table of a distribution (\<open>table_for\<close>) and shows that the construction builds it and
  that the intervals of a symbol tile the states.  \<open>Fse_Encoder\<close>, \<open>Fse_Enc_Table\<close>: the encoder's table
  in reused buffers and its step, the inverse of the decoder's (\<open>Fse_Roundtrip\<close>, through the locale
  \<open>tans_coder\<close> of coupled coders).  \<open>Fse_Normalize\<close>: histogram normalization.  \<open>Fse_Parse\<close>: safety of the
  parser on any bytes.  \<open>Fse_Ncount\<close>: the serializer and its round trip.

  \<^bold>\<open>Headers\<close> (\<open>decoding/frame.rs\<close>, \<open>encoding/frame_header.rs\<close>, \<open>block_header.rs\<close>, \<open>blocks/\<close>).  \<open>Io\<close> models
  readers and writers with \<open>read_exact\<close> and \<open>write_all\<close>; \<open>Frame_Header\<close>, \<open>Block_Header\<close>, \<open>Literals_Section\<close> and
  \<open>Sequences_Header\<close> model parser and writer of each header with their round trips.

  \<^bold>\<open>Sequences\<close> (\<open>decoding/sequence_section_decoder.rs\<close>, \<open>decoding/scratch.rs\<close>,
  \<open>encoding/block_enc/compressed.rs\<close>, \<open>encoding/seq_codes.rs\<close>).  \<open>Seq_Codes\<close>: codes and extra bits.  \<open>Seq_Decoder\<close>:
  installing and packing the tables, the bit window, steps and loop; \<open>Seq_Window\<close> refines the window
  to the bit string.  \<open>Seq_Encoder\<close>: the three interleaved channels.  \<open>Seq_Roundtrip\<close>,
  \<open>Sequences_Roundtrip\<close> and \<open>Sequences_Section\<close> build the round trip of a whole section with all table
  modes.  \<open>Seq_Tables\<close> and \<open>Seq_Safety\<close>: the invariant of the scratch (\<open>fs_inv\<close>) and safety on any input.
  \<open>Seq_Failure\<close>: the same operations with the state a failed call leaves, what of the invariant
  survives (\<open>fs_shape\<close>), and the out-of-range read that a repeated table after a rejected one causes.

  \<^bold>\<open>History and execution\<close> (\<open>decoding/ringbuffer.rs\<close>, \<open>decode_buffer.rs\<close>, \<open>sequence_execution.rs\<close>,
  \<open>encoding/match_generator/tables.rs\<close>).  \<open>Ring_Buffer\<close> models the ring over a memory whose bytes may be
  uninitialized, with its overshooting copies of 16-byte chunks; \<open>Ring_Refine\<close> refines it to a byte list under \<open>ring_inv\<close>.
  \<open>Match_Copy\<close>, \<open>Decode_Buffer\<close>, \<open>Decode_Refine\<close> and \<open>Drain_Refine\<close>: matches into a dictionary and the
  history, and drains into any sink.  \<open>Sequence_Execution\<close> and \<open>Sequence_Run\<close>: the offset history and
  the execution against a byte-wise reference run.  \<open>Seq_Emit\<close>: emission of a parse, and the
  composition of emission, section writer, section decoder and execution into one round trip.
  \<open>Xxh64\<close>: the checksum (\<open>xxh64.rs\<close>) with its fused append.

  \<^bold>\<open>Literals\<close> (\<open>huff0/\<close>, \<open>decoding/literals_section_decoder.rs\<close>).  \<open>Huff_Decoder\<close>, \<open>Huff_Table\<close>, \<open>Huff_Weights\<close>: the
  decoding table, its canonical layout, safety of its parser.  \<open>Huff_X2\<close>, \<open>Huff_X2_Table\<close>: the
  double-symbol table and the window-wise meaning of its entries.  \<open>Huff_Encoder\<close>, \<open>Huff_Codes\<close>,
  \<open>Huff_Stream\<close>: canonical codes and streams of the encoder.  \<open>Literals_Decoder\<close> models the section
  decoder with its four interleaved loops; \<open>Literals_Roundtrip\<close>, \<open>Literals_Four\<close>, \<open>Literals_Fast\<close> and
  \<open>Literals_Body\<close> show that it decodes what the encoder writes, on the slow path, on the
  interleaved path of the single-symbol table and its tails.

  \<^bold>\<open>Interfaces.\<close>  \<open>bit_sink\<close> (a writer that appends bits; the bit writer), \<open>tans_coder\<close> (coupled state
  coders; the FSE tables and their interleaved pair), \<open>byte_source\<close> (the contract of \<open>Read\<close>; slices and
  \<open>Take\<close>), \<open>byte_sink\<close>, \<open>dump_sink\<close> and \<open>full_sink\<close> (what a drain may call; writers, vectors, bounded
  targets) and \<open>byte_store\<close> (a growing history; the ring buffer).  Each is interpreted on the model's
  own definitions in the theory that provides them.

  \<^bold>\<open>Bounds.\<close>  A block has at most 128 KiB of literals and offset codes are at most 31; the sequence
  theorems state the bound on the number of sequences and offsets they need, and the ring theorems a
  content below \<open>2^62\<close>, under which the growth of its capacity does not overflow.

  \<^bold>\<open>Not modelled.\<close>  The match finders and their tables, the optimal parser and long-distance matching
  (heuristics: the theorems hold for every right parse, which is a parameter); the choice of table
  modes, literals form and block splits, which rest on floating-point costs (arguments of the modelled
  writers); the tree construction from counts of the Huffman encoder; the frame and block drivers, the flat output buffer with the
  fused decode-and-execute loop, pools, threads and streaming adapters; runtime SIMD variants of
  modelled scalar code, the assembly of the literal loop included; allocation failure; the C interface, the command
  line, dictionary training, benchmarks and tests.  \<open>copy_nonoverlapping\<close> is a copy: that its ranges
  do not overlap is not checked.  A parser of a header drops the header it has begun to fill when it fails.
\<close>

end
